(* ===== verification/NTP_Prelude.thy ===== *)
theory NTP_Prelude
  imports Main "HOL-Library.Word" "HOL-Library.Signed_Division"
begin

text \<open>
  Shared vocabulary of the development: the machine integers of the C sources and the
  truncating division of C.

  Unsigned C integers (\<^verbatim>\<open>u_int32\<close>, \<^verbatim>\<open>u_short\<close>, \<^verbatim>\<open>u_char\<close>, \<^verbatim>\<open>u_int64\<close>) are words of that width.
  Signed C integers are mathematical integers: every assignment whose value might leave the
  width is wrapped by \<open>s32\<close> or \<open>s64\<close>, two's complement.  Signed overflow is undefined
  in C; the properties of the development carry the range hypotheses that exclude it, so that
  the wrapped value and the mathematical one agree where C defines the result.
  The platform is the usual one of the build: 32-bit \<^verbatim>\<open>int\<close>, 64-bit \<^verbatim>\<open>long\<close>
  and \<^verbatim>\<open>time_t\<close>, \<^verbatim>\<open>HAVE_INT64\<close> defined.
\<close>

unbundle bit_operations_syntax

named_theorems width_simps \<open>rules that read, wrap and unwrap machine integers\<close>

type_synonym u_char = "8 word"
type_synonym u_short = "16 word"
type_synonym u_int32 = "32 word"
type_synonym u_int64 = "64 word"

section \<open>Signed machine integers\<close>

definition s32 :: "int \<Rightarrow> int" where
  "s32 x = (x + 2147483648) mod 4294967296 - 2147483648"

definition s64 :: "int \<Rightarrow> int" where
  "s64 x = (x + 9223372036854775808) mod 18446744073709551616 - 9223372036854775808"

definition in_s32 :: "int \<Rightarrow> bool" where
  "in_s32 x \<longleftrightarrow> - 2147483648 \<le> x \<and> x < 2147483648"

definition in_s64 :: "int \<Rightarrow> bool" where
  "in_s64 x \<longleftrightarrow> - 9223372036854775808 \<le> x \<and> x < 9223372036854775808"

lemma s32_id [width_simps]: "in_s32 x \<Longrightarrow> s32 x = x"
  by (simp add: s32_def in_s32_def)

lemma s64_id [width_simps]: "in_s64 x \<Longrightarrow> s64 x = x"
  by (simp add: s64_def in_s64_def)

lemma in_s32_s32 [simp]: "in_s32 (s32 x)"
  by (simp add: s32_def in_s32_def)

lemma in_s64_s64 [simp]: "in_s64 (s64 x)"
  by (simp add: s64_def in_s64_def)

lemma s32_eq_sint: "s32 x = sint (word_of_int x :: u_int32)"
  by (simp add: s32_def sint_sbintrunc' signed_take_bit_eq_take_bit_shift take_bit_eq_mod)

lemma s64_eq_sint: "s64 x = sint (word_of_int x :: u_int64)"
  by (simp add: s64_def sint_sbintrunc' signed_take_bit_eq_take_bit_shift take_bit_eq_mod)

lemma s32_cong: "x mod 4294967296 = y mod 4294967296 \<Longrightarrow> s32 x = s32 y"
  by (simp add: s32_def mod_add_cong [of x _ y 2147483648 2147483648])

lemma s32_mod: "s32 x mod 4294967296 = x mod 4294967296"
  by (simp add: s32_def mod_simps)

lemma s64_mod: "s64 x mod 18446744073709551616 = x mod 18446744073709551616"
  by (simp add: s64_def mod_simps)

lemma s32_add_left [simp]: "s32 (s32 x + y) = s32 (x + y)"
  by (rule s32_cong) (metis mod_add_left_eq s32_mod)

lemma s32_add_right [simp]: "s32 (x + s32 y) = s32 (x + y)"
  using s32_add_left [of y x] by (simp add: add.commute)

lemma s64_cong: "x mod 18446744073709551616 = y mod 18446744073709551616 \<Longrightarrow> s64 x = s64 y"
  by (simp add: s64_def mod_add_cong [of x _ y 9223372036854775808 9223372036854775808])

lemma s64_add_left [simp]: "s64 (s64 x + y) = s64 (x + y)"
  by (rule s64_cong) (metis mod_add_left_eq s64_mod)

section \<open>Truncating division\<close>

text \<open>
  C divides towards zero.  Several routines of the sources turn that into a floor division
  by hand: divide, take the remainder, and correct both when the remainder is negative.
  \<open>c_floor_divmod\<close> is that idiom.
\<close>

definition c_floor_divmod :: "int \<Rightarrow> int \<Rightarrow> int \<times> int" where
  "c_floor_divmod x c =
     (let q = x sdiv c; r = x smod c
      in if r < 0 then (q - 1, r + c) else (q, r))"

lemma sdiv_nonneg [width_simps]: "0 \<le> x \<Longrightarrow> 0 \<le> c \<Longrightarrow> (x::int) sdiv c = x div c"
  by (cases "x = 0"; cases "c = 0") (auto simp: signed_divide_int_def sgn_if)

lemma smod_nonneg [width_simps]: "0 \<le> x \<Longrightarrow> (x::int) smod c = x mod \<bar>c\<bar>"
  by (cases "x = 0") (auto simp: signed_modulo_int_def sgn_if)

lemma smod_neg: "x < 0 \<Longrightarrow> (x::int) smod c = - (- x mod \<bar>c\<bar>)"
  by (simp add: signed_modulo_int_def)

lemma sdiv_neg: "x < 0 \<Longrightarrow> 0 < c \<Longrightarrow> (x::int) sdiv c = - (- x div c)"
  by (simp add: signed_divide_int_def)

lemma c_floor_divmod_eq [width_simps]:
  assumes "0 < c"
  shows "c_floor_divmod x c = (x div c, x mod c)"
proof (cases "x < 0")
  case False
  with assms show ?thesis
    using pos_mod_sign [of c x] by (simp add: c_floor_divmod_def width_simps Let_def not_less)
next
  case True
  have q: "x sdiv c = - (- x div c)" and r: "x smod c = - (- x mod c)"
    using True assms by (simp_all add: sdiv_neg smod_neg)
  show ?thesis
  proof (cases "- x mod c = 0")
    case True
    then obtain k where "x = c * k" by (metis add.inverse_inverse dvd_minus_iff mod_0_imp_dvd dvdE)
    moreover have "- (c * k) div c = - k" for k
      using assms by (simp flip: mult_minus_right)
    ultimately show ?thesis
      using assms q r True by (simp add: c_floor_divmod_def Let_def)
  next
    case False
    then have "0 < - x mod c" using assms by (simp add: order_less_le)
    with assms q r False show ?thesis
      by (auto simp: c_floor_divmod_def Let_def zdiv_zminus1_eq_if zmod_zminus1_eq_if split: if_splits)
  qed
qed

section \<open>Pairs of 32-bit words as one 64-bit word\<close>

text \<open>
  Both the \<^verbatim>\<open>l_fp\<close> format and the \<^verbatim>\<open>vint64\<close> union split a 64-bit value into two 32-bit
  halves.  \<open>word_cat\<close> joins them; \<open>hi64\<close> is the weight of the upper half, a homomorphism,
  so that carries and borrows cancel by ring arithmetic.
\<close>

definition hi64 :: "u_int32 \<Rightarrow> u_int64" where
  "hi64 h = word_of_int (uint h * 4294967296)"

lemma hi64_word_of_int: "hi64 (word_of_int x) = word_of_int (x * 4294967296)"
proof -
  have "x * 4294967296 mod (4294967296 * 4294967296) = (x mod 4294967296) * 4294967296" for x :: int
    by (rule mod_mult_mult2)
  then show ?thesis
    unfolding hi64_def word_of_int_eq_iff by (simp add: take_bit_eq_mod uint_word_of_int_eq)
qed

lemma hi64_add: "hi64 (x + y) = hi64 x + hi64 y"
  using hi64_word_of_int [of "uint x + uint y"] unfolding hi64_def by (simp add: ring_distribs)

lemma hi64_minus: "hi64 (x - y) = hi64 x - hi64 y"
  using hi64_add [of "x - y" y] by simp

lemma hi64_0 [simp]: "hi64 0 = 0"
  by (simp add: hi64_def)

lemma hi64_1 [simp]: "hi64 1 = 4294967296"
  by (simp add: hi64_def)

lemma uint_add_carry:
  "uint (x + y :: u_int32) = uint x + uint y - of_bool (x + y < x) * 4294967296"
  using uint_lt2p [of x] uint_lt2p [of y] by (auto simp: uint_plus_if' word_less_def not_less)

lemma uint_sub_borrow:
  "uint (x - y :: u_int32) = uint x - uint y + of_bool (x < x - y) * 4294967296"
  using uint_lt2p [of x] uint_lt2p [of y] by (auto simp: uint_sub_if' word_less_def not_less)

lemma ucast_add_carry:
  "(ucast (x + y :: u_int32) :: u_int64) = ucast x + ucast y - hi64 (of_bool (x + y < x))"
  unfolding ucast_eq uint_add_carry by simp

lemma ucast_sub_borrow:
  "(ucast (x - y :: u_int32) :: u_int64) = ucast x - ucast y + hi64 (of_bool (x < x - y))"
  unfolding ucast_eq uint_sub_borrow by simp

lemma cat64: "(word_cat (h :: u_int32) (l :: u_int32) :: u_int64) = hi64 h + ucast l"
  unfolding word_cat_eq hi64_def by (simp add: push_bit_eq_mult)

lemma uint_cat64:
  "uint (word_cat (h :: u_int32) (l :: u_int32) :: u_int64) = uint h * 4294967296 + uint l"
  using uint_lt2p [of l] uint_lt2p [of h]
  by (simp add: cat64 hi64_def uint_word_ariths unsigned_ucast_eq take_bit_eq_mod)

lemma sint_u32_if:
  "sint (h :: u_int32) = (if uint h < 2147483648 then uint h else uint h - 4294967296)"
proof -
  have "sint h = s32 (uint h)" by (simp add: s32_eq_sint)
  then show ?thesis using uint_lt2p [of h] by (auto simp: s32_def mod_pos_geq)
qed

lemma sint_u64_if:
  "sint (h :: u_int64) =
     (if uint h < 9223372036854775808 then uint h else uint h - 18446744073709551616)"
proof -
  have "sint h = s64 (uint h)" by (simp add: s64_eq_sint)
  then show ?thesis using uint_lt2p [of h] by (auto simp: s64_def mod_pos_geq)
qed

lemma sint_word_of_int_s32 [width_simps]: "in_s32 x \<Longrightarrow> sint (word_of_int x :: u_int32) = x"
  by (simp add: s32_id flip: s32_eq_sint)

lemma uint_word_of_int_u32: "uint (word_of_int x :: u_int32) = x mod 4294967296"
  by (simp add: uint_word_of_int_eq take_bit_eq_mod)

lemma sint_cat64:
  "sint (word_cat (h :: u_int32) (l :: u_int32) :: u_int64) = sint h * 4294967296 + uint l"
proof (cases "uint h < 2147483648")
  case True
  then have "uint h * 4294967296 + uint l < 9223372036854775808"
    using uint_lt2p [of l] by simp
  with True show ?thesis by (simp add: sint_u32_if sint_u64_if uint_cat64)
next
  case False
  then have "\<not> uint h * 4294967296 + uint l < 9223372036854775808"
    using uint_ge_0 [of l] by linarith
  with False show ?thesis by (simp add: sint_u32_if sint_u64_if uint_cat64)
qed

lemma bit_sign32 [simp]: "bit (0x80000000 :: int) n \<longleftrightarrow> n = 31"
proof -
  have "(0x80000000 :: int) = 2 ^ 31" by simp
  then show ?thesis by (simp only: bit_exp_iff) auto
qed

section \<open>Units that start at the values of an increasing function\<close>

text \<open>
  Days in seconds, months and years in days, ISO years in weeks: each is a sequence of units,
  the start of unit \<open>u\<close> being \<open>start u\<close>, with a routine that splits a position into the unit it
  is in and the elapsed part of that unit.  The sources guarantee this only while the
  32-bit arithmetic does not overflow, so the contract is limited to the units between two bounds.
\<close>

definition in_unit :: "(int \<Rightarrow> int) \<Rightarrow> int \<Rightarrow> int \<Rightarrow> int \<Rightarrow> int \<Rightarrow> bool" where
  "in_unit start first_unit last_unit u r \<longleftrightarrow>
     first_unit \<le> u \<and> u < last_unit \<and> 0 \<le> r \<and> start u + r < start (u + 1)"

locale unit_scale =
  fixes start :: "int \<Rightarrow> int" and first_unit last_unit :: int
  assumes start_step: "first_unit \<le> u \<Longrightarrow> u < last_unit \<Longrightarrow> start u < start (u + 1)"
begin

lemma start_less:
  assumes "first_unit \<le> u" "u < w" "w \<le> last_unit"
  shows "start u < start w"
proof -
  have "u + int (Suc n) \<le> last_unit \<Longrightarrow> start u < start (u + int (Suc n))" for n
  proof (induction n)
    case 0
    then show ?case using assms start_step [of u] by simp
  next
    case (Suc n)
    with assms start_step [of "u + int (Suc n)"] show ?case by (simp add: add.assoc)
  qed
  from this [of "nat (w - u - 1)"] assms show ?thesis by simp
qed

lemma start_le: "first_unit \<le> u \<Longrightarrow> u \<le> w \<Longrightarrow> w \<le> last_unit \<Longrightarrow> start u \<le> start w"
  using start_less [of u w] by (cases "u = w") auto

text \<open>Every position between the bounds is in a unit.\<close>

lemma in_unit_exists:
  assumes "start first_unit \<le> d" "d < start last_unit" "first_unit \<le> last_unit"
  shows "\<exists>u. in_unit start first_unit last_unit u (d - start u)"
proof -
  have "\<exists>u. in_unit start first_unit last_unit u (d - start u)" if "d < start (first_unit + int n)" "first_unit + int n \<le> last_unit" for n
    using that
  proof (induction n)
    case 0
    with assms show ?case by simp
  next
    case (Suc n)
    show ?case
    proof (cases "d < start (first_unit + int n)")
      case False
      with Suc.prems show ?thesis
        by (intro exI [of _ "first_unit + int n"]) (auto simp: in_unit_def add.assoc add.commute [of 1])
    qed (use Suc in auto)
  qed
  from this [of "nat (last_unit - first_unit)"] assms show ?thesis by simp
qed

lemma in_unit_unique:
  assumes "in_unit start first_unit last_unit u r" "in_unit start first_unit last_unit w s" "start u + r = start w + s"
  shows "u = w \<and> r = s"
proof -
  have False if "in_unit start first_unit last_unit u r" "in_unit start first_unit last_unit w s" "start u + r = start w + s" "u < w" for u w r s
    using that start_le [of "u + 1" w] by (auto simp: in_unit_def)
  from this [of u r w s] this [of w s u r] assms show ?thesis
    by (cases u w rule: linorder_cases) auto
qed

end

locale unit_split = unit_scale +
  fixes split_at :: "int \<Rightarrow> int \<times> int"
  assumes split_sound:
    "start first_unit \<le> d \<Longrightarrow> d < start last_unit \<Longrightarrow> split_at d = (u, r)
     \<Longrightarrow> in_unit start first_unit last_unit u r \<and> start u + r = d"
begin

lemma split_join:
  assumes "in_unit start first_unit last_unit u r"
  shows "split_at (start u + r) = (u, r)"
proof -
  obtain w s where ws: "split_at (start u + r) = (w, s)" by fastforce
  have "start first_unit \<le> start u + r" "start u + r < start last_unit"
    using assms start_le [of first_unit u] start_le [of "u + 1" last_unit] by (auto simp: in_unit_def)
  from split_sound [OF this ws] assms in_unit_unique [of w s u r] ws show ?thesis by auto
qed

lemma split_mono:
  assumes "start first_unit \<le> d" "d \<le> e" "e < start last_unit"
  shows "fst (split_at d) \<le> fst (split_at e)"
proof (rule ccontr)
  obtain u r w s where uw: "split_at d = (u, r)" "split_at e = (w, s)" by fastforce
  assume "\<not> fst (split_at d) \<le> fst (split_at e)"
  with uw have "w + 1 \<le> u" by simp
  moreover have "in_unit start first_unit last_unit u r \<and> start u + r = d"
    using uw assms by (intro split_sound) auto
  moreover have "in_unit start first_unit last_unit w s \<and> start w + s = e"
    using uw assms by (intro split_sound) auto
  ultimately show False using assms(2) start_le [of "w + 1" u] by (auto simp: in_unit_def)
qed

end

section \<open>Seconds with a normalised fraction\<close>

text \<open>
  The contract that \<^verbatim>\<open>timespecops.h\<close> and \<^verbatim>\<open>timevalops.h\<close> share: a time is a pair of seconds and a
  fraction in units of \<open>1/base\<close>, and \<open>norm\<close> moves whole seconds out of the fraction.  The value
  of a pair is the integer \<open>sec x * base + frac x\<close>; everything proved here is about that value.
\<close>

locale fraction_time =
  fixes base :: int and mk :: "int \<Rightarrow> int \<Rightarrow> 'a" and sec frac :: "'a \<Rightarrow> int" and norm :: "'a \<Rightarrow> 'a"
  assumes base_pos: "1 < base"
    and sec_mk: "sec (mk s f) = s" and frac_mk: "frac (mk s f) = f" and mk_eta: "mk (sec x) (frac x) = x"
    and norm_spec: "in_s64 (sec x) \<Longrightarrow> in_s64 (frac x) \<Longrightarrow> in_s64 (sec x + frac x div base) \<Longrightarrow>
      norm x = mk (sec x + frac x div base) (frac x mod base)"
begin

lemma norm_value:
  assumes "in_s64 (sec x)" "in_s64 (frac x)" "in_s64 (sec x + frac x div base)"
  shows "sec (norm x) * base + frac (norm x) = sec x * base + frac x" "0 \<le> frac (norm x)" "frac (norm x) < base"
    "in_s64 (sec (norm x))"
  using assms base_pos by (simp_all add: norm_spec sec_mk frac_mk distrib_right)

text \<open>The normalised representation is unique, and comparing it componentwise compares the values.\<close>

lemma normal_less:
  assumes "0 \<le> frac a" "frac a < base" "0 \<le> frac b" "frac b < base"
  shows "sec a * base + frac a < sec b * base + frac b \<longleftrightarrow> sec a < sec b \<or> sec a = sec b \<and> frac a < frac b"
proof -
  have less: "sec a * base + frac a < sec b * base + frac b"
    if "sec a < sec b" "0 \<le> frac b" "frac a < base" for a b
  proof -
    have "(sec a + 1) * base \<le> sec b * base" using that base_pos by (intro mult_right_mono) auto
    with that show ?thesis by (simp add: distrib_right)
  qed
  from less [of a b] less [of b a] assms show ?thesis by (cases "sec a" "sec b" rule: linorder_cases) auto
qed

lemma normal_unique:
  assumes "0 \<le> frac a" "frac a < base" "0 \<le> frac b" "frac b < base" "sec a * base + frac a = sec b * base + frac b"
  shows "a = b"
proof -
  have "sec a = sec b \<and> frac a = frac b"
    using normal_less [of a b] normal_less [of b a] assms by auto
  then show ?thesis by (metis mk_eta)
qed

lemma norm_fixes:
  assumes "0 \<le> frac x" "frac x < base" "in_s64 (sec x)" "base < 9223372036854775808"
  shows "norm x = x"
  using assms by (simp add: norm_spec in_s64_def mk_eta)

end

text \<open>
  How both headers normalise: a division when the fraction is far out of range, then one of two loops that
  move one second per turn.  The loops and the result satisfy the contract above.
\<close>

locale fraction_loops =
  fixes base :: int and mk :: "int \<Rightarrow> int \<Rightarrow> 'a" and sec frac :: "'a \<Rightarrow> int" and up down norm :: "'a \<Rightarrow> 'a"
  assumes base_gt_1: "1 < base"
    and get_sec: "sec (mk s f) = s" and get_frac: "frac (mk s f) = f" and mk_get: "mk (sec x) (frac x) = x"
    and up_rec: "up (mk s f) = (if f + base < 0 then up (mk (s64 (s - 1)) (f + base)) else mk (s64 (s - 1)) (f + base))"
    and down_rec: "down (mk s f) = (if f - base \<ge> base then down (mk (s64 (s + 1)) (f - base)) else mk (s64 (s + 1)) (f - base))"
    and norm_rec: "norm (mk s f) =
      (let x = (if f < - 3 * base \<or> f > 3 * base then let z = f sdiv base in mk (s64 (s + z)) (f - z * base) else mk s f)
       in if frac x < 0 then up x else if frac x \<ge> base then down x else x)"
begin

lemma up_eq: "f < 0 \<Longrightarrow> up (mk s f) = mk (s64 (s + f div base)) (f mod base)"
proof (induction "nat (- f)" arbitrary: s f rule: less_induct)
  case less
  have d: "f div base = (f + base) div base - 1" "f mod base = (f + base) mod base"
    using base_gt_1 div_add_self2 [of base f] by simp_all
  show ?case
  proof (cases "f + base < 0")
    case True
    then have "up (mk s f) = up (mk (s64 (s - 1)) (f + base))" by (subst up_rec) simp
    also have "\<dots> = mk (s64 (s64 (s - 1) + (f + base) div base)) ((f + base) mod base)"
      using True base_gt_1 by (intro less) auto
    also have "s64 (s64 (s - 1) + (f + base) div base) = s64 (s + f div base)" unfolding d by (simp add: algebra_simps)
    finally show ?thesis by (simp only: d)
  next
    case False
    with less.prems have "(f + base) div base = 0" "(f + base) mod base = f + base"
      using div_pos_pos_trivial [of "f + base" base] mod_pos_pos_trivial [of "f + base" base] by auto
    with False show ?thesis unfolding d by (subst up_rec) simp
  qed
qed

lemma down_eq: "f \<ge> base \<Longrightarrow> down (mk s f) = mk (s64 (s + f div base)) (f mod base)"
proof (induction "nat f" arbitrary: s f rule: less_induct)
  case less
  have d: "f div base = (f - base) div base + 1" "f mod base = (f - base) mod base"
    using base_gt_1 div_add_self2 [of base "f - base"] mod_add_self2 [of "f - base" base] by simp_all
  show ?case
  proof (cases "f - base \<ge> base")
    case True
    then have "down (mk s f) = down (mk (s64 (s + 1)) (f - base))" by (subst down_rec) simp
    also have "\<dots> = mk (s64 (s64 (s + 1) + (f - base) div base)) ((f - base) mod base)"
      using True base_gt_1 by (intro less) auto
    also have "s64 (s64 (s + 1) + (f - base) div base) = s64 (s + f div base)" unfolding d by (simp add: algebra_simps)
    finally show ?thesis by (simp only: d)
  next
    case False
    with less.prems have "(f - base) div base = 0" "(f - base) mod base = f - base"
      using div_pos_pos_trivial [of "f - base" base] mod_pos_pos_trivial [of "f - base" base] by auto
    with False show ?thesis unfolding d by (subst down_rec) simp
  qed
qed

lemma settle_eq:
  assumes "in_s64 s"
  shows "(if f < 0 then up (mk s f) else if f \<ge> base then down (mk s f) else mk s f) = mk (s64 (s + f div base)) (f mod base)"
  using assms by (auto simp: up_eq down_eq s64_id div_pos_pos_trivial mod_pos_pos_trivial)

lemma norm_eq:
  assumes "in_s64 s"
  shows "norm (mk s f) = mk (s64 (s + f div base)) (f mod base)"
proof (cases "f < - 3 * base \<or> f > 3 * base")
  case True
  define z g where "z = f sdiv base" "g = f - z * base"
  have "g = f + base * (- z)" by (simp add: z_g_def)
  then have d: "g div base = f div base - z" "g mod base = f mod base"
    using base_gt_1 by (simp_all only: div_mult_self2 mod_mult_self2)
  have "norm (mk s f) = (if g < 0 then up (mk (s64 (s + z)) g) else if g \<ge> base then down (mk (s64 (s + z)) g) else mk (s64 (s + z)) g)"
    using True by (subst norm_rec) (simp add: get_frac Let_def z_g_def)
  also have "\<dots> = mk (s64 (s64 (s + z) + g div base)) (g mod base)" by (rule settle_eq) simp
  finally show ?thesis by (simp add: d)
next
  case False
  then have "norm (mk s f) = (if f < 0 then up (mk s f) else if f \<ge> base then down (mk s f) else mk s f)"
    by (subst norm_rec) (simp add: get_frac)
  then show ?thesis using settle_eq [OF assms] by simp
qed

end

sublocale fraction_loops \<subseteq> fraction_time base mk sec frac norm
proof unfold_locales
  show "norm x = mk (sec x + frac x div base) (frac x mod base)"
    if "in_s64 (sec x)" "in_s64 (frac x)" "in_s64 (sec x + frac x div base)" for x
    using norm_eq [of "sec x" "frac x"] that by (simp add: mk_get s64_id)
qed (simp_all add: base_gt_1 get_sec get_frac mk_get)

text \<open>
  Binary fractions of 32 bits have more resolution than nanoseconds or microseconds: rounding to the
  binary fraction and back is the identity, also for the complement.
\<close>

lemma binary_fraction_roundtrip:
  fixes n B :: int
  assumes "0 \<le> n" "n < 2 * B" "0 < B" "B < 1073741824"
  defines "f \<equiv> (n * 4294967296 + B) div (2 * B)"
  shows "(f * (2 * B) + 2147483648) div 4294967296 = n"
    "((4294967296 - f) * (2 * B) + 2147483648) div 4294967296 = 2 * B - n"
    "0 \<le> f" "f < 4294967296" "f = 0 \<longleftrightarrow> n = 0"
proof -
  define x m where "x = n * 4294967296 + B" "m = x mod (2 * B)"
  have m: "0 \<le> m" "m < 2 * B" using assms(3) by (simp_all add: x_m_def)
  have f: "f * (2 * B) = n * 4294967296 + B - m"
    using div_mult_mod_eq [of x "2 * B"] by (simp add: f_def x_m_def)
  show "(f * (2 * B) + 2147483648) div 4294967296 = n"
    using m assms(4) by (intro int_div_pos_eq [where r = "2147483648 + B - m"]) (simp_all add: f)
  show "((4294967296 - f) * (2 * B) + 2147483648) div 4294967296 = 2 * B - n"
    using m assms(4) f by (intro int_div_pos_eq [where r = "2147483648 - B + m"]) (simp_all add: algebra_simps)
  show f0: "0 \<le> f" using assms(1,3) by (simp add: f_def pos_imp_zdiv_nonneg_iff)
  show "f = 0 \<longleftrightarrow> n = 0"
  proof
    assume "f = 0"
    with f have "n * 4294967296 = m - B" by simp
    with m assms(4) have "n * 4294967296 < 1 * 4294967296" by linarith
    with assms(1) show "n = 0" by simp
  next
    assume "n = 0"
    with assms(3) show "f = 0" by (simp add: f_def div_pos_pos_trivial)
  qed
  have "f * (2 * B) < 4294967296 * (2 * B)" using f m assms(2,4) by linarith
  then show "f < 4294967296" using assms(3) by simp
qed

section \<open>Sequences of operations\<close>

text \<open>The results of the operations of a sequence and the last state, or \<open>None\<close> if one of them fails.\<close>

fun run_ops :: "('op \<Rightarrow> 's \<Rightarrow> ('r \<times> 's) option) \<Rightarrow> 'op list \<Rightarrow> 's \<Rightarrow> ('r list \<times> 's) option" where
  "run_ops step [] s = Some ([], s)"
| "run_ops step (op # ops) s =
     (case step op s of
        None \<Rightarrow> None
      | Some (r, s') \<Rightarrow> map_option (\<lambda>(rs, t). (r # rs, t)) (run_ops step ops s'))"

lemma run_ops_append:
  "run_ops step (ops @ ops') s = (case run_ops step ops s of None \<Rightarrow> None | Some (rs, t) \<Rightarrow> map_option (\<lambda>(rs', u). (rs @ rs', u)) (run_ops step ops' t))"
  by (induction ops arbitrary: s) (auto simp: option.map_comp o_def split_beta option.map_id0 split: option.split intro!: option.map_cong)

lemma run_ops_length: "run_ops step ops s = Some (rs, t) \<Longrightarrow> length rs = length ops"
  by (induction ops arbitrary: s rs) (auto split: option.splits)

lemma run_ops_inv:
  assumes "run_ops step ops s = Some (rs, t)" "I s"
    and "\<And>op s r t. op \<in> set ops \<Longrightarrow> I s \<Longrightarrow> step op s = Some (r, t) \<Longrightarrow> I t"
  shows "I t"
  using assms
proof (induction ops arbitrary: s rs)
  case (Cons op ops)
  obtain r u where u: "step op s = Some (r, u)" using Cons.prems(1) by (auto split: option.splits)
  then obtain rs' where "run_ops step ops u = Some (rs', t)" using Cons.prems(1) by (auto split: option.splits)
  moreover have "I u" using Cons.prems(3) [OF _ Cons.prems(2) u] by simp
  ultimately show ?case using Cons.IH [of u rs'] Cons.prems(3) by (metis list.set_intros(2))
qed simp

text \<open>A machine that implements an abstract one, operation by operation, implements it on sequences of operations.\<close>

locale refined_machine =
  fixes inv :: "'s \<Rightarrow> bool" and abs :: "'s \<Rightarrow> 'a" and good :: "'op \<Rightarrow> bool"
    and step :: "'op \<Rightarrow> 's \<Rightarrow> ('r \<times> 's) option" and astep :: "'op \<Rightarrow> 'a \<Rightarrow> ('r \<times> 'a) option"
  assumes sim: "inv s \<Longrightarrow> good op \<Longrightarrow> map_option (map_prod id abs) (step op s) = astep op (abs s)"
    and keep: "inv s \<Longrightarrow> good op \<Longrightarrow> step op s = Some (r, t) \<Longrightarrow> inv t"
begin

lemma run_sim: "inv s \<Longrightarrow> list_all good ops \<Longrightarrow> map_option (map_prod id abs) (run_ops step ops s) = run_ops astep ops (abs s)"
proof (induction ops arbitrary: s)
  case (Cons op ops)
  show ?case
  proof (cases "step op s")
    case None
    thus ?thesis using sim [of s op] Cons.prems by simp
  next
    case (Some x)
    obtain r t where x: "x = (r, t)" by fastforce
    hence "astep op (abs s) = Some (r, abs t)" "inv t" using Some sim [of s op] keep [of s op r t] Cons.prems by simp_all
    thus ?thesis using Cons Some x by (simp flip: Cons.IH add: option.map_comp o_def split_beta map_prod_def)
  qed
qed simp

lemma run_keep: "inv s \<Longrightarrow> list_all good ops \<Longrightarrow> run_ops step ops s = Some (rs, t) \<Longrightarrow> inv t"
  by (erule run_ops_inv) (auto simp: list_all_iff keep)

end

end
