(* ===== verification/NTP_Fp.thy ===== *)
theory NTP_Fp
  imports NTP_Prelude
begin

text \<open>
  The long fixed-point format of \<^verbatim>\<open>include/ntp_fp.h\<close>: two 32-bit words with the binary
  point between them, and the carry-propagating \<^verbatim>\<open>M_*\<close> and \<^verbatim>\<open>L_*\<close> macros on them.
  The abstraction \<open>lfp_val\<close> reads the pair as one 64-bit word; the refinement lemmas show that
  the macros are the 64-bit operations.
\<close>

section \<open>Data and macros\<close>

record l_fp =
  l_ui :: u_int32
  l_uf :: u_int32

text \<open>The signed view \<^verbatim>\<open>l_i\<close> of the integral part.\<close>

definition l_i :: "l_fp \<Rightarrow> int" where
  "l_i v = sint (l_ui v)"

definition FRACTION_PREC :: nat where
  "FRACTION_PREC = 32"

definition M_NEG :: "u_int32 \<Rightarrow> u_int32 \<Rightarrow> u_int32 \<times> u_int32" where
  "M_NEG v_i v_f = (let v_f = NOT v_f + 1 in (NOT v_i + of_bool (v_f = 0), v_f))"

definition M_ADD :: "u_int32 \<Rightarrow> u_int32 \<Rightarrow> u_int32 \<Rightarrow> u_int32 \<Rightarrow> u_int32 \<times> u_int32" where
  "M_ADD r_i r_f a_i a_f =
     (let add_t = r_f; r_f = r_f + a_f
      in (r_i + (a_i + of_bool (r_f < add_t)), r_f))"

definition M_ADD3 ::
  "u_int32 \<Rightarrow> u_int32 \<Rightarrow> u_int32 \<Rightarrow> u_int32 \<Rightarrow> u_int32 \<Rightarrow> u_int32 \<Rightarrow> u_int32 \<times> u_int32 \<times> u_int32" where
  "M_ADD3 r_o r_i r_f a_o a_i a_f =
     (let add_t = r_f;
          r_f = r_f + a_f;
          add_c = of_bool (r_f < add_t);
          r_i = r_i + add_c;
          add_c = of_bool (r_i < add_c);
          add_t = r_i;
          r_i = r_i + a_i;
          add_c = add_c OR of_bool (r_i < add_t)
      in (r_o + (a_o + add_c), r_i, r_f))"

definition M_SUB :: "u_int32 \<Rightarrow> u_int32 \<Rightarrow> u_int32 \<Rightarrow> u_int32 \<Rightarrow> u_int32 \<times> u_int32" where
  "M_SUB r_i r_f a_i a_f =
     (let sub_t = r_f; r_f = r_f - a_f
      in (r_i - (a_i + of_bool (sub_t < r_f)), r_f))"

definition M_RSHIFTU :: "u_int32 \<Rightarrow> u_int32 \<Rightarrow> u_int32 \<times> u_int32" where
  "M_RSHIFTU v_i v_f =
     (let v_f = drop_bit 1 v_f OR push_bit 31 v_i; v_i = drop_bit 1 v_i in (v_i, v_f))"

definition M_RSHIFT :: "u_int32 \<Rightarrow> u_int32 \<Rightarrow> u_int32 \<times> u_int32" where
  "M_RSHIFT v_i v_f =
     (let v_f = drop_bit 1 v_f OR push_bit 31 v_i;
          v_i = drop_bit 1 v_i OR (v_i AND 0x80000000)
      in (v_i, v_f))"

definition M_LSHIFT :: "u_int32 \<Rightarrow> u_int32 \<Rightarrow> u_int32 \<times> u_int32" where
  "M_LSHIFT v_i v_f =
     (let v_i = push_bit 1 v_i OR drop_bit 31 v_f; v_f = push_bit 1 v_f in (v_i, v_f))"

definition M_LSHIFT3 :: "u_int32 \<Rightarrow> u_int32 \<Rightarrow> u_int32 \<Rightarrow> u_int32 \<times> u_int32 \<times> u_int32" where
  "M_LSHIFT3 v_o v_i v_f =
     (let v_o = push_bit 1 v_o OR drop_bit 31 v_i;
          v_i = push_bit 1 v_i OR drop_bit 31 v_f;
          v_f = push_bit 1 v_f
      in (v_o, v_i, v_f))"

definition M_ADDUF :: "u_int32 \<Rightarrow> u_int32 \<Rightarrow> u_int32 \<Rightarrow> u_int32 \<times> u_int32" where
  "M_ADDUF r_i r_f uf = M_ADD r_i r_f 0 uf"

definition M_SUBUF :: "u_int32 \<Rightarrow> u_int32 \<Rightarrow> u_int32 \<Rightarrow> u_int32 \<times> u_int32" where
  "M_SUBUF r_i r_f uf = M_SUB r_i r_f 0 uf"

definition M_ADDF :: "u_int32 \<Rightarrow> u_int32 \<Rightarrow> int \<Rightarrow> u_int32 \<times> u_int32" where
  "M_ADDF r_i r_f f =
     (let add_f = s32 f
      in if add_f \<ge> 0 then M_ADD r_i r_f 0 (word_of_int add_f)
         else M_SUB r_i r_f 0 (word_of_int (- add_f)))"

definition M_ISNEG :: "u_int32 \<Rightarrow> bool" where
  "M_ISNEG v_i \<longleftrightarrow> v_i AND 0x80000000 \<noteq> 0"

definition M_ISGT :: "u_int32 \<Rightarrow> u_int32 \<Rightarrow> u_int32 \<Rightarrow> u_int32 \<Rightarrow> bool" where
  "M_ISGT a_i a_f b_i b_f \<longleftrightarrow> sint a_i > sint b_i \<or> (a_i = b_i \<and> a_f > b_f)"

definition M_ISGTU :: "u_int32 \<Rightarrow> u_int32 \<Rightarrow> u_int32 \<Rightarrow> u_int32 \<Rightarrow> bool" where
  "M_ISGTU a_i a_f b_i b_f \<longleftrightarrow> a_i > b_i \<or> (a_i = b_i \<and> a_f > b_f)"

definition M_ISHIS :: "u_int32 \<Rightarrow> u_int32 \<Rightarrow> u_int32 \<Rightarrow> u_int32 \<Rightarrow> bool" where
  "M_ISHIS a_i a_f b_i b_f \<longleftrightarrow> a_i > b_i \<or> (a_i = b_i \<and> a_f \<ge> b_f)"

definition M_ISGEQ :: "u_int32 \<Rightarrow> u_int32 \<Rightarrow> u_int32 \<Rightarrow> u_int32 \<Rightarrow> bool" where
  "M_ISGEQ a_i a_f b_i b_f \<longleftrightarrow>
     a_i - b_i + 0x80000000 > 0x80000000 \<or> (a_i = b_i \<and> a_f \<ge> b_f)"

definition M_ISEQU :: "u_int32 \<Rightarrow> u_int32 \<Rightarrow> u_int32 \<Rightarrow> u_int32 \<Rightarrow> bool" where
  "M_ISEQU a_i a_f b_i b_f \<longleftrightarrow> a_i = b_i \<and> a_f = b_f"

definition lfp_of :: "u_int32 \<times> u_int32 \<Rightarrow> l_fp" where
  "lfp_of p = \<lparr>l_ui = fst p, l_uf = snd p\<rparr>"

definition L_ADD :: "l_fp \<Rightarrow> l_fp \<Rightarrow> l_fp" where
  "L_ADD r a = lfp_of (M_ADD (l_ui r) (l_uf r) (l_ui a) (l_uf a))"

definition L_SUB :: "l_fp \<Rightarrow> l_fp \<Rightarrow> l_fp" where
  "L_SUB r a = lfp_of (M_SUB (l_ui r) (l_uf r) (l_ui a) (l_uf a))"

definition L_NEG :: "l_fp \<Rightarrow> l_fp" where
  "L_NEG v = lfp_of (M_NEG (l_ui v) (l_uf v))"

definition L_ADDUF :: "l_fp \<Rightarrow> u_int32 \<Rightarrow> l_fp" where
  "L_ADDUF r uf = lfp_of (M_ADDUF (l_ui r) (l_uf r) uf)"

definition L_SUBUF :: "l_fp \<Rightarrow> u_int32 \<Rightarrow> l_fp" where
  "L_SUBUF r uf = lfp_of (M_SUBUF (l_ui r) (l_uf r) uf)"

definition L_ADDF :: "l_fp \<Rightarrow> int \<Rightarrow> l_fp" where
  "L_ADDF r f = lfp_of (M_ADDF (l_ui r) (l_uf r) f)"

definition L_RSHIFT :: "l_fp \<Rightarrow> l_fp" where
  "L_RSHIFT v = lfp_of (M_RSHIFT (l_ui v) (l_uf v))"

definition L_RSHIFTU :: "l_fp \<Rightarrow> l_fp" where
  "L_RSHIFTU v = lfp_of (M_RSHIFTU (l_ui v) (l_uf v))"

definition L_LSHIFT :: "l_fp \<Rightarrow> l_fp" where
  "L_LSHIFT v = lfp_of (M_LSHIFT (l_ui v) (l_uf v))"

definition L_CLR :: l_fp where
  "L_CLR = \<lparr>l_ui = 0, l_uf = 0\<rparr>"

definition L_ISNEG :: "l_fp \<Rightarrow> bool" where
  "L_ISNEG v = M_ISNEG (l_ui v)"

definition L_ISZERO :: "l_fp \<Rightarrow> bool" where
  "L_ISZERO v \<longleftrightarrow> l_ui v OR l_uf v = 0"

definition L_ISGT :: "l_fp \<Rightarrow> l_fp \<Rightarrow> bool" where
  "L_ISGT a b = M_ISGT (l_ui a) (l_uf a) (l_ui b) (l_uf b)"

definition L_ISGTU :: "l_fp \<Rightarrow> l_fp \<Rightarrow> bool" where
  "L_ISGTU a b = M_ISGTU (l_ui a) (l_uf a) (l_ui b) (l_uf b)"

definition L_ISHIS :: "l_fp \<Rightarrow> l_fp \<Rightarrow> bool" where
  "L_ISHIS a b = M_ISHIS (l_ui a) (l_uf a) (l_ui b) (l_uf b)"

definition L_ISGEQ :: "l_fp \<Rightarrow> l_fp \<Rightarrow> bool" where
  "L_ISGEQ a b = M_ISGEQ (l_ui a) (l_uf a) (l_ui b) (l_uf b)"

definition L_ISEQU :: "l_fp \<Rightarrow> l_fp \<Rightarrow> bool" where
  "L_ISEQU a b = M_ISEQU (l_ui a) (l_uf a) (l_ui b) (l_uf b)"

text \<open>Conversions between the long format and the 32-bit formats \<^verbatim>\<open>s_fp\<close>, \<^verbatim>\<open>u_fp\<close>.\<close>

definition MFPTOFP :: "int \<Rightarrow> u_int32 \<Rightarrow> u_int32" where
  "MFPTOFP x_i x_f =
     (if x_i \<ge> 0x00010000 then 0x7fffffff
      else if x_i \<le> - 0x00010000 then 0x80000000
      else push_bit 16 (word_of_int x_i) OR (drop_bit 16 x_f AND 0xffff))"

definition LFPTOFP :: "l_fp \<Rightarrow> u_int32" where
  "LFPTOFP v = MFPTOFP (l_i v) (l_uf v)"

definition UFPTOLFP :: "u_int32 \<Rightarrow> l_fp" where
  "UFPTOLFP x = \<lparr>l_ui = drop_bit 16 x, l_uf = push_bit 16 x\<rparr>"

definition FPTOLFP :: "int \<Rightarrow> l_fp" where
  "FPTOLFP x =
     (let v = UFPTOLFP (word_of_int x)
      in if x < 0 then v\<lparr>l_ui := l_ui v - 0x10000\<rparr> else v)"

definition MAXLFP :: l_fp where
  "MAXLFP = \<lparr>l_ui = 0x7fffffff, l_uf = 0xffffffff\<rparr>"

definition MINLFP :: l_fp where
  "MINLFP = \<lparr>l_ui = 0x80000000, l_uf = 0\<rparr>"

section \<open>The long format as one 64-bit word\<close>

definition lfp_val :: "l_fp \<Rightarrow> u_int64" where
  "lfp_val v = word_cat (l_ui v) (l_uf v)"

lemmas lfp_op_defs =
  L_ADD_def L_SUB_def L_NEG_def L_ADDUF_def L_SUBUF_def L_ADDF_def L_RSHIFT_def L_RSHIFTU_def
  L_LSHIFT_def L_ISNEG_def L_ISGT_def L_ISGTU_def L_ISHIS_def L_ISGEQ_def L_ISEQU_def

lemma lfp_val_of [simp]: "lfp_val (lfp_of p) = word_cat (fst p) (snd p)"
  by (simp add: lfp_val_def lfp_of_def)

lemma lfp_val_inject: "lfp_val a = lfp_val b \<longleftrightarrow> a = b"
proof -
  have "uint (lfp_val a) div 4294967296 = uint (l_ui a)" "uint (lfp_val a) mod 4294967296 = uint (l_uf a)" for a
    using uint_lt2p [of "l_uf a"] by (simp_all add: lfp_val_def uint_cat64)
  then show ?thesis
    by (metis l_fp.equality old.unit.exhaust word_uint_eqI)
qed

lemma M_ADD_cat:
  "word_cat (fst (M_ADD r_i r_f a_i a_f)) (snd (M_ADD r_i r_f a_i a_f))
   = (word_cat r_i r_f + word_cat a_i a_f :: u_int64)"
  by (simp add: M_ADD_def cat64 Let_def hi64_add ucast_add_carry)

lemma M_SUB_cat:
  "word_cat (fst (M_SUB r_i r_f a_i a_f)) (snd (M_SUB r_i r_f a_i a_f))
   = (word_cat r_i r_f - word_cat a_i a_f :: u_int64)"
  by (simp add: M_SUB_def cat64 Let_def hi64_add hi64_minus ucast_sub_borrow)

lemma M_NEG_eq_M_SUB: "M_NEG v_i v_f = M_SUB 0 0 v_i v_f"
  by (cases "v_f = 0") (auto simp: M_NEG_def M_SUB_def not_eq_complement Let_def word_gt_0)

lemma M_NEG_cat:
  "word_cat (fst (M_NEG v_i v_f)) (snd (M_NEG v_i v_f)) = (- word_cat v_i v_f :: u_int64)"
  unfolding M_NEG_eq_M_SUB M_SUB_cat by (simp add: cat64)

lemmas lfp_cat = M_ADD_cat M_SUB_cat M_NEG_cat

lemma cat_zero: "(word_cat (0 :: u_int32) (x :: u_int32) :: u_int64) = ucast x"
  by (simp add: cat64)

lemma M_RSHIFTU_cat:
  "word_cat (fst (M_RSHIFTU v_i v_f)) (snd (M_RSHIFTU v_i v_f))
   = drop_bit 1 (word_cat v_i v_f :: u_int64)"
proof (rule bit_word_eqI)
  fix n :: nat
  consider "n < 31" | "n = 31" | "32 \<le> n" "n < 63" | "63 \<le> n" by linarith
  moreover have "32 \<le> n \<Longrightarrow> Suc (n - 32) = n - 31" by simp
  ultimately show "bit (word_cat (fst (M_RSHIFTU v_i v_f)) (snd (M_RSHIFTU v_i v_f)) :: u_int64) n
      = bit (drop_bit 1 (word_cat v_i v_f :: u_int64)) n"
    by cases (auto simp: M_RSHIFTU_def Let_def bit_word_cat_iff bit_simps dest: bit_imp_le_length)
qed

lemma M_RSHIFT_cat:
  "word_cat (fst (M_RSHIFT v_i v_f)) (snd (M_RSHIFT v_i v_f))
   = signed_drop_bit 1 (word_cat v_i v_f :: u_int64)"
proof (rule bit_word_eqI)
  fix n :: nat
  assume "n < LENGTH(64)"
  then consider "n < 31" | "n = 31" | "32 \<le> n" "n < 63" | "n = 63" by fastforce
  moreover have "32 \<le> n \<Longrightarrow> Suc (n - 32) = n - 31" by simp
  ultimately show "bit (word_cat (fst (M_RSHIFT v_i v_f)) (snd (M_RSHIFT v_i v_f)) :: u_int64) n
      = bit (signed_drop_bit 1 (word_cat v_i v_f :: u_int64)) n"
    by cases (auto simp: M_RSHIFT_def Let_def bit_word_cat_iff bit_simps dest: bit_imp_le_length)
qed

lemma M_LSHIFT_cat:
  "word_cat (fst (M_LSHIFT v_i v_f)) (snd (M_LSHIFT v_i v_f))
   = push_bit 1 (word_cat v_i v_f :: u_int64)"
proof (rule bit_word_eqI)
  fix n :: nat
  assume "n < LENGTH(64)"
  then consider "n < 32" | "n = 32" | "32 < n" "n < 64" by fastforce
  moreover have "32 < n \<Longrightarrow> n - Suc 32 = n - 33" by simp
  ultimately show "bit (word_cat (fst (M_LSHIFT v_i v_f)) (snd (M_LSHIFT v_i v_f)) :: u_int64) n
      = bit (push_bit 1 (word_cat v_i v_f :: u_int64)) n"
    unfolding M_LSHIFT_def Let_def fst_conv snd_conv bit_word_cat_iff bit_or_iff bit_push_bit_iff
      bit_drop_bit_eq o_def
    by cases (auto dest: bit_imp_le_length)
qed

lemma M_ISNEG_iff: "M_ISNEG v_i \<longleftrightarrow> sint v_i < 0"
proof -
  have "v_i AND 0x80000000 \<noteq> 0 \<longleftrightarrow> bit v_i 31"
    by (auto simp: bit_eq_iff [of "v_i AND _"] bit_simps)
  also have "\<dots> \<longleftrightarrow> sint v_i < 0"
    by (simp add: bit_last_iff [symmetric])
  finally show ?thesis by (simp add: M_ISNEG_def)
qed

lemma lfp_uint: "uint (lfp_val v) = uint (l_ui v) * 4294967296 + uint (l_uf v)"
  by (simp add: lfp_val_def uint_cat64)

lemma lfp_sint: "sint (lfp_val v) = l_i v * 4294967296 + uint (l_uf v)"
  by (simp add: lfp_val_def sint_cat64 l_i_def)

text \<open>Comparing two-digit numbers whose low digits are below the base.\<close>

lemma two_digit_less:
  fixes a b c d :: int
  assumes "0 \<le> b" "b < 4294967296" "0 \<le> d" "d < 4294967296"
  shows "a * 4294967296 + b < c * 4294967296 + d \<longleftrightarrow> a < c \<or> a = c \<and> b < d"
  using assms by auto

lemma two_digit_le:
  fixes a b c d :: int
  assumes "0 \<le> b" "b < 4294967296" "0 \<le> d" "d < 4294967296"
  shows "a * 4294967296 + b \<le> c * 4294967296 + d \<longleftrightarrow> a < c \<or> a = c \<and> b \<le> d"
  using assms by auto

lemmas uint32_range = uint_ge_0 [where ?'a = 32] uint_lt2p [where ?'a = 32, simplified]

lemma L_ISGT_iff: "L_ISGT a b \<longleftrightarrow> sint (lfp_val b) < sint (lfp_val a)"
  unfolding lfp_sint by (subst two_digit_less) (auto simp: uint32_range L_ISGT_def M_ISGT_def l_i_def word_less_def word_eq_iff_signed [where ?'a = int])

lemma L_ISGTU_iff: "L_ISGTU a b \<longleftrightarrow> lfp_val b < lfp_val a"
  unfolding word_less_def lfp_uint
  by (subst two_digit_less) (auto simp: uint32_range L_ISGTU_def M_ISGTU_def word_less_def word_uint_eq_iff)

lemma L_ISHIS_iff: "L_ISHIS a b \<longleftrightarrow> lfp_val b \<le> lfp_val a"
  unfolding word_le_def lfp_uint
  by (subst two_digit_le) (auto simp: uint32_range L_ISHIS_def M_ISHIS_def word_le_def word_less_def word_uint_eq_iff)

lemma L_ISNEG_iff: "L_ISNEG v \<longleftrightarrow> sint (lfp_val v) < 0"
proof -
  have "l_i v * 4294967296 + uint (l_uf v) < 0 * 4294967296 + 0 \<longleftrightarrow> l_i v < 0"
    by (subst two_digit_less) (auto simp: uint32_range)
  then show ?thesis by (simp add: L_ISNEG_def M_ISNEG_iff lfp_sint l_i_def)
qed

lemma L_ISZERO_iff: "L_ISZERO v \<longleftrightarrow> lfp_val v = 0"
proof -
  have "l_ui v OR l_uf v = 0 \<longleftrightarrow> l_ui v = 0 \<and> l_uf v = 0"
    by (rule or_eq_0_iff)
  moreover have "lfp_val v = 0 \<longleftrightarrow> v = L_CLR"
    using lfp_val_inject [of v L_CLR] by (simp add: L_CLR_def lfp_val_def [of "\<lparr>l_ui = 0, l_uf = 0\<rparr>"] cat64)
  ultimately show ?thesis by (auto simp: L_ISZERO_def L_CLR_def)
qed

text \<open>
  \<^verbatim>\<open>M_ISGEQ\<close> compares modulo the era: it looks at the sign of the difference of the integral
  parts, so it orders time stamps less than half an era apart, across the wrap-around.
\<close>

lemma word_sub_pos_iff: "0x80000000 < (x :: u_int32) + 0x80000000 \<longleftrightarrow> 0 < sint x"
  using uint_lt2p [of x] uint_ge_0 [of x]
  by (auto simp: word_less_def uint_plus_if' sint_u32_if order_less_le)

lemma L_ISGEQ_iff:
  "L_ISGEQ a b \<longleftrightarrow>
     0 < sint (l_ui a - l_ui b) \<or> (l_ui a = l_ui b \<and> l_uf b \<le> l_uf a)"
  by (simp add: L_ISGEQ_def M_ISGEQ_def word_sub_pos_iff)

text \<open>Three words as one 96-bit number.\<close>

definition top96 :: "u_int32 \<Rightarrow> 96 word" where
  "top96 h = word_of_int (uint h * 18446744073709551616)"

definition cat96 :: "u_int32 \<Rightarrow> u_int32 \<Rightarrow> u_int32 \<Rightarrow> 96 word" where
  "cat96 v_o v_i v_f = top96 v_o + word_of_int (uint v_i * 4294967296 + uint v_f)"

lemma top96_add: "top96 (x + y) = top96 x + top96 y"
proof -
  have "k * 18446744073709551616 mod (4294967296 * 18446744073709551616)
      = (k mod 4294967296) * 18446744073709551616" for k :: int
    by (rule mod_mult_mult2)
  from this [of "uint x + uint y"] this [of "(uint x + uint y) mod 4294967296"]
  have "top96 (x + y) = word_of_int ((uint x + uint y) * 18446744073709551616)"
    unfolding top96_def word_of_int_eq_iff by (simp add: take_bit_eq_mod uint_word_ariths)
  then show ?thesis by (simp add: top96_def ring_distribs)
qed

lemma top96_of_bool: "top96 (of_bool c) = of_bool c * 18446744073709551616"
  by (simp add: top96_def)

lemma carry_or:
  fixes c2 c3 :: bool
  assumes "\<not> (c2 \<and> c3)"
  shows "(of_bool c2 OR of_bool c3 :: u_int32) = of_bool c2 + of_bool c3"
  using assms by auto

lemma M_ADD3_cat96:
  assumes "M_ADD3 r_o r_i r_f a_o a_i a_f = (s_o, s_i, s_f)"
  shows "cat96 s_o s_i s_f = cat96 r_o r_i r_f + cat96 a_o a_i a_f"
proof -
  define c1 where "c1 \<longleftrightarrow> r_f + a_f < r_f"
  define t where "t = r_i + of_bool c1"
  define c2 where "c2 \<longleftrightarrow> t < of_bool c1"
  define c3 where "c3 \<longleftrightarrow> t + a_i < t"
  have "\<not> (c2 \<and> c3)"
    by (cases c1) (auto simp: c2_def c3_def)
  then have s: "s_f = r_f + a_f" "s_i = t + a_i" "s_o = r_o + (a_o + (of_bool c2 + of_bool c3))"
    using assms by (auto simp: M_ADD3_def Let_def c1_def t_def c2_def c3_def carry_or)
  have f: "uint s_f = uint r_f + uint a_f - of_bool c1 * 4294967296"
    by (simp add: s c1_def uint_add_carry)
  have t: "uint t = uint r_i + of_bool c1 - of_bool c2 * 4294967296"
    using uint_add_carry [of "of_bool c1" r_i] by (simp add: t_def c2_def add.commute)
  have i: "uint s_i = uint t + uint a_i - of_bool c3 * 4294967296"
    by (simp add: s c3_def uint_add_carry)
  show ?thesis
    unfolding cat96_def s(3) f i t top96_add top96_of_bool by (simp add: ring_distribs)
qed

section \<open>The 32-bit formats\<close>

lemma push_or_drop: "push_bit 16 x OR (drop_bit 16 f AND 0xffff) = (push_bit 16 x + drop_bit 16 f :: u_int32)"
proof -
  have "drop_bit 16 f AND mask 16 = drop_bit 16 f"
    by (rule bit_word_eqI) (auto simp: bit_simps dest: bit_imp_le_length)
  moreover have "mask 16 = (0xffff :: u_int32)"
    by (simp add: mask_eq_decr_exp)
  ultimately have m: "drop_bit 16 f AND 0xffff = drop_bit 16 f"
    by (simp only:)
  have "push_bit 16 x AND drop_bit 16 f = 0"
    by (rule bit_word_eqI) (auto simp: bit_simps dest: bit_imp_le_length)
  then show ?thesis unfolding m by (simp only: disjunctive_add_eq_or)
qed

lemma MFPTOFP_eq:
  assumes "- 0x10000 < x_i" "x_i < 0x10000"
  shows "MFPTOFP x_i x_f = word_of_int (x_i * 65536 + uint x_f div 65536)"
proof -
  have "drop_bit 16 x_f = word_of_int (uint x_f div 65536)"
    unfolding drop_bit_eq_div word_div_def by simp
  moreover have "push_bit 16 (word_of_int x_i) = (word_of_int (x_i * 65536) :: u_int32)"
    by (simp add: push_bit_eq_mult)
  moreover have "MFPTOFP x_i x_f = push_bit 16 (word_of_int x_i) + drop_bit 16 x_f"
    using assms unfolding MFPTOFP_def push_or_drop by simp
  ultimately show ?thesis by simp
qed

lemma LFPTOFP_exact:
  assumes "- 0x8000 \<le> l_i v" "l_i v < 0x8000"
  shows "sint (LFPTOFP v) = sint (lfp_val v) div 65536"
proof -
  have "sint (lfp_val v) div 65536 = l_i v * 65536 + uint (l_uf v) div 65536"
    using div_mult_self1 [of 65536 "uint (l_uf v)" "l_i v * 65536"] by (simp add: lfp_sint add.commute)
  moreover have "0 \<le> uint (l_uf v) div 65536" "uint (l_uf v) div 65536 < 65536"
    using uint_lt2p [of "l_uf v"] by (simp_all add: div_less_iff_less_mult pos_imp_zdiv_nonneg_iff)
  then have "in_s32 (l_i v * 65536 + uint (l_uf v) div 65536)"
    using assms unfolding in_s32_def by linarith
  moreover have "LFPTOFP v = word_of_int (l_i v * 65536 + uint (l_uf v) div 65536)"
    unfolding LFPTOFP_def using assms by (intro MFPTOFP_eq) auto
  ultimately show ?thesis by (simp only: sint_word_of_int_s32)
qed

lemma FPTOLFP_eq:
  assumes "in_s32 x"
  shows "FPTOLFP x = \<lparr>l_ui = word_of_int (x div 65536), l_uf = word_of_int (x * 65536)\<rparr>"
proof -
  have f: "push_bit 16 (word_of_int x) = (word_of_int (x * 65536) :: u_int32)"
    by (simp add: push_bit_eq_mult)
  have i: "drop_bit 16 (word_of_int x :: u_int32) = word_of_int ((x mod 4294967296) div 65536)"
    unfolding drop_bit_eq_div word_div_def by (simp add: uint_word_of_int_u32)
  show ?thesis
  proof (cases "x < 0")
    case False
    with assms show ?thesis
      by (simp add: FPTOLFP_def UFPTOLFP_def f i in_s32_def Let_def)
  next
    case True
    have "x mod 4294967296 = x + 65536 * 65536"
      using assms True mod_add_self2 [of x "4294967296 :: int"] by (simp add: in_s32_def del: mod_add_self2)
    then have "(x mod 4294967296) div 65536 = 65536 + x div 65536"
      by simp
    with True show ?thesis
      by (simp add: FPTOLFP_def UFPTOLFP_def f i Let_def)
  qed
qed

lemma FPTOLFP_val:
  assumes "in_s32 x"
  shows "sint (lfp_val (FPTOLFP x)) = x * 65536"
proof -
  have 1: "in_s32 (x div 65536)" using assms unfolding in_s32_def by linarith
  have m: "x * 65536 mod 4294967296 = (x mod 65536) * 65536"
    using mod_mult_mult2 [of x 65536 65536] by simp
  have "x div 65536 * 65536 + x mod 65536 = x"
    by (rule div_mult_mod_eq)
  with m have "x div 65536 * 4294967296 + x * 65536 mod 4294967296 = x * 65536"
    by linarith
  with 1 show ?thesis
    by (simp add: lfp_sint FPTOLFP_eq [OF assms] l_i_def sint_word_of_int_s32 uint_word_of_int_u32 del: of_int_mult)
qed

lemma ucast_word_of_int_u32:
  assumes "0 \<le> x" "x < 4294967296"
  shows "(ucast (word_of_int x :: u_int32) :: u_int64) = word_of_int x"
  using assms unfolding ucast_eq by (simp add: uint_word_of_int_u32 del: of_int_uint)

lemma lfp_of_sel [simp]: "l_ui (lfp_of p) = fst p" "l_uf (lfp_of p) = snd p"
  by (simp_all add: lfp_of_def)

lemma L_ADDF_val: "lfp_val (L_ADDF r f) = lfp_val r + word_of_int (s32 f)"
proof (cases "0 \<le> s32 f")
  case True
  then have "ucast (word_of_int (s32 f) :: u_int32) = (word_of_int (s32 f) :: u_int64)"
    using in_s32_s32 [of f] by (intro ucast_word_of_int_u32) (auto simp: in_s32_def)
  with True show ?thesis
    by (simp add: L_ADDF_def M_ADDF_def lfp_val_def [of r] M_ADD_cat cat_zero)
next
  case False
  then have "ucast (word_of_int (- s32 f) :: u_int32) = (word_of_int (- s32 f) :: u_int64)"
    using in_s32_s32 [of f] unfolding in_s32_def by (intro ucast_word_of_int_u32) linarith+
  with False show ?thesis
    by (simp add: L_ADDF_def M_ADDF_def lfp_val_def [of r] M_SUB_cat cat_zero)
qed

section \<open>Properties\<close>

text \<open>
  C31: the carry-propagating two-word macros of the long fixed-point format are 64-bit two's
  complement arithmetic: addition, subtraction, negation, the additions of an unsigned and of a
  signed fraction; and the three-word addition is 96-bit addition.
\<close>

theorem lfp_arith_refines:
  "lfp_val (L_ADD r a) = lfp_val r + lfp_val a
   \<and> lfp_val (L_SUB r a) = lfp_val r - lfp_val a
   \<and> lfp_val (L_NEG r) = - lfp_val r
   \<and> lfp_val (L_ADDUF r uf) = lfp_val r + ucast uf
   \<and> lfp_val (L_SUBUF r uf) = lfp_val r - ucast uf
   \<and> lfp_val (L_ADDF r f) = lfp_val r + word_of_int (s32 f)
   \<and> (case M_ADD3 r_o r_i r_f a_o a_i a_f of (s_o, s_i, s_f) \<Rightarrow>
        cat96 s_o s_i s_f = cat96 r_o r_i r_f + cat96 a_o a_i a_f)"
  by (auto simp: L_ADD_def L_SUB_def L_NEG_def L_ADDUF_def L_SUBUF_def M_ADDUF_def M_SUBUF_def L_ADDF_val
      M_ADD_cat M_SUB_cat M_NEG_cat cat_zero lfp_val_def [of r] lfp_val_def [of a] M_ADD3_cat96
      split: prod.splits)

text \<open>
  The shift macros are the 64-bit shifts (arithmetic for the signed one), and the comparison
  macros are the signed and unsigned 64-bit orders, sign and zero tests.
\<close>

theorem lfp_shift_compare_refines:
  "lfp_val (L_RSHIFT a) = signed_drop_bit 1 (lfp_val a)
   \<and> lfp_val (L_RSHIFTU a) = drop_bit 1 (lfp_val a)
   \<and> lfp_val (L_LSHIFT a) = push_bit 1 (lfp_val a)
   \<and> (L_ISGT a b \<longleftrightarrow> sint (lfp_val b) < sint (lfp_val a))
   \<and> (L_ISGTU a b \<longleftrightarrow> lfp_val b < lfp_val a)
   \<and> (L_ISHIS a b \<longleftrightarrow> lfp_val b \<le> lfp_val a)
   \<and> (L_ISEQU a b \<longleftrightarrow> lfp_val a = lfp_val b)
   \<and> (L_ISNEG a \<longleftrightarrow> sint (lfp_val a) < 0)
   \<and> (L_ISZERO a \<longleftrightarrow> lfp_val a = 0)"
proof -
  have "L_ISEQU a b \<longleftrightarrow> lfp_val a = lfp_val b"
    unfolding lfp_val_inject by (auto simp: L_ISEQU_def M_ISEQU_def)
  then show ?thesis
    by (simp add: L_RSHIFT_def L_RSHIFTU_def L_LSHIFT_def M_RSHIFT_cat M_RSHIFTU_cat M_LSHIFT_cat
        L_ISGT_iff L_ISGTU_iff L_ISHIS_iff L_ISNEG_iff L_ISZERO_iff lfp_val_def [of a, symmetric]
        del: One_nat_def push_bit_Suc)
qed

text \<open>
  The 32-bit signed format converts to the long format exactly and back without loss; and the
  conversion to 32 bits rounds the value down to a multiple of a 65536th of a second whenever the
  integral part fits the 16 bits the short format has for it.
\<close>

theorem fp_conversion_roundtrip:
  "(in_s32 x \<longrightarrow> sint (lfp_val (FPTOLFP x)) = x * 65536 \<and> sint (LFPTOFP (FPTOLFP x)) = x)
   \<and> (- 0x8000 \<le> l_i v \<and> l_i v < 0x8000 \<longrightarrow> sint (LFPTOFP v) = sint (lfp_val v) div 65536)"
proof -
  have "sint (LFPTOFP (FPTOLFP x)) = x" if x: "in_s32 x"
  proof -
    have "l_i (FPTOLFP x) = x div 65536"
    proof -
      have "in_s32 (x div 65536)" using x unfolding in_s32_def by linarith
      with x show ?thesis by (simp add: FPTOLFP_eq l_i_def sint_word_of_int_s32)
    qed
    with x have "- 0x8000 \<le> l_i (FPTOLFP x)" "l_i (FPTOLFP x) < 0x8000"
      by (simp_all add: in_s32_def) linarith+
    then show ?thesis by (simp add: LFPTOFP_exact FPTOLFP_val x)
  qed
  then show ?thesis by (simp add: FPTOLFP_val LFPTOFP_exact)
qed

theorem fp_conversion_roundtrip_witness:
  "in_s32 (- 98304) \<and> sint (LFPTOFP (FPTOLFP (- 98304))) = - 98304
   \<and> sint (LFPTOFP \<lparr>l_ui = 5, l_uf = 0x80000000\<rparr>) = 360448"
  using fp_conversion_roundtrip [of "- 98304" "\<lparr>l_ui = 5, l_uf = 0x80000000\<rparr>"]
  by (simp add: in_s32_def l_i_def lfp_val_def sint_cat64)

text \<open>
  The saturation test of the conversion to 32 bits compares against 65536 although the signed
  short format has only 15 bits of integral value: every long value from 32768 up to 65535 seconds,
  too large for the format, is not saturated and comes out negative.
\<close>

theorem LFPTOFP_misses_saturation:
  assumes "0x8000 \<le> l_i v" "l_i v < 0x10000"
  shows "sint (LFPTOFP v) = sint (lfp_val v) div 65536 - 4294967296 \<and> sint (LFPTOFP v) < 0"
proof -
  have e: "sint (lfp_val v) div 65536 = l_i v * 65536 + uint (l_uf v) div 65536"
    using div_mult_self1 [of 65536 "uint (l_uf v)" "l_i v * 65536"] by (simp add: lfp_sint add.commute)
  have "0 \<le> uint (l_uf v) div 65536" "uint (l_uf v) div 65536 < 65536"
    using uint_lt2p [of "l_uf v"] by (simp_all add: div_less_iff_less_mult pos_imp_zdiv_nonneg_iff)
  with assms have r: "2147483648 \<le> l_i v * 65536 + uint (l_uf v) div 65536"
      "l_i v * 65536 + uint (l_uf v) div 65536 < 4294967296"
    by linarith+
  have "sint (LFPTOFP v) = s32 (l_i v * 65536 + uint (l_uf v) div 65536)"
    unfolding LFPTOFP_def s32_eq_sint using assms by (subst MFPTOFP_eq) auto
  with r e show ?thesis by (simp add: s32_def mod_pos_geq)
qed

theorem LFPTOFP_misses_saturation_witness:
  "sint (LFPTOFP \<lparr>l_ui = 40000, l_uf = 0\<rparr>) = - 1673527296"
  using LFPTOFP_misses_saturation [of "\<lparr>l_ui = 40000, l_uf = 0\<rparr>"]
  by (simp add: l_i_def lfp_val_def sint_cat64)

text \<open>
  \<^verbatim>\<open>L_ISGEQ\<close> orders time stamps across the era boundary: it holds exactly when the
  difference of the two stamps, as a signed 64-bit number, is not negative, provided the
  integral parts are not exactly half an era apart.
\<close>

theorem L_ISGEQ_cyclic:
  assumes "sint (l_ui a - l_ui b) \<noteq> - 2147483648"
  shows "L_ISGEQ a b \<longleftrightarrow> 0 \<le> sint (lfp_val a - lfp_val b)"
proof -
  define d where "d = l_ui a - l_ui b"
  define c where "c \<longleftrightarrow> l_uf a < l_uf a - l_uf b"
  have c: "c \<longleftrightarrow> l_uf a < l_uf b"
    using uint_lt2p [of "l_uf a"] uint_lt2p [of "l_uf b"] uint_ge_0 [of "l_uf a"] uint_ge_0 [of "l_uf b"]
    unfolding c_def word_less_def by (simp add: uint_sub_if')
  have "lfp_val a - lfp_val b = word_cat (d - of_bool c) (l_uf a - l_uf b)"
    using M_SUB_cat [of "l_ui a" "l_uf a" "l_ui b" "l_uf b"]
    by (simp add: M_SUB_def lfp_val_def d_def c_def Let_def diff_diff_eq)
  then have "0 \<le> sint (lfp_val a - lfp_val b) \<longleftrightarrow> 0 \<le> sint (d - of_bool c)"
    using uint32_range [of "l_uf a - l_uf b"] by (simp only: sint_cat64) linarith
  also have "\<dots> \<longleftrightarrow> 0 < sint d \<or> d = 0 \<and> \<not> c"
  proof -
    have "d - of_bool c = word_of_int (sint d - of_bool c)" by simp
    moreover have "in_s32 (sint d - of_bool c)"
      using assms sint_greater_eq [of d] sint_less [of d] by (auto simp: in_s32_def d_def)
    ultimately have "sint (d - of_bool c) = sint d - of_bool c"
      by (simp only: sint_word_of_int_s32)
    moreover have "d = 0 \<longleftrightarrow> sint d = 0" using word_eq_iff_signed [where ?'a = int, of d 0] by simp
    ultimately show ?thesis by (cases c) (simp_all, linarith+)
  qed
  finally show ?thesis
    by (auto simp: L_ISGEQ_iff d_def c not_less)
qed

theorem L_ISGEQ_cyclic_witness:
  "L_ISGEQ \<lparr>l_ui = 1, l_uf = 0\<rparr> \<lparr>l_ui = 0xffffffff, l_uf = 7\<rparr>"
  using L_ISGEQ_cyclic [of "\<lparr>l_ui = 1, l_uf = 0\<rparr>" "\<lparr>l_ui = 0xffffffff, l_uf = 7\<rparr>"]
  by (simp add: lfp_val_def cat64 hi64_def)

end
