(* ===== verification/Calendar_Core.thy ===== *)
theory Calendar_Core
  imports NTP_Fp
begin

text \<open>
  The general algorithms of \<^verbatim>\<open>libntp/ntp_calendar.c\<close>: periodic extension, the unfolding of
  32-bit NTP seconds around a pivot, and the splitting and joining of days and seconds.  The
  file has two versions of several routines, for compilers with and without a 64-bit scalar;
  both are modelled (the second with the suffix \<open>_32\<close>) and proved equal.

  A \<^verbatim>\<open>vint64\<close> is a 64-bit word: \<open>Q_s\<close> is the word itself, \<open>q_s\<close> its signed value,
  \<open>D_hi\<close> and \<open>D_lo\<close> the two halves, \<open>W_lh\<close> and \<open>W_ll\<close> the quarters of the
  lower half.  The system clock read by \<^verbatim>\<open>now()\<close> is an argument, as is the pivot, whose
  \<^verbatim>\<open>NULL\<close> is \<open>None\<close>.
\<close>

section \<open>Data\<close>

type_synonym vint64 = u_int64
type_synonym time_t = int

definition D_lo :: "vint64 \<Rightarrow> u_int32" where
  "D_lo v = ucast v"

definition D_hi :: "vint64 \<Rightarrow> u_int32" where
  "D_hi v = ucast (drop_bit 32 v)"

definition q_s :: "vint64 \<Rightarrow> int" where
  "q_s v = sint v"

definition vint64_of :: "u_int32 \<times> u_int32 \<Rightarrow> vint64" where
  "vint64_of p = word_cat (fst p) (snd p)"

record ntpcal_split =
  hi :: int
  lo :: int

definition SECSPERMIN :: int where "SECSPERMIN = 60"
definition MINSPERHR :: int where "MINSPERHR = 60"
definition HRSPERDAY :: int where "HRSPERDAY = 24"
definition DAYSPERYEAR :: int where "DAYSPERYEAR = 365"
definition SECSPERDAY :: int where "SECSPERDAY = SECSPERMIN * MINSPERHR * HRSPERDAY"
definition DAY_NTP_STARTS :: int where "DAY_NTP_STARTS = 693596"
definition DAY_UNIX_STARTS :: int where "DAY_UNIX_STARTS = 719163"
definition NTP_TO_UNIX_DAYS :: int where "NTP_TO_UNIX_DAYS = DAY_UNIX_STARTS - DAY_NTP_STARTS"
definition JAN_1970 :: u_int32 where "JAN_1970 = word_of_int NTP_TO_UNIX_DAYS * word_of_int SECSPERDAY"

lemmas cal_consts [simp] =
  SECSPERMIN_def MINSPERHR_def HRSPERDAY_def DAYSPERYEAR_def SECSPERDAY_def DAY_NTP_STARTS_def
  DAY_UNIX_STARTS_def NTP_TO_UNIX_DAYS_def

section \<open>The clock and 64-bit seconds\<close>

text \<open>\<^verbatim>\<open>ntpcal_set_timefunc\<close>: the old function is returned, \<^verbatim>\<open>NULL\<close> selects the default.\<close>

definition ntpcal_set_timefunc ::
  "(unit \<Rightarrow> time_t) \<Rightarrow> (unit \<Rightarrow> time_t) \<Rightarrow> (unit \<Rightarrow> time_t) option
   \<Rightarrow> (unit \<Rightarrow> time_t) \<times> (unit \<Rightarrow> time_t)" where
  "ntpcal_set_timefunc time systime_func nfunc =
     (let res = systime_func;
          nfunc = (case nfunc of None \<Rightarrow> time | Some f \<Rightarrow> f)
      in (res, nfunc))"

definition time_to_vint64 :: "time_t \<Rightarrow> vint64" where
  "time_to_vint64 tt = word_of_int tt"

definition time_to_vint64_32 :: "time_t \<Rightarrow> vint64" where
  "time_to_vint64_32 tt =
     (if tt < 0 then
        let tt = s64 (- tt); D_lo = word_of_int tt; D_hi = word_of_int (drop_bit 32 tt)
        in vint64_of (M_NEG D_hi D_lo)
      else vint64_of (word_of_int (drop_bit 32 tt), word_of_int tt))"

definition vint64_to_time :: "vint64 \<Rightarrow> time_t" where
  "vint64_to_time tv = q_s tv"

definition vint64_to_time_32 :: "vint64 \<Rightarrow> time_t" where
  "vint64_to_time_32 tv = s64 (push_bit 32 (sint (D_hi tv))) OR uint (D_lo tv)"

section \<open>Periodic extension\<close>

definition ntpcal_periodic_extend :: "int \<Rightarrow> int \<Rightarrow> int \<Rightarrow> int" where
  "ntpcal_periodic_extend pivot value cycle =
     (let (cycle, neg, cpl) =
            (if cycle < 0 then (s32 (- cycle), True, True) else (cycle, False, False))
      in if cycle > 1 then
           let (diff, cpl) =
                 (if value \<ge> pivot then ((word_of_int value - word_of_int pivot :: u_int32), cpl)
                  else (word_of_int pivot - word_of_int value, \<not> cpl));
               diff = diff mod word_of_int cycle
           in if diff \<noteq> 0 then
                let diff = (if cpl then word_of_int cycle - diff else diff);
                    diff = (if neg then NOT diff + 1 else diff)
                in s32 (pivot + uint diff)
              else pivot
         else pivot)"

section \<open>Unfolding NTP seconds around a pivot\<close>

definition ntpcal_ntp_to_time :: "time_t \<Rightarrow> u_int32 \<Rightarrow> time_t option \<Rightarrow> vint64" where
  "ntpcal_ntp_to_time now ntp pivot =
     (let res = word_of_int (case pivot of Some p \<Rightarrow> p | None \<Rightarrow> now);
          res = res - 0x80000000;
          ntp = ntp - JAN_1970;
          ntp = ntp - D_lo res
      in res + ucast ntp)"

definition ntpcal_ntp_to_time_32 :: "time_t \<Rightarrow> u_int32 \<Rightarrow> time_t option \<Rightarrow> vint64" where
  "ntpcal_ntp_to_time_32 now ntp pivot =
     (let tmp = (case pivot of Some p \<Rightarrow> p | None \<Rightarrow> now);
          res = time_to_vint64_32 tmp;
          res = vint64_of (M_SUB (D_hi res) (D_lo res) 0 0x80000000);
          ntp = ntp - JAN_1970;
          ntp = ntp - D_lo res
      in vint64_of (M_ADD (D_hi res) (D_lo res) 0 ntp))"

definition ntpcal_ntp_to_ntp :: "time_t \<Rightarrow> u_int32 \<Rightarrow> time_t option \<Rightarrow> vint64" where
  "ntpcal_ntp_to_ntp now ntp pivot =
     (let res = word_of_int (case pivot of Some p \<Rightarrow> p | None \<Rightarrow> now);
          res = res - 0x80000000;
          res = res + ucast JAN_1970;
          ntp = ntp - D_lo res
      in res + ucast ntp)"

definition ntpcal_ntp_to_ntp_32 :: "time_t \<Rightarrow> u_int32 \<Rightarrow> time_t option \<Rightarrow> vint64" where
  "ntpcal_ntp_to_ntp_32 now ntp pivot =
     (let tmp = (case pivot of Some p \<Rightarrow> p | None \<Rightarrow> now);
          res = time_to_vint64_32 tmp;
          res = vint64_of (M_SUB (D_hi res) (D_lo res) 0 0x80000000);
          res = vint64_of (M_ADD (D_hi res) (D_lo res) 0 JAN_1970);
          ntp = ntp - D_lo res
      in vint64_of (M_ADD (D_hi res) (D_lo res) 0 ntp))"

section \<open>Days and seconds\<close>

definition ntpcal_daysplit :: "vint64 \<Rightarrow> ntpcal_split" where
  "ntpcal_daysplit ts =
     (let h = s32 (q_s ts sdiv SECSPERDAY);
          l = s32 (q_s ts smod SECSPERDAY)
      in if l < 0 then \<lparr>hi = s32 (h - 1), lo = l + SECSPERDAY\<rparr> else \<lparr>hi = h, lo = l\<rparr>)"

definition W_lh :: "u_int32 \<Rightarrow> u_int32" where
  "W_lh l = drop_bit 16 l"

definition W_ll :: "u_int32 \<Rightarrow> u_int32" where
  "W_ll l = l AND 0xffff"

text \<open>
  The chained 32/16-bit division of the variant without 64-bit scalars, whose body starts by
  dividing the two halves of the operand by 128 and continues with a division by 675.
\<close>

definition daysplit_div675 :: "u_int32 \<Rightarrow> u_int32 \<Rightarrow> u_int32 \<times> u_int32" where
  "daysplit_div675 h l =
     (let a = h;
          a = (if a > 675 then a mod 675 else a);
          (q, a) =
            (if a \<noteq> 0 then
               let a = push_bit 16 a OR W_lh l;
                   q = a div 675;
                   a = a mod 675;
                   a = push_bit 16 a OR W_ll l;
                   q = push_bit 16 q OR (a div 675)
               in (q, a)
             else (l div 675, l))
      in (q, a mod 675))"

definition ntpcal_daysplit_32 :: "vint64 \<Rightarrow> ntpcal_split" where
  "ntpcal_daysplit_32 ts =
     (let isneg = M_ISNEG (D_hi ts);
          op = (if isneg then M_NEG (D_hi ts) (D_lo ts) else (D_hi ts, D_lo ts));
          r = snd op AND 127;
          op = (fst op, drop_bit 7 (snd op) OR push_bit 25 (fst op));
          op = (drop_bit 7 (fst op), snd op);
          (q, a) = daysplit_div675 (fst op) (snd op);
          r = r OR push_bit 7 a;
          (q, r) =
            (if isneg then
               if r \<noteq> 0 then (NOT q, word_of_int SECSPERDAY - r)
               else (NOT q + 1, r)
             else (q, r))
      in \<lparr>hi = sint q, lo = sint r\<rparr>)"

text \<open>
  \<^verbatim>\<open>priv_timesplit\<close> fills an array \<^verbatim>\<open>split[3]\<close> and returns the excess days; the model
  returns the days and the three entries.
\<close>

definition priv_timesplit :: "int \<Rightarrow> int \<times> int \<times> int \<times> int" where
  "priv_timesplit ts =
     (let (days, ts) =
            (if ts < 0 \<or> ts \<ge> SECSPERDAY then c_floor_divmod ts SECSPERDAY else (0, ts));
          split2 = uint (word_of_int (ts smod SECSPERMIN) :: u_char);
          ts = ts sdiv SECSPERMIN;
          split1 = uint (word_of_int (ts smod MINSPERHR) :: u_char);
          split0 = uint (word_of_int (ts sdiv MINSPERHR) :: u_char)
      in (days, split0, split1, split2))"

definition ntpcal_dayjoin :: "int \<Rightarrow> int \<Rightarrow> vint64" where
  "ntpcal_dayjoin days secs =
     (let q = word_of_int days;
          q = q * word_of_int SECSPERDAY;
          q = q + word_of_int secs
      in q)"

definition ntpcal_dayjoin_32 :: "int \<Rightarrow> int \<Rightarrow> vint64" where
  "ntpcal_dayjoin_32 days secs =
     (let isneg = days < 0;
          days = (if isneg then s32 (- days) else days);
          res = (0, word_of_int (days AND 0xFFFF) * 675);
          p1 = word_of_int (drop_bit 16 days) * 675;
          p2 = drop_bit 16 p1;
          p1 = push_bit 16 p1;
          res = M_ADD (fst res) (snd res) p2 p1;
          res = (push_bit 7 (fst res) OR drop_bit 25 (snd res), push_bit 7 (snd res));
          res = (if isneg then M_NEG (fst res) (snd res) else res);
          (p2, p1) =
            (if secs < 0 then M_NEG 0 (word_of_int (- secs)) else (0, word_of_int secs))
      in vint64_of (M_ADD (fst res) (snd res) p2 p1))"

definition ntpcal_etime_to_seconds :: "int \<Rightarrow> int \<Rightarrow> int \<Rightarrow> int" where
  "ntpcal_etime_to_seconds hours minutes seconds =
     s32 ((hours * MINSPERHR + minutes) * SECSPERMIN + seconds)"

section \<open>Periodic extension is the window of a residue class\<close>

lemma uint_diff_u32:
  "0 \<le> a - b \<Longrightarrow> a - b < 4294967296 \<Longrightarrow> uint (word_of_int a - word_of_int b :: u_int32) = a - b"
  by (simp add: uint_word_of_int_u32 flip: of_int_diff)

text \<open>The core of the routine on a positive modulus: the unsigned distance, reduced.\<close>
lemma mod_word_u32: "0 < c \<Longrightarrow> c < 4294967296 \<Longrightarrow> uint (d mod word_of_int c :: u_int32) = uint d mod c"
  by (simp add: uint_mod uint_word_of_int_u32)

lemma s32_minus_uint: "s32 (p + uint (NOT d + 1 :: u_int32)) = s32 (p - uint d)"
proof -
  have "NOT d + 1 = - d" by (simp add: not_eq_complement)
  moreover have "uint (- d) mod 4294967296 = (- uint d) mod 4294967296"
    by (simp add: uint_word_ariths)
  ultimately show ?thesis
    by (intro s32_cong) (simp add: mod_add_cong [of p _ p "uint (- d)" "- uint d"])
qed

lemma uint_cycle_minus:
  "0 < c \<Longrightarrow> c < 4294967296 \<Longrightarrow> uint d \<le> c \<Longrightarrow> 0 < uint d \<Longrightarrow> uint (word_of_int c - d :: u_int32) = c - uint d"
  by (simp add: uint_sub_if' uint_word_of_int_u32)

text \<open>The reduced unsigned distance, in either direction.\<close>

definition pe_dist :: "int \<Rightarrow> int \<Rightarrow> int \<Rightarrow> u_int32" where
  "pe_dist a b c = (word_of_int a - word_of_int b) mod word_of_int c"

lemma uint_pe_dist:
  assumes "in_s32 a" "in_s32 b" "b \<le> a" "0 < c" "c < 2147483648"
  shows "uint (pe_dist a b c) = (a - b) mod c"
  using assms by (simp add: pe_dist_def mod_word_u32 uint_diff_u32 in_s32_def)

lemma pe_dist_0_iff: "pe_dist a b c = 0 \<longleftrightarrow> uint (pe_dist a b c) = 0"
  by (simp add: unsigned_eq_0_iff)

lemma ntpcal_periodic_extend_pos:
  assumes "in_s32 p" "in_s32 v" "1 < c" "c < 2147483648" "in_s32 (p + c - 1)"
  shows "ntpcal_periodic_extend p v c = p + (v - p) mod c"
proof (cases "p \<le> v")
  case True
  have u: "uint (pe_dist v p c) = (v - p) mod c"
    using assms True by (intro uint_pe_dist) auto
  have "ntpcal_periodic_extend p v c = (if pe_dist v p c \<noteq> 0 then s32 (p + uint (pe_dist v p c)) else p)"
    using assms True by (simp add: ntpcal_periodic_extend_def pe_dist_def)
  moreover have "in_s32 (p + (v - p) mod c)"
    using assms pos_mod_bound [of c "v - p"] pos_mod_sign [of c "v - p"] unfolding in_s32_def by linarith
  ultimately show ?thesis unfolding pe_dist_0_iff u by (simp add: s32_id)
next
  case False
  have u: "uint (pe_dist p v c) = (p - v) mod c"
    using assms False by (intro uint_pe_dist) auto
  have e: "ntpcal_periodic_extend p v c =
      (if pe_dist p v c \<noteq> 0 then s32 (p + uint (word_of_int c - pe_dist p v c)) else p)"
    using assms False by (simp add: ntpcal_periodic_extend_def pe_dist_def)
  have m: "(v - p) mod c = (if (p - v) mod c = 0 then 0 else c - (p - v) mod c)"
    using zmod_zminus1_eq_if [of "p - v" c] by simp
  have b: "0 \<le> (p - v) mod c" "(p - v) mod c < c" using assms by simp_all
  show ?thesis
  proof (cases "(p - v) mod c = 0")
    case True
    then show ?thesis unfolding e pe_dist_0_iff u by (simp add: m)
  next
    case False
    then have "uint (word_of_int c - pe_dist p v c) = c - (p - v) mod c"
      using assms b by (subst uint_cycle_minus) (auto simp: u order_less_le)
    moreover have "in_s32 (p + (c - (p - v) mod c))"
      using assms b False unfolding in_s32_def by linarith
    ultimately show ?thesis using False unfolding e pe_dist_0_iff u m by (simp add: s32_id)
  qed
qed

lemma ntpcal_periodic_extend_neg:
  assumes "in_s32 p" "in_s32 v" "1 < c" "c < 2147483648" "in_s32 (p - c + 1)"
  shows "ntpcal_periodic_extend p v (- c) = p + (v - p) mod (- c)"
proof (cases "p \<le> v")
  case True
  have u: "uint (pe_dist v p c) = (v - p) mod c"
    using assms True by (intro uint_pe_dist) auto
  have e: "ntpcal_periodic_extend p v (- c) =
      (if pe_dist v p c \<noteq> 0 then s32 (p - uint (word_of_int c - pe_dist v p c)) else p)"
    using assms True s32_id [of c]
    by (simp add: ntpcal_periodic_extend_def pe_dist_def in_s32_def flip: s32_minus_uint)
  have m: "(v - p) mod (- c) = (if (v - p) mod c = 0 then 0 else (v - p) mod c - c)"
    by (rule zmod_zminus2_eq_if)
  have b: "0 \<le> (v - p) mod c" "(v - p) mod c < c" using assms by simp_all
  show ?thesis
  proof (cases "(v - p) mod c = 0")
    case True
    then show ?thesis unfolding e pe_dist_0_iff u by (simp add: m)
  next
    case False
    then have "uint (word_of_int c - pe_dist v p c) = c - (v - p) mod c"
      using assms b by (subst uint_cycle_minus) (auto simp: u order_less_le)
    moreover have "in_s32 (p - (c - (v - p) mod c))"
      using assms b False unfolding in_s32_def by linarith
    ultimately show ?thesis using False unfolding e pe_dist_0_iff u m by (simp add: s32_id)
  qed
next
  case False
  have u: "uint (pe_dist p v c) = (p - v) mod c"
    using assms False by (intro uint_pe_dist) auto
  have e: "ntpcal_periodic_extend p v (- c) =
      (if pe_dist p v c \<noteq> 0 then s32 (p - uint (pe_dist p v c)) else p)"
    using assms False s32_id [of c]
    by (simp add: ntpcal_periodic_extend_def pe_dist_def in_s32_def flip: s32_minus_uint)
  have m: "(v - p) mod (- c) = - ((p - v) mod c)"
    using mod_minus_minus [of "p - v" c] by simp
  have "in_s32 (p - (p - v) mod c)"
    using assms pos_mod_bound [of c "p - v"] pos_mod_sign [of c "p - v"] unfolding in_s32_def by linarith
  then show ?thesis unfolding e pe_dist_0_iff u m by (simp add: s32_id)
qed

lemma ntpcal_periodic_extend_eq:
  assumes "in_s32 pivot" "in_s32 value" "cycle \<noteq> 0" "\<bar>cycle\<bar> < 2147483648"
    and "in_s32 (pivot + cycle - sgn cycle)"
  shows "ntpcal_periodic_extend pivot value cycle = pivot + (value - pivot) mod cycle"
proof -
  consider "cycle = 1" | "cycle = - 1" | "1 < cycle" | "1 < - cycle" using assms by linarith
  then show ?thesis
  proof cases
    case 4
    with assms ntpcal_periodic_extend_neg [of pivot "value" "- cycle"] show ?thesis by simp
  qed (use assms ntpcal_periodic_extend_pos in \<open>auto simp: ntpcal_periodic_extend_def s32_def\<close>)
qed

section \<open>Unfolding picks the stamp nearest the pivot\<close>

lemma JAN_1970_val: "JAN_1970 = 2208988800" "uint JAN_1970 = 2208988800"
  by (simp_all add: JAN_1970_def)

lemma uint_D_lo: "uint (D_lo v) = uint v mod 4294967296"
  by (simp add: D_lo_def unsigned_ucast_eq take_bit_eq_mod)

lemma D_lo_word_of_int: "D_lo (word_of_int b) = word_of_int b"
  by (rule word_uint_eqI) (simp add: uint_D_lo uint_word_of_int_u32 uint_word_of_int_eq take_bit_eq_mod mod_mod_cancel)

lemma unfold_word:
  "word_of_int b + ucast (n - D_lo (word_of_int b)) = (word_of_int (b + (uint n - b) mod 4294967296) :: vint64)"
proof -
  have "uint (n - word_of_int b) = (uint n - b) mod 4294967296"
    by (simp add: uint_word_ariths uint_word_of_int_u32 mod_simps)
  then show ?thesis
    unfolding D_lo_word_of_int ucast_eq by simp
qed

lemma sint_word_of_int_s64: "in_s64 x \<Longrightarrow> sint (word_of_int x :: u_int64) = x"
  by (simp add: s64_id flip: s64_eq_sint)

lemma mod_window:
  fixes b x N :: int
  assumes "0 < N"
  shows "b \<le> b + (x - b) mod N" "b + (x - b) mod N < b + N" "(b + (x - b) mod N) mod N = x mod N"
  using assms by (simp_all add: mod_simps)

lemma in_window_s64:
  assumes "in_s64 b" "in_s64 (b + 4294967295)"
  shows "in_s64 (b + (x - b) mod 4294967296)"
  using assms mod_window [of 4294967296 b x] unfolding in_s64_def by linarith

lemma ntpcal_ntp_to_ntp_word:
  "ntpcal_ntp_to_ntp now ntp pivot =
     (let b = (case pivot of Some p \<Rightarrow> p | None \<Rightarrow> now) + 61505152
      in word_of_int (b + (uint ntp - b) mod 4294967296))"
proof -
  have "word_of_int P - 0x80000000 + ucast JAN_1970 = (word_of_int (P + 61505152) :: vint64)" for P
    by (simp add: JAN_1970_val)
  then show ?thesis
    unfolding ntpcal_ntp_to_ntp_def Let_def by (simp only: unfold_word)
qed

lemma ntpcal_ntp_to_time_word:
  "ntpcal_ntp_to_time now ntp pivot =
     (let b = (case pivot of Some p \<Rightarrow> p | None \<Rightarrow> now) - 2147483648
      in word_of_int (b + (uint ntp - 2208988800 - b) mod 4294967296))"
proof -
  have "word_of_int P - 0x80000000 = (word_of_int (P - 2147483648) :: vint64)" for P
    by simp
  moreover have "(uint (ntp - JAN_1970) - b) mod 4294967296 = (uint ntp - 2208988800 - b) mod 4294967296" for b
    by (simp add: uint_word_ariths JAN_1970_val mod_simps)
  ultimately show ?thesis
    unfolding ntpcal_ntp_to_time_def Let_def by (simp only: unfold_word)
qed

section \<open>The variants without 64-bit scalars\<close>

lemma uint_D_hi: "uint (D_hi v) = uint v div 4294967296"
  using uint_lt2p [of v]
  by (simp add: D_hi_def unsigned_ucast_eq take_bit_eq_mod uint_div drop_bit_eq_div div_less_iff_less_mult pos_imp_zdiv_nonneg_iff)

lemma cat_halves: "word_cat (D_hi v) (D_lo v) = (v :: vint64)"
  by (rule word_uint_eqI) (simp add: uint_cat64 uint_D_hi uint_D_lo)

lemma vint64_of_M_ADD: "vint64_of (M_ADD (D_hi v) (D_lo v) a b) = v + word_cat a b"
  by (simp add: vint64_of_def M_ADD_cat cat_halves)

lemma vint64_of_M_SUB: "vint64_of (M_SUB (D_hi v) (D_lo v) a b) = v - word_cat a b"
  by (simp add: vint64_of_def M_SUB_cat cat_halves)

lemma cat_word_of_int: "word_cat (word_of_int (drop_bit 32 x) :: u_int32) (word_of_int x :: u_int32) = (word_of_int x :: vint64)"
proof (rule word_uint_eqI)
  have "x mod (4294967296 * 4294967296) = 4294967296 * (x div 4294967296 mod 4294967296) + x mod 4294967296"
    by (rule zmod_zmult2_eq) simp
  then show "uint (word_cat (word_of_int (drop_bit 32 x) :: u_int32) (word_of_int x :: u_int32) :: vint64) = uint (word_of_int x :: vint64)"
    by (simp add: uint_cat64 uint_word_of_int_u32 uint_word_of_int_eq take_bit_eq_mod drop_bit_eq_div)
qed

lemma time_to_vint64_32_eq: 
  assumes "in_s64 tt" "tt \<noteq> - 9223372036854775808"
  shows "time_to_vint64_32 tt = time_to_vint64 tt"
proof -
  have "vint64_of (word_of_int (drop_bit 32 x), word_of_int x) = word_of_int x" for x
    by (simp add: vint64_of_def cat_word_of_int)
  moreover have "vint64_of (M_NEG (word_of_int (drop_bit 32 (- tt))) (word_of_int (- tt))) = word_of_int tt"
    unfolding vint64_of_def M_NEG_cat cat_word_of_int by simp
  moreover have "tt < 0 \<Longrightarrow> s64 (- tt) = - tt" using assms by (intro s64_id) (auto simp: in_s64_def)
  ultimately show ?thesis
    unfolding time_to_vint64_32_def time_to_vint64_def Let_def by (simp del: of_int_minus)
qed

lemma ntp_to_ntp_32_eq:
  assumes "in_s64 P" "P \<noteq> - 9223372036854775808" "P = (case pivot of Some p \<Rightarrow> p | None \<Rightarrow> now)"
  shows "ntpcal_ntp_to_ntp_32 now ntp pivot = ntpcal_ntp_to_ntp now ntp pivot
    \<and> ntpcal_ntp_to_time_32 now ntp pivot = ntpcal_ntp_to_time now ntp pivot"
  unfolding ntpcal_ntp_to_ntp_32_def ntpcal_ntp_to_ntp_def ntpcal_ntp_to_time_32_def ntpcal_ntp_to_time_def
    assms(3) [symmetric] time_to_vint64_32_eq [OF assms(1,2)] Let_def vint64_of_M_ADD vint64_of_M_SUB
  by (simp add: time_to_vint64_def cat_zero)

lemma int_push_or: 
  assumes "0 \<le> b" "b < 2 ^ k"
  shows "push_bit k a OR b = push_bit k a + (b :: int)"
proof -
  have "take_bit k b = b" using assms by (simp add: take_bit_int_eq_self)
  then have "push_bit k a AND b = push_bit k a AND take_bit k b" by simp
  also have "\<dots> = 0" by (rule bit_eqI) (auto simp: bit_simps)
  finally show ?thesis by (simp add: disjunctive_add_eq_or)
qed

lemma word_push_or:
  fixes a b :: u_int32
  assumes "uint b < 2 ^ k"
  shows "push_bit k a OR b = push_bit k a + b"
proof -
  have "take_bit k b = b"
    using assms by (intro word_uint_eqI) (simp add: unsigned_take_bit_eq take_bit_int_eq_self)
  then have "push_bit k a AND b = push_bit k a AND take_bit k b" by simp
  also have "\<dots> = 0" by (rule bit_eqI) (auto simp: bit_simps)
  finally show ?thesis by (simp add: disjunctive_add_eq_or)
qed

lemma vint64_to_time_32_eq: "vint64_to_time_32 tv = vint64_to_time tv"
proof -
  have "in_s64 (sint (D_hi tv) * 4294967296)"
    using sint_greater_eq [of "D_hi tv"] sint_less [of "D_hi tv"] by (simp add: in_s64_def)
  then have "s64 (push_bit 32 (sint (D_hi tv))) = push_bit 32 (sint (D_hi tv))"
    by (simp add: push_bit_eq_mult s64_id)
  then have "vint64_to_time_32 tv = sint (D_hi tv) * 4294967296 + uint (D_lo tv)"
    using int_push_or [of "uint (D_lo tv)" 32 "sint (D_hi tv)"] uint32_range [of "D_lo tv"]
    by (simp add: vint64_to_time_32_def push_bit_eq_mult)
  then show ?thesis
    by (simp add: vint64_to_time_def q_s_def cat_halves flip: sint_cat64)
qed

lemma ntpcal_daysplit_eq:
  "ntpcal_daysplit ts = \<lparr>hi = s32 (q_s ts div 86400), lo = q_s ts mod 86400\<rparr>"
proof -
  let ?x = "q_s ts"
  have m: "s32 (?x smod 86400) = ?x smod 86400"
    by (rule s32_id) (cases "?x < 0", auto simp: in_s32_def smod_neg smod_nonneg intro: order_trans [OF _ pos_mod_sign] order_less_trans [OF pos_mod_bound])
  have s: "s32 (s32 x - 1) = s32 (x - 1)" for x
    using s32_add_left [of x "- 1"] by simp
  from c_floor_divmod_eq [of 86400 ?x] show ?thesis
    by (auto simp: ntpcal_daysplit_def Let_def m s c_floor_divmod_def split: if_splits)
qed

lemma uint_W_lh: "uint (W_lh l) = uint l div 65536"
  by (simp add: W_lh_def drop_bit_eq_div uint_div)

lemma uint_W_ll: "uint (W_ll l) = uint l mod 65536"
proof -
  have "(0xffff :: u_int32) = mask 16" by (simp add: mask_eq_decr_exp)
  then have "W_ll l = take_bit 16 l" by (simp add: W_ll_def take_bit_eq_mask)
  then show ?thesis by (simp add: unsigned_take_bit_eq take_bit_eq_mod uint_mod)
qed

lemma uint_push16_or:
  assumes "uint b < 65536" "uint a < 65536"
  shows "uint (push_bit 16 a OR b :: u_int32) = uint a * 65536 + uint b"
proof -
  have "push_bit 16 a OR b = push_bit 16 a + b" using assms by (intro word_push_or) simp
  then show ?thesis using assms
    by (simp add: uint_word_ariths push_bit_eq_mult)
qed

lemma div675_step:
  fixes A l :: int
  shows "(A * 65536 + l) div 675 = A div 675 * 65536 + (A mod 675 * 65536 + l) div 675"
    and "(A * 65536 + l) mod 675 = (A mod 675 * 65536 + l) mod 675"
proof -
  have "A div 675 * 675 + A mod 675 = A" by (rule div_mult_mod_eq)
  then have e: "A * 65536 + l = 675 * (A div 675 * 65536) + (A mod 675 * 65536 + l)"
    by linarith
  have k: "(675 * k + z) div 675 = k + z div 675" "(675 * k + z) mod 675 = z mod 675" for k z :: int
    by simp_all
  show "(A * 65536 + l) div 675 = A div 675 * 65536 + (A mod 675 * 65536 + l) div 675"
    by (subst e) (rule k)
  show "(A * 65536 + l) mod 675 = (A mod 675 * 65536 + l) mod 675"
    by (subst e) (rule k)
qed

lemma daysplit_div675_eq:
  assumes "uint h < 33554432"
  shows "uint (fst (daysplit_div675 h l)) = ((uint h * 4294967296 + uint l) div 675) mod 4294967296"
    and "uint (snd (daysplit_div675 h l)) = (uint h * 4294967296 + uint l) mod 675"
proof -
  define a where "a = (if h > 675 then h mod 675 else h)"
  define t where "t = (uint h - uint a) div 675"
  have a: "uint a \<le> 675" "uint h = 675 * t + uint a"
  proof -
    show "uint a \<le> 675"
      using pos_mod_bound [of 675 "uint h"] by (auto simp: a_def uint_mod word_less_def not_less)
    show "uint h = 675 * t + uint a"
      by (auto simp: a_def t_def uint_mod minus_mod_eq_mult_div)
  qed
  let ?m = "uint a * 4294967296 + uint l"
  have e: "uint h * 4294967296 + uint l = 675 * (t * 4294967296) + ?m"
    using a(2) by simp
  have k: "(675 * k + z) div 675 = k + z div 675" "(675 * k + z) mod 675 = z mod 675" for k z :: int
    by simp_all
  have q: "((uint h * 4294967296 + uint l) div 675) mod 4294967296 = (?m div 675) mod 4294967296"
    unfolding e k by simp
  have r: "(uint h * 4294967296 + uint l) mod 675 = ?m mod 675"
    unfolding e k ..
  have l: "0 \<le> uint l" "uint l < 4294967296" using uint32_range by auto
  have main: "uint (fst (daysplit_div675 h l)) = (?m div 675) mod 4294967296 \<and> uint (snd (daysplit_div675 h l)) = ?m mod 675"
  proof (cases "a = 0")
    case True
    then have "daysplit_div675 h l = (l div 675, l mod 675)"
      by (simp add: daysplit_div675_def a_def [symmetric] Let_def)
    moreover have "uint l div 675 < 4294967296" using l by simp
    ultimately show ?thesis using True l by (simp add: uint_div uint_mod pos_imp_zdiv_nonneg_iff)
  next
    case False
    define a1 where "a1 = push_bit 16 a OR W_lh l"
    define a3 where "a3 = push_bit 16 (a1 mod 675) OR W_ll l"
    have d: "daysplit_div675 h l = (push_bit 16 (a1 div 675) OR (a3 div 675), a3 mod 675)"
      using False by (simp add: daysplit_div675_def a_def [symmetric] Let_def a1_def a3_def)
    have u1: "uint a1 = uint a * 65536 + uint l div 65536"
      unfolding a1_def using a l by (subst uint_push16_or) (auto simp: uint_W_lh div_less_iff_less_mult)
    have u3: "uint a3 = uint a1 mod 675 * 65536 + uint l mod 65536"
    proof -
      have "uint (W_ll l) < 65536" by (simp add: uint_W_ll)
      moreover have "uint (a1 mod 675) < 65536"
        using pos_mod_bound [of 675 "uint a1"] by (simp add: uint_mod)
      ultimately show ?thesis by (simp add: a3_def uint_push16_or uint_W_ll uint_mod)
    qed
    have m: "?m = uint a1 * 65536 + uint l mod 65536"
      using div_mult_mod_eq [of "uint l" 65536] u1 by linarith
    have lt: "uint a3 div 675 < 65536"
      using u3 pos_mod_bound [of 675 "uint a1"] pos_mod_bound [of 65536 "uint l"] by linarith
    have "push_bit 16 (a1 div 675) OR (a3 div 675) = push_bit 16 (a1 div 675) + a3 div 675"
      using lt by (intro word_push_or) (simp add: uint_div)
    then have "uint (push_bit 16 (a1 div 675) OR (a3 div 675))
        = (uint a1 div 675 * 65536 + uint a3 div 675) mod 4294967296"
      by (simp add: uint_word_ariths push_bit_eq_mult uint_div mod_simps)
    then show ?thesis
      unfolding d m div675_step [of "uint a1" "uint l mod 65536"] u3 [symmetric] by (simp add: uint_mod)
  qed
  show "uint (fst (daysplit_div675 h l)) = ((uint h * 4294967296 + uint l) div 675) mod 4294967296"
    using main q by simp
  show "uint (snd (daysplit_div675 h l)) = (uint h * 4294967296 + uint l) mod 675"
    using main r by simp
qed

lemma uint_and_127: "uint (x AND 127 :: u_int32) = uint x mod 128"
proof -
  have "(127 :: u_int32) = mask 7" by (simp add: mask_eq_decr_exp)
  then have "x AND 127 = take_bit 7 x" by (simp only: take_bit_eq_mask)
  then show ?thesis by (simp add: unsigned_take_bit_eq take_bit_eq_mod uint_mod)
qed

lemma split128:
  fixes h l :: u_int32
  defines "n \<equiv> uint h * 4294967296 + uint l"
  shows "uint (drop_bit 7 h) * 4294967296 + uint (drop_bit 7 l OR push_bit 25 h) = n div 128"
    and "uint (drop_bit 7 h) < 33554432"
    and "uint (l AND 127) = n mod 128"
proof -
  have l: "0 \<le> uint l" "uint l < 4294967296" using uint32_range by auto
  have h: "0 \<le> uint h" "uint h < 4294967296" using uint32_range by auto
  have dh: "uint (drop_bit 7 h) = uint h div 128" and dl: "uint (drop_bit 7 l) = uint l div 128"
    by (simp_all add: drop_bit_eq_div uint_div)
  show "uint (drop_bit 7 h) < 33554432" using dh h by simp
  have lt: "uint l div 128 < 33554432" using l by simp
  have "drop_bit 7 l OR push_bit 25 h = push_bit 25 h + drop_bit 7 l"
    using word_push_or [of "drop_bit 7 l" 25 h] lt by (simp add: dl or.commute)
  moreover have "uint (push_bit 25 h) = uint h mod 128 * 33554432"
    using mod_mult_mult2 [of "uint h" 33554432 128] by (simp add: push_bit_eq_mult uint_word_ariths)
  ultimately have "uint (drop_bit 7 l OR push_bit 25 h) = (uint h mod 128 * 33554432 + uint l div 128) mod 4294967296"
    by (simp add: uint_word_ariths dl)
  also have "\<dots> = uint h mod 128 * 33554432 + uint l div 128"
    using lt l pos_mod_bound [of 128 "uint h"] pos_mod_sign [of 128 "uint h"]
    by (intro mod_pos_pos_trivial) linarith+
  finally have 1: "uint (drop_bit 7 l OR push_bit 25 h) = uint h mod 128 * 33554432 + uint l div 128" .
  have n: "n = 128 * (uint h * 33554432) + uint l" by (simp add: n_def)
  have 2: "n div 128 = uint h * 33554432 + uint l div 128" "n mod 128 = uint l mod 128"
    unfolding n by (simp, simp only: mod_mult_self4)
  have "uint h div 128 * 128 + uint h mod 128 = uint h" by (rule div_mult_mod_eq)
  with 1 2 show "uint (drop_bit 7 h) * 4294967296 + uint (drop_bit 7 l OR push_bit 25 h) = n div 128"
    unfolding dh by linarith
  show "uint (l AND 127) = n mod 128"
    by (simp add: uint_and_127 2)
qed

lemma uint_or_push7:
  assumes "uint r < 128" "uint a < 675"
  shows "uint (r OR push_bit 7 a :: u_int32) = uint a * 128 + uint r"
proof -
  have "r OR push_bit 7 a = push_bit 7 a + r"
    using assms word_push_or [of r 7 a] by (simp add: or.commute)
  then show ?thesis using assms by (simp add: uint_word_ariths push_bit_eq_mult)
qed

lemma sint_eq_s32: "sint (w :: u_int32) = s32 (uint w)"
  by (simp add: s32_eq_sint)

lemma ntpcal_daysplit_32_nat:
  fixes op :: "u_int32 \<times> u_int32"
  defines "n \<equiv> uint (fst op) * 4294967296 + uint (snd op)"
  assumes "daysplit_div675 (drop_bit 7 (fst op)) (drop_bit 7 (snd op) OR push_bit 25 (fst op)) = (q, a)"
  shows "uint q = (n div 86400) mod 4294967296"
    and "uint ((snd op AND 127) OR push_bit 7 a) = n mod 86400"
proof -
  have q: "uint q = (n div 128 div 675) mod 4294967296" and a: "uint a = (n div 128) mod 675"
    using daysplit_div675_eq [OF split128(2), of "fst op" "drop_bit 7 (snd op) OR push_bit 25 (fst op)"]
    unfolding assms(2) split128(1) fst_conv snd_conv n_def .
  from q show "uint q = (n div 86400) mod 4294967296"
    using zdiv_zmult2_eq [of 675 n 128] by simp
  have "n mod 86400 = 128 * (n div 128 mod 675) + n mod 128"
    using zmod_zmult2_eq [of 675 n 128] by simp
  moreover have "uint ((snd op AND 127) OR push_bit 7 a) = uint a * 128 + uint (snd op AND 127)"
    by (rule uint_or_push7) (simp_all add: uint_and_127 a)
  ultimately show "uint ((snd op AND 127) OR push_bit 7 a) = n mod 86400"
    using split128(3) [of "snd op" "fst op"] by (simp add: a n_def)
qed

lemma ntpcal_daysplit_32_eq: "ntpcal_daysplit_32 ts = ntpcal_daysplit ts"
proof -
  define op where "op = (if M_ISNEG (D_hi ts) then M_NEG (D_hi ts) (D_lo ts) else (D_hi ts, D_lo ts))"
  define n where "n = uint (fst op) * 4294967296 + uint (snd op)"
  obtain q a where qa: "daysplit_div675 (drop_bit 7 (fst op)) (drop_bit 7 (snd op) OR push_bit 25 (fst op)) = (q, a)"
    by fastforce
  define r where "r = (snd op AND 127) OR push_bit 7 a"
  have q: "uint q = (n div 86400) mod 4294967296" and r: "uint r = n mod 86400"
    using ntpcal_daysplit_32_nat [OF qa] by (simp_all add: n_def r_def)
  have v: "word_cat (D_hi ts) (D_lo ts) = ts" by (rule cat_halves)
  have neg: "M_ISNEG (D_hi ts) \<longleftrightarrow> q_s ts < 0"
    using sint_cat64 [of "D_hi ts" "D_lo ts"] uint32_range [of "D_lo ts"]
    unfolding M_ISNEG_iff q_s_def v by linarith
  have n: "n = \<bar>q_s ts\<bar>"
  proof -
    have "n = uint (word_cat (fst op) (snd op) :: vint64)"
      by (simp add: n_def uint_cat64)
    also have "\<dots> = (if q_s ts < 0 then uint (- ts) else uint ts)"
      by (simp add: op_def neg M_NEG_cat v)
    also have "\<dots> = \<bar>q_s ts\<bar>"
      using uint_lt2p [of ts] by (auto simp: q_s_def sint_u64_if uint_word_ariths zmod_zminus1_eq_if)
    finally show ?thesis .
  qed
  have e: "ntpcal_daysplit_32 ts =
     (if q_s ts < 0 then
        if r \<noteq> 0 then \<lparr>hi = sint (NOT q), lo = sint (word_of_int SECSPERDAY - r)\<rparr>
        else \<lparr>hi = sint (NOT q + 1), lo = sint r\<rparr>
      else \<lparr>hi = sint q, lo = sint r\<rparr>)"
    unfolding ntpcal_daysplit_32_def Let_def
    unfolding op_def [symmetric] fst_conv snd_conv
    unfolding qa case_prod_conv r_def [symmetric] neg
    by simp
  have rr: "0 \<le> uint r" "uint r < 86400" using r by simp_all
  have lo_r: "sint r = uint r" using rr by (simp add: sint_u32_if)
  show ?thesis
  proof (cases "q_s ts < 0")
    case False
    have "sint q = s32 (q_s ts div 86400)"
      unfolding sint_eq_s32 q using False n by (intro s32_cong) simp
    with False show ?thesis
      by (simp add: e ntpcal_daysplit_eq lo_r r n)
  next
    case True
    have x: "q_s ts = - n" using n True by simp
    have nq: "sint (NOT q) = s32 (- (n div 86400) - 1)"
    proof -
      have "NOT q = word_of_int (- uint q - 1)" by (simp add: not_eq_complement)
      then have "sint (NOT q) = s32 (- uint q - 1)" by (simp only: s32_eq_sint)
      also have "\<dots> = s32 (- (n div 86400) - 1)"
        unfolding q by (intro s32_cong mod_diff_cong mod_minus_eq refl)
      finally show ?thesis .
    qed
    have nq1: "sint (NOT q + 1) = s32 (- (n div 86400))"
    proof -
      have "NOT q + 1 = word_of_int (- uint q)" by (simp add: not_eq_complement)
      then have "sint (NOT q + 1) = s32 (- uint q)" by (simp only: s32_eq_sint)
      also have "\<dots> = s32 (- (n div 86400))"
        by (rule s32_cong) (simp add: q mod_simps)
      finally show ?thesis .
    qed
    have "uint (86400 - r) = 86400 - uint r" using rr by (simp add: uint_sub_if')
    moreover have "86400 - uint r < 2147483648" using rr by linarith
    ultimately have "sint (86400 - r) = 86400 - uint r" by (simp only: sint_u32_if if_True)
    with True show ?thesis
      by (auto simp: e ntpcal_daysplit_eq x nq nq1 lo_r r unsigned_eq_0_iff [symmetric, where ?'a = int]
          zdiv_zminus1_eq_if zmod_zminus1_eq_if)
  qed
qed

lemma cat_shl:
  assumes "0 < k" "k < 32"
  shows "word_cat (push_bit k h OR drop_bit (32 - k) l :: u_int32) (push_bit k l :: u_int32)
    = push_bit k (word_cat h l :: u_int64)"
proof (rule bit_word_eqI)
  fix n :: nat
  assume n: "n < LENGTH(64)"
  have "n < 32 \<or> 32 \<le> n \<and> n < 32 + k \<or> 32 + k \<le> n" by linarith
  then show "bit (word_cat (push_bit k h OR drop_bit (32 - k) l :: u_int32) (push_bit k l :: u_int32) :: u_int64) n
     = bit (push_bit k (word_cat h l :: u_int64)) n"
    using n assms
    unfolding bit_word_cat_iff bit_or_iff bit_push_bit_iff bit_drop_bit_eq o_def
    by (auto dest: bit_imp_le_length simp: diff_diff_left add.commute)
qed

lemma cat_push16: "word_cat (drop_bit 16 p :: u_int32) (push_bit 16 p :: u_int32) = (push_bit 16 (ucast p) :: u_int64)"
  using cat_shl [of 16 0 p] by (simp add: cat64)

lemma ntpcal_dayjoin_32_eq:
  assumes "in_s32 days" "days \<noteq> - 2147483648" "in_s32 secs" "secs \<noteq> - 2147483648"
  shows "ntpcal_dayjoin_32 days secs = ntpcal_dayjoin days secs"
proof -
  define d where "d = \<bar>days\<bar>"
  have d: "0 \<le> d" "d < 2147483648" and sd: "(if days < 0 then s32 (- days) else days) = d"
    using assms by (auto simp: d_def in_s32_def s32_id)
  define P :: u_int32 where "P = word_of_int (drop_bit 16 d) * 675"
  define L :: u_int32 where "L = word_of_int (d AND 0xFFFF) * 675"
  define A where "A = M_ADD 0 L (drop_bit 16 P) (push_bit 16 P)"
  have L: "(ucast L :: u_int64) = word_of_int (d mod 65536 * 675)"
  proof -
    have "d AND 0xFFFF = d mod 65536"
      using take_bit_eq_mask [of 16 d] by (simp add: mask_eq_exp_minus_1 take_bit_eq_mod)
    moreover have "d mod 65536 * 675 < 4294967296"
      using pos_mod_bound [of 65536 d] by linarith
    ultimately show ?thesis
      unfolding L_def using ucast_word_of_int_u32 [of "d mod 65536 * 675"] by simp
  qed
  have P: "(ucast P :: u_int64) = word_of_int (d div 65536 * 675)"
  proof -
    have "drop_bit 16 d = d div 65536" by (simp add: drop_bit_eq_div)
    moreover have "d div 65536 * 675 < 4294967296" "0 \<le> d div 65536" using d by linarith+
    ultimately show ?thesis
      unfolding P_def using ucast_word_of_int_u32 [of "d div 65536 * 675"] by simp
  qed
  have "word_cat (fst A) (snd A) = (word_of_int (d * 675) :: u_int64)"
  proof -
    have "word_cat (fst A) (snd A) = ucast L + push_bit 16 (ucast P :: u_int64)"
      unfolding A_def M_ADD_cat cat_zero cat_push16 ..
    also have "\<dots> = word_of_int (d mod 65536 * 675 + d div 65536 * 675 * 65536)"
      unfolding L P by (simp add: push_bit_eq_mult)
    also have "d mod 65536 * 675 + d div 65536 * 675 * 65536 = d * 675"
      using div_mult_mod_eq [of d 65536] by linarith
    finally show ?thesis .
  qed
  then have B: "word_cat (push_bit 7 (fst A) OR drop_bit 25 (snd A)) (push_bit 7 (snd A)) = (word_of_int (d * 86400) :: u_int64)"
    using cat_shl [of 7 "fst A" "snd A"] by (simp add: push_bit_eq_mult)
  have S: "word_cat (fst S) (snd S) = (word_of_int secs :: u_int64)"
    if "S = (if secs < 0 then M_NEG 0 (word_of_int (- secs)) else (0, word_of_int secs))" for S
  proof (cases "secs < 0")
    case True
    then have "(ucast (word_of_int (- secs) :: u_int32) :: u_int64) = word_of_int (- secs)"
      using assms unfolding in_s32_def by (intro ucast_word_of_int_u32) linarith+
    with True that show ?thesis by (simp add: M_NEG_cat cat_zero)
  next
    case False
    then show ?thesis using that assms
      by (simp add: cat_zero ucast_word_of_int_u32 in_s32_def)
  qed
  have "ntpcal_dayjoin_32 days secs =
     (let res = (push_bit 7 (fst A) OR drop_bit 25 (snd A), push_bit 7 (snd A));
          res = (if days < 0 then M_NEG (fst res) (snd res) else res);
          S = (if secs < 0 then M_NEG 0 (word_of_int (- secs)) else (0, word_of_int secs))
      in vint64_of (M_ADD (fst res) (snd res) (fst S) (snd S)))"
    unfolding ntpcal_dayjoin_32_def Let_def sd
    unfolding P_def [symmetric] L_def [symmetric] fst_conv snd_conv
    unfolding A_def [symmetric] by (simp only: case_prod_unfold)
  also have "\<dots> = word_of_int (days * 86400 + secs)"
    unfolding Let_def vint64_of_def M_ADD_cat S [OF refl]
    using B by (cases "days < 0") (simp_all add: M_NEG_cat d_def)
  finally show ?thesis by (simp add: ntpcal_dayjoin_def)
qed

section \<open>Days and seconds of the day\<close>

lemma priv_timesplit_eq:
  "priv_timesplit ts = (ts div 86400, ts mod 86400 div 3600, ts mod 86400 div 60 mod 60, ts mod 60)"
proof -
  define s where "s = ts mod 86400"
  have s: "0 \<le> s" "s < 86400" by (simp_all add: s_def)
  have e: "(if ts < 0 \<or> ts \<ge> SECSPERDAY then c_floor_divmod ts SECSPERDAY else (0, ts)) = (ts div 86400, s)"
    by (auto simp: c_floor_divmod_eq s_def)
  have u8: "uint (word_of_int x :: u_char) = x" if "0 \<le> x" "x < 256" for x
    using that by (simp add: uint_word_of_int_eq take_bit_eq_mod)
  have "ts mod 60 = s mod 60" unfolding s_def by (simp add: mod_mod_cancel)
  moreover have "s div 60 div 60 = s div 3600" by (simp add: zdiv_zmult2_eq [symmetric])
  moreover have "s div 3600 < 256" "0 \<le> s div 60" "0 \<le> s div 3600" using s by linarith+
  moreover have "s mod 60 < 256" "s div 60 mod 60 < 256"
    using pos_mod_bound [of 60 s] pos_mod_bound [of 60 "s div 60"] by linarith+
  moreover have "priv_timesplit ts = (ts div 86400, uint (word_of_int (s sdiv 60 sdiv 60) :: u_char),
      uint (word_of_int (s sdiv 60 smod 60) :: u_char), uint (word_of_int (s smod 60) :: u_char))"
    unfolding priv_timesplit_def e by (simp add: Let_def)
  moreover have "s sdiv 60 = s div 60" "s div 60 sdiv 60 = s div 60 div 60"
      "s div 60 smod 60 = s div 60 mod 60" "s smod 60 = s mod 60"
    using s by (simp_all add: sdiv_nonneg smod_nonneg pos_imp_zdiv_nonneg_iff)
  ultimately show ?thesis
    using u8 [of "s div 3600"] u8 [of "s div 60 mod 60"] u8 [of "s mod 60"]
    by (simp only: s_def [symmetric] pos_mod_sign zero_less_numeral)
qed

lemma q_s_dayjoin: "in_s32 d \<Longrightarrow> in_s32 s \<Longrightarrow> q_s (ntpcal_dayjoin d s) = d * 86400 + s"
proof -
  assume "in_s32 d" "in_s32 s"
  then have "in_s64 (d * 86400 + s)" unfolding in_s32_def in_s64_def by linarith
  moreover have "ntpcal_dayjoin d s = word_of_int (d * 86400 + s)" by (simp add: ntpcal_dayjoin_def)
  ultimately show ?thesis unfolding q_s_def by (simp only: sint_word_of_int_s64)
qed

definition day_start :: "int \<Rightarrow> int" where
  "day_start d = q_s (ntpcal_dayjoin d 0)"

definition day_split :: "int \<Rightarrow> int \<times> int" where
  "day_split s = (let sp = ntpcal_daysplit (word_of_int s) in (hi sp, lo sp))"

lemma day_start_eq: "in_s32 d \<Longrightarrow> day_start d = d * 86400"
  by (simp add: day_start_def q_s_dayjoin in_s32_def)

lemma day_split_eq:
  assumes "day_start (- 2147483648) \<le> s" "s < day_start 2147483647"
  shows "day_split s = (s div 86400, s mod 86400)"
proof -
  have r: "- 185542587187200 \<le> s" "s < 185542587100800"
    using assms by (simp_all add: day_start_eq in_s32_def)
  then have "q_s (word_of_int s) = s" unfolding q_s_def by (intro sint_word_of_int_s64) (simp add: in_s64_def)
  moreover have "in_s32 (s div 86400)" using r unfolding in_s32_def by linarith
  ultimately show ?thesis
    by (simp add: day_split_def ntpcal_daysplit_eq s32_id)
qed

interpretation daysec: unit_split day_start "- 2147483648" 2147483647 day_split
proof unfold_locales
  show "day_start u < day_start (u + 1)" if "- 2147483648 \<le> u" "u < 2147483647" for u
    using that by (simp add: day_start_eq in_s32_def)
  show "in_unit day_start (- 2147483648) 2147483647 u r \<and> day_start u + r = d"
    if d: "day_start (- 2147483648) \<le> d" "d < day_start 2147483647" and s: "day_split d = (u, r)" for d u r
  proof -
    have "- 185542587187200 \<le> d" "d < 185542587100800"
      using d by (simp_all add: day_start_eq in_s32_def)
    then have "- 2147483648 \<le> d div 86400" "d div 86400 < 2147483647" by linarith+
    with s day_split_eq [OF d] show ?thesis
      by (auto simp: in_unit_def day_start_eq in_s32_def)
  qed
qed

lemma etime_timesplit:
  "0 \<le> ts mod 86400 div 3600 \<and> ts mod 86400 div 3600 < 24 \<and> 0 \<le> ts mod 86400 div 60 mod 60 \<and>
   ts mod 86400 div 60 mod 60 < 60 \<and> 0 \<le> ts mod 60 \<and> ts mod 60 < 60 \<and>
   ts div 86400 * 86400 + ntpcal_etime_to_seconds (ts mod 86400 div 3600) (ts mod 86400 div 60 mod 60) (ts mod 60) = ts"
proof -
  define s where "s = ts mod 86400"
  have s: "0 \<le> s" "s < 86400" by (simp_all add: s_def)
  have m: "ts mod 60 = s mod 60" unfolding s_def by (simp add: mod_mod_cancel)
  have h: "s div 60 div 60 = s div 3600" by (simp add: zdiv_zmult2_eq [symmetric])
  have "s div 60 * 60 + s mod 60 = s" by (rule div_mult_mod_eq)
  moreover have "s div 60 div 60 * 60 + s div 60 mod 60 = s div 60" by (rule div_mult_mod_eq)
  ultimately have e: "(s div 3600 * 60 + s div 60 mod 60) * 60 + s mod 60 = s" using h by simp
  have "s div 3600 < 24" "0 \<le> s div 3600" using s by linarith+
  moreover have "ts div 86400 * 86400 + s = ts" unfolding s_def by (rule div_mult_mod_eq)
  ultimately show ?thesis
    using s unfolding m s_def [symmetric] ntpcal_etime_to_seconds_def MINSPERHR_def SECSPERMIN_def e
    by (simp add: s32_id in_s32_def)
qed

lemma q_s_ntp_to_ntp:
  assumes "P = (case pivot of Some p \<Rightarrow> p | None \<Rightarrow> now)" "in_s64 (P + 61505152)" "in_s64 (P + 4356472447)"
  shows "q_s (ntpcal_ntp_to_ntp now ntp pivot) = P + 61505152 + (uint ntp - (P + 61505152)) mod 4294967296"
  unfolding q_s_def ntpcal_ntp_to_ntp_word Let_def assms(1) [symmetric]
  using assms(2,3) by (intro sint_word_of_int_s64 in_window_s64) (simp_all add: in_s64_def)

lemma q_s_ntp_to_time:
  assumes "P = (case pivot of Some p \<Rightarrow> p | None \<Rightarrow> now)" "in_s64 (P - 2147483648)" "in_s64 (P + 2147483647)"
  shows "q_s (ntpcal_ntp_to_time now ntp pivot) = P - 2147483648 + (uint ntp - (P + 61505152)) mod 4294967296"
proof -
  have e: "uint ntp - 2208988800 - (P - 2147483648) = uint ntp - (P + 61505152)" by simp
  show ?thesis
    unfolding q_s_def ntpcal_ntp_to_time_word Let_def assms(1) [symmetric] e [symmetric]
    using assms(2,3) by (intro sint_word_of_int_s64 in_window_s64) (simp_all add: in_s64_def)
qed

lemma ntp_to_time_stamp:
  assumes "P = (case pivot of Some p \<Rightarrow> p | None \<Rightarrow> now)" "in_s64 (P - 2147483648)" "in_s64 (P + 2147483647)"
    and "P - 2147483648 \<le> t" "t < P + 2147483648"
  shows "q_s (ntpcal_ntp_to_time now (word_of_int t + JAN_1970) pivot) = t"
proof -
  have "uint (word_of_int t + JAN_1970) = (t + 2208988800) mod 4294967296"
    by (simp add: uint_word_ariths JAN_1970_val uint_word_of_int_u32 mod_simps)
  moreover have "((t + 2208988800) mod 4294967296 - (P + 61505152)) mod 4294967296 = (t - P + 2147483648) mod 4294967296"
    by (simp add: mod_diff_left_eq add.commute diff_diff_eq)
  moreover have "(t - P + 2147483648) mod 4294967296 = t - P + 2147483648" using assms(4,5) by simp
  ultimately show ?thesis by (simp add: q_s_ntp_to_time [OF assms(1-3)])
qed

lemma ntp_to_ntp_small:
  assumes "P = (case piv of Some p \<Rightarrow> p | None \<Rightarrow> now)" "\<bar>P\<bar> \<le> 2 ^ 35"
  shows "\<bar>q_s (ntpcal_ntp_to_ntp now ntp piv)\<bar> < 40000000000 \<and>
    D_lo (word_of_int (q_s (ntpcal_ntp_to_ntp now ntp piv))) = ntp"
proof -
  define v where "v = q_s (ntpcal_ntp_to_ntp now ntp piv)"
  have v: "v = P + 61505152 + (uint ntp - (P + 61505152)) mod 4294967296"
    unfolding v_def using assms(2) by (intro q_s_ntp_to_ntp assms(1)) (simp_all add: in_s64_def abs_le_iff)
  note w = mod_window [of 4294967296 "P + 61505152" "uint ntp", folded v, simplified]
  have "\<bar>v\<bar> < 40000000000" using w assms(2) by (simp add: abs_le_iff abs_less_iff)
  moreover have "D_lo (word_of_int v) = ntp"
    using w(3) uint32_range [of ntp]
    by (intro word_uint_eqI) (simp add: D_lo_word_of_int uint_word_of_int_u32)
  ultimately show ?thesis by (simp add: v_def)
qed

section \<open>Properties of the day and second arithmetic\<close>

text \<open>
  Periodic extension.  For a positive modulus the result is the unique value of the residue
  class of \<open>value\<close> in the window \<open>[pivot, pivot + cycle)\<close>; for a negative one it is the value in
  \<open>(pivot + cycle, pivot]\<close>.  The hypotheses are those under which the 32-bit result exists.
\<close>
theorem periodic_extend_window:
  assumes "in_s32 pivot" "in_s32 value" "cycle \<noteq> 0" "\<bar>cycle\<bar> < 2147483648"
    and "in_s32 (pivot + cycle - sgn cycle)"
  shows "x = ntpcal_periodic_extend pivot value cycle \<longleftrightarrow>
    x mod cycle = value mod cycle \<and>
    (if cycle > 0 then pivot \<le> x \<and> x < pivot + cycle else pivot + cycle < x \<and> x \<le> pivot)"
proof -
  have r: "ntpcal_periodic_extend pivot value cycle = pivot + (value - pivot) mod cycle"
    using assms by (rule ntpcal_periodic_extend_eq)
  show ?thesis
  proof (cases "cycle > 0")
    case True
    have "x = pivot + (value - pivot) mod cycle" if "x mod cycle = value mod cycle" "pivot \<le> x" "x < pivot + cycle"
    proof -
      have "(x - pivot) mod cycle = (value - pivot) mod cycle" using that(1) by (rule mod_diff_cong) simp
      moreover have "(x - pivot) mod cycle = x - pivot" using that by (intro mod_pos_pos_trivial) auto
      ultimately show ?thesis by simp
    qed
    with True r mod_window [of cycle pivot "value"] show ?thesis by auto
  next
    case False
    with assms have c: "cycle < 0" by simp
    have "x = pivot + (value - pivot) mod cycle" if "x mod cycle = value mod cycle" "pivot + cycle < x" "x \<le> pivot"
    proof -
      have "(x - pivot) mod cycle = (value - pivot) mod cycle" using that(1) by (rule mod_diff_cong) simp
      moreover have "(x - pivot) mod cycle = x - pivot" using that by (intro mod_neg_neg_trivial) auto
      ultimately show ?thesis by simp
    qed
    moreover have "(pivot + (value - pivot) mod cycle) mod cycle = value mod cycle" by (simp add: mod_simps)
    moreover have "pivot + cycle < pivot + (value - pivot) mod cycle" "pivot + (value - pivot) mod cycle \<le> pivot"
      using c by (simp_all add: neg_mod_bound)
    ultimately show ?thesis using c r by auto
  qed
qed

theorem periodic_extend_window_witness:
  "70 = ntpcal_periodic_extend 65 0 7 \<and> ntpcal_periodic_extend 65 2 (- 7) = 65"
  using periodic_extend_window [of 65 0 7 70] periodic_extend_window [of 65 2 "- 7" 65]
  by (simp add: in_s32_def)

text \<open>
  C12: unfolding an NTP stamp.  With the pivot (or the current time) in the 64-bit range less half
  an era at either end, the seconds returned agree with the 32-bit stamp modulo \<open>2^32\<close> and are at
  most half an era away from the pivot, in the NTP scale and in the UNIX scale alike; the two
  results differ by the offset of the scales.
\<close>
theorem ntp_unfold_nearest:
  assumes "P = (case pivot of Some p \<Rightarrow> p | None \<Rightarrow> now)"
    and "in_s64 (P - 2147483648)" "in_s64 (P + 4356472448)"
  shows "q_s (ntpcal_ntp_to_ntp now ntp pivot) mod 2 ^ 32 = uint ntp \<and>
    P + uint JAN_1970 - 2 ^ 31 \<le> q_s (ntpcal_ntp_to_ntp now ntp pivot) \<and>
    q_s (ntpcal_ntp_to_ntp now ntp pivot) < P + uint JAN_1970 + 2 ^ 31 \<and>
    q_s (ntpcal_ntp_to_time now ntp pivot) = q_s (ntpcal_ntp_to_ntp now ntp pivot) - uint JAN_1970"
proof -
  have N: "q_s (ntpcal_ntp_to_ntp now ntp pivot) = P + 61505152 + (uint ntp - (P + 61505152)) mod 4294967296"
    using assms by (intro q_s_ntp_to_ntp) (simp_all add: in_s64_def)
  have T: "q_s (ntpcal_ntp_to_time now ntp pivot) = P - 2147483648 + (uint ntp - (P + 61505152)) mod 4294967296"
    using assms by (intro q_s_ntp_to_time) (simp_all add: in_s64_def)
  have "uint ntp mod 4294967296 = uint ntp" using uint32_range [of ntp] by simp
  with N T mod_window [of 4294967296 "P + 61505152" "uint ntp"] show ?thesis
    by (simp add: JAN_1970_val)
qed

theorem ntp_unfold_nearest_witness:
  "q_s (ntpcal_ntp_to_ntp 1400000000 5 None) mod 2 ^ 32 = 5 \<and>
   q_s (ntpcal_ntp_to_time 0 5 (Some 2200000000)) = q_s (ntpcal_ntp_to_ntp 0 5 (Some 2200000000)) - uint JAN_1970"
  using ntp_unfold_nearest [where P = 1400000000 and pivot = None and now = 1400000000 and ntp = 5]
    ntp_unfold_nearest [where P = 2200000000 and pivot = "Some 2200000000" and now = 0 and ntp = 5]
  by (simp add: in_s64_def)

text \<open>
  The variants for platforms without 64-bit scalars.  The two's complement pairs, the chained
  16-bit division by 675 and the 16-bit multiplication compute exactly what the 64-bit code
  computes: the day split for every 64-bit value, the others wherever no operand is the most
  negative number, whose negation the C code may not form.
\<close>
theorem no_int64_variants_agree:
  assumes "in_s64 tt" "tt \<noteq> - (2 ^ 63)" "tt = (case pivot of Some p \<Rightarrow> p | None \<Rightarrow> now)"
    and "in_s32 days" "days \<noteq> - (2 ^ 31)" "in_s32 secs" "secs \<noteq> - (2 ^ 31)"
  shows "time_to_vint64_32 tt = time_to_vint64 tt \<and>
    vint64_to_time_32 v = vint64_to_time v \<and>
    ntpcal_ntp_to_ntp_32 now ntp pivot = ntpcal_ntp_to_ntp now ntp pivot \<and>
    ntpcal_ntp_to_time_32 now ntp pivot = ntpcal_ntp_to_time now ntp pivot \<and>
    ntpcal_daysplit_32 v = ntpcal_daysplit v \<and>
    ntpcal_dayjoin_32 days secs = ntpcal_dayjoin days secs"
  using assms ntp_to_ntp_32_eq [where P = tt and pivot = pivot and now = now and ntp = ntp]
  by (simp add: time_to_vint64_32_eq vint64_to_time_32_eq ntpcal_daysplit_32_eq ntpcal_dayjoin_32_eq)

theorem no_int64_variants_agree_witness:
  "ntpcal_dayjoin_32 (- 3) 7 = ntpcal_dayjoin (- 3) 7 \<and> time_to_vint64_32 (- 1) = time_to_vint64 (- 1)"
  using no_int64_variants_agree [where tt = "- 1" and pivot = "Some (- 1)" and days = "- 3" and secs = 7] by (simp add: in_s64_def in_s32_def)

text \<open>
  Days and seconds.  Joining and splitting are inverse on every 32-bit day number and every
  second of a day, the split is monotone in the seconds, and the split of the seconds of a day
  into hours, minutes and seconds is in range and undone by \<^verbatim>\<open>ntpcal_etime_to_seconds\<close>, with the
  excess of any 32-bit value going to the days.
\<close>
theorem daysplit_timesplit_roundtrip:
  assumes "in_s32 d" "d < 2147483647" "0 \<le> s" "s < 86400" "in_s32 ts"
  shows "ntpcal_daysplit (ntpcal_dayjoin d s) = \<lparr>hi = d, lo = s\<rparr> \<and>
    (case priv_timesplit ts of (days, h, m, sec) \<Rightarrow>
       0 \<le> h \<and> h < 24 \<and> 0 \<le> m \<and> m < 60 \<and> 0 \<le> sec \<and> sec < 60 \<and>
       days * 86400 + ntpcal_etime_to_seconds h m sec = ts)"
proof -
  have "in_unit day_start (- 2147483648) 2147483647 d s"
    using assms by (simp add: in_unit_def day_start_eq in_s32_def)
  from daysec.split_join [OF this] have "day_split (d * 86400 + s) = (d, s)"
    using assms by (simp add: day_start_eq)
  moreover have "word_of_int (d * 86400 + s) = ntpcal_dayjoin d s" by (simp add: ntpcal_dayjoin_def)
  ultimately have A: "ntpcal_daysplit (ntpcal_dayjoin d s) = \<lparr>hi = d, lo = s\<rparr>"
    by (simp add: day_split_def Let_def)
  show ?thesis using A etime_timesplit by (simp add: priv_timesplit_eq)
qed

theorem daysplit_timesplit_roundtrip_witness:
  "ntpcal_daysplit (ntpcal_dayjoin (- 5) 86399) = \<lparr>hi = - 5, lo = 86399\<rparr>"
  using daysplit_timesplit_roundtrip [of "- 5" 86399 0] by (simp add: in_s32_def)

end
