(* ===== verification/Gregorian.thy ===== *)
theory Gregorian
  imports Calendar_Core
begin

text \<open>
  The proleptic Gregorian calendar of \<^verbatim>\<open>libntp/ntp_calendar.c\<close>: elapsed days split into
  years and months, the converse conversions, the \<^verbatim>\<open>struct calendar\<close> and \<^verbatim>\<open>struct tm\<close>
  front ends, the conversions to and from UNIX and NTP seconds, and the day-of-week searches.

  Day numbers and elapsed years are C \<^verbatim>\<open>int32\<close> values, here integers with the wrap \<^const>\<open>s32\<close> where
  the C expression can leave the range.  Fields of \<^verbatim>\<open>struct calendar\<close> keep their widths as words;
  the assignments to them truncate.  A pointer result such as \<^verbatim>\<open>isleapyear\<close> is a second component
  of the result.
\<close>

section \<open>Constants, tables and structures\<close>

definition GREGORIAN_NORMAL_LEAP_CYCLE_DAYS :: int where
  "GREGORIAN_NORMAL_LEAP_CYCLE_DAYS = 3 * 365 + 366"
definition GREGORIAN_NORMAL_CENTURY_DAYS :: int where
  "GREGORIAN_NORMAL_CENTURY_DAYS = 25 * GREGORIAN_NORMAL_LEAP_CYCLE_DAYS - 1"
definition GREGORIAN_CYCLE_DAYS :: int where
  "GREGORIAN_CYCLE_DAYS = 4 * GREGORIAN_NORMAL_CENTURY_DAYS + 1"
definition GREGORIAN_CYCLE_WEEKS :: int where
  "GREGORIAN_CYCLE_WEEKS = GREGORIAN_CYCLE_DAYS sdiv 7"

definition is_leapyear :: "int \<Rightarrow> bool" where
  "is_leapyear y \<longleftrightarrow> y smod 4 = 0 \<and> \<not> (y smod 100 = 0 \<and> y smod 400 \<noteq> 0)"

definition shift_month_table :: "int list" where
  "shift_month_table = [0, 31, 61, 92, 122, 153, 184, 214, 245, 275, 306, 337, 366]"

definition real_month_table :: "bool \<Rightarrow> int list" where
  "real_month_table leap =
     (if leap then [0, 31, 60, 91, 121, 152, 182, 213, 244, 274, 305, 335, 366]
      else [0, 31, 59, 90, 120, 151, 181, 212, 243, 273, 304, 334, 365])"

record calendar =
  year :: u_short
  yearday :: u_short
  month :: u_char
  monthday :: u_char
  hour :: u_char
  minute :: u_char
  second :: u_char
  weekday :: u_char

record tm =
  tm_sec :: int
  tm_min :: int
  tm_hour :: int
  tm_mday :: int
  tm_mon :: int
  tm_year :: int
  tm_wday :: int
  tm_yday :: int

section \<open>Splitting days\<close>

definition ntpcal_split_eradays :: "int \<Rightarrow> ntpcal_split \<times> int" where
  "ntpcal_split_eradays days =
     (let (n400, yday) = c_floor_divmod days GREGORIAN_CYCLE_DAYS;
          n100 = yday sdiv GREGORIAN_NORMAL_CENTURY_DAYS;
          yday = yday smod GREGORIAN_NORMAL_CENTURY_DAYS;
          n004 = yday sdiv GREGORIAN_NORMAL_LEAP_CYCLE_DAYS;
          yday = yday smod GREGORIAN_NORMAL_LEAP_CYCLE_DAYS;
          n001 = yday sdiv DAYSPERYEAR;
          yday = yday smod DAYSPERYEAR;
          (n001, yday, leap) =
            (if (n001 OR n100) > 3 then (n001 - 1, yday + DAYSPERYEAR, 1)
             else (n001, yday, if n001 = 3 \<and> (n004 \<noteq> 24 \<or> n100 = 3) then 1 else 0))
      in (\<lparr>hi = ((4 * n400 + n100) * 25 + n004) * 4 + n001, lo = yday\<rparr>, leap))"

definition ntpcal_split_yeardays :: "int \<Rightarrow> int \<Rightarrow> ntpcal_split" where
  "ntpcal_split_yeardays eyd isleapyear =
     (let lt = real_month_table (isleapyear \<noteq> 0)
      in if 0 \<le> eyd \<and> eyd < lt ! 12 then
           let h = drop_bit 5 eyd;
               h = (if lt ! nat (h + 1) \<le> eyd then h + 1 else h)
           in \<lparr>hi = h, lo = eyd - lt ! nat h\<rparr>
         else \<lparr>hi = - 1, lo = - 1\<rparr>)"

definition ntpcal_rd_to_date :: "calendar \<Rightarrow> int \<Rightarrow> calendar \<times> int" where
  "ntpcal_rd_to_date jd rd =
     (let wd = word_of_int (rd smod 7) :: u_char;
          jd = jd\<lparr>weekday := (if wd \<ge> 7 then wd + 7 else wd)\<rparr>;
          (split, leaps) = ntpcal_split_eradays (s32 (rd - 1));
          retv = leaps;
          y = word_of_int (uint (word_of_int (hi split) :: u_short) + 1) :: u_short;
          (y, retv) = (if uint y \<noteq> hi split + 1 then (0, - 1) else (y, retv));
          jd = jd\<lparr>year := y, yearday := word_of_int (uint (word_of_int (lo split) :: u_short) + 1)\<rparr>;
          split = ntpcal_split_yeardays (lo split) leaps;
          jd = jd\<lparr>month := word_of_int (uint (word_of_int (hi split) :: u_char) + 1),
                 monthday := word_of_int (uint (word_of_int (lo split) :: u_char) + 1)\<rparr>
      in (jd, if retv \<noteq> 0 then retv else leaps))"

definition ntpcal_rd_to_tm :: "tm \<Rightarrow> int \<Rightarrow> tm \<times> int" where
  "ntpcal_rd_to_tm utm rd =
     (let wd = rd smod 7;
          utm = utm\<lparr>tm_wday := (if wd < 0 then wd + 7 else wd)\<rparr>;
          (split, leaps) = ntpcal_split_eradays (s32 (rd - 1));
          utm = utm\<lparr>tm_year := hi split - 1899, tm_yday := lo split\<rparr>;
          split = ntpcal_split_yeardays (lo split) leaps;
          utm = utm\<lparr>tm_mon := hi split, tm_mday := lo split + 1\<rparr>
      in (utm, leaps))"

definition ntpcal_daysec_to_date :: "calendar \<Rightarrow> int \<Rightarrow> calendar \<times> int" where
  "ntpcal_daysec_to_date jd sec =
     (let (days, ts0, ts1, ts2) = priv_timesplit sec
      in (jd\<lparr>hour := word_of_int ts0, minute := word_of_int ts1, second := word_of_int ts2\<rparr>, days))"

definition ntpcal_daysec_to_tm :: "tm \<Rightarrow> int \<Rightarrow> tm \<times> int" where
  "ntpcal_daysec_to_tm utm sec =
     (let (days, ts0, ts1, ts2) = priv_timesplit sec
      in (utm\<lparr>tm_hour := ts0, tm_min := ts1, tm_sec := ts2\<rparr>, days))"

definition ntpcal_daysplit_to_date :: "calendar \<Rightarrow> ntpcal_split \<Rightarrow> int \<Rightarrow> calendar \<times> int" where
  "ntpcal_daysplit_to_date jd ds dof =
     (let (jd, days) = ntpcal_daysec_to_date jd (lo ds);
          dof = s32 (dof + days)
      in ntpcal_rd_to_date jd (s32 (hi ds + dof)))"

definition ntpcal_daysplit_to_tm :: "tm \<Rightarrow> ntpcal_split \<Rightarrow> int \<Rightarrow> tm \<times> int" where
  "ntpcal_daysplit_to_tm utm ds dof =
     (let (utm, days) = ntpcal_daysec_to_tm utm (lo ds);
          dof = s32 (dof + days)
      in ntpcal_rd_to_tm utm (s32 (hi ds + dof)))"

definition ntpcal_time_to_date :: "calendar \<Rightarrow> vint64 \<Rightarrow> calendar \<times> int" where
  "ntpcal_time_to_date jd ts =
     (let ds = ntpcal_daysplit ts;
          (jd, days) = ntpcal_daysec_to_date jd (lo ds);
          ds = ds\<lparr>hi := s32 (hi ds + days)\<rparr>;
          ds = ds\<lparr>hi := s32 (hi ds + DAY_UNIX_STARTS)\<rparr>
      in ntpcal_rd_to_date jd (hi ds))"

section \<open>Merging dates\<close>

definition ntpcal_days_in_years :: "int \<Rightarrow> int" where
  "ntpcal_days_in_years years =
     (let (cycle, years) = c_floor_divmod years 400
      in s32 (cycle * GREGORIAN_CYCLE_DAYS + years * DAYSPERYEAR + years sdiv 4 - years sdiv 100))"

definition ntpcal_days_in_months :: "int \<Rightarrow> ntpcal_split" where
  "ntpcal_days_in_months m =
     (let (h, l) = (if m < 0 \<or> m \<ge> 12 then c_floor_divmod m 12 else (0, m));
          (h, l) = (if l < 2 then (h, l + 10) else (h + 1, l - 2))
      in \<lparr>hi = h, lo = shift_month_table ! nat l - 306\<rparr>)"

definition ntpcal_edate_to_eradays :: "int \<Rightarrow> int \<Rightarrow> int \<Rightarrow> int" where
  "ntpcal_edate_to_eradays years mons mdays =
     (let res = (if mons \<noteq> 0 then
                   let tmp = ntpcal_days_in_months mons
                   in s32 (ntpcal_days_in_years (s32 (years + hi tmp)) + lo tmp)
                 else ntpcal_days_in_years years)
      in s32 (res + mdays))"

definition ntpcal_edate_to_yeardays :: "int \<Rightarrow> int \<Rightarrow> int \<Rightarrow> int" where
  "ntpcal_edate_to_yeardays years mons mdays =
     (if 0 \<le> mons \<and> mons < 12 then
        let years = s32 (years + 1) in s32 (mdays + real_month_table (is_leapyear years) ! nat mons)
      else
        let tmp = ntpcal_days_in_months mons
        in s32 (mdays + (lo tmp + ntpcal_days_in_years (s32 (years + hi tmp)) - ntpcal_days_in_years years)))"

definition ntpcal_tm_to_rd :: "tm \<Rightarrow> int" where
  "ntpcal_tm_to_rd utm =
     s32 (ntpcal_edate_to_eradays (s32 (tm_year utm + 1899)) (tm_mon utm) (s32 (tm_mday utm - 1)) + 1)"

definition ntpcal_date_to_rd :: "calendar \<Rightarrow> int" where
  "ntpcal_date_to_rd jd =
     s32 (ntpcal_edate_to_eradays (uint (year jd) - 1) (uint (month jd) - 1) (uint (monthday jd) - 1) + 1)"

definition ntpcal_year_to_ystart :: "int \<Rightarrow> int" where
  "ntpcal_year_to_ystart y = s32 (ntpcal_days_in_years (s32 (y - 1)) + 1)"

definition ntpcal_rd_to_ystart :: "int \<Rightarrow> int" where
  "ntpcal_rd_to_ystart rd = s32 (rd - lo (fst (ntpcal_split_eradays (s32 (rd - 1)))))"

definition ntpcal_rd_to_mstart :: "int \<Rightarrow> int" where
  "ntpcal_rd_to_mstart rd =
     (let (split, leaps) = ntpcal_split_eradays (s32 (rd - 1));
          split = ntpcal_split_yeardays (lo split) leaps
      in s32 (rd - lo split))"

definition ntpcal_date_to_daysec :: "calendar \<Rightarrow> int" where
  "ntpcal_date_to_daysec jd =
     ntpcal_etime_to_seconds (uint (hour jd)) (uint (minute jd)) (uint (second jd))"

definition ntpcal_tm_to_daysec :: "tm \<Rightarrow> int" where
  "ntpcal_tm_to_daysec utm = ntpcal_etime_to_seconds (tm_hour utm) (tm_min utm) (tm_sec utm)"

definition ntpcal_date_to_time :: "calendar \<Rightarrow> time_t" where
  "ntpcal_date_to_time jd =
     (let days = s32 (ntpcal_date_to_rd jd - DAY_UNIX_STARTS);
          secs = ntpcal_date_to_daysec jd
      in vint64_to_time (ntpcal_dayjoin days secs))"

definition ntpcal_ntp_to_date :: "time_t \<Rightarrow> calendar \<Rightarrow> u_int32 \<Rightarrow> time_t option \<Rightarrow> calendar \<times> int" where
  "ntpcal_ntp_to_date now jd ntp piv =
     (let vl = ntpcal_ntp_to_ntp now ntp piv;
          ds = ntpcal_daysplit vl;
          (jd, days) = ntpcal_daysec_to_date jd (lo ds);
          ds = ds\<lparr>hi := s32 (hi ds + days)\<rparr>
      in ntpcal_rd_to_date jd (s32 (hi ds + DAY_NTP_STARTS)))"

definition ntpcal_date_to_ntp :: "calendar \<Rightarrow> u_int32" where
  "ntpcal_date_to_ntp jd =
     D_lo (ntpcal_dayjoin (s32 (ntpcal_date_to_rd jd - DAY_NTP_STARTS)) (ntpcal_date_to_daysec jd))"

definition ntpcal_weekday_gt :: "int \<Rightarrow> int \<Rightarrow> int" where
  "ntpcal_weekday_gt rdn dow = ntpcal_periodic_extend (s32 (rdn + 1)) dow 7"

definition ntpcal_weekday_ge :: "int \<Rightarrow> int \<Rightarrow> int" where
  "ntpcal_weekday_ge rdn dow = ntpcal_periodic_extend rdn dow 7"

definition ntpcal_weekday_close :: "int \<Rightarrow> int \<Rightarrow> int" where
  "ntpcal_weekday_close rdn dow = ntpcal_periodic_extend (s32 (rdn - 3)) dow 7"

definition ntpcal_weekday_le :: "int \<Rightarrow> int \<Rightarrow> int" where
  "ntpcal_weekday_le rdn dow = ntpcal_periodic_extend rdn dow (- 7)"

definition ntpcal_weekday_lt :: "int \<Rightarrow> int \<Rightarrow> int" where
  "ntpcal_weekday_lt rdn dow = ntpcal_periodic_extend (s32 (rdn - 1)) dow (- 7)"

lemmas greg_consts [simp] =
  GREGORIAN_NORMAL_LEAP_CYCLE_DAYS_def GREGORIAN_NORMAL_CENTURY_DAYS_def GREGORIAN_CYCLE_DAYS_def

lemma GREGORIAN_CYCLE_WEEKS_val [simp]: "GREGORIAN_CYCLE_WEEKS = 20871"
  by (simp add: GREGORIAN_CYCLE_WEEKS_def sdiv_nonneg)

section \<open>Elapsed years and the days of the era\<close>

text \<open>The leap year rule as a closed form: the days in \<open>n\<close> elapsed years of the era.\<close>

definition era_days :: "int \<Rightarrow> int" where
  "era_days n = 365 * n + n div 4 - n div 100 + n div 400"

lemma smod_eq_0_iff: "(y :: int) smod c = 0 \<longleftrightarrow> y mod c = 0" if "0 < c"
proof (cases "y < 0")
  case True
  with that show ?thesis by (simp add: smod_neg mod_eq_0_iff_dvd)
next
  case False
  with that show ?thesis by (simp add: smod_nonneg)
qed

lemma is_leapyear_iff: "is_leapyear y \<longleftrightarrow> y mod 4 = 0 \<and> (y mod 100 = 0 \<longrightarrow> y mod 400 = 0)"
  by (simp add: is_leapyear_def smod_eq_0_iff)

lemma div_succ: "0 < c \<Longrightarrow> (n + 1) div c = n div c + (if (n + 1) mod c = 0 then 1 else 0)" for n c :: int
proof -
  assume c: "0 < c"
  have "(n + 1) div c * c + (n + 1) mod c = n + 1" "n div c * c + n mod c = n" by (rule div_mult_mod_eq)+
  then have e: "((n + 1) div c - n div c) * c = n mod c + 1 - (n + 1) mod c" by (simp add: algebra_simps)
  have m: "0 \<le> n mod c" "n mod c < c" "0 \<le> (n + 1) mod c" "(n + 1) mod c < c" using c by simp_all
  have l: "(n + 1) div c - n div c < 2" "- 1 < (n + 1) div c - n div c"
    using e m c mult_right_less_imp_less [of "(n + 1) div c - n div c" c 2] mult_right_less_imp_less [of "- 1" c "(n + 1) div c - n div c"]
    by linarith+
  then consider "(n + 1) div c - n div c = 0" | "(n + 1) div c - n div c = 1" by linarith
  then show ?thesis
  proof cases
    case 1
    with e have "(n + 1) mod c = n mod c + 1" by simp
    with m have "(n + 1) mod c \<noteq> 0" by linarith
    with 1 show ?thesis by simp
  next
    case 2
    with e have "(n + 1) mod c = n mod c + 1 - c" by simp
    with m have "(n + 1) mod c = 0" by linarith
    with 2 show ?thesis by simp
  qed
qed

lemma is_leapyear_dvd: "is_leapyear y \<longleftrightarrow> 4 dvd y \<and> (100 dvd y \<longrightarrow> 400 dvd y)"
  by (simp add: is_leapyear_iff mod_eq_0_iff_dvd)

lemma era_days_step: "era_days (n + 1) = era_days n + (if is_leapyear (n + 1) then 366 else 365)"
proof -
  have "4 dvd n + 1" if "100 dvd n + 1" using that dvd_trans [of 4 100 "n + 1"] by simp
  moreover have "100 dvd n + 1" if "400 dvd n + 1" using that dvd_trans [of 100 400 "n + 1"] by simp
  ultimately show ?thesis
    unfolding era_days_def is_leapyear_dvd
    by (cases "4 dvd n + 1"; cases "100 dvd n + 1"; cases "400 dvd n + 1")
      (simp_all add: div_succ mod_eq_0_iff_dvd)
qed

lemma era_days_horner:
  assumes "0 \<le> b" "b \<le> 3" "0 \<le> c" "c \<le> 24" "0 \<le> d" "d \<le> 3"
  shows "era_days (((4 * a + b) * 25 + c) * 4 + d) = 146097 * a + 36524 * b + 1461 * c + 365 * d"
proof -
  let ?n = "((4 * a + b) * 25 + c) * 4 + d"
  have "?n div 4 = (4 * a + b) * 25 + c" "?n div 100 = 4 * a + b" "?n div 400 = a"
    using assms int_div_pos_eq [of ?n 4 "(4 * a + b) * 25 + c" d]
      int_div_pos_eq [of ?n 100 "4 * a + b" "4 * c + d"] int_div_pos_eq [of ?n 400 a "100 * b + 4 * c + d"]
    by simp_all
  then show ?thesis by (simp add: era_days_def)
qed

lemma days_in_years_eq: "ntpcal_days_in_years y = s32 (era_days y)"
proof -
  define q r where qr: "q = y div 400" "r = y mod 400"
  have r: "0 \<le> r" "r < 400" "y = 400 * q + r" by (simp_all add: qr)
  have "y div 4 = 100 * q + r div 4" "y div 100 = 4 * q + r div 100" "y div 400 = q"
    using r by linarith+
  then show ?thesis
    using r by (simp add: ntpcal_days_in_years_def c_floor_divmod_eq flip: qr) 
      (simp add: era_days_def sdiv_nonneg algebra_simps)
qed

lemma is_leapyear_horner:
  assumes "0 \<le> b" "b \<le> 3" "0 \<le> c" "c \<le> 24" "0 \<le> d" "d \<le> 3"
  shows "is_leapyear (((4 * a + b) * 25 + c) * 4 + d + 1) \<longleftrightarrow> d = 3 \<and> (c \<noteq> 24 \<or> b = 3)"
proof -
  let ?n = "((4 * a + b) * 25 + c) * 4 + d + 1"
  have 4: "?n mod 4 = (if d = 3 then 0 else d + 1)"
    using assms int_mod_pos_eq [of ?n 4 "(4 * a + b) * 25 + c" "d + 1"]
      int_mod_pos_eq [of ?n 4 "(4 * a + b) * 25 + c + 1" 0] by auto
  have 100: "?n mod 100 = (if c = 24 then 0 else 4 * c + 4)" if "d = 3"
    using that assms int_mod_pos_eq [of ?n 100 "4 * a + b" "4 * c + 4"]
      int_mod_pos_eq [of ?n 100 "4 * a + b + 1" 0] by auto
  have 400: "?n mod 400 = (if b = 3 then 0 else 100 * b + 100)" if "d = 3" "c = 24"
    using that assms int_mod_pos_eq [of ?n 400 a "100 * b + 100"]
      int_mod_pos_eq [of ?n 400 "a + 1" 0] by auto
  show ?thesis
  proof (cases "d = 3")
    case True
    have "?n mod 4 = 0" "?n mod 100 = 0 \<longleftrightarrow> c = 24" unfolding 4 100 [OF True] using True assms by auto
    moreover have "?n mod 400 = 0 \<longleftrightarrow> b = 3" if "c = 24" unfolding 400 [OF True that] using assms by auto
    ultimately show ?thesis unfolding is_leapyear_iff using True by metis
  next
    case False
    have "?n mod 4 \<noteq> 0" unfolding 4 using False assms by auto
    with False show ?thesis unfolding is_leapyear_iff by blast
  qed
qed

lemma or_gt_3:
  assumes "0 \<le> a" "a \<le> 4" "0 \<le> b" "b \<le> 4"
  shows "(a OR b :: int) > 3 \<longleftrightarrow> a = 4 \<or> b = 4"
proof -
  have "a \<in> {0, 1, 2, 3, 4}" "b \<in> {0, 1, 2, 3, 4}" using assms by auto
  then show ?thesis by (elim insertE emptyE) simp_all
qed

lemma split_eradays_sound:
  assumes "ntpcal_split_eradays days = (sp, leap)"
  shows "era_days (hi sp) + lo sp = days \<and> 0 \<le> lo sp \<and>
    lo sp < (if leap \<noteq> 0 then 366 else 365) \<and> leap = (if is_leapyear (hi sp + 1) then 1 else 0)"
proof -
  define a y where ay: "a = days div 146097" "y = days mod 146097"
  define b y1 where b: "b = y div 36524" "y1 = y mod 36524"
  define c y2 where c: "c = y1 div 1461" "y2 = y1 mod 1461"
  define d y3 where d: "d = y2 div 365" "y3 = y2 mod 365"
  have Y: "0 \<le> y" "y < 146097" "days = 146097 * a + y" by (simp_all add: ay)
  have B: "0 \<le> y1" "y1 < 36524" "y = 36524 * b + y1" by (simp_all add: b)
  have C: "0 \<le> y2" "y2 < 1461" "y1 = 1461 * c + y2" by (simp_all add: c)
  have D: "0 \<le> y3" "y3 < 365" "y2 = 365 * d + y3" by (simp_all add: d)
  have R: "0 \<le> b" "b \<le> 4" "0 \<le> c" "c \<le> 24" "0 \<le> d" "d \<le> 4" using Y B C D by linarith+
  define e4 where "e4 \<longleftrightarrow> d = 4 \<or> b = 4"
  have sp: "(sp, leap) = (if e4 then (\<lparr>hi = ((4 * a + b) * 25 + c) * 4 + (d - 1), lo = y3 + 365\<rparr>, 1)
      else (\<lparr>hi = ((4 * a + b) * 25 + c) * 4 + d, lo = y3\<rparr>, if d = 3 \<and> (c \<noteq> 24 \<or> b = 3) then 1 else 0))"
    unfolding assms [symmetric] ntpcal_split_eradays_def e4_def or_gt_3 [OF R(5,6,1,2), symmetric]
    using Y B C R
    by (simp add: c_floor_divmod_eq sdiv_nonneg smod_nonneg ay [symmetric] b [symmetric] c [symmetric] d [symmetric] Let_def)
  show ?thesis
  proof (cases "b = 4")
    case True
    with Y B C D R have "c = 0" "d = 0" "y3 = 0" "y = 146096" by linarith+
    with True Y sp era_days_horner [of 3 24 3 a] is_leapyear_horner [of 3 24 3 a] show ?thesis
      by (simp add: e4_def algebra_simps)
  next
    case b4: False
    show ?thesis
    proof (cases "d = 4")
      case True
      with B C D R have "y3 = 0" "c \<le> 23" by linarith+
      with True b4 Y B C D R sp era_days_horner [of b c 3 a] is_leapyear_horner [of b c 3 a] show ?thesis
        by (simp add: e4_def)
    next
      case False
      with b4 Y B C D R sp era_days_horner [of b c d a] is_leapyear_horner [of b c d a] show ?thesis
        by (simp add: e4_def)
    qed
  qed
qed

section \<open>Months\<close>

lemma month_table_nth [simp]:
  "real_month_table l ! 0 = 0"
  "real_month_table l ! 12 = (if l then 366 else 365)"
  by (simp_all add: real_month_table_def)

lemma nat_cases12: "0 \<le> k \<Longrightarrow> k < 12 \<Longrightarrow> k \<in> {0, 1, 2, 3, 4, 5, 6, 7, 8, 9, 10, 11 :: int}"
  by simp presburger

lemma month_table_approx:
  assumes "0 \<le> k" "k < 12"
  shows "real_month_table l ! nat k \<le> 32 * k \<and> (k < 11 \<longrightarrow> 32 * k + 32 \<le> real_month_table l ! nat (k + 2))"
proof -
  have "list_all (\<lambda>l. list_all (\<lambda>k. real_month_table l ! nat k \<le> 32 * k \<and>
      (k < 11 \<longrightarrow> 32 * k + 32 \<le> real_month_table l ! nat (k + 2))) [0..11]) [True, False]"
    by code_simp
  with assms show ?thesis by (cases l) (simp_all add: list_all_iff)
qed

lemma split_yeardays_sound:
  assumes "0 \<le> eyd" "eyd < (if leap \<noteq> 0 then 366 else 365)" "ntpcal_split_yeardays eyd leap = sp"
  shows "0 \<le> hi sp \<and> hi sp < 12 \<and> 0 \<le> lo sp \<and> real_month_table (leap \<noteq> 0) ! nat (hi sp) + lo sp = eyd \<and>
    eyd < real_month_table (leap \<noteq> 0) ! nat (hi sp + 1)"
proof -
  define k where "k = eyd div 32"
  have k: "0 \<le> k" "k < 12" "32 * k \<le> eyd" "eyd < 32 * k + 32"
    using assms unfolding k_def by (auto split: if_splits)
  have d: "drop_bit 5 eyd = k" by (simp add: k_def drop_bit_eq_div)
  define lt where "lt = real_month_table (leap \<noteq> 0)"
  have e: "lt ! nat (k + 1) > eyd" if "k = 11" using that assms(2) by (simp add: lt_def)
  have lt: "lt ! nat k \<le> eyd" "eyd < lt ! nat (k + 2) \<or> k = 11"
    using month_table_approx [OF k(1,2), of "leap \<noteq> 0"] k unfolding lt_def [symmetric] by auto
  moreover have "lt ! nat (k + 1) \<le> eyd \<longrightarrow> k < 11" using e k by (cases "k = 11") auto
  moreover have "sp = (if lt ! nat (k + 1) \<le> eyd then \<lparr>hi = k + 1, lo = eyd - lt ! nat (k + 1)\<rparr> else \<lparr>hi = k, lo = eyd - lt ! nat k\<rparr>)"
    using assms unfolding ntpcal_split_yeardays_def d lt_def by (auto simp: Let_def)
  ultimately show ?thesis using k unfolding lt_def by (auto simp: add.assoc)
qed

lemma split_yeardays_range:
  assumes "eyd < 0 \<or> (if leap \<noteq> 0 then 366 else 365) \<le> eyd"
  shows "ntpcal_split_yeardays eyd leap = \<lparr>hi = - 1, lo = - 1\<rparr>"
  using assms by (auto simp: ntpcal_split_yeardays_def Let_def)

text \<open>The first day of the month numbered \<open>n\<close>, counting months since the start of the era.\<close>

definition month_days :: "int \<Rightarrow> int" where
  "month_days n = era_days (n div 12) + real_month_table (is_leapyear (n div 12 + 1)) ! nat (n mod 12)"

definition month_length :: "int \<Rightarrow> int" where
  "month_length n = (let lt = real_month_table (is_leapyear (n div 12 + 1)); m = n mod 12
     in lt ! nat (m + 1) - lt ! nat m)"

lemma month_div_mod:
  assumes "0 \<le> m" "m < (12 :: int)"
  shows "(12 * y + m) div 12 = y" "(12 * y + m) mod 12 = m"
  using assms int_div_pos_eq [of "12 * y + m" 12 y m] int_mod_pos_eq [of "12 * y + m" 12 y m] by auto

lemma month_days_at: "0 \<le> m \<Longrightarrow> m < 12 \<Longrightarrow>
    month_days (12 * y + m) = era_days y + real_month_table (is_leapyear (y + 1)) ! nat m"
  by (simp add: month_days_def month_div_mod)

lemma month_days_year: "month_days (12 * y) = era_days y"
  using month_days_at [of 0 y] by simp

lemma month_days_step: "month_days (n + 1) = month_days n + month_length n"
proof -
  define y m where ym: "y = n div 12" "m = n mod 12"
  have m: "0 \<le> m" "m < 12" and n: "n = 12 * y + m" by (simp_all add: ym)
  show ?thesis
  proof (cases "m = 11")
    case True
    then have "month_days (n + 1) = era_days (y + 1)"
      using month_days_year [of "y + 1"] by (simp add: n algebra_simps)
    moreover have "month_days n = era_days y + real_month_table (is_leapyear (y + 1)) ! 11"
      using month_days_at [of m y] m True by (simp add: n)
    ultimately show ?thesis
      using True by (simp add: month_length_def ym [symmetric] era_days_step)
  next
    case False
    then have "month_days (n + 1) = era_days y + real_month_table (is_leapyear (y + 1)) ! nat (m + 1)"
      using month_days_at [of "m + 1" y] m by (simp add: n algebra_simps)
    then show ?thesis
      using month_days_at [OF m, of y] by (simp add: n [symmetric] month_length_def ym [symmetric] Let_def)
  qed
qed

lemma month_length_range: "28 \<le> month_length n \<and> month_length n \<le> 31"
proof -
  have "n mod 12 \<in> {0, 1, 2, 3, 4, 5, 6, 7, 8, 9, 10, 11}" by (rule nat_cases12) simp_all
  then show ?thesis
    unfolding month_length_def by (elim insertE emptyE) (auto simp: real_month_table_def Let_def)
qed

lemma days_in_months_eq: "era_days (y + hi (ntpcal_days_in_months m)) + lo (ntpcal_days_in_months m) = month_days (12 * y + m)"
proof -
  define q r where qr: "q = m div 12" "r = m mod 12"
  have r: "0 \<le> r" "r < 12" and m: "m = 12 * q + r" by (simp_all add: qr)
  have d: "(if m < 0 \<or> 12 \<le> m then c_floor_divmod m 12 else (0, m)) = (q, r)"
    by (auto simp: c_floor_divmod_eq qr)
  have e: "month_days (12 * y + m) = era_days (y + q) + real_month_table (is_leapyear (y + q + 1)) ! nat r"
    using month_days_at [OF r, of "y + q"] by (simp add: m algebra_simps)
  have s: "era_days (y + (q + 1)) = era_days (y + q) + (if is_leapyear (y + q + 1) then 366 else 365)"
    using era_days_step [of "y + q"] by (simp add: algebra_simps)
  from nat_cases12 [OF r] show ?thesis
    unfolding ntpcal_days_in_months_def d e
    by (elim insertE emptyE) (simp_all add: shift_month_table_def real_month_table_def s)
qed

lemma days_in_months_hi: "m div 12 \<le> hi (ntpcal_days_in_months m) \<and> hi (ntpcal_days_in_months m) \<le> m div 12 + 1"
  by (auto simp: ntpcal_days_in_months_def c_floor_divmod_eq Let_def)

lemma edate_to_eradays_eq:
  assumes "in_s32 (y + m div 12)" "in_s32 (y + m div 12 + 1)"
  shows "ntpcal_edate_to_eradays y m d = s32 (month_days (12 * y + m) + d)"
proof -
  let ?h = "hi (ntpcal_days_in_months m)"
  have "in_s32 (y + ?h)" using assms days_in_months_hi [of m] by (auto simp: in_s32_def)
  then show ?thesis
    using days_in_months_eq [of y m] month_days_year [of y]
    by (simp add: ntpcal_edate_to_eradays_def days_in_years_eq s32_id Let_def)
qed

section \<open>Years and months as units of the day count\<close>

text \<open>
  The years whose first day is a 32-bit day number: \<open>-5879610 \<le> y \<le> 5879610\<close>.  In that range
  years and months are units of the day count in the sense of \<^const>\<open>unit_split\<close>.
\<close>

definition year_split :: "int \<Rightarrow> int \<times> int" where
  "year_split d = (let (sp, leap) = ntpcal_split_eradays d in (hi sp, lo sp))"

definition month_split :: "int \<Rightarrow> int \<times> int" where
  "month_split d = (let (sp, leap) = ntpcal_split_eradays d; ms = ntpcal_split_yeardays (lo sp) leap
     in (12 * hi sp + hi ms, lo ms))"

lemma unit_scale_era_days: "unit_scale era_days a b"
  by unfold_locales (simp add: era_days_step)

lemma unit_scale_month_days: "unit_scale month_days a b"
  using month_length_range by unfold_locales (simp add: month_days_step less_le_trans [of 0 28])

lemma era_days_less_iff: "era_days u < era_days w \<longleftrightarrow> u < w"
  using unit_scale.start_less [OF unit_scale_era_days, of u u w w]
    unit_scale.start_le [OF unit_scale_era_days, of w w u u] by linarith

lemma month_days_less_iff: "month_days u < month_days w \<longleftrightarrow> u < w"
  using unit_scale.start_less [OF unit_scale_month_days, of u u w w]
    unit_scale.start_le [OF unit_scale_month_days, of w w u u] by linarith

lemma era_days_bounds: "- 5879610 \<le> y \<Longrightarrow> y \<le> 5879610 \<Longrightarrow> - 2147483456 \<le> era_days y \<and> era_days y \<le> 2147483455"
  using era_days_less_iff [of y "- 5879610"] era_days_less_iff [of 5879610 y] by (simp add: era_days_def)

lemma month_days_bounds: "- 70555320 \<le> n \<Longrightarrow> n \<le> 70555320 \<Longrightarrow> - 2147483456 \<le> month_days n \<and> month_days n \<le> 2147483455"
  using month_days_less_iff [of n "- 70555320"] month_days_less_iff [of 70555320 n]
    month_days_year [of "- 5879610"] month_days_year [of 5879610]
  by (simp add: era_days_def)

lemma days_in_years_era: "- 5879610 \<le> y \<Longrightarrow> y \<le> 5879610 \<Longrightarrow> ntpcal_days_in_years y = era_days y"
  using era_days_bounds [of y] by (simp add: days_in_years_eq s32_id in_s32_def)

lemma edate_month_days: "- 70555320 \<le> n \<Longrightarrow> n \<le> 70555320 \<Longrightarrow> ntpcal_edate_to_eradays 0 n 0 = month_days n"
  using month_days_bounds [of n] edate_to_eradays_eq [of 0 n 0] by (simp add: s32_id in_s32_def)

lemma year_split_sound:
  assumes "year_split d = (y, r)"
  shows "era_days y + r = d \<and> 0 \<le> r \<and> d < era_days (y + 1)"
proof -
  obtain sp leap where e: "ntpcal_split_eradays d = (sp, leap)" by fastforce
  with assms have "y = hi sp" "r = lo sp" by (simp_all add: year_split_def)
  with split_eradays_sound [OF e] show ?thesis by (auto simp: era_days_step split: if_splits)
qed

lemma month_split_sound:
  assumes "month_split d = (n, r)"
  shows "month_days n + r = d \<and> 0 \<le> r \<and> r < month_length n \<and> n div 12 = fst (year_split d)"
proof -
  obtain sp leap where e: "ntpcal_split_eradays d = (sp, leap)" by fastforce
  define ms where "ms = ntpcal_split_yeardays (lo sp) leap"
  note S = split_eradays_sound [OF e]
  then have M: "0 \<le> hi ms \<and> hi ms < 12 \<and> 0 \<le> lo ms \<and> real_month_table (leap \<noteq> 0) ! nat (hi ms) + lo ms = lo sp \<and>
      lo sp < real_month_table (leap \<noteq> 0) ! nat (hi ms + 1)"
    by (intro split_yeardays_sound) (auto simp: ms_def)
  have n: "n = 12 * hi sp + hi ms" "r = lo ms" using assms by (simp_all add: month_split_def e ms_def Let_def)
  have l: "is_leapyear (hi sp + 1) \<longleftrightarrow> leap \<noteq> 0" using S by auto
  have "month_days n = era_days (hi sp) + real_month_table (leap \<noteq> 0) ! nat (hi ms)"
    using month_days_at [of "hi ms" "hi sp"] M by (simp add: n l)
  moreover have "n div 12 = hi sp" "n mod 12 = hi ms" using M by (simp_all add: n month_div_mod)
  moreover from this have "month_length n = real_month_table (leap \<noteq> 0) ! nat (hi ms + 1) - real_month_table (leap \<noteq> 0) ! nat (hi ms)"
    by (simp add: month_length_def l Let_def)
  ultimately show ?thesis using M S by (auto simp: n(2) year_split_def e)
qed

interpretation years: unit_split ntpcal_days_in_years "- 5879610" 5879610 year_split
proof unfold_locales
  show "ntpcal_days_in_years u < ntpcal_days_in_years (u + 1)" if "- 5879610 \<le> u" "u < 5879610" for u
    using that by (simp add: days_in_years_era era_days_less_iff)
  show "in_unit ntpcal_days_in_years (- 5879610) 5879610 u r \<and> ntpcal_days_in_years u + r = d"
    if d: "ntpcal_days_in_years (- 5879610) \<le> d" "d < ntpcal_days_in_years 5879610" and "year_split d = (u, r)" for d u r
  proof -
    from that have s: "era_days u + r = d \<and> 0 \<le> r \<and> d < era_days (u + 1)" by (intro year_split_sound)
    with d have "era_days (- 5879610) < era_days (u + 1)" "era_days u < era_days 5879610"
      by (auto simp: days_in_years_era)
    with s show ?thesis by (auto simp: era_days_less_iff in_unit_def days_in_years_era)
  qed
qed

interpretation months: unit_split "\<lambda>n. ntpcal_edate_to_eradays 0 n 0" "- 70555320" 70555320 month_split
proof unfold_locales
  show "ntpcal_edate_to_eradays 0 u 0 < ntpcal_edate_to_eradays 0 (u + 1) 0" if "- 70555320 \<le> u" "u < 70555320" for u
    using that by (simp add: edate_month_days month_days_less_iff)
  show "in_unit (\<lambda>n. ntpcal_edate_to_eradays 0 n 0) (- 70555320) 70555320 u r \<and> ntpcal_edate_to_eradays 0 u 0 + r = d"
    if d: "ntpcal_edate_to_eradays 0 (- 70555320) 0 \<le> d" "d < ntpcal_edate_to_eradays 0 70555320 0"
      and "month_split d = (u, r)" for d u r
  proof -
    from that have s: "month_days u + r = d \<and> 0 \<le> r \<and> d < month_days (u + 1)"
      using month_split_sound [of d u r] by (simp add: month_days_step)
    with d have "month_days (- 70555320) < month_days (u + 1)" "month_days u < month_days 70555320"
      by (auto simp: edate_month_days)
    with s show ?thesis by (auto simp: month_days_less_iff in_unit_def edate_month_days)
  qed
qed

section \<open>Day numbers and dates\<close>

lemma word_of_int_truncate_succ:
  "word_of_int (uint (word_of_int a :: 'a :: len word) + 1) = (word_of_int (a + 1) :: 'a word)"
  by simp

lemma uint_u8: "0 \<le> x \<Longrightarrow> x < 256 \<Longrightarrow> uint (word_of_int x :: u_char) = x"
  by (simp add: uint_word_of_int_eq take_bit_eq_mod)

lemma uint_u16: "uint (word_of_int x :: u_short) = x mod 65536"
  by (simp add: uint_word_of_int_eq take_bit_eq_mod)

lemma smod_7_cases: "(rd smod 7 :: int) = (if rd mod 7 = 0 \<or> 0 \<le> rd then rd mod 7 else rd mod 7 - 7)"
proof (cases "rd < 0")
  case True
  then show ?thesis by (auto simp: smod_neg zmod_zminus1_eq_if)
qed (simp add: smod_nonneg)

lemma weekday_fixup:
  fixes wd :: u_char
  assumes wd_def: "wd = word_of_int (rd smod 7)"
  shows "(if wd \<ge> 7 then wd + 7 else wd) = word_of_int (rd mod 7)"
proof (cases "rd mod 7 = 0 \<or> 0 \<le> rd")
  case True
  then have w: "wd = word_of_int (rd mod 7)" by (simp add: wd_def smod_7_cases)
  have "uint wd = rd mod 7" unfolding w by (rule uint_u8) (simp_all add: order_less_trans [of "rd mod 7" 7])
  then have "\<not> wd \<ge> 7" by (simp add: word_le_def)
  with w show ?thesis by simp
next
  case False
  define m where "m = rd mod 7"
  have m: "0 < m" "m < 7" using False by (auto simp: m_def order_less_le)
  have w: "wd = word_of_int (m - 7)" using False by (simp add: wd_def smod_7_cases m_def)
  have "uint wd = m + 249" using m int_mod_pos_eq [of "m - 7" 256 "- 1" "m + 249"]
    unfolding w uint_word_of_int_eq take_bit_eq_mod by simp
  then have "wd \<ge> 7" using m by (simp add: word_le_def)
  then show ?thesis unfolding w m_def [symmetric] by simp
qed

lemma rd_to_date_eq:
  assumes "in_s32 (rd - 1)" "month_split (rd - 1) = (n, r)" "y = n div 12 + 1"
  shows "ntpcal_rd_to_date jd rd =
    (jd\<lparr>year := (if 0 \<le> y \<and> y \<le> 65535 then word_of_int y else 0),
       yearday := word_of_int (rd - era_days (y - 1)),
       month := word_of_int (n mod 12 + 1), monthday := word_of_int (r + 1),
       weekday := word_of_int (rd mod 7)\<rparr>,
     if 0 \<le> y \<and> y \<le> 65535 then (if is_leapyear y then 1 else 0) else - 1)"
proof -
  obtain sp leap where e: "ntpcal_split_eradays (rd - 1) = (sp, leap)" by fastforce
  note S = split_eradays_sound [OF e]
  define ms where "ms = ntpcal_split_yeardays (lo sp) leap"
  have M: "0 \<le> hi ms \<and> hi ms < 12"
    using S split_yeardays_sound [OF _ _ ms_def [symmetric]] by blast
  have n: "n = 12 * hi sp + hi ms" "r = lo ms"
    using assms(2) by (simp_all add: month_split_def e ms_def Let_def)
  with M assms(3) have y: "hi sp = y - 1" "n mod 12 = hi ms" by (simp_all add: month_div_mod)
  have yd: "lo sp + 1 = rd - era_days (y - 1)" using S y by simp
  have le: "leap = (if is_leapyear y then 1 else 0)" using S y by simp
  have w: "uint (word_of_int y :: u_short) \<noteq> y \<longleftrightarrow> \<not> (0 \<le> y \<and> y \<le> 65535)"
    using pos_mod_bound [of 65536 y] pos_mod_sign [of 65536 y] by (auto simp: uint_u16)
  show ?thesis
    unfolding ntpcal_rd_to_date_def s32_id [OF assms(1)] e weekday_fixup [OF refl] Let_def case_prod_conv word_of_int_truncate_succ
      ms_def [symmetric] y yd n(2) [symmetric] diff_add_cancel w
    by (cases jd) (simp add: le)
qed

lemma month_days_le_iff: "month_days u \<le> month_days w \<longleftrightarrow> u \<le> w"
  using month_days_less_iff [of w u] by linarith

lemma edate_to_eradays_small:
  assumes "- 10000000 \<le> y" "y \<le> 1000000" "- 10000000 \<le> 12 * y + m" "12 * y + m \<le> 10000000" "\<bar>d\<bar> \<le> 1000000000"
  shows "ntpcal_edate_to_eradays y m d = month_days (12 * y + m) + d"
proof -
  have "- 1000000 \<le> y + m div 12" "y + m div 12 \<le> 1000000" using assms by linarith+
  then have "ntpcal_edate_to_eradays y m d = s32 (month_days (12 * y + m) + d)"
    by (intro edate_to_eradays_eq) (simp_all add: in_s32_def)
  moreover have "month_days (- 10000000) \<le> month_days (12 * y + m)" "month_days (12 * y + m) \<le> month_days 10000000"
    using assms by (simp_all add: month_days_le_iff)
  moreover have "month_days 10000000 < 400000000" "- 400000000 < month_days (- 10000000)"
    by (simp_all add: month_days_def era_days_def real_month_table_def)
  ultimately have "in_s32 (month_days (12 * y + m) + d)" and "ntpcal_edate_to_eradays y m d = s32 (month_days (12 * y + m) + d)"
    using assms(5) unfolding in_s32_def by linarith+
  then show ?thesis by (simp add: s32_id)
qed

lemma calendar_bounds:
  "0 \<le> uint (year jd)" "uint (year jd) < 65536" "0 \<le> uint (month jd)" "uint (month jd) < 256"
  "0 \<le> uint (monthday jd)" "uint (monthday jd) < 256"
  using uint_lt2p [of "year jd"] uint_lt2p [of "month jd"] uint_lt2p [of "monthday jd"] by simp_all

lemma date_to_rd_eq: "ntpcal_date_to_rd jd = month_days (12 * (uint (year jd) - 1) + (uint (month jd) - 1)) + uint (monthday jd)"
proof -
  define y m d where "y = uint (year jd)" "m = uint (month jd)" "d = uint (monthday jd)"
  note b = calendar_bounds [of jd, folded this]
  have e: "ntpcal_edate_to_eradays (y - 1) (m - 1) (d - 1) = month_days (12 * (y - 1) + (m - 1)) + (d - 1)"
    using b by (intro edate_to_eradays_small) auto
  have "month_days (- 1000) \<le> month_days (12 * (y - 1) + (m - 1))" "month_days (12 * (y - 1) + (m - 1)) \<le> month_days 10000000"
    using b by (simp_all add: month_days_le_iff)
  moreover have "month_days 10000000 < 400000000" "- 400000000 < month_days (- 1000)"
    by (simp_all add: month_days_def era_days_def real_month_table_def)
  ultimately have "in_s32 (month_days (12 * (y - 1) + (m - 1)) + (d - 1) + 1)"
    using b unfolding in_s32_def by linarith
  then show ?thesis
    unfolding ntpcal_date_to_rd_def y_m_d_def [symmetric] e by (simp add: s32_id)
qed

text \<open>A date of \<^verbatim>\<open>struct calendar\<close> that names a day.\<close>

definition valid_date :: "calendar \<Rightarrow> bool" where
  "valid_date jd \<longleftrightarrow> 1 \<le> uint (month jd) \<and> uint (month jd) \<le> 12 \<and> 1 \<le> uint (monthday jd) \<and>
     uint (monthday jd) \<le> month_length (12 * (uint (year jd) - 1) + (uint (month jd) - 1))"

lemma month_split_at:
  assumes "- 70555320 \<le> n" "n < 70555320" "0 \<le> r" "r < month_length n"
  shows "month_split (month_days n + r) = (n, r)"
  using assms months.split_join [of n r]
  by (simp add: in_unit_def edate_month_days month_days_step)

section \<open>Properties of the Gregorian conversions\<close>

text \<open>
  Elapsed years.  Years follow each other without gaps, each with 365 or 366 days as the
  leap year rule says, and splitting a day number of year \<open>y\<close> returns the year, the day in it and
  the leap flag, for every year whose days have 32-bit numbers, before and after the epoch.
\<close>
theorem era_years_correct:
  assumes "- 5879610 \<le> y" "y < 5879610" "0 \<le> r" "r < (if is_leapyear (y + 1) then 366 else 365)"
  shows "ntpcal_days_in_years (y + 1) = ntpcal_days_in_years y + (if is_leapyear (y + 1) then 366 else 365) \<and>
    ntpcal_split_eradays (ntpcal_days_in_years y + r) = (\<lparr>hi = y, lo = r\<rparr>, if is_leapyear (y + 1) then 1 else 0)"
proof -
  have s: "ntpcal_days_in_years (y + 1) = ntpcal_days_in_years y + (if is_leapyear (y + 1) then 366 else 365)"
    using assms by (simp add: days_in_years_era era_days_step)
  obtain sp leap where e: "ntpcal_split_eradays (ntpcal_days_in_years y + r) = (sp, leap)" by fastforce
  have "year_split (ntpcal_days_in_years y + r) = (y, r)"
    using assms s by (intro years.split_join) (auto simp: in_unit_def split: if_splits)
  then have "sp = \<lparr>hi = y, lo = r\<rparr>" by (cases sp) (simp add: year_split_def e)
  with s e split_eradays_sound [OF e] show ?thesis by simp
qed

theorem era_years_correct_witness:
  "ntpcal_split_eradays (ntpcal_days_in_years 1999 + 365) = (\<lparr>hi = 1999, lo = 365\<rparr>, 1) \<and>
   ntpcal_split_eradays (ntpcal_days_in_years (- 1) + 3) = (\<lparr>hi = - 1, lo = 3\<rparr>, 1)"
  using era_years_correct [of 1999 365] era_years_correct [of "- 1" 3] by (simp add: is_leapyear_iff)

lemma edate_to_yeardays_eq:
  assumes "- 1000000 \<le> y" "y < 1000000" "- 10000000 \<le> 12 * y + m" "12 * y + m \<le> 10000000" "\<bar>d\<bar> \<le> 1000000000"
  shows "ntpcal_edate_to_yeardays y m d = month_days (12 * y + m) + d - era_days y"
proof -
  have "month_days (- 10000000) \<le> month_days (12 * y + m)" "month_days (12 * y + m) \<le> month_days 10000000"
    "month_days (12 * (- 1000000)) \<le> month_days (12 * y)" "month_days (12 * y) \<le> month_days (12 * 1000000)"
    using assms by (simp_all add: month_days_le_iff)
  moreover have "month_days 10000000 < 400000000" "- 400000000 < month_days (- 10000000)"
    by (simp_all add: month_days_def era_days_def real_month_table_def)
  moreover have "era_days 1000000 < 400000000" "- 400000000 < era_days (- 1000000)"
    by (simp_all add: era_days_def)
  ultimately have R: "in_s32 (month_days (12 * y + m) + d - era_days y)"
    using assms(5) unfolding in_s32_def month_days_year by linarith
  show ?thesis
  proof (cases "0 \<le> m \<and> m < 12")
    case True
    then have "month_days (12 * y + m) = era_days y + real_month_table (is_leapyear (y + 1)) ! nat m"
      by (simp add: month_days_at)
    with R True assms show ?thesis
      by (simp add: ntpcal_edate_to_yeardays_def s32_id in_s32_def add.commute)
  next
    case False
    let ?t = "ntpcal_days_in_months m"
    have "- 1000000 \<le> y + m div 12" "y + m div 12 \<le> 1000000" using assms by linarith+
    then have h: "- 1000000 \<le> y + hi ?t" "y + hi ?t \<le> 1000001" using days_in_months_hi [of m] by linarith+
    then have "in_s32 (y + hi ?t)" by (simp add: in_s32_def)
    with h R assms(1,2) days_in_months_eq [of y m] show ?thesis
      unfolding ntpcal_edate_to_yeardays_def if_not_P [OF False]
      by (simp add: s32_id days_in_years_era algebra_simps)
  qed
qed

text \<open>
  Months out of range.  For any month number, negative or beyond December, the elapsed days
  are those of the year and month it normalises to, and \<^verbatim>\<open>ntpcal_edate_to_yeardays\<close> gives the true
  difference to the start of the given year.
\<close>
theorem edate_normalises:
  assumes "- 1000000 \<le> y" "y < 1000000" "- 10000000 \<le> 12 * y + m" "12 * y + m \<le> 10000000" "\<bar>d\<bar> \<le> 1000000000"
  shows "ntpcal_edate_to_eradays y m d =
      ntpcal_days_in_years (y + m div 12) + real_month_table (is_leapyear (y + m div 12 + 1)) ! nat (m mod 12) + d \<and>
    ntpcal_edate_to_yeardays y m d = ntpcal_edate_to_eradays y m d - ntpcal_days_in_years y"
proof -
  have e: "ntpcal_edate_to_eradays y m d = month_days (12 * y + m) + d"
    using assms by (intro edate_to_eradays_small) auto
  have b: "- 1000000 \<le> y + m div 12" "y + m div 12 \<le> 1000000" using assms by linarith+
  have "12 * y + m = 12 * (y + m div 12) + m mod 12" by simp
  then have n: "month_days (12 * y + m) = era_days (y + m div 12) + real_month_table (is_leapyear (y + m div 12 + 1)) ! nat (m mod 12)"
    using month_days_at [of "m mod 12" "y + m div 12"] by (simp only: pos_mod_sign pos_mod_bound zero_less_numeral)
  have yd: "ntpcal_edate_to_yeardays y m d = month_days (12 * y + m) + d - era_days y"
    using assms by (rule edate_to_yeardays_eq)
  show ?thesis using b assms unfolding yd e n by (simp add: days_in_years_era)
qed

theorem edate_normalises_witness:
  "ntpcal_edate_to_eradays 2000 (- 10) 28 = ntpcal_days_in_years 1999 + 60 + 28 \<and>
   ntpcal_edate_to_yeardays 2000 14 0 = ntpcal_edate_to_eradays 2000 14 0 - ntpcal_days_in_years 2000"
  using edate_normalises [of 2000 "- 10" 28] edate_normalises [of 2000 14 0]
  by (simp add: real_month_table_def is_leapyear_iff)

lemma rd_to_mstart_eq:
  assumes "in_s32 (rd - 1)" "month_split (rd - 1) = (n, r)"
  shows "ntpcal_rd_to_mstart rd = s32 (month_days n + 1)"
proof -
  obtain sp leap where e: "ntpcal_split_eradays (rd - 1) = (sp, leap)" by fastforce
  with assms have "ntpcal_rd_to_mstart rd = s32 (rd - r)"
    by (auto simp: ntpcal_rd_to_mstart_def month_split_def s32_id Let_def)
  moreover have "rd - r = month_days n + 1" using month_split_sound [OF assms(2)] by linarith
  ultimately show ?thesis by simp
qed

lemma rd_to_ystart_eq:
  assumes "in_s32 (rd - 1)" "year_split (rd - 1) = (y, r)"
  shows "ntpcal_rd_to_ystart rd = s32 (era_days y + 1)"
proof -
  obtain sp leap where e: "ntpcal_split_eradays (rd - 1) = (sp, leap)" by fastforce
  with assms have "ntpcal_rd_to_ystart rd = s32 (rd - r)"
    by (auto simp: ntpcal_rd_to_ystart_def year_split_def s32_id)
  moreover have "rd - r = era_days y + 1" using year_split_sound [OF assms(2)] by linarith
  ultimately show ?thesis by simp
qed

lemma year_of_day:
  assumes "year_split d = (y, r)"
  shows "era_days w \<le> d \<longleftrightarrow> w \<le> y" "d < era_days w \<longleftrightarrow> y < w"
proof -
  note s = year_split_sound [OF assms]
  have "era_days w \<le> d" if "w \<le> y" using that s era_days_less_iff [of y w] by linarith
  moreover have "d < era_days w" if "y < w" using that s era_days_less_iff [of w "y + 1"] by linarith
  ultimately show "era_days w \<le> d \<longleftrightarrow> w \<le> y" "d < era_days w \<longleftrightarrow> y < w" by (meson not_le)+
qed

lemma year_to_ystart_eq: "- 5000000 \<le> y \<Longrightarrow> y \<le> 5000000 \<Longrightarrow> ntpcal_year_to_ystart y = era_days (y - 1) + 1"
  using era_days_bounds [of "y - 1"] by (simp add: ntpcal_year_to_ystart_def days_in_years_era s32_id in_s32_def)

lemma rd_to_date_fields:
  assumes "in_s32 (rd - 1)" "month_split (rd - 1) = (n, r)" "ntpcal_rd_to_date jd rd = (jd', ret)"
    and "0 \<le> n div 12 + 1" "n div 12 + 1 \<le> 65535"
  shows "uint (year jd') = n div 12 + 1" "uint (month jd') = n mod 12 + 1" "uint (monthday jd') = r + 1"
    "uint (weekday jd') = rd mod 7" "uint (yearday jd') = rd - era_days (n div 12)"
    "ret = (if is_leapyear (n div 12 + 1) then 1 else 0)"
    "hour jd' = hour jd" "minute jd' = minute jd" "second jd' = second jd"
proof -
  note M = month_split_sound [OF assms(2)]
  obtain yr where Y: "year_split (rd - 1) = (n div 12, yr)" using M by (cases "year_split (rd - 1)") auto
  have "era_days (n div 12 + 1) \<le> era_days (n div 12) + 366" by (simp add: era_days_step)
  with year_split_sound [OF Y] have yd: "0 \<le> rd - era_days (n div 12)" "rd - era_days (n div 12) \<le> 366" by linarith+
  note e = rd_to_date_eq [OF assms(1,2) refl, of jd, unfolded assms(3)]
  show "uint (year jd') = n div 12 + 1" "ret = (if is_leapyear (n div 12 + 1) then 1 else 0)"
    "hour jd' = hour jd" "minute jd' = minute jd" "second jd' = second jd"
    "uint (yearday jd') = rd - era_days (n div 12)"
    using e assms(4,5) yd by (simp_all add: uint_u16 del: of_int_add of_int_diff)
  have "r < 31" using M month_length_range [of n] by linarith
  moreover have "n mod 12 < 12" "rd mod 7 < 7" by simp_all
  ultimately show "uint (month jd') = n mod 12 + 1" "uint (monthday jd') = r + 1" "uint (weekday jd') = rd mod 7"
    using e M by (simp_all add: uint_u8 del: of_int_add of_int_diff)
qed

lemma rd_to_date_ok:
  assumes "ntpcal_rd_to_date jd rd = (jd', ret)"
    and "ntpcal_days_in_years (- 1) < rd" "rd \<le> ntpcal_days_in_years 65535"
  shows "ret = (if is_leapyear (uint (year jd')) then 1 else 0)" "valid_date jd'" "ntpcal_date_to_rd jd' = rd"
    "uint (weekday jd') = rd mod 7" "ntpcal_year_to_ystart (uint (year jd')) + uint (yearday jd') - 1 = rd"
    "1 \<le> uint (yearday jd')" "uint (yearday jd') \<le> 366"
    "ntpcal_rd_to_mstart rd = ntpcal_date_to_rd (jd'\<lparr>monthday := 1\<rparr>)"
    "ntpcal_rd_to_ystart rd = ntpcal_date_to_rd (jd'\<lparr>month := 1, monthday := 1\<rparr>)"
    "hour jd' = hour jd" "minute jd' = minute jd" "second jd' = second jd"
proof -
  have i: "in_s32 (rd - 1)" using assms(2,3) by (simp add: days_in_years_era era_days_def in_s32_def)
  obtain n r where nr: "month_split (rd - 1) = (n, r)" by fastforce
  define y where "y = n div 12 + 1"
  note M = month_split_sound [OF nr]
  obtain yr where Y: "year_split (rd - 1) = (y - 1, yr)" using M by (cases "year_split (rd - 1)") (auto simp: y_def)
  have y: "0 \<le> y" "y \<le> 65535"
    using assms(2,3) year_of_day [OF Y, of "- 1"] year_of_day [OF Y, of 65535] by (simp_all add: days_in_years_era)
  note F = rd_to_date_fields [OF i nr assms(1), folded y_def, OF y]
  have n: "12 * (y - 1) + n mod 12 = n" by (simp add: y_def)
  have nb: "- 70555320 \<le> n" "n \<le> 70555320"
    using y n pos_mod_sign [of 12 n] pos_mod_bound [of 12 n] by auto
  have b: "in_s32 (month_days n + 1)" "in_s32 (era_days (y - 1) + 1)"
    using y era_days_bounds [of "y - 1"] month_days_bounds [OF nb] by (auto simp: in_s32_def)
  show "ntpcal_date_to_rd jd' = rd" "valid_date jd'" "ret = (if is_leapyear (uint (year jd')) then 1 else 0)"
      "uint (weekday jd') = rd mod 7" "hour jd' = hour jd" "minute jd' = minute jd" "second jd' = second jd"
    using F M n by (simp_all add: date_to_rd_eq valid_date_def)
  show "ntpcal_year_to_ystart (uint (year jd')) + uint (yearday jd') - 1 = rd"
    using F y year_to_ystart_eq [of y] by (simp add: y_def)
  show "1 \<le> uint (yearday jd')" "uint (yearday jd') \<le> 366"
    using F(5) year_split_sound [OF Y] era_days_step [of "y - 1"] by (auto simp: y_def split: if_splits)
  show "ntpcal_rd_to_mstart rd = ntpcal_date_to_rd (jd'\<lparr>monthday := 1\<rparr>)"
    using F n b by (simp add: rd_to_mstart_eq [OF i nr] date_to_rd_eq s32_id)
  show "ntpcal_rd_to_ystart rd = ntpcal_date_to_rd (jd'\<lparr>month := 1, monthday := 1\<rparr>)"
    using F b month_days_year [of "y - 1"] by (simp add: rd_to_ystart_eq [OF i Y] date_to_rd_eq s32_id)
qed

lemma rd_to_date_overflow:
  assumes "in_s32 (rd - 1)" "ntpcal_rd_to_date jd rd = (jd', ret)"
    and "rd \<le> ntpcal_days_in_years (- 1) \<or> ntpcal_days_in_years 65535 < rd"
  shows "ret = - 1 \<and> year jd' = 0"
proof -
  obtain n r where nr: "month_split (rd - 1) = (n, r)" by fastforce
  obtain yr where Y: "year_split (rd - 1) = (n div 12, yr)"
    using month_split_sound [OF nr] by (cases "year_split (rd - 1)") auto
  have "\<not> (0 \<le> n div 12 + 1 \<and> n div 12 + 1 \<le> 65535)"
    using assms(3) year_of_day [OF Y, of "- 1"] year_of_day [OF Y, of 65535] by (auto simp: days_in_years_era)
  with rd_to_date_eq [OF assms(1) nr refl, of jd] assms(2) show ?thesis by auto
qed

text \<open>
  C5: day numbers to dates.  For every 32-bit day number the conversion to \<^verbatim>\<open>struct calendar\<close>
  reports an overflow, with year 0, exactly when the year does not fit, and otherwise fills in the valid date whose day
  number is the argument, its weekday, the day of the year and the leap year indicator; the starts
  of the month and of the year are the day numbers of the first of that month and of January.
\<close>
theorem rd_to_date_correct:
  assumes "in_s32 (rd - 1)" "ntpcal_rd_to_date jd rd = (jd', ret)"
  shows "(ret = - 1 \<longleftrightarrow> rd \<le> ntpcal_days_in_years (- 1) \<or> ntpcal_days_in_years 65535 < rd) \<and>
    (ret = - 1 \<longrightarrow> year jd' = 0) \<and>
    (ret \<noteq> - 1 \<longrightarrow> valid_date jd' \<and> ntpcal_date_to_rd jd' = rd \<and> uint (weekday jd') = rd mod 7 \<and>
       (ret = 1 \<longleftrightarrow> is_leapyear (uint (year jd'))) \<and>
       rd = ntpcal_year_to_ystart (uint (year jd')) + uint (yearday jd') - 1 \<and>
       ntpcal_rd_to_mstart rd = ntpcal_date_to_rd (jd'\<lparr>monthday := 1\<rparr>) \<and>
       ntpcal_rd_to_ystart rd = ntpcal_date_to_rd (jd'\<lparr>month := 1, monthday := 1\<rparr>))"
proof (cases "rd \<le> ntpcal_days_in_years (- 1) \<or> ntpcal_days_in_years 65535 < rd")
  case True
  with rd_to_date_overflow [OF assms] show ?thesis by simp
next
  case False
  with rd_to_date_ok [OF assms(2)] show ?thesis by auto
qed

text \<open>A cleared \<^verbatim>\<open>struct calendar\<close>.\<close>

definition cal_zero :: calendar where
  "cal_zero = \<lparr>year = 0, yearday = 0, month = 0, monthday = 0, hour = 0, minute = 0, second = 0, weekday = 0\<rparr>"

theorem rd_to_date_correct_witness:
  "ntpcal_date_to_rd (fst (ntpcal_rd_to_date cal_zero 735202)) = 735202 \<and>
   snd (ntpcal_rd_to_date cal_zero 23936167) = - 1"
  using rd_to_date_correct [of 735202 cal_zero "fst (ntpcal_rd_to_date cal_zero 735202)" "snd (ntpcal_rd_to_date cal_zero 735202)"]
    rd_to_date_correct [of 23936167 cal_zero "fst (ntpcal_rd_to_date cal_zero 23936167)" "snd (ntpcal_rd_to_date cal_zero 23936167)"]
  by (simp add: in_s32_def days_in_years_era era_days_def)

lemma tm_rd_roundtrip:
  assumes "- 2147483456 < rd" "rd \<le> 2147483455"
  shows "ntpcal_tm_to_rd (fst (ntpcal_rd_to_tm utm rd)) = rd"
proof -
  obtain n r where nr: "month_split (rd - 1) = (n, r)" by fastforce
  note M = month_split_sound [OF nr]
  obtain sp leap where e: "ntpcal_split_eradays (rd - 1) = (sp, leap)" by fastforce
  define ms where "ms = ntpcal_split_yeardays (lo sp) leap"
  have "0 \<le> hi ms \<and> hi ms < 12"
    using split_eradays_sound [OF e] split_yeardays_sound [OF _ _ ms_def [symmetric]] by blast
  moreover have n: "n = 12 * hi sp + hi ms" "r = lo ms"
    using nr by (simp_all add: month_split_def e ms_def Let_def)
  moreover have "- 5879610 \<le> hi sp" "hi sp < 5879610"
    using assms year_of_day [of "rd - 1" "hi sp" "lo sp" "- 5879610"] year_of_day [of "rd - 1" "hi sp" "lo sp" 5879610]
    by (simp_all add: year_split_def e era_days_def)
  moreover have "r < 31" "0 \<le> r" using M month_length_range [of n] by linarith+
  ultimately have "ntpcal_tm_to_rd (fst (ntpcal_rd_to_tm utm rd)) = s32 (month_days n + r + 1)"
    using assms by (simp add: ntpcal_tm_to_rd_def ntpcal_rd_to_tm_def e s32_id in_s32_def Let_def
        edate_to_eradays_eq flip: ms_def)
  with M assms show ?thesis by (simp add: s32_id in_s32_def)
qed

lemma rd_to_date_to_rd:
  assumes "valid_date jd"
  shows "fst (ntpcal_rd_to_date jd (ntpcal_date_to_rd jd)) =
      jd\<lparr>yearday := word_of_int (ntpcal_date_to_rd jd - era_days (uint (year jd) - 1)),
         weekday := word_of_int (ntpcal_date_to_rd jd mod 7)\<rparr>"
proof -
  define n where "n = 12 * (uint (year jd) - 1) + (uint (month jd) - 1)"
  define rd where "rd = month_days n + uint (monthday jd)"
  have rd: "ntpcal_date_to_rd jd = rd" by (simp add: date_to_rd_eq rd_def n_def)
  note b = calendar_bounds [of jd]
  have v: "1 \<le> uint (month jd)" "uint (month jd) \<le> 12" "1 \<le> uint (monthday jd)" "uint (monthday jd) \<le> month_length n"
    using assms by (auto simp: valid_date_def n_def)
  have nb: "- 70555320 \<le> n" "n < 70555320" unfolding n_def using b v by auto
  have "in_s32 (rd - 1)" using month_days_bounds [of n] nb b v month_length_range [of n] by (auto simp: rd_def in_s32_def)
  moreover have "month_split (rd - 1) = (n, uint (monthday jd) - 1)"
    using month_split_at [OF nb, of "uint (monthday jd) - 1"] v by (simp add: rd_def add_diff_eq)
  moreover have "uint (year jd) = n div 12 + 1" "n mod 12 = uint (month jd) - 1"
    using v month_div_mod [of "uint (month jd) - 1" "uint (year jd) - 1"] unfolding n_def by auto
  ultimately have "fst (ntpcal_rd_to_date jd rd) = jd\<lparr>year := word_of_int (uint (year jd)),
      yearday := word_of_int (rd - era_days (uint (year jd) - 1)), month := word_of_int (uint (month jd)),
      monthday := word_of_int (uint (monthday jd)), weekday := word_of_int (rd mod 7)\<rparr>"
    using b by (simp add: rd_to_date_eq del: of_int_diff of_int_add word_of_int_uint)
  then show ?thesis unfolding rd by (cases jd) simp
qed

text \<open>
  Dates to day numbers.  Converting a valid date to its day number and back returns the same date
  with its weekday and day of the year, and equally for \<^verbatim>\<open>struct tm\<close>, whose year is an \<^verbatim>\<open>int\<close>, every
  32-bit day number of a full year round-trips.
\<close>
theorem date_rd_roundtrip:
  assumes "valid_date jd" "- 2147483456 < rd" "rd \<le> 2147483455"
  shows "fst (ntpcal_rd_to_date jd (ntpcal_date_to_rd jd)) =
      jd\<lparr>yearday := word_of_int (ntpcal_date_to_rd jd - ntpcal_year_to_ystart (uint (year jd)) + 1),
         weekday := word_of_int (ntpcal_date_to_rd jd mod 7)\<rparr> \<and>
    ntpcal_tm_to_rd (fst (ntpcal_rd_to_tm utm rd)) = rd"
proof -
  have "ntpcal_year_to_ystart (uint (year jd)) = era_days (uint (year jd) - 1) + 1"
    using calendar_bounds [of jd] by (intro year_to_ystart_eq) linarith+
  then show ?thesis using rd_to_date_to_rd [OF assms(1)] tm_rd_roundtrip [OF assms(2,3)] by simp
qed

theorem date_rd_roundtrip_witness:
  "year (fst (ntpcal_rd_to_date (cal_zero\<lparr>year := 2000, month := 2, monthday := 29\<rparr>)
      (ntpcal_date_to_rd (cal_zero\<lparr>year := 2000, month := 2, monthday := 29\<rparr>)))) = 2000 \<and>
   (\<forall>utm. ntpcal_tm_to_rd (fst (ntpcal_rd_to_tm utm (- 7))) = - 7)"
  using date_rd_roundtrip [of "cal_zero\<lparr>year := 2000, month := 2, monthday := 29\<rparr>" "- 7"]
  by (simp add: cal_zero_def valid_date_def month_length_def real_month_table_def is_leapyear_iff)

definition valid_time :: "calendar \<Rightarrow> bool" where
  "valid_time jd \<longleftrightarrow> uint (hour jd) < 24 \<and> uint (minute jd) < 60 \<and> uint (second jd) < 60"

lemma daysec_to_date_eq:
  assumes "0 \<le> s" "s < 86400"
  shows "ntpcal_daysec_to_date jd s =
    (jd\<lparr>hour := word_of_int (s div 3600), minute := word_of_int (s div 60 mod 60), second := word_of_int (s mod 60)\<rparr>, 0)"
  using assms by (simp add: ntpcal_daysec_to_date_def priv_timesplit_eq)

lemma date_to_daysec_eq:
  assumes "0 \<le> s" "s < 86400" "hour jd = word_of_int (s div 3600)" "minute jd = word_of_int (s div 60 mod 60)"
    "second jd = word_of_int (s mod 60)"
  shows "ntpcal_date_to_daysec jd = s \<and> valid_time jd"
proof -
  have h: "uint (hour jd) = s div 3600" "uint (minute jd) = s div 60 mod 60" "uint (second jd) = s mod 60"
    unfolding assms(3-5) using assms(1,2) pos_mod_bound [of 60 s] pos_mod_bound [of 60 "s div 60"]
    by (intro uint_u8; linarith)+
  have s: "s mod 86400 = s" "s div 86400 = 0" using assms by auto
  show ?thesis
    using etime_timesplit [of s] unfolding s by (auto simp: ntpcal_date_to_daysec_def valid_time_def h)
qed

text \<open>The common part of the conversions from seconds: the day number and the second of the day.\<close>

lemma seconds_to_date:
  assumes "0 \<le> s" "s < 86400" "ntpcal_rd_to_date (fst (ntpcal_daysec_to_date jd s)) rd = (jd', ret)"
    and "ntpcal_days_in_years (- 1) < rd" "rd \<le> ntpcal_days_in_years 65535"
  shows "ntpcal_date_to_rd jd' = rd \<and> ntpcal_date_to_daysec jd' = s \<and> valid_date jd' \<and> valid_time jd' \<and> ret \<noteq> - 1"
proof -
  note F = rd_to_date_ok [OF assms(3-5)]
  moreover have "ntpcal_date_to_daysec jd' = s \<and> valid_time jd'"
    using assms(1,2) F(10-12) by (intro date_to_daysec_eq) (simp_all add: daysec_to_date_eq)
  ultimately show ?thesis by simp
qed

lemma time_to_date_roundtrip:
  assumes "ntpcal_days_in_years (- 1) < q_s ts div 86400 + DAY_UNIX_STARTS"
    and "q_s ts div 86400 + DAY_UNIX_STARTS \<le> ntpcal_days_in_years 65535"
    and "ntpcal_time_to_date jd ts = (jd', ret)"
  shows "ret \<noteq> - 1 \<and> valid_date jd' \<and> valid_time jd' \<and> ntpcal_date_to_time jd' = q_s ts"
proof -
  define d s where "d = q_s ts div 86400" "s = q_s ts mod 86400"
  note ds = this [symmetric]
  have s: "0 \<le> s" "s < 86400" by (simp_all flip: ds)
  have d: "in_s32 d" "in_s32 (d + 719163)"
    using assms(1,2) by (simp_all add: ds days_in_years_era era_days_def in_s32_def)
  have "ntpcal_rd_to_date (fst (ntpcal_daysec_to_date jd s)) (d + DAY_UNIX_STARTS) = (jd', ret)"
    using assms(3) d s by (simp add: ntpcal_time_to_date_def ntpcal_daysplit_eq ds daysec_to_date_eq s32_id)
  from seconds_to_date [OF s this] assms(1,2) have
    j: "ntpcal_date_to_rd jd' = d + DAY_UNIX_STARTS" "ntpcal_date_to_daysec jd' = s" "valid_date jd'" "valid_time jd'" "ret \<noteq> - 1"
    by (simp_all add: ds)
  have "ntpcal_date_to_time jd' = d * 86400 + s"
    using j(1,2) d s q_s_dayjoin [of d s] by (simp add: ntpcal_date_to_time_def vint64_to_time_def s32_id in_s32_def)
  also have "\<dots> = q_s ts" by (simp flip: ds)
  finally show ?thesis using j by simp
qed

lemma ntp_to_date_roundtrip:
  assumes "P = (case piv of Some p \<Rightarrow> p | None \<Rightarrow> now)" "\<bar>P\<bar> \<le> 2 ^ 35" "ntpcal_ntp_to_date now jd ntp piv = (jd', ret)"
  shows "ret \<noteq> - 1 \<and> valid_date jd' \<and> valid_time jd' \<and> ntpcal_date_to_ntp jd' = ntp"
proof -
  define v where "v = q_s (ntpcal_ntp_to_ntp now ntp piv)"
  define d s where "d = v div 86400" "s = v mod 86400"
  note ds = this [symmetric]
  have s: "0 \<le> s" "s < 86400" by (simp_all flip: ds)
  have v: "\<bar>v\<bar> < 40000000000" "D_lo (word_of_int v) = ntp"
    using ntp_to_ntp_small [OF assms(1,2)] by (simp_all add: v_def)
  from v(1) have "- 40000000000 < v" "v < 40000000000" by (simp_all add: abs_less_iff)
  then have db: "- 500000 < d" "d < 500000" unfolding d_s_def by linarith+
  have "ntpcal_rd_to_date (fst (ntpcal_daysec_to_date jd s)) (d + DAY_NTP_STARTS) = (jd', ret)"
    using assms(3) db s by (simp add: ntpcal_ntp_to_date_def ntpcal_daysplit_eq v_def [symmetric] ds daysec_to_date_eq s32_id in_s32_def)
  from seconds_to_date [OF s this] db have
    j: "ntpcal_date_to_rd jd' = d + DAY_NTP_STARTS" "ntpcal_date_to_daysec jd' = s" "valid_date jd'" "valid_time jd'" "ret \<noteq> - 1"
    by (simp_all add: days_in_years_era era_days_def)
  have "ntpcal_date_to_ntp jd' = D_lo (word_of_int (d * 86400 + s))"
    using j(1,2) db by (simp add: ntpcal_date_to_ntp_def ntpcal_dayjoin_def s32_id in_s32_def)
  also have "d * 86400 + s = v" by (simp flip: ds)
  also have "D_lo (word_of_int v) = ntp" by (rule v(2))
  finally show ?thesis using j by simp
qed

text \<open>
  Seconds to dates and back.  For every 64-bit UNIX time whose day is in a year that
  \<^verbatim>\<open>struct calendar\<close> can hold, the conversion gives a valid date and time of day that converts back
  to the same second; for every NTP stamp and a pivot within \<open>2^35\<close> seconds of 1970 the date
  found near the pivot converts back to the stamp.
\<close>
theorem time_date_roundtrip:
  assumes "ntpcal_days_in_years (- 1) < q_s ts div 86400 + DAY_UNIX_STARTS"
    and "q_s ts div 86400 + DAY_UNIX_STARTS \<le> ntpcal_days_in_years 65535"
    and "P = (case piv of Some p \<Rightarrow> p | None \<Rightarrow> now)" "\<bar>P\<bar> \<le> 2 ^ 35"
  shows "(case ntpcal_time_to_date jd ts of (jd', ret) \<Rightarrow>
      ret \<noteq> - 1 \<and> valid_date jd' \<and> valid_time jd' \<and> ntpcal_date_to_time jd' = q_s ts) \<and>
    (case ntpcal_ntp_to_date now jd ntp piv of (jd', ret) \<Rightarrow>
      ret \<noteq> - 1 \<and> valid_date jd' \<and> valid_time jd' \<and> ntpcal_date_to_ntp jd' = ntp)"
  using time_to_date_roundtrip [OF assms(1,2)] ntp_to_date_roundtrip [OF assms(3,4)]
  by (auto split: prod.splits)

theorem time_date_roundtrip_witness:
  "ntpcal_date_to_time (fst (ntpcal_time_to_date cal_zero (- 5))) = - 5 \<and>
   ntpcal_date_to_ntp (fst (ntpcal_ntp_to_date 1400000000 cal_zero 77 None)) = 77"
  using time_date_roundtrip [where ts = "- 5" and P = 1400000000 and piv = None and now = 1400000000 and jd = cal_zero and ntp = 77]
  by (simp add: q_s_def days_in_years_era era_days_def case_prod_unfold)

text \<open>
  The day-of-week searches return the day numbered \<open>dow\<close> modulo 7 that is the first after,
  the first on or after, the nearest to, the last on or before and the last before the given day.
\<close>
theorem weekday_searches:
  assumes "in_s32 (rdn - 8)" "in_s32 (rdn + 8)" "in_s32 dow"
  shows "rdn < ntpcal_weekday_gt rdn dow \<and> ntpcal_weekday_gt rdn dow \<le> rdn + 7 \<and>
    rdn \<le> ntpcal_weekday_ge rdn dow \<and> ntpcal_weekday_ge rdn dow \<le> rdn + 6 \<and>
    \<bar>ntpcal_weekday_close rdn dow - rdn\<bar> \<le> 3 \<and>
    rdn - 6 \<le> ntpcal_weekday_le rdn dow \<and> ntpcal_weekday_le rdn dow \<le> rdn \<and>
    rdn - 7 \<le> ntpcal_weekday_lt rdn dow \<and> ntpcal_weekday_lt rdn dow < rdn \<and>
    (\<forall>f \<in> {ntpcal_weekday_gt, ntpcal_weekday_ge, ntpcal_weekday_close, ntpcal_weekday_le, ntpcal_weekday_lt}.
       f rdn dow mod 7 = dow mod 7)"
proof -
  have p: "ntpcal_periodic_extend x dow 7 = x + (dow - x) mod 7" if "rdn - 3 \<le> x" "x \<le> rdn + 1" for x
    using assms that by (intro ntpcal_periodic_extend_eq) (auto simp: in_s32_def abs_le_iff)
  have n: "ntpcal_periodic_extend x dow (- 7) = x + (dow - x) mod (- 7)" if "\<bar>x - rdn\<bar> \<le> 1" for x
    using assms that by (intro ntpcal_periodic_extend_eq) (auto simp: in_s32_def abs_le_iff)
  have m: "(x + (dow - x) mod (- 7)) mod 7 = dow mod 7" for x
  proof -
    have "(x + (dow - x) mod (- 7)) mod (- 7) = dow mod (- 7)" by (simp add: mod_simps)
    then show ?thesis by (simp only: mod_eq_dvd_iff minus_dvd_iff)
  qed
  have b: "- 7 < y mod (- 7)" "y mod (- 7) \<le> 0" "0 \<le> y mod 7" "y mod 7 < 7" for y :: int by simp_all
  have "s32 (rdn + 1) = rdn + 1" "s32 (rdn - 3) = rdn - 3" "s32 (rdn - 1) = rdn - 1"
    using assms by (simp_all add: s32_id in_s32_def)
  then have e: "ntpcal_weekday_gt rdn dow = rdn + 1 + (dow - (rdn + 1)) mod 7"
    "ntpcal_weekday_ge rdn dow = rdn + (dow - rdn) mod 7"
    "ntpcal_weekday_close rdn dow = rdn - 3 + (dow - (rdn - 3)) mod 7"
    "ntpcal_weekday_le rdn dow = rdn + (dow - rdn) mod (- 7)"
    "ntpcal_weekday_lt rdn dow = rdn - 1 + (dow - (rdn - 1)) mod (- 7)"
    by (simp_all add: ntpcal_weekday_gt_def ntpcal_weekday_ge_def ntpcal_weekday_close_def
        ntpcal_weekday_le_def ntpcal_weekday_lt_def p n)
  have "\<forall>f \<in> {ntpcal_weekday_gt, ntpcal_weekday_ge, ntpcal_weekday_close, ntpcal_weekday_le, ntpcal_weekday_lt}.
      f rdn dow mod 7 = dow mod 7"
    using m mod_window(3) [of 7 _ dow] by (simp add: e)
  moreover have "rdn < ntpcal_weekday_gt rdn dow \<and> ntpcal_weekday_gt rdn dow \<le> rdn + 7"
    unfolding e(1) using b(3,4) [of "dow - (rdn + 1)"] by (intro conjI) linarith+
  moreover have "rdn \<le> ntpcal_weekday_ge rdn dow \<and> ntpcal_weekday_ge rdn dow \<le> rdn + 6"
    unfolding e(2) using b(3,4) [of "dow - rdn"] by (intro conjI) linarith+
  moreover have "\<bar>ntpcal_weekday_close rdn dow - rdn\<bar> \<le> 3"
    unfolding e(3) abs_le_iff using b(3,4) [of "dow - (rdn - 3)"] by (intro conjI) linarith+
  moreover have "rdn - 6 \<le> ntpcal_weekday_le rdn dow \<and> ntpcal_weekday_le rdn dow \<le> rdn"
    unfolding e(4) using b(1,2) [of "dow - rdn"] by (intro conjI) linarith+
  moreover have "rdn - 7 \<le> ntpcal_weekday_lt rdn dow \<and> ntpcal_weekday_lt rdn dow < rdn"
    unfolding e(5) using b(1,2) [of "dow - (rdn - 1)"] by (intro conjI) linarith+
  ultimately show ?thesis by blast
qed

theorem weekday_searches_witness:
  "\<bar>ntpcal_weekday_close 100 1 - 100\<bar> \<le> 3"
  using weekday_searches [of 100 1] by (simp add: in_s32_def)

end
