(* ===== verification/ISO_Calendar.thy ===== *)
theory ISO_Calendar
  imports Gregorian
begin

text \<open>
  The ISO 8601 week calendar of \<^verbatim>\<open>libntp/ntp_calendar.c\<close>: years of 52 or 53 weeks, the linear
  interpolations between years and weeks, and the conversions of NTP stamps to and from
  \<^verbatim>\<open>struct isodate\<close>.
\<close>

record isodate =
  iso_year :: u_short
  iso_week :: u_char
  iso_weekday :: u_char
  iso_hour :: u_char
  iso_minute :: u_char
  iso_second :: u_char

definition weeks_bctab :: "int list" where
  "weeks_bctab = [449, 157, 889, 597]"

definition isocal_weeks_in_years :: "int \<Rightarrow> int" where
  "isocal_weeks_in_years years =
     (let (cycle, years) = c_floor_divmod years 400;
          cents = years sdiv 100;
          years = years smod 100;
          weeks = (years * 53431 + weeks_bctab ! nat cents) sdiv 1024
      in s32 (cycle * GREGORIAN_CYCLE_WEEKS + cents * 5218 - (if cents > 1 then 1 else 0) + weeks))"

definition eraweeks_bctab :: "int list" where
  "eraweeks_bctab = [85, 131, 17, 62]"

definition isocal_split_eraweeks :: "int \<Rightarrow> ntpcal_split" where
  "isocal_split_eraweeks weeks =
     (let (h, l) = c_floor_divmod weeks GREGORIAN_CYCLE_WEEKS;
          h = h * 400;
          l = l + (if l \<ge> 10435 then 1 else 0);
          cents = l sdiv 5218;
          l = l smod 5218;
          l = l * 157 + eraweeks_bctab ! nat cents;
          h = h + (cents * 100 + l sdiv 8192);
          l = (l smod 8192) sdiv 157
      in \<lparr>hi = h, lo = l\<rparr>)"

definition isocal_ntp_to_date :: "time_t \<Rightarrow> isodate \<Rightarrow> u_int32 \<Rightarrow> time_t option \<Rightarrow> isodate \<times> bool" where
  "isocal_ntp_to_date now iid ntp piv =
     (let vl = ntpcal_ntp_to_ntp now ntp piv;
          ds = ntpcal_daysplit vl;
          (days, ts0, ts1, ts2) = priv_timesplit (lo ds);
          h = s32 (hi ds + days);
          iid = iid\<lparr>iso_hour := word_of_int ts0, iso_minute := word_of_int ts1, iso_second := word_of_int ts2\<rparr>;
          l = s32 (h + DAY_NTP_STARTS - 1);
          (h, l) = c_floor_divmod l 7;
          iid = iid\<lparr>iso_weekday := word_of_int (uint (word_of_int l :: u_char) + 1)\<rparr>;
          ds = isocal_split_eraweeks h;
          iid = iid\<lparr>iso_year := word_of_int (uint (word_of_int (hi ds) :: u_short) + 1),
                 iso_week := word_of_int (uint (word_of_int (lo ds) :: u_char) + 1)\<rparr>
      in (iid, hi ds \<ge> 0 \<and> hi ds < 0xFFFF))"

definition isocal_date_to_ntp :: "isodate \<Rightarrow> u_int32" where
  "isocal_date_to_ntp iid =
     (let weeks = s32 (isocal_weeks_in_years (uint (iso_year iid) - 1) + uint (iso_week iid) - 1);
          days = s32 (weeks * 7 + uint (iso_weekday iid));
          secs = ntpcal_etime_to_seconds (uint (iso_hour iid)) (uint (iso_minute iid)) (uint (iso_second iid))
      in D_lo (ntpcal_dayjoin (s32 (days - DAY_NTP_STARTS)) secs))"

section \<open>Years and weeks\<close>

text \<open>
  The ISO year after \<open>n\<close> elapsed years starts at the Monday closest to January 1st: \<open>iso_weeks n\<close>
  weeks after the start of the era, which was a Monday.
\<close>

definition iso_weeks :: "int \<Rightarrow> int" where
  "iso_weeks n = (era_days n + 3) div 7"

lemma weeks_interpolation:
  assumes "0 \<le> c" "c < 4" "0 \<le> k" "k < 100"
  shows "c * 5218 - (if c > 1 then 1 else 0) + (k * 53431 + weeks_bctab ! nat c) div 1024 =
    (36524 * c + 365 * k + k div 4 + 3) div 7"
proof -
  have "list_all (\<lambda>c. list_all (\<lambda>k. c * 5218 - (if c > 1 then 1 else 0) + (k * 53431 + weeks_bctab ! nat c) div 1024 =
    (36524 * c + 365 * k + k div 4 + 3) div 7) [0..99]) [0..3]"
    by code_simp
  with assms show ?thesis by (simp add: list_all_iff)
qed

lemma era_days_cycle: "era_days (400 * q + n) = 146097 * q + era_days n"
  using int_div_pos_eq [of "400 * q + n" 4 "100 * q + n div 4" "n mod 4"]
    int_div_pos_eq [of "400 * q + n" 100 "4 * q + n div 100" "n mod 100"]
    int_div_pos_eq [of "400 * q + n" 400 "q + n div 400" "n mod 400"]
  by (simp add: era_days_def algebra_simps)

lemma iso_weeks_cycle: "iso_weeks (400 * q + n) = 20871 * q + iso_weeks n"
proof -
  have "146097 * q + era_days n + 3 = (era_days n + 3) + 7 * (20871 * q)" by simp
  then have "(146097 * q + era_days n + 3) div 7 = 20871 * q + (era_days n + 3) div 7"
    by simp
  then show ?thesis by (simp add: iso_weeks_def era_days_cycle)
qed

lemma iso_weeks_in_cycle:
  assumes c: "0 \<le> c" "c < 4" and k: "0 \<le> k" "k < 100"
  shows "iso_weeks (100 * c + k) = c * 5218 - (if c > 1 then 1 else 0) + (k * 53431 + weeks_bctab ! nat c) div 1024"
proof -
  have "k div 4 < 25" "0 \<le> k div 4" "0 \<le> k mod 4" "k mod 4 \<le> 3" using k pos_mod_bound [of 4 k] by linarith+
  then have "era_days (100 * c + k) = 36524 * c + 1461 * (k div 4) + 365 * (k mod 4)"
    using era_days_horner [of c "k div 4" "k mod 4" 0] c by (simp add: add.commute)
  moreover have "k div 4 * 4 + k mod 4 = k" by (rule div_mult_mod_eq)
  ultimately have "era_days (100 * c + k) = 36524 * c + 365 * k + k div 4" by linarith
  with weeks_interpolation [OF c k] show ?thesis by (simp only: iso_weeks_def)
qed

lemma weeks_in_years_eq: "isocal_weeks_in_years y = s32 (iso_weeks y)"
proof -
  define q n where qn: "q = y div 400" "n = y mod 400"
  define c k where ck: "c = n div 100" "k = n mod 100"
  have n: "0 \<le> n" "n < 400" and y: "y = 400 * q + n" by (simp_all add: qn)
  have k: "0 \<le> k" "k < 100" and n': "n = 100 * c + k" by (simp_all add: ck)
  have c: "0 \<le> c" "c < 4" using n unfolding ck by linarith+
  have "0 \<le> weeks_bctab ! nat c"
  proof -
    have "c \<in> {0, 1, 2, 3}" using c by auto
    then show ?thesis by (elim insertE emptyE) (simp_all add: weeks_bctab_def)
  qed
  then have "0 \<le> k * 53431 + weeks_bctab ! nat c" using k by simp
  then have e: "isocal_weeks_in_years y = s32 (20871 * q + (c * 5218 - (if c > 1 then 1 else 0) + (k * 53431 + weeks_bctab ! nat c) div 1024))"
    using n k by (simp add: isocal_weeks_in_years_def c_floor_divmod_eq sdiv_nonneg smod_nonneg Let_def algebra_simps flip: qn ck)
  with iso_weeks_in_cycle [OF c k] show ?thesis by (simp only: y n' iso_weeks_cycle)
qed

text \<open>The weeks of century \<open>c\<close> before its year \<open>k\<close>, and the interpolation back at the ends of each year.\<close>

definition century_weeks :: "int \<Rightarrow> int \<Rightarrow> int" where
  "century_weeks c k = iso_weeks (100 * c + k) - iso_weeks (100 * c)"

lemma iso_weeks_century:
  "iso_weeks 0 = 0" "iso_weeks 100 = 5218" "iso_weeks 200 = 10435" "iso_weeks 300 = 15653" "iso_weeks 400 = 20871"
  by (simp_all add: iso_weeks_def era_days_def)

definition interpolated_weeks :: "int \<Rightarrow> int \<Rightarrow> int" where
  "interpolated_weeks c k = (k * 53431 + weeks_bctab ! nat c) div 1024"

definition interpolation_ok :: "int \<Rightarrow> int \<Rightarrow> bool" where
  "interpolation_ok c k =
     (let b = eraweeks_bctab ! nat c; e = 157 * interpolated_weeks c k + b - 8192 * k;
          e' = 157 * interpolated_weeks c (k + 1) + b - 8192 * k
      in 0 \<le> e \<and> e < 157 \<and> (k < 99 \<longrightarrow> e' < 8349))"

lemma interpolation_ok: "0 \<le> c \<Longrightarrow> c < 4 \<Longrightarrow> 0 \<le> k \<Longrightarrow> k < 100 \<Longrightarrow> interpolation_ok c k"
proof -
  have "list_all (interpolation_ok 0) [0..99]" "list_all (interpolation_ok 1) [0..99]"
    "list_all (interpolation_ok 2) [0..99]" "list_all (interpolation_ok 3) [0..99]"
    by code_simp+
  moreover assume "0 \<le> c" "c < 4" "0 \<le> k" "k < 100"
  moreover from this have "c = 0 \<or> c = 1 \<or> c = 2 \<or> c = 3" by linarith
  ultimately show ?thesis by (auto simp: list_all_iff)
qed

lemma iso_weeks_interpolated:
  assumes "0 \<le> c" "c < 4" "0 \<le> k" "k < 100"
  shows "century_weeks c k = interpolated_weeks c k"
proof -
  have w: "iso_weeks (100 * c + k) = c * 5218 - (if c > 1 then 1 else 0) + interpolated_weeks c k" if "0 \<le> k" "k < 100" for k
    using iso_weeks_in_cycle [OF assms(1,2) that] by (simp add: interpolated_weeks_def)
  have "interpolated_weeks c 0 = 0"
  proof -
    have "c \<in> {0, 1, 2, 3}" using assms by auto
    then show ?thesis by (elim insertE emptyE) (simp_all add: interpolated_weeks_def weeks_bctab_def)
  qed
  with w [of 0] w [of k] assms show ?thesis by (simp add: century_weeks_def)
qed

lemma years_interpolation:
  assumes "0 \<le> c" "c < 4" "0 \<le> k" "k < 100"
  shows "8192 * k \<le> 157 * century_weeks c k + eraweeks_bctab ! nat c"
    "157 * century_weeks c k + eraweeks_bctab ! nat c < 8192 * k + 157"
    "157 * (century_weeks c (k + 1) - 1) + eraweeks_bctab ! nat c < 8192 * (k + 1)"
proof -
  note ok = interpolation_ok [OF assms, unfolded interpolation_ok_def Let_def]
  show "8192 * k \<le> 157 * century_weeks c k + eraweeks_bctab ! nat c"
    "157 * century_weeks c k + eraweeks_bctab ! nat c < 8192 * k + 157"
    using ok iso_weeks_interpolated [OF assms] by linarith+
  show "157 * (century_weeks c (k + 1) - 1) + eraweeks_bctab ! nat c < 8192 * (k + 1)"
  proof (cases "k < 99")
    case True
    with assms iso_weeks_interpolated [of c "k + 1"] ok show ?thesis by simp
  next
    case False
    with assms have "k = 99" "c \<in> {0, 1, 2, 3}" by auto
    then show ?thesis by (elim insertE emptyE) (simp_all add: century_weeks_def iso_weeks_century eraweeks_bctab_def)
  qed
qed

lemma iso_weeks_step: "iso_weeks n + 52 \<le> iso_weeks (n + 1) \<and> iso_weeks (n + 1) \<le> iso_weeks n + 53"
  unfolding iso_weeks_def era_days_step by (cases "is_leapyear (n + 1)"; simp; linarith)

lemma unit_scale_iso_weeks: "unit_scale iso_weeks a b"
proof unfold_locales
  show "iso_weeks u < iso_weeks (u + 1)" for u using iso_weeks_step [of u] by linarith
qed

lemma iso_weeks_less_iff: "iso_weeks u < iso_weeks w \<longleftrightarrow> u < w"
  using unit_scale.start_less [OF unit_scale_iso_weeks, of u u w w]
    unit_scale.start_le [OF unit_scale_iso_weeks, of w w u u] by linarith

lemma century_start:
  assumes "0 \<le> c" "c < 4"
  shows "iso_weeks (100 * c) = 5218 * c - (if c > 1 then 1 else 0)"
    "iso_weeks (100 * c + 100) = 5218 * c + 5218 - (if c > 0 then 1 else 0)"
proof -
  have "c \<in> {0, 1, 2, 3}" using assms by auto
  then show "iso_weeks (100 * c) = 5218 * c - (if c > 1 then 1 else 0)"
    "iso_weeks (100 * c + 100) = 5218 * c + 5218 - (if c > 0 then 1 else 0)"
    by (elim insertE emptyE; simp add: iso_weeks_century)+
qed

lemma split_eraweeks_at:
  assumes c: "0 \<le> c" "c < 4" and k: "0 \<le> k" "k < 100"
    and r: "0 \<le> r" "r < iso_weeks (100 * c + k + 1) - iso_weeks (100 * c + k)"
  shows "isocal_split_eraweeks (20871 * q + (iso_weeks (100 * c + k) + r)) = \<lparr>hi = 400 * q + 100 * c + k, lo = r\<rparr>"
proof -
  define W where "W = century_weeks c k + r"
  define l where "l = iso_weeks (100 * c + k) + r"
  define b where "b = eraweeks_bctab ! nat c"
  note y = years_interpolation [OF c k, folded b_def]
  have W1: "W < century_weeks c (k + 1)" using r by (simp add: W_def century_weeks_def add.assoc)
  have l: "l = iso_weeks (100 * c) + W" by (simp add: W_def l_def century_weeks_def)
  have "iso_weeks (100 * c + (k + 1)) \<le> iso_weeks (100 * c + 100)"
    using k iso_weeks_less_iff [of "100 * c + 100" "100 * c + (k + 1)"] by simp
  with W1 have W2: "W < iso_weeks (100 * c + 100) - iso_weeks (100 * c)" by (simp add: century_weeks_def)
  have "0 \<le> century_weeks c k"
    using k iso_weeks_less_iff [of "100 * c + k" "100 * c"] by (simp add: century_weeks_def)
  with r have W0: "0 \<le> W" by (simp add: W_def)
  have lc: "l + (if l \<ge> 10435 then 1 else 0) = 5218 * c + W" and lb: "0 \<le> l" "l < 20871" and W3: "W < 5218"
    using W0 W2 c unfolding l century_start [OF c] by (auto split: if_splits)
  have d: "c_floor_divmod (20871 * q + l) 20871 = (q, l)"
    using lb by (simp add: c_floor_divmod_eq)
  define e where "e = W * 157 + b"
  have e: "8192 * k \<le> e" "e < 8192 * (k + 1)" and e0: "0 \<le> e"
    using y W1 r k by (simp_all add: e_def W_def algebra_simps)
  have q8: "e sdiv 8192 = k" "e smod 8192 = e - 8192 * k"
    using e e0 int_div_pos_eq [of e 8192 k "e - 8192 * k"] int_mod_pos_eq [of e 8192 k "e - 8192 * k"]
    by (simp_all add: sdiv_nonneg smod_nonneg)
  have "(e - 8192 * k) sdiv 157 = r"
    using e y int_div_pos_eq [of "e - 8192 * k" 157 r "157 * century_weeks c k + b - 8192 * k"]
    by (simp add: sdiv_nonneg e_def W_def algebra_simps)
  moreover have "(5218 * c + W) sdiv 5218 = c" "(5218 * c + W) smod 5218 = W"
    using W0 W3 c by (simp_all add: sdiv_nonneg smod_nonneg)
  ultimately show ?thesis
    using q8 unfolding l_def [symmetric] isocal_split_eraweeks_def GREGORIAN_CYCLE_WEEKS_val d
    by (simp add: lc Let_def flip: b_def e_def)
qed

lemma split_eraweeks_year:
  assumes "0 \<le> r" "r < iso_weeks (n + 1) - iso_weeks n"
  shows "isocal_split_eraweeks (iso_weeks n + r) = \<lparr>hi = n, lo = r\<rparr>"
proof -
  define q m where qm: "q = n div 400" "m = n mod 400"
  define c k where ck: "c = m div 100" "k = m mod 100"
  have m: "0 \<le> m" "m < 400" and n: "n = 400 * q + m" by (simp_all add: qm)
  have k: "0 \<le> k" "k < 100" and m': "m = 100 * c + k" by (simp_all add: ck)
  have c: "0 \<le> c" "c < 4" using m unfolding ck by linarith+
  have w: "iso_weeks n = 20871 * q + iso_weeks m" "iso_weeks (n + 1) = 20871 * q + iso_weeks (m + 1)"
    using iso_weeks_cycle [of q m] iso_weeks_cycle [of q "m + 1"] by (simp_all add: n add.assoc)
  have "isocal_split_eraweeks (20871 * q + (iso_weeks (100 * c + k) + r)) = \<lparr>hi = 400 * q + 100 * c + k, lo = r\<rparr>"
    using c k assms unfolding w m' by (intro split_eraweeks_at) simp_all
  then show ?thesis using w(1) by (simp add: m' n add.assoc)
qed

definition iso_split :: "int \<Rightarrow> int \<times> int" where
  "iso_split w = (let sp = isocal_split_eraweeks w in (hi sp, lo sp))"

lemma iso_split_sound:
  assumes "iso_split w = (n, r)"
  shows "iso_weeks n + r = w \<and> 0 \<le> r \<and> w < iso_weeks (n + 1)"
proof -
  have "\<exists>u. in_unit iso_weeks (- 400 * (\<bar>w\<bar> + 1)) (400 * (\<bar>w\<bar> + 1)) u (w - iso_weeks u)"
    using iso_weeks_cycle [of "- (\<bar>w\<bar> + 1)" 0] iso_weeks_cycle [of "\<bar>w\<bar> + 1" 0]
    by (intro unit_scale.in_unit_exists [OF unit_scale_iso_weeks]) (auto simp: iso_weeks_century)
  then obtain u where u: "0 \<le> w - iso_weeks u" "w < iso_weeks (u + 1)" by (auto simp: in_unit_def)
  with split_eraweeks_year [of "w - iso_weeks u" u] assms show ?thesis by (auto simp: iso_split_def)
qed

lemma iso_weeks_bounds: "- 41000000 \<le> n \<Longrightarrow> n \<le> 41000000 \<Longrightarrow> in_s32 (iso_weeks n)"
  using iso_weeks_less_iff [of n "- 41000000"] iso_weeks_less_iff [of 41000000 n]
  by (simp add: iso_weeks_def [of "- 41000000"] iso_weeks_def [of 41000000] era_days_def in_s32_def)

lemma weeks_in_years_iso: "- 41000000 \<le> n \<Longrightarrow> n \<le> 41000000 \<Longrightarrow> isocal_weeks_in_years n = iso_weeks n"
  by (simp add: weeks_in_years_eq s32_id iso_weeks_bounds)

interpretation isoyears: unit_split isocal_weeks_in_years "- 41000000" 41000000 iso_split
proof unfold_locales
  show "isocal_weeks_in_years u < isocal_weeks_in_years (u + 1)" if "- 41000000 \<le> u" "u < 41000000" for u
    using that by (simp add: weeks_in_years_iso iso_weeks_less_iff)
  show "in_unit isocal_weeks_in_years (- 41000000) 41000000 u r \<and> isocal_weeks_in_years u + r = d"
    if d: "isocal_weeks_in_years (- 41000000) \<le> d" "d < isocal_weeks_in_years 41000000" and "iso_split d = (u, r)" for d u r
  proof -
    from that have s: "iso_weeks u + r = d \<and> 0 \<le> r \<and> d < iso_weeks (u + 1)" by (intro iso_split_sound)
    with d have "iso_weeks (- 41000000) < iso_weeks (u + 1)" "iso_weeks u < iso_weeks 41000000"
      by (auto simp: weeks_in_years_iso)
    with s show ?thesis by (auto simp: iso_weeks_less_iff in_unit_def weeks_in_years_iso)
  qed
qed

text \<open>The Monday closest to January 1st starts the ISO year.\<close>

lemma iso_year_start:
  assumes "- 5000000 \<le> y" "y \<le> 4999999"
  shows "7 * iso_weeks y + 1 = ntpcal_weekday_close (ntpcal_year_to_ystart (y + 1)) 1"
proof -
  have b: "- 2147483456 \<le> era_days y" "era_days y \<le> 2147483455" using assms era_days_bounds [of y] by simp_all
  have "ntpcal_weekday_close (era_days y + 1) 1 = era_days y - 2 + (1 - (era_days y - 2)) mod 7"
    using b by (simp add: ntpcal_weekday_close_def ntpcal_periodic_extend_eq s32_id in_s32_def)
  moreover have "era_days y - 2 + (1 - (era_days y - 2)) mod 7 = 7 * ((era_days y + 3) div 7) + 1"
  proof -
    have "(6 - (era_days y + 3)) mod 7 = 6 - (era_days y + 3) mod 7"
      using int_mod_pos_eq [of "6 - (era_days y + 3)" 7 "- ((era_days y + 3) div 7)" "6 - (era_days y + 3) mod 7"]
        div_mult_mod_eq [of "era_days y + 3" 7] pos_mod_bound [of 7 "era_days y + 3"] pos_mod_sign [of 7 "era_days y + 3"]
      by linarith
    moreover have "1 - (era_days y - 2) = 6 - (era_days y + 3)" by simp
    moreover have "(era_days y + 3) div 7 * 7 + (era_days y + 3) mod 7 = era_days y + 3" by (rule div_mult_mod_eq)
    ultimately show ?thesis by (simp only:)
  qed
  ultimately show ?thesis using assms by (simp add: year_to_ystart_eq iso_weeks_def)
qed

text \<open>
  ISO years.  Although weeks and years are converted by linear interpolation, each ISO year
  starts at the Monday closest to January 1st of the Gregorian year, has 52 or 53 weeks, and splitting the
  weeks of the era is inverse to counting the weeks of the elapsed years.
\<close>
theorem iso_years_correct:
  assumes "- 5000000 \<le> y" "y < 4999999" "0 \<le> w" "w < isocal_weeks_in_years (y + 1) - isocal_weeks_in_years y"
  shows "7 * isocal_weeks_in_years y + 1 = ntpcal_weekday_close (ntpcal_year_to_ystart (y + 1)) 1 \<and>
    isocal_weeks_in_years (y + 1) - isocal_weeks_in_years y \<in> {52, 53} \<and>
    isocal_split_eraweeks (isocal_weeks_in_years y + w) = \<lparr>hi = y, lo = w\<rparr>"
proof -
  have "iso_split (isocal_weeks_in_years y + w) = (y, w)"
    using assms by (intro isoyears.split_join) (simp add: in_unit_def)
  then have "isocal_split_eraweeks (isocal_weeks_in_years y + w) = \<lparr>hi = y, lo = w\<rparr>"
    by (cases "isocal_split_eraweeks (isocal_weeks_in_years y + w)") (simp add: iso_split_def)
  moreover have "isocal_weeks_in_years (y + 1) - isocal_weeks_in_years y \<in> {52, 53}"
    using assms iso_weeks_step [of y] by (simp add: weeks_in_years_iso) linarith
  ultimately show ?thesis using assms iso_year_start [of y] by (simp add: weeks_in_years_iso)
qed

theorem iso_years_correct_witness:
  "isocal_split_eraweeks (isocal_weeks_in_years 2019 + 52) = \<lparr>hi = 2019, lo = 52\<rparr>"
  using iso_years_correct [of 2019 52] by (simp add: weeks_in_years_iso iso_weeks_def era_days_def)

lemma dayjoin_word: "ntpcal_dayjoin d s = word_of_int (d * 86400 + s)"
  by (simp add: ntpcal_dayjoin_def)

lemma isocal_ntp_to_date_eq:
  assumes "v = q_s (ntpcal_ntp_to_ntp now ntp piv)" "\<bar>v\<bar> < 40000000000"
    and "rd = v div 86400 + DAY_NTP_STARTS" "s = v mod 86400" "iso_split ((rd - 1) div 7) = (y, w)"
  shows "isocal_ntp_to_date now iid ntp piv =
    (iid\<lparr>iso_year := word_of_int (y + 1), iso_week := word_of_int (w + 1), iso_weekday := word_of_int ((rd - 1) mod 7 + 1),
       iso_hour := word_of_int (s div 3600), iso_minute := word_of_int (s div 60 mod 60), iso_second := word_of_int (s mod 60)\<rparr>,
     0 \<le> y \<and> y < 65535)"
proof -
  define d where "d = v div 86400"
  have s: "0 \<le> s" "s < 86400" by (simp_all add: assms(4))
  have d: "- 500000 < d" "d < 500000" using assms(2) unfolding d_def abs_less_iff by linarith+
  have "ntpcal_daysplit (ntpcal_ntp_to_ntp now ntp piv) = \<lparr>hi = d, lo = s\<rparr>"
    using d by (simp add: ntpcal_daysplit_eq s32_id in_s32_def assms(4) d_def flip: assms(1))
  moreover have "rd = d + 693596" by (simp add: assms(3) d_def)
  moreover have "hi (isocal_split_eraweeks ((rd - 1) div 7)) = y" "lo (isocal_split_eraweeks ((rd - 1) div 7)) = w"
    using assms(5) by (simp_all add: iso_split_def Let_def)
  ultimately show ?thesis
    using s d by (cases iid) (simp add: isocal_ntp_to_date_def priv_timesplit_eq c_floor_divmod_eq s32_id in_s32_def Let_def)
qed

text \<open>
  ISO dates of NTP stamps.  With a pivot within \<open>2^35\<close> seconds of 1970 the conversion of any stamp
  succeeds, gives an ISO week of 1 to 53 and an ISO weekday of 1 to 7, and the inverse
  conversion returns the stamp.
\<close>
theorem isocal_ntp_roundtrip:
  assumes "P = (case piv of Some p \<Rightarrow> p | None \<Rightarrow> now)" "\<bar>P\<bar> \<le> 2 ^ 35" "isocal_ntp_to_date now iid ntp piv = (iid', ok)"
  shows "ok \<and> 1 \<le> uint (iso_week iid') \<and> uint (iso_week iid') \<le> 53 \<and>
    1 \<le> uint (iso_weekday iid') \<and> uint (iso_weekday iid') \<le> 7 \<and> isocal_date_to_ntp iid' = ntp"
proof -
  define v where "v = q_s (ntpcal_ntp_to_ntp now ntp piv)"
  define rd s where rs: "rd = v div 86400 + DAY_NTP_STARTS" "s = v mod 86400"
  obtain y w where yw: "iso_split ((rd - 1) div 7) = (y, w)" by fastforce
  have v: "\<bar>v\<bar> < 40000000000" "D_lo (word_of_int v) = ntp" using ntp_to_ntp_small [OF assms(1,2)] by (simp_all add: v_def)
  then have rb: "150000 < rd" "rd < 1500000" unfolding rs DAY_NTP_STARTS_def abs_less_iff by linarith+
  have S: "iso_weeks y + w = (rd - 1) div 7" "0 \<le> w" "(rd - 1) div 7 < iso_weeks (y + 1)"
    using iso_split_sound [OF yw] by auto
  have wb: "w < 53" using S iso_weeks_step [of y] by linarith
  have "iso_weeks 0 < iso_weeks (y + 1)" "iso_weeks y < iso_weeks 5000"
    using S rb by (simp_all add: iso_weeks_def [of 0] iso_weeks_def [of 5000] era_days_def)
  then have yb: "0 \<le> y" "y < 5000" by (simp_all add: iso_weeks_less_iff)
  have s: "0 \<le> s" "s < 86400" by (simp_all add: rs)
  note e = isocal_ntp_to_date_eq [OF v_def v(1) rs yw, of iid, unfolded assms(3)]
  have "(rd - 1) mod 7 < 7" by simp
  then have f: "uint (iso_year iid') = y + 1" "uint (iso_week iid') = w + 1" "uint (iso_weekday iid') = (rd - 1) mod 7 + 1" "ok"
    using e yb wb S(2) by (simp_all add: uint_u8 uint_u16 del: of_int_add)
  have t: "uint (iso_hour iid') = s div 3600" "uint (iso_minute iid') = s div 60 mod 60" "uint (iso_second iid') = s mod 60"
    using e s pos_mod_bound [of 60 s] pos_mod_bound [of 60 "s div 60"] by (simp_all add: uint_u8)
  have s': "s mod 86400 = s" "s div 86400 = 0" using s by auto
  have secs: "ntpcal_etime_to_seconds (s div 3600) (s div 60 mod 60) (s mod 60) = s"
    using etime_timesplit [of s] unfolding s' by simp
  have "(iso_weeks y + w) * 7 + ((rd - 1) mod 7 + 1) = rd" unfolding S(1) using div_mult_mod_eq [of "rd - 1" 7] by linarith
  moreover have "isocal_weeks_in_years (uint (iso_year iid') - 1) + uint (iso_week iid') - 1 = iso_weeks y + w"
    using f yb by (simp add: weeks_in_years_iso)
  moreover have "in_s32 (iso_weeks y + w)" unfolding S(1) in_s32_def using rb by (intro conjI) linarith+
  moreover have "in_s32 rd" "in_s32 (rd - DAY_NTP_STARTS)" using rb by (simp_all add: in_s32_def)
  ultimately have "isocal_date_to_ntp iid' = D_lo (ntpcal_dayjoin (rd - DAY_NTP_STARTS) s)"
    unfolding isocal_date_to_ntp_def Let_def t secs f by (simp only: s32_id)
  also have "ntpcal_dayjoin (rd - DAY_NTP_STARTS) s = word_of_int v"
    unfolding rs add_diff_cancel_right' dayjoin_word by (simp only: div_mult_mod_eq)
  finally show ?thesis using f wb S(2) v by simp
qed

theorem isocal_ntp_roundtrip_witness:
  "isocal_date_to_ntp (fst (isocal_ntp_to_date 1400000000
     \<lparr>iso_year = 0, iso_week = 0, iso_weekday = 0, iso_hour = 0, iso_minute = 0, iso_second = 0\<rparr> 77 None)) = 77"
  using isocal_ntp_roundtrip [where P = 1400000000 and piv = None and now = 1400000000 and ntp = 77, OF _ _ surjective_pairing]
  by simp

end
