(* ===== verification/Calendar_Stamps.thy ===== *)
theory Calendar_Stamps
  imports ISO_Calendar
begin

text \<open>
  The small calendar entry points of \<^verbatim>\<open>libntp\<close> built on the conversions: \<^verbatim>\<open>caljulian.c\<close>,
  \<^verbatim>\<open>caltontp.c\<close>, \<^verbatim>\<open>calyearstart.c\<close>, \<^verbatim>\<open>ymd2yd.c\<close> and \<^verbatim>\<open>clocktime.c\<close>, the last of which the
  reference clock drivers use to find the year of a time code that has none.  A failed
  \<^verbatim>\<open>NTP_REQUIRE\<close>, which aborts the process, is the result \<open>None\<close>.
\<close>

definition CAL_MONDAY :: int where "CAL_MONDAY = 1"

definition caljulian :: "time_t \<Rightarrow> u_int32 \<Rightarrow> calendar \<Rightarrow> calendar" where
  "caljulian now ntp jt =
     (let vlong = ntpcal_ntp_to_ntp now ntp None;
          split = ntpcal_daysplit vlong
      in fst (ntpcal_daysplit_to_date jt split DAY_NTP_STARTS))"

definition caltontp :: "calendar \<Rightarrow> u_int32 option" where
  "caltontp jt =
     (if \<not> (month jt \<le> 13 \<and> monthday jt \<le> 32 \<and> yearday jt \<le> 366 \<and> hour jt \<le> 24 \<and>
             uint (minute jt) \<le> MINSPERHR \<and> uint (second jt) \<le> SECSPERMIN) then None
      else
        let eraday = (if yearday jt \<noteq> 0
                      then s32 (ntpcal_year_to_ystart (uint (year jt)) + uint (yearday jt) - 1)
                      else ntpcal_date_to_rd jt);
            ntptime = ntpcal_dayjoin (s32 (eraday - DAY_NTP_STARTS))
                        (ntpcal_etime_to_seconds (uint (hour jt)) (uint (minute jt)) (uint (second jt)))
        in Some (D_lo ntptime))"

definition calyearstart :: "time_t \<Rightarrow> u_int32 \<Rightarrow> time_t option \<Rightarrow> u_int32" where
  "calyearstart now ntptime pivot =
     (let vlong = ntpcal_ntp_to_ntp now ntptime pivot;
          split = ntpcal_daysplit vlong;
          ndays = word_of_int (ntpcal_rd_to_ystart (s32 (hi split + DAY_NTP_STARTS)) - DAY_NTP_STARTS)
      in ndays * word_of_int SECSPERDAY)"

definition calmonthstart :: "time_t \<Rightarrow> u_int32 \<Rightarrow> time_t option \<Rightarrow> u_int32" where
  "calmonthstart now ntptime pivot =
     (let vlong = ntpcal_ntp_to_ntp now ntptime pivot;
          split = ntpcal_daysplit vlong;
          ndays = word_of_int (ntpcal_rd_to_mstart (s32 (hi split + DAY_NTP_STARTS)) - DAY_NTP_STARTS)
      in ndays * word_of_int SECSPERDAY)"

definition calweekstart :: "time_t \<Rightarrow> u_int32 \<Rightarrow> time_t option \<Rightarrow> u_int32" where
  "calweekstart now ntptime pivot =
     (let vlong = ntpcal_ntp_to_ntp now ntptime pivot;
          split = ntpcal_daysplit vlong;
          ndays = word_of_int (ntpcal_weekday_le (s32 (hi split + DAY_NTP_STARTS)) CAL_MONDAY - DAY_NTP_STARTS)
      in ndays * word_of_int SECSPERDAY)"

definition caldaystart :: "time_t \<Rightarrow> u_int32 \<Rightarrow> time_t option \<Rightarrow> u_int32" where
  "caldaystart now ntptime pivot =
     (let vlong = ntpcal_ntp_to_ntp now ntptime pivot;
          split = ntpcal_daysplit vlong
      in ntptime - word_of_int (lo split))"

definition ymd2yd :: "int \<Rightarrow> int \<Rightarrow> int \<Rightarrow> int" where
  "ymd2yd y m d = s32 (ntpcal_edate_to_yeardays (s32 (y - 1)) (s32 (m - 1)) (s32 (d - 1)) + 1)"

section \<open>Clock time\<close>

definition CLOSETIME :: u_int32 where "CLOSETIME = 4 * 60 * 60"
definition NEARTIME :: u_int32 where "NEARTIME = 182 * word_of_int SECSPERDAY"

definition ntp_to_year :: "time_t \<Rightarrow> u_int32 \<Rightarrow> int" where
  "ntp_to_year now ntp =
     (let t = ntpcal_ntp_to_ntp now ntp None;
          s = ntpcal_daysplit t;
          s = fst (ntpcal_split_eradays (s32 (hi s + DAY_NTP_STARTS - 1)))
      in s32 (hi s + 1))"

definition year_to_ntp :: "int \<Rightarrow> u_int32" where
  "year_to_ntp y =
     (let days = word_of_int (ntpcal_days_in_years (s32 (y - 1)) - DAY_NTP_STARTS + 1)
      in days * word_of_int SECSPERDAY)"

text \<open>The absolute difference of two stamps, which the code writes out twice.\<close>

definition stamp_diff :: "u_int32 \<Rightarrow> u_int32 \<Rightarrow> u_int32" where
  "stamp_diff test rec_ui =
     (let diff = test - rec_ui in if diff \<ge> 0x80000000 then NOT diff + 1 else diff)"

definition clocktime_search :: "time_t \<Rightarrow> int \<Rightarrow> u_int32 \<Rightarrow> bool \<times> u_int64 \<times> u_int32" where
  "clocktime_search now tmp rec_ui =
     (let y = ntp_to_year now (rec_ui - word_of_int tmp);
          ystt = map (\<lambda>idx. year_to_ntp (s32 (y + idx - 1))) [0, 1, 2];
          test = map (\<lambda>ys. ys + word_of_int tmp) ystt;
          diff = map (\<lambda>t. stamp_diff t rec_ui) test;
          mn = foldl (\<lambda>mn idx. if diff ! idx < diff ! mn then idx else mn) 1 [0, 1, 2]
      in (diff ! mn < CLOSETIME, ucast (ystt ! mn), test ! mn))"

definition clocktime ::
  "time_t \<Rightarrow> int \<Rightarrow> int \<Rightarrow> int \<Rightarrow> int \<Rightarrow> int \<Rightarrow> u_int32 \<Rightarrow> u_int64 \<Rightarrow> bool \<times> u_int64 \<times> u_int32" where
  "clocktime now yday hr mnt sec tzoff rec_ui yearstart =
     (let tmp = s32 (sec + SECSPERMIN * (mnt + MINSPERHR * (hr + tzoff + HRSPERDAY * (yday - 1))));
          test = ucast yearstart + word_of_int tmp;
          diff = stamp_diff test rec_ui
      in if yearstart \<noteq> 0 \<and> diff < NEARTIME then (diff < CLOSETIME, yearstart, test)
         else clocktime_search now tmp rec_ui)"

section \<open>Stamps near the clock\<close>

text \<open>The days and seconds of an unfolded stamp, for a pivot within \<open>2^35\<close> seconds of 1970.\<close>

lemma stamp_parts:
  assumes "P = (case piv of Some p \<Rightarrow> p | None \<Rightarrow> now)" "\<bar>P\<bar> \<le> 2 ^ 35"
  obtains d s where "ntpcal_daysplit (ntpcal_ntp_to_ntp now ntp piv) = \<lparr>hi = d, lo = s\<rparr>"
    "- 500000 < d" "d < 500000" "0 \<le> s" "s < 86400" "ntp = word_of_int (d * 86400 + s)"
proof -
  define v where "v = q_s (ntpcal_ntp_to_ntp now ntp piv)"
  have v: "\<bar>v\<bar> < 40000000000" "D_lo (word_of_int v) = ntp"
    using ntp_to_ntp_small [OF assms] by (simp_all add: v_def)
  then have d: "- 500000 < v div 86400" "v div 86400 < 500000" unfolding abs_less_iff by linarith+
  show thesis
  proof (rule that)
    show "ntpcal_daysplit (ntpcal_ntp_to_ntp now ntp piv) = \<lparr>hi = v div 86400, lo = v mod 86400\<rparr>"
      using d by (simp add: ntpcal_daysplit_eq s32_id in_s32_def flip: v_def)
    show "ntp = word_of_int (v div 86400 * 86400 + v mod 86400)"
      using v(2) by (simp only: div_mult_mod_eq D_lo_word_of_int)
  qed (use d in auto)
qed

lemma year_range_days: "- 500000 < d \<Longrightarrow> d < 500000 \<Longrightarrow>
    ntpcal_days_in_years (- 1) < d + DAY_NTP_STARTS \<and> d + DAY_NTP_STARTS \<le> ntpcal_days_in_years 65535"
  by (simp add: days_in_years_era era_days_def)

lemma ntp_to_date_parts:
  assumes "ntpcal_daysplit (ntpcal_ntp_to_ntp now ntp piv) = \<lparr>hi = d, lo = s\<rparr>"
    "- 500000 < d" "d < 500000" "0 \<le> s" "s < 86400"
  shows "ntpcal_ntp_to_date now jd ntp piv =
    ntpcal_rd_to_date (fst (ntpcal_daysec_to_date jd s)) (d + DAY_NTP_STARTS)"
  using assms by (simp add: ntpcal_ntp_to_date_def daysec_to_date_eq s32_id in_s32_def)

lemma caljulian_eq:
  assumes "\<bar>now\<bar> \<le> 2 ^ 35"
  shows "caljulian now ntp jt = fst (ntpcal_ntp_to_date now jt ntp None)"
proof -
  obtain d s where p: "ntpcal_daysplit (ntpcal_ntp_to_ntp now ntp None) = \<lparr>hi = d, lo = s\<rparr>"
    "- 500000 < d" "d < 500000" "0 \<le> s" "s < 86400" "ntp = word_of_int (d * 86400 + s)"
    by (rule stamp_parts [where P = now and piv = None and now = now and ntp = ntp]) (use assms in simp_all)
  from p(2-5) show ?thesis
    by (simp add: p(1) caljulian_def ntp_to_date_parts [OF p(1-5)] ntpcal_daysplit_to_date_def daysec_to_date_eq s32_id in_s32_def Let_def)
qed

lemma valid_time_word: "valid_time jd \<Longrightarrow> hour jd \<le> 24 \<and> uint (minute jd) \<le> 60 \<and> uint (second jd) \<le> 60"
  by (simp add: valid_time_def word_le_def)

lemma valid_date_word: "valid_date jd \<Longrightarrow> month jd \<le> 13 \<and> monthday jd \<le> 32"
  using month_length_range [of "12 * (uint (year jd) - 1) + (uint (month jd) - 1)"]
  by (auto simp: valid_date_def word_le_def)

lemma ymd2yd_eq:
  assumes "valid_date jd"
  shows "ymd2yd (uint (year jd)) (uint (month jd)) (uint (monthday jd)) = ntpcal_date_to_rd jd - era_days (uint (year jd) - 1)"
proof -
  define y m d where "y = uint (year jd)" "m = uint (month jd)" "d = uint (monthday jd)"
  note b = calendar_bounds [of jd, folded this]
  note v = assms [unfolded valid_date_def, folded y_m_d_def]
  have l: "d \<le> 31" using v month_length_range [of "12 * (y - 1) + (m - 1)"] by linarith
  have e: "ntpcal_edate_to_yeardays (y - 1) (m - 1) (d - 1) = month_days (12 * (y - 1) + (m - 1)) + (d - 1) - era_days (y - 1)"
    using b v by (intro edate_to_yeardays_eq) auto
  have "0 \<le> month_days (12 * (y - 1) + (m - 1)) - era_days (y - 1)"
    using v month_days_le_iff [of "12 * (y - 1)" "12 * (y - 1) + (m - 1)"] by (simp only: month_days_year) simp
  moreover have "month_days (12 * (y - 1) + (m - 1)) - era_days (y - 1) \<le> 366"
    using v month_days_le_iff [of "12 * (y - 1) + (m - 1)" "12 * (y - 1 + 1)"] era_days_step [of "y - 1"]
    by (simp only: month_days_year) (simp split: if_splits)
  ultimately have "in_s32 (month_days (12 * (y - 1) + (m - 1)) + (d - 1) - era_days (y - 1) + 1)"
    using l v unfolding in_s32_def by linarith
  moreover have "in_s32 (y - 1)" "in_s32 (m - 1)" "in_s32 (d - 1)" using b unfolding in_s32_def by linarith+
  ultimately show ?thesis
    unfolding ymd2yd_def date_to_rd_eq y_m_d_def [symmetric] by (simp add: s32_id e)
qed

text \<open>
  \<^verbatim>\<open>caljulian\<close> and \<^verbatim>\<open>caltontp\<close>.  With the clock within \<open>2^35\<close> seconds of 1970, the date that
  \<^verbatim>\<open>caljulian\<close> finds for a stamp passes the checks of \<^verbatim>\<open>caltontp\<close> and converts back to the stamp,
  whether the day of the year or month and day are used, and \<^verbatim>\<open>ymd2yd\<close> computes the day of the
  year that \<^verbatim>\<open>caljulian\<close> stored.
\<close>
theorem caljulian_caltontp:
  assumes "\<bar>now\<bar> \<le> 2 ^ 35" "jd = caljulian now ntp jt"
  shows "caltontp jd = Some ntp \<and> caltontp (jd\<lparr>yearday := 0\<rparr>) = Some ntp \<and>
    ymd2yd (uint (year jd)) (uint (month jd)) (uint (monthday jd)) = uint (yearday jd)"
proof -
  obtain d s where p: "ntpcal_daysplit (ntpcal_ntp_to_ntp now ntp None) = \<lparr>hi = d, lo = s\<rparr>"
    "- 500000 < d" "d < 500000" "0 \<le> s" "s < 86400" "ntp = word_of_int (d * 86400 + s)"
    by (rule stamp_parts [where P = now and piv = None and now = now and ntp = ntp]) (use assms in simp_all)
  define rd where "rd = d + DAY_NTP_STARTS"
  obtain ret where e: "ntpcal_rd_to_date (fst (ntpcal_daysec_to_date jt s)) rd = (jd, ret)"
    using assms by (cases "ntpcal_ntp_to_date now jt ntp None") (simp add: caljulian_eq ntp_to_date_parts [OF p(1-5)] rd_def)
  have r: "ntpcal_days_in_years (- 1) < rd" "rd \<le> ntpcal_days_in_years 65535"
    using year_range_days [OF p(2,3)] by (simp_all add: rd_def)
  note F = rd_to_date_ok [OF e r]
  have S: "ntpcal_date_to_daysec jd = s" "valid_time jd" using seconds_to_date [OF p(4,5) e r] by auto
  have i: "in_s32 rd" "s32 (rd - 693596) = d" using p(2,3) by (simp_all add: rd_def in_s32_def s32_id)
  have N: "D_lo (ntpcal_dayjoin d s) = ntp" by (simp add: p(6) dayjoin_word D_lo_word_of_int del: of_int_add)
  have "0 < yearday jd" "yearday jd \<le> 366" using F(6,7) by (simp_all add: word_less_def word_le_def)
  then have "caltontp jd = Some ntp" "caltontp (jd\<lparr>yearday := 0\<rparr>) = Some ntp"
    using F(3,5) S i N valid_time_word [OF S(2)] valid_date_word [OF F(2)]
    by (auto simp: caltontp_def Let_def s32_id date_to_rd_eq simp flip: ntpcal_date_to_daysec_def)
  moreover have "ymd2yd (uint (year jd)) (uint (month jd)) (uint (monthday jd)) = uint (yearday jd)"
    using ymd2yd_eq [of jd] F(2,3,5) calendar_bounds [of jd] year_to_ystart_eq [of "uint (year jd)"] by simp
  ultimately show ?thesis by simp
qed

theorem caljulian_caltontp_witness:
  "caltontp (caljulian 1400000000 3608988800 cal_zero) = Some 3608988800"
  using caljulian_caltontp [where now = 1400000000 and ntp = 3608988800 and jt = cal_zero, OF _ refl] by simp

definition midnight :: "calendar \<Rightarrow> calendar" where
  "midnight jd = jd\<lparr>hour := 0, minute := 0, second := 0\<rparr>"

lemma midnight_simps [simp]:
  "year (midnight jd) = year jd" "month (midnight jd) = month jd" "monthday (midnight jd) = monthday jd"
  "ntpcal_date_to_daysec (midnight jd) = 0" "ntpcal_date_to_rd (midnight jd) = ntpcal_date_to_rd jd"
  by (simp_all add: midnight_def ntpcal_date_to_daysec_def ntpcal_etime_to_seconds_def ntpcal_date_to_rd_def s32_id in_s32_def)

lemma date_to_rd_bounds: "- 400000000 < ntpcal_date_to_rd jd" "ntpcal_date_to_rd jd < 500000000"
proof -
  let ?n = "12 * (uint (year jd) - 1) + (uint (month jd) - 1)"
  note b = calendar_bounds [of jd]
  have "?n = 12 * uint (year jd) + uint (month jd) - 13" by simp
  with b have "- 1000 \<le> ?n" "?n \<le> 10000000" by linarith+
  then have "month_days (- 1000) \<le> month_days ?n" "month_days ?n \<le> month_days 10000000"
    by (simp_all only: month_days_le_iff)
  moreover have "month_days 10000000 < 400000000" "- 400000000 < month_days (- 1000)"
    by (simp_all add: month_days_def era_days_def real_month_table_def)
  ultimately show "- 400000000 < ntpcal_date_to_rd jd" "ntpcal_date_to_rd jd < 500000000"
    using b date_to_rd_eq [of jd] by linarith+
qed

lemma date_to_ntp_midnight:
  "ntpcal_date_to_ntp (midnight jd) = word_of_int (ntpcal_date_to_rd jd - 693596) * 86400"
proof -
  have "in_s32 (ntpcal_date_to_rd jd - 693596)" using date_to_rd_bounds [of jd] by (simp add: in_s32_def)
  then have "ntpcal_date_to_ntp (midnight jd) = word_of_int ((ntpcal_date_to_rd jd - 693596) * 86400)"
    by (simp only: ntpcal_date_to_ntp_def midnight_simps DAY_NTP_STARTS_def s32_id dayjoin_word D_lo_word_of_int add_0_right)
  then show ?thesis by simp
qed

text \<open>
  Start of the day, week, month and year.  For a pivot within \<open>2^35\<close> seconds of 1970 the
  stamps computed by day arithmetic are those of midnight of the date of the stamp, of the first
  of its month and of January 1st of its year; the week starts at the last Monday on or before that date.
\<close>
theorem calstart_correct:
  assumes "P = (case piv of Some p \<Rightarrow> p | None \<Rightarrow> now)" "\<bar>P\<bar> \<le> 2 ^ 35" "ntpcal_ntp_to_date now jt ntp piv = (jd, ret)"
  shows "caldaystart now ntp piv = ntpcal_date_to_ntp (midnight jd) \<and>
    calmonthstart now ntp piv = ntpcal_date_to_ntp (midnight (jd\<lparr>monthday := 1\<rparr>)) \<and>
    calyearstart now ntp piv = ntpcal_date_to_ntp (midnight (jd\<lparr>month := 1, monthday := 1\<rparr>)) \<and>
    (\<exists>rd. calweekstart now ntp piv = D_lo (ntpcal_dayjoin (rd - DAY_NTP_STARTS) 0) \<and>
       rd mod 7 = CAL_MONDAY \<and> ntpcal_date_to_rd jd - 6 \<le> rd \<and> rd \<le> ntpcal_date_to_rd jd)"
proof -
  obtain d s where p: "ntpcal_daysplit (ntpcal_ntp_to_ntp now ntp piv) = \<lparr>hi = d, lo = s\<rparr>"
    "- 500000 < d" "d < 500000" "0 \<le> s" "s < 86400" "ntp = word_of_int (d * 86400 + s)"
    by (rule stamp_parts [OF assms(1,2), of ntp])
  define rd where "rd = d + 693596"
  have e: "ntpcal_rd_to_date (fst (ntpcal_daysec_to_date jt s)) rd = (jd, ret)"
    using assms(3) by (simp add: ntp_to_date_parts [OF p(1-5)] rd_def)
  have r: "ntpcal_days_in_years (- 1) < rd" "rd \<le> ntpcal_days_in_years 65535"
    using year_range_days [OF p(2,3)] by (simp_all add: rd_def)
  note F = rd_to_date_ok [OF e r]
  have i: "s32 (d + 693596) = rd" using p(2,3) by (simp add: rd_def s32_id in_s32_def)
  have D: "caldaystart now ntp piv = ntpcal_date_to_ntp (midnight jd)"
    using p by (simp add: caldaystart_def date_to_ntp_midnight F(3) rd_def)
  have M: "calmonthstart now ntp piv = word_of_int (ntpcal_rd_to_mstart rd - 693596) * 86400"
    by (simp add: calmonthstart_def p(1) i)
  have Y: "calyearstart now ntp piv = word_of_int (ntpcal_rd_to_ystart rd - 693596) * 86400"
    by (simp add: calyearstart_def p(1) i)
  have iw: "- 2147483648 \<le> rd - 6" "rd < 2147483640" using p(2,3) by (simp_all add: rd_def)
  define w where "w = rd + (1 - rd) mod (- 7)"
  have "ntpcal_weekday_le rd 1 = w"
    using iw unfolding ntpcal_weekday_le_def w_def by (intro ntpcal_periodic_extend_eq) (simp_all add: in_s32_def)
  then have "calweekstart now ntp piv = D_lo (ntpcal_dayjoin (w - DAY_NTP_STARTS) 0)"
    by (simp add: calweekstart_def p(1) i CAL_MONDAY_def dayjoin_word D_lo_word_of_int del: of_int_mult of_int_diff) simp
  moreover have "w mod (- 7) = 1 mod (- 7)" by (simp add: w_def mod_simps)
  then have "w mod 7 = 1 mod 7" by (simp only: mod_eq_dvd_iff minus_dvd_iff)
  moreover have "rd - 6 \<le> w" "w \<le> rd"
    using neg_mod_bound [of "- 7" "1 - rd"] neg_mod_sign [of "- 7" "1 - rd"] unfolding w_def by linarith+
  ultimately have "\<exists>rd. calweekstart now ntp piv = D_lo (ntpcal_dayjoin (rd - DAY_NTP_STARTS) 0) \<and>
       rd mod 7 = CAL_MONDAY \<and> ntpcal_date_to_rd jd - 6 \<le> rd \<and> rd \<le> ntpcal_date_to_rd jd"
    using F(3) by (auto simp: CAL_MONDAY_def)
  then show ?thesis unfolding D M Y F(8,9) date_to_ntp_midnight by simp
qed

theorem calstart_correct_witness:
  "calyearstart 1400000000 3608988800 None =
     ntpcal_date_to_ntp (midnight ((fst (ntpcal_ntp_to_date 1400000000 cal_zero 3608988800 None))\<lparr>month := 1, monthday := 1\<rparr>))"
  using calstart_correct [where P = 1400000000 and piv = None and now = 1400000000 and ntp = 3608988800 and jt = cal_zero,
    OF _ _ surjective_pairing] by simp

section \<open>The year of a time code\<close>

lemma stamp_diff_eq:
  assumes "\<bar>a - b\<bar> < 2147483648"
  shows "uint (stamp_diff (word_of_int a) (word_of_int b)) = \<bar>a - b\<bar>"
proof (cases "a \<ge> b")
  case True
  with assms have "uint (word_of_int a - word_of_int b :: u_int32) = a - b" by (intro uint_diff_u32) auto
  with True assms show ?thesis by (simp add: stamp_diff_def word_le_def)
next
  case False
  define e where "e = b - a"
  have e: "0 < e" "e < 2147483648" using False assms by (auto simp: e_def)
  have w: "word_of_int a - word_of_int b = (word_of_int (- e) :: u_int32)" by (simp add: e_def)
  have "(- e) mod 4294967296 = 4294967296 - e" using e int_mod_pos_eq [of "- e" 4294967296 "- 1" "4294967296 - e"] by simp
  then have "uint (word_of_int (- e) :: u_int32) = 4294967296 - e" by (simp only: uint_word_of_int_u32)
  then have "(word_of_int (- e) :: u_int32) \<ge> 0x80000000" using e by (simp only: word_le_def) simp
  then have "stamp_diff (word_of_int a) (word_of_int b) = word_of_int e"
    unfolding stamp_diff_def w Let_def by (simp add: not_eq_complement)
  moreover have "uint (word_of_int e :: u_int32) = e" using e by (simp add: uint_word_of_int_u32)
  ultimately show ?thesis using False by (simp add: e_def)
qed

definition year_start_secs :: "int \<Rightarrow> int" where
  "year_start_secs z = (era_days (z - 1) - 693595) * 86400"

lemma year_to_ntp_eq: "- 1000000 \<le> z \<Longrightarrow> z \<le> 1000000 \<Longrightarrow> year_to_ntp z = word_of_int (year_start_secs z)"
  by (simp add: year_to_ntp_def year_start_secs_def s32_id in_s32_def days_in_years_era)

lemma era_days_dist:
  assumes "u \<le> w"
  shows "365 * (w - u) \<le> era_days w - era_days u" "era_days w - era_days u \<le> 366 * (w - u)"
proof -
  have "365 * int n \<le> era_days (u + int n) - era_days u \<and> era_days (u + int n) - era_days u \<le> 366 * int n" for n
  proof (induction n)
    case (Suc n)
    have "era_days (u + int (Suc n)) = era_days (u + int n) + (if is_leapyear (u + int n + 1) then 366 else 365)"
      using era_days_step [of "u + int n"] by (simp add: algebra_simps)
    with Suc show ?case by (auto split: if_splits)
  qed simp
  from this [of "nat (w - u)"] assms
  show "365 * (w - u) \<le> era_days w - era_days u" "era_days w - era_days u \<le> 366 * (w - u)" by simp_all
qed

lemma year_start_dist:
  assumes "u \<le> w"
  shows "31536000 * (w - u) \<le> year_start_secs w - year_start_secs u" "year_start_secs w - year_start_secs u \<le> 31622400 * (w - u)"
  using era_days_dist [of "u - 1" "w - 1"] assms by (simp_all add: year_start_secs_def)

lemma year_start_mono: "u \<le> w \<Longrightarrow> year_start_secs u \<le> year_start_secs w"
  using year_start_dist(1) [of u w] by simp

lemma year_start_step: "year_start_secs (y + 1) \<le> year_start_secs y + 31622400"
  using year_start_dist(2) [of y "y + 1"] by simp

lemma ntp_to_year_eq:
  assumes "\<bar>now\<bar> \<le> 2 ^ 35"
  obtains v where "ntp = word_of_int v" "\<bar>ntp_to_year now ntp\<bar> < 5000"
    "year_start_secs (ntp_to_year now ntp) \<le> v" "v < year_start_secs (ntp_to_year now ntp + 1)"
proof -
  obtain d s where p: "ntpcal_daysplit (ntpcal_ntp_to_ntp now ntp None) = \<lparr>hi = d, lo = s\<rparr>"
    "- 500000 < d" "d < 500000" "0 \<le> s" "s < 86400" "ntp = word_of_int (d * 86400 + s)"
    by (rule stamp_parts [where P = now and piv = None and now = now and ntp = ntp]) (use assms in simp_all)
  obtain y r where y: "year_split (d + 693595) = (y, r)" by fastforce
  note S = year_split_sound [OF y]
  have b: "0 \<le> y" "y < 4000"
    using p(2,3) year_of_day [OF y, of 0] year_of_day [OF y, of 4000] by (simp_all add: era_days_def)
  have "hi (fst (ntpcal_split_eradays (d + 693595))) = y" using y by (simp add: year_split_def case_prod_unfold Let_def)
  then have e: "ntp_to_year now ntp = y + 1"
    using p(1-3) b by (simp add: ntp_to_year_def s32_id in_s32_def add.commute)
  show thesis
  proof (rule that)
    show "year_start_secs (ntp_to_year now ntp) \<le> d * 86400 + s" "d * 86400 + s < year_start_secs (ntp_to_year now ntp + 1)"
      using S p(4,5) by (simp_all add: e year_start_secs_def add.commute [of 1])
  qed (use b e p(6) in auto)
qed

lemma clocktime_search_min:
  assumes "clocktime_search now tmp rec_ui = (close, ys, ts)"
  obtains k where "k \<in> {- 1, 0, 1}" "ys = ucast (year_to_ntp (s32 (ntp_to_year now (rec_ui - word_of_int tmp) + k)))"
    "ts = year_to_ntp (s32 (ntp_to_year now (rec_ui - word_of_int tmp) + k)) + word_of_int tmp"
    "close \<longleftrightarrow> stamp_diff ts rec_ui < CLOSETIME"
    "\<forall>k \<in> {- 1, 0, 1}. stamp_diff ts rec_ui \<le>
       stamp_diff (year_to_ntp (s32 (ntp_to_year now (rec_ui - word_of_int tmp) + k)) + word_of_int tmp) rec_ui"
proof -
  define st where "st k = year_to_ntp (s32 (ntp_to_year now (rec_ui - word_of_int tmp) + k))" for k
  define df where "df k = stamp_diff (st k + word_of_int tmp) rec_ui" for k
  define mn :: nat where "mn = foldl (\<lambda>mn idx. if [df (- 1), df 0, df 1] ! idx < [df (- 1), df 0, df 1] ! mn then idx else mn) 1 [0, 1, 2]"
  have m: "mn \<in> {0, 1, 2} \<and> (\<forall>i \<in> {0, 1, 2}. [df (- 1), df 0, df 1] ! mn \<le> [df (- 1), df 0, df 1] ! i)"
    by (auto simp: mn_def split: if_splits)
  have l: "map (\<lambda>idx. year_to_ntp (s32 (ntp_to_year now (rec_ui - word_of_int tmp) + idx - 1))) [0, 1, 2] = [st (- 1), st 0, st 1]"
    by (simp add: st_def add.commute [of 1])
  have e: "(close, ys, ts) = ([df (- 1), df 0, df 1] ! mn < CLOSETIME, ucast ([st (- 1), st 0, st 1] ! mn),
      [st (- 1) + word_of_int tmp, st 0 + word_of_int tmp, st 1 + word_of_int tmp] ! mn)"
    unfolding assms [symmetric] clocktime_search_def Let_def l unfolding list.map df_def [symmetric]
    unfolding mn_def [symmetric] by simp
  show thesis
    by (rule that [of "int mn - 1"]) (use e m in \<open>auto simp: st_def [symmetric] df_def [symmetric]\<close>)
qed

lemma year_stamp_diff:
  assumes "- 6000 \<le> z" "z \<le> 6000" "rec_ui = word_of_int (v + tmp)" "\<bar>year_start_secs z - v\<bar> < 2147483648"
  shows "uint (stamp_diff (year_to_ntp z + word_of_int tmp) rec_ui) = \<bar>year_start_secs z - v\<bar>"
  using stamp_diff_eq [of "year_start_secs z + tmp" "v + tmp"] assms by (simp add: year_to_ntp_eq)

text \<open>The years next to a position are the closest ones.\<close>

lemma closest_year:
  assumes "year_start_secs y \<le> v" "v < year_start_secs (y + 1)" "k \<in> {- 1, 0, 1 :: int}"
    and "\<forall>j \<in> {- 1, 0, 1}. \<bar>year_start_secs (y + k) - v\<bar> \<le> \<bar>year_start_secs (y + j) - v\<bar>"
  shows "\<bar>year_start_secs (y + k) - v\<bar> \<le> \<bar>year_start_secs w - v\<bar>" "\<bar>year_start_secs (y + k) - v\<bar> \<le> 15811200"
proof -
  have a: "\<bar>year_start_secs (y + k) - v\<bar> \<le> v - year_start_secs y" "\<bar>year_start_secs (y + k) - v\<bar> \<le> year_start_secs (y + 1) - v"
    using assms by auto
  show "\<bar>year_start_secs (y + k) - v\<bar> \<le> \<bar>year_start_secs w - v\<bar>"
  proof (cases "w \<le> y")
    case True
    from year_start_mono [OF this] a(1) assms(1) show ?thesis by linarith
  next
    case False
    with year_start_mono [of "y + 1" w] have "year_start_secs (y + 1) \<le> year_start_secs w" by simp
    with a(2) assms(2) show ?thesis by linarith
  qed
  show "\<bar>year_start_secs (y + k) - v\<bar> \<le> 15811200"
    using a year_start_step [of y] by linarith
qed

lemma year_start_spread:
  assumes "\<bar>w - y\<bar> \<le> 61"
  shows "\<bar>year_start_secs w - year_start_secs y\<bar> \<le> 1928966400"
proof (cases "w \<le> y")
  case True
  with assms have "31622400 * (y - w) \<le> 1928966400" by simp
  with True year_start_dist(2) [of w y] year_start_mono [of w y] show ?thesis by linarith
next
  case False
  with assms have "31622400 * (w - y) \<le> 1928966400" by simp
  with False year_start_dist(2) [of y w] year_start_mono [of y w] show ?thesis by linarith
qed

lemma near_year_secs:
  assumes "year_start_secs y \<le> v" "v < year_start_secs (y + 1)" "\<bar>w - y\<bar> \<le> 61"
  shows "\<bar>year_start_secs w - v\<bar> < 2147483648"
proof -
  have "\<bar>year_start_secs w - year_start_secs y\<bar> \<le> 1928966400" using assms(3) by (rule year_start_spread)
  with assms(1,2) year_start_step [of y] show ?thesis by linarith
qed

lemma clocktime_search_best:
  assumes "\<bar>now\<bar> \<le> 2 ^ 35" "clocktime_search now tmp rec_ui = (close, ys, ts)"
  shows "\<exists>z. ys = ucast (year_to_ntp z) \<and> ts = year_to_ntp z + word_of_int tmp \<and> (close \<longleftrightarrow> stamp_diff ts rec_ui < CLOSETIME) \<and>
    stamp_diff ts rec_ui \<le> 15811200 \<and>
    (\<forall>k. \<bar>k\<bar> \<le> 60 \<longrightarrow> stamp_diff ts rec_ui \<le> stamp_diff (year_to_ntp (z + k) + word_of_int tmp) rec_ui)"
proof -
  define y where "y = ntp_to_year now (rec_ui - word_of_int tmp)"
  obtain v where v: "rec_ui - word_of_int tmp = word_of_int v" "\<bar>y\<bar> < 5000" "year_start_secs y \<le> v" "v < year_start_secs (y + 1)"
    using ntp_to_year_eq [OF assms(1), of "rec_ui - word_of_int tmp"] unfolding y_def by blast
  obtain k where k: "k \<in> {- 1, 0, 1}" "ys = ucast (year_to_ntp (s32 (y + k)))" "ts = year_to_ntp (s32 (y + k)) + word_of_int tmp"
    "close \<longleftrightarrow> stamp_diff ts rec_ui < CLOSETIME"
    "\<forall>k \<in> {- 1, 0, 1}. stamp_diff ts rec_ui \<le> stamp_diff (year_to_ntp (s32 (y + k)) + word_of_int tmp) rec_ui"
    using clocktime_search_min [OF assms(2), folded y_def] by blast
  have rec_eq: "rec_ui = word_of_int (v + tmp)" using v(1) by (metis diff_add_cancel of_int_add)
  have near: "\<bar>year_start_secs w - v\<bar> < 2147483648" if "\<bar>w - y\<bar> \<le> 61" for w
    using v(3,4) that by (rule near_year_secs)
  have D: "uint (stamp_diff (year_to_ntp w + word_of_int tmp) rec_ui) = \<bar>year_start_secs w - v\<bar>" if "\<bar>w - y\<bar> \<le> 61" for w
    using that v(2) near by (intro year_stamp_diff rec_eq) auto
  have s: "s32 (y + j) = y + j" if "j \<in> {- 1, 0, 1}" for j using that v(2) by (intro s32_id) (auto simp: in_s32_def)
  have ts: "ts = year_to_ntp (y + k) + word_of_int tmp" "ys = ucast (year_to_ntp (y + k))" using k(1-3) s by simp_all
  have "\<forall>j \<in> {- 1, 0, 1}. \<bar>year_start_secs (y + k) - v\<bar> \<le> \<bar>year_start_secs (y + j) - v\<bar>"
    using k(1,5) D s unfolding ts(1) word_le_def by auto
  note C = closest_year [OF v(3,4) k(1) this]
  show ?thesis
  proof (intro exI conjI allI impI)
    show "stamp_diff ts rec_ui \<le> 15811200" using C(2) k(1) D [of "y + k"] by (auto simp: ts word_le_def)
    show "stamp_diff ts rec_ui \<le> stamp_diff (year_to_ntp (y + k + j) + word_of_int tmp) rec_ui" if "\<bar>j\<bar> \<le> 60" for j
      using C(1) [of "y + k + j"] that k(1) D [of "y + k"] D [of "y + k + j"] by (auto simp: ts word_le_def)
  qed (use ts k in auto)
qed

lemma stamp_diff_signed:
  obtains e where "rec_ui = test - word_of_int e" "\<bar>e\<bar> = uint (stamp_diff test rec_ui)"
proof -
  define d where "d = test - rec_ui"
  have r: "rec_ui = test - d" by (simp add: d_def)
  show thesis
  proof (cases "d \<ge> 0x80000000")
    case True
    then have "0 < uint d" by (simp add: word_le_def)
    then have "uint (- d) = 4294967296 - uint d" using uint32_range [of d] by (simp add: uint_word_ariths int_mod_pos_eq [of "- uint d" 4294967296 "- 1" "4294967296 - uint d"])
    moreover have "stamp_diff test rec_ui = - d" using True by (simp add: stamp_diff_def d_def not_eq_complement)
    ultimately show thesis
      using uint32_range [of d] r by (intro that [of "uint d - 4294967296"]) auto
  next
    case False
    then have "stamp_diff test rec_ui = d" by (simp add: stamp_diff_def d_def)
    then show thesis using r by (intro that [of "uint d"]) auto
  qed
qed

lemma year_start_far: "k \<noteq> 0 \<Longrightarrow> 31536000 \<le> \<bar>year_start_secs (z + k) - year_start_secs z\<bar>"
  using year_start_dist(1) [of z "z + k"] year_start_dist(1) [of "z + k" z] by (cases "0 < k") auto

lemma clocktime_cached_best:
  assumes "\<bar>z\<bar> \<le> 5000" "uint (stamp_diff (year_to_ntp z + word_of_int tmp) rec_ui) < 15724800" "\<bar>k\<bar> \<le> 60"
  shows "stamp_diff (year_to_ntp z + word_of_int tmp) rec_ui \<le> stamp_diff (year_to_ntp (z + k) + word_of_int tmp) rec_ui"
proof (cases "k = 0")
  case False
  obtain e where e: "rec_ui = year_to_ntp z + word_of_int tmp - word_of_int e"
      "\<bar>e\<bar> = uint (stamp_diff (year_to_ntp z + word_of_int tmp) rec_ui)"
    by (rule stamp_diff_signed)
  define v where "v = year_start_secs z - e"
  have rec_eq: "rec_ui = word_of_int (v + tmp)" using e(1) assms(1) by (simp add: v_def year_to_ntp_eq)
  have "\<bar>year_start_secs (z + k) - year_start_secs z\<bar> \<le> 1928966400"
    using assms(3) year_start_spread [of "z + k" z] by simp
  then have "\<bar>year_start_secs (z + k) - v\<bar> < 2147483648" using e(2) assms(2) unfolding v_def by linarith
  then have "uint (stamp_diff (year_to_ntp (z + k) + word_of_int tmp) rec_ui) = \<bar>year_start_secs (z + k) - v\<bar>"
    using assms by (intro year_stamp_diff rec_eq) auto
  moreover have "\<bar>e\<bar> \<le> \<bar>year_start_secs (z + k) - v\<bar>"
    using year_start_far [OF False, of z] e(2) assms(2) unfolding v_def by linarith
  ultimately show ?thesis using e(2) by (simp add: word_le_def)
qed simp

text \<open>
  The year of a time code.  The clock is within \<open>2^35\<close> seconds of 1970 and the cached year start is either
  unset or the start of some year.  Then the stamp returned is the time code placed in the
  year whose start is returned, it is the closest to the receive time among the years up to 60 before and after,
  at most half a leap year away, and the result says whether it is within \<^verbatim>\<open>CLOSETIME\<close>.
\<close>
theorem clocktime_best_year:
  assumes "\<bar>now\<bar> \<le> 2 ^ 35" "yearstart \<noteq> 0 \<longrightarrow> yearstart = ucast (year_to_ntp zc) \<and> \<bar>zc\<bar> \<le> 5000"
    and "tmp = s32 (sec + 60 * (mnt + 60 * (hr + tzoff + 24 * (yday - 1))))"
    and "clocktime now yday hr mnt sec tzoff rec_ui yearstart = (close, ys, ts)"
  shows "\<exists>z. ys = ucast (year_to_ntp z) \<and> ts = year_to_ntp z + word_of_int tmp \<and> (close \<longleftrightarrow> stamp_diff ts rec_ui < CLOSETIME) \<and>
    stamp_diff ts rec_ui \<le> 183 * 86400 \<and>
    (\<forall>k. \<bar>k\<bar> \<le> 60 \<longrightarrow> stamp_diff ts rec_ui \<le> stamp_diff (year_to_ntp (z + k) + word_of_int tmp) rec_ui)"
proof (cases "yearstart \<noteq> 0 \<and> stamp_diff (ucast yearstart + word_of_int tmp) rec_ui < NEARTIME")
  case False
  with assms(3,4) have "clocktime_search now tmp rec_ui = (close, ys, ts)" by (auto simp: clocktime_def Let_def)
  from clocktime_search_best [OF assms(1) this] show ?thesis by simp
next
  case True
  with assms(2) have z: "yearstart = ucast (year_to_ntp zc)" "\<bar>zc\<bar> \<le> 5000" by auto
  have u: "ucast yearstart = year_to_ntp zc" using z(1) by (intro bit_word_eqI) (simp add: bit_simps)
  have e: "ts = year_to_ntp zc + word_of_int tmp" "ys = yearstart" "close \<longleftrightarrow> stamp_diff ts rec_ui < CLOSETIME"
    using True assms(3,4) u by (auto simp: clocktime_def Let_def)
  have n: "uint (stamp_diff ts rec_ui) < 15724800" using True by (simp add: e(1) u NEARTIME_def word_less_def)
  then have "stamp_diff ts rec_ui \<le> 183 * 86400" by (simp add: word_le_def)
  with e z clocktime_cached_best [OF z(2) n [unfolded e(1)]] show ?thesis by auto
qed

theorem clocktime_best_year_witness:
  "case clocktime 1400000000 134 12 0 0 0 3609057600 0 of (close, ys, ts) \<Rightarrow> stamp_diff ts 3609057600 \<le> 183 * 86400"
  using clocktime_best_year [where now = 1400000000 and yearstart = 0 and yday = 134 and hr = 12 and mnt = 0 and sec = 0
      and tzoff = 0 and rec_ui = 3609057600 and zc = 0, OF _ _ refl]
  by (cases "clocktime 1400000000 134 12 0 0 0 3609057600 0") auto

end
