(* ===== verification/Timespec_Ops.thy ===== *)
theory Timespec_Ops
  imports Calendar_Core
begin

text \<open>
  Calculations on \<^verbatim>\<open>struct timespec\<close>, from \<^verbatim>\<open>include/timespecops.h\<close>: normalisation of the
  nanoseconds, addition, subtraction, negation, absolute value, comparison, and the conversions to and
  from the \<^typ>\<open>l_fp\<close> format, relative and absolute.  Both fields are C \<^verbatim>\<open>long\<close> values of 64 bits.
  The string conversion \<^verbatim>\<open>tspectoa\<close> is left out.
\<close>

record timespec =
  tv_sec :: int
  tv_nsec :: int

definition NANOSECONDS :: int where "NANOSECONDS = 1000000000"

definition timespec_isnormal :: "timespec \<Rightarrow> bool" where
  "timespec_isnormal x \<longleftrightarrow> tv_nsec x \<ge> 0 \<and> tv_nsec x < NANOSECONDS"

definition timespec_isdenormal :: "timespec \<Rightarrow> bool" where
  "timespec_isdenormal x \<longleftrightarrow> \<not> timespec_isnormal x"

definition FTOTVN :: "u_int32 \<Rightarrow> int" where
  "FTOTVN tsf = s32 (uint (drop_bit 32 (ucast tsf * 1000000000 + 0x80000000 :: u_int64)))"

definition TVNTOF :: "int \<Rightarrow> u_int32" where
  "TVNTOF tvu = ucast ((push_bit 32 (word_of_int tvu) + 500000000) div 1000000000 :: u_int64)"

text \<open>The two normalisation loops, as the body of the \<^verbatim>\<open>do ... while\<close> and its condition.\<close>

function normalize_tspec_up :: "timespec \<Rightarrow> timespec" where
  "normalize_tspec_up x =
     (let x = x\<lparr>tv_nsec := tv_nsec x + NANOSECONDS, tv_sec := s64 (tv_sec x - 1)\<rparr>
      in if tv_nsec x < 0 then normalize_tspec_up x else x)"
  by auto
termination
  by (relation "measure (\<lambda>x. nat (- tv_nsec x))") (auto simp: NANOSECONDS_def)

function normalize_tspec_down :: "timespec \<Rightarrow> timespec" where
  "normalize_tspec_down x =
     (let x = x\<lparr>tv_nsec := tv_nsec x - NANOSECONDS, tv_sec := s64 (tv_sec x + 1)\<rparr>
      in if tv_nsec x \<ge> NANOSECONDS then normalize_tspec_down x else x)"
  by auto
termination
  by (relation "measure (\<lambda>x. nat (tv_nsec x))") (auto simp: NANOSECONDS_def)

declare normalize_tspec_up.simps [simp del] normalize_tspec_down.simps [simp del]

definition normalize_tspec :: "timespec \<Rightarrow> timespec" where
  "normalize_tspec x =
     (let x = (if tv_nsec x < - 3 * NANOSECONDS \<or> tv_nsec x > 3 * NANOSECONDS
               then let z = tv_nsec x sdiv NANOSECONDS
                    in x\<lparr>tv_nsec := tv_nsec x - z * NANOSECONDS, tv_sec := s64 (tv_sec x + z)\<rparr>
               else x)
      in if tv_nsec x < 0 then normalize_tspec_up x
         else if tv_nsec x \<ge> NANOSECONDS then normalize_tspec_down x
         else x)"

definition add_tspec :: "timespec \<Rightarrow> timespec \<Rightarrow> timespec" where
  "add_tspec a b =
     normalize_tspec (a\<lparr>tv_sec := s64 (tv_sec a + tv_sec b), tv_nsec := s64 (tv_nsec a + tv_nsec b)\<rparr>)"

definition add_tspec_ns :: "timespec \<Rightarrow> int \<Rightarrow> timespec" where
  "add_tspec_ns a b = normalize_tspec (a\<lparr>tv_nsec := s64 (tv_nsec a + b)\<rparr>)"

definition sub_tspec :: "timespec \<Rightarrow> timespec \<Rightarrow> timespec" where
  "sub_tspec a b =
     normalize_tspec (a\<lparr>tv_sec := s64 (tv_sec a - tv_sec b), tv_nsec := s64 (tv_nsec a - tv_nsec b)\<rparr>)"

definition sub_tspec_ns :: "timespec \<Rightarrow> int \<Rightarrow> timespec" where
  "sub_tspec_ns a b = normalize_tspec (a\<lparr>tv_nsec := s64 (tv_nsec a - b)\<rparr>)"

definition neg_tspec :: "timespec \<Rightarrow> timespec" where
  "neg_tspec a = normalize_tspec \<lparr>tv_sec = s64 (- tv_sec a), tv_nsec = s64 (- tv_nsec a)\<rparr>"

definition abs_tspec :: "timespec \<Rightarrow> timespec" where
  "abs_tspec a =
     (let c = normalize_tspec a
      in if tv_sec c < 0 then
           if tv_nsec c \<noteq> 0 then c\<lparr>tv_sec := s64 (- tv_sec c - 1), tv_nsec := NANOSECONDS - tv_nsec c\<rparr>
           else c\<lparr>tv_sec := s64 (- tv_sec c)\<rparr>
         else c)"

definition cmp_tspec :: "timespec \<Rightarrow> timespec \<Rightarrow> int" where
  "cmp_tspec a b =
     (let r = of_bool (tv_sec a > tv_sec b) - of_bool (tv_sec a < tv_sec b)
      in if r = 0 then of_bool (tv_nsec a > tv_nsec b) - of_bool (tv_nsec a < tv_nsec b) else r)"

definition cmp_tspec_denorm :: "timespec \<Rightarrow> timespec \<Rightarrow> int" where
  "cmp_tspec_denorm a b = cmp_tspec (normalize_tspec a) (normalize_tspec b)"

definition test_tspec :: "timespec \<Rightarrow> int" where
  "test_tspec a =
     (let r = of_bool (tv_sec a > 0) - of_bool (tv_sec a < 0)
      in if r = 0 then of_bool (tv_nsec a > 0) else r)"

definition test_tspec_denorm :: "timespec \<Rightarrow> int" where
  "test_tspec_denorm a = test_tspec (normalize_tspec a)"

definition tspec_intv_to_lfp :: "timespec \<Rightarrow> l_fp" where
  "tspec_intv_to_lfp x =
     (let v = normalize_tspec x in \<lparr>l_ui = word_of_int (tv_sec v), l_uf = TVNTOF (tv_nsec v)\<rparr>)"

definition tspec_stamp_to_lfp :: "timespec \<Rightarrow> l_fp" where
  "tspec_stamp_to_lfp x = (let y = tspec_intv_to_lfp x in y\<lparr>l_ui := l_ui y + JAN_1970\<rparr>)"

definition lfp_intv_to_tspec :: "l_fp \<Rightarrow> timespec" where
  "lfp_intv_to_tspec x =
     (let neg = L_ISNEG x;
          absx = (if neg then L_NEG x else x);
          out = \<lparr>tv_sec = l_i absx, tv_nsec = FTOTVN (l_uf absx)\<rparr>
      in if neg then normalize_tspec \<lparr>tv_sec = - tv_sec out, tv_nsec = - tv_nsec out\<rparr> else out)"

definition lfp_uintv_to_tspec :: "l_fp \<Rightarrow> timespec" where
  "lfp_uintv_to_tspec x = \<lparr>tv_sec = uint (l_ui x), tv_nsec = FTOTVN (l_uf x)\<rparr>"

definition lfp_stamp_to_tspec :: "time_t \<Rightarrow> l_fp \<Rightarrow> time_t option \<Rightarrow> timespec" where
  "lfp_stamp_to_tspec now x p = \<lparr>tv_sec = q_s (ntpcal_ntp_to_time now (l_ui x) p), tv_nsec = FTOTVN (l_uf x)\<rparr>"

section \<open>Normalisation\<close>

interpretation tspec: fraction_loops NANOSECONDS "\<lambda>s f. \<lparr>tv_sec = s, tv_nsec = f\<rparr>" tv_sec tv_nsec
  normalize_tspec_up normalize_tspec_down normalize_tspec
proof unfold_locales
  show "normalize_tspec_up \<lparr>tv_sec = s, tv_nsec = f\<rparr> =
      (if f + NANOSECONDS < 0 then normalize_tspec_up \<lparr>tv_sec = s64 (s - 1), tv_nsec = f + NANOSECONDS\<rparr>
       else \<lparr>tv_sec = s64 (s - 1), tv_nsec = f + NANOSECONDS\<rparr>)" for s f
    by (subst normalize_tspec_up.simps) (simp add: Let_def)
  show "normalize_tspec_down \<lparr>tv_sec = s, tv_nsec = f\<rparr> =
      (if NANOSECONDS \<le> f - NANOSECONDS then normalize_tspec_down \<lparr>tv_sec = s64 (s + 1), tv_nsec = f - NANOSECONDS\<rparr>
       else \<lparr>tv_sec = s64 (s + 1), tv_nsec = f - NANOSECONDS\<rparr>)" for s f
    by (subst normalize_tspec_down.simps) (simp add: Let_def)
  show "normalize_tspec \<lparr>tv_sec = s, tv_nsec = f\<rparr> =
      (let x = (if f < - 3 * NANOSECONDS \<or> 3 * NANOSECONDS < f
                then let z = f sdiv NANOSECONDS in \<lparr>tv_sec = s64 (s + z), tv_nsec = f - z * NANOSECONDS\<rparr>
                else \<lparr>tv_sec = s, tv_nsec = f\<rparr>)
       in if tv_nsec x < 0 then normalize_tspec_up x
          else if NANOSECONDS \<le> tv_nsec x then normalize_tspec_down x else x)" for s f
    unfolding normalize_tspec_def timespec.select_convs timespec.update_convs by (rule refl)
qed (simp_all add: NANOSECONDS_def)

definition tspec_val :: "timespec \<Rightarrow> int" where
  "tspec_val x = tv_sec x * NANOSECONDS + tv_nsec x"

text \<open>A value whose seconds, fraction and normalised seconds are 64-bit numbers.\<close>

definition tspec_fits :: "timespec \<Rightarrow> bool" where
  "tspec_fits x \<longleftrightarrow> in_s64 (tv_sec x) \<and> in_s64 (tv_nsec x) \<and> in_s64 (tv_sec x + tv_nsec x div NANOSECONDS)"

lemma normalize_tspec_val:
  assumes "tspec_fits x"
  shows "tspec_val (normalize_tspec x) = tspec_val x" "timespec_isnormal (normalize_tspec x)" "in_s64 (tv_sec (normalize_tspec x))"
  using assms tspec.norm_value [of x] by (simp_all add: tspec_fits_def tspec_val_def timespec_isnormal_def)

lemma cmp_tspec_val:
  assumes "timespec_isnormal a" "timespec_isnormal b"
  shows "cmp_tspec a b = sgn (tspec_val a - tspec_val b)"
proof -
  have "tspec_val a < tspec_val b \<longleftrightarrow> tv_sec a < tv_sec b \<or> tv_sec a = tv_sec b \<and> tv_nsec a < tv_nsec b"
    "tspec_val b < tspec_val a \<longleftrightarrow> tv_sec b < tv_sec a \<or> tv_sec b = tv_sec a \<and> tv_nsec b < tv_nsec a"
    using assms tspec.normal_less [of a b] tspec.normal_less [of b a]
    unfolding tspec_val_def timespec_isnormal_def by blast+
  then show ?thesis
    by (cases "tspec_val a" "tspec_val b" rule: linorder_cases) (auto simp: cmp_tspec_def Let_def)
qed

lemma test_tspec_val: "timespec_isnormal a \<Longrightarrow> test_tspec a = sgn (tspec_val a)"
proof -
  assume n: "timespec_isnormal a"
  have z: "timespec_isnormal \<lparr>tv_sec = 0, tv_nsec = 0\<rparr>" by (simp add: timespec_isnormal_def NANOSECONDS_def)
  have "test_tspec a = cmp_tspec a \<lparr>tv_sec = 0, tv_nsec = 0\<rparr>"
    using n by (auto simp: test_tspec_def cmp_tspec_def timespec_isnormal_def Let_def)
  with cmp_tspec_val [OF n z] show ?thesis by (simp add: tspec_val_def)
qed

lemma abs_tspec_val:
  assumes "tspec_fits a" "tv_sec (normalize_tspec a) \<noteq> - 9223372036854775808"
  shows "tspec_val (abs_tspec a) = \<bar>tspec_val a\<bar> \<and> timespec_isnormal (abs_tspec a)"
proof -
  define c where "c = normalize_tspec a"
  have c: "tspec_val c = tspec_val a" "0 \<le> tv_nsec c" "tv_nsec c < NANOSECONDS" "in_s64 (tv_sec c)"
    using normalize_tspec_val [OF assms(1)] by (simp_all add: c_def timespec_isnormal_def)
  show ?thesis
  proof (cases "tv_sec c < 0")
    case True
    with c have "tv_sec c * NANOSECONDS \<le> (- 1) * NANOSECONDS" by (intro mult_right_mono) (auto simp: NANOSECONDS_def)
    with c(3) have neg: "tspec_val c < 0" by (simp add: tspec_val_def)
    have s: "s64 (- tv_sec c - 1) = - tv_sec c - 1" "s64 (- tv_sec c) = - tv_sec c"
      using True c(4) assms(2) by (simp_all add: c_def [symmetric] s64_id in_s64_def)
    have "abs_tspec a = (if tv_nsec c \<noteq> 0 then \<lparr>tv_sec = - tv_sec c - 1, tv_nsec = NANOSECONDS - tv_nsec c\<rparr>
        else \<lparr>tv_sec = - tv_sec c, tv_nsec = 0\<rparr>)"
      using True s unfolding abs_tspec_def c_def [symmetric] Let_def by (cases c) simp
    then have "tspec_val (abs_tspec a) = - tspec_val c \<and> timespec_isnormal (abs_tspec a)"
      using c(2,3) by (auto simp: tspec_val_def timespec_isnormal_def algebra_simps)
    with neg c(1) show ?thesis by simp
  next
    case False
    then have "0 \<le> tv_sec c * NANOSECONDS" by (simp add: NANOSECONDS_def)
    with c(2) have "0 \<le> tspec_val c" by (simp add: tspec_val_def)
    with False c show ?thesis unfolding abs_tspec_def c_def [symmetric] Let_def by (simp add: timespec_isnormal_def)
  qed
qed

text \<open>Without overflow each operation normalises the componentwise result.\<close>

lemma tspec_op_eqs:
  "tspec_fits \<lparr>tv_sec = tv_sec a + tv_sec b, tv_nsec = tv_nsec a + tv_nsec b\<rparr> \<Longrightarrow>
     add_tspec a b = normalize_tspec \<lparr>tv_sec = tv_sec a + tv_sec b, tv_nsec = tv_nsec a + tv_nsec b\<rparr>"
  "tspec_fits \<lparr>tv_sec = tv_sec a - tv_sec b, tv_nsec = tv_nsec a - tv_nsec b\<rparr> \<Longrightarrow>
     sub_tspec a b = normalize_tspec \<lparr>tv_sec = tv_sec a - tv_sec b, tv_nsec = tv_nsec a - tv_nsec b\<rparr>"
  "tspec_fits (a\<lparr>tv_nsec := tv_nsec a + n\<rparr>) \<Longrightarrow> add_tspec_ns a n = normalize_tspec (a\<lparr>tv_nsec := tv_nsec a + n\<rparr>)"
  "tspec_fits (a\<lparr>tv_nsec := tv_nsec a - n\<rparr>) \<Longrightarrow> sub_tspec_ns a n = normalize_tspec (a\<lparr>tv_nsec := tv_nsec a - n\<rparr>)"
  "tspec_fits \<lparr>tv_sec = - tv_sec a, tv_nsec = - tv_nsec a\<rparr> \<Longrightarrow>
     neg_tspec a = normalize_tspec \<lparr>tv_sec = - tv_sec a, tv_nsec = - tv_nsec a\<rparr>"
  by (cases a; simp add: tspec_fits_def s64_id add_tspec_def sub_tspec_def add_tspec_ns_def sub_tspec_ns_def neg_tspec_def)+

text \<open>
  \<^verbatim>\<open>struct timespec\<close> arithmetic.  Every operation, on normalised and denormalised arguments alike, gives a
  normalised result whose value in nanoseconds is that of integer arithmetic, as long as the
  64-bit fields hold it, and the comparisons return the sign of the difference: 1 when the
  first argument is the later one.
\<close>
theorem tspec_arith_refines:
  assumes "tspec_fits a" "tspec_fits b"
  shows "(tspec_fits \<lparr>tv_sec = tv_sec a + tv_sec b, tv_nsec = tv_nsec a + tv_nsec b\<rparr> \<longrightarrow>
      tspec_val (add_tspec a b) = tspec_val a + tspec_val b \<and> timespec_isnormal (add_tspec a b)) \<and>
    (tspec_fits \<lparr>tv_sec = tv_sec a - tv_sec b, tv_nsec = tv_nsec a - tv_nsec b\<rparr> \<longrightarrow>
      tspec_val (sub_tspec a b) = tspec_val a - tspec_val b \<and> timespec_isnormal (sub_tspec a b)) \<and>
    (tspec_fits (a\<lparr>tv_nsec := tv_nsec a + n\<rparr>) \<longrightarrow>
      tspec_val (add_tspec_ns a n) = tspec_val a + n \<and> timespec_isnormal (add_tspec_ns a n)) \<and>
    (tspec_fits (a\<lparr>tv_nsec := tv_nsec a - n\<rparr>) \<longrightarrow>
      tspec_val (sub_tspec_ns a n) = tspec_val a - n \<and> timespec_isnormal (sub_tspec_ns a n)) \<and>
    (tspec_fits \<lparr>tv_sec = - tv_sec a, tv_nsec = - tv_nsec a\<rparr> \<longrightarrow>
      tspec_val (neg_tspec a) = - tspec_val a \<and> timespec_isnormal (neg_tspec a)) \<and>
    (tv_sec (normalize_tspec a) \<noteq> - (2 ^ 63) \<longrightarrow>
      tspec_val (abs_tspec a) = \<bar>tspec_val a\<bar> \<and> timespec_isnormal (abs_tspec a)) \<and>
    cmp_tspec_denorm a b = sgn (tspec_val a - tspec_val b) \<and> test_tspec_denorm a = sgn (tspec_val a)"
proof -
  have V: "tspec_val (normalize_tspec x) = tspec_val x \<and> timespec_isnormal (normalize_tspec x)" if "tspec_fits x" for x
    using normalize_tspec_val [OF that] by simp
  have D: "cmp_tspec_denorm a b = sgn (tspec_val a - tspec_val b)" "test_tspec_denorm a = sgn (tspec_val a)"
    using V [OF assms(1)] V [OF assms(2)] by (simp_all add: cmp_tspec_denorm_def test_tspec_denorm_def cmp_tspec_val test_tspec_val)
  have M: "tspec_val (abs_tspec a) = \<bar>tspec_val a\<bar> \<and> timespec_isnormal (abs_tspec a)" if "tv_sec (normalize_tspec a) \<noteq> - (2 ^ 63)"
    using abs_tspec_val [OF assms(1)] that by simp
  show ?thesis
    by (intro conjI impI D M) (simp_all add: tspec_op_eqs V, simp_all add: tspec_val_def algebra_simps)
qed

theorem tspec_arith_refines_witness:
  "tspec_val (add_tspec \<lparr>tv_sec = 1, tv_nsec = 999999999\<rparr> \<lparr>tv_sec = - 3, tv_nsec = 2\<rparr>) = - 999999999"
  using tspec_arith_refines [of "\<lparr>tv_sec = 1, tv_nsec = 999999999\<rparr>" "\<lparr>tv_sec = - 3, tv_nsec = 2\<rparr>"]
  by (simp add: tspec_fits_def tspec_val_def NANOSECONDS_def in_s64_def)

section \<open>Conversion to and from binary fractions\<close>

lemma FTOTVN_eq: "FTOTVN f = (uint f * 1000000000 + 2147483648) div 4294967296"
proof -
  have f: "0 \<le> uint f" "uint f < 4294967296" using uint32_range [of f] by simp_all
  have u: "uint (ucast f :: u_int64) = uint f" using f by (simp add: unsigned_ucast_eq take_bit_int_eq_self)
  have "uint (ucast f * 1000000000 + 0x80000000 :: u_int64) = uint f * 1000000000 + 2147483648"
    using f by (simp add: uint_word_ariths u)
  then have "uint (drop_bit 32 (ucast f * 1000000000 + 0x80000000 :: u_int64)) = (uint f * 1000000000 + 2147483648) div 4294967296"
    by (simp add: drop_bit_eq_div uint_div)
  moreover have "in_s32 ((uint f * 1000000000 + 2147483648) div 4294967296)"
  proof -
    have "0 \<le> (uint f * 1000000000 + 2147483648) div 4294967296" "(uint f * 1000000000 + 2147483648) div 4294967296 < 1000000001"
      using f by linarith+
    then show ?thesis by (simp add: in_s32_def)
  qed
  ultimately show ?thesis by (simp add: FTOTVN_def s32_id)
qed

lemma TVNTOF_eq:
  assumes "0 \<le> n" "n < 1000000000"
  shows "uint (TVNTOF n) = (n * 4294967296 + 500000000) div 1000000000"
proof -
  have "uint (word_of_int n :: u_int64) = n" using assms by (simp add: uint_word_of_int_eq take_bit_int_eq_self)
  then have "uint (push_bit 32 (word_of_int n) + 500000000 :: u_int64) = n * 4294967296 + 500000000"
    using assms by (simp add: push_bit_eq_mult uint_word_ariths)
  then have "uint ((push_bit 32 (word_of_int n) + 500000000) div 1000000000 :: u_int64) = (n * 4294967296 + 500000000) div 1000000000"
    by (simp add: uint_div)
  moreover have "0 \<le> (n * 4294967296 + 500000000) div 1000000000" "(n * 4294967296 + 500000000) div 1000000000 < 4294967296"
    using binary_fraction_roundtrip(3,4) [of n 500000000] assms by simp_all
  ultimately show ?thesis by (simp add: TVNTOF_def unsigned_ucast_eq take_bit_int_eq_self)
qed

lemma FTOTVN_range: "0 \<le> FTOTVN f" "FTOTVN f \<le> 1000000000"
  using uint32_range [of f] unfolding FTOTVN_eq by linarith+

lemma uint_minus_u32: "w \<noteq> 0 \<Longrightarrow> uint (- w :: u_int32) = 4294967296 - uint w"
proof -
  assume "w \<noteq> 0"
  then have "0 < uint w" using uint32_range [of w] by (simp add: order_less_le unsigned_eq_0_iff)
  then show ?thesis
    using uint32_range [of w] int_mod_pos_eq [of "- uint w" 4294967296 "- 1" "4294967296 - uint w"] by (simp add: uint_word_ariths)
qed

lemma FTOTVN_TVNTOF:
  assumes "0 \<le> n" "n < 1000000000"
  shows "FTOTVN (TVNTOF n) = n" "TVNTOF n = 0 \<longleftrightarrow> n = 0" "n \<noteq> 0 \<Longrightarrow> FTOTVN (- TVNTOF n) = 1000000000 - n"
proof -
  have two: "2 * 500000000 = (1000000000 :: int)" and lim: "500000000 < (1073741824 :: int)" by simp_all
  note B = binary_fraction_roundtrip [of n 500000000, unfolded two, OF assms zero_less_numeral lim]
  show "FTOTVN (TVNTOF n) = n" unfolding FTOTVN_eq TVNTOF_eq [OF assms] by (rule B(1))
  show z: "TVNTOF n = 0 \<longleftrightarrow> n = 0"
    using TVNTOF_eq [OF assms] B(5) unsigned_eq_0_iff [of "TVNTOF n", where ?'a = int] by metis
  show "FTOTVN (- TVNTOF n) = 1000000000 - n" if "n \<noteq> 0"
  proof -
    have "TVNTOF n \<noteq> 0" using that z by simp
    then show ?thesis unfolding FTOTVN_eq uint_minus_u32 [OF \<open>TVNTOF n \<noteq> 0\<close>] TVNTOF_eq [OF assms] by (intro B(2))
  qed
qed

lemma L_NEG_fields: "L_NEG x = \<lparr>l_ui = (if l_uf x = 0 then - l_ui x else - l_ui x - 1), l_uf = - l_uf x\<rparr>"
  by (cases x) (simp add: L_NEG_def M_NEG_def lfp_of_def not_eq_complement)

lemma L_ISNEG_sint: "L_ISNEG x \<longleftrightarrow> sint (l_ui x) < 0"
  by (simp add: L_ISNEG_def M_ISNEG_iff)

lemma sint_s32_word: "- 2147483648 \<le> y \<Longrightarrow> y < 2147483648 \<Longrightarrow> sint (word_of_int y :: u_int32) = y"
  by (simp add: s32_id in_s32_def flip: s32_eq_sint)

text \<open>
  The sign handling that the conversions of intervals share: a negative \<^typ>\<open>l_fp\<close> is negated,
  its fraction converted, and the pair negated and normalised again.
\<close>

locale lfp_fraction = fraction_time +
  fixes of_frac :: "u_int32 \<Rightarrow> int" and to_frac :: "int \<Rightarrow> u_int32"
  assumes frac_inverse: "0 \<le> n \<Longrightarrow> n < base \<Longrightarrow> of_frac (to_frac n) = n"
    and to_frac_0: "0 \<le> n \<Longrightarrow> n < base \<Longrightarrow> to_frac n = 0 \<longleftrightarrow> n = 0"
    and frac_complement: "0 \<le> n \<Longrightarrow> n < base \<Longrightarrow> n \<noteq> 0 \<Longrightarrow> of_frac (- to_frac n) = base - n"
    and base_s32: "base < 4294967296"
begin

lemma negative_interval:
  assumes "0 \<le> n" "n < base" "- 2147483648 < s" "s < 0"
  defines "a \<equiv> L_NEG \<lparr>l_ui = word_of_int s, l_uf = to_frac n\<rparr>"
  shows "norm (mk (- l_i a) (- of_frac (l_uf a))) = mk s n"
proof (cases "n = 0")
  case True
  then have t: "to_frac n = 0" using assms(1,2) to_frac_0 by simp
  have "l_i a = - s" using assms(3,4) t sint_s32_word [of "- s"] by (simp add: a_def L_NEG_fields l_i_def)
  moreover have "of_frac (l_uf a) = 0" using t frac_inverse [of 0] to_frac_0 [of 0] base_pos by (simp add: a_def L_NEG_fields)
  ultimately show ?thesis
    using True assms(3,4) base_pos by (simp add: norm_spec sec_mk frac_mk in_s64_def)
next
  case False
  then have t: "to_frac n \<noteq> 0" using assms(1,2) to_frac_0 by simp
  have "l_i a = - s - 1" using assms(3,4) t sint_s32_word [of "- s - 1"] by (simp add: a_def L_NEG_fields l_i_def)
  moreover have "of_frac (l_uf a) = base - n" using False assms(1,2) frac_complement by (simp add: a_def L_NEG_fields)
  moreover have "(n - base) div base = - 1" "(n - base) mod base = n"
    using assms(1,2) False base_pos int_div_pos_eq [of "n - base" base "- 1" n] int_mod_pos_eq [of "n - base" base "- 1" n] by auto
  ultimately show ?thesis
    using assms base_pos base_s32 by (simp add: norm_spec sec_mk frac_mk in_s64_def)
qed

end

interpretation tspec_lfp: lfp_fraction NANOSECONDS "\<lambda>s f. \<lparr>tv_sec = s, tv_nsec = f\<rparr>" tv_sec tv_nsec
  normalize_tspec FTOTVN TVNTOF
  by unfold_locales (simp_all add: NANOSECONDS_def FTOTVN_TVNTOF)

lemma tspec_intv_to_lfp_normal:
  assumes "timespec_isnormal x" "in_s64 (tv_sec x)"
  shows "tspec_intv_to_lfp x = \<lparr>l_ui = word_of_int (tv_sec x), l_uf = TVNTOF (tv_nsec x)\<rparr>"
proof -
  have "normalize_tspec x = x"
    using assms by (intro tspec.norm_fixes) (simp_all add: timespec_isnormal_def NANOSECONDS_def)
  then show ?thesis by (simp add: tspec_intv_to_lfp_def)
qed

lemma tspec_intv_roundtrip:
  assumes "timespec_isnormal x" "- 2147483648 < tv_sec x" "tv_sec x < 2147483648"
  shows "lfp_intv_to_tspec (tspec_intv_to_lfp x) = x"
proof -
  obtain s n where x: "x = \<lparr>tv_sec = s, tv_nsec = n\<rparr>" by (cases x)
  have n: "0 \<le> n" "n < NANOSECONDS" and s: "- 2147483648 < s" "s < 2147483648" using assms by (simp_all add: x timespec_isnormal_def)
  have l: "tspec_intv_to_lfp x = \<lparr>l_ui = word_of_int s, l_uf = TVNTOF n\<rparr>"
    using s assms(1) by (simp add: tspec_intv_to_lfp_normal x in_s64_def)
  show ?thesis
  proof (cases "s < 0")
    case False
    then show ?thesis
      using n s unfolding l by (simp add: x lfp_intv_to_tspec_def L_ISNEG_sint l_i_def sint_s32_word FTOTVN_TVNTOF NANOSECONDS_def)
  next
    case True
    with tspec_lfp.negative_interval [OF n s(1) True] s show ?thesis
      unfolding l by (simp add: x lfp_intv_to_tspec_def L_ISNEG_sint sint_s32_word)
  qed
qed

lemma tspec_stamp_roundtrip:
  assumes "timespec_isnormal x" "P = (case p of Some q \<Rightarrow> q | None \<Rightarrow> now)"
    and "in_s64 (P - 2147483648)" "in_s64 (P + 2147483647)" "P - 2147483648 \<le> tv_sec x" "tv_sec x < P + 2147483648"
  shows "lfp_stamp_to_tspec now (tspec_stamp_to_lfp x) p = x"
proof -
  have "in_s64 (tv_sec x)" using assms(3-6) by (simp add: in_s64_def)
  then show ?thesis
    using assms(1) ntp_to_time_stamp [OF assms(2-6)]
    by (cases x) (simp add: lfp_stamp_to_tspec_def tspec_stamp_to_lfp_def tspec_intv_to_lfp_normal FTOTVN_TVNTOF
        timespec_isnormal_def NANOSECONDS_def)
qed

text \<open>
  Intervals and stamps in the \<^typ>\<open>l_fp\<close> format.  A normalised interval with 32-bit seconds and a normalised stamp
  within half an era of the pivot survive the conversion to a 32-bit binary fraction and back
  exactly, negative intervals included.
\<close>
theorem tspec_lfp_roundtrip:
  assumes "timespec_isnormal x" "- (2 ^ 31) < tv_sec x" "tv_sec x < 2 ^ 31"
    and "timespec_isnormal y" "P = (case p of Some q \<Rightarrow> q | None \<Rightarrow> now)"
    and "in_s64 (P - 2 ^ 31)" "in_s64 (P + 2 ^ 31)" "P - 2 ^ 31 \<le> tv_sec y" "tv_sec y < P + 2 ^ 31"
  shows "lfp_intv_to_tspec (tspec_intv_to_lfp x) = x \<and> lfp_stamp_to_tspec now (tspec_stamp_to_lfp y) p = y"
proof -
  have "in_s64 (P - 2147483648)" "in_s64 (P + 2147483647)" using assms(6,7) by (simp_all add: in_s64_def)
  with assms show ?thesis
    using tspec_intv_roundtrip [of x] tspec_stamp_roundtrip [where x = y and P = P and p = p and now = now] by simp
qed

theorem tspec_lfp_roundtrip_witness:
  "lfp_intv_to_tspec (tspec_intv_to_lfp \<lparr>tv_sec = - 1, tv_nsec = 1\<rparr>) = \<lparr>tv_sec = - 1, tv_nsec = 1\<rparr> \<and>
   lfp_stamp_to_tspec 0 (tspec_stamp_to_lfp \<lparr>tv_sec = 2300000000, tv_nsec = 999999999\<rparr>) (Some 2200000000)
     = \<lparr>tv_sec = 2300000000, tv_nsec = 999999999\<rparr>"
  using tspec_lfp_roundtrip [where x = "\<lparr>tv_sec = - 1, tv_nsec = 1\<rparr>" and y = "\<lparr>tv_sec = 2300000000, tv_nsec = 999999999\<rparr>"
      and P = 2200000000 and p = "Some 2200000000" and now = 0]
  by (simp add: timespec_isnormal_def NANOSECONDS_def in_s64_def)

text \<open>
  Denormal results.  The header promises normalised results, but the conversions from \<^typ>\<open>l_fp\<close> that do
  not normalise return \<open>10^9\<close> nanoseconds for exactly the two largest binary fractions: the absolute conversion, the
  unsigned one and the signed one of a non-negative interval.
\<close>
theorem lfp_to_tspec_denormal:
  assumes "\<not> L_ISNEG x"
  shows "(timespec_isdenormal (lfp_stamp_to_tspec now x p) \<longleftrightarrow> l_uf x \<ge> 0xFFFFFFFE) \<and>
    (timespec_isdenormal (lfp_uintv_to_tspec x) \<longleftrightarrow> l_uf x \<ge> 0xFFFFFFFE) \<and>
    (timespec_isdenormal (lfp_intv_to_tspec x) \<longleftrightarrow> l_uf x \<ge> 0xFFFFFFFE)"
proof -
  define f where "f = uint (l_uf x)"
  have f: "0 \<le> f" "f < 4294967296" using uint32_range [of "l_uf x"] by (simp_all add: f_def)
  have "FTOTVN (l_uf x) = (f * 1000000000 + 2147483648) div 4294967296" by (simp add: FTOTVN_eq f_def)
  then have "0 \<le> FTOTVN (l_uf x)" "FTOTVN (l_uf x) \<ge> 1000000000 \<longleftrightarrow> f \<ge> 4294967294" using f by linarith+
  then show ?thesis
    using assms by (simp add: timespec_isdenormal_def timespec_isnormal_def NANOSECONDS_def lfp_stamp_to_tspec_def
        lfp_uintv_to_tspec_def lfp_intv_to_tspec_def word_le_def flip: f_def) auto
qed

theorem lfp_to_tspec_denormal_witness:
  "timespec_isdenormal (lfp_uintv_to_tspec \<lparr>l_ui = 1, l_uf = 0xFFFFFFFE\<rparr>) \<and>
   \<not> timespec_isdenormal (lfp_uintv_to_tspec \<lparr>l_ui = 1, l_uf = 0xFFFFFFFD\<rparr>)"
  using lfp_to_tspec_denormal [of "\<lparr>l_ui = 1, l_uf = 0xFFFFFFFE\<rparr>"] lfp_to_tspec_denormal [of "\<lparr>l_ui = 1, l_uf = 0xFFFFFFFD\<rparr>"]
  by (simp add: L_ISNEG_sint)

end
