(* ===== verification/Timeval_Ops.thy ===== *)
theory Timeval_Ops
  imports Timespec_Ops
begin

text \<open>
  Calculations on \<^verbatim>\<open>struct timeval\<close>, from \<^verbatim>\<open>include/timevalops.h\<close>: the same operations as
  \<^verbatim>\<open>timespecops.h\<close> has, on microseconds, and the older conversion macros \<^verbatim>\<open>TVTOTS\<close>, \<^verbatim>\<open>sTVTOTS\<close> and
  \<^verbatim>\<open>TSTOTV\<close>.  The seconds field is named \<open>tval_sec\<close> to keep it apart from that of \<^verbatim>\<open>struct timespec\<close>.
  The variant for platforms without 64-bit integers, which looks the fractions up in tables, and
  the string conversion \<^verbatim>\<open>tvaltoa\<close> are left out.
\<close>

record timeval =
  tval_sec :: int
  tv_usec :: int

definition MICROSECONDS :: int where "MICROSECONDS = 1000000"

definition timeval_isnormal :: "timeval \<Rightarrow> bool" where
  "timeval_isnormal x \<longleftrightarrow> tv_usec x \<ge> 0 \<and> tv_usec x < MICROSECONDS"

definition timeval_isdenormal :: "timeval \<Rightarrow> bool" where
  "timeval_isdenormal x \<longleftrightarrow> \<not> timeval_isnormal x"

definition TSFTOTVU :: "u_int32 \<Rightarrow> int" where
  "TSFTOTVU tsf = s32 (uint (drop_bit 32 (ucast tsf * 1000000 + 0x80000000 :: u_int64)))"

definition TVUTOTSF :: "int \<Rightarrow> u_int32" where
  "TVUTOTSF tvu = ucast ((push_bit 32 (word_of_int tvu) + 500000) div 1000000 :: u_int64)"

text \<open>The two normalisation loops, as the body of the \<^verbatim>\<open>do ... while\<close> and its condition.\<close>

function normalize_tval_up :: "timeval \<Rightarrow> timeval" where
  "normalize_tval_up x =
     (let x = x\<lparr>tv_usec := tv_usec x + MICROSECONDS, tval_sec := s64 (tval_sec x - 1)\<rparr>
      in if tv_usec x < 0 then normalize_tval_up x else x)"
  by auto
termination
  by (relation "measure (\<lambda>x. nat (- tv_usec x))") (auto simp: MICROSECONDS_def)

function normalize_tval_down :: "timeval \<Rightarrow> timeval" where
  "normalize_tval_down x =
     (let x = x\<lparr>tv_usec := tv_usec x - MICROSECONDS, tval_sec := s64 (tval_sec x + 1)\<rparr>
      in if tv_usec x \<ge> MICROSECONDS then normalize_tval_down x else x)"
  by auto
termination
  by (relation "measure (\<lambda>x. nat (tv_usec x))") (auto simp: MICROSECONDS_def)

declare normalize_tval_up.simps [simp del] normalize_tval_down.simps [simp del]

definition normalize_tval :: "timeval \<Rightarrow> timeval" where
  "normalize_tval x =
     (let x = (if tv_usec x < - 3 * MICROSECONDS \<or> tv_usec x > 3 * MICROSECONDS
               then let z = tv_usec x sdiv MICROSECONDS
                    in x\<lparr>tv_usec := tv_usec x - z * MICROSECONDS, tval_sec := s64 (tval_sec x + z)\<rparr>
               else x)
      in if tv_usec x < 0 then normalize_tval_up x
         else if tv_usec x \<ge> MICROSECONDS then normalize_tval_down x
         else x)"

definition add_tval :: "timeval \<Rightarrow> timeval \<Rightarrow> timeval" where
  "add_tval a b =
     normalize_tval (a\<lparr>tval_sec := s64 (tval_sec a + tval_sec b), tv_usec := s64 (tv_usec a + tv_usec b)\<rparr>)"

definition add_tval_us :: "timeval \<Rightarrow> int \<Rightarrow> timeval" where
  "add_tval_us a b = normalize_tval (a\<lparr>tv_usec := s64 (tv_usec a + b)\<rparr>)"

definition sub_tval :: "timeval \<Rightarrow> timeval \<Rightarrow> timeval" where
  "sub_tval a b =
     normalize_tval (a\<lparr>tval_sec := s64 (tval_sec a - tval_sec b), tv_usec := s64 (tv_usec a - tv_usec b)\<rparr>)"

definition sub_tval_us :: "timeval \<Rightarrow> int \<Rightarrow> timeval" where
  "sub_tval_us a b = normalize_tval (a\<lparr>tv_usec := s64 (tv_usec a - b)\<rparr>)"

definition neg_tval :: "timeval \<Rightarrow> timeval" where
  "neg_tval a = normalize_tval \<lparr>tval_sec = s64 (- tval_sec a), tv_usec = s64 (- tv_usec a)\<rparr>"

definition abs_tval :: "timeval \<Rightarrow> timeval" where
  "abs_tval a =
     (let c = normalize_tval a
      in if tval_sec c < 0 then
           if tv_usec c \<noteq> 0 then c\<lparr>tval_sec := s64 (- tval_sec c - 1), tv_usec := MICROSECONDS - tv_usec c\<rparr>
           else c\<lparr>tval_sec := s64 (- tval_sec c)\<rparr>
         else c)"

definition cmp_tval :: "timeval \<Rightarrow> timeval \<Rightarrow> int" where
  "cmp_tval a b =
     (let r = of_bool (tval_sec a > tval_sec b) - of_bool (tval_sec a < tval_sec b)
      in if r = 0 then of_bool (tv_usec a > tv_usec b) - of_bool (tv_usec a < tv_usec b) else r)"

definition cmp_tval_denorm :: "timeval \<Rightarrow> timeval \<Rightarrow> int" where
  "cmp_tval_denorm a b = cmp_tval (normalize_tval a) (normalize_tval b)"

definition test_tval :: "timeval \<Rightarrow> int" where
  "test_tval a =
     (let r = of_bool (tval_sec a > 0) - of_bool (tval_sec a < 0)
      in if r = 0 then of_bool (tv_usec a > 0) else r)"

definition test_tval_denorm :: "timeval \<Rightarrow> int" where
  "test_tval_denorm a = test_tval (normalize_tval a)"

definition tval_intv_to_lfp :: "timeval \<Rightarrow> l_fp" where
  "tval_intv_to_lfp x =
     (let v = normalize_tval x in \<lparr>l_ui = word_of_int (tval_sec v), l_uf = TVUTOTSF (tv_usec v)\<rparr>)"

definition tval_stamp_to_lfp :: "timeval \<Rightarrow> l_fp" where
  "tval_stamp_to_lfp x = (let y = tval_intv_to_lfp x in y\<lparr>l_ui := l_ui y + JAN_1970\<rparr>)"

definition lfp_intv_to_tval :: "l_fp \<Rightarrow> timeval" where
  "lfp_intv_to_tval x =
     (let neg = L_ISNEG x;
          absx = (if neg then L_NEG x else x);
          out = \<lparr>tval_sec = l_i absx, tv_usec = TSFTOTVU (l_uf absx)\<rparr>
      in if neg then normalize_tval \<lparr>tval_sec = - tval_sec out, tv_usec = - tv_usec out\<rparr> else out)"

definition lfp_uintv_to_tval :: "l_fp \<Rightarrow> timeval" where
  "lfp_uintv_to_tval x = \<lparr>tval_sec = uint (l_ui x), tv_usec = TSFTOTVU (l_uf x)\<rparr>"

definition lfp_stamp_to_tval :: "time_t \<Rightarrow> l_fp \<Rightarrow> time_t option \<Rightarrow> timeval" where
  "lfp_stamp_to_tval now x p =
     normalize_tval \<lparr>tval_sec = q_s (ntpcal_ntp_to_time now (l_ui x) p), tv_usec = TSFTOTVU (l_uf x)\<rparr>"

definition MSUTOTSF :: "int \<Rightarrow> u_int32" where
  "MSUTOTSF msu = TVUTOTSF (msu * 1000)"

definition TVTOTS :: "timeval \<Rightarrow> l_fp" where
  "TVTOTS tv = \<lparr>l_ui = word_of_int (tval_sec tv), l_uf = TVUTOTSF (tv_usec tv)\<rparr>"

definition sTVTOTS :: "timeval \<Rightarrow> l_fp" where
  "sTVTOTS tv =
     (let isneg = tval_sec tv < 0 \<or> tv_usec tv < 0;
          ui = word_of_int (tval_sec tv);
          (usec, ui) = (if isneg then (- tv_usec tv, - ui) else (tv_usec tv, ui));
          ts = \<lparr>l_ui = ui, l_uf = TVUTOTSF usec\<rparr>
      in if isneg then L_NEG ts else ts)"

definition TSTOTV :: "l_fp \<Rightarrow> timeval" where
  "TSTOTV ts =
     (let tv = \<lparr>tval_sec = uint (l_ui ts), tv_usec = TSFTOTVU (l_uf ts)\<rparr>
      in if tv_usec tv = 1000000 then tv\<lparr>tval_sec := tval_sec tv + 1, tv_usec := 0\<rparr> else tv)"

section \<open>Normalisation\<close>

interpretation tval: fraction_loops MICROSECONDS "\<lambda>s f. \<lparr>tval_sec = s, tv_usec = f\<rparr>" tval_sec tv_usec
  normalize_tval_up normalize_tval_down normalize_tval
proof unfold_locales
  show "normalize_tval_up \<lparr>tval_sec = s, tv_usec = f\<rparr> =
      (if f + MICROSECONDS < 0 then normalize_tval_up \<lparr>tval_sec = s64 (s - 1), tv_usec = f + MICROSECONDS\<rparr>
       else \<lparr>tval_sec = s64 (s - 1), tv_usec = f + MICROSECONDS\<rparr>)" for s f
    by (subst normalize_tval_up.simps) (simp add: Let_def)
  show "normalize_tval_down \<lparr>tval_sec = s, tv_usec = f\<rparr> =
      (if MICROSECONDS \<le> f - MICROSECONDS then normalize_tval_down \<lparr>tval_sec = s64 (s + 1), tv_usec = f - MICROSECONDS\<rparr>
       else \<lparr>tval_sec = s64 (s + 1), tv_usec = f - MICROSECONDS\<rparr>)" for s f
    by (subst normalize_tval_down.simps) (simp add: Let_def)
  show "normalize_tval \<lparr>tval_sec = s, tv_usec = f\<rparr> =
      (let x = (if f < - 3 * MICROSECONDS \<or> 3 * MICROSECONDS < f
                then let z = f sdiv MICROSECONDS in \<lparr>tval_sec = s64 (s + z), tv_usec = f - z * MICROSECONDS\<rparr>
                else \<lparr>tval_sec = s, tv_usec = f\<rparr>)
       in if tv_usec x < 0 then normalize_tval_up x
          else if MICROSECONDS \<le> tv_usec x then normalize_tval_down x else x)" for s f
    unfolding normalize_tval_def timeval.select_convs timeval.update_convs by (rule refl)
qed (simp_all add: MICROSECONDS_def)

definition tval_val :: "timeval \<Rightarrow> int" where
  "tval_val x = tval_sec x * MICROSECONDS + tv_usec x"

text \<open>A value whose seconds, fraction and normalised seconds are 64-bit numbers.\<close>

definition tval_fits :: "timeval \<Rightarrow> bool" where
  "tval_fits x \<longleftrightarrow> in_s64 (tval_sec x) \<and> in_s64 (tv_usec x) \<and> in_s64 (tval_sec x + tv_usec x div MICROSECONDS)"

lemma normalize_tval_val:
  assumes "tval_fits x"
  shows "tval_val (normalize_tval x) = tval_val x" "timeval_isnormal (normalize_tval x)" "in_s64 (tval_sec (normalize_tval x))"
  using assms tval.norm_value [of x] by (simp_all add: tval_fits_def tval_val_def timeval_isnormal_def)

lemma cmp_tval_val:
  assumes "timeval_isnormal a" "timeval_isnormal b"
  shows "cmp_tval a b = sgn (tval_val a - tval_val b)"
proof -
  have "tval_val a < tval_val b \<longleftrightarrow> tval_sec a < tval_sec b \<or> tval_sec a = tval_sec b \<and> tv_usec a < tv_usec b"
    "tval_val b < tval_val a \<longleftrightarrow> tval_sec b < tval_sec a \<or> tval_sec b = tval_sec a \<and> tv_usec b < tv_usec a"
    using assms tval.normal_less [of a b] tval.normal_less [of b a]
    unfolding tval_val_def timeval_isnormal_def by blast+
  then show ?thesis
    by (cases "tval_val a" "tval_val b" rule: linorder_cases) (auto simp: cmp_tval_def Let_def)
qed

lemma test_tval_val: "timeval_isnormal a \<Longrightarrow> test_tval a = sgn (tval_val a)"
proof -
  assume n: "timeval_isnormal a"
  have z: "timeval_isnormal \<lparr>tval_sec = 0, tv_usec = 0\<rparr>" by (simp add: timeval_isnormal_def MICROSECONDS_def)
  have "test_tval a = cmp_tval a \<lparr>tval_sec = 0, tv_usec = 0\<rparr>"
    using n by (auto simp: test_tval_def cmp_tval_def timeval_isnormal_def Let_def)
  with cmp_tval_val [OF n z] show ?thesis by (simp add: tval_val_def)
qed

lemma abs_tval_val:
  assumes "tval_fits a" "tval_sec (normalize_tval a) \<noteq> - 9223372036854775808"
  shows "tval_val (abs_tval a) = \<bar>tval_val a\<bar> \<and> timeval_isnormal (abs_tval a)"
proof -
  define c where "c = normalize_tval a"
  have c: "tval_val c = tval_val a" "0 \<le> tv_usec c" "tv_usec c < MICROSECONDS" "in_s64 (tval_sec c)"
    using normalize_tval_val [OF assms(1)] by (simp_all add: c_def timeval_isnormal_def)
  show ?thesis
  proof (cases "tval_sec c < 0")
    case True
    with c have "tval_sec c * MICROSECONDS \<le> (- 1) * MICROSECONDS" by (intro mult_right_mono) (auto simp: MICROSECONDS_def)
    with c(3) have neg: "tval_val c < 0" by (simp add: tval_val_def)
    have s: "s64 (- tval_sec c - 1) = - tval_sec c - 1" "s64 (- tval_sec c) = - tval_sec c"
      using True c(4) assms(2) by (simp_all add: c_def [symmetric] s64_id in_s64_def)
    have "abs_tval a = (if tv_usec c \<noteq> 0 then \<lparr>tval_sec = - tval_sec c - 1, tv_usec = MICROSECONDS - tv_usec c\<rparr>
        else \<lparr>tval_sec = - tval_sec c, tv_usec = 0\<rparr>)"
      using True s unfolding abs_tval_def c_def [symmetric] Let_def by (cases c) simp
    then have "tval_val (abs_tval a) = - tval_val c \<and> timeval_isnormal (abs_tval a)"
      using c(2,3) by (auto simp: tval_val_def timeval_isnormal_def algebra_simps)
    with neg c(1) show ?thesis by simp
  next
    case False
    then have "0 \<le> tval_sec c * MICROSECONDS" by (simp add: MICROSECONDS_def)
    with c(2) have "0 \<le> tval_val c" by (simp add: tval_val_def)
    with False c show ?thesis unfolding abs_tval_def c_def [symmetric] Let_def by (simp add: timeval_isnormal_def)
  qed
qed

text \<open>Without overflow each operation normalises the componentwise result.\<close>

lemma tval_op_eqs:
  "tval_fits \<lparr>tval_sec = tval_sec a + tval_sec b, tv_usec = tv_usec a + tv_usec b\<rparr> \<Longrightarrow>
     add_tval a b = normalize_tval \<lparr>tval_sec = tval_sec a + tval_sec b, tv_usec = tv_usec a + tv_usec b\<rparr>"
  "tval_fits \<lparr>tval_sec = tval_sec a - tval_sec b, tv_usec = tv_usec a - tv_usec b\<rparr> \<Longrightarrow>
     sub_tval a b = normalize_tval \<lparr>tval_sec = tval_sec a - tval_sec b, tv_usec = tv_usec a - tv_usec b\<rparr>"
  "tval_fits (a\<lparr>tv_usec := tv_usec a + n\<rparr>) \<Longrightarrow> add_tval_us a n = normalize_tval (a\<lparr>tv_usec := tv_usec a + n\<rparr>)"
  "tval_fits (a\<lparr>tv_usec := tv_usec a - n\<rparr>) \<Longrightarrow> sub_tval_us a n = normalize_tval (a\<lparr>tv_usec := tv_usec a - n\<rparr>)"
  "tval_fits \<lparr>tval_sec = - tval_sec a, tv_usec = - tv_usec a\<rparr> \<Longrightarrow>
     neg_tval a = normalize_tval \<lparr>tval_sec = - tval_sec a, tv_usec = - tv_usec a\<rparr>"
  by (cases a; simp add: tval_fits_def s64_id add_tval_def sub_tval_def add_tval_us_def sub_tval_us_def neg_tval_def)+

text \<open>
  \<^verbatim>\<open>struct timeval\<close> arithmetic.  Every operation, on normalised and denormalised arguments alike, gives a
  normalised result whose value in microseconds is that of integer arithmetic, as long as the
  64-bit fields hold it, and the comparisons return the sign of the difference: 1 when the
  first argument is the later one.
\<close>
theorem tval_arith_refines:
  assumes "tval_fits a" "tval_fits b"
  shows "(tval_fits \<lparr>tval_sec = tval_sec a + tval_sec b, tv_usec = tv_usec a + tv_usec b\<rparr> \<longrightarrow>
      tval_val (add_tval a b) = tval_val a + tval_val b \<and> timeval_isnormal (add_tval a b)) \<and>
    (tval_fits \<lparr>tval_sec = tval_sec a - tval_sec b, tv_usec = tv_usec a - tv_usec b\<rparr> \<longrightarrow>
      tval_val (sub_tval a b) = tval_val a - tval_val b \<and> timeval_isnormal (sub_tval a b)) \<and>
    (tval_fits (a\<lparr>tv_usec := tv_usec a + n\<rparr>) \<longrightarrow>
      tval_val (add_tval_us a n) = tval_val a + n \<and> timeval_isnormal (add_tval_us a n)) \<and>
    (tval_fits (a\<lparr>tv_usec := tv_usec a - n\<rparr>) \<longrightarrow>
      tval_val (sub_tval_us a n) = tval_val a - n \<and> timeval_isnormal (sub_tval_us a n)) \<and>
    (tval_fits \<lparr>tval_sec = - tval_sec a, tv_usec = - tv_usec a\<rparr> \<longrightarrow>
      tval_val (neg_tval a) = - tval_val a \<and> timeval_isnormal (neg_tval a)) \<and>
    (tval_sec (normalize_tval a) \<noteq> - (2 ^ 63) \<longrightarrow>
      tval_val (abs_tval a) = \<bar>tval_val a\<bar> \<and> timeval_isnormal (abs_tval a)) \<and>
    cmp_tval_denorm a b = sgn (tval_val a - tval_val b) \<and> test_tval_denorm a = sgn (tval_val a)"
proof -
  have V: "tval_val (normalize_tval x) = tval_val x \<and> timeval_isnormal (normalize_tval x)" if "tval_fits x" for x
    using normalize_tval_val [OF that] by simp
  have D: "cmp_tval_denorm a b = sgn (tval_val a - tval_val b)" "test_tval_denorm a = sgn (tval_val a)"
    using V [OF assms(1)] V [OF assms(2)] by (simp_all add: cmp_tval_denorm_def test_tval_denorm_def cmp_tval_val test_tval_val)
  have M: "tval_val (abs_tval a) = \<bar>tval_val a\<bar> \<and> timeval_isnormal (abs_tval a)" if "tval_sec (normalize_tval a) \<noteq> - (2 ^ 63)"
    using abs_tval_val [OF assms(1)] that by simp
  show ?thesis
    by (intro conjI impI D M) (simp_all add: tval_op_eqs V, simp_all add: tval_val_def algebra_simps)
qed

theorem tval_arith_refines_witness:
  "tval_val (add_tval \<lparr>tval_sec = 1, tv_usec = 999999\<rparr> \<lparr>tval_sec = - 3, tv_usec = 2\<rparr>) = - 999999"
  using tval_arith_refines [of "\<lparr>tval_sec = 1, tv_usec = 999999\<rparr>" "\<lparr>tval_sec = - 3, tv_usec = 2\<rparr>"]
  by (simp add: tval_fits_def tval_val_def MICROSECONDS_def in_s64_def)

section \<open>Conversion to and from binary fractions\<close>

lemma TSFTOTVU_eq: "TSFTOTVU f = (uint f * 1000000 + 2147483648) div 4294967296"
proof -
  have f: "0 \<le> uint f" "uint f < 4294967296" using uint32_range [of f] by simp_all
  have u: "uint (ucast f :: u_int64) = uint f" using f by (simp add: unsigned_ucast_eq take_bit_int_eq_self)
  have "uint (ucast f * 1000000 + 0x80000000 :: u_int64) = uint f * 1000000 + 2147483648"
    using f by (simp add: uint_word_ariths u)
  then have "uint (drop_bit 32 (ucast f * 1000000 + 0x80000000 :: u_int64)) = (uint f * 1000000 + 2147483648) div 4294967296"
    by (simp add: drop_bit_eq_div uint_div)
  moreover have "in_s32 ((uint f * 1000000 + 2147483648) div 4294967296)"
  proof -
    have "0 \<le> (uint f * 1000000 + 2147483648) div 4294967296" "(uint f * 1000000 + 2147483648) div 4294967296 < 1000000001"
      using f by linarith+
    then show ?thesis by (simp add: in_s32_def)
  qed
  ultimately show ?thesis by (simp add: TSFTOTVU_def s32_id)
qed

lemma TVUTOTSF_eq:
  assumes "0 \<le> n" "n < 1000000"
  shows "uint (TVUTOTSF n) = (n * 4294967296 + 500000) div 1000000"
proof -
  have "uint (word_of_int n :: u_int64) = n" using assms by (simp add: uint_word_of_int_eq take_bit_int_eq_self)
  then have "uint (push_bit 32 (word_of_int n) + 500000 :: u_int64) = n * 4294967296 + 500000"
    using assms by (simp add: push_bit_eq_mult uint_word_ariths)
  then have "uint ((push_bit 32 (word_of_int n) + 500000) div 1000000 :: u_int64) = (n * 4294967296 + 500000) div 1000000"
    by (simp add: uint_div)
  moreover have "0 \<le> (n * 4294967296 + 500000) div 1000000" "(n * 4294967296 + 500000) div 1000000 < 4294967296"
    using binary_fraction_roundtrip(3,4) [of n 500000] assms by simp_all
  ultimately show ?thesis by (simp add: TVUTOTSF_def unsigned_ucast_eq take_bit_int_eq_self)
qed

lemma TSFTOTVU_range: "0 \<le> TSFTOTVU f" "TSFTOTVU f \<le> 1000000"
  using uint32_range [of f] unfolding TSFTOTVU_eq by linarith+

lemma TSFTOTVU_TVUTOTSF:
  assumes "0 \<le> n" "n < 1000000"
  shows "TSFTOTVU (TVUTOTSF n) = n" "TVUTOTSF n = 0 \<longleftrightarrow> n = 0" "n \<noteq> 0 \<Longrightarrow> TSFTOTVU (- TVUTOTSF n) = 1000000 - n"
proof -
  have two: "2 * 500000 = (1000000 :: int)" and lim: "500000 < (1073741824 :: int)" by simp_all
  note B = binary_fraction_roundtrip [of n 500000, unfolded two, OF assms zero_less_numeral lim]
  show "TSFTOTVU (TVUTOTSF n) = n" unfolding TSFTOTVU_eq TVUTOTSF_eq [OF assms] by (rule B(1))
  show z: "TVUTOTSF n = 0 \<longleftrightarrow> n = 0"
    using TVUTOTSF_eq [OF assms] B(5) unsigned_eq_0_iff [of "TVUTOTSF n", where ?'a = int] by metis
  show "TSFTOTVU (- TVUTOTSF n) = 1000000 - n" if "n \<noteq> 0"
  proof -
    have "TVUTOTSF n \<noteq> 0" using that z by simp
    then show ?thesis unfolding TSFTOTVU_eq uint_minus_u32 [OF \<open>TVUTOTSF n \<noteq> 0\<close>] TVUTOTSF_eq [OF assms] by (intro B(2))
  qed
qed

interpretation tval_lfp: lfp_fraction MICROSECONDS "\<lambda>s f. \<lparr>tval_sec = s, tv_usec = f\<rparr>" tval_sec tv_usec
  normalize_tval TSFTOTVU TVUTOTSF
  by unfold_locales (simp_all add: MICROSECONDS_def TSFTOTVU_TVUTOTSF)

lemma normalize_tval_normal: "timeval_isnormal x \<Longrightarrow> in_s64 (tval_sec x) \<Longrightarrow> normalize_tval x = x"
  by (intro tval.norm_fixes) (simp_all add: timeval_isnormal_def MICROSECONDS_def)

lemma tval_intv_to_lfp_normal:
  "timeval_isnormal x \<Longrightarrow> in_s64 (tval_sec x) \<Longrightarrow>
   tval_intv_to_lfp x = \<lparr>l_ui = word_of_int (tval_sec x), l_uf = TVUTOTSF (tv_usec x)\<rparr>"
  by (simp add: tval_intv_to_lfp_def normalize_tval_normal)

lemma tval_intv_roundtrip:
  assumes "timeval_isnormal x" "- 2147483648 < tval_sec x" "tval_sec x < 2147483648"
  shows "lfp_intv_to_tval (tval_intv_to_lfp x) = x"
proof -
  obtain s n where x: "x = \<lparr>tval_sec = s, tv_usec = n\<rparr>" by (cases x)
  have n: "0 \<le> n" "n < MICROSECONDS" and s: "- 2147483648 < s" "s < 2147483648" using assms by (simp_all add: x timeval_isnormal_def)
  have l: "tval_intv_to_lfp x = \<lparr>l_ui = word_of_int s, l_uf = TVUTOTSF n\<rparr>"
    using s assms(1) by (simp add: tval_intv_to_lfp_normal x in_s64_def)
  show ?thesis
  proof (cases "s < 0")
    case False
    then show ?thesis
      using n s unfolding l by (simp add: x lfp_intv_to_tval_def L_ISNEG_sint l_i_def sint_s32_word TSFTOTVU_TVUTOTSF MICROSECONDS_def)
  next
    case True
    with tval_lfp.negative_interval [OF n s(1) True] s show ?thesis
      unfolding l by (simp add: x lfp_intv_to_tval_def L_ISNEG_sint sint_s32_word)
  qed
qed

lemma tval_stamp_roundtrip:
  assumes "timeval_isnormal x" "P = (case p of Some q \<Rightarrow> q | None \<Rightarrow> now)"
    and "in_s64 (P - 2147483648)" "in_s64 (P + 2147483647)" "P - 2147483648 \<le> tval_sec x" "tval_sec x < P + 2147483648"
  shows "lfp_stamp_to_tval now (tval_stamp_to_lfp x) p = x"
proof -
  have s: "in_s64 (tval_sec x)" using assms(3-6) by (simp add: in_s64_def)
  have "lfp_stamp_to_tval now (tval_stamp_to_lfp x) p = normalize_tval x"
    using assms(1) s ntp_to_time_stamp [OF assms(2-6)]
    by (cases x) (simp add: lfp_stamp_to_tval_def tval_stamp_to_lfp_def tval_intv_to_lfp_normal TSFTOTVU_TVUTOTSF
        timeval_isnormal_def MICROSECONDS_def)
  then show ?thesis using assms(1) s by (simp add: normalize_tval_normal)
qed

lemma TSTOTV_TVTOTS:
  assumes "timeval_isnormal z" "0 \<le> tval_sec z" "tval_sec z < 4294967296"
  shows "TSTOTV (TVTOTS z) = z"
  using assms by (cases z) (simp add: TSTOTV_def TVTOTS_def timeval_isnormal_def MICROSECONDS_def TSFTOTVU_TVUTOTSF
      uint_word_of_int_u32)

lemma sTVTOTS_negated:
  assumes "timeval_isnormal z" "0 \<le> tval_sec z"
  shows "sTVTOTS z = TVTOTS z" "sTVTOTS \<lparr>tval_sec = - tval_sec z, tv_usec = - tv_usec z\<rparr> = L_NEG (TVTOTS z)"
proof -
  obtain s u where z: "z = \<lparr>tval_sec = s, tv_usec = u\<rparr>" by (cases z)
  have b: "0 \<le> s" "0 \<le> u" "u < 1000000" using assms by (simp_all add: z timeval_isnormal_def MICROSECONDS_def)
  then show "sTVTOTS z = TVTOTS z" by (simp add: z sTVTOTS_def TVTOTS_def)
  show "sTVTOTS \<lparr>tval_sec = - tval_sec z, tv_usec = - tv_usec z\<rparr> = L_NEG (TVTOTS z)"
  proof (cases "s = 0 \<and> u = 0")
    case True
    then show ?thesis using TSFTOTVU_TVUTOTSF(2) [of 0] by (simp add: z sTVTOTS_def TVTOTS_def L_NEG_fields)
  next
    case False
    with b show ?thesis by (auto simp: z sTVTOTS_def TVTOTS_def)
  qed
qed

text \<open>
  Intervals and stamps in the \<^typ>\<open>l_fp\<close> format.  A normalised interval with 32-bit seconds and a normalised stamp
  within half an era of the pivot survive the conversion to a 32-bit binary fraction and back
  exactly, negative intervals included.  The macros \<^verbatim>\<open>TVTOTS\<close> and \<^verbatim>\<open>TSTOTV\<close> are inverse on unsigned 32-bit seconds, and
  \<^verbatim>\<open>sTVTOTS\<close> maps the negated pair to the negated stamp.
\<close>
theorem tval_lfp_roundtrip:
  assumes "timeval_isnormal x" "- (2 ^ 31) < tval_sec x" "tval_sec x < 2 ^ 31"
    and "timeval_isnormal y" "P = (case p of Some q \<Rightarrow> q | None \<Rightarrow> now)"
    and "in_s64 (P - 2 ^ 31)" "in_s64 (P + 2 ^ 31)" "P - 2 ^ 31 \<le> tval_sec y" "tval_sec y < P + 2 ^ 31"
    and "timeval_isnormal z" "0 \<le> tval_sec z" "tval_sec z < 2 ^ 32"
  shows "lfp_intv_to_tval (tval_intv_to_lfp x) = x \<and> lfp_stamp_to_tval now (tval_stamp_to_lfp y) p = y \<and>
    TSTOTV (TVTOTS z) = z \<and> sTVTOTS z = TVTOTS z \<and>
    sTVTOTS \<lparr>tval_sec = - tval_sec z, tv_usec = - tv_usec z\<rparr> = L_NEG (TVTOTS z)"
proof -
  have "in_s64 (P - 2147483648)" "in_s64 (P + 2147483647)" using assms(6,7) by (simp_all add: in_s64_def)
  with assms show ?thesis
    using tval_intv_roundtrip [of x] TSTOTV_TVTOTS [of z] sTVTOTS_negated [of z] tval_stamp_roundtrip [where x = y and P = P and p = p and now = now] by simp
qed

theorem tval_lfp_roundtrip_witness:
  "lfp_intv_to_tval (tval_intv_to_lfp \<lparr>tval_sec = - 1, tv_usec = 1\<rparr>) = \<lparr>tval_sec = - 1, tv_usec = 1\<rparr> \<and>
   lfp_stamp_to_tval 0 (tval_stamp_to_lfp \<lparr>tval_sec = 2300000000, tv_usec = 999999\<rparr>) (Some 2200000000)
     = \<lparr>tval_sec = 2300000000, tv_usec = 999999\<rparr>"
  using tval_lfp_roundtrip [where x = "\<lparr>tval_sec = - 1, tv_usec = 1\<rparr>" and y = "\<lparr>tval_sec = 2300000000, tv_usec = 999999\<rparr>"
      and P = 2200000000 and p = "Some 2200000000" and now = 0 and z = "\<lparr>tval_sec = 7, tv_usec = 5\<rparr>"]
  by (simp add: timeval_isnormal_def MICROSECONDS_def in_s64_def)

text \<open>
  Denormal results.  The absolute conversion from \<^typ>\<open>l_fp\<close> normalises its result, but the unsigned one, and
  the signed one of a non-negative interval, return \<open>10^6\<close> microseconds for the 2147 largest binary
  fractions, although the header promises normalised results.
\<close>
theorem lfp_to_tval_denormal:
  assumes "\<not> L_ISNEG x" "q_s (ntpcal_ntp_to_time now (l_ui x) p) < 2 ^ 63 - 1"
  shows "timeval_isnormal (lfp_stamp_to_tval now x p) \<and>
    (timeval_isdenormal (lfp_uintv_to_tval x) \<longleftrightarrow> uint (l_uf x) \<ge> 2 ^ 32 - 2147) \<and>
    (timeval_isdenormal (lfp_intv_to_tval x) \<longleftrightarrow> uint (l_uf x) \<ge> 2 ^ 32 - 2147)"
proof -
  define f where "f = uint (l_uf x)"
  have f: "0 \<le> f" "f < 4294967296" using uint32_range [of "l_uf x"] by (simp_all add: f_def)
  have "TSFTOTVU (l_uf x) = (f * 1000000 + 2147483648) div 4294967296" by (simp add: TSFTOTVU_eq f_def)
  then have v: "0 \<le> TSFTOTVU (l_uf x)" "TSFTOTVU (l_uf x) \<le> 1000000" "TSFTOTVU (l_uf x) \<ge> 1000000 \<longleftrightarrow> f \<ge> 4294965149"
    using f by linarith+
  have q: "- 9223372036854775808 \<le> q_s (ntpcal_ntp_to_time now (l_ui x) p)"
    using sint_greater_eq [of "ntpcal_ntp_to_time now (l_ui x) p"] by (simp add: q_s_def)
  have "tval_fits \<lparr>tval_sec = q_s (ntpcal_ntp_to_time now (l_ui x) p), tv_usec = TSFTOTVU (l_uf x)\<rparr>"
  proof -
    have "0 \<le> TSFTOTVU (l_uf x) div 1000000" "TSFTOTVU (l_uf x) div 1000000 \<le> 1" using v by linarith+
    then show ?thesis using q v assms(2) by (simp add: tval_fits_def in_s64_def MICROSECONDS_def)
  qed
  then have "timeval_isnormal (lfp_stamp_to_tval now x p)"
    unfolding lfp_stamp_to_tval_def by (rule normalize_tval_val)
  moreover have "timeval_isdenormal \<lparr>tval_sec = s, tv_usec = TSFTOTVU (l_uf x)\<rparr> \<longleftrightarrow> f \<ge> 4294965149" for s
    using v by (auto simp: timeval_isdenormal_def timeval_isnormal_def MICROSECONDS_def)
  ultimately show ?thesis
    using assms(1) by (simp add: lfp_uintv_to_tval_def lfp_intv_to_tval_def flip: f_def)
qed

theorem lfp_to_tval_denormal_witness:
  "timeval_isdenormal (lfp_uintv_to_tval \<lparr>l_ui = 1, l_uf = 0xFFFFFFFF\<rparr>) \<and>
   timeval_isnormal (lfp_stamp_to_tval 0 \<lparr>l_ui = 1, l_uf = 0xFFFFFFFF\<rparr> (Some 0))"
  using lfp_to_tval_denormal [of "\<lparr>l_ui = 1, l_uf = 0xFFFFFFFF\<rparr>" 0 "Some 0"]
    q_s_ntp_to_time [where P = 0 and pivot = "Some 0" and now = 0 and ntp = 1]
  by (simp add: L_ISNEG_sint in_s64_def)

end
