(* ===== verification/NTP_Lists.thy ===== *)
theory NTP_Lists
  imports NTP_Prelude
begin

text \<open>
  The list macros of \<^verbatim>\<open>include/ntp_lists.h\<close>: singly linked lists, and the FIFO whose anchor keeps the head
  and the \<^emph>\<open>address of the link that points to the last entry\<close>.  Entries are addresses; the link field of every
  entry is one function, and the head pointers and tail locations of the anchors are two more,
  so that two anchors can alias.  The build without \<^verbatim>\<open>NTP_DEBUG_LISTS_H\<close> is modelled: an unlinked
  entry keeps its stale link.

  A result \<open>None\<close> of an operation stands for a run that dereferences \<^verbatim>\<open>NULL\<close> or never ends.
\<close>

type_synonym addr = nat

text \<open>The location of a pointer to an entry: \<^verbatim>\<open>&(anchor).phead\<close> or \<^verbatim>\<open>&(entry)->nextlink\<close>.\<close>

datatype ploc = PHead nat | PLink addr

record fifo_heap =
  nextlink :: "addr \<Rightarrow> addr option"
  phead :: "nat \<Rightarrow> addr option"
  pptail :: "nat \<Rightarrow> ploc option"

fun deref :: "fifo_heap \<Rightarrow> ploc \<Rightarrow> addr option" where
  "deref h (PHead f) = phead h f"
| "deref h (PLink e) = nextlink h e"

fun assign :: "fifo_heap \<Rightarrow> ploc \<Rightarrow> addr option \<Rightarrow> fifo_heap" where
  "assign h (PHead f) v = h\<lparr>phead := (phead h)(f := v)\<rparr>"
| "assign h (PLink e) v = h\<lparr>nextlink := (nextlink h)(e := v)\<rparr>"

section \<open>Singly linked lists\<close>

text \<open>The list head is the head pointer of the anchor \<open>l\<close>.\<close>

definition LINK_SLIST :: "nat \<Rightarrow> addr \<Rightarrow> fifo_heap \<Rightarrow> fifo_heap" where
  "LINK_SLIST l pentry h =
     (let h = assign h (PLink pentry) (phead h l) in assign h (PHead l) (Some pentry))"

partial_function (option) tail_loc :: "fifo_heap \<Rightarrow> ploc \<Rightarrow> ploc option" where
  "tail_loc h pp = (case deref h pp of None \<Rightarrow> Some pp | Some e \<Rightarrow> tail_loc h (PLink e))"

definition LINK_TAIL_SLIST :: "nat \<Rightarrow> addr \<Rightarrow> fifo_heap \<Rightarrow> fifo_heap option" where
  "LINK_TAIL_SLIST l pentry h =
     (case tail_loc h (PHead l) of
        None \<Rightarrow> None
      | Some pp \<Rightarrow> Some (let h = assign h (PLink pentry) None in assign h pp (Some pentry)))"

text \<open>\<open>beforecur\<close> is the test of the current entry that the caller passes to the macro.\<close>

partial_function (option) sort_loc :: "fifo_heap \<Rightarrow> (addr \<Rightarrow> bool) \<Rightarrow> ploc \<Rightarrow> ploc option" where
  "sort_loc h beforecur pp =
     (case deref h pp of
        None \<Rightarrow> Some pp
      | Some e \<Rightarrow> if beforecur e then Some pp
                 else if nextlink h e = None then Some (PLink e)
                 else sort_loc h beforecur (PLink e))"

definition LINK_SORT_SLIST :: "nat \<Rightarrow> addr \<Rightarrow> (addr \<Rightarrow> bool) \<Rightarrow> fifo_heap \<Rightarrow> fifo_heap option" where
  "LINK_SORT_SLIST l pentry beforecur h =
     (case sort_loc h beforecur (PHead l) of
        None \<Rightarrow> None
      | Some pp \<Rightarrow> Some (let h' = assign h (PLink pentry) (deref h pp) in assign h' pp (Some pentry)))"

definition UNLINK_HEAD_SLIST :: "nat \<Rightarrow> fifo_heap \<Rightarrow> addr option \<times> fifo_heap" where
  "UNLINK_HEAD_SLIST l h =
     (case phead h l of
        None \<Rightarrow> (None, h)
      | Some e \<Rightarrow> (Some e, assign h (PHead l) (nextlink h e)))"

text \<open>\<open>expr\<close> is the test of the current entry, which may be \<^verbatim>\<open>NULL\<close> on an empty list.\<close>

partial_function (option) expr_loc :: "fifo_heap \<Rightarrow> (addr option \<Rightarrow> bool) \<Rightarrow> ploc \<Rightarrow> ploc option option" where
  "expr_loc h expr pp =
     (if expr (deref h pp) then Some (Some pp)
      else case deref h pp of
             None \<Rightarrow> Some None
           | Some e \<Rightarrow> if nextlink h e \<noteq> None then expr_loc h expr (PLink e) else Some None)"

definition UNLINK_EXPR_SLIST :: "nat \<Rightarrow> (addr option \<Rightarrow> bool) \<Rightarrow> fifo_heap \<Rightarrow> (addr option \<times> fifo_heap) option" where
  "UNLINK_EXPR_SLIST l expr h =
     (case expr_loc h expr (PHead l) of
        None \<Rightarrow> None
      | Some None \<Rightarrow> Some (None, h)
      | Some (Some pp) \<Rightarrow>
          (case deref h pp of
             None \<Rightarrow> None
           | Some e \<Rightarrow> Some (Some e, assign h pp (nextlink h e))))"

definition UNLINK_SLIST :: "nat \<Rightarrow> addr \<Rightarrow> fifo_heap \<Rightarrow> (addr option \<times> fifo_heap) option" where
  "UNLINK_SLIST l ptounlink h = UNLINK_EXPR_SLIST l (\<lambda>cur. Some ptounlink = cur) h"

section \<open>FIFO\<close>

definition HEAD_FIFO :: "nat \<Rightarrow> fifo_heap \<Rightarrow> addr option" where
  "HEAD_FIFO a h = phead h a"

definition TAIL_FIFO :: "nat \<Rightarrow> fifo_heap \<Rightarrow> addr option" where
  "TAIL_FIFO a h = (case pptail h a of None \<Rightarrow> None | Some pp \<Rightarrow> deref h pp)"

definition LINK_FIFO :: "nat \<Rightarrow> addr \<Rightarrow> fifo_heap \<Rightarrow> fifo_heap option" where
  "LINK_FIFO a pentry h =
     (let h = assign h (PLink pentry) None
      in case pptail h a of
           None \<Rightarrow> Some ((assign h (PHead a) (Some pentry))\<lparr>pptail := (pptail h)(a \<mapsto> PHead a)\<rparr>)
         | Some pp \<Rightarrow>
             (case deref h pp of
                None \<Rightarrow> None
              | Some t \<Rightarrow>
                  let h = assign h (PLink t) (Some pentry)
                  in case deref h pp of
                       None \<Rightarrow> None
                     | Some t \<Rightarrow> Some (h\<lparr>pptail := (pptail h)(a \<mapsto> PLink t)\<rparr>)))"

definition UNLINK_FIFO :: "nat \<Rightarrow> fifo_heap \<Rightarrow> addr option \<times> fifo_heap" where
  "UNLINK_FIFO a h =
     (case phead h a of
        None \<Rightarrow> (None, h)
      | Some e \<Rightarrow>
          let h = assign h (PHead a) (nextlink h e)
          in (Some e,
              if phead h a = None then h\<lparr>pptail := (pptail h)(a := None)\<rparr>
              else if pptail h a = Some (PLink e) then h\<lparr>pptail := (pptail h)(a \<mapsto> PHead a)\<rparr>
              else h))"

partial_function (option) mid_loc :: "fifo_heap \<Rightarrow> addr \<Rightarrow> ploc \<Rightarrow> ploc option option" where
  "mid_loc h tounlink pp =
     (case deref h pp of
        None \<Rightarrow> None
      | Some e \<Rightarrow> if tounlink = e then Some (Some pp)
                 else if nextlink h e \<noteq> None then mid_loc h tounlink (PLink e)
                 else Some None)"

definition UNLINK_MID_FIFO :: "nat \<Rightarrow> addr \<Rightarrow> fifo_heap \<Rightarrow> (addr option \<times> fifo_heap) option" where
  "UNLINK_MID_FIFO a tounlink h =
     (case mid_loc h tounlink (PHead a) of
        None \<Rightarrow> None
      | Some None \<Rightarrow> Some (None, h)
      | Some (Some pp) \<Rightarrow>
          (case deref h pp of
             None \<Rightarrow> None
           | Some e \<Rightarrow>
               let h = assign h pp (nextlink h e)
               in Some (Some e,
                    if deref h pp = None then h\<lparr>pptail := (pptail h)(a := None)\<rparr>
                    else if pptail h a = Some (PLink e) then h\<lparr>pptail := (pptail h)(a \<mapsto> PHead a)\<rparr>
                    else h)))"

definition CONCAT_FIFO :: "nat \<Rightarrow> nat \<Rightarrow> fifo_heap \<Rightarrow> fifo_heap option" where
  "CONCAT_FIFO f1 f2 h =
     (case pptail h f2 of
        None \<Rightarrow> Some h
      | Some pp2 \<Rightarrow>
          (case pptail h f1 of
             None \<Rightarrow> Some (h\<lparr>phead := (phead h)(f1 := phead h f2), pptail := (pptail h)(f1 := pptail h f2)\<rparr>)
           | Some pp1 \<Rightarrow>
               (case deref h pp1 of
                  None \<Rightarrow> None
                | Some t \<Rightarrow>
                    let h = assign h (PLink t) (phead h f2)
                    in if pp2 = PHead f2 then
                         (case deref h pp1 of
                            None \<Rightarrow> None
                          | Some t \<Rightarrow> Some (h\<lparr>pptail := (pptail h)(f1 \<mapsto> PLink t)\<rparr>))
                       else Some (h\<lparr>pptail := (pptail h)(f1 \<mapsto> pp2)\<rparr>))))"

section \<open>Linked segments\<close>

text \<open>The pointer \<open>p\<close> leads through the entries \<open>xs\<close> to the pointer \<open>q\<close>.\<close>

fun seg :: "(addr \<Rightarrow> addr option) \<Rightarrow> addr option \<Rightarrow> addr list \<Rightarrow> addr option \<Rightarrow> bool" where
  "seg l p [] q \<longleftrightarrow> p = q"
| "seg l p (x # xs) q \<longleftrightarrow> p = Some x \<and> seg l (l x) xs q"

lemma seg_append: "seg l p (xs @ ys) q \<longleftrightarrow> (\<exists>m. seg l p xs m \<and> seg l m ys q)"
  by (induction xs arbitrary: p) auto

lemma seg_snoc [simp]: "seg l p (xs @ [x]) q \<longleftrightarrow> seg l p xs (Some x) \<and> l x = q"
  by (auto simp: seg_append)

lemma seg_upd [simp]: "x \<notin> set xs \<Longrightarrow> seg (l(x := v)) p xs q \<longleftrightarrow> seg l p xs q"
  by (induction xs arbitrary: p) auto

lemma seg_cong: "(\<And>x. x \<in> set xs \<Longrightarrow> l x = l' x) \<Longrightarrow> seg l p xs q = seg l' p xs q"
  by (induction xs arbitrary: p) auto

lemma seg_None_iff: "seg l p xs None \<Longrightarrow> p = None \<longleftrightarrow> xs = []"
  by (cases xs) auto

lemma seg_unique: "seg l p xs None \<Longrightarrow> seg l p ys None \<Longrightarrow> xs = ys"
proof (induction xs arbitrary: p ys)
  case Nil
  then show ?case by (cases ys) auto
next
  case (Cons x xs)
  then show ?case by (cases ys) auto
qed

text \<open>The location of the pointer that follows the entries \<open>xs\<close> of the anchor \<open>a\<close>.\<close>

definition loc_after :: "nat \<Rightarrow> addr list \<Rightarrow> ploc" where
  "loc_after a xs = (if xs = [] then PHead a else PLink (last xs))"

lemma loc_after_simps [simp]: "loc_after a [] = PHead a" "loc_after a (xs @ [x]) = PLink x"
  by (simp_all add: loc_after_def)

lemma deref_loc_after: "seg (nextlink h) (phead h a) xs q \<Longrightarrow> deref h (loc_after a xs) = q"
  by (cases xs rule: rev_cases) auto

lemma seg_assign:
  assumes "seg (nextlink h) (phead h a) xs q" "distinct xs"
  shows "seg (nextlink (assign h (loc_after a xs) v)) (phead (assign h (loc_after a xs) v) a) xs v"
  using assms by (cases xs rule: rev_cases) auto

lemma assign_simps [simp]:
  "pptail (assign h pp v) = pptail h"
  "deref (assign h pp v) pp = v"
  "b \<noteq> a \<Longrightarrow> phead (assign h (loc_after a xs) v) b = phead h b"
  "x \<notin> set xs \<Longrightarrow> nextlink (assign h (loc_after a xs) v) x = nextlink h x"
  by (cases pp; simp; fail)+ (auto simp: loc_after_def)

lemma assign_after_seg:
  assumes "seg (nextlink h) p zs q" "set xs \<inter> set zs = {}"
  shows "seg (nextlink (assign h (loc_after a xs) v)) p zs q"
  using assms by (cases xs rule: rev_cases) auto

section \<open>FIFO entries\<close>

definition fifo_repr :: "nat \<Rightarrow> fifo_heap \<Rightarrow> addr list \<Rightarrow> bool" where
  "fifo_repr a h xs \<longleftrightarrow> distinct xs \<and> seg (nextlink h) (phead h a) xs None \<and>
     pptail h a = (if xs = [] then None else Some (loc_after a (butlast xs)))"

text \<open>Everything outside the anchor \<open>a\<close> and the entries \<open>X\<close> is unchanged.\<close>

definition fifo_frame :: "nat \<Rightarrow> addr set \<Rightarrow> fifo_heap \<Rightarrow> fifo_heap \<Rightarrow> bool" where
  "fifo_frame a X h h' \<longleftrightarrow> (\<forall>b. b \<noteq> a \<longrightarrow> phead h' b = phead h b \<and> pptail h' b = pptail h b) \<and>
     (\<forall>x. x \<notin> X \<longrightarrow> nextlink h' x = nextlink h x)"

lemma LINK_FIFO_repr:
  assumes "fifo_repr a h xs" "x \<notin> set xs"
  shows "\<exists>h'. LINK_FIFO a x h = Some h' \<and> fifo_repr a h' (xs @ [x]) \<and> fifo_frame a (insert x (set xs)) h h'"
proof (cases xs rule: rev_cases)
  case Nil
  with assms show ?thesis by (auto simp: LINK_FIFO_def fifo_repr_def fifo_frame_def Let_def)
next
  case (snoc ys t)
  define h1 where "h1 = h\<lparr>nextlink := (nextlink h)(x := None)\<rparr>"
  define h2 where "h2 = h1\<lparr>nextlink := (nextlink h1)(t \<mapsto> x)\<rparr>"
  have d: "distinct ys" "t \<notin> set ys" "x \<notin> set ys" "x \<noteq> t" using assms snoc by (auto simp: fifo_repr_def)
  have s: "seg (nextlink h) (phead h a) ys (Some t)" and p: "pptail h a = Some (loc_after a ys)"
    using assms snoc by (simp_all add: fifo_repr_def)
  have s1: "seg (nextlink h1) (phead h1 a) ys (Some t)" "seg (nextlink h2) (phead h2 a) ys (Some t)"
    using s d by (simp_all add: h1_def h2_def)
  have "LINK_FIFO a x h = Some (h2\<lparr>pptail := (pptail h)(a \<mapsto> PLink t)\<rparr>)"
    using p deref_loc_after [OF s1(1)] deref_loc_after [OF s1(2)]
    by (simp add: LINK_FIFO_def h1_def [symmetric] Let_def) (simp add: h1_def h2_def)
  moreover have "fifo_repr a (h2\<lparr>pptail := (pptail h)(a \<mapsto> PLink t)\<rparr>) (xs @ [x])"
    using s1 d assms snoc by (auto simp: fifo_repr_def h2_def h1_def butlast_append seg_append)
  ultimately show ?thesis using snoc by (auto simp: fifo_frame_def h1_def h2_def)
qed

lemma UNLINK_FIFO_empty: "fifo_repr a h [] \<Longrightarrow> UNLINK_FIFO a h = (None, h)"
  by (simp add: fifo_repr_def UNLINK_FIFO_def)

lemma UNLINK_FIFO_repr:
  assumes "fifo_repr a h (x # xs)"
  shows "\<exists>h'. UNLINK_FIFO a h = (Some x, h') \<and> fifo_repr a h' xs \<and> fifo_frame a {} h h'"
proof -
  have s: "phead h a = Some x" "seg (nextlink h) (nextlink h x) xs None" "distinct (x # xs)"
    and p: "pptail h a = Some (loc_after a (butlast (x # xs)))"
    using assms by (auto simp: fifo_repr_def)
  show ?thesis
  proof (cases xs rule: rev_cases)
    case Nil
    with s p show ?thesis by (simp add: UNLINK_FIFO_def fifo_repr_def fifo_frame_def)
  next
    case (snoc ys t)
    have b: "butlast (x # xs) = x # ys" "butlast xs = ys" using snoc by (simp_all add: butlast_append)
    have ne: "nextlink h x \<noteq> None" using s snoc by (cases ys) auto
    show ?thesis
      using s p ne b snoc by (cases ys rule: rev_cases) (auto simp: UNLINK_FIFO_def fifo_repr_def fifo_frame_def loc_after_def Let_def)
  qed
qed

lemma mid_loc_eq:
  assumes "seg (nextlink h) (phead h a) (us @ ys @ x # zs) None" "x \<notin> set ys"
  shows "mid_loc h x (loc_after a us) = Some (Some (loc_after a (us @ ys)))"
  using assms
proof (induction ys arbitrary: us)
  case Nil
  then have "deref h (loc_after a us) = Some x" by (auto simp: seg_append intro: deref_loc_after)
  then show ?case by (subst mid_loc.simps) simp
next
  case (Cons y ys)
  then have "deref h (loc_after a us) = Some y" by (auto simp: seg_append intro: deref_loc_after)
  moreover have "nextlink h y \<noteq> None" using Cons.prems by (cases ys) (auto simp: seg_append)
  moreover have "mid_loc h x (loc_after a (us @ [y])) = Some (Some (loc_after a ((us @ [y]) @ ys)))"
    using Cons.prems by (intro Cons.IH) auto
  ultimately show ?case using Cons.prems by (subst mid_loc.simps) simp
qed

lemma UNLINK_MID_FIFO_eq:
  assumes "fifo_repr a h (ys @ x # zs)"
  defines "h1 \<equiv> assign h (loc_after a ys) (nextlink h x)"
  shows "UNLINK_MID_FIFO a x h = Some (Some x, h1\<lparr>pptail := (pptail h)(a :=
      if zs = [] then None else if length zs = 1 then Some (PHead a) else pptail h a)\<rparr>)"
    "seg (nextlink h1) (phead h1 a) (ys @ zs) None"
proof -
  have d: "distinct (ys @ x # zs)" and s: "seg (nextlink h) (phead h a) (ys @ x # zs) None"
    and p: "pptail h a = Some (loc_after a (butlast (ys @ x # zs)))"
    using assms(1) by (simp_all add: fifo_repr_def)
  have s1: "seg (nextlink h) (phead h a) ys (Some x)" "seg (nextlink h) (nextlink h x) zs None"
    using s by (auto simp: seg_append)
  have l: "mid_loc h x (PHead a) = Some (Some (loc_after a ys))"
    using mid_loc_eq [of h a "[]" ys x zs] s d by simp
  have z: "nextlink h x = None \<longleftrightarrow> zs = []" using s1(2) by (rule seg_None_iff)
  have t: "pptail h a = Some (PLink x) \<longleftrightarrow> length zs = 1" if ne: "zs \<noteq> []"
  proof -
    obtain ws w where w: "zs = ws @ [w]" using append_butlast_last_id [OF ne] by metis
    with p d show ?thesis by (cases ws rule: rev_cases) (auto simp: butlast_append loc_after_def)
  qed
  show "UNLINK_MID_FIFO a x h = Some (Some x, h1\<lparr>pptail := (pptail h)(a :=
      if zs = [] then None else if length zs = 1 then Some (PHead a) else pptail h a)\<rparr>)"
    using z t deref_loc_after [OF s1(1)]
    by (auto simp: UNLINK_MID_FIFO_def l Let_def h1_def [symmetric]) (simp_all add: h1_def)
  have "seg (nextlink h1) (phead h1 a) ys (nextlink h x)"
    unfolding h1_def using s1(1) d by (intro seg_assign) auto
  moreover have "seg (nextlink h1) (nextlink h x) zs None"
    unfolding h1_def using s1(2) d by (intro assign_after_seg) auto
  ultimately show "seg (nextlink h1) (phead h1 a) (ys @ zs) None" by (auto simp: seg_append)
qed

text \<open>What appending does once the tail location is wrong.\<close>

lemma LINK_FIFO_no_tail:
  assumes "pptail h a = None"
  shows "\<exists>h'. LINK_FIFO a x h = Some h' \<and> fifo_repr a h' [x]"
  using assms by (simp add: LINK_FIFO_def fifo_repr_def)

lemma LINK_FIFO_head_tail:
  assumes "pptail h a = Some (PHead a)" "phead h a = Some y" "x \<noteq> y"
  shows "\<exists>h'. LINK_FIFO a x h = Some h' \<and> fifo_repr a h' [y, x]"
  using assms by (simp add: LINK_FIFO_def fifo_repr_def loc_after_def Let_def)

section \<open>Singly linked entries\<close>

definition slist_repr :: "nat \<Rightarrow> fifo_heap \<Rightarrow> addr list \<Rightarrow> bool" where
  "slist_repr l h xs \<longleftrightarrow> distinct xs \<and> seg (nextlink h) (phead h l) xs None"

lemma LINK_SLIST_repr: "slist_repr l h xs \<Longrightarrow> x \<notin> set xs \<Longrightarrow> slist_repr l (LINK_SLIST l x h) (x # xs)"
  by (simp add: slist_repr_def LINK_SLIST_def Let_def)

lemma UNLINK_HEAD_SLIST_repr:
  "slist_repr l h [] \<Longrightarrow> UNLINK_HEAD_SLIST l h = (None, h)"
  "slist_repr l h (x # xs) \<Longrightarrow> \<exists>h'. UNLINK_HEAD_SLIST l h = (Some x, h') \<and> slist_repr l h' xs"
  by (auto simp: slist_repr_def UNLINK_HEAD_SLIST_def)

lemma tail_loc_eq:
  assumes "seg (nextlink h) (phead h a) (us @ ys) None"
  shows "tail_loc h (loc_after a us) = Some (loc_after a (us @ ys))"
  using assms
proof (induction ys arbitrary: us)
  case Nil
  then have "deref h (loc_after a us) = None" by (auto intro: deref_loc_after)
  then show ?case by (subst tail_loc.simps) simp
next
  case (Cons y ys)
  then have "deref h (loc_after a us) = Some y" by (auto simp: seg_append intro: deref_loc_after)
  with Cons.IH [of "us @ [y]"] Cons.prems show ?case by (subst tail_loc.simps) simp
qed

lemma LINK_TAIL_SLIST_repr:
  assumes "slist_repr l h xs" "x \<notin> set xs"
  shows "\<exists>h'. LINK_TAIL_SLIST l x h = Some h' \<and> slist_repr l h' (xs @ [x])"
proof -
  define h1 where "h1 = assign h (PLink x) None"
  have "seg (nextlink h1) (phead h1 l) xs None" using assms by (simp add: slist_repr_def h1_def)
  then have "seg (nextlink (assign h1 (loc_after l xs) (Some x))) (phead (assign h1 (loc_after l xs) (Some x)) l) xs (Some x)"
    using assms by (intro seg_assign) (simp_all add: slist_repr_def)
  moreover have "nextlink (assign h1 (loc_after l xs) (Some x)) x = None" using assms by (simp add: h1_def)
  moreover have "tail_loc h (PHead l) = Some (loc_after l xs)"
    using tail_loc_eq [of h l "[]" xs] assms by (simp add: slist_repr_def)
  ultimately show ?thesis
    using assms by (simp add: LINK_TAIL_SLIST_def slist_repr_def h1_def)
qed

lemma sort_loc_eq:
  assumes "seg (nextlink h) (phead h a) (us @ ys @ zs) None" "\<forall>y \<in> set ys. \<not> b y" "zs \<noteq> [] \<longrightarrow> b (hd zs)"
  shows "sort_loc h b (loc_after a us) = Some (loc_after a (us @ ys))"
  using assms
proof (induction ys arbitrary: us)
  case Nil
  then have "deref h (loc_after a us) = (case zs of [] \<Rightarrow> None | z # _ \<Rightarrow> Some z)"
    by (cases zs) (auto simp: seg_append intro: deref_loc_after)
  with Nil show ?case by (subst sort_loc.simps) (auto split: list.splits)
next
  case (Cons y ys)
  then have y: "deref h (loc_after a us) = Some y" by (auto simp: seg_append intro: deref_loc_after)
  have IH: "sort_loc h b (loc_after a (us @ [y])) = Some (loc_after a ((us @ [y]) @ ys))"
    using Cons.prems by (intro Cons.IH) auto
  have "ys = []" if "nextlink h y = None" using that Cons.prems by (cases ys) (auto simp: seg_append)
  with y IH Cons.prems show ?case by (subst sort_loc.simps) (auto simp: loc_after_def)
qed

lemma LINK_SORT_SLIST_repr:
  assumes "slist_repr l h (ys @ zs)" "x \<notin> set (ys @ zs)" "\<forall>y \<in> set ys. \<not> b y" "zs \<noteq> [] \<longrightarrow> b (hd zs)"
  shows "\<exists>h'. LINK_SORT_SLIST l x b h = Some h' \<and> slist_repr l h' (ys @ x # zs)"
proof -
  obtain q where q: "seg (nextlink h) (phead h l) ys q" "seg (nextlink h) q zs None" and d: "distinct (ys @ zs)"
    using assms(1) by (auto simp: slist_repr_def seg_append)
  define h1 h2 where "h1 = assign h (PLink x) q" "h2 = assign h1 (loc_after l ys) (Some x)"
  have "sort_loc h b (PHead l) = Some (loc_after l ys)"
    using sort_loc_eq [of h l "[]" ys zs b] assms by (simp add: slist_repr_def)
  then have e: "LINK_SORT_SLIST l x b h = Some h2"
    using deref_loc_after [OF q(1)] by (simp add: LINK_SORT_SLIST_def h1_h2_def)
  have "seg (nextlink h1) (phead h1 l) ys q" "seg (nextlink h1) q zs None" using q assms(2) by (simp_all add: h1_h2_def)
  then have "seg (nextlink h2) (phead h2 l) ys (Some x)" "seg (nextlink h2) q zs None"
    using d by (auto simp: h1_h2_def intro: seg_assign assign_after_seg)
  moreover have "nextlink h2 x = q" using assms(2) by (simp add: h1_h2_def)
  ultimately have "seg (nextlink h2) (phead h2 l) (ys @ x # zs) None" by (auto simp: seg_append)
  with e d assms(2) show ?thesis by (auto simp: slist_repr_def)
qed

lemma expr_loc_found:
  assumes "seg (nextlink h) (phead h a) (us @ ys @ x # zs) None" "\<forall>y \<in> set ys. \<not> e (Some y)" "e (Some x)"
  shows "expr_loc h e (loc_after a us) = Some (Some (loc_after a (us @ ys)))"
  using assms
proof (induction ys arbitrary: us)
  case Nil
  then have "deref h (loc_after a us) = Some x" by (auto simp: seg_append intro: deref_loc_after)
  with Nil show ?case by (subst expr_loc.simps) simp
next
  case (Cons y ys)
  then have "deref h (loc_after a us) = Some y" by (auto simp: seg_append intro: deref_loc_after)
  moreover have "nextlink h y \<noteq> None" using Cons.prems by (cases ys) (auto simp: seg_append)
  moreover have "expr_loc h e (loc_after a (us @ [y])) = Some (Some (loc_after a ((us @ [y]) @ ys)))"
    using Cons.prems by (intro Cons.IH) auto
  ultimately show ?case using Cons.prems by (subst expr_loc.simps) simp
qed

lemma expr_loc_missing:
  assumes "seg (nextlink h) (phead h a) (us @ ys) None" "\<forall>y \<in> set ys. \<not> e (Some y)" "\<not> e None"
  shows "expr_loc h e (loc_after a us) = Some None"
  using assms
proof (induction ys arbitrary: us)
  case Nil
  then have "deref h (loc_after a us) = None" by (auto intro: deref_loc_after)
  with Nil show ?case by (subst expr_loc.simps) simp
next
  case (Cons y ys)
  then have "deref h (loc_after a us) = Some y" by (auto simp: seg_append intro: deref_loc_after)
  moreover have "expr_loc h e (loc_after a (us @ [y])) = Some None" using Cons.prems by (intro Cons.IH) auto
  ultimately show ?case using Cons.prems by (subst expr_loc.simps) simp
qed

lemma UNLINK_EXPR_SLIST_found:
  assumes "slist_repr l h (ys @ x # zs)" "\<forall>y \<in> set ys. \<not> e (Some y)" "e (Some x)"
  shows "\<exists>h'. UNLINK_EXPR_SLIST l e h = Some (Some x, h') \<and> slist_repr l h' (ys @ zs)"
proof -
  have s: "seg (nextlink h) (phead h l) ys (Some x)" "seg (nextlink h) (nextlink h x) zs None" and d: "distinct (ys @ x # zs)"
    using assms(1) by (auto simp: slist_repr_def seg_append)
  define h1 where "h1 = assign h (loc_after l ys) (nextlink h x)"
  have "expr_loc h e (PHead l) = Some (Some (loc_after l ys))"
    using expr_loc_found [of h l "[]" ys x zs e] assms by (simp add: slist_repr_def)
  then have "UNLINK_EXPR_SLIST l e h = Some (Some x, h1)"
    using deref_loc_after [OF s(1)] by (simp add: UNLINK_EXPR_SLIST_def h1_def)
  moreover have "seg (nextlink h1) (phead h1 l) ys (nextlink h x)" "seg (nextlink h1) (nextlink h x) zs None"
    using s d by (auto simp: h1_def intro: seg_assign assign_after_seg)
  ultimately show ?thesis using d by (auto simp: slist_repr_def seg_append)
qed

lemma UNLINK_EXPR_SLIST_missing:
  assumes "slist_repr l h xs" "\<forall>y \<in> set xs. \<not> e (Some y)" "\<not> e None"
  shows "UNLINK_EXPR_SLIST l e h = Some (None, h)"
  using expr_loc_missing [of h l "[]" xs e] assms by (simp add: slist_repr_def UNLINK_EXPR_SLIST_def)

section \<open>The queue contract\<close>

datatype fifo_op = Enq addr | Deq

text \<open>The abstract queue: the entries in the order in which they were added.\<close>

fun queue_run :: "fifo_op list \<Rightarrow> addr list \<Rightarrow> addr option list \<times> addr list" where
  "queue_run [] xs = ([], xs)"
| "queue_run (Enq x # ops) xs = queue_run ops (xs @ [x])"
| "queue_run (Deq # ops) [] = (let (os, ys) = queue_run ops [] in (None # os, ys))"
| "queue_run (Deq # ops) (x # xs) = (let (os, ys) = queue_run ops xs in (Some x # os, ys))"

text \<open>No entry is added while it is in the queue.\<close>

fun queue_valid :: "fifo_op list \<Rightarrow> addr list \<Rightarrow> bool" where
  "queue_valid [] xs \<longleftrightarrow> True"
| "queue_valid (Enq x # ops) xs \<longleftrightarrow> x \<notin> set xs \<and> queue_valid ops (xs @ [x])"
| "queue_valid (Deq # ops) xs \<longleftrightarrow> queue_valid ops (tl xs)"

fun impl_run :: "(addr \<Rightarrow> 'h \<Rightarrow> 'h option) \<Rightarrow> ('h \<Rightarrow> addr option \<times> 'h) \<Rightarrow> fifo_op list \<Rightarrow> 'h \<Rightarrow> (addr option list \<times> 'h) option" where
  "impl_run enq deq [] h = Some ([], h)"
| "impl_run enq deq (Enq x # ops) h = (case enq x h of None \<Rightarrow> None | Some h' \<Rightarrow> impl_run enq deq ops h')"
| "impl_run enq deq (Deq # ops) h =
     (let (out, h') = deq h
      in case impl_run enq deq ops h' of None \<Rightarrow> None | Some (os, h'') \<Rightarrow> Some (out # os, h''))"

locale fifo_queue =
  fixes repr :: "'h \<Rightarrow> addr list \<Rightarrow> bool" and enq :: "addr \<Rightarrow> 'h \<Rightarrow> 'h option" and deq :: "'h \<Rightarrow> addr option \<times> 'h"
  assumes enq_repr: "repr h xs \<Longrightarrow> x \<notin> set xs \<Longrightarrow> \<exists>h'. enq x h = Some h' \<and> repr h' (xs @ [x])"
    and deq_empty: "repr h [] \<Longrightarrow> deq h = (None, h)"
    and deq_repr: "repr h (x # xs) \<Longrightarrow> \<exists>h'. deq h = (Some x, h') \<and> repr h' xs"
begin

lemma run_refines:
  assumes "repr h xs" "queue_valid ops xs"
  shows "\<exists>h'. impl_run enq deq ops h = Some (fst (queue_run ops xs), h') \<and> repr h' (snd (queue_run ops xs))"
  using assms
proof (induction ops xs arbitrary: h rule: queue_run.induct)
  case (2 x ops xs)
  then obtain h' where "enq x h = Some h'" "repr h' (xs @ [x])" using enq_repr [of h xs x] by auto
  with 2 show ?case by auto
next
  case (3 ops)
  then obtain h' where "impl_run enq deq ops h = Some (fst (queue_run ops []), h')" "repr h' (snd (queue_run ops []))" by fastforce
  with 3 deq_empty show ?case by (auto simp: case_prod_unfold Let_def)
next
  case (4 ops x xs)
  obtain h1 where d: "deq h = (Some x, h1)" "repr h1 xs" using deq_repr 4 by blast
  then obtain h' where "impl_run enq deq ops h1 = Some (fst (queue_run ops xs), h')" "repr h' (snd (queue_run ops xs))" using 4 by fastforce
  with d show ?case by (auto simp: case_prod_unfold Let_def)
qed auto

end

interpretation fifo: fifo_queue "fifo_repr a" "LINK_FIFO a" "UNLINK_FIFO a" for a
proof unfold_locales
  show "\<exists>h'. LINK_FIFO a x h = Some h' \<and> fifo_repr a h' (xs @ [x])" if "fifo_repr a h xs" "x \<notin> set xs" for h xs x
    using LINK_FIFO_repr [OF that] by auto
  show "UNLINK_FIFO a h = (None, h)" if "fifo_repr a h []" for h using that by (rule UNLINK_FIFO_empty)
  show "\<exists>h'. UNLINK_FIFO a h = (Some x, h') \<and> fifo_repr a h' xs" if "fifo_repr a h (x # xs)" for h x xs
    using UNLINK_FIFO_repr [OF that] by auto
qed

definition empty_heap :: fifo_heap where
  "empty_heap = \<lparr>nextlink = (\<lambda>_. None), phead = (\<lambda>_. None), pptail = (\<lambda>_. None)\<rparr>"

text \<open>
  C21: the FIFO is a queue.  Starting with an empty anchor, any sequence of \<^verbatim>\<open>LINK_FIFO\<close> and \<^verbatim>\<open>UNLINK_FIFO\<close> that never
  links an entry twice runs without touching \<^verbatim>\<open>NULL\<close> and returns the entries first in, first out, whatever
  the links of the entries held before.  \<^verbatim>\<open>UNLINK_MID_FIFO\<close> and \<^verbatim>\<open>CONCAT_FIFO\<close> are not among the operations: the next theorems
  tell when they keep the queue and when not.
\<close>
theorem fifo_refines_queue:
  assumes "phead h a = None" "pptail h a = None" "queue_valid ops []"
  shows "\<exists>h'. impl_run (LINK_FIFO a) (UNLINK_FIFO a) ops h = Some (fst (queue_run ops []), h') \<and>
    fifo_repr a h' (snd (queue_run ops [])) \<and> HEAD_FIFO a h' = (case snd (queue_run ops []) of [] \<Rightarrow> None | x # _ \<Rightarrow> Some x)"
proof -
  have "fifo_repr a h []" using assms by (simp add: fifo_repr_def)
  from fifo.run_refines [OF this assms(3)] obtain h' where
    h': "impl_run (LINK_FIFO a) (UNLINK_FIFO a) ops h = Some (fst (queue_run ops []), h')" "fifo_repr a h' (snd (queue_run ops []))"
    by blast
  moreover have "HEAD_FIFO a h' = (case xs of [] \<Rightarrow> None | x # _ \<Rightarrow> Some x)" if "fifo_repr a h' xs" for xs
    using that by (cases xs) (auto simp: HEAD_FIFO_def fifo_repr_def)
  ultimately show ?thesis by blast
qed

theorem fifo_refines_queue_witness:
  "\<exists>h'. impl_run (LINK_FIFO 0) (UNLINK_FIFO 0) [Enq 5, Enq 6, Deq, Enq 5, Deq, Deq, Deq] empty_heap
     = Some ([Some 5, Some 6, Some 5, None], h')"
  using fifo_refines_queue [of empty_heap 0 "[Enq 5, Enq 6, Deq, Enq 5, Deq, Deq, Deq]"]
  by (auto simp: empty_heap_def)

lemma fifo_repr_example: "\<exists>h. fifo_repr 0 h [1, 2, 3] \<and> fifo_repr 1 h []"
  by (intro exI [of _ "\<lparr>nextlink = [1 \<mapsto> 2, 2 \<mapsto> 3], phead = [0 \<mapsto> 1], pptail = [0 \<mapsto> PLink 2]\<rparr>"])
    (simp add: fifo_repr_def loc_after_def)

text \<open>
  Removal from the middle.  \<^verbatim>\<open>UNLINK_MID_FIFO\<close> removes the entry from the chain, but leaves the anchor
  consistent only when the entry was the first or at least two entries follow it.  Otherwise the next
  \<^verbatim>\<open>LINK_FIFO\<close> drops entries: all of them when the last entry had been removed, and all but the first when
  the last but one had.
\<close>
theorem unlink_mid_fifo_tail:
  assumes "fifo_repr a h (ys @ x # zs)" "UNLINK_MID_FIFO a x h = Some (p, h')" "new \<notin> set (ys @ x # zs)"
  shows "p = Some x \<and> seg (nextlink h') (phead h' a) (ys @ zs) None \<and>
    (fifo_repr a h' (ys @ zs) \<longleftrightarrow> ys = [] \<or> length zs \<ge> 2) \<and>
    (ys \<noteq> [] \<and> zs = [] \<longrightarrow> (\<exists>h''. LINK_FIFO a new h' = Some h'' \<and> fifo_repr a h'' [new])) \<and>
    (ys \<noteq> [] \<and> length zs = 1 \<longrightarrow> (\<exists>h''. LINK_FIFO a new h' = Some h'' \<and> fifo_repr a h'' [hd ys, new]))"
proof -
  note E = UNLINK_MID_FIFO_eq [OF assms(1)]
  define h1 where "h1 = assign h (loc_after a ys) (nextlink h x)"
  have h': "h' = h1\<lparr>pptail := (pptail h)(a := if zs = [] then None else if length zs = 1 then Some (PHead a) else pptail h a)\<rparr>"
    and p: "p = Some x"
    using E(1) assms(2) by (simp_all add: h1_def)
  have s: "seg (nextlink h') (phead h' a) (ys @ zs) None" using E(2) by (simp add: h' h1_def)
  have d: "distinct (ys @ x # zs)" and t: "pptail h a = Some (loc_after a (butlast (ys @ x # zs)))"
    using assms(1) by (simp_all add: fifo_repr_def)
  have iff: "fifo_repr a h' (ys @ zs) \<longleftrightarrow> ys = [] \<or> length zs \<ge> 2"
  proof -
    have r: "fifo_repr a h' (ys @ zs) \<longleftrightarrow> pptail h' a = (if ys @ zs = [] then None else Some (loc_after a (butlast (ys @ zs))))"
      using s d by (auto simp: fifo_repr_def)
    consider "zs = []" | z where "zs = [z]" | vs v w where "zs = vs @ [v, w]"
      by (metis append_Cons append_Nil append_assoc rev_exhaust)
    then show ?thesis
    proof cases
      case 1
      then show ?thesis unfolding r by (simp add: h')
    next
      case (2 z)
      then show ?thesis unfolding r by (simp add: h' butlast_append) (simp add: loc_after_def)
    next
      case (3 vs v w)
      then have "loc_after a (butlast (ys @ x # zs)) = loc_after a (butlast (ys @ zs))"
        by (simp add: butlast_append loc_after_def)
      with 3 show ?thesis unfolding r by (simp add: h' t)
    qed
  qed
  have hd: "phead h' a = Some (hd ys)" if "ys \<noteq> []" using s that by (cases ys) auto
  have n1: "\<exists>h''. LINK_FIFO a new h' = Some h'' \<and> fifo_repr a h'' [new]" if "zs = []"
    using that by (intro LINK_FIFO_no_tail) (simp add: h')
  have n2: "\<exists>h''. LINK_FIFO a new h' = Some h'' \<and> fifo_repr a h'' [hd ys, new]" if "ys \<noteq> []" "length zs = 1"
    using that hd assms(3) by (intro LINK_FIFO_head_tail) (auto simp: h')
  show ?thesis using p s iff n1 n2 by blast
qed

theorem unlink_mid_fifo_tail_witness:
  "\<exists>h h'. fifo_repr 0 h [1, 2, 3] \<and> UNLINK_MID_FIFO 0 3 h = Some (Some 3, h') \<and>
     (\<exists>h''. LINK_FIFO 0 4 h' = Some h'' \<and> fifo_repr 0 h'' [4])"
proof -
  obtain h where h: "fifo_repr 0 h [1, 2, 3]"
    using fifo_repr_example by blast
  obtain h' where h': "UNLINK_MID_FIFO 0 3 h = Some (Some 3, h')"
    using UNLINK_MID_FIFO_eq(1) [of 0 h "[1, 2]" 3 "[]"] h by auto
  from unlink_mid_fifo_tail [of 0 h "[1, 2]" 3 "[]" "Some 3" h' 4] h h' show ?thesis by auto
qed

text \<open>
  Singly linked lists.  Linking at the head, at the tail and before the first entry that satisfies a test, and
  unlinking the head and a given entry, act on the sequence of entries as the list operations do, and
  every loop over the list ends.
\<close>
theorem slist_operations:
  assumes "slist_repr l h xs" "x \<notin> set xs" "xs = ys @ zs" "\<forall>y \<in> set ys. \<not> b y" "zs \<noteq> [] \<longrightarrow> b (hd zs)"
  shows "slist_repr l (LINK_SLIST l x h) (x # xs) \<and>
    (\<exists>h'. LINK_TAIL_SLIST l x h = Some h' \<and> slist_repr l h' (xs @ [x])) \<and>
    (\<exists>h'. LINK_SORT_SLIST l x b h = Some h' \<and> slist_repr l h' (ys @ x # zs)) \<and>
    (\<exists>h'. UNLINK_HEAD_SLIST l h = (case xs of [] \<Rightarrow> None | e # _ \<Rightarrow> Some e, h') \<and> slist_repr l h' (tl xs)) \<and>
    UNLINK_SLIST l x h = Some (None, h) \<and>
    (\<forall>e \<in> set xs. \<exists>h'. UNLINK_SLIST l e h = Some (Some e, h') \<and> slist_repr l h' (remove1 e xs))"
proof -
  have u: "\<exists>h'. UNLINK_SLIST l e h = Some (Some e, h') \<and> slist_repr l h' (remove1 e xs)" if "e \<in> set xs" for e
  proof -
    obtain us vs where s: "xs = us @ e # vs" "e \<notin> set us" using split_list_first [OF \<open>e \<in> set xs\<close>] by auto
    then have "remove1 e xs = us @ vs" by (simp add: remove1_append)
    then show ?thesis
      using UNLINK_EXPR_SLIST_found [of l h us e vs "\<lambda>cur. Some e = cur"] assms(1) s by (auto simp: UNLINK_SLIST_def)
  qed
  have m: "UNLINK_SLIST l x h = Some (None, h)"
    using UNLINK_EXPR_SLIST_missing [of l h xs "\<lambda>cur. Some x = cur"] assms(1,2) by (auto simp: UNLINK_SLIST_def)
  have hd: "\<exists>h'. UNLINK_HEAD_SLIST l h = (case xs of [] \<Rightarrow> None | e # _ \<Rightarrow> Some e, h') \<and> slist_repr l h' (tl xs)"
    using assms(1) UNLINK_HEAD_SLIST_repr [of l h] by (cases xs) auto
  show ?thesis
    using LINK_SLIST_repr [OF assms(1,2)] LINK_TAIL_SLIST_repr [OF assms(1,2)] LINK_SORT_SLIST_repr [of l h ys zs x b] assms u m hd
    by auto
qed

theorem slist_operations_witness:
  "slist_repr 0 (LINK_SLIST 0 7 empty_heap) [7]"
  using slist_operations [of 0 empty_heap "[]" 7 "[]" "[]" "\<lambda>_. True"] by (simp add: slist_repr_def empty_heap_def)

text \<open>
  Concatenation.  \<^verbatim>\<open>CONCAT_FIFO\<close> appends the entries of the second FIFO when the first one has entries.  When
  the first is empty and the second has one entry, the copied tail location still points into the second
  anchor, so the first is not consistent; and the second anchor is never emptied, although the description of the
  macro says so.
\<close>
theorem concat_fifo_cases:
  assumes "fifo_repr f1 h xs" "fifo_repr f2 h ys" "f1 \<noteq> f2" "set xs \<inter> set ys = {}" "ys \<noteq> []"
  shows "\<exists>h'. CONCAT_FIFO f1 f2 h = Some h' \<and> seg (nextlink h') (phead h' f1) (xs @ ys) None \<and>
    (fifo_repr f1 h' (xs @ ys) \<longleftrightarrow> xs \<noteq> [] \<or> length ys \<ge> 2) \<and>
    (xs = [] \<and> length ys = 1 \<longrightarrow> pptail h' f1 = Some (PHead f2)) \<and> phead h' f2 = phead h f2 \<and> pptail h' f2 = pptail h f2"
proof -
  have s: "seg (nextlink h) (phead h f1) xs None" "seg (nextlink h) (phead h f2) ys None" and d: "distinct (xs @ ys)"
    and p2: "pptail h f2 = Some (loc_after f2 (butlast ys))"
    and p1: "pptail h f1 = (if xs = [] then None else Some (loc_after f1 (butlast xs)))"
    using assms by (auto simp: fifo_repr_def)
  have single: "loc_after f2 (butlast ys) = PHead f2 \<longleftrightarrow> length ys = 1"
    using assms(5) by (cases ys rule: rev_cases) (auto simp: loc_after_def)
  have moved: "loc_after f1 (butlast (xs @ ys)) = loc_after f2 (butlast ys)" if "length ys \<noteq> 1"
    using that assms(5) by (cases ys rule: rev_cases) (auto simp: loc_after_def butlast_append)
  show ?thesis
  proof (cases xs rule: rev_cases)
    case Nil
    then have "CONCAT_FIFO f1 f2 h = Some (h\<lparr>phead := (phead h)(f1 := phead h f2), pptail := (pptail h)(f1 := pptail h f2)\<rparr>)"
      using p1 p2 by (simp add: CONCAT_FIFO_def)
    moreover have "loc_after f1 (butlast ys) = loc_after f2 (butlast ys) \<longleftrightarrow> length ys \<noteq> 1"
      using assms(3,5) by (cases ys rule: rev_cases) (auto simp: loc_after_def)
    moreover have "length ys \<noteq> 1 \<longleftrightarrow> 2 \<le> length ys" using assms(5) by (cases ys) (auto simp: Suc_le_eq)
    ultimately show ?thesis
      using Nil s d p2 assms(3,5) single by (auto simp: fifo_repr_def)
  next
    case (snoc us t)
    define h1 where "h1 = h\<lparr>nextlink := (nextlink h)(t := phead h f2)\<rparr>"
    have su: "seg (nextlink h) (phead h f1) us (Some t)" using s snoc by simp
    have tu: "t \<notin> set us" "t \<notin> set ys" using d snoc by auto
    then have su1: "seg (nextlink h1) (phead h1 f1) us (Some t)" using su by (simp add: h1_def)
    define pt where "pt = (if length ys = 1 then PLink t else loc_after f2 (butlast ys))"
    have e: "CONCAT_FIFO f1 f2 h = Some (h1\<lparr>pptail := (pptail h)(f1 \<mapsto> pt)\<rparr>)"
      using snoc p1 p2 single deref_loc_after [OF su] deref_loc_after [OF su1]
      by (simp add: CONCAT_FIFO_def Let_def h1_def [symmetric] pt_def) (simp add: h1_def)
    have "seg (nextlink h1) (phead h1 f1) (xs @ ys) None"
      using su1 s(2) tu snoc by (auto simp: seg_append h1_def)
    moreover have "pt = loc_after f1 (butlast (xs @ ys))"
    proof (cases "length ys = 1")
      case True
      then obtain y where "ys = [y]" by (cases ys) auto
      then show ?thesis using snoc by (simp add: pt_def butlast_append)
    next
      case False
      then show ?thesis using moved by (simp add: pt_def)
    qed
    ultimately show ?thesis using e d snoc assms(3) by (auto simp: fifo_repr_def h1_def)
  qed
qed

theorem concat_fifo_cases_witness:
  "\<exists>h h'. CONCAT_FIFO 1 0 h = Some h' \<and> fifo_repr 1 h' [1, 2, 3]"
proof -
  obtain h where h: "fifo_repr 0 h [1, 2, 3]" "fifo_repr 1 h []"
    using fifo_repr_example by blast
  from concat_fifo_cases [of 1 h "[]" 0 "[1, 2, 3]"] h show ?thesis by auto
qed

end
