(* ===== verification/NTP_Dlist.thy ===== *)
theory NTP_Dlist
  imports NTP_Lists
begin

text \<open>
  The doubly linked lists of \<^verbatim>\<open>include/ntp_lists.h\<close>: both chains are circular through the list head, which has the type
  of the entries, so a head is an address as well.  The links are never \<^verbatim>\<open>NULL\<close>.  As for the other lists,
  an unlinked entry keeps its stale links.
\<close>

section \<open>Macros\<close>

record dheap =
  link_f :: "addr \<Rightarrow> addr"
  link_b :: "addr \<Rightarrow> addr"

definition set_f :: "addr \<Rightarrow> addr \<Rightarrow> dheap \<Rightarrow> dheap" where
  "set_f x v h = h\<lparr>link_f := (link_f h)(x := v)\<rparr>"

definition set_b :: "addr \<Rightarrow> addr \<Rightarrow> dheap \<Rightarrow> dheap" where
  "set_b x v h = h\<lparr>link_b := (link_b h)(x := v)\<rparr>"

definition INIT_DLIST :: "addr \<Rightarrow> dheap \<Rightarrow> dheap" where
  "INIT_DLIST listhead h = (let h = set_f listhead listhead h in set_b listhead listhead h)"

definition HEAD_DLIST :: "addr \<Rightarrow> dheap \<Rightarrow> addr option" where
  "HEAD_DLIST listhead h = (if listhead \<noteq> link_f h listhead then Some (link_f h listhead) else None)"

definition TAIL_DLIST :: "addr \<Rightarrow> dheap \<Rightarrow> addr option" where
  "TAIL_DLIST listhead h = (if listhead \<noteq> link_b h listhead then Some (link_b h listhead) else None)"

definition NEXT_DLIST :: "addr \<Rightarrow> addr \<Rightarrow> dheap \<Rightarrow> addr option" where
  "NEXT_DLIST listhead entry h = (if listhead \<noteq> link_f h entry then Some (link_f h entry) else None)"

definition PREV_DLIST :: "addr \<Rightarrow> addr \<Rightarrow> dheap \<Rightarrow> addr option" where
  "PREV_DLIST listhead entry h = (if listhead \<noteq> link_b h entry then Some (link_b h entry) else None)"

definition LINK_DLIST :: "addr \<Rightarrow> addr \<Rightarrow> dheap \<Rightarrow> dheap" where
  "LINK_DLIST listhead pentry h =
     (let h = set_f pentry (link_f h listhead) h;
          h = set_b pentry listhead h;
          h = set_b (link_f h listhead) pentry h
      in set_f listhead pentry h)"

definition LINK_TAIL_DLIST :: "addr \<Rightarrow> addr \<Rightarrow> dheap \<Rightarrow> dheap" where
  "LINK_TAIL_DLIST listhead pentry h =
     (let h = set_b pentry (link_b h listhead) h;
          h = set_f pentry listhead h;
          h = set_f (link_b h listhead) pentry h
      in set_b listhead pentry h)"

definition UNLINK_DLIST :: "addr \<Rightarrow> dheap \<Rightarrow> dheap" where
  "UNLINK_DLIST ptounlink h =
     (let h = set_f (link_b h ptounlink) (link_f h ptounlink) h
      in set_b (link_f h ptounlink) (link_b h ptounlink) h)"

text \<open>
  The loop between \<^verbatim>\<open>ITER_DLIST_BEGIN\<close> and \<^verbatim>\<open>ITER_DLIST_END\<close>, and its mirror image.  The state of the loop is of any
  type; \<open>links\<close> reads the list out of it, and the body may fail.
\<close>

partial_function (option) iter_dlist ::
  "('s \<Rightarrow> dheap) \<Rightarrow> addr \<Rightarrow> (addr \<Rightarrow> 's \<Rightarrow> 's option) \<Rightarrow> addr \<Rightarrow> 's \<Rightarrow> 's option" where
  "iter_dlist links listhead body iter s =
     (if iter = listhead then Some s
      else let nextiter = link_f (links s) iter
           in case body iter s of None \<Rightarrow> None | Some s' \<Rightarrow> iter_dlist links listhead body nextiter s')"

definition ITER_DLIST :: "('s \<Rightarrow> dheap) \<Rightarrow> addr \<Rightarrow> (addr \<Rightarrow> 's \<Rightarrow> 's option) \<Rightarrow> 's \<Rightarrow> 's option" where
  "ITER_DLIST links listhead body s = iter_dlist links listhead body (link_f (links s) listhead) s"

partial_function (option) rev_iter_dlist ::
  "('s \<Rightarrow> dheap) \<Rightarrow> addr \<Rightarrow> (addr \<Rightarrow> 's \<Rightarrow> 's option) \<Rightarrow> addr \<Rightarrow> 's \<Rightarrow> 's option" where
  "rev_iter_dlist links listhead body iter s =
     (if iter = listhead then Some s
      else let nextiter = link_b (links s) iter
           in case body iter s of None \<Rightarrow> None | Some s' \<Rightarrow> rev_iter_dlist links listhead body nextiter s')"

definition REV_ITER_DLIST :: "('s \<Rightarrow> dheap) \<Rightarrow> addr \<Rightarrow> (addr \<Rightarrow> 's \<Rightarrow> 's option) \<Rightarrow> 's \<Rightarrow> 's option" where
  "REV_ITER_DLIST links listhead body s = rev_iter_dlist links listhead body (link_b (links s) listhead) s"

section \<open>Entries\<close>

text \<open>Both chains lead from \<open>p\<close> through \<open>xs\<close> to \<open>q\<close>.\<close>

fun dpath :: "dheap \<Rightarrow> addr \<Rightarrow> addr list \<Rightarrow> addr \<Rightarrow> bool" where
  "dpath h p [] q \<longleftrightarrow> link_f h p = q \<and> link_b h q = p"
| "dpath h p (x # xs) q \<longleftrightarrow> link_f h p = x \<and> link_b h x = p \<and> dpath h x xs q"

definition dlist_repr :: "addr \<Rightarrow> dheap \<Rightarrow> addr list \<Rightarrow> bool" where
  "dlist_repr listhead h xs \<longleftrightarrow> distinct (listhead # xs) \<and> dpath h listhead xs listhead"

lemma dpath_append: "dpath h p (xs @ y # ys) q \<longleftrightarrow> dpath h p xs y \<and> dpath h y ys q"
  by (induction xs arbitrary: p) auto

lemma dpath_ends: "dpath h p xs q \<Longrightarrow> link_f h p = hd (xs @ [q]) \<and> link_b h q = last (p # xs)"
  by (induction xs arbitrary: p) auto

lemma dpath_set_f [simp]: "x \<noteq> p \<Longrightarrow> x \<notin> set xs \<Longrightarrow> dpath (set_f x v h) p xs q = dpath h p xs q"
  by (induction xs arbitrary: p) (auto simp: set_f_def)

lemma dpath_set_b [simp]: "x \<noteq> q \<Longrightarrow> x \<notin> set xs \<Longrightarrow> dpath (set_b x v h) p xs q = dpath h p xs q"
  by (induction xs arbitrary: p) (auto simp: set_b_def)

lemma set_links [simp]:
  "link_f (set_f x v h) = (link_f h)(x := v)" "link_b (set_f x v h) = link_b h"
  "link_b (set_b x v h) = (link_b h)(x := v)" "link_f (set_b x v h) = link_f h"
  by (simp_all add: set_f_def set_b_def)

lemma LINK_DLIST_repr:
  assumes "dlist_repr l h xs" "x \<notin> set xs" "x \<noteq> l"
  shows "dlist_repr l (LINK_DLIST l x h) (x # xs)"
  using assms by (cases xs) (auto simp: dlist_repr_def LINK_DLIST_def Let_def)

lemma LINK_TAIL_DLIST_repr:
  assumes "dlist_repr l h xs" "x \<notin> set xs" "x \<noteq> l"
  shows "dlist_repr l (LINK_TAIL_DLIST l x h) (xs @ [x])"
  using assms by (cases xs rule: rev_cases) (auto simp: dlist_repr_def LINK_TAIL_DLIST_def Let_def dpath_append)

lemma UNLINK_DLIST_repr:
  assumes "dlist_repr l h (ys @ x # zs)"
  shows "dlist_repr l (UNLINK_DLIST x h) (ys @ zs)"
  using assms
  by (cases ys rule: rev_cases; cases zs) (auto simp: dlist_repr_def UNLINK_DLIST_def Let_def dpath_append)

lemma dlist_neighbours:
  assumes "dlist_repr l h (ys @ x # zs)"
  shows "NEXT_DLIST l x h = (case zs of [] \<Rightarrow> None | z # _ \<Rightarrow> Some z)"
    "PREV_DLIST l x h = (if ys = [] then None else Some (last ys))"
proof -
  have d: "dpath h l ys x" "dpath h x zs l" "l \<notin> set ys" "l \<notin> set zs" using assms by (auto simp: dlist_repr_def dpath_append)
  then show "NEXT_DLIST l x h = (case zs of [] \<Rightarrow> None | z # _ \<Rightarrow> Some z)"
    by (cases zs) (auto simp: NEXT_DLIST_def)
  show "PREV_DLIST l x h = (if ys = [] then None else Some (last ys))"
    using dpath_ends [OF d(1)] d(3) by (cases ys rule: rev_cases) (auto simp: PREV_DLIST_def)
qed

lemma dlist_ends:
  assumes "dlist_repr l h xs"
  shows "HEAD_DLIST l h = (case xs of [] \<Rightarrow> None | x # _ \<Rightarrow> Some x)"
    "TAIL_DLIST l h = (if xs = [] then None else Some (last xs))"
proof -
  show "HEAD_DLIST l h = (case xs of [] \<Rightarrow> None | x # _ \<Rightarrow> Some x)"
    using assms by (cases xs) (auto simp: dlist_repr_def HEAD_DLIST_def)
  have "link_b h l = last (l # xs)" "l \<notin> set xs" using assms dpath_ends [of h l xs l] by (simp_all add: dlist_repr_def)
  then show "TAIL_DLIST l h = (if xs = [] then None else Some (last xs))"
    by (cases xs rule: rev_cases) (auto simp: TAIL_DLIST_def)
qed

section \<open>Iteration\<close>

text \<open>What a loop computes that visits the entries \<open>xs\<close> in turn.\<close>

fun visit :: "(addr \<Rightarrow> 's \<Rightarrow> 's option) \<Rightarrow> addr list \<Rightarrow> 's \<Rightarrow> 's option" where
  "visit body [] s = Some s"
| "visit body (x # xs) s = (case body x s of None \<Rightarrow> None | Some s' \<Rightarrow> visit body xs s')"

text \<open>The body may unlink the entry that it is given, and no other.\<close>

definition unlinks_at_most :: "('s \<Rightarrow> dheap) \<Rightarrow> addr \<Rightarrow> (addr \<Rightarrow> 's \<Rightarrow> 's option) \<Rightarrow> bool" where
  "unlinks_at_most links l body \<longleftrightarrow> (\<forall>ys x zs s s'. dlist_repr l (links s) (ys @ x # zs) \<and> body x s = Some s' \<longrightarrow>
     dlist_repr l (links s') (ys @ x # zs) \<or> dlist_repr l (links s') (ys @ zs))"

lemma iter_dlist_eq:
  assumes "unlinks_at_most links l body" "dlist_repr l (links s) (us @ xs)"
  shows "iter_dlist links l body (hd (xs @ [l])) s = visit body xs s"
  using assms(2)
proof (induction xs arbitrary: us s)
  case Nil
  show ?case by (subst iter_dlist.simps) simp
next
  case (Cons x xs)
  have n: "link_f (links s) x = hd (xs @ [l])" "x \<noteq> l"
    using Cons.prems dpath_ends [of "links s" x xs l] by (auto simp: dlist_repr_def dpath_append)
  show ?case
  proof (cases "body x s")
    case (Some s')
    then have "dlist_repr l (links s') (us @ x # xs) \<or> dlist_repr l (links s') (us @ xs)"
      using assms(1) Cons.prems unfolding unlinks_at_most_def by blast
    then have "iter_dlist links l body (hd (xs @ [l])) s' = visit body xs s'"
      using Cons.IH [of s' "us @ [x]"] Cons.IH [of s' us] by auto
    then show ?thesis using Some n by (subst iter_dlist.simps) simp
  qed (use n in \<open>subst iter_dlist.simps; simp\<close>)
qed

lemma rev_iter_dlist_eq:
  assumes "unlinks_at_most links l body" "dlist_repr l (links s) (xs @ us)"
  shows "rev_iter_dlist links l body (last (l # xs)) s = visit body (rev xs) s"
  using assms(2)
proof (induction xs arbitrary: us s rule: rev_induct)
  case Nil
  show ?case by (subst rev_iter_dlist.simps) simp
next
  case (snoc x xs)
  have n: "link_b (links s) x = last (l # xs)" "x \<noteq> l"
    using snoc.prems dpath_ends [of "links s" l xs x] by (auto simp: dlist_repr_def dpath_append)
  show ?case
  proof (cases "body x s")
    case (Some s')
    then have "dlist_repr l (links s') (xs @ x # us) \<or> dlist_repr l (links s') (xs @ us)"
      using assms(1) snoc.prems unfolding unlinks_at_most_def by (metis append.assoc append_Cons append_Nil)
    then have "rev_iter_dlist links l body (last (l # xs)) s' = visit body (rev xs) s'"
      using snoc.IH [of s' "x # us"] snoc.IH [of s' us] by auto
    then show ?thesis using Some n by (subst rev_iter_dlist.simps) simp
  qed (use n in \<open>subst rev_iter_dlist.simps; simp\<close>)
qed

text \<open>
  C40: doubly linked lists.  Linking at the head and at the tail and unlinking act on the sequence of entries as the list operations do,
  and the ends and neighbours of an entry are the ones of the sequence.  A loop over the list ends and visits
  every entry once, first to last or last to first, even when its body unlinks the entry it is given.
\<close>
theorem dlist_operations:
  assumes "dlist_repr l h xs" "x \<notin> insert l (set xs)" "unlinks_at_most links l body" "dlist_repr l (links s) ws"
  shows "dlist_repr l (INIT_DLIST l h) [] \<and> dlist_repr l (LINK_DLIST l x h) (x # xs) \<and> dlist_repr l (LINK_TAIL_DLIST l x h) (xs @ [x]) \<and>
    (\<forall>y \<in> set xs. dlist_repr l (UNLINK_DLIST y h) (remove1 y xs)) \<and>
    HEAD_DLIST l h = (if xs = [] then None else Some (hd xs)) \<and> TAIL_DLIST l h = (if xs = [] then None else Some (last xs)) \<and>
    (\<forall>ys y z zs. xs = ys @ y # z # zs \<longrightarrow> NEXT_DLIST l y h = Some z \<and> PREV_DLIST l z h = Some y) \<and>
    ITER_DLIST links l body s = visit body ws s \<and> REV_ITER_DLIST links l body s = visit body (rev ws) s"
proof -
  have u: "dlist_repr l (UNLINK_DLIST y h) (remove1 y xs)" if y: "y \<in> set xs" for y
  proof -
    obtain us vs where "xs = us @ y # vs" "y \<notin> set us" using split_list_first [OF y] by blast
    then show ?thesis using UNLINK_DLIST_repr [of l h us y vs] assms(1) by (simp add: remove1_append)
  qed
  have n: "NEXT_DLIST l y h = Some z \<and> PREV_DLIST l z h = Some y" if "xs = ys @ y # z # zs" for ys y z zs
    using dlist_neighbours(1) [of l h ys y "z # zs"] dlist_neighbours(2) [of l h "ys @ [y]" z zs] assms(1) that by simp
  have i: "dlist_repr l (INIT_DLIST l h) []" by (simp add: dlist_repr_def INIT_DLIST_def)
  have e: "HEAD_DLIST l h = (if xs = [] then None else Some (hd xs))" using dlist_ends(1) [OF assms(1)] by (cases xs) simp_all
  have w: "link_f (links s) l = hd (ws @ [l])" "link_b (links s) l = last (l # ws)"
    using dpath_ends [of "links s" l ws l] assms(4) by (simp_all add: dlist_repr_def)
  have "ITER_DLIST links l body s = visit body ws s" "REV_ITER_DLIST links l body s = visit body (rev ws) s"
    using iter_dlist_eq [OF assms(3), of s "[]" ws] rev_iter_dlist_eq [OF assms(3), of s ws "[]"] assms(4) w
    by (simp_all add: ITER_DLIST_def REV_ITER_DLIST_def)
  then show ?thesis
    using LINK_DLIST_repr [OF assms(1)] LINK_TAIL_DLIST_repr [OF assms(1)] dlist_ends(2) [OF assms(1)] assms(2) u n i e by blast
qed

theorem dlist_operations_witness:
  "\<exists>h. dlist_repr 0 h [1, 2, 3] \<and> ITER_DLIST (\<lambda>s. s) 0 (\<lambda>x s. Some (UNLINK_DLIST x s)) h \<noteq> None"
proof -
  define h where "h = LINK_TAIL_DLIST 0 3 (LINK_TAIL_DLIST 0 2 (LINK_DLIST 0 1 (INIT_DLIST 0 \<lparr>link_f = id, link_b = id\<rparr>)))"
  have h: "dlist_repr 0 h [1, 2, 3]"
    by (simp add: h_def dlist_repr_def LINK_TAIL_DLIST_def LINK_DLIST_def INIT_DLIST_def Let_def)
  have "unlinks_at_most (\<lambda>s. s) 0 (\<lambda>x s. Some (UNLINK_DLIST x s))"
    using UNLINK_DLIST_repr by (auto simp: unlinks_at_most_def)
  from dlist_operations [OF h _ this h, of 4] h show ?thesis by auto
qed

end
