(* ===== verification/Recv_Buff.thy ===== *)
theory Recv_Buff
  imports NTP_Lists
begin

text \<open>
  The receive buffer pool of \<^verbatim>\<open>libntp/recvbuff.c\<close>: a singly linked free list and the FIFO of full buffers, which share the
  link field of the buffers, and the counters.  Buffers are addresses handed out in order by the allocator.  Of
  \<^verbatim>\<open>struct recvbuf\<close> the fields that this file reads or writes are kept.  \<^verbatim>\<open>HAVE_SIGNALED_IO\<close> is an argument of the one
  function that it changes.  Locking and logging are left out, and \<open>None\<close> stands for a failed assertion or a
  \<^verbatim>\<open>NULL\<close> dereference.
\<close>

section \<open>State and operations\<close>

definition RECV_INIT :: int where "RECV_INIT = 10"
definition RECV_INC :: int where "RECV_INC = 5"

record recvbuf =
  fd :: int
  used :: int

text \<open>The anchors of \<^verbatim>\<open>full_recv_fifo\<close> and \<^verbatim>\<open>free_recv_list\<close>.\<close>

definition full_recv_fifo :: nat where "full_recv_fifo = 0"
definition free_recv_list :: nat where "free_recv_list = 1"

record recv_state =
  lists :: fifo_heap
  bufs :: "addr \<Rightarrow> recvbuf"
  fresh :: addr
  full_recvbufs :: u_int64
  free_recvbufs :: u_int64
  total_recvbufs :: u_int64
  lowater_adds :: u_int64
  buffer_shortfall :: u_int64

definition zero_recvbuf :: recvbuf where
  "zero_recvbuf = \<lparr>fd = 0, used = 0\<rparr>"

definition free_recvbuffs :: "recv_state \<Rightarrow> u_int64" where
  "free_recvbuffs s = free_recvbufs s"

definition full_recvbuffs :: "recv_state \<Rightarrow> u_int64" where
  "full_recvbuffs s = full_recvbufs s"

definition total_recvbuffs :: "recv_state \<Rightarrow> u_int64" where
  "total_recvbuffs s = total_recvbufs s"

definition lowater_additions :: "recv_state \<Rightarrow> u_int64" where
  "lowater_additions s = lowater_adds s"

definition initialise_buffer :: "addr \<Rightarrow> recv_state \<Rightarrow> recv_state" where
  "initialise_buffer buff s = s\<lparr>bufs := (bufs s)(buff := zero_recvbuf)\<rparr>"

text \<open>One turn of the loop in \<^verbatim>\<open>create_buffers\<close>, on the next buffer of the zeroed allocation.\<close>

definition create_buffer :: "recv_state \<Rightarrow> recv_state" where
  "create_buffer s =
     (let bufp = fresh s
      in s\<lparr>lists := LINK_SLIST free_recv_list bufp (lists s), bufs := (bufs s)(bufp := zero_recvbuf), fresh := bufp + 1,
           free_recvbufs := free_recvbufs s + 1, total_recvbufs := total_recvbufs s + 1\<rparr>)"

definition create_buffers :: "int \<Rightarrow> recv_state \<Rightarrow> recv_state" where
  "create_buffers nbufs s =
     (let abuf = s32 (uint (word_of_int nbufs + buffer_shortfall s));
          s = s\<lparr>buffer_shortfall := 0\<rparr>;
          s = (create_buffer ^^ nat abuf) s
      in s\<lparr>lowater_adds := lowater_adds s + 1\<rparr>)"

definition init_recvbuff :: "int \<Rightarrow> recv_state \<Rightarrow> recv_state" where
  "init_recvbuff nbufs s =
     (let s = s\<lparr>free_recvbufs := 0, total_recvbufs := 0, full_recvbufs := 0, lowater_adds := 0\<rparr>
      in create_buffers nbufs s)"

text \<open>The two loops of \<^verbatim>\<open>uninit_recvbuff\<close>; \<open>freed\<close> collects the buffers passed to \<^verbatim>\<open>free\<close>.\<close>

partial_function (option) uninit_full :: "addr list \<Rightarrow> fifo_heap \<Rightarrow> (addr list \<times> fifo_heap) option" where
  "uninit_full freed h =
     (case UNLINK_FIFO full_recv_fifo h of
        (None, h') \<Rightarrow> Some (freed, h')
      | (Some b, h') \<Rightarrow> uninit_full (freed @ [b]) h')"

partial_function (option) uninit_free :: "addr list \<Rightarrow> fifo_heap \<Rightarrow> (addr list \<times> fifo_heap) option" where
  "uninit_free freed h =
     (case UNLINK_HEAD_SLIST free_recv_list h of
        (None, h') \<Rightarrow> Some (freed, h')
      | (Some b, h') \<Rightarrow> uninit_free (freed @ [b]) h')"

definition uninit_recvbuff :: "recv_state \<Rightarrow> (addr list \<times> recv_state) option" where
  "uninit_recvbuff s =
     (case uninit_full [] (lists s) of
        None \<Rightarrow> None
      | Some (freed, h) \<Rightarrow>
          (case uninit_free freed h of None \<Rightarrow> None | Some (freed, h) \<Rightarrow> Some (freed, s\<lparr>lists := h\<rparr>)))"

definition freerecvbuf :: "addr option \<Rightarrow> recv_state \<Rightarrow> recv_state" where
  "freerecvbuf rb s =
     (case rb of
        None \<Rightarrow> s
      | Some b \<Rightarrow>
          let s = s\<lparr>bufs := (bufs s)(b := (bufs s b)\<lparr>used := s32 (used (bufs s b) - 1)\<rparr>)\<rparr>
          in s\<lparr>lists := LINK_SLIST free_recv_list b (lists s), free_recvbufs := free_recvbufs s + 1\<rparr>)"

definition add_full_recv_buffer :: "addr option \<Rightarrow> recv_state \<Rightarrow> recv_state option" where
  "add_full_recv_buffer rb s =
     (case rb of
        None \<Rightarrow> Some s
      | Some b \<Rightarrow>
          (case LINK_FIFO full_recv_fifo b (lists s) of
             None \<Rightarrow> None
           | Some h \<Rightarrow> Some (s\<lparr>lists := h, full_recvbufs := full_recvbufs s + 1\<rparr>)))"

definition get_free_recv_buffer :: "recv_state \<Rightarrow> addr option \<times> recv_state" where
  "get_free_recv_buffer s =
     (let (buffer, h) = UNLINK_HEAD_SLIST free_recv_list (lists s);
          s = s\<lparr>lists := h\<rparr>
      in case buffer of
           None \<Rightarrow> (None, s\<lparr>buffer_shortfall := buffer_shortfall s + 1\<rparr>)
         | Some b \<Rightarrow>
             let s = s\<lparr>free_recvbufs := free_recvbufs s - 1\<rparr>;
                 s = initialise_buffer b s;
                 s = s\<lparr>bufs := (bufs s)(b := (bufs s b)\<lparr>used := s32 (used (bufs s b) + 1)\<rparr>)\<rparr>
             in (Some b, s))"

definition get_free_recv_buffer_alloc :: "recv_state \<Rightarrow> (addr \<times> recv_state) option" where
  "get_free_recv_buffer_alloc s =
     (let (buffer, s) = get_free_recv_buffer s;
          (buffer, s) = (if buffer = None then get_free_recv_buffer (create_buffers RECV_INC s) else (buffer, s))
      in case buffer of None \<Rightarrow> None | Some b \<Rightarrow> Some (b, s))"

definition get_full_recv_buffer :: "bool \<Rightarrow> recv_state \<Rightarrow> addr option \<times> recv_state" where
  "get_full_recv_buffer signaled_io s =
     (let s = (if signaled_io \<and> (phead (lists s) free_recv_list = None \<or> buffer_shortfall s > 0)
               then create_buffers RECV_INC s else s);
          (rbuf, h) = UNLINK_FIFO full_recv_fifo (lists s);
          s = s\<lparr>lists := h\<rparr>
      in (rbuf, if rbuf \<noteq> None then s\<lparr>full_recvbufs := full_recvbufs s - 1\<rparr> else s))"

partial_function (option) purge_loop :: "int \<Rightarrow> addr option \<Rightarrow> recv_state \<Rightarrow> recv_state option" where
  "purge_loop sock rbufp s =
     (case rbufp of
        None \<Rightarrow> Some s
      | Some b \<Rightarrow>
          let nxt = nextlink (lists s) b
          in if fd (bufs s b) = sock then
               (case UNLINK_MID_FIFO full_recv_fifo b (lists s) of
                  None \<Rightarrow> None
                | Some (punlinked, h) \<Rightarrow>
                    if punlinked \<noteq> Some b then None
                    else purge_loop sock nxt
                           (freerecvbuf (Some b) (s\<lparr>lists := h, full_recvbufs := full_recvbufs s - 1\<rparr>)))
             else purge_loop sock nxt s)"

definition purge_recv_buffers_for_fd :: "int \<Rightarrow> recv_state \<Rightarrow> recv_state option" where
  "purge_recv_buffers_for_fd sock s = purge_loop sock (HEAD_FIFO full_recv_fifo (lists s)) s"

definition has_full_recv_buffer :: "recv_state \<Rightarrow> bool" where
  "has_full_recv_buffer s \<longleftrightarrow> HEAD_FIFO full_recv_fifo (lists s) \<noteq> None"

text \<open>The consistency check of the debug build: the expected tail location, then the two \<^verbatim>\<open>REQUIRE\<close>s.\<close>

partial_function (option) expected_tail :: "fifo_heap \<Rightarrow> addr option \<Rightarrow> ploc \<Rightarrow> ploc option" where
  "expected_tail h pthis pp =
     (case pthis of
        None \<Rightarrow> Some pp
      | Some e \<Rightarrow> expected_tail h (nextlink h e) (if nextlink h e \<noteq> None then PLink e else pp))"

definition check_gen_fifo_consistency :: "nat \<Rightarrow> fifo_heap \<Rightarrow> bool option" where
  "check_gen_fifo_consistency a h =
     (if (phead h a = None) \<noteq> (pptail h a = None) then Some False
      else case expected_tail h (phead h a) (PHead a) of
             None \<Rightarrow> None
           | Some pp \<Rightarrow> Some (pptail h a = None \<or> pptail h a = Some pp))"

section \<open>The pool invariant\<close>

text \<open>The two lists are disjoint, hold buffers that were allocated, and the counters count them.\<close>

definition recv_inv :: "recv_state \<Rightarrow> addr list \<Rightarrow> addr list \<Rightarrow> bool" where
  "recv_inv s fr fl \<longleftrightarrow> slist_repr free_recv_list (lists s) fr \<and> fifo_repr full_recv_fifo (lists s) fl \<and>
     set fr \<inter> set fl = {} \<and> set fr \<union> set fl \<subseteq> {..<fresh s} \<and>
     free_recvbufs s = of_nat (length fr) \<and> full_recvbufs s = of_nat (length fl)"

lemma frame_slist:
  "fifo_frame a X h h' \<Longrightarrow> b \<noteq> a \<Longrightarrow> slist_repr b h xs \<Longrightarrow> set xs \<inter> X = {} \<Longrightarrow> slist_repr b h' xs"
  using seg_cong [of xs "nextlink h'" "nextlink h" "phead h b" None]
  by (simp add: fifo_frame_def slist_repr_def disjoint_iff)

lemma frame_fifo:
  "fifo_frame a X h h' \<Longrightarrow> b \<noteq> a \<Longrightarrow> fifo_repr b h xs \<Longrightarrow> set xs \<inter> X = {} \<Longrightarrow> fifo_repr b h' xs"
  using seg_cong [of xs "nextlink h'" "nextlink h" "phead h b" None]
  by (simp add: fifo_frame_def fifo_repr_def disjoint_iff)

lemma LINK_SLIST_frame: "fifo_frame l {x} h (LINK_SLIST l x h)"
  by (simp add: LINK_SLIST_def fifo_frame_def Let_def)

lemma UNLINK_HEAD_SLIST_frame: "fifo_frame l {} h (snd (UNLINK_HEAD_SLIST l h))"
  by (simp add: UNLINK_HEAD_SLIST_def fifo_frame_def split: option.split)

lemma anchors_distinct [simp]: "full_recv_fifo \<noteq> free_recv_list" "free_recv_list \<noteq> full_recv_fifo"
  by (simp_all add: full_recv_fifo_def free_recv_list_def)

lemma link_free_lists:
  assumes "recv_inv s fr fl" "b \<notin> set fr" "b \<notin> set fl"
  shows "slist_repr free_recv_list (LINK_SLIST free_recv_list b (lists s)) (b # fr)"
    "fifo_repr full_recv_fifo (LINK_SLIST free_recv_list b (lists s)) fl"
proof -
  show "slist_repr free_recv_list (LINK_SLIST free_recv_list b (lists s)) (b # fr)"
    using assms by (simp add: recv_inv_def LINK_SLIST_repr)
  show "fifo_repr full_recv_fifo (LINK_SLIST free_recv_list b (lists s)) fl"
    using assms by (intro frame_fifo [OF LINK_SLIST_frame]) (auto simp: recv_inv_def)
qed

lemma freerecvbuf_inv:
  assumes "recv_inv s fr fl" "b \<notin> set fr" "b \<notin> set fl" "b < fresh s"
  shows "recv_inv (freerecvbuf (Some b) s) (b # fr) fl"
  using link_free_lists [OF assms(1-3)] assms by (simp add: recv_inv_def freerecvbuf_def Let_def)

lemma create_buffer_inv:
  assumes "recv_inv s fr fl"
  shows "recv_inv (create_buffer s) (fresh s # fr) fl"
proof -
  have "fresh s \<notin> set fr" "fresh s \<notin> set fl" using assms by (auto simp: recv_inv_def)
  from link_free_lists [OF assms this] this assms show ?thesis
    by (auto simp: recv_inv_def create_buffer_def Let_def)
qed

lemma create_buffer_simps [simp]:
  "fresh (create_buffer s) = Suc (fresh s)" "total_recvbufs (create_buffer s) = total_recvbufs s + 1"
  "buffer_shortfall (create_buffer s) = buffer_shortfall s"
  by (simp_all add: create_buffer_def Let_def)

lemma create_buffer_loop:
  assumes "recv_inv s fr fl"
  shows "recv_inv ((create_buffer ^^ n) s) (rev [fresh s..<fresh s + n] @ fr) fl \<and>
    fresh ((create_buffer ^^ n) s) = fresh s + n \<and>
    total_recvbufs ((create_buffer ^^ n) s) = total_recvbufs s + of_nat n \<and>
    buffer_shortfall ((create_buffer ^^ n) s) = buffer_shortfall s"
proof (induction n)
  case 0
  then show ?case using assms by simp
next
  case (Suc n)
  then have "recv_inv (create_buffer ((create_buffer ^^ n) s)) ((fresh s + n) # rev [fresh s..<fresh s + n] @ fr) fl"
    using create_buffer_inv [of "(create_buffer ^^ n) s"] by fastforce
  with Suc show ?case by simp
qed

definition created :: "int \<Rightarrow> recv_state \<Rightarrow> nat" where
  "created nbufs s = nat (s32 (uint (word_of_int nbufs + buffer_shortfall s)))"

lemma recv_inv_more [simp]:
  "recv_inv (s\<lparr>buffer_shortfall := v\<rparr>) = recv_inv s"
  "recv_inv (s\<lparr>lowater_adds := v\<rparr>) = recv_inv s"
  "recv_inv (s\<lparr>total_recvbufs := v\<rparr>) = recv_inv s"
  "recv_inv (s\<lparr>bufs := m\<rparr>) = recv_inv s"
  by (intro ext, simp add: recv_inv_def)+

lemma create_buffers_inv:
  assumes "recv_inv s fr fl"
  shows "recv_inv (create_buffers n s) (rev [fresh s..<fresh s + created n s] @ fr) fl"
    "fresh (create_buffers n s) = fresh s + created n s"
    "total_recvbufs (create_buffers n s) = total_recvbufs s + of_nat (created n s)"
    "buffer_shortfall (create_buffers n s) = 0"
  using create_buffer_loop [of "s\<lparr>buffer_shortfall := 0\<rparr>" fr fl "created n s"] assms
  by (simp_all add: create_buffers_def created_def Let_def)

lemma add_full_inv:
  assumes "recv_inv s fr fl" "b \<notin> set fr" "b \<notin> set fl" "b < fresh s"
  shows "\<exists>s'. add_full_recv_buffer (Some b) s = Some s' \<and> recv_inv s' fr (fl @ [b]) \<and> fresh s' = fresh s \<and>
    total_recvbufs s' = total_recvbufs s \<and> bufs s' = bufs s"
proof -
  obtain h where h: "LINK_FIFO full_recv_fifo b (lists s) = Some h" "fifo_repr full_recv_fifo h (fl @ [b])"
    "fifo_frame full_recv_fifo (insert b (set fl)) (lists s) h"
    using LINK_FIFO_repr [of full_recv_fifo "lists s" fl b] assms by (auto simp: recv_inv_def)
  have "slist_repr free_recv_list h fr"
    using assms by (intro frame_slist [OF h(3)]) (auto simp: recv_inv_def)
  with h assms show ?thesis by (auto simp: add_full_recv_buffer_def recv_inv_def)
qed

lemma get_free_empty:
  assumes "recv_inv s [] fl"
  shows "get_free_recv_buffer s = (None, s\<lparr>buffer_shortfall := buffer_shortfall s + 1\<rparr>)"
  using UNLINK_HEAD_SLIST_repr(1) [of free_recv_list "lists s"] assms by (simp add: recv_inv_def get_free_recv_buffer_def)

lemma get_free_inv:
  assumes "recv_inv s (b # fr) fl"
  shows "\<exists>s'. get_free_recv_buffer s = (Some b, s') \<and> recv_inv s' fr fl \<and> fresh s' = fresh s \<and>
    total_recvbufs s' = total_recvbufs s \<and> bufs s' = (bufs s)(b := \<lparr>fd = 0, used = 1\<rparr>)"
proof -
  obtain h where h: "UNLINK_HEAD_SLIST free_recv_list (lists s) = (Some b, h)" "slist_repr free_recv_list h fr"
    using UNLINK_HEAD_SLIST_repr(2) [of free_recv_list "lists s" b fr] assms by (auto simp: recv_inv_def)
  have "fifo_repr full_recv_fifo h fl"
    using UNLINK_HEAD_SLIST_frame [of free_recv_list "lists s"] assms h
    by (intro frame_fifo [of free_recv_list "{}" "lists s" h]) (auto simp: recv_inv_def)
  with h assms show ?thesis
    by (auto simp: get_free_recv_buffer_def recv_inv_def initialise_buffer_def zero_recvbuf_def s32_def Let_def)
qed

lemma get_full_inv:
  assumes "recv_inv s fr (b # fl)"
  shows "\<exists>s'. get_full_recv_buffer False s = (Some b, s') \<and> recv_inv s' fr fl \<and> fresh s' = fresh s \<and>
    total_recvbufs s' = total_recvbufs s \<and> bufs s' = bufs s"
proof -
  obtain h where h: "UNLINK_FIFO full_recv_fifo (lists s) = (Some b, h)" "fifo_repr full_recv_fifo h fl"
    "fifo_frame full_recv_fifo {} (lists s) h"
    using UNLINK_FIFO_repr [of full_recv_fifo "lists s" b fl] assms by (auto simp: recv_inv_def)
  have "slist_repr free_recv_list h fr"
    using assms by (intro frame_slist [OF h(3)]) (auto simp: recv_inv_def)
  with h assms show ?thesis by (auto simp: get_full_recv_buffer_def recv_inv_def)
qed

lemma get_full_empty: "recv_inv s fr [] \<Longrightarrow> get_full_recv_buffer False s = (None, s)"
  by (simp add: get_full_recv_buffer_def UNLINK_FIFO_empty recv_inv_def)

lemma get_full_signaled:
  "get_full_recv_buffer True s = get_full_recv_buffer False
     (if phead (lists s) free_recv_list = None \<or> buffer_shortfall s > 0 then create_buffers RECV_INC s else s)"
  by (simp add: get_full_recv_buffer_def)

section \<open>Reachable pools\<close>

text \<open>
  \<open>H\<close> holds the buffers that the rest of the program currently owns; only those are filled in, given back or queued.  A socket
  is purged while its buffers, if any, are the oldest full ones; \<open>purge_recv_buffers_cases\<close> below shows what happens when its buffer
  is the newest.
\<close>

definition recv_zero :: recv_state where
  "recv_zero = \<lparr>lists = empty_heap, bufs = (\<lambda>_. zero_recvbuf), fresh = 0, full_recvbufs = 0, free_recvbufs = 0,
     total_recvbufs = 0, lowater_adds = 0, buffer_shortfall = 0\<rparr>"

inductive recv_reach :: "recv_state \<Rightarrow> addr set \<Rightarrow> bool" where
  init: "recv_reach (init_recvbuff n recv_zero) {}"
| get_free: "recv_reach s H \<Longrightarrow> get_free_recv_buffer s = (r, s') \<Longrightarrow> recv_reach s' (H \<union> set_option r)"
| get_alloc: "recv_reach s H \<Longrightarrow> get_free_recv_buffer_alloc s = Some (b, s') \<Longrightarrow> recv_reach s' (insert b H)"
| get_full: "recv_reach s H \<Longrightarrow> get_full_recv_buffer sig s = (r, s') \<Longrightarrow> recv_reach s' (H \<union> set_option r)"
| add_full: "recv_reach s H \<Longrightarrow> b \<in> H \<Longrightarrow> add_full_recv_buffer (Some b) s = Some s' \<Longrightarrow> recv_reach s' (H - {b})"
| free: "recv_reach s H \<Longrightarrow> b \<in> H \<Longrightarrow> recv_reach (freerecvbuf (Some b) s) (H - {b})"
| fill: "recv_reach s H \<Longrightarrow> b \<in> H \<Longrightarrow> recv_reach (s\<lparr>bufs := (bufs s)(b := rb)\<rparr>) H"
| purge: "recv_reach s H \<Longrightarrow> fifo_repr full_recv_fifo (lists s) (ps @ qs) \<Longrightarrow> \<forall>b \<in> set ps. fd (bufs s b) = sock \<Longrightarrow>
    \<forall>b \<in> set qs. fd (bufs s b) \<noteq> sock \<Longrightarrow> purge_recv_buffers_for_fd sock s = Some s' \<Longrightarrow> recv_reach s' H"

text \<open>Every allocated buffer is on exactly one of the two lists or owned.\<close>

definition recv_owned :: "recv_state \<Rightarrow> addr set \<Rightarrow> addr list \<Rightarrow> addr list \<Rightarrow> bool" where
  "recv_owned s H fr fl \<longleftrightarrow> recv_inv s fr fl \<and> H \<inter> (set fr \<union> set fl) = {} \<and> H \<union> set fr \<union> set fl = {..<fresh s} \<and>
     total_recvbufs s = of_nat (fresh s)"

lemma owned_create:
  assumes "recv_owned s H fr fl"
  shows "recv_owned (create_buffers n s) H (rev [fresh s..<fresh s + created n s] @ fr) fl"
proof -
  have "{..<fresh s + created n s} = {..<fresh s} \<union> {fresh s..<fresh s + created n s}" by auto
  moreover have "H \<subseteq> {..<fresh s}" "H \<union> set fr \<union> set fl = {..<fresh s}" "H \<inter> (set fr \<union> set fl) = {}"
    using assms by (auto simp: recv_owned_def)
  moreover have "H \<inter> {fresh s..<fresh s + created n s} = {}" using calculation(2) by auto
  ultimately have "H \<union> set (rev [fresh s..<fresh s + created n s] @ fr) \<union> set fl = {..<fresh s + created n s}"
    "H \<inter> (set (rev [fresh s..<fresh s + created n s] @ fr) \<union> set fl) = {}"
    unfolding set_append set_rev set_upt by blast+
  with create_buffers_inv [of s fr fl n] assms show ?thesis unfolding recv_owned_def by simp
qed

lemma owned_get_free:
  assumes "recv_owned s H fr fl" "get_free_recv_buffer s = (r, s')"
  shows "\<exists>fr. recv_owned s' (H \<union> set_option r) fr fl"
proof (cases fr)
  case Nil
  then show ?thesis using get_free_empty [of s fl] assms by (auto simp: recv_owned_def)
next
  case (Cons b fr')
  then obtain s1 where s1: "get_free_recv_buffer s = (Some b, s1)" "recv_inv s1 fr' fl" "fresh s1 = fresh s"
    "total_recvbufs s1 = total_recvbufs s"
    using get_free_inv [of s b fr' fl] assms by (auto simp: recv_owned_def)
  moreover have "b \<notin> set fr'" "b \<notin> set fl"
    using assms Cons by (auto simp: recv_owned_def recv_inv_def slist_repr_def)
  ultimately have "recv_owned s' (H \<union> set_option r) fr' fl" using assms Cons by (auto simp: recv_owned_def)
  then show ?thesis ..
qed

lemma owned_get_full:
  assumes "recv_owned s H fr fl" "get_full_recv_buffer False s = (r, s')"
  shows "\<exists>fl. recv_owned s' (H \<union> set_option r) fr fl"
proof (cases fl)
  case Nil
  then show ?thesis using get_full_empty [of s fr] assms by (auto simp: recv_owned_def)
next
  case (Cons b fl')
  then obtain s1 where s1: "get_full_recv_buffer False s = (Some b, s1)" "recv_inv s1 fr fl'" "fresh s1 = fresh s"
    "total_recvbufs s1 = total_recvbufs s"
    using get_full_inv [of s fr b fl'] assms by (auto simp: recv_owned_def)
  moreover have "b \<notin> set fl'" "b \<notin> set fr"
    using assms Cons by (auto simp: recv_owned_def recv_inv_def fifo_repr_def)
  ultimately have "recv_owned s' (H \<union> set_option r) fr fl'" using assms Cons by (auto simp: recv_owned_def)
  then show ?thesis ..
qed

lemma owned_free:
  assumes "recv_owned s H fr fl" "b \<in> H"
  shows "recv_owned (freerecvbuf (Some b) s) (H - {b}) (b # fr) fl"
proof -
  have b: "b \<notin> set fr" "b \<notin> set fl" "b < fresh s" using assms by (auto simp: recv_owned_def)
  have "fresh (freerecvbuf (Some b) s) = fresh s" "total_recvbufs (freerecvbuf (Some b) s) = total_recvbufs s"
    by (simp_all add: freerecvbuf_def Let_def)
  with freerecvbuf_inv [OF _ b] b assms show ?thesis by (auto simp: recv_owned_def)
qed

lemma owned_add_full:
  assumes "recv_owned s H fr fl" "b \<in> H"
  shows "\<exists>s'. add_full_recv_buffer (Some b) s = Some s' \<and> recv_owned s' (H - {b}) fr (fl @ [b])"
proof -
  have b: "b \<notin> set fr" "b \<notin> set fl" "b < fresh s" using assms by (auto simp: recv_owned_def)
  have "recv_inv s fr fl" using assms by (simp add: recv_owned_def)
  from add_full_inv [OF this b] assms b show ?thesis by (fastforce simp: recv_owned_def)
qed

lemma alloc_cases:
  assumes "get_free_recv_buffer s = (r, s1)"
  shows "get_free_recv_buffer_alloc s =
    (case r of
       Some b \<Rightarrow> Some (b, s1)
     | None \<Rightarrow> (case get_free_recv_buffer (create_buffers RECV_INC s1) of (None, _) \<Rightarrow> None | (Some b, s2) \<Rightarrow> Some (b, s2)))"
  using assms by (auto simp: get_free_recv_buffer_alloc_def split: option.splits prod.splits)

lemma owned_alloc:
  assumes "recv_owned s H fr fl" "get_free_recv_buffer_alloc s = Some (b, s')"
  shows "\<exists>fr fl. recv_owned s' (insert b H) fr fl"
proof -
  obtain r s1 where g: "get_free_recv_buffer s = (r, s1)" by fastforce
  then obtain fr1 where o1: "recv_owned s1 (H \<union> set_option r) fr1 fl" using owned_get_free assms by blast
  show ?thesis
  proof (cases r)
    case None
    obtain r2 s2 where g2: "get_free_recv_buffer (create_buffers RECV_INC s1) = (r2, s2)" by fastforce
    then obtain fr2 where "recv_owned s2 (H \<union> set_option r2) fr2 fl"
      using owned_get_free owned_create o1 None by (metis Un_empty_right option.set(1))
    then show ?thesis using assms g g2 None by (auto simp: alloc_cases split: option.splits)
  next
    case (Some c)
    then show ?thesis using assms g o1 by (auto simp: alloc_cases)
  qed
qed

lemma purge_skip:
  assumes "seg (nextlink (lists s)) p ys q" "\<forall>b \<in> set ys. fd (bufs s b) \<noteq> sock"
  shows "purge_loop sock p s = purge_loop sock q s"
  using assms
proof (induction ys arbitrary: p)
  case (Cons y ys)
  then show ?case by (subst purge_loop.simps) simp
qed simp

lemma purge_end [simp]: "purge_loop sock None s = Some s"
  by (subst purge_loop.simps) simp

lemma unlink_mid_head_inv:
  assumes "recv_inv s fr (b # fl)"
  shows "\<exists>h. UNLINK_MID_FIFO full_recv_fifo b (lists s) = Some (Some b, h) \<and> phead h full_recv_fifo = nextlink (lists s) b \<and>
    recv_inv (s\<lparr>lists := h, full_recvbufs := full_recvbufs s - 1\<rparr>) fr fl"
proof -
  have f: "fifo_repr full_recv_fifo (lists s) ([] @ b # fl)" using assms by (simp add: recv_inv_def)
  define h where "h = (assign (lists s) (PHead full_recv_fifo) (nextlink (lists s) b))\<lparr>pptail := (pptail (lists s))(full_recv_fifo :=
    if fl = [] then None else if length fl = 1 then Some (PHead full_recv_fifo) else pptail (lists s) full_recv_fifo)\<rparr>"
  have u: "UNLINK_MID_FIFO full_recv_fifo b (lists s) = Some (Some b, h)"
    using UNLINK_MID_FIFO_eq(1) [OF f] by (simp add: h_def)
  have s: "seg (nextlink h) (phead h full_recv_fifo) fl None"
    using UNLINK_MID_FIFO_eq(2) [OF f] by (simp add: h_def)
  have p: "pptail h full_recv_fifo = (if fl = [] then None else Some (loc_after full_recv_fifo (butlast fl)))"
    using f by (cases fl rule: rev_cases) (auto simp: h_def fifo_repr_def butlast_append loc_after_def)
  have "fifo_frame full_recv_fifo {} (lists s) h" by (simp add: fifo_frame_def h_def)
  then have "slist_repr free_recv_list h fr" using assms by (elim frame_slist) (auto simp: recv_inv_def)
  then show ?thesis using u s p assms by (auto simp: recv_inv_def fifo_repr_def h_def)
qed

lemma purge_prefix:
  assumes "recv_inv s fr (ps @ qs)" "\<forall>b \<in> set ps. fd (bufs s b) = sock" "\<forall>b \<in> set qs. fd (bufs s b) \<noteq> sock"
  shows "\<exists>s'. purge_loop sock (phead (lists s) full_recv_fifo) s = Some s' \<and> recv_inv s' (rev ps @ fr) qs \<and>
    fresh s' = fresh s \<and> total_recvbufs s' = total_recvbufs s"
  using assms
proof (induction ps arbitrary: s fr)
  case Nil
  then have "seg (nextlink (lists s)) (phead (lists s) full_recv_fifo) qs None" by (simp add: recv_inv_def fifo_repr_def)
  from purge_skip [OF this, of sock] Nil show ?case by simp
next
  case (Cons b ps)
  have i: "recv_inv s fr (b # ps @ qs)" using Cons.prems(1) by simp
  then obtain h where h: "UNLINK_MID_FIFO full_recv_fifo b (lists s) = Some (Some b, h)" "phead h full_recv_fifo = nextlink (lists s) b"
    "recv_inv (s\<lparr>lists := h, full_recvbufs := full_recvbufs s - 1\<rparr>) fr (ps @ qs)"
    using unlink_mid_head_inv by blast
  define s1 where "s1 = freerecvbuf (Some b) (s\<lparr>lists := h, full_recvbufs := full_recvbufs s - 1\<rparr>)"
  have "b \<notin> set fr" "b \<notin> set (ps @ qs)" "b < fresh s" using i by (auto simp: recv_inv_def fifo_repr_def)
  then have "recv_inv s1 (b # fr) (ps @ qs)" unfolding s1_def using h(3) by (intro freerecvbuf_inv) auto
  moreover have "fd (bufs s1 x) = fd (bufs s x)" for x by (simp add: s1_def freerecvbuf_def Let_def)
  ultimately obtain s' where s': "purge_loop sock (phead (lists s1) full_recv_fifo) s1 = Some s'" "recv_inv s' (rev ps @ b # fr) qs"
    "fresh s' = fresh s1" "total_recvbufs s' = total_recvbufs s1"
    using Cons.IH [of s1 "b # fr"] Cons.prems by auto
  have "phead (lists s1) full_recv_fifo = nextlink (lists s) b"
    using h(2) by (simp add: s1_def freerecvbuf_def LINK_SLIST_def Let_def)
  moreover have "fresh s1 = fresh s" "total_recvbufs s1 = total_recvbufs s" by (simp_all add: s1_def freerecvbuf_def Let_def)
  moreover have "phead (lists s) full_recv_fifo = Some b" using i by (simp add: recv_inv_def fifo_repr_def)
  ultimately show ?case
    using s' h(1) Cons.prems(2) by (subst purge_loop.simps) (simp add: s1_def [symmetric])
qed

lemma owned_purge:
  assumes "recv_owned s H fr fl" "fifo_repr full_recv_fifo (lists s) (ps @ qs)"
    and "\<forall>b \<in> set ps. fd (bufs s b) = sock" "\<forall>b \<in> set qs. fd (bufs s b) \<noteq> sock"
  shows "\<exists>s'. purge_recv_buffers_for_fd sock s = Some s' \<and> recv_owned s' H (rev ps @ fr) qs"
proof -
  have "fl = ps @ qs" using assms(1,2) seg_unique by (auto simp: recv_owned_def recv_inv_def fifo_repr_def)
  moreover from this obtain s' where "purge_recv_buffers_for_fd sock s = Some s'" "recv_inv s' (rev ps @ fr) qs"
    "fresh s' = fresh s" "total_recvbufs s' = total_recvbufs s"
    using purge_prefix [of s fr ps qs sock] assms by (auto simp: recv_owned_def purge_recv_buffers_for_fd_def HEAD_FIFO_def)
  ultimately show ?thesis using assms(1) by (auto simp: recv_owned_def)
qed

lemma recv_reach_owned: "recv_reach s H \<Longrightarrow> \<exists>fr fl. recv_owned s H fr fl"
proof (induction rule: recv_reach.induct)
  case (init n)
  have "recv_owned (recv_zero\<lparr>free_recvbufs := 0, total_recvbufs := 0, full_recvbufs := 0, lowater_adds := 0\<rparr>) {} [] []"
    by (simp add: recv_owned_def recv_inv_def recv_zero_def empty_heap_def slist_repr_def fifo_repr_def)
  then show ?case unfolding init_recvbuff_def Let_def using owned_create by blast
next
  case (get_free s H r s')
  then show ?case using owned_get_free by blast
next
  case (get_alloc s H b s')
  then show ?case using owned_alloc by blast
next
  case (get_full s H sig r s')
  then obtain fr fl where o: "recv_owned s H fr fl" by blast
  define s1 where "s1 = (if sig \<and> (phead (lists s) free_recv_list = None \<or> buffer_shortfall s > 0) then create_buffers RECV_INC s else s)"
  have g: "get_full_recv_buffer False s1 = (r, s')"
    using get_full.hyps(2) by (cases sig) (simp_all add: s1_def get_full_signaled)
  have "\<exists>fr. recv_owned s1 H fr fl" using o owned_create [OF o] by (auto simp: s1_def)
  then show ?case using owned_get_full [OF _ g] by blast
next
  case (add_full s H b s')
  then show ?case using owned_add_full by fastforce
next
  case (free s H b)
  then show ?case using owned_free by blast
next
  case (fill s H b rb)
  then show ?case by (auto simp: recv_owned_def recv_inv_def)
next
  case (purge s H ps qs sock s')
  then show ?case using owned_purge [of s H _ _ ps qs sock] by fastforce
qed

section \<open>Properties\<close>

lemma expected_tail_eq:
  assumes "seg (nextlink h) (phead h a) (us @ zs) None"
  shows "expected_tail h (case zs of [] \<Rightarrow> None | z # _ \<Rightarrow> Some z) (if zs = [] then pp else loc_after a us)
    = Some (if zs = [] then pp else loc_after a (butlast (us @ zs)))"
  using assms
proof (induction zs arbitrary: us)
  case Nil
  show ?case by (subst expected_tail.simps) simp
next
  case (Cons z zs)
  have n: "nextlink h z = (case zs of [] \<Rightarrow> None | z # _ \<Rightarrow> Some z)" using Cons.prems by (cases zs) (auto simp: seg_append)
  show ?case
  proof (cases zs)
    case Nil
    then show ?thesis using n by (subst expected_tail.simps) (simp, subst expected_tail.simps, simp add: butlast_append)
  next
    case (Cons y ys)
    then show ?thesis using n Cons.IH [of "us @ [z]"] Cons.prems by (subst expected_tail.simps) simp
  qed
qed

lemma check_fifo_eq:
  assumes "seg (nextlink h) (phead h a) xs None" "distinct xs"
  shows "check_gen_fifo_consistency a h = Some (fifo_repr a h xs)"
proof -
  have "phead h a = (case xs of [] \<Rightarrow> None | x # _ \<Rightarrow> Some x)" using assms by (cases xs) auto
  with expected_tail_eq [of h a "[]" xs "PHead a"] assms show ?thesis
    by (cases xs) (auto simp: check_gen_fifo_consistency_def fifo_repr_def)
qed

lemma created_positive:
  assumes "uint (buffer_shortfall s) < 2 ^ 31 - 5"
  shows "created RECV_INC s = 5 + unat (buffer_shortfall s)"
proof -
  have "uint (5 + buffer_shortfall s) = 5 + uint (buffer_shortfall s)"
    using assms by (simp add: uint_word_ariths)
  moreover have "uint (buffer_shortfall s) < 2147483643" using assms by simp
  then have "in_s32 (5 + uint (buffer_shortfall s))"
    using uint_nonnegative [of "buffer_shortfall s"] unfolding in_s32_def by (intro conjI) linarith+
  ultimately have "created RECV_INC s = nat (5 + uint (buffer_shortfall s))" by (simp add: created_def RECV_INC_def s32_id)
  then show ?thesis by (simp add: nat_add_distrib)
qed

lemma alloc_returns:
  assumes "recv_inv s fr fl" "uint (buffer_shortfall s) < 2 ^ 31 - 6"
  shows "\<exists>b s'. get_free_recv_buffer_alloc s = Some (b, s')"
proof (cases fr)
  case (Cons b fr')
  then show ?thesis using get_free_inv [of s b fr' fl] assms by (auto simp: alloc_cases)
next
  case Nil
  define s1 where "s1 = s\<lparr>buffer_shortfall := buffer_shortfall s + 1\<rparr>"
  have g: "get_free_recv_buffer s = (None, s1)" using Nil get_free_empty assms by (simp add: s1_def)
  have "uint (buffer_shortfall s1) < 2 ^ 31 - 5" using assms(2) by (simp add: s1_def uint_word_ariths)
  then have "created RECV_INC s1 > 0" using created_positive by simp
  then have "rev [fresh s1..<fresh s1 + created RECV_INC s1] @ [] \<noteq> []" by simp
  moreover have "recv_inv (create_buffers RECV_INC s1) (rev [fresh s1..<fresh s1 + created RECV_INC s1] @ []) fl"
    using assms(1) Nil by (intro create_buffers_inv(1)) (simp add: s1_def)
  ultimately obtain b s' where "get_free_recv_buffer (create_buffers RECV_INC s1) = (Some b, s')"
    using get_free_inv by (metis neq_Nil_conv)
  with g show ?thesis by (simp add: alloc_cases)
qed

lemma has_full_eq: "recv_inv s fr fl \<Longrightarrow> has_full_recv_buffer s \<longleftrightarrow> fl \<noteq> []"
  by (cases fl) (auto simp: has_full_recv_buffer_def HEAD_FIFO_def recv_inv_def fifo_repr_def)

lemma owned_card:
  assumes "recv_owned s H fr fl"
  shows "fresh s = card H + length fr + length fl"
proof -
  have "finite H" using assms by (metis recv_owned_def Un_assoc finite_Un finite_lessThan)
  moreover have "H \<inter> (set fr \<union> set fl) = {}" "set fr \<inter> set fl = {}" "distinct fr" "distinct fl"
    using assms by (simp_all add: recv_owned_def recv_inv_def slist_repr_def fifo_repr_def)
  moreover have "card {..<fresh s} = card (H \<union> (set fr \<union> set fl))" using assms by (simp add: recv_owned_def Un_assoc)
  ultimately show ?thesis by (simp add: card_Un_disjoint distinct_card)
qed

lemma uninit_full_eq:
  assumes "fifo_repr full_recv_fifo h fl" "slist_repr free_recv_list h fr" "set fr \<inter> set fl = {}"
  shows "\<exists>h'. uninit_full freed h = Some (freed @ fl, h') \<and> phead h' full_recv_fifo = None \<and> slist_repr free_recv_list h' fr"
  using assms
proof (induction fl arbitrary: freed h)
  case Nil
  then show ?case by (subst uninit_full.simps) (simp add: UNLINK_FIFO_empty, simp add: fifo_repr_def)
next
  case (Cons b fl)
  obtain h1 where h1: "UNLINK_FIFO full_recv_fifo h = (Some b, h1)" "fifo_repr full_recv_fifo h1 fl" "fifo_frame full_recv_fifo {} h h1"
    using UNLINK_FIFO_repr [OF Cons.prems(1)] by blast
  have "slist_repr free_recv_list h1 fr" using Cons.prems by (intro frame_slist [OF h1(3)]) auto
  with Cons.IH [of h1 "freed @ [b]"] h1 Cons.prems show ?case by (subst uninit_full.simps) simp
qed

lemma uninit_free_eq:
  assumes "slist_repr free_recv_list h fr"
  shows "\<exists>h'. uninit_free freed h = Some (freed @ fr, h') \<and> phead h' free_recv_list = None \<and> phead h' full_recv_fifo = phead h full_recv_fifo"
  using assms
proof (induction fr arbitrary: freed h)
  case Nil
  then show ?case by (subst uninit_free.simps) (simp add: UNLINK_HEAD_SLIST_repr(1), simp add: slist_repr_def)
next
  case (Cons b fr)
  obtain h1 where h1: "UNLINK_HEAD_SLIST free_recv_list h = (Some b, h1)" "slist_repr free_recv_list h1 fr"
    using UNLINK_HEAD_SLIST_repr(2) [OF Cons.prems(1)] by blast
  have "phead h1 full_recv_fifo = phead h full_recv_fifo"
    using UNLINK_HEAD_SLIST_frame [of free_recv_list h] h1 by (simp add: fifo_frame_def)
  with Cons.IH [OF h1(2), of "freed @ [b]"] h1 show ?case by (subst uninit_free.simps) simp
qed

lemma uninit_frees:
  assumes "recv_inv s fr fl"
  shows "\<exists>s'. uninit_recvbuff s = Some (fl @ fr, s') \<and> phead (lists s') full_recv_fifo = None \<and> phead (lists s') free_recv_list = None"
proof -
  obtain h where "uninit_full [] (lists s) = Some (fl, h)" "phead h full_recv_fifo = None" "slist_repr free_recv_list h fr"
    using uninit_full_eq [of "lists s" fl fr "[]"] assms by (auto simp: recv_inv_def)
  moreover from this obtain h' where "uninit_free fl h = Some (fl @ fr, h')" "phead h' free_recv_list = None" "phead h' full_recv_fifo = phead h full_recv_fifo"
    using uninit_free_eq by blast
  ultimately show ?thesis by (simp add: uninit_recvbuff_def)
qed

text \<open>
  C22: the receive buffer pool is safe.  In every state that the operations reach from \<^verbatim>\<open>init_recvbuff\<close>, when only owned
  buffers are queued or given back and a socket is purged only while its buffers are the oldest full ones, each allocated buffer is free, full or owned and never two of these; the two
  lists are well formed, so that the debug check passes; the counters tell their lengths and the total also counts the
  owned buffers; queueing an owned buffer never fails; and the allocating variant returns a buffer unless almost
  \<open>2 ^ 31\<close> requests have failed since the last allocation.  Purging such a socket never fails either and removes exactly its
  buffers.
\<close>
theorem recv_pool_safe:
  assumes "recv_reach s H"
  shows "\<exists>fr fl. slist_repr free_recv_list (lists s) fr \<and> fifo_repr full_recv_fifo (lists s) fl \<and>
    set fr \<inter> set fl = {} \<and> H \<inter> (set fr \<union> set fl) = {} \<and> H \<union> set fr \<union> set fl = {..<fresh s} \<and>
    check_gen_fifo_consistency full_recv_fifo (lists s) = Some True \<and> has_full_recv_buffer s = (fl \<noteq> []) \<and>
    free_recvbuffs s = of_nat (length fr) \<and> full_recvbuffs s = of_nat (length fl) \<and>
    total_recvbuffs s = of_nat (length fr + length fl + card H) \<and>
    (\<forall>b \<in> H. add_full_recv_buffer (Some b) s \<noteq> None) \<and>
    (uint (buffer_shortfall s) < 2 ^ 31 - 6 \<longrightarrow> get_free_recv_buffer_alloc s \<noteq> None) \<and>
    (\<forall>ps qs sock. fl = ps @ qs \<and> (\<forall>b \<in> set ps. fd (bufs s b) = sock) \<and> (\<forall>b \<in> set qs. fd (bufs s b) \<noteq> sock) \<longrightarrow>
       (\<exists>s'. purge_recv_buffers_for_fd sock s = Some s' \<and> slist_repr free_recv_list (lists s') (rev ps @ fr) \<and>
          fifo_repr full_recv_fifo (lists s') qs))"
proof -
  obtain fr fl where o: "recv_owned s H fr fl" using recv_reach_owned [OF assms] by blast
  then have i: "recv_inv s fr fl" by (simp add: recv_owned_def)
  have c: "check_gen_fifo_consistency full_recv_fifo (lists s) = Some True"
    using check_fifo_eq [of "lists s" full_recv_fifo fl] i by (simp add: recv_inv_def fifo_repr_def)
  have a: "\<forall>b \<in> H. add_full_recv_buffer (Some b) s \<noteq> None" using owned_add_full [OF o] by fastforce
  have g: "uint (buffer_shortfall s) < 2 ^ 31 - 6 \<longrightarrow> get_free_recv_buffer_alloc s \<noteq> None"
    using alloc_returns [OF i] by fastforce
  have t: "total_recvbuffs s = of_nat (length fr + length fl + card H)"
    using o owned_card [OF o] by (simp add: recv_owned_def total_recvbuffs_def)
  have p: "\<forall>ps qs sock. fl = ps @ qs \<and> (\<forall>b \<in> set ps. fd (bufs s b) = sock) \<and> (\<forall>b \<in> set qs. fd (bufs s b) \<noteq> sock) \<longrightarrow>
       (\<exists>s'. purge_recv_buffers_for_fd sock s = Some s' \<and> slist_repr free_recv_list (lists s') (rev ps @ fr) \<and>
          fifo_repr full_recv_fifo (lists s') qs)"
  proof (intro allI impI)
    fix ps qs sock
    assume a: "fl = ps @ qs \<and> (\<forall>b \<in> set ps. fd (bufs s b) = sock) \<and> (\<forall>b \<in> set qs. fd (bufs s b) \<noteq> sock)"
    then have "fifo_repr full_recv_fifo (lists s) (ps @ qs)" using i by (simp add: recv_inv_def)
    with a obtain s' where "purge_recv_buffers_for_fd sock s = Some s'" "recv_owned s' H (rev ps @ fr) qs"
      using owned_purge [OF o] by blast
    then show "\<exists>s'. purge_recv_buffers_for_fd sock s = Some s' \<and> slist_repr free_recv_list (lists s') (rev ps @ fr) \<and>
        fifo_repr full_recv_fifo (lists s') qs"
      by (simp add: recv_owned_def recv_inv_def)
  qed
  have "slist_repr free_recv_list (lists s) fr" "fifo_repr full_recv_fifo (lists s) fl" "set fr \<inter> set fl = {}"
    "free_recvbuffs s = of_nat (length fr)" "full_recvbuffs s = of_nat (length fl)"
    using i by (simp_all add: recv_inv_def free_recvbuffs_def full_recvbuffs_def)
  moreover have "H \<inter> (set fr \<union> set fl) = {}" "H \<union> set fr \<union> set fl = {..<fresh s}" using o by (simp_all add: recv_owned_def)
  ultimately show ?thesis
    using c a g t p has_full_eq [OF i] by (intro exI [of _ fr] exI [of _ fl] conjI)
qed

theorem recv_pool_safe_witness:
  "check_gen_fifo_consistency full_recv_fifo (lists (init_recvbuff RECV_INIT recv_zero)) = Some True \<and>
   get_free_recv_buffer_alloc (init_recvbuff RECV_INIT recv_zero) \<noteq> None"
proof -
  have "recv_inv (recv_zero\<lparr>free_recvbufs := 0, total_recvbufs := 0, full_recvbufs := 0, lowater_adds := 0\<rparr>) [] []"
    by (simp add: recv_inv_def recv_zero_def empty_heap_def slist_repr_def fifo_repr_def)
  then have "buffer_shortfall (init_recvbuff RECV_INIT recv_zero) = 0"
    unfolding init_recvbuff_def Let_def by (rule create_buffers_inv(4))
  with recv_pool_safe [OF recv_reach.init [of RECV_INIT]] show ?thesis by auto
qed

text \<open>
  The functions of the pool.  A free buffer is the last one given back, zeroed and with one reference; without one the
  shortfall is counted and the next allocation makes up for it.  Full buffers come out in the order in which they were
  queued.  Shutting down frees every buffer of the two lists once and leaves both empty.
\<close>
theorem recv_pool_operations:
  assumes "recv_inv s fr fl"
  shows "(fr = [] \<longrightarrow> get_free_recv_buffer s = (None, s\<lparr>buffer_shortfall := buffer_shortfall s + 1\<rparr>)) \<and>
    (fr \<noteq> [] \<longrightarrow> (\<exists>s'. get_free_recv_buffer s = (Some (hd fr), s') \<and> recv_inv s' (tl fr) fl \<and>
       bufs s' = (bufs s)(hd fr := \<lparr>fd = 0, used = 1\<rparr>))) \<and>
    (fl = [] \<longrightarrow> get_full_recv_buffer False s = (None, s)) \<and>
    (fl \<noteq> [] \<longrightarrow> (\<exists>s'. get_full_recv_buffer False s = (Some (hd fl), s') \<and> recv_inv s' fr (tl fl) \<and> bufs s' = bufs s)) \<and>
    (uint (buffer_shortfall s) < 2 ^ 31 - 5 \<longrightarrow>
       recv_inv (create_buffers RECV_INC s) (rev [fresh s..<fresh s + 5 + unat (buffer_shortfall s)] @ fr) fl \<and>
       buffer_shortfall (create_buffers RECV_INC s) = 0) \<and>
    (\<forall>b < fresh s. b \<notin> set fr \<union> set fl \<longrightarrow> recv_inv (freerecvbuf (Some b) s) (b # fr) fl \<and>
       (\<exists>s'. add_full_recv_buffer (Some b) s = Some s' \<and> recv_inv s' fr (fl @ [b]) \<and> bufs s' = bufs s)) \<and>
    (\<exists>s'. uninit_recvbuff s = Some (fl @ fr, s') \<and> phead (lists s') full_recv_fifo = None \<and> phead (lists s') free_recv_list = None)"
proof -
  have "fr \<noteq> [] \<longrightarrow> (\<exists>s'. get_free_recv_buffer s = (Some (hd fr), s') \<and> recv_inv s' (tl fr) fl \<and>
       bufs s' = (bufs s)(hd fr := \<lparr>fd = 0, used = 1\<rparr>))"
    using get_free_inv [of s "hd fr" "tl fr" fl] assms by auto
  moreover have "fl \<noteq> [] \<longrightarrow> (\<exists>s'. get_full_recv_buffer False s = (Some (hd fl), s') \<and> recv_inv s' fr (tl fl) \<and> bufs s' = bufs s)"
    using get_full_inv [of s fr "hd fl" "tl fl"] assms by auto
  moreover have "uint (buffer_shortfall s) < 2 ^ 31 - 5 \<longrightarrow>
       recv_inv (create_buffers RECV_INC s) (rev [fresh s..<fresh s + 5 + unat (buffer_shortfall s)] @ fr) fl"
    using create_buffers_inv(1) [OF assms, of RECV_INC] created_positive [of s] by (metis add.assoc)
  moreover have "recv_inv (freerecvbuf (Some b) s) (b # fr) fl \<and>
       (\<exists>s'. add_full_recv_buffer (Some b) s = Some s' \<and> recv_inv s' fr (fl @ [b]) \<and> bufs s' = bufs s)"
    if "b < fresh s" "b \<notin> set fr \<union> set fl" for b
    using freerecvbuf_inv [OF assms] add_full_inv [OF assms] that by blast
  ultimately show ?thesis
    using get_free_empty get_full_empty create_buffers_inv(4) [OF assms] uninit_frees [OF assms] assms by blast
qed

theorem recv_pool_operations_witness:
  "recv_inv recv_zero [] [] \<and> get_full_recv_buffer False recv_zero = (None, recv_zero)"
proof -
  have "recv_inv recv_zero [] []"
    by (simp add: recv_inv_def recv_zero_def empty_heap_def slist_repr_def fifo_repr_def)
  with recv_pool_operations [of recv_zero "[]" "[]"] show ?thesis by blast
qed

lemma purge_tail:
  assumes "recv_inv s fr (ys @ [b])" "ys \<noteq> []" "fd (bufs s b) = sock" "\<forall>y \<in> set ys. fd (bufs s y) \<noteq> sock"
  shows "\<exists>s'. purge_loop sock (phead (lists s) full_recv_fifo) s = Some s' \<and>
    seg (nextlink (lists s')) (phead (lists s') full_recv_fifo) ys None \<and> pptail (lists s') full_recv_fifo = None \<and>
    full_recvbufs s' = of_nat (length ys)"
proof -
  have f: "fifo_repr full_recv_fifo (lists s) (ys @ b # [])" using assms by (simp add: recv_inv_def)
  define h where "h = (assign (lists s) (loc_after full_recv_fifo ys) (nextlink (lists s) b))\<lparr>pptail := (pptail (lists s))(full_recv_fifo := None)\<rparr>"
  define s1 where "s1 = freerecvbuf (Some b) (s\<lparr>lists := h, full_recvbufs := full_recvbufs s - 1\<rparr>)"
  have u: "UNLINK_MID_FIFO full_recv_fifo b (lists s) = Some (Some b, h)"
    using UNLINK_MID_FIFO_eq(1) [OF f] by (simp add: h_def)
  have c: "seg (nextlink h) (phead h full_recv_fifo) ys None" using UNLINK_MID_FIFO_eq(2) [OF f] by (simp add: h_def)
  have n: "seg (nextlink (lists s)) (phead (lists s) full_recv_fifo) ys (Some b)" "nextlink (lists s) b = None" "b \<notin> set ys"
    using f by (auto simp: fifo_repr_def)
  have "purge_loop sock (phead (lists s) full_recv_fifo) s = purge_loop sock (Some b) s" using purge_skip [OF n(1) assms(4)] .
  also have "\<dots> = Some s1" using u n(2) assms(3) by (subst purge_loop.simps) (simp add: s1_def [symmetric])
  finally have "purge_loop sock (phead (lists s) full_recv_fifo) s = Some s1" .
  then show ?thesis
    using c n(3) assms(1) by (simp add: s1_def freerecvbuf_def LINK_SLIST_def Let_def recv_inv_def) (simp add: h_def)
qed

text \<open>
  Purging a socket.  \<^verbatim>\<open>purge_recv_buffers_for_fd\<close> is right when the buffers of the socket are the oldest ones: exactly these go
  back to the free list.  When the only such buffer is the newest of several, the chain keeps the others but the tail
  location is cleared; the debug check then fails, and the next buffer that arrives replaces the
  whole queue, while the counter still counts the lost ones.
\<close>
theorem purge_recv_buffers_cases:
  assumes "recv_inv s fr (ps @ qs)" "\<forall>b \<in> set ps. fd (bufs s b) = fd1" "\<forall>b \<in> set qs. fd (bufs s b) \<noteq> fd1"
    and "ys \<noteq> []" "ps @ qs = ys @ [b]" "fd (bufs s b) = fd2" "\<forall>y \<in> set ys. fd (bufs s y) \<noteq> fd2"
  shows "(\<exists>s'. purge_recv_buffers_for_fd fd1 s = Some s' \<and> recv_inv s' (rev ps @ fr) qs) \<and>
    (\<exists>s'. purge_recv_buffers_for_fd fd2 s = Some s' \<and> check_gen_fifo_consistency full_recv_fifo (lists s') = Some False \<and>
       (\<forall>new. \<exists>s''. add_full_recv_buffer (Some new) s' = Some s'' \<and> fifo_repr full_recv_fifo (lists s'') [new] \<and>
          full_recvbufs s'' = of_nat (length ys + 1)))"
proof -
  have i: "recv_inv s fr (ys @ [b])" using assms(1,5) by simp
  obtain s' where s': "purge_recv_buffers_for_fd fd2 s = Some s'" "seg (nextlink (lists s')) (phead (lists s') full_recv_fifo) ys None"
    "pptail (lists s') full_recv_fifo = None" "full_recvbufs s' = of_nat (length ys)"
    using purge_tail [OF i assms(4,6,7)] by (auto simp: purge_recv_buffers_for_fd_def HEAD_FIFO_def)
  have "distinct ys" using i by (simp add: recv_inv_def fifo_repr_def)
  then have "check_gen_fifo_consistency full_recv_fifo (lists s') = Some False"
    using check_fifo_eq [OF s'(2)] s'(3) assms(4) by (simp add: fifo_repr_def)
  moreover have "\<exists>s''. add_full_recv_buffer (Some new) s' = Some s'' \<and> fifo_repr full_recv_fifo (lists s'') [new] \<and>
      full_recvbufs s'' = of_nat (length ys + 1)" for new
    using LINK_FIFO_no_tail [OF s'(3), of new] s'(4) by (auto simp: add_full_recv_buffer_def)
  moreover have "\<exists>s'. purge_recv_buffers_for_fd fd1 s = Some s' \<and> recv_inv s' (rev ps @ fr) qs"
    using purge_prefix [OF assms(1-3)] by (auto simp: purge_recv_buffers_for_fd_def HEAD_FIFO_def)
  ultimately show ?thesis using s'(1) by blast
qed

theorem purge_recv_buffers_cases_witness:
  "\<exists>s s'. recv_inv s [] [0, 1] \<and> purge_recv_buffers_for_fd 3 s = Some s' \<and> recv_inv s' [0] [1]"
proof -
  define s where "s = recv_zero\<lparr>lists := \<lparr>nextlink = [0 \<mapsto> 1], phead = [0 \<mapsto> 0], pptail = [0 \<mapsto> PLink 0]\<rparr>,
    bufs := (\<lambda>b. \<lparr>fd = 3 + int b, used = 1\<rparr>), fresh := 2, full_recvbufs := 2\<rparr>"
  have "recv_inv s [] [0, 1]"
    by (simp add: s_def recv_inv_def recv_zero_def slist_repr_def fifo_repr_def full_recv_fifo_def free_recv_list_def loc_after_def)
  with purge_recv_buffers_cases [of s "[]" "[0]" "[1]" 3 "[0]" 1 4] show ?thesis
    by (auto simp: s_def)
qed

end
