(* ===== verification/Prio_Queue.thy ===== *)
theory Prio_Queue
  imports Complex_Main "HOL-Library.Multiset" NTP_Lists
begin

text \<open>
  The priority queue of \<^verbatim>\<open>ntpd/ntp_prio_q.c\<close>, which the simulator \<^verbatim>\<open>ntpd/ntpsim.c\<close> uses for its events and its received packets.  A
  node and the element behind it (\<^verbatim>\<open>node + 1\<close>) are one address here; queues are numbered in the order
  in which they were created.  \<open>None\<close> stands for a loop that does not end.  Event times are the rational
  numbers that the \<^verbatim>\<open>double\<close>s denote, and their differences are taken to be exact, as they are for times
  of moderate size and precision.
\<close>

section \<open>Queues\<close>

record queue =
  get_order :: "addr \<Rightarrow> addr \<Rightarrow> int"
  front :: "addr option"
  no_of_elements :: int

record pq_heap =
  node_next :: "addr \<Rightarrow> addr option"
  queue_at :: "nat \<Rightarrow> queue"
  fresh_node :: addr
  fresh_queue :: nat

definition debug_create_priority_queue :: "(addr \<Rightarrow> addr \<Rightarrow> int) \<Rightarrow> pq_heap \<Rightarrow> nat \<times> pq_heap" where
  "debug_create_priority_queue order h =
     (let q = fresh_queue h
      in (q, h\<lparr>queue_at := (queue_at h)(q := \<lparr>get_order = order, front = None, no_of_elements = 0\<rparr>), fresh_queue := q + 1\<rparr>))"

text \<open>\<open>freed\<close> collects the nodes passed to \<^verbatim>\<open>free\<close>.\<close>

partial_function (option) destroy_loop :: "nat \<Rightarrow> addr list \<Rightarrow> pq_heap \<Rightarrow> (addr list \<times> pq_heap) option" where
  "destroy_loop q freed h =
     (case front (queue_at h q) of
        None \<Rightarrow> Some (freed, h)
      | Some temp \<Rightarrow>
          destroy_loop q (freed @ [temp]) (h\<lparr>queue_at := (queue_at h)(q := (queue_at h q)\<lparr>front := node_next h temp\<rparr>)\<rparr>))"

text \<open>The queue itself is freed last; its number is not used again.\<close>

definition destroy_queue :: "nat \<Rightarrow> pq_heap \<Rightarrow> (addr list \<times> pq_heap) option" where
  "destroy_queue my_queue h = destroy_loop my_queue [] h"

definition debug_get_node :: "pq_heap \<Rightarrow> addr \<times> pq_heap" where
  "debug_get_node h =
     (let new_node = fresh_node h
      in (new_node, h\<lparr>node_next := (node_next h)(new_node := None), fresh_node := new_node + 1\<rparr>))"

definition next_node :: "addr \<Rightarrow> pq_heap \<Rightarrow> addr option" where
  "next_node pv h = (if node_next h pv = None then None else node_next h pv)"

definition empty_queue :: "nat option \<Rightarrow> pq_heap \<Rightarrow> bool" where
  "empty_queue my_queue h \<longleftrightarrow> (case my_queue of None \<Rightarrow> True | Some q \<Rightarrow> front (queue_at h q) = None)"

definition queue_head :: "nat option \<Rightarrow> pq_heap \<Rightarrow> addr option" where
  "queue_head my_queue h = (case my_queue of None \<Rightarrow> None | Some q \<Rightarrow> front (queue_at h q))"

text \<open>The search of \<^verbatim>\<open>enqueue\<close>: \<open>i\<close> trails \<open>j\<close>.\<close>

partial_function (option) enqueue_search ::
  "(addr \<Rightarrow> addr option) \<Rightarrow> (addr \<Rightarrow> addr \<Rightarrow> int) \<Rightarrow> addr \<Rightarrow> addr option \<Rightarrow> addr option \<Rightarrow> addr option option" where
  "enqueue_search nxt order new_node i j =
     (case j of
        None \<Rightarrow> Some i
      | Some y \<Rightarrow> if order new_node y > 0 then enqueue_search nxt order new_node j (nxt y) else Some i)"

definition enqueue :: "nat \<Rightarrow> addr \<Rightarrow> pq_heap \<Rightarrow> pq_heap option" where
  "enqueue my_queue new_node h =
     (let q = queue_at h my_queue
      in case enqueue_search (node_next h) (get_order q) new_node None (front q) of
           None \<Rightarrow> None
         | Some i \<Rightarrow>
             let (nxt, q) =
               (case i of
                  None \<Rightarrow> ((node_next h)(new_node := front q), q\<lparr>front := Some new_node\<rparr>)
                | Some e \<Rightarrow> let nxt = (node_next h)(new_node := node_next h e) in (nxt(e := Some new_node), q))
             in Some (h\<lparr>node_next := nxt,
                        queue_at := (queue_at h)(my_queue := q\<lparr>no_of_elements := s32 (no_of_elements q + 1)\<rparr>)\<rparr>))"

definition dequeue :: "nat \<Rightarrow> pq_heap \<Rightarrow> addr option \<times> pq_heap" where
  "dequeue my_queue h =
     (let q = queue_at h my_queue
      in case front q of
           None \<Rightarrow> (None, h)
         | Some my_node \<Rightarrow>
             (Some my_node,
              h\<lparr>queue_at := (queue_at h)(my_queue := q\<lparr>front := node_next h my_node, no_of_elements := s32 (no_of_elements q - 1)\<rparr>)\<rparr>))"

definition get_no_of_elements :: "nat \<Rightarrow> pq_heap \<Rightarrow> int" where
  "get_no_of_elements my_queue h = no_of_elements (queue_at h my_queue)"

partial_function (option) append_loop :: "nat \<Rightarrow> nat \<Rightarrow> pq_heap \<Rightarrow> pq_heap option" where
  "append_loop q1 q2 h =
     (case dequeue q2 h of
        (None, _) \<Rightarrow> Some h
      | (Some e, h') \<Rightarrow> (case enqueue q1 e h' of None \<Rightarrow> None | Some h'' \<Rightarrow> append_loop q1 q2 h''))"

definition append_queue :: "nat \<Rightarrow> nat \<Rightarrow> pq_heap \<Rightarrow> pq_heap option" where
  "append_queue q1 q2 h =
     (case append_loop q1 q2 h of
        None \<Rightarrow> None
      | Some h \<Rightarrow> (case destroy_queue q2 h of None \<Rightarrow> None | Some (_, h) \<Rightarrow> Some h))"

definition get_fifo_order :: "addr \<Rightarrow> addr \<Rightarrow> int" where
  "get_fifo_order el1 el2 = 1"

text \<open>The order of the simulator's events: the difference of the times, converted to \<^verbatim>\<open>int\<close>.\<close>

definition c_trunc :: "rat \<Rightarrow> int" where
  "c_trunc x = (if 0 \<le> x then \<lfloor>x\<rfloor> else \<lceil>x\<rceil>)"

definition determine_event_ordering :: "(addr \<Rightarrow> rat) \<Rightarrow> addr \<Rightarrow> addr \<Rightarrow> int" where
  "determine_event_ordering tm e1 e2 = c_trunc (tm e1 - tm e2)"

section \<open>The abstract queue\<close>

definition insert_ordered :: "(addr \<Rightarrow> addr \<Rightarrow> int) \<Rightarrow> addr \<Rightarrow> addr list \<Rightarrow> addr list" where
  "insert_ordered order x xs = takeWhile (\<lambda>y. order x y > 0) xs @ x # dropWhile (\<lambda>y. order x y > 0) xs"

definition pq_repr :: "nat \<Rightarrow> pq_heap \<Rightarrow> addr list \<Rightarrow> bool" where
  "pq_repr q h xs \<longleftrightarrow> distinct xs \<and> seg (node_next h) (front (queue_at h q)) xs None \<and>
     no_of_elements (queue_at h q) = s32 (int (length xs))"

lemma enqueue_search_eq:
  assumes "seg nxt j xs None"
  shows "enqueue_search nxt order x i j =
    Some (if takeWhile (\<lambda>y. order x y > 0) xs = [] then i else Some (last (takeWhile (\<lambda>y. order x y > 0) xs)))"
  using assms
proof (induction xs arbitrary: i j)
  case Nil
  then show ?case by (subst enqueue_search.simps) simp
next
  case (Cons y ys)
  then show ?case by (subst enqueue_search.simps) simp
qed

lemma enqueue_repr:
  assumes "pq_repr q h xs" "x \<notin> set xs"
  shows "\<exists>h'. enqueue q x h = Some h' \<and> pq_repr q h' (insert_ordered (get_order (queue_at h q)) x xs) \<and>
    get_order (queue_at h' q) = get_order (queue_at h q) \<and>
    (\<forall>p. p \<noteq> q \<longrightarrow> queue_at h' p = queue_at h p) \<and> (\<forall>y. y \<notin> insert x (set xs) \<longrightarrow> node_next h' y = node_next h y)"
proof -
  define P where "P = (\<lambda>y. get_order (queue_at h q) x y > 0)"
  define us vs where "us = takeWhile P xs" "vs = dropWhile P xs"
  have xs: "xs = us @ vs" by (simp add: us_vs_def)
  have s: "seg (node_next h) (front (queue_at h q)) xs None" and d: "distinct xs"
    and n: "no_of_elements (queue_at h q) = s32 (int (length xs))" using assms(1) by (simp_all add: pq_repr_def)
  have srch: "enqueue_search (node_next h) (get_order (queue_at h q)) x None (front (queue_at h q)) =
      Some (if us = [] then None else Some (last us))"
    using enqueue_search_eq [OF s, of "get_order (queue_at h q)" x None] by (simp add: us_vs_def P_def)
  have e: "insert_ordered (get_order (queue_at h q)) x xs = us @ x # vs" by (simp add: insert_ordered_def us_vs_def P_def)
  have len: "s32 (s32 (int (length xs)) + 1) = s32 (int (length (us @ x # vs)))" by (simp add: xs algebra_simps)
  show ?thesis
  proof (cases us rule: rev_cases)
    case Nil
    then show ?thesis
      using srch s d n len assms(2) xs unfolding e by (simp add: enqueue_def pq_repr_def Let_def)
  next
    case (snoc ws w)
    have "seg (node_next h) (front (queue_at h q)) ws (Some w)" "seg (node_next h) (node_next h w) vs None"
      using s xs snoc by (auto simp: seg_append)
    then show ?thesis
      using srch d n len assms(2) xs snoc unfolding e by (auto simp: enqueue_def pq_repr_def Let_def seg_append)
  qed
qed

lemma dequeue_repr:
  "pq_repr q h [] \<Longrightarrow> dequeue q h = (None, h)"
  "pq_repr q h (x # xs) \<Longrightarrow> \<exists>h'. dequeue q h = (Some x, h') \<and> pq_repr q h' xs \<and>
     get_order (queue_at h' q) = get_order (queue_at h q) \<and> node_next h' = node_next h \<and> (\<forall>p. p \<noteq> q \<longrightarrow> queue_at h' p = queue_at h p)"
proof -
  show "pq_repr q h [] \<Longrightarrow> dequeue q h = (None, h)" by (simp add: pq_repr_def dequeue_def)
  have "s32 (s32 (1 + int (length xs)) - 1) = s32 (int (length xs))"
    using s32_add_left [of "1 + int (length xs)" "- 1"] by simp
  then show "pq_repr q h (x # xs) \<Longrightarrow> \<exists>h'. dequeue q h = (Some x, h') \<and> pq_repr q h' xs \<and>
     get_order (queue_at h' q) = get_order (queue_at h q) \<and> node_next h' = node_next h \<and> (\<forall>p. p \<noteq> q \<longrightarrow> queue_at h' p = queue_at h p)"
    by (auto simp: pq_repr_def dequeue_def Let_def)
qed

lemma insert_ordered_mset: "mset (insert_ordered order x xs) = add_mset x (mset xs)"
proof -
  have "mset (takeWhile P xs) + mset (dropWhile P xs) = mset xs" for P
    by (metis mset_append takeWhile_dropWhile_id)
  then show ?thesis by (simp add: insert_ordered_def)
qed

lemma insert_ordered_set: "set (insert_ordered order x xs) = insert x (set xs)"
  using insert_ordered_mset [of order x xs] by (metis set_mset_add_mset_insert set_mset_mset)

lemma insert_ordered_sorted:
  fixes key :: "addr \<Rightarrow> 'k::linorder"
  assumes "\<And>y. order x y > 0 \<longleftrightarrow> key y < key x" "sorted (map key xs)"
  shows "sorted (map key (insert_ordered order x xs))"
  using assms(2)
proof (induction xs)
  case (Cons y ys)
  then show ?case
  proof (cases "key y < key x")
    case True
    then have e: "insert_ordered order x (y # ys) = y # insert_ordered order x ys" by (simp add: insert_ordered_def assms(1))
    show ?thesis using Cons True unfolding e by (auto simp: insert_ordered_set)
  next
    case False
    then have e: "insert_ordered order x (y # ys) = x # y # ys" by (simp add: insert_ordered_def assms(1))
    show ?thesis using Cons.prems False unfolding e by auto
  qed
qed (simp add: insert_ordered_def)

lemma insert_ordered_fifo: "insert_ordered get_fifo_order x xs = xs @ [x]"
proof -
  have "takeWhile (\<lambda>y. get_fifo_order x y > 0) xs = xs" "dropWhile (\<lambda>y. get_fifo_order x y > 0) xs = []"
    by (simp_all add: get_fifo_order_def)
  then show ?thesis by (simp add: insert_ordered_def)
qed

text \<open>With \<^verbatim>\<open>get_fifo_order\<close> the priority queue meets the contract of the FIFO.\<close>

definition pq_fifo_repr :: "nat \<Rightarrow> pq_heap \<Rightarrow> addr list \<Rightarrow> bool" where
  "pq_fifo_repr q h xs \<longleftrightarrow> pq_repr q h xs \<and> get_order (queue_at h q) = get_fifo_order"

interpretation pq_fifo: fifo_queue "pq_fifo_repr q" "enqueue q" "dequeue q" for q
proof unfold_locales
  show "\<exists>h'. enqueue q x h = Some h' \<and> pq_fifo_repr q h' (xs @ [x])" if "pq_fifo_repr q h xs" "x \<notin> set xs" for h xs x
    using enqueue_repr [of q h xs x] that by (auto simp: pq_fifo_repr_def insert_ordered_fifo)
  show "dequeue q h = (None, h)" if "pq_fifo_repr q h []" for h using that by (simp add: pq_fifo_repr_def dequeue_repr(1))
  show "\<exists>h'. dequeue q h = (Some x, h') \<and> pq_fifo_repr q h' xs" if "pq_fifo_repr q h (x # xs)" for h x xs
    using dequeue_repr(2) [of q h x xs] that by (auto simp: pq_fifo_repr_def)
qed

lemma append_loop_eq:
  assumes "pq_repr q1 h xs" "pq_repr q2 h ys" "q1 \<noteq> q2" "set xs \<inter> set ys = {}"
  shows "\<exists>h'. append_loop q1 q2 h = Some h' \<and> pq_repr q1 h' (fold (insert_ordered (get_order (queue_at h q1))) ys xs) \<and> pq_repr q2 h' []"
  using assms
proof (induction ys arbitrary: xs h)
  case Nil
  then show ?case by (subst append_loop.simps) (simp add: dequeue_repr(1))
next
  case (Cons y ys)
  obtain h1 where h1: "dequeue q2 h = (Some y, h1)" "pq_repr q2 h1 ys" "node_next h1 = node_next h" "queue_at h1 q1 = queue_at h q1"
    using dequeue_repr(2) [OF Cons.prems(2)] Cons.prems(3) by blast
  have "pq_repr q1 h1 xs" using Cons.prems(1) h1 by (simp add: pq_repr_def)
  then obtain h2 where h2: "enqueue q1 y h1 = Some h2" "pq_repr q1 h2 (insert_ordered (get_order (queue_at h q1)) y xs)"
    "get_order (queue_at h2 q1) = get_order (queue_at h q1)" "queue_at h2 q2 = queue_at h1 q2"
    "\<forall>z. z \<notin> insert y (set xs) \<longrightarrow> node_next h2 z = node_next h1 z"
    using enqueue_repr [of q1 h1 xs y] Cons.prems h1(4) by auto
  have d: "distinct (y # ys)" using Cons.prems(2) by (simp add: pq_repr_def)
  have "seg (node_next h2) p ys None = seg (node_next h1) p ys None" for p
    using h2(5) Cons.prems(4) d by (intro seg_cong) auto
  then have "pq_repr q2 h2 ys" using h1(2) h2(4) by (simp add: pq_repr_def)
  moreover have "set (insert_ordered (get_order (queue_at h q1)) y xs) \<inter> set ys = {}"
    using Cons.prems(4) d by (auto simp: insert_ordered_set)
  ultimately show ?case
    using Cons.IH [OF h2(2)] Cons.prems(3) h1(1) h2(1,3) by (subst append_loop.simps) simp
qed

lemma fold_insert_ordered:
  fixes key :: "addr \<Rightarrow> 'k::linorder"
  assumes "\<And>x y. order x y > 0 \<longleftrightarrow> key y < key x" "sorted (map key xs)"
  shows "sorted (map key (fold (insert_ordered order) ys xs)) \<and> mset (fold (insert_ordered order) ys xs) = mset xs + mset ys"
  using assms(2)
proof (induction ys arbitrary: xs)
  case (Cons y ys)
  then show ?case using insert_ordered_sorted [of order y key xs] assms(1) by (simp add: insert_ordered_mset)
qed simp

section \<open>Properties\<close>

text \<open>
  C32: the priority queue.  When the order function compares keys of a linear order (the simulator's own event order does not: see
  the last theorem of this theory), adding an element keeps the queue sorted, the element that
  comes out next has the least key, and appending a second queue leaves the sorted union.  With \<^verbatim>\<open>get_fifo_order\<close>
  the queue returns its elements in the order in which they were added, for every sequence of operations.
\<close>
theorem prio_queue_sorted:
  fixes key :: "addr \<Rightarrow> 'k::linorder"
  assumes "pq_repr q h xs" "x \<notin> set xs"
  shows "((\<forall>x y. get_order (queue_at h q) x y > 0 \<longleftrightarrow> key y < key x) \<and> sorted (map key xs) \<longrightarrow>
      (\<exists>h' zs. enqueue q x h = Some h' \<and> pq_repr q h' zs \<and> sorted (map key zs) \<and> mset zs = add_mset x (mset xs) \<and>
         (\<exists>h''. dequeue q h' = (Some (hd zs), h'') \<and> pq_repr q h'' (tl zs)) \<and> (\<forall>z \<in> set zs. key (hd zs) \<le> key z)) \<and>
      (\<forall>p ys. pq_repr p h ys \<and> p \<noteq> q \<and> set xs \<inter> set ys = {} \<longrightarrow>
         (\<exists>h' zs. append_queue q p h = Some h' \<and> pq_repr q h' zs \<and> sorted (map key zs) \<and> mset zs = mset xs + mset ys))) \<and>
    (get_order (queue_at h q) = get_fifo_order \<longrightarrow>
      (\<forall>ops. queue_valid ops xs \<longrightarrow> (\<exists>h'. impl_run (enqueue q) (dequeue q) ops h = Some (fst (queue_run ops xs), h'))))"
proof -
  have enq: "\<exists>h' zs. enqueue q x h = Some h' \<and> pq_repr q h' zs \<and> sorted (map key zs) \<and> mset zs = add_mset x (mset xs) \<and>
         (\<exists>h''. dequeue q h' = (Some (hd zs), h'') \<and> pq_repr q h'' (tl zs)) \<and> (\<forall>z \<in> set zs. key (hd zs) \<le> key z)"
    if o: "\<forall>x y. get_order (queue_at h q) x y > 0 \<longleftrightarrow> key y < key x" and s: "sorted (map key xs)"
  proof -
    define zs where "zs = insert_ordered (get_order (queue_at h q)) x xs"
    obtain h' where h': "enqueue q x h = Some h'" "pq_repr q h' zs" using enqueue_repr [OF assms] by (auto simp: zs_def)
    have m: "mset zs = add_mset x (mset xs)" and sz: "sorted (map key zs)"
      using insert_ordered_mset insert_ordered_sorted [of _ x key xs] o s by (auto simp: zs_def)
    then obtain z ws where z: "zs = z # ws" by (cases zs) auto
    then obtain h'' where "dequeue q h' = (Some z, h'')" "pq_repr q h'' ws" using dequeue_repr(2) h' by blast
    then show ?thesis using h' m sz z by (intro exI [of _ h'] exI [of _ zs]) auto
  qed
  have app: "\<exists>h' zs. append_queue q p h = Some h' \<and> pq_repr q h' zs \<and> sorted (map key zs) \<and> mset zs = mset xs + mset ys"
    if o: "\<forall>x y. get_order (queue_at h q) x y > 0 \<longleftrightarrow> key y < key x" "sorted (map key xs)"
      and p: "pq_repr p h ys" "p \<noteq> q" "set xs \<inter> set ys = {}" for p ys
  proof -
    obtain h' where h': "append_loop q p h = Some h'" "pq_repr q h' (fold (insert_ordered (get_order (queue_at h q))) ys xs)" "pq_repr p h' []"
      using append_loop_eq [OF assms(1) p(1)] p(2,3) by auto
    have "destroy_queue p h' = Some ([], h')"
      using h'(3) by (subst destroy_queue_def, subst destroy_loop.simps) (simp add: pq_repr_def)
    then show ?thesis using h' fold_insert_ordered [of "get_order (queue_at h q)" key xs ys] o by (auto simp: append_queue_def)
  qed
  have "\<exists>h'. impl_run (enqueue q) (dequeue q) ops h = Some (fst (queue_run ops xs), h')"
    if "get_order (queue_at h q) = get_fifo_order" "queue_valid ops xs" for ops
    using pq_fifo.run_refines [of q h xs ops] that assms(1) by (auto simp: pq_fifo_repr_def)
  with enq app show ?thesis by blast
qed

definition pq_zero :: pq_heap where
  "pq_zero = \<lparr>node_next = (\<lambda>_. None), queue_at = (\<lambda>_. \<lparr>get_order = get_fifo_order, front = None, no_of_elements = 0\<rparr>),
     fresh_node = 0, fresh_queue = 0\<rparr>"

lemma create_queue_repr: "debug_create_priority_queue order h = (q, h') \<Longrightarrow> pq_repr q h' [] \<and> get_order (queue_at h' q) = order"
  by (auto simp: debug_create_priority_queue_def pq_repr_def s32_def Let_def)

definition pq_two :: pq_heap where
  "pq_two = pq_zero\<lparr>node_next := (\<lambda>_. None)(2 := Some 7, 3 := Some 4),
     queue_at := (\<lambda>q. \<lparr>get_order = (\<lambda>x y. int x - int y), front = (if q = 0 then Some 2 else Some 3), no_of_elements = 2\<rparr>)\<rparr>"

lemma pq_two_repr: "pq_repr 0 pq_two [2, 7] \<and> pq_repr 1 pq_two [3, 4]"
  by (simp add: pq_two_def pq_repr_def pq_zero_def s32_def)

theorem prio_queue_sorted_witness:
  "(\<exists>h'. impl_run (enqueue 0) (dequeue 0) [Enq 4, Enq 3, Deq, Deq] (snd (debug_create_priority_queue get_fifo_order pq_zero)) =
     Some ([Some 4, Some 3], h')) \<and>
   (\<exists>h' zs. enqueue 0 5 pq_two = Some h' \<and> pq_repr 0 h' zs \<and> sorted zs \<and> mset zs = {#5, 2, 7#} \<and>
     (\<exists>h''. dequeue 0 h' = (Some (hd zs), h'')) \<and> (\<forall>z \<in> set zs. hd zs \<le> z)) \<and>
   (\<exists>h' zs. append_queue 0 1 pq_two = Some h' \<and> pq_repr 0 h' zs \<and> sorted zs \<and> mset zs = {#2, 7, 3, 4#})"
proof -
  define h where "h = snd (debug_create_priority_queue get_fifo_order pq_zero)"
  have "debug_create_priority_queue get_fifo_order pq_zero = (0, h)"
    by (simp add: h_def debug_create_priority_queue_def pq_zero_def Let_def)
  then have "pq_repr 0 h []" "get_order (queue_at h 0) = get_fifo_order" using create_queue_repr by blast+
  moreover have "queue_valid [Enq 4, Enq 3, Deq, Deq] []" "fst (queue_run [Enq 4, Enq 3, Deq, Deq] []) = [Some 4, Some 3]" by simp_all
  ultimately have 1: "\<exists>h'. impl_run (enqueue 0) (dequeue 0) [Enq 4, Enq 3, Deq, Deq] h = Some ([Some 4, Some 3], h')"
    using prio_queue_sorted [of 0 h "[]" 5] by (metis empty_iff list.set(1))
  have o: "(\<forall>x y. get_order (queue_at pq_two 0) x y > 0 \<longleftrightarrow> id y < id x) \<and> sorted (map id [2, 7 :: nat])"
    by (simp add: pq_two_def)
  have r: "pq_repr 0 pq_two [2, 7]" "(5 :: nat) \<notin> set [2, 7]" "pq_repr 1 pq_two [3, 4] \<and> (1 :: nat) \<noteq> 0 \<and> set [2, 7 :: nat] \<inter> set [3, 4] = {}"
    using pq_two_repr by simp_all
  note two = prio_queue_sorted [OF r(1,2), THEN conjunct1, THEN mp, OF o]
  from two [THEN conjunct1] obtain h' zs h'' where 2: "enqueue 0 5 pq_two = Some h'" "pq_repr 0 h' zs" "sorted (map id zs)"
    "mset zs = add_mset 5 (mset [2, 7])" "dequeue 0 h' = (Some (hd zs), h'')" "\<forall>z \<in> set zs. id (hd zs) \<le> id z" by blast
  from two [THEN conjunct2, rule_format, OF r(3)] obtain k' ws where 3: "append_queue 0 1 pq_two = Some k'" "pq_repr 0 k' ws"
    "sorted (map id ws)" "mset ws = mset [2, 7] + mset [3, 4]" by blast
  have "\<exists>h' zs. enqueue 0 5 pq_two = Some h' \<and> pq_repr 0 h' zs \<and> sorted zs \<and> mset zs = {#5, 2, 7#} \<and>
     (\<exists>h''. dequeue 0 h' = (Some (hd zs), h'')) \<and> (\<forall>z \<in> set zs. hd zs \<le> z)"
    using 2 by (intro exI [of _ h'] exI [of _ zs]) simp
  moreover have "\<exists>h' zs. append_queue 0 1 pq_two = Some h' \<and> pq_repr 0 h' zs \<and> sorted zs \<and> mset zs = {#2, 7, 3, 4#}"
    using 3 by (intro exI [of _ k'] exI [of _ ws]) simp
  ultimately show ?thesis using 1 unfolding h_def by blast
qed

text \<open>
  The simulator's event order.  Events whose times are whole numbers of seconds are dispatched in time order.  But the order function
  cuts the difference of two times down to whole seconds, so of two events less than a second apart the one queued
  last comes out first, also when it is the later one.
\<close>
theorem simulator_event_order:
  assumes "pq_repr q h xs" "get_order (queue_at h q) = determine_event_ordering tm" "x \<notin> set xs"
  shows "((\<forall>e. tm e \<in> \<int>) \<and> sorted (map tm xs) \<longrightarrow>
      (\<exists>h' zs. enqueue q x h = Some h' \<and> pq_repr q h' zs \<and> sorted (map tm zs) \<and> mset zs = add_mset x (mset xs))) \<and>
    (\<forall>y. xs = [y] \<and> \<bar>tm x - tm y\<bar> < 1 \<longrightarrow>
      (\<exists>h' h''. enqueue q x h = Some h' \<and> dequeue q h' = (Some x, h'') \<and> pq_repr q h'' [y]))"
proof -
  obtain h' where h': "enqueue q x h = Some h'" "pq_repr q h' (insert_ordered (determine_event_ordering tm) x xs)"
    using enqueue_repr [OF assms(1,3)] assms(2) by auto
  have "sorted (map tm (insert_ordered (determine_event_ordering tm) x xs))" if "\<forall>e. tm e \<in> \<int>" "sorted (map tm xs)"
  proof (rule insert_ordered_sorted [OF _ that(2)])
    fix y
    have "tm x - tm y \<in> \<int>" using that(1) by simp
    then obtain k where "tm x - tm y = of_int k" by (rule Ints_cases)
    then show "determine_event_ordering tm x y > 0 \<longleftrightarrow> tm y < tm x"
      by (auto simp: determine_event_ordering_def c_trunc_def algebra_simps)
  qed
  moreover have "insert_ordered (determine_event_ordering tm) x [y] = [x, y]" if "\<bar>tm x - tm y\<bar> < 1" for y
  proof -
    have "c_trunc (tm x - tm y) \<le> 0" using that unfolding c_trunc_def by (auto simp: floor_le_iff ceiling_le_iff)
    then show ?thesis by (simp add: insert_ordered_def determine_event_ordering_def)
  qed
  ultimately show ?thesis
    using h' dequeue_repr(2) [of q h' x] insert_ordered_mset by metis
qed

theorem simulator_event_order_witness:
  "\<exists>h h' h''. pq_repr 0 h [1] \<and> enqueue 0 2 h = Some h' \<and> dequeue 0 h' = (Some 2, h'') \<and> (\<lambda>n. of_nat n / 4 :: rat) 1 < (\<lambda>n. of_nat n / 4) 2"
proof -
  define tm where "tm = (\<lambda>n. of_nat n / 4 :: rat)"
  define h where "h = pq_zero\<lparr>queue_at := (\<lambda>_. \<lparr>get_order = determine_event_ordering tm, front = Some 1, no_of_elements = 1\<rparr>)\<rparr>"
  have "pq_repr 0 h [1]" "get_order (queue_at h 0) = determine_event_ordering tm"
    by (simp_all add: h_def pq_repr_def pq_zero_def s32_def)
  with simulator_event_order [of 0 h "[1]" tm 2] show ?thesis by (auto simp: tm_def)
qed

end
