(* ===== verification/Auth_Keys.thy ===== *)
theory Auth_Keys
  imports NTP_Dlist
begin

text \<open>
  The symmetric key store of \<^verbatim>\<open>libntp/authkeys.c\<close> and the message digests of \<^verbatim>\<open>libntp/a_md5encrypt.c\<close>.  Key structures are addresses.
  The hash chains, the list of all keys and the free list are the sequences of their entries, which the list macros act
  on as \<open>NTP_Lists\<close> and \<open>NTP_Dlist\<close> show.  Secrets live in a memory of their own, in which
  a freed block is \<open>None\<close>; an operation whose result is \<open>None\<close> has touched a freed or missing block or gone
  beyond the end of one.

  The digest algorithms are a third-party library: \<open>evp\<close> maps the type and the data to the digest,
  or to \<open>None\<close> when the algorithm cannot be initialised.  The floating-point logarithm \<^verbatim>\<open>auth_log2\<close> of a quarter of the number of keys
  is an argument too, and nothing is assumed of it.  Packets are byte sequences and their lengths are natural numbers.
\<close>

unbundle bit_operations_syntax

section \<open>State\<close>

type_synonym keyid_t = u_int32

definition KEY_TRUSTED :: u_short where "KEY_TRUSTED = 1"
definition NTP_MAXKEY :: keyid_t where "NTP_MAXKEY = 65535"
definition MEMINC :: int where "MEMINC = 16"
definition DEF_AUTHHASHSIZE :: u_short where "DEF_AUTHHASHSIZE = 64"

record symkey =
  secret :: "addr option"
  lifetime :: u_int64
  keyid :: keyid_t
  sk_type :: u_short
  secretsize :: u_short
  sk_flags :: u_short

definition zero_symkey :: symkey where
  "zero_symkey = \<lparr>secret = None, lifetime = 0, keyid = 0, sk_type = 0, secretsize = 0, sk_flags = 0\<rparr>"

record auth_state =
  sk_at :: "addr \<Rightarrow> symkey"
  sk_fresh :: addr
  key_listhead :: "addr list"
  key_hash :: "nat \<Rightarrow> addr list"
  authfreekeys :: "addr list"
  smem :: "addr \<rightharpoonup> u_char list"
  smem_fresh :: addr
  authhashbuckets :: u_short
  authhashmask :: u_short
  authkeynotfound :: u_int64
  authkeylookups :: u_int64
  authnumkeys :: u_int64
  authkeyexpired :: u_int64
  authkeyuncached :: u_int64
  authnokey :: u_int64
  authencryptions :: u_int64
  authdecryptions :: u_int64
  authnumfreekeys :: int
  cache_keyid :: keyid_t
  cache_secret :: "addr option"
  cache_secretsize :: u_short
  cache_type :: int
  cache_flags :: u_short

definition KEYHASH :: "keyid_t \<Rightarrow> auth_state \<Rightarrow> nat" where
  "KEYHASH k s = unat (k AND ucast (authhashmask s))"

section \<open>Operations\<close>

definition init_auth :: "auth_state \<Rightarrow> auth_state" where
  "init_auth s = s\<lparr>key_hash := (\<lambda>_. []), key_listhead := []\<rparr>"

definition auth_moremem :: "int \<Rightarrow> auth_state \<Rightarrow> auth_state" where
  "auth_moremem keycount s =
     (let i = (if keycount > 0 then keycount else MEMINC);
          new = [sk_fresh s..<sk_fresh s + nat i]
      in s\<lparr>sk_at := (\<lambda>a. if a \<in> set new then zero_symkey else sk_at s a), sk_fresh := sk_fresh s + nat i,
           authnumfreekeys := s32 (authnumfreekeys s + i), authfreekeys := rev new @ authfreekeys s\<rparr>)"

definition auth_resize_hashtable :: "(u_int64 \<Rightarrow> u_short) \<Rightarrow> auth_state \<Rightarrow> auth_state" where
  "auth_resize_hashtable auth_log2 s =
     (let totalkeys = authnumkeys s + word_of_int (authnumfreekeys s);
          hashbits = auth_log2 totalkeys + 1;
          hashbits = max 4 hashbits;
          hashbits = min 15 hashbits;
          s = s\<lparr>authhashbuckets := push_bit (unat hashbits) 1\<rparr>;
          s = s\<lparr>authhashmask := authhashbuckets s - 1\<rparr>;
          s = s\<lparr>key_hash := (\<lambda>_. [])\<rparr>
      in fold (\<lambda>sk s. let hash = KEYHASH (keyid (sk_at s sk)) s
                      in s\<lparr>key_hash := (key_hash s)(hash := sk # key_hash s hash)\<rparr>) (key_listhead s) s)"

definition auth_prealloc_symkeys :: "(u_int64 \<Rightarrow> u_short) \<Rightarrow> int \<Rightarrow> auth_state \<Rightarrow> auth_state" where
  "auth_prealloc_symkeys auth_log2 keycount s =
     (let allocated = s32 (uint (authnumkeys s + word_of_int (authnumfreekeys s)));
          additional = s32 (keycount - allocated);
          s = (if additional > 0 then auth_moremem additional s else s)
      in auth_resize_hashtable auth_log2 s)"

definition allocsymkey ::
  "nat \<Rightarrow> keyid_t \<Rightarrow> u_short \<Rightarrow> u_short \<Rightarrow> u_int64 \<Rightarrow> u_short \<Rightarrow> addr option \<Rightarrow> auth_state \<Rightarrow> auth_state option" where
  "allocsymkey bucket k fl ty lt sz sec s =
     (let s = (if authnumfreekeys s < 1 then auth_moremem (- 1) s else s)
      in case authfreekeys s of
           [] \<Rightarrow> None
         | sk # rest \<Rightarrow>
             Some (s\<lparr>authfreekeys := rest,
                     sk_at := (sk_at s)(sk := \<lparr>secret = sec, lifetime = lt, keyid = k, sk_type = ty, secretsize = sz, sk_flags = fl\<rparr>),
                     key_hash := (key_hash s)(bucket := sk # key_hash s bucket),
                     key_listhead := key_listhead s @ [sk],
                     authnumfreekeys := s32 (authnumfreekeys s - 1), authnumkeys := authnumkeys s + 1\<rparr>))"

text \<open>The \<^verbatim>\<open>memset\<close> and \<^verbatim>\<open>free\<close> of a secret.\<close>

definition free_secret :: "addr option \<Rightarrow> u_short \<Rightarrow> auth_state \<Rightarrow> auth_state option" where
  "free_secret sec sz s =
     (case sec of
        None \<Rightarrow> Some s
      | Some a \<Rightarrow>
          (case smem s a of
             None \<Rightarrow> None
           | Some bs \<Rightarrow> if unat sz \<le> length bs then Some (s\<lparr>smem := (smem s)(a := None)\<rparr>) else None))"

definition freesymkey :: "addr \<Rightarrow> nat \<Rightarrow> auth_state \<Rightarrow> auth_state option" where
  "freesymkey sk bucket s =
     (case free_secret (secret (sk_at s sk)) (secretsize (sk_at s sk)) s of
        None \<Rightarrow> None
      | Some s \<Rightarrow>
          Some (s\<lparr>key_hash := (key_hash s)(bucket := remove1 sk (key_hash s bucket)),
                  key_listhead := remove1 sk (key_listhead s),
                  sk_at := (sk_at s)(sk := zero_symkey),
                  authfreekeys := sk # authfreekeys s,
                  authnumkeys := authnumkeys s - 1, authnumfreekeys := s32 (authnumfreekeys s + 1)\<rparr>))"

definition auth_findkey :: "keyid_t \<Rightarrow> auth_state \<Rightarrow> addr option" where
  "auth_findkey k s = find (\<lambda>sk. k = keyid (sk_at s sk)) (key_hash s (KEYHASH k s))"

definition auth_havekey :: "keyid_t \<Rightarrow> auth_state \<Rightarrow> bool" where
  "auth_havekey k s \<longleftrightarrow> 0 = k \<or> cache_keyid s = k \<or> find (\<lambda>sk. k = keyid (sk_at s sk)) (key_hash s (KEYHASH k s)) \<noteq> None"

definition authhavekey :: "keyid_t \<Rightarrow> auth_state \<Rightarrow> bool \<times> auth_state" where
  "authhavekey k s =
     (let s = s\<lparr>authkeylookups := authkeylookups s + 1\<rparr>
      in if 0 = k \<or> cache_keyid s = k then (True, s)
         else
           let s = s\<lparr>authkeyuncached := authkeyuncached s + 1\<rparr>
           in case find (\<lambda>sk. k = keyid (sk_at s sk)) (key_hash s (KEYHASH k s)) of
                None \<Rightarrow> (False, s\<lparr>authkeynotfound := authkeynotfound s + 1\<rparr>)
              | Some a \<Rightarrow>
                  let sk = sk_at s a
                  in if 0 = sk_type sk then (False, s\<lparr>authkeynotfound := authkeynotfound s + 1\<rparr>)
                     else if KEY_TRUSTED AND sk_flags sk = 0 then (False, s\<lparr>authnokey := authnokey s + 1\<rparr>)
                     else (True, s\<lparr>cache_keyid := keyid sk, cache_type := uint (sk_type sk), cache_flags := sk_flags sk,
                                   cache_secret := secret sk, cache_secretsize := secretsize sk\<rparr>))"

definition authtrust :: "u_int64 \<Rightarrow> keyid_t \<Rightarrow> u_int64 \<Rightarrow> auth_state \<Rightarrow> auth_state option" where
  "authtrust current_time k trust s =
     (let bucket = KEYHASH k s;
          lt = (if trust > 1 then current_time + trust else 0)
      in case find (\<lambda>sk. k = keyid (sk_at s sk)) (key_hash s bucket) of
           None \<Rightarrow> if trust = 0 then Some s else allocsymkey bucket k KEY_TRUSTED 0 lt 0 None s
         | Some sk \<Rightarrow>
             let s = (if cache_keyid s = k then s\<lparr>cache_flags := 0, cache_keyid := 0\<rparr> else s)
             in if trust > 0 then
                  Some (s\<lparr>sk_at := (sk_at s)(sk := (sk_at s sk)\<lparr>sk_flags := sk_flags (sk_at s sk) OR KEY_TRUSTED, lifetime := lt\<rparr>)\<rparr>)
                else freesymkey sk bucket s)"

definition authistrusted :: "keyid_t \<Rightarrow> auth_state \<Rightarrow> bool \<times> auth_state" where
  "authistrusted keyno s =
     (if keyno = cache_keyid s then (KEY_TRUSTED AND cache_flags s \<noteq> 0, s)
      else
        let s = s\<lparr>authkeyuncached := authkeyuncached s + 1\<rparr>
        in case find (\<lambda>sk. keyno = keyid (sk_at s sk)) (key_hash s (KEYHASH keyno s)) of
             None \<Rightarrow> (False, s\<lparr>authkeynotfound := authkeynotfound s + 1\<rparr>)
           | Some sk \<Rightarrow>
               if KEY_TRUSTED AND sk_flags (sk_at s sk) = 0 then (False, s\<lparr>authkeynotfound := authkeynotfound s + 1\<rparr>)
               else (True, s))"

text \<open>The \<^verbatim>\<open>memcpy\<close> of the first \<open>n\<close> bytes of the key into the block at \<open>sec\<close>.\<close>

definition copy_secret :: "addr option \<Rightarrow> u_char list \<Rightarrow> nat \<Rightarrow> auth_state \<Rightarrow> auth_state option" where
  "copy_secret sec key n s =
     (if n = 0 then Some s
      else case sec of
             None \<Rightarrow> None
           | Some a \<Rightarrow>
               (case smem s a of
                  None \<Rightarrow> None
                | Some bs \<Rightarrow>
                    if n \<le> length bs \<and> n \<le> length key then Some (s\<lparr>smem := (smem s)(a \<mapsto> take n key @ drop n bs)\<rparr>) else None))"

definition MD5auth_setkey :: "keyid_t \<Rightarrow> int \<Rightarrow> u_char list \<Rightarrow> int \<Rightarrow> auth_state \<Rightarrow> auth_state option" where
  "MD5auth_setkey keyno keytype key len s =
     (let n = nat (max 0 len);
          bucket = KEYHASH keyno s
      in case find (\<lambda>sk. keyno = keyid (sk_at s sk)) (key_hash s bucket) of
           Some sk \<Rightarrow>
             let s = s\<lparr>sk_at := (sk_at s)(sk := (sk_at s sk)\<lparr>sk_type := word_of_int keytype, secretsize := of_nat n\<rparr>)\<rparr>
             in (case copy_secret (secret (sk_at s sk)) key n s of
                   None \<Rightarrow> None
                 | Some s \<Rightarrow> Some (if cache_keyid s = keyno then s\<lparr>cache_flags := 0, cache_keyid := 0\<rparr> else s))
         | None \<Rightarrow>
             let a = smem_fresh s;
                 s = s\<lparr>smem := (smem s)(a \<mapsto> replicate n 0), smem_fresh := a + 1\<rparr>
             in (case copy_secret (Some a) key n s of
                   None \<Rightarrow> None
                 | Some s \<Rightarrow> allocsymkey bucket keyno 0 (word_of_int keytype) 0 (of_nat n) (Some a) s))"

definition auth_delkeys :: "auth_state \<Rightarrow> auth_state option" where
  "auth_delkeys s =
     visit (\<lambda>sk s.
       if keyid (sk_at s sk) > NTP_MAXKEY then Some s
       else if KEY_TRUSTED AND sk_flags (sk_at s sk) \<noteq> 0 then
         (case free_secret (secret (sk_at s sk)) (secretsize (sk_at s sk)) s of
            None \<Rightarrow> None
          | Some s \<Rightarrow> Some (s\<lparr>sk_at := (sk_at s)(sk := (sk_at s sk)\<lparr>secretsize := 0, lifetime := 0\<rparr>)\<rparr>))
       else freesymkey sk (KEYHASH (keyid (sk_at s sk)) s) s) (key_listhead s) s"

definition auth_agekeys :: "u_int64 \<Rightarrow> auth_state \<Rightarrow> auth_state option" where
  "auth_agekeys current_time s =
     visit (\<lambda>sk s.
       if lifetime (sk_at s sk) > 0 \<and> current_time > lifetime (sk_at s sk) then
         (case freesymkey sk (KEYHASH (keyid (sk_at s sk)) s) s of
            None \<Rightarrow> None
          | Some s \<Rightarrow> Some (s\<lparr>authkeyexpired := authkeyexpired s + 1\<rparr>))
       else Some s) (key_listhead s) s"

section \<open>Message authentication codes\<close>

definition write_at :: "u_char list \<Rightarrow> nat \<Rightarrow> u_char list \<Rightarrow> u_char list option" where
  "write_at pkt off bs =
     (if off + length bs \<le> length pkt then Some (take off pkt @ bs @ drop (off + length bs) pkt) else None)"

definition read_at :: "u_char list \<Rightarrow> nat \<Rightarrow> nat \<Rightarrow> u_char list option" where
  "read_at pkt off n = (if off + n \<le> length pkt then Some (take n (drop off pkt)) else None)"

text \<open>The bytes of \<^verbatim>\<open>htonl(x)\<close> in memory.\<close>

definition htonl_bytes :: "u_int32 \<Rightarrow> u_char list" where
  "htonl_bytes x = [ucast (drop_bit 24 x), ucast (drop_bit 16 x), ucast (drop_bit 8 x), ucast x]"

text \<open>The data that the two functions digest: \<^verbatim>\<open>cache_secretsize\<close> bytes at \<open>key\<close>, then the packet.\<close>

definition mac_data :: "addr option \<Rightarrow> u_char list \<Rightarrow> nat \<Rightarrow> auth_state \<Rightarrow> u_char list option" where
  "mac_data key pkt len s =
     (if len > length pkt then None
      else if cache_secretsize s = 0 then Some (take len pkt)
      else case key of
             None \<Rightarrow> None
           | Some a \<Rightarrow>
               (case smem s a of
                  None \<Rightarrow> None
                | Some bs \<Rightarrow>
                    if unat (cache_secretsize s) \<le> length bs then Some (take (unat (cache_secretsize s)) bs @ take len pkt)
                    else None))"

definition MD5authencrypt ::
  "(int \<Rightarrow> u_char list \<Rightarrow> u_char list option) \<Rightarrow> int \<Rightarrow> addr option \<Rightarrow> u_char list \<Rightarrow> nat \<Rightarrow> auth_state \<Rightarrow> (int \<times> u_char list) option" where
  "MD5authencrypt evp ty key pkt len s =
     (case mac_data key pkt len s of
        None \<Rightarrow> None
      | Some d \<Rightarrow>
          (case evp ty d of
             None \<Rightarrow> Some (0, pkt)
           | Some digest \<Rightarrow>
               (case write_at pkt (len + 4) digest of
                  None \<Rightarrow> None
                | Some pkt \<Rightarrow> Some (int (length digest) + 4, pkt))))"

definition MD5authdecrypt ::
  "(int \<Rightarrow> u_char list \<Rightarrow> u_char list option) \<Rightarrow> int \<Rightarrow> addr option \<Rightarrow> u_char list \<Rightarrow> nat \<Rightarrow> int \<Rightarrow> auth_state \<Rightarrow> bool option" where
  "MD5authdecrypt evp ty key pkt len sz s =
     (case mac_data key pkt len s of
        None \<Rightarrow> None
      | Some d \<Rightarrow>
          (case evp ty d of
             None \<Rightarrow> Some False
           | Some digest \<Rightarrow>
               if (word_of_int sz :: u_int32) \<noteq> of_nat (length digest) + 4 then Some False
               else (case read_at pkt (len + 4) (length digest) of None \<Rightarrow> None | Some bs \<Rightarrow> Some (digest = bs))))"

definition authencrypt ::
  "(int \<Rightarrow> u_char list \<Rightarrow> u_char list option) \<Rightarrow> keyid_t \<Rightarrow> u_char list \<Rightarrow> nat \<Rightarrow> auth_state \<Rightarrow> (int \<times> u_char list \<times> auth_state) option" where
  "authencrypt evp keyno pkt len s =
     (let s = s\<lparr>authencryptions := authencryptions s + 1\<rparr>
      in case write_at pkt (4 * (len div 4)) (htonl_bytes keyno) of
           None \<Rightarrow> None
         | Some pkt \<Rightarrow>
             if 0 = keyno then Some (4, pkt, s)
             else
               let (have_key, s) = authhavekey keyno s
               in if \<not> have_key then Some (0, pkt, s)
                  else (case MD5authencrypt evp (cache_type s) (cache_secret s) pkt len s of
                          None \<Rightarrow> None
                        | Some (n, pkt) \<Rightarrow> Some (n, pkt, s)))"

definition authdecrypt ::
  "(int \<Rightarrow> u_char list \<Rightarrow> u_char list option) \<Rightarrow> keyid_t \<Rightarrow> u_char list \<Rightarrow> nat \<Rightarrow> int \<Rightarrow> auth_state \<Rightarrow> (bool \<times> auth_state) option" where
  "authdecrypt evp keyno pkt len sz s =
     (let s = s\<lparr>authdecryptions := authdecryptions s + 1\<rparr>
      in if 0 = keyno then Some (False, s)
         else
           let (have_key, s) = authhavekey keyno s
           in if \<not> have_key \<or> sz < 4 then Some (False, s)
              else (case MD5authdecrypt evp (cache_type s) (cache_secret s) pkt len sz s of
                      None \<Rightarrow> None
                    | Some ok \<Rightarrow> Some (ok, s)))"

section \<open>The invariant\<close>

definition keys_wf :: "auth_state \<Rightarrow> bool" where
  "keys_wf s \<longleftrightarrow> distinct (key_listhead s @ authfreekeys s) \<and> set (key_listhead s @ authfreekeys s) \<subseteq> {..<sk_fresh s} \<and>
     inj_on (\<lambda>sk. keyid (sk_at s sk)) (set (key_listhead s)) \<and>
     (\<forall>b. distinct (key_hash s b) \<and> set (key_hash s b) = {sk \<in> set (key_listhead s). KEYHASH (keyid (sk_at s sk)) s = b}) \<and>
     authnumkeys s = of_nat (length (key_listhead s)) \<and> authnumfreekeys s = int (length (authfreekeys s)) \<and>
     length (authfreekeys s) < 2 ^ 31"

text \<open>The secrets of the keys are allocated blocks of their own, large enough for their recorded size.\<close>

definition secret_ok :: "auth_state \<Rightarrow> addr \<Rightarrow> bool" where
  "secret_ok s sk \<longleftrightarrow>
     (case secret (sk_at s sk) of
        None \<Rightarrow> secretsize (sk_at s sk) = 0
      | Some a \<Rightarrow> a < smem_fresh s \<and> (case smem s a of None \<Rightarrow> False | Some bs \<Rightarrow> unat (secretsize (sk_at s sk)) \<le> length bs))"

definition secrets_wf :: "auth_state \<Rightarrow> bool" where
  "secrets_wf s \<longleftrightarrow> (\<forall>sk \<in> set (key_listhead s). secret_ok s sk) \<and>
     (\<forall>x \<in> set (key_listhead s). \<forall>y \<in> set (key_listhead s). secret (sk_at s x) = secret (sk_at s y) \<and> secret (sk_at s x) \<noteq> None \<longrightarrow> x = y)"

definition auth_wf :: "auth_state \<Rightarrow> bool" where
  "auth_wf s \<longleftrightarrow> keys_wf s \<and> secrets_wf s"

text \<open>The abstract store: for every key identifier the type, the flags, the lifetime and the bytes of the secret.\<close>

definition sk_view :: "auth_state \<Rightarrow> addr \<Rightarrow> u_short \<times> u_short \<times> u_int64 \<times> u_char list" where
  "sk_view s sk = (sk_type (sk_at s sk), sk_flags (sk_at s sk), lifetime (sk_at s sk),
     (case secret (sk_at s sk) of
        None \<Rightarrow> []
      | Some a \<Rightarrow> (case smem s a of None \<Rightarrow> [] | Some bs \<Rightarrow> take (unat (secretsize (sk_at s sk))) bs)))"

definition key_view :: "auth_state \<Rightarrow> keyid_t \<Rightarrow> (u_short \<times> u_short \<times> u_int64 \<times> u_char list) option" where
  "key_view s k = map_option (sk_view s) (auth_findkey k s)"

lemma findkey_iff:
  assumes "keys_wf s"
  shows "auth_findkey k s = Some sk \<longleftrightarrow> sk \<in> set (key_listhead s) \<and> keyid (sk_at s sk) = k"
proof
  assume "auth_findkey k s = Some sk"
  then have "sk \<in> set (key_hash s (KEYHASH k s))" "keyid (sk_at s sk) = k"
    by (auto simp: auth_findkey_def find_Some_iff)
  then show "sk \<in> set (key_listhead s) \<and> keyid (sk_at s sk) = k" using assms by (auto simp: keys_wf_def)
next
  assume sk: "sk \<in> set (key_listhead s) \<and> keyid (sk_at s sk) = k"
  then have "sk \<in> set (key_hash s (KEYHASH k s))" using assms by (auto simp: keys_wf_def)
  then obtain x where x: "auth_findkey k s = Some x" using sk
    by (cases "auth_findkey k s") (auto simp: auth_findkey_def find_None_iff)
  then have "x \<in> set (key_hash s (KEYHASH k s))" "keyid (sk_at s x) = k"
    by (auto simp: auth_findkey_def find_Some_iff)
  then have "x \<in> set (key_listhead s)" using assms by (auto simp: keys_wf_def)
  with \<open>keyid (sk_at s x) = k\<close> sk assms have "x = sk" by (auto simp: keys_wf_def inj_on_def)
  with x show "auth_findkey k s = Some sk" by simp
qed

lemma findkey_None:
  assumes "keys_wf s"
  shows "auth_findkey k s = None \<longleftrightarrow> (\<forall>sk \<in> set (key_listhead s). keyid (sk_at s sk) \<noteq> k)"
  using findkey_iff [OF assms, of k] by (cases "auth_findkey k s") auto

lemma key_view_iff:
  assumes "keys_wf s"
  shows "key_view s k = Some v \<longleftrightarrow> (\<exists>sk \<in> set (key_listhead s). keyid (sk_at s sk) = k \<and> sk_view s sk = v)"
proof -
  have "key_view s k = Some v \<longleftrightarrow> (\<exists>sk. auth_findkey k s = Some sk \<and> sk_view s sk = v)" by (auto simp: key_view_def)
  then show ?thesis using findkey_iff [OF assms, of k] by auto
qed

lemma option_eqI: "(\<And>v. x = Some v \<longleftrightarrow> y = Some v) \<Longrightarrow> x = y"
  by (cases x; cases y) auto

lemma key_view_None:
  assumes "keys_wf s"
  shows "key_view s k = None \<longleftrightarrow> (\<forall>sk \<in> set (key_listhead s). keyid (sk_at s sk) \<noteq> k)"
  unfolding key_view_def using findkey_None [OF assms] by simp

section \<open>Allocation and release\<close>

lemma moremem_wf:
  assumes "keys_wf s" "int (length (authfreekeys s)) + (if n > 0 then n else MEMINC) < 2 ^ 31"
  shows "keys_wf (auth_moremem n s)" "authfreekeys (auth_moremem n s) \<noteq> []"
    "\<And>sk. sk \<in> set (key_listhead s) \<Longrightarrow> sk_at (auth_moremem n s) sk = sk_at s sk"
    "key_listhead (auth_moremem n s) = key_listhead s" "smem (auth_moremem n s) = smem s" "smem_fresh (auth_moremem n s) = smem_fresh s"
    "key_hash (auth_moremem n s) = key_hash s" "authhashmask (auth_moremem n s) = authhashmask s" "authnumkeys (auth_moremem n s) = authnumkeys s"
proof -
  define i where "i = (if n > 0 then n else MEMINC)"
  have i: "i > 0" by (simp add: i_def MEMINC_def)
  have old: "sk < sk_fresh s" if "sk \<in> set (key_listhead s)" for sk using assms(1) that by (auto simp: keys_wf_def)
  show at: "sk_at (auth_moremem n s) sk = sk_at s sk" if "sk \<in> set (key_listhead s)" for sk
    using old [OF that] by (simp add: auth_moremem_def Let_def)
  show simple: "key_listhead (auth_moremem n s) = key_listhead s" "smem (auth_moremem n s) = smem s" "smem_fresh (auth_moremem n s) = smem_fresh s"
    "key_hash (auth_moremem n s) = key_hash s" "authhashmask (auth_moremem n s) = authhashmask s" "authnumkeys (auth_moremem n s) = authnumkeys s"
    by (simp_all add: auth_moremem_def Let_def)
  have fr: "authfreekeys (auth_moremem n s) = rev [sk_fresh s..<sk_fresh s + nat i] @ authfreekeys s"
    "sk_fresh (auth_moremem n s) = sk_fresh s + nat i" "authnumfreekeys (auth_moremem n s) = s32 (authnumfreekeys s + i)"
    by (simp_all add: auth_moremem_def Let_def i_def)
  show "authfreekeys (auth_moremem n s) \<noteq> []" using i by (simp add: fr)
  have "in_s32 (int (length (authfreekeys s)) + i)" using assms(2) i by (simp add: i_def in_s32_def)
  then have num: "authnumfreekeys (auth_moremem n s) = int (length (authfreekeys (auth_moremem n s)))"
    using assms(1) i unfolding fr by (simp add: keys_wf_def s32_id)
  have hash: "KEYHASH k (auth_moremem n s) = KEYHASH k s" for k by (simp add: KEYHASH_def simple)
  have "distinct (key_listhead s @ authfreekeys (auth_moremem n s))"
    "set (key_listhead s @ authfreekeys (auth_moremem n s)) \<subseteq> {..<sk_fresh (auth_moremem n s)}"
    using assms(1) unfolding fr keys_wf_def by auto
  moreover have "inj_on (\<lambda>sk. keyid (sk_at (auth_moremem n s) sk)) (set (key_listhead s))"
    using assms(1) at by (auto simp: keys_wf_def inj_on_def)
  moreover have "{sk \<in> set (key_listhead s). KEYHASH (keyid (sk_at (auth_moremem n s) sk)) s = b} =
      {sk \<in> set (key_listhead s). KEYHASH (keyid (sk_at s sk)) s = b}" for b using at by auto
  moreover have "length (authfreekeys (auth_moremem n s)) < 2 ^ 31"
    using assms(2) i unfolding fr i_def [symmetric] by simp
  ultimately show "keys_wf (auth_moremem n s)" using assms(1) num unfolding keys_wf_def simple hash by simp
qed

lemma alloc_wf:
  assumes "keys_wf s" "auth_findkey k s = None"
  shows "\<exists>s' sk. allocsymkey (KEYHASH k s) k fl ty lt sz sec s = Some s' \<and> keys_wf s' \<and> sk \<notin> set (key_listhead s) \<and>
    key_listhead s' = key_listhead s @ [sk] \<and>
    sk_at s' sk = \<lparr>secret = sec, lifetime = lt, keyid = k, sk_type = ty, secretsize = sz, sk_flags = fl\<rparr> \<and>
    (\<forall>x \<in> set (key_listhead s). sk_at s' x = sk_at s x) \<and> smem s' = smem s \<and> smem_fresh s' = smem_fresh s"
proof -
  define s1 where "s1 = (if authnumfreekeys s < 1 then auth_moremem (- 1) s else s)"
  have m: "keys_wf s1 \<and> authfreekeys s1 \<noteq> [] \<and> (\<forall>x \<in> set (key_listhead s). sk_at s1 x = sk_at s x) \<and> key_listhead s1 = key_listhead s \<and>
    smem s1 = smem s \<and> smem_fresh s1 = smem_fresh s \<and> authhashmask s1 = authhashmask s"
  proof (cases "authnumfreekeys s < 1")
    case True
    then have "authfreekeys s = []" using assms(1) by (simp add: keys_wf_def)
    then show ?thesis using moremem_wf [OF assms(1), of "- 1"] True by (simp add: s1_def MEMINC_def)
  next
    case False
    then have "authfreekeys s \<noteq> []" using assms(1) by (auto simp: keys_wf_def)
    with False show ?thesis using assms(1) by (simp add: s1_def)
  qed
  then obtain sk rest where f: "authfreekeys s1 = sk # rest" by (cases "authfreekeys s1") auto
  define s2 where "s2 = s1\<lparr>authfreekeys := rest,
     sk_at := (sk_at s1)(sk := \<lparr>secret = sec, lifetime = lt, keyid = k, sk_type = ty, secretsize = sz, sk_flags = fl\<rparr>),
     key_hash := (key_hash s1)(KEYHASH k s := sk # key_hash s1 (KEYHASH k s)), key_listhead := key_listhead s1 @ [sk],
     authnumfreekeys := s32 (authnumfreekeys s1 - 1), authnumkeys := authnumkeys s1 + 1\<rparr>"
  have a: "allocsymkey (KEYHASH k s) k fl ty lt sz sec s = Some s2"
    by (simp add: allocsymkey_def s1_def [symmetric] f s2_def)
  have new: "sk \<notin> set (key_listhead s)" "sk \<notin> set rest" using m f by (auto simp: keys_wf_def)
  have k: "\<forall>x \<in> set (key_listhead s). keyid (sk_at s x) \<noteq> k" using assms findkey_None by blast
  have hash: "KEYHASH j s2 = KEYHASH j s1" "KEYHASH j s1 = KEYHASH j s" for j using m by (simp_all add: KEYHASH_def s2_def)
  have sk_b: "sk \<notin> set (key_hash s1 b)" for b using m new by (auto simp: keys_wf_def)
  have w1: "keys_wf s1" and m1: "\<forall>x \<in> set (key_listhead s). sk_at s1 x = sk_at s x" "key_listhead s1 = key_listhead s" using m by auto
  have at: "sk_at s2 x = (if x = sk then \<lparr>secret = sec, lifetime = lt, keyid = k, sk_type = ty, secretsize = sz, sk_flags = fl\<rparr> else sk_at s1 x)" for x
    by (simp add: s2_def)
  have "keys_wf s2"
    unfolding keys_wf_def
  proof (intro conjI allI)
    show "distinct (key_listhead s2 @ authfreekeys s2)" "set (key_listhead s2 @ authfreekeys s2) \<subseteq> {..<sk_fresh s2}"
      using w1 f by (auto simp: s2_def keys_wf_def)
    show "inj_on (\<lambda>x. keyid (sk_at s2 x)) (set (key_listhead s2))"
      using w1 k m1 new by (auto simp: s2_def keys_wf_def inj_on_def)
    show "distinct (key_hash s2 b)" for b using w1 sk_b by (simp add: s2_def keys_wf_def)
    show "set (key_hash s2 b) = {x \<in> set (key_listhead s2). KEYHASH (keyid (sk_at s2 x)) s2 = b}" for b
    proof -
      have "set (key_hash s1 b) = {x \<in> set (key_listhead s). KEYHASH (keyid (sk_at s1 x)) s = b}"
        using w1 unfolding keys_wf_def m1(2) hash(2) by blast
      then show ?thesis unfolding hash at using new m1 by (auto simp: s2_def)
    qed
    show "authnumkeys s2 = of_nat (length (key_listhead s2))" using w1 by (simp add: s2_def keys_wf_def)
    show "length (authfreekeys s2) < 2 ^ 31" using w1 f by (simp add: s2_def keys_wf_def)
    then have "in_s32 (int (length rest))" by (simp add: s2_def in_s32_def)
    then show "authnumfreekeys s2 = int (length (authfreekeys s2))" using w1 f by (simp add: s2_def keys_wf_def s32_id)
  qed
  with a new m1 m show ?thesis by (intro exI [of _ s2] exI [of _ sk]) (auto simp: s2_def)
qed

lemma free_secret_frame:
  assumes "free_secret sec sz s = Some s'"
  shows "s' = s\<lparr>smem := case sec of None \<Rightarrow> smem s | Some a \<Rightarrow> (smem s)(a := None)\<rparr>"
  using assms by (auto simp: free_secret_def split: option.splits if_splits)

lemma free_secret_ok: "secret_ok s sk \<Longrightarrow> \<exists>s'. free_secret (secret (sk_at s sk)) (secretsize (sk_at s sk)) s = Some s'"
  by (auto simp: free_secret_def secret_ok_def split: option.splits)

lemma free_wf:
  assumes "keys_wf s" "sk \<in> set (key_listhead s)" "secret_ok s sk" "length (authfreekeys s) + 1 < 2 ^ 31"
  shows "\<exists>s'. freesymkey sk (KEYHASH (keyid (sk_at s sk)) s) s = Some s' \<and> keys_wf s' \<and>
    set (key_listhead s') = set (key_listhead s) - {sk} \<and> key_listhead s' = remove1 sk (key_listhead s) \<and>
    (\<forall>x. x \<noteq> sk \<longrightarrow> sk_at s' x = sk_at s x) \<and> smem_fresh s' = smem_fresh s \<and>
    smem s' = (case secret (sk_at s sk) of None \<Rightarrow> smem s | Some a \<Rightarrow> (smem s)(a := None)) \<and>
    length (authfreekeys s') = length (authfreekeys s) + 1 \<and> cache_keyid s' = cache_keyid s \<and> cache_secret s' = cache_secret s"
proof -
  obtain s1 where s1: "free_secret (secret (sk_at s sk)) (secretsize (sk_at s sk)) s = Some s1" using free_secret_ok [OF assms(3)] by blast
  define m where "m = (case secret (sk_at s sk) of None \<Rightarrow> smem s | Some a \<Rightarrow> (smem s)(a := None))"
  have e: "s1 = s\<lparr>smem := m\<rparr>" using free_secret_frame [OF s1] by (simp add: m_def)
  define b where "b = KEYHASH (keyid (sk_at s sk)) s"
  define s2 where "s2 = s\<lparr>smem := m, key_hash := (key_hash s)(b := remove1 sk (key_hash s b)),
     key_listhead := remove1 sk (key_listhead s), sk_at := (sk_at s)(sk := zero_symkey), authfreekeys := sk # authfreekeys s,
     authnumkeys := authnumkeys s - 1, authnumfreekeys := s32 (authnumfreekeys s + 1)\<rparr>"
  have f: "freesymkey sk b s = Some s2" by (simp add: freesymkey_def s1 s2_def e)
  have d: "distinct (key_listhead s)" "sk \<notin> set (authfreekeys s)" "distinct (authfreekeys s)" "set (key_listhead s) \<inter> set (authfreekeys s) = {}"
    using assms(1,2) by (auto simp: keys_wf_def)
  have set2: "set (key_listhead s2) = set (key_listhead s) - {sk}" using d by (simp add: s2_def)
  have hash: "KEYHASH j s2 = KEYHASH j s" for j by (simp add: KEYHASH_def s2_def)
  have at: "x \<noteq> sk \<Longrightarrow> sk_at s2 x = sk_at s x" for x by (simp add: s2_def)
  have hs: "distinct (key_hash s c)" "set (key_hash s c) = {x \<in> set (key_listhead s). KEYHASH (keyid (sk_at s x)) s = c}" for c
    using assms(1) unfolding keys_wf_def by blast+
  have "keys_wf s2"
    unfolding keys_wf_def
  proof (intro conjI allI)
    show "distinct (key_listhead s2 @ authfreekeys s2)" "set (key_listhead s2 @ authfreekeys s2) \<subseteq> {..<sk_fresh s2}"
      using assms(1,2) d by (auto simp: s2_def keys_wf_def)
    show "inj_on (\<lambda>x. keyid (sk_at s2 x)) (set (key_listhead s2))"
      unfolding set2 using assms(1) at by (auto simp: keys_wf_def inj_on_def)
    show "distinct (key_hash s2 c)" for c using hs(1) by (simp add: s2_def)
    show "set (key_hash s2 c) = {x \<in> set (key_listhead s2). KEYHASH (keyid (sk_at s2 x)) s2 = c}" for c
    proof -
      have "set (key_hash s2 c) = set (key_hash s c) - {sk}"
      proof (cases "c = b")
        case True
        then show ?thesis using hs(1) by (simp add: s2_def)
      next
        case False
        then have "sk \<notin> set (key_hash s c)" unfolding hs(2) by (simp add: b_def)
        with False show ?thesis by (simp add: s2_def)
      qed
      then show ?thesis unfolding set2 hash hs(2) using at by auto
    qed
    have "length (key_listhead s) > 0" using assms(2) by (cases "key_listhead s") auto
    then show "authnumkeys s2 = of_nat (length (key_listhead s2))"
      using assms(1,2) by (simp add: s2_def keys_wf_def length_remove1 of_nat_diff Suc_le_eq)
    show "length (authfreekeys s2) < 2 ^ 31" using assms(4) by (simp add: s2_def)
    then have "in_s32 (int (length (authfreekeys s)) + 1)" by (simp add: s2_def in_s32_def)
    then show "authnumfreekeys s2 = int (length (authfreekeys s2))" using assms(1) by (simp add: s2_def keys_wf_def s32_id)
  qed
  with f set2 at show ?thesis unfolding b_def m_def [symmetric] by (intro exI [of _ s2]) (simp add: s2_def)
qed

section \<open>The abstract store\<close>

lemma view_frame:
  assumes "sk_at s' x = sk_at s x" "\<forall>a. secret (sk_at s x) = Some a \<longrightarrow> smem s' a = smem s a"
  shows "sk_view s' x = sk_view s x" "smem_fresh s \<le> smem_fresh s' \<Longrightarrow> secret_ok s x \<Longrightarrow> secret_ok s' x"
  using assms by (auto simp: sk_view_def secret_ok_def split: option.splits)

lemma key_view_upd:
  assumes "keys_wf s" "keys_wf s'" "set (key_listhead s') = insert sk (set (key_listhead s))" "keyid (sk_at s' sk) = k"
    and "sk \<in> set (key_listhead s) \<Longrightarrow> keyid (sk_at s sk) = k"
    and "\<And>x. x \<in> set (key_listhead s) \<Longrightarrow> x \<noteq> sk \<Longrightarrow> sk_at s' x = sk_at s x \<and> sk_view s' x = sk_view s x"
  shows "key_view s' = (key_view s)(k \<mapsto> sk_view s' sk)"
proof
  fix j
  show "key_view s' j = ((key_view s)(k \<mapsto> sk_view s' sk)) j"
  proof (cases "j = k")
    case True
    have "key_view s' k = Some (sk_view s' sk)" using assms by (subst key_view_iff) auto
    with True show ?thesis by simp
  next
    case False
    have "key_view s' j = Some v \<longleftrightarrow> key_view s j = Some v" for v
      unfolding key_view_iff [OF assms(1)] key_view_iff [OF assms(2)] assms(3) using False assms(4-6) by (metis insert_iff)
    then have "key_view s' j = key_view s j" by (rule option_eqI)
    with False show ?thesis by simp
  qed
qed

lemma key_view_del:
  assumes "keys_wf s" "keys_wf s'" "set (key_listhead s') = set (key_listhead s) - {sk}" "sk \<in> set (key_listhead s)" "keyid (sk_at s sk) = k"
    and "\<And>x. x \<in> set (key_listhead s) \<Longrightarrow> x \<noteq> sk \<Longrightarrow> sk_at s' x = sk_at s x \<and> sk_view s' x = sk_view s x"
  shows "key_view s' = (key_view s)(k := None)"
proof
  fix j
  show "key_view s' j = ((key_view s)(k := None)) j"
  proof (cases "j = k")
    case True
    have "inj_on (\<lambda>sk. keyid (sk_at s sk)) (set (key_listhead s))" using assms(1) by (simp add: keys_wf_def)
    then have "key_view s' k = None" unfolding key_view_None [OF assms(2)] assms(3) using assms(4-6) by (auto simp: inj_on_def)
    with True show ?thesis by simp
  next
    case False
    have "key_view s' j = Some v \<longleftrightarrow> key_view s j = Some v" for v
      unfolding key_view_iff [OF assms(1)] key_view_iff [OF assms(2)] assms(3) using False assms(5,6) by (metis Diff_iff empty_iff insert_iff)
    then have "key_view s' j = key_view s j" by (rule option_eqI)
    with False show ?thesis by simp
  qed
qed

lemma secrets_wf_upd:
  assumes "secrets_wf s" "set (key_listhead s') \<subseteq> insert sk (set (key_listhead s))" "sk \<in> set (key_listhead s') \<Longrightarrow> secret_ok s' sk"
    and "\<And>x. x \<in> set (key_listhead s) \<Longrightarrow> x \<noteq> sk \<Longrightarrow> sk_at s' x = sk_at s x \<and> (secret_ok s x \<longrightarrow> secret_ok s' x)"
    and "\<And>x a. x \<in> set (key_listhead s) \<Longrightarrow> x \<noteq> sk \<Longrightarrow> sk \<in> set (key_listhead s') \<Longrightarrow> secret (sk_at s' sk) = Some a \<Longrightarrow> secret (sk_at s x) \<noteq> Some a"
  shows "secrets_wf s'"
  unfolding secrets_wf_def
proof (intro conjI ballI impI)
  show "secret_ok s' x" if "x \<in> set (key_listhead s')" for x
    using assms that by (cases "x = sk") (auto simp: secrets_wf_def)
  show "x = y" if xy: "x \<in> set (key_listhead s')" "y \<in> set (key_listhead s')"
    and eq: "secret (sk_at s' x) = secret (sk_at s' y) \<and> secret (sk_at s' x) \<noteq> None" for x y
  proof -
    obtain a where a: "secret (sk_at s' x) = Some a" "secret (sk_at s' y) = Some a"
      using eq by (metis option.exhaust)
    show ?thesis
    proof (cases "x = sk \<or> y = sk")
      case True
      then show ?thesis using a xy assms(2,4,5) by (metis insert_iff subsetD)
    next
      case False
      then have "x \<in> set (key_listhead s)" "y \<in> set (key_listhead s)" "secret (sk_at s x) = Some a" "secret (sk_at s y) = Some a"
        using xy assms(2,4) a by auto
      then show ?thesis using assms(1) unfolding secrets_wf_def by (metis option.distinct(1))
    qed
  qed
qed

lemma secret_block:
  assumes "secrets_wf s" "x \<in> set (key_listhead s)" "secret (sk_at s x) = Some a"
  shows "a < smem_fresh s" "\<exists>bs. smem s a = Some bs"
  using assms by (auto simp: secrets_wf_def secret_ok_def split: option.splits dest!: bspec [of _ _ x])

lemma secret_private:
  assumes "secrets_wf s" "x \<in> set (key_listhead s)" "y \<in> set (key_listhead s)" "x \<noteq> y" "secret (sk_at s x) = Some a"
  shows "secret (sk_at s y) \<noteq> Some a"
  using assms unfolding secrets_wf_def by (metis option.distinct(1))

subsection \<open>Setting a key\<close>

lemma setkey_new:
  assumes "auth_wf s" "auth_findkey k s = None" "0 \<le> len" "len \<le> 65535" "nat len \<le> length key"
  shows "\<exists>s'. MD5auth_setkey k ty key len s = Some s' \<and> auth_wf s' \<and>
    key_view s' = (key_view s)(k \<mapsto> (word_of_int ty, 0, 0, take (nat len) key))"
proof -
  define n where "n = nat len"
  have n: "n \<le> length key" "n < 65536" "nat (max 0 len) = n" using assms by (auto simp: n_def)
  define a where "a = smem_fresh s"
  define s1 where "s1 = s\<lparr>smem := (smem s)(a \<mapsto> take n key), smem_fresh := a + 1\<rparr>"
  have c: "copy_secret (Some a) key n (s\<lparr>smem := (smem s)(a \<mapsto> replicate n 0), smem_fresh := a + 1\<rparr>) = Some s1"
    using n by (simp add: copy_secret_def s1_def)
  have w: "keys_wf s" "secrets_wf s" using assms(1) by (auto simp: auth_wf_def)
  have h: "KEYHASH k s1 = KEYHASH k s" by (simp add: KEYHASH_def s1_def)
  have w1: "keys_wf s1" using w(1) by (simp add: keys_wf_def KEYHASH_def s1_def)
  have f1: "auth_findkey k s1 = None" using assms(2) by (simp add: auth_findkey_def h) (simp add: s1_def)
  obtain s' sk where s': "allocsymkey (KEYHASH k s) k 0 (word_of_int ty) 0 (of_nat n) (Some a) s1 = Some s'" "keys_wf s'"
    "sk \<notin> set (key_listhead s1)" "key_listhead s' = key_listhead s1 @ [sk]"
    "sk_at s' sk = \<lparr>secret = Some a, lifetime = 0, keyid = k, sk_type = word_of_int ty, secretsize = of_nat n, sk_flags = 0\<rparr>"
    "\<forall>x \<in> set (key_listhead s1). sk_at s' x = sk_at s1 x" "smem s' = smem s1" "smem_fresh s' = smem_fresh s1"
    using alloc_wf [OF w1 f1] unfolding h by blast
  have set_eq: "MD5auth_setkey k ty key len s = Some s'"
    using assms(2) s'(1) c n(3) unfolding auth_findkey_def by (simp add: MD5auth_setkey_def a_def Let_def)
  have un: "unat (of_nat n :: u_short) = n" using n(2) by (simp add: unat_of_nat)
  have other: "sk_at s' x = sk_at s x \<and> sk_view s' x = sk_view s x \<and> (secret_ok s x \<longrightarrow> secret_ok s' x)" if "x \<in> set (key_listhead s)" for x
  proof -
    have e: "sk_at s' x = sk_at s x" using s'(6) that by (simp add: s1_def)
    moreover have "\<forall>b. secret (sk_at s x) = Some b \<longrightarrow> smem s' b = smem s b"
      using secret_block(1) [OF w(2) that] s'(7) by (auto simp: s1_def a_def)
    ultimately show ?thesis using view_frame [of s' x s] s'(8) by (simp add: s1_def a_def)
  qed
  have v: "sk_view s' sk = (word_of_int ty, 0, 0, take (nat len) key)"
    using s'(5,7) un n(1) by (simp add: sk_view_def s1_def) (simp add: n_def)
  have "secrets_wf s'"
  proof (rule secrets_wf_upd [OF w(2), of s' sk])
    show "set (key_listhead s') \<subseteq> insert sk (set (key_listhead s))" using s'(4) by (simp add: s1_def)
    show "secret_ok s' sk" using s'(5,7,8) un n(1) by (simp add: secret_ok_def s1_def a_def)
    show "sk_at s' x = sk_at s x \<and> (secret_ok s x \<longrightarrow> secret_ok s' x)" if "x \<in> set (key_listhead s)" for x using other [OF that] by blast
    show "secret (sk_at s x) \<noteq> Some b" if "x \<in> set (key_listhead s)" "secret (sk_at s' sk) = Some b" for x b
      using secret_block(1) [OF w(2) that(1)] s'(5) that(2) by (auto simp: a_def)
  qed
  moreover have "key_view s' = (key_view s)(k \<mapsto> sk_view s' sk)"
    using s'(3,4,5) other by (intro key_view_upd [OF w(1) s'(2)]) (auto simp: s1_def)
  ultimately show ?thesis using set_eq s'(2) v by (simp add: auth_wf_def)
qed

lemma setkey_old:
  assumes "auth_wf s" "auth_findkey k s = Some sk" "secret (sk_at s sk) = Some a" "smem s a = Some bs"
    and "0 \<le> len" "len \<le> 65535" "nat len \<le> length key" "nat len \<le> length bs"
  shows "\<exists>s'. MD5auth_setkey k ty key len s = Some s' \<and> auth_wf s' \<and>
    key_view s' = (key_view s)(k \<mapsto> (word_of_int ty, sk_flags (sk_at s sk), lifetime (sk_at s sk), take (nat len) key))"
proof -
  define n where "n = nat len"
  have n: "n \<le> length key" "n \<le> length bs" "n < 65536" "nat (max 0 len) = n" using assms by (auto simp: n_def)
  have w: "keys_wf s" "secrets_wf s" using assms(1) by (auto simp: auth_wf_def)
  have sk: "sk \<in> set (key_listhead s)" "keyid (sk_at s sk) = k" using findkey_iff [OF w(1)] assms(2) by auto
  define r where "r = (sk_at s sk)\<lparr>sk_type := word_of_int ty, secretsize := of_nat n\<rparr>"
  define m where "m = (smem s)(a \<mapsto> take n key @ drop n bs)"
  have c: "copy_secret (Some a) key n (s\<lparr>sk_at := (sk_at s)(sk := r)\<rparr>) = Some (s\<lparr>sk_at := (sk_at s)(sk := r), smem := m\<rparr>)"
    using n assms(4) by (cases "n = 0") (simp_all add: copy_secret_def m_def fun_upd_idem)
  define s' where "s' = (if cache_keyid s = k then s\<lparr>sk_at := (sk_at s)(sk := r), smem := m, cache_flags := 0, cache_keyid := 0\<rparr>
     else s\<lparr>sk_at := (sk_at s)(sk := r), smem := m\<rparr>)"
  have f: "sk_at s' = (sk_at s)(sk := r)" "smem s' = m" "key_listhead s' = key_listhead s" "smem_fresh s' = smem_fresh s"
    "key_hash s' = key_hash s" "authfreekeys s' = authfreekeys s" "sk_fresh s' = sk_fresh s" "authnumkeys s' = authnumkeys s"
    "authnumfreekeys s' = authnumfreekeys s" "\<And>j. KEYHASH j s' = KEYHASH j s"
    by (simp_all add: s'_def KEYHASH_def)
  have rs: "secret r = Some a" "keyid r = k" using assms(3) sk by (simp_all add: r_def)
  have set_eq: "MD5auth_setkey k ty key len s = Some s'"
    using assms(2,3) c n(4) rs unfolding auth_findkey_def by (simp add: MD5auth_setkey_def Let_def r_def [symmetric] s'_def)
  have kid: "keyid (sk_at s' x) = keyid (sk_at s x)" for x using rs sk by (simp add: f)
  have w': "keys_wf s'" using w(1) unfolding keys_wf_def kid unfolding f .
  have un: "unat (of_nat n :: u_short) = n" using n(3) by (simp add: unat_of_nat)
  have other: "sk_at s' x = sk_at s x \<and> sk_view s' x = sk_view s x \<and> (secret_ok s x \<longrightarrow> secret_ok s' x)" if "x \<in> set (key_listhead s)" "x \<noteq> sk" for x
  proof -
    have e: "sk_at s' x = sk_at s x" using that by (simp add: f)
    moreover have "\<forall>b. secret (sk_at s x) = Some b \<longrightarrow> smem s' b = smem s b"
      using secret_private [OF w(2) sk(1) that(1)] that(2) assms(3) by (auto simp: f m_def)
    ultimately show ?thesis using view_frame [of s' x s] by (simp add: f)
  qed
  have v: "sk_view s' sk = (word_of_int ty, sk_flags (sk_at s sk), lifetime (sk_at s sk), take (nat len) key)"
    using rs un n(1) by (simp add: sk_view_def f m_def) (simp add: r_def un n_def)
  have "secrets_wf s'"
  proof (rule secrets_wf_upd [OF w(2), of s' sk])
    show "set (key_listhead s') \<subseteq> insert sk (set (key_listhead s))" by (auto simp: f)
    have "a < smem_fresh s" using secret_block(1) [OF w(2) sk(1) assms(3)] .
    then show "secret_ok s' sk" using rs n un by (simp add: secret_ok_def f m_def) (simp add: r_def un)
    show "sk_at s' x = sk_at s x \<and> (secret_ok s x \<longrightarrow> secret_ok s' x)" if "x \<in> set (key_listhead s)" "x \<noteq> sk" for x using other [OF that] by blast
    show "secret (sk_at s x) \<noteq> Some b" if "x \<in> set (key_listhead s)" "x \<noteq> sk" "secret (sk_at s' sk) = Some b" for x b
      using secret_private [OF w(2) sk(1) that(1), of b] that rs assms(3) by (auto simp: f)
  qed
  moreover have "key_view s' = (key_view s)(k \<mapsto> sk_view s' sk)"
    using sk other rs by (intro key_view_upd [OF w(1) w']) (auto simp: f)
  ultimately show ?thesis using set_eq w' v by (simp add: auth_wf_def)
qed

subsection \<open>Releasing a key\<close>

lemma free_view:
  assumes "auth_wf s" "sk \<in> set (key_listhead s)" "length (authfreekeys s) + 1 < 2 ^ 31"
  shows "\<exists>s'. freesymkey sk (KEYHASH (keyid (sk_at s sk)) s) s = Some s' \<and> auth_wf s' \<and>
    key_view s' = (key_view s)(keyid (sk_at s sk) := None) \<and> key_listhead s' = remove1 sk (key_listhead s) \<and>
    (\<forall>x. x \<noteq> sk \<longrightarrow> sk_at s' x = sk_at s x) \<and> length (authfreekeys s') = length (authfreekeys s) + 1 \<and>
    cache_keyid s' = cache_keyid s \<and> cache_secret s' = cache_secret s \<and>
    (\<forall>a. secret (sk_at s sk) = Some a \<longrightarrow> smem s' a = None) \<and> (\<forall>a. smem s a = None \<longrightarrow> smem s' a = None)"
proof -
  have w: "keys_wf s" "secrets_wf s" "secret_ok s sk" using assms(1,2) by (auto simp: auth_wf_def secrets_wf_def)
  obtain s' where s': "freesymkey sk (KEYHASH (keyid (sk_at s sk)) s) s = Some s'" "keys_wf s'"
    "set (key_listhead s') = set (key_listhead s) - {sk}" "key_listhead s' = remove1 sk (key_listhead s)"
    "\<forall>x. x \<noteq> sk \<longrightarrow> sk_at s' x = sk_at s x" "smem_fresh s' = smem_fresh s"
    "smem s' = (case secret (sk_at s sk) of None \<Rightarrow> smem s | Some a \<Rightarrow> (smem s)(a := None))"
    "length (authfreekeys s') = length (authfreekeys s) + 1" "cache_keyid s' = cache_keyid s" "cache_secret s' = cache_secret s"
    using free_wf [OF w(1) assms(2) w(3) assms(3)] by blast
  have other: "sk_at s' x = sk_at s x \<and> sk_view s' x = sk_view s x \<and> (secret_ok s x \<longrightarrow> secret_ok s' x)" if "x \<in> set (key_listhead s)" "x \<noteq> sk" for x
  proof -
    have e: "sk_at s' x = sk_at s x" using s'(5) that by simp
    moreover have "\<forall>b. secret (sk_at s x) = Some b \<longrightarrow> smem s' b = smem s b"
      using secret_private [OF w(2) assms(2) that(1)] that(2) s'(7) by (auto split: option.splits)
    ultimately show ?thesis using view_frame [of s' x s] s'(6) by simp
  qed
  have "key_view s' = (key_view s)(keyid (sk_at s sk) := None)"
    using other by (intro key_view_del [OF w(1) s'(2,3) assms(2)]) auto
  moreover have "secrets_wf s'"
    using other s'(3) by (intro secrets_wf_upd [OF w(2), of s' sk]) auto
  moreover have "(\<forall>a. secret (sk_at s sk) = Some a \<longrightarrow> smem s' a = None) \<and> (\<forall>a. smem s a = None \<longrightarrow> smem s' a = None)"
    using s'(7) by (auto split: option.splits)
  ultimately show ?thesis using s' by (auto simp: auth_wf_def)
qed

subsection \<open>Trust\<close>

text \<open>The lifetime and entry that trusting a key gives.\<close>

definition trust_life :: "u_int64 \<Rightarrow> u_int64 \<Rightarrow> u_int64" where
  "trust_life now trust = (if trust > 1 then now + trust else 0)"

fun trusted_entry :: "u_int64 \<Rightarrow> (u_short \<times> u_short \<times> u_int64 \<times> u_char list) option \<Rightarrow> u_short \<times> u_short \<times> u_int64 \<times> u_char list" where
  "trusted_entry lt None = (0, KEY_TRUSTED, lt, [])"
| "trusted_entry lt (Some (ty, fl, _, bs)) = (ty, fl OR KEY_TRUSTED, lt, bs)"

text \<open>The store does not depend on the cache and the counters.\<close>

lemma store_frame:
  assumes "sk_at s' = sk_at s" "key_listhead s' = key_listhead s" "key_hash s' = key_hash s" "authfreekeys s' = authfreekeys s"
    "sk_fresh s' = sk_fresh s" "smem s' = smem s" "smem_fresh s' = smem_fresh s" "authhashmask s' = authhashmask s"
    "authnumkeys s' = authnumkeys s" "authnumfreekeys s' = authnumfreekeys s"
  shows "auth_wf s' = auth_wf s" "key_view s' = key_view s" "auth_findkey k s' = auth_findkey k s"
  unfolding auth_wf_def keys_wf_def secrets_wf_def secret_ok_def KEYHASH_def key_view_def [abs_def] auth_findkey_def sk_view_def [abs_def] assms
  by (rule refl)+

lemma auth_wf_cache [simp]: "auth_wf (s\<lparr>cache_flags := f, cache_keyid := j\<rparr>) = auth_wf s"
  by (rule store_frame) simp_all

lemma key_view_cache [simp]: "key_view (s\<lparr>cache_flags := f, cache_keyid := j\<rparr>) = key_view s"
  by (rule store_frame) simp_all

lemma authtrust_new:
  assumes "auth_wf s" "auth_findkey k s = None" "trust \<noteq> 0"
  shows "\<exists>s'. authtrust now k trust s = Some s' \<and> auth_wf s' \<and> key_view s' = (key_view s)(k \<mapsto> (0, KEY_TRUSTED, trust_life now trust, []))"
proof -
  have w: "keys_wf s" "secrets_wf s" using assms(1) by (auto simp: auth_wf_def)
  obtain s' sk where s': "allocsymkey (KEYHASH k s) k KEY_TRUSTED 0 (trust_life now trust) 0 None s = Some s'" "keys_wf s'"
    "sk \<notin> set (key_listhead s)" "key_listhead s' = key_listhead s @ [sk]"
    "sk_at s' sk = \<lparr>secret = None, lifetime = trust_life now trust, keyid = k, sk_type = 0, secretsize = 0, sk_flags = KEY_TRUSTED\<rparr>"
    "\<forall>x \<in> set (key_listhead s). sk_at s' x = sk_at s x" "smem s' = smem s" "smem_fresh s' = smem_fresh s"
    using alloc_wf [OF w(1) assms(2)] by blast
  have e: "authtrust now k trust s = Some s'"
    using assms(2,3) s'(1) unfolding auth_findkey_def by (simp add: authtrust_def trust_life_def Let_def)
  have other: "sk_at s' x = sk_at s x \<and> sk_view s' x = sk_view s x \<and> (secret_ok s x \<longrightarrow> secret_ok s' x)" if "x \<in> set (key_listhead s)" for x
    using view_frame [of s' x s] s' that by simp
  have "key_view s' = (key_view s)(k \<mapsto> sk_view s' sk)"
    using s'(3,4,5) other by (intro key_view_upd [OF w(1) s'(2)]) auto
  moreover have "sk_view s' sk = (0, KEY_TRUSTED, trust_life now trust, [])" using s'(5) by (simp add: sk_view_def)
  moreover have "secrets_wf s'"
  proof (intro secrets_wf_upd [OF w(2), of s' sk])
    show "secret_ok s' sk" using s'(5) by (simp add: secret_ok_def)
  qed (use other s'(4,5) in auto)
  ultimately show ?thesis using e s'(2) by (auto simp: auth_wf_def)
qed

lemma authtrust_old:
  assumes "auth_wf s" "auth_findkey k s = Some sk" "trust \<noteq> 0"
  shows "\<exists>s'. authtrust now k trust s = Some s' \<and> auth_wf s' \<and>
    key_view s' = (key_view s)(k \<mapsto> trusted_entry (trust_life now trust) (key_view s k))"
proof -
  have w: "keys_wf s" "secrets_wf s" using assms(1) by (auto simp: auth_wf_def)
  have sk: "sk \<in> set (key_listhead s)" "keyid (sk_at s sk) = k" using findkey_iff [OF w(1)] assms(2) by auto
  define r where "r = (sk_at s sk)\<lparr>sk_flags := sk_flags (sk_at s sk) OR KEY_TRUSTED, lifetime := trust_life now trust\<rparr>"
  define s1 where "s1 = (if cache_keyid s = k then s\<lparr>cache_flags := 0, cache_keyid := 0\<rparr> else s)"
  define s' where "s' = s1\<lparr>sk_at := (sk_at s1)(sk := r)\<rparr>"
  have f: "sk_at s' = (sk_at s)(sk := r)" "smem s' = smem s" "key_listhead s' = key_listhead s" "smem_fresh s' = smem_fresh s"
    "key_hash s' = key_hash s" "authfreekeys s' = authfreekeys s" "sk_fresh s' = sk_fresh s" "authnumkeys s' = authnumkeys s"
    "authnumfreekeys s' = authnumfreekeys s" "\<And>j. KEYHASH j s' = KEYHASH j s"
    by (simp_all add: s'_def s1_def KEYHASH_def)
  have e: "authtrust now k trust s = Some s'"
    using assms(2,3) unfolding auth_findkey_def
    by (simp add: authtrust_def Let_def s'_def s1_def r_def trust_life_def word_neq_0_conv)
  have kid: "keyid (sk_at s' x) = keyid (sk_at s x)" for x by (simp add: f r_def)
  have w': "keys_wf s'" using w(1) unfolding keys_wf_def kid unfolding f .
  have sec: "secret (sk_at s' x) = secret (sk_at s x)" "secretsize (sk_at s' x) = secretsize (sk_at s x)" for x by (simp_all add: f r_def)
  have "secrets_wf s'" using w(2) unfolding secrets_wf_def secret_ok_def sec unfolding f .
  moreover have "key_view s' = (key_view s)(k \<mapsto> sk_view s' sk)"
    using sk by (intro key_view_upd [OF w(1) w']) (auto simp: f r_def intro: view_frame(1))
  moreover have "sk_view s' sk = trusted_entry (trust_life now trust) (key_view s k)"
    using assms(2) unfolding sk_view_def sec f(2) key_view_def by (simp add: f r_def sk_view_def)
  ultimately show ?thesis using e w' by (simp add: auth_wf_def)
qed

lemma authtrust_untrust:
  assumes "auth_wf s" "length (authfreekeys s) + 1 < 2 ^ 31"
  shows "\<exists>s'. authtrust now k 0 s = Some s' \<and> auth_wf s' \<and> key_view s' = (key_view s)(k := None)"
proof (cases "auth_findkey k s")
  case None
  then have "key_view s k = None" by (simp add: key_view_def)
  then have "key_view s = (key_view s)(k := None)" by (simp add: fun_upd_idem)
  moreover have "authtrust now k 0 s = Some s" using None unfolding auth_findkey_def by (simp add: authtrust_def)
  ultimately show ?thesis using assms by auto
next
  case (Some sk)
  define s1 where "s1 = (if cache_keyid s = k then s\<lparr>cache_flags := 0, cache_keyid := 0\<rparr> else s)"
  have f: "sk_at s1 = sk_at s" "key_listhead s1 = key_listhead s" "auth_wf s1" "KEYHASH k s1 = KEYHASH k s" "authfreekeys s1 = authfreekeys s" "key_view s1 = key_view s"
    using assms(1) by (simp_all add: s1_def KEYHASH_def)
  have sk: "sk \<in> set (key_listhead s)" "keyid (sk_at s sk) = k" using findkey_iff Some assms(1) by (auto simp: auth_wf_def)
  have "authtrust now k 0 s = freesymkey sk (KEYHASH k s) s1"
    using Some unfolding auth_findkey_def by (simp add: authtrust_def Let_def s1_def)
  then show ?thesis using free_view [OF f(3), of sk] sk f assms(2) by auto
qed

subsection \<open>Aging\<close>

lemma age_visit:
  fixes now :: u_int64
  assumes "auth_wf s" "set ks \<subseteq> set (key_listhead s)" "distinct ks" "length (key_listhead s) + length (authfreekeys s) + 1 < 2 ^ 31"
  defines "expired \<equiv> \<lambda>r. lifetime r > 0 \<and> now > lifetime r"
  defines "body \<equiv> \<lambda>sk s. if lifetime (sk_at s sk) > 0 \<and> now > lifetime (sk_at s sk) then
       (case freesymkey sk (KEYHASH (keyid (sk_at s sk)) s) s of
          None \<Rightarrow> None
        | Some s \<Rightarrow> Some (s\<lparr>authkeyexpired := authkeyexpired s + 1\<rparr>))
     else Some s"
  shows "\<exists>s'. visit body ks s = Some s' \<and> auth_wf s' \<and>
    key_view s' = (\<lambda>k. if \<exists>sk \<in> set ks. keyid (sk_at s sk) = k \<and> expired (sk_at s sk) then None else key_view s k) \<and>
    cache_keyid s' = cache_keyid s \<and> cache_secret s' = cache_secret s \<and>
    (\<forall>sk \<in> set ks. expired (sk_at s sk) \<longrightarrow> (\<forall>a. secret (sk_at s sk) = Some a \<longrightarrow> smem s' a = None)) \<and>
    (\<forall>a. smem s a = None \<longrightarrow> smem s' a = None)"
  using assms(1-4)
proof (induction ks arbitrary: s)
  case Nil
  then show ?case by simp
next
  case (Cons sk ks)
  show ?case
  proof (cases "expired (sk_at s sk)")
    case False
    then have "body sk s = Some s" by (auto simp: body_def expired_def)
    then show ?thesis using Cons.IH [of s] Cons.prems False by auto
  next
    case True
    have sk: "sk \<in> set (key_listhead s)" using Cons.prems by simp
    then have len: "length (authfreekeys s) + 1 < 2 ^ 31" using Cons.prems(4) by simp
    obtain s1 where s1: "freesymkey sk (KEYHASH (keyid (sk_at s sk)) s) s = Some s1" "auth_wf s1"
      "key_view s1 = (key_view s)(keyid (sk_at s sk) := None)" "key_listhead s1 = remove1 sk (key_listhead s)"
      "\<forall>x. x \<noteq> sk \<longrightarrow> sk_at s1 x = sk_at s x" "length (authfreekeys s1) = length (authfreekeys s) + 1"
      "cache_keyid s1 = cache_keyid s" "cache_secret s1 = cache_secret s"
      "\<forall>a. secret (sk_at s sk) = Some a \<longrightarrow> smem s1 a = None" "\<forall>a. smem s a = None \<longrightarrow> smem s1 a = None"
      using free_view [OF Cons.prems(1) sk len] by blast
    define s2 where "s2 = s1\<lparr>authkeyexpired := authkeyexpired s1 + 1\<rparr>"
    have b: "body sk s = Some s2" using True s1(1) by (simp add: body_def expired_def s2_def)
    have v2: "key_view s2 = key_view s1"
      by (rule store_frame) (simp_all add: s2_def)
    have "auth_wf s2 = auth_wf s1" by (rule store_frame) (simp_all add: s2_def)
    then have w2: "auth_wf s2" using s1(2) by simp
    have sub: "set ks \<subseteq> set (key_listhead s2)" "distinct ks" "sk \<notin> set ks"
      using Cons.prems(2,3) s1(4) by (auto simp: s2_def) (metis in_set_remove1 subsetD)
    have "length (key_listhead s) > 0" using sk by (cases "key_listhead s") auto
    then have "length (key_listhead s1) + 1 = length (key_listhead s)" using sk by (simp add: s1(4) length_remove1)
    then have len2: "length (key_listhead s2) + length (authfreekeys s2) + 1 < 2 ^ 31"
      using Cons.prems(4) s1(6) by (simp add: s2_def)
    have same: "sk_at s2 x = sk_at s x" if "x \<in> set ks" for x using s1(5) that sub(3) by (auto simp: s2_def)
    obtain s' where s': "visit body ks s2 = Some s'" "auth_wf s'"
      "key_view s' = (\<lambda>k. if \<exists>x \<in> set ks. keyid (sk_at s2 x) = k \<and> expired (sk_at s2 x) then None else key_view s2 k)"
      "cache_keyid s' = cache_keyid s2" "cache_secret s' = cache_secret s2"
      "\<forall>x \<in> set ks. expired (sk_at s2 x) \<longrightarrow> (\<forall>a. secret (sk_at s2 x) = Some a \<longrightarrow> smem s' a = None)"
      "\<forall>a. smem s2 a = None \<longrightarrow> smem s' a = None"
      using Cons.IH [OF w2 sub(1,2) len2] by blast
    have "key_view s' = (\<lambda>k. if \<exists>x \<in> set (sk # ks). keyid (sk_at s x) = k \<and> expired (sk_at s x) then None else key_view s k)"
      unfolding s'(3) v2 s1(3) using same True by (auto simp: fun_eq_iff)
    then show ?thesis
      using b s' s1(7-10) same by (auto simp: s2_def)
  qed
qed

subsection \<open>Rehashing\<close>

lemma rehash_fold:
  "fold (\<lambda>sk s. let hash = KEYHASH (keyid (sk_at s sk)) s in s\<lparr>key_hash := (key_hash s)(hash := sk # key_hash s hash)\<rparr>) ks s =
   s\<lparr>key_hash := \<lambda>b. rev (filter (\<lambda>sk. KEYHASH (keyid (sk_at s sk)) s = b) ks) @ key_hash s b\<rparr>"
proof (induction ks arbitrary: s)
  case (Cons k ks)
  have "KEYHASH j (s\<lparr>key_hash := h\<rparr>) = KEYHASH j s" for j h by (simp add: KEYHASH_def)
  then show ?case unfolding fold_simps Let_def comp_apply Cons.IH [unfolded Let_def] by (auto intro!: arg_cong [of _ _ "\<lambda>f. s\<lparr>key_hash := f\<rparr>"])
qed simp

lemma resize_wf:
  assumes "auth_wf s"
  shows "auth_wf (auth_resize_hashtable lg s)" "key_view (auth_resize_hashtable lg s) = key_view s"
proof -
  define bits where "bits = min 15 (max 4 (lg (authnumkeys s + word_of_int (authnumfreekeys s)) + 1))"
  define s1 where "s1 = s\<lparr>authhashbuckets := push_bit (unat bits) 1, authhashmask := push_bit (unat bits) 1 - 1, key_hash := (\<lambda>_. [])\<rparr>"
  define s2 where "s2 = s1\<lparr>key_hash := \<lambda>b. rev (filter (\<lambda>sk. KEYHASH (keyid (sk_at s1 sk)) s1 = b) (key_listhead s))\<rparr>"
  have e: "auth_resize_hashtable lg s = s2"
    unfolding auth_resize_hashtable_def Let_def by (simp add: rehash_fold [unfolded Let_def] s2_def s1_def bits_def)
  have f: "sk_at s2 = sk_at s" "key_listhead s2 = key_listhead s" "authfreekeys s2 = authfreekeys s" "sk_fresh s2 = sk_fresh s" "smem s2 = smem s"
    "smem_fresh s2 = smem_fresh s" "authnumkeys s2 = authnumkeys s" "authnumfreekeys s2 = authnumfreekeys s" "sk_at s1 = sk_at s"
    "\<And>j. KEYHASH j s2 = KEYHASH j s1" by (simp_all add: s2_def s1_def KEYHASH_def)
  have w: "keys_wf s" "secrets_wf s" using assms by (auto simp: auth_wf_def)
  have "distinct (key_hash s2 b)" "set (key_hash s2 b) = {sk \<in> set (key_listhead s). KEYHASH (keyid (sk_at s sk)) s1 = b}" for b
    using w(1) by (auto simp: s2_def keys_wf_def f)
  then have w2: "keys_wf s2" using w(1) unfolding keys_wf_def f by blast
  have "secrets_wf s2" using w(2) unfolding secrets_wf_def secret_ok_def f .
  with w2 show "auth_wf (auth_resize_hashtable lg s)" by (simp add: e auth_wf_def)
  have sv: "sk_view s2 x = sk_view s x" for x by (rule view_frame) (simp_all add: f)
  have "key_view s2 k = Some v \<longleftrightarrow> key_view s k = Some v" for k v
    unfolding key_view_iff [OF w(1)] key_view_iff [OF w2] f sv ..
  then have "key_view s2 k = key_view s k" for k by (rule option_eqI)
  then show "key_view (auth_resize_hashtable lg s) = key_view s" unfolding e by (rule ext)
qed

lemma same_keys_frame:
  assumes "keys_wf s" "secrets_wf s" "keys_wf s'" "key_listhead s' = key_listhead s" "\<And>x. x \<in> set (key_listhead s) \<Longrightarrow> sk_at s' x = sk_at s x"
    "smem s' = smem s" "smem_fresh s' = smem_fresh s"
  shows "secrets_wf s'" "key_view s' = key_view s"
proof -
  have v: "sk_view s' x = sk_view s x" "secret_ok s x \<Longrightarrow> secret_ok s' x" if "x \<in> set (key_listhead s)" for x
    using view_frame [of s' x s] assms(5-7) that by auto
  show "secrets_wf s'" using assms(2,4,5) v unfolding secrets_wf_def by (metis (no_types, lifting))
  have "key_view s' k = Some u \<longleftrightarrow> key_view s k = Some u" for k u
    unfolding key_view_iff [OF assms(1)] key_view_iff [OF assms(3)] assms(4) using v assms(5) by auto
  then have "key_view s' k = key_view s k" for k by (rule option_eqI)
  then show "key_view s' = key_view s" by (rule ext)
qed

lemma prealloc_wf:
  assumes "auth_wf s" "0 \<le> n" "n < 2 ^ 31" "length (key_listhead s) + length (authfreekeys s) < 2 ^ 31"
  shows "auth_wf (auth_prealloc_symkeys lg n s) \<and> key_view (auth_prealloc_symkeys lg n s) = key_view s"
proof -
  have w: "keys_wf s" "secrets_wf s" using assms(1) by (auto simp: auth_wf_def)
  define tot where "tot = int (length (key_listhead s)) + int (length (authfreekeys s))"
  have tot: "0 \<le> tot" "tot < 2147483648" using assms(4) by (simp_all add: tot_def)
  have "authnumkeys s + word_of_int (authnumfreekeys s) = word_of_int tot" using w(1) by (simp add: keys_wf_def tot_def)
  then have "uint (authnumkeys s + word_of_int (authnumfreekeys s)) = tot" using tot by (simp add: uint_word_of_int)
  then have al: "s32 (uint (authnumkeys s + word_of_int (authnumfreekeys s))) = tot" using tot by (simp add: s32_id in_s32_def)
  define add where "add = s32 (n - tot)"
  define s1 where "s1 = (if add > 0 then auth_moremem add s else s)"
  have e: "auth_prealloc_symkeys lg n s = auth_resize_hashtable lg s1"
    by (simp add: auth_prealloc_symkeys_def Let_def al add_def s1_def)
  have "auth_wf s1 \<and> key_view s1 = key_view s"
  proof (cases "add > 0")
    case True
    have "in_s32 (n - tot)" using tot assms(2,3) by (simp add: in_s32_def)
    then have "tot + add < 2 ^ 31" using assms(3) by (simp add: add_def s32_id)
    then have b: "int (length (authfreekeys s)) + (if add > 0 then add else MEMINC) < 2 ^ 31" using True by (simp add: tot_def)
    note M = moremem_wf [OF w(1) b]
    have "secrets_wf (auth_moremem add s)" "key_view (auth_moremem add s) = key_view s"
      using same_keys_frame [OF w M(1)] M(3-6) by auto
    then show ?thesis using M(1) True by (simp add: s1_def auth_wf_def)
  qed (simp add: s1_def assms(1))
  then show ?thesis unfolding e using resize_wf by simp
qed

section \<open>Lookup and the cache\<close>

text \<open>The cache holds a key of the store that may be used.\<close>

definition cache_ok :: "auth_state \<Rightarrow> bool" where
  "cache_ok s \<longleftrightarrow> cache_keyid s \<noteq> 0 \<longrightarrow>
     (\<exists>sk. auth_findkey (cache_keyid s) s = Some sk \<and> sk_type (sk_at s sk) \<noteq> 0 \<and> KEY_TRUSTED AND sk_flags (sk_at s sk) \<noteq> 0 \<and>
        cache_type s = uint (sk_type (sk_at s sk)) \<and> cache_flags s = sk_flags (sk_at s sk) \<and>
        cache_secret s = secret (sk_at s sk) \<and> cache_secretsize s = secretsize (sk_at s sk))"

lemma secret_data:
  assumes "secret_ok s sk" "cache_secret s = secret (sk_at s sk)" "cache_secretsize s = secretsize (sk_at s sk)" "len \<le> length pkt"
    "sk_view s sk = (ty, fl, lt, bs)"
  shows "mac_data (cache_secret s) pkt len s = Some (bs @ take len pkt)"
  using assms by (auto simp: mac_data_def secret_ok_def sk_view_def split: option.splits)

text \<open>A key that may be used is found and cached, whatever was cached before.\<close>

lemma havekey_usable:
  assumes "auth_wf s" "cache_ok s" "k \<noteq> 0" "key_view s k = Some (ty, fl, lt, bs)" "ty \<noteq> 0" "KEY_TRUSTED AND fl \<noteq> 0"
  shows "\<exists>s'. authhavekey k s = (True, s') \<and> auth_wf s' \<and> cache_ok s' \<and> key_view s' = key_view s \<and> cache_type s' = uint ty \<and>
    (\<forall>pkt len. len \<le> length pkt \<longrightarrow> mac_data (cache_secret s') pkt len s' = Some (bs @ take len pkt))"
proof -
  obtain sk where sk: "auth_findkey k s = Some sk" "sk_view s sk = (ty, fl, lt, bs)" using assms(4) by (auto simp: key_view_def)
  have t: "sk_type (sk_at s sk) = ty" "sk_flags (sk_at s sk) = fl" using sk(2) by (simp_all add: sk_view_def)
  have kk: "sk \<in> set (key_listhead s)" "keyid (sk_at s sk) = k" using findkey_iff sk(1) assms(1) by (auto simp: auth_wf_def)
  have ok: "secret_ok s sk" using kk assms(1) by (auto simp: auth_wf_def secrets_wf_def)
  define s1 where "s1 = s\<lparr>authkeylookups := authkeylookups s + 1\<rparr>"
  define s' where "s' = (if cache_keyid s = k then s1
    else s1\<lparr>authkeyuncached := authkeyuncached s + 1, cache_keyid := k, cache_type := uint ty, cache_flags := fl,
            cache_secret := secret (sk_at s sk), cache_secretsize := secretsize (sk_at s sk)\<rparr>)"
  have fr: "auth_wf s' = auth_wf s" "key_view s' = key_view s" "\<And>j. auth_findkey j s' = auth_findkey j s"
    by (rule store_frame; simp add: s'_def s1_def)+
  have at: "sk_at s' = sk_at s" "smem s' = smem s" "smem_fresh s' = smem_fresh s" by (simp_all add: s'_def s1_def)
  have c: "cache_keyid s' = k" "cache_type s' = uint ty" "cache_flags s' = fl" "cache_secret s' = secret (sk_at s sk)"
    "cache_secretsize s' = secretsize (sk_at s sk)"
    using assms(2,3) sk(1) t by (auto simp: s'_def s1_def cache_ok_def)
  have f: "find (\<lambda>x. k = keyid (sk_at s x)) (key_hash s (KEYHASH k s)) = Some sk" using sk(1) by (simp add: auth_findkey_def)
  have h: "KEYHASH k (s\<lparr>authkeylookups := a, authkeyuncached := b\<rparr>) = KEYHASH k s" for a b by (simp add: KEYHASH_def)
  have e: "authhavekey k s = (True, s')"
    using assms(3,5,6) f t kk by (simp add: authhavekey_def Let_def h s'_def s1_def)
  have "cache_ok s'" using c sk(1) t assms(5,6) by (simp add: cache_ok_def fr at)
  moreover have "mac_data (cache_secret s') pkt len s' = Some (bs @ take len pkt)" if "len \<le> length pkt" for pkt len
  proof (rule secret_data [of s' sk])
    have sv: "sk_view s' sk = sk_view s sk" "secret_ok s' sk" using view_frame [of s' sk s] at ok by auto
    show "secret_ok s' sk" "sk_view s' sk = (ty, fl, lt, bs)" using sv sk(2) by auto
  qed (use c at that in auto)
  ultimately show ?thesis using e fr c(2) assms(1) by auto
qed

lemma cache_ok_frame:
  assumes "cache_ok s" "\<And>k. auth_findkey k s' = auth_findkey k s" "sk_at s' = sk_at s" "cache_keyid s' = cache_keyid s" "cache_type s' = cache_type s"
    "cache_flags s' = cache_flags s" "cache_secret s' = cache_secret s" "cache_secretsize s' = cache_secretsize s"
  shows "cache_ok s'"
  using assms(1) unfolding cache_ok_def assms(2-) .

lemma havekey_unusable:
  assumes "cache_ok s" "k \<noteq> 0" "\<forall>ty fl lt bs. key_view s k = Some (ty, fl, lt, bs) \<longrightarrow> ty = 0 \<or> KEY_TRUSTED AND fl = 0"
  shows "\<exists>s'. authhavekey k s = (False, s') \<and> key_view s' = key_view s \<and> auth_wf s' = auth_wf s \<and> cache_ok s'"
proof -
  have bad: "sk_type (sk_at s sk) = 0 \<or> KEY_TRUSTED AND sk_flags (sk_at s sk) = 0" if "auth_findkey k s = Some sk" for sk
    using assms(3) that by (auto simp: key_view_def sk_view_def)
  then have nc: "cache_keyid s \<noteq> k" using assms(1,2) by (auto simp: cache_ok_def)
  define s1 where "s1 = s\<lparr>authkeylookups := authkeylookups s + 1, authkeyuncached := authkeyuncached s + 1\<rparr>"
  have h: "KEYHASH k s1 = KEYHASH k s" "key_hash s1 = key_hash s" "sk_at s1 = sk_at s" by (simp_all add: KEYHASH_def s1_def)
  have "\<exists>s'. authhavekey k s = (False, s') \<and> (s' = s1\<lparr>authkeynotfound := authkeynotfound s1 + 1\<rparr> \<or> s' = s1\<lparr>authnokey := authnokey s1 + 1\<rparr>)"
    using nc assms(2) bad unfolding authhavekey_def Let_def auth_findkey_def
    by (auto simp: s1_def [symmetric] h split: option.splits)
  moreover have f: "key_view (s1\<lparr>authkeynotfound := n\<rparr>) = key_view s" "key_view (s1\<lparr>authnokey := n\<rparr>) = key_view s"
      "auth_wf (s1\<lparr>authkeynotfound := n\<rparr>) = auth_wf s" "auth_wf (s1\<lparr>authnokey := n\<rparr>) = auth_wf s"
      "auth_findkey j (s1\<lparr>authkeynotfound := n\<rparr>) = auth_findkey j s" "auth_findkey j (s1\<lparr>authnokey := n\<rparr>) = auth_findkey j s" for n j
    by (rule store_frame; simp add: s1_def)+
  moreover have "cache_ok (s1\<lparr>authkeynotfound := n\<rparr>)" "cache_ok (s1\<lparr>authnokey := n\<rparr>)" for n
    by (rule cache_ok_frame [OF assms(1)]; (simp only: f)?; simp add: s1_def)+
  ultimately show ?thesis by auto
qed

section \<open>Deleting keys\<close>

text \<open>One turn of the loop in \<^verbatim>\<open>auth_delkeys\<close>.\<close>

definition delkeys_body :: "addr \<Rightarrow> auth_state \<Rightarrow> auth_state option" where
  "delkeys_body sk s =
     (if keyid (sk_at s sk) > NTP_MAXKEY then Some s
      else if KEY_TRUSTED AND sk_flags (sk_at s sk) \<noteq> 0 then
        (case free_secret (secret (sk_at s sk)) (secretsize (sk_at s sk)) s of
           None \<Rightarrow> None
         | Some s \<Rightarrow> Some (s\<lparr>sk_at := (sk_at s)(sk := (sk_at s sk)\<lparr>secretsize := 0, lifetime := 0\<rparr>)\<rparr>))
      else freesymkey sk (KEYHASH (keyid (sk_at s sk)) s) s)"

definition deleted :: "symkey \<Rightarrow> bool" where
  "deleted r \<longleftrightarrow> keyid r \<le> NTP_MAXKEY \<and> KEY_TRUSTED AND sk_flags r = 0"

definition cleared :: "symkey \<Rightarrow> bool" where
  "cleared r \<longleftrightarrow> keyid r \<le> NTP_MAXKEY \<and> KEY_TRUSTED AND sk_flags r \<noteq> 0"

lemma delkeys_step:
  assumes "keys_wf s" "sk \<in> set (key_listhead s)" "secret_ok s sk" "length (key_listhead s) + length (authfreekeys s) + 1 < 2 ^ 31"
  shows "\<exists>s'. delkeys_body sk s = Some s' \<and> keys_wf s' \<and>
    set (key_listhead s') = set (key_listhead s) - (if deleted (sk_at s sk) then {sk} else {}) \<and>
    length (key_listhead s') + length (authfreekeys s') = length (key_listhead s) + length (authfreekeys s) \<and>
    (\<forall>x. x \<noteq> sk \<longrightarrow> sk_at s' x = sk_at s x) \<and> smem_fresh s' = smem_fresh s \<and>
    (\<forall>a. smem s' a = (if \<not> keyid (sk_at s sk) > NTP_MAXKEY \<and> secret (sk_at s sk) = Some a then None else smem s a)) \<and>
    (cleared (sk_at s sk) \<longrightarrow> sk_at s' sk = (sk_at s sk)\<lparr>secretsize := 0, lifetime := 0\<rparr>) \<and>
    (\<not> deleted (sk_at s sk) \<longrightarrow> keyid (sk_at s' sk) = keyid (sk_at s sk))"
proof (cases "keyid (sk_at s sk) > NTP_MAXKEY")
  case True
  then show ?thesis using assms by (auto simp: delkeys_body_def deleted_def cleared_def)
next
  case le: False
  show ?thesis
  proof (cases "KEY_TRUSTED AND sk_flags (sk_at s sk) = 0")
    case True
    have pos: "length (key_listhead s) > 0" using assms(2) by (cases "key_listhead s") auto
    obtain s' where s': "freesymkey sk (KEYHASH (keyid (sk_at s sk)) s) s = Some s'" "keys_wf s'"
      "set (key_listhead s') = set (key_listhead s) - {sk}" "key_listhead s' = remove1 sk (key_listhead s)"
      "\<forall>x. x \<noteq> sk \<longrightarrow> sk_at s' x = sk_at s x" "smem_fresh s' = smem_fresh s"
      "smem s' = (case secret (sk_at s sk) of None \<Rightarrow> smem s | Some a \<Rightarrow> (smem s)(a := None))"
      "length (authfreekeys s') = length (authfreekeys s) + 1"
      using free_wf [OF assms(1-3)] assms(4) pos by fastforce
    moreover have "length (key_listhead s') + 1 = length (key_listhead s)" using s'(4) assms(2) pos by (simp add: length_remove1)
    ultimately show ?thesis using le True by (auto simp: delkeys_body_def deleted_def cleared_def not_less split: option.splits)
  next
    case False
    obtain s1 where s1: "free_secret (secret (sk_at s sk)) (secretsize (sk_at s sk)) s = Some s1" using free_secret_ok [OF assms(3)] by blast
    define m where "m = (case secret (sk_at s sk) of None \<Rightarrow> smem s | Some a \<Rightarrow> (smem s)(a := None))"
    define s' where "s' = s\<lparr>smem := m, sk_at := (sk_at s)(sk := (sk_at s sk)\<lparr>secretsize := 0, lifetime := 0\<rparr>)\<rparr>"
    have "s1 = s\<lparr>smem := m\<rparr>" using free_secret_frame [OF s1] by (simp add: m_def)
    then have b: "delkeys_body sk s = Some s'" using s1 le False by (simp add: delkeys_body_def s'_def)
    have kid: "keyid (sk_at s' x) = keyid (sk_at s x)" for x by (simp add: s'_def)
    have f: "key_listhead s' = key_listhead s" "authfreekeys s' = authfreekeys s" "sk_fresh s' = sk_fresh s" "authnumkeys s' = authnumkeys s"
      "authnumfreekeys s' = authnumfreekeys s" "key_hash s' = key_hash s" "\<And>j. KEYHASH j s' = KEYHASH j s" by (simp_all add: s'_def KEYHASH_def)
    have "keys_wf s'" using assms(1) unfolding keys_wf_def kid unfolding f .
    then show ?thesis using b le False by (auto simp: s'_def m_def deleted_def cleared_def split: option.splits)
  qed
qed

lemma delkeys_visit:
  assumes "keys_wf s" "set ks \<subseteq> set (key_listhead s)" "distinct ks" "length (key_listhead s) + length (authfreekeys s) + 1 < 2 ^ 31"
    and "\<forall>x \<in> set ks. secret_ok s x" "\<forall>x \<in> set ks. \<forall>y \<in> set ks. secret (sk_at s x) = secret (sk_at s y) \<and> secret (sk_at s x) \<noteq> None \<longrightarrow> x = y"
  shows "\<exists>s'. visit delkeys_body ks s = Some s' \<and> keys_wf s' \<and>
    set (key_listhead s') = set (key_listhead s) - {sk \<in> set ks. deleted (sk_at s sk)} \<and>
    (\<forall>x. x \<notin> set ks \<longrightarrow> sk_at s' x = sk_at s x) \<and> (\<forall>a. smem s a = None \<longrightarrow> smem s' a = None) \<and>
    (\<forall>x \<in> set ks. \<not> deleted (sk_at s x) \<longrightarrow> keyid (sk_at s' x) = keyid (sk_at s x)) \<and>
    (\<forall>sk \<in> set ks. cleared (sk_at s sk) \<longrightarrow> sk_at s' sk = (sk_at s sk)\<lparr>secretsize := 0, lifetime := 0\<rparr> \<and>
       (\<forall>a. secret (sk_at s sk) = Some a \<longrightarrow> smem s' a = None))"
  using assms
proof (induction ks arbitrary: s)
  case Nil
  then show ?case by simp
next
  case (Cons sk ks)
  have sk: "sk \<in> set (key_listhead s)" "secret_ok s sk" using Cons.prems(2,5) by auto
  obtain s1 where b: "delkeys_body sk s = Some s1" and w: "keys_wf s1"
    and kl: "set (key_listhead s1) = set (key_listhead s) - (if deleted (sk_at s sk) then {sk} else {})"
    and len: "length (key_listhead s1) + length (authfreekeys s1) = length (key_listhead s) + length (authfreekeys s)"
    and at: "\<forall>x. x \<noteq> sk \<longrightarrow> sk_at s1 x = sk_at s x" and fresh: "smem_fresh s1 = smem_fresh s"
    and mem: "\<forall>a. smem s1 a = (if \<not> keyid (sk_at s sk) > NTP_MAXKEY \<and> secret (sk_at s sk) = Some a then None else smem s a)"
    and cl: "cleared (sk_at s sk) \<longrightarrow> sk_at s1 sk = (sk_at s sk)\<lparr>secretsize := 0, lifetime := 0\<rparr>"
    and kid: "\<not> deleted (sk_at s sk) \<longrightarrow> keyid (sk_at s1 sk) = keyid (sk_at s sk)"
    using delkeys_step [OF Cons.prems(1) sk Cons.prems(4)] by blast
  have d: "sk \<notin> set ks" "distinct ks" using Cons.prems(3) by auto
  have eq: "sk_at s1 x = sk_at s x" if "x \<in> set ks" for x using at d that by metis
  have own: "secret (sk_at s x) \<noteq> Some a" if x: "x \<in> set ks" and a: "secret (sk_at s sk) = Some a" for x a
    using Cons.prems(6) d(1) x a by (metis list.set_intros option.distinct(1))
  have "secret_ok s1 x" if x: "x \<in> set ks" for x
    using view_frame(2) [of s1 x s] eq [OF x] own [OF x] Cons.prems(5) fresh mem x by auto
  then have ok: "\<forall>x \<in> set ks. secret_ok s1 x" by blast
  have priv: "\<forall>x \<in> set ks. \<forall>y \<in> set ks. secret (sk_at s1 x) = secret (sk_at s1 y) \<and> secret (sk_at s1 x) \<noteq> None \<longrightarrow> x = y"
    using Cons.prems(6) eq by (metis list.set_intros(2))
  have sub: "set ks \<subseteq> set (key_listhead s1)" using kl Cons.prems(2) d by auto
  obtain s' where s': "visit delkeys_body ks s1 = Some s'" "keys_wf s'"
    "set (key_listhead s') = set (key_listhead s1) - {sk \<in> set ks. deleted (sk_at s1 sk)}"
    "\<forall>x. x \<notin> set ks \<longrightarrow> sk_at s' x = sk_at s1 x" "\<forall>a. smem s1 a = None \<longrightarrow> smem s' a = None"
    "\<forall>sk \<in> set ks. cleared (sk_at s1 sk) \<longrightarrow> sk_at s' sk = (sk_at s1 sk)\<lparr>secretsize := 0, lifetime := 0\<rparr> \<and>
       (\<forall>a. secret (sk_at s1 sk) = Some a \<longrightarrow> smem s' a = None)"
    "\<forall>x \<in> set ks. \<not> deleted (sk_at s1 x) \<longrightarrow> keyid (sk_at s' x) = keyid (sk_at s1 x)"
    using Cons.IH [OF w sub d(2) _ ok priv] Cons.prems(4) len by auto
  have "set (key_listhead s') = set (key_listhead s) - {x \<in> set (sk # ks). deleted (sk_at s x)}"
    unfolding s'(3) kl using eq by auto
  moreover have "\<forall>x. x \<notin> set (sk # ks) \<longrightarrow> sk_at s' x = sk_at s x" using s'(4) at by auto
  moreover have "\<forall>a. smem s a = None \<longrightarrow> smem s' a = None" using s'(5) mem by auto
  moreover have "sk_at s' sk = (sk_at s sk)\<lparr>secretsize := 0, lifetime := 0\<rparr> \<and> (\<forall>a. secret (sk_at s sk) = Some a \<longrightarrow> smem s' a = None)"
    if c: "cleared (sk_at s sk)" using cl c s'(4,5) d(1) mem by (auto simp: cleared_def not_less)
  moreover have "sk_at s' x = (sk_at s x)\<lparr>secretsize := 0, lifetime := 0\<rparr> \<and> (\<forall>a. secret (sk_at s x) = Some a \<longrightarrow> smem s' a = None)"
    if x: "x \<in> set ks" "cleared (sk_at s x)" for x using s'(6) eq [OF x(1)] x by auto
  moreover have "\<forall>x \<in> set (sk # ks). \<not> deleted (sk_at s x) \<longrightarrow> keyid (sk_at s' x) = keyid (sk_at s x)"
    using kid s'(4,7) d(1) eq by auto
  ultimately show ?case using b s'(1,2) by auto
qed

lemma delkeys_eq: "auth_delkeys s = visit delkeys_body (key_listhead s) s"
  unfolding auth_delkeys_def by (rule arg_cong [of _ _ "\<lambda>f. visit f (key_listhead s) s"]) (intro ext, simp add: delkeys_body_def)

text \<open>The loop meets a freed secret again.\<close>

lemma delkeys_body_frame:
  assumes "delkeys_body x s = Some t"
  shows "\<forall>y. y \<noteq> x \<longrightarrow> sk_at t y = sk_at s y" "\<forall>a. smem s a = None \<longrightarrow> smem t a = None"
  using assms
  by (auto simp: delkeys_body_def freesymkey_def split: if_splits option.splits dest!: free_secret_frame)

lemma delkeys_visit_frame:
  assumes "visit delkeys_body xs s = Some t"
  shows "(\<forall>y. y \<notin> set xs \<longrightarrow> sk_at t y = sk_at s y) \<and> (\<forall>a. smem s a = None \<longrightarrow> smem t a = None)"
  using assms
proof (induction xs arbitrary: s)
  case (Cons x xs)
  then obtain s1 where "delkeys_body x s = Some s1" "visit delkeys_body xs s1 = Some t" by (auto split: option.splits)
  with Cons.IH [of s1] delkeys_body_frame [of x s s1] show ?case by auto
qed simp

lemma visit_fails:
  assumes "\<And>s'. visit body xs s = Some s' \<Longrightarrow> body y s' = None"
  shows "visit body (xs @ y # ys) s = None"
  using assms by (induction xs arbitrary: s) (auto split: option.splits)

lemma dangling_uses:
  assumes "keys_wf s" "auth_findkey k s = Some sk" "secret (sk_at s sk) = Some a" "smem s a = None"
  shows "0 < len \<Longrightarrow> MD5auth_setkey k ty key len s = None" "authtrust now k 0 s = None"
proof -
  have f: "find (\<lambda>x. k = keyid (sk_at s x)) (key_hash s (KEYHASH k s)) = Some sk" using assms(2) by (simp add: auth_findkey_def)
  show "MD5auth_setkey k ty key len s = None" if "0 < len"
    using that f assms(3,4) by (simp add: MD5auth_setkey_def Let_def copy_secret_def)
  show "authtrust now k 0 s = None"
    using f assms(3,4) by (simp add: authtrust_def Let_def freesymkey_def free_secret_def)
qed

section \<open>Properties\<close>

definition store_expired :: "u_int64 \<Rightarrow> (u_short \<times> u_short \<times> u_int64 \<times> u_char list) \<Rightarrow> bool" where
  "store_expired now e = (case e of (ty, fl, lt, bs) \<Rightarrow> lt > 0 \<and> now > lt)"

lemma store_expired_view: "store_expired now (sk_view s sk) \<longleftrightarrow> lifetime (sk_at s sk) > 0 \<and> now > lifetime (sk_at s sk)"
  by (simp add: store_expired_def sk_view_def)

lemma agekeys_view:
  assumes "auth_wf s" "length (key_listhead s) + length (authfreekeys s) + 1 < 2 ^ 31"
  shows "\<exists>s'. auth_agekeys now s = Some s' \<and> auth_wf s' \<and>
    key_view s' = (\<lambda>k. if \<exists>e. key_view s k = Some e \<and> store_expired now e then None else key_view s k) \<and>
    cache_keyid s' = cache_keyid s \<and> cache_secret s' = cache_secret s \<and>
    (\<forall>k sk a. auth_findkey k s = Some sk \<and> secret (sk_at s sk) = Some a \<and> lifetime (sk_at s sk) > 0 \<and> now > lifetime (sk_at s sk) \<longrightarrow> smem s' a = None)"
proof -
  have w: "keys_wf s" using assms(1) by (simp add: auth_wf_def)
  then have d: "distinct (key_listhead s)" by (simp add: keys_wf_def)
  obtain s' where s': "auth_agekeys now s = Some s'" "auth_wf s'"
    "key_view s' = (\<lambda>k. if \<exists>sk \<in> set (key_listhead s). keyid (sk_at s sk) = k \<and> lifetime (sk_at s sk) > 0 \<and> now > lifetime (sk_at s sk) then None else key_view s k)"
    "cache_keyid s' = cache_keyid s" "cache_secret s' = cache_secret s"
    "\<forall>sk \<in> set (key_listhead s). lifetime (sk_at s sk) > 0 \<and> now > lifetime (sk_at s sk) \<longrightarrow> (\<forall>a. secret (sk_at s sk) = Some a \<longrightarrow> smem s' a = None)"
    using age_visit [OF assms(1) order_refl d assms(2), of now] unfolding auth_agekeys_def by auto
  have "(\<exists>sk \<in> set (key_listhead s). keyid (sk_at s sk) = k \<and> lifetime (sk_at s sk) > 0 \<and> now > lifetime (sk_at s sk)) \<longleftrightarrow>
      (\<exists>e. key_view s k = Some e \<and> store_expired now e)" for k
    unfolding key_view_iff [OF w] by (metis store_expired_view)
  then show ?thesis using s' findkey_iff [OF w] by auto
qed

text \<open>
  C7: the key store.  Seen as a map from key identifiers to type, flags, lifetime and secret bytes, the store is updated at one identifier by
  setting and by trusting a key; aging removes exactly the keys whose lifetime has passed; untrusting removes the key;
  and growing the hash table changes nothing.  All of them keep the hash chains, the key list, the free list, the counters and
  the ownership of the secrets consistent, and none touches freed memory.  Setting a key that exists has the stated effect when
  its old secret is at least as long as the new one; when the old secret is shorter, or the key was
  trusted before any secret was set, \<^verbatim>\<open>memcpy\<close> writes past the old block or to \<^verbatim>\<open>NULL\<close>.
\<close>
theorem auth_store_refines:
  assumes "auth_wf s" "length (key_listhead s) + length (authfreekeys s) + 1 < 2 ^ 31"
    and "0 \<le> len" "len \<le> 65535" "nat len \<le> length key" "0 \<le> n" "n < 2 ^ 31"
  shows "(auth_findkey k s = None \<longrightarrow> (\<exists>s'. MD5auth_setkey k ty key len s = Some s' \<and> auth_wf s' \<and>
      key_view s' = (key_view s)(k \<mapsto> (word_of_int ty, 0, 0, take (nat len) key)))) \<and>
    (\<forall>sk a bs. auth_findkey k s = Some sk \<and> secret (sk_at s sk) = Some a \<and> smem s a = Some bs \<and> nat len \<le> length bs \<longrightarrow>
      (\<exists>s'. MD5auth_setkey k ty key len s = Some s' \<and> auth_wf s' \<and>
        key_view s' = (key_view s)(k \<mapsto> (word_of_int ty, sk_flags (sk_at s sk), lifetime (sk_at s sk), take (nat len) key)))) \<and>
    (\<forall>sk. auth_findkey k s = Some sk \<and> 0 < len \<and>
       (secret (sk_at s sk) = None \<or> (\<exists>a bs. secret (sk_at s sk) = Some a \<and> smem s a = Some bs \<and> length bs < nat len)) \<longrightarrow>
      MD5auth_setkey k ty key len s = None) \<and>
    (\<exists>s'. authtrust now k trust s = Some s' \<and> auth_wf s' \<and>
      key_view s' = (key_view s)(k := if trust = 0 then None else Some (trusted_entry (trust_life now trust) (key_view s k)))) \<and>
    (\<exists>s'. auth_agekeys now s = Some s' \<and> auth_wf s' \<and>
      key_view s' = (\<lambda>k. if \<exists>e. key_view s k = Some e \<and> store_expired now e then None else key_view s k)) \<and>
    auth_wf (auth_prealloc_symkeys lg n s) \<and> key_view (auth_prealloc_symkeys lg n s) = key_view s"
proof -
  have "\<exists>s'. authtrust now k trust s = Some s' \<and> auth_wf s' \<and>
      key_view s' = (key_view s)(k := if trust = 0 then None else Some (trusted_entry (trust_life now trust) (key_view s k)))"
  proof (cases "trust = 0")
    case True
    then show ?thesis using authtrust_untrust [OF assms(1), of now k] assms(2) by simp
  next
    case False
    show ?thesis
    proof (cases "auth_findkey k s")
      case None
      then have "key_view s k = None" by (simp add: key_view_def)
      then show ?thesis using authtrust_new [OF assms(1) None False, of now] False by simp
    next
      case (Some sk)
      then show ?thesis using authtrust_old [OF assms(1) Some False, of now] False by simp
    qed
  qed
  moreover have "auth_wf (auth_prealloc_symkeys lg n s) \<and> key_view (auth_prealloc_symkeys lg n s) = key_view s"
    using assms(2) by (intro prealloc_wf [OF assms(1,6,7)]) simp
  moreover have "MD5auth_setkey k ty key len s = None"
    if "auth_findkey k s = Some sk" "0 < len"
      "secret (sk_at s sk) = None \<or> (\<exists>a bs. secret (sk_at s sk) = Some a \<and> smem s a = Some bs \<and> length bs < nat len)" for sk
    using that by (auto simp: MD5auth_setkey_def auth_findkey_def copy_secret_def Let_def)
  ultimately show ?thesis
    using setkey_new [OF assms(1) _ assms(3-5)] setkey_old [OF assms(1) _ _ _ assms(3-5)] agekeys_view [OF assms(1,2), of now] by blast
qed

text \<open>The store at program start.\<close>

definition auth_zero :: auth_state where
  "auth_zero = init_auth \<lparr>sk_at = (\<lambda>_. zero_symkey), sk_fresh = 0, key_listhead = [], key_hash = (\<lambda>_. []), authfreekeys = [],
     smem = (\<lambda>_. None), smem_fresh = 0, authhashbuckets = DEF_AUTHHASHSIZE, authhashmask = DEF_AUTHHASHSIZE - 1,
     authkeynotfound = 0, authkeylookups = 0, authnumkeys = 0, authkeyexpired = 0, authkeyuncached = 0, authnokey = 0,
     authencryptions = 0, authdecryptions = 0, authnumfreekeys = 0, cache_keyid = 0, cache_secret = None, cache_secretsize = 0,
     cache_type = 0, cache_flags = 0\<rparr>"

lemma auth_zero_wf: "auth_wf auth_zero" "key_listhead auth_zero = []" "authfreekeys auth_zero = []" "auth_findkey k auth_zero = None"
  "cache_keyid auth_zero = 0"
  by (simp_all add: auth_zero_def init_auth_def auth_wf_def keys_wf_def secrets_wf_def auth_findkey_def)

theorem auth_store_refines_witness:
  "\<exists>s'. MD5auth_setkey 7 4 [1, 2, 3] 2 auth_zero = Some s' \<and> auth_wf s' \<and> key_view s' 7 = Some (4, 0, 0, [1, 2])"
  using auth_store_refines [of auth_zero 2 "[1, 2, 3]" 0 7 4] auth_zero_wf by fastforce

lemma cache_ok_count:
  assumes "cache_ok s"
  shows "cache_ok (s\<lparr>authencryptions := n\<rparr>)" "cache_ok (s\<lparr>authdecryptions := n\<rparr>)"
proof -
  have f: "auth_findkey k (s\<lparr>authencryptions := n\<rparr>) = auth_findkey k s" "auth_findkey k (s\<lparr>authdecryptions := n\<rparr>) = auth_findkey k s" for k
    by (rule store_frame; simp)+
  show "cache_ok (s\<lparr>authencryptions := n\<rparr>)" "cache_ok (s\<lparr>authdecryptions := n\<rparr>)" by (rule cache_ok_frame [OF assms]; simp add: f)+
qed

lemma count_frame:
  assumes "auth_wf s"
  shows "auth_wf (s\<lparr>authencryptions := n\<rparr>)" "key_view (s\<lparr>authencryptions := n\<rparr>) = key_view s"
    "auth_wf (s\<lparr>authdecryptions := n\<rparr>)" "key_view (s\<lparr>authdecryptions := n\<rparr>) = key_view s"
proof -
  have "auth_wf (s\<lparr>authencryptions := n\<rparr>) = auth_wf s" "auth_wf (s\<lparr>authdecryptions := n\<rparr>) = auth_wf s" by (rule store_frame; simp)+
  then show "auth_wf (s\<lparr>authencryptions := n\<rparr>)" "auth_wf (s\<lparr>authdecryptions := n\<rparr>)" using assms by auto
  show "key_view (s\<lparr>authencryptions := n\<rparr>) = key_view s" "key_view (s\<lparr>authdecryptions := n\<rparr>) = key_view s" by (rule store_frame; simp)+
qed

lemma mac_size:
  assumes "n < 2 ^ 31 - 4" "4 \<le> sz" "sz < 2 ^ 31"
  shows "(word_of_int sz :: u_int32) \<noteq> of_nat n + 4 \<longleftrightarrow> sz \<noteq> int n + 4"
proof -
  have "(word_of_int sz :: u_int32) = of_nat n + 4 \<longleftrightarrow> (word_of_int sz :: u_int32) = word_of_int (int n + 4)" by simp
  also have "\<dots> \<longleftrightarrow> sz mod 4294967296 = (int n + 4) mod 4294967296" unfolding word_of_int_eq_iff by (simp add: take_bit_eq_mod)
  also have "\<dots> \<longleftrightarrow> sz = int n + 4" using assms by simp
  finally show ?thesis by blast
qed

lemma decrypt_usable:
  assumes "auth_wf s" "cache_ok s" "k \<noteq> 0" "key_view s k = Some (ty, fl, lt, bs)" "ty \<noteq> 0" "KEY_TRUSTED AND fl \<noteq> 0"
    and "evp (uint ty) (bs @ take len q) = Some d" "len + 4 + length d \<le> length q" "length d < 2 ^ 31 - 4" "4 \<le> sz" "sz < 2 ^ 31"
  shows "\<exists>s''. authdecrypt evp k q len sz s = Some (sz = int (length d) + 4 \<and> take (length d) (drop (len + 4) q) = d, s'')"
proof -
  define s1 where "s1 = s\<lparr>authdecryptions := authdecryptions s + 1\<rparr>"
  have c: "auth_wf s1" "cache_ok s1" "key_view s1 k = Some (ty, fl, lt, bs)" using count_frame [OF assms(1)] cache_ok_count [OF assms(2)] assms(4) by (simp_all add: s1_def)
  obtain s2 where s2: "authhavekey k s1 = (True, s2)" "cache_type s2 = uint ty"
    "\<forall>pkt len. len \<le> length pkt \<longrightarrow> mac_data (cache_secret s2) pkt len s2 = Some (bs @ take len pkt)"
    using havekey_usable [OF c(1,2) assms(3) c(3) assms(5,6)] by blast
  then have "mac_data (cache_secret s2) q len s2 = Some (bs @ take len q)" using assms(8) by simp
  then have "MD5authdecrypt evp (cache_type s2) (cache_secret s2) q len sz s2 = Some (sz = int (length d) + 4 \<and> take (length d) (drop (len + 4) q) = d)"
    using assms(7,8) s2(2) mac_size [OF assms(9-11)] by (auto simp: MD5authdecrypt_def read_at_def)
  then show ?thesis using assms(3,10) s2(1) by (simp add: authdecrypt_def Let_def s1_def [symmetric])
qed

lemma encrypt_usable:
  assumes "auth_wf s" "cache_ok s" "k \<noteq> 0" "key_view s k = Some (ty, fl, lt, bs)" "ty \<noteq> 0" "KEY_TRUSTED AND fl \<noteq> 0" "4 dvd len"
    and "evp (uint ty) (bs @ take len pkt) = Some digest" "len + 4 + length digest \<le> length pkt"
  shows "\<exists>pkt' s'. authencrypt evp k pkt len s = Some (int (length digest) + 4, pkt', s') \<and> take len pkt' = take len pkt \<and>
    take 4 (drop len pkt') = htonl_bytes k \<and> take (length digest) (drop (len + 4) pkt') = digest \<and> auth_wf s' \<and> cache_ok s' \<and>
    key_view s' = key_view s \<and> length pkt' = length pkt"
proof -
  define s1 where "s1 = s\<lparr>authencryptions := authencryptions s + 1\<rparr>"
  have c: "auth_wf s1" "cache_ok s1" "key_view s1 k = Some (ty, fl, lt, bs)" "key_view s1 = key_view s"
    using count_frame [OF assms(1)] cache_ok_count [OF assms(2)] assms(4) by (simp_all add: s1_def)
  obtain s2 where s2: "authhavekey k s1 = (True, s2)" "auth_wf s2" "cache_ok s2" "key_view s2 = key_view s1" "cache_type s2 = uint ty"
    "\<forall>pkt len. len \<le> length pkt \<longrightarrow> mac_data (cache_secret s2) pkt len s2 = Some (bs @ take len pkt)"
    using havekey_usable [OF c(1,2) assms(3) c(3) assms(5,6)] by blast
  define p1 where "p1 = take len pkt @ htonl_bytes k @ drop (len + 4) pkt"
  have l4: "length (htonl_bytes k) = 4" "4 * (len div 4) = len" using assms(7) by (simp_all add: htonl_bytes_def)
  have w1: "write_at pkt (4 * (len div 4)) (htonl_bytes k) = Some p1" using assms(9) l4 by (simp add: write_at_def p1_def)
  have p1: "length p1 = length pkt" "take len p1 = take len pkt" "take 4 (drop len p1) = htonl_bytes k"
    using assms(9) l4 by (simp_all add: p1_def)
  define p2 where "p2 = take (len + 4) p1 @ digest @ drop (len + 4 + length digest) p1"
  have w2: "write_at p1 (len + 4) digest = Some p2" using assms(9) p1(1) by (simp add: write_at_def p2_def)
  have t4: "take (len + 4) p1 = take len pkt @ htonl_bytes k" using assms(9) l4 by (simp add: p1_def)
  have lt: "length (take len pkt @ htonl_bytes k) = len + 4" using assms(9) l4 by simp
  have p2: "take len p2 = take len pkt" "take 4 (drop len p2) = htonl_bytes k" "take (length digest) (drop (len + 4) p2) = digest" "length p2 = length pkt"
    unfolding p2_def t4 using assms(9) l4 lt p1(1) by simp_all
  have "MD5authencrypt evp (cache_type s2) (cache_secret s2) p1 len s2 = Some (int (length digest) + 4, p2)"
    using s2(5,6) p1 assms(8,9) w2 by (simp add: MD5authencrypt_def)
  then have "authencrypt evp k pkt len s = Some (int (length digest) + 4, p2, s2)"
    using assms(3) w1 s2(1) by (simp add: authencrypt_def Let_def s1_def [symmetric])
  then show ?thesis using p2 s2 c(4) by auto
qed

lemma mac_unusable:
  assumes "cache_ok s" "k \<noteq> 0" "\<forall>ty fl lt bs. key_view s k = Some (ty, fl, lt, bs) \<longrightarrow> ty = 0 \<or> KEY_TRUSTED AND fl = 0" "4 dvd len" "len + 4 \<le> length pkt"
  shows "(\<exists>pkt' s'. authencrypt evp k pkt len s = Some (0, pkt', s')) \<and> (\<forall>q sz. \<exists>s'. authdecrypt evp k q len sz s = Some (False, s'))"
proof -
  define s1 s2 where "s1 = s\<lparr>authencryptions := authencryptions s + 1\<rparr>" "s2 = s\<lparr>authdecryptions := authdecryptions s + 1\<rparr>"
  have v: "key_view s1 = key_view s" "key_view s2 = key_view s" by (rule store_frame; simp add: s1_s2_def)+
  have "cache_ok s1" "cache_ok s2" using cache_ok_count [OF assms(1)] by (simp_all add: s1_s2_def)
  then obtain t1 t2 where t: "authhavekey k s1 = (False, t1)" "authhavekey k s2 = (False, t2)"
    using havekey_unusable [of s1 k] havekey_unusable [of s2 k] assms(2,3) v by metis
  have l4: "length (htonl_bytes k) = 4" "4 * (len div 4) = len" using assms(4) by (simp_all add: htonl_bytes_def)
  have "\<exists>p. write_at pkt (4 * (len div 4)) (htonl_bytes k) = Some p" using assms(5) l4 by (simp add: write_at_def)
  then show ?thesis
    using t assms(2) by (auto simp: authencrypt_def authdecrypt_def Let_def s1_s2_def [symmetric])
qed

text \<open>
  C23: message authentication codes.  With a trusted key whose type is set, \<^verbatim>\<open>authencrypt\<close> leaves the packet as it was, appends the key
  identifier and the digest of the secret and the packet, and \<^verbatim>\<open>authdecrypt\<close> accepts the result.  Whatever the packet,
  \<^verbatim>\<open>authdecrypt\<close> accepts it exactly when the digest that it carries and the size of the code are right.
  Without such a key both refuse.
\<close>
theorem auth_mac_roundtrip:
  assumes "auth_wf s" "cache_ok s" "k \<noteq> 0" "4 dvd len" "len + 4 \<le> length pkt"
  shows "(\<forall>ty fl lt bs digest. key_view s k = Some (ty, fl, lt, bs) \<and> ty \<noteq> 0 \<and> KEY_TRUSTED AND fl \<noteq> 0 \<and>
        evp (uint ty) (bs @ take len pkt) = Some digest \<and> len + 4 + length digest \<le> length pkt \<and> length digest < 2 ^ 31 - 4 \<longrightarrow>
      (\<exists>pkt' s'. authencrypt evp k pkt len s = Some (int (length digest) + 4, pkt', s') \<and> take len pkt' = take len pkt \<and>
         take 4 (drop len pkt') = htonl_bytes k \<and> take (length digest) (drop (len + 4) pkt') = digest \<and>
         (\<exists>s''. authdecrypt evp k pkt' len (int (length digest) + 4) s' = Some (True, s'')) \<and>
         (\<forall>q sz d. length q = length pkt \<and> evp (uint ty) (bs @ take len q) = Some d \<and> len + 4 + length d \<le> length q \<and> length d < 2 ^ 31 - 4 \<and>
             4 \<le> sz \<and> sz < 2 ^ 31 \<longrightarrow>
           (\<exists>s''. authdecrypt evp k q len sz s' = Some (sz = int (length d) + 4 \<and> take (length d) (drop (len + 4) q) = d, s''))))) \<and>
    ((\<forall>ty fl lt bs. key_view s k = Some (ty, fl, lt, bs) \<longrightarrow> ty = 0 \<or> KEY_TRUSTED AND fl = 0) \<longrightarrow>
      (\<exists>pkt' s'. authencrypt evp k pkt len s = Some (0, pkt', s')) \<and> (\<forall>q sz. \<exists>s'. authdecrypt evp k q len sz s = Some (False, s')))"
proof -
  have use: "\<exists>pkt' s'. authencrypt evp k pkt len s = Some (int (length digest) + 4, pkt', s') \<and> take len pkt' = take len pkt \<and>
         take 4 (drop len pkt') = htonl_bytes k \<and> take (length digest) (drop (len + 4) pkt') = digest \<and> auth_wf s' \<and> cache_ok s' \<and>
         key_view s' = key_view s \<and> length pkt' = length pkt"
    if v: "key_view s k = Some (ty, fl, lt, bs)" "ty \<noteq> 0" "KEY_TRUSTED AND fl \<noteq> 0" "evp (uint ty) (bs @ take len pkt) = Some digest"
      "len + 4 + length digest \<le> length pkt" for ty fl lt bs digest
    by (rule encrypt_usable [OF assms(1-3) v(1-3) assms(4)]) (rule v)+
  have enc: "\<exists>pkt' s'. authencrypt evp k pkt len s = Some (int (length digest) + 4, pkt', s') \<and> take len pkt' = take len pkt \<and>
         take 4 (drop len pkt') = htonl_bytes k \<and> take (length digest) (drop (len + 4) pkt') = digest \<and>
         (\<exists>s''. authdecrypt evp k pkt' len (int (length digest) + 4) s' = Some (True, s'')) \<and>
         (\<forall>q sz d. length q = length pkt \<and> evp (uint ty) (bs @ take len q) = Some d \<and> len + 4 + length d \<le> length q \<and> length d < 2 ^ 31 - 4 \<and>
             4 \<le> sz \<and> sz < 2 ^ 31 \<longrightarrow>
           (\<exists>s''. authdecrypt evp k q len sz s' = Some (sz = int (length d) + 4 \<and> take (length d) (drop (len + 4) q) = d, s'')))"
    if v: "key_view s k = Some (ty, fl, lt, bs)" "ty \<noteq> 0" "KEY_TRUSTED AND fl \<noteq> 0" "evp (uint ty) (bs @ take len pkt) = Some digest"
      "len + 4 + length digest \<le> length pkt" "length digest < 2 ^ 31 - 4" for ty fl lt bs digest
  proof -
    obtain pkt' s' where p: "authencrypt evp k pkt len s = Some (int (length digest) + 4, pkt', s')" "take len pkt' = take len pkt"
       "take 4 (drop len pkt') = htonl_bytes k" "take (length digest) (drop (len + 4) pkt') = digest" "auth_wf s'" "cache_ok s'"
       "key_view s' = key_view s" "length pkt' = length pkt" using use [OF v(1-5)] by blast
    have v': "key_view s' k = Some (ty, fl, lt, bs)" using v(1) p(7) by simp
    note D = decrypt_usable [OF p(5,6) assms(3) v' v(2,3)]
    have "\<exists>s''. authdecrypt evp k pkt' len (int (length digest) + 4) s' = Some (True, s'')"
      using D [of evp len pkt' digest "int (length digest) + 4"] p(2,4,8) v(4-6) by auto
    then show ?thesis using p D by metis
  qed
  have "(\<exists>pkt' s'. authencrypt evp k pkt len s = Some (0, pkt', s')) \<and> (\<forall>q sz. \<exists>s'. authdecrypt evp k q len sz s = Some (False, s'))"
    if "\<forall>ty fl lt bs. key_view s k = Some (ty, fl, lt, bs) \<longrightarrow> ty = 0 \<or> KEY_TRUSTED AND fl = 0"
    using mac_unusable [OF assms(2,3) that assms(4,5)] .
  with enc show ?thesis by blast
qed

theorem auth_mac_roundtrip_witness:
  "\<exists>s pkt' s' s''. authencrypt (\<lambda>_ d. Some [sum_list d]) 7 [1, 2, 3, 4, 0, 0, 0, 0, 0] 4 s = Some (5, pkt', s') \<and>
     authdecrypt (\<lambda>_ d. Some [sum_list d]) 7 pkt' 4 5 s' = Some (True, s'')"
proof -
  obtain s1 where s1: "MD5auth_setkey 7 4 [1, 2, 3] 2 auth_zero = Some s1" "auth_wf s1" "key_view s1 = (key_view auth_zero)(7 \<mapsto> (4, 0, 0, [1, 2]))"
    using setkey_new [of auth_zero 7 2 "[1, 2, 3]" 4] auth_zero_wf by auto
  have f: "auth_findkey 7 s1 \<noteq> None" using s1(3) by (auto simp: key_view_def fun_eq_iff split: if_splits)
  then obtain sk where "auth_findkey 7 s1 = Some sk" by auto
  then obtain s2 where s2: "authtrust 0 7 1 s1 = Some s2" "auth_wf s2" "key_view s2 = (key_view s1)(7 \<mapsto> (4, KEY_TRUSTED, 0, [1, 2]))"
    using authtrust_old [OF s1(2), of 7 sk 1 0] by (auto simp: s1(3) trust_life_def)
  define s where "s = s2\<lparr>cache_flags := 0, cache_keyid := 0\<rparr>"
  have "cache_ok s" "auth_wf s" "key_view s 7 = Some (4, KEY_TRUSTED, 0, [1, 2])"
    using s2 by (simp_all add: s_def cache_ok_def)
  with auth_mac_roundtrip [of s 7 4 "[1, 2, 3, 4, 0, 0, 0, 0, 0]" "\<lambda>_ d. Some [sum_list d]"] show ?thesis
    by (auto simp: KEY_TRUSTED_def)
qed

text \<open>
  C39: stale secrets.  Clearing the keys before the key file is read again removes the untrusted ones, but a trusted key keeps the pointer to
  its freed secret: setting the key again writes to the freed block, untrusting it and clearing the keys once more
  free it a second time.  Aging frees the secret of an expired key without emptying the cache: the key is gone from
  the store, but a lookup of the cached identifier still succeeds and points to the freed block.
\<close>
theorem auth_stale_secrets:
  assumes "auth_wf s" "length (key_listhead s) + length (authfreekeys s) + 1 < 2 ^ 31"
    and "auth_findkey k s = Some sk" "secret (sk_at s sk) = Some a"
  shows "(k \<le> NTP_MAXKEY \<longrightarrow>
      (\<exists>s'. auth_delkeys s = Some s' \<and>
        (KEY_TRUSTED AND sk_flags (sk_at s sk) = 0 \<longrightarrow> auth_findkey k s' = None) \<and>
        (KEY_TRUSTED AND sk_flags (sk_at s sk) \<noteq> 0 \<longrightarrow> secret (sk_at s' sk) = Some a \<and> smem s' a = None \<and>
          (\<forall>len > 0. MD5auth_setkey k ty key len s' = None) \<and> authtrust now k 0 s' = None \<and> auth_delkeys s' = None))) \<and>
    (0 < lifetime (sk_at s sk) \<and> lifetime (sk_at s sk) < now \<and> cache_keyid s = k \<and> cache_secret s = Some a \<longrightarrow>
      (\<exists>s' s''. auth_agekeys now s = Some s' \<and> auth_findkey k s' = None \<and> authhavekey k s' = (True, s'') \<and>
        cache_secret s'' = Some a \<and> smem s'' a = None))"
proof -
  have w: "keys_wf s" "secrets_wf s" using assms(1) by (auto simp: auth_wf_def)
  have sk: "sk \<in> set (key_listhead s)" "keyid (sk_at s sk) = k" using findkey_iff [OF w(1)] assms(3) by auto
  have d: "distinct (key_listhead s)" using w(1) by (simp add: keys_wf_def)
  obtain s' where s': "auth_delkeys s = Some s'" "keys_wf s'"
    "set (key_listhead s') = set (key_listhead s) - {x \<in> set (key_listhead s). deleted (sk_at s x)}"
    "\<forall>x. x \<notin> set (key_listhead s) \<longrightarrow> sk_at s' x = sk_at s x"
    "\<forall>x \<in> set (key_listhead s). cleared (sk_at s x) \<longrightarrow> sk_at s' x = (sk_at s x)\<lparr>secretsize := 0, lifetime := 0\<rparr> \<and>
       (\<forall>a. secret (sk_at s x) = Some a \<longrightarrow> smem s' a = None)"
    "\<forall>x \<in> set (key_listhead s). \<not> deleted (sk_at s x) \<longrightarrow> keyid (sk_at s' x) = keyid (sk_at s x)"
    using delkeys_visit [OF w(1) order_refl d assms(2)] w(2) unfolding delkeys_eq secrets_wf_def by blast
  have del: "auth_findkey k s' = None" if "k \<le> NTP_MAXKEY" "KEY_TRUSTED AND sk_flags (sk_at s sk) = 0"
  proof -
    have "deleted (sk_at s sk)" using that sk by (simp add: deleted_def)
    moreover have "x = sk" if "x \<in> set (key_listhead s)" "keyid (sk_at s x) = k" for x
      using that sk w(1) by (auto simp: keys_wf_def inj_on_def)
    ultimately show ?thesis unfolding findkey_None [OF s'(2)] s'(3) using s'(6) by auto
  qed
  have clr: "secret (sk_at s' sk) = Some a \<and> smem s' a = None \<and>
      (\<forall>len > 0. MD5auth_setkey k ty key len s' = None) \<and> authtrust now k 0 s' = None \<and> auth_delkeys s' = None"
    if c: "k \<le> NTP_MAXKEY" "KEY_TRUSTED AND sk_flags (sk_at s sk) \<noteq> 0"
  proof -
    have r: "sk_at s' sk = (sk_at s sk)\<lparr>secretsize := 0, lifetime := 0\<rparr>" "smem s' a = None" and in': "sk \<in> set (key_listhead s')"
      using s'(3,5) sk c assms(4) by (auto simp: cleared_def deleted_def)
    have f: "auth_findkey k s' = Some sk" using findkey_iff [OF s'(2)] in' r sk by simp
    have fails: "delkeys_body sk t = None" if "sk_at t sk = sk_at s' sk" "smem t a = None" for t
      using that r sk c assms(4) by (simp add: delkeys_body_def free_secret_def)
    obtain us vs where us: "key_listhead s' = us @ sk # vs" using split_list [OF in'] by blast
    have "sk \<notin> set us" using s'(2) us by (simp add: keys_wf_def)
    then have "visit delkeys_body (us @ sk # vs) s' = None"
      using delkeys_visit_frame fails r(2) by (intro visit_fails) blast
    then have "auth_delkeys s' = None" by (simp add: delkeys_eq us)
    then show ?thesis using dangling_uses [OF s'(2) f _ r(2)] r assms(4) by simp
  qed
  have "\<exists>s' s''. auth_agekeys now s = Some s' \<and> auth_findkey k s' = None \<and> authhavekey k s' = (True, s'') \<and>
        cache_secret s'' = Some a \<and> smem s'' a = None"
    if e: "0 < lifetime (sk_at s sk)" "lifetime (sk_at s sk) < now" "cache_keyid s = k" "cache_secret s = Some a"
  proof -
    obtain t where t: "auth_agekeys now s = Some t" "auth_wf t"
      "key_view t = (\<lambda>k. if \<exists>e. key_view s k = Some e \<and> store_expired now e then None else key_view s k)"
      "cache_keyid t = cache_keyid s" "cache_secret t = cache_secret s" "smem t a = None"
      using agekeys_view [OF assms(1,2), of now] assms(3,4) e by blast
    have "key_view s k = Some (sk_view s sk)" using assms(3) by (simp add: key_view_def)
    moreover have "store_expired now (sk_view s sk)" using e by (simp add: store_expired_view)
    ultimately have "key_view t k = None" unfolding t(3) by auto
    then have "auth_findkey k t = None" by (simp add: key_view_def)
    moreover have "authhavekey k t = (True, t\<lparr>authkeylookups := authkeylookups t + 1\<rparr>)"
      using t(4) e(3) by (simp add: authhavekey_def Let_def)
    ultimately show ?thesis using t e(4) by auto
  qed
  with s'(1) del clr show ?thesis by blast
qed

text \<open>A store with one trusted key.\<close>

definition auth_one :: auth_state where
  "auth_one = auth_zero\<lparr>sk_at := (\<lambda>_. \<lparr>secret = Some 0, lifetime = 0, keyid = 7, sk_type = 4, secretsize = 2, sk_flags = 1\<rparr>), sk_fresh := 1,
     key_listhead := [0], key_hash := (\<lambda>b. if b = 7 then [0] else []), smem := [0 \<mapsto> [1, 2]], smem_fresh := 1, authnumkeys := 1\<rparr>"

lemma auth_one_hash: "KEYHASH 7 auth_one = 7"
  by (simp add: KEYHASH_def auth_one_def auth_zero_def init_auth_def DEF_AUTHHASHSIZE_def)

lemma auth_one_wf: "auth_wf auth_one" "auth_findkey 7 auth_one = Some 0"
proof -
  have k: "keyid (sk_at auth_one x) = 7" for x by (simp add: auth_one_def)
  have "keys_wf auth_one" unfolding keys_wf_def k auth_one_hash by (simp add: auth_one_def auth_zero_def init_auth_def)
  moreover have "secrets_wf auth_one" by (simp add: secrets_wf_def secret_ok_def auth_one_def)
  ultimately show "auth_wf auth_one" by (simp add: auth_wf_def)
  show "auth_findkey 7 auth_one = Some 0" unfolding auth_findkey_def auth_one_hash by (simp add: auth_one_def)
qed

theorem auth_stale_secrets_witness:
  "\<exists>s'. auth_delkeys auth_one = Some s' \<and> auth_delkeys s' = None"
proof -
  have "length (key_listhead auth_one) + length (authfreekeys auth_one) + 1 < 2 ^ 31" "secret (sk_at auth_one 0) = Some 0"
    "sk_flags (sk_at auth_one 0) = 1" by (simp_all add: auth_one_def auth_zero_def init_auth_def)
  with auth_stale_secrets [OF auth_one_wf(1) _ auth_one_wf(2), of 0 0 "[]" 0] show ?thesis
    by (auto simp: NTP_MAXKEY_def KEY_TRUSTED_def)
qed

end
