(* ===== verification/C_Strings.thy ===== *)
theory C_Strings
  imports NTP_Prelude
begin

text \<open>
  C strings and numerals.  A string is the list of its characters before the terminating NUL, so that reading
  \<^verbatim>\<open>*cp\<close> at its end is the pattern \<open>[]\<close>.  The theory has the character classes of \<^verbatim>\<open>ctype.h\<close>, the value of a
  list of digits, the decimal output of \<^verbatim>\<open>printf\<close>, and the integer readers \<^verbatim>\<open>libntp/atoint.c\<close>, \<^verbatim>\<open>atouint.c\<close>,
  \<^verbatim>\<open>octtoint.c\<close> and \<^verbatim>\<open>hextoint.c\<close>.
\<close>

definition isdigit :: "char \<Rightarrow> bool" where
  "isdigit c = (48 \<le> (of_char c :: nat) \<and> of_char c \<le> (57 :: nat))"

definition isspace :: "char \<Rightarrow> bool" where
  "isspace c = ((of_char c :: nat) = 32 \<or> 9 \<le> (of_char c :: nat) \<and> of_char c \<le> (13 :: nat))"

definition isxdigit :: "char \<Rightarrow> bool" where
  "isxdigit c = (isdigit c \<or> 97 \<le> (of_char c :: nat) \<and> of_char c \<le> (102 :: nat) \<or> 65 \<le> (of_char c :: nat) \<and> of_char c \<le> (70 :: nat))"

text \<open>The value of a digit, \<^verbatim>\<open>c - '0'\<close>, and of a hexadecimal digit.\<close>

definition digit :: "char \<Rightarrow> nat" where
  "digit c = of_char c - 48"

definition xdigit :: "char \<Rightarrow> nat" where
  "xdigit c = (if of_char c \<le> (57 :: nat) then of_char c - 48 else if of_char c \<le> (70 :: nat) then of_char c - 55 else of_char c - 87)"

section \<open>Integer readers\<close>

text \<open>The readers return \<open>None\<close> where the C functions return 0, and the value they store where these return 1.\<close>

fun atouint_loop :: "u_int64 \<Rightarrow> string \<Rightarrow> u_int64 option" where
  "atouint_loop u [] = Some u"
| "atouint_loop u (c # cp) =
     (if \<not> isdigit c then None
      else if u > 429496729 \<or> u = 429496729 \<and> of_char c \<ge> (54 :: nat) then None
      else atouint_loop ((push_bit 3 u + push_bit 1 u) + of_nat (digit c)) cp)"

definition atouint :: "string \<Rightarrow> u_int64 option" where
  "atouint str = (if str = [] then None else atouint_loop 0 str)"

text \<open>\<^verbatim>\<open>long u\<close> is signed; it stays between 0 and \<open>2 ^ 31\<close>, where shifting it left is multiplying.\<close>

fun atoint_loop :: "nat \<Rightarrow> int \<Rightarrow> string \<Rightarrow> int option" where
  "atoint_loop oflow_digit u [] = Some u"
| "atoint_loop oflow_digit u (c # cp) =
     (if \<not> isdigit c then None
      else if u > 214748364 \<or> u = 214748364 \<and> of_char c > oflow_digit then None
      else atoint_loop oflow_digit (s64 (s64 (push_bit 3 u + push_bit 1 u) + int (digit c))) cp)"

definition atoint :: "string \<Rightarrow> int option" where
  "atoint str =
     (let (isneg, oflow_digit, cp) =
            (case str of c # r \<Rightarrow> if c = CHR ''-'' then (True, of_char (CHR ''8''), r) else (False, of_char (CHR ''7''), str)
             | [] \<Rightarrow> (False, of_char (CHR ''7''), str))
      in if cp = [] then None
         else case atoint_loop oflow_digit 0 cp of None \<Rightarrow> None | Some u \<Rightarrow> Some (if isneg then s64 (- u) else u))"

fun octtoint_loop :: "u_int64 \<Rightarrow> string \<Rightarrow> u_int64 option" where
  "octtoint_loop u [] = Some u"
| "octtoint_loop u (c # cp) =
     (if \<not> isdigit c \<or> c = CHR ''8'' \<or> c = CHR ''9'' then None
      else if u \<ge> 0x20000000 then None
      else octtoint_loop (push_bit 3 u + of_nat (digit c)) cp)"

definition octtoint :: "string \<Rightarrow> u_int64 option" where
  "octtoint str = (if str = [] then None else octtoint_loop 0 str)"

fun hextoint_loop :: "u_int64 \<Rightarrow> string \<Rightarrow> u_int64 option" where
  "hextoint_loop u [] = Some u"
| "hextoint_loop u (c # cp) =
     (if \<not> isxdigit c then None
      else if u AND 0xF0000000 \<noteq> 0 then None
      else let u = push_bit 4 u; k = of_char c :: nat
           in if 48 \<le> k \<and> k \<le> 57 then hextoint_loop (u + of_nat (k - 48)) cp
              else if 97 \<le> k \<and> k \<le> 102 then hextoint_loop (u + of_nat (k - 97 + 10)) cp
              else if 65 \<le> k \<and> k \<le> 70 then hextoint_loop (u + of_nat (k - 65 + 10)) cp
              else None)"

definition hextoint :: "string \<Rightarrow> u_int64 option" where
  "hextoint str = (if str = [] then None else hextoint_loop 0 str)"

section \<open>The value of a list of digits\<close>

definition num_from :: "nat \<Rightarrow> nat \<Rightarrow> nat list \<Rightarrow> nat" where
  "num_from b u ds = foldl (\<lambda>u d. b * u + d) u ds"

abbreviation num :: "nat \<Rightarrow> nat list \<Rightarrow> nat" where
  "num b \<equiv> num_from b 0"

lemma num_from_simps [simp]:
  "num_from b u [] = u"
  "num_from b u (d # ds) = num_from b (b * u + d) ds"
  "num_from b u (xs @ ys) = num_from b (num_from b u xs) ys"
  by (simp_all add: num_from_def)

lemma num_from_split: "num_from b u ds = u * b ^ length ds + num b ds"
proof (induction ds arbitrary: u)
  case (Cons d ds)
  show ?case using Cons [of "b * u + d"] Cons [of d] by (simp add: algebra_simps)
qed simp

lemma num_from_ge: "1 \<le> b \<Longrightarrow> u \<le> num_from b u ds"
  using num_from_split [of b u ds] by (cases "b ^ length ds") simp_all

lemma num_less: "\<forall>d \<in> set ds. d < b \<Longrightarrow> num b ds < b ^ length ds"
proof (induction ds)
  case (Cons d ds)
  then have "(d + 1) * b ^ length ds \<le> b * b ^ length ds" "num b ds < b ^ length ds"
    by (simp_all add: mult_le_mono1 del: mult_Suc)
  then show ?case using num_from_split [of b d ds] by (simp add: algebra_simps)
qed simp

lemma num_replicate_0 [simp]: "num b (replicate n 0) = 0"
  by (induction n) simp_all

lemma num_from_zeros: "num b (replicate n 0 @ ds) = num b ds"
  by simp

text \<open>The loops of the four readers differ in the width and sign of the accumulator and in the way the overflow
  is foreseen.  Their contract is the same: a character that is not a digit, or a digit that takes the value to the
  limit, ends the loop with a failure.\<close>

locale digit_reader =
  fixes loop :: "'u \<Rightarrow> string \<Rightarrow> 'u option"
    and val :: "'u \<Rightarrow> int"
    and ok :: "char \<Rightarrow> bool"
    and dig :: "char \<Rightarrow> nat"
    and base lim :: nat
  assumes base_pos: "1 \<le> base"
    and loop_Nil: "loop u [] = Some u"
    and loop_Cons: "val u = int n \<Longrightarrow> n < lim \<Longrightarrow> ok c \<Longrightarrow> base * n + dig c < lim \<Longrightarrow>
      \<exists>u'. val u' = int (base * n + dig c) \<and> loop u (c # cs) = loop u' cs"
    and loop_stop: "val u = int n \<Longrightarrow> n < lim \<Longrightarrow> \<not> (ok c \<and> base * n + dig c < lim) \<Longrightarrow> loop u (c # cs) = None"
begin

lemma loop_exact:
  assumes "val u = int n" "n < lim"
  shows "if (\<forall>c \<in> set cs. ok c) \<and> num_from base n (map dig cs) < lim
         then \<exists>v. loop u cs = Some v \<and> val v = int (num_from base n (map dig cs)) else loop u cs = None"
  using assms
proof (induction cs arbitrary: u n)
  case Nil
  then show ?case by (simp add: loop_Nil)
next
  case (Cons c cs)
  show ?case
  proof (cases "ok c \<and> base * n + dig c < lim")
    case True
    then obtain u' where "val u' = int (base * n + dig c)" "loop u (c # cs) = loop u' cs"
      using loop_Cons [OF Cons.prems, of c cs] by blast
    then show ?thesis using Cons.IH [of u' "base * n + dig c"] True by simp
  next
    case False
    moreover have "ok c \<Longrightarrow> lim \<le> num_from base (base * n + dig c) (map dig cs)"
      using num_from_ge [OF base_pos, of "base * n + dig c" "map dig cs"] False by linarith
    ultimately show ?thesis using loop_stop [OF Cons.prems] by (auto simp: not_less)
  qed
qed

end

lemma isdigit_digit: "isdigit c \<Longrightarrow> digit c < 10"
  by (simp add: isdigit_def digit_def) linarith

lemma uint_of_small: "uint (u :: u_int64) = int n \<Longrightarrow> u = of_nat n"
  by (metis word_of_int_uint of_int_of_nat_eq)

lemma word_shift_add_digit:
  assumes "uint (u :: u_int64) = int n" "n < 4294967296" "d < 16"
  shows "uint ((push_bit 3 u + push_bit 1 u) + of_nat d) = int (10 * n + d)"
    and "uint (push_bit 3 u + of_nat d) = int (8 * n + d)"
    and "uint (push_bit 4 u + of_nat d) = int (16 * n + d)"
proof -
  have u: "u = of_nat n" by (rule uint_of_small [OF assms(1)])
  have e: "uint (of_nat m :: u_int64) = int m" if "m < 2 ^ 64" for m
    using that by (simp add: unsigned_of_nat take_bit_nat_eq_self)
  have p: "push_bit 3 u + push_bit 1 u + of_nat d = of_nat (10 * n + d)"
    "push_bit 3 u + of_nat d = of_nat (8 * n + d)" "push_bit 4 u + of_nat d = of_nat (16 * n + d)"
    by (simp_all add: u push_bit_eq_mult)
  show "uint ((push_bit 3 u + push_bit 1 u) + of_nat d) = int (10 * n + d)" unfolding p by (rule e) (use assms in simp)
  show "uint (push_bit 3 u + of_nat d) = int (8 * n + d)" unfolding p by (rule e) (use assms in simp)
  show "uint (push_bit 4 u + of_nat d) = int (16 * n + d)" unfolding p by (rule e) (use assms in simp)
qed

lemma u64_less_iff: "uint (u :: u_int64) = int n \<Longrightarrow> (u > 429496729 \<longleftrightarrow> n > 429496729) \<and> (u = 429496729 \<longleftrightarrow> n = 429496729) \<and> (u \<ge> 0x20000000 \<longleftrightarrow> n \<ge> 536870912)"
  by (auto simp: word_less_def word_le_def word_uint_eq_iff)

interpretation atouint_reader: digit_reader atouint_loop uint isdigit digit 10 4294967296
proof
  fix u :: u_int64 and n c cs
  assume u: "uint u = int n" and n: "n < 4294967296"
  have k: "u > 429496729 \<or> u = 429496729 \<and> of_char c \<ge> (54 :: nat) \<longleftrightarrow> \<not> 10 * n + digit c < 4294967296" if "isdigit c"
    using u64_less_iff [OF u] that by (auto simp: isdigit_def digit_def)
  {
    assume "isdigit c" "10 * n + digit c < 4294967296"
    then have "atouint_loop u (c # cs) = atouint_loop (push_bit 3 u + push_bit 1 u + of_nat (digit c)) cs"
      using k by auto
    then show "\<exists>u'. uint u' = int (10 * n + digit c) \<and> atouint_loop u (c # cs) = atouint_loop u' cs"
      using word_shift_add_digit(1) [OF u n, of "digit c"] isdigit_digit [of c] \<open>isdigit c\<close> by auto
  }
  assume "\<not> (isdigit c \<and> 10 * n + digit c < 4294967296)"
  with k show "atouint_loop u (c # cs) = None" by auto
qed simp_all

interpretation octtoint_reader: digit_reader octtoint_loop uint "\<lambda>c. isdigit c \<and> c \<noteq> CHR ''8'' \<and> c \<noteq> CHR ''9''" digit 8 4294967296
proof
  fix u :: u_int64 and n c cs
  assume u: "uint u = int n" and n: "n < 4294967296"
  have d: "digit c < 8" if "isdigit c \<and> c \<noteq> CHR ''8'' \<and> c \<noteq> CHR ''9''"
  proof -
    have "(of_char c :: nat) \<noteq> 56" using that of_char_eq_iff [of c "CHR ''8''", where ?'a = nat] by auto
    moreover have "(of_char c :: nat) \<noteq> 57" using that of_char_eq_iff [of c "CHR ''9''", where ?'a = nat] by auto
    ultimately show ?thesis using that by (simp add: isdigit_def digit_def) linarith
  qed
  have k: "u \<ge> 0x20000000 \<longleftrightarrow> \<not> 8 * n + digit c < 4294967296" if "isdigit c \<and> c \<noteq> CHR ''8'' \<and> c \<noteq> CHR ''9''"
    using u64_less_iff [OF u] d [OF that] by linarith
  {
    assume *: "isdigit c \<and> c \<noteq> CHR ''8'' \<and> c \<noteq> CHR ''9''" "8 * n + digit c < 4294967296"
    with k show "\<exists>u'. uint u' = int (8 * n + digit c) \<and> octtoint_loop u (c # cs) = octtoint_loop u' cs"
      using word_shift_add_digit(2) [OF u n, of "digit c"] d [OF *(1)]
      by (intro exI [of _ "push_bit 3 u + of_nat (digit c)"]) simp
  }
  assume "\<not> ((isdigit c \<and> c \<noteq> CHR ''8'' \<and> c \<noteq> CHR ''9'') \<and> 8 * n + digit c < 4294967296)"
  with k show "octtoint_loop u (c # cs) = None" by auto
qed simp_all

lemma top_nibble:
  assumes "uint (u :: u_int64) = int n" "n < 4294967296"
  shows "u AND 0xF0000000 \<noteq> 0 \<longleftrightarrow> n \<ge> 268435456"
proof -
  have m: "(0xF0000000 :: int) = push_bit 28 (mask 4)" by (simp add: push_bit_eq_mult mask_eq_exp_minus_1)
  have "uint (u AND 0xF0000000) = int n AND 0xF0000000" by (simp add: unsigned_and_eq assms(1))
  also have "\<dots> = push_bit 28 (take_bit 4 (drop_bit 28 (int n)))"
    unfolding m by (rule bit_eqI) (auto simp: bit_simps)
  also have "\<dots> = int n div 268435456 mod 16 * 268435456"
    by (simp add: take_bit_eq_mod push_bit_eq_mult drop_bit_eq_div)
  also have "int n div 268435456 mod 16 = int n div 268435456" using assms(2) by simp
  finally have "u AND 0xF0000000 = 0 \<longleftrightarrow> int n div 268435456 * 268435456 = 0" by (simp add: word_uint_eq_iff)
  then show ?thesis by auto
qed

lemma isxdigit_cases:
  assumes "isxdigit c"
  shows "48 \<le> (of_char c :: nat) \<and> of_char c \<le> (57 :: nat) \<and> xdigit c = of_char c - 48 \<or>
    97 \<le> (of_char c :: nat) \<and> of_char c \<le> (102 :: nat) \<and> xdigit c = of_char c - 97 + 10 \<or>
    65 \<le> (of_char c :: nat) \<and> of_char c \<le> (70 :: nat) \<and> xdigit c = of_char c - 65 + 10"
  using assms by (auto simp: isxdigit_def isdigit_def xdigit_def)

lemma isxdigit_xdigit: "isxdigit c \<Longrightarrow> xdigit c < 16"
  using isxdigit_cases [of c] by auto

lemma hextoint_loop_step:
  "isxdigit c \<Longrightarrow> u AND 0xF0000000 = 0 \<Longrightarrow> hextoint_loop u (c # cs) = hextoint_loop (push_bit 4 u + of_nat (xdigit c)) cs"
  using isxdigit_cases [of c] by (auto simp: Let_def)

interpretation hextoint_reader: digit_reader hextoint_loop uint isxdigit xdigit 16 4294967296
proof
  fix u :: u_int64 and n c cs
  assume u: "uint u = int n" and n: "n < 4294967296"
  have k: "u AND 0xF0000000 \<noteq> 0 \<longleftrightarrow> \<not> 16 * n + xdigit c < 4294967296" if "isxdigit c"
    using top_nibble [OF u n] isxdigit_xdigit [OF that] by linarith
  {
    assume *: "isxdigit c" "16 * n + xdigit c < 4294967296"
    with k show "\<exists>u'. uint u' = int (16 * n + xdigit c) \<and> hextoint_loop u (c # cs) = hextoint_loop u' cs"
      using word_shift_add_digit(3) [OF u n isxdigit_xdigit] hextoint_loop_step [of c u cs] by blast
  }
  assume "\<not> (isxdigit c \<and> 16 * n + xdigit c < 4294967296)"
  with k show "hextoint_loop u (c # cs) = None" by auto
qed simp_all

lemma atoint_loop_reader:
  assumes "k = 7 \<or> k = 8"
  shows "digit_reader (atoint_loop (48 + k)) id isdigit digit 10 (2147483641 + k)"
proof
  fix u :: int and n c cs
  assume u: "id u = int n" and n: "n < 2147483641 + k"
  have o: "u > 214748364 \<or> u = 214748364 \<and> of_char c > 48 + k \<longleftrightarrow> \<not> 10 * n + digit c < 2147483641 + k" if "isdigit c"
    using u assms that by (auto simp: isdigit_def digit_def)
  {
    assume *: "isdigit c" "10 * n + digit c < 2147483641 + k"
    have "s64 (s64 (push_bit 3 u + push_bit 1 u) + int (digit c)) = int (10 * n + digit c)"
      using u n assms isdigit_digit [OF *(1)] s64_id [of "10 * int n"] s64_id [of "10 * int n + int (digit c)"]
      by (auto simp: push_bit_eq_mult in_s64_def)
    then show "\<exists>u'. id u' = int (10 * n + digit c) \<and> atoint_loop (48 + k) u (c # cs) = atoint_loop (48 + k) u' cs"
      using * o by auto
  }
  assume "\<not> (isdigit c \<and> 10 * n + digit c < 2147483641 + k)"
  with o show "atoint_loop (48 + k) u (c # cs) = None" by auto
qed simp_all

interpretation atoint_pos: digit_reader "atoint_loop 55" id isdigit digit 10 2147483648
  using atoint_loop_reader [of 7] by simp

interpretation atoint_neg: digit_reader "atoint_loop 56" id isdigit digit 10 2147483649
  using atoint_loop_reader [of 8] by simp

lemma reader_word:
  assumes "if list_all P cs \<and> N < lim then \<exists>v. r = Some v \<and> uint (v :: u_int64) = int N else r = None"
  shows "r = (if list_all P cs \<and> N < lim then Some (of_nat N) else None)"
  using assms uint_of_small by (auto split: if_splits)

text \<open>
  The integer readers are exact.  \<^verbatim>\<open>atouint\<close>, \<^verbatim>\<open>octtoint\<close> and \<^verbatim>\<open>hextoint\<close> accept exactly the non-empty strings
  of decimal, octal and hexadecimal digits whose value fits 32 bits, whatever the number of leading zeros, and return
  that value; \<^verbatim>\<open>atoint\<close> accepts an optional minus sign and the values from \<open>- 2 ^ 31\<close> to \<open>2 ^ 31 - 1\<close>.
\<close>
theorem int_readers_exact:
  "atouint str = (if str \<noteq> [] \<and> list_all isdigit str \<and> num 10 (map digit str) < 2 ^ 32
     then Some (of_nat (num 10 (map digit str))) else None) \<and>
   octtoint str = (if str \<noteq> [] \<and> list_all (\<lambda>c. isdigit c \<and> c \<noteq> CHR ''8'' \<and> c \<noteq> CHR ''9'') str \<and> num 8 (map digit str) < 2 ^ 32
     then Some (of_nat (num 8 (map digit str))) else None) \<and>
   hextoint str = (if str \<noteq> [] \<and> list_all isxdigit str \<and> num 16 (map xdigit str) < 2 ^ 32
     then Some (of_nat (num 16 (map xdigit str))) else None) \<and>
   atoint (CHR ''-'' # str) = (if str \<noteq> [] \<and> list_all isdigit str \<and> num 10 (map digit str) \<le> 2 ^ 31
     then Some (- int (num 10 (map digit str))) else None) \<and>
   (take 1 str \<noteq> ''-'' \<longrightarrow> atoint str = (if str \<noteq> [] \<and> list_all isdigit str \<and> num 10 (map digit str) < 2 ^ 31
     then Some (int (num 10 (map digit str))) else None))"
proof -
  have pos: "atoint_loop 55 0 str = (if list_all isdigit str \<and> num 10 (map digit str) < 2147483648 then Some (int (num 10 (map digit str))) else None)"
    using atoint_pos.loop_exact [of 0 0 str] by (auto simp: list_all_iff split: if_splits)
  have neg: "atoint_loop 56 0 str = (if list_all isdigit str \<and> num 10 (map digit str) < 2147483649 then Some (int (num 10 (map digit str))) else None)"
    using atoint_neg.loop_exact [of 0 0 str] by (auto simp: list_all_iff split: if_splits)
  have "atoint str = (if str = [] then None else atoint_loop 55 0 str)" if "take 1 str \<noteq> ''-''"
    using that by (cases str) (auto simp: atoint_def split: option.splits)
  moreover have "s64 (- int m) = - int m" if "m < 2147483649" for m
    using that by (intro s64_id) (simp add: in_s64_def)
  ultimately show ?thesis
    using reader_word [OF atouint_reader.loop_exact [of 0 0 str, folded list_all_iff]]
      reader_word [OF octtoint_reader.loop_exact [of 0 0 str, folded list_all_iff]]
      reader_word [OF hextoint_reader.loop_exact [of 0 0 str, folded list_all_iff]]
    by (auto simp: atouint_def octtoint_def hextoint_def pos neg atoint_def Let_def)
qed

theorem int_readers_exact_witness:
  "atoint ''2147483648'' = None \<and> atoint ''-2147483648'' = Some (- 2147483648) \<and> atoint ''0000002147483647'' = Some 2147483647"
  using int_readers_exact [of "''2147483648''"] int_readers_exact [of "''0000002147483647''"] by (simp add: isdigit_def digit_def)

section \<open>Decimal output\<close>

text \<open>The digits that \<^verbatim>\<open>printf\<close> writes for an unsigned number, with zeros up to a field width, and a number of
  \<open>10 ^ k\<close>-th parts with its \<open>k\<close> decimal places.\<close>

fun dec_digits :: "nat \<Rightarrow> nat list" where
  "dec_digits n = (if n < 10 then [n] else dec_digits (n div 10) @ [n mod 10])"

declare dec_digits.simps [simp del]

definition dchar :: "nat \<Rightarrow> char" where
  "dchar d = char_of (48 + d)"

definition pad0 :: "nat \<Rightarrow> nat list \<Rightarrow> nat list" where
  "pad0 w ds = replicate (w - length ds) 0 @ ds"

definition show_dec :: "nat \<Rightarrow> string" where
  "show_dec n = map dchar (dec_digits n)"

definition fixed_point :: "nat \<Rightarrow> nat \<Rightarrow> string" where
  "fixed_point k n =
     show_dec (n div 10 ^ k) @ (if k = 0 then [] else CHR ''.'' # map dchar (pad0 k (dec_digits (n mod 10 ^ k))))"

lemma dchar_digit [simp]: "d < 10 \<Longrightarrow> isdigit (dchar d)" "d < 10 \<Longrightarrow> digit (dchar d) = d"
  by (simp_all add: isdigit_def digit_def dchar_def)

lemma isdigit_dchar: "isdigit c \<Longrightarrow> dchar (digit c) = c"
  by (simp add: isdigit_def digit_def dchar_def)

lemma dec_digits_num [simp]: "num 10 (dec_digits n) = n"
proof (induction n rule: dec_digits.induct)
  case (1 n)
  then show ?case by (subst dec_digits.simps) simp
qed

lemma dec_digits_less: "\<forall>d \<in> set (dec_digits n). d < 10"
proof (induction n rule: dec_digits.induct)
  case (1 n)
  then show ?case by (subst dec_digits.simps) auto
qed

lemma dec_digits_ne [simp]: "dec_digits n \<noteq> []"
  by (subst dec_digits.simps) simp

lemma dec_digits_hd: "n \<noteq> 0 \<Longrightarrow> hd (dec_digits n) \<noteq> 0"
proof (induction n rule: dec_digits.induct)
  case (1 n)
  then show ?case by (subst dec_digits.simps) (auto simp: hd_append)
qed

lemma num_inj:
  assumes "length xs = length ys" "\<forall>d \<in> set xs. d < b" "\<forall>d \<in> set ys. d < b" "num b xs = num b ys"
  shows "xs = ys"
  using assms
proof (induction xs ys rule: list_induct2)
  case (Cons x xs y ys)
  let ?p = "b ^ length xs"
  have l: "num b xs < ?p" "num b ys < ?p" using num_less [of xs b] num_less [of ys b] Cons.prems Cons.hyps by simp_all
  have e: "x * ?p + num b xs = y * ?p + num b ys"
    using Cons.prems(3) num_from_split [of b x xs] num_from_split [of b y ys] Cons.hyps by simp
  have q: "(z * ?p + r) div ?p = z" if "r < ?p" for z r
  proof -
    have "?p \<noteq> 0" using that by linarith
    then show ?thesis using that by (simp add: add.commute)
  qed
  have "x = (x * ?p + num b xs) div ?p" using q [OF l(1)] by simp
  also have "\<dots> = y" unfolding e by (rule q [OF l(2)])
  finally show ?case using Cons e by simp
qed simp

lemma num_length_le:
  assumes "ds \<noteq> []" "hd ds \<noteq> 0"
  shows "b ^ (length ds - 1) \<le> num b ds"
proof -
  obtain d es where ds: "ds = d # es" using assms(1) by (cases ds) auto
  have "1 * b ^ length es \<le> d * b ^ length es" using assms(2) ds by (intro mult_le_mono1) simp
  then have "b ^ length es \<le> num_from b d es" using num_from_split [of b d es] by linarith
  then show ?thesis using ds by simp
qed

text \<open>Leading zeros stripped, all but the last digit, are the digits of the number.\<close>

lemma strip_zeros:
  assumes "xs \<noteq> []" "\<forall>d \<in> set xs. d < 10"
  shows "dec_digits (num 10 xs) = (if list_all (\<lambda>d. d = 0) xs then [0] else dropWhile (\<lambda>d. d = 0) xs)"
  using assms
proof (induction xs rule: rev_induct)
  case (snoc x xs)
  show ?case
  proof (cases "xs = []")
    case True
    then show ?thesis using snoc.prems by (simp add: dec_digits.simps)
  next
    case False
    then have IH: "dec_digits (num 10 xs) = (if list_all (\<lambda>d. d = 0) xs then [0] else dropWhile (\<lambda>d. d = 0) xs)"
      and x: "x < 10" using snoc by auto
    show ?thesis
    proof (cases "num 10 xs = 0")
      case True
      then have "dec_digits (num 10 xs) = [0]" by (simp add: dec_digits.simps)
      then have z: "\<not> list_all (\<lambda>d. d = 0) xs \<Longrightarrow> hd (dropWhile (\<lambda>d. d = 0) xs) = 0" using IH by simp
      have "list_all (\<lambda>d. d = 0) xs"
      proof (rule ccontr)
        assume n: "\<not> list_all (\<lambda>d. d = 0) xs"
        then have "dropWhile (\<lambda>d. d = 0) xs \<noteq> []" by (auto simp: list_all_iff)
        then show False using hd_dropWhile z n by blast
      qed
      then show ?thesis using True x by (simp add: dec_digits.simps dropWhile_append list_all_iff)
    next
      case nz: False
      then have "\<not> list_all (\<lambda>d. d = 0) xs"
      proof -
        have "list_all (\<lambda>d. d = 0) xs \<Longrightarrow> xs = replicate (length xs) 0" by (simp add: list_all_iff replicate_eqI)
        then show ?thesis using nz num_replicate_0 [of 10 "length xs"] by metis
      qed
      then show ?thesis
        using nz x IH by (subst dec_digits.simps) (auto simp: dropWhile_append list_all_iff)
    qed
  qed
qed simp

lemma pad0_digits:
  assumes "ys \<noteq> []" "\<forall>d \<in> set ys. d < 10"
  shows "pad0 (length ys) (dec_digits (num 10 ys)) = ys"
proof -
  let ?ds = "dec_digits (num 10 ys)"
  have "length ?ds \<le> length ys"
  proof (rule ccontr)
    assume "\<not> ?thesis"
    then have l: "length ys \<le> length ?ds - 1" "length ?ds > 1" using assms(1) by (cases ys; simp add: not_le)+
    have "dec_digits 0 = [0]" by (simp add: dec_digits.simps)
    then have "num 10 ys \<noteq> 0" using l(2) by (cases "num 10 ys = 0") simp_all
    then have "10 ^ (length ?ds - 1) \<le> num 10 ys" using num_length_le [of ?ds 10] dec_digits_hd by simp
    moreover have "10 ^ length ys \<le> (10 :: nat) ^ (length ?ds - 1)" using l by simp
    ultimately show False using num_less [OF assms(2)] by linarith
  qed
  then show ?thesis
    by (intro num_inj [where b = 10]) (auto simp: pad0_def assms(2) dec_digits_less num_from_zeros)
qed

end
