(* ===== verification/Lfp_Strings.thy ===== *)
theory Lfp_Strings
  imports NTP_Fp C_Strings
begin

text \<open>
  Reading and writing fixed-point numbers: \<^verbatim>\<open>libntp/atolfp.c\<close>, \<^verbatim>\<open>mstolfp.c\<close>, \<^verbatim>\<open>hextolfp.c\<close>, \<^verbatim>\<open>dolfptoa.c\<close>, \<^verbatim>\<open>dofptoa.c\<close>
  and \<^verbatim>\<open>timetoa.c\<close>, with the printing macros of \<^verbatim>\<open>include/ntp_fp.h\<close>.  The local character buffers are lists of their
  declared size; a pointer into one is an index, and a read or write out of its bounds is \<open>None\<close>.
\<close>

section \<open>Reading seconds\<close>

fun read_dec :: "u_int64 \<Rightarrow> string \<Rightarrow> u_int64 \<times> string" where
  "read_dec dec_i [] = (dec_i, [])"
| "read_dec dec_i (c # cp) =
     (if isdigit c then read_dec ((push_bit 3 dec_i + push_bit 1 dec_i) + of_nat (digit c)) cp else (dec_i, c # cp))"

fun read_frac :: "nat \<Rightarrow> u_int64 \<Rightarrow> string \<Rightarrow> nat \<times> u_int64 \<times> string" where
  "read_frac ndec dec_f [] = (ndec, dec_f, [])"
| "read_frac ndec dec_f (c # cp) =
     (if ndec < 9 \<and> isdigit c then read_frac (ndec + 1) ((push_bit 3 dec_f + push_bit 1 dec_f) + of_nat (digit c)) cp
      else (ndec, dec_f, c # cp))"

definition ten_to_the_n :: "u_int64 list" where
  "ten_to_the_n = [0, 10, 100, 1000, 10000, 100000, 1000000, 10000000, 100000000, 1000000000]"

text \<open>One bit of the binary fraction per round, from the highest.\<close>

lemma unat_half_less: "b \<noteq> 0 \<Longrightarrow> unat (drop_bit (Suc 0) b) < unat (b :: 'a::len word)"
proof -
  assume "b \<noteq> 0"
  then have "0 < unat b" by (simp add: unat_gt_0)
  moreover have "unat (drop_bit (Suc 0) b) = unat b div 2"
    unfolding unat_drop_bit_eq by (simp add: drop_bit_Suc)
  ultimately show ?thesis by simp
qed

function frac_loop :: "u_int64 \<Rightarrow> u_int64 \<Rightarrow> u_int64 \<Rightarrow> u_int64 \<Rightarrow> u_int64 \<times> u_int64" where
  "frac_loop ten_fact tmp dec_f b =
     (if b = 0 then (tmp, dec_f)
      else let dec_f = push_bit 1 dec_f
           in if dec_f \<ge> ten_fact then frac_loop ten_fact (tmp OR b) (dec_f - ten_fact) (drop_bit 1 b)
              else frac_loop ten_fact tmp dec_f (drop_bit 1 b))"
  by pat_completeness auto
termination
  by (relation "measure (\<lambda>(_, _, _, b). unat b)") (auto simp: unat_half_less)

declare frac_loop.simps [simp del]

definition dec_fraction :: "nat \<Rightarrow> u_int64 \<Rightarrow> u_int64" where
  "dec_fraction ndec dec_f =
     (let ten_fact = ten_to_the_n ! ndec;
          (tmp, dec_f) = frac_loop ten_fact 0 dec_f 0x80000000
      in if push_bit 1 dec_f > ten_fact then tmp + 1 else tmp)"

text \<open>The part after the integral digits: the number of decimal places used, at most 9, and their value.\<close>

definition atolfp_frac :: "string \<Rightarrow> (nat \<times> u_int64) option" where
  "atolfp_frac cp =
     (case cp of
        [] \<Rightarrow> Some (0, 0)
      | c # cp \<Rightarrow>
          if isspace c then Some (0, 0)
          else if c \<noteq> CHR ''.'' then None
          else let (ndec, dec_f, cp) = read_frac 0 0 cp;
                   cp = dropWhile isdigit cp
               in if cp \<noteq> [] \<and> \<not> isspace (hd cp) then None else Some (ndec, dec_f))"

text \<open>\<^verbatim>\<open>M_NEG\<close> on the two \<^verbatim>\<open>u_long\<close> variables of \<^verbatim>\<open>atolfp\<close>.\<close>

definition M_NEG_long :: "u_int64 \<Rightarrow> u_int64 \<Rightarrow> u_int64 \<times> u_int64" where
  "M_NEG_long v_i v_f = (let v_f = NOT v_f + 1 in (NOT v_i + of_bool (v_f = 0), v_f))"

definition atolfp :: "string \<Rightarrow> l_fp option" where
  "atolfp str =
     (let cp = dropWhile isspace str;
          (isneg, cp) = (if take 1 cp = ''-'' then (True, tl cp) else (False, cp));
          cp = (if take 1 cp = ''+'' then tl cp else cp)
      in if cp = [] \<or> hd cp \<noteq> CHR ''.'' \<and> \<not> isdigit (hd cp) then None
         else let (dec_i, cp) = read_dec 0 cp
              in case atolfp_frac cp of
                   None \<Rightarrow> None
                 | Some (ndec, dec_f) \<Rightarrow>
                     let dec_f = (if ndec > 0 then dec_fraction ndec dec_f else dec_f);
                         (dec_i, dec_f) = (if isneg then M_NEG_long dec_i dec_f else (dec_i, dec_f))
                     in Some \<lparr>l_ui = ucast dec_i, l_uf = ucast dec_f\<rparr>)"

section \<open>Reading milliseconds\<close>

text \<open>\<^verbatim>\<open>*bp++ = c\<close> for a buffer of 100 characters: the characters written so far, \<open>None\<close> beyond its end.\<close>

definition ms_put :: "string option \<Rightarrow> char \<Rightarrow> string option" where
  "ms_put buf c = (case buf of None \<Rightarrow> None | Some s \<Rightarrow> if length s < 100 then Some (s @ [c]) else None)"

definition ms_puts :: "string option \<Rightarrow> string \<Rightarrow> string option" where
  "ms_puts buf cs = foldl ms_put buf cs"

text \<open>The copy of the digits \<open>ds\<close> before the point, which moves three places to the left.\<close>

definition ms_copy :: "string option \<Rightarrow> string \<Rightarrow> string option" where
  "ms_copy buf ds =
     (let (buf, ds) = (if length ds > 3 then (ms_puts buf (take (length ds - 3) ds), drop (length ds - 3) ds)
                       else (ms_put buf (CHR ''0''), ds));
          buf = ms_put buf (CHR ''.'');
          buf = (if length ds < 3 then ms_puts buf (replicate (3 - length ds) (CHR ''0'')) else buf)
      in ms_puts buf ds)"

text \<open>The outer option is a write past the buffer, the inner one the result of the function.  Between \<^verbatim>\<open>cp\<close> and
  \<^verbatim>\<open>cpdec\<close> there are only digits.\<close>

definition mstolfp :: "string \<Rightarrow> l_fp option option" where
  "mstolfp str =
     (let cp = dropWhile isspace str;
          (buf, cp) = (if take 1 cp = ''-'' then (ms_put (Some []) (CHR ''-''), tl cp) else (Some [], cp))
      in if cp = [] \<or> hd cp \<noteq> CHR ''.'' \<and> \<not> isdigit (hd cp) then Some None
         else
           let buf = ms_copy buf (takeWhile isdigit cp);
               cpdec = dropWhile isdigit cp;
               (buf, cp) = (if take 1 cpdec = ''.''
                            then (ms_puts buf (takeWhile isdigit (tl cpdec)), dropWhile isdigit (tl cpdec))
                            else (buf, cpdec))
           in case buf of
                None \<Rightarrow> None
              | Some s \<Rightarrow>
                  if length s \<ge> 100 then None
                  else if cp \<noteq> [] \<and> \<not> isspace (hd cp) then Some None
                  else Some (atolfp s))"

section \<open>Reading hexadecimal stamps\<close>

text \<open>At most eight digits, of which \<open>n\<close> are left: the value, how many were missing, and the rest of the string.\<close>

fun read_hex :: "nat \<Rightarrow> u_int64 \<Rightarrow> string \<Rightarrow> u_int64 \<times> nat \<times> string" where
  "read_hex 0 u cp = (u, 0, cp)"
| "read_hex (Suc n) u [] = (u, Suc n, [])"
| "read_hex (Suc n) u (c # cp) =
     (if isxdigit c then read_hex n (push_bit 4 u + of_nat (xdigit c)) cp else (u, Suc n, c # cp))"

definition hextolfp :: "string \<Rightarrow> l_fp option" where
  "hextolfp str =
     (let cp = dropWhile isspace str;
          (dec_i, missing, cp) = read_hex 8 0 cp
      in if missing > 0 then None
         else let cp = (if take 1 cp = ''.'' then tl cp else cp);
                  (dec_f, missing, cp) = read_hex 8 0 cp
              in if missing > 0 then None
                 else if cp \<noteq> [] \<and> \<not> isspace (hd cp) then None
                 else Some \<lparr>l_ui = ucast dec_i, l_uf = ucast dec_f\<rparr>)"

section \<open>Writing fixed-point numbers\<close>

text \<open>Reads and writes of a character buffer.\<close>

definition get_at :: "nat \<Rightarrow> 'a list \<Rightarrow> 'a option" where
  "get_at i buf = (if i < length buf then Some (buf ! i) else None)"

definition put_at :: "nat \<Rightarrow> 'a \<Rightarrow> 'a list \<Rightarrow> 'a list option" where
  "put_at i v buf = (if i < length buf then Some (buf[i := v]) else None)"

text \<open>\<^verbatim>\<open>*--p = v\<close>\<close>

definition put_before :: "nat \<Rightarrow> 'a \<Rightarrow> 'a list \<Rightarrow> 'a list option" where
  "put_before p v buf = (if p = 0 then None else put_at (p - 1) v buf)"

text \<open>The integral digits, backwards from \<^verbatim>\<open>cp\<close>.\<close>

fun dolfptoa_int :: "nat \<Rightarrow> u_int32 \<Rightarrow> nat \<Rightarrow> u_char list \<Rightarrow> (nat \<times> u_char list) option" where
  "dolfptoa_int 0 fpi cp cbuf = Some (cp, cbuf)"
| "dolfptoa_int (Suc dec) fpi cp cbuf =
     (if fpi = 0 then Some (cp, cbuf)
      else let d = fpi;
               fpi = fpi div 10;
               d = d - (push_bit 3 fpi + push_bit 1 fpi)
           in case put_before cp (ucast d) cbuf of
                None \<Rightarrow> None
              | Some cbuf \<Rightarrow> dolfptoa_int dec fpi (cp - 1) cbuf)"

text \<open>The fraction times ten: the digit that moves into the units, and the rest.\<close>

definition frac_times_ten :: "u_int32 \<Rightarrow> u_int32 \<times> u_int32" where
  "frac_times_ten fpv =
     (let (d, fpv) = M_LSHIFT 0 fpv;
          tmph = d;
          tmpl = fpv;
          (d, fpv) = M_LSHIFT d fpv;
          (d, fpv) = M_LSHIFT d fpv
      in M_ADD d fpv tmph tmpl)"

fun dolfptoa_frac :: "nat \<Rightarrow> u_int32 \<Rightarrow> nat \<Rightarrow> u_char list \<Rightarrow> (nat \<times> u_int32 \<times> nat \<times> u_char list) option" where
  "dolfptoa_frac 0 fpv cpend cbuf = Some (0, fpv, cpend, cbuf)"
| "dolfptoa_frac (Suc dec) fpv cpend cbuf =
     (if fpv = 0 then Some (Suc dec, fpv, cpend, cbuf)
      else let (d, fpv) = frac_times_ten fpv
           in case put_at cpend (ucast d) cbuf of
                None \<Rightarrow> None
              | Some cbuf \<Rightarrow> dolfptoa_frac dec fpv (cpend + 1) cbuf)"

text \<open>Adding the carry to the digits before \<^verbatim>\<open>tp\<close>; the loop ends when \<open>dec\<close>, which is the index of \<^verbatim>\<open>tp\<close>, is 0.\<close>

fun dolfptoa_round :: "nat \<Rightarrow> bool \<Rightarrow> u_char list \<Rightarrow> (nat \<times> u_char list) option" where
  "dolfptoa_round 0 carry cbuf = Some (0, cbuf)"
| "dolfptoa_round (Suc tp) carry cbuf =
     (if \<not> carry then Some (Suc tp, cbuf)
      else case get_at tp cbuf of
             None \<Rightarrow> None
           | Some d \<Rightarrow>
               if d + 1 = 10 then dolfptoa_round tp True (cbuf[tp := 0])
               else dolfptoa_round tp False (cbuf[tp := d + 1]))"

function skip_zeros :: "nat \<Rightarrow> nat \<Rightarrow> u_char list \<Rightarrow> nat option" where
  "skip_zeros cp cpdec cbuf =
     (if cp < cpdec
      then (case get_at cp cbuf of None \<Rightarrow> None | Some d \<Rightarrow> if d = 0 then skip_zeros (cp + 1) cpdec cbuf else Some cp)
      else Some cp)"
  by pat_completeness auto
termination
  by (relation "measure (\<lambda>(cp, cpdec, _). cpdec - cp)") auto

declare skip_zeros.simps [simp del]

text \<open>The digits from \<^verbatim>\<open>cp\<close> to \<^verbatim>\<open>cpend\<close> as characters, with the point before \<^verbatim>\<open>cpdec\<close>.\<close>

function write_digits :: "nat \<Rightarrow> nat \<Rightarrow> nat \<Rightarrow> u_char list \<Rightarrow> string option" where
  "write_digits cp cpdec cpend cbuf =
     (if cp < cpend
      then (case get_at cp cbuf of
              None \<Rightarrow> None
            | Some d \<Rightarrow>
                (case write_digits (cp + 1) cpdec cpend cbuf of
                   None \<Rightarrow> None
                 | Some s \<Rightarrow> Some ((if cp = cpdec then [CHR ''.''] else []) @ [char_of (unat d + 48)] @ s)))
      else Some [])"
  by pat_completeness auto
termination
  by (relation "measure (\<lambda>(cp, _, cpend, _). cpend - cp)") auto

declare write_digits.simps [simp del]

definition dolfptoa :: "u_int32 \<Rightarrow> u_int32 \<Rightarrow> bool \<Rightarrow> int \<Rightarrow> bool \<Rightarrow> string option" where
  "dolfptoa fpi fpv neg ndec msec =
     (let cbuf = replicate 24 0
      in case dolfptoa_int 10 fpi 10 cbuf of
           None \<Rightarrow> None
         | Some (cp, cbuf) \<Rightarrow>
             let dec = (if ndec < 0 then 0 else ndec);
                 dec = (if msec then dec + 3 else dec);
                 cpdec = (if msec then 10 + 3 else 10);
                 dec = (if dec > 24 - 10 then 24 - 10 else dec)
             in case dolfptoa_frac (nat dec) fpv 10 cbuf of
                  None \<Rightarrow> None
                | Some (dec, fpv, cpend, cbuf) \<Rightarrow>
                    case (if dec > 0 then Some (cp, cpend + dec, cbuf)
                          else case dolfptoa_round cpend (fpv AND 0x80000000 \<noteq> 0) cbuf of
                                 None \<Rightarrow> None
                               | Some (tp, cbuf) \<Rightarrow> Some (if tp < cp then tp else cp, cpend, cbuf)) of
                      None \<Rightarrow> None
                    | Some (cp, cpend, cbuf) \<Rightarrow>
                        case skip_zeros cp cpdec cbuf of
                          None \<Rightarrow> None
                        | Some cp \<Rightarrow>
                            let cp = (if cp \<ge> cpdec then cpdec - 1 else cp)
                            in case write_digits cp cpdec cpend cbuf of
                                 None \<Rightarrow> None
                               | Some s \<Rightarrow> Some ((if neg then [CHR ''-''] else []) @ s))"

definition mfptoa :: "u_int32 \<Rightarrow> u_int32 \<Rightarrow> int \<Rightarrow> string option" where
  "mfptoa fpi fpf ndec =
     (let isneg = M_ISNEG fpi;
          (fpi, fpf) = (if isneg then M_NEG fpi fpf else (fpi, fpf))
      in dolfptoa fpi fpf isneg ndec False)"

definition mfptoms :: "u_int32 \<Rightarrow> u_int32 \<Rightarrow> int \<Rightarrow> string option" where
  "mfptoms fpi fpf ndec =
     (let isneg = M_ISNEG fpi;
          (fpi, fpf) = (if isneg then M_NEG fpi fpf else (fpi, fpf))
      in dolfptoa fpi fpf isneg ndec True)"

section \<open>Writing 32-bit fixed-point numbers\<close>

function dofptoa_int :: "u_short \<Rightarrow> nat \<Rightarrow> u_char list \<Rightarrow> (nat \<times> u_char list) option" where
  "dofptoa_int sv cp cbuf =
     (let tmp = sv;
          sv = sv div 10
      in case put_before cp (ucast (tmp - (push_bit 3 sv + push_bit 1 sv))) cbuf of
           None \<Rightarrow> None
         | Some cbuf \<Rightarrow> if sv \<noteq> 0 then dofptoa_int sv (cp - 1) cbuf else Some (cp - 1, cbuf))"
  by pat_completeness auto
termination
  by (relation "measure (\<lambda>(_, cp, _). cp)") (auto simp: put_before_def split: if_splits)

declare dofptoa_int.simps [simp del]

fun dofptoa_frac :: "nat \<Rightarrow> u_int64 \<Rightarrow> nat \<Rightarrow> u_char list \<Rightarrow> (u_int64 \<times> nat \<times> u_char list) option" where
  "dofptoa_frac 0 val cpend cbuf = Some (val, cpend, cbuf)"
| "dofptoa_frac (Suc dec) val cpend cbuf =
     (let val = val AND 0xffff;
          val = push_bit 3 val + push_bit 1 val
      in case put_at cpend (ucast (drop_bit 16 val)) cbuf of
           None \<Rightarrow> None
         | Some cbuf \<Rightarrow> dofptoa_frac dec val (cpend + 1) cbuf)"

text \<open>Add one to the digit before \<^verbatim>\<open>tp\<close> and carry.\<close>

fun dofptoa_round :: "nat \<Rightarrow> u_char list \<Rightarrow> u_char list option" where
  "dofptoa_round 0 cbuf = None"
| "dofptoa_round (Suc tp) cbuf =
     (case get_at tp cbuf of
        None \<Rightarrow> None
      | Some d \<Rightarrow> if d + 1 \<ge> 10 then dofptoa_round tp (cbuf[tp := 0]) else Some (cbuf[tp := d + 1]))"

definition s16 :: "int \<Rightarrow> int" where
  "s16 x = (x + 32768) mod 65536 - 32768"

definition dofptoa :: "u_int32 \<Rightarrow> bool \<Rightarrow> int \<Rightarrow> bool \<Rightarrow> string option" where
  "dofptoa fpv neg ndec msec =
     (let cbuf = replicate 12 0;
          val = ucast fpv :: u_int64
      in case (if val AND 0xffff0000 = 0 then Some (4, cbuf) else dofptoa_int (ucast (drop_bit 16 val)) 5 cbuf) of
           None \<Rightarrow> None
         | Some (cp, cbuf) \<Rightarrow>
             let dec = (if msec then (if s16 (ndec + 3) < 3 then 3 else s16 (ndec + 3)) else ndec);
                 cpdec = (if msec then 8 else 5);
                 dec = (if dec > 6 then 6 else dec)
             in case (if dec > 0 then dofptoa_frac (nat dec) val 5 cbuf else Some (val, 5, cbuf)) of
                  None \<Rightarrow> None
                | Some (val, cpend, cbuf) \<Rightarrow>
                    case (if val AND 0x8000 \<noteq> 0 then dofptoa_round cpend cbuf else Some cbuf) of
                      None \<Rightarrow> None
                    | Some cbuf \<Rightarrow>
                        case skip_zeros cp (cpdec - 1) cbuf of
                          None \<Rightarrow> None
                        | Some cp \<Rightarrow>
                            case write_digits cp cpdec cpend cbuf of
                              None \<Rightarrow> None
                            | Some s \<Rightarrow> Some ((if neg then [CHR ''-''] else []) @ s))"

definition fptoa :: "int \<Rightarrow> int \<Rightarrow> string option" where
  "fptoa fpv ndec =
     (let neg = fpv < 0;
          plusfp = (if neg then word_of_int (s32 (- fpv)) else word_of_int fpv)
      in dofptoa plusfp neg ndec False)"

definition fptoms :: "int \<Rightarrow> int \<Rightarrow> string option" where
  "fptoms fpv ndec =
     (let neg = fpv < 0;
          plusfp = (if neg then word_of_int (s32 (- fpv)) else word_of_int fpv)
      in dofptoa plusfp neg ndec True)"

section \<open>Writing times\<close>

text \<open>\<^verbatim>\<open>fraclimit\<close>, ten to the power \<^verbatim>\<open>prec_u\<close>, at least 10; the assertion on its overflow is checked in debugging
  builds.\<close>

fun fraclimit :: "nat \<Rightarrow> int" where
  "fraclimit 0 = 10"
| "fraclimit (Suc n) = (if n = 0 then 10 else s64 (fraclimit n * 10))"

definition format_time_fraction :: "int \<Rightarrow> int \<Rightarrow> int \<Rightarrow> string" where
  "format_time_fraction secs frac prec =
     (let secs_u = word_of_int secs :: u_int64;
          notneg = prec < 0;
          prec_u = nat \<bar>prec\<bar>;
          lim = fraclimit prec_u;
          (secs_u, frac) =
            (if frac < 0 \<or> frac \<ge> lim
             then let (quot, rem) = (frac sdiv lim, frac smod lim);
                      (quot, rem) = (if rem < 0 then (s64 (quot - 1), rem + lim) else (quot, rem))
                  in (secs_u + word_of_int quot, rem)
             else (secs_u, frac));
          notneg = (notneg \<or> sint secs_u \<ge> 0);
          (secs_u, frac) =
            (if notneg then (secs_u, frac)
             else if frac = 0 then (NOT secs_u + 1, frac) else (NOT secs_u, lim - frac))
      in (if notneg then [] else [CHR ''-'']) @ show_dec (unat secs_u) @ [CHR ''.''] @
         map dchar (pad0 prec_u (dec_digits (nat frac))))"

section \<open>The writers on lists of digits\<close>

text \<open>A buffer holds digits: its bytes are the images of numbers below ten.\<close>

definition dbuf :: "nat list \<Rightarrow> u_char list" where
  "dbuf ds = map of_nat ds"

definition isdigits :: "nat list \<Rightarrow> bool" where
  "isdigits ds \<longleftrightarrow> (\<forall>d \<in> set ds. d < 10)"

lemma isdigits_simps [simp]:
  "isdigits []" "isdigits (d # ds) \<longleftrightarrow> d < 10 \<and> isdigits ds" "isdigits (xs @ ys) \<longleftrightarrow> isdigits xs \<and> isdigits ys"
  "isdigits (replicate n 0)" "isdigits (dec_digits n)"
  by (auto simp: isdigits_def dec_digits_less)

lemma isdigits_take: "isdigits ds \<Longrightarrow> isdigits (take n ds)" "isdigits ds \<Longrightarrow> isdigits (drop n ds)"
  by (auto simp: isdigits_def dest: in_set_takeD in_set_dropD)

lemma isdigits_nth: "isdigits ds \<Longrightarrow> i < length ds \<Longrightarrow> ds ! i < 10"
  by (simp add: isdigits_def)

lemma isdigits_upd: "isdigits ds \<Longrightarrow> d < 10 \<Longrightarrow> isdigits (ds[i := d])"
  by (auto simp: isdigits_def dest: set_update_subset_insert [THEN subsetD])

lemma dbuf_simps [simp]:
  "length (dbuf ds) = length ds" "dbuf (xs @ ys) = dbuf xs @ dbuf ys" "dbuf (replicate n 0) = replicate n 0" "dbuf [] = []"
  "(dbuf ds)[i := of_nat d] = dbuf (ds[i := d])"
  by (simp_all add: dbuf_def map_update)

lemma get_at_dbuf [simp]: "get_at i (dbuf ds) = (if i < length ds then Some (of_nat (ds ! i)) else None)"
  by (simp add: get_at_def dbuf_def)

lemma put_before_at: "put_before (length xs + 1) (of_nat d) (dbuf (xs @ y # zs)) = Some (dbuf (xs @ d # zs))"
  by (simp add: put_before_def put_at_def dbuf_def list_update_append)

lemma of_nat_small_eq: "i < 256 \<Longrightarrow> j < 256 \<Longrightarrow> (of_nat i :: u_char) = of_nat j \<longleftrightarrow> i = j"
  by (simp add: word_uint_eq_iff unsigned_of_nat take_bit_nat_eq_self)

section \<open>Integral digits\<close>

definition dec_digits0 :: "nat \<Rightarrow> nat list" where
  "dec_digits0 n = (if n = 0 then [] else dec_digits n)"

lemma dec_digits0_step: "n \<noteq> 0 \<Longrightarrow> dec_digits0 n = dec_digits0 (n div 10) @ [n mod 10]"
  unfolding dec_digits0_def by (subst dec_digits.simps) auto

lemma num_dec_digits0 [simp]: "num 10 (dec_digits0 n) = n"
  by (simp add: dec_digits0_def)

lemma isdigits_dec_digits0 [simp]: "isdigits (dec_digits0 n)"
  by (simp add: dec_digits0_def)

lemma length_dec_digits0: "n < 10 ^ k \<Longrightarrow> length (dec_digits0 n) \<le> k"
proof (induction k arbitrary: n)
  case (Suc k)
  then show ?case
    using dec_digits0_step [of n] by (cases "n = 0") (auto simp: dec_digits0_def)
qed (simp add: dec_digits0_def)

lemma digit_split32: "(fpi :: u_int32) - (push_bit 3 (fpi div 10) + fpi div 10 * 2) = of_nat (unat fpi mod 10)"
proof -
  have "push_bit 3 (fpi div 10) + fpi div 10 * 2 = 10 * (fpi div 10)"
    by (simp add: push_bit_eq_mult)
  then have "fpi - (push_bit 3 (fpi div 10) + fpi div 10 * 2) = fpi mod 10"
    by (simp add: minus_mult_div_eq_mod)
  then show ?thesis by (simp add: word_arith_nat_mod)
qed

lemma dolfptoa_int_0 [simp]: "dolfptoa_int dec 0 cp cbuf = Some (cp, cbuf)"
  by (cases dec) simp_all

lemma dolfptoa_int_eq:
  assumes "unat fpi < 10 ^ dec" "dec = length xs" "isdigits xs"
  shows "\<exists>c. dolfptoa_int dec fpi dec (dbuf (xs @ ys)) = Some (c, dbuf (take c xs @ dec_digits0 (unat fpi) @ ys)) \<and>
    c + length (dec_digits0 (unat fpi)) = dec"
  using assms
proof (induction dec arbitrary: fpi xs ys)
  case 0
  then show ?case by (simp add: dec_digits0_def)
next
  case (Suc dec)
  show ?case
  proof (cases "fpi = 0")
    case True
    then show ?thesis using Suc.prems by (simp add: dec_digits0_def)
  next
    case False
    obtain zs z where xs: "xs = zs @ [z]" "length zs = dec" "isdigits zs"
      using Suc.prems by (cases xs rule: rev_cases) auto
    have q: "unat (fpi div 10) = unat fpi div 10" by (simp add: unat_div)
    have u: "(ucast (of_nat (unat fpi mod 10) :: u_int32) :: u_char) = of_nat (unat fpi mod 10)"
      by (simp add: word_uint_eq_iff unsigned_of_nat unsigned_ucast_eq take_bit_nat_eq_self)
    have "unat (fpi div 10) < 10 ^ dec" using Suc.prems(1) q by simp
    from Suc.IH [OF this, of zs "unat fpi mod 10 # ys"] xs obtain c where
      c: "dolfptoa_int dec (fpi div 10) dec (dbuf (zs @ unat fpi mod 10 # ys)) =
        Some (c, dbuf (take c zs @ dec_digits0 (unat fpi div 10) @ unat fpi mod 10 # ys))"
        "c + length (dec_digits0 (unat fpi div 10)) = dec" using q by auto
    have "put_before (Suc dec) (of_nat (unat fpi mod 10)) (dbuf (xs @ ys)) = Some (dbuf (zs @ unat fpi mod 10 # ys))"
      using put_before_at [of zs "unat fpi mod 10" z ys] xs by simp
    then show ?thesis
      using False c xs dec_digits0_step [of "unat fpi"] u
      by (intro exI [of _ c]) (simp add: Let_def digit_split32 unat_eq_0)
  qed
qed

section \<open>Fractional digits\<close>

lemma unat32_less: "unat (x :: u_int32) < 4294967296"
  using unsigned_less [of x] by simp

lemma unat_cat64: "unat (word_cat (h :: u_int32) (l :: u_int32) :: u_int64) = unat h * 4294967296 + unat l"
proof -
  have "int (unat (word_cat h l :: u_int64)) = int (unat h * 4294967296 + unat l)"
    using uint_cat64 [of h l] by simp
  then show ?thesis by (simp only: of_nat_eq_iff)
qed

lemma dbuf_Cons: "dbuf (d # ds) = of_nat d # dbuf ds"
  by (simp add: dbuf_def)

lemma frac_times_ten_cat: "word_cat (fst (frac_times_ten f)) (snd (frac_times_ten f)) = (10 * ucast f :: u_int64)"
proof -
  have l: "word_cat d' f' = (push_bit 1 (word_cat d f) :: u_int64)" if "M_LSHIFT d f = (d', f')" for d f d' f'
    using M_LSHIFT_cat [of d f] that by simp
  show ?thesis
    using M_ADD_cat l
    by (auto simp: frac_times_ten_def Let_def cat_zero split: prod.splits)
qed

lemma frac_times_ten_eq:
  "frac_times_ten f = (of_nat (10 * unat f div 4294967296), of_nat (10 * unat f mod 4294967296))"
proof -
  obtain d r where dr: "frac_times_ten f = (d, r)" by (cases "frac_times_ten f")
  have "unat (10 * ucast f :: u_int64) = 10 * unat f"
    using unat32_less [of f] by (simp add: unat_word_ariths unsigned_ucast_eq take_bit_nat_eq_self)
  then have e: "10 * unat f = unat d * 4294967296 + unat r"
    using arg_cong [OF frac_times_ten_cat [of f], of unat] dr by (simp add: unat_cat64)
  have "unat r < 4294967296" by (rule unat32_less)
  then have "unat d = 10 * unat f div 4294967296" "unat r = 10 * unat f mod 4294967296" unfolding e by simp_all
  then show ?thesis using dr by (simp flip: \<open>unat d = _\<close> \<open>unat r = _\<close>)
qed

text \<open>The first \<open>k\<close> decimal places of a fraction of \<open>2 ^ w\<close> parts, and what is left.\<close>

fun frac_digits :: "nat \<Rightarrow> nat \<Rightarrow> nat \<Rightarrow> nat list" where
  "frac_digits m 0 f = []"
| "frac_digits m (Suc k) f = (10 * f div m) # frac_digits m k (10 * f mod m)"

lemma length_frac_digits [simp]: "length (frac_digits m k f) = k"
  by (induction k arbitrary: f) simp_all

lemma frac_digits_0 [simp]: "frac_digits m k 0 = replicate k 0"
  by (induction k) simp_all

lemma isdigits_frac_digits: "f < m \<Longrightarrow> isdigits (frac_digits m k f)"
proof (induction k arbitrary: f)
  case (Suc k)
  then have "10 * f div m < 10" by (simp add: div_less_iff_less_mult)
  moreover have "10 * f mod m < m" using Suc.prems by simp
  ultimately show ?case using Suc.IH by simp
qed simp

lemma num_frac_digits: "f < m \<Longrightarrow> num 10 (frac_digits m k f) = f * 10 ^ k div m"
proof (induction k arbitrary: f)
  case (Suc k)
  let ?q = "10 * f div m" and ?r = "10 * f mod m"
  have "?r < m" using Suc.prems by simp
  then have "num 10 (frac_digits m (Suc k) f) = ?q * 10 ^ k + ?r * 10 ^ k div m"
    using Suc.IH num_from_split [of 10 ?q "frac_digits m k ?r"] by simp
  also have "\<dots> = (m * (?q * 10 ^ k) + ?r * 10 ^ k) div m" using Suc.prems by simp
  also have "m * (?q * 10 ^ k) + ?r * 10 ^ k = (m * ?q + ?r) * 10 ^ k" by (simp only: distrib_right mult.assoc)
  also have "m * ?q + ?r = 10 * f" by simp
  finally show ?case by (simp add: mult.assoc mult.left_commute)
qed simp

lemma dolfptoa_frac_0 [simp]: "dolfptoa_frac dec 0 cpend cbuf = Some (dec, 0, cpend, cbuf)"
  by (cases dec) simp_all

lemma unat_ucast_digit: "d < 10 \<Longrightarrow> (ucast (of_nat d :: u_int32) :: u_char) = of_nat d"
  by (simp add: word_uint_eq_iff unsigned_of_nat unsigned_ucast_eq take_bit_nat_eq_self)

lemma dolfptoa_frac_eq:
  "\<exists>dec' fpv' n. dolfptoa_frac dec fpv (length xs) (dbuf (xs @ replicate (dec + m) 0)) =
     Some (dec', fpv', n, dbuf (xs @ frac_digits 4294967296 dec (unat fpv) @ replicate m 0)) \<and>
     n + dec' = length xs + dec \<and> unat fpv' = unat fpv * 10 ^ dec mod 4294967296 \<and> (dec' > 0 \<longrightarrow> fpv' = 0)"
proof (induction dec arbitrary: fpv xs)
  case 0
  show ?case using unat32_less [of fpv] by simp
next
  case (Suc dec)
  show ?case
  proof (cases "fpv = 0")
    case True
    then show ?thesis by (simp add: dbuf_Cons replicate_add)
  next
    case False
    define d r where "d = 10 * unat fpv div 4294967296" and "r = 10 * unat fpv mod 4294967296"
    have d: "d < 10" using unat32_less [of fpv] by (simp add: d_def div_less_iff_less_mult)
    have r: "unat (of_nat r :: u_int32) = r" by (simp add: r_def unsigned_of_nat take_bit_nat_eq_self)
    have p: "put_at (length xs) (of_nat d) (dbuf (xs @ replicate (Suc dec + m) 0)) = Some (dbuf ((xs @ [d]) @ replicate (dec + m) 0))"
      by (simp add: put_at_def dbuf_def list_update_append)
    obtain dec' fpv' n where IH: "dolfptoa_frac dec (of_nat r) (length (xs @ [d])) (dbuf ((xs @ [d]) @ replicate (dec + m) 0)) =
       Some (dec', fpv', n, dbuf ((xs @ [d]) @ frac_digits 4294967296 dec r @ replicate m 0))"
      "n + dec' = length (xs @ [d]) + dec" "unat fpv' = r * 10 ^ dec mod 4294967296" "dec' > 0 \<longrightarrow> fpv' = 0"
      using Suc.IH [of "of_nat r" "xs @ [d]"] unfolding r by blast
    have "r * 10 ^ dec mod 4294967296 = 10 * unat fpv * 10 ^ dec mod 4294967296"
      unfolding r_def by (rule mod_mult_left_eq)
    then have m: "unat fpv' = unat fpv * 10 ^ Suc dec mod 4294967296" using IH(3) by (simp add: ac_simps)
    have "dolfptoa_frac (Suc dec) fpv (length xs) (dbuf (xs @ replicate (Suc dec + m) 0)) =
        dolfptoa_frac dec (of_nat r) (length (xs @ [d])) (dbuf ((xs @ [d]) @ replicate (dec + m) 0))"
      using False p unfolding dolfptoa_frac.simps frac_times_ten_eq d_def [symmetric] r_def [symmetric]
      by (simp add: unat_ucast_digit [OF d])
    moreover have "frac_digits 4294967296 (Suc dec) (unat fpv) = d # frac_digits 4294967296 dec r"
      by (simp only: frac_digits.simps d_def r_def)
    ultimately show ?thesis using IH m by (intro exI [of _ dec'] exI [of _ fpv'] exI [of _ n]) simp
  qed
qed

section \<open>Rounding and output\<close>

lemma dolfptoa_round_False [simp]: "dolfptoa_round n False cbuf = Some (n, cbuf)"
  by (cases n) simp_all

lemma of_nat_digit_eq: "d < 10 \<Longrightarrow> (of_nat d + 1 :: u_char) = 10 \<longleftrightarrow> d = 9"
  using of_nat_small_eq [of "d + 1" 10] by auto

lemma take_Suc_upd: "n < length ds \<Longrightarrow> take (Suc n) (ds[n := d]) = take n ds @ [d]"
  by (simp add: take_Suc_conv_app_nth)

lemma dolfptoa_round_eq:
  assumes "n \<le> length ds" "isdigits ds" "carry \<longrightarrow> num 10 (take n ds) + 1 < 10 ^ n"
  shows "\<exists>tp ds'. dolfptoa_round n carry (dbuf ds) = Some (tp, dbuf ds') \<and> isdigits ds' \<and> length ds' = length ds \<and>
    drop n ds' = drop n ds \<and> tp \<le> n \<and> take tp ds' = take tp ds \<and> num 10 (take n ds') = num 10 (take n ds) + of_bool carry"
proof (cases carry)
  case True
  then have "num 10 (take n ds) + 1 < 10 ^ n" using assms(3) by simp
  with assms(1,2) have "\<exists>tp ds'. dolfptoa_round n True (dbuf ds) = Some (tp, dbuf ds') \<and> isdigits ds' \<and> length ds' = length ds \<and>
    drop n ds' = drop n ds \<and> tp \<le> n \<and> take tp ds' = take tp ds \<and> num 10 (take n ds') = num 10 (take n ds) + 1"
  proof (induction n arbitrary: ds)
    case (Suc n)
    have n: "n < length ds" "ds ! n < 10" using Suc.prems isdigits_nth by auto
    have t: "num 10 (take (Suc n) ds) = 10 * num 10 (take n ds) + ds ! n" using n by (simp add: take_Suc_conv_app_nth)
    show ?case
    proof (cases "ds ! n = 9")
      case True
      let ?ds = "ds[n := 0]"
      have "num 10 (take n ?ds) + 1 < 10 ^ n" "isdigits ?ds"
        using Suc.prems(2,3) t True by (auto intro: isdigits_upd)
      from Suc.IH [OF _ this(2,1)] n obtain tp ds' where
        IH: "dolfptoa_round n True (dbuf ?ds) = Some (tp, dbuf ds')" "isdigits ds'" "length ds' = length ds"
          "drop n ds' = drop n ?ds" "tp \<le> n" "take tp ds' = take tp ?ds" "num 10 (take n ds') = num 10 (take n ?ds) + 1"
        by auto
      have "drop n ds' = 0 # drop (Suc n) ds" using IH(4) n by (simp add: Cons_nth_drop_Suc [symmetric])
      then have z: "ds' ! n = 0" "drop (Suc n) ds' = drop (Suc n) ds"
        using n IH(3) by (auto simp: Cons_nth_drop_Suc [symmetric])
      have "num 10 (take (Suc n) ds') = num 10 (take (Suc n) ds) + 1"
        using t True IH(3,7) n z(1) by (simp add: take_Suc_conv_app_nth)
      moreover have "dolfptoa_round (Suc n) True (dbuf ds) = dolfptoa_round n True (dbuf ?ds)"
        using n True of_nat_digit_eq [of 9] dbuf_simps(5) [of ds n 0] by simp
      ultimately show ?thesis using IH z by (intro exI [of _ tp] exI [of _ ds']) simp
    next
      case False
      let ?ds = "ds[n := ds ! n + 1]"
      have "dolfptoa_round (Suc n) True (dbuf ds) = Some (n, dbuf ?ds)"
        using n False of_nat_digit_eq [of "ds ! n"] dbuf_simps(5) [of ds n "ds ! n + 1"] by (simp add: add.commute)
      moreover have "num 10 (take (Suc n) ?ds) = num 10 (take (Suc n) ds) + 1" unfolding take_Suc_upd [OF n(1)] t by simp
      moreover have "isdigits ?ds" using Suc.prems(2) n False by (intro isdigits_upd) auto
      ultimately show ?thesis by (intro exI [of _ n] exI [of _ ?ds]) simp
    qed
  qed simp
  then show ?thesis using True by simp
next
  case False
  then show ?thesis using assms by (intro exI [of _ n] exI [of _ ds]) simp
qed

lemma of_nat_digit_0: "d < 10 \<Longrightarrow> (of_nat d :: u_char) = 0 \<longleftrightarrow> d = 0"
  using of_nat_small_eq [of d 0] by simp

lemma skip_zeros_eq:
  assumes "cp \<le> m" "m \<le> length ds" "isdigits ds"
  shows "skip_zeros cp m (dbuf ds) = Some (cp + length (takeWhile (\<lambda>d. d = 0) (drop cp (take m ds))))"
  using assms
proof (induction "m - cp" arbitrary: cp)
  case 0
  then show ?case by (subst skip_zeros.simps) simp
next
  case (Suc k)
  then have "cp < m" "cp < length ds" by simp_all
  moreover from this have "drop cp (take m ds) = ds ! cp # drop (Suc cp) (take m ds)"
    by (simp add: Cons_nth_drop_Suc [symmetric])
  ultimately show ?case
    using Suc of_nat_digit_0 [OF isdigits_nth [OF Suc.prems(3)], of cp] by (subst skip_zeros.simps) auto
qed

lemma char_of_digit: "d < 10 \<Longrightarrow> char_of (unat (of_nat d :: u_char) + 48) = dchar d"
  by (simp add: dchar_def unsigned_of_nat take_bit_nat_eq_self add.commute)

lemma write_digits_end:
  assumes "cpdec < cp" "cp \<le> cpend" "cpend \<le> length ds" "isdigits ds"
  shows "write_digits cp cpdec cpend (dbuf ds) = Some (map dchar (drop cp (take cpend ds)))"
  using assms
proof (induction "cpend - cp" arbitrary: cp)
  case 0
  then show ?case by (subst write_digits.simps) simp
next
  case (Suc k)
  then have "cp < cpend" "cp < length ds" by simp_all
  moreover from this have "drop cp (take cpend ds) = ds ! cp # drop (Suc cp) (take cpend ds)"
    by (simp add: Cons_nth_drop_Suc [symmetric])
  ultimately show ?case
    using Suc char_of_digit [OF isdigits_nth [OF Suc.prems(4)], of cp] by (subst write_digits.simps) auto
qed

lemma write_digits_eq:
  assumes "cp \<le> cpdec" "cpdec \<le> cpend" "cpend \<le> length ds" "isdigits ds"
  shows "write_digits cp cpdec cpend (dbuf ds) =
    Some (map dchar (drop cp (take cpdec ds)) @ (if cpdec < cpend then CHR ''.'' # map dchar (drop cpdec (take cpend ds)) else []))"
  using assms
proof (induction "cpdec - cp" arbitrary: cp)
  case 0
  then have cp: "cp = cpdec" by simp
  show ?case
  proof (cases "cpdec < cpend")
    case True
    then have "drop cp (take cpend ds) = ds ! cp # drop (Suc cp) (take cpend ds)"
      using 0 cp by (simp add: Cons_nth_drop_Suc [symmetric])
    then show ?thesis
      using True 0 cp write_digits_end [of cpdec "Suc cpdec" cpend ds] char_of_digit [OF isdigits_nth [OF 0(5)], of cp]
      by (subst write_digits.simps) auto
  next
    case False
    then show ?thesis using 0 cp by (subst write_digits.simps) auto
  qed
next
  case (Suc k)
  then have "cp < cpend" "cp < cpdec" "cp < length ds" by simp_all
  moreover from this have "drop cp (take cpdec ds) = ds ! cp # drop (Suc cp) (take cpdec ds)"
    by (simp add: Cons_nth_drop_Suc [symmetric])
  ultimately show ?case
    using Suc char_of_digit [OF isdigits_nth [OF Suc.prems(4)], of cp] by (subst write_digits.simps) auto
qed

lemma fixed_point_digits:
  assumes "is \<noteq> []" "isdigits (is @ fs)"
  shows "map dchar (if list_all (\<lambda>d. d = 0) is then [0] else dropWhile (\<lambda>d. d = 0) is) @
    (if fs \<noteq> [] then CHR ''.'' # map dchar fs else []) = fixed_point (length fs) (num 10 (is @ fs))"
proof -
  have s: "num 10 (is @ fs) = num 10 is * 10 ^ length fs + num 10 fs" using num_from_split [of 10 "num 10 is" fs] by simp
  have l: "num 10 fs < 10 ^ length fs" using assms(2) by (intro num_less) (simp add: isdigits_def)
  have "num 10 (is @ fs) div 10 ^ length fs = num 10 is" "num 10 (is @ fs) mod 10 ^ length fs = num 10 fs"
    unfolding s using l by simp_all
  then show ?thesis
    using strip_zeros [of "is"] pad0_digits [of fs] assms unfolding fixed_point_def show_dec_def
    by (simp add: isdigits_def)
qed

lemma dropWhile_zeros:
  assumes "\<forall>i < c. xs ! i = 0" "c \<le> length xs"
  shows "dropWhile (\<lambda>d. d = 0) (drop c xs) = dropWhile (\<lambda>d. d = (0 :: nat)) xs"
    and "list_all (\<lambda>d. d = 0) (drop c xs) \<longleftrightarrow> list_all (\<lambda>d. d = (0 :: nat)) xs"
proof -
  have "take c xs = replicate c 0" using assms by (intro nth_equalityI) auto
  then have xs: "xs = replicate c 0 @ drop c xs" by (metis append_take_drop_id)
  show "dropWhile (\<lambda>d. d = 0) (drop c xs) = dropWhile (\<lambda>d. d = 0) xs" 
    by (subst (2) xs) (simp add: dropWhile_append)
  show "list_all (\<lambda>d. d = 0) (drop c xs) \<longleftrightarrow> list_all (\<lambda>d. d = 0) xs" 
    by (subst (2) xs) (auto simp: list_all_iff)
qed

lemma drop_takeWhile: "drop (length (takeWhile P xs)) xs = dropWhile P xs"
  by (metis dropWhile_eq_drop)

lemma print_digits:
  assumes "isdigits ds" "\<forall>i < cp. ds ! i = 0" "cp \<le> cpdec" "1 \<le> cpdec" "cpdec \<le> cpend" "cpend \<le> length ds"
  shows "\<exists>s. skip_zeros cp cpdec (dbuf ds) = Some s \<and>
    write_digits (if s \<ge> cpdec then cpdec - 1 else s) cpdec cpend (dbuf ds) = Some (fixed_point (cpend - cpdec) (num 10 (take cpend ds)))"
proof -
  let ?z = "\<lambda>d :: nat. d = 0"
  define I F where "I = take cpdec ds" and "F = drop cpdec (take cpend ds)"
  have IF: "take cpend ds = I @ F" using assms by (simp add: I_def F_def flip: take_add) (metis le_add_diff_inverse take_add drop_take)
  have l: "length I = cpdec" "length F = cpend - cpdec" using assms by (simp_all add: I_def F_def)
  define s where "s = cp + length (takeWhile ?z (drop cp I))"
  have sk: "skip_zeros cp cpdec (dbuf ds) = Some s" using assms by (simp add: skip_zeros_eq s_def I_def)
  have z: "dropWhile ?z (drop cp I) = dropWhile ?z I" "list_all ?z (drop cp I) = list_all ?z I"
    using dropWhile_zeros [of cp I] assms l by (simp_all add: I_def)
  have d: "drop (if s \<ge> cpdec then cpdec - 1 else s) I = (if list_all ?z I then [0] else dropWhile ?z I)"
  proof (cases "list_all ?z I")
    case True
    then have "takeWhile ?z (drop cp I) = drop cp I" using z(2) by (simp add: takeWhile_eq_all_conv list_all_iff)
    then have s: "s = cpdec" unfolding s_def using assms(3) l(1) by (simp only: length_drop le_add_diff_inverse)
    have "drop (cpdec - 1) I = [I ! (cpdec - 1)]" using assms(4) l by (simp add: Cons_nth_drop_Suc [symmetric])
    moreover have "I ! (cpdec - 1) = 0" using True assms(4) l by (auto simp: list_all_length)
    ultimately show ?thesis using True s by simp
  next
    case False
    then have "length (takeWhile ?z (drop cp I)) < length (drop cp I)"
      using z(2) by (metis takeWhile_eq_all_conv list_all_iff length_takeWhile_le nat_less_le takeWhile_dropWhile_id append_eq_conv_conj take_all_iff)
    then have "s < cpdec" using l assms(3) by (simp add: s_def)
    moreover have "drop s I = dropWhile ?z I" unfolding s_def using z(1) drop_takeWhile [of ?z "drop cp I"] by (simp add: add.commute)
    ultimately show ?thesis using False by simp
  qed
  have "write_digits (if s \<ge> cpdec then cpdec - 1 else s) cpdec cpend (dbuf ds) =
      Some (map dchar (drop (if s \<ge> cpdec then cpdec - 1 else s) I) @ (if cpdec < cpend then CHR ''.'' # map dchar F else []))"
    using assms by (subst write_digits_eq) (auto simp: I_def F_def)
  moreover have "cpdec < cpend \<longleftrightarrow> F \<noteq> []" using l(2) by (cases F) auto
  moreover have "isdigits (I @ F)" using assms(1) by (simp flip: IF add: isdigits_take)
  moreover have "I \<noteq> []" using l assms(4) by auto
  ultimately show ?thesis
    using sk fixed_point_digits [of I F] by (simp only: d l IF) auto
qed

section \<open>The decimal value of a stamp\<close>

text \<open>A number of \<open>m\<close>-th parts rounded to \<open>k\<close> decimal places, half up.\<close>

definition round_dec :: "nat \<Rightarrow> nat \<Rightarrow> nat \<Rightarrow> nat" where
  "round_dec m k v = (2 * v * 10 ^ k + m) div (2 * m)"

definition lfp_places :: "int \<Rightarrow> bool \<Rightarrow> nat" where
  "lfp_places ndec msec = min 14 (nat ndec + (if msec then 3 else 0))"

lemma round_dec_carry:
  assumes "f < m" "even m" "0 < m"
  shows "round_dec m k (i * m + f) = i * 10 ^ k + f * 10 ^ k div m + of_bool (m div 2 \<le> f * 10 ^ k mod m)"
proof -
  obtain h where h: "m = 2 * h" using assms(2) by (elim evenE)
  define q r where "q = f * 10 ^ k div m" and "r = f * 10 ^ k mod m"
  have e: "f * 10 ^ k = q * m + r" by (simp add: q_def r_def)
  have r: "r < m" using assms(3) by (simp add: r_def)
  have "2 * (i * m + f) * 10 ^ k + m = (i * 10 ^ k + q) * (2 * m) + (2 * r + m)"
    using e by (simp add: algebra_simps)
  also have "\<dots> div (2 * m) = i * 10 ^ k + q + (2 * r + m) div (2 * m)" using assms(3) by simp
  also have "(2 * r + m) div (2 * m) = of_bool (m div 2 \<le> r)"
  proof (cases "h \<le> r")
    case True
    then have "(2 * r + m) div (2 * m) = 1" using r h by (intro div_nat_eqI) auto
    then show ?thesis using True h by simp
  next
    case False
    then show ?thesis using h by simp
  qed
  finally show ?thesis by (simp add: round_dec_def q_def r_def)
qed

lemma top_bit32: "(x :: u_int32) AND 0x80000000 \<noteq> 0 \<longleftrightarrow> 2147483648 \<le> unat x"
proof -
  have u: "uint x = int (unat x)" by simp
  have "sint x < 0 \<longleftrightarrow> \<not> uint x < 2147483648" 
    using sint_u32_if [of x] uint32_range [of x] by (cases "uint x < 2147483648") simp_all
  also have "\<dots> \<longleftrightarrow> 2147483648 \<le> unat x" using u by linarith
  finally show ?thesis using M_ISNEG_iff [of x] unfolding M_ISNEG_def by simp
qed

text \<open>The buffer of \<^verbatim>\<open>dolfptoa\<close> before the output: its first \<open>10 + k\<close> digits are the rounded value.\<close>

lemma dolfptoa_rounded:
  assumes "k \<le> 14" "fpi < 4294967296" "f < 4294967296" "isdigits A" "length A = 10" "num 10 A = fpi" "\<forall>i < c. A ! i = 0" "c \<le> 10"
  defines "ds \<equiv> A @ frac_digits 4294967296 k f @ replicate (14 - k) 0"
  shows "\<exists>tp ds'. dolfptoa_round (10 + k) (2147483648 \<le> f * 10 ^ k mod 4294967296) (dbuf ds) = Some (tp, dbuf ds') \<and>
    isdigits ds' \<and> length ds' = 24 \<and> num 10 (take (10 + k) ds') = round_dec 4294967296 k (fpi * 4294967296 + f) \<and>
    (\<forall>i < min tp c. ds' ! i = 0)"
    and "\<not> 2147483648 \<le> f * 10 ^ k mod 4294967296 \<Longrightarrow> num 10 (take (10 + k) ds) = round_dec 4294967296 k (fpi * 4294967296 + f)"
    and "isdigits ds" "length ds = 24" "\<forall>i < c. ds ! i = 0"
proof -
  show d: "isdigits ds" "length ds = 24" "\<forall>i < c. ds ! i = 0"
    using assms by (auto simp: ds_def isdigits_frac_digits nth_append)
  have t: "take (10 + k) ds = A @ frac_digits 4294967296 k f" using assms by (simp add: ds_def)
  have n: "num 10 (take (10 + k) ds) = fpi * 10 ^ k + f * 10 ^ k div 4294967296"
    unfolding t using assms num_from_split [of 10 fpi "frac_digits 4294967296 k f"] num_frac_digits [of f 4294967296 k] by simp
  have r: "round_dec 4294967296 k (fpi * 4294967296 + f) =
      num 10 (take (10 + k) ds) + of_bool (2147483648 \<le> f * 10 ^ k mod 4294967296)"
    unfolding n using assms by (subst round_dec_carry) auto
  then show "\<not> 2147483648 \<le> f * 10 ^ k mod 4294967296 \<Longrightarrow> num 10 (take (10 + k) ds) = round_dec 4294967296 k (fpi * 4294967296 + f)"
    by simp
  have "f * 10 ^ k < 4294967296 * 10 ^ k" using assms by simp
  then have "f * 10 ^ k div 4294967296 < 10 ^ k" by (simp add: div_less_iff_less_mult)
  then have "num 10 (take (10 + k) ds) + 1 \<le> (fpi + 1) * 10 ^ k" using n by simp
  also have "\<dots> \<le> 4294967296 * 10 ^ k" using assms by (intro mult_le_mono1) simp
  also have "\<dots> < 10 ^ (10 + k)" by (simp add: power_add)
  finally obtain tp ds' where R: "dolfptoa_round (10 + k) (2147483648 \<le> f * 10 ^ k mod 4294967296) (dbuf ds) = Some (tp, dbuf ds')"
      "isdigits ds'" "length ds' = length ds" "tp \<le> 10 + k" "take tp ds' = take tp ds"
      "num 10 (take (10 + k) ds') = num 10 (take (10 + k) ds) + of_bool (2147483648 \<le> f * 10 ^ k mod 4294967296)"
    using dolfptoa_round_eq [of "10 + k" ds "2147483648 \<le> f * 10 ^ k mod 4294967296"] d assms(1) by auto
  have "\<forall>i < min tp c. ds' ! i = 0"
  proof (intro allI impI)
    fix i
    assume i: "i < min tp c"
    then have "take tp ds' ! i = take tp ds ! i" using R(5) by simp
    then show "ds' ! i = 0" using i d(3) by simp
  qed
  then show "\<exists>tp ds'. dolfptoa_round (10 + k) (2147483648 \<le> f * 10 ^ k mod 4294967296) (dbuf ds) = Some (tp, dbuf ds') \<and>
    isdigits ds' \<and> length ds' = 24 \<and> num 10 (take (10 + k) ds') = round_dec 4294967296 k (fpi * 4294967296 + f) \<and>
    (\<forall>i < min tp c. ds' ! i = 0)"
    using R(1,2,3,6) r d(2) by (intro exI [of _ tp] exI [of _ ds']) simp
qed

lemma dolfptoa_eq:
  "dolfptoa fpi fpv neg ndec msec =
     Some ((if neg then ''-'' else []) @
       fixed_point (lfp_places ndec msec - (if msec then 3 else 0))
         (round_dec 4294967296 (lfp_places ndec msec) (unat fpi * 4294967296 + unat fpv)))"
proof -
  define k cpdec :: nat where "k = lfp_places ndec msec" and "cpdec = (if msec then 13 else 10)"
  define N where "N = round_dec 4294967296 k (unat fpi * 4294967296 + unat fpv)"
  have k: "k \<le> 14" "cpdec \<le> 10 + k" "10 + k - cpdec = k - (if msec then 3 else 0)" "10 \<le> cpdec"
    by (auto simp: k_def cpdec_def lfp_places_def)
  have dec: "nat (let dec = (if ndec < 0 then 0 else ndec); dec = (if msec then dec + 3 else dec)
      in if dec > 24 - 10 then 24 - 10 else dec) = k"
    by (auto simp: k_def lfp_places_def min_def)
  have "unat fpi < 10 ^ 10" using unat32_less [of fpi] by simp
  then obtain c where c: "dolfptoa_int 10 fpi 10 (dbuf (replicate 10 0 @ replicate 14 0)) =
      Some (c, dbuf ((take c (replicate 10 0) @ dec_digits0 (unat fpi)) @ replicate 14 0))"
      "c + length (dec_digits0 (unat fpi)) = 10"
    using dolfptoa_int_eq [of fpi 10 "replicate 10 0" "replicate 14 0"] by auto
  define A where "A = take c (replicate 10 0) @ dec_digits0 (unat fpi)"
  have A: "isdigits A" "length A = 10" "num 10 A = unat fpi" "\<forall>i < c. A ! i = 0" "c \<le> 10"
    using c(2) by (auto simp: A_def nth_append)
  define ds where "ds = A @ frac_digits 4294967296 k (unat fpv) @ replicate (14 - k) 0"
  obtain dec' fpv' n where F: "dolfptoa_frac k fpv 10 (dbuf (A @ replicate 14 0)) = Some (dec', fpv', n, dbuf ds)"
      "n + dec' = 10 + k" "unat fpv' = unat fpv * 10 ^ k mod 4294967296" "dec' > 0 \<longrightarrow> fpv' = 0"
    using dolfptoa_frac_eq [of k fpv A "14 - k"] A(2) k(1) by (auto simp: ds_def)
  note R = dolfptoa_rounded [OF k(1) unat32_less unat32_less [of fpv] A, folded ds_def N_def]
  obtain cp ds' where P: "(if dec' > 0 then Some (c, n + dec', dbuf ds)
      else case dolfptoa_round n (fpv' AND 0x80000000 \<noteq> 0) (dbuf ds) of None \<Rightarrow> None
           | Some (tp, cbuf) \<Rightarrow> Some (if tp < c then tp else c, n, cbuf)) = Some (cp, 10 + k, dbuf ds')"
      "isdigits ds'" "length ds' = 24" "num 10 (take (10 + k) ds') = N" "\<forall>i < cp. ds' ! i = 0" "cp \<le> 10"
  proof (cases "dec' > 0")
    case True
    then have "\<not> 2147483648 \<le> unat fpv * 10 ^ k mod 4294967296" using F(3,4) by simp
    then show ?thesis using that [of c ds] True R(2-5) A(5) F(2) by simp
  next
    case False
    obtain tp ds'' where T: "dolfptoa_round (10 + k) (2147483648 \<le> unat fpv * 10 ^ k mod 4294967296) (dbuf ds) = Some (tp, dbuf ds'')"
        "isdigits ds''" "length ds'' = 24" "num 10 (take (10 + k) ds'') = N" "\<forall>i < min tp c. ds'' ! i = 0"
      using R(1) by blast
    have "fpv' AND 0x80000000 \<noteq> 0 \<longleftrightarrow> 2147483648 \<le> unat fpv * 10 ^ k mod 4294967296" using top_bit32 [of fpv'] F(3) by simp
    then show ?thesis using that [of "min tp c" ds''] False T A(5) F(2) by (auto simp: min_def)
  qed
  obtain s where S: "skip_zeros cp cpdec (dbuf ds') = Some s"
      "write_digits (if s \<ge> cpdec then cpdec - 1 else s) cpdec (10 + k) (dbuf ds') = Some (fixed_point (k - (if msec then 3 else 0)) N)"
    using print_digits [OF P(2,5), of cpdec "10 + k"] P(3,4,6) k by auto
  have "dbuf (replicate 10 0 @ replicate 14 0) = replicate 24 0" by (simp flip: replicate_add)
  then show ?thesis
    using c(1) F(1) P(1) S dec unfolding dolfptoa_def A_def [symmetric] k_def [symmetric] N_def [symmetric]
    by (cases msec; cases neg; cases "cpdec \<le> s") (simp_all add: Let_def cpdec_def)
qed

section \<open>The 32-bit writer\<close>

lemma unat16_less: "unat (x :: u_short) < 65536"
  using unsigned_less [of x] by simp

lemma digit_split16: "(sv :: u_short) - (push_bit 3 (sv div 10) + sv div 10 * 2) = of_nat (unat sv mod 10)"
proof -
  have "push_bit 3 (sv div 10) + sv div 10 * 2 = 10 * (sv div 10)"
    by (simp add: push_bit_eq_mult)
  then have "sv - (push_bit 3 (sv div 10) + sv div 10 * 2) = sv mod 10"
    by (simp add: minus_mult_div_eq_mod)
  then show ?thesis by (simp add: word_arith_nat_mod)
qed

lemma length_dec_digits: "1 \<le> k \<Longrightarrow> n < 10 ^ k \<Longrightarrow> length (dec_digits n) \<le> k"
  using length_dec_digits0 [of n k] by (cases "n = 0") (auto simp: dec_digits0_def dec_digits.simps)

lemma ucast16_digit: "d < 10 \<Longrightarrow> (ucast (of_nat d :: u_short) :: u_char) = of_nat d"
  by (simp add: word_uint_eq_iff unsigned_of_nat unsigned_ucast_eq take_bit_nat_eq_self)

lemma dofptoa_int_eq:
  assumes "unat sv < 10 ^ length xs" "xs \<noteq> []"
  shows "\<exists>c. dofptoa_int sv (length xs) (dbuf (xs @ ys)) = Some (c, dbuf (take c xs @ dec_digits (unat sv) @ ys)) \<and>
    c + length (dec_digits (unat sv)) = length xs"
  using assms
proof (induction "length xs" arbitrary: sv xs ys)
  case (Suc n)
  obtain zs z where xs: "xs = zs @ [z]" using Suc.prems by (cases xs rule: rev_cases) auto
  have q: "unat (sv div 10) = unat sv div 10" by (simp add: unat_div)
  have p: "put_before (length xs) (of_nat (unat sv mod 10)) (dbuf (xs @ ys)) = Some (dbuf (zs @ unat sv mod 10 # ys))"
    using put_before_at [of zs "unat sv mod 10" z ys] xs by simp
  have step: "dofptoa_int sv (length xs) (dbuf (xs @ ys)) =
      (if sv div 10 \<noteq> 0 then dofptoa_int (sv div 10) (length zs) (dbuf (zs @ unat sv mod 10 # ys))
       else Some (length zs, dbuf (zs @ unat sv mod 10 # ys)))"
    using p xs by (subst dofptoa_int.simps) (simp add: Let_def digit_split16 ucast16_digit)
  show ?case
  proof (cases "sv div 10 = 0")
    case True
    then have "unat sv < 10" using q by (simp add: unat_eq_0 [symmetric] div_eq_0_iff)
    then show ?thesis using step True xs by (simp add: dec_digits.simps)
  next
    case False
    then have nz: "unat sv div 10 \<noteq> 0" using q by (simp add: unat_eq_0 [symmetric])
    have "unat (sv div 10) < 10 ^ length zs" using Suc.prems(1) q xs by simp
    moreover from this have "zs \<noteq> []" using nz q by auto
    ultimately obtain c where "dofptoa_int (sv div 10) (length zs) (dbuf (zs @ unat sv mod 10 # ys)) =
        Some (c, dbuf (take c zs @ dec_digits (unat sv div 10) @ unat sv mod 10 # ys))"
        "c + length (dec_digits (unat sv div 10)) = length zs"
      using Suc.hyps(1) [of zs "sv div 10" "unat sv mod 10 # ys"] Suc.hyps(2) xs q by auto
    moreover have "dec_digits (unat sv) = dec_digits (unat sv div 10) @ [unat sv mod 10]"
      using nz by (subst dec_digits.simps) (simp add: div_eq_0_iff)
    ultimately show ?thesis using step False xs by (intro exI [of _ c]) simp
  qed
qed simp

lemma low16: "unat ((v :: u_int64) AND 0xffff) = unat v mod 65536"
proof -
  have "v AND 0xffff = take_bit 16 v" by (simp add: take_bit_eq_mask mask_eq_exp_minus_1)
  then show ?thesis by (simp add: take_bit_eq_mod unat_mod)
qed

lemma dofptoa_frac_eq:
  "\<exists>val'. dofptoa_frac k val (length xs) (dbuf (xs @ replicate (k + m) 0)) =
     Some (val', length xs + k, dbuf (xs @ frac_digits 65536 k (unat val mod 65536) @ replicate m 0)) \<and>
     unat val' mod 65536 = unat val mod 65536 * 10 ^ k mod 65536"
proof (induction k arbitrary: val xs)
  case (Suc k)
  define f where "f = unat val mod 65536"
  define v :: u_int64 where "v = push_bit 3 (val AND 0xffff) + push_bit 1 (val AND 0xffff)"
  have f: "f < 65536" by (simp add: f_def)
  have "v = 10 * (val AND 0xffff)" by (simp add: v_def push_bit_eq_mult)
  then have uv: "unat v = 10 * f" using f low16 [of val] by (simp add: unat_word_ariths f_def)
  define d r where "d = 10 * f div 65536" and "r = 10 * f mod 65536"
  have d: "d < 10" using f by (simp add: d_def div_less_iff_less_mult)
  have "unat (drop_bit 16 v) = d" by (simp add: drop_bit_eq_div unat_div uv d_def)
  then have "(ucast (drop_bit 16 v) :: u_char) = of_nat d"
    using d by (simp add: word_unat_eq_iff unsigned_of_nat unsigned_ucast_eq)
  then have p: "put_at (length xs) (ucast (drop_bit 16 v)) (dbuf (xs @ replicate (Suc k + m) 0)) =
      Some (dbuf ((xs @ [d]) @ replicate (k + m) 0))"
    by (simp add: put_at_def dbuf_def list_update_append)
  obtain val' where IH: "dofptoa_frac k v (length (xs @ [d])) (dbuf ((xs @ [d]) @ replicate (k + m) 0)) =
      Some (val', length (xs @ [d]) + k, dbuf ((xs @ [d]) @ frac_digits 65536 k r @ replicate m 0))"
      "unat val' mod 65536 = r * 10 ^ k mod 65536"
    using Suc.IH [of v "xs @ [d]"] uv unfolding r_def by auto
  have "r * 10 ^ k mod 65536 = 10 * f * 10 ^ k mod 65536"
    unfolding r_def by (rule mod_mult_left_eq)
  then have "unat val' mod 65536 = f * 10 ^ Suc k mod 65536" using IH(2) by (simp add: ac_simps)
  moreover have "dofptoa_frac (Suc k) val (length xs) (dbuf (xs @ replicate (Suc k + m) 0)) =
      dofptoa_frac k v (length (xs @ [d])) (dbuf ((xs @ [d]) @ replicate (k + m) 0))"
    using p unfolding dofptoa_frac.simps Let_def v_def [symmetric] by simp
  moreover have "frac_digits 65536 (Suc k) f = d # frac_digits 65536 k r" by (simp only: frac_digits.simps d_def r_def)
  ultimately show ?case using IH(1) by (intro exI [of _ val']) (simp add: f_def)
qed simp

lemma dofptoa_round_eq:
  assumes "n \<le> length ds" "isdigits ds" "num 10 (take n ds) + 1 < 10 ^ n"
  shows "dofptoa_round n (dbuf ds) = map_option snd (dolfptoa_round n True (dbuf ds))"
  using assms
proof (induction n arbitrary: ds)
  case (Suc n)
  have n: "n < length ds" "ds ! n < 10" using Suc.prems isdigits_nth by auto
  have c: "(of_nat (ds ! n) + 1 :: u_char) \<ge> 10 \<longleftrightarrow> (of_nat (ds ! n) + 1 :: u_char) = 10"
  proof -
    have "unat (of_nat (ds ! n) + 1 :: u_char) = ds ! n + 1" using n(2) by (simp add: unat_word_ariths unsigned_of_nat take_bit_nat_eq_self)
    then show ?thesis using n(2) by (auto simp: word_le_nat_alt word_unat_eq_iff)
  qed
  show ?case
  proof (cases "ds ! n = 9")
    case True
    have "num 10 (take (Suc n) ds) = 10 * num 10 (take n ds) + 9" using n True by (simp add: take_Suc_conv_app_nth)
    then have "num 10 (take n (ds[n := 0])) + 1 < 10 ^ n" using Suc.prems(3) by simp
    then have "dofptoa_round n (dbuf (ds[n := 0])) = map_option snd (dolfptoa_round n True (dbuf (ds[n := 0])))"
      using Suc.IH [of "ds[n := 0]"] n Suc.prems(2) by (simp add: isdigits_upd)
    then show ?thesis using n c True dbuf_simps(5) [of ds n 0] by simp
  next
    case False
    then show ?thesis using n c of_nat_digit_eq [of "ds ! n"] by simp
  qed
qed simp

lemma bit15: "(v :: u_int64) AND 0x8000 \<noteq> 0 \<longleftrightarrow> 32768 \<le> unat v mod 65536"
proof -
  have "v AND 0x8000 \<noteq> 0 \<longleftrightarrow> bit v 15"
  proof -
    have "v AND 0x8000 = v AND push_bit 15 1" by (simp add: push_bit_eq_mult)
    then show ?thesis by (simp add: bit_iff_and_push_bit_not_eq_0)
  qed
  also have "\<dots> \<longleftrightarrow> bit (unat v) 15" by (simp add: bit_unsigned_iff)
  also have "\<dots> \<longleftrightarrow> odd (unat v div 32768)" by (simp add: bit_iff_odd)
  also have "\<dots> \<longleftrightarrow> 32768 \<le> unat v mod 65536"
    using mod_mult2_eq [of "unat v" 32768 2] by (auto simp: odd_iff_mod_2_eq_one)
  finally show ?thesis .
qed

text \<open>\<^verbatim>\<open>dofptoa\<close> starts its output at \<^verbatim>\<open>cp\<close> whatever is before it.\<close>

lemma print_from:
  assumes "isdigits ds" "cp < cpdec" "cpdec \<le> cpend" "cpend \<le> length ds"
  shows "\<exists>s. skip_zeros cp (cpdec - 1) (dbuf ds) = Some s \<and>
    write_digits s cpdec cpend (dbuf ds) = Some (fixed_point (cpend - cpdec) (num 10 (drop cp (take cpend ds))))"
proof -
  let ?z = "\<lambda>d :: nat. d = 0"
  define J x F where "J = drop cp (take (cpdec - 1) ds)" and "x = ds ! (cpdec - 1)" and "F = drop cpdec (take cpend ds)"
  have I: "drop cp (take cpdec ds) = J @ [x]"
    using assms take_Suc_conv_app_nth [of "cpdec - 1" ds] by (simp add: J_def x_def)
  have "take cpend ds = take cpdec ds @ F" 
    by (metis F_def assms(3) drop_take le_add_diff_inverse take_add)
  then have IF: "drop cp (take cpend ds) = (J @ [x]) @ F" using assms I by simp
  define s where "s = cp + length (takeWhile ?z J)"
  have sk: "skip_zeros cp (cpdec - 1) (dbuf ds) = Some s"
    using assms skip_zeros_eq [of cp "cpdec - 1" ds] by (simp add: s_def J_def)
  have J: "length J = cpdec - 1 - cp" using assms by (simp add: J_def)
  have s: "s \<le> cpdec" using J length_takeWhile_le [of ?z J] assms(2) by (simp add: s_def)
  have "drop s (take cpdec ds) = drop (length (takeWhile ?z J)) (J @ [x])"
    unfolding s_def I [symmetric] by (simp add: add.commute)
  also have "\<dots> = dropWhile ?z J @ [x]" using length_takeWhile_le [of ?z J] drop_takeWhile [of ?z J] by simp
  also have "\<dots> = (if list_all ?z (J @ [x]) then [0] else dropWhile ?z (J @ [x]))"
    by (auto simp: list_all_iff dropWhile_append)
  finally have d: "drop s (take cpdec ds) = (if list_all ?z (J @ [x]) then [0] else dropWhile ?z (J @ [x]))" .
  have l: "length F = cpend - cpdec" using assms by (simp add: F_def)
  then have f: "cpdec < cpend \<longleftrightarrow> F \<noteq> []" by (cases F) auto
  have "isdigits ((J @ [x]) @ F)" unfolding IF [symmetric] using assms(1) by (simp add: isdigits_take)
  then show ?thesis
    using sk fixed_point_digits [of "J @ [x]" F] s assms write_digits_eq [of s cpdec cpend ds] l
    unfolding IF d F_def [symmetric] f by simp
qed

definition fp_places :: "int \<Rightarrow> bool \<Rightarrow> nat" where
  "fp_places ndec msec = nat (min 6 (if msec then max 3 (s16 (ndec + 3)) else ndec))"

lemma high16: "(ucast (x :: u_int32) :: u_int64) AND 0xffff0000 = 0 \<longleftrightarrow> unat x div 65536 = 0"
proof -
  have m: "(0xffff0000 :: int) = push_bit 16 (mask 16)" by (simp add: push_bit_eq_mult mask_eq_exp_minus_1)
  have "uint ((ucast x :: u_int64) AND 0xffff0000) = int (unat x) AND 0xffff0000"
    using uint32_range [of x] by (simp add: unsigned_and_eq unsigned_ucast_eq take_bit_int_eq_self)
  also have "\<dots> = push_bit 16 (take_bit 16 (drop_bit 16 (int (unat x))))"
    unfolding m by (rule bit_eqI) (auto simp: bit_simps)
  also have "\<dots> = int (unat x) div 65536 mod 65536 * 65536"
    by (simp only: take_bit_eq_mod push_bit_eq_mult drop_bit_eq_div) simp
  also have "int (unat x) div 65536 mod 65536 = int (unat x div 65536 mod 65536)" by (simp only: zdiv_int zmod_int of_nat_numeral)
  also have "unat x div 65536 mod 65536 = unat x div 65536" using unat32_less [of x] by simp
  finally show ?thesis by (simp add: word_uint_eq_iff)
qed

lemma num_drop:
  assumes "isdigits xs" "c \<le> length xs"
  shows "num 10 (drop c xs) = num 10 xs mod 10 ^ (length xs - c)"
proof -
  have "num 10 (drop c xs) < 10 ^ length (drop c xs)" using assms(1) by (intro num_less) (auto simp: isdigits_def dest: in_set_dropD)
  moreover have "num 10 xs = num 10 (take c xs) * 10 ^ length (drop c xs) + num 10 (drop c xs)"
    using num_from_split [of 10 "num 10 (take c xs)" "drop c xs"] by (metis append_take_drop_id num_from_simps(3))
  ultimately show ?thesis by simp
qed

lemma dofptoa_eq:
  "dofptoa fpv neg ndec msec =
     Some ((if neg then ''-'' else []) @
       fixed_point (fp_places ndec msec - (if msec then 3 else 0))
         (round_dec 65536 (fp_places ndec msec) (unat fpv) mod
            10 ^ (length (dec_digits (unat fpv div 65536)) + fp_places ndec msec)))"
proof -
  define k cpdec :: nat where "k = fp_places ndec msec" and "cpdec = (if msec then 8 else 5)"
  define q f where "q = unat fpv div 65536" and "f = unat fpv mod 65536"
  define L where "L = length (dec_digits q)"
  define N where "N = round_dec 65536 k (unat fpv)"
  have k: "k \<le> 6" "cpdec \<le> 5 + k" "5 + k - cpdec = k - (if msec then 3 else 0)" "5 \<le> cpdec"
    by (auto simp: k_def cpdec_def fp_places_def)
  have qf: "q < 65536" "f < 65536" "unat fpv = q * 65536 + f" using unat32_less [of fpv] by (simp_all add: q_def f_def)
  have L: "1 \<le> L" "L \<le> 5" using length_dec_digits [of 5 q] qf dec_digits_ne [of q] by (auto simp: L_def Suc_le_eq)
  define A where "A = replicate (5 - L) 0 @ dec_digits q"
  have A: "isdigits A" "length A = 5" "num 10 A = q" using L by (auto simp: A_def L_def)
  define val :: u_int64 where "val = ucast fpv"
  have val: "unat val = unat fpv" using unat32_less [of fpv] by (simp add: val_def unsigned_ucast_eq take_bit_nat_eq_self)
  have int: "(if val AND 0xffff0000 = 0 then Some (4, replicate 12 0) else dofptoa_int (ucast (drop_bit 16 val)) 5 (replicate 12 0)) =
      Some (5 - L, dbuf (A @ replicate 7 0))"
  proof (cases "q = 0")
    case True
    then have "L = 1" "dec_digits q = [0]" by (simp_all add: L_def dec_digits.simps)
    then have "dbuf (A @ replicate 7 0) = dbuf (replicate 12 0)" by (simp add: A_def numeral_eq_Suc)
    moreover have "val AND 0xffff0000 = 0" using True high16 [of fpv] by (simp add: val_def q_def)
    ultimately show ?thesis using \<open>L = 1\<close> by simp
  next
    case False
    then have n: "val AND 0xffff0000 \<noteq> 0" using high16 [of fpv] by (simp add: val_def q_def)
    have "unat (drop_bit 16 val) = q" by (simp add: drop_bit_eq_div unat_div val q_def)
    then have u: "unat (ucast (drop_bit 16 val) :: u_short) = q" using qf by (simp add: unsigned_ucast_eq take_bit_nat_eq_self)
    obtain c where "dofptoa_int (ucast (drop_bit 16 val)) (length (replicate 5 (0 :: nat))) (dbuf (replicate 5 0 @ replicate 7 0)) =
        Some (c, dbuf (take c (replicate 5 0) @ dec_digits q @ replicate 7 0))" "c + L = 5"
      using dofptoa_int_eq [of "ucast (drop_bit 16 val)" "replicate 5 0" "replicate 7 0"] qf u by (auto simp: L_def)
    moreover have "dbuf (replicate 5 0 @ replicate 7 0) = replicate 12 0" by (simp flip: replicate_add)
    moreover have "c = 5 - L" using \<open>c + L = 5\<close> by simp
    ultimately show ?thesis using n L by (simp add: A_def)
  qed
  define ds where "ds = A @ frac_digits 65536 k f @ replicate (7 - k) 0"
  have ds: "isdigits ds" "length ds = 12" using A k isdigits_frac_digits [OF qf(2)] by (simp_all add: ds_def)
  obtain val' where F: "dofptoa_frac k val 5 (dbuf (A @ replicate 7 0)) = Some (val', 5 + k, dbuf ds)"
      "unat val' mod 65536 = f * 10 ^ k mod 65536"
    using dofptoa_frac_eq [of k val A "7 - k"] A(2) k(1) by (auto simp: ds_def val f_def)
  have t: "take (5 + k) ds = A @ frac_digits 65536 k f" using A(2) k by (simp add: ds_def)
  have n: "num 10 (take (5 + k) ds) = q * 10 ^ k + f * 10 ^ k div 65536"
    unfolding t using A num_from_split [of 10 q "frac_digits 65536 k f"] num_frac_digits [OF qf(2), of k] by simp
  have c: "val' AND 0x8000 \<noteq> 0 \<longleftrightarrow> 32768 \<le> f * 10 ^ k mod 65536" using bit15 [of val'] F(2) by simp
  have r: "N = num 10 (take (5 + k) ds) + of_bool (val' AND 0x8000 \<noteq> 0)"
    unfolding n N_def qf(3) c using qf(2) by (subst round_dec_carry) auto
  have "f * 10 ^ k < 65536 * 10 ^ k" using qf by simp
  then have "f * 10 ^ k div 65536 < 10 ^ k" by (simp add: div_less_iff_less_mult)
  then have "num 10 (take (5 + k) ds) + 1 \<le> (q + 1) * 10 ^ k" using n by simp
  also have "\<dots> \<le> 65536 * 10 ^ k" using qf by (intro mult_le_mono1) simp
  also have "\<dots> < 10 ^ (5 + k)" by (simp add: power_add)
  finally have small: "num 10 (take (5 + k) ds) + 1 < 10 ^ (5 + k)" .
  obtain ds' where P: "(if val' AND 0x8000 \<noteq> 0 then dofptoa_round (5 + k) (dbuf ds) else Some (dbuf ds)) = Some (dbuf ds')"
      "isdigits ds'" "length ds' = 12" "num 10 (take (5 + k) ds') = N"
  proof (cases "val' AND 0x8000 \<noteq> 0")
    case True
    obtain tp ds'' where "dolfptoa_round (5 + k) True (dbuf ds) = Some (tp, dbuf ds'')" "isdigits ds''" "length ds'' = length ds"
        "num 10 (take (5 + k) ds'') = num 10 (take (5 + k) ds) + of_bool True"
      using dolfptoa_round_eq [of "5 + k" ds True] ds small k by auto
    then show ?thesis using that [of ds''] True dofptoa_round_eq [of "5 + k" ds] ds small k r by simp
  next
    case False
    then show ?thesis using that [of ds] ds r by simp
  qed
  have lt: "5 - L < cpdec" "5 - L \<le> 5 + k" using L k(4) by linarith+
  obtain s where S: "skip_zeros (5 - L) (cpdec - 1) (dbuf ds') = Some s"
      "write_digits s cpdec (5 + k) (dbuf ds') = Some (fixed_point (k - (if msec then 3 else 0)) (num 10 (drop (5 - L) (take (5 + k) ds'))))"
    using print_from [OF P(2), of "5 - L" cpdec "5 + k"] P(3) k lt by auto
  have "num 10 (drop (5 - L) (take (5 + k) ds')) = N mod 10 ^ (L + k)"
    using num_drop [of "take (5 + k) ds'" "5 - L"] P k L lt by (simp add: isdigits_take add.commute)
  then have S2: "write_digits s cpdec (5 + k) (dbuf ds') = Some (fixed_point (k - (if msec then 3 else 0)) (N mod 10 ^ (L + k)))"
    using S(2) by simp
  define dec where "dec = (if (if msec then (if s16 (ndec + 3) < 3 then 3 else s16 (ndec + 3)) else ndec) > 6 then 6
    else (if msec then (if s16 (ndec + 3) < 3 then 3 else s16 (ndec + 3)) else ndec))"
  have "nat dec = k" by (auto simp: dec_def k_def fp_places_def min_def max_def)
  then have D: "(if dec > 0 then dofptoa_frac (nat dec) val 5 cbuf else Some (val, 5, cbuf)) = dofptoa_frac k val 5 cbuf" for cbuf
    by (cases "dec > 0") auto
  show ?thesis
    using int D F(1) P(1) S(1) S2
    unfolding dofptoa_def Let_def val_def [symmetric] dec_def [symmetric] cpdec_def [symmetric] k_def [symmetric] N_def [symmetric] q_def [symmetric] L_def [symmetric]
    by (cases msec; cases neg) simp_all
qed

lemma length_fixed_point:
  assumes "n < 10 ^ (m + k)" "1 \<le> m"
  shows "length (fixed_point k n) \<le> m + k + 1"
proof -
  have "n div 10 ^ k < 10 ^ m" using assms(1) by (simp add: power_add div_less_iff_less_mult)
  then have "length (dec_digits (n div 10 ^ k)) \<le> m" using assms(2) by (intro length_dec_digits)
  moreover have "k \<noteq> 0 \<Longrightarrow> length (dec_digits (n mod 10 ^ k)) \<le> k" by (intro length_dec_digits) simp_all
  ultimately show ?thesis by (cases "k = 0") (simp_all add: fixed_point_def show_dec_def pad0_def)
qed

lemma round_dec_le: "v < a * m \<Longrightarrow> 0 < m \<Longrightarrow> round_dec m k v \<le> a * 10 ^ k"
proof -
  assume v: "v < a * m" and m: "0 < m"
  have "(v + 1) * 10 ^ k \<le> a * m * 10 ^ k" using v by (intro mult_le_mono1) simp
  then have "2 * v * 10 ^ k + m < (a * 10 ^ k + 1) * (2 * m)" using m by (simp add: algebra_simps)
  then show ?thesis using m by (simp add: round_dec_def div_less_iff_less_mult less_Suc_eq_le [symmetric])
qed

lemma lfp_places_less:
  assumes "v < 4294967296 * 4294967296"
  shows "length (fixed_point (lfp_places ndec msec - (if msec then 3 else 0)) (round_dec 4294967296 (lfp_places ndec msec) v)) \<le> 25"
proof -
  define k where "k = lfp_places ndec msec"
  have k: "k \<le> 14" "msec \<Longrightarrow> 3 \<le> k" by (auto simp: k_def lfp_places_def)
  have "round_dec 4294967296 k v \<le> 4294967296 * 10 ^ k" using assms by (intro round_dec_le) simp_all
  also have "\<dots> < 10 ^ (10 + k)" by (simp add: power_add)
  finally have "round_dec 4294967296 k v < 10 ^ ((if msec then 13 else 10) + (k - (if msec then 3 else 0)))" using k(2) by (cases msec) simp_all
  then have "length (fixed_point (k - (if msec then 3 else 0)) (round_dec 4294967296 k v)) \<le> (if msec then 13 else 10) + (k - (if msec then 3 else 0)) + 1"
    by (rule length_fixed_point) simp
  also have "\<dots> \<le> 25" using k by (cases msec) simp_all
  finally show ?thesis by (simp only: k_def)
qed

lemma abs_sint64: "nat \<bar>sint (w :: u_int64)\<bar> = unat (if sint w < 0 then - w else w)"
proof -
  have w: "uint w < 18446744073709551616" "0 \<le> uint w" using uint_lt2p [of w] by simp_all
  have "sint w < 0 \<Longrightarrow> uint (- w) = - sint w"
    using w sint_u64_if [of w] by (cases "uint w < 9223372036854775808") (simp_all add: uint_word_ariths zmod_zminus1_eq_if)
  moreover have "\<not> sint w < 0 \<Longrightarrow> uint w = sint w"
    using w sint_u64_if [of w] by (cases "uint w < 9223372036854775808") simp_all
  ultimately show ?thesis by (cases "sint w < 0") (simp_all flip: nat_uint_eq)
qed

lemma abs_lfp:
  assumes "(if M_ISNEG (l_ui v) then M_NEG (l_ui v) (l_uf v) else (l_ui v, l_uf v)) = (i, f)"
  shows "unat i * 4294967296 + unat f = nat \<bar>sint (lfp_val v)\<bar>"
proof -
  have "M_ISNEG (l_ui v) \<longleftrightarrow> sint (lfp_val v) < 0" using L_ISNEG_iff [of v] by (simp add: L_ISNEG_def)
  then have "word_cat i f = (if sint (lfp_val v) < 0 then - lfp_val v else lfp_val v)"
    using assms M_NEG_cat [of "l_ui v" "l_uf v"] by (auto simp: lfp_val_def split: if_splits)
  then show ?thesis using unat_cat64 [of i f] by (simp add: abs_sint64)
qed

lemma printed_sign: "M_ISNEG (l_ui v) \<longleftrightarrow> sint (lfp_val v) < 0"
  using L_ISNEG_iff [of v] by (simp add: L_ISNEG_def)

lemma mfptoa_eq:
  "mfptoa (l_ui v) (l_uf v) ndec = Some ((if sint (lfp_val v) < 0 then ''-'' else []) @
     fixed_point (min 14 (nat ndec)) (round_dec (2 ^ 32) (min 14 (nat ndec)) (nat \<bar>sint (lfp_val v)\<bar>)))"
proof -
  obtain i f where if': "(if M_ISNEG (l_ui v) then M_NEG (l_ui v) (l_uf v) else (l_ui v, l_uf v)) = (i, f)"
    by (cases "if M_ISNEG (l_ui v) then M_NEG (l_ui v) (l_uf v) else (l_ui v, l_uf v)")
  then show ?thesis using abs_lfp [OF if'] by (simp add: mfptoa_def Let_def dolfptoa_eq lfp_places_def printed_sign)
qed

lemma mfptoms_eq:
  "mfptoms (l_ui v) (l_uf v) ndec = Some ((if sint (lfp_val v) < 0 then ''-'' else []) @
     fixed_point (min 11 (nat ndec)) (round_dec (2 ^ 32) (min 11 (nat ndec) + 3) (nat \<bar>sint (lfp_val v)\<bar>)))"
proof -
  obtain i f where if': "(if M_ISNEG (l_ui v) then M_NEG (l_ui v) (l_uf v) else (l_ui v, l_uf v)) = (i, f)"
    by (cases "if M_ISNEG (l_ui v) then M_NEG (l_ui v) (l_uf v) else (l_ui v, l_uf v)")
  moreover have "min 14 (nat ndec + 3) = min 11 (nat ndec) + 3" by simp
  ultimately show ?thesis using abs_lfp [OF if'] by (simp add: mfptoms_def Let_def dolfptoa_eq lfp_places_def printed_sign)
qed

text \<open>
  Printing stamps.  \<^verbatim>\<open>dolfptoa\<close> writes the unsigned number rounded half up to the given number of decimal places (at
  most 14, in seconds or, with three places fewer after the point, in milliseconds), \<^verbatim>\<open>mfptoa\<close> and \<^verbatim>\<open>mfptoms\<close> the
  signed one with its sign.  No buffer is overrun, and the text fits the string buffers of 128 characters.
\<close>
theorem lfp_printing:
  "(\<exists>s. dolfptoa (l_ui v) (l_uf v) neg ndec msec = Some ((if neg then ''-'' else []) @ s) \<and> length s \<le> 25 \<and>
      s = fixed_point (lfp_places ndec msec - (if msec then 3 else 0)) (round_dec (2 ^ 32) (lfp_places ndec msec) (unat (lfp_val v)))) \<and>
   mfptoa (l_ui v) (l_uf v) ndec =
     Some ((if sint (lfp_val v) < 0 then ''-'' else []) @
       fixed_point (min 14 (nat ndec)) (round_dec (2 ^ 32) (min 14 (nat ndec)) (nat \<bar>sint (lfp_val v)\<bar>))) \<and>
   mfptoms (l_ui v) (l_uf v) ndec =
     Some ((if sint (lfp_val v) < 0 then ''-'' else []) @
       fixed_point (min 11 (nat ndec)) (round_dec (2 ^ 32) (min 11 (nat ndec) + 3) (nat \<bar>sint (lfp_val v)\<bar>)))"
proof -
  have "unat (lfp_val v) < 4294967296 * 4294967296" using unsigned_less [of "lfp_val v"] by simp
  moreover have "unat (l_ui v) * 4294967296 + unat (l_uf v) = unat (lfp_val v)" by (simp add: lfp_val_def unat_cat64)
  ultimately show ?thesis
    using lfp_places_less [of "unat (lfp_val v)" ndec msec] by (simp add: mfptoa_eq mfptoms_eq dolfptoa_eq)
qed

text \<open>
  Printing 32-bit fixed-point numbers.  \<^verbatim>\<open>dofptoa\<close> (and \<^verbatim>\<open>fptoa\<close>, \<^verbatim>\<open>fptoms\<close>) writes the number rounded half up
  as long as rounding does not add a digit before the point; when it does, the new leading digit is dropped and the
  text is that of zero: 9.99998 is written with two places as 0.00.
\<close>
theorem fp_printing_loses_carry:
  "dofptoa fpv neg ndec msec =
     Some ((if neg then ''-'' else []) @ fixed_point (fp_places ndec msec - (if msec then 3 else 0))
       (if round_dec (2 ^ 16) (fp_places ndec msec) (unat fpv) < 10 ^ (length (dec_digits (unat fpv div 2 ^ 16)) + fp_places ndec msec)
        then round_dec (2 ^ 16) (fp_places ndec msec) (unat fpv) else 0)) \<and>
   fptoa 655359 2 = Some ''0.00'' \<and> round_dec (2 ^ 16) 2 655359 = 1000 \<and> fixed_point 2 1000 = ''10.00''"
proof -
  define k q where "k = fp_places ndec msec" and "q = unat fpv div 65536"
  have "num 10 (dec_digits q) < 10 ^ length (dec_digits q)" by (intro num_less dec_digits_less)
  then have "unat fpv < 10 ^ length (dec_digits q) * 65536" by (simp add: q_def div_less_iff_less_mult)
  then have "round_dec 65536 k (unat fpv) \<le> 10 ^ length (dec_digits q) * 10 ^ k" by (intro round_dec_le) simp_all
  then have "round_dec 65536 k (unat fpv) mod 10 ^ (length (dec_digits q) + k) =
      (if round_dec 65536 k (unat fpv) < 10 ^ (length (dec_digits q) + k) then round_dec 65536 k (unat fpv) else 0)"
    by (auto simp: power_add)
  moreover have "fptoa 655359 2 = Some ''0.00''"
    by code_simp
  moreover have "round_dec (2 ^ 16) 2 655359 = 1000" by (simp add: round_dec_def)
  moreover have "fixed_point 2 1000 = ''10.00''" by code_simp
  ultimately show ?thesis unfolding dofptoa_eq k_def q_def by simp
qed

section \<open>Times with a fraction\<close>

lemma power10_less: "p \<le> 18 \<Longrightarrow> (10 :: int) ^ p \<le> 1000000000000000000"
  using power_increasing [of p 18 "10 :: int"] by simp

lemma fraclimit_eq: "1 \<le> p \<Longrightarrow> p \<le> 18 \<Longrightarrow> fraclimit p = 10 ^ p"
proof (induction p)
  case (Suc n)
  show ?case
  proof (cases "n = 0")
    case False
    then have "fraclimit n = 10 ^ n" using Suc by simp
    moreover have "s64 (10 ^ n * 10) = 10 ^ n * 10" 
    proof (rule s64_id)
      have "0 \<le> (10 :: int) ^ n" "(10 :: int) ^ n * 10 \<le> 1000000000000000000" using Suc.prems power10_less [of "Suc n"] by simp_all
      then show "in_s64 (10 ^ n * 10)" unfolding in_s64_def by linarith
    qed
    ultimately show ?thesis using False by simp
  qed simp
qed simp

lemma fixed_point_parts: "r < 10 ^ k \<Longrightarrow> 0 < k \<Longrightarrow>
  fixed_point k (q * 10 ^ k + r) = show_dec q @ [CHR ''.''] @ map dchar (pad0 k (dec_digits r))"
  by (simp add: fixed_point_def)

text \<open>The seconds and the fraction after normalisation.\<close>

lemma frac_normal:
  assumes "0 < lim" "in_s64 frac"
  shows "(if frac < 0 \<or> frac \<ge> lim
          then let (quot, rem) = (frac sdiv lim, frac smod lim);
                   (quot, rem) = (if rem < 0 then (s64 (quot - 1), rem + lim) else (quot, rem))
               in (secs_u + word_of_int quot, rem)
          else (secs_u, frac)) = ((secs_u :: u_int64) + word_of_int (frac div lim), frac mod lim)"
proof -
  have w: "word_of_int (s64 x) = (word_of_int x :: u_int64)" for x by (simp add: s64_eq_sint)
  show ?thesis
    using c_floor_divmod_eq [OF assms(1), of frac] w [of "frac div lim"] assms(1)
    by (auto simp: c_floor_divmod_def Let_def div_pos_pos_trivial mod_pos_pos_trivial split: if_splits)
qed

text \<open>
  Printing times.  \<^verbatim>\<open>format_time_fraction\<close> writes \<open>secs + frac / 10 ^ prec\<close> exactly, with \<open>prec\<close> decimal
  places and a minus sign when it is negative, also when the fraction is out of range or has the other sign; with a
  negative precision the seconds are taken as unsigned, modulo \<open>2 ^ 64\<close>.
\<close>
theorem time_fraction_printing:
  assumes "in_s64 secs" "in_s64 frac" "1 \<le> p" "p \<le> 18" "in_s64 (secs + frac div 10 ^ p)"
  shows "format_time_fraction secs frac (int p) =
      (if secs * 10 ^ p + frac < 0 then ''-'' else []) @ fixed_point p (nat \<bar>secs * 10 ^ p + frac\<bar>) \<and>
    format_time_fraction secs frac (- int p) = fixed_point p (nat ((secs * 10 ^ p + frac) mod (2 ^ 64 * 10 ^ p)))"
proof -
  define lim :: int where "lim = 10 ^ p"
  have lim: "fraclimit p = lim" "0 < lim" "nat lim = 10 ^ p" using fraclimit_eq [of p] assms(3,4) by (simp_all add: lim_def)
  define S r where "S = secs + frac div lim" and "r = frac mod lim"
  have r: "0 \<le> r" "r < lim" using lim(2) by (simp_all add: r_def)
  have T: "secs * lim + frac = S * lim + r" by (simp add: S_def r_def algebra_simps)
  have w: "word_of_int secs + word_of_int (frac div lim) = (word_of_int S :: u_int64)" by (simp add: S_def)
  have neg: "S * lim + r < 0 \<longleftrightarrow> S < 0"
  proof (cases "S < 0")
    case True
    then have "S * lim \<le> - 1 * lim" using lim(2) by (intro mult_right_mono) simp_all
    then show ?thesis using True r by linarith
  next
    case False
    then have "0 \<le> S * lim" using lim(2) by simp
    then show ?thesis using False r by linarith
  qed
  have si: "sint (word_of_int S :: u_int64) = S" using assms(5) s64_id [of S] by (simp add: S_def lim_def s64_eq_sint)
  have fp: "fixed_point p (nat (q * lim + t)) = show_dec (nat q) @ [CHR ''.''] @ map dchar (pad0 p (dec_digits (nat t)))"
    if "0 \<le> q" "0 \<le> t" "t < lim" for q t
  proof -
    have "nat (q * lim + t) = nat q * 10 ^ p + nat t" using that lim by (simp add: nat_add_distrib nat_mult_distrib)
    moreover have "nat t < 10 ^ p" using that lim by (simp flip: lim(3))
    ultimately show ?thesis using fixed_point_parts [of "nat t" p "nat q"] assms(3) by simp
  qed
  have un: "unat (word_of_int x :: u_int64) = nat (x mod 2 ^ 64)" for x by (simp add: unsigned_of_int take_bit_eq_mod flip: nat_uint_eq)
  have f: "format_time_fraction secs frac prec =
      (let W = word_of_int S :: u_int64; nn = (prec < 0 \<or> S \<ge> 0);
           (u, g) = (if nn then (W, r) else if r = 0 then (NOT W + 1, r) else (NOT W, lim - r))
       in (if nn then [] else [CHR ''-'']) @ show_dec (unat u) @ [CHR ''.''] @ map dchar (pad0 p (dec_digits (nat g))))"
    if "nat \<bar>prec\<bar> = p" for prec
    unfolding format_time_fraction_def Let_def that lim(1) case_prod_conv
      frac_normal [OF lim(2) assms(2), of "word_of_int secs", unfolded Let_def case_prod_conv] w r_def [symmetric] si
    by (rule refl)
  have i: "0 \<le> x \<Longrightarrow> x \<le> 9223372036854775808 \<Longrightarrow> unat (word_of_int x :: u_int64) = nat x" for x by (simp add: un)
  have S: "in_s64 S" using assms(5) by (simp add: S_def lim_def)
  have "format_time_fraction secs frac (int p) = (if S * lim + r < 0 then ''-'' else []) @ fixed_point p (nat \<bar>S * lim + r\<bar>)"
  proof (cases "S < 0")
    case False
    then have "0 \<le> S * lim + r" using neg by linarith
    then show ?thesis using False neg fp [of S r] r i [of S] S by (simp add: f Let_def in_s64_def)
  next
    case True
    show ?thesis
    proof (cases "r = 0")
      case True
      have "NOT (word_of_int S :: u_int64) + 1 = word_of_int (- S)" by (simp add: not_eq_complement)
      then show ?thesis using True \<open>S < 0\<close> neg fp [of "- S" 0] r i [of "- S"] S lim(2)
        by (simp add: f Let_def in_s64_def del: of_int_minus)
    next
      case False
      have "NOT (word_of_int S :: u_int64) = word_of_int (- S - 1)" by (simp add: not_eq_complement)
      moreover have "\<bar>S * lim + r\<bar> = (- S - 1) * lim + (lim - r)" using neg \<open>S < 0\<close> by (simp add: algebra_simps)
      then have "fixed_point p (nat \<bar>S * lim + r\<bar>) = show_dec (nat (- S - 1)) @ [CHR ''.''] @ map dchar (pad0 p (dec_digits (nat (lim - r))))"
        using fp [of "- S - 1" "lim - r"] \<open>S < 0\<close> r False by simp
      ultimately show ?thesis using False \<open>S < 0\<close> neg i [of "- S - 1"] S
        by (simp add: f Let_def in_s64_def del: of_int_minus of_int_diff)
    qed
  qed
  moreover have "format_time_fraction secs frac (- int p) = fixed_point p (nat ((S * lim + r) mod (2 ^ 64 * lim)))"
  proof -
    have "(S * lim + r) mod (2 ^ 64 * lim) = (S mod 2 ^ 64) * lim + r"
    proof (rule mod_eq_dvd_iff [THEN iffD2, THEN trans])
      have "S * lim + r - ((S mod 2 ^ 64) * lim + r) = (S div 2 ^ 64) * (2 ^ 64 * lim)"
      proof -
        have "S * lim = (S div 2 ^ 64 * 2 ^ 64 + S mod 2 ^ 64) * lim" by (simp only: div_mult_mod_eq)
        then show ?thesis by (simp only: distrib_right mult.assoc)
      qed
      then show "2 ^ 64 * lim dvd S * lim + r - ((S mod 2 ^ 64) * lim + r)" by simp
      have "0 \<le> S mod 2 ^ 64" "S mod 2 ^ 64 \<le> 2 ^ 64 - 1" by simp_all
      then have "0 \<le> (S mod 2 ^ 64) * lim" "(S mod 2 ^ 64) * lim \<le> (2 ^ 64 - 1) * lim" using lim(2) by (simp_all add: mult_right_mono)
      then show "((S mod 2 ^ 64) * lim + r) mod (2 ^ 64 * lim) = (S mod 2 ^ 64) * lim + r"
        using r left_diff_distrib [of "2 ^ 64" 1 lim] by (intro mod_pos_pos_trivial) linarith+
    qed
    then show ?thesis using fp [of "S mod 2 ^ 64" r] r assms(3) un [of S] by (simp add: f Let_def)
  qed
  ultimately show ?thesis unfolding lim_def [symmetric] T by simp
qed

theorem time_fraction_printing_witness:
  "format_time_fraction (- 3) 1250 3 = ''-'' @ fixed_point 3 1750 \<and> format_time_fraction (- 1) 5 (- 1) = fixed_point 1 184467440737095516155"
  using time_fraction_printing [of "- 3" 1250 3] time_fraction_printing [of "- 1" 5 1] by (simp add: in_s64_def)

section \<open>The readers\<close>

lemma word_ten: "push_bit 3 u + push_bit 1 u + of_nat d = (of_nat (10 * n + d) :: u_int64)" if "u = of_nat n" for u
  by (simp add: that push_bit_eq_mult)

lemma read_dec_eq:
  "read_dec (of_nat n) cp = (of_nat (num_from 10 n (map digit (takeWhile isdigit cp))), dropWhile isdigit cp)"
proof (induction cp arbitrary: n)
  case (Cons c cp)
  show ?case using Cons [of "10 * n + digit c"] word_ten [of "of_nat n" n "digit c"] by (simp del: of_nat_add of_nat_mult)
qed simp

lemma read_frac_eq:
  assumes "k \<le> 9"
  shows "\<exists>cp'. read_frac k (of_nat n) cp =
      (k + length (take (9 - k) (takeWhile isdigit cp)), of_nat (num_from 10 n (map digit (take (9 - k) (takeWhile isdigit cp)))), cp') \<and>
    dropWhile isdigit cp' = dropWhile isdigit cp"
  using assms
proof (induction cp arbitrary: k n)
  case (Cons c cp)
  show ?case
  proof (cases "k < 9 \<and> isdigit c")
    case True
    then obtain m where m: "9 - k = Suc m" "9 - Suc k = m" by (cases "9 - k") auto
    show ?thesis
      using Cons.IH [of "Suc k" "10 * n + digit c"] True word_ten [of "of_nat n" n "digit c"] m
      by (auto simp del: of_nat_add of_nat_mult)
  next
    case False
    then show ?thesis using Cons.prems by auto
  qed
qed simp

lemma or_eq_add:
  assumes "\<forall>i < Suc n. \<not> bit (tmp :: u_int64) i"
  shows "tmp OR 2 ^ n = tmp + 2 ^ n"
  using assms by (intro disjunctive_add [symmetric]) (auto simp: bit_simps)

lemma frac_loop_eq:
  assumes "d < t" "t \<le> 1000000000" "\<forall>i < n. \<not> bit tmp i" "n \<le> 32"
  shows "frac_loop (of_nat t) tmp (of_nat d) (if n = 0 then 0 else 2 ^ (n - 1)) =
    (tmp + of_nat (d * 2 ^ n div t), of_nat (d * 2 ^ n mod t))"
  using assms
proof (induction n arbitrary: tmp d)
  case 0
  then show ?case by (subst frac_loop.simps) simp
next
  case (Suc n)
  have b: "(2 :: u_int64) ^ n \<noteq> 0" using Suc.prems(4) by simp
  have h: "drop_bit 1 ((2 :: u_int64) ^ n) = (if n = 0 then 0 else 2 ^ (n - 1))"
    using Suc.prems(4) by (intro bit_word_eqI) (auto simp: bit_simps)
  have p: "push_bit 1 (of_nat d) = (of_nat (2 * d) :: u_int64)" by (simp add: push_bit_eq_mult)
  have le: "(of_nat t :: u_int64) \<le> of_nat (2 * d) \<longleftrightarrow> t \<le> 2 * d"
    using Suc.prems(1,2) by (simp add: word_le_nat_alt unsigned_of_nat take_bit_nat_eq_self del: of_nat_mult)
  show ?case
  proof (cases "t \<le> 2 * d")
    case True
    have IH: "frac_loop (of_nat t) (tmp OR 2 ^ n) (of_nat (2 * d - t)) (if n = 0 then 0 else 2 ^ (n - 1)) =
        ((tmp OR 2 ^ n) + of_nat ((2 * d - t) * 2 ^ n div t), of_nat ((2 * d - t) * 2 ^ n mod t))"
      using Suc.prems by (intro Suc.IH) (auto simp: bit_simps)
    have "d * 2 ^ Suc n = t * 2 ^ n + (2 * d - t) * 2 ^ n" using True by (simp add: algebra_simps flip: distrib_right)
    then have "d * 2 ^ Suc n div t = 2 ^ n + (2 * d - t) * 2 ^ n div t" "d * 2 ^ Suc n mod t = (2 * d - t) * 2 ^ n mod t"
      using Suc.prems(1) by simp_all
    then show ?thesis
      using True b h p le IH or_eq_add [OF Suc.prems(3)]
      by (subst frac_loop.simps) (simp add: Let_def of_nat_diff del: of_nat_mult)
  next
    case False
    then have IH: "frac_loop (of_nat t) tmp (of_nat (2 * d)) (if n = 0 then 0 else 2 ^ (n - 1)) =
        (tmp + of_nat (2 * d * 2 ^ n div t), of_nat (2 * d * 2 ^ n mod t))"
      using Suc.prems by (intro Suc.IH) auto
    moreover have "2 * d * 2 ^ n = d * 2 ^ Suc n" by simp
    ultimately show ?thesis
      using False b h p le by (subst frac_loop.simps) (simp add: Let_def del: of_nat_mult)
  qed
qed

text \<open>The binary fraction, in units of \<open>2 ^ - 32\<close>, nearest to \<open>d / 10 ^ k\<close>.\<close>

definition frac_units :: "nat \<Rightarrow> nat \<Rightarrow> nat" where
  "frac_units k d = (2 * d * 2 ^ 32 + 10 ^ k) div (2 * 10 ^ k)"

lemma no_tie:
  assumes "k < 33"
  shows "2 * (d * 4294967296 mod 10 ^ k) \<noteq> (10 :: nat) ^ k"
proof
  assume e: "2 * (d * 4294967296 mod 10 ^ k) = (10 :: nat) ^ k"
  define q where "q = d * 4294967296 div 10 ^ k"
  have "2 * (d * 4294967296) = 2 * (q * 10 ^ k) + 2 * (d * 4294967296 mod 10 ^ k)"
    unfolding q_def by (simp only: distrib_left [symmetric] div_mult_mod_eq)
  then have "d * 2 ^ 33 = (2 * q + 1) * (5 * 2) ^ k" using e by simp
  then have "d * 2 ^ 33 = (2 * q + 1) * 5 ^ k * 2 ^ k" by (simp only: power_mult_distrib mult.assoc)
  then have "(2 :: nat) ^ 33 dvd (2 * q + 1) * 5 ^ k * 2 ^ k" by (metis dvd_triv_right)
  moreover have "(2 :: nat) ^ 33 = 2 ^ (33 - k) * 2 ^ k" using assms by (simp flip: power_add)
  ultimately have "(2 :: nat) ^ (33 - k) dvd (2 * q + 1) * 5 ^ k" by (simp only: dvd_mult_cancel_right) simp
  moreover have "2 dvd (2 :: nat) ^ (33 - k)" using assms by simp
  ultimately have "even ((2 * q + 1) * 5 ^ k)" by (rule dvd_trans [rotated])
  then show False by simp
qed

lemma ten_to_the_n_eq: "1 \<le> k \<Longrightarrow> k \<le> 9 \<Longrightarrow> ten_to_the_n ! k = of_nat (10 ^ k)"
  by (auto simp: ten_to_the_n_def le_Suc_eq numeral_eq_Suc)

lemma frac_units_less:
  assumes "d < 10 ^ k" "k \<le> 9"
  shows "frac_units k d < 4294967296"
proof -
  have "(10 :: nat) ^ k \<le> 10 ^ 9" using assms(2) by (intro power_increasing) simp_all
  then have "10 ^ k < (8589934592 :: nat)" by simp
  moreover have "(d + 1) * 8589934592 \<le> 10 ^ k * 8589934592" using assms(1) by (intro mult_le_mono1) simp
  ultimately have "2 * d * 2 ^ 32 + 10 ^ k < 4294967296 * (2 * 10 ^ k)" by simp
  then show ?thesis by (simp add: frac_units_def div_less_iff_less_mult)
qed

lemma dec_fraction_eq:
  assumes "d < 10 ^ k" "1 \<le> k" "k \<le> 9"
  shows "dec_fraction k (of_nat d) = of_nat (frac_units k d)"
proof -
  define t where "t = (10 :: nat) ^ k"
  have t: "t \<le> 1000000000" "d < t" "even t" using power_increasing [OF assms(3), of "10 :: nat"] assms(1,2) by (simp_all add: t_def)
  obtain h where h: "t = 2 * h" using t(3) by (elim evenE)
  define q r where "q = d * 4294967296 div t" and "r = d * 4294967296 mod t"
  have r: "r < t" "2 * r \<noteq> t" using t(2) no_tie [of k d] assms(3) by (simp_all add: r_def t_def)
  have "frac_loop (of_nat t) 0 (of_nat d) 0x80000000 = (of_nat q, of_nat r)"
    using frac_loop_eq [of d t 32 0] t by (simp add: q_def r_def)
  moreover have "push_bit 1 (of_nat r) > (of_nat t :: u_int64) \<longleftrightarrow> 2 * r > t"
  proof -
    have "push_bit 1 (of_nat r) = (of_nat (2 * r) :: u_int64)" by (simp add: push_bit_eq_mult)
    then show ?thesis using r t by (simp add: word_less_nat_alt unsigned_of_nat take_bit_nat_eq_self del: of_nat_mult)
  qed
  ultimately have "dec_fraction k (of_nat d) = of_nat (q + of_bool (2 * r > t))"
    using ten_to_the_n_eq [OF assms(2,3)] by (simp add: dec_fraction_def Let_def t_def)
  also have "q + of_bool (2 * r > t) = frac_units k d"
  proof -
    have "d * 4294967296 = q * t + r" by (simp add: q_def r_def)
    then have "2 * d * 2 ^ 32 + 10 ^ k = (2 * r + t) + q * (2 * t)" by (simp add: t_def)
    then have "frac_units k d = ((2 * r + t) + q * (2 * t)) div (2 * t)" by (simp only: frac_units_def t_def)
    also have "\<dots> = q + (2 * r + t) div (2 * t)" using t(2) by (intro div_mult_self1) simp
    finally have "frac_units k d = q + (2 * r + t) div (2 * t)" .
    moreover have "(2 * r + t) div (2 * t) = of_bool (2 * r > t)" using r by (auto intro!: div_nat_eqI)
    ultimately show ?thesis by simp
  qed
  finally show ?thesis .
qed

text \<open>A decimal text as units of \<open>2 ^ - 32\<close>: the integral digits, and the nearest fraction to the first nine decimal places.\<close>

definition dec_units :: "string \<Rightarrow> string \<Rightarrow> nat" where
  "dec_units ip fp = num 10 (map digit ip) * 2 ^ 32 + frac_units (length (take 9 fp)) (num 10 (map digit (take 9 fp)))"

definition signed_units :: "bool \<Rightarrow> nat \<Rightarrow> u_int64" where
  "signed_units neg n = (if neg then - of_nat n else of_nat n)"

lemma num_digits_less: "list_all isdigit cs \<Longrightarrow> num 10 (map digit cs) < 10 ^ length cs"
  using num_less [of "map digit cs" 10] by (auto simp: list_all_iff isdigit_digit)

lemma lfp_val_units:
  assumes "f < 4294967296"
  shows "lfp_val \<lparr>l_ui = ucast (of_nat n :: u_int64), l_uf = ucast (of_nat f :: u_int64)\<rparr> = of_nat (n * 4294967296 + f)"
proof -
  have u: "unat (ucast (of_nat x :: u_int64) :: u_int32) = x mod 4294967296" for x
    by (simp add: unsigned_ucast_eq unsigned_of_nat take_bit_eq_mod mod_mod_cancel)
  have "(n * 4294967296 + f) mod 18446744073709551616 = n mod 4294967296 * 4294967296 + f"
    using assms mod_mult2_eq [of "n * 4294967296 + f" 4294967296 4294967296] by simp
  then show ?thesis using assms
    by (simp add: lfp_val_def word_unat_eq_iff [where ?'a = 64] unat_cat64 u unsigned_of_nat take_bit_eq_mod mod_mod_cancel del: of_nat_add of_nat_mult)
qed

lemma M_NEG_long_eq:
  assumes "unat f < 4294967296" "M_NEG_long i f = (i', f')"
  shows "lfp_val \<lparr>l_ui = ucast i', l_uf = ucast f'\<rparr> = - lfp_val \<lparr>l_ui = ucast i, l_uf = ucast f\<rparr>"
proof -
  have z: "NOT f + 1 = 0 \<longleftrightarrow> NOT (ucast f :: u_int32) + 1 = 0"
  proof -
    have "NOT f + 1 = 0 \<longleftrightarrow> f = 0" by (simp add: not_eq_complement)
    also have "\<dots> \<longleftrightarrow> (ucast f :: u_int32) = 0"
      using assms(1) by (simp add: word_unat_eq_iff unsigned_ucast_eq take_bit_nat_eq_self)
    also have "\<dots> \<longleftrightarrow> NOT (ucast f :: u_int32) + 1 = 0" by (simp add: not_eq_complement)
    finally show ?thesis .
  qed
  have n: "(ucast (NOT x) :: u_int32) = NOT (ucast x)" for x :: u_int64
    by (rule bit_word_eqI) (simp add: bit_simps)
  have p: "(ucast (x + y) :: u_int32) = ucast x + ucast y" for x y :: u_int64
    by (simp add: word_uint_eq_iff uint_word_ariths unsigned_ucast_eq take_bit_eq_mod mod_mod_cancel mod_add_eq)
  have "M_NEG (ucast i) (ucast f) = (ucast i', ucast f')"
    using assms(2) z by (auto simp: M_NEG_long_def M_NEG_def Let_def n p)
  then show ?thesis using M_NEG_cat [of "ucast i" "ucast f"] by (simp add: lfp_val_def)
qed

lemma takeWhile_digits:
  assumes "list_all P xs" "ys = [] \<or> \<not> P (hd ys)"
  shows "takeWhile P (xs @ ys) = xs" "dropWhile P (xs @ ys) = ys"
proof -
  have "takeWhile P ys = [] \<and> dropWhile P ys = ys" using assms(2) by (cases ys) auto
  then show "takeWhile P (xs @ ys) = xs" "dropWhile P (xs @ ys) = ys"
    using assms(1) by (simp_all add: list_all_iff takeWhile_append2 dropWhile_append2)
qed

lemma list_all_takeWhile [simp]: "list_all P (takeWhile P xs)"
  by (auto simp: list_all_iff dest: set_takeWhileD)

lemma isspace_not_digit [simp]: "isspace c \<Longrightarrow> \<not> isdigit c"
  by (auto simp: isspace_def isdigit_def)

lemma char_classes [simp]:
  "\<not> isdigit (CHR ''.'')" "\<not> isspace (CHR ''.'')" "\<not> isspace (CHR ''-'')" "\<not> isspace (CHR ''+'')" "\<not> isdigit (CHR ''-'')" "\<not> isdigit (CHR ''+'')"
  by (simp_all add: isdigit_def isspace_def)

definition frac_syntax :: "string \<Rightarrow> string \<Rightarrow> string \<Rightarrow> bool" where
  "frac_syntax r dot fp \<longleftrightarrow> (\<exists>rest. r = dot @ fp @ rest \<and> list_all isdigit fp \<and> (dot = ''.'' \<or> dot = [] \<and> fp = []) \<and> (rest = [] \<or> isspace (hd rest)))"

lemma atolfp_frac_eq:
  "frac_syntax r dot fp \<Longrightarrow> atolfp_frac r = Some (length (take 9 fp), of_nat (num 10 (map digit (take 9 fp))))"
proof -
  assume "frac_syntax r dot fp"
  then obtain rest where r: "r = dot @ fp @ rest" "list_all isdigit fp" "dot = ''.'' \<or> dot = [] \<and> fp = []" "rest = [] \<or> isspace (hd rest)"
    by (auto simp: frac_syntax_def)
  have "rest = [] \<or> \<not> isdigit (hd rest)" using r(4) by auto
  then have w: "takeWhile isdigit (fp @ rest) = fp" "dropWhile isdigit (fp @ rest) = rest"
    using takeWhile_digits [OF r(2)] by auto
  from r(3) show ?thesis
  proof
    assume d: "dot = ''.''"
    obtain cp' where "read_frac 0 0 (fp @ rest) = (length (take 9 fp), of_nat (num 10 (map digit (take 9 fp))), cp')" "dropWhile isdigit cp' = rest"
      using read_frac_eq [of 0 0 "fp @ rest"] w by auto
    then show ?thesis using r(1,4) d by (auto simp: atolfp_frac_def)
  next
    assume "dot = [] \<and> fp = []"
    then show ?thesis using r(1,4) by (cases rest) (auto simp: atolfp_frac_def)
  qed
qed

lemma atolfp_frac_syntax: "atolfp_frac r \<noteq> None \<Longrightarrow> \<exists>dot fp. frac_syntax r dot fp"
proof (cases r)
  case Nil
  then show ?thesis by (auto simp: frac_syntax_def)
next
  case (Cons c cp)
  assume a: "atolfp_frac r \<noteq> None"
  show ?thesis
  proof (cases "isspace c")
    case True
    then show ?thesis using Cons by (intro exI [of _ "[]"]) (auto simp: frac_syntax_def)
  next
    case False
    then have c: "c = CHR ''.''" using a Cons by (auto simp: atolfp_frac_def split: if_splits)
    obtain n d cp' where "read_frac 0 0 cp = (n, d, cp')" "dropWhile isdigit cp' = dropWhile isdigit cp"
      using read_frac_eq [of 0 0 cp] by auto
    then have "atolfp_frac r = (if dropWhile isdigit cp \<noteq> [] \<and> \<not> isspace (hd (dropWhile isdigit cp)) then None else Some (n, d))"
      using Cons c by (simp add: atolfp_frac_def Let_def del: dropWhile_eq_Nil_conv)
    then have "dropWhile isdigit cp = [] \<or> isspace (hd (dropWhile isdigit cp))"
      using a by metis
    then show ?thesis using Cons c
      by (intro exI [of _ "''.''"] exI [of _ "takeWhile isdigit cp"]) (auto simp: frac_syntax_def intro!: exI [of _ "dropWhile isdigit cp"])
  qed
qed

text \<open>The texts of the reader: blanks, a sign, digits, a point and digits, and the end of the string or another blank.\<close>

definition decimal_syntax :: "string \<Rightarrow> string \<Rightarrow> string \<Rightarrow> string \<Rightarrow> bool" where
  "decimal_syntax str sg ip fp \<longleftrightarrow>
     (\<exists>sp dot r. str = sp @ sg @ ip @ r \<and> list_all isspace sp \<and> sg \<in> {[], ''-'', ''+'', ''-+''} \<and> list_all isdigit ip \<and>
        frac_syntax r dot fp \<and> (ip \<noteq> [] \<or> dot \<noteq> []))"

definition atolfp_number :: "bool \<Rightarrow> string \<Rightarrow> l_fp option" where
  "atolfp_number isneg cp =
     (if cp = [] \<or> hd cp \<noteq> CHR ''.'' \<and> \<not> isdigit (hd cp) then None
      else let (dec_i, cp) = read_dec 0 cp
           in case atolfp_frac cp of
                None \<Rightarrow> None
              | Some (ndec, dec_f) \<Rightarrow>
                  let dec_f = (if ndec > 0 then dec_fraction ndec dec_f else dec_f);
                      (dec_i, dec_f) = (if isneg then M_NEG_long dec_i dec_f else (dec_i, dec_f))
                  in Some \<lparr>l_ui = ucast dec_i, l_uf = ucast dec_f\<rparr>)"

lemma atolfp_number_eq:
  assumes "list_all isdigit ip" "frac_syntax r dot fp" "ip \<noteq> [] \<or> dot \<noteq> []"
  shows "\<exists>v. atolfp_number isneg (ip @ r) = Some v \<and> lfp_val v = signed_units isneg (dec_units ip fp)"
proof -
  obtain rest where r: "r = dot @ fp @ rest" "list_all isdigit fp" "dot = ''.'' \<or> dot = [] \<and> fp = []" "rest = [] \<or> isspace (hd rest)"
    using assms(2) by (auto simp: frac_syntax_def)
  have "r = [] \<or> \<not> isdigit (hd r)" using r by auto
  then have rd: "read_dec 0 (ip @ r) = (of_nat (num 10 (map digit ip)), r)"
    using read_dec_eq [of 0 "ip @ r"] takeWhile_digits [OF assms(1), of r] by simp
  have h: "ip @ r \<noteq> []" "hd (ip @ r) = CHR ''.'' \<or> isdigit (hd (ip @ r))"
    using assms(1,3) r(1,3) by (cases ip; auto)+
  define k d where "k = length (take 9 fp)" and "d = num 10 (map digit (take 9 fp))"
  have "list_all isdigit (take 9 fp)" using r(2) by (auto simp: list_all_iff dest: in_set_takeD)
  then have d: "d < 10 ^ k" "k \<le> 9" using num_digits_less [of "take 9 fp"] by (simp_all add: k_def d_def)
  have f: "(if k > 0 then dec_fraction k (of_nat d) else of_nat d) = of_nat (frac_units k d)"
    using dec_fraction_eq [OF d(1)] d by (auto simp: frac_units_def)
  define i f where "i = (of_nat (num 10 (map digit ip)) :: u_int64)" and "f = (of_nat (frac_units k d) :: u_int64)"
  have "lfp_val \<lparr>l_ui = ucast i, l_uf = ucast f\<rparr> = of_nat (dec_units ip fp)"
    using lfp_val_units [OF frac_units_less [OF d]] by (simp add: i_def f_def dec_units_def k_def d_def)
  moreover have "unat f < 4294967296" using frac_units_less [OF d] by (simp add: f_def unsigned_of_nat take_bit_nat_eq_self)
  ultimately have v: "\<exists>v. (let (dec_i, dec_f) = (if isneg then M_NEG_long i f else (i, f)) in Some \<lparr>l_ui = ucast dec_i, l_uf = ucast dec_f\<rparr>) = Some v \<and>
      lfp_val v = signed_units isneg (dec_units ip fp)"
    using M_NEG_long_eq [of f i] by (auto simp: signed_units_def Let_def split: prod.splits)
  have "atolfp_number isneg (ip @ r) = (let (dec_i, dec_f) = (if isneg then M_NEG_long i f else (i, f)) in Some \<lparr>l_ui = ucast dec_i, l_uf = ucast dec_f\<rparr>)"
    using h rd atolfp_frac_eq [OF assms(2)] f unfolding atolfp_number_def Let_def k_def [symmetric] d_def [symmetric] i_def f_def by auto
  then show ?thesis using v by simp
qed

lemma atolfp_number_syntax:
  assumes "atolfp_number isneg cp \<noteq> None"
  shows "\<exists>ip r dot fp. cp = ip @ r \<and> list_all isdigit ip \<and> frac_syntax r dot fp \<and> (ip \<noteq> [] \<or> dot \<noteq> [])"
proof -
  define ip r where "ip = takeWhile isdigit cp" and "r = dropWhile isdigit cp"
  have cp: "cp = ip @ r" "list_all isdigit ip" by (simp_all add: ip_def r_def)
  have "read_dec 0 cp = (of_nat (num 10 (map digit ip)), r)" using read_dec_eq [of 0 cp] by (simp add: ip_def r_def)
  then have h: "cp \<noteq> []" "hd cp = CHR ''.'' \<or> isdigit (hd cp)" "atolfp_frac r \<noteq> None"
    using assms by (auto simp: atolfp_number_def split: if_splits option.splits)
  then obtain dot fp where f: "frac_syntax r dot fp" using atolfp_frac_syntax by blast
  have "ip \<noteq> [] \<or> dot \<noteq> []"
  proof (rule ccontr)
    assume "\<not> ?thesis"
    then have "r = cp" "dot = []" using cp by auto
    then show False using f h by (auto simp: frac_syntax_def)
  qed
  then show ?thesis using cp f by blast
qed

lemma atolfp_signs:
  "atolfp str =
     (let cp = dropWhile isspace str;
          (isneg, cp) = (if take 1 cp = ''-'' then (True, tl cp) else (False, cp));
          cp = (if take 1 cp = ''+'' then tl cp else cp)
      in atolfp_number isneg cp)"
  by (simp add: atolfp_def atolfp_number_def Let_def)

lemma number_head:
  assumes "list_all isdigit ip" "frac_syntax r dot fp" "ip \<noteq> [] \<or> dot \<noteq> []"
  shows "take 1 (ip @ r) \<noteq> ''-''" "take 1 (ip @ r) \<noteq> ''+''" "ip @ r \<noteq> []" "\<not> isspace (hd (ip @ r))"
  using assms by (cases ip; auto simp: frac_syntax_def)+

lemma sign_split:
  "\<exists>sg cp'. cp = sg @ cp' \<and> sg \<in> {[], ''-'', ''+'', ''-+''} \<and>
     (let (isneg, cp) = (if take 1 cp = ''-'' then (True, tl cp) else (False, cp));
          cp = (if take 1 cp = ''+'' then tl cp else cp)
      in f isneg cp) = f (take 1 sg = ''-'') cp'"
proof -
  consider r where "cp = CHR ''-'' # CHR ''+'' # r" | r where "cp = CHR ''-'' # r" "take 1 r \<noteq> ''+''"
    | r where "cp = CHR ''+'' # r" | "take 1 cp \<noteq> ''-''" "take 1 cp \<noteq> ''+''"
  proof (cases cp)
    case Nil
    then show ?thesis using that(4) by simp
  next
    case (Cons c r)
    then show ?thesis using that by (cases "c = CHR ''-''"; cases "c = CHR ''+''"; cases r) auto
  qed
  then show ?thesis
  proof cases
    case (1 r)
    then show ?thesis by (intro exI [of _ "''-+''"] exI [of _ r]) simp
  next
    case (2 r)
    then show ?thesis by (intro exI [of _ "''-''"] exI [of _ r]) simp
  next
    case (3 r)
    then show ?thesis by (intro exI [of _ "''+''"] exI [of _ r]) simp
  next
    case 4
    then show ?thesis by (intro exI [of _ "[]"] exI [of _ cp]) simp
  qed
qed

lemma atolfp_text:
  assumes "decimal_syntax str sg ip fp"
  shows "\<exists>v. atolfp str = Some v \<and> lfp_val v = signed_units (take 1 sg = ''-'') (dec_units ip fp)"
proof -
  obtain sp dot r where str: "str = sp @ sg @ ip @ r" "list_all isspace sp" "sg \<in> {[], ''-'', ''+'', ''-+''}"
      "list_all isdigit ip" "frac_syntax r dot fp" "ip \<noteq> [] \<or> dot \<noteq> []"
    using assms unfolding decimal_syntax_def by blast
  note hd = number_head [OF str(4-6)]
  have "\<not> isspace (hd (sg @ ip @ r))" using str(3) hd by auto
  then have "dropWhile isspace str = sg @ ip @ r" using takeWhile_digits(2) [OF str(2)] str(1) by blast
  then have "atolfp str = atolfp_number (take 1 sg = ''-'') (ip @ r)" using str(3) hd by (auto simp: atolfp_signs)
  then show ?thesis using atolfp_number_eq [OF str(4-6), of "take 1 sg = ''-''"] by simp
qed

text \<open>
  C25: reading decimal numbers.  \<^verbatim>\<open>atolfp\<close> accepts exactly the texts made of blanks, an optional sign (or \<open>-+\<close>), digits with an
  optional point, and the end of the string or a blank; it returns the number, with the sign, whose fraction is the
  nearest multiple of \<open>2 ^ - 32\<close> to the first nine decimal places, the integral part modulo \<open>2 ^ 32\<close>.
\<close>
theorem atolfp_exact:
  "atolfp str = Some v \<longleftrightarrow>
     (\<exists>sg ip fp. decimal_syntax str sg ip fp \<and> lfp_val v = signed_units (take 1 sg = ''-'') (dec_units ip fp))"
proof
  assume a: "atolfp str = Some v"
  define sp cp where "sp = takeWhile isspace str" and "cp = dropWhile isspace str"
  obtain sg cp' where s: "cp = sg @ cp'" "sg \<in> {[], ''-'', ''+'', ''-+''}" "atolfp str = atolfp_number (take 1 sg = ''-'') cp'"
    using sign_split [of cp atolfp_number] unfolding atolfp_signs cp_def [symmetric] Let_def by blast
  have "atolfp_number (take 1 sg = ''-'') cp' \<noteq> None" using s(3) a by (metis option.distinct(1))
  then obtain ip r dot fp where n: "cp' = ip @ r" "list_all isdigit ip" "frac_syntax r dot fp" "ip \<noteq> [] \<or> dot \<noteq> []"
    using atolfp_number_syntax by blast
  have "str = sp @ sg @ ip @ r" using s(1) n(1) by (metis cp_def sp_def takeWhile_dropWhile_id)
  then have "decimal_syntax str sg ip fp" unfolding decimal_syntax_def using n s(2)
    by (intro exI [of _ sp] exI [of _ dot] exI [of _ r]) (simp add: sp_def)
  moreover have "lfp_val v = signed_units (take 1 sg = ''-'') (dec_units ip fp)"
    using atolfp_number_eq [OF n(2-4), of "take 1 sg = ''-''"] s(3) a n(1) by auto
  ultimately show "\<exists>sg ip fp. decimal_syntax str sg ip fp \<and> lfp_val v = signed_units (take 1 sg = ''-'') (dec_units ip fp)"
    by blast
next
  assume "\<exists>sg ip fp. decimal_syntax str sg ip fp \<and> lfp_val v = signed_units (take 1 sg = ''-'') (dec_units ip fp)"
  then show "atolfp str = Some v" using atolfp_text [of str] by (metis lfp_val_inject)
qed

section \<open>Round trips\<close>

lemma show_dec_digits: "list_all isdigit (show_dec n)" "map digit (show_dec n) = dec_digits n" "show_dec n \<noteq> []"
  using dec_digits_less [of n] by (auto simp: show_dec_def list_all_iff map_idI)

definition frac_text :: "nat \<Rightarrow> nat \<Rightarrow> string" where
  "frac_text k n = (if k = 0 then [] else map dchar (pad0 k (dec_digits (n mod 10 ^ k))))"

lemma pad0_digits_less: "\<forall>d \<in> set (pad0 k (dec_digits n)). d < 10"
  using dec_digits_less [of n] by (auto simp: pad0_def)

lemma frac_text_digits:
  "list_all isdigit (frac_text k n)" "length (frac_text k n) = k" "num 10 (map digit (frac_text k n)) = n mod 10 ^ k"
proof -
  have l: "k \<noteq> 0 \<Longrightarrow> length (dec_digits (n mod 10 ^ k)) \<le> k" by (intro length_dec_digits) simp_all
  show "list_all isdigit (frac_text k n)" using pad0_digits_less by (auto simp: frac_text_def list_all_iff)
  show "length (frac_text k n) = k" using l by (auto simp: frac_text_def pad0_def)
  have "map digit (map dchar (pad0 k (dec_digits (n mod 10 ^ k)))) = pad0 k (dec_digits (n mod 10 ^ k))"
    using pad0_digits_less [of k] by (auto intro: map_idI)
  then show "num 10 (map digit (frac_text k n)) = n mod 10 ^ k"
    by (auto simp: frac_text_def pad0_def)
qed

lemma fixed_point_text: "fixed_point k n = show_dec (n div 10 ^ k) @ (if k = 0 then [] else ''.'') @ frac_text k n"
  by (simp add: fixed_point_def frac_text_def)

definition units :: "nat \<Rightarrow> nat \<Rightarrow> nat" where
  "units k n = n div 10 ^ k * 2 ^ 32 + frac_units k (n mod 10 ^ k)"

lemma atolfp_fixed_point:
  assumes "k \<le> 9" "sg \<in> {[], ''-''}"
  shows "\<exists>v. atolfp (sg @ fixed_point k n) = Some v \<and> lfp_val v = signed_units (sg = ''-'') (units k n)"
proof -
  have t: "take 9 (frac_text k n) = frac_text k n" using assms(1) by (simp add: frac_text_digits)
  have u: "dec_units (show_dec (n div 10 ^ k)) (frac_text k n) = units k n"
    unfolding dec_units_def t by (simp add: units_def frac_text_digits show_dec_digits)
  have "frac_syntax ((if k = 0 then [] else ''.'') @ frac_text k n) (if k = 0 then [] else ''.'') (frac_text k n)"
    unfolding frac_syntax_def by (intro exI [of _ "[]"]) (auto simp: frac_text_digits(1), simp add: frac_text_def)
  then have "decimal_syntax (sg @ fixed_point k n) sg (show_dec (n div 10 ^ k)) (frac_text k n)"
    unfolding decimal_syntax_def fixed_point_text using assms(2) show_dec_digits
    by (intro exI [of _ "[]"] exI [of _ "if k = 0 then [] else ''.''"] exI [of _ "(if k = 0 then [] else ''.'') @ frac_text k n"]) auto
  moreover have "take 1 sg = ''-'' \<longleftrightarrow> sg = ''-''" using assms(2) by auto
  ultimately show ?thesis using atolfp_text [of "sg @ fixed_point k n" sg "show_dec (n div 10 ^ k)" "frac_text k n"] u by simp
qed

text \<open>The error of the two roundings.\<close>

lemma round_dec_bounds:
  assumes "0 < m"
  shows "2 * round_dec m k v * m \<le> 2 * v * 10 ^ k + m" "2 * v * 10 ^ k < 2 * round_dec m k v * m + m"
proof -
  define q r where "q = round_dec m k v" and "r = (2 * v * 10 ^ k + m) mod (2 * m)"
  have "2 * v * 10 ^ k + m = q * (2 * m) + r" unfolding q_def r_def round_dec_def by (simp only: div_mult_mod_eq)
  moreover have "r < 2 * m" using assms by (simp add: r_def)
  ultimately show "2 * round_dec m k v * m \<le> 2 * v * 10 ^ k + m" "2 * v * 10 ^ k < 2 * round_dec m k v * m + m"
    unfolding q_def [symmetric] by (simp_all add: ac_simps)
qed

lemma units_round: "units k n = (2 * n * 2 ^ 32 + 10 ^ k) div (2 * 10 ^ k)"
proof -
  define q r where "q = n div 10 ^ k" and "r = n mod 10 ^ k"
  have "n = q * 10 ^ k + r" unfolding q_def r_def by (rule div_mult_mod_eq [symmetric])
  then have "2 * n * 2 ^ 32 + 10 ^ k = (2 * r * 2 ^ 32 + 10 ^ k) + (q * 2 ^ 32) * (2 * 10 ^ k)" by (simp add: algebra_simps)
  then have "(2 * n * 2 ^ 32 + 10 ^ k) div (2 * 10 ^ k) = ((2 * r * 2 ^ 32 + 10 ^ k) + (q * 2 ^ 32) * (2 * 10 ^ k)) div (2 * 10 ^ k)"
    by (rule arg_cong)
  also have "\<dots> = q * 2 ^ 32 + (2 * r * 2 ^ 32 + 10 ^ k) div (2 * 10 ^ k)" by (intro div_mult_self1) simp
  finally have "(2 * n * 2 ^ 32 + 10 ^ k) div (2 * 10 ^ k) = q * 2 ^ 32 + (2 * r * 2 ^ 32 + 10 ^ k) div (2 * 10 ^ k)" .
  then show ?thesis by (simp add: units_def frac_units_def q_def r_def)
qed

lemma units_bounds: "2 * units k n * 10 ^ k \<le> 2 * n * 2 ^ 32 + 10 ^ k" "2 * n * 2 ^ 32 < 2 * units k n * 10 ^ k + 10 ^ k"
proof -
  define q r where "q = units k n" and "r = (2 * n * 2 ^ 32 + 10 ^ k) mod (2 * 10 ^ k)"
  have "2 * n * 2 ^ 32 + 10 ^ k = q * (2 * 10 ^ k) + r" unfolding q_def r_def units_round by (simp only: div_mult_mod_eq)
  moreover have "r < 2 * 10 ^ k" by (simp add: r_def)
  ultimately show "2 * units k n * 10 ^ k \<le> 2 * n * 2 ^ 32 + 10 ^ k" "2 * n * 2 ^ 32 < 2 * units k n * 10 ^ k + 10 ^ k"
    unfolding q_def [symmetric] by (simp_all add: ac_simps)
qed

lemma round_dec_units:
  assumes "k \<le> 9"
  shows "round_dec (2 ^ 32) k (units k n) = n"
proof -
  have p: "(10 :: nat) ^ k < 2 ^ 32" using power_increasing [OF assms, of "10 :: nat"] by simp
  have "n * (2 * 2 ^ 32) \<le> 2 * units k n * 10 ^ k + 2 ^ 32" "2 * units k n * 10 ^ k + 2 ^ 32 < Suc n * (2 * 2 ^ 32)"
    using units_bounds [where k = k and n = n] p by simp_all
  then show ?thesis unfolding round_dec_def by (intro div_nat_eqI) (simp_all add: mult.commute)
qed

lemma sint_signed_units: "n < 2 ^ 63 \<Longrightarrow> sint (signed_units neg n) = (if neg then - int n else int n)"
proof -
  assume n: "n < 2 ^ 63"
  have "sint (signed_units neg n) = s64 (if neg then - int n else int n)" by (simp add: signed_units_def s64_eq_sint)
  then show ?thesis using n s64_id [of "if neg then - int n else int n"] by (auto simp: in_s64_def)
qed

lemma units_less:
  assumes "k \<le> 9" "n < b * 10 ^ k"
  shows "units k n < b * 2 ^ 32"
proof -
  define u where "u = units k n"
  have p: "(10 :: nat) ^ k < 2 ^ 32" using power_increasing [OF assms(1), of "10 :: nat"] by simp
  have "(n + 1) * 2 ^ 33 \<le> b * 10 ^ k * 2 ^ 33" using assms(2) by (intro mult_le_mono1) simp
  moreover have "2 * u * 10 ^ k < (n + 1) * 2 ^ 33" using units_bounds(1) [of k n] p by (simp add: u_def [symmetric])
  ultimately have "2 * u * 10 ^ k < b * 10 ^ k * 2 ^ 33" by (rule less_le_trans [rotated])
  also have "\<dots> = 2 * (b * 2 ^ 32) * 10 ^ k" by simp
  finally show ?thesis unfolding u_def by (simp only: mult_less_cancel2 mult_less_cancel1)
qed

text \<open>
  C26: decimal texts survive.  A signed decimal number with up to nine places and an integral part below \<open>2 ^ 31\<close> that is
  read with \<^verbatim>\<open>atolfp\<close> and written again with the same number of places is the same text.
\<close>
theorem decimal_text_roundtrip:
  assumes "k \<le> 9" "n < 2 ^ 31 * 10 ^ k" "n \<noteq> 0 \<or> sg = []" "sg = [] \<or> sg = ''-''"
  shows "\<exists>v. atolfp (sg @ fixed_point k n) = Some v \<and> mfptoa (l_ui v) (l_uf v) (int k) = Some (sg @ fixed_point k n)"
proof -
  obtain v where v: "atolfp (sg @ fixed_point k n) = Some v" "lfp_val v = signed_units (sg = ''-'') (units k n)"
    using atolfp_fixed_point [OF assms(1), of sg n] assms(4) by auto
  have "units k n < 2 ^ 31 * 2 ^ 32" using assms by (intro units_less)
  then have s: "sint (lfp_val v) = (if sg = ''-'' then - int (units k n) else int (units k n))"
    using v(2) sint_signed_units [of "units k n"] by simp
  have "round_dec (2 ^ 32) k (units k n) = n" by (rule round_dec_units [OF assms(1)])
  moreover have "round_dec (2 ^ 32) k 0 = 0" by (simp add: round_dec_def)
  then have "units k n \<noteq> 0" if "n \<noteq> 0"
    using round_dec_units [OF assms(1), of n] that by metis
  moreover have "min 14 k = k" using assms(1) by simp
  ultimately show ?thesis using v(1) s mfptoa_eq [of v "int k"] assms(3,4) by (intro exI [of _ v]) auto
qed

theorem decimal_text_roundtrip_witness:
  "\<exists>v. atolfp (''-'' @ fixed_point 3 1005) = Some v \<and> mfptoa (l_ui v) (l_uf v) 3 = Some (''-'' @ fixed_point 3 1005)"
  using decimal_text_roundtrip [of 3 1005 "''-''"] by simp

text \<open>
  Stamps survive up to rounding.  A signed stamp written with \<open>k\<close> decimal places, at most nine, and read again
  differs from the original by at most half a unit of the last place and half a unit of \<open>2 ^ - 32\<close>.
\<close>
theorem stamp_text_error:
  assumes "k \<le> 9" "\<bar>sint (lfp_val v)\<bar> < 2 ^ 62"
  shows "\<exists>s w. mfptoa (l_ui v) (l_uf v) (int k) = Some s \<and> atolfp s = Some w \<and>
    2 * 10 ^ k * \<bar>sint (lfp_val w) - sint (lfp_val v)\<bar> \<le> 2 ^ 32 + 10 ^ k"
proof -
  define a where "a = nat \<bar>sint (lfp_val v)\<bar>"
  define n where "n = round_dec (2 ^ 32) k a"
  define sg where "sg = (if sint (lfp_val v) < 0 then ''-'' else [])"
  have sg: "sg \<in> {[], ''-''}" by (simp add: sg_def)
  have m: "mfptoa (l_ui v) (l_uf v) (int k) = Some (sg @ fixed_point k n)"
    using mfptoa_eq [of v "int k"] assms(1) by (simp add: sg_def n_def a_def min_absorb2)
  obtain w where w: "atolfp (sg @ fixed_point k n) = Some w" "lfp_val w = signed_units (sg = ''-'') (units k n)"
    using atolfp_fixed_point [OF assms(1), of sg n] sg by blast
  note b = round_dec_bounds [where m = "2 ^ 32" and k = k and v = a, folded n_def] units_bounds [where k = k and n = n]
  define u where "u = units k n"
  have e1: "2 * u * 10 ^ k \<le> 2 * a * 10 ^ k + 2 ^ 32 + 10 ^ k" using b by (simp add: u_def)
  have e2: "2 * a * 10 ^ k \<le> 2 * u * 10 ^ k + 2 ^ 32 + 10 ^ k" using b by (simp add: u_def)
  have a: "a < 2 ^ 62" using assms(2) by (simp add: a_def nat_less_iff)
  have p: "(10 :: nat) ^ k \<ge> 1" by simp
  have "u < 2 ^ 63"
  proof (rule ccontr)
    assume "\<not> ?thesis"
    then have "2 * (a + 2 ^ 33) * 10 ^ k \<le> 2 * u * 10 ^ k" using a by (intro mult_le_mono1) simp
    then have "2 ^ 34 * (10 :: nat) ^ k \<le> 2 ^ 32 + 10 ^ k" using e1 by (simp add: distrib_left distrib_right)
    then show False using p by simp
  qed
  then have s: "sint (lfp_val w) = (if sg = ''-'' then - int u else int u)" using w(2) sint_signed_units [of u] by (simp add: u_def)
  have "\<bar>sint (lfp_val w) - sint (lfp_val v)\<bar> = \<bar>int u - int a\<bar>" using s by (auto simp: sg_def a_def)
  moreover have "2 * 10 ^ k * \<bar>int u - int a\<bar> \<le> 2 ^ 32 + 10 ^ k"
  proof -
    have "int (2 * u * 10 ^ k) \<le> int (2 * a * 10 ^ k + 2 ^ 32 + 10 ^ k)" "int (2 * a * 10 ^ k) \<le> int (2 * u * 10 ^ k + 2 ^ 32 + 10 ^ k)"
      using e1 e2 by (simp_all only: of_nat_le_iff)
    then show ?thesis by (cases "int u \<ge> int a") (simp_all add: algebra_simps)
  qed
  ultimately show ?thesis using m w(1) by auto
qed

theorem stamp_text_error_witness:
  "\<exists>s w. mfptoa 5 7 6 = Some s \<and> atolfp s = Some w \<and> 2 * 10 ^ 6 * \<bar>sint (lfp_val w) - 21474836487\<bar> \<le> 2 ^ 32 + 10 ^ 6"
proof -
  have "sint (lfp_val \<lparr>l_ui = 5, l_uf = 7\<rparr>) = 21474836487" by code_simp
  then show ?thesis using stamp_text_error [of 6 "\<lparr>l_ui = 5, l_uf = 7\<rparr>"] by simp
qed

section \<open>Milliseconds\<close>

lemma ms_puts_None [simp]: "ms_puts None cs = None"
  by (induction cs) (simp_all add: ms_puts_def ms_put_def)

lemma ms_puts_eq: "length s \<le> 100 \<Longrightarrow> ms_puts (Some s) cs = (if length s + length cs \<le> 100 then Some (s @ cs) else None)"
proof (induction cs arbitrary: s)
  case (Cons c cs)
  show ?case
  proof (cases "length s < 100")
    case True
    then show ?thesis using Cons.IH [of "s @ [c]"] by (simp add: ms_puts_def ms_put_def)
  next
    case False
    then have "ms_put (Some s) c = None" by (simp add: ms_put_def)
    then show ?thesis using False Cons.prems ms_puts_None [of cs] by (simp add: ms_puts_def)
  qed
qed (simp add: ms_puts_def)

lemma ms_put_puts: "ms_put b c = ms_puts b [c]"
  by (simp add: ms_puts_def)

lemma ms_puts_append: "ms_puts (ms_puts b xs) ys = ms_puts b (xs @ ys)"
  by (simp add: ms_puts_def)

text \<open>The digits before and after the point of the copy.\<close>

definition ms_int :: "string \<Rightarrow> string" where
  "ms_int ip = (if length ip > 3 then take (length ip - 3) ip else ''0'')"

definition ms_frac :: "string \<Rightarrow> string" where
  "ms_frac ip = replicate (3 - length ip) (CHR ''0'') @ drop (length ip - 3) ip"

lemma ms_copy_eq: "ms_copy buf ip = ms_puts buf (ms_int ip @ ''.'' @ ms_frac ip)"
  by (simp add: ms_copy_def Let_def ms_put_puts ms_puts_append ms_int_def ms_frac_def)

definition ms_text :: "string \<Rightarrow> string \<Rightarrow> string \<Rightarrow> string" where
  "ms_text sg ip fp = sg @ ms_int ip @ ''.'' @ ms_frac ip @ fp"

lemma mstolfp_eq:
  assumes "cp = ip @ r" "list_all isdigit ip" "r = [] \<or> \<not> isdigit (hd r)" "cp \<noteq> []" "hd cp = CHR ''.'' \<or> isdigit (hd cp)"
    and "dropWhile isspace str = sg @ cp" "sg \<in> {[], ''-''}"
    and "(fp, rest) = (if take 1 r = ''.'' then (takeWhile isdigit (tl r), dropWhile isdigit (tl r)) else ([], r))"
  shows "mstolfp str =
    (if length (ms_text sg ip fp) \<ge> 100 then None
     else if rest \<noteq> [] \<and> \<not> isspace (hd rest) then Some None
     else Some (atolfp (ms_text sg ip fp)))"
proof -
  have ip: "takeWhile isdigit cp = ip" "dropWhile isdigit cp = r" using takeWhile_digits [OF assms(2,3)] assms(1) by simp_all
  have h: "take 1 cp \<noteq> ''-''" using assms(4,5) by (cases cp) auto
  have b: "(if take 1 (sg @ cp) = ''-'' then (ms_put (Some []) (CHR ''-''), tl (sg @ cp)) else (Some [], sg @ cp)) = (ms_puts (Some []) sg, cp)"
  proof (cases "sg = []")
    case True
    then show ?thesis using h by (simp add: ms_puts_def)
  next
    case False
    then show ?thesis using assms(7) by (simp add: ms_put_puts)
  qed
  have l: "ms_puts (Some []) s = (if length s \<le> 100 then Some s else None)" for s using ms_puts_eq [of "[]" s] by simp
  have nh: "(cp = [] \<or> hd cp \<noteq> CHR ''.'' \<and> \<not> isdigit (hd cp)) = False" using assms(4,5) by blast
  have "mstolfp str = (case ms_puts (Some []) (ms_text sg ip fp) of None \<Rightarrow> None
      | Some s \<Rightarrow> if length s \<ge> 100 then None else if rest \<noteq> [] \<and> \<not> isspace (hd rest) then Some None else Some (atolfp s))"
    using assms(8) unfolding mstolfp_def assms(6) Let_def b case_prod_conv ip nh ms_copy_eq
    by (cases "take 1 r = ''.''") (simp_all add: ms_puts_append ms_text_def split: option.split)
  then show ?thesis unfolding l by simp
qed

lemma ms_frac_length [simp]: "length (ms_frac ip) = 3"
  by (auto simp: ms_frac_def)

lemma ms_digits:
  assumes "list_all isdigit ip"
  shows "list_all isdigit (ms_int ip)" "list_all isdigit (ms_frac ip)" "ms_int ip \<noteq> []"
    "num 10 (map digit ip) = num 10 (map digit (ms_int ip)) * 1000 + num 10 (map digit (ms_frac ip))"
proof -
  have z: "isdigit (CHR ''0'')" "digit (CHR ''0'') = 0" by (simp_all add: isdigit_def digit_def)
  show "list_all isdigit (ms_int ip)" "list_all isdigit (ms_frac ip)" "ms_int ip \<noteq> []"
    using assms z by (auto simp: ms_int_def ms_frac_def list_all_iff dest: in_set_takeD in_set_dropD)
  show "num 10 (map digit ip) = num 10 (map digit (ms_int ip)) * 1000 + num 10 (map digit (ms_frac ip))"
  proof (cases "length ip > 3")
    case True
    then have "ip = ms_int ip @ ms_frac ip" by (simp add: ms_int_def ms_frac_def)
    then have "num 10 (map digit ip) = num_from 10 (num 10 (map digit (ms_int ip))) (map digit (ms_frac ip))"
      by (metis map_append num_from_simps(3))
    then show ?thesis using num_from_split [of 10 "num 10 (map digit (ms_int ip))" "map digit (ms_frac ip)"] by simp
  next
    case False
    then show ?thesis using z by (simp add: ms_int_def ms_frac_def)
  qed
qed

lemma ms_units:
  assumes "list_all isdigit ip" "list_all isdigit fp"
  shows "dec_units (ms_int ip) (ms_frac ip @ fp) = units (length (take 6 fp) + 3) (num 10 (map digit (ip @ take 6 fp)))"
proof -
  define j F where "j = length (take 6 fp)" and "F = ms_frac ip @ take 6 fp"
  have t: "take 9 (ms_frac ip @ fp) = F" "length F = j + 3" by (simp_all add: F_def j_def)
  have "list_all isdigit F" using ms_digits(2) [OF assms(1)] assms(2) by (auto simp: F_def list_all_iff dest: in_set_takeD)
  then have l: "num 10 (map digit F) < 10 ^ (j + 3)" using num_digits_less [of F] t(2) by simp
  have "num 10 (map digit (ip @ take 6 fp)) = num 10 (map digit (ms_int ip)) * 10 ^ (j + 3) + num 10 (map digit F)"
    using ms_digits(4) [OF assms(1)] num_from_split [of 10 "num 10 (map digit ip)" "map digit (take 6 fp)"]
      num_from_split [of 10 "num 10 (map digit (ms_frac ip))" "map digit (take 6 fp)"]
    by (simp add: F_def j_def power_add algebra_simps)
  then have "num 10 (map digit (ip @ take 6 fp)) div 10 ^ (j + 3) = num 10 (map digit (ms_int ip))"
    "num 10 (map digit (ip @ take 6 fp)) mod 10 ^ (j + 3) = num 10 (map digit F)" using l by simp_all
  then show ?thesis unfolding dec_units_def units_def t j_def [symmetric] by simp
qed

text \<open>
  Reading milliseconds.  On a decimal text with an optional minus sign, \<^verbatim>\<open>mstolfp\<close> returns the number divided by 1000,
  as the nearest stamp to its first six decimal places, when the rearranged text fits the buffer of 100
  characters, and otherwise writes past the buffer; every text it accepts is of this form.
\<close>
theorem mstolfp_milliseconds:
  "(decimal_syntax str sg ip fp \<and> sg \<in> {[], ''-''} \<longrightarrow>
      (if length sg + max 1 (length ip - 3) + 4 + length fp < 100
       then \<exists>v. mstolfp str = Some (Some v) \<and>
         lfp_val v = signed_units (sg = ''-'') (units (length (take 6 fp) + 3) (num 10 (map digit (ip @ take 6 fp))))
       else mstolfp str = None)) \<and>
   (mstolfp str = Some (Some v) \<longrightarrow> (\<exists>sg ip fp. decimal_syntax str sg ip fp \<and> sg \<in> {[], ''-''}))"
proof (intro conjI impI)
  assume a: "decimal_syntax str sg ip fp \<and> sg \<in> {[], ''-''}"
  then obtain sp dot r where str: "str = sp @ sg @ ip @ r" "list_all isspace sp" "list_all isdigit ip" "frac_syntax r dot fp" "ip \<noteq> [] \<or> dot \<noteq> []"
    and sg: "sg \<in> {[], ''-''}" unfolding decimal_syntax_def by blast
  obtain rest where r: "r = dot @ fp @ rest" "list_all isdigit fp" "dot = ''.'' \<or> dot = [] \<and> fp = []" "rest = [] \<or> isspace (hd rest)"
    using str(4) by (auto simp: frac_syntax_def)
  note hd = number_head [OF str(3-5)]
  have sp: "dropWhile isspace str = sg @ ip @ r" using takeWhile_digits(2) [OF str(2), of "sg @ ip @ r"] sg hd str(1) by auto
  have nd: "r = [] \<or> \<not> isdigit (hd r)" "rest = [] \<or> \<not> isdigit (hd rest)" using r by auto
  have h: "hd (ip @ r) = CHR ''.'' \<or> isdigit (hd (ip @ r))" using str(3,5) r(1,3) by (cases ip) auto
  have f: "(fp, rest) = (if take 1 r = ''.'' then (takeWhile isdigit (tl r), dropWhile isdigit (tl r)) else ([], r))"
    using r(3)
  proof
    assume "dot = ''.''"
    then show ?thesis using r(1) takeWhile_digits [OF r(2) nd(2)] by simp
  next
    assume "dot = [] \<and> fp = []"
    then show ?thesis using r(1,4) by (cases rest) auto
  qed
  have len: "length (ms_text sg ip fp) = length sg + max 1 (length ip - 3) + 4 + length fp"
    by (auto simp: ms_text_def ms_int_def)
  have eq: "mstolfp str = (if length sg + max 1 (length ip - 3) + 4 + length fp \<ge> 100 then None else Some (atolfp (ms_text sg ip fp)))"
    using mstolfp_eq [OF refl str(3) nd(1) hd(3) h sp sg f] r(4) unfolding len by auto
  have "frac_syntax (''.'' @ ms_frac ip @ fp) ''.'' (ms_frac ip @ fp)"
    unfolding frac_syntax_def using ms_digits(2) [OF str(3)] r(2) by simp
  then have "decimal_syntax (ms_text sg ip fp) sg (ms_int ip) (ms_frac ip @ fp)"
    unfolding decimal_syntax_def ms_text_def using sg ms_digits [OF str(3)]
    by (intro exI [of _ "[]"] exI [of _ "''.''"] exI [of _ "''.'' @ ms_frac ip @ fp"]) auto
  moreover have "take 1 sg = ''-'' \<longleftrightarrow> sg = ''-''" using sg by auto
  ultimately have "\<exists>v. atolfp (ms_text sg ip fp) = Some v \<and>
      lfp_val v = signed_units (sg = ''-'') (units (length (take 6 fp) + 3) (num 10 (map digit (ip @ take 6 fp))))"
    using atolfp_text [of "ms_text sg ip fp" sg "ms_int ip" "ms_frac ip @ fp"] ms_units [OF str(3) r(2)] by simp
  then show "if length sg + max 1 (length ip - 3) + 4 + length fp < 100
       then \<exists>v. mstolfp str = Some (Some v) \<and>
         lfp_val v = signed_units (sg = ''-'') (units (length (take 6 fp) + 3) (num 10 (map digit (ip @ take 6 fp))))
       else mstolfp str = None" using eq by auto
next
  assume a: "mstolfp str = Some (Some v)"
  define sp cp where "sp = takeWhile isspace str" and "cp = dropWhile isspace str"
  obtain sg cp' where s: "cp = sg @ cp'" "sg \<in> {[], ''-''}" "take 1 cp = ''-'' \<longleftrightarrow> sg = ''-''"
  proof (cases "take 1 cp = ''-''")
    case True
    then show ?thesis using that [of "''-''" "tl cp"] by (cases cp) auto
  next
    case False
    then show ?thesis using that [of "[]" cp] by auto
  qed
  define ip r where "ip = takeWhile isdigit cp'" and "r = dropWhile isdigit cp'"
  define fr where "fr = (if take 1 r = ''.'' then (takeWhile isdigit (tl r), dropWhile isdigit (tl r)) else ([], r))"
  define fp rest where "fp = fst fr" and "rest = snd fr"
  have f: "(fp, rest) = (if take 1 r = ''.'' then (takeWhile isdigit (tl r), dropWhile isdigit (tl r)) else ([], r))"
    by (simp add: fp_def rest_def fr_def)
  have cp': "cp' = ip @ r" "list_all isdigit ip" by (simp_all add: ip_def r_def)
  have nd: "r = [] \<or> \<not> isdigit (hd r)" using hd_dropWhile [of isdigit cp'] unfolding r_def by blast
  have d: "dropWhile isspace str = sg @ cp'" using s(1) by (simp add: cp_def)
  have "(let (buf, cp) = (if take 1 (sg @ cp') = ''-'' then (ms_put (Some []) (CHR ''-''), tl (sg @ cp')) else (Some [], sg @ cp')) in cp) = cp'"
    using s by auto
  then have h: "\<not> (cp' = [] \<or> hd cp' \<noteq> CHR ''.'' \<and> \<not> isdigit (hd cp'))"
    using a unfolding mstolfp_def d Let_def by (auto split: if_splits prod.splits)
  then have rest: "rest = [] \<or> isspace (hd rest)"
    using mstolfp_eq [OF cp' nd _ _ d s(2) f] a by (auto split: if_splits)
  have "frac_syntax r (if take 1 r = ''.'' then ''.'' else []) fp"
  proof (cases "take 1 r = ''.''")
    case True
    then have "r = CHR ''.'' # tl r" by (cases r) auto
    moreover have "tl r = fp @ rest" using f True by simp
    ultimately have "r = ''.'' @ fp @ rest" by simp
    moreover have "list_all isdigit fp" using f True by simp
    ultimately show ?thesis using True rest unfolding frac_syntax_def by (intro exI [of _ rest]) simp
  next
    case False
    then show ?thesis using f rest unfolding frac_syntax_def by simp
  qed
  moreover have "ip \<noteq> [] \<or> take 1 r = ''.''" using h cp' nd by (cases r) auto
  moreover have "str = sp @ sg @ ip @ r" using d cp'(1) takeWhile_dropWhile_id [of isspace str] by (simp add: sp_def)
  ultimately have "decimal_syntax str sg ip fp"
    unfolding decimal_syntax_def using s(2) cp'(2)
    by (intro exI [of _ sp] exI [of _ "if take 1 r = ''.'' then ''.'' else []"] exI [of _ r]) (auto simp: sp_def)
  then show "\<exists>sg ip fp. decimal_syntax str sg ip fp \<and> sg \<in> {[], ''-''}" using s(2) by blast
qed

theorem mstolfp_milliseconds_witness:
  "mstolfp (replicate 100 (CHR ''7'')) = None \<and> (\<exists>v. mstolfp ''-1500'' = Some (Some v) \<and> lfp_val v = signed_units True (units 3 1500))"
proof -
  have d: "isdigit (CHR ''7'')" "isdigit (CHR ''1'')" "isdigit (CHR ''5'')" "isdigit (CHR ''0'')"
    "digit (CHR ''1'') = 1" "digit (CHR ''5'') = 5" "digit (CHR ''0'') = 0" by (simp_all add: isdigit_def digit_def)
  have e: "frac_syntax [] [] []" by (simp add: frac_syntax_def)
  have "decimal_syntax (replicate 100 (CHR ''7'')) [] (replicate 100 (CHR ''7'')) []"
    unfolding decimal_syntax_def using e d by (intro exI [of _ "[]"]) (auto simp: list_all_iff)
  moreover have "decimal_syntax ''-1500'' ''-'' ''1500'' []"
    unfolding decimal_syntax_def using e d by (intro exI [of _ "[]"]) auto
  ultimately show ?thesis
    using mstolfp_milliseconds [of "replicate 100 (CHR ''7'')" "[]" "replicate 100 (CHR ''7'')" "[]"]
      mstolfp_milliseconds [of "''-1500''" "''-''" "''1500''" "[]"] d by simp
qed

section \<open>Hexadecimal stamps\<close>

lemma read_hex_eq:
  "read_hex n (of_nat u) cp =
     (let ds = take n (takeWhile isxdigit cp)
      in (of_nat (num_from 16 u (map xdigit ds)), n - length ds, drop (length ds) cp))"
proof (induction n arbitrary: u cp)
  case (Suc n)
  show ?case
  proof (cases cp)
    case (Cons c cs)
    have "push_bit 4 (of_nat u) + of_nat (xdigit c) = (of_nat (16 * u + xdigit c) :: u_int64)" by (simp add: push_bit_eq_mult)
    then show ?thesis using Cons Suc [of "16 * u + xdigit c" cs] by (simp add: Let_def del: of_nat_add of_nat_mult)
  qed simp
qed (simp add: Let_def)

lemma read_hex8:
  "read_hex 8 0 cp = (u, 0, cp') \<longleftrightarrow>
     (\<exists>h. cp = h @ cp' \<and> length h = 8 \<and> list_all isxdigit h \<and> u = of_nat (num 16 (map xdigit h)))"
proof -
  define ds where "ds = take 8 (takeWhile isxdigit cp)"
  have e: "read_hex 8 0 cp = (of_nat (num 16 (map xdigit ds)), 8 - length ds, drop (length ds) cp)"
    using read_hex_eq [of 8 0 cp] by (simp add: Let_def ds_def)
  obtain m where "takeWhile isxdigit cp = take m cp" using takeWhile_eq_take by blast
  then have "ds = take (min 8 m) cp" by (simp add: ds_def)
  then have p: "take (length ds) cp = ds" by (cases "min 8 m \<le> length cp") (auto simp: min_def)
  have d: "list_all isxdigit ds" by (auto simp: ds_def list_all_iff dest!: in_set_takeD set_takeWhileD)
  show ?thesis
  proof
    assume a: "read_hex 8 0 cp = (u, 0, cp')"
    then have "length ds = 8" using e by (simp add: ds_def)
    then show "\<exists>h. cp = h @ cp' \<and> length h = 8 \<and> list_all isxdigit h \<and> u = of_nat (num 16 (map xdigit h))"
      using a e d p by (intro exI [of _ ds]) (metis append_take_drop_id prod.inject)
  next
    assume "\<exists>h. cp = h @ cp' \<and> length h = 8 \<and> list_all isxdigit h \<and> u = of_nat (num 16 (map xdigit h))"
    then obtain h where h: "cp = h @ cp'" "length h = 8" "list_all isxdigit h" "u = of_nat (num 16 (map xdigit h))" by blast
    then have "ds = h" by (simp add: ds_def list_all_iff takeWhile_append2)
    then show "read_hex 8 0 cp = (u, 0, cp')" using e h by simp
  qed
qed

lemma num16_less: "list_all isxdigit h \<Longrightarrow> num 16 (map xdigit h) < 16 ^ length h"
  using num_less [of "map xdigit h" 16] by (auto simp: list_all_iff isxdigit_xdigit)

lemma hex_lfp:
  assumes "length h = 8" "length g = 8" "list_all isxdigit h" "list_all isxdigit g"
  shows "unat (lfp_val \<lparr>l_ui = ucast (of_nat (num 16 (map xdigit h)) :: u_int64), l_uf = ucast (of_nat (num 16 (map xdigit g)) :: u_int64)\<rparr>) =
    num 16 (map xdigit (h @ g))"
proof -
  define a b where "a = num 16 (map xdigit h)" and "b = num 16 (map xdigit g)"
  have l: "a < 4294967296" "b < 4294967296" using num16_less [OF assms(3)] num16_less [OF assms(4)] assms(1,2) by (simp_all add: a_def b_def)
  have "num 16 (map xdigit (h @ g)) = a * 4294967296 + b"
    using num_from_split [of 16 a "map xdigit g"] assms(2) by (simp add: a_def b_def)
  moreover have "a * 4294967296 + b < 18446744073709551616" using l by linarith
  ultimately show ?thesis
    using lfp_val_units [OF l(2), of a] unfolding a_def [symmetric] b_def [symmetric]
    by (simp add: unsigned_of_nat take_bit_nat_eq_self del: of_nat_add of_nat_mult)
qed

lemma hextolfp_iff:
  "hextolfp str = Some v \<longleftrightarrow>
     (\<exists>sp h dot g rest. str = sp @ h @ dot @ g @ rest \<and> list_all isspace sp \<and> length h = 8 \<and> length g = 8 \<and> list_all isxdigit (h @ g) \<and>
        dot \<in> {[], ''.''} \<and> (rest = [] \<or> isspace (hd rest)) \<and> unat (lfp_val v) = num 16 (map xdigit (h @ g)))"
proof
  assume a: "hextolfp str = Some v"
  define sp cp where "sp = takeWhile isspace str" and "cp = dropWhile isspace str"
  obtain u m cp1 where r1: "read_hex 8 0 cp = (u, m, cp1)" by (cases "read_hex 8 0 cp")
  define dot cp2 where "dot = (if take 1 cp1 = ''.'' then ''.'' else [])" and "cp2 = (if take 1 cp1 = ''.'' then tl cp1 else cp1)"
  obtain w k rest where r2: "read_hex 8 0 cp2 = (w, k, rest)" by (cases "read_hex 8 0 cp2")
  have z: "m = 0" "k = 0" "rest = [] \<or> isspace (hd rest)" "v = \<lparr>l_ui = ucast u, l_uf = ucast w\<rparr>"
    using a r2 unfolding hextolfp_def cp_def [symmetric] Let_def r1 case_prod_conv cp2_def [symmetric] r2 by (auto split: if_splits)
  obtain h where h: "cp = h @ cp1" "length h = 8" "list_all isxdigit h" "u = of_nat (num 16 (map xdigit h))"
    using r1 z(1) read_hex8 by blast
  obtain g where g: "cp2 = g @ rest" "length g = 8" "list_all isxdigit g" "w = of_nat (num 16 (map xdigit g))"
    using r2 z(2) read_hex8 by blast
  have "cp1 = dot @ cp2" by (cases cp1) (auto simp: dot_def cp2_def)
  then have "str = sp @ h @ dot @ g @ rest" using h(1) g(1) takeWhile_dropWhile_id [of isspace str] by (simp add: sp_def cp_def)
  moreover have "dot \<in> {[], ''.''}" "list_all isspace sp" by (simp_all add: dot_def sp_def)
  ultimately show "\<exists>sp h dot g rest. str = sp @ h @ dot @ g @ rest \<and> list_all isspace sp \<and> length h = 8 \<and> length g = 8 \<and> list_all isxdigit (h @ g) \<and>
        dot \<in> {[], ''.''} \<and> (rest = [] \<or> isspace (hd rest)) \<and> unat (lfp_val v) = num 16 (map xdigit (h @ g))"
    using h g z hex_lfp [OF h(2) g(2) h(3) g(3)] by (intro exI [of _ sp] exI [of _ h] exI [of _ dot] exI [of _ g] exI [of _ rest]) simp
next
  assume "\<exists>sp h dot g rest. str = sp @ h @ dot @ g @ rest \<and> list_all isspace sp \<and> length h = 8 \<and> length g = 8 \<and> list_all isxdigit (h @ g) \<and>
        dot \<in> {[], ''.''} \<and> (rest = [] \<or> isspace (hd rest)) \<and> unat (lfp_val v) = num 16 (map xdigit (h @ g))"
  then obtain sp h dot g rest where str: "str = sp @ h @ dot @ g @ rest" "list_all isspace sp" "length h = 8" "length g = 8"
      "list_all isxdigit h" "list_all isxdigit g" "dot \<in> {[], ''.''}" "rest = [] \<or> isspace (hd rest)"
      "unat (lfp_val v) = num 16 (map xdigit (h @ g))" unfolding list_all_append by blast
  have nx: "\<not> isxdigit (CHR ''.'')" "isspace c \<Longrightarrow> \<not> isxdigit c" for c by (auto simp: isxdigit_def isdigit_def isspace_def)
  obtain c h' where h: "h = c # h'" "isxdigit c" using str(3,5) by (cases h) auto
  obtain d g' where g: "g = d # g'" "isxdigit d" using str(4,6) by (cases g) auto
  have "\<not> isspace (hd (h @ dot @ g @ rest))" using h nx(2) [of c] by auto
  then have cp: "dropWhile isspace str = h @ dot @ g @ rest" using takeWhile_digits(2) [OF str(2)] str(1) by blast
  have r1: "read_hex 8 0 (h @ dot @ g @ rest) = (of_nat (num 16 (map xdigit h)), 0, dot @ g @ rest)" using str(3,5) read_hex8 by blast
  have r2: "read_hex 8 0 (g @ rest) = (of_nat (num 16 (map xdigit g)), 0, rest)" using str(4,6) read_hex8 by blast
  have "(if take 1 (dot @ g @ rest) = ''.'' then tl (dot @ g @ rest) else dot @ g @ rest) = g @ rest" using str(7) g nx(1) by auto
  then have "hextolfp str = Some \<lparr>l_ui = ucast (of_nat (num 16 (map xdigit h)) :: u_int64), l_uf = ucast (of_nat (num 16 (map xdigit g)) :: u_int64)\<rparr>"
    using r1 r2 str(8) unfolding hextolfp_def cp Let_def by auto
  moreover have "\<dots> = Some v"
    using hex_lfp [OF str(3,4,5,6)] str(9) by (metis lfp_val_inject word_unat_eq_iff)
  ultimately show "hextolfp str = Some v" by simp
qed

text \<open>The output of \<^verbatim>\<open>%08lx\<close>.\<close>

fun hex_text :: "nat \<Rightarrow> nat \<Rightarrow> string" where
  "hex_text 0 n = []"
| "hex_text (Suc k) n = hex_text k (n div 16) @ [char_of (if n mod 16 < 10 then 48 + n mod 16 else 87 + n mod 16)]"

lemma hex_char: "d < 16 \<Longrightarrow> isxdigit (char_of (if d < 10 then 48 + d else 87 + d)) \<and> xdigit (char_of (if d < 10 then 48 + d else 87 + d)) = d"
  by (auto simp: isxdigit_def isdigit_def xdigit_def)

lemma hex_text_num: "list_all isxdigit (hex_text k n)" "length (hex_text k n) = k" "num 16 (map xdigit (hex_text k n)) = n mod 16 ^ k"
proof (induction k arbitrary: n)
  case (Suc k)
  {
    case 1
    then show ?case using Suc(1) hex_char [of "n mod 16"] by simp
  next
    case 2
    then show ?case using Suc(2) by simp
  next
    case 3
    have "n mod (16 * 16 ^ k) = 16 * (n div 16 mod 16 ^ k) + n mod 16" by (simp add: mod_mult2_eq)
    then show ?case using Suc(3) [of "n div 16"] hex_char [of "n mod 16"] by simp
  }
qed simp_all

text \<open>
  Reading hexadecimal stamps.  \<^verbatim>\<open>hextolfp\<close> accepts exactly the texts of eight hexadecimal digits, an optional point and eight
  more digits, with blanks before and the end of the string or a blank after, and returns the 64-bit number they write; it
  reads what \<^verbatim>\<open>%08lx.%08lx\<close> writes.
\<close>
theorem hextolfp_exact:
  "(hextolfp str = Some v \<longleftrightarrow>
     (\<exists>sp h dot g rest. str = sp @ h @ dot @ g @ rest \<and> list_all isspace sp \<and> length h = 8 \<and> length g = 8 \<and> list_all isxdigit (h @ g) \<and>
        dot \<in> {[], ''.''} \<and> (rest = [] \<or> isspace (hd rest)) \<and> unat (lfp_val v) = num 16 (map xdigit (h @ g)))) \<and>
   hextolfp (hex_text 8 (unat (l_ui v)) @ ''.'' @ hex_text 8 (unat (l_uf v))) = Some v"
proof -
  have "hextolfp (hex_text 8 (unat (l_ui v)) @ ''.'' @ hex_text 8 (unat (l_uf v))) = Some v"
  proof -
    have "unat (lfp_val v) = num 16 (map xdigit (hex_text 8 (unat (l_ui v)) @ hex_text 8 (unat (l_uf v))))"
      using num_from_split [of 16 "unat (l_ui v)" "map xdigit (hex_text 8 (unat (l_uf v)))"] unat32_less [of "l_ui v"] unat32_less [of "l_uf v"]
      by (simp add: hex_text_num lfp_val_def unat_cat64)
    then show ?thesis
      unfolding hextolfp_iff by (intro exI [of _ "[]"] exI [of _ "hex_text 8 (unat (l_ui v))"] exI [of _ "''.''"] exI [of _ "hex_text 8 (unat (l_uf v))"])
        (simp add: hex_text_num)
  qed
  then show ?thesis using hextolfp_iff by blast
qed

end
