(* ===== verification/Sock_Addr.thy ===== *)
theory Sock_Addr
  imports C_Strings
begin

text \<open>
  Socket addresses: the union \<^verbatim>\<open>sockaddr_u\<close> and its macros of \<^verbatim>\<open>include/ntp_net.h\<close>, the hash of \<^verbatim>\<open>libntp/socktoa.c\<close>, and
  \<^verbatim>\<open>libntp/netof.c\<close> and \<^verbatim>\<open>libntp/numtoa.c\<close>.  An IPv4 address is a 32-bit word in host order, an IPv6 address a 128-bit word, of which the
  first byte in memory is the highest; an IPv6 address has a scope.  \<open>SA_UNSPEC\<close> is the zeroed union, of the family
  \<^verbatim>\<open>AF_UNSPEC\<close>, which does not occur as the source of a packet.  The address families have their Linux numbers, the low byte first.
\<close>

unbundle bit_operations_syntax

type_synonym in6_addr = "128 word"

datatype sockaddr_u = SA4 u_int32 u_short | SA6 in6_addr u_short u_int32 | SA_UNSPEC

definition NTP_PORT :: u_short where "NTP_PORT = 123"

definition IN_CLASSD :: "u_int32 \<Rightarrow> bool" where
  "IN_CLASSD a \<longleftrightarrow> a AND 0xf0000000 = 0xe0000000"

definition IN6_IS_ADDR_MULTICAST :: "in6_addr \<Rightarrow> bool" where
  "IN6_IS_ADDR_MULTICAST a \<longleftrightarrow> drop_bit 120 a = 0xff"

definition ISREFCLOCKADR :: "sockaddr_u \<Rightarrow> bool" where
  "ISREFCLOCKADR srcadr = (case srcadr of SA4 a _ \<Rightarrow> a AND 0xffff0000 = 0x7f7f0000 | _ \<Rightarrow> False)"

definition SOCK_UNSPEC :: "sockaddr_u \<Rightarrow> bool" where
  "SOCK_UNSPEC srcadr = (case srcadr of SA4 a _ \<Rightarrow> a = 0 | SA6 a _ _ \<Rightarrow> a = 0 | SA_UNSPEC \<Rightarrow> True)"

definition IS_MCAST :: "sockaddr_u \<Rightarrow> bool" where
  "IS_MCAST srcadr = (case srcadr of SA4 a _ \<Rightarrow> IN_CLASSD a | SA6 a _ _ \<Rightarrow> IN6_IS_ADDR_MULTICAST a | SA_UNSPEC \<Rightarrow> False)"

fun SOCK_EQ :: "sockaddr_u \<Rightarrow> sockaddr_u \<Rightarrow> bool" where
  "SOCK_EQ (SA4 a _) (SA4 b _) = (a = b)"
| "SOCK_EQ (SA6 a _ s) (SA6 b _ t) = (a = b \<and> s = t)"
| "SOCK_EQ SA_UNSPEC SA_UNSPEC = True"
| "SOCK_EQ _ _ = False"

fun SRCPORT :: "sockaddr_u \<Rightarrow> u_short" where
  "SRCPORT (SA4 _ p) = p"
| "SRCPORT (SA6 _ p _) = p"
| "SRCPORT SA_UNSPEC = 0"

fun SET_PORT :: "u_short \<Rightarrow> sockaddr_u \<Rightarrow> sockaddr_u" where
  "SET_PORT p (SA4 a _) = SA4 a p"
| "SET_PORT p (SA6 a _ s) = SA6 a p s"
| "SET_PORT p SA_UNSPEC = SA_UNSPEC"

definition ADDR_PORT_EQ :: "sockaddr_u \<Rightarrow> sockaddr_u \<Rightarrow> bool" where
  "ADDR_PORT_EQ a b = (if SRCPORT a \<noteq> SRCPORT b then False else SOCK_EQ a b)"

section \<open>The hash of an address\<close>

text \<open>The bytes of a word, the highest first.\<close>

definition be_bytes :: "nat \<Rightarrow> ('a::len) word \<Rightarrow> u_char list" where
  "be_bytes n w = map (\<lambda>i. ucast (drop_bit (8 * i) w)) (rev [0..<n])"

definition AF_INET :: u_char where "AF_INET = 2"
definition AF_INET6 :: u_char where "AF_INET6 = 10"

definition sock_hash :: "sockaddr_u \<Rightarrow> u_short" where
  "sock_hash addr =
     (let step = (\<lambda>hashVal :: u_int32. \<lambda>c :: u_char. 37 * hashVal + ucast c);
          (af, pch) = (case addr of SA4 a _ \<Rightarrow> (AF_INET, be_bytes 4 a) | SA6 a _ _ \<Rightarrow> (AF_INET6, be_bytes 16 a) | SA_UNSPEC \<Rightarrow> (0, []));
          hashVal = step 0 af;
          hashVal = step hashVal 0;
          hashVal = foldl step hashVal pch
      in ucast (hashVal AND 0xffff))"

section \<open>Networks and names\<close>

text \<open>The network of an address: the old classes of IPv4, and the first 64 bits of IPv6.  The static buffers of the result are left out.\<close>

definition IN_CLASSC :: "u_int32 \<Rightarrow> bool" where
  "IN_CLASSC a \<longleftrightarrow> a AND 0xe0000000 = 0xc0000000"

definition IN_CLASSB :: "u_int32 \<Rightarrow> bool" where
  "IN_CLASSB a \<longleftrightarrow> a AND 0xc0000000 = 0x80000000"

definition netof :: "sockaddr_u \<Rightarrow> sockaddr_u" where
  "netof hostaddr =
     (case hostaddr of
        SA4 netnum p \<Rightarrow> SA4 (if IN_CLASSC netnum then netnum AND 0xffffff00 else if IN_CLASSB netnum then netnum AND 0xffff0000 else netnum) p
      | SA6 a p s \<Rightarrow> SA6 (push_bit 64 (drop_bit 64 a)) p s
      | SA_UNSPEC \<Rightarrow> SA_UNSPEC)"

text \<open>\<^verbatim>\<open>numtoa\<close> and \<^verbatim>\<open>refid_str\<close> take the word in network order; here it is the list of its four bytes in memory.\<close>

definition numtoa :: "u_char list \<Rightarrow> string" where
  "numtoa netnum =
     show_dec (unat (netnum ! 0)) @ ''.'' @ show_dec (unat (netnum ! 1)) @ ''.'' @ show_dec (unat (netnum ! 2)) @ ''.'' @ show_dec (unat (netnum ! 3))"

definition refid_str :: "u_char list \<Rightarrow> int \<Rightarrow> string" where
  "refid_str refid stratum =
     (if stratum > 1 then numtoa refid
      else ''.'' @ map (\<lambda>b. char_of (unat b)) (takeWhile (\<lambda>b. b \<noteq> 0) refid) @ ''.'')"

section \<open>Properties\<close>

lemma SOCK_EQ_refl [simp]: "SOCK_EQ a a"
  by (cases a) simp_all

lemma SOCK_EQ_sym: "SOCK_EQ a b \<longleftrightarrow> SOCK_EQ b a"
  by (cases a; cases b) auto

lemma SOCK_EQ_trans: "SOCK_EQ a b \<Longrightarrow> SOCK_EQ b c \<Longrightarrow> SOCK_EQ a c"
  by (cases a; cases b; cases c) auto

lemma SOCK_EQ_port [simp]: "SOCK_EQ (SET_PORT p a) b \<longleftrightarrow> SOCK_EQ a b" "SOCK_EQ a (SET_PORT p b) \<longleftrightarrow> SOCK_EQ a b"
  by (cases a; cases b; simp)+

lemma sock_hash_eq: "SOCK_EQ a b \<Longrightarrow> sock_hash a = sock_hash b"
  by (cases a; cases b) (simp_all add: sock_hash_def)

lemma sock_hash_port [simp]: "sock_hash (SET_PORT p a) = sock_hash a"
  by (rule sock_hash_eq) simp

lemma ADDR_PORT_EQ_iff: "ADDR_PORT_EQ a b \<longleftrightarrow> a = b"
  by (cases a; cases b) (auto simp: ADDR_PORT_EQ_def)

end
