(* ===== verification/NTP_Restrict.thy ===== *)
theory NTP_Restrict
  imports "HOL-Library.Product_Lexorder" NTP_Lists Sock_Addr
begin

text \<open>
  The access restriction lists of \<^verbatim>\<open>ntpd/ntp_restrict.c\<close>.  The two address families have a table each, of one type with the
  address width as its parameter: IPv4 addresses are 32-bit words in host order, IPv6 addresses 128-bit words
  whose value orders as \<^verbatim>\<open>memcmp\<close> orders their bytes.  Entries are addresses in a memory; the sorted list and the free list are the
  sequences of their entries, which the list macros act on as \<open>NTP_Lists\<close> shows.  The static default entry of a table has
  the address \<open>0\<close>.  A result \<open>None\<close> is a failed assertion or the use of a \<^verbatim>\<open>NULL\<close> entry.  Of the monitor, which the number of
  rate-limited entries switches on and off, the \<^verbatim>\<open>MON_RES\<close> bit of \<^verbatim>\<open>mon_enabled\<close> is kept, and the calls of \<^verbatim>\<open>mon_start\<close> and \<^verbatim>\<open>mon_stop\<close> are
  recorded for the protocol machine, which owns the monitor.
\<close>

unbundle bit_operations_syntax

section \<open>State\<close>

definition RES_IGNORE :: u_short where "RES_IGNORE = 0x0001"
definition RES_LIMITED :: u_short where "RES_LIMITED = 0x0020"
definition RESM_INTERFACE :: u_short where "RESM_INTERFACE = 0x1000"
definition RESM_SOURCE :: u_short where "RESM_SOURCE = 0x4000"
definition RESM_NTPONLY :: u_short where "RESM_NTPONLY = 0x2000"

record 'w restrict_u =
  rcount :: u_int32
  rflags :: u_short
  mflags :: u_short
  expire :: u_int64
  raddr :: 'w
  rmask :: 'w

definition zero_restrict_u :: "('a::len) word restrict_u" where
  "zero_restrict_u = \<lparr>rcount = 0, rflags = 0, mflags = 0, expire = 0, raddr = 0, rmask = 0\<rparr>"

record 'w res_table =
  rlist :: "addr list"
  rfree :: "addr list"
  rmem :: "addr \<Rightarrow> 'w restrict_u"
  rfresh :: addr

text \<open>The calls of \<^verbatim>\<open>mon_start(MON_RES)\<close> and \<^verbatim>\<open>mon_stop(MON_RES)\<close> are collected in order; the daemon carries them out on its monitor.\<close>

datatype mon_call = Mon_start | Mon_stop

record res_shared =
  restrictcount :: int
  res_limited_refcnt :: u_int64
  mon_calls :: "mon_call list"

record res_state =
  table4 :: "u_int32 res_table"
  table6 :: "in6_addr res_table"
  shared :: res_shared
  res_calls :: u_int64
  res_found :: u_int64
  res_not_found :: u_int64
  restrict_source_enabled :: bool
  restrict_source_flags :: u_short
  restrict_source_mflags :: u_short

definition restrict_def :: addr where "restrict_def = 0"

datatype restrict_op = RESTRICT_FLAGS | RESTRICT_UNFLAG | RESTRICT_REMOVE | RESTRICT_REMOVEIF | RESTRICT_UNKNOWN

text \<open>Entries per allocation: just less than 1 KB, for the field sizes of a 64-bit platform.\<close>

definition INC_RESLIST4 :: nat where "INC_RESLIST4 = (1024 - 16) div (24 + 8)"
definition INC_RESLIST6 :: nat where "INC_RESLIST6 = (1024 - 16) div (24 + 32)"

section \<open>Entries\<close>

definition link_default :: "('a::len) word res_table \<Rightarrow> 'a word res_table" where
  "link_default t = t\<lparr>rlist := restrict_def # rlist t\<rparr>"

definition init_restrict :: "res_state \<Rightarrow> res_state" where
  "init_restrict st = st\<lparr>table4 := link_default (table4 st), table6 := link_default (table6 st),
     shared := (shared st)\<lparr>restrictcount := 2\<rparr>\<rparr>"

text \<open>The block is linked from its last entry down, so that its second entry heads the free list; the first one is returned.\<close>

definition alloc_res :: "nat \<Rightarrow> ('a::len) word res_table \<Rightarrow> addr \<times> 'a word res_table" where
  "alloc_res n t =
     (case rfree t of
        res # rest \<Rightarrow> (res, t\<lparr>rfree := rest\<rparr>)
      | [] \<Rightarrow>
          let rl = rfresh t
          in (rl, t\<lparr>rfree := [rl + 1..<rl + n], rfresh := rl + n,
                    rmem := (\<lambda>a. if rl \<le> a \<and> a < rl + n then zero_restrict_u else rmem t a)\<rparr>))"

definition alloc_res4 :: "u_int32 res_table \<Rightarrow> addr \<times> u_int32 res_table" where
  "alloc_res4 t = alloc_res INC_RESLIST4 t"

definition alloc_res6 :: "in6_addr res_table \<Rightarrow> addr \<times> in6_addr res_table" where
  "alloc_res6 t = alloc_res INC_RESLIST6 t"

definition inc_res_limited :: "res_shared \<Rightarrow> res_shared" where
  "inc_res_limited sh =
     (let sh = (if res_limited_refcnt sh = 0 then sh\<lparr>mon_calls := mon_calls sh @ [Mon_start]\<rparr> else sh)
      in sh\<lparr>res_limited_refcnt := res_limited_refcnt sh + 1\<rparr>)"

definition dec_res_limited :: "res_shared \<Rightarrow> res_shared" where
  "dec_res_limited sh =
     (let sh = sh\<lparr>res_limited_refcnt := res_limited_refcnt sh - 1\<rparr>
      in if res_limited_refcnt sh = 0 then sh\<lparr>mon_calls := mon_calls sh @ [Mon_stop]\<rparr> else sh)"

text \<open>The test of the flags is the logical conjunction that the source has.\<close>

definition free_res :: "addr \<Rightarrow> ('a::len) word res_table \<Rightarrow> res_shared \<Rightarrow> ('a word res_table \<times> res_shared) option" where
  "free_res res t sh =
     (let sh = sh\<lparr>restrictcount := s32 (restrictcount sh - 1)\<rparr>;
          sh = (if RES_LIMITED \<noteq> 0 \<and> rflags (rmem t res) \<noteq> 0 then dec_res_limited sh else sh)
      in if res \<notin> set (rlist t) then None
         else Some (t\<lparr>rlist := remove1 res (rlist t), rmem := (rmem t)(res := zero_restrict_u), rfree := res # rfree t\<rparr>, sh))"

text \<open>The loop over the list; the link to the next entry is read before an expired entry is freed.\<close>

fun match_restrict_addr ::
  "u_int64 \<Rightarrow> ('a::len) word \<Rightarrow> u_short \<Rightarrow> addr list \<Rightarrow> 'a word res_table \<Rightarrow> res_shared \<Rightarrow> (addr option \<times> 'a word res_table \<times> res_shared) option" where
  "match_restrict_addr current_time a port [] t sh = Some (None, t, sh)"
| "match_restrict_addr current_time a port (res # rest) t sh =
     (case (if expire (rmem t res) \<noteq> 0 \<and> expire (rmem t res) \<le> current_time then free_res res t sh else Some (t, sh)) of
        None \<Rightarrow> None
      | Some (t, sh) \<Rightarrow>
          if raddr (rmem t res) = a AND rmask (rmem t res) \<and> (RESM_NTPONLY AND mflags (rmem t res) = 0 \<or> NTP_PORT = port)
          then Some (Some res, t, sh)
          else match_restrict_addr current_time a port rest t sh)"

definition match_restrict4_addr ::
  "u_int64 \<Rightarrow> u_int32 \<Rightarrow> u_short \<Rightarrow> u_int32 res_table \<Rightarrow> res_shared \<Rightarrow> (addr option \<times> u_int32 res_table \<times> res_shared) option" where
  "match_restrict4_addr current_time a port t sh = match_restrict_addr current_time a port (rlist t) t sh"

definition match_restrict6_addr ::
  "u_int64 \<Rightarrow> in6_addr \<Rightarrow> u_short \<Rightarrow> in6_addr res_table \<Rightarrow> res_shared \<Rightarrow> (addr option \<times> in6_addr res_table \<times> res_shared) option" where
  "match_restrict6_addr current_time a port t sh = match_restrict_addr current_time a port (rlist t) t sh"

definition match_restrict_entry :: "('a::len) word restrict_u \<Rightarrow> 'a word res_table \<Rightarrow> addr option" where
  "match_restrict_entry pmatch t =
     find (\<lambda>res. mflags (rmem t res) = mflags pmatch \<and> raddr (rmem t res) = raddr pmatch \<and> rmask (rmem t res) = rmask pmatch) (rlist t)"

definition res_sorts_before4 :: "u_int32 restrict_u \<Rightarrow> u_int32 restrict_u \<Rightarrow> bool" where
  "res_sorts_before4 r1 r2 =
     (if raddr r1 > raddr r2 then True
      else if raddr r1 < raddr r2 then False
      else if rmask r1 > rmask r2 then True
      else if rmask r1 < rmask r2 then False
      else if mflags r1 > mflags r2 then True
      else False)"

definition ADDR6_CMP :: "in6_addr \<Rightarrow> in6_addr \<Rightarrow> int" where
  "ADDR6_CMP a b = (if a < b then - 1 else if b < a then 1 else 0)"

definition res_sorts_before6 :: "in6_addr restrict_u \<Rightarrow> in6_addr restrict_u \<Rightarrow> bool" where
  "res_sorts_before6 r1 r2 =
     (let cmp = ADDR6_CMP (raddr r1) (raddr r2)
      in if cmp > 0 then True
         else if cmp < 0 then False
         else
           let cmp = ADDR6_CMP (rmask r1) (rmask r2)
           in if cmp > 0 then True
              else if cmp < 0 then False
              else if mflags r1 > mflags r2 then True
              else False)"

section \<open>Interface\<close>

definition bump_count :: "addr \<Rightarrow> ('a::len) word res_table \<Rightarrow> 'a word res_table" where
  "bump_count res t = t\<lparr>rmem := (rmem t)(res := (rmem t res)\<lparr>rcount := rcount (rmem t res) + 1\<rparr>)\<rparr>"

definition count_found :: "addr \<Rightarrow> res_state \<Rightarrow> res_state" where
  "count_found res st =
     (if restrict_def = res then st\<lparr>res_not_found := res_not_found st + 1\<rparr> else st\<lparr>res_found := res_found st + 1\<rparr>)"

definition restrictions :: "u_int64 \<Rightarrow> sockaddr_u \<Rightarrow> res_state \<Rightarrow> (u_short \<times> res_state) option" where
  "restrictions current_time srcadr st =
     (let st = st\<lparr>res_calls := res_calls st + 1\<rparr>
      in case srcadr of
           SA4 a port \<Rightarrow>
             if IN_CLASSD a then Some (RES_IGNORE, st)
             else (case match_restrict4_addr current_time a port (table4 st) (shared st) of
                     Some (Some res, t, sh) \<Rightarrow>
                       let st = st\<lparr>table4 := bump_count res t, shared := sh\<rparr>
                       in Some (rflags (rmem (table4 st) res), count_found res st)
                   | _ \<Rightarrow> None)
         | SA6 a port scope \<Rightarrow>
             if IN6_IS_ADDR_MULTICAST a then Some (RES_IGNORE, st)
             else (case match_restrict6_addr current_time a port (table6 st) (shared st) of
                     Some (Some res, t, sh) \<Rightarrow>
                       let st = st\<lparr>table6 := bump_count res t, shared := sh\<rparr>
                       in Some (rflags (rmem (table6 st) res), count_found res st)
                   | _ \<Rightarrow> None)
         | SA_UNSPEC \<Rightarrow> Some (0, st))"

text \<open>\<^verbatim>\<open>LINK_SORT_SLIST\<close>: before the first entry that the new one sorts before.\<close>

definition link_sorted :: "('a word restrict_u \<Rightarrow> ('a::len) word restrict_u \<Rightarrow> bool) \<Rightarrow> addr \<Rightarrow> 'a word res_table \<Rightarrow> 'a word res_table" where
  "link_sorted sorts_before res t =
     (let stays = (\<lambda>cur. \<not> sorts_before (rmem t res) (rmem t cur))
      in t\<lparr>rlist := takeWhile stays (rlist t) @ res # dropWhile stays (rlist t)\<rparr>)"

text \<open>The operations of \<^verbatim>\<open>hack_restrict\<close> on the table of one family, with the entry \<^verbatim>\<open>match\<close> filled in.\<close>

definition hack_table ::
  "('a word restrict_u \<Rightarrow> 'a word restrict_u \<Rightarrow> bool) \<Rightarrow> (('a::len) word res_table \<Rightarrow> addr \<times> 'a word res_table) \<Rightarrow> restrict_op \<Rightarrow> 'a word restrict_u \<Rightarrow>
   'a word res_table \<Rightarrow> res_shared \<Rightarrow> ('a word res_table \<times> res_shared) option" where
  "hack_table sorts_before alloc op m t sh =
     (let res = match_restrict_entry m t; fl = rflags m
      in case op of
           RESTRICT_FLAGS \<Rightarrow>
             (case res of
                None \<Rightarrow>
                  let (r, t) = alloc t;
                      t = link_sorted sorts_before r (t\<lparr>rmem := (rmem t)(r := m)\<rparr>);
                      sh = sh\<lparr>restrictcount := s32 (restrictcount sh + 1)\<rparr>
                  in Some (t, if RES_LIMITED AND fl \<noteq> 0 then inc_res_limited sh else sh)
              | Some r \<Rightarrow>
                  let sh = (if RES_LIMITED AND fl \<noteq> 0 \<and> RES_LIMITED AND rflags (rmem t r) = 0 then inc_res_limited sh else sh)
                  in Some (t\<lparr>rmem := (rmem t)(r := (rmem t r)\<lparr>rflags := rflags (rmem t r) OR fl\<rparr>)\<rparr>, sh))
         | RESTRICT_UNFLAG \<Rightarrow>
             (case res of
                None \<Rightarrow> Some (t, sh)
              | Some r \<Rightarrow>
                  let sh = (if RES_LIMITED AND rflags (rmem t r) \<noteq> 0 \<and> RES_LIMITED AND fl \<noteq> 0 then dec_res_limited sh else sh)
                  in Some (t\<lparr>rmem := (rmem t)(r := (rmem t r)\<lparr>rflags := rflags (rmem t r) AND NOT fl\<rparr>)\<rparr>, sh))
         | RESTRICT_UNKNOWN \<Rightarrow> None
         | _ \<Rightarrow>
             (case res of
                None \<Rightarrow> Some (t, sh)
              | Some r \<Rightarrow>
                  if (op = RESTRICT_REMOVEIF \<or> RESM_INTERFACE AND mflags (rmem t r) = 0) \<and> r \<noteq> restrict_def
                  then free_res r t sh else Some (t, sh)))"

text \<open>The callers pass a mask of the family of the address; other masks are left out.\<close>

definition hack_restrict ::
  "restrict_op \<Rightarrow> sockaddr_u option \<Rightarrow> sockaddr_u option \<Rightarrow> u_short \<Rightarrow> u_short \<Rightarrow> u_int64 \<Rightarrow> res_state \<Rightarrow> res_state option" where
  "hack_restrict op resaddr resmask mf fl ex st =
     (case resaddr of
        None \<Rightarrow>
          if resmask = None \<and> op = RESTRICT_FLAGS
          then Some (st\<lparr>restrict_source_flags := fl, restrict_source_mflags := mf, restrict_source_enabled := True\<rparr>)
          else None
      | Some (SA4 a _) \<Rightarrow>
          (case resmask of
             Some (SA4 msk _) \<Rightarrow>
               (case hack_table res_sorts_before4 alloc_res4 op
                       \<lparr>rcount = 0, rflags = fl, mflags = mf, expire = ex, raddr = a AND msk, rmask = msk\<rparr> (table4 st) (shared st) of
                  None \<Rightarrow> None
                | Some (t, sh) \<Rightarrow> Some (st\<lparr>table4 := t, shared := sh\<rparr>))
           | _ \<Rightarrow> None)
      | Some (SA6 a _ _) \<Rightarrow>
          (case resmask of
             Some (SA6 msk _ _) \<Rightarrow>
               (case hack_table res_sorts_before6 alloc_res6 op
                       \<lparr>rcount = 0, rflags = fl, mflags = mf, expire = ex, raddr = a AND msk, rmask = msk\<rparr> (table6 st) (shared st) of
                  None \<Rightarrow> None
                | Some (t, sh) \<Rightarrow> Some (st\<lparr>table6 := t, shared := sh\<rparr>))
           | _ \<Rightarrow> None)
      | Some SA_UNSPEC \<Rightarrow> None)"

text \<open>The search for a specific entry; a fleeting one is freed to make way for a lasting one.\<close>

definition source_table :: "u_int64 \<Rightarrow> addr option \<Rightarrow> ('a::len) word res_table \<Rightarrow> res_shared \<Rightarrow> (bool \<times> 'a word res_table \<times> res_shared) option" where
  "source_table ex found t sh =
     (case found of
        None \<Rightarrow> None
      | Some res \<Rightarrow>
          let found_specific = (rmask (rmem t res) = - 1)
          in if ex = 0 \<and> found_specific \<and> expire (rmem t res) \<noteq> 0
             then (case free_res res t sh of None \<Rightarrow> None | Some (t, sh) \<Rightarrow> Some (False, t, sh))
             else Some (found_specific, t, sh))"

definition restrict_source :: "u_int64 \<Rightarrow> sockaddr_u \<Rightarrow> bool \<Rightarrow> u_int64 \<Rightarrow> res_state \<Rightarrow> res_state option" where
  "restrict_source current_time a farewell ex st =
     (if \<not> restrict_source_enabled st \<or> SOCK_UNSPEC a \<or> IS_MCAST a \<or> ISREFCLOCKADR a then Some st
      else
        let onesmask = (case a of SA4 _ _ \<Rightarrow> SA4 (- 1) 0 | SA6 _ _ _ \<Rightarrow> SA6 (- 1) 0 0 | SA_UNSPEC \<Rightarrow> SA_UNSPEC);
            add = (\<lambda>(found_specific, st). if found_specific then Some st
                     else hack_restrict RESTRICT_FLAGS (Some a) (Some onesmask) (restrict_source_mflags st) (restrict_source_flags st) ex st)
        in case a of
             SA_UNSPEC \<Rightarrow> None
           | SA4 v port \<Rightarrow>
               if farewell then hack_restrict RESTRICT_REMOVE (Some a) (Some onesmask) 0 0 0 st
               else (case match_restrict4_addr current_time v port (table4 st) (shared st) of
                       None \<Rightarrow> None
                     | Some (found, t, sh) \<Rightarrow>
                         (case source_table ex found t sh of
                            None \<Rightarrow> None
                          | Some (spec, t, sh) \<Rightarrow> add (spec, st\<lparr>table4 := t, shared := sh\<rparr>)))
           | SA6 v port scope \<Rightarrow>
               if farewell then hack_restrict RESTRICT_REMOVE (Some a) (Some onesmask) 0 0 0 st
               else (case match_restrict6_addr current_time v port (table6 st) (shared st) of
                       None \<Rightarrow> None
                     | Some (found, t, sh) \<Rightarrow>
                         (case source_table ex found t sh of
                            None \<Rightarrow> None
                          | Some (spec, t, sh) \<Rightarrow> add (spec, st\<lparr>table6 := t, shared := sh\<rparr>))))"

section \<open>Tables\<close>

type_synonym 'w res_id = "'w \<times> 'w \<times> u_short"

definition res_key :: "'w restrict_u \<Rightarrow> 'w res_id" where
  "res_key r = (raddr r, rmask r, mflags r)"

text \<open>The list is strictly descending, ends in the default entry, and holds addresses that are masked.\<close>

definition table_wf :: "('a::len) word res_table \<Rightarrow> bool" where
  "table_wf t \<longleftrightarrow> distinct (rlist t @ rfree t) \<and> set (rlist t @ rfree t) \<subseteq> {..<rfresh t} \<and>
     sorted_wrt (\<lambda>x y. res_key (rmem t y) < res_key (rmem t x)) (rlist t) \<and>
     restrict_def \<in> set (rlist t) \<and> res_key (rmem t restrict_def) = (0, 0, 0) \<and> expire (rmem t restrict_def) = 0 \<and>
     (\<forall>x \<in> set (rlist t). raddr (rmem t x) AND rmask (rmem t x) = raddr (rmem t x))"

text \<open>The abstract table: flags and expiry for every address, mask and match flags.\<close>

definition res_view :: "'w res_table \<Rightarrow> 'w res_id \<Rightarrow> (u_short \<times> u_int64) option" where
  "res_view t k = map_option (\<lambda>x. (rflags (rmem t x), expire (rmem t x))) (find (\<lambda>x. res_key (rmem t x) = k) (rlist t))"

lemma key_unique:
  assumes "table_wf t" "x \<in> set (rlist t)" "y \<in> set (rlist t)" "res_key (rmem t x) = res_key (rmem t y)"
  shows "x = y"
proof (rule ccontr)
  assume ne: "x \<noteq> y"
  obtain i j where ij: "i < length (rlist t)" "j < length (rlist t)" "rlist t ! i = x" "rlist t ! j = y"
    using assms(2,3) by (meson in_set_conv_nth)
  with ne have "i < j \<or> j < i" by (metis linorder_neqE_nat)
  moreover have "res_key (rmem t (rlist t ! b)) < res_key (rmem t (rlist t ! a))" if "a < b" "b < length (rlist t)" for a b
    using assms(1) that by (simp add: table_wf_def sorted_wrt_iff_nth_less)
  ultimately show False using assms(4) ij by (metis less_irrefl)
qed

lemma find_key:
  assumes "table_wf t"
  shows "find (\<lambda>x. res_key (rmem t x) = k) (rlist t) = Some r \<longleftrightarrow> r \<in> set (rlist t) \<and> res_key (rmem t r) = k"
proof
  assume r: "r \<in> set (rlist t) \<and> res_key (rmem t r) = k"
  then obtain y where y: "find (\<lambda>x. res_key (rmem t x) = k) (rlist t) = Some y"
    by (cases "find (\<lambda>x. res_key (rmem t x) = k) (rlist t)") (auto simp: find_None_iff)
  then have "y \<in> set (rlist t)" "res_key (rmem t y) = k" by (auto simp: find_Some_iff)
  with r y show "find (\<lambda>x. res_key (rmem t x) = k) (rlist t) = Some r" using key_unique [OF assms] by metis
qed (auto simp: find_Some_iff)

lemma find_key_None: "find (\<lambda>x. res_key (rmem t x) = k) (rlist t) = None \<longleftrightarrow> (\<forall>x \<in> set (rlist t). res_key (rmem t x) \<noteq> k)"
  by (auto simp: find_None_iff)

lemma entry_eq: "match_restrict_entry m t = find (\<lambda>x. res_key (rmem t x) = res_key m) (rlist t)"
  unfolding match_restrict_entry_def res_key_def by (rule arg_cong [of _ _ "\<lambda>P. find P (rlist t)"]) auto

lemma view_iff:
  assumes "table_wf t"
  shows "res_view t k = Some v \<longleftrightarrow> (\<exists>x \<in> set (rlist t). res_key (rmem t x) = k \<and> (rflags (rmem t x), expire (rmem t x)) = v)"
proof -
  have "res_view t k = Some v \<longleftrightarrow> (\<exists>x. find (\<lambda>x. res_key (rmem t x) = k) (rlist t) = Some x \<and> (rflags (rmem t x), expire (rmem t x)) = v)"
    by (auto simp: res_view_def)
  then show ?thesis using find_key [OF assms, of k] by auto
qed

lemma view_None: "res_view t k = None \<longleftrightarrow> (\<forall>x \<in> set (rlist t). res_key (rmem t x) \<noteq> k)"
  unfolding res_view_def using find_key_None by simp

lemma option_same: "(\<And>v. x = Some v \<longleftrightarrow> y = Some v) \<Longrightarrow> x = y"
  by (cases x; cases y) auto

text \<open>The three ways in which a table changes at one key.\<close>

lemma view_upd:
  assumes "table_wf t" "table_wf t'" "set (rlist t') = insert r (set (rlist t))" "res_key (rmem t' r) = k"
    "r \<in> set (rlist t) \<Longrightarrow> res_key (rmem t r) = k" "\<And>x. x \<in> set (rlist t) \<Longrightarrow> x \<noteq> r \<Longrightarrow> rmem t' x = rmem t x"
  shows "res_view t' = (res_view t)(k \<mapsto> (rflags (rmem t' r), expire (rmem t' r)))"
proof
  fix j
  show "res_view t' j = ((res_view t)(k \<mapsto> (rflags (rmem t' r), expire (rmem t' r)))) j"
  proof (cases "j = k")
    case True
    have "res_view t' k = Some (rflags (rmem t' r), expire (rmem t' r))" using assms by (subst view_iff) auto
    with True show ?thesis by simp
  next
    case False
    have "res_view t' j = Some v \<longleftrightarrow> res_view t j = Some v" for v
      unfolding view_iff [OF assms(1)] view_iff [OF assms(2)] assms(3) using False assms(4-6) by (metis insert_iff)
    then have "res_view t' j = res_view t j" by (rule option_same)
    with False show ?thesis by simp
  qed
qed

lemma view_del:
  assumes "table_wf t" "table_wf t'" "set (rlist t') = set (rlist t) - {r}" "r \<in> set (rlist t)" "res_key (rmem t r) = k"
    "\<And>x. x \<in> set (rlist t) \<Longrightarrow> x \<noteq> r \<Longrightarrow> rmem t' x = rmem t x"
  shows "res_view t' = (res_view t)(k := None)"
proof
  fix j
  show "res_view t' j = ((res_view t)(k := None)) j"
  proof (cases "j = k")
    case True
    have "res_view t' k = None" unfolding view_None assms(3) using key_unique [OF assms(1)] assms(4-6) by (metis Diff_iff empty_iff insert_iff)
    with True show ?thesis by simp
  next
    case False
    have "res_view t' j = Some v \<longleftrightarrow> res_view t j = Some v" for v
      unfolding view_iff [OF assms(1)] view_iff [OF assms(2)] assms(3) using False assms(5,6) by (metis Diff_iff empty_iff insert_iff)
    then have "res_view t' j = res_view t j" by (rule option_same)
    with False show ?thesis by simp
  qed
qed

lemma set_flags_wf:
  fixes f :: u_short
  assumes "table_wf t" "r \<in> set (rlist t)"
  defines "t' \<equiv> t\<lparr>rmem := (rmem t)(r := (rmem t r)\<lparr>rflags := f\<rparr>)\<rparr>"
  shows "table_wf t'" "res_view t' = (res_view t)(res_key (rmem t r) \<mapsto> (f, expire (rmem t r)))"
proof -
  have e: "res_key (rmem t' x) = res_key (rmem t x)" "expire (rmem t' x) = expire (rmem t x)" "raddr (rmem t' x) = raddr (rmem t x)"
    "rmask (rmem t' x) = rmask (rmem t x)" "rlist t' = rlist t" "rfree t' = rfree t" "rfresh t' = rfresh t" for x
    by (simp_all add: t'_def res_key_def)
  show w: "table_wf t'" using assms(1) unfolding table_wf_def e .
  have "res_view t' = (res_view t)(res_key (rmem t r) \<mapsto> (rflags (rmem t' r), expire (rmem t' r)))"
    using assms(2) by (intro view_upd [OF assms(1) w]) (auto simp: e(1) t'_def res_key_def)
  then show "res_view t' = (res_view t)(res_key (rmem t r) \<mapsto> (f, expire (rmem t r)))" by (simp add: t'_def)
qed

lemma sorted_wrt_remove1: "sorted_wrt P xs \<Longrightarrow> sorted_wrt P (remove1 x xs)"
  by (induction xs) (auto dest: notin_set_remove1 set_remove1_subset [THEN subsetD])

lemma sorted_wrt_cong_on: "(\<And>x y. x \<in> set xs \<Longrightarrow> y \<in> set xs \<Longrightarrow> P x y = Q x y) \<Longrightarrow> sorted_wrt P xs = sorted_wrt Q xs"
  by (induction xs) auto

lemma free_res_wf:
  assumes "table_wf t" "r \<in> set (rlist t)" "r \<noteq> restrict_def"
  shows "\<exists>t' sh'. free_res r t sh = Some (t', sh') \<and> table_wf t' \<and> res_view t' = (res_view t)(res_key (rmem t r) := None) \<and>
    rlist t' = remove1 r (rlist t) \<and> rmem t' = (rmem t)(r := zero_restrict_u)"
proof -
  define t' where "t' = t\<lparr>rlist := remove1 r (rlist t), rmem := (rmem t)(r := zero_restrict_u), rfree := r # rfree t\<rparr>"
  have d: "distinct (rlist t)" using assms(1) by (simp add: table_wf_def)
  then have s: "set (rlist t') = set (rlist t) - {r}" by (simp add: t'_def)
  have at: "x \<noteq> r \<Longrightarrow> rmem t' x = rmem t x" for x by (simp add: t'_def)
  have "sorted_wrt (\<lambda>x y. res_key (rmem t' y) < res_key (rmem t' x)) (rlist t')"
  proof -
    have "sorted_wrt (\<lambda>x y. res_key (rmem t y) < res_key (rmem t x)) (rlist t')"
      using assms(1) by (simp add: t'_def table_wf_def sorted_wrt_remove1)
    moreover have "rmem t' x = rmem t x" if "x \<in> set (rlist t')" for x using at that s by auto
    ultimately show ?thesis by (metis (no_types, lifting) sorted_wrt_cong_on)
  qed
  then have w: "table_wf t'" using assms d by (auto simp: table_wf_def t'_def)
  have "res_view t' = (res_view t)(res_key (rmem t r) := None)"
    using at by (intro view_del [OF assms(1) w s assms(2)]) auto
  with w assms(2) show ?thesis by (simp add: free_res_def Let_def t'_def)
qed

section \<open>The operations on one family\<close>

lemma alloc_res_wf:
  assumes "table_wf t" "n > 0" "alloc_res n t = (r, t1)"
  shows "table_wf t1 \<and> r \<notin> set (rlist t) \<and> r \<notin> set (rfree t1) \<and> r < rfresh t1 \<and> rlist t1 = rlist t \<and> (\<forall>x \<in> set (rlist t). rmem t1 x = rmem t x)"
proof (cases "rfree t")
  case (Cons a rest)
  then show ?thesis using assms by (auto simp: alloc_res_def table_wf_def)
next
  case Nil
  define rl where "rl = rfresh t"
  have t1: "r = rl" "t1 = t\<lparr>rfree := [rl + 1..<rl + n], rfresh := rl + n, rmem := (\<lambda>a. if rl \<le> a \<and> a < rl + n then zero_restrict_u else rmem t a)\<rparr>"
    using assms(3) Nil by (auto simp: alloc_res_def Let_def rl_def)
  have old: "\<forall>x \<in> set (rlist t). x < rl" using assms(1) by (auto simp: table_wf_def rl_def)
  then have at: "\<forall>x \<in> set (rlist t). rmem t1 x = rmem t x" by (auto simp: t1)
  have "sorted_wrt (\<lambda>x y. res_key (rmem t1 y) < res_key (rmem t1 x)) (rlist t)"
    using assms(1) at sorted_wrt_cong_on [of "rlist t" "\<lambda>x y. res_key (rmem t1 y) < res_key (rmem t1 x)" "\<lambda>x y. res_key (rmem t y) < res_key (rmem t x)"]
    by (simp add: table_wf_def)
  moreover have "rlist t1 = rlist t" "rfree t1 = [rl + 1..<rl + n]" "rfresh t1 = rl + n" by (simp_all add: t1)
  ultimately have "table_wf t1" using assms(1) at old unfolding table_wf_def by (auto simp: less_imp_le)
  then show ?thesis using at old assms(2) by (auto simp: t1)
qed

lemma link_sorted_wf:
  assumes "table_wf t" "r \<notin> set (rlist t)" "r \<notin> set (rfree t)" "r < rfresh t" "\<And>r1 r2. before r1 r2 \<longleftrightarrow> res_key r2 < res_key r1"
    "\<forall>x \<in> set (rlist t). res_key (rmem t x) \<noteq> res_key m" "raddr m AND rmask m = raddr m"
  defines "t' \<equiv> link_sorted before r (t\<lparr>rmem := (rmem t)(r := m)\<rparr>)"
  shows "table_wf t'" "set (rlist t') = insert r (set (rlist t))" "rmem t' = (rmem t)(r := m)"
proof -
  define stays where "stays = (\<lambda>cur. \<not> res_key (rmem t cur) < res_key m)"
  define us vs where "us = takeWhile stays (rlist t)" "vs = dropWhile stays (rlist t)"
  have xs: "rlist t = us @ vs" by (simp add: us_vs_def)
  have cong: "takeWhile (\<lambda>cur. \<not> res_key (((rmem t)(r := m)) cur) < res_key m) (rlist t) = us"
    "dropWhile (\<lambda>cur. \<not> res_key (((rmem t)(r := m)) cur) < res_key m) (rlist t) = vs"
    unfolding us_vs_def stays_def using assms(2) by (auto intro!: takeWhile_cong dropWhile_cong)
  have t': "t' = t\<lparr>rmem := (rmem t)(r := m), rlist := us @ r # vs\<rparr>"
    unfolding t'_def link_sorted_def Let_def assms(5) using cong by (simp add: fun_upd_same del: fun_upd_apply)
  show m: "rmem t' = (rmem t)(r := m)" and s: "set (rlist t') = insert r (set (rlist t))" by (auto simp: t' xs)
  have sorted: "sorted_wrt (\<lambda>x y. res_key (rmem t y) < res_key (rmem t x)) (us @ vs)" using assms(1) by (simp add: table_wf_def xs)
  have big: "res_key m < res_key (rmem t x)" if "x \<in> set us" for x
  proof -
    have "stays x" "x \<in> set (rlist t)" using set_takeWhileD [of x stays "rlist t"] that us_vs_def(1) by auto
    then show ?thesis using assms(6) unfolding stays_def by (metis linorder_neqE)
  qed
  have small: "res_key (rmem t x) < res_key m" if "x \<in> set vs" for x
  proof (cases vs)
    case (Cons v ws)
    then have v: "res_key (rmem t v) < res_key m"
      using us_vs_def(2) hd_dropWhile [of stays "rlist t"] by (simp add: stays_def)
    have "res_key (rmem t x) \<le> res_key (rmem t v)" using sorted that Cons by (auto simp: sorted_wrt_append le_less)
    with v show ?thesis by (rule order.strict_trans1 [rotated])
  qed (use that in simp)
  have "sorted_wrt (\<lambda>x y. res_key (rmem t' y) < res_key (rmem t' x)) (rlist t')"
  proof -
    have ne: "x \<noteq> r" if "x \<in> set (us @ vs)" for x using that assms(2) xs by auto
    have "sorted_wrt (\<lambda>x y. res_key (((rmem t)(r := m)) y) < res_key (((rmem t)(r := m)) x)) (us @ vs)"
      using sorted ne sorted_wrt_cong_on [of "us @ vs" "\<lambda>x y. res_key (((rmem t)(r := m)) y) < res_key (((rmem t)(r := m)) x)" "\<lambda>x y. res_key (rmem t y) < res_key (rmem t x)"]
      by (metis (no_types, lifting) fun_upd_other)
    then show ?thesis using big small ne unfolding m by (auto simp: t' sorted_wrt_append)
  qed
  moreover have "r \<noteq> restrict_def" using assms(1,2) by (auto simp: table_wf_def)
  ultimately show "table_wf t'" using assms(1-4,7) unfolding table_wf_def by (auto simp: t' xs)
qed

text \<open>What the operations do to the abstract table.\<close>

fun hack_view :: "restrict_op \<Rightarrow> ('a::len) word res_id \<Rightarrow> u_short \<Rightarrow> u_int64 \<Rightarrow> ('a word res_id \<Rightarrow> (u_short \<times> u_int64) option) \<Rightarrow> ('a word res_id \<Rightarrow> (u_short \<times> u_int64) option)" where
  "hack_view RESTRICT_FLAGS k fl ex v = v(k \<mapsto> (case v k of None \<Rightarrow> (fl, ex) | Some (f, e) \<Rightarrow> (f OR fl, e)))"
| "hack_view RESTRICT_UNFLAG k fl ex v = v(k := map_option (\<lambda>(f, e). (f AND NOT fl, e)) (v k))"
| "hack_view RESTRICT_REMOVE k fl ex v = (if k \<noteq> (0, 0, 0) \<and> RESM_INTERFACE AND snd (snd k) = 0 then v(k := None) else v)"
| "hack_view RESTRICT_REMOVEIF k fl ex v = (if k \<noteq> (0, 0, 0) then v(k := None) else v)"
| "hack_view RESTRICT_UNKNOWN k fl ex v = v"

locale res_family =
  fixes sorts_before :: "('a::len) word restrict_u \<Rightarrow> 'a word restrict_u \<Rightarrow> bool"
    and alloc :: "'a word res_table \<Rightarrow> addr \<times> 'a word res_table" and inc :: nat
  assumes before_key: "sorts_before r1 r2 \<longleftrightarrow> res_key r2 < res_key r1"
    and alloc_eq: "alloc t = alloc_res inc t" and inc_pos: "inc > 0"
begin

lemma hack_add:
  assumes "table_wf t" "match_restrict_entry m t = None" "raddr m AND rmask m = raddr m"
  shows "\<exists>t' sh'. hack_table sorts_before alloc RESTRICT_FLAGS m t sh = Some (t', sh') \<and> table_wf t' \<and>
    res_view t' = (res_view t)(res_key m \<mapsto> (rflags m, expire m))"
proof -
  obtain r t1 where a: "alloc_res inc t = (r, t1)" by fastforce
  then have t1: "table_wf t1" "r \<notin> set (rlist t)" "r \<notin> set (rfree t1)" "r < rfresh t1" "rlist t1 = rlist t" "\<forall>x \<in> set (rlist t). rmem t1 x = rmem t x"
    using alloc_res_wf [OF assms(1) inc_pos] by blast+
  have new: "\<forall>x \<in> set (rlist t1). res_key (rmem t1 x) \<noteq> res_key m"
    using assms(2) t1(5,6) unfolding entry_eq find_key_None by simp
  define t2 where "t2 = link_sorted sorts_before r (t1\<lparr>rmem := (rmem t1)(r := m)\<rparr>)"
  have t2: "table_wf t2" "set (rlist t2) = insert r (set (rlist t1))" "rmem t2 = (rmem t1)(r := m)"
    using link_sorted_wf [OF t1(1) _ t1(3,4) before_key new assms(3)] t1(2,5) by (auto simp: t2_def)
  have "res_view t2 = (res_view t)(res_key m \<mapsto> (rflags (rmem t2 r), expire (rmem t2 r)))"
    using t1 t2 by (intro view_upd [OF assms(1) t2(1)]) auto
  moreover have "\<exists>sh'. hack_table sorts_before alloc RESTRICT_FLAGS m t sh = Some (t2, sh')"
    using assms(2) by (simp add: hack_table_def Let_def alloc_eq a t2_def)
  ultimately show ?thesis using t2(1,3) by auto
qed

lemma hack_refines:
  assumes "table_wf t" "op \<noteq> RESTRICT_UNKNOWN" "raddr m AND rmask m = raddr m"
  shows "\<exists>t' sh'. hack_table sorts_before alloc op m t sh = Some (t', sh') \<and> table_wf t' \<and>
    res_view t' = hack_view op (res_key m) (rflags m) (expire m) (res_view t)"
proof (cases "match_restrict_entry m t")
  case None
  then have v: "res_view t (res_key m) = None" by (simp add: res_view_def entry_eq)
  then have i: "(res_view t)(res_key m := None) = res_view t" by (simp add: fun_upd_idem)
  show ?thesis
  proof (cases op)
    case RESTRICT_FLAGS
    then show ?thesis using hack_add [OF assms(1) None assms(3)] v by simp
  qed (use None v i assms in \<open>auto simp: hack_table_def\<close>)
next
  case (Some r)
  then have r: "r \<in> set (rlist t)" "res_key (rmem t r) = res_key m" using find_key [OF assms(1)] by (auto simp: entry_eq)
  have v: "res_view t (res_key m) = Some (rflags (rmem t r), expire (rmem t r))" using Some by (simp add: res_view_def entry_eq)
  have mf: "mflags (rmem t r) = mflags m" using r(2) by (simp add: res_key_def)
  have d: "r = restrict_def \<longleftrightarrow> res_key m = (0, 0, 0)"
    using r key_unique [OF assms(1) r(1), of restrict_def] assms(1) by (auto simp: table_wf_def)
  show ?thesis
  proof (cases op)
    case RESTRICT_FLAGS
    then show ?thesis using Some set_flags_wf [OF assms(1) r(1)] r(2) v by (simp add: hack_table_def Let_def)
  next
    case RESTRICT_UNFLAG
    then show ?thesis using Some set_flags_wf [OF assms(1) r(1)] r(2) v by (simp add: hack_table_def Let_def)
  next
    case RESTRICT_REMOVE
    then show ?thesis using Some free_res_wf [OF assms(1) r(1), of sh] r(2) d mf assms(1) by (auto simp: hack_table_def res_key_def)
  next
    case RESTRICT_REMOVEIF
    then show ?thesis using Some free_res_wf [OF assms(1) r(1), of sh] r(2) d assms(1) by (auto simp: hack_table_def)
  qed (use assms in simp)
qed

end

interpretation v4: res_family res_sorts_before4 alloc_res4 INC_RESLIST4
  by unfold_locales (auto simp: res_sorts_before4_def res_key_def alloc_res4_def INC_RESLIST4_def less_prod_def' not_less le_less)

interpretation v6: res_family res_sorts_before6 alloc_res6 INC_RESLIST6
  by unfold_locales (auto simp: res_sorts_before6_def ADDR6_CMP_def res_key_def alloc_res6_def INC_RESLIST6_def Let_def less_prod_def' not_less le_less)

section \<open>Lookup\<close>

definition matches :: "('a::len) word \<Rightarrow> u_short \<Rightarrow> 'a word restrict_u \<Rightarrow> bool" where
  "matches a port r \<longleftrightarrow> raddr r = a AND rmask r \<and> (RESM_NTPONLY AND mflags r = 0 \<or> NTP_PORT = port)"

definition expired :: "u_int64 \<Rightarrow> 'w restrict_u \<Rightarrow> bool" where
  "expired now r \<longleftrightarrow> expire r \<noteq> 0 \<and> expire r \<le> now"

text \<open>
  The entry that should apply: it matches, it sorts before all others that match, and none of these has a mask that
  includes its mask and more.
\<close>

definition most_specific :: "('a::len) word \<Rightarrow> u_short \<Rightarrow> 'a word res_table \<Rightarrow> addr \<Rightarrow> bool" where
  "most_specific a port t r \<longleftrightarrow> r \<in> set (rlist t) \<and> matches a port (rmem t r) \<and>
     (\<forall>e \<in> set (rlist t). e \<noteq> r \<and> matches a port (rmem t e) \<longrightarrow> res_key (rmem t e) < res_key (rmem t r) \<and>
        \<not> (rmask (rmem t r) AND rmask (rmem t e) = rmask (rmem t r) \<and> rmask (rmem t e) \<noteq> rmask (rmem t r)))"

lemma match_find:
  assumes "\<forall>x \<in> set xs. \<not> expired now (rmem t x)"
  shows "match_restrict_addr now a port xs t sh = Some (find (\<lambda>x. matches a port (rmem t x)) xs, t, sh)"
  using assms by (induction xs) (auto simp: expired_def matches_def)

lemma submask_less:
  fixes m n a :: "('a::len) word"
  assumes "m AND n = m" "n \<noteq> m"
  shows "m < n" "a AND m \<le> a AND n"
proof -
  have "m \<le> n" using assms(1) by (metis word_and_le1 word_and_le2)
  with assms(2) show "m < n" by simp
  have "a AND m = (a AND n) AND m" using assms(1) by (metis and.assoc and.commute)
  then show "a AND m \<le> a AND n" by (metis word_and_le1 word_and_le2)
qed

lemma match_most_specific:
  assumes "table_wf t" "\<forall>x \<in> set (rlist t). \<not> expired now (rmem t x)"
  shows "\<exists>r. match_restrict_addr now a port (rlist t) t sh = Some (Some r, t, sh) \<and> most_specific a port t r"
proof -
  have "matches a port (rmem t restrict_def)" using assms(1) by (simp add: table_wf_def matches_def res_key_def)
  moreover have "restrict_def \<in> set (rlist t)" using assms(1) by (simp add: table_wf_def)
  ultimately obtain r where r: "find (\<lambda>x. matches a port (rmem t x)) (rlist t) = Some r"
    using find_None_iff [of "\<lambda>x. matches a port (rmem t x)" "rlist t"] by blast
  have "\<exists>i < length (rlist t). matches a port (rmem t (rlist t ! i)) \<and> r = rlist t ! i \<and> (\<forall>j < i. \<not> matches a port (rmem t (rlist t ! j)))"
    using r unfolding find_Some_iff .
  then obtain i where i0: "i < length (rlist t)" "matches a port (rmem t (rlist t ! i))" "r = rlist t ! i" "\<forall>j < i. \<not> matches a port (rmem t (rlist t ! j))"
    by blast
  note i = i0(1,3) i0(2) [folded i0(3)] i0(4)
  have after: "res_key (rmem t e) < res_key (rmem t r)" if e: "e \<in> set (rlist t)" "e \<noteq> r" "matches a port (rmem t e)" for e
  proof -
    obtain j where j: "j < length (rlist t)" "e = rlist t ! j" using e(1) by (metis in_set_conv_nth)
    then have "i < j" using i e(2,3) by (metis linorder_neqE_nat)
    then show ?thesis using assms(1) i j by (simp add: table_wf_def sorted_wrt_iff_nth_less)
  qed
  have "\<not> (rmask (rmem t r) AND rmask (rmem t e) = rmask (rmem t r) \<and> rmask (rmem t e) \<noteq> rmask (rmem t r))"
    if "e \<in> set (rlist t)" "e \<noteq> r" "matches a port (rmem t e)" for e
  proof
    assume m: "rmask (rmem t r) AND rmask (rmem t e) = rmask (rmem t r) \<and> rmask (rmem t e) \<noteq> rmask (rmem t r)"
    then have "rmask (rmem t r) < rmask (rmem t e)" "raddr (rmem t r) \<le> raddr (rmem t e)"
      using submask_less [of "rmask (rmem t r)" "rmask (rmem t e)"] i(3) that(3) by (auto simp: matches_def)
    then have "res_key (rmem t r) < res_key (rmem t e)" by (auto simp: res_key_def less_prod_def' le_less)
    with after [OF that] show False by (metis less_asym)
  qed
  with after i r show ?thesis using match_find [OF assms(2)] by (auto simp: most_specific_def)
qed

text \<open>What the lookup does at an expired entry.\<close>

lemma match_expired:
  assumes "\<forall>x \<in> set us. \<not> expired now (rmem t x) \<and> \<not> matches a port (rmem t x)" "expired now (rmem t e)" "e \<in> set (rlist t)"
  shows "\<exists>t' sh'. match_restrict_addr now a port (us @ e # vs) t sh = Some (Some e, t', sh') \<and> free_res e t sh = Some (t', sh') \<and>
    rmem t' e = zero_restrict_u \<and> rlist t' = remove1 e (rlist t)"
  using assms
proof (induction us)
  case Nil
  then show ?case by (auto simp: expired_def free_res_def Let_def zero_restrict_u_def)
next
  case (Cons u us)
  then have "\<not> expired now (rmem t u)" "\<not> matches a port (rmem t u)" by auto
  moreover obtain t' sh' where "match_restrict_addr now a port (us @ e # vs) t sh = Some (Some e, t', sh')" "free_res e t sh = Some (t', sh')"
    "rmem t' e = zero_restrict_u" "rlist t' = remove1 e (rlist t)" using Cons by auto
  ultimately show ?case by (auto simp: expired_def matches_def)
qed

section \<open>Properties\<close>

text \<open>
  C4: restrictions of a host.  For a table that is sorted as the code sorts it and none of whose entries has expired, \<^verbatim>\<open>restrictions\<close> returns the flags of
  the most specific entry that matches the address and port: it comes first among the matching ones, and no other matching
  entry has a mask with all of its bits and more.  Such an entry always exists, so the pointer is never \<^verbatim>\<open>NULL\<close>.
  Multicast sources are ignored.
\<close>
theorem restrictions_most_specific:
  assumes "table_wf (table4 st)" "table_wf (table6 st)"
    and "\<forall>x \<in> set (rlist (table4 st)). \<not> expired now (rmem (table4 st) x)" "\<forall>x \<in> set (rlist (table6 st)). \<not> expired now (rmem (table6 st) x)"
  shows "(\<exists>st'. restrictions now (SA4 a port) st = Some (RES_IGNORE, st') \<and> IN_CLASSD a \<or>
      \<not> IN_CLASSD a \<and> (\<exists>r. most_specific a port (table4 st) r \<and> restrictions now (SA4 a port) st = Some (rflags (rmem (table4 st) r), st'))) \<and>
    (\<exists>st'. restrictions now (SA6 b port scope) st = Some (RES_IGNORE, st') \<and> IN6_IS_ADDR_MULTICAST b \<or>
      \<not> IN6_IS_ADDR_MULTICAST b \<and> (\<exists>r. most_specific b port (table6 st) r \<and> restrictions now (SA6 b port scope) st = Some (rflags (rmem (table6 st) r), st')))"
proof -
  obtain r where r: "match_restrict_addr now a port (rlist (table4 st)) (table4 st) (shared st) = Some (Some r, table4 st, shared st)"
    "most_specific a port (table4 st) r" using match_most_specific [OF assms(1,3)] by blast
  obtain q where q: "match_restrict_addr now b port (rlist (table6 st)) (table6 st) (shared st) = Some (Some q, table6 st, shared st)"
    "most_specific b port (table6 st) q" using match_most_specific [OF assms(2,4)] by blast
  show ?thesis
    using r q by (cases "IN_CLASSD a"; cases "IN6_IS_ADDR_MULTICAST b")
      (auto simp: restrictions_def match_restrict4_addr_def match_restrict6_addr_def Let_def bump_count_def)
qed

text \<open>Tables at program start, after \<^verbatim>\<open>init_restrict\<close>.\<close>

definition res_zero :: res_state where
  "res_zero = init_restrict \<lparr>table4 = \<lparr>rlist = [], rfree = [], rmem = (\<lambda>_. zero_restrict_u), rfresh = 1\<rparr>,
     table6 = \<lparr>rlist = [], rfree = [], rmem = (\<lambda>_. zero_restrict_u), rfresh = 1\<rparr>,
     shared = \<lparr>restrictcount = 0, res_limited_refcnt = 0, mon_calls = []\<rparr>, res_calls = 0, res_found = 0, res_not_found = 0,
     restrict_source_enabled = False, restrict_source_flags = 0, restrict_source_mflags = 0\<rparr>"

lemma res_zero_wf: "table_wf (table4 res_zero)" "table_wf (table6 res_zero)"
  "rlist (table4 res_zero) = [restrict_def]" "rlist (table6 res_zero) = [restrict_def]"
  "rmem (table4 res_zero) x = zero_restrict_u" "rmem (table6 res_zero) x = zero_restrict_u"
  by (simp_all add: res_zero_def init_restrict_def link_default_def table_wf_def restrict_def_def res_key_def zero_restrict_u_def)

theorem restrictions_most_specific_witness:
  "\<exists>st'. restrictions 5 (SA4 0x0a000001 123) res_zero = Some (0, st')"
  using restrictions_most_specific [of res_zero 5 "0x0a000001" 123 0] res_zero_wf
  by (auto simp: expired_def zero_restrict_u_def IN_CLASSD_def)

text \<open>
  C24: configuring restrictions.  On a sorted table every operation of \<^verbatim>\<open>hack_restrict\<close> with a valid code succeeds, keeps the table sorted and its lists
  disjoint, leaves the other family alone, and acts on the entry with the given masked address, mask and match flags only: it
  adds flags or a new entry, removes flags, or removes the entry, except the default and, unless asked for, interface entries.
\<close>
theorem hack_restrict_refines:
  assumes "table_wf (table4 st)" "table_wf (table6 st)" "op \<noteq> RESTRICT_UNKNOWN"
  shows "(\<exists>st'. hack_restrict op (Some (SA4 a p)) (Some (SA4 msk q)) mf fl ex st = Some st' \<and> table_wf (table4 st') \<and> table6 st' = table6 st \<and>
      res_view (table4 st') = hack_view op (a AND msk, msk, mf) fl ex (res_view (table4 st))) \<and>
    (\<exists>st'. hack_restrict op (Some (SA6 b p sc)) (Some (SA6 msk6 q sc')) mf fl ex st = Some st' \<and> table_wf (table6 st') \<and> table4 st' = table4 st \<and>
      res_view (table6 st') = hack_view op (b AND msk6, msk6, mf) fl ex (res_view (table6 st)))"
proof -
  have "\<exists>t' sh'. hack_table res_sorts_before4 alloc_res4 op \<lparr>rcount = 0, rflags = fl, mflags = mf, expire = ex, raddr = a AND msk, rmask = msk\<rparr>
      (table4 st) (shared st) = Some (t', sh') \<and> table_wf t' \<and> res_view t' = hack_view op (a AND msk, msk, mf) fl ex (res_view (table4 st))"
    using v4.hack_refines [OF assms(1,3), of "\<lparr>rcount = 0, rflags = fl, mflags = mf, expire = ex, raddr = a AND msk, rmask = msk\<rparr>" "shared st"]
    by (simp add: res_key_def)
  moreover have "\<exists>t' sh'. hack_table res_sorts_before6 alloc_res6 op \<lparr>rcount = 0, rflags = fl, mflags = mf, expire = ex, raddr = b AND msk6, rmask = msk6\<rparr>
      (table6 st) (shared st) = Some (t', sh') \<and> table_wf t' \<and> res_view t' = hack_view op (b AND msk6, msk6, mf) fl ex (res_view (table6 st))"
    using v6.hack_refines [OF assms(2,3), of "\<lparr>rcount = 0, rflags = fl, mflags = mf, expire = ex, raddr = b AND msk6, rmask = msk6\<rparr>" "shared st"]
    by (simp add: res_key_def)
  ultimately show ?thesis by (auto simp: hack_restrict_def)
qed

theorem hack_restrict_refines_witness:
  "\<exists>st'. hack_restrict RESTRICT_FLAGS (Some (SA4 0xc0a80105 0)) (Some (SA4 0xffff0000 0)) 0 RES_LIMITED 0 res_zero = Some st' \<and>
     res_view (table4 st') (0xc0a80000, 0xffff0000, 0) = Some (RES_LIMITED, 0)"
proof -
  have "res_view (table4 res_zero) (0xc0a80000, 0xffff0000, 0) = None"
    using res_zero_wf by (simp add: view_None res_key_def zero_restrict_u_def)
  with hack_restrict_refines [of res_zero RESTRICT_FLAGS "0xc0a80105" 0 "0xffff0000" 0 0 RES_LIMITED 0 0 0 0 0] res_zero_wf show ?thesis
    by auto
qed

text \<open>
  C38: expired entries.  The lookup frees an expired entry that it passes and then tests the cleared entry, whose address and mask are zero, so it
  matches every source: whatever the later entries say, the packet gets no restrictions.  Freeing an entry also counts down the
  number of rate-limited entries whenever the entry had any flags, so the monitor may be stopped while
  rate-limited entries remain.
\<close>
theorem expired_entry_lifts_restrictions:
  assumes "rlist (table4 st) = us @ e # vs" "expired now (rmem (table4 st) e)" "\<not> IN_CLASSD a"
    and "\<forall>x \<in> set us. \<not> expired now (rmem (table4 st) x) \<and> \<not> matches a port (rmem (table4 st) x)"
  shows "\<exists>st'. restrictions now (SA4 a port) st = Some (0, st') \<and> rlist (table4 st') = remove1 e (rlist (table4 st)) \<and>
    (rflags (rmem (table4 st) e) \<noteq> 0 \<and> res_limited_refcnt (shared st) = 1 \<longrightarrow> mon_calls (shared st') = mon_calls (shared st) @ [Mon_stop])"
proof -
  obtain t' sh' where m: "match_restrict_addr now a port (rlist (table4 st)) (table4 st) (shared st) = Some (Some e, t', sh')"
    "free_res e (table4 st) (shared st) = Some (t', sh')" "rmem t' e = zero_restrict_u" "rlist t' = remove1 e (rlist (table4 st))"
    using match_expired [OF assms(4,2)] assms(1) by fastforce
  have "rflags (rmem (table4 st) e) \<noteq> 0 \<and> res_limited_refcnt (shared st) = 1 \<longrightarrow> mon_calls sh' = mon_calls (shared st) @ [Mon_stop]"
    using m(2) by (auto simp: free_res_def dec_res_limited_def RES_LIMITED_def Let_def split: if_splits)
  then show ?thesis
    using m(1,3,4) assms(3) by (simp add: restrictions_def match_restrict4_addr_def Let_def bump_count_def count_found_def zero_restrict_u_def)
qed

theorem expired_entry_lifts_restrictions_witness:
  "\<exists>st st'. restrictions 9 (SA4 0x0a000001 123) st = Some (0, st') \<and> rlist (table4 st) = [1, 0] \<and> rflags (rmem (table4 st) 0) = RES_IGNORE"
proof -
  define st where "st = res_zero\<lparr>table4 := \<lparr>rlist = [1, 0], rfree = [],
    rmem = (\<lambda>_. zero_restrict_u)(0 := zero_restrict_u\<lparr>rflags := RES_IGNORE\<rparr>, 1 := zero_restrict_u\<lparr>expire := 4, rmask := 7\<rparr>), rfresh = 2\<rparr>\<rparr>"
  have "rlist (table4 st) = [] @ 1 # [0]" "expired 9 (rmem (table4 st) 1)" "rflags (rmem (table4 st) 0) = RES_IGNORE"
    by (simp_all add: st_def expired_def)
  with expired_entry_lifts_restrictions [of st "[]" 1 "[0]" 9 "0x0a000001" 123] show ?thesis
    by (auto simp: IN_CLASSD_def)
qed

section \<open>Source restrictions\<close>

definition res_wf :: "res_state \<Rightarrow> bool" where
  "res_wf st \<longleftrightarrow> table_wf (table4 st) \<and> table_wf (table6 st)"

lemma res_zero_ok [simp]: "res_wf res_zero"
  by (simp add: res_wf_def res_zero_wf)

lemma hack4:
  assumes "res_wf st" "op \<noteq> RESTRICT_UNKNOWN"
  shows "\<exists>st'. hack_restrict op (Some (SA4 a p)) (Some (SA4 msk q)) mf fl ex st = Some st' \<and> res_wf st' \<and> table6 st' = table6 st \<and>
    res_view (table4 st') = hack_view op (a AND msk, msk, mf) fl ex (res_view (table4 st)) \<and> restrict_source_mflags st' = restrict_source_mflags st \<and>
    restrict_source_flags st' = restrict_source_flags st \<and> restrict_source_enabled st' = restrict_source_enabled st"
  using v4.hack_refines [OF _ assms(2), of "table4 st" "\<lparr>rcount = 0, rflags = fl, mflags = mf, expire = ex, raddr = a AND msk, rmask = msk\<rparr>" "shared st"] assms(1)
  by (auto simp: hack_restrict_def res_key_def res_wf_def)

lemma hack6:
  assumes "res_wf st" "op \<noteq> RESTRICT_UNKNOWN"
  shows "\<exists>st'. hack_restrict op (Some (SA6 a p sc)) (Some (SA6 msk q sc')) mf fl ex st = Some st' \<and> res_wf st' \<and> table4 st' = table4 st \<and>
    res_view (table6 st') = hack_view op (a AND msk, msk, mf) fl ex (res_view (table6 st)) \<and> restrict_source_mflags st' = restrict_source_mflags st \<and>
    restrict_source_flags st' = restrict_source_flags st \<and> restrict_source_enabled st' = restrict_source_enabled st"
  using v6.hack_refines [OF _ assms(2), of "table6 st" "\<lparr>rcount = 0, rflags = fl, mflags = mf, expire = ex, raddr = a AND msk, rmask = msk\<rparr>" "shared st"] assms(1)
  by (auto simp: hack_restrict_def res_key_def res_wf_def)

text \<open>The lookup always ends at an entry, and leaves a sorted table even when it frees one.\<close>

lemma match_wf:
  assumes "table_wf t" "set xs \<subseteq> set (rlist t)" "restrict_def \<in> set xs"
  shows "\<exists>r t' sh'. match_restrict_addr now a port xs t sh = Some (Some r, t', sh') \<and> table_wf t' \<and>
    (r \<in> set (rlist t') \<and> res_view t' = res_view t \<or> rmem t' r = zero_restrict_u)"
  using assms(2,3)
proof (induction xs)
  case (Cons x xs)
  have def: "res_key (rmem t restrict_def) = (0, 0, 0)" "expire (rmem t restrict_def) = 0" using assms(1) by (auto simp: table_wf_def)
  consider "expired now (rmem t x)" | "\<not> expired now (rmem t x)" "matches a port (rmem t x)" | "\<not> expired now (rmem t x)" "\<not> matches a port (rmem t x)" by blast
  thus ?case
  proof cases
    case 1
    hence "x \<noteq> restrict_def" using def by (auto simp: expired_def)
    then obtain t' sh' where "free_res x t sh = Some (t', sh')" "table_wf t'" "rmem t' x = zero_restrict_u"
      using free_res_wf [OF assms(1), of x sh] Cons.prems(1) by auto
    thus ?thesis using 1 by (auto simp: expired_def zero_restrict_u_def)
  next
    case 2
    thus ?thesis using assms(1) Cons.prems by (auto simp: expired_def matches_def)
  next
    case 3
    hence "x \<noteq> restrict_def" using def by (auto simp: matches_def res_key_def)
    thus ?thesis using 3 Cons by (auto simp: expired_def matches_def)
  qed
qed simp

lemma source_wf:
  assumes "table_wf t" "r \<in> set (rlist t) \<or> rmem t r = zero_restrict_u"
  shows "\<exists>spec t' sh'. source_table ex (Some r) t sh = Some (spec, t', sh') \<and> table_wf t'"
proof (cases "ex = 0 \<and> rmask (rmem t r) = - 1 \<and> expire (rmem t r) \<noteq> 0")
  case True
  hence "r \<in> set (rlist t)" "r \<noteq> restrict_def" using assms by (auto simp: zero_restrict_u_def table_wf_def)
  thus ?thesis using free_res_wf [OF assms(1), of r sh] True by (auto simp: source_table_def)
next
  case False
  thus ?thesis using assms(1) by (auto simp: source_table_def)
qed

lemma res_wf_upd4: "res_wf st \<Longrightarrow> table_wf t \<Longrightarrow> res_wf (st\<lparr>table4 := t, shared := sh\<rparr>)"
  by (simp add: res_wf_def)

lemma res_wf_upd6: "res_wf st \<Longrightarrow> table_wf t \<Longrightarrow> res_wf (st\<lparr>table6 := t, shared := sh\<rparr>)"
  by (simp add: res_wf_def)

lemma restrict_source_ok:
  assumes "res_wf st"
  shows "\<exists>st'. restrict_source now a farewell ex st = Some st' \<and> res_wf st'"
proof (cases a)
  case (SA4 v p)
  obtain r t sh where m: "match_restrict4_addr now v p (table4 st) (shared st) = Some (Some r, t, sh)" "table_wf t" "r \<in> set (rlist t) \<or> rmem t r = zero_restrict_u"
    using match_wf [of "table4 st" "rlist (table4 st)" now v p "shared st"] assms by (auto simp: res_wf_def match_restrict4_addr_def table_wf_def)
  obtain b t' sh' where s: "source_table ex (Some r) t sh = Some (b, t', sh')" "table_wf t'" using source_wf [OF m(2,3)] by blast
  let ?s = "st\<lparr>table4 := t', shared := sh'\<rparr>"
  have w: "res_wf ?s" using assms s(2) by (rule res_wf_upd4)
  show ?thesis
    using hack4 [OF w, of RESTRICT_FLAGS v p "- 1" 0 "restrict_source_mflags ?s" "restrict_source_flags ?s" ex]
      hack4 [OF assms, of RESTRICT_REMOVE v p "- 1" 0 0 0 0] w assms m(1) s(1)
    by (auto simp: restrict_source_def SA4 Let_def)
next
  case (SA6 v p sc)
  obtain r t sh where m: "match_restrict6_addr now v p (table6 st) (shared st) = Some (Some r, t, sh)" "table_wf t" "r \<in> set (rlist t) \<or> rmem t r = zero_restrict_u"
    using match_wf [of "table6 st" "rlist (table6 st)" now v p "shared st"] assms by (auto simp: res_wf_def match_restrict6_addr_def table_wf_def)
  obtain b t' sh' where s: "source_table ex (Some r) t sh = Some (b, t', sh')" "table_wf t'" using source_wf [OF m(2,3)] by blast
  let ?s = "st\<lparr>table6 := t', shared := sh'\<rparr>"
  have w: "res_wf ?s" using assms s(2) by (rule res_wf_upd6)
  show ?thesis
    using hack6 [OF w, of RESTRICT_FLAGS v p sc "- 1" 0 0 "restrict_source_mflags ?s" "restrict_source_flags ?s" ex]
      hack6 [OF assms, of RESTRICT_REMOVE v p sc "- 1" 0 0 0 0 0] w assms m(1) s(1)
    by (auto simp: restrict_source_def SA6 Let_def)
next
  case SA_UNSPEC
  thus ?thesis using assms by (simp add: restrict_source_def SOCK_UNSPEC_def)
qed

text \<open>
  C30: Source restrictions.  \<^verbatim>\<open>restrict_source\<close> never fails on sorted tables.  The template of \<^verbatim>\<open>restrict source\<close> has a match flag of its own, which the
  entry for an association gets when it is added; the removal at the end of the association looks for an entry without match flags.  So the
  entry that was added is found in the table after the association has gone, whatever it was before.
\<close>
theorem source_restriction_stays:
  assumes "res_wf st" "restrict_source_enabled st" "restrict_source_mflags st \<noteq> 0" "\<forall>x \<in> set (rlist (table4 st)). \<not> expired now (rmem (table4 st) x)"
    and "\<not> SOCK_UNSPEC (SA4 a port)" "\<not> IS_MCAST (SA4 a port)" "\<not> ISREFCLOCKADR (SA4 a port)"
    and "\<forall>x \<in> set (rlist (table4 st)). rmask (rmem (table4 st) x) \<noteq> - 1"
  shows "\<exists>st1 st2. restrict_source now (SA4 a port) False 0 st = Some st1 \<and> restrict_source now (SA4 a port) True 0 st1 = Some st2 \<and>
    res_view (table4 st2) (a, - 1, restrict_source_mflags st) = Some (restrict_source_flags st, 0)"
proof -
  let ?k = "(a, - 1 :: u_int32, restrict_source_mflags st)"
  obtain r where m: "match_restrict4_addr now a port (table4 st) (shared st) = Some (Some r, table4 st, shared st)" "r \<in> set (rlist (table4 st))"
    using match_most_specific [of "table4 st" now a port "shared st"] assms(1,4) by (auto simp: res_wf_def match_restrict4_addr_def most_specific_def)
  hence s: "source_table 0 (Some r) (table4 st) (shared st) = Some (False, table4 st, shared st)"
    using assms(8) by (auto simp: source_table_def)
  have e: "st\<lparr>table4 := table4 st, shared := shared st\<rparr> = st" by simp
  have n: "res_view (table4 st) ?k = None" using assms(8) by (auto simp: view_None res_key_def)
  obtain st1 where st1: "hack_restrict RESTRICT_FLAGS (Some (SA4 a port)) (Some (SA4 (- 1) 0)) (restrict_source_mflags st) (restrict_source_flags st) 0 st = Some st1"
    "res_wf st1" "res_view (table4 st1) ?k = Some (restrict_source_flags st, 0)" "restrict_source_enabled st1"
    using hack4 [OF assms(1), of RESTRICT_FLAGS a port "- 1" 0 "restrict_source_mflags st" "restrict_source_flags st" 0] assms(2) n by auto
  obtain st2 where st2: "hack_restrict RESTRICT_REMOVE (Some (SA4 a port)) (Some (SA4 (- 1) 0)) 0 0 0 st1 = Some st2"
    "res_view (table4 st2) = hack_view RESTRICT_REMOVE (a, - 1, 0) 0 0 (res_view (table4 st1))"
    using hack4 [OF st1(2), of RESTRICT_REMOVE a port "- 1" 0 0 0 0] by auto
  have "restrict_source now (SA4 a port) False 0 st = Some st1"
    using assms(2,5-7) m(1) s st1(1) e by (simp add: restrict_source_def Let_def)
  moreover have "restrict_source now (SA4 a port) True 0 st1 = Some st2"
    using assms(5-7) st1(4) st2(1) by (simp add: restrict_source_def Let_def)
  moreover have "res_view (table4 st2) ?k = Some (restrict_source_flags st, 0)" using st1(3) st2(2) assms(3) by simp
  ultimately show ?thesis by blast
qed


theorem source_restriction_stays_witness:
  "\<exists>st st1 st2. hack_restrict RESTRICT_FLAGS None None RESM_SOURCE RES_LIMITED 0 res_zero = Some st \<and>
     restrict_source 7 (SA4 0x0a000001 123) False 0 st = Some st1 \<and> restrict_source 7 (SA4 0x0a000001 123) True 0 st1 = Some st2 \<and>
     res_view (table4 res_zero) (0x0a000001, - 1, RESM_SOURCE) = None \<and> res_view (table4 st2) (0x0a000001, - 1, RESM_SOURCE) = Some (RES_LIMITED, 0)"
proof -
  define st where "st = res_zero\<lparr>restrict_source_flags := RES_LIMITED, restrict_source_mflags := RESM_SOURCE, restrict_source_enabled := True\<rparr>"
  have "\<exists>st1 st2. restrict_source 7 (SA4 0x0a000001 123) False 0 st = Some st1 \<and> restrict_source 7 (SA4 0x0a000001 123) True 0 st1 = Some st2 \<and>
     res_view (table4 st2) (0x0a000001, - 1, restrict_source_mflags st) = Some (restrict_source_flags st, 0)"
    using res_zero_wf by (intro source_restriction_stays)
      (simp_all add: st_def res_wf_def RESM_SOURCE_def expired_def zero_restrict_u_def SOCK_UNSPEC_def IS_MCAST_def IN_CLASSD_def ISREFCLOCKADR_def)
  moreover have "hack_restrict RESTRICT_FLAGS None None RESM_SOURCE RES_LIMITED 0 res_zero = Some st" by (simp add: hack_restrict_def st_def)
  moreover have "res_view (table4 res_zero) (0x0a000001, - 1, RESM_SOURCE) = None"
    using res_zero_wf by (simp add: view_None res_key_def zero_restrict_u_def)
  ultimately show ?thesis by (auto simp: st_def)
qed

unbundle bit_operations_syntax
section \<open>Calls of the monitor\<close>

lemma match_mon_calls:
  assumes "match_restrict_addr now a port rs t sh = Some (r, t', sh')"
  shows "mon_calls sh' = mon_calls sh \<or> mon_calls sh' = mon_calls sh @ [Mon_stop] \<and> res_limited_refcnt sh = 1 \<and> res_limited_refcnt sh' = 0"
  using assms
proof (induction rs)
  case (Cons res rs)
  show ?case
  proof (cases "expire (rmem t res) \<noteq> 0 \<and> expire (rmem t res) \<le> now")
    case True
    then obtain t1 sh1 where f: "free_res res t sh = Some (t1, sh1)" using Cons.prems by (auto split: option.splits)
    then have "sh' = sh1" using Cons.prems True by (auto simp: free_res_def zero_restrict_u_def Let_def split: if_splits)
    then show ?thesis using f by (auto simp: free_res_def dec_res_limited_def Let_def split: if_splits)
  next
    case False
    then have "sh' = sh \<or> match_restrict_addr now a port rs t sh = Some (r, t', sh')" using Cons.prems by (simp split: if_splits)
    then show ?thesis using Cons.IH by blast
  qed
qed simp

text \<open>Looking up the restrictions stops the monitor at most once, when it frees the last entry that limits.\<close>

lemma restrictions_mon_calls:
  assumes "restrictions now src st = Some (mk, st')"
  shows "mon_calls (shared st') = mon_calls (shared st) \<or>
    mon_calls (shared st') = mon_calls (shared st) @ [Mon_stop] \<and> res_limited_refcnt (shared st) = 1 \<and> res_limited_refcnt (shared st') = 0"
proof (cases src)
  case (SA4 a port)
  then show ?thesis using assms match_mon_calls [of now a port "rlist (table4 st)" "table4 st" "shared st"]
    by (auto simp: restrictions_def count_found_def match_restrict4_addr_def Let_def split: if_splits option.splits)
next
  case (SA6 a port scope)
  then show ?thesis using assms match_mon_calls [of now a port "rlist (table6 st)" "table6 st" "shared st"]
    by (auto simp: restrictions_def count_found_def match_restrict6_addr_def Let_def split: if_splits option.splits)
next
  case SA_UNSPEC
  then show ?thesis using assms by (auto simp: restrictions_def)
qed

end
