(* ===== verification/NTP_Monitor.thy ===== *)
theory NTP_Monitor
  imports NTP_Fp NTP_Restrict
begin

text \<open>
  The monitor of \<^verbatim>\<open>ntpd/ntp_monitor.c\<close>: statistics on the sources of packets, in a hash table and a list with the most recent
  source first, and the rate limits.  Entries are addresses in a memory; the chains of the hash table, the list and the
  free list are the sequences of their entries, which the list macros act on as \<open>NTP_Lists\<close> and \<open>NTP_Dlist\<close> show.  The comparison of a
  random number with the age of the oldest entry is floating point and is an argument.  A result \<open>None\<close> is a failed
  assertion or the use of a \<^verbatim>\<open>NULL\<close> entry.
\<close>

unbundle bit_operations_syntax

section \<open>State\<close>

definition RES_KOD :: u_short where "RES_KOD = 0x0400"
definition MON_OFF :: u_int32 where "MON_OFF = 0"
definition MDF_UCAST :: u_char where "MDF_UCAST = 0x01"
definition MDF_MCAST :: u_char where "MDF_MCAST = 0x02"
definition MDF_BCAST :: u_char where "MDF_BCAST = 0x04"
definition INT_MCASTOPEN :: u_int32 where "INT_MCASTOPEN = 0x040"
definition NTP_SHIFT :: int where "NTP_SHIFT = 8"

record mon_entry =
  m_lcladr :: "addr option"
  m_first :: l_fp
  m_last :: l_fp
  m_leak :: int
  m_count :: int
  m_flags :: u_short
  m_vn_mode :: u_char
  m_cast_flags :: u_char
  m_rmtadr :: sockaddr_u

definition zero_mon :: mon_entry where
  "zero_mon = \<lparr>m_lcladr = None, m_first = \<lparr>l_ui = 0, l_uf = 0\<rparr>, m_last = \<lparr>l_ui = 0, l_uf = 0\<rparr>, m_leak = 0, m_count = 0, m_flags = 0,
     m_vn_mode = 0, m_cast_flags = 0, m_rmtadr = SA_UNSPEC\<rparr>"

text \<open>Of the packet buffer and of the interface, what the monitor reads.\<close>

record rpacket =
  p_time :: l_fp
  p_srcadr :: sockaddr_u
  p_dstadr :: addr
  p_fd :: int
  p_li_vn_mode :: u_char

record endpt =
  if_flags :: u_int32
  if_fd :: int
  if_bfd :: int

record mon_state =
  mon_enabled :: u_int32
  mon_hash_bits :: u_char
  mon_hash :: "nat \<Rightarrow> addr list"
  mon_mru_list :: "addr list"
  mon_free :: "addr list"
  mon_mem :: "addr \<Rightarrow> mon_entry"
  mon_fresh :: addr
  mru_alloc :: u_int32
  mru_entries :: u_int32
  mru_peakentries :: u_int32
  mon_mem_increments :: u_int32

record mon_config =
  mru_initalloc :: u_int32
  mru_incalloc :: u_int32
  mru_mindepth :: u_int32
  mru_maxdepth :: u_int32
  mru_maxage :: int
  ntp_minpkt :: int
  ntp_minpoll :: u_char
  mon_age :: int

section \<open>Configuration\<close>

text \<open>The defaults, and the options \<^verbatim>\<open>mru\<close> and \<^verbatim>\<open>discard\<close> of the configuration file; \<open>sz\<close> is the size of an entry in octets.\<close>

definition NTP_MINPKT :: int where "NTP_MINPKT = 2"
definition NTP_MINPOLL :: u_char where "NTP_MINPOLL = 3"

definition mon_defaults :: "u_int64 \<Rightarrow> mon_config" where
  "mon_defaults sz =
     \<lparr>mru_initalloc = ucast (4 * 1024 div sz), mru_incalloc = ucast (4 * 1024 div sz), mru_mindepth = 600, mru_maxdepth = ucast (1024 * 1024 div sz),
      mru_maxage = 64, ntp_minpkt = NTP_MINPKT, ntp_minpoll = NTP_MINPOLL, mon_age = 3000\<rparr>"

datatype mru_attr = T_Incalloc | T_Incmem | T_Initalloc | T_Initmem | T_Mindepth | T_Maxage | T_Maxdepth | T_Maxmem

definition UINT_MAX :: u_int32 where "UINT_MAX = 0xffffffff"
definition UCHAR_MAX :: int where "UCHAR_MAX = 255"

definition val_u :: "int \<Rightarrow> u_int32" where "val_u i = word_of_int i"

definition mem_entries :: "u_int64 \<Rightarrow> int \<Rightarrow> u_int32" where
  "mem_entries sz i = ucast ((ucast (val_u i * 1024) :: u_int64) div sz)"

fun mru_option :: "u_int64 \<Rightarrow> mru_attr \<Rightarrow> int \<Rightarrow> mon_config \<Rightarrow> mon_config" where
  "mru_option sz T_Incalloc i cf = (if 0 \<le> i then cf\<lparr>mru_incalloc := val_u i\<rparr> else cf)"
| "mru_option sz T_Incmem i cf = (if 0 \<le> i then cf\<lparr>mru_incalloc := mem_entries sz i\<rparr> else cf)"
| "mru_option sz T_Initalloc i cf = (if 0 \<le> i then cf\<lparr>mru_initalloc := val_u i\<rparr> else cf)"
| "mru_option sz T_Initmem i cf = (if 0 \<le> i then cf\<lparr>mru_initalloc := mem_entries sz i\<rparr> else cf)"
| "mru_option sz T_Mindepth i cf = (if 0 \<le> i then cf\<lparr>mru_mindepth := val_u i\<rparr> else cf)"
| "mru_option sz T_Maxage i cf = cf\<lparr>mru_maxage := i\<rparr>"
| "mru_option sz T_Maxdepth i cf = (if 0 \<le> i then cf\<lparr>mru_maxdepth := val_u i\<rparr> else cf\<lparr>mru_maxdepth := UINT_MAX\<rparr>)"
| "mru_option sz T_Maxmem i cf = (if 0 \<le> i then cf\<lparr>mru_maxdepth := mem_entries sz i\<rparr> else cf\<lparr>mru_maxdepth := UINT_MAX\<rparr>)"

datatype discard_attr = T_Average | T_Minimum | T_Monitor

fun discard_option :: "discard_attr \<Rightarrow> int \<Rightarrow> mon_config \<Rightarrow> mon_config" where
  "discard_option T_Average i cf = (if 0 \<le> i \<and> i \<le> UCHAR_MAX then cf\<lparr>ntp_minpoll := ucast (val_u i)\<rparr> else cf)"
| "discard_option T_Minimum i cf = cf\<lparr>ntp_minpkt := i\<rparr>"
| "discard_option T_Monitor i cf = cf\<lparr>mon_age := i\<rparr>"

definition config_monitor :: "u_int64 \<Rightarrow> (mru_attr \<times> int) list \<Rightarrow> (discard_attr \<times> int) list \<Rightarrow> mon_config \<Rightarrow> mon_config" where
  "config_monitor sz mru_opts discard_opts cf =
     fold (\<lambda>(a, i). discard_option a i) discard_opts (fold (\<lambda>(a, i). mru_option sz a i) mru_opts cf)"

section \<open>Operations\<close>

definition MON_HASH :: "mon_state \<Rightarrow> sockaddr_u \<Rightarrow> nat" where
  "MON_HASH s addr = unat ((ucast (sock_hash addr) :: u_int32) AND (push_bit (unat (mon_hash_bits s)) 1 - 1))"

definition init_mon :: "mon_state \<Rightarrow> mon_state" where
  "init_mon s = s\<lparr>mon_enabled := MON_OFF, mon_mru_list := []\<rparr>"

definition remove_from_hash :: "addr \<Rightarrow> mon_state \<Rightarrow> mon_state option" where
  "remove_from_hash mon s =
     (let s = s\<lparr>mru_entries := mru_entries s - 1\<rparr>;
          hash = MON_HASH s (m_rmtadr (mon_mem s mon))
      in if mon \<in> set (mon_hash s hash) then Some (s\<lparr>mon_hash := (mon_hash s)(hash := remove1 mon (mon_hash s hash))\<rparr>) else None)"

definition mon_free_entry :: "addr \<Rightarrow> mon_state \<Rightarrow> mon_state" where
  "mon_free_entry m s = s\<lparr>mon_mem := (mon_mem s)(m := zero_mon), mon_free := m # mon_free s\<rparr>"

definition mon_reclaim_entry :: "addr option \<Rightarrow> mon_state \<Rightarrow> mon_state option" where
  "mon_reclaim_entry mp s =
     (case mp of
        None \<Rightarrow> None
      | Some m \<Rightarrow>
          let s = s\<lparr>mon_mru_list := remove1 m (mon_mru_list s)\<rparr>
          in (case remove_from_hash m s of None \<Rightarrow> None | Some s \<Rightarrow> Some (s\<lparr>mon_mem := (mon_mem s)(m := zero_mon)\<rparr>)))"

text \<open>The entries of the chunk are put on the free list from the last to the first.\<close>

definition mon_getmoremem :: "mon_config \<Rightarrow> mon_state \<Rightarrow> mon_state" where
  "mon_getmoremem cf s =
     (let entries = (if mon_mem_increments s = 0 then mru_initalloc cf else mru_incalloc cf);
          chunk = mon_fresh s;
          s = fold mon_free_entry (rev [chunk..<chunk + unat entries]) (s\<lparr>mon_fresh := chunk + unat entries\<rparr>)
      in s\<lparr>mru_alloc := mru_alloc s + entries, mon_mem_increments := mon_mem_increments s + 1\<rparr>)"

function hash_bits_loop :: "u_int32 \<Rightarrow> u_char \<Rightarrow> u_char" where
  "hash_bits_loop min_hash_slots bits =
     (let min_hash_slots = drop_bit (Suc 0) min_hash_slots
      in if min_hash_slots \<noteq> 0 then hash_bits_loop min_hash_slots (bits + 1) else bits)"
  by pat_completeness auto
termination
proof (relation "measure (\<lambda>(s, _). unat s)")
  fix s x :: u_int32 and b :: u_char
  assume "x = drop_bit (Suc 0) s" "x \<noteq> 0"
  moreover from this have "s \<noteq> 0" by auto
  moreover have "unat (drop_bit (Suc 0) s) = unat s div 2" by (simp add: drop_bit_Suc unat_div)
  ultimately show "((x, b + 1), (s, b)) \<in> measure (\<lambda>(s, _). unat s)" by (simp add: unat_gt_0)
qed simp

declare hash_bits_loop.simps [simp del]

definition mon_start :: "mon_config \<Rightarrow> u_int32 \<Rightarrow> mon_state \<Rightarrow> mon_state" where
  "mon_start cf mode s =
     (if mode = MON_OFF then s
      else if mon_enabled s \<noteq> 0 then s\<lparr>mon_enabled := mon_enabled s OR mode\<rparr>
      else
        let s = (if mon_mem_increments s = 0 then mon_getmoremem cf s else s);
            bits = hash_bits_loop (mru_maxdepth cf div 8 + 1) 0;
            bits = max 4 bits;
            bits = min 16 bits
        in s\<lparr>mon_hash_bits := bits, mon_hash := (\<lambda>_. []), mon_enabled := mode\<rparr>)"

definition mon_stop :: "u_int32 \<Rightarrow> mon_state \<Rightarrow> mon_state" where
  "mon_stop mode s =
     (if mon_enabled s = MON_OFF then s
      else if mon_enabled s AND mode = 0 \<or> mode = MON_OFF then s
      else
        let s = s\<lparr>mon_enabled := mon_enabled s AND NOT mode\<rparr>
        in if mon_enabled s \<noteq> MON_OFF then s
           else
             let s = fold mon_free_entry (mon_mru_list s) s
             in s\<lparr>mru_entries := 0, mon_mru_list := [], mon_hash := (\<lambda>_. [])\<rparr>)"

definition mon_clear_entry :: "addr \<Rightarrow> addr \<Rightarrow> mon_state \<Rightarrow> mon_state option" where
  "mon_clear_entry lcladr mon s =
     (if m_lcladr (mon_mem s mon) = Some lcladr
      then (case remove_from_hash mon (s\<lparr>mon_mru_list := remove1 mon (mon_mru_list s)\<rparr>) of
              None \<Rightarrow> None
            | Some s \<Rightarrow> Some (mon_free_entry mon s))
      else Some s)"

fun mon_clear_entries :: "addr \<Rightarrow> addr list \<Rightarrow> mon_state \<Rightarrow> mon_state option" where
  "mon_clear_entries lcladr [] s = Some s"
| "mon_clear_entries lcladr (mon # ms) s =
     (case mon_clear_entry lcladr mon s of None \<Rightarrow> None | Some s \<Rightarrow> mon_clear_entries lcladr ms s)"

definition mon_clearinterface :: "addr \<Rightarrow> mon_state \<Rightarrow> mon_state option" where
  "mon_clearinterface lcladr s = mon_clear_entries lcladr (mon_mru_list s) s"

section \<open>Packets\<close>

text \<open>The time since the last packet in seconds, rounded.\<close>

definition mon_interval :: "l_fp \<Rightarrow> l_fp \<Rightarrow> int" where
  "mon_interval recv_time lst =
     (let interval_fp = L_SUB recv_time lst;
          interval_fp = L_ADDUF interval_fp 0x80000000
      in l_i interval_fp)"

text \<open>The leaky bucket of an entry: the new counter, and the flags.\<close>

definition rate_limit :: "mon_config \<Rightarrow> int \<Rightarrow> u_short \<Rightarrow> int \<Rightarrow> int \<times> u_short" where
  "rate_limit cf interval restrict_mask mleak =
     (let mleak = s32 (mleak - interval);
          mleak = max 0 mleak;
          head = s32 (push_bit (unat (ntp_minpoll cf)) 1);
          leak = s32 (mleak + head);
          limit = s32 (NTP_SHIFT * head)
      in if s32 (interval + 1) \<ge> ntp_minpkt cf \<and> leak < limit
         then (s32 (leak - 2), restrict_mask AND NOT (RES_LIMITED OR RES_KOD))
         else if mleak < limit then (s32 (limit + head), restrict_mask)
         else (mleak, restrict_mask AND NOT RES_KOD))"

definition PKT_MODE :: "u_char \<Rightarrow> u_char" where "PKT_MODE li_vn_mode = li_vn_mode AND 0x7"
definition PKT_VERSION :: "u_char \<Rightarrow> u_char" where "PKT_VERSION li_vn_mode = drop_bit 3 li_vn_mode AND 0x7"
definition VN_MODE :: "u_char \<Rightarrow> u_char \<Rightarrow> u_char" where "VN_MODE v m = push_bit 3 (v AND 7) OR (m AND 0x7)"

definition mon_known :: "mon_config \<Rightarrow> rpacket \<Rightarrow> u_short \<Rightarrow> addr \<Rightarrow> mon_state \<Rightarrow> u_short \<times> mon_state" where
  "mon_known cf rb flags mon s =
     (let e = mon_mem s mon;
          interval = mon_interval (p_time rb) (m_last e);
          (leak, restrict_mask) = rate_limit cf interval flags (m_leak e);
          e = e\<lparr>m_last := p_time rb, m_rmtadr := SET_PORT (SRCPORT (p_srcadr rb)) (m_rmtadr e), m_count := s32 (m_count e + 1),
                m_vn_mode := VN_MODE (PKT_VERSION (p_li_vn_mode rb)) (PKT_MODE (p_li_vn_mode rb)), m_leak := leak, m_flags := restrict_mask\<rparr>
      in (restrict_mask, s\<lparr>mon_mru_list := mon # remove1 mon (mon_mru_list s), mon_mem := (mon_mem s)(mon := e)\<rparr>))"

text \<open>An entry for a new source: from the free list, from the end of the list, or none.\<close>

definition mon_take_free :: "mon_config \<Rightarrow> mon_state \<Rightarrow> (addr option \<times> mon_state) option" where
  "mon_take_free cf s =
     (let s = (if mon_free s = [] then mon_getmoremem cf s else s)
      in case mon_free s of [] \<Rightarrow> None | mon # rest \<Rightarrow> Some (Some mon, s\<lparr>mon_free := rest\<rparr>))"

definition mon_reclaim :: "addr option \<Rightarrow> mon_state \<Rightarrow> (addr option \<times> mon_state) option" where
  "mon_reclaim oldest s = (case mon_reclaim_entry oldest s of None \<Rightarrow> None | Some s \<Rightarrow> Some (oldest, s))"

definition mon_get_entry :: "mon_config \<Rightarrow> (int \<Rightarrow> bool) \<Rightarrow> l_fp \<Rightarrow> mon_state \<Rightarrow> (addr option \<times> mon_state) option" where
  "mon_get_entry cf refuse recv_time s =
     (if mru_entries s < mru_mindepth cf then mon_take_free cf s
      else
        let oldest = (if mon_mru_list s = [] then None else Some (last (mon_mru_list s)));
            oldest_age = (case oldest of None \<Rightarrow> 0 | Some m \<Rightarrow> mon_interval recv_time (m_last (mon_mem s m)))
        in if oldest \<noteq> None \<and> mru_maxage cf < oldest_age then mon_reclaim oldest s
           else if mon_free s \<noteq> [] \<or> mru_alloc s < mru_maxdepth cf then mon_take_free cf s
           else if refuse oldest_age then Some (None, s)
           else mon_reclaim oldest s)"

definition mon_new :: "(addr \<Rightarrow> endpt) \<Rightarrow> rpacket \<Rightarrow> u_short \<Rightarrow> nat \<Rightarrow> addr \<Rightarrow> mon_state \<Rightarrow> u_short \<times> mon_state" where
  "mon_new ifs rb flags hash mon s =
     (let s = s\<lparr>mru_entries := mru_entries s + 1\<rparr>;
          s = s\<lparr>mru_peakentries := max (mru_peakentries s) (mru_entries s)\<rparr>;
          lcl = ifs (p_dstadr rb);
          e = \<lparr>m_lcladr = Some (p_dstadr rb), m_first = p_time rb, m_last = p_time rb, m_leak = 0, m_count = 1,
               m_flags = NOT (RES_LIMITED OR RES_KOD) AND flags,
               m_vn_mode = VN_MODE (PKT_VERSION (p_li_vn_mode rb)) (PKT_MODE (p_li_vn_mode rb)),
               m_cast_flags = (if if_flags lcl AND INT_MCASTOPEN \<noteq> 0 \<and> p_fd rb = if_fd lcl then MDF_MCAST
                               else if p_fd rb = if_bfd lcl then MDF_BCAST else MDF_UCAST),
               m_rmtadr = p_srcadr rb\<rparr>
      in (m_flags e,
          s\<lparr>mon_mem := (mon_mem s)(mon := e), mon_hash := (mon_hash s)(hash := mon # mon_hash s hash), mon_mru_list := mon # mon_mru_list s\<rparr>))"

definition ntp_monitor :: "mon_config \<Rightarrow> (addr \<Rightarrow> endpt) \<Rightarrow> (int \<Rightarrow> bool) \<Rightarrow> rpacket \<Rightarrow> u_short \<Rightarrow> mon_state \<Rightarrow> (u_short \<times> mon_state) option" where
  "ntp_monitor cf ifs refuse rb flags s =
     (if mon_enabled s = MON_OFF then Some (NOT (RES_LIMITED OR RES_KOD) AND flags, s)
      else
        let hash = MON_HASH s (p_srcadr rb)
        in case find (\<lambda>mon. SOCK_EQ (m_rmtadr (mon_mem s mon)) (p_srcadr rb)) (mon_hash s hash) of
             Some mon \<Rightarrow> Some (mon_known cf rb flags mon s)
           | None \<Rightarrow>
               (case mon_get_entry cf refuse (p_time rb) s of
                  None \<Rightarrow> None
                | Some (None, s) \<Rightarrow> Some (NOT (RES_LIMITED OR RES_KOD) AND flags, s)
                | Some (Some mon, s) \<Rightarrow> Some (mon_new ifs rb flags hash mon s)))"

section \<open>The invariant\<close>

abbreviation mon_host :: "mon_state \<Rightarrow> addr \<Rightarrow> sockaddr_u" where
  "mon_host s m \<equiv> m_rmtadr (mon_mem s m)"

definition mon_chains :: "mon_state \<Rightarrow> bool" where
  "mon_chains s \<longleftrightarrow> (\<forall>h. distinct (mon_hash s h) \<and> set (mon_hash s h) = {m \<in> set (mon_mru_list s). MON_HASH s (mon_host s m) = h})"

definition mon_hosts :: "mon_state \<Rightarrow> bool" where
  "mon_hosts s \<longleftrightarrow> (\<forall>m \<in> set (mon_mru_list s). \<forall>n \<in> set (mon_mru_list s). SOCK_EQ (mon_host s m) (mon_host s n) \<longrightarrow> m = n)"

definition mon_counts :: "mon_state \<Rightarrow> bool" where
  "mon_counts s \<longleftrightarrow> unat (mru_entries s) = length (mon_mru_list s) \<and> unat (mru_alloc s) = mon_fresh s \<and> mru_entries s \<le> mru_peakentries s \<and>
     mon_fresh s < 2 ^ 32 - 1 \<and> unat (mon_mem_increments s) \<le> mon_fresh s + 1 \<and> (mon_mem_increments s = 0 \<longrightarrow> mon_fresh s = 0)"

text \<open>The entries are on the list, on the free list, or among those being moved, \<open>D\<close>.\<close>

definition mon_owned :: "addr list \<Rightarrow> mon_state \<Rightarrow> bool" where
  "mon_owned D s \<longleftrightarrow> distinct (mon_mru_list s @ mon_free s @ D) \<and> set (mon_mru_list s @ mon_free s @ D) = {..<mon_fresh s}"

definition mon_ok :: "addr list \<Rightarrow> mon_state \<Rightarrow> bool" where
  "mon_ok D s \<longleftrightarrow> mon_owned D s \<and> mon_chains s \<and> mon_hosts s \<and> mon_counts s"

definition mon_wf :: "mon_state \<Rightarrow> bool" where
  "mon_wf s \<longleftrightarrow> mon_ok [] s \<and> (mon_enabled s = 0 \<longrightarrow> mon_mru_list s = []) \<and>
     (mon_enabled s \<noteq> 0 \<longrightarrow> mon_mem_increments s \<noteq> 0 \<and> 4 \<le> mon_hash_bits s \<and> mon_hash_bits s \<le> 16)"

lemma mon_ok_perm: "set D = set D' \<Longrightarrow> distinct D = distinct D' \<Longrightarrow> mon_ok D s \<longleftrightarrow> mon_ok D' s"
  by (simp add: mon_ok_def mon_owned_def)

lemma mon_owned_card: "mon_owned D s \<Longrightarrow> length (mon_mru_list s) + length (mon_free s) + length D = mon_fresh s"
  unfolding mon_owned_def using distinct_card [of "mon_mru_list s @ mon_free s @ D"] by simp

lemma mon_ok_length:
  assumes "mon_ok D s"
  shows "length (mon_mru_list s) + length (mon_free s) + length D = mon_fresh s" "unat (mru_entries s) = length (mon_mru_list s)"
    "unat (mru_alloc s) = mon_fresh s"
  using assms mon_owned_card by (simp_all add: mon_ok_def mon_counts_def)

text \<open>Taking an entry off the list and its chain.\<close>

definition mon_drop :: "addr \<Rightarrow> mon_state \<Rightarrow> mon_state" where
  "mon_drop m s = s\<lparr>mon_mru_list := remove1 m (mon_mru_list s), mru_entries := mru_entries s - 1,
     mon_hash := (mon_hash s)(MON_HASH s (mon_host s m) := remove1 m (mon_hash s (MON_HASH s (mon_host s m))))\<rparr>"

lemma remove_from_hash_drop:
  assumes "mon_ok D s" "m \<in> set (mon_mru_list s)"
  shows "remove_from_hash m (s\<lparr>mon_mru_list := remove1 m (mon_mru_list s)\<rparr>) = Some (mon_drop m s)"
  using assms by (simp add: remove_from_hash_def mon_drop_def mon_ok_def mon_chains_def MON_HASH_def Let_def)

lemma mon_ok_drop:
  assumes "mon_ok D s" "m \<in> set (mon_mru_list s)"
  shows "mon_ok (m # D) (mon_drop m s)"
proof -
  have d: "distinct (mon_mru_list s)" using assms by (simp add: mon_ok_def mon_owned_def)
  have l: "length (mon_mru_list s) \<noteq> 0" using assms(2) by auto
  hence e: "mru_entries s \<noteq> 0" using mon_ok_length(2) [OF assms(1)] by auto
  have "mru_entries s - 1 \<le> mru_entries s" using unat_minus_one [OF e] by (simp add: word_le_nat_alt)
  hence "mru_entries s - 1 \<le> mru_peakentries s" using assms(1) by (auto simp: mon_ok_def mon_counts_def)
  hence c: "mon_counts (mon_drop m s)" using assms unat_minus_one [OF e]
    by (simp add: mon_ok_def mon_counts_def mon_drop_def length_remove1)
  show ?thesis unfolding mon_ok_def
  proof (intro conjI)
    show "mon_owned (m # D) (mon_drop m s)"
      using assms d by (auto simp: mon_ok_def mon_owned_def mon_drop_def)
    show "mon_chains (mon_drop m s)"
      using assms d by (auto simp: mon_ok_def mon_chains_def mon_drop_def MON_HASH_def)
    show "mon_hosts (mon_drop m s)"
      using assms d by (auto simp: mon_ok_def mon_hosts_def mon_drop_def)
  qed (rule c)
qed

text \<open>An entry being moved can be overwritten, and freed.\<close>

lemma mon_ok_write:
  assumes "mon_ok (m # D) s"
  shows "mon_ok (m # D) (s\<lparr>mon_mem := (mon_mem s)(m := e)\<rparr>)"
proof -
  have "m \<notin> set (mon_mru_list s)" using assms by (auto simp: mon_ok_def mon_owned_def)
  thus ?thesis using assms by (auto simp: mon_ok_def mon_owned_def mon_chains_def mon_hosts_def mon_counts_def MON_HASH_def)
qed

lemma mon_ok_free_entry:
  assumes "mon_ok (m # D) s"
  shows "mon_ok D (mon_free_entry m s)"
  using mon_ok_write [OF assms, of zero_mon]
  by (auto simp: mon_free_entry_def mon_ok_def mon_owned_def mon_chains_def mon_hosts_def mon_counts_def MON_HASH_def)

lemma mon_ok_free_entries: "mon_ok (ms @ D) s \<Longrightarrow> mon_ok D (fold mon_free_entry ms s)"
  by (induction ms arbitrary: s) (auto dest: mon_ok_free_entry)

text \<open>The chains are kept when the hosts of the entries on the list are.\<close>

lemma MON_HASH_SOCK_EQ: "SOCK_EQ a b \<Longrightarrow> MON_HASH s a = MON_HASH s b"
  by (simp add: MON_HASH_def sock_hash_eq)

lemma MON_HASH_cong: "mon_hash_bits s' = mon_hash_bits s \<Longrightarrow> MON_HASH s' = MON_HASH s"
  by (simp add: MON_HASH_def fun_eq_iff)

lemma mon_lists_cong:
  assumes l: "set (mon_mru_list s') = set (mon_mru_list s)" "mon_hash s' = mon_hash s" "mon_hash_bits s' = mon_hash_bits s"
    and h: "\<And>m. m \<in> set (mon_mru_list s) \<Longrightarrow> SOCK_EQ (mon_host s' m) (mon_host s m)"
  shows "mon_chains s \<Longrightarrow> mon_chains s'" "mon_hosts s \<Longrightarrow> mon_hosts s'"
proof -
  have "{m \<in> set (mon_mru_list s). MON_HASH s (mon_host s' m) = k} = {m \<in> set (mon_mru_list s). MON_HASH s (mon_host s m) = k}" for k
    using MON_HASH_SOCK_EQ [OF h] by auto
  thus "mon_chains s \<Longrightarrow> mon_chains s'" by (simp only: mon_chains_def l MON_HASH_cong [OF l(3)] simp_thms)
  have "SOCK_EQ (mon_host s m) (mon_host s n)"
    if "SOCK_EQ (mon_host s' m) (mon_host s' n)" "m \<in> set (mon_mru_list s)" "n \<in> set (mon_mru_list s)" for m n
    using h [OF that(2)] h [OF that(3)] that(1) SOCK_EQ_trans SOCK_EQ_sym by blast
  thus "mon_hosts s \<Longrightarrow> mon_hosts s'" unfolding mon_hosts_def l by blast
qed

text \<open>More memory.\<close>

lemma mon_free_entry_simps [simp]:
  "mon_enabled (mon_free_entry m s) = mon_enabled s" "mon_hash_bits (mon_free_entry m s) = mon_hash_bits s" "mon_hash (mon_free_entry m s) = mon_hash s"
  "mon_mru_list (mon_free_entry m s) = mon_mru_list s" "mon_free (mon_free_entry m s) = m # mon_free s" "mon_fresh (mon_free_entry m s) = mon_fresh s"
  "mru_alloc (mon_free_entry m s) = mru_alloc s" "mru_entries (mon_free_entry m s) = mru_entries s"
  "mru_peakentries (mon_free_entry m s) = mru_peakentries s" "mon_mem_increments (mon_free_entry m s) = mon_mem_increments s"
  "mon_mem (mon_free_entry m s) = (mon_mem s)(m := zero_mon)"
  by (simp_all add: mon_free_entry_def)

lemma fold_free_entry:
  "fold mon_free_entry ms s = s\<lparr>mon_mem := (\<lambda>m. if m \<in> set ms then zero_mon else mon_mem s m), mon_free := rev ms @ mon_free s\<rparr>"
  by (induction ms arbitrary: s) (auto simp: mon_free_entry_def intro!: mon_state.equality)

definition alloc_size :: "mon_config \<Rightarrow> mon_state \<Rightarrow> u_int32" where
  "alloc_size cf s = (if mon_mem_increments s = 0 then mru_initalloc cf else mru_incalloc cf)"

lemma mon_getmoremem_eq:
  "mon_getmoremem cf s = s\<lparr>mon_fresh := mon_fresh s + unat (alloc_size cf s), mru_alloc := mru_alloc s + alloc_size cf s,
     mon_mem_increments := mon_mem_increments s + 1,
     mon_mem := (\<lambda>m. if m \<in> {mon_fresh s..<mon_fresh s + unat (alloc_size cf s)} then zero_mon else mon_mem s m),
     mon_free := [mon_fresh s..<mon_fresh s + unat (alloc_size cf s)] @ mon_free s\<rparr>"
  by (simp add: mon_getmoremem_def alloc_size_def [symmetric] Let_def fold_free_entry cong: if_cong)

lemma mon_ok_getmoremem:
  assumes ok: "mon_ok D s" and n: "mon_fresh s + unat (alloc_size cf s) < 2 ^ 32 - 1" "alloc_size cf s = 0 \<longrightarrow> mon_mem_increments s = 0"
  shows "mon_ok D (mon_getmoremem cf s)"
proof -
  let ?n = "unat (alloc_size cf s)" and ?s = "mon_getmoremem cf s"
  have lt: "m < mon_fresh s" if "m \<in> set (mon_mru_list s) \<union> set (mon_free s) \<union> set D" for m
    using ok that by (auto simp: mon_ok_def mon_owned_def)
  have same: "mon_mem ?s m = mon_mem s m" if "m \<in> set (mon_mru_list s)" for m using lt [of m] that by (simp add: mon_getmoremem_eq)
  have inc: "unat (mon_mem_increments s) \<le> mon_fresh s + 1" using ok by (simp add: mon_ok_def mon_counts_def)
  moreover have "?n \<noteq> 0" if "mon_mem_increments s \<noteq> 0" using n(2) that by (simp add: unat_eq_0)
  ultimately have i: "unat (mon_mem_increments s) + 1 \<le> mon_fresh s + ?n + 1" by (cases "mon_mem_increments s = 0") auto
  hence i': "unat (mon_mem_increments s + 1) = unat (mon_mem_increments s) + 1" using n(1) by (simp add: unat_word_ariths)
  hence "mon_mem_increments s + 1 \<noteq> 0" by auto
  moreover have "unat (mru_alloc s + alloc_size cf s) = mon_fresh s + ?n"
    using ok n(1) by (simp add: unat_word_ariths mon_ok_def mon_counts_def)
  ultimately have "mon_counts ?s" using ok n(1) i i' by (simp add: mon_ok_def mon_counts_def mon_getmoremem_eq)
  moreover have "mon_owned D ?s"
  proof -
    have d: "distinct (mon_mru_list s @ mon_free s @ D)" and u: "set (mon_mru_list s @ mon_free s @ D) = {..<mon_fresh s}"
      using ok by (simp_all add: mon_ok_def mon_owned_def)
    have "set [mon_fresh s..<mon_fresh s + ?n] \<inter> set (mon_mru_list s @ mon_free s @ D) = {}" unfolding u by auto
    hence "distinct (mon_mru_list s @ ([mon_fresh s..<mon_fresh s + ?n] @ mon_free s) @ D)" using d by auto
    moreover have "set (mon_mru_list s @ ([mon_fresh s..<mon_fresh s + ?n] @ mon_free s) @ D)
      = set [mon_fresh s..<mon_fresh s + ?n] \<union> set (mon_mru_list s @ mon_free s @ D)" by auto
    ultimately show ?thesis unfolding u by (auto simp: mon_owned_def mon_getmoremem_eq)
  qed
  moreover have "mon_chains ?s" "mon_hosts ?s" using mon_lists_cong [of ?s s] ok same by (auto simp: mon_ok_def mon_getmoremem_eq)
  ultimately show ?thesis by (simp add: mon_ok_def)
qed

text \<open>The look-up finds the entry of the host if there is one.\<close>

lemma MON_HASH_bound: "MON_HASH s a < 2 ^ unat (mon_hash_bits s)" if "mon_hash_bits s \<le> 16"
proof -
  let ?k = "unat (mon_hash_bits s)"
  have "?k \<le> 16" using that by (simp add: word_le_nat_alt)
  hence k: "?k < 32" by simp
  have "(push_bit ?k 1 - 1 :: u_int32) = mask ?k" by (simp add: mask_eq_decr_exp push_bit_eq_mult)
  hence "MON_HASH s a = unat (take_bit ?k (ucast (sock_hash a) :: u_int32))" by (simp add: MON_HASH_def take_bit_eq_mask)
  also have "\<dots> < 2 ^ ?k" by (simp add: unsigned_take_bit_eq)
  finally show ?thesis .
qed

lemma mon_find:
  assumes "mon_ok D s"
  shows "find (\<lambda>m. SOCK_EQ (mon_host s m) a) (mon_hash s (MON_HASH s a)) = find (\<lambda>m. SOCK_EQ (mon_host s m) a) (mon_mru_list s)"
proof -
  have mem: "m \<in> set (mon_hash s (MON_HASH s a)) \<longleftrightarrow> m \<in> set (mon_mru_list s)" if "SOCK_EQ (mon_host s m) a" for m
    using assms MON_HASH_SOCK_EQ [OF that, of s] by (auto simp: mon_ok_def mon_chains_def)
  have one: "m = n" if "SOCK_EQ (mon_host s m) a" "SOCK_EQ (mon_host s n) a" "m \<in> set (mon_mru_list s)" "n \<in> set (mon_mru_list s)" for m n
    using assms that SOCK_EQ_trans SOCK_EQ_sym unfolding mon_ok_def mon_hosts_def by metis
  show ?thesis
  proof (cases "find (\<lambda>m. SOCK_EQ (mon_host s m) a) (mon_mru_list s)")
    case None
    hence "\<not> (\<exists>m. m \<in> set (mon_hash s (MON_HASH s a)) \<and> SOCK_EQ (mon_host s m) a)" using mem by (auto simp: find_None_iff)
    thus ?thesis using None by (simp add: find_None_iff [THEN iffD2])
  next
    case (Some m)
    hence m: "m \<in> set (mon_mru_list s)" "SOCK_EQ (mon_host s m) a" by (auto simp: find_Some_iff)
    show ?thesis
    proof (cases "find (\<lambda>m. SOCK_EQ (mon_host s m) a) (mon_hash s (MON_HASH s a))")
      case None
      thus ?thesis using m mem by (auto simp: find_None_iff)
    next
      case (Some n)
      hence "n \<in> set (mon_hash s (MON_HASH s a))" "SOCK_EQ (mon_host s n) a" by (auto simp: find_Some_iff)
      thus ?thesis using m mem one Some \<open>find _ (mon_mru_list s) = Some m\<close> by metis
    qed
  qed
qed

section \<open>The specification\<close>

text \<open>
  What the monitor keeps, without the hash table and the free list: one entry per host, the most recent host first, and how many
  entries there is memory for.
\<close>

record amon =
  a_enabled :: u_int32
  a_list :: "mon_entry list"
  a_alloc :: nat
  a_started :: bool
  a_peak :: nat

definition mon_abs :: "mon_state \<Rightarrow> amon" where
  "mon_abs s = \<lparr>a_enabled = mon_enabled s, a_list = map (mon_mem s) (mon_mru_list s), a_alloc = mon_fresh s, a_started = (mon_mem_increments s \<noteq> 0),
     a_peak = unat (mru_peakentries s)\<rparr>"

definition quiet :: "u_short \<Rightarrow> u_short" where
  "quiet flags = NOT (RES_LIMITED OR RES_KOD) AND flags"

definition entry_new :: "(addr \<Rightarrow> endpt) \<Rightarrow> rpacket \<Rightarrow> u_short \<Rightarrow> mon_entry" where
  "entry_new ifs rb flags =
     \<lparr>m_lcladr = Some (p_dstadr rb), m_first = p_time rb, m_last = p_time rb, m_leak = 0, m_count = 1, m_flags = quiet flags,
      m_vn_mode = p_li_vn_mode rb AND 0x3f,
      m_cast_flags = (if bit (if_flags (ifs (p_dstadr rb))) 6 \<and> p_fd rb = if_fd (ifs (p_dstadr rb)) then MDF_MCAST
                      else if p_fd rb = if_bfd (ifs (p_dstadr rb)) then MDF_BCAST else MDF_UCAST),
      m_rmtadr = p_srcadr rb\<rparr>"

definition entry_seen :: "mon_config \<Rightarrow> rpacket \<Rightarrow> u_short \<Rightarrow> mon_entry \<Rightarrow> u_short \<times> mon_entry" where
  "entry_seen cf rb flags e =
     (let (leak, mask) = rate_limit cf (mon_interval (p_time rb) (m_last e)) flags (m_leak e)
      in (mask, e\<lparr>m_last := p_time rb, m_rmtadr := SET_PORT (SRCPORT (p_srcadr rb)) (m_rmtadr e), m_count := s32 (m_count e + 1),
                  m_vn_mode := p_li_vn_mode rb AND 0x3f, m_leak := leak, m_flags := mask\<rparr>))"

definition amon_add :: "mon_config \<Rightarrow> mon_entry \<Rightarrow> amon \<Rightarrow> amon option" where
  "amon_add cf e A =
     (let n = (if length (a_list A) < a_alloc A then a_alloc A else a_alloc A + unat (mru_incalloc cf))
      in if length (a_list A) < n
         then Some (A\<lparr>a_list := e # a_list A, a_alloc := n, a_peak := max (a_peak A) (length (a_list A) + 1)\<rparr>) else None)"

definition amon_replace :: "mon_entry \<Rightarrow> amon \<Rightarrow> amon option" where
  "amon_replace e A = (if a_list A = [] then None else Some (A\<lparr>a_list := e # butlast (a_list A)\<rparr>))"

definition amon_packet :: "mon_config \<Rightarrow> (addr \<Rightarrow> endpt) \<Rightarrow> (int \<Rightarrow> bool) \<Rightarrow> rpacket \<Rightarrow> u_short \<Rightarrow> amon \<Rightarrow> (u_short \<times> amon) option" where
  "amon_packet cf ifs refuse rb flags A =
     (if a_enabled A = 0 then Some (quiet flags, A)
      else case find (\<lambda>e. SOCK_EQ (m_rmtadr e) (p_srcadr rb)) (a_list A) of
        Some e \<Rightarrow> (let (mask, e') = entry_seen cf rb flags e
                  in Some (mask, A\<lparr>a_list := e' # filter (\<lambda>e. \<not> SOCK_EQ (m_rmtadr e) (p_srcadr rb)) (a_list A)\<rparr>))
      | None \<Rightarrow>
          (let e = entry_new ifs rb flags;
               n = length (a_list A);
               age = (if n = 0 then 0 else mon_interval (p_time rb) (m_last (last (a_list A))))
           in map_option (Pair (quiet flags))
             (if n < unat (mru_mindepth cf) then amon_add cf e A
              else if 0 < n \<and> mru_maxage cf < age then amon_replace e A
              else if n < a_alloc A \<or> a_alloc A < unat (mru_maxdepth cf) then amon_add cf e A
              else if refuse age then Some A else amon_replace e A)))"

definition amon_start :: "mon_config \<Rightarrow> u_int32 \<Rightarrow> amon \<Rightarrow> amon" where
  "amon_start cf mode A =
     (if mode = 0 then A
      else if a_enabled A \<noteq> 0 then A\<lparr>a_enabled := a_enabled A OR mode\<rparr>
      else A\<lparr>a_enabled := mode, a_started := True, a_alloc := (if a_started A then a_alloc A else unat (mru_initalloc cf))\<rparr>)"

definition amon_stop :: "u_int32 \<Rightarrow> amon \<Rightarrow> amon" where
  "amon_stop mode A =
     (let on = a_enabled A AND NOT mode in A\<lparr>a_enabled := on, a_list := (if on = 0 then [] else a_list A)\<rparr>)"

definition amon_clearinterface :: "addr \<Rightarrow> amon \<Rightarrow> amon" where
  "amon_clearinterface lcladr A = A\<lparr>a_list := filter (\<lambda>e. m_lcladr e \<noteq> Some lcladr) (a_list A)\<rparr>"

text \<open>The limits of a configuration within which the counters do not overflow.\<close>

definition cfg_ok :: "mon_config \<Rightarrow> bool" where
  "cfg_ok cf \<longleftrightarrow> max (unat (mru_mindepth cf)) (unat (mru_maxdepth cf)) + max (unat (mru_initalloc cf)) (unat (mru_incalloc cf)) < 2 ^ 32 - 1"

section \<open>Refinement\<close>

lemma VN_MODE_packet: "VN_MODE (PKT_VERSION b) (PKT_MODE b) = b AND 0x3f"
proof (rule bit_word_eqI)
  fix n assume "n < LENGTH(8)"
  hence "n < 8" by simp
  hence "n \<in> {0, 1, 2, 3, 4, 5, 6, 7}" by auto
  thus "bit (VN_MODE (PKT_VERSION b) (PKT_MODE b)) n = bit (b AND 0x3f) n"
    by (auto simp: VN_MODE_def PKT_VERSION_def PKT_MODE_def bit_simps)
qed

lemma INT_MCASTOPEN_bit: "fl AND INT_MCASTOPEN \<noteq> 0 \<longleftrightarrow> bit fl 6"
  using and_exp_eq_0_iff_not_bit [of fl 6] by (simp add: INT_MCASTOPEN_def)

lemma mon_new_entry:
  "mon_new ifs rb flags h m s = (quiet flags, s\<lparr>mru_entries := mru_entries s + 1, mru_peakentries := max (mru_peakentries s) (mru_entries s + 1),
     mon_mem := (mon_mem s)(m := entry_new ifs rb flags), mon_hash := (mon_hash s)(h := m # mon_hash s h), mon_mru_list := m # mon_mru_list s\<rparr>)"
  by (simp add: mon_new_def Let_def entry_new_def quiet_def VN_MODE_packet INT_MCASTOPEN_bit)

lemma mon_known_entry:
  "mon_known cf rb flags m s = (fst (entry_seen cf rb flags (mon_mem s m)),
     s\<lparr>mon_mru_list := m # remove1 m (mon_mru_list s), mon_mem := (mon_mem s)(m := snd (entry_seen cf rb flags (mon_mem s m)))\<rparr>)"
  by (simp add: mon_known_def Let_def entry_seen_def VN_MODE_packet split: prod.split)

lemma entry_seen_host [simp]: "m_rmtadr (snd (entry_seen cf rb flags e)) = SET_PORT (SRCPORT (p_srcadr rb)) (m_rmtadr e)"
  by (simp add: entry_seen_def split: prod.split)

lemma remove1_last: "distinct xs \<Longrightarrow> xs \<noteq> [] \<Longrightarrow> remove1 (last xs) xs = butlast xs"
  by (induction xs) auto

lemma mon_new_ok:
  assumes ok: "mon_ok [m] s" and new: "\<forall>n \<in> set (mon_mru_list s). \<not> SOCK_EQ (mon_host s n) (p_srcadr rb)"
    and s': "mon_new ifs rb flags (MON_HASH s (p_srcadr rb)) m s = (r, s')"
  shows "mon_ok [] s'" "r = quiet flags" "mon_hash_bits s' = mon_hash_bits s"
    "mon_abs s' = (mon_abs s)\<lparr>a_list := entry_new ifs rb flags # a_list (mon_abs s), a_peak := max (a_peak (mon_abs s)) (length (a_list (mon_abs s)) + 1)\<rparr>"
proof -
  let ?e = "entry_new ifs rb flags"
  have s'_eq: "s' = s\<lparr>mru_entries := mru_entries s + 1, mru_peakentries := max (mru_peakentries s) (mru_entries s + 1),
     mon_mem := (mon_mem s)(m := ?e), mon_hash := (mon_hash s)(MON_HASH s (p_srcadr rb) := m # mon_hash s (MON_HASH s (p_srcadr rb))),
     mon_mru_list := m # mon_mru_list s\<rparr>" and r: "r = quiet flags" using s' by (simp_all add: mon_new_entry)
  have m: "m \<notin> set (mon_mru_list s)" using ok by (auto simp: mon_ok_def mon_owned_def)
  have host: "m_rmtadr ?e = p_srcadr rb" by (simp add: entry_new_def)
  have "length (mon_mru_list s) < mon_fresh s" "mon_fresh s < 2 ^ 32 - 1" using mon_ok_length(1) [OF ok] ok by (simp_all add: mon_ok_def mon_counts_def)
  hence e: "unat (mru_entries s + 1) = unat (mru_entries s) + 1" using mon_ok_length(2) [OF ok] by (simp add: unat_word_ariths)
  have mx: "unat (max a b) = max (unat a) (unat b)" for a b :: u_int32 by (simp add: max_def word_le_nat_alt)
  show "r = quiet flags" by (rule r)
  show "mon_hash_bits s' = mon_hash_bits s" by (simp add: s'_eq)
  show "mon_abs s' = (mon_abs s)\<lparr>a_list := entry_new ifs rb flags # a_list (mon_abs s), a_peak := max (a_peak (mon_abs s)) (length (a_list (mon_abs s)) + 1)\<rparr>"
    using m e mon_ok_length(2) [OF ok] by (simp add: mon_abs_def s'_eq mx)
  have "mon_counts s'" using ok e by (simp add: mon_ok_def mon_counts_def s'_eq)
  moreover have "mon_owned [] s'" using ok by (auto simp: mon_ok_def mon_owned_def s'_eq)
  moreover have "mon_chains s'" using ok m host by (auto simp: mon_ok_def mon_chains_def s'_eq MON_HASH_def)
  moreover have "mon_hosts s'" using ok m host new SOCK_EQ_sym by (auto simp: mon_ok_def mon_hosts_def s'_eq)
  ultimately show "mon_ok [] s'" by (simp add: mon_ok_def)
qed

lemma mon_known_ok:
  assumes ok: "mon_ok D s" and m: "m \<in> set (mon_mru_list s)" "SOCK_EQ (mon_host s m) (p_srcadr rb)" and s': "mon_known cf rb flags m s = (r, s')"
  shows "mon_ok D s'" "mon_hash_bits s' = mon_hash_bits s" "r = fst (entry_seen cf rb flags (mon_mem s m))"
    "mon_abs s' = (mon_abs s)\<lparr>a_list := snd (entry_seen cf rb flags (mon_mem s m)) # filter (\<lambda>e. \<not> SOCK_EQ (m_rmtadr e) (p_srcadr rb)) (a_list (mon_abs s))\<rparr>"
proof -
  let ?e = "snd (entry_seen cf rb flags (mon_mem s m))"
  have s'_eq: "s' = s\<lparr>mon_mru_list := m # remove1 m (mon_mru_list s), mon_mem := (mon_mem s)(m := ?e)\<rparr>"
    and r: "r = fst (entry_seen cf rb flags (mon_mem s m))" using s' by (simp_all add: mon_known_entry)
  have d: "distinct (mon_mru_list s)" using ok by (simp add: mon_ok_def mon_owned_def)
  have l: "set (mon_mru_list s') = set (mon_mru_list s)" using d m(1) by (auto simp: s'_eq)
  have "mon_chains s'" "mon_hosts s'" using mon_lists_cong [OF l] ok by (simp_all add: mon_ok_def s'_eq)
  moreover have "mon_owned D s'" using ok d m(1) by (auto simp: mon_ok_def mon_owned_def s'_eq)
  moreover have "length (m # remove1 m (mon_mru_list s)) = length (mon_mru_list s)" using length_pos_if_in_set [OF m(1)] m(1) by (simp add: length_remove1)
  hence "mon_counts s'" using ok by (simp add: mon_ok_def mon_counts_def s'_eq)
  ultimately show "mon_ok D s'" by (simp add: mon_ok_def)
  show "mon_hash_bits s' = mon_hash_bits s" "r = fst (entry_seen cf rb flags (mon_mem s m))" using r by (simp_all add: s'_eq)
  have "SOCK_EQ (mon_host s n) (p_srcadr rb) \<longleftrightarrow> n = m" if "n \<in> set (mon_mru_list s)" for n
  proof
    assume "SOCK_EQ (mon_host s n) (p_srcadr rb)"
    hence "SOCK_EQ (mon_host s n) (mon_host s m)" using m(2) SOCK_EQ_trans SOCK_EQ_sym by blast
    thus "n = m" using ok that m(1) by (simp add: mon_ok_def mon_hosts_def)
  qed (use m in simp)
  hence "filter (\<lambda>n. \<not> SOCK_EQ (mon_host s n) (p_srcadr rb)) (mon_mru_list s) = filter (\<lambda>n. n \<noteq> m) (mon_mru_list s)" by (auto intro: filter_cong)
  hence "remove1 m (mon_mru_list s) = filter (\<lambda>n. \<not> SOCK_EQ (mon_host s n) (p_srcadr rb)) (mon_mru_list s)"
    by (simp add: distinct_remove1_removeAll [OF d] removeAll_filter_not_eq eq_commute)
  moreover have "map ((mon_mem s)(m := ?e)) (remove1 m (mon_mru_list s)) = map (mon_mem s) (remove1 m (mon_mru_list s))" using d by auto
  ultimately show "mon_abs s' = (mon_abs s)\<lparr>a_list := ?e # filter (\<lambda>e. \<not> SOCK_EQ (m_rmtadr e) (p_srcadr rb)) (a_list (mon_abs s))\<rparr>"
    by (simp add: mon_abs_def s'_eq filter_map o_def)
qed

lemma mon_reclaim_ok:
  assumes ok: "mon_ok [] s" and ne: "mon_mru_list s \<noteq> []" and m: "m = last (mon_mru_list s)"
  shows "\<exists>s'. mon_reclaim (Some m) s = Some (Some m, s') \<and> mon_ok [m] s' \<and> mon_hash_bits s' = mon_hash_bits s \<and>
    set (mon_mru_list s') \<subseteq> set (mon_mru_list s) \<and> (\<forall>n \<in> set (mon_mru_list s'). mon_mem s' n = mon_mem s n) \<and>
    mon_abs s' = (mon_abs s)\<lparr>a_list := butlast (a_list (mon_abs s))\<rparr>"
proof -
  have mm: "m \<in> set (mon_mru_list s)" using ne m by simp
  have d: "distinct (mon_mru_list s)" using ok by (simp add: mon_ok_def mon_owned_def)
  let ?d = "mon_drop m s" and ?s = "(mon_drop m s)\<lparr>mon_mem := (mon_mem s)(m := zero_mon)\<rparr>"
  have "mon_reclaim (Some m) s = Some (Some m, ?s)"
    using remove_from_hash_drop [OF ok mm] by (simp add: mon_reclaim_def mon_reclaim_entry_def Let_def mon_drop_def)
  moreover have "mon_ok [m] ?s" using mon_ok_write [OF mon_ok_drop [OF ok mm], of zero_mon] by (simp add: mon_drop_def)
  moreover have l: "mon_mru_list ?s = butlast (mon_mru_list s)" using remove1_last [OF d ne] m by (simp add: mon_drop_def)
  moreover have nm: "m \<notin> set (butlast (mon_mru_list s))" using d remove1_last [OF d ne] m by (metis distinct_remove1_removeAll removeAll_filter_not_eq set_remove1_eq Diff_iff insertI1)
  moreover have "mon_abs ?s = (mon_abs s)\<lparr>a_list := butlast (a_list (mon_abs s))\<rparr>"
    using l nm by (simp add: mon_abs_def mon_drop_def flip: map_butlast)
  ultimately show ?thesis by (intro exI [of _ ?s]) (auto simp: mon_drop_def dest: in_set_butlastD)
qed

lemma mon_take_free_ok:
  assumes ok: "mon_ok [] s" and st: "mon_mem_increments s \<noteq> 0" and n: "mon_free s = [] \<Longrightarrow> mon_fresh s + unat (mru_incalloc cf) < 2 ^ 32 - 1"
  shows "if mon_free s = [] \<and> mru_incalloc cf = 0 then mon_take_free cf s = None
    else \<exists>m s'. mon_take_free cf s = Some (Some m, s') \<and> mon_ok [m] s' \<and> mon_hash_bits s' = mon_hash_bits s \<and>
    set (mon_mru_list s') \<subseteq> set (mon_mru_list s) \<and> (\<forall>n \<in> set (mon_mru_list s'). mon_mem s' n = mon_mem s n) \<and>
    mon_abs s' = (mon_abs s)\<lparr>a_alloc := (if mon_free s = [] then mon_fresh s + unat (mru_incalloc cf) else mon_fresh s)\<rparr>"
proof (cases "mon_free s = [] \<and> mru_incalloc cf = 0")
  case True
  thus ?thesis using st by (simp add: mon_take_free_def mon_getmoremem_eq alloc_size_def)
next
  case False
  let ?t = "if mon_free s = [] then mon_getmoremem cf s else s"
  have sz: "alloc_size cf s = mru_incalloc cf" using st by (simp add: alloc_size_def)
  have t: "mon_ok [] ?t" using mon_ok_getmoremem [OF ok, of cf] False n sz ok by simp
  have "0 < unat (mru_incalloc cf)" if "mon_free s = []" using False that by (simp add: unat_gt_0)
  hence pos: "mon_free s = [] \<Longrightarrow> 0 < unat (mru_incalloc cf)" by simp
  hence "mon_free ?t \<noteq> []" by (auto simp: mon_getmoremem_eq sz)
  then obtain m rest where f: "mon_free ?t = m # rest" by (cases "mon_free ?t") auto
  let ?s = "?t\<lparr>mon_free := rest\<rparr>"
  have "mon_take_free cf s = Some (Some m, ?s)" using f by (simp add: mon_take_free_def Let_def)
  moreover have "mon_ok [m] ?s" using t f
    by (auto simp: mon_ok_def mon_owned_def mon_chains_def mon_hosts_def mon_counts_def MON_HASH_def)
  moreover have lt: "n < mon_fresh s" if "n \<in> set (mon_mru_list s)" for n using ok that by (auto simp: mon_ok_def mon_owned_def)
  have same: "mon_mru_list ?s = mon_mru_list s" "mon_hash_bits ?s = mon_hash_bits s" "\<forall>n \<in> set (mon_mru_list s). mon_mem ?s n = mon_mem s n"
    using lt by (auto simp: mon_getmoremem_eq dest: leD)
  moreover have "mon_abs ?s = (mon_abs s)\<lparr>a_alloc := (if mon_free s = [] then mon_fresh s + unat (mru_incalloc cf) else mon_fresh s)\<rparr>"
  proof -
    have "map (mon_mem ?s) (mon_mru_list ?s) = map (mon_mem s) (mon_mru_list s)" using same by simp
    moreover have "mon_mem_increments ?s \<noteq> 0" using t st pos by (auto simp: mon_getmoremem_eq mon_ok_def mon_counts_def sz)
    ultimately show ?thesis using st by (simp add: mon_abs_def mon_getmoremem_eq sz)
  qed
  ultimately show ?thesis using False
    by (intro if_not_P [THEN iffD2] exI [of _ m] exI [of _ ?s]) auto
qed

lemma mon_abs_simps [simp]:
  "a_enabled (mon_abs s) = mon_enabled s" "a_list (mon_abs s) = map (mon_mem s) (mon_mru_list s)" "a_alloc (mon_abs s) = mon_fresh s"
  "a_started (mon_abs s) \<longleftrightarrow> mon_mem_increments s \<noteq> 0" "a_peak (mon_abs s) = unat (mru_peakentries s)"
  by (simp_all add: mon_abs_def)

lemma find_map: "find P (map f xs) = map_option f (find (P \<circ> f) xs)"
  by (induction xs) auto

definition mon_refines :: "(u_short \<times> mon_state) option \<Rightarrow> (u_short \<times> amon) option \<Rightarrow> bool" where
  "mon_refines c a \<longleftrightarrow> map_option (map_prod id mon_abs) c = a \<and> (\<forall>r s. c = Some (r, s) \<longrightarrow> mon_wf s)"

lemma mon_free_iff: "mon_ok [] s \<Longrightarrow> mon_free s \<noteq> [] \<longleftrightarrow> length (mon_mru_list s) < mon_fresh s"
  using mon_ok_length(1) [of "[]" s] by (cases "mon_free s") auto

text \<open>A new source gets the entry it is given, whichever way that entry was found.\<close>

definition mon_link_new :: "(addr \<Rightarrow> endpt) \<Rightarrow> rpacket \<Rightarrow> u_short \<Rightarrow> nat \<Rightarrow> (addr option \<times> mon_state) option \<Rightarrow> (u_short \<times> mon_state) option" where
  "mon_link_new ifs rb flags hash r =
     (case r of None \<Rightarrow> None
      | Some (None, s) \<Rightarrow> Some (quiet flags, s)
      | Some (Some mon, s) \<Rightarrow> Some (mon_new ifs rb flags hash mon s))"

lemma ntp_monitor_cases:
  assumes "mon_ok D s" "mon_enabled s \<noteq> 0"
  shows "ntp_monitor cf ifs refuse rb flags s =
    (case find (\<lambda>m. SOCK_EQ (mon_host s m) (p_srcadr rb)) (mon_mru_list s) of
       Some m \<Rightarrow> Some (mon_known cf rb flags m s)
     | None \<Rightarrow> mon_link_new ifs rb flags (MON_HASH s (p_srcadr rb)) (mon_get_entry cf refuse (p_time rb) s))"
  using assms mon_find [OF assms(1), of "p_srcadr rb"]
  by (simp add: ntp_monitor_def MON_OFF_def Let_def mon_link_new_def quiet_def cong: option.case_cong)

lemma mon_wf_ok: "mon_wf s \<Longrightarrow> mon_ok [] s"
  by (simp add: mon_wf_def)

lemma mon_wf_step:
  assumes "mon_wf s" "mon_enabled s \<noteq> 0" "mon_ok [] s'" "mon_hash_bits s' = mon_hash_bits s" "mon_enabled s' = mon_enabled s" "mon_mem_increments s' \<noteq> 0"
  shows "mon_wf s'"
  using assms by (simp add: mon_wf_def)

lemma mon_link_new_refines:
  assumes wf: "mon_wf s" "mon_enabled s \<noteq> 0" and new: "\<forall>n \<in> set (mon_mru_list s). \<not> SOCK_EQ (mon_host s n) (p_srcadr rb)"
    and s': "mon_ok [m] s'" "mon_hash_bits s' = mon_hash_bits s" "set (mon_mru_list s') \<subseteq> set (mon_mru_list s)"
      "\<forall>n \<in> set (mon_mru_list s'). mon_mem s' n = mon_mem s n" and en: "mon_enabled s' = mon_enabled s" "mon_mem_increments s' \<noteq> 0"
  shows "mon_refines (mon_link_new ifs rb flags (MON_HASH s (p_srcadr rb)) (Some (Some m, s')))
    (Some (quiet flags, (mon_abs s')\<lparr>a_list := entry_new ifs rb flags # a_list (mon_abs s'),
       a_peak := max (a_peak (mon_abs s')) (length (a_list (mon_abs s')) + 1)\<rparr>))"
proof -
  obtain r t where rt: "mon_new ifs rb flags (MON_HASH s' (p_srcadr rb)) m s' = (r, t)" by fastforce
  have "\<forall>n \<in> set (mon_mru_list s'). \<not> SOCK_EQ (mon_host s' n) (p_srcadr rb)" using new s'(3,4) by auto
  note t = mon_new_ok [OF s'(1) this rt]
  have "a_enabled (mon_abs t) = mon_enabled s" "a_started (mon_abs t)" unfolding t(4) using en by simp_all
  hence "mon_wf t" using mon_wf_step [OF wf t(1)] t(3) s'(2) by simp
  thus ?thesis using t rt MON_HASH_cong [OF s'(2)] by (simp add: mon_refines_def mon_link_new_def)
qed

lemma mon_take_free_refines:
  assumes wf: "mon_wf s" "mon_enabled s \<noteq> 0" and new: "\<forall>n \<in> set (mon_mru_list s). \<not> SOCK_EQ (mon_host s n) (p_srcadr rb)"
    and n: "mon_free s = [] \<Longrightarrow> mon_fresh s + unat (mru_incalloc cf) < 2 ^ 32 - 1"
  shows "mon_refines (mon_link_new ifs rb flags (MON_HASH s (p_srcadr rb)) (mon_take_free cf s))
    (map_option (Pair (quiet flags)) (amon_add cf (entry_new ifs rb flags) (mon_abs s)))"
proof -
  note ok = mon_wf_ok [OF wf(1)]
  have st: "mon_mem_increments s \<noteq> 0" using wf by (simp add: mon_wf_def)
  have len: "length (mon_mru_list s) < mon_fresh s \<longleftrightarrow> mon_free s \<noteq> []" using mon_free_iff [OF ok] by simp
  have eq: "length (mon_mru_list s) = mon_fresh s" if "mon_free s = []" using mon_ok_length(1) [OF ok] that by simp
  note tf = mon_take_free_ok [OF ok st n]
  show ?thesis
  proof (cases "mon_free s = [] \<and> mru_incalloc cf = 0")
    case True
    thus ?thesis using tf eq by (simp add: mon_link_new_def mon_refines_def amon_add_def)
  next
    case False
    then obtain m s' where s': "mon_take_free cf s = Some (Some m, s')" "mon_ok [m] s'" "mon_hash_bits s' = mon_hash_bits s"
        "set (mon_mru_list s') \<subseteq> set (mon_mru_list s)" "\<forall>n \<in> set (mon_mru_list s'). mon_mem s' n = mon_mem s n"
      and abs: "mon_abs s' = (mon_abs s)\<lparr>a_alloc := (if mon_free s = [] then mon_fresh s + unat (mru_incalloc cf) else mon_fresh s)\<rparr>"
      using tf by auto
    have "a_enabled (mon_abs s') = mon_enabled s" "a_started (mon_abs s')" unfolding abs using st by simp_all
    hence "mon_refines (mon_link_new ifs rb flags (MON_HASH s (p_srcadr rb)) (mon_take_free cf s))
      (Some (quiet flags, (mon_abs s')\<lparr>a_list := entry_new ifs rb flags # a_list (mon_abs s'), a_peak := max (a_peak (mon_abs s')) (length (a_list (mon_abs s')) + 1)\<rparr>))"
      using mon_link_new_refines [OF wf new s'(2-5)] s'(1) by simp
    moreover have "0 < unat (mru_incalloc cf)" if "mon_free s = []" using False that by (simp add: unat_gt_0)
    hence "amon_add cf (entry_new ifs rb flags) (mon_abs s) = Some ((mon_abs s')\<lparr>a_list := entry_new ifs rb flags # a_list (mon_abs s'),
      a_peak := max (a_peak (mon_abs s')) (length (a_list (mon_abs s')) + 1)\<rparr>)"
      unfolding abs amon_add_def Let_def using len eq by auto
    ultimately show ?thesis by simp
  qed
qed

lemma mon_reclaim_refines:
  assumes wf: "mon_wf s" "mon_enabled s \<noteq> 0" and new: "\<forall>n \<in> set (mon_mru_list s). \<not> SOCK_EQ (mon_host s n) (p_srcadr rb)"
  shows "mon_refines (mon_link_new ifs rb flags (MON_HASH s (p_srcadr rb))
      (mon_reclaim (if mon_mru_list s = [] then None else Some (last (mon_mru_list s))) s))
    (map_option (Pair (quiet flags)) (amon_replace (entry_new ifs rb flags) (mon_abs s)))"
proof (cases "mon_mru_list s = []")
  case True
  thus ?thesis by (simp add: mon_reclaim_def mon_reclaim_entry_def mon_link_new_def mon_refines_def amon_replace_def)
next
  case False
  note ok = mon_wf_ok [OF wf(1)]
  have st: "mon_mem_increments s \<noteq> 0" using wf by (simp add: mon_wf_def)
  obtain s' where s': "mon_reclaim (Some (last (mon_mru_list s))) s = Some (Some (last (mon_mru_list s)), s')" "mon_ok [last (mon_mru_list s)] s'"
      "mon_hash_bits s' = mon_hash_bits s" "set (mon_mru_list s') \<subseteq> set (mon_mru_list s)" "\<forall>n \<in> set (mon_mru_list s'). mon_mem s' n = mon_mem s n"
    and abs: "mon_abs s' = (mon_abs s)\<lparr>a_list := butlast (a_list (mon_abs s))\<rparr>"
    using mon_reclaim_ok [OF ok False refl] by auto
  have "a_enabled (mon_abs s') = mon_enabled s" "a_started (mon_abs s')" unfolding abs using st by simp_all
  hence "mon_refines (mon_link_new ifs rb flags (MON_HASH s (p_srcadr rb)) (mon_reclaim (Some (last (mon_mru_list s))) s))
    (Some (quiet flags, (mon_abs s')\<lparr>a_list := entry_new ifs rb flags # a_list (mon_abs s'), a_peak := max (a_peak (mon_abs s')) (length (a_list (mon_abs s')) + 1)\<rparr>))"
    using mon_link_new_refines [OF wf new s'(2-5)] s'(1) by simp
  moreover have "unat (mru_entries s) \<le> unat (mru_peakentries s)" using ok by (simp add: mon_ok_def mon_counts_def word_le_nat_alt)
  hence "max (a_peak (mon_abs s')) (length (a_list (mon_abs s')) + 1) = a_peak (mon_abs s)"
    unfolding abs using mon_ok_length(2) [OF ok] False by (simp add: max_def)
  moreover have "(mon_abs s')\<lparr>a_list := e # a_list (mon_abs s'), a_peak := a_peak (mon_abs s)\<rparr> = (mon_abs s)\<lparr>a_list := e # butlast (a_list (mon_abs s))\<rparr>" for e
    unfolding abs by simp
  ultimately show ?thesis using False by (simp only: amon_replace_def mon_abs_simps map_is_Nil_conv if_False option.map)
qed

lemma mon_get_entry_cases:
  fixes s :: mon_state
  defines "oldest \<equiv> (if mon_mru_list s = [] then None else Some (last (mon_mru_list s)))"
    and "age \<equiv> \<lambda>recv_time. (if mon_mru_list s = [] then 0 else mon_interval recv_time (m_last (mon_mem s (last (mon_mru_list s)))))"
  shows "mon_get_entry cf refuse recv_time s =
    (if mru_entries s < mru_mindepth cf then mon_take_free cf s
     else if mon_mru_list s \<noteq> [] \<and> mru_maxage cf < age recv_time then mon_reclaim oldest s
     else if mon_free s \<noteq> [] \<or> mru_alloc s < mru_maxdepth cf then mon_take_free cf s
     else if refuse (age recv_time) then Some (None, s) else mon_reclaim oldest s)"
  by (simp add: mon_get_entry_def Let_def oldest_def age_def)

lemma ntp_monitor_refines_step:
  assumes wf: "mon_wf s" and cf: "cfg_ok cf"
  shows "mon_refines (ntp_monitor cf ifs refuse rb flags s) (amon_packet cf ifs refuse rb flags (mon_abs s))"
proof (cases "mon_enabled s = 0")
  case True
  thus ?thesis using wf by (simp add: ntp_monitor_def MON_OFF_def amon_packet_def mon_refines_def quiet_def)
next
  case en: False
  note ok = mon_wf_ok [OF wf]
  let ?f = "find (\<lambda>m. SOCK_EQ (mon_host s m) (p_srcadr rb)) (mon_mru_list s)"
  have f: "find (\<lambda>e. SOCK_EQ (m_rmtadr e) (p_srcadr rb)) (a_list (mon_abs s)) = map_option (mon_mem s) ?f" by (simp add: find_map o_def)
  show ?thesis
  proof (cases ?f)
    case (Some m)
    hence m: "m \<in> set (mon_mru_list s)" "SOCK_EQ (mon_host s m) (p_srcadr rb)" by (auto simp: find_Some_iff)
    obtain r t where rt: "mon_known cf rb flags m s = (r, t)" by fastforce
    note k = mon_known_ok [OF ok m rt]
    have "a_enabled (mon_abs t) = mon_enabled s" "a_started (mon_abs t)" unfolding k(4) using wf en by (simp_all add: mon_wf_def)
    hence "mon_wf t" using mon_wf_step [OF wf en k(1,2)] by simp
    thus ?thesis using Some f rt k en by (simp add: ntp_monitor_cases [OF ok en] amon_packet_def mon_refines_def split_beta)
  next
    case None
    hence new: "\<forall>n \<in> set (mon_mru_list s). \<not> SOCK_EQ (mon_host s n) (p_srcadr rb)" by (auto simp: find_None_iff)
    have fl: "mon_free s \<noteq> [] \<longleftrightarrow> length (mon_mru_list s) < mon_fresh s" by (rule mon_free_iff [OF ok])
    have c: "mru_entries s < mru_mindepth cf \<longleftrightarrow> length (mon_mru_list s) < unat (mru_mindepth cf)"
      "mru_alloc s < mru_maxdepth cf \<longleftrightarrow> mon_fresh s < unat (mru_maxdepth cf)" using mon_ok_length [OF ok] by (simp_all add: word_less_nat_alt)
    have tf: "mon_refines (mon_link_new ifs rb flags (MON_HASH s (p_srcadr rb)) (mon_take_free cf s))
        (map_option (Pair (quiet flags)) (amon_add cf (entry_new ifs rb flags) (mon_abs s)))"
      if "length (mon_mru_list s) < unat (mru_mindepth cf) \<or> mon_free s \<noteq> [] \<or> mon_fresh s < unat (mru_maxdepth cf)"
    proof (rule mon_take_free_refines [OF wf en new])
      assume "mon_free s = []"
      thus "mon_fresh s + unat (mru_incalloc cf) < 2 ^ 32 - 1" using that cf mon_ok_length(1) [OF ok] by (auto simp: cfg_ok_def)
    qed
    note rc = mon_reclaim_refines [OF wf en new, of ifs flags]
    have a: "amon_packet cf ifs refuse rb flags (mon_abs s) = map_option (Pair (quiet flags))
      (if mru_entries s < mru_mindepth cf then amon_add cf (entry_new ifs rb flags) (mon_abs s)
       else let age = (if mon_mru_list s = [] then 0 else mon_interval (p_time rb) (m_last (mon_mem s (last (mon_mru_list s)))))
       in if mon_mru_list s \<noteq> [] \<and> mru_maxage cf < age then amon_replace (entry_new ifs rb flags) (mon_abs s)
       else if mon_free s \<noteq> [] \<or> mru_alloc s < mru_maxdepth cf then amon_add cf (entry_new ifs rb flags) (mon_abs s)
       else if refuse age then Some (mon_abs s) else amon_replace (entry_new ifs rb flags) (mon_abs s))"
      using f None en by (simp add: amon_packet_def Let_def last_map fl c)
    have q: "mon_refines (mon_link_new ifs rb flags h (Some (None, s))) (Some (quiet flags, mon_abs s))" for h
      using wf by (simp add: mon_refines_def mon_link_new_def)
    show ?thesis unfolding ntp_monitor_cases [OF ok en] None option.case mon_get_entry_cases a Let_def using tf rc q fl c by auto
  qed
qed

lemma mon_start_refines_step:
  assumes wf: "mon_wf s" and cf: "cfg_ok cf"
  shows "mon_wf (mon_start cf mode s)" "mon_abs (mon_start cf mode s) = amon_start cf mode (mon_abs s)"
proof -
  note ok = mon_wf_ok [OF wf]
  have "mon_wf (mon_start cf mode s) \<and> mon_abs (mon_start cf mode s) = amon_start cf mode (mon_abs s)"
  proof (cases "mode = 0 \<or> mon_enabled s \<noteq> 0")
    case True
    have "mon_enabled s OR mode \<noteq> 0" if "mon_enabled s \<noteq> 0" using that by (simp add: or_eq_0_iff)
    thus ?thesis using True wf
      by (auto simp: mon_start_def amon_start_def MON_OFF_def mon_abs_def mon_wf_def mon_ok_def mon_owned_def mon_chains_def mon_hosts_def mon_counts_def MON_HASH_def)
  next
    case False
    let ?t = "if mon_mem_increments s = 0 then mon_getmoremem cf s else s"
    have l: "mon_mru_list s = []" using wf False by (simp add: mon_wf_def)
    have fr: "mon_fresh s = 0" if "mon_mem_increments s = 0" using ok that by (simp add: mon_ok_def mon_counts_def)
    have "mon_fresh s + unat (alloc_size cf s) < 2 ^ 32 - 1" if "mon_mem_increments s = 0"
      using fr [OF that] cf that by (simp add: alloc_size_def cfg_ok_def)
    hence "mon_ok [] ?t" using mon_ok_getmoremem [OF ok, of cf] ok by simp
    moreover have "mon_mru_list ?t = []" using l by (simp add: mon_getmoremem_eq)
    ultimately have "mon_ok [] (?t\<lparr>mon_hash_bits := b, mon_hash := \<lambda>_. [], mon_enabled := mode\<rparr>)" for b
      by (auto simp: mon_ok_def mon_owned_def mon_chains_def mon_hosts_def mon_counts_def)
    moreover have "mon_mem_increments ?t \<noteq> 0" by (simp add: mon_getmoremem_eq)
    moreover have "4 \<le> min 16 (max 4 b)" "min 16 (max 4 b) \<le> 16" for b :: u_char by (auto simp: min_def max_def not_le)
    ultimately have "mon_wf (mon_start cf mode s)" using False by (auto simp: mon_start_def MON_OFF_def mon_wf_def Let_def)
    moreover have "mon_abs (mon_start cf mode s) = amon_start cf mode (mon_abs s)"
      using False fr l by (auto simp: mon_start_def amon_start_def MON_OFF_def mon_abs_def Let_def mon_getmoremem_eq alloc_size_def)
    ultimately show ?thesis ..
  qed
  thus "mon_wf (mon_start cf mode s)" "mon_abs (mon_start cf mode s) = amon_start cf mode (mon_abs s)" by simp_all
qed

lemma mon_stop_refines_step:
  assumes wf: "mon_wf s"
  shows "mon_wf (mon_stop mode s)" "mon_abs (mon_stop mode s) = amon_stop mode (mon_abs s)"
proof -
  note ok = mon_wf_ok [OF wf]
  let ?on = "mon_enabled s AND NOT mode"
  have "mon_wf (mon_stop mode s) \<and> mon_abs (mon_stop mode s) = amon_stop mode (mon_abs s)"
  proof (cases "mon_enabled s AND mode = 0")
    case True
    have "?on = mon_enabled s"
    proof (rule bit_word_eqI)
      fix n assume "n < LENGTH(32)"
      have "\<not> (bit (mon_enabled s) n \<and> bit mode n)" using arg_cong [OF True, of "\<lambda>w. bit w n"] by (simp add: bit_simps)
      thus "bit ?on n = bit (mon_enabled s) n" using \<open>n < LENGTH(32)\<close> by (auto simp: bit_simps)
    qed
    moreover have "mon_stop mode s = s" using True by (simp add: mon_stop_def)
    ultimately show ?thesis using wf by (simp add: amon_stop_def mon_wf_def mon_abs_def Let_def)
  next
    case False
    hence ne: "mon_enabled s \<noteq> 0" "mode \<noteq> 0" by auto
    show ?thesis
    proof (cases "?on = 0")
      case on: False
      thus ?thesis using False ne wf
        by (auto simp: mon_stop_def amon_stop_def MON_OFF_def mon_abs_def mon_wf_def mon_ok_def mon_owned_def mon_chains_def mon_hosts_def mon_counts_def MON_HASH_def)
    next
      case on: True
      let ?t = "s\<lparr>mon_enabled := 0, mru_entries := 0, mon_mru_list := [], mon_hash := (\<lambda>_. [])\<rparr>"
      have "mon_ok (mon_mru_list s) ?t" using ok
        by (auto simp: mon_ok_def mon_owned_def mon_chains_def mon_hosts_def mon_counts_def)
      hence "mon_ok [] (fold mon_free_entry (mon_mru_list s) ?t)" using mon_ok_free_entries [of "mon_mru_list s" "[]"] by simp
      moreover have "mon_stop mode s = fold mon_free_entry (mon_mru_list s) ?t"
        using False ne on by (simp add: mon_stop_def MON_OFF_def fold_free_entry Let_def cong: if_cong)
      ultimately show ?thesis using on
        by (simp add: mon_wf_def amon_stop_def fold_free_entry mon_abs_def)
    qed
  qed
  thus "mon_wf (mon_stop mode s)" "mon_abs (mon_stop mode s) = amon_stop mode (mon_abs s)" by simp_all
qed

lemma mon_clear_entries_ok:
  assumes "mon_ok [] s" "distinct ms" "set ms \<subseteq> set (mon_mru_list s)"
  shows "\<exists>s'. mon_clear_entries lcl ms s = Some s' \<and> mon_ok [] s' \<and> mon_enabled s' = mon_enabled s \<and> mon_hash_bits s' = mon_hash_bits s \<and>
    mon_mem_increments s' = mon_mem_increments s \<and> mon_fresh s' = mon_fresh s \<and> mru_peakentries s' = mru_peakentries s \<and>
    mon_mru_list s' = filter (\<lambda>m. m \<in> set ms \<longrightarrow> m_lcladr (mon_mem s m) \<noteq> Some lcl) (mon_mru_list s) \<and>
    (\<forall>m \<in> set (mon_mru_list s'). mon_mem s' m = mon_mem s m)"
  using assms
proof (induction ms arbitrary: s)
  case Nil
  thus ?case by simp
next
  case (Cons m ms)
  show ?case
  proof (cases "m_lcladr (mon_mem s m) = Some lcl")
    case False
    hence "mon_clear_entries lcl (m # ms) s = mon_clear_entries lcl ms s" by (simp add: mon_clear_entry_def)
    moreover have "filter (\<lambda>n. n \<in> set (m # ms) \<longrightarrow> m_lcladr (mon_mem s n) \<noteq> Some lcl) (mon_mru_list s) =
      filter (\<lambda>n. n \<in> set ms \<longrightarrow> m_lcladr (mon_mem s n) \<noteq> Some lcl) (mon_mru_list s)" using False by (auto intro: filter_cong)
    ultimately show ?thesis using Cons.IH [of s] Cons.prems by simp
  next
    case True
    have m: "m \<in> set (mon_mru_list s)" "m \<notin> set ms" using Cons.prems by simp_all
    have d: "distinct (mon_mru_list s)" using Cons.prems(1) by (simp add: mon_ok_def mon_owned_def)
    let ?t = "mon_free_entry m (mon_drop m s)"
    have "mon_clear_entries lcl (m # ms) s = mon_clear_entries lcl ms ?t"
      using True remove_from_hash_drop [OF Cons.prems(1) m(1)] by (simp add: mon_clear_entry_def)
    moreover have "mon_ok [] ?t" using mon_ok_free_entry [OF mon_ok_drop [OF Cons.prems(1) m(1)]] .
    moreover have l: "mon_mru_list ?t = filter (\<lambda>n. n \<noteq> m) (mon_mru_list s)"
      by (simp add: mon_drop_def distinct_remove1_removeAll [OF d] removeAll_filter_not_eq eq_commute)
    moreover have "set ms \<subseteq> set (mon_mru_list ?t)" unfolding l using Cons.prems(3) m by auto
    ultimately obtain s' where s': "mon_clear_entries lcl (m # ms) s = Some s'" "mon_ok [] s'" "mon_enabled s' = mon_enabled ?t"
        "mon_hash_bits s' = mon_hash_bits ?t" "mon_mem_increments s' = mon_mem_increments ?t" "mon_fresh s' = mon_fresh ?t"
        "mru_peakentries s' = mru_peakentries ?t" "\<forall>m \<in> set (mon_mru_list s'). mon_mem s' m = mon_mem ?t m"
        "mon_mru_list s' = filter (\<lambda>m. m \<in> set ms \<longrightarrow> m_lcladr (mon_mem ?t m) \<noteq> Some lcl) (mon_mru_list ?t)"
      using Cons.IH [of ?t] Cons.prems(2) by auto
    have "mon_mru_list s' = filter (\<lambda>n. n \<in> set (m # ms) \<longrightarrow> m_lcladr (mon_mem s n) \<noteq> Some lcl) (mon_mru_list s)"
      unfolding s'(9) l using True m by (auto simp: mon_drop_def intro!: filter_cong)
    moreover have "\<forall>n \<in> set (mon_mru_list s'). mon_mem s' n = mon_mem s n" using s'(8) unfolding s'(9) l by (auto simp: mon_drop_def)
    ultimately show ?thesis using s'(1-7) by (auto simp: mon_drop_def)
  qed
qed

lemma mon_clearinterface_refines_step:
  assumes wf: "mon_wf s"
  shows "\<exists>s'. mon_clearinterface lcl s = Some s' \<and> mon_wf s' \<and> mon_abs s' = amon_clearinterface lcl (mon_abs s)"
proof -
  note ok = mon_wf_ok [OF wf]
  obtain s' where s': "mon_clearinterface lcl s = Some s'" "mon_ok [] s'" "mon_enabled s' = mon_enabled s" "mon_hash_bits s' = mon_hash_bits s"
      "mon_mem_increments s' = mon_mem_increments s" "mon_fresh s' = mon_fresh s" "mru_peakentries s' = mru_peakentries s"
      "mon_mru_list s' = filter (\<lambda>m. m_lcladr (mon_mem s m) \<noteq> Some lcl) (mon_mru_list s)" "\<forall>m \<in> set (mon_mru_list s'). mon_mem s' m = mon_mem s m"
    using mon_clear_entries_ok [OF ok, of "mon_mru_list s" lcl] ok
    by (auto simp: mon_clearinterface_def mon_ok_def mon_owned_def cong: filter_cong)
  have "map (mon_mem s') (mon_mru_list s') = map (mon_mem s) (mon_mru_list s')" using s'(9) by simp
  hence "mon_abs s' = amon_clearinterface lcl (mon_abs s)" using s' by (simp add: amon_clearinterface_def mon_abs_def filter_map o_def)
  moreover have "mon_wf s'" using wf s' by (auto simp: mon_wf_def)
  ultimately show ?thesis using s'(1) by blast
qed

section \<open>Sequences of operations\<close>

datatype mon_op =
    Packet mon_config "addr \<Rightarrow> endpt" "int \<Rightarrow> bool" rpacket u_short
  | Start mon_config u_int32
  | Stop u_int32
  | ClearInterface addr

fun mon_exec :: "mon_op \<Rightarrow> mon_state \<Rightarrow> (u_short \<times> mon_state) option" where
  "mon_exec (Packet cf ifs refuse rb flags) s = ntp_monitor cf ifs refuse rb flags s"
| "mon_exec (Start cf mode) s = Some (0, mon_start cf mode s)"
| "mon_exec (Stop mode) s = Some (0, mon_stop mode s)"
| "mon_exec (ClearInterface lcladr) s = map_option (Pair 0) (mon_clearinterface lcladr s)"

fun amon_exec :: "mon_op \<Rightarrow> amon \<Rightarrow> (u_short \<times> amon) option" where
  "amon_exec (Packet cf ifs refuse rb flags) A = amon_packet cf ifs refuse rb flags A"
| "amon_exec (Start cf mode) A = Some (0, amon_start cf mode A)"
| "amon_exec (Stop mode) A = Some (0, amon_stop mode A)"
| "amon_exec (ClearInterface lcladr) A = Some (0, amon_clearinterface lcladr A)"

fun op_config :: "mon_op \<Rightarrow> mon_config option" where
  "op_config (Packet cf ifs refuse rb flags) = Some cf"
| "op_config (Start cf mode) = Some cf"
| "op_config (Stop mode) = None"
| "op_config (ClearInterface lcladr) = None"

definition op_ok :: "mon_op \<Rightarrow> bool" where
  "op_ok op \<longleftrightarrow> (case op_config op of None \<Rightarrow> True | Some cf \<Rightarrow> cfg_ok cf)"

text \<open>The state at the start of the program, all zero.\<close>

definition mon_static :: mon_state where
  "mon_static = \<lparr>mon_enabled = 0, mon_hash_bits = 0, mon_hash = (\<lambda>_. []), mon_mru_list = [], mon_free = [], mon_mem = (\<lambda>_. zero_mon), mon_fresh = 0,
     mru_alloc = 0, mru_entries = 0, mru_peakentries = 0, mon_mem_increments = 0\<rparr>"

definition amon_init :: amon where
  "amon_init = \<lparr>a_enabled = 0, a_list = [], a_alloc = 0, a_started = False, a_peak = 0\<rparr>"

lemma mon_init_wf [simp]: "mon_wf (init_mon mon_static)" "mon_abs (init_mon mon_static) = amon_init"
  by (simp_all add: mon_wf_def mon_ok_def mon_owned_def mon_chains_def mon_hosts_def mon_counts_def init_mon_def mon_static_def MON_OFF_def
      mon_abs_def amon_init_def)

lemma mon_exec_refines:
  assumes "mon_wf s" "op_ok op"
  shows "mon_refines (mon_exec op s) (amon_exec op (mon_abs s))"
proof (cases op)
  case (Packet cf ifs refuse rb flags)
  thus ?thesis using assms ntp_monitor_refines_step by (simp add: op_ok_def)
next
  case (Start cf mode)
  thus ?thesis using assms mon_start_refines_step [of s cf mode] by (simp add: op_ok_def mon_refines_def)
next
  case (Stop mode)
  thus ?thesis using mon_stop_refines_step [OF assms(1), of mode] by (simp add: mon_refines_def)
next
  case (ClearInterface lcladr)
  thus ?thesis using mon_clearinterface_refines_step [OF assms(1), of lcladr] by (auto simp: mon_refines_def)
qed

interpretation monitor_machine: refined_machine mon_wf mon_abs op_ok mon_exec amon_exec
  using mon_exec_refines by unfold_locales (auto simp: mon_refines_def)

text \<open>
  C13: The monitor, from the start of the program and for any sequence of packets, \<^verbatim>\<open>mon_start\<close>, \<^verbatim>\<open>mon_stop\<close> and
  \<^verbatim>\<open>mon_clearinterface\<close>, with configurations that may change, answers as the specification without hash table and free list does: one
  entry per host, most recent first, the statistics and rate limits of \<open>entry_seen\<close>, a new host evicting the oldest entry when it must; and it
  fails only where the specification does.
\<close>

theorem monitor_refines_mru:
  assumes "list_all op_ok ops"
  shows "map_option (map_prod id mon_abs) (run_ops mon_exec ops (init_mon mon_static)) = run_ops amon_exec ops amon_init"
  using monitor_machine.run_sim [OF mon_init_wf(1) assms] by simp

text \<open>A configuration with few entries, two hosts, and an interface, for examples.\<close>

definition small_cf :: mon_config where
  "small_cf = \<lparr>mru_initalloc = 1, mru_incalloc = 0, mru_mindepth = 0, mru_maxdepth = 2, mru_maxage = 64, ntp_minpkt = 2, ntp_minpoll = 3, mon_age = 3000\<rparr>"

definition small_pkt :: "u_int32 \<Rightarrow> u_short \<Rightarrow> u_int32 \<Rightarrow> rpacket" where
  "small_pkt host port t = \<lparr>p_time = \<lparr>l_ui = t, l_uf = 0\<rparr>, p_srcadr = SA4 host port, p_dstadr = 1, p_fd = 3, p_li_vn_mode = 0x23\<rparr>"

definition small_ifs :: "addr \<Rightarrow> endpt" where
  "small_ifs a = \<lparr>if_flags = 0, if_fd = 3, if_bfd = 4\<rparr>"

definition small_op :: "u_int32 \<Rightarrow> u_short \<Rightarrow> u_int32 \<Rightarrow> mon_op" where
  "small_op host port t = Packet small_cf small_ifs (\<lambda>_. False) (small_pkt host port t) 0x0420"

lemma small_ok [simp]: "op_ok (small_op host port t)" "op_ok (Start small_cf mode)" "op_ok (Stop mode)" "cfg_ok small_cf"
  by (simp_all add: op_ok_def small_op_def cfg_ok_def small_cf_def)

lemma small_op_config [simp]: "op_config (small_op host port t) = Some small_cf"
  by (simp add: small_op_def)

text \<open>The examples run on the specification.\<close>

lemma small_run:
  assumes "list_all op_ok ops" "run_ops amon_exec ops amon_init = Some (rs, A)"
  obtains s where "run_ops mon_exec ops (init_mon mon_static) = Some (rs, s)" "mon_abs s = A" "mon_wf s"
proof -
  have "map_option (map_prod id mon_abs) (run_ops mon_exec ops (init_mon mon_static)) = Some (rs, A)"
    using monitor_machine.run_sim [OF mon_init_wf(1) assms(1)] assms(2) by simp
  then obtain s where s: "run_ops mon_exec ops (init_mon mon_static) = Some (rs, s)" "mon_abs s = A" by auto
  with monitor_machine.run_keep [OF mon_init_wf(1) assms(1)] show ?thesis using that by blast
qed

theorem monitor_refines_mru_witness:
  "\<exists>s. run_ops mon_exec [Start small_cf 1, small_op 7 123 100, small_op 7 124 101, small_op 7 125 101, small_op 7 125 101] (init_mon mon_static) =
     Some ([0, 0, 0, 0x0420, 0x20], s) \<and> map m_count (a_list (mon_abs s)) = [4]"
proof -
  let ?ops = "[Start small_cf 1, small_op 7 123 100, small_op 7 124 101, small_op 7 125 101, small_op 7 125 101]"
  have a: "map_option (\<lambda>(rs, A). (rs, map m_count (a_list A))) (run_ops amon_exec ?ops amon_init) = Some ([0, 0, 0, 0x0420, 0x20], [4])"
    by code_simp
  have "list_all op_ok ?ops" by simp
  from monitor_refines_mru [OF this] a show ?thesis by (auto simp del: run_ops.simps mon_abs_simps simp: map_option_case split: option.splits)
qed

definition mon_depth :: "mon_config \<Rightarrow> nat" where
  "mon_depth cf = max (unat (mru_initalloc cf)) (max (unat (mru_mindepth cf)) (unat (mru_maxdepth cf)) - 1 + unat (mru_incalloc cf))"

definition amon_bounded :: "mon_config \<Rightarrow> amon \<Rightarrow> bool" where
  "amon_bounded cf A \<longleftrightarrow> length (a_list A) \<le> a_alloc A \<and> a_alloc A \<le> mon_depth cf \<and> (\<not> a_started A \<longrightarrow> a_alloc A = 0 \<and> a_enabled A = 0)"

lemma amon_add_bounded:
  assumes "amon_bounded cf A" "a_enabled A \<noteq> 0" "amon_add cf e A = Some B"
    "length (a_list A) < unat (mru_mindepth cf) \<or> length (a_list A) < a_alloc A \<or> a_alloc A < unat (mru_maxdepth cf)"
  shows "amon_bounded cf B"
  using assms by (auto simp: amon_add_def amon_bounded_def mon_depth_def Let_def max_def split: if_splits)

lemma amon_replace_bounded: "amon_bounded cf A \<Longrightarrow> amon_replace e A = Some B \<Longrightarrow> amon_bounded cf B"
  by (auto simp: amon_replace_def amon_bounded_def split: if_splits)

lemma amon_seen_bounded:
  assumes "amon_bounded cf A" "find P (a_list A) = Some e"
  shows "amon_bounded cf (A\<lparr>a_list := e' # filter (\<lambda>e. \<not> P e) (a_list A)\<rparr>)"
proof -
  have "length (filter (\<lambda>e. \<not> P e) (a_list A)) < length (a_list A)" using assms(2) by (auto simp: find_Some_iff intro!: length_filter_less)
  thus ?thesis using assms(1) by (auto simp: amon_bounded_def)
qed

lemma amon_exec_bounded:
  assumes "amon_bounded cf A" "amon_exec op A = Some (r, B)" "op_config op \<in> {None, Some cf}"
  shows "amon_bounded cf B"
proof (cases op)
  case (Packet cf' ifs refuse rb flags)
  hence "cf' = cf" using assms(3) by simp
  thus ?thesis using assms(1,2) Packet amon_add_bounded [OF assms(1)] amon_replace_bounded [OF assms(1)] amon_seen_bounded [OF assms(1)]
    by (auto simp: amon_packet_def Let_def split: if_splits option.splits prod.splits)
next
  case (Start cf' mode)
  thus ?thesis using assms by (auto simp: amon_start_def amon_bounded_def mon_depth_def split: if_splits)
next
  case (Stop mode)
  thus ?thesis using assms by (auto simp: amon_stop_def amon_bounded_def Let_def)
next
  case (ClearInterface lcladr)
  thus ?thesis using assms by (auto simp: amon_clearinterface_def amon_bounded_def intro: le_trans [OF length_filter_le])
qed

text \<open>
  C27: After any sequence of operations with one configuration the monitor holds one entry per host, each in the chain of its
  hash value and nowhere else; its counters are the sizes of its lists; its memory is at most the initial allocation, or one increment past the
  larger of \<^verbatim>\<open>mru_mindepth\<close> and \<^verbatim>\<open>mru_maxdepth\<close>; and every index into the hash table is inside it.
\<close>

theorem monitor_memory_bound:
  assumes ops: "list_all op_ok ops" "list_all (\<lambda>op. op_config op \<in> {None, Some cf}) ops"
    and run: "run_ops mon_exec ops (init_mon mon_static) = Some (rs, s)"
  shows "length (mon_mru_list s) + length (mon_free s) = unat (mru_alloc s) \<and> unat (mru_entries s) = length (mon_mru_list s) \<and>
    distinct (mon_mru_list s @ mon_free s) \<and>
    unat (mru_alloc s) \<le> max (unat (mru_initalloc cf)) (max (unat (mru_mindepth cf)) (unat (mru_maxdepth cf)) - 1 + unat (mru_incalloc cf)) \<and>
    (\<forall>h. set (mon_hash s h) = {m \<in> set (mon_mru_list s). MON_HASH s (m_rmtadr (mon_mem s m)) = h}) \<and>
    (\<forall>m \<in> set (mon_mru_list s). \<forall>n \<in> set (mon_mru_list s). SOCK_EQ (m_rmtadr (mon_mem s m)) (m_rmtadr (mon_mem s n)) \<longrightarrow> m = n) \<and>
    (mon_enabled s \<noteq> 0 \<longrightarrow> MON_HASH s a < 2 ^ unat (mon_hash_bits s))"
proof -
  have wf: "mon_wf s" using monitor_machine.run_keep [OF mon_init_wf(1) ops(1) run] .
  note ok = mon_wf_ok [OF wf]
  have "run_ops amon_exec ops amon_init = Some (rs, mon_abs s)" using monitor_machine.run_sim [OF mon_init_wf(1) ops(1)] run by simp
  moreover have "amon_bounded cf amon_init" by (simp add: amon_bounded_def amon_init_def)
  ultimately have "amon_bounded cf (mon_abs s)" by (rule run_ops_inv) (use ops(2) amon_exec_bounded in \<open>auto simp: list_all_iff\<close>)
  hence "unat (mru_alloc s) \<le> mon_depth cf" using mon_ok_length(3) [OF ok] by (simp add: amon_bounded_def)
  moreover have "mon_enabled s \<noteq> 0 \<longrightarrow> MON_HASH s a < 2 ^ unat (mon_hash_bits s)" using wf MON_HASH_bound by (simp add: mon_wf_def)
  ultimately show ?thesis using ok mon_ok_length [OF ok]
    unfolding mon_depth_def mon_ok_def mon_owned_def mon_chains_def mon_hosts_def by simp
qed

theorem monitor_memory_bound_witness:
  "\<exists>rs s. run_ops mon_exec [Start small_cf 1, small_op 7 123 100] (init_mon mon_static) = Some (rs, s) \<and> mru_alloc s = 1 \<and> mru_entries s = 1"
proof -
  let ?ops = "[Start small_cf 1, small_op 7 123 100]"
  have a: "map_option (\<lambda>(rs, A). (a_alloc A, length (a_list A))) (run_ops amon_exec ?ops amon_init) = Some (1, 1)" by code_simp
  have good: "list_all op_ok ?ops" "list_all (\<lambda>op. op_config op \<in> {None, Some small_cf}) ?ops" by simp_all
  from a obtain rs A where "run_ops amon_exec ?ops amon_init = Some (rs, A)" "a_alloc A = 1" "length (a_list A) = 1"
    by (auto simp del: run_ops.simps split: option.splits)
  moreover from this obtain s where s: "run_ops mon_exec ?ops (init_mon mon_static) = Some (rs, s)" "mon_abs s = A"
    using small_run [OF good(1)] by metis
  ultimately have "length (mon_mru_list s) = 1" "mon_fresh s = 1" by auto
  moreover have "unat (mru_entries s) = length (mon_mru_list s)" "length (mon_mru_list s) + length (mon_free s) = unat (mru_alloc s)"
      "unat (mru_alloc s) \<le> max (unat (mru_initalloc small_cf)) (max (unat (mru_mindepth small_cf)) (unat (mru_maxdepth small_cf)) - 1 + unat (mru_incalloc small_cf))"
    using monitor_memory_bound [OF good s(1)] by blast+
  ultimately have "unat (mru_alloc s) = 1" "unat (mru_entries s) = 1" by (simp_all add: small_cf_def)
  hence "mru_alloc s = 1" "mru_entries s = 1" by (simp_all add: word_unat_eq_iff)
  with s(1) show ?thesis by blast
qed

lemma amon_add_None: "length (a_list A) \<le> a_alloc A \<Longrightarrow> amon_add cf e A = None \<longleftrightarrow> length (a_list A) = a_alloc A \<and> mru_incalloc cf = 0"
  by (auto simp: amon_add_def Let_def unat_eq_0)

lemma amon_replace_None: "amon_replace e A = None \<longleftrightarrow> a_list A = []"
  by (simp add: amon_replace_def)

lemma amon_packet_None:
  fixes rb A
  defines "age \<equiv> (if a_list A = [] then 0 else mon_interval (p_time rb) (m_last (last (a_list A))))"
  assumes l: "length (a_list A) \<le> a_alloc A" and en: "a_enabled A \<noteq> 0"
  shows "amon_packet cf ifs refuse rb flags A = None \<longleftrightarrow> find (\<lambda>e. SOCK_EQ (m_rmtadr e) (p_srcadr rb)) (a_list A) = None \<and>
    (length (a_list A) = a_alloc A \<and> mru_incalloc cf = 0 \<and>
       (length (a_list A) < unat (mru_mindepth cf) \<or> \<not> (a_list A \<noteq> [] \<and> mru_maxage cf < age) \<and> a_alloc A < unat (mru_maxdepth cf)) \<or>
     a_alloc A = 0 \<and> unat (mru_mindepth cf) = 0 \<and> unat (mru_maxdepth cf) = 0 \<and> \<not> refuse 0)"
proof (cases "find (\<lambda>e. SOCK_EQ (m_rmtadr e) (p_srcadr rb)) (a_list A)")
  case None
  let ?e = "entry_new ifs rb flags" and ?n = "length (a_list A)"
  have "amon_packet cf ifs refuse rb flags A = None \<longleftrightarrow>
    (if ?n < unat (mru_mindepth cf) then amon_add cf ?e A
     else if a_list A \<noteq> [] \<and> mru_maxage cf < age then amon_replace ?e A
     else if ?n < a_alloc A \<or> a_alloc A < unat (mru_maxdepth cf) then amon_add cf ?e A
     else if refuse age then Some A else amon_replace ?e A) = None"
    using None en by (simp add: amon_packet_def Let_def age_def)
  also have "\<dots> \<longleftrightarrow> (if ?n < unat (mru_mindepth cf) then ?n = a_alloc A \<and> mru_incalloc cf = 0
     else if a_list A \<noteq> [] \<and> mru_maxage cf < age then False
     else if ?n < a_alloc A \<or> a_alloc A < unat (mru_maxdepth cf) then ?n = a_alloc A \<and> mru_incalloc cf = 0
     else \<not> refuse age \<and> a_list A = [])" using l by (simp add: amon_add_None amon_replace_None)
  also have "\<dots> \<longleftrightarrow> (?n = a_alloc A \<and> mru_incalloc cf = 0 \<and>
       (?n < unat (mru_mindepth cf) \<or> \<not> (a_list A \<noteq> [] \<and> mru_maxage cf < age) \<and> a_alloc A < unat (mru_maxdepth cf)) \<or>
     a_alloc A = 0 \<and> unat (mru_mindepth cf) = 0 \<and> unat (mru_maxdepth cf) = 0 \<and> \<not> refuse 0)"
    using l by (cases "a_list A = []") (auto simp: age_def)
  finally show ?thesis using None by simp
next
  case (Some e)
  thus ?thesis using en by (simp add: amon_packet_def split: prod.split)
qed

definition oldest_age :: "rpacket \<Rightarrow> mon_state \<Rightarrow> int" where
  "oldest_age rb s = (if mon_mru_list s = [] then 0 else mon_interval (p_time rb) (m_last (mon_mem s (last (mon_mru_list s)))))"

text \<open>
  When \<^verbatim>\<open>ntp_monitor\<close> fails: the source is new, every entry is in use, more entries are called for and
  \<^verbatim>\<open>mru_incalloc\<close> is zero, so that the entry taken from the free list is \<^verbatim>\<open>NULL\<close>; or there is no entry at all and both depths
  are zero, so that the oldest entry is.  In every other state it returns.
\<close>

theorem ntp_monitor_fails_iff:
  assumes "mon_wf s" "cfg_ok cf" "mon_enabled s \<noteq> 0"
  shows "ntp_monitor cf ifs refuse rb flags s = None \<longleftrightarrow>
    (\<forall>m \<in> set (mon_mru_list s). \<not> SOCK_EQ (m_rmtadr (mon_mem s m)) (p_srcadr rb)) \<and>
    (mon_free s = [] \<and> mru_incalloc cf = 0 \<and> (mru_entries s < mru_mindepth cf \<or> \<not> (mon_mru_list s \<noteq> [] \<and> mru_maxage cf < oldest_age rb s) \<and> mru_alloc s < mru_maxdepth cf) \<or>
     mru_alloc s = 0 \<and> mru_mindepth cf = 0 \<and> mru_maxdepth cf = 0 \<and> \<not> refuse 0)"
proof -
  note ok = mon_wf_ok [OF assms(1)]
  have "ntp_monitor cf ifs refuse rb flags s = None \<longleftrightarrow> amon_packet cf ifs refuse rb flags (mon_abs s) = None"
    using ntp_monitor_refines_step [OF assms(1,2), of ifs refuse rb flags] by (auto simp: mon_refines_def)
  moreover have "find (\<lambda>e. SOCK_EQ (m_rmtadr e) (p_srcadr rb)) (a_list (mon_abs s)) = None \<longleftrightarrow>
      (\<forall>m \<in> set (mon_mru_list s). \<not> SOCK_EQ (m_rmtadr (mon_mem s m)) (p_srcadr rb))" by (auto simp: find_None_iff)
  moreover have "length (a_list (mon_abs s)) = a_alloc (mon_abs s) \<longleftrightarrow> mon_free s = []" "length (a_list (mon_abs s)) \<le> a_alloc (mon_abs s)"
    using mon_ok_length(1) [OF ok] by auto
  moreover have "(if a_list (mon_abs s) = [] then 0 else mon_interval (p_time rb) (m_last (last (a_list (mon_abs s))))) = oldest_age rb s"
    by (simp add: oldest_age_def last_map)
  moreover have "mru_alloc s = 0 \<longleftrightarrow> mon_fresh s = 0" using mon_ok_length(3) [OF ok] unat_eq_0 [of "mru_alloc s"] by simp
  ultimately show ?thesis using amon_packet_None [of "mon_abs s" cf ifs refuse rb flags] assms(3) mon_ok_length(2,3) [OF ok]
    by (simp add: word_less_nat_alt unat_eq_0)
qed

theorem ntp_monitor_fails_iff_witness:
  "\<exists>s. run_ops mon_exec [Start small_cf 1, small_op 7 123 100] (init_mon mon_static) = Some ([0, 0], s) \<and>
     ntp_monitor small_cf small_ifs (\<lambda>_. False) (small_pkt 8 123 101) 0x0420 s = None"
proof -
  let ?ops = "[Start small_cf 1, small_op 7 123 100]"
  have "map_option (\<lambda>(rs, A). (rs, a_alloc A, map m_last (a_list A), map m_rmtadr (a_list A), a_enabled A)) (run_ops amon_exec ?ops amon_init)
    = Some ([0, 0], 1, [\<lparr>l_ui = 100, l_uf = 0\<rparr>], [SA4 7 123], 1)" by code_simp
  then obtain A where A: "run_ops amon_exec ?ops amon_init = Some ([0, 0], A)" "a_alloc A = 1" "map m_last (a_list A) = [\<lparr>l_ui = 100, l_uf = 0\<rparr>]"
      "map m_rmtadr (a_list A) = [SA4 7 123]" "a_enabled A = 1" by (auto simp del: run_ops.simps split: option.splits)
  obtain s where s: "run_ops mon_exec ?ops (init_mon mon_static) = Some ([0, 0], s)" "mon_abs s = A" "mon_wf s"
    using small_run [OF _ A(1)] by auto
  obtain m where m: "mon_mru_list s = [m]" using A(3) s(2) by (cases "mon_mru_list s") auto
  have "mon_interval \<lparr>l_ui = 101, l_uf = 0\<rparr> \<lparr>l_ui = 100, l_uf = 0\<rparr> = 1" by code_simp
  hence "oldest_age (small_pkt 8 123 101) s = 1" using A(3) s(2) m by (auto simp: oldest_age_def small_pkt_def)
  moreover have "mon_fresh s = 1" "mon_enabled s = 1" "mon_host s m = SA4 7 123" using A s(2) m by auto
  moreover have "mon_free s = []" "unat (mru_alloc s) = 1" using mon_ok_length [OF mon_wf_ok [OF s(3)]] m \<open>mon_fresh s = 1\<close> by auto
  ultimately have "ntp_monitor small_cf small_ifs (\<lambda>_. False) (small_pkt 8 123 101) 0x0420 s = None"
    using ntp_monitor_fails_iff [OF s(3) small_ok(4), of small_ifs "\<lambda>_. False" "small_pkt 8 123 101" "0x0420"] m
    by (simp add: small_cf_def small_pkt_def word_less_nat_alt)
  thus ?thesis using s(1) by blast
qed

section \<open>Rate limits\<close>

definition headway :: "mon_config \<Rightarrow> int" where
  "headway cf = 2 ^ unat (ntp_minpoll cf)"

text \<open>The range of increments for which the counter does not overflow: \<^verbatim>\<open>discard average\<close> from 1 to 27.\<close>

definition rate_ok :: "mon_config \<Rightarrow> bool" where
  "rate_ok cf \<longleftrightarrow> 1 \<le> ntp_minpoll cf \<and> ntp_minpoll cf \<le> 27"

lemma headway_bounds: "rate_ok cf \<Longrightarrow> 2 \<le> headway cf \<and> headway cf \<le> 2 ^ 27"
proof -
  assume "rate_ok cf"
  hence "1 \<le> unat (ntp_minpoll cf)" "unat (ntp_minpoll cf) \<le> 27" by (simp_all add: rate_ok_def word_le_nat_alt)
  hence "(2::int) ^ 1 \<le> headway cf" "headway cf \<le> 2 ^ 27" unfolding headway_def by (intro power_increasing; simp)+
  thus ?thesis by simp
qed

definition admitted :: "u_short \<Rightarrow> bool" where
  "admitted fl \<longleftrightarrow> fl AND RES_LIMITED = 0"

definition kissed :: "u_short \<Rightarrow> bool" where
  "kissed fl \<longleftrightarrow> fl AND RES_KOD \<noteq> 0"

lemma res_bits: "admitted m \<longleftrightarrow> \<not> bit m 5" "kissed m \<longleftrightarrow> bit m 10"
  using and_exp_eq_0_iff_not_bit [of m 5] and_exp_eq_0_iff_not_bit [of m 10]
  by (simp_all add: admitted_def kissed_def RES_LIMITED_def RES_KOD_def)

lemma res_masks:
  "admitted (m AND NOT (RES_LIMITED OR RES_KOD))" "\<not> kissed (m AND NOT (RES_LIMITED OR RES_KOD))" "\<not> kissed (m AND NOT RES_KOD)"
  "admitted (m AND NOT RES_KOD) \<longleftrightarrow> admitted m"
proof -
  have "bit RES_LIMITED 5" "bit RES_KOD 10" "\<not> bit RES_KOD 5" by code_simp+
  thus "admitted (m AND NOT (RES_LIMITED OR RES_KOD))" "\<not> kissed (m AND NOT (RES_LIMITED OR RES_KOD))" "\<not> kissed (m AND NOT RES_KOD)"
    "admitted (m AND NOT RES_KOD) \<longleftrightarrow> admitted m"
    by (simp_all add: res_bits bit_simps)
qed

lemma rate_limit_eq:
  assumes "rate_ok cf" "0 \<le> leak" "leak \<le> 9 * headway cf" "0 \<le> i" "i < 2 ^ 31"
  shows "rate_limit cf i flags leak =
    (let l = max 0 (leak - i); h = headway cf
     in if s32 (i + 1) \<ge> ntp_minpkt cf \<and> l + h < 8 * h then (l + h - 2, flags AND NOT (RES_LIMITED OR RES_KOD))
        else if l < 8 * h then (9 * h, flags)
        else (l, flags AND NOT RES_KOD))"
proof -
  define h where "h = headway cf"
  have hb: "2 \<le> h" "h \<le> 2 ^ 27" using headway_bounds [OF assms(1)] by (simp_all add: h_def)
  have a: "push_bit (unat (ntp_minpoll cf)) (1 :: int) = h" by (simp add: push_bit_eq_mult h_def headway_def)
  define l where "l = max 0 (leak - i)"
  have l: "0 \<le> l" "l \<le> 9 * h" using assms by (auto simp: l_def h_def)
  have s: "s32 h = h" "s32 (leak - i) = leak - i" "s32 (8 * h) = 8 * h" "s32 (9 * h) = 9 * h" "s32 (l + h) = l + h" "s32 (l + h - 2) = l + h - 2"
    using hb l assms by (auto intro!: s32_id simp: in_s32_def h_def)
  show ?thesis unfolding rate_limit_def Let_def a NTP_SHIFT_def s l_def [symmetric] h_def [symmetric] using s by simp
qed

text \<open>The counter over a sequence of intervals, with the flags of each packet.\<close>

fun rate_run :: "mon_config \<Rightarrow> u_short \<Rightarrow> int \<Rightarrow> int list \<Rightarrow> u_short list" where
  "rate_run cf flags leak [] = []"
| "rate_run cf flags leak (i # is) = (case rate_limit cf i flags leak of (leak', m) \<Rightarrow> m # rate_run cf flags leak' is)"

lemma rate_limit_step:
  assumes "rate_ok cf" "0 \<le> leak" "leak \<le> 9 * headway cf" "0 \<le> i" "i < 2 ^ 31" "\<not> admitted flags" "rate_limit cf i flags leak = (leak', m)"
  shows "0 \<le> leak'" "leak' \<le> 9 * headway cf" "leak - i \<le> leak'"
    "admitted m \<Longrightarrow> leak - i + (headway cf - 2) \<le> leak' \<and> leak' \<le> 8 * headway cf - 3"
    "kissed m \<Longrightarrow> leak' = 9 * headway cf \<and> leak - i < 8 * headway cf"
proof -
  have h: "2 \<le> headway cf" using headway_bounds [OF assms(1)] by simp
  note r = assms(7) [unfolded rate_limit_eq [OF assms(1-5)] Let_def]
  show "0 \<le> leak'" "leak' \<le> 9 * headway cf" "leak - i \<le> leak'" using r h assms(2,3,4) by (auto split: if_splits)
  show "admitted m \<Longrightarrow> leak - i + (headway cf - 2) \<le> leak' \<and> leak' \<le> 8 * headway cf - 3"
    using r h assms(6) res_masks(4) [of flags] by (auto split: if_splits)
  show "kissed m \<Longrightarrow> leak' = 9 * headway cf \<and> leak - i < 8 * headway cf"
    using r res_masks(2,3) [of flags] by (auto split: if_splits)
qed

lemma rate_run_bound:
  assumes "rate_ok cf" "\<not> admitted flags" "0 \<le> leak" "leak \<le> 9 * headway cf" "\<forall>i \<in> set is. 0 \<le> i \<and> i < 2 ^ 31"
  shows "int (length (filter admitted (rate_run cf flags leak is))) * (headway cf - 2) \<le> max 0 (8 * headway cf - 3 - leak + sum_list is)"
  using assms(3-)
proof (induction "is" arbitrary: leak)
  case (Cons i "is")
  obtain leak' m where r: "rate_limit cf i flags leak = (leak', m)" by fastforce
  have i: "0 \<le> i" "i < 2 ^ 31" using Cons.prems by simp_all
  note st = rate_limit_step [OF assms(1) Cons.prems(1,2) i assms(2) r]
  have h: "2 \<le> headway cf" using headway_bounds [OF assms(1)] by simp
  have "0 \<le> sum_list is" using Cons.prems(3) by (intro sum_list_nonneg) auto
  moreover have "int (length (filter admitted (rate_run cf flags leak' is))) * (headway cf - 2) \<le> max 0 (8 * headway cf - 3 - leak' + sum_list is)"
    using Cons.IH [OF st(1,2)] Cons.prems(3) by simp
  ultimately show ?case using st(3,4) r h by (auto simp: distrib_right max_def split: if_splits)
qed simp

lemma rate_run_kiss:
  assumes "rate_ok cf" "\<not> admitted flags" "0 \<le> leak" "leak \<le> 9 * headway cf" "\<forall>i \<in> set is. 0 \<le> i \<and> i < 2 ^ 31"
    and "k < length is" "kissed (rate_run cf flags leak is ! k)"
  shows "leak - sum_list (take (Suc k) is) < 8 * headway cf"
  using assms(3-)
proof (induction "is" arbitrary: leak k)
  case (Cons i "is")
  obtain leak' m where r: "rate_limit cf i flags leak = (leak', m)" by fastforce
  have i: "0 \<le> i" "i < 2 ^ 31" using Cons.prems by simp_all
  note st = rate_limit_step [OF assms(1) Cons.prems(1,2) i assms(2) r]
  show ?case
  proof (cases k)
    case 0
    thus ?thesis using Cons.prems(5) r st(5) by simp
  next
    case (Suc j)
    hence "leak' - sum_list (take (Suc j) is) < 8 * headway cf" using Cons.IH [OF st(1,2), of j] Cons.prems r by simp
    thus ?thesis using Suc st(3) by simp
  qed
qed simp

lemma rate_run_kisses:
  assumes "rate_ok cf" "\<not> admitted flags" "0 \<le> leak" "leak \<le> 9 * headway cf" "\<forall>i \<in> set is. 0 \<le> i \<and> i < 2 ^ 31"
    and "j < k" "k < length is" "kissed (rate_run cf flags leak is ! j)" "kissed (rate_run cf flags leak is ! k)"
  shows "headway cf < sum_list (take (k - j) (drop (Suc j) is))"
  using assms(3-)
proof (induction "is" arbitrary: leak j k)
  case (Cons i "is")
  obtain leak' m where r: "rate_limit cf i flags leak = (leak', m)" by fastforce
  have i: "0 \<le> i" "i < 2 ^ 31" using Cons.prems by simp_all
  note st = rate_limit_step [OF assms(1) Cons.prems(1,2) i assms(2) r]
  obtain k' where k: "k = Suc k'" using Cons.prems(4) by (cases k) auto
  show ?case
  proof (cases j)
    case 0
    hence "leak' = 9 * headway cf" using Cons.prems(6) r st(5) by simp
    moreover have "leak' - sum_list (take (Suc k') is) < 8 * headway cf"
      using rate_run_kiss [OF assms(1,2) st(1,2), of "is" k'] Cons.prems k r by simp
    ultimately show ?thesis using 0 k by simp
  next
    case (Suc j')
    thus ?thesis using Cons.IH [OF st(1,2), of j' k'] Cons.prems k r by simp
  qed
qed simp

text \<open>The intervals between the packets of a source, as the monitor measures them.\<close>

fun intervals :: "l_fp \<Rightarrow> rpacket list \<Rightarrow> int list" where
  "intervals lst [] = []"
| "intervals lst (p # ps) = mon_interval (p_time p) lst # intervals (p_time p) ps"

lemma intervals_upper: "i \<in> set (intervals lst ps) \<Longrightarrow> i < 2 ^ 31"
proof -
  have "mon_interval t u < 2 ^ 31" for t u
    using sint_lt [of "l_ui (L_ADDUF (L_SUB t u) 0x80000000)"] by (simp add: mon_interval_def Let_def l_i_def)
  thus "i \<in> set (intervals lst ps) \<Longrightarrow> i < 2 ^ 31" by (induction ps arbitrary: lst) auto
qed

lemma intervals_length [simp]: "length (intervals lst ps) = length ps"
  by (induction ps arbitrary: lst) auto

lemma amon_known_run:
  assumes "a_enabled A \<noteq> 0" "find (\<lambda>e. SOCK_EQ (m_rmtadr e) a) (a_list A) = Some e" "\<forall>p \<in> set ps. SOCK_EQ (p_srcadr p) a"
  shows "\<exists>B. run_ops amon_exec (map (\<lambda>p. Packet cf ifs refuse p flags) ps) A = Some (rate_run cf flags (m_leak e) (intervals (m_last e) ps), B)"
  using assms
proof (induction ps arbitrary: A e)
  case (Cons p ps)
  have "SOCK_EQ b (p_srcadr p) \<longleftrightarrow> SOCK_EQ b a" for b using Cons.prems(3) SOCK_EQ_trans SOCK_EQ_sym by (metis list.set_intros(1))
  hence eq: "(\<lambda>e. SOCK_EQ (m_rmtadr e) (p_srcadr p)) = (\<lambda>e. SOCK_EQ (m_rmtadr e) a)" by auto
  have e: "SOCK_EQ (m_rmtadr e) a" using Cons.prems(2) by (auto simp: find_Some_iff)
  obtain leak m where r: "rate_limit cf (mon_interval (p_time p) (m_last e)) flags (m_leak e) = (leak, m)" by fastforce
  obtain e' where e': "entry_seen cf p flags e = (m, e')" "m_leak e' = leak" "m_last e' = p_time p" "SOCK_EQ (m_rmtadr e') a"
    using r e by (simp add: entry_seen_def)
  let ?B = "A\<lparr>a_list := e' # filter (\<lambda>e. \<not> SOCK_EQ (m_rmtadr e) (p_srcadr p)) (a_list A)\<rparr>"
  have "amon_exec (Packet cf ifs refuse p flags) A = Some (m, ?B)" using Cons.prems(1,2) e'(1) by (simp add: amon_packet_def eq)
  moreover have "find (\<lambda>e. SOCK_EQ (m_rmtadr e) a) (a_list ?B) = Some e'" "a_enabled ?B \<noteq> 0" using e'(4) Cons.prems(1) by simp_all
  ultimately show ?case using Cons.IH [of ?B e'] Cons.prems(3) e'(2,3) r by auto
qed simp

text \<open>
  C14: The rate limits.  Of the packets of a known source that is to be limited, arriving in order, the monitor admits so many
  that each costs two seconds less than the headway, out of eight headways plus the time that passes; and any two packets it
  answers with a kiss of death are more than a headway apart.
\<close>

theorem monitor_rate_limits:
  assumes wf: "mon_wf s" "cfg_ok cf" "mon_enabled s \<noteq> 0" and m: "m \<in> set (mon_mru_list s)" and "rate_ok cf"
    and leak: "0 \<le> m_leak (mon_mem s m)" "m_leak (mon_mem s m) \<le> 9 * headway cf"
    and ps: "\<forall>p \<in> set ps. SOCK_EQ (p_srcadr p) (m_rmtadr (mon_mem s m))" "\<forall>i \<in> set (intervals (m_last (mon_mem s m)) ps). 0 \<le> i" and fl: "\<not> admitted flags"
  shows "\<exists>rs t. run_ops mon_exec (map (\<lambda>p. Packet cf ifs refuse p flags) ps) s = Some (rs, t) \<and>
    int (length (filter admitted rs)) * (headway cf - 2) \<le> 8 * headway cf - 3 + sum_list (intervals (m_last (mon_mem s m)) ps) \<and>
    (\<forall>j k. j < k \<and> k < length ps \<and> kissed (rs ! j) \<and> kissed (rs ! k) \<longrightarrow>
       headway cf < sum_list (take (k - j) (drop (Suc j) (intervals (m_last (mon_mem s m)) ps))))"
proof -
  let ?e = "mon_mem s m"
  let ?is = "intervals (m_last ?e) ps"
  note ok = mon_wf_ok [OF wf(1)]
  have h: "2 \<le> headway cf" using headway_bounds [OF assms(5)] by simp
  have "find (\<lambda>n. SOCK_EQ (mon_host s n) (m_rmtadr ?e)) (mon_mru_list s) = Some m"
  proof (cases "find (\<lambda>n. SOCK_EQ (mon_host s n) (m_rmtadr ?e)) (mon_mru_list s)")
    case None
    thus ?thesis using m by (auto simp: find_None_iff)
  next
    case (Some n)
    hence "n \<in> set (mon_mru_list s)" "SOCK_EQ (mon_host s n) (m_rmtadr ?e)" by (auto simp: find_Some_iff)
    hence "n = m" using ok m by (simp add: mon_ok_def mon_hosts_def)
    thus ?thesis using Some by simp
  qed
  hence "find (\<lambda>e. SOCK_EQ (m_rmtadr e) (m_rmtadr ?e)) (a_list (mon_abs s)) = Some ?e" by (simp add: find_map o_def)
  then obtain B where B: "run_ops amon_exec (map (\<lambda>p. Packet cf ifs refuse p flags) ps) (mon_abs s) = Some (rate_run cf flags (m_leak ?e) ?is, B)"
    using amon_known_run [of "mon_abs s" "m_rmtadr ?e" ?e ps cf ifs refuse flags] wf(3) ps(1) by auto
  have "list_all op_ok (map (\<lambda>p. Packet cf ifs refuse p flags) ps)" using wf(2) by (simp add: list_all_iff op_ok_def)
  from monitor_machine.run_sim [OF wf(1) this] B obtain t where
    t: "run_ops mon_exec (map (\<lambda>p. Packet cf ifs refuse p flags) ps) s = Some (rate_run cf flags (m_leak ?e) ?is, t)" by auto
  have i: "\<forall>i \<in> set ?is. 0 \<le> i \<and> i < 2 ^ 31" using ps(2) intervals_upper by blast
  have "0 \<le> sum_list ?is" using ps(2) by (intro sum_list_nonneg) auto
  hence "int (length (filter admitted (rate_run cf flags (m_leak ?e) ?is))) * (headway cf - 2) \<le> 8 * headway cf - 3 + sum_list ?is"
    using rate_run_bound [OF assms(5) fl leak i] leak h by (auto simp: max_def split: if_splits)
  thus ?thesis using t rate_run_kisses [OF assms(5) fl leak i] by auto
qed

theorem monitor_rate_limits_witness:
  "\<exists>s rs t. run_ops mon_exec [Start small_cf 1, small_op 7 123 100] (init_mon mon_static) = Some ([0, 0], s) \<and>
     run_ops mon_exec [small_op 7 123 101, small_op 7 123 101, small_op 7 123 115] s = Some (rs, t) \<and> length (filter admitted rs) \<le> 12"
proof -
  let ?ops = "[Start small_cf 1, small_op 7 123 100]" and ?ps = "[small_pkt 7 123 101, small_pkt 7 123 101, small_pkt 7 123 115]"
  have "map_option (\<lambda>(rs, A). (rs, map m_leak (a_list A), map m_last (a_list A), map m_rmtadr (a_list A), a_enabled A)) (run_ops amon_exec ?ops amon_init)
    = Some ([0, 0], [0], [\<lparr>l_ui = 100, l_uf = 0\<rparr>], [SA4 7 123], 1)" by code_simp
  then obtain A where A: "run_ops amon_exec ?ops amon_init = Some ([0, 0], A)" "map m_leak (a_list A) = [0]" "map m_last (a_list A) = [\<lparr>l_ui = 100, l_uf = 0\<rparr>]"
      "map m_rmtadr (a_list A) = [SA4 7 123]" "a_enabled A = 1" by (auto simp del: run_ops.simps split: option.splits)
  obtain s where s: "run_ops mon_exec ?ops (init_mon mon_static) = Some ([0, 0], s)" "mon_abs s = A" "mon_wf s"
    using small_run [OF _ A(1)] by auto
  obtain m where m: "mon_mru_list s = [m]" using A(3) s(2) by (cases "mon_mru_list s") auto
  have e: "m_leak (mon_mem s m) = 0" "m_last (mon_mem s m) = \<lparr>l_ui = 100, l_uf = 0\<rparr>" "m_rmtadr (mon_mem s m) = SA4 7 123" "mon_enabled s = 1" using A s(2) m by auto
  have i: "intervals \<lparr>l_ui = 100, l_uf = 0\<rparr> ?ps = [1, 0, 14]" by code_simp
  have c: "rate_ok small_cf" "headway small_cf = 8" "\<not> admitted 0x0420" by code_simp+
  have p: "map (\<lambda>p. Packet small_cf small_ifs (\<lambda>_. False) p 0x0420) ?ps = [small_op 7 123 101, small_op 7 123 101, small_op 7 123 115]"
    by (simp add: small_op_def)
  have "\<exists>rs t. run_ops mon_exec (map (\<lambda>p. Packet small_cf small_ifs (\<lambda>_. False) p 0x0420) ?ps) s = Some (rs, t) \<and>
      int (length (filter admitted rs)) * 6 \<le> 61 + 15"
    using monitor_rate_limits [OF s(3) small_ok(4) _ _ c(1), of m ?ps "0x0420" small_ifs "\<lambda>_. False"] m e i c(2,3)
    by (auto simp: small_pkt_def simp del: run_ops.simps)
  then obtain rs t where "run_ops mon_exec [small_op 7 123 101, small_op 7 123 101, small_op 7 123 115] s = Some (rs, t)" "int (length (filter admitted rs)) * 6 \<le> 61 + 15"
    unfolding p by blast
  thus ?thesis using s(1) by (intro exI [of _ s] exI [of _ rs] exI [of _ t]) auto
qed

section \<open>Options\<close>

lemma mem_entries_val:
  assumes "0 < sz" "0 \<le> i" "i < 2 ^ 31"
  shows "uint (mem_entries sz i) = (1024 * i mod 2 ^ 32) div uint sz"
proof -
  have "uint (val_u i * 1024) = 1024 * i mod 2 ^ 32" using assms
    by (simp add: val_u_def uint_word_ariths unsigned_of_int take_bit_eq_mod mod_mult_left_eq mult.commute)
  moreover have "uint (ucast (val_u i * 1024) :: u_int64) = uint (val_u i * 1024)"
    using uint32_range [of "val_u i * 1024"] by (simp add: unsigned_ucast_eq take_bit_int_eq_self)
  ultimately have "uint ((ucast (val_u i * 1024) :: u_int64) div sz) = (1024 * i mod 2 ^ 32) div uint sz" by (simp add: uint_div)
  moreover have "0 < uint sz" using assms(1) by (simp add: word_less_def)
  hence "0 \<le> (1024 * i mod 2 ^ 32) div uint sz" "(1024 * i mod 2 ^ 32) div uint sz \<le> 1024 * i mod 2 ^ 32"
    using zdiv_mono2 [of "1024 * i mod 2 ^ 32" 1 "uint sz"] by (simp_all add: pos_imp_zdiv_nonneg_iff)
  moreover have "1024 * i mod 2 ^ 32 < 2 ^ 32" by simp
  ultimately show ?thesis by (simp add: mem_entries_def unsigned_ucast_eq take_bit_int_eq_self)
qed

text \<open>
  The \<^verbatim>\<open>mru\<close> options in kilobytes set the depth and the allocations to the entries that fit in that memory only below 4 GiB: the
  size in octets is computed in 32 bits and wraps, so that 4 GiB is no memory at all.
\<close>

theorem mru_memory_options:
  assumes "0 < sz" "0 \<le> i" "i < 2 ^ 31"
  shows "uint (mru_maxdepth (mru_option sz T_Maxmem i cf)) = (1024 * i mod 2 ^ 32) div uint sz \<and>
    uint (mru_initalloc (mru_option sz T_Initmem i cf)) = (1024 * i mod 2 ^ 32) div uint sz \<and>
    uint (mru_incalloc (mru_option sz T_Incmem i cf)) = (1024 * i mod 2 ^ 32) div uint sz \<and>
    (i < 2 ^ 22 \<longrightarrow> uint (mru_maxdepth (mru_option sz T_Maxmem i cf)) = 1024 * i div uint sz)"
  using assms by (simp add: mem_entries_val)

theorem mru_memory_options_witness: "uint (mru_maxdepth (mru_option 88 T_Maxmem (2 ^ 22) small_cf)) = 0"
  using mru_memory_options [of 88 "2 ^ 22" small_cf] by simp

end
