(* ===== verification/NTP_Peer.thy ===== *)
theory NTP_Peer
  imports NTP_Monitor Auth_Keys "HOL-Library.Monad_Syntax"
begin

text \<open>
  Associations: \<^verbatim>\<open>ntpd/ntp_peer.c\<close>, with \<^verbatim>\<open>peer_clear\<close> and \<^verbatim>\<open>peer_unfit\<close> of \<^verbatim>\<open>ntpd/ntp_proto.c\<close> and \<^verbatim>\<open>refclock_newpeer\<close> of
  \<^verbatim>\<open>ntpd/ntp_refclock.c\<close>, in the build without Autokey.  A peer structure is a record in a memory; the list of all peers, the chains of the
  two hash tables, the free list and the lists of the interfaces are the sequences of their entries, as in the monitor.  The variables
  of type \<^verbatim>\<open>double\<close> are left out: the one test that reads them here, on the root distance, is an argument, as are the clock, the random numbers,
  the choice of interfaces and the start routine of a clock driver.  \<open>None\<close> is a failed assertion, a \<^verbatim>\<open>NULL\<close> peer, an index out of
  range, or a division by zero.  The addresses that a pool has left to try are a list.  Events and traps are left out, as is the shutdown of a
  clock driver in \<^verbatim>\<open>unpeer\<close>.
\<close>

unbundle bit_operations_syntax

section \<open>Constants\<close>

definition MODE_UNSPEC :: u_char where "MODE_UNSPEC = 0"
definition MODE_ACTIVE :: u_char where "MODE_ACTIVE = 1"
definition MODE_PASSIVE :: u_char where "MODE_PASSIVE = 2"
definition MODE_CLIENT :: u_char where "MODE_CLIENT = 3"
definition MODE_SERVER :: u_char where "MODE_SERVER = 4"
definition MODE_BROADCAST :: u_char where "MODE_BROADCAST = 5"
definition MODE_CONTROL :: u_char where "MODE_CONTROL = 6"
definition MODE_PRIVATE :: u_char where "MODE_PRIVATE = 7"
definition MODE_BCLIENT :: u_char where "MODE_BCLIENT = 6"

definition MDF_POOL :: u_char where "MDF_POOL = 0x08"
definition MDF_ACAST :: u_char where "MDF_ACAST = 0x10"
definition MDF_BCLNT :: u_char where "MDF_BCLNT = 0x20"
definition MDF_UCLNT :: u_char where "MDF_UCLNT = 0x40"
definition MDF_TXONLY_MASK :: u_char where "MDF_TXONLY_MASK = MDF_BCAST OR MDF_MCAST OR MDF_ACAST OR MDF_POOL"
definition MDF_SOLICIT_MASK :: u_char where "MDF_SOLICIT_MASK = MDF_ACAST OR MDF_POOL"

definition FLAG_CONFIG :: u_int32 where "FLAG_CONFIG = 0x0001"
definition FLAG_PREEMPT :: u_int32 where "FLAG_PREEMPT = 0x0002"
definition FLAG_AUTHENTIC :: u_int32 where "FLAG_AUTHENTIC = 0x0004"
definition FLAG_REFCLOCK :: u_int32 where "FLAG_REFCLOCK = 0x0008"
definition FLAG_BC_VOL :: u_int32 where "FLAG_BC_VOL = 0x0010"
definition FLAG_BURST :: u_int32 where "FLAG_BURST = 0x0040"
definition FLAG_IBURST :: u_int32 where "FLAG_IBURST = 0x0100"
definition FLAG_NOSELECT :: u_int32 where "FLAG_NOSELECT = 0x0200"
definition FLAG_XLEAVE :: u_int32 where "FLAG_XLEAVE = 0x1000"
definition FLAG_XB :: u_int32 where "FLAG_XB = 0x2000"
definition FLAG_XBOGUS :: u_int32 where "FLAG_XBOGUS = 0x4000"

definition TEST1 :: u_int32 where "TEST1 = 0x0001"
definition TEST2 :: u_int32 where "TEST2 = 0x0002"
definition TEST3 :: u_int32 where "TEST3 = 0x0004"
definition TEST4 :: u_int32 where "TEST4 = 0x0008"
definition TEST5 :: u_int32 where "TEST5 = 0x0010"
definition TEST6 :: u_int32 where "TEST6 = 0x0020"
definition TEST7 :: u_int32 where "TEST7 = 0x0040"
definition TEST8 :: u_int32 where "TEST8 = 0x0080"
definition TEST9 :: u_int32 where "TEST9 = 0x0100"
definition TEST10 :: u_int32 where "TEST10 = 0x0200"
definition TEST11 :: u_int32 where "TEST11 = 0x0400"
definition TEST12 :: u_int32 where "TEST12 = 0x0800"
definition TEST13 :: u_int32 where "TEST13 = 0x1000"
definition PKT_TEST_MASK :: u_int32 where
  "PKT_TEST_MASK = TEST1 OR TEST2 OR TEST3 OR TEST4 OR TEST5 OR TEST6 OR TEST7 OR TEST8 OR TEST9"
definition PEER_TEST_MASK :: u_int32 where "PEER_TEST_MASK = TEST10 OR TEST11 OR TEST12 OR TEST13"

definition NTP_MINDPOLL :: u_char where "NTP_MINDPOLL = 6"
definition NTP_MAXDPOLL :: u_char where "NTP_MAXDPOLL = 10"
definition NTP_MAXPOLL :: u_char where "NTP_MAXPOLL = 17"
definition LEAP_NOWARNING :: u_char where "LEAP_NOWARNING = 0"
definition LEAP_NOTINSYNC :: u_char where "LEAP_NOTINSYNC = 3"
definition STRATUM_REFCLOCK :: u_char where "STRATUM_REFCLOCK = 0"
definition STRATUM_PKT_UNSPEC :: u_char where "STRATUM_PKT_UNSPEC = 0"
definition STRATUM_UNSPEC :: u_char where "STRATUM_UNSPEC = 16"
definition INT_MCASTIF :: u_int32 where "INT_MCASTIF = 0x100"
definition CTL_PST_SEL_SELCAND :: u_char where "CTL_PST_SEL_SELCAND = 3"
definition CTL_PST_SEL_EXCESS :: u_char where "CTL_PST_SEL_EXCESS = 5"
definition INIT_PEER_ALLOC :: nat where "INIT_PEER_ALLOC = 8"
definition INC_PEER_ALLOC :: nat where "INC_PEER_ALLOC = 4"

section \<open>The table of association modes\<close>

datatype am_action = AM_ERR | AM_NOMATCH | AM_PROCPKT | AM_FXMIT | AM_MANYCAST | AM_NEWPASS | AM_NEWBCL

text \<open>The seventh column of the array is not initialised, hence zero, which is \<^verbatim>\<open>AM_NOMATCH\<close>.\<close>

definition AM :: "am_action list list" where
  "AM =
    [[AM_ERR, AM_NEWPASS, AM_NOMATCH, AM_FXMIT,   AM_MANYCAST, AM_NEWBCL,  AM_NOMATCH],
     [AM_ERR, AM_PROCPKT, AM_PROCPKT, AM_NOMATCH, AM_NOMATCH,  AM_NOMATCH, AM_NOMATCH],
     [AM_ERR, AM_PROCPKT, AM_ERR,     AM_NOMATCH, AM_NOMATCH,  AM_NOMATCH, AM_NOMATCH],
     [AM_ERR, AM_NOMATCH, AM_NOMATCH, AM_NOMATCH, AM_PROCPKT,  AM_NOMATCH, AM_NOMATCH],
     [AM_ERR, AM_NOMATCH, AM_NOMATCH, AM_NOMATCH, AM_NOMATCH,  AM_NOMATCH, AM_NOMATCH],
     [AM_ERR, AM_NOMATCH, AM_NOMATCH, AM_NOMATCH, AM_NOMATCH,  AM_NOMATCH, AM_NOMATCH],
     [AM_ERR, AM_NOMATCH, AM_NOMATCH, AM_NOMATCH, AM_NOMATCH,  AM_PROCPKT, AM_NOMATCH]]"

definition NO_PEER :: u_char where "NO_PEER = 0"

definition MATCH_ASSOC :: "u_char \<Rightarrow> u_char \<Rightarrow> am_action option" where
  "MATCH_ASSOC x y = (if unat x < 7 \<and> unat y < 7 then Some (AM ! unat x ! unat y) else None)"

section \<open>State\<close>

record peer =
  hostname :: "string option"
  pool_ai :: "sockaddr_u list"
  srcadr :: sockaddr_u
  dstadr :: "addr option"
  associd :: u_short
  version :: u_char
  hmode :: u_char
  hpoll :: u_char
  minpoll :: u_char
  maxpoll :: u_char
  pflags :: u_int32
  cast_flags :: u_char
  ttl :: u_int32
  ident :: "string option"
  leap :: u_char
  pmode :: u_char
  stratum :: u_char
  ppoll :: u_char
  precision :: int
  refid :: u_int32
  reftime :: l_fp
  pkeyid :: keyid_t
  status :: u_char
  reach :: u_char
  flash :: u_int32
  burst :: int
  retry :: int
  flip :: int
  prec :: l_fp
  pxmt :: l_fp
  pdst :: l_fp
  aorg :: l_fp
  borg :: l_fp
  update :: u_int64
  unreach :: int
  throttle :: int
  outdate :: u_int64
  nextdate :: u_int64
  timereset :: u_int64
  timereceived :: u_int64
  timereachable :: u_int64
  sent :: u_int64
  received :: u_int64
  processed :: u_int64
  badauth :: u_int64
  bogusorg :: u_int64
  oldpkt :: u_int64
  seldisptoolarge :: u_int64
  selbroken :: u_int64
  last_event :: u_char
  num_events :: u_char
  refclktype :: u_char
  sstclktype :: u_char

definition zero_lfp :: l_fp where "zero_lfp = \<lparr>l_ui = 0, l_uf = 0\<rparr>"

definition zero_peer :: peer where
  "zero_peer = \<lparr>hostname = None, pool_ai = [], srcadr = SA_UNSPEC, dstadr = None, associd = 0, version = 0, hmode = 0, hpoll = 0, minpoll = 0, maxpoll = 0,
     pflags = 0, cast_flags = 0, ttl = 0, ident = None, leap = 0, pmode = 0, stratum = 0, ppoll = 0, precision = 0, refid = 0, reftime = zero_lfp,
     pkeyid = 0, status = 0, reach = 0, flash = 0, burst = 0, retry = 0, flip = 0, prec = zero_lfp, pxmt = zero_lfp, pdst = zero_lfp,
     aorg = zero_lfp, borg = zero_lfp, update = 0, unreach = 0, throttle = 0, outdate = 0, nextdate = 0, timereset = 0, timereceived = 0,
     timereachable = 0, sent = 0, received = 0, processed = 0, badauth = 0, bogusorg = 0, oldpkt = 0, seldisptoolarge = 0, selbroken = 0,
     last_event = 0, num_events = 0, refclktype = 0, sstclktype = 0\<rparr>"

text \<open>An interface, with the list of the peers that use it.\<close>

record interface = endpt +
  if_peers :: "addr list"
  if_peercnt :: u_int32
  if_addr_refid :: u_int32

record peer_state =
  peer_mem :: "addr \<Rightarrow> peer"
  peer_fresh :: addr
  peer_hash :: "nat \<Rightarrow> addr list"
  peer_hash_count :: "nat \<Rightarrow> int"
  assoc_hash :: "nat \<Rightarrow> addr list"
  assoc_hash_count :: "nat \<Rightarrow> int"
  peer_list :: "addr list"
  peer_free :: "addr list"
  peer_free_count :: int
  current_association_ID :: u_short
  peer_timereset :: u_int64
  findpeer_calls :: u_int64
  assocpeer_calls :: u_int64
  peer_allocations :: u_int64
  peer_demobilizations :: u_int64
  total_peer_structs :: int
  peer_associations :: int
  peer_preempt :: int
  peer_ntpdate :: int
  ifaces :: "addr \<Rightarrow> interface"
  restricts :: res_state

text \<open>The surroundings of an operation: clock, switches, random numbers, and the parts that are not modelled.\<close>

record penv =
  current_time :: u_int64
  mode_ntpdate :: bool
  initializing :: bool
  sys_precision :: int
  sys_floor :: int
  sys_ceiling :: int
  random_clear :: u_int64
  random_poll :: u_int64
  select_peerinterface :: "peer \<Rightarrow> sockaddr_u \<Rightarrow> addr option \<Rightarrow> addr option"
  findinterface :: "sockaddr_u \<Rightarrow> addr option"
  any_interface :: "sockaddr_u \<Rightarrow> addr option"
  distance_exceeded :: "peer \<Rightarrow> bool"
  clock_start :: "peer \<Rightarrow> peer option"
  mon_cf :: mon_config

definition NTP_HASH_MASK :: u_short where "NTP_HASH_MASK = 127"

definition NTP_HASH_ADDR :: "sockaddr_u \<Rightarrow> nat" where
  "NTP_HASH_ADDR src = unat (sock_hash src AND NTP_HASH_MASK)"

definition assoc_index :: "u_short \<Rightarrow> nat" where
  "assoc_index aid = unat (aid AND NTP_HASH_MASK)"

definition upd_peer :: "addr \<Rightarrow> (peer \<Rightarrow> peer) \<Rightarrow> peer_state \<Rightarrow> peer_state" where
  "upd_peer p f s = s\<lparr>peer_mem := (peer_mem s)(p := f (peer_mem s p))\<rparr>"

section \<open>Memory\<close>

text \<open>The random loop of \<^verbatim>\<open>init_peer\<close> ends with a first identifier other than zero, which is an argument.\<close>

definition init_peer :: "u_short \<Rightarrow> peer_state \<Rightarrow> peer_state option" where
  "init_peer first_id s =
     (if first_id = 0 then None
      else
        let chunk = peer_fresh s
        in Some (s\<lparr>peer_free := [chunk..<chunk + INIT_PEER_ALLOC] @ peer_free s, peer_fresh := chunk + INIT_PEER_ALLOC,
             total_peer_structs := int INIT_PEER_ALLOC, peer_free_count := int INIT_PEER_ALLOC, current_association_ID := first_id\<rparr>))"

definition getmorepeermem :: "peer_state \<Rightarrow> peer_state" where
  "getmorepeermem s =
     (let peers = peer_fresh s;
          new = [peers..<peers + INC_PEER_ALLOC]
      in s\<lparr>peer_mem := (\<lambda>p. if p \<in> set new then zero_peer else peer_mem s p), peer_free := new @ peer_free s, peer_fresh := peers + INC_PEER_ALLOC,
           total_peer_structs := s32 (total_peer_structs s + int INC_PEER_ALLOC), peer_free_count := s32 (peer_free_count s + int INC_PEER_ALLOC)\<rparr>)"

section \<open>Searching\<close>

fun AF :: "sockaddr_u \<Rightarrow> u_char" where
  "AF (SA4 _ _) = AF_INET"
| "AF (SA6 _ _ _) = AF_INET6"
| "AF SA_UNSPEC = 0"

definition tolower :: "char \<Rightarrow> char" where
  "tolower c = (if 65 \<le> (of_char c :: nat) \<and> (of_char c :: nat) \<le> 90 then char_of ((of_char c :: nat) + 32) else c)"

definition strcasecmp_eq :: "string \<Rightarrow> string \<Rightarrow> bool" where
  "strcasecmp_eq a b \<longleftrightarrow> map tolower a = map tolower b"

text \<open>The part of a list behind an entry, which its link points to.\<close>

definition behind :: "addr option \<Rightarrow> addr list \<Rightarrow> addr list" where
  "behind start ps = (case start of None \<Rightarrow> ps | Some p \<Rightarrow> tl (dropWhile (\<lambda>q. q \<noteq> p) ps))"

text \<open>The mode \<open>None\<close> is the \<^verbatim>\<open>-1\<close> of the source: any mode.\<close>

definition name_matches :: "string \<Rightarrow> u_char \<Rightarrow> u_char option \<Rightarrow> peer \<Rightarrow> bool" where
  "name_matches hname hname_fam md q =
     (case hostname q of
        None \<Rightarrow> False
      | Some h \<Rightarrow> (md = None \<or> md = Some (hmode q)) \<and> (hname_fam = 0 \<or> AF (srcadr q) = 0 \<or> hname_fam = AF (srcadr q)) \<and> strcasecmp_eq h hname)"

definition findexistingpeer_name :: "string \<Rightarrow> u_char \<Rightarrow> addr option \<Rightarrow> u_char option \<Rightarrow> peer_state \<Rightarrow> addr option" where
  "findexistingpeer_name hname hname_fam start_peer md s =
     find (\<lambda>p. name_matches hname hname_fam md (peer_mem s p)) (behind start_peer (peer_list s))"

definition addr_matches :: "sockaddr_u \<Rightarrow> u_char option \<Rightarrow> u_char \<Rightarrow> peer \<Rightarrow> bool" where
  "addr_matches adr md cflags q \<longleftrightarrow>
     (md = None \<or> md = Some (hmode q) \<or> MDF_BCLNT AND cast_flags q \<noteq> 0 \<and> MDF_BCLNT AND cflags \<noteq> 0) \<and> ADDR_PORT_EQ adr (srcadr q)"

definition findexistingpeer_addr :: "sockaddr_u \<Rightarrow> addr option \<Rightarrow> u_char option \<Rightarrow> u_char \<Rightarrow> peer_state \<Rightarrow> addr option" where
  "findexistingpeer_addr adr start_peer md cflags s =
     find (\<lambda>p. addr_matches adr md cflags (peer_mem s p)) (behind start_peer (peer_hash s (NTP_HASH_ADDR adr)))"

definition findexistingpeer :: "sockaddr_u \<Rightarrow> string option \<Rightarrow> addr option \<Rightarrow> u_char option \<Rightarrow> u_char \<Rightarrow> peer_state \<Rightarrow> addr option" where
  "findexistingpeer adr hname start_peer md cflags s =
     (case hname of
        Some h \<Rightarrow> findexistingpeer_name h (AF adr) start_peer md s
      | None \<Rightarrow> findexistingpeer_addr adr start_peer md cflags s)"

definition findpeerbyassoc :: "u_short \<Rightarrow> peer_state \<Rightarrow> addr option \<times> peer_state" where
  "findpeerbyassoc assoc s =
     (find (\<lambda>p. assoc = associd (peer_mem s p)) (assoc_hash s (assoc_index assoc)), s\<lparr>assocpeer_calls := assocpeer_calls s + 1\<rparr>)"

section \<open>Received packets\<close>

text \<open>A receive buffer.  The fields of the packet are read from its bytes in network order.\<close>

record rbuf =
  recv_srcadr :: sockaddr_u
  rdstadr :: addr
  rfd :: int
  recv_time :: l_fp
  recv_length :: int
  recv_buf :: "u_char list"

definition byte_at :: "rbuf \<Rightarrow> nat \<Rightarrow> u_char" where
  "byte_at rb i = (if i < length (recv_buf rb) then recv_buf rb ! i else 0)"

definition be32_at :: "rbuf \<Rightarrow> nat \<Rightarrow> u_int32" where
  "be32_at rb i =
     push_bit 24 (ucast (byte_at rb i)) OR push_bit 16 (ucast (byte_at rb (i + 1))) OR push_bit 8 (ucast (byte_at rb (i + 2))) OR ucast (byte_at rb (i + 3))"

definition NTOHL_FP :: "rbuf \<Rightarrow> nat \<Rightarrow> l_fp" where
  "NTOHL_FP rb i = \<lparr>l_ui = be32_at rb i, l_uf = be32_at rb (i + 4)\<rparr>"

definition pkt_li_vn_mode :: "rbuf \<Rightarrow> u_char" where "pkt_li_vn_mode rb = byte_at rb 0"
definition pkt_stratum :: "rbuf \<Rightarrow> u_char" where "pkt_stratum rb = byte_at rb 1"
definition pkt_ppoll :: "rbuf \<Rightarrow> u_char" where "pkt_ppoll rb = byte_at rb 2"
definition pkt_precision :: "rbuf \<Rightarrow> int" where "pkt_precision rb = sint (byte_at rb 3)"
definition pkt_rootdelay :: "rbuf \<Rightarrow> u_int32" where "pkt_rootdelay rb = be32_at rb 4"
definition pkt_rootdisp :: "rbuf \<Rightarrow> u_int32" where "pkt_rootdisp rb = be32_at rb 8"
definition pkt_refid :: "rbuf \<Rightarrow> u_int32" where "pkt_refid rb = be32_at rb 12"
definition pkt_reftime :: "rbuf \<Rightarrow> l_fp" where "pkt_reftime rb = NTOHL_FP rb 16"
definition pkt_org :: "rbuf \<Rightarrow> l_fp" where "pkt_org rb = NTOHL_FP rb 24"
definition pkt_rec :: "rbuf \<Rightarrow> l_fp" where "pkt_rec rb = NTOHL_FP rb 32"
definition pkt_xmt :: "rbuf \<Rightarrow> l_fp" where "pkt_xmt rb = NTOHL_FP rb 40"

section \<open>Interfaces\<close>

definition upd_if :: "addr \<Rightarrow> (interface \<Rightarrow> interface) \<Rightarrow> peer_state \<Rightarrow> peer_state" where
  "upd_if i f s = s\<lparr>ifaces := (ifaces s)(i := f (ifaces s i))\<rparr>"

text \<open>A peer that runs its first volley keeps its unicast address when packets come in on a multicast endpoint.\<close>

definition dst_refused :: "peer \<Rightarrow> addr option \<Rightarrow> peer_state \<Rightarrow> bool" where
  "dst_refused q d s =
     (case d of
        None \<Rightarrow> False
      | Some i \<Rightarrow> FLAG_BC_VOL AND pflags q \<noteq> 0 \<and> INT_MCASTIF AND if_flags (ifaces s i) \<noteq> 0 \<and> MODE_CLIENT = hmode q)"

definition set_peerdstadr :: "addr \<Rightarrow> addr option \<Rightarrow> peer_state \<Rightarrow> peer_state" where
  "set_peerdstadr p d s =
     (let q = peer_mem s p
      in if dstadr q = d then s
         else if dst_refused q d s then s
         else
           let s = (case dstadr q of
                      None \<Rightarrow> s
                    | Some i \<Rightarrow> upd_if i (\<lambda>f. f\<lparr>if_peercnt := if_peercnt f - 1, if_peers := remove1 p (if_peers f)\<rparr>) s);
               s = upd_peer p (\<lambda>q. q\<lparr>dstadr := d\<rparr>) s
           in (case d of
                 None \<Rightarrow> s
               | Some i \<Rightarrow> upd_if i (\<lambda>f. f\<lparr>if_peers := p # if_peers f, if_peercnt := if_peercnt f + 1\<rparr>) s))"

lemma set_peerdstadr_frame [simp]:
  "peer_hash (set_peerdstadr p d s) = peer_hash s" "assoc_hash (set_peerdstadr p d s) = assoc_hash s" "peer_list (set_peerdstadr p d s) = peer_list s"
  "peer_hash_count (set_peerdstadr p d s) = peer_hash_count s" "assoc_hash_count (set_peerdstadr p d s) = assoc_hash_count s"
  "peer_free (set_peerdstadr p d s) = peer_free s" "peer_fresh (set_peerdstadr p d s) = peer_fresh s" "peer_free_count (set_peerdstadr p d s) = peer_free_count s"
  "total_peer_structs (set_peerdstadr p d s) = total_peer_structs s" "peer_associations (set_peerdstadr p d s) = peer_associations s"
  "peer_preempt (set_peerdstadr p d s) = peer_preempt s" "current_association_ID (set_peerdstadr p d s) = current_association_ID s"
  "restricts (set_peerdstadr p d s) = restricts s" "findpeer_calls (set_peerdstadr p d s) = findpeer_calls s"
  by (auto simp: set_peerdstadr_def Let_def upd_if_def upd_peer_def split: option.split)

lemma set_peerdstadr_mem: "q \<noteq> p \<Longrightarrow> peer_mem (set_peerdstadr p d s) q = peer_mem s q"
  by (auto simp: set_peerdstadr_def Let_def upd_if_def upd_peer_def split: option.split)

lemma set_peerdstadr_self:
  "peer_mem (set_peerdstadr p d s) p = (if dst_refused (peer_mem s p) d s then peer_mem s p else (peer_mem s p)\<lparr>dstadr := d\<rparr>)"
  by (auto simp: set_peerdstadr_def Let_def upd_if_def upd_peer_def split: option.split)

section \<open>The association of a packet\<close>

definition findmanycastpeer :: "rbuf \<Rightarrow> peer_state \<Rightarrow> addr option" where
  "findmanycastpeer rb s =
     find (\<lambda>p. MDF_SOLICIT_MASK AND cast_flags (peer_mem s p) \<noteq> 0 \<and> L_ISEQU (pkt_org rb) (aorg (peer_mem s p))) (peer_list s)"

text \<open>The loop of \<^verbatim>\<open>findpeer\<close>: the entry where it stops and its action; \<^verbatim>\<open>AM_ERR\<close> when it returns at once.\<close>

fun findpeer_loop :: "rbuf \<Rightarrow> u_char \<Rightarrow> peer_state \<Rightarrow> addr list \<Rightarrow> (addr option \<times> am_action) option" where
  "findpeer_loop rb pkt_mode s [] = Some (None, AM_NOMATCH)"
| "findpeer_loop rb pkt_mode s (p # ps) =
     (if ADDR_PORT_EQ (recv_srcadr rb) (srcadr (peer_mem s p))
      then do {
        action \<leftarrow> MATCH_ASSOC (hmode (peer_mem s p)) pkt_mode;
        let action = (if MODE_SERVER = pkt_mode \<and> AM_PROCPKT = action \<and> \<not> L_ISEQU (aorg (peer_mem s p)) (pkt_org rb) \<and> findmanycastpeer rb s \<noteq> None
                      then AM_ERR else action);
        if action = AM_ERR then Some (None, AM_ERR)
        else if action \<noteq> AM_NOMATCH then Some (Some p, action)
        else findpeer_loop rb pkt_mode s ps
      }
      else findpeer_loop rb pkt_mode s ps)"

lemma findpeer_loop_in: "findpeer_loop rb m s ps = Some (Some p, a) \<Longrightarrow> p \<in> set ps"
  by (induction ps) (auto simp: Let_def split: if_splits Option.bind_splits)

lemma filter_length_less:
  "p \<in> set l \<Longrightarrow> P p \<Longrightarrow> \<not> Q p \<Longrightarrow> (\<And>q. Q q \<Longrightarrow> P q) \<Longrightarrow> length (filter Q l) < length (filter P l)"
proof (induction l)
  case (Cons a l)
  have "length (filter Q l) \<le> length (filter P l)" using Cons.prems(4) by (induction l) auto
  thus ?case using Cons by (cases "p = a") auto
qed simp

function findpeer :: "rbuf \<Rightarrow> u_char \<Rightarrow> peer_state \<Rightarrow> (addr option \<times> am_action \<times> peer_state) option" where
  "findpeer rb pkt_mode s =
     (let s = s\<lparr>findpeer_calls := findpeer_calls s + 1\<rparr>
      in case findpeer_loop rb pkt_mode s (peer_hash s (NTP_HASH_ADDR (recv_srcadr rb))) of
           None \<Rightarrow> None
         | Some (None, AM_ERR) \<Rightarrow> Some (None, AM_ERR, s)
         | Some (None, _) \<Rightarrow> map_option (\<lambda>action. (None, action, s)) (MATCH_ASSOC NO_PEER pkt_mode)
         | Some (Some p, action) \<Rightarrow>
             if dstadr (peer_mem s p) \<noteq> Some (rdstadr rb)
             then let s' = set_peerdstadr p (Some (rdstadr rb)) s
                  in if dstadr (peer_mem s' p) = Some (rdstadr rb) then findpeer rb pkt_mode s' else Some (Some p, action, s')
             else Some (Some p, action, s))"
  by pat_completeness auto
termination
proof (relation "measure (\<lambda>(rb, _, s). length (filter (\<lambda>p. dstadr (peer_mem s p) \<noteq> Some (rdstadr rb)) (peer_hash s (NTP_HASH_ADDR (recv_srcadr rb)))))")
  fix rb m s0 s s' p a x y
  assume s: "s = s0\<lparr>findpeer_calls := findpeer_calls s0 + 1\<rparr>"
    and l: "findpeer_loop rb m s (peer_hash s (NTP_HASH_ADDR (recv_srcadr rb))) = Some x" "(y, a) = x" "y = Some p"
    and d: "dstadr (peer_mem s p) \<noteq> Some (rdstadr rb)" and s': "s' = set_peerdstadr p (Some (rdstadr rb)) s" "dstadr (peer_mem s' p) = Some (rdstadr rb)"
  let ?l = "peer_hash s0 (NTP_HASH_ADDR (recv_srcadr rb))"
  have "p \<in> set (peer_hash s (NTP_HASH_ADDR (recv_srcadr rb)))" using findpeer_loop_in [of rb m s _ p a] l by simp
  hence p: "p \<in> set ?l" using s by simp
  have le: "dstadr (peer_mem s' q) \<noteq> Some (rdstadr rb) \<Longrightarrow> dstadr (peer_mem s0 q) \<noteq> Some (rdstadr rb)" for q
    using s'(2) set_peerdstadr_mem [of q p "Some (rdstadr rb)" s] s s'(1) by (cases "q = p") auto
  have "length (filter (\<lambda>p. dstadr (peer_mem s' p) \<noteq> Some (rdstadr rb)) ?l) < length (filter (\<lambda>p. dstadr (peer_mem s0 p) \<noteq> Some (rdstadr rb)) ?l)"
    using p d s s'(2) le by (intro filter_length_less [of p]) simp_all
  thus "((rb, m, s'), rb, m, s0) \<in> measure (\<lambda>(rb, _, s). length (filter (\<lambda>p. dstadr (peer_mem s p) \<noteq> Some (rdstadr rb)) (peer_hash s (NTP_HASH_ADDR (recv_srcadr rb)))))"
    using s s'(1) by simp
qed simp

declare findpeer.simps [simp del]

section \<open>Fitness\<close>

definition score :: "peer \<Rightarrow> int" where
  "score q =
     (let temp = 0;
          temp = (if flash q AND TEST10 = 0 then temp + 1 else temp);
          temp = (if flash q AND TEST13 = 0 then temp + 1 else temp);
          temp = (if flash q AND TEST12 = 0 then temp + 1 else temp);
          temp = (if flash q AND TEST11 = 0 then temp + 1 else temp);
          temp = (if status q \<ge> CTL_PST_SEL_SELCAND then temp + 1 else temp);
          temp = (if status q \<noteq> CTL_PST_SEL_EXCESS then temp + 1 else temp)
      in temp)"

definition score_all :: "addr \<Rightarrow> peer_state \<Rightarrow> int" where
  "score_all p s =
     (let tamp = score (peer_mem s p);
          temp = fold (\<lambda>speer temp.
                    if pflags (peer_mem s speer) AND FLAG_PREEMPT \<noteq> 0
                    then let x = score (peer_mem s speer) in if x < temp then x else temp
                    else temp) (peer_list s) 100
      in if tamp \<noteq> temp then 0 else temp)"

definition local_refid :: "penv \<Rightarrow> peer_state \<Rightarrow> peer \<Rightarrow> bool" where
  "local_refid env s q =
     (let unicast_ep = (case dstadr q of
                          Some i \<Rightarrow> if INT_MCASTIF AND if_flags (ifaces s i) = 0 then Some i else findinterface env (srcadr q)
                        | None \<Rightarrow> findinterface env (srcadr q))
      in case unicast_ep of None \<Rightarrow> False | Some i \<Rightarrow> refid q = if_addr_refid (ifaces s i))"

text \<open>The test results, and the peer with its flash bits set to them.\<close>

definition peer_unfit :: "penv \<Rightarrow> peer_state \<Rightarrow> peer \<Rightarrow> u_int32 \<times> peer" where
  "peer_unfit env s q =
     (let rval = 0;
          rval = (if leap q = LEAP_NOTINSYNC \<or> uint (stratum q) < sys_floor env \<or> uint (stratum q) \<ge> sys_ceiling env then rval OR TEST10 else rval);
          rval = (if pflags q AND FLAG_REFCLOCK = 0 \<and> distance_exceeded env q then rval OR TEST11 else rval);
          rval = (if stratum q > 1 \<and> local_refid env s q then rval OR TEST12 else rval);
          rval = (if reach q = 0 \<or> pflags q AND FLAG_NOSELECT \<noteq> 0 then rval OR TEST13 else rval)
      in (rval, q\<lparr>flash := (flash q AND NOT PEER_TEST_MASK) OR rval\<rparr>))"

section \<open>Clearing\<close>

definition fourcc :: "string \<Rightarrow> u_int32" where
  "fourcc cs = foldl (\<lambda>w c. push_bit 8 w OR of_nat (of_char c)) 0 (take 4 cs)"

text \<open>The area of the structure that is set to zero.\<close>

definition clear_to_zero :: "peer \<Rightarrow> peer" where
  "clear_to_zero q = q\<lparr>status := 0, reach := 0, flash := 0, burst := 0, retry := 0, flip := 0, prec := zero_lfp, pxmt := zero_lfp,
     pdst := zero_lfp, aorg := zero_lfp, borg := zero_lfp\<rparr>"

definition peer_clear :: "penv \<Rightarrow> string \<Rightarrow> peer_state \<Rightarrow> peer \<Rightarrow> peer option" where
  "peer_clear env idstr s q =
     (let q = clear_to_zero q;
          q = q\<lparr>ppoll := maxpoll q, hpoll := minpoll q\<rparr>;
          (rval, q) = peer_unfit env s q;
          q = q\<lparr>flash := rval\<rparr>;
          q = (if pflags q AND FLAG_XLEAVE \<noteq> 0 then q\<lparr>flip := 1\<rparr> else q);
          q = (if pflags q AND FLAG_REFCLOCK = 0 then q\<lparr>leap := LEAP_NOTINSYNC, stratum := STRATUM_UNSPEC, refid := fourcc idstr\<rparr> else q);
          q = q\<lparr>nextdate := current_time env, update := current_time env, outdate := current_time env\<rparr>
      in if initializing env then Some (q\<lparr>nextdate := nextdate q + word_of_int (peer_associations s)\<rparr>)
         else if MODE_PASSIVE = hmode q then Some (q\<lparr>nextdate := nextdate q + word_of_int (ntp_minpkt (mon_cf env))\<rparr>)
         else if minpoll q = 0 then None
         else Some (q\<lparr>nextdate := nextdate q + random_clear env mod ucast (minpoll q)\<rparr>))"

fun clear_peers :: "penv \<Rightarrow> string \<Rightarrow> (peer \<Rightarrow> bool) \<Rightarrow> addr list \<Rightarrow> peer_state \<Rightarrow> peer_state option" where
  "clear_peers env idstr P [] s = Some s"
| "clear_peers env idstr P (p # ps) s =
     (if P (peer_mem s p)
      then do { q \<leftarrow> peer_clear env idstr s (peer_mem s p); clear_peers env idstr P ps (upd_peer p (\<lambda>_. q) s) }
      else clear_peers env idstr P ps s)"

definition clear_all :: "penv \<Rightarrow> peer_state \<Rightarrow> peer_state option" where
  "clear_all env s = clear_peers env ''STEP'' (\<lambda>q. MDF_TXONLY_MASK AND cast_flags q = 0) (peer_list s) s"

section \<open>Demobilising\<close>

definition free_peer :: "addr \<Rightarrow> bool \<Rightarrow> peer_state \<Rightarrow> peer_state" where
  "free_peer p unlink_peer s =
     (let s = (if unlink_peer
        then
          let hash = NTP_HASH_ADDR (srcadr (peer_mem s p));
              s = s\<lparr>peer_hash_count := (peer_hash_count s)(hash := s32 (peer_hash_count s hash - 1))\<rparr>;
              s = (if p \<in> set (peer_hash s hash) then s\<lparr>peer_hash := (peer_hash s)(hash := remove1 p (peer_hash s hash))\<rparr>
                   else s\<lparr>peer_hash_count := (peer_hash_count s)(hash := s32 (peer_hash_count s hash + 1))\<rparr>);
              hash = assoc_index (associd (peer_mem s p));
              s = s\<lparr>assoc_hash_count := (assoc_hash_count s)(hash := s32 (assoc_hash_count s hash - 1))\<rparr>;
              s = (if p \<in> set (assoc_hash s hash) then s\<lparr>assoc_hash := (assoc_hash s)(hash := remove1 p (assoc_hash s hash))\<rparr>
                   else s\<lparr>assoc_hash_count := (assoc_hash_count s)(hash := s32 (assoc_hash_count s hash + 1))\<rparr>)
          in s\<lparr>peer_list := remove1 p (peer_list s)\<rparr>
        else s)
      in s\<lparr>peer_mem := (peer_mem s)(p := zero_peer), peer_free := p # peer_free s, peer_free_count := s32 (peer_free_count s + 1)\<rparr>)"

definition unpeer :: "penv \<Rightarrow> addr \<Rightarrow> peer_state \<Rightarrow> peer_state option" where
  "unpeer env p s = do {
     r \<leftarrow> restrict_source (current_time env) (srcadr (peer_mem s p)) True 0 (restricts s);
     let s = set_peerdstadr p None (s\<lparr>restricts := r\<rparr>);
     let s = s\<lparr>peer_demobilizations := peer_demobilizations s + 1, peer_associations := s32 (peer_associations s - 1)\<rparr>;
     let s = (if FLAG_PREEMPT AND pflags (peer_mem s p) \<noteq> 0 then s\<lparr>peer_preempt := s32 (peer_preempt s - 1)\<rparr> else s);
     Some (free_peer p True s)
   }"

section \<open>Mobilising\<close>

definition newpeer_match :: "penv \<Rightarrow> sockaddr_u \<Rightarrow> addr \<Rightarrow> u_char \<Rightarrow> peer \<Rightarrow> bool" where
  "newpeer_match env src d cflags q \<longleftrightarrow>
     dstadr q = Some d \<or> MDF_BCLNT AND cflags \<noteq> 0 \<and> MDF_BCLNT AND cast_flags q \<noteq> 0 \<or>
     Some d = any_interface env src \<and> dstadr q = findinterface env src"

text \<open>
  The loop that looks for an association that a new one would duplicate: each call of \<^verbatim>\<open>findexistingpeer\<close> goes on behind the last one found, in
  the rest of the list, until one matches the destination.
\<close>

fun newpeer_search :: "(addr \<Rightarrow> bool) \<Rightarrow> (addr \<Rightarrow> bool) \<Rightarrow> addr list \<Rightarrow> addr option" where
  "newpeer_search existing matching [] = None"
| "newpeer_search existing matching (p # ps) =
     (if existing p \<and> matching p then Some p else newpeer_search existing matching ps)"

definition newpeer_duplicate :: "penv \<Rightarrow> sockaddr_u \<Rightarrow> string option \<Rightarrow> addr option \<Rightarrow> u_char \<Rightarrow> u_char \<Rightarrow> peer_state \<Rightarrow> addr option" where
  "newpeer_duplicate env src hname d hm cflags s =
     (case d of
        None \<Rightarrow> findexistingpeer src hname None (Some hm) cflags s
      | Some i \<Rightarrow>
          (case hname of
             Some h \<Rightarrow> newpeer_search (\<lambda>p. name_matches h (AF src) (Some hm) (peer_mem s p)) (\<lambda>p. newpeer_match env src i cflags (peer_mem s p)) (peer_list s)
           | None \<Rightarrow> newpeer_search (\<lambda>p. addr_matches src (Some hm) cflags (peer_mem s p)) (\<lambda>p. newpeer_match env src i cflags (peer_mem s p))
               (peer_hash s (NTP_HASH_ADDR src))))"

definition REFCLOCKTYPE :: "sockaddr_u \<Rightarrow> u_char" where
  "REFCLOCKTYPE a = (case a of SA4 v port \<Rightarrow> ucast (drop_bit 8 v) | _ \<Rightarrow> 0)"

definition refclock_newpeer :: "penv \<Rightarrow> peer \<Rightarrow> peer option" where
  "refclock_newpeer env q =
     (if \<not> ISREFCLOCKADR (srcadr q) then None
      else
        let q = q\<lparr>refclktype := REFCLOCKTYPE (srcadr q), pflags := pflags q OR FLAG_REFCLOCK, leap := LEAP_NOTINSYNC, stratum := STRATUM_REFCLOCK, ppoll := maxpoll q\<rparr>;
            q = q\<lparr>pmode := (if hmode q = MODE_ACTIVE then MODE_PASSIVE else MODE_SERVER)\<rparr>
        in clock_start env q)"

definition clamp_minpoll :: "u_char \<Rightarrow> u_char" where
  "clamp_minpoll mn = (if mn = 0 then NTP_MINDPOLL else min mn NTP_MAXPOLL)"

definition clamp_maxpoll :: "u_char \<Rightarrow> u_char" where
  "clamp_maxpoll mx = (if mx = 0 then NTP_MAXDPOLL else max mx NTP_MINPOLL)"

definition newpeer_id :: "u_char \<Rightarrow> string" where
  "newpeer_id cflags =
     (if cflags AND MDF_ACAST \<noteq> 0 then ''ACST'' else if cflags AND MDF_POOL \<noteq> 0 then ''POOL''
      else if cflags AND MDF_MCAST \<noteq> 0 then ''MCST'' else if cflags AND MDF_BCAST \<noteq> 0 then ''BCST'' else ''INIT'')"

text \<open>A structure from the free list, counted, and with the next association identifier.\<close>

definition newpeer_alloc :: "u_int32 \<Rightarrow> peer_state \<Rightarrow> (addr \<times> peer_state) option" where
  "newpeer_alloc fl s =
     (let s = (if peer_free_count s = 0 then getmorepeermem s else s)
      in case peer_free s of
           [] \<Rightarrow> None
         | p # rest \<Rightarrow>
             let s = s\<lparr>peer_free := rest, peer_free_count := s32 (peer_free_count s - 1), peer_associations := s32 (peer_associations s + 1)\<rparr>;
                 s = (if FLAG_PREEMPT AND fl \<noteq> 0 then s\<lparr>peer_preempt := s32 (peer_preempt s + 1)\<rparr> else s);
                 aid = current_association_ID s;
                 s = upd_peer p (\<lambda>q. q\<lparr>associd := aid\<rparr>) s;
                 next = aid + 1;
                 s = s\<lparr>current_association_ID := (if next = 0 then next + 1 else next)\<rparr>
             in Some (p, s))"

text \<open>The fields of the new association, up to its clearing.\<close>

definition newpeer_fields ::
  "penv \<Rightarrow> sockaddr_u \<Rightarrow> string option \<Rightarrow> addr option \<Rightarrow> u_char \<Rightarrow> u_char \<Rightarrow> u_char \<Rightarrow> u_char \<Rightarrow> u_int32 \<Rightarrow> u_char \<Rightarrow> u_int32 \<Rightarrow> keyid_t \<Rightarrow> string option
   \<Rightarrow> addr \<Rightarrow> peer_state \<Rightarrow> peer_state option" where
  "newpeer_fields env src hname d hm vers mn mx fl cflags hops key idn p s =
     (let s = upd_peer p (\<lambda>q. q\<lparr>srcadr := src, hostname := (if hname = None then hostname q else hname), hmode := hm, version := vers, pflags := fl, cast_flags := cflags\<rparr>) s;
          s = set_peerdstadr p (select_peerinterface env (peer_mem s p) src d) s;
          s = upd_peer p (\<lambda>q. q\<lparr>minpoll := clamp_minpoll mn, maxpoll := clamp_maxpoll mx\<rparr>) s;
          s = upd_peer p (\<lambda>q. if minpoll q > maxpoll q then q\<lparr>minpoll := maxpoll q\<rparr> else q) s;
          s = upd_peer p (\<lambda>q. q\<lparr>ttl := hops, pkeyid := key, ident := (if idn = None then ident q else idn), precision := sys_precision env, hpoll := minpoll q\<rparr>) s
      in do {
        q \<leftarrow> peer_clear env (newpeer_id cflags) s (peer_mem s p);
        let s = upd_peer p (\<lambda>_. q\<lparr>timereset := current_time env, timereachable := current_time env, timereceived := current_time env\<rparr>) s;
        Some (if mode_ntpdate env then s\<lparr>peer_ntpdate := s32 (peer_ntpdate s + 1)\<rparr> else s)
      })"

definition newpeer_link :: "addr \<Rightarrow> peer_state \<Rightarrow> peer_state" where
  "newpeer_link p s =
     (let hash = NTP_HASH_ADDR (srcadr (peer_mem s p));
          s = s\<lparr>peer_hash := (peer_hash s)(hash := p # peer_hash s hash), peer_hash_count := (peer_hash_count s)(hash := s32 (peer_hash_count s hash + 1))\<rparr>;
          hash = assoc_index (associd (peer_mem s p));
          s = s\<lparr>assoc_hash := (assoc_hash s)(hash := p # assoc_hash s hash), assoc_hash_count := (assoc_hash_count s)(hash := s32 (assoc_hash_count s hash + 1))\<rparr>
      in s\<lparr>peer_list := p # peer_list s\<rparr>)"

definition newpeer ::
  "penv \<Rightarrow> sockaddr_u \<Rightarrow> string option \<Rightarrow> addr option \<Rightarrow> u_char \<Rightarrow> u_char \<Rightarrow> u_char \<Rightarrow> u_char \<Rightarrow> u_int32 \<Rightarrow> u_char \<Rightarrow> u_int32 \<Rightarrow> keyid_t \<Rightarrow> string option
   \<Rightarrow> peer_state \<Rightarrow> (addr option \<times> peer_state) option" where
  "newpeer env src hname d hm vers mn mx fl cflags hops key idn s =
     (if \<not> (hname = None \<or> MDF_POOL AND cflags \<noteq> 0) then None
      else if newpeer_duplicate env src hname d hm cflags s \<noteq> None then Some (None, s)
      else do {
        (p, s) \<leftarrow> newpeer_alloc fl s;
        s \<leftarrow> newpeer_fields env src hname d hm vers mn mx fl cflags hops key idn p s;
        let q = (let q = peer_mem s p in if ISREFCLOCKADR (srcadr q) then refclock_newpeer env (if mx = 0 then q\<lparr>maxpoll := minpoll q\<rparr> else q) else Some q);
        case q of
          None \<Rightarrow> Some (None, free_peer p False (set_peerdstadr p None s))
        | Some q \<Rightarrow> do {
            let s = newpeer_link p (upd_peer p (\<lambda>_. q) s);
            r \<leftarrow> restrict_source (current_time env) (srcadr (peer_mem s p)) False 0 (restricts s);
            Some (Some p, s\<lparr>restricts := r\<rparr>)
          }
      })"

definition peer_config ::
  "penv \<Rightarrow> sockaddr_u \<Rightarrow> string option \<Rightarrow> addr option \<Rightarrow> u_char \<Rightarrow> u_char \<Rightarrow> u_char \<Rightarrow> u_char \<Rightarrow> u_int32 \<Rightarrow> u_int32 \<Rightarrow> keyid_t \<Rightarrow> string option
   \<Rightarrow> peer_state \<Rightarrow> (addr option \<times> peer_state) option" where
  "peer_config env src hname d hm vers mn mx fl hops key idn s =
     (let cflags = (if hm = MODE_BROADCAST then (if IS_MCAST src then MDF_MCAST else MDF_BCAST)
                    else if hm = MODE_CLIENT then (if hname \<noteq> None \<and> SOCK_UNSPEC src then MDF_POOL else if IS_MCAST src then MDF_ACAST else MDF_UCAST)
                    else MDF_UCAST);
          fl = fl OR FLAG_CONFIG;
          fl = (if mode_ntpdate env then fl OR FLAG_IBURST else fl);
          fl = (if (MDF_ACAST OR MDF_POOL) AND cflags \<noteq> 0 then fl AND NOT FLAG_PREEMPT else fl)
      in newpeer env src hname d hm vers mn mx fl cflags hops key idn s)"

section \<open>Housekeeping\<close>

definition peer_refresh_interface :: "penv \<Rightarrow> addr \<Rightarrow> peer_state \<Rightarrow> peer_state option" where
  "peer_refresh_interface env p s =
     (let niface = select_peerinterface env (peer_mem s p) (srcadr (peer_mem s p)) None;
          piface = dstadr (peer_mem s p);
          s = set_peerdstadr p niface s;
          q = peer_mem s p
      in if dstadr q \<noteq> None \<and> dstadr q \<noteq> piface \<and> MDF_ACAST AND cast_flags q = 0 \<and> MODE_BROADCAST \<noteq> pmode q
         then map_option (\<lambda>q. upd_peer p (\<lambda>_. q) s) (peer_clear env ''XFAC'' s q)
         else Some s)"

fun refresh_peers :: "penv \<Rightarrow> addr list \<Rightarrow> peer_state \<Rightarrow> peer_state option" where
  "refresh_peers env [] s = Some s"
| "refresh_peers env (p # ps) s = do { s \<leftarrow> peer_refresh_interface env p s; refresh_peers env ps s }"

definition refresh_all_peerinterfaces :: "penv \<Rightarrow> peer_state \<Rightarrow> peer_state option" where
  "refresh_all_peerinterfaces env s = refresh_peers env (peer_list s) s"

definition peer_clr_stats :: "penv \<Rightarrow> peer_state \<Rightarrow> peer_state" where
  "peer_clr_stats env s = s\<lparr>findpeer_calls := 0, assocpeer_calls := 0, peer_allocations := 0, peer_demobilizations := 0, peer_timereset := current_time env\<rparr>"

definition peer_reset :: "penv \<Rightarrow> addr option \<Rightarrow> peer_state \<Rightarrow> peer_state" where
  "peer_reset env p s =
     (case p of
        None \<Rightarrow> s
      | Some p \<Rightarrow> upd_peer p (\<lambda>q. q\<lparr>timereset := current_time env, sent := 0, received := 0, processed := 0, badauth := 0, bogusorg := 0, oldpkt := 0,
          seldisptoolarge := 0, selbroken := 0\<rparr>) s)"

definition peer_all_reset :: "penv \<Rightarrow> peer_state \<Rightarrow> peer_state" where
  "peer_all_reset env s = fold (\<lambda>p. peer_reset env (Some p)) (peer_list s) s"

section \<open>Invariant\<close>

text \<open>
  Every structure is on the list, on the free list, or one of \<open>D\<close>, the structures in between; the chains of the hash tables are the
  list, filtered, in its order; the list of an interface holds the peers with its address.
\<close>

definition peer_owned :: "addr list \<Rightarrow> peer_state \<Rightarrow> bool" where
  "peer_owned D s \<longleftrightarrow> distinct (peer_list s @ peer_free s @ D) \<and> set (peer_list s @ peer_free s @ D) = {..<peer_fresh s} \<and>
     (\<forall>p \<in> set (peer_free s). peer_mem s p = zero_peer) \<and>
     peer_free_count s = s32 (int (length (peer_free s))) \<and> total_peer_structs s = s32 (int (peer_fresh s))"

definition peer_tables :: "peer_state \<Rightarrow> bool" where
  "peer_tables s \<longleftrightarrow>
     (\<forall>h. peer_hash s h = filter (\<lambda>p. NTP_HASH_ADDR (srcadr (peer_mem s p)) = h) (peer_list s) \<and> peer_hash_count s h = s32 (int (length (peer_hash s h)))) \<and>
     (\<forall>h. assoc_hash s h = filter (\<lambda>p. assoc_index (associd (peer_mem s p)) = h) (peer_list s) \<and> assoc_hash_count s h = s32 (int (length (assoc_hash s h))))"

definition peer_ifs :: "addr list \<Rightarrow> peer_state \<Rightarrow> bool" where
  "peer_ifs D s \<longleftrightarrow>
     (\<forall>i. distinct (if_peers (ifaces s i)) \<and> set (if_peers (ifaces s i)) = {p \<in> set (peer_list s @ D). dstadr (peer_mem s p) = Some i} \<and>
          if_peercnt (ifaces s i) = of_nat (length (if_peers (ifaces s i))))"

definition peer_fit :: "peer \<Rightarrow> bool" where
  "peer_fit q \<longleftrightarrow> unat (hmode q) < 7 \<and> associd q \<noteq> 0 \<and> minpoll q \<noteq> 0"

definition peer_ok :: "addr list \<Rightarrow> peer_state \<Rightarrow> bool" where
  "peer_ok D s \<longleftrightarrow> peer_owned D s \<and> peer_tables s \<and> peer_ifs D s \<and> (\<forall>p \<in> set (peer_list s). peer_fit (peer_mem s p)) \<and>
     current_association_ID s \<noteq> 0 \<and> res_wf (restricts s)"

text \<open>What the invariant depends on of the structures themselves.\<close>

definition peer_key :: "peer \<Rightarrow> sockaddr_u \<times> u_short \<times> addr option" where
  "peer_key q = (srcadr q, associd q, dstadr q)"

lemma upd_peer_sel [simp]:
  "peer_hash (upd_peer p f s) = peer_hash s" "assoc_hash (upd_peer p f s) = assoc_hash s" "peer_list (upd_peer p f s) = peer_list s"
  "peer_hash_count (upd_peer p f s) = peer_hash_count s" "assoc_hash_count (upd_peer p f s) = assoc_hash_count s"
  "peer_free (upd_peer p f s) = peer_free s" "peer_fresh (upd_peer p f s) = peer_fresh s" "peer_free_count (upd_peer p f s) = peer_free_count s"
  "total_peer_structs (upd_peer p f s) = total_peer_structs s" "peer_associations (upd_peer p f s) = peer_associations s"
  "peer_preempt (upd_peer p f s) = peer_preempt s" "current_association_ID (upd_peer p f s) = current_association_ID s"
  "restricts (upd_peer p f s) = restricts s" "ifaces (upd_peer p f s) = ifaces s" "findpeer_calls (upd_peer p f s) = findpeer_calls s"
  "peer_mem (upd_peer p f s) = (peer_mem s)(p := f (peer_mem s p))"
  by (simp_all add: upd_peer_def)

lemma peer_tables_cong:
  assumes "peer_tables s" "peer_list s' = peer_list s" "peer_hash s' = peer_hash s" "assoc_hash s' = assoc_hash s"
    and "peer_hash_count s' = peer_hash_count s" "assoc_hash_count s' = assoc_hash_count s"
    and "\<forall>q \<in> set (peer_list s). srcadr (peer_mem s' q) = srcadr (peer_mem s q) \<and> associd (peer_mem s' q) = associd (peer_mem s q)"
  shows "peer_tables s'"
proof -
  have "filter (\<lambda>p. NTP_HASH_ADDR (srcadr (peer_mem s' p)) = h) (peer_list s) = filter (\<lambda>p. NTP_HASH_ADDR (srcadr (peer_mem s p)) = h) (peer_list s)"
    "filter (\<lambda>p. assoc_index (associd (peer_mem s' p)) = h) (peer_list s) = filter (\<lambda>p. assoc_index (associd (peer_mem s p)) = h) (peer_list s)" for h
    using assms(7) by (auto intro!: filter_cong)
  thus ?thesis using assms(1-6) by (simp add: peer_tables_def)
qed

text \<open>A state that differs only in the other fields of structures in use, in the counters, or in sorted restrictions.\<close>

lemma peer_ok_cong:
  assumes "peer_ok D s"
    and "peer_list s' = peer_list s" "peer_free s' = peer_free s" "peer_fresh s' = peer_fresh s" "peer_hash s' = peer_hash s" "assoc_hash s' = assoc_hash s"
    and "peer_hash_count s' = peer_hash_count s" "assoc_hash_count s' = assoc_hash_count s" "peer_free_count s' = peer_free_count s"
    and "total_peer_structs s' = total_peer_structs s" "ifaces s' = ifaces s" "current_association_ID s' = current_association_ID s" "res_wf (restricts s')"
    and "\<forall>p \<in> set (peer_list s). peer_key (peer_mem s' p) = peer_key (peer_mem s p)" "\<forall>p \<in> set D. dstadr (peer_mem s' p) = dstadr (peer_mem s p)"
    and "\<forall>p \<in> set (peer_free s). peer_mem s' p = zero_peer" "\<forall>p \<in> set (peer_list s). peer_fit (peer_mem s' p)"
  shows "peer_ok D s'"
proof -
  have d: "dstadr (peer_mem s' p) = dstadr (peer_mem s p)" if "p \<in> set (peer_list s @ D)" for p using assms(14,15) that by (auto simp: peer_key_def)
  have "\<forall>q \<in> set (peer_list s). srcadr (peer_mem s' q) = srcadr (peer_mem s q) \<and> associd (peer_mem s' q) = associd (peer_mem s q)"
    using assms(14) by (simp add: peer_key_def)
  hence "peer_tables s'" using assms(1) peer_tables_cong [OF _ assms(2,5-8)] by (simp add: peer_ok_def)
  moreover have "{p \<in> set (peer_list s @ D). dstadr (peer_mem s' p) = Some i} = {p \<in> set (peer_list s @ D). dstadr (peer_mem s p) = Some i}" for i
    using d by auto
  hence "peer_ifs D s'" using assms(1-12) by (simp add: peer_ok_def peer_ifs_def)
  ultimately show ?thesis using assms by (simp add: peer_ok_def peer_owned_def)
qed

lemma upd_peer_ok:
  assumes "peer_ok D s" "p \<in> set (peer_list s @ D)" "dstadr (f (peer_mem s p)) = dstadr (peer_mem s p)"
    and "p \<in> set (peer_list s) \<longrightarrow> peer_key (f (peer_mem s p)) = peer_key (peer_mem s p) \<and> peer_fit (f (peer_mem s p))"
  shows "peer_ok D (upd_peer p f s)"
proof -
  have "p \<notin> set (peer_free s)" using assms(1,2) by (auto simp: peer_ok_def peer_owned_def)
  thus ?thesis using assms by (intro peer_ok_cong [OF assms(1)]) (auto simp: peer_ok_def peer_owned_def)
qed

text \<open>The interface lists under \<^verbatim>\<open>set_peerdstadr\<close>.\<close>

lemma set_peerdstadr_ifaces:
  assumes "\<not> dst_refused (peer_mem s p) d s" "dstadr (peer_mem s p) \<noteq> d"
  shows "if_peers (ifaces (set_peerdstadr p d s) i) =
      (if d = Some i then p # if_peers (ifaces s i) else if dstadr (peer_mem s p) = Some i then remove1 p (if_peers (ifaces s i)) else if_peers (ifaces s i))"
    and "if_peercnt (ifaces (set_peerdstadr p d s) i) =
      (if d = Some i then if_peercnt (ifaces s i) + 1 else if dstadr (peer_mem s p) = Some i then if_peercnt (ifaces s i) - 1 else if_peercnt (ifaces s i))"
  using assms by (auto simp: set_peerdstadr_def Let_def upd_if_def upd_peer_def split: option.split)

lemma set_peerdstadr_same:
  assumes "dst_refused (peer_mem s p) d s \<or> dstadr (peer_mem s p) = d"
  shows "set_peerdstadr p d s = s"
  using assms by (auto simp: set_peerdstadr_def Let_def)

lemma set_peerdstadr_ok:
  assumes "peer_ok D s" "p \<in> set (peer_list s @ D)"
  shows "peer_ok D (set_peerdstadr p d s)"
proof (cases "dst_refused (peer_mem s p) d s \<or> dstadr (peer_mem s p) = d")
  case True
  thus ?thesis using set_peerdstadr_same assms(1) by metis
next
  case False
  let ?s = "set_peerdstadr p d s"
  have pm: "peer_mem ?s = (peer_mem s)(p := (peer_mem s p)\<lparr>dstadr := d\<rparr>)"
    using set_peerdstadr_self [of p d s] set_peerdstadr_mem False by (intro ext) auto
  have pf: "p \<notin> set (peer_free s)" using assms by (auto simp: peer_ok_def peer_owned_def)
  have eq: "srcadr (peer_mem ?s q) = srcadr (peer_mem s q)" "associd (peer_mem ?s q) = associd (peer_mem s q)" "peer_fit (peer_mem ?s q) = peer_fit (peer_mem s q)" for q
    by (simp_all add: pm peer_fit_def)
  have dm: "dstadr (peer_mem ?s q) = (if q = p then d else dstadr (peer_mem s q))" for q by (simp add: pm)
  have i: "distinct (if_peers (ifaces s i))" "set (if_peers (ifaces s i)) = {p \<in> set (peer_list s @ D). dstadr (peer_mem s p) = Some i}"
    "if_peercnt (ifaces s i) = of_nat (length (if_peers (ifaces s i)))" for i using assms(1) by (auto simp: peer_ok_def peer_ifs_def)
  have "distinct (if_peers (ifaces ?s i)) \<and> set (if_peers (ifaces ?s i)) = {q \<in> set (peer_list s @ D). dstadr (peer_mem ?s q) = Some i} \<and>
    if_peercnt (ifaces ?s i) = of_nat (length (if_peers (ifaces ?s i)))" for i
  proof -
    note f = set_peerdstadr_ifaces [of s p d i]
    consider "d = Some i" | "d \<noteq> Some i" "dstadr (peer_mem s p) = Some i" | "d \<noteq> Some i" "dstadr (peer_mem s p) \<noteq> Some i" by blast
    thus ?thesis
    proof cases
      case 1
      have l: "if_peers (ifaces ?s i) = p # if_peers (ifaces s i)" "if_peercnt (ifaces ?s i) = if_peercnt (ifaces s i) + 1" using f False 1 by simp_all
      have p: "p \<notin> set (if_peers (ifaces s i))" using i [of i] 1 False by simp
      have "set (if_peers (ifaces ?s i)) = {q \<in> set (peer_list s @ D). dstadr (peer_mem ?s q) = Some i}" unfolding l dm using i(2) [of i] assms(2) 1 by auto
      thus ?thesis using i [of i] p by (simp add: l)
    next
      case 2
      have p: "p \<in> set (if_peers (ifaces s i))" using i [of i] 2 assms(2) by simp
      hence "length (if_peers (ifaces s i)) = Suc (length (remove1 p (if_peers (ifaces s i))))" using length_pos_if_in_set [OF p] by (simp add: length_remove1)
      hence c: "(of_nat (length (if_peers (ifaces s i))) :: u_int32) = of_nat (length (remove1 p (if_peers (ifaces s i)))) + 1" by simp
      have l: "if_peers (ifaces ?s i) = remove1 p (if_peers (ifaces s i))" "if_peercnt (ifaces ?s i) = if_peercnt (ifaces s i) - 1" using f False 2 by simp_all
      have "set (if_peers (ifaces ?s i)) = {q \<in> set (peer_list s @ D). dstadr (peer_mem ?s q) = Some i}" unfolding l dm using i(1,2) [of i] 2 by auto
      thus ?thesis using i [of i] c by (simp add: l)
    next
      case 3
      have l: "if_peers (ifaces ?s i) = if_peers (ifaces s i)" "if_peercnt (ifaces ?s i) = if_peercnt (ifaces s i)" using f False 3 by simp_all
      have "set (if_peers (ifaces ?s i)) = {q \<in> set (peer_list s @ D). dstadr (peer_mem ?s q) = Some i}" unfolding l dm using i(2) [of i] 3 by auto
      thus ?thesis using i [of i] by (simp add: l)
    qed
  qed
  hence "peer_ifs D ?s" by (simp add: peer_ifs_def)
  moreover have "peer_owned D ?s" using assms(1) pf by (auto simp: peer_ok_def peer_owned_def pm)
  moreover have "peer_tables ?s" using assms(1) by (simp add: peer_ok_def peer_tables_def eq)
  ultimately show ?thesis using assms(1) by (simp add: peer_ok_def eq)
qed


section \<open>The operations keep it\<close>

lemma getmorepeermem_ok:
  assumes "peer_ok D s"
  shows "peer_ok D (getmorepeermem s)"
proof -
  have o: "set (peer_list s @ peer_free s @ D) = {..<peer_fresh s}" using assms by (simp add: peer_ok_def peer_owned_def)
  have m: "peer_mem (getmorepeermem s) p = peer_mem s p" if "p \<in> set (peer_list s @ peer_free s @ D)" for p
    using that unfolding o by (auto simp: getmorepeermem_def Let_def)
  have i: "ifaces (getmorepeermem s) = ifaces s" "peer_list (getmorepeermem s) = peer_list s" "peer_hash (getmorepeermem s) = peer_hash s" "assoc_hash (getmorepeermem s) = assoc_hash s"
    "peer_hash_count (getmorepeermem s) = peer_hash_count s" "assoc_hash_count (getmorepeermem s) = assoc_hash_count s"
    "current_association_ID (getmorepeermem s) = current_association_ID s" "restricts (getmorepeermem s) = restricts s"
    by (simp_all add: getmorepeermem_def Let_def)
  have "peer_tables (getmorepeermem s)" using assms m by (simp add: peer_ok_def peer_tables_def i cong: filter_cong)
  moreover have "{p \<in> set (peer_list s @ D). dstadr (peer_mem (getmorepeermem s) p) = Some i} = {p \<in> set (peer_list s @ D). dstadr (peer_mem s p) = Some i}" for i
    using m by auto
  hence "peer_ifs D (getmorepeermem s)" using assms by (simp add: peer_ok_def peer_ifs_def i)
  moreover have "peer_owned D (getmorepeermem s)"
  proof -
    let ?n = "[peer_fresh s..<peer_fresh s + INC_PEER_ALLOC]"
    have f: "peer_free (getmorepeermem s) = ?n @ peer_free s" "peer_fresh (getmorepeermem s) = peer_fresh s + INC_PEER_ALLOC"
      by (simp_all add: getmorepeermem_def Let_def)
    have d: "distinct (peer_list s @ peer_free s @ D)" using assms by (simp add: peer_ok_def peer_owned_def)
    have b: "p < peer_fresh s" if "p \<in> set (peer_list s @ peer_free s @ D)" for p using that o by blast
    hence n: "set ?n \<inter> set (peer_list s @ peer_free s @ D) = {}" by fastforce
    have "distinct (peer_list s @ (?n @ peer_free s) @ D)" using d n by auto
    moreover have "set (peer_list s @ (?n @ peer_free s) @ D) = set ?n \<union> {..<peer_fresh s}" using o by auto
    moreover have "set ?n \<union> {..<peer_fresh s} = {..<peer_fresh s + INC_PEER_ALLOC}" by auto
    moreover have "peer_mem (getmorepeermem s) p = zero_peer" if "p \<in> set (?n @ peer_free s)" for p
      using that m [of p] assms by (cases "p \<in> set ?n") (auto simp: getmorepeermem_def Let_def peer_ok_def peer_owned_def)
    moreover have "peer_free_count (getmorepeermem s) = s32 (int (length (?n @ peer_free s)))"
      "total_peer_structs (getmorepeermem s) = s32 (int (peer_fresh s + INC_PEER_ALLOC))"
      using assms by (simp_all add: getmorepeermem_def Let_def peer_ok_def peer_owned_def ac_simps)
    ultimately show ?thesis unfolding peer_owned_def f i by metis
  qed
  moreover have "\<forall>p \<in> set (peer_list s). peer_fit (peer_mem (getmorepeermem s) p)" using assms m by (simp add: peer_ok_def)
  ultimately show ?thesis using assms by (simp add: peer_ok_def i)
qed

lemma s32_diff_left [simp]: "s32 (s32 x - y) = s32 (x - y)"
  using s32_add_left [of x "- y"] by simp

text \<open>What a step keeps of the rest of the state.\<close>

definition peer_frame :: "peer_state \<Rightarrow> peer_state \<Rightarrow> bool" where
  "peer_frame s s' \<longleftrightarrow> peer_list s' = peer_list s \<and> peer_hash s' = peer_hash s \<and> assoc_hash s' = assoc_hash s \<and> restricts s' = restricts s \<and>
     (\<forall>q \<in> set (peer_list s). peer_mem s' q = peer_mem s q)"

lemma peer_frame_refl [simp]: "peer_frame s s" and peer_frame_trans: "peer_frame s t \<Longrightarrow> peer_frame t u \<Longrightarrow> peer_frame s u"
  by (auto simp: peer_frame_def)

lemma getmorepeermem_frame: "peer_ok D s \<Longrightarrow> peer_frame s (getmorepeermem s) \<and> ifaces (getmorepeermem s) = ifaces s \<and>
    current_association_ID (getmorepeermem s) = current_association_ID s \<and> peer_associations (getmorepeermem s) = peer_associations s \<and> peer_free (getmorepeermem s) \<noteq> []"
  by (auto simp: peer_frame_def getmorepeermem_def Let_def peer_ok_def peer_owned_def INC_PEER_ALLOC_def dest!: equalityD1)

lemma free_alloc_ok:
  assumes "peer_ok [] s" "peer_free s = p # rest"
  shows "peer_ok [p] (s\<lparr>peer_free := rest, peer_free_count := s32 (peer_free_count s - 1)\<rparr>)"
proof -
  have "dstadr (peer_mem s p) = None" using assms by (simp add: peer_ok_def peer_owned_def zero_peer_def)
  thus ?thesis using assms by (auto simp: peer_ok_def peer_owned_def peer_tables_def peer_ifs_def)
qed

lemma newpeer_alloc_ok:
  assumes "peer_ok [] s"
  shows "\<exists>p s'. newpeer_alloc fl s = Some (p, s') \<and> peer_ok [p] s' \<and> peer_frame s s' \<and> p \<notin> set (peer_list s) \<and> ifaces s' = ifaces s \<and>
    peer_mem s' p = zero_peer\<lparr>associd := current_association_ID s\<rparr> \<and> peer_associations s' = s32 (peer_associations s + 1)"
proof -
  define t where "t = (if peer_free_count s = 0 then getmorepeermem s else s)"
  have t: "peer_ok [] t" "peer_frame s t" "ifaces t = ifaces s" "current_association_ID t = current_association_ID s" "peer_associations t = peer_associations s"
    using assms getmorepeermem_ok getmorepeermem_frame by (auto simp: t_def)
  have "peer_free t \<noteq> []"
    using assms getmorepeermem_frame [OF assms] by (cases "peer_free s") (auto simp: t_def peer_ok_def peer_owned_def s32_def)
  then obtain p rest where f: "peer_free t = p # rest" by (cases "peer_free t") auto
  define u where "u = t\<lparr>peer_free := rest, peer_free_count := s32 (peer_free_count t - 1), peer_associations := s32 (peer_associations t + 1)\<rparr>"
  define v where "v = (if FLAG_PREEMPT AND fl \<noteq> 0 then u\<lparr>peer_preempt := s32 (peer_preempt u + 1)\<rparr> else u)"
  define w where "w = upd_peer p (\<lambda>q. q\<lparr>associd := current_association_ID s\<rparr>) v"
  define x where "x = w\<lparr>current_association_ID := (if current_association_ID s + 1 = 0 then current_association_ID s + 1 + 1 else current_association_ID s + 1)\<rparr>"
  have fr: "p \<notin> set (peer_list t)" "peer_mem t p = zero_peer" using t(1) f by (auto simp: peer_ok_def peer_owned_def)
  have "newpeer_alloc fl s = Some (p, x)"
    using f t(4) by (simp add: newpeer_alloc_def Let_def x_def w_def v_def u_def flip: t_def)
  moreover have "peer_ok [p] u" using free_alloc_ok [OF t(1) f] by (simp add: u_def peer_ok_def peer_owned_def peer_tables_def peer_ifs_def)
  hence "peer_ok [p] v" by (simp add: v_def peer_ok_def peer_owned_def peer_tables_def peer_ifs_def)
  hence "peer_ok [p] w" using fr(1) unfolding w_def by (intro upd_peer_ok) (simp_all add: v_def u_def)
  hence "peer_ok [p] x" by (auto simp: x_def peer_ok_def peer_owned_def peer_tables_def peer_ifs_def)
  moreover have "peer_frame t x" "ifaces x = ifaces t" "peer_mem x p = zero_peer\<lparr>associd := current_association_ID s\<rparr>" "peer_associations x = s32 (peer_associations s + 1)"
    using fr t(5) by (auto simp: peer_frame_def x_def w_def v_def u_def)
  moreover have "p \<notin> set (peer_list s)" using fr(1) t(2) by (simp add: peer_frame_def)
  moreover have "peer_frame s x" if "peer_frame t x" using peer_frame_trans t(2) that by blast
  ultimately show ?thesis using t(3) by simp
qed

lemma peer_clear_ok:
  assumes "minpoll q \<noteq> 0"
  shows "\<exists>q'. peer_clear env i s q = Some q' \<and> peer_key q' = peer_key q \<and> hmode q' = hmode q \<and> minpoll q' = minpoll q \<and> maxpoll q' = maxpoll q \<and>
    pflags q' = pflags q \<and> cast_flags q' = cast_flags q \<and> version q' = version q \<and> ttl q' = ttl q \<and> pkeyid q' = pkeyid q \<and> hostname q' = hostname q \<and>
    hpoll q' = minpoll q \<and> ppoll q' = maxpoll q \<and> reach q' = 0 \<and> aorg q' = zero_lfp \<and> pxmt q' = zero_lfp"
proof -
  obtain r where "peer_unfit env s ((clear_to_zero q)\<lparr>ppoll := maxpoll (clear_to_zero q), hpoll := minpoll (clear_to_zero q)\<rparr>) =
      (r, (clear_to_zero q)\<lparr>ppoll := maxpoll q, hpoll := minpoll q, flash := r\<rparr>)"
    by (simp add: peer_unfit_def clear_to_zero_def Let_def)
  thus ?thesis using assms unfolding peer_clear_def Let_def by (simp add: clear_to_zero_def peer_key_def)
qed

lemma peer_clear_fit: "minpoll q \<noteq> 0 \<Longrightarrow> \<exists>q'. peer_clear env i s q = Some q' \<and> peer_key q' = peer_key q \<and> peer_fit q' = peer_fit q"
  using peer_clear_ok [of q env i s] by (auto simp: peer_fit_def peer_key_def)

lemma newpeer_link_ok:
  assumes "peer_ok [p] s" "peer_fit (peer_mem s p)"
  shows "peer_ok [] (newpeer_link p s)"
proof -
  have p: "p \<notin> set (peer_list s)" using assms(1) by (auto simp: peer_ok_def peer_owned_def)
  have "peer_owned [] (newpeer_link p s)" using assms(1) by (auto simp: peer_ok_def peer_owned_def newpeer_link_def Let_def)
  moreover have "peer_tables (newpeer_link p s)" using assms(1) by (auto simp: peer_ok_def peer_tables_def newpeer_link_def Let_def ac_simps)
  moreover have "peer_ifs [] (newpeer_link p s)" using assms(1) by (auto simp: peer_ok_def peer_ifs_def newpeer_link_def Let_def)
  ultimately show ?thesis using assms by (simp add: peer_ok_def newpeer_link_def Let_def)
qed

lemma clamp_polls: "clamp_minpoll mn \<noteq> 0" "clamp_minpoll mn \<le> NTP_MAXPOLL" "NTP_MINPOLL \<le> clamp_maxpoll mx"
  by (auto simp: clamp_minpoll_def clamp_maxpoll_def NTP_MINDPOLL_def NTP_MAXPOLL_def NTP_MAXDPOLL_def NTP_MINPOLL_def min_def)

definition new_minpoll :: "u_char \<Rightarrow> u_char \<Rightarrow> u_char" where
  "new_minpoll mn mx = min (clamp_minpoll mn) (clamp_maxpoll mx)"

lemma new_minpoll_pos: "new_minpoll mn mx \<noteq> 0"
  using clamp_polls(1) [of mn] clamp_polls(3) [of mx] by (auto simp: new_minpoll_def min_def NTP_MINPOLL_def)

text \<open>What the structure of a new association holds.\<close>

definition new_assoc :: "sockaddr_u \<Rightarrow> string option \<Rightarrow> u_char \<Rightarrow> u_char \<Rightarrow> u_char \<Rightarrow> u_char \<Rightarrow> u_int32 \<Rightarrow> u_char \<Rightarrow> u_int32 \<Rightarrow> keyid_t \<Rightarrow> u_short \<Rightarrow> peer \<Rightarrow> bool" where
  "new_assoc src hname hm vers mn mx fl cflags hops key aid q \<longleftrightarrow> srcadr q = src \<and> hostname q = hname \<and> hmode q = hm \<and> version q = vers \<and> minpoll q = mn \<and>
     maxpoll q = mx \<and> pflags q = fl \<and> cast_flags q = cflags \<and> ttl q = hops \<and> pkeyid q = key \<and> associd q = aid \<and> hpoll q = mn \<and> ppoll q = mx \<and>
     reach q = 0 \<and> aorg q = zero_lfp \<and> pxmt q = zero_lfp"

lemma newpeer_fields_ok:
  assumes "peer_ok [p] s" "peer_mem s p = zero_peer\<lparr>associd := aid\<rparr>"
  shows "\<exists>s'. newpeer_fields env src hname d hm vers mn mx fl cflags hops key idn p s = Some s' \<and> peer_ok [p] s' \<and> peer_frame s s' \<and>
    peer_associations s' = peer_associations s \<and>
    new_assoc src hname hm vers (new_minpoll mn mx) (clamp_maxpoll mx) fl cflags hops key aid (peer_mem s' p)"
proof -
  have pn: "p \<notin> set (peer_list s)" using assms(1) by (auto simp: peer_ok_def peer_owned_def)
  define s1 where "s1 = upd_peer p (\<lambda>q. q\<lparr>srcadr := src, hostname := (if hname = None then hostname q else hname), hmode := hm, version := vers, pflags := fl, cast_flags := cflags\<rparr>) s"
  define s2 where "s2 = set_peerdstadr p (select_peerinterface env (peer_mem s1 p) src d) s1"
  define s3 where "s3 = upd_peer p (\<lambda>q. q\<lparr>minpoll := clamp_minpoll mn, maxpoll := clamp_maxpoll mx\<rparr>) s2"
  define s4 where "s4 = upd_peer p (\<lambda>q. if minpoll q > maxpoll q then q\<lparr>minpoll := maxpoll q\<rparr> else q) s3"
  define s5 where "s5 = upd_peer p (\<lambda>q. q\<lparr>ttl := hops, pkeyid := key, ident := (if idn = None then ident q else idn), precision := sys_precision env, hpoll := minpoll q\<rparr>) s4"
  have l: "peer_list s1 = peer_list s" "peer_list s2 = peer_list s" "peer_list s3 = peer_list s" "peer_list s4 = peer_list s" "peer_list s5 = peer_list s"
    by (simp_all add: s1_def s2_def s3_def s4_def s5_def)
  have "peer_ok [p] s1" unfolding s1_def using assms(1) pn by (intro upd_peer_ok) simp_all
  hence "peer_ok [p] s2" unfolding s2_def by (rule set_peerdstadr_ok) simp
  hence "peer_ok [p] s3" unfolding s3_def using pn l by (intro upd_peer_ok) simp_all
  hence "peer_ok [p] s4" unfolding s4_def using pn l by (intro upd_peer_ok) simp_all
  hence ok: "peer_ok [p] s5" unfolding s5_def using pn l by (intro upd_peer_ok) simp_all
  have fr: "peer_frame s s5" "peer_associations s5 = peer_associations s" using pn set_peerdstadr_mem by (auto simp: peer_frame_def s1_def s2_def s3_def s4_def s5_def)
  obtain d' where m2: "peer_mem s2 p = (peer_mem s1 p)\<lparr>dstadr := d'\<rparr>"
  proof -
    have "peer_mem s1 p = (peer_mem s1 p)\<lparr>dstadr := dstadr (peer_mem s1 p)\<rparr>" by simp
    thus ?thesis using that unfolding s2_def set_peerdstadr_self by metis
  qed
  have m5: "minpoll (peer_mem s5 p) = new_minpoll mn mx" "maxpoll (peer_mem s5 p) = clamp_maxpoll mx" "srcadr (peer_mem s5 p) = src" "hostname (peer_mem s5 p) = hname"
    "hmode (peer_mem s5 p) = hm" "version (peer_mem s5 p) = vers" "pflags (peer_mem s5 p) = fl" "cast_flags (peer_mem s5 p) = cflags" "ttl (peer_mem s5 p) = hops"
    "pkeyid (peer_mem s5 p) = key" "associd (peer_mem s5 p) = aid"
    by (simp_all add: s5_def s4_def s3_def m2) (auto simp: s1_def assms(2) new_minpoll_def min_def zero_peer_def)
  obtain q where q: "peer_clear env (newpeer_id cflags) s5 (peer_mem s5 p) = Some q" "peer_key q = peer_key (peer_mem s5 p)"
    "new_assoc src hname hm vers (new_minpoll mn mx) (clamp_maxpoll mx) fl cflags hops key aid q"
    using peer_clear_ok [of "peer_mem s5 p" env "newpeer_id cflags" s5] m5 new_minpoll_pos [of mn mx] by (auto simp: new_assoc_def peer_key_def)
  define s6 where "s6 = upd_peer p (\<lambda>_. q\<lparr>timereset := current_time env, timereachable := current_time env, timereceived := current_time env\<rparr>) s5"
  have ok6: "peer_ok [p] s6" unfolding s6_def using pn l q(2) ok by (intro upd_peer_ok) (simp_all add: peer_key_def)
  have fr6: "peer_frame s s6" "peer_associations s6 = peer_associations s" using fr pn by (auto simp: peer_frame_def s6_def)
  have m6: "new_assoc src hname hm vers (new_minpoll mn mx) (clamp_maxpoll mx) fl cflags hops key aid (peer_mem s6 p)" using q(3) by (simp add: s6_def new_assoc_def)
  define s7 where "s7 = (if mode_ntpdate env then s6\<lparr>peer_ntpdate := s32 (peer_ntpdate s6 + 1)\<rparr> else s6)"
  have "newpeer_fields env src hname d hm vers mn mx fl cflags hops key idn p s = Some s7"
    unfolding newpeer_fields_def Let_def
    apply (fold s1_def)
    apply (fold s2_def)
    apply (fold s3_def)
    apply (fold s4_def)
    apply (fold s5_def)
    by (simp add: q(1) s7_def s6_def)
  moreover have "peer_ok [p] s7" "peer_frame s s7" "peer_mem s7 p = peer_mem s6 p" "peer_associations s7 = peer_associations s"
    using ok6 fr6 by (simp_all add: s7_def peer_ok_def peer_owned_def peer_tables_def peer_ifs_def peer_frame_def)
  ultimately show ?thesis using m6 by auto
qed

lemma remove1_filter_self: "\<not> P x \<Longrightarrow> filter P (remove1 x xs) = filter P xs"
  by (induction xs) auto

lemma filter_remove1_same: "P x \<Longrightarrow> filter P (remove1 x xs) = remove1 x (filter P xs)"
  by (induction xs) auto

lemma remove1_length_s32: "x \<in> set xs \<Longrightarrow> int (length (remove1 x xs)) = int (length xs) - 1"
  using length_pos_if_in_set [of x xs] by (simp add: length_remove1 of_nat_diff Suc_le_eq)

lemma free_unlinked_ok:
  assumes "peer_ok [p] s" "dstadr (peer_mem s p) = None"
  shows "peer_ok [] (free_peer p False s)"
proof -
  have p: "p \<notin> set (peer_list s)" using assms(1) by (auto simp: peer_ok_def peer_owned_def)
  let ?s = "free_peer p False s"
  have m: "peer_mem ?s = (peer_mem s)(p := zero_peer)" "peer_list ?s = peer_list s" "ifaces ?s = ifaces s" by (simp_all add: free_peer_def)
  have "peer_owned [] ?s" using assms(1) by (auto simp: peer_ok_def peer_owned_def free_peer_def add.commute)
  moreover have "peer_tables ?s"
    by (rule peer_tables_cong [of s]) (use assms(1) p in \<open>simp_all add: peer_ok_def free_peer_def\<close>)
  moreover have "{q. q \<in> set (peer_list s) \<and> dstadr (peer_mem ?s q) = Some i} = {q \<in> set (peer_list s @ [p]). dstadr (peer_mem s q) = Some i}" for i
    using p assms(2) by (auto simp: m)
  hence "peer_ifs [] ?s" using assms(1) unfolding peer_ok_def peer_ifs_def m(2,3) by (simp only: append_Nil2 simp_thms)
  ultimately show ?thesis using assms p by (auto simp: peer_ok_def free_peer_def)
qed

lemma free_linked:
  assumes "peer_ok [] s" "p \<in> set (peer_list s)"
  shows "peer_list (free_peer p True s) = remove1 p (peer_list s)" "peer_free (free_peer p True s) = p # peer_free s"
    "peer_mem (free_peer p True s) = (peer_mem s)(p := zero_peer)" "ifaces (free_peer p True s) = ifaces s" "restricts (free_peer p True s) = restricts s"
    "peer_fresh (free_peer p True s) = peer_fresh s" "total_peer_structs (free_peer p True s) = total_peer_structs s"
    "current_association_ID (free_peer p True s) = current_association_ID s" "peer_free_count (free_peer p True s) = s32 (peer_free_count s + 1)"
    "peer_hash (free_peer p True s) h = remove1 p (peer_hash s h)" "assoc_hash (free_peer p True s) h = remove1 p (assoc_hash s h)"
    "peer_hash_count (free_peer p True s) h = s32 (int (length (remove1 p (peer_hash s h))))"
    "assoc_hash_count (free_peer p True s) h = s32 (int (length (remove1 p (assoc_hash s h))))"
    "peer_associations (free_peer p True s) = peer_associations s"
proof -
  have t: "peer_hash s h = filter (\<lambda>p. NTP_HASH_ADDR (srcadr (peer_mem s p)) = h) (peer_list s)" "peer_hash_count s h = s32 (int (length (peer_hash s h)))"
    "assoc_hash s h = filter (\<lambda>p. assoc_index (associd (peer_mem s p)) = h) (peer_list s)" "assoc_hash_count s h = s32 (int (length (assoc_hash s h)))" for h
    using assms(1) by (auto simp: peer_ok_def peer_tables_def)
  have p: "p \<in> set (peer_hash s h) \<longleftrightarrow> h = NTP_HASH_ADDR (srcadr (peer_mem s p))" "p \<in> set (assoc_hash s h) \<longleftrightarrow> h = assoc_index (associd (peer_mem s p))" for h
    using assms(2) by (auto simp: t)
  show "peer_list (free_peer p True s) = remove1 p (peer_list s)" "peer_free (free_peer p True s) = p # peer_free s"
    "peer_mem (free_peer p True s) = (peer_mem s)(p := zero_peer)" "ifaces (free_peer p True s) = ifaces s" "restricts (free_peer p True s) = restricts s"
    "peer_fresh (free_peer p True s) = peer_fresh s" "total_peer_structs (free_peer p True s) = total_peer_structs s"
    "current_association_ID (free_peer p True s) = current_association_ID s" "peer_free_count (free_peer p True s) = s32 (peer_free_count s + 1)"
    "peer_associations (free_peer p True s) = peer_associations s"
    by (simp_all add: free_peer_def Let_def p)
  show "peer_hash (free_peer p True s) h = remove1 p (peer_hash s h)" "assoc_hash (free_peer p True s) h = remove1 p (assoc_hash s h)"
    using p [of h] by (simp_all add: free_peer_def Let_def p remove1_idem)
  show "peer_hash_count (free_peer p True s) h = s32 (int (length (remove1 p (peer_hash s h))))"
    using p(1) [of h] t(2) [of h] remove1_length_s32 [of p "peer_hash s h"] by (auto simp: free_peer_def Let_def p remove1_idem)
  show "assoc_hash_count (free_peer p True s) h = s32 (int (length (remove1 p (assoc_hash s h))))"
    using p(2) [of h] t(4) [of h] remove1_length_s32 [of p "assoc_hash s h"] by (auto simp: free_peer_def Let_def p remove1_idem)
qed

lemma free_linked_ok:
  assumes "peer_ok [] s" "p \<in> set (peer_list s)" "dstadr (peer_mem s p) = None"
  shows "peer_ok [] (free_peer p True s)"
proof -
  let ?s = "free_peer p True s"
  note f = free_linked [OF assms(1,2)]
  have d: "distinct (peer_list s)" "p \<notin> set (peer_free s)" using assms(1,2) by (auto simp: peer_ok_def peer_owned_def)
  hence l: "set (remove1 p (peer_list s)) = set (peer_list s) - {p}" by simp
  have m: "peer_mem ?s q = peer_mem s q" if "q \<in> set (remove1 p (peer_list s))" for q using that by (auto simp: f l)
  have "remove1 p (filter P (peer_list s)) = filter P (remove1 p (peer_list s))" for P
    by (cases "P p") (simp_all add: filter_remove1_same remove1_filter_self remove1_idem)
  hence "remove1 p (peer_hash s h) = filter (\<lambda>q. NTP_HASH_ADDR (srcadr (peer_mem ?s q)) = h) (remove1 p (peer_list s))"
    "remove1 p (assoc_hash s h) = filter (\<lambda>q. assoc_index (associd (peer_mem ?s q)) = h) (remove1 p (peer_list s))" for h
    using assms(1) m by (auto simp: peer_ok_def peer_tables_def intro!: filter_cong)
  hence "peer_tables ?s" by (simp add: peer_tables_def f(1,10-13))
  moreover have "{q \<in> set (peer_list ?s). dstadr (peer_mem ?s q) = Some i} = {q \<in> set (peer_list s). dstadr (peer_mem s q) = Some i}" for i
    using assms(3) by (auto simp: f(1,3) l)
  hence "peer_ifs [] ?s" using assms(1) unfolding peer_ok_def peer_ifs_def f(4) by (simp only: append_Nil2 simp_thms)
  moreover have "peer_owned [] ?s"
    using assms(1,2) d by (auto simp: peer_ok_def peer_owned_def f l add.commute)
  moreover have "\<forall>q \<in> set (peer_list ?s). peer_fit (peer_mem ?s q)" using assms(1) m l by (simp add: peer_ok_def f(1))
  ultimately show ?thesis using assms(1) by (simp add: peer_ok_def f(5,8))
qed

lemma peer_ok_restricts: "peer_ok D s \<Longrightarrow> res_wf r \<Longrightarrow> peer_ok D (s\<lparr>restricts := r\<rparr>)"
  by (simp add: peer_ok_def peer_owned_def peer_tables_def peer_ifs_def)

lemma set_peerdstadr_None: "peer_mem (set_peerdstadr p None s) = (peer_mem s)(p := (peer_mem s p)\<lparr>dstadr := None\<rparr>)"
  using set_peerdstadr_self [of p None s] set_peerdstadr_mem by (intro ext) (auto simp: dst_refused_def)

lemma unpeer_ok:
  assumes "peer_ok [] s" "p \<in> set (peer_list s)"
  shows "\<exists>s'. unpeer env p s = Some s' \<and> peer_ok [] s' \<and> peer_list s' = remove1 p (peer_list s) \<and> (\<forall>q. q \<noteq> p \<longrightarrow> peer_mem s' q = peer_mem s q) \<and>
    (\<forall>h. peer_hash s' h = remove1 p (peer_hash s h)) \<and> (\<forall>h. assoc_hash s' h = remove1 p (assoc_hash s h)) \<and>
    (\<forall>i. if_peers (ifaces s' i) = (if dstadr (peer_mem s p) = Some i then remove1 p (if_peers (ifaces s i)) else if_peers (ifaces s i))) \<and>
    peer_associations s' = s32 (peer_associations s - 1) \<and>
    restrict_source (current_time env) (srcadr (peer_mem s p)) True 0 (restricts s) = Some (restricts s')"
proof -
  obtain r where r: "restrict_source (current_time env) (srcadr (peer_mem s p)) True 0 (restricts s) = Some r" "res_wf r"
    using restrict_source_ok assms(1) by (metis peer_ok_def)
  define t where "t = set_peerdstadr p None (s\<lparr>restricts := r\<rparr>)"
  have t: "peer_ok [] t" unfolding t_def using assms(2) by (intro set_peerdstadr_ok peer_ok_restricts assms(1) r(2)) simp
  define u where "u = t\<lparr>peer_demobilizations := peer_demobilizations t + 1, peer_associations := s32 (peer_associations t - 1)\<rparr>"
  define v where "v = (if FLAG_PREEMPT AND pflags (peer_mem u p) \<noteq> 0 then u\<lparr>peer_preempt := s32 (peer_preempt u - 1)\<rparr> else u)"
  have v: "peer_ok [] v" using t by (simp add: v_def u_def peer_ok_def peer_owned_def peer_tables_def peer_ifs_def)
  have vm: "peer_mem v = (peer_mem s)(p := (peer_mem s p)\<lparr>dstadr := None\<rparr>)" by (simp add: v_def u_def t_def set_peerdstadr_None)
  have vl: "peer_list v = peer_list s" "peer_hash v = peer_hash s" "assoc_hash v = assoc_hash s" "restricts v = r" "peer_associations v = s32 (peer_associations s - 1)"
    by (simp_all add: v_def u_def t_def)
  have vi: "if_peers (ifaces v i) = (if dstadr (peer_mem s p) = Some i then remove1 p (if_peers (ifaces s i)) else if_peers (ifaces s i))" for i
    using set_peerdstadr_ifaces(1) [of "s\<lparr>restricts := r\<rparr>" p None i] set_peerdstadr_same [of "s\<lparr>restricts := r\<rparr>" p None]
    by (cases "dstadr (peer_mem s p) = None") (simp_all add: v_def u_def t_def dst_refused_def)
  have p: "p \<in> set (peer_list v)" using assms(2) by (simp add: vl)
  have "unpeer env p s = Some (free_peer p True v)" by (simp add: unpeer_def r(1) Let_def flip: t_def) (simp add: u_def v_def)
  moreover have "peer_ok [] (free_peer p True v)" using v p by (rule free_linked_ok) (simp add: vm)
  ultimately show ?thesis using free_linked [OF v p] vm vl vi r(1) by simp
qed

text \<open>What is relied on of the start routine of a clock driver: it leaves alone what the tables depend on.\<close>

definition driver_ok :: "penv \<Rightarrow> bool" where
  "driver_ok env \<longleftrightarrow> (\<forall>q q'. clock_start env q = Some q' \<longrightarrow> peer_key q' = peer_key q \<and> hmode q' = hmode q \<and> (minpoll q \<noteq> 0 \<longrightarrow> minpoll q' \<noteq> 0))"

definition new_peer_q :: "penv \<Rightarrow> u_char \<Rightarrow> peer \<Rightarrow> peer option" where
  "new_peer_q env mx q = (if ISREFCLOCKADR (srcadr q) then refclock_newpeer env (if mx = 0 then q\<lparr>maxpoll := minpoll q\<rparr> else q) else Some q)"

lemma new_peer_q_ok:
  assumes "ISREFCLOCKADR (srcadr q) \<longrightarrow> driver_ok env" "new_peer_q env mx q = Some q'"
  shows "peer_key q' = peer_key q \<and> hmode q' = hmode q \<and> (minpoll q \<noteq> 0 \<longrightarrow> minpoll q' \<noteq> 0)"
proof (cases "ISREFCLOCKADR (srcadr q)")
  case True
  then obtain r where r: "clock_start env r = Some q'" "peer_key r = peer_key q" "hmode r = hmode q" "minpoll r = minpoll q"
    using assms(2) by (auto simp: new_peer_q_def refclock_newpeer_def Let_def peer_key_def split: if_splits)
  thus ?thesis using assms(1) True unfolding driver_ok_def by metis
next
  case False
  thus ?thesis using assms(2) by (simp add: new_peer_q_def)
qed

text \<open>The association that \<^verbatim>\<open>newpeer\<close> mobilises when none exists that it would duplicate.\<close>

lemma newpeer_ok:
  assumes "peer_ok [] s" "ISREFCLOCKADR src \<longrightarrow> driver_ok env" "unat hm < 7" "hname = None \<or> MDF_POOL AND cflags \<noteq> 0" "newpeer_duplicate env src hname d hm cflags s = None"
  shows "\<exists>p s' q. newpeer_alloc fl s \<noteq> None \<and> p \<notin> set (peer_list s) \<and>
    new_assoc src hname hm vers (new_minpoll mn mx) (clamp_maxpoll mx) fl cflags hops key (current_association_ID s) q \<and>
    peer_ok [] s' \<and> peer_associations s' = s32 (peer_associations s + 1) \<and> (\<forall>x \<in> set (peer_list s). peer_mem s' x = peer_mem s x) \<and>
    (case new_peer_q env mx q of
       None \<Rightarrow> newpeer env src hname d hm vers mn mx fl cflags hops key idn s = Some (None, s') \<and> peer_list s' = peer_list s \<and> restricts s' = restricts s
     | Some q' \<Rightarrow> newpeer env src hname d hm vers mn mx fl cflags hops key idn s = Some (Some p, s') \<and> peer_list s' = p # peer_list s \<and> peer_mem s' p = q' \<and>
         restrict_source (current_time env) src False 0 (restricts s) = Some (restricts s'))"
proof -
  obtain p t where t: "newpeer_alloc fl s = Some (p, t)" "peer_ok [p] t" "peer_frame s t" "p \<notin> set (peer_list s)"
    "peer_mem t p = zero_peer\<lparr>associd := current_association_ID s\<rparr>" "peer_associations t = s32 (peer_associations s + 1)"
    using newpeer_alloc_ok [OF assms(1)] by blast
  obtain u where u: "newpeer_fields env src hname d hm vers mn mx fl cflags hops key idn p t = Some u" "peer_ok [p] u" "peer_frame t u"
    "peer_associations u = peer_associations t" "new_assoc src hname hm vers (new_minpoll mn mx) (clamp_maxpoll mx) fl cflags hops key (current_association_ID s) (peer_mem u p)"
    using newpeer_fields_ok [OF t(2,5)] by blast
  have fr: "peer_frame s u" using t(3) u(3) by (rule peer_frame_trans)
  have id: "current_association_ID s \<noteq> 0" using assms(1) by (simp add: peer_ok_def)
  have src: "srcadr (peer_mem u p) = src" using u(5) by (simp add: new_assoc_def)
  have np: "newpeer env src hname d hm vers mn mx fl cflags hops key idn s =
    (case new_peer_q env mx (peer_mem u p) of
       None \<Rightarrow> Some (None, free_peer p False (set_peerdstadr p None u))
     | Some q \<Rightarrow> (let s = newpeer_link p (upd_peer p (\<lambda>_. q) u) in
         map_option (\<lambda>r. (Some p, s\<lparr>restricts := r\<rparr>)) (restrict_source (current_time env) (srcadr (peer_mem s p)) False 0 (restricts s))))"
    using assms(4,5) by (auto simp: newpeer_def t(1) u(1) new_peer_q_def Let_def map_option_case bind_eq_None_conv split: option.splits)
  show ?thesis
  proof (cases "new_peer_q env mx (peer_mem u p)")
    case None
    let ?v = "set_peerdstadr p None u" let ?s = "free_peer p False ?v"
    have "peer_ok [] ?s" using set_peerdstadr_ok [OF u(2), of p None] by (intro free_unlinked_ok) (simp_all add: set_peerdstadr_None)
    moreover have "peer_list ?s = peer_list s" "restricts ?s = restricts s" "peer_associations ?s = s32 (peer_associations s + 1)" "\<forall>x \<in> set (peer_list s). peer_mem ?s x = peer_mem s x"
      using fr t(4,6) u(4) by (auto simp: free_peer_def peer_frame_def set_peerdstadr_None)
    ultimately show ?thesis using t(1,4) u(5) None np by (intro exI [of _ p] exI [of _ ?s] exI [of _ "peer_mem u p"]) simp
  next
    case (Some q)
    let ?u = "upd_peer p (\<lambda>_. q) u" let ?v = "newpeer_link p ?u"
    have q: "peer_key q = peer_key (peer_mem u p)" "peer_fit q"
      using new_peer_q_ok [OF _ Some] assms(2) src u(5) assms(3) new_minpoll_pos [of mn mx] id by (auto simp: peer_fit_def new_assoc_def peer_key_def)
    have "p \<notin> set (peer_list u)" using fr t(4) by (simp add: peer_frame_def)
    hence "peer_ok [p] ?u" using u(2) q(1) by (intro upd_peer_ok) (simp_all add: peer_key_def)
    hence v: "peer_ok [] ?v" using q(2) by (intro newpeer_link_ok) simp_all
    have vl: "peer_list ?v = p # peer_list s" "restricts ?v = restricts s" "peer_associations ?v = s32 (peer_associations s + 1)" "peer_mem ?v p = q"
      "\<forall>x \<in> set (peer_list s). peer_mem ?v x = peer_mem s x"
      using fr t(4,6) u(4) by (auto simp: newpeer_link_def Let_def peer_frame_def)
    obtain r where r: "restrict_source (current_time env) src False 0 (restricts s) = Some r" "res_wf r"
      using restrict_source_ok assms(1) by (metis peer_ok_def)
    have "srcadr q = src" using q(1) src by (simp add: peer_key_def)
    hence "newpeer env src hname d hm vers mn mx fl cflags hops key idn s = Some (Some p, ?v\<lparr>restricts := r\<rparr>)" using np Some r(1) vl by (simp add: Let_def)
    moreover have "peer_ok [] (?v\<lparr>restricts := r\<rparr>)" using v r(2) by (rule peer_ok_restricts)
    ultimately show ?thesis using t(1,4) u(5) Some vl r(1) by (intro exI [of _ p] exI [of _ "?v\<lparr>restricts := r\<rparr>"] exI [of _ "peer_mem u p"]) simp
  qed
qed

lemma newpeer_cases:
  assumes "peer_ok [] s" "ISREFCLOCKADR src \<longrightarrow> driver_ok env" "unat hm < 7" "hname = None \<or> MDF_POOL AND cflags \<noteq> 0"
  shows "\<exists>r s'. newpeer env src hname d hm vers mn mx fl cflags hops key idn s = Some (r, s') \<and> peer_ok [] s' \<and>
    peer_list s' = (case r of None \<Rightarrow> peer_list s | Some p \<Rightarrow> p # peer_list s)"
proof (cases "newpeer_duplicate env src hname d hm cflags s")
  case None
  obtain p s' q where "peer_ok [] s'"
    "case new_peer_q env mx q of
       None \<Rightarrow> newpeer env src hname d hm vers mn mx fl cflags hops key idn s = Some (None, s') \<and> peer_list s' = peer_list s \<and> restricts s' = restricts s
     | Some q' \<Rightarrow> newpeer env src hname d hm vers mn mx fl cflags hops key idn s = Some (Some p, s') \<and> peer_list s' = p # peer_list s \<and> peer_mem s' p = q' \<and>
         restrict_source (current_time env) src False 0 (restricts s) = Some (restricts s')"
    using newpeer_ok [OF assms None] by meson
  thus ?thesis by (cases "new_peer_q env mx q") auto
next
  case (Some q)
  thus ?thesis using assms by (auto simp: newpeer_def)
qed

section \<open>Searching the tables\<close>

lemma find_filter: "(\<And>x. x \<in> set xs \<Longrightarrow> P x \<Longrightarrow> Q x) \<Longrightarrow> find P (filter Q xs) = find P xs"
  by (induction xs) auto

lemma hash_find:
  assumes "peer_ok D s" "\<And>p. P p \<Longrightarrow> NTP_HASH_ADDR (srcadr (peer_mem s p)) = h"
  shows "find P (peer_hash s h) = find P (peer_list s)"
  using assms by (auto simp: peer_ok_def peer_tables_def intro!: find_filter)

text \<open>The action for a packet from the address of an association.\<close>

definition assoc_action :: "rbuf \<Rightarrow> u_char \<Rightarrow> peer_state \<Rightarrow> addr \<Rightarrow> am_action" where
  "assoc_action rb m s p =
     (let a = AM ! unat (hmode (peer_mem s p)) ! unat m
      in if MODE_SERVER = m \<and> AM_PROCPKT = a \<and> \<not> L_ISEQU (aorg (peer_mem s p)) (pkt_org rb) \<and> findmanycastpeer rb s \<noteq> None then AM_ERR else a)"

definition answers :: "rbuf \<Rightarrow> u_char \<Rightarrow> peer_state \<Rightarrow> addr \<Rightarrow> bool" where
  "answers rb m s p \<longleftrightarrow> srcadr (peer_mem s p) = recv_srcadr rb \<and> assoc_action rb m s p \<noteq> AM_NOMATCH"

text \<open>The association of a packet: the first one of its address with a valid combination of modes.\<close>

definition found_assoc :: "rbuf \<Rightarrow> u_char \<Rightarrow> peer_state \<Rightarrow> addr option \<times> am_action" where
  "found_assoc rb m s =
     (case find (answers rb m s) (peer_list s) of
        None \<Rightarrow> (None, AM ! unat NO_PEER ! unat m)
      | Some p \<Rightarrow> if assoc_action rb m s p = AM_ERR then (None, AM_ERR) else (Some p, assoc_action rb m s p))"

lemma findpeer_loop_spec:
  assumes "\<forall>p \<in> set ps. unat (hmode (peer_mem s p)) < 7" "unat m < 7"
  shows "findpeer_loop rb m s ps =
    Some (case find (answers rb m s) ps of
            None \<Rightarrow> (None, AM_NOMATCH)
          | Some p \<Rightarrow> if assoc_action rb m s p = AM_ERR then (None, AM_ERR) else (Some p, assoc_action rb m s p))"
  using assms by (induction ps) (auto simp: answers_def assoc_action_def MATCH_ASSOC_def Let_def ADDR_PORT_EQ_iff)

lemma answers_hash: "answers rb m s p \<Longrightarrow> NTP_HASH_ADDR (srcadr (peer_mem s p)) = NTP_HASH_ADDR (recv_srcadr rb)"
  by (simp add: answers_def)

text \<open>A state in which only destination addresses and interface lists are different.\<close>

definition redirected :: "peer_state \<Rightarrow> peer_state \<Rightarrow> bool" where
  "redirected s s' \<longleftrightarrow> peer_list s' = peer_list s \<and> restricts s' = restricts s \<and> (\<forall>q. \<exists>d. peer_mem s' q = (peer_mem s q)\<lparr>dstadr := d\<rparr>)"

lemma redirected_trans: "redirected s t \<Longrightarrow> redirected t u \<Longrightarrow> redirected s u"
proof -
  assume a: "redirected s t" "redirected t u"
  have "\<exists>d. peer_mem u q = (peer_mem s q)\<lparr>dstadr := d\<rparr>" for q
  proof -
    obtain d e where "peer_mem t q = (peer_mem s q)\<lparr>dstadr := d\<rparr>" "peer_mem u q = (peer_mem t q)\<lparr>dstadr := e\<rparr>" using a unfolding redirected_def by blast
    thus ?thesis by auto
  qed
  thus "redirected s u" using a by (simp add: redirected_def)
qed

lemma redirected_same: "peer_list s' = peer_list s \<Longrightarrow> restricts s' = restricts s \<Longrightarrow> peer_mem s' = peer_mem s \<Longrightarrow> redirected s s'"
proof -
  have "peer_mem s q = (peer_mem s q)\<lparr>dstadr := dstadr (peer_mem s q)\<rparr>" for q by simp
  thus "peer_list s' = peer_list s \<Longrightarrow> restricts s' = restricts s \<Longrightarrow> peer_mem s' = peer_mem s \<Longrightarrow> redirected s s'" unfolding redirected_def by metis
qed

lemma found_cong:
  assumes "redirected s s'"
  shows "answers rb m s' = answers rb m s" "assoc_action rb m s' = assoc_action rb m s"
proof -
  have l: "peer_list s' = peer_list s" using assms by (simp add: redirected_def)
  have q: "srcadr (peer_mem s' q) = srcadr (peer_mem s q)" "hmode (peer_mem s' q) = hmode (peer_mem s q)" "aorg (peer_mem s' q) = aorg (peer_mem s q)"
    "cast_flags (peer_mem s' q) = cast_flags (peer_mem s q)" for q
  proof -
    obtain d where "peer_mem s' q = (peer_mem s q)\<lparr>dstadr := d\<rparr>" using assms by (auto simp: redirected_def)
    thus "srcadr (peer_mem s' q) = srcadr (peer_mem s q)" "hmode (peer_mem s' q) = hmode (peer_mem s q)" "aorg (peer_mem s' q) = aorg (peer_mem s q)"
      "cast_flags (peer_mem s' q) = cast_flags (peer_mem s q)" by simp_all
  qed
  hence "findmanycastpeer rb s' = findmanycastpeer rb s" using l by (simp add: findmanycastpeer_def)
  thus a: "assoc_action rb m s' = assoc_action rb m s" by (intro ext) (simp add: assoc_action_def q)
  show "answers rb m s' = answers rb m s" by (intro ext) (simp add: answers_def q a)
qed

lemma set_peerdstadr_redirected: "redirected s (set_peerdstadr p d s)"
proof -
  have "\<exists>d'. peer_mem (set_peerdstadr p d s) q = (peer_mem s q)\<lparr>dstadr := d'\<rparr>" for q
    by (cases "q = p") (auto simp: set_peerdstadr_self set_peerdstadr_mem intro: exI [of _ "dstadr (peer_mem s q)"])
  thus ?thesis by (simp add: redirected_def)
qed

lemma findpeer_spec:
  assumes "peer_ok [] s" "unat m < 7"
  shows "\<exists>s'. findpeer rb m s = Some (fst (found_assoc rb m s), snd (found_assoc rb m s), s') \<and> peer_ok [] s' \<and> redirected s s' \<and>
    (\<forall>p. fst (found_assoc rb m s) = Some p \<longrightarrow> dstadr (peer_mem s' p) = Some (rdstadr rb) \<or> dst_refused (peer_mem s p) (Some (rdstadr rb)) s)"
  using assms
proof (induction rb m s rule: findpeer.induct)
  case (1 rb m s0)
  define s where "s = s0\<lparr>findpeer_calls := findpeer_calls s0 + 1\<rparr>"
  have ok: "peer_ok [] s" using 1(2) by (simp add: s_def peer_ok_def peer_owned_def peer_tables_def peer_ifs_def)
  have an: "answers rb m s = answers rb m s0" "assoc_action rb m s = assoc_action rb m s0" by (intro found_cong redirected_same; simp add: s_def)+
  have hm: "\<forall>p \<in> set (peer_hash s h). unat (hmode (peer_mem s p)) < 7" for h using ok by (auto simp: peer_ok_def peer_tables_def peer_fit_def)
  have fi: "find (answers rb m s) (peer_hash s (NTP_HASH_ADDR (recv_srcadr rb))) = find (answers rb m s) (peer_list s)"
    using ok answers_hash by (rule hash_find)
  note loop = findpeer_loop_spec [OF hm [of "NTP_HASH_ADDR (recv_srcadr rb)"] 1(3), of rb, unfolded fi]
  have l0: "peer_list s = peer_list s0" "redirected s0 s" by (simp_all add: s_def redirected_same)
  consider (none) "find (answers rb m s) (peer_list s) = None"
    | (err) p where "find (answers rb m s) (peer_list s) = Some p" "assoc_action rb m s p = AM_ERR"
    | (found) p where "find (answers rb m s) (peer_list s) = Some p" "assoc_action rb m s p \<noteq> AM_ERR" by blast
  thus ?case
  proof cases
    case none
    hence "findpeer rb m s0 = Some (None, AM ! unat NO_PEER ! unat m, s)"
      using loop 1(3) by (simp add: findpeer.simps [of rb m s0] MATCH_ASSOC_def NO_PEER_def flip: s_def)
    thus ?thesis using ok none by (auto simp: found_assoc_def an l0)
  next
    case err
    hence "findpeer rb m s0 = Some (None, AM_ERR, s)"
      using loop by (simp add: findpeer.simps [of rb m s0] flip: s_def)
    thus ?thesis using ok err by (auto simp: found_assoc_def an l0)
  next
    case (found p)
    hence fa: "found_assoc rb m s0 = (Some p, assoc_action rb m s p)" by (simp add: found_assoc_def an l0)
    have p: "p \<in> set (peer_list s)" using found(1) by (auto simp: find_Some_iff)
    let ?s' = "set_peerdstadr p (Some (rdstadr rb)) s"
    have ok': "peer_ok [] ?s'" using ok p by (intro set_peerdstadr_ok) simp_all
    have m': "redirected s0 ?s'" using l0(2) set_peerdstadr_redirected by (rule redirected_trans)
    have fa': "found_assoc rb m ?s' = found_assoc rb m s0" unfolding found_assoc_def found_cong [OF m'] set_peerdstadr_frame l0(1) by (rule refl)
    have loop': "findpeer_loop rb m s (peer_hash s (NTP_HASH_ADDR (recv_srcadr rb))) = Some (Some p, assoc_action rb m s p)" using loop found by simp
    consider "dstadr (peer_mem s p) = Some (rdstadr rb)" | "dstadr (peer_mem s p) \<noteq> Some (rdstadr rb)" "dstadr (peer_mem ?s' p) \<noteq> Some (rdstadr rb)"
      | "dstadr (peer_mem s p) \<noteq> Some (rdstadr rb)" "dstadr (peer_mem ?s' p) = Some (rdstadr rb)" by blast
    thus ?thesis
    proof cases
      case 1
      hence "findpeer rb m s0 = Some (Some p, assoc_action rb m s p, s)" using loop' by (simp add: findpeer.simps [of rb m s0] flip: s_def)
      thus ?thesis using ok 1 by (auto simp: fa l0)
    next
      case 2
      hence "findpeer rb m s0 = Some (Some p, assoc_action rb m s p, ?s')" using loop' by (simp add: findpeer.simps [of rb m s0] flip: s_def)
      moreover have "dst_refused (peer_mem s0 p) (Some (rdstadr rb)) s0" using 2(2) by (auto simp: set_peerdstadr_self s_def dst_refused_def split: if_splits)
      ultimately show ?thesis using ok' m' by (auto simp: fa l0)
    next
      case 3
      hence f: "findpeer rb m s0 = findpeer rb m ?s'" using loop' by (simp add: findpeer.simps [of rb m s0] flip: s_def)
      obtain s2 where s2: "findpeer rb m ?s' = Some (fst (found_assoc rb m s0), snd (found_assoc rb m s0), s2)" "peer_ok [] s2" "redirected ?s' s2"
        "dstadr (peer_mem s2 p) = Some (rdstadr rb) \<or> dst_refused (peer_mem ?s' p) (Some (rdstadr rb)) ?s'"
        using 1(1) [OF s_def loop' refl refl 3(1) refl 3(2) ok' 1(3)] fa' fa by auto
      have "dst_refused (peer_mem s0 p) (Some (rdstadr rb)) s0" if "dst_refused (peer_mem ?s' p) (Some (rdstadr rb)) ?s'"
      proof -
        have "pflags (peer_mem ?s' p) = pflags (peer_mem s0 p)" "hmode (peer_mem ?s' p) = hmode (peer_mem s0 p)" "if_flags (ifaces ?s' i) = if_flags (ifaces s0 i)" for i
          by (simp_all add: set_peerdstadr_self s_def) (simp add: set_peerdstadr_def Let_def upd_if_def upd_peer_def split: option.split)
        thus ?thesis using that by (simp add: dst_refused_def)
      qed
      thus ?thesis using s2 f fa redirected_trans [OF m' s2(3)] by auto
    qed
  qed
qed

section \<open>Reachable states\<close>

lemma upd_listed_ok:
  assumes "peer_ok [] s" "p \<in> set (peer_list s)" "peer_key q = peer_key (peer_mem s p)" "peer_fit q"
  shows "peer_ok [] (upd_peer p (\<lambda>_. q) s)"
  using assms by (intro upd_peer_ok) (simp_all add: peer_key_def)

lemma peer_fitD: "peer_ok D s \<Longrightarrow> p \<in> set (peer_list s) \<Longrightarrow> peer_fit (peer_mem s p)"
  by (simp add: peer_ok_def)

lemma clear_peers_ok:
  assumes "peer_ok [] s" "set ps \<subseteq> set (peer_list s)"
  shows "\<exists>s'. clear_peers env i P ps s = Some s' \<and> peer_ok [] s' \<and> peer_list s' = peer_list s"
  using assms
proof (induction ps arbitrary: s)
  case (Cons p ps)
  hence p: "p \<in> set (peer_list s)" by simp
  have f: "peer_fit (peer_mem s p)" using Cons.prems(1) p by (rule peer_fitD)
  then obtain q where q: "peer_clear env i s (peer_mem s p) = Some q" "peer_key q = peer_key (peer_mem s p)" "peer_fit q"
    using peer_clear_fit [of "peer_mem s p" env i s] by (auto simp: peer_fit_def)
  have "peer_ok [] (upd_peer p (\<lambda>_. q) s)" using Cons.prems(1) p q(2,3) by (rule upd_listed_ok)
  thus ?case using Cons.IH [of s] Cons.IH [of "upd_peer p (\<lambda>_. q) s"] Cons.prems q(1) by auto
qed simp

lemma refresh_ok:
  assumes "peer_ok [] s" "p \<in> set (peer_list s)"
  shows "\<exists>s'. peer_refresh_interface env p s = Some s' \<and> peer_ok [] s' \<and> peer_list s' = peer_list s"
proof -
  define t where "t = set_peerdstadr p (select_peerinterface env (peer_mem s p) (srcadr (peer_mem s p)) None) s"
  have t: "peer_ok [] t" "peer_list t = peer_list s" using assms by (simp_all add: t_def set_peerdstadr_ok)
  have f: "peer_fit (peer_mem t p)" using t assms(2) by (intro peer_fitD) simp_all
  then obtain q where q: "peer_clear env ''XFAC'' t (peer_mem t p) = Some q" "peer_key q = peer_key (peer_mem t p)" "peer_fit q"
    using peer_clear_fit [of "peer_mem t p" env "''XFAC''" t] by (auto simp: peer_fit_def)
  have "peer_ok [] (upd_peer p (\<lambda>_. q) t)" using t assms(2) q(2,3) by (intro upd_listed_ok) simp_all
  thus ?thesis using t q(1) by (auto simp: peer_refresh_interface_def Let_def simp flip: t_def)
qed

lemma refresh_peers_ok:
  assumes "peer_ok [] s" "set ps \<subseteq> set (peer_list s)"
  shows "\<exists>s'. refresh_peers env ps s = Some s' \<and> peer_ok [] s' \<and> peer_list s' = peer_list s"
  using assms
proof (induction ps arbitrary: s)
  case (Cons p ps)
  then obtain t where t: "peer_refresh_interface env p s = Some t" "peer_ok [] t" "peer_list t = peer_list s"
    using refresh_ok [of s p env] by auto
  thus ?case using Cons.IH [OF t(2)] Cons.prems by auto
qed simp

lemma peer_reset_ok: "peer_ok [] s \<Longrightarrow> p \<in> set (peer_list s) \<Longrightarrow> peer_ok [] (peer_reset env (Some p) s)"
  using peer_fitD [of "[]" s p] by (auto simp: peer_reset_def peer_key_def peer_fit_def intro!: upd_peer_ok)

lemma peer_all_reset_ok: "peer_ok [] s \<Longrightarrow> peer_ok [] (peer_all_reset env s)"
proof -
  have "peer_ok [] (fold (\<lambda>p. peer_reset env (Some p)) ps s)" if "peer_ok [] s" "set ps \<subseteq> set (peer_list s)" for ps
    using that
  proof (induction ps arbitrary: s)
    case (Cons p ps)
    have "peer_list (peer_reset env (Some p) s) = peer_list s" by (simp add: peer_reset_def)
    thus ?case using Cons peer_reset_ok [of s p env] by simp
  qed simp
  thus "peer_ok [] s \<Longrightarrow> peer_ok [] (peer_all_reset env s)" by (simp add: peer_all_reset_def)
qed

text \<open>The state before \<^verbatim>\<open>init_peer\<close>: static variables, which are zero, the interfaces found, and the restrictions.\<close>

definition peer_zero :: "(addr \<Rightarrow> interface) \<Rightarrow> res_state \<Rightarrow> peer_state" where
  "peer_zero ifs rs = \<lparr>peer_mem = (\<lambda>_. zero_peer), peer_fresh = 0, peer_hash = (\<lambda>_. []), peer_hash_count = (\<lambda>_. 0), assoc_hash = (\<lambda>_. []),
     assoc_hash_count = (\<lambda>_. 0), peer_list = [], peer_free = [], peer_free_count = 0, current_association_ID = 0, peer_timereset = 0, findpeer_calls = 0,
     assocpeer_calls = 0, peer_allocations = 0, peer_demobilizations = 0, total_peer_structs = 0, peer_associations = 0, peer_preempt = 0,
     peer_ntpdate = 0, ifaces = ifs, restricts = rs\<rparr>"

definition ifs_unused :: "(addr \<Rightarrow> interface) \<Rightarrow> bool" where
  "ifs_unused ifs \<longleftrightarrow> (\<forall>i. if_peers (ifs i) = [] \<and> if_peercnt (ifs i) = 0)"

text \<open>
  What happens to the associations: the operations of the module, called as its clients call them, changes of the restrictions by the
  configuration, and changes of other fields by the protocol.
\<close>

inductive peer_reach :: "peer_state \<Rightarrow> bool" where
  start: "ifs_unused ifs \<Longrightarrow> res_wf rs \<Longrightarrow> init_peer aid (peer_zero ifs rs) = Some s \<Longrightarrow> peer_reach s"
| mobilise: "peer_reach s \<Longrightarrow> (ISREFCLOCKADR src \<longrightarrow> driver_ok env) \<Longrightarrow> unat hm < 7 \<Longrightarrow> newpeer env src hname d hm vers mn mx fl cflags hops key idn s = Some (r, s') \<Longrightarrow> peer_reach s'"
| demobilise: "peer_reach s \<Longrightarrow> p \<in> set (peer_list s) \<Longrightarrow> unpeer env p s = Some s' \<Longrightarrow> peer_reach s'"
| packet: "peer_reach s \<Longrightarrow> unat m < 7 \<Longrightarrow> findpeer rb m s = Some (r, a, s') \<Longrightarrow> peer_reach s'"
| destination: "peer_reach s \<Longrightarrow> p \<in> set (peer_list s) \<Longrightarrow> peer_reach (set_peerdstadr p d s)"
| step_clear: "peer_reach s \<Longrightarrow> clear_all env s = Some s' \<Longrightarrow> peer_reach s'"
| refresh: "peer_reach s \<Longrightarrow> refresh_all_peerinterfaces env s = Some s' \<Longrightarrow> peer_reach s'"
| reset: "peer_reach s \<Longrightarrow> p \<in> set (peer_list s) \<Longrightarrow> peer_reach (peer_reset env (Some p) s)"
| all_reset: "peer_reach s \<Longrightarrow> peer_reach (peer_all_reset env s)"
| clear_stats: "peer_reach s \<Longrightarrow> peer_reach (peer_clr_stats env s)"
| lookup: "peer_reach s \<Longrightarrow> peer_reach (snd (findpeerbyassoc a s))"
| restrictions: "peer_reach s \<Longrightarrow> res_wf r \<Longrightarrow> peer_reach (s\<lparr>restricts := r\<rparr>)"
| fields: "peer_reach s \<Longrightarrow> p \<in> set (peer_list s) \<Longrightarrow> peer_key q = peer_key (peer_mem s p) \<Longrightarrow> peer_fit q \<Longrightarrow> peer_reach (upd_peer p (\<lambda>_. q) s)"

lemma init_peer_ok:
  assumes "ifs_unused ifs" "res_wf rs" "init_peer aid (peer_zero ifs rs) = Some s"
  shows "peer_ok [] s"
proof -
  have "aid \<noteq> 0" using assms(3) by (auto simp: init_peer_def split: if_splits)
  thus ?thesis using assms
    by (auto simp: init_peer_def peer_zero_def Let_def peer_ok_def peer_owned_def peer_tables_def peer_ifs_def ifs_unused_def INIT_PEER_ALLOC_def s32_def)
qed

lemma peer_reach_ok: "peer_reach s \<Longrightarrow> peer_ok [] s"
proof (induction rule: peer_reach.induct)
  case (start ifs rs aid s)
  thus ?case by (rule init_peer_ok)
next
  case (mobilise s src env hm hname d vers mn mx fl cflags hops key idn r s')
  have "hname = None \<or> MDF_POOL AND cflags \<noteq> 0" using mobilise(4) by (auto simp: newpeer_def split: if_splits)
  thus ?case using newpeer_cases [OF mobilise.IH mobilise(2,3), of hname cflags d vers mn mx fl hops key idn] mobilise(4) by auto
next
  case (demobilise s p env s')
  thus ?case using unpeer_ok [of s p env] by auto
next
  case (packet s m rb r a s')
  thus ?case using findpeer_spec [of s m rb] by auto
next
  case (step_clear s env s')
  thus ?case using clear_peers_ok [of s "peer_list s" env "''STEP''" "\<lambda>q. MDF_TXONLY_MASK AND cast_flags q = 0"] by (auto simp: clear_all_def)
next
  case (refresh s env s')
  thus ?case using refresh_peers_ok [of s "peer_list s" env] by (auto simp: refresh_all_peerinterfaces_def)
qed (auto simp: set_peerdstadr_ok peer_reset_ok peer_all_reset_ok peer_ok_restricts upd_listed_ok,
  simp_all add: peer_clr_stats_def findpeerbyassoc_def peer_ok_def peer_owned_def peer_tables_def peer_ifs_def)

lemma newpeer_plain:
  assumes "peer_ok [] s" "\<not> ISREFCLOCKADR src" "unat hm < 7" "hname = None \<or> MDF_POOL AND cflags \<noteq> 0" "newpeer_duplicate env src hname d hm cflags s = None"
  shows "\<exists>p s'. newpeer env src hname d hm vers mn mx fl cflags hops key idn s = Some (Some p, s') \<and> p \<notin> set (peer_list s) \<and> peer_ok [] s' \<and>
        peer_list s' = p # peer_list s \<and> (\<forall>x \<in> set (peer_list s). peer_mem s' x = peer_mem s x) \<and>
        new_assoc src hname hm vers (new_minpoll mn mx) (clamp_maxpoll mx) fl cflags hops key (current_association_ID s) (peer_mem s' p) \<and>
        0 < new_minpoll mn mx \<and> new_minpoll mn mx \<le> clamp_maxpoll mx \<and> new_minpoll mn mx \<le> NTP_MAXPOLL \<and>
        peer_associations s' = s32 (peer_associations s + 1)"
proof -
  obtain p s' q where q: "p \<notin> set (peer_list s)" "peer_ok [] s'" "peer_associations s' = s32 (peer_associations s + 1)" "\<forall>x \<in> set (peer_list s). peer_mem s' x = peer_mem s x"
    "new_assoc src hname hm vers (new_minpoll mn mx) (clamp_maxpoll mx) fl cflags hops key (current_association_ID s) q"
    "case new_peer_q env mx q of
       None \<Rightarrow> newpeer env src hname d hm vers mn mx fl cflags hops key idn s = Some (None, s') \<and> peer_list s' = peer_list s \<and> restricts s' = restricts s
     | Some q' \<Rightarrow> newpeer env src hname d hm vers mn mx fl cflags hops key idn s = Some (Some p, s') \<and> peer_list s' = p # peer_list s \<and> peer_mem s' p = q' \<and>
         restrict_source (current_time env) src False 0 (restricts s) = Some (restricts s')"
    using newpeer_ok [OF assms(1) _ assms(3-5)] assms(2) by meson
  have "new_peer_q env mx q = Some q" using q(5) assms(2) by (simp add: new_peer_q_def new_assoc_def)
  moreover have "0 < new_minpoll mn mx" "new_minpoll mn mx \<le> clamp_maxpoll mx" "new_minpoll mn mx \<le> NTP_MAXPOLL"
    using new_minpoll_pos [of mn mx] clamp_polls(2) [of mn] by (auto simp: new_minpoll_def word_neq_0_conv min_le_iff_disj)
  ultimately show ?thesis using q by auto
qed

section \<open>Properties\<close>

text \<open>
  C15: The tables of the associations.  In every state that the operations reach, each structure is on exactly one of the list of associations
  and the free list, and the free ones are clear; each chain of the two hash tables is the list of associations, filtered, and each interface
  has exactly its associations on its list; all counts are right.  So the lookups by address and by identifier, which
  search one chain, find what a search of the whole list finds.
\<close>
theorem peer_tables_reachable:
  assumes "peer_reach s"
  shows "peer_ok [] s \<and> fst (findpeerbyassoc a s) = find (\<lambda>p. a = associd (peer_mem s p)) (peer_list s) \<and>
    findexistingpeer_addr adr None md cflags s = find (\<lambda>p. addr_matches adr md cflags (peer_mem s p)) (peer_list s)"
proof -
  have ok: "peer_ok [] s" using assms by (rule peer_reach_ok)
  have "assoc_hash s (assoc_index a) = filter (\<lambda>p. assoc_index (associd (peer_mem s p)) = assoc_index a) (peer_list s)"
    using ok by (simp add: peer_ok_def peer_tables_def)
  hence "fst (findpeerbyassoc a s) = find (\<lambda>p. a = associd (peer_mem s p)) (peer_list s)" 
    by (simp add: findpeerbyassoc_def) (rule find_filter, simp)
  moreover have "findexistingpeer_addr adr None md cflags s = find (\<lambda>p. addr_matches adr md cflags (peer_mem s p)) (peer_list s)"
    unfolding findexistingpeer_addr_def behind_def
    using hash_find [OF ok, of "\<lambda>p. addr_matches adr md cflags (peer_mem s p)" "NTP_HASH_ADDR adr"] by (simp add: addr_matches_def ADDR_PORT_EQ_iff)
  ultimately show ?thesis using ok by simp
qed

text \<open>
  C16: The association of a packet.  \<^verbatim>\<open>findpeer\<close> terminates, although it calls itself again after it has set a destination address, and returns the
  first association of the list with the address of the packet and a combination of modes that the table does not rule out, with the action of
  the table; else the action for a packet without association.  A server's reply that does not match the last request is an error when it
  answers a manycast solicitation.  The destination address of the association is then the one of the packet, unless the
  association is in its first volley as a broadcast client and the packet came in on a multicast address.
\<close>
theorem findpeer_correct:
  assumes "peer_ok [] s" "unat m < 7"
  shows "\<exists>r a s'. findpeer rb m s = Some (r, a, s') \<and> (r, a) = found_assoc rb m s \<and> peer_ok [] s' \<and> redirected s s' \<and>
    (\<forall>p. r = Some p \<longrightarrow> dstadr (peer_mem s' p) = Some (rdstadr rb) \<or> dst_refused (peer_mem s p) (Some (rdstadr rb)) s)"
  using findpeer_spec [OF assms, of rb] by (metis prod.collapse)

text \<open>
  C28: Mobilising an association.  When none exists that it would duplicate, and the address is not that of a reference clock, \<^verbatim>\<open>newpeer\<close> returns a structure
  that was free, puts it first on the list, in the hash tables and on the interface, and leaves the others alone.  Its poll exponents are the requested
  ones, clamped, with the minimum not above the maximum; its state is that of an association that has heard nothing.  When one exists
  already, nothing is changed.
\<close>
theorem newpeer_mobilises:
  assumes "peer_ok [] s" "\<not> ISREFCLOCKADR src" "unat hm < 7" "hname = None \<or> MDF_POOL AND cflags \<noteq> 0"
  shows "(newpeer_duplicate env src hname d hm cflags s \<noteq> None \<longrightarrow>
      newpeer env src hname d hm vers mn mx fl cflags hops key idn s = Some (None, s)) \<and>
    (newpeer_duplicate env src hname d hm cflags s = None \<longrightarrow>
      (\<exists>p s'. newpeer env src hname d hm vers mn mx fl cflags hops key idn s = Some (Some p, s') \<and> p \<notin> set (peer_list s) \<and> peer_ok [] s' \<and>
        peer_list s' = p # peer_list s \<and> (\<forall>x \<in> set (peer_list s). peer_mem s' x = peer_mem s x) \<and>
        new_assoc src hname hm vers (new_minpoll mn mx) (clamp_maxpoll mx) fl cflags hops key (current_association_ID s) (peer_mem s' p) \<and>
        0 < new_minpoll mn mx \<and> new_minpoll mn mx \<le> clamp_maxpoll mx \<and> new_minpoll mn mx \<le> NTP_MAXPOLL \<and>
        peer_associations s' = s32 (peer_associations s + 1)))"
proof (intro conjI impI)
  assume "newpeer_duplicate env src hname d hm cflags s \<noteq> None"
  thus "newpeer env src hname d hm vers mn mx fl cflags hops key idn s = Some (None, s)" using assms(4) by (auto simp: newpeer_def)
next
  assume "newpeer_duplicate env src hname d hm cflags s = None"
  thus "\<exists>p s'. newpeer env src hname d hm vers mn mx fl cflags hops key idn s = Some (Some p, s') \<and> p \<notin> set (peer_list s) \<and> peer_ok [] s' \<and>
        peer_list s' = p # peer_list s \<and> (\<forall>x \<in> set (peer_list s). peer_mem s' x = peer_mem s x) \<and>
        new_assoc src hname hm vers (new_minpoll mn mx) (clamp_maxpoll mx) fl cflags hops key (current_association_ID s) (peer_mem s' p) \<and>
        0 < new_minpoll mn mx \<and> new_minpoll mn mx \<le> clamp_maxpoll mx \<and> new_minpoll mn mx \<le> NTP_MAXPOLL \<and>
        peer_associations s' = s32 (peer_associations s + 1)"
    using assms by (intro newpeer_plain)
qed

text \<open>
  C29: Demobilising undoes mobilising: when an association is ended right after it was made, the list, both hash tables, the members of every interface list, the
  other structures and the count of associations are what they were before.
\<close>
theorem unpeer_undoes_newpeer:
  assumes "peer_ok [] s" "ISREFCLOCKADR src \<longrightarrow> driver_ok env" "unat hm < 7" "in_s32 (peer_associations s)"
    and "newpeer env src hname d hm vers mn mx fl cflags hops key idn s = Some (Some p, s1)"
  shows "\<exists>s2. unpeer env' p s1 = Some s2 \<and> peer_ok [] s2 \<and> peer_list s2 = peer_list s \<and> peer_hash s2 = peer_hash s \<and> assoc_hash s2 = assoc_hash s \<and>
    (\<forall>i. set (if_peers (ifaces s2 i)) = set (if_peers (ifaces s i))) \<and> (\<forall>x \<in> set (peer_list s). peer_mem s2 x = peer_mem s x) \<and>
    peer_associations s2 = peer_associations s"
proof -
  have h: "hname = None \<or> MDF_POOL AND cflags \<noteq> 0" "newpeer_duplicate env src hname d hm cflags s = None" using assms(5) by (auto simp: newpeer_def split: if_splits)
  obtain p' s' q where "p' \<notin> set (peer_list s)" "peer_ok [] s'" "peer_associations s' = s32 (peer_associations s + 1)" "\<forall>x \<in> set (peer_list s). peer_mem s' x = peer_mem s x"
    "case new_peer_q env mx q of
       None \<Rightarrow> newpeer env src hname d hm vers mn mx fl cflags hops key idn s = Some (None, s') \<and> peer_list s' = peer_list s \<and> restricts s' = restricts s
     | Some q' \<Rightarrow> newpeer env src hname d hm vers mn mx fl cflags hops key idn s = Some (Some p', s') \<and> peer_list s' = p' # peer_list s \<and> peer_mem s' p' = q' \<and>
         restrict_source (current_time env) src False 0 (restricts s) = Some (restricts s')"
    using newpeer_ok [OF assms(1-3) h] by meson
  hence n: "p \<notin> set (peer_list s)" "peer_ok [] s1" "peer_associations s1 = s32 (peer_associations s + 1)" "\<forall>x \<in> set (peer_list s). peer_mem s1 x = peer_mem s x"
    "peer_list s1 = p # peer_list s"
    using assms(5) by (auto split: option.splits)
  obtain s2 where s2: "unpeer env' p s1 = Some s2" "peer_ok [] s2" "peer_list s2 = peer_list s" "\<forall>q. q \<noteq> p \<longrightarrow> peer_mem s2 q = peer_mem s1 q"
    "peer_associations s2 = s32 (peer_associations s1 - 1)"
    using unpeer_ok [OF n(2), of p env'] n(5) by auto
  have m: "peer_mem s2 x = peer_mem s x" if "x \<in> set (peer_list s)" for x using s2(4) n(1,4) that by metis
  have "peer_hash s2 h = peer_hash s h" "assoc_hash s2 h = assoc_hash s h" for h
    using s2(2,3) assms(1) m by (auto simp: peer_ok_def peer_tables_def intro!: filter_cong)
  moreover have "set (if_peers (ifaces s2 i)) = set (if_peers (ifaces s i))" for i
  proof -
    have "{q \<in> set (peer_list s). dstadr (peer_mem s2 q) = Some i} = {q \<in> set (peer_list s). dstadr (peer_mem s q) = Some i}" using m by auto
    thus ?thesis using s2(2,3) assms(1) by (simp add: peer_ok_def peer_ifs_def)
  qed
  moreover have "peer_associations s2 = peer_associations s" using s2(5) n(3) assms(4) by (simp add: s32_id)
  ultimately show ?thesis using s2(1-3) m by blast
qed

text \<open>
  The associations keep answering.  In every state that the operations reach, the next one returns: no call fails an assertion, follows a null pointer,
  reads the table of modes out of its range, divides by zero or runs forever.
\<close>
theorem peer_operations_return:
  assumes "peer_reach s"
  shows "(p \<in> set (peer_list s) \<longrightarrow> unpeer env p s \<noteq> None) \<and> (unat m < 7 \<longrightarrow> findpeer rb m s \<noteq> None) \<and> clear_all env s \<noteq> None \<and>
    refresh_all_peerinterfaces env s \<noteq> None \<and>
    (unat hm < 7 \<and> (ISREFCLOCKADR src \<longrightarrow> driver_ok env) \<and> (hname = None \<or> MDF_POOL AND cflags \<noteq> 0) \<longrightarrow>
      newpeer env src hname d hm vers mn mx fl cflags hops key idn s \<noteq> None)"
proof -
  have ok: "peer_ok [] s" using assms by (rule peer_reach_ok)
  have "clear_all env s \<noteq> None"
    using clear_peers_ok [OF ok, of "peer_list s" env "''STEP''" "\<lambda>q. MDF_TXONLY_MASK AND cast_flags q = 0"] by (auto simp: clear_all_def)
  moreover have "refresh_all_peerinterfaces env s \<noteq> None" using refresh_peers_ok [OF ok, of "peer_list s" env] by (auto simp: refresh_all_peerinterfaces_def)
  moreover have "unpeer env p s \<noteq> None" if "p \<in> set (peer_list s)" using unpeer_ok [OF ok that, of env] by auto
  moreover have "findpeer rb m s \<noteq> None" if "unat m < 7" using findpeer_spec [OF ok that, of rb] by auto
  moreover have "newpeer env src hname d hm vers mn mx fl cflags hops key idn s \<noteq> None"
    if "unat hm < 7" "ISREFCLOCKADR src \<longrightarrow> driver_ok env" "hname = None \<or> MDF_POOL AND cflags \<noteq> 0"
    using newpeer_cases [OF ok that(2,1,3), of d vers mn mx fl hops key idn] by auto
  ultimately show ?thesis by blast
qed

text \<open>
  A reference clock that does not start.  \<^verbatim>\<open>newpeer\<close> then frees the structure, but the association stays counted: the list is as long as
  before and the count of associations is one more.
\<close>
theorem failed_clock_stays_counted:
  assumes "peer_ok [] s" "ISREFCLOCKADR src" "unat hm < 7" "\<forall>q. clock_start env q = None" "newpeer_duplicate env src None d hm cflags s = None"
  shows "\<exists>s'. newpeer env src None d hm vers mn mx fl cflags hops key idn s = Some (None, s') \<and> peer_ok [] s' \<and> peer_list s' = peer_list s \<and>
    peer_associations s' = s32 (peer_associations s + 1)"
proof -
  have dr: "ISREFCLOCKADR src \<longrightarrow> driver_ok env" using assms(4) by (simp add: driver_ok_def)
  obtain p s' q where q: "peer_ok [] s'" "peer_associations s' = s32 (peer_associations s + 1)"
    "case new_peer_q env mx q of
       None \<Rightarrow> newpeer env src None d hm vers mn mx fl cflags hops key idn s = Some (None, s') \<and> peer_list s' = peer_list s \<and> restricts s' = restricts s
     | Some q' \<Rightarrow> newpeer env src None d hm vers mn mx fl cflags hops key idn s = Some (Some p, s') \<and> peer_list s' = p # peer_list s \<and> peer_mem s' p = q' \<and>
         restrict_source (current_time env) src False 0 (restricts s) = Some (restricts s')"
    "new_assoc src None hm vers (new_minpoll mn mx) (clamp_maxpoll mx) fl cflags hops key (current_association_ID s) q"
    using newpeer_ok [OF assms(1) dr assms(3) _ assms(5)] by meson
  have "new_peer_q env mx q = None" using q(4) assms(2,4) by (simp add: new_peer_q_def new_assoc_def refclock_newpeer_def Let_def)
  thus ?thesis using q(1-3) by auto
qed

section \<open>Witnesses\<close>

definition demo_env :: penv where
  "demo_env = \<lparr>current_time = 100, mode_ntpdate = False, initializing = False, sys_precision = - 20, sys_floor = 0, sys_ceiling = 16, random_clear = 5,
     random_poll = 9, select_peerinterface = (\<lambda>_ _ _. Some 0), findinterface = (\<lambda>_. Some 0), any_interface = (\<lambda>_. None), distance_exceeded = (\<lambda>_. True),
     clock_start = (\<lambda>_. None), mon_cf = small_cf\<rparr>"

definition demo_if :: interface where
  "demo_if = \<lparr>if_flags = 0, if_fd = 4, if_bfd = 5, if_peers = [], if_peercnt = 0, if_addr_refid = 0x0a000005\<rparr>"

definition demo_peers :: peer_state where
  "demo_peers = the (init_peer 7 (peer_zero (\<lambda>_. demo_if) res_zero))"

lemma demo_peers: "init_peer 7 (peer_zero (\<lambda>_. demo_if) res_zero) = Some demo_peers"
  by (simp add: demo_peers_def init_peer_def Let_def)

lemma demo_reach: "peer_reach demo_peers"
  by (rule peer_reach.start [OF _ _ demo_peers]) (simp_all add: ifs_unused_def demo_if_def)

lemmas demo_ok = peer_reach_ok [OF demo_reach]

lemma demo_empty: "peer_list demo_peers = []" "peer_hash demo_peers h = []" "peer_associations demo_peers = 0" "current_association_ID demo_peers = 7"
  by (simp_all add: demo_peers_def init_peer_def Let_def peer_zero_def)

lemma demo_fresh: "newpeer_duplicate demo_env (SA4 a port) None d hm cflags demo_peers = None"
  by (simp add: newpeer_duplicate_def findexistingpeer_def findexistingpeer_addr_def behind_def demo_empty split: option.split)

theorem newpeer_mobilises_witness:
  "\<exists>p s'. newpeer demo_env (SA4 0x0a000001 123) None None MODE_CLIENT 4 0 0 FLAG_CONFIG 0 0 0 None demo_peers = Some (Some p, s') \<and>
     peer_list s' = [p] \<and> minpoll (peer_mem s' p) = 6 \<and> maxpoll (peer_mem s' p) = 10 \<and> associd (peer_mem s' p) = 7"
proof -
  have "\<not> ISREFCLOCKADR (SA4 0x0a000001 123)" "unat MODE_CLIENT < 7" by (simp_all add: ISREFCLOCKADR_def MODE_CLIENT_def)
  from newpeer_mobilises [OF demo_ok this, of None 0 demo_env None 4 0 0 FLAG_CONFIG 0 0 None] show ?thesis
    by (auto simp: demo_fresh demo_empty new_assoc_def new_minpoll_def clamp_minpoll_def clamp_maxpoll_def NTP_MINDPOLL_def NTP_MAXDPOLL_def)
qed

theorem unpeer_undoes_newpeer_witness:
  "\<exists>p s1 s2. newpeer demo_env (SA4 0x0a000001 123) None None MODE_CLIENT 4 0 0 FLAG_CONFIG 0 0 0 None demo_peers = Some (Some p, s1) \<and>
     peer_list s1 = [p] \<and> unpeer demo_env p s1 = Some s2 \<and> peer_list s2 = []"
proof -
  have a: "\<not> ISREFCLOCKADR (SA4 0x0a000001 123)" "unat MODE_CLIENT < 7" by (simp_all add: ISREFCLOCKADR_def MODE_CLIENT_def)
  obtain p s1 where s1: "newpeer demo_env (SA4 0x0a000001 123) None None MODE_CLIENT 4 0 0 FLAG_CONFIG 0 0 0 None demo_peers = Some (Some p, s1)" "peer_list s1 = [p]"
    using newpeer_plain [OF demo_ok a _ demo_fresh, of 0 None 4 0 0 FLAG_CONFIG 0 0 None] by (auto simp: demo_empty)
  have "in_s32 (peer_associations demo_peers)" by (simp add: demo_empty in_s32_def)
  from unpeer_undoes_newpeer [OF demo_ok _ a(2) this s1(1), of demo_env] a(1) s1 show ?thesis by (auto simp: demo_empty)
qed

theorem peer_tables_reachable_witness:
  "peer_ok [] demo_peers \<and> fst (findpeerbyassoc 7 demo_peers) = None"
  using peer_tables_reachable [OF demo_reach, of 7] by (simp add: demo_empty)

theorem findpeer_correct_witness:
  "\<exists>s'. findpeer \<lparr>recv_srcadr = SA4 0x0a000001 123, rdstadr = 0, rfd = 4, recv_time = zero_lfp, recv_length = 48, recv_buf = []\<rparr> MODE_CLIENT demo_peers = Some (None, AM_FXMIT, s')"
proof -
  have "unat MODE_CLIENT < 7" by (simp add: MODE_CLIENT_def)
  from findpeer_correct [OF demo_ok this] show ?thesis
    by (fastforce simp: found_assoc_def demo_empty AM_def NO_PEER_def MODE_CLIENT_def)
qed

theorem peer_operations_return_witness:
  "clear_all demo_env demo_peers \<noteq> None \<and> newpeer demo_env (SA6 1 123 0) None None MODE_ACTIVE 4 6 10 0 0 0 0 None demo_peers \<noteq> None"
  using peer_operations_return [OF demo_reach, of 0 demo_env 0 _ MODE_ACTIVE "SA6 1 123 0" None 0 None 4 6 10 0 0 0 None]
  by (simp add: MODE_ACTIVE_def ISREFCLOCKADR_def)

theorem failed_clock_stays_counted_witness:
  "\<exists>s'. newpeer demo_env (SA4 0x7f7f0101 123) None None MODE_CLIENT 4 0 0 FLAG_CONFIG 0 0 0 None demo_peers = Some (None, s') \<and>
     peer_list s' = [] \<and> peer_associations s' = 1"
proof -
  have "ISREFCLOCKADR (SA4 0x7f7f0101 123)" "unat MODE_CLIENT < 7" "\<forall>q. clock_start demo_env q = None"
    by (simp_all add: ISREFCLOCKADR_def MODE_CLIENT_def demo_env_def)
  from failed_clock_stays_counted [OF demo_ok this demo_fresh, of None 4 0 0 FLAG_CONFIG 0 0 0 None] show ?thesis
    by (auto simp: demo_empty s32_def)
qed

end
