(* ===== verification/NTP_Proto.thy ===== *)
theory NTP_Proto
  imports NTP_Peer
begin

text \<open>
  The protocol machine: \<^verbatim>\<open>ntpd/ntp_proto.c\<close> but for the clock filter, selection and update, and the polling part of \<^verbatim>\<open>ntpd/ntp_timer.c\<close>, in the build without
  Autokey and without the signing daemon.  The state of the daemon joins the associations (with the restrictions), the monitor and the key store
  with the system variables.  Packets that are sent are appended to an outbox, requests for other parts to another list.  Root delay and dispersion of the
  system are \<^verbatim>\<open>double\<close>; here they are the values that go into a packet.  What computes with \<^verbatim>\<open>double\<close> further is an argument:
  the clock filter, which gets the differences of time stamps that the code hands to it, and the test of the interleaved round-trip delay.
  \<open>None\<close> is an undefined shift, an index out of range, a failure of a called part, or the exit of the program.
\<close>

unbundle bit_operations_syntax

section \<open>Constants\<close>

abbreviation (input) "RES_DONTSERVE \<equiv> 0x0002 :: u_short"
abbreviation (input) "RES_DONTTRUST \<equiv> 0x0004 :: u_short"
abbreviation (input) "RES_VERSION \<equiv> 0x0008 :: u_short"
abbreviation (input) "RES_NOPEER \<equiv> 0x0010 :: u_short"
abbreviation (input) "RES_FLAGS \<equiv> 0x003f :: u_short"
abbreviation (input) "RES_NOQUERY \<equiv> 0x0040 :: u_short"
abbreviation (input) "RES_NOMODIFY \<equiv> 0x0080 :: u_short"
abbreviation (input) "RES_MSSNTP \<equiv> 0x0800 :: u_short"
abbreviation (input) "RES_FLAKE \<equiv> 0x1000 :: u_short"
abbreviation (input) "NTP_VERSION \<equiv> 4 :: u_char"
abbreviation (input) "NTP_OLDVERSION \<equiv> 1 :: u_char"
abbreviation (input) "NTP_UNREACH \<equiv> 10 :: int"
abbreviation (input) "NTP_RETRY \<equiv> 3 :: int"
abbreviation (input) "NTP_IBURST \<equiv> 6 :: int"
abbreviation (input) "RESP_DELAY \<equiv> 1 :: u_int64"
abbreviation (input) "POOL_SOLICIT_WINDOW \<equiv> 8 :: u_int64"
abbreviation (input) "LEN_PKT_NOMAC \<equiv> 48 :: nat"
abbreviation (input) "MIN_MAC_LEN \<equiv> 4 :: u_int64"
abbreviation (input) "MAX_MAC_LEN \<equiv> 24 :: u_int64"
abbreviation (input) "MAX_TTL \<equiv> 8 :: nat"
abbreviation (input) "LEAP_ADDSECOND \<equiv> 1 :: u_char"
abbreviation (input) "LOOPBACKADR \<equiv> 0x7f000001 :: u_int32"

section \<open>Packets\<close>

record pkt =
  x_li_vn_mode :: u_char
  x_stratum :: u_char
  x_ppoll :: u_char
  x_precision :: int
  x_rootdelay :: u_int32
  x_rootdisp :: u_int32
  x_refid :: u_int32
  x_reftime :: l_fp
  x_org :: l_fp
  x_rec :: l_fp
  x_xmt :: l_fp

definition lfp_bytes :: "l_fp \<Rightarrow> u_char list" where
  "lfp_bytes t = htonl_bytes (l_ui t) @ htonl_bytes (l_uf t)"

text \<open>The structure in memory: the header, and the room for one word of extension field and the authentication code.\<close>

definition pkt_bytes :: "pkt \<Rightarrow> u_char list" where
  "pkt_bytes x = [x_li_vn_mode x, x_stratum x, x_ppoll x, word_of_int (x_precision x)] @ htonl_bytes (x_rootdelay x) @ htonl_bytes (x_rootdisp x) @
     htonl_bytes (x_refid x) @ lfp_bytes (x_reftime x) @ lfp_bytes (x_org x) @ lfp_bytes (x_rec x) @ lfp_bytes (x_xmt x)"

definition xpkt_memory :: "pkt \<Rightarrow> u_char list" where
  "xpkt_memory x = pkt_bytes x @ replicate 28 0"

definition PKT_LEAP :: "u_char \<Rightarrow> u_char" where "PKT_LEAP li_vn_mode = drop_bit 6 li_vn_mode AND 0x3"
definition PKT_LI_VN_MODE :: "u_char \<Rightarrow> u_char \<Rightarrow> u_char \<Rightarrow> u_char" where
  "PKT_LI_VN_MODE l v m = push_bit 6 (l AND 3) OR VN_MODE v m"
definition PKT_TO_STRATUM :: "u_char \<Rightarrow> u_char" where
  "PKT_TO_STRATUM s = (if s = STRATUM_PKT_UNSPEC then STRATUM_UNSPEC else s)"
definition STRATUM_TO_PKT :: "u_char \<Rightarrow> u_char" where
  "STRATUM_TO_PKT s = (if s = STRATUM_UNSPEC then STRATUM_PKT_UNSPEC else s)"

section \<open>State\<close>

record xmit =
  to_adr :: sockaddr_u
  to_if :: "addr option"
  to_ttl :: u_char
  to_bytes :: "u_char list"

text \<open>What is left to parts that are not modelled.\<close>

datatype handoff = To_private rbuf bool | To_control rbuf u_short | Resolve u_short | Step_second

record daemon =
  peers :: peer_state
  mon :: mon_state
  keys :: auth_state
  outbox :: "xmit list"
  handed :: "handoff list"
  sys_leap :: u_char
  sys_stratum :: u_char
  sys_refid :: u_int32
  sys_rootdelay :: u_int32
  sys_rootdisp :: u_int32
  sys_reftime :: l_fp
  sys_peer :: "addr option"
  sys_poll :: u_char
  sys_authdelay :: l_fp
  sys_bclient :: bool
  sys_bdelay :: bool
  sys_authenticate :: bool
  sys_manycastserver :: bool
  sys_cohort :: bool
  ntp_mode7 :: bool
  sys_ident :: "string option"
  sys_survivors :: int
  sys_minclock :: int
  sys_maxclock :: int
  sys_beacon :: int
  sys_orphan :: int
  sys_orphwait :: int
  orphwait :: u_int64
  sys_ttlmax :: int
  sys_ttl :: "u_char list"
  leapsec :: u_int64
  leap_tai :: int
  sys_tai :: int
  sys_stattime :: u_int64
  sys_received :: u_int64
  sys_processed :: u_int64
  sys_newversion :: u_int64
  sys_oldversion :: u_int64
  sys_restricted :: u_int64
  sys_badlength :: u_int64
  sys_badauth :: u_int64
  sys_declined :: u_int64
  sys_limitrejected :: u_int64
  sys_kodsent :: u_int64

text \<open>What a packet gives to the clock filter: the differences of time stamps, or nothing when the peer has become unreachable.\<close>

datatype sample = Interleaved l_fp l_fp | Interleaved_broadcast l_fp l_fp | Broadcast l_fp | Basic l_fp l_fp | Lost

record renv =
  pe :: penv
  flaked :: bool
  mon_refuse :: "int \<Rightarrow> bool"
  evp :: "int \<Rightarrow> u_char list \<Rightarrow> u_char list option"
  xmt_tx :: l_fp
  xmt_ty :: l_fp
  delay_invalid :: "l_fp \<Rightarrow> l_fp \<Rightarrow> bool"
  clock_filter :: "addr \<Rightarrow> sample \<Rightarrow> daemon \<Rightarrow> daemon option"
  refclock_transmit :: "addr \<Rightarrow> daemon \<Rightarrow> daemon option"

abbreviation rnow :: "renv \<Rightarrow> u_int64" where "rnow env \<equiv> current_time (pe env)"

definition getp :: "addr \<Rightarrow> daemon \<Rightarrow> peer" where "getp p d = peer_mem (peers d) p"

definition setp :: "addr \<Rightarrow> peer \<Rightarrow> daemon \<Rightarrow> daemon" where
  "setp p q d = d\<lparr>peers := upd_peer p (\<lambda>_. q) (peers d)\<rparr>"

definition proto_clr_stats :: "renv \<Rightarrow> daemon \<Rightarrow> daemon" where
  "proto_clr_stats env d = d\<lparr>sys_stattime := rnow env, sys_received := 0, sys_processed := 0, sys_newversion := 0, sys_oldversion := 0, sys_declined := 0,
     sys_restricted := 0, sys_badlength := 0, sys_badauth := 0, sys_limitrejected := 0, sys_kodsent := 0\<rparr>"

text \<open>The measured precision and the controls of other modules are left out.\<close>

definition init_proto :: "renv \<Rightarrow> daemon \<Rightarrow> daemon" where
  "init_proto env d =
     (let d = d\<lparr>sys_leap := LEAP_NOTINSYNC, sys_stratum := STRATUM_UNSPEC, sys_refid := fourcc ''INIT'', sys_peer := None, sys_rootdelay := 0, sys_rootdisp := 0,
            sys_reftime := zero_lfp, sys_survivors := 0, sys_manycastserver := False, sys_bclient := False, sys_bdelay := False, sys_authenticate := True,
            sys_stattime := rnow env, orphwait := rnow env + word_of_int (sys_orphwait d)\<rparr>;
          d = proto_clr_stats env d
      in d\<lparr>sys_ttl := map (\<lambda>i. of_nat ((i * 256) div MAX_TTL)) [0..<MAX_TTL], sys_ttlmax := int MAX_TTL - 1\<rparr>)"

text \<open>
  The associations after an operation that may have changed the restrictions: the calls that the restrictions have made since reach the monitor.
\<close>

abbreviation (input) "MON_RES \<equiv> 0x02 :: u_int32"

definition mon_follow :: "mon_config \<Rightarrow> mon_call \<Rightarrow> mon_state \<Rightarrow> mon_state" where
  "mon_follow cf c m = (case c of Mon_start \<Rightarrow> mon_start cf MON_RES m | Mon_stop \<Rightarrow> mon_stop MON_RES m)"

definition put_peers :: "renv \<Rightarrow> peer_state \<Rightarrow> daemon \<Rightarrow> daemon" where
  "put_peers env s d =
     (let calls = drop (length (mon_calls (shared (restricts (peers d))))) (mon_calls (shared (restricts s)))
      in d\<lparr>peers := s, mon := fold (mon_follow (mon_cf (pe env))) calls (mon d)\<rparr>)"

section \<open>Poll intervals\<close>

text \<open>The shift \<^verbatim>\<open>1 << n\<close> of an \<^verbatim>\<open>int\<close>.\<close>

definition shl1 :: "u_char \<Rightarrow> int option" where
  "shl1 n = (if n < 31 then Some (2 ^ unat n) else None)"

text \<open>The earliest time of the next packet (for the value \<open>sm\<close> of \<^verbatim>\<open>1 << minpoll\<close>), the exponent and the interval outside a burst.\<close>

definition headway :: "penv \<Rightarrow> int \<Rightarrow> peer \<Rightarrow> u_int64" where
  "headway env sm q = current_time env + word_of_int (max (s32 (throttle q - s32 ((NTP_SHIFT - 1) * sm))) (ntp_minpkt (mon_cf env)))"

definition poll_exponent :: "peer \<Rightarrow> u_char" where
  "poll_exponent q = (if retry q > 0 then minpoll q else if reach q = 0 then hpoll q else min (ppoll q) (hpoll q))"

definition poll_interval :: "penv \<Rightarrow> u_char \<Rightarrow> peer \<Rightarrow> u_int64 option" where
  "poll_interval env hp q =
     (if pflags q AND FLAG_REFCLOCK \<noteq> 0 then map_option word_of_int (shl1 hp)
      else if hp < 64 then Some (drop_bit 12 (push_bit (unat hp) (0x1000 OR (random_poll env AND 0x0ff)))) else None)"

definition poll_update :: "penv \<Rightarrow> u_char \<Rightarrow> peer \<Rightarrow> peer option" where
  "poll_update env mpoll q =
     (let q = q\<lparr>hpoll := max (min (maxpoll q) mpoll) (minpoll q)\<rparr>
      in do {
        sm \<leftarrow> shl1 (minpoll q);
        let utemp = headway env sm q;
        if burst q > 0
        then Some (if nextdate q > current_time env then q
                   else if pflags q AND FLAG_REFCLOCK \<noteq> 0 then q\<lparr>nextdate := current_time env + RESP_DELAY\<rparr>
                   else q\<lparr>nextdate := utemp\<rparr>)
        else do {
          next \<leftarrow> poll_interval env (poll_exponent q) q;
          let next = next + outdate q;
          let q = q\<lparr>nextdate := (if next > utemp then next else utemp)\<rparr>;
          Some (if throttle q > sm then q\<lparr>nextdate := nextdate q + word_of_int (ntp_minpkt (mon_cf env))\<rparr> else q)
        }
      })"

definition poll_peer :: "renv \<Rightarrow> addr \<Rightarrow> u_char \<Rightarrow> daemon \<Rightarrow> daemon option" where
  "poll_peer env p mpoll d = map_option (\<lambda>q. setp p q d) (poll_update (pe env) mpoll (getp p d))"

section \<open>Sending\<close>

definition sendpkt :: "sockaddr_u \<Rightarrow> addr option \<Rightarrow> u_char \<Rightarrow> u_char list \<Rightarrow> nat \<Rightarrow> daemon \<Rightarrow> daemon" where
  "sendpkt dest ep hops memory len d = d\<lparr>outbox := outbox d @ [\<lparr>to_adr = dest, to_if = ep, to_ttl = hops, to_bytes = take len memory\<rparr>]\<rparr>"

text \<open>The header of a packet with the system variables.\<close>

definition sys_pkt :: "renv \<Rightarrow> u_char \<Rightarrow> u_char \<Rightarrow> u_char \<Rightarrow> l_fp \<Rightarrow> l_fp \<Rightarrow> l_fp \<Rightarrow> daemon \<Rightarrow> pkt" where
  "sys_pkt env vers md poll org rec xmt d =
     \<lparr>x_li_vn_mode = PKT_LI_VN_MODE (sys_leap d) vers md, x_stratum = STRATUM_TO_PKT (sys_stratum d), x_ppoll = poll, x_precision = sys_precision (pe env),
      x_rootdelay = sys_rootdelay d, x_rootdisp = sys_rootdisp d, x_refid = sys_refid d, x_reftime = sys_reftime d, x_org = org, x_rec = rec, x_xmt = xmt\<rparr>"

definition kod_pkt :: "renv \<Rightarrow> rbuf \<Rightarrow> u_char \<Rightarrow> pkt" where
  "kod_pkt env rb xmode =
     \<lparr>x_li_vn_mode = PKT_LI_VN_MODE LEAP_NOTINSYNC (PKT_VERSION (pkt_li_vn_mode rb)) xmode, x_stratum = STRATUM_PKT_UNSPEC,
      x_ppoll = max (pkt_ppoll rb) (ntp_minpoll (mon_cf (pe env))), x_precision = pkt_precision rb, x_rootdelay = pkt_rootdelay rb, x_rootdisp = pkt_rootdisp rb,
      x_refid = fourcc ''RATE'', x_reftime = pkt_reftime rb, x_org = pkt_xmt rb, x_rec = pkt_xmt rb, x_xmt = pkt_xmt rb\<rparr>"

text \<open>The endpoint of an answer to a packet that came in on \<open>i\<close>.\<close>

definition answer_if :: "renv \<Rightarrow> rbuf \<Rightarrow> addr \<Rightarrow> daemon \<Rightarrow> addr option" where
  "answer_if env rb i d = (if if_flags (ifaces (peers d) i) AND INT_MCASTOPEN \<noteq> 0 then findinterface (pe env) (recv_srcadr rb) else Some i)"

text \<open>The endpoint of the buffer, \<^verbatim>\<open>rbufp->dstadr\<close>, is an argument and, as the source changes it, also a result.\<close>

definition fast_xmit :: "renv \<Rightarrow> rbuf \<Rightarrow> addr option \<Rightarrow> u_char \<Rightarrow> keyid_t \<Rightarrow> u_short \<Rightarrow> daemon \<Rightarrow> (addr option \<times> daemon) option" where
  "fast_xmit env rb dst xmode xkeyid fl d =
     (case dst of
        None \<Rightarrow> None
      | Some i \<Rightarrow>
          let ep = answer_if env rb i d;
              (x, d) = (if fl AND RES_KOD \<noteq> 0 then (kod_pkt env rb xmode, d\<lparr>sys_kodsent := sys_kodsent d + 1\<rparr>)
                        else (sys_pkt env (PKT_VERSION (pkt_li_vn_mode rb)) xmode (max (pkt_ppoll rb) (ntp_minpoll (mon_cf (pe env)))) (pkt_xmt rb) (recv_time rb)
                                (xmt_tx env) d, d));
              memory = xpkt_memory x
          in if recv_length rb = int LEN_PKT_NOMAC then Some (ep, sendpkt (recv_srcadr rb) ep 0 memory LEN_PKT_NOMAC d)
             else do {
               (authlen, memory, ks) \<leftarrow> authencrypt (evp env) xkeyid memory LEN_PKT_NOMAC (keys d);
               let d = sendpkt (recv_srcadr rb) ep 0 memory (LEN_PKT_NOMAC + nat authlen) (d\<lparr>keys := ks\<rparr>);
               Some (ep, d\<lparr>sys_authdelay := L_SUB (xmt_ty env) (xmt_tx env)\<rparr>)
             })"

text \<open>An answer after which the buffer is not used any more.\<close>

definition answer :: "renv \<Rightarrow> rbuf \<Rightarrow> u_char \<Rightarrow> keyid_t \<Rightarrow> u_short \<Rightarrow> daemon \<Rightarrow> daemon option" where
  "answer env rb xmode xkeyid fl d = map_option snd (fast_xmit env rb (Some (rdstadr rb)) xmode xkeyid fl d)"

text \<open>The time stamps before a packet of an association is sent, and after.\<close>

definition stamp_before :: "renv \<Rightarrow> peer \<Rightarrow> pkt \<Rightarrow> peer \<times> pkt" where
  "stamp_before env q x =
     (if flip q = 0 then (q\<lparr>aorg := xmt_tx env\<rparr>, x\<lparr>x_xmt := xmt_tx env\<rparr>)
      else if hmode q = MODE_BROADCAST then (q, x\<lparr>x_xmt := xmt_tx env, x_org := (if flip q > 0 then borg q else aorg q)\<rparr>)
      else (q, x\<lparr>x_xmt := (if flip q > 0 then borg q else aorg q)\<rparr>))"

definition stamp_after :: "renv \<Rightarrow> peer \<Rightarrow> peer" where
  "stamp_after env q =
     (if flip q \<noteq> 0
      then let q = (if flip q > 0 then q\<lparr>aorg := xmt_ty env\<rparr> else q\<lparr>borg := xmt_ty env\<rparr>) in q\<lparr>flip := s32 (- flip q)\<rparr>
      else q)"

text \<open>The packet is counted and the rate control charged.\<close>

definition charge :: "peer \<Rightarrow> peer option" where
  "charge q = map_option (\<lambda>sm. q\<lparr>sent := sent q + 1, throttle := s32 (throttle q + (sm - 2))\<rparr>) (shl1 (minpoll q))"

definition ttl_at :: "peer \<Rightarrow> daemon \<Rightarrow> u_char option" where
  "ttl_at q d = (if unat (ttl q) < length (sys_ttl d) then Some (sys_ttl d ! unat (ttl q)) else None)"

definition peer_xmit :: "renv \<Rightarrow> addr \<Rightarrow> daemon \<Rightarrow> daemon option" where
  "peer_xmit env p d =
     (let q = getp p d
      in case dstadr q of
           None \<Rightarrow> Some d
         | Some i \<Rightarrow>
             let x = sys_pkt env (version q) (hmode q) (hpoll q) (prec q) (pdst q) zero_lfp d;
                 (q, x) = stamp_before env q x
             in if pkeyid q = 0
                then do {
                  t \<leftarrow> ttl_at q d;
                  let d = sendpkt (srcadr q) (Some i) t (xpkt_memory x) LEN_PKT_NOMAC d;
                  q \<leftarrow> charge q;
                  Some (setp p (stamp_after env q) d)
                }
                else do {
                  (authlen, memory, ks) \<leftarrow> authencrypt (evp env) (pkeyid q) (xpkt_memory x) LEN_PKT_NOMAC (keys d);
                  let d = d\<lparr>keys := ks\<rparr>;
                  if authlen = 0 then Some (setp p (q\<lparr>flash := flash q OR TEST5, badauth := badauth q + 1\<rparr>) d)
                  else if LEN_PKT_NOMAC + nat authlen > length (xpkt_memory x) then None
                  else do {
                    t \<leftarrow> ttl_at q d;
                    let d = sendpkt (srcadr q) (Some i) t memory (LEN_PKT_NOMAC + nat authlen) d;
                    q \<leftarrow> charge q;
                    Some (setp p (stamp_after env q) d)
                  }
                })"

text \<open>The next address of a pool that has no association yet; the flag tells that the last one left has one.\<close>

fun pool_pick :: "(sockaddr_u \<Rightarrow> bool) \<Rightarrow> sockaddr_u \<Rightarrow> sockaddr_u list \<Rightarrow> sockaddr_u \<times> bool \<times> sockaddr_u list" where
  "pool_pick existing a [] = (a, existing a, [])"
| "pool_pick existing a (b # bs) = (if existing a then pool_pick existing b bs else (a, False, b # bs))"

definition pool_xmit :: "renv \<Rightarrow> addr \<Rightarrow> daemon \<Rightarrow> daemon option" where
  "pool_xmit env p d =
     (case pool_ai (getp p d) of
        [] \<Rightarrow> Some (d\<lparr>handed := handed d @ [Resolve (associd (getp p d))]\<rparr>)
      | a # as \<Rightarrow>
          let (rmtadr, found, rest) = pool_pick (\<lambda>r. findexistingpeer r None None (Some MODE_CLIENT) 0 (peers d) \<noteq> None) a as;
              d = setp p ((getp p d)\<lparr>pool_ai := rest\<rparr>) d
          in if found then Some d
             else do {
               (restrict_mask, r) \<leftarrow> restrictions (rnow env) rmtadr (restricts (peers d));
               r \<leftarrow> (if RES_FLAGS AND restrict_mask \<noteq> 0 then restrict_source (rnow env) rmtadr False (rnow env + POOL_SOLICIT_WINDOW + 1) r else Some r);
               let d = put_peers env ((peers d)\<lparr>restricts := r\<rparr>) d;
               let q = getp p d;
               let x = sys_pkt env (version q) MODE_CLIENT (hpoll q) zero_lfp zero_lfp (xmt_tx env) d;
               let q = q\<lparr>aorg := xmt_tx env\<rparr>;
               t \<leftarrow> ttl_at q d;
               let d = sendpkt rmtadr (findinterface (pe env) rmtadr) t (xpkt_memory x) LEN_PKT_NOMAC d;
               q \<leftarrow> charge q;
               Some (setp p q d)
             })"

text \<open>The answer of the resolver: an error, or addresses.\<close>

definition pool_name_resolved :: "renv \<Rightarrow> bool \<Rightarrow> u_short \<Rightarrow> sockaddr_u list \<Rightarrow> daemon \<Rightarrow> daemon option" where
  "pool_name_resolved env failed assoc res d =
     (if failed then Some d
      else
        let (pool, s) = findpeerbyassoc assoc (peers d);
            d = d\<lparr>peers := s\<rparr>
        in case pool of
             None \<Rightarrow> Some d
           | Some p \<Rightarrow> pool_xmit env p (setp p ((getp p d)\<lparr>pool_ai := res\<rparr>) d))"

section \<open>Polling\<close>

definition toss :: "renv \<Rightarrow> addr \<Rightarrow> daemon \<Rightarrow> daemon option" where
  "toss env p d = do {
     q \<leftarrow> peer_clear (pe env) ''TIME'' (peers d) (getp p d);
     s \<leftarrow> unpeer (pe env) p (peers (setp p q d));
     Some (put_peers env s d)
   }"

text \<open>The end of \<^verbatim>\<open>transmit\<close> for unicast associations.\<close>

definition transmit_end :: "renv \<Rightarrow> addr \<Rightarrow> u_char \<Rightarrow> daemon \<Rightarrow> daemon option" where
  "transmit_end env p hp d = do {
     let q = getp p d;
     let d = (if retry q > 0 then setp p (q\<lparr>retry := retry q - 1\<rparr>) d else d);
     d \<leftarrow> (if hmode (getp p d) \<noteq> MODE_BCLIENT then peer_xmit env p d else Some d);
     poll_peer env p hp d
   }"

text \<open>The reachability register shifts; the peer is given up, or a burst armed.\<close>

definition transmit_reach :: "renv \<Rightarrow> addr \<Rightarrow> u_char \<Rightarrow> daemon \<Rightarrow> (u_char \<times> daemon) option" where
  "transmit_reach env p hp d =
     (let q = getp p d;
          oreach = reach q;
          d = setp p (q\<lparr>outdate := rnow env, unreach := s32 (unreach q + 1), reach := push_bit 1 (reach q)\<rparr>) d
      in if reach (getp p d) = 0
         then do {
           d \<leftarrow> clock_filter env p Lost d;
           let d = (if oreach \<noteq> 0 then setp p (snd (peer_unfit (pe env) (peers d) (getp p d))) d else d);
           let q = getp p d;
           Some (hp, if pflags q AND FLAG_IBURST \<noteq> 0 \<and> retry q = 0 then setp p (q\<lparr>retry := NTP_RETRY\<rparr>) d else d)
         }
         else
           let q = getp p d;
               q = (if pflags q AND FLAG_PREEMPT = 0 then q\<lparr>unreach := 0\<rparr> else q);
               q = (if pflags q AND FLAG_BURST \<noteq> 0 \<and> retry q = 0
                    then let (unfit, q) = peer_unfit (pe env) (peers d) q in if unfit = 0 then q\<lparr>retry := NTP_RETRY\<rparr> else q
                    else q)
           in Some (sys_poll d, setp p q d))"

definition transmit_unicast :: "renv \<Rightarrow> addr \<Rightarrow> daemon \<Rightarrow> daemon option" where
  "transmit_unicast env p d =
     (let q = getp p d
      in if burst q = 0
         then do {
           (hp, d) \<leftarrow> transmit_reach env p (hpoll q) d;
           let q = getp p d;
           if unreach q \<ge> NTP_UNREACH
           then if pflags q AND (FLAG_CONFIG OR FLAG_PREEMPT) = 0 then toss env p d
                else if pflags q AND FLAG_PREEMPT \<noteq> 0 \<and> peer_associations (peers d) > sys_maxclock d \<and> score_all p (peers d) \<noteq> 0 then toss env p d
                else transmit_end env p (hp + 1) d
           else transmit_end env p hp d
         }
         else
           let q = q\<lparr>burst := burst q - 1\<rparr>;
               d = setp p q d
           in if burst q = 0 \<and> mode_ntpdate (pe env)
              then let n = s32 (peer_ntpdate (peers d) - 1)
                   in if n = 0 then None else transmit_end env p (hpoll q) (d\<lparr>peers := (peers d)\<lparr>peer_ntpdate := n\<rparr>\<rparr>)
              else transmit_end env p (hpoll q) d)"

definition transmit :: "renv \<Rightarrow> addr \<Rightarrow> daemon \<Rightarrow> daemon option" where
  "transmit env p d =
     (let q = getp p d; hp = hpoll q
      in if cast_flags q AND (MDF_BCAST OR MDF_MCAST) \<noteq> 0
         then do {
           let d = setp p (q\<lparr>outdate := rnow env\<rparr>) d;
           d \<leftarrow> (if sys_leap d \<noteq> LEAP_NOTINSYNC then peer_xmit env p d else Some d);
           poll_peer env p hp d
         }
         else if cast_flags q AND MDF_ACAST \<noteq> 0
         then do {
           let q = q\<lparr>outdate := rnow env\<rparr>;
           d \<leftarrow> (if unreach q > sys_beacon d then peer_xmit env p (setp p (q\<lparr>unreach := 0, ttl := 0\<rparr>) d)
                 else if sys_survivors d < sys_minclock d \<or> peer_associations (peers d) < sys_maxclock d
                 then peer_xmit env p (setp p (if ttl q < word_of_int (sys_ttlmax d) then q\<lparr>ttl := ttl q + 1\<rparr> else q) d)
                 else Some (setp p q d));
           let q = getp p d;
           poll_peer env p hp (setp p (q\<lparr>unreach := s32 (unreach q + 1)\<rparr>) d)
         }
         else if cast_flags q AND MDF_POOL \<noteq> 0
         then do {
           let d = setp p (q\<lparr>outdate := rnow env\<rparr>) d;
           d \<leftarrow> (if peer_associations (peers d) \<le> s32 (2 * sys_maxclock d) \<and> (peer_associations (peers d) < sys_maxclock d \<or> sys_survivors d < sys_minclock d)
                 then pool_xmit env p d else Some d);
           poll_peer env p hp d
         }
         else transmit_unicast env p d)"

text \<open>The loop of the timer over the associations, of which the next is read before one is polled, and what follows it there.\<close>

fun timer_peers :: "renv \<Rightarrow> addr list \<Rightarrow> daemon \<Rightarrow> daemon option" where
  "timer_peers env [] d = Some d"
| "timer_peers env (p # ps) d = do {
     let q = getp p d;
     let d = (if throttle q > 0 then setp p (q\<lparr>throttle := throttle q - 1\<rparr>) d else d);
     d \<leftarrow> (if nextdate q \<le> rnow env then if FLAG_REFCLOCK AND pflags q \<noteq> 0 then refclock_transmit env p d else transmit env p d else Some d);
     timer_peers env ps d
   }"

definition timer_orphan :: "renv \<Rightarrow> daemon \<Rightarrow> daemon" where
  "timer_orphan env d =
     (if sys_orphan d < uint STRATUM_UNSPEC \<and> sys_peer d = None \<and> rnow env > orphwait d
      then let d = (if sys_leap d = LEAP_NOTINSYNC then d\<lparr>sys_leap := LEAP_NOWARNING\<rparr> else d);
               d = d\<lparr>sys_stratum := word_of_int (sys_orphan d)\<rparr>
           in d\<lparr>sys_refid := (if sys_stratum d > 1 then LOOPBACKADR else fourcc ''LOOP''), sys_rootdelay := 0, sys_rootdisp := 0\<rparr>
      else d)"

text \<open>Without kernel discipline the clock is stepped at the end of the day.\<close>

definition timer_leap :: "daemon \<Rightarrow> daemon" where
  "timer_leap d =
     (if leapsec d > 0
      then let d = d\<lparr>leapsec := leapsec d - 1\<rparr>
           in if leapsec d = 0 then d\<lparr>sys_leap := LEAP_NOWARNING, sys_tai := leap_tai d, handed := handed d @ [Step_second]\<rparr>
              else let d = (if leapsec d < 86400 then d\<lparr>sys_leap := LEAP_ADDSECOND\<rparr> else d)
                   in if leap_tai d > 0 then d\<lparr>sys_tai := leap_tai d - 1\<rparr> else d
      else d)"

definition timer_second :: "renv \<Rightarrow> daemon \<Rightarrow> daemon option" where
  "timer_second env d = do {
     d \<leftarrow> timer_peers env (peer_list (peers d)) d;
     Some (timer_leap (timer_orphan env d))
   }"

section \<open>Packets of an association\<close>

definition burst_count :: "peer \<Rightarrow> int option" where
  "burst_count q =
     (if reach q \<noteq> 0 then if minpoll q \<le> hpoll q then map_option (\<lambda>n. min n NTP_SHIFT - 1) (shl1 (hpoll q - minpoll q)) else None
      else Some (NTP_IBURST - 1))"

definition arm_burst :: "renv \<Rightarrow> peer \<Rightarrow> peer option" where
  "arm_burst env q =
     (if retry q > 0
      then map_option (\<lambda>b. let q = q\<lparr>retry := 0, burst := b\<rparr> in if burst q > 0 then q\<lparr>nextdate := rnow env\<rparr> else q) (burst_count q)
      else Some q)"

text \<open>A difference of time stamps that is negative or more than a second; the conversion to \<^verbatim>\<open>double\<close> does not change the outcome.\<close>

definition lfp_outside :: "l_fp \<Rightarrow> bool" where
  "lfp_outside t \<longleftrightarrow> sint (lfp_val t) < 0 \<or> sint (lfp_val t) > 2 ^ 32"

text \<open>The sample goes to the clock filter, and a broadcast client that has measured the delay stops its volley.\<close>

definition process_filter :: "renv \<Rightarrow> addr \<Rightarrow> sample \<Rightarrow> daemon \<Rightarrow> daemon option" where
  "process_filter env p smp d = do {
     d \<leftarrow> clock_filter env p smp d;
     let q = getp p d;
     Some (if FLAG_BC_VOL AND pflags q \<noteq> 0 \<and> MODE_CLIENT = hmode q
           then let (unfit, q) = peer_unfit (pe env) (peers d) q in setp p (if TEST11 AND unfit = 0 then q\<lparr>hmode := MODE_BCLIENT\<rparr> else q) d
           else d)
   }"

definition process_sample :: "renv \<Rightarrow> rbuf \<Rightarrow> addr \<Rightarrow> daemon \<Rightarrow> daemon option" where
  "process_sample env rb p d =
     (let q = getp p d;
          p_org = pkt_org rb; p_rec = pkt_rec rb; p_xmt = pkt_xmt rb
      in if flip q \<noteq> 0
         then let t34 = L_SUB p_xmt (pdst q);
                  t21 = L_SUB p_rec (if flip q > 0 then borg q else aorg q)
              in if delay_invalid env t21 t34 then Some d else process_filter env p (Interleaved t21 t34) d
         else if pmode q = MODE_BROADCAST
         then if pflags q AND FLAG_XB \<noteq> 0
              then let t34 = L_SUB p_org (aorg q);
                       t21 = L_SUB p_org (borg q);
                       q = q\<lparr>aorg := p_xmt, borg := pdst q\<rparr>
                   in if lfp_outside t34 then Some (setp p q d)
                      else process_filter env p (Interleaved_broadcast t21 t34) (setp p (q\<lparr>pflags := pflags q AND NOT FLAG_BC_VOL\<rparr>) d)
              else process_filter env p (Broadcast (L_SUB p_xmt (pdst q))) (setp p (q\<lparr>pflags := pflags q AND NOT FLAG_BC_VOL\<rparr>) d)
         else process_filter env p (Basic (L_SUB p_rec p_org) (L_SUB p_xmt (pdst q))) d)"

text \<open>Half the root delay plus the root dispersion is compared with 16 s, which \<^verbatim>\<open>double\<close> computes exactly.\<close>

definition header_tests :: "renv \<Rightarrow> rbuf \<Rightarrow> peer \<Rightarrow> peer" where
  "header_tests env rb q =
     (let pleap = PKT_LEAP (pkt_li_vn_mode rb);
          pstratum = PKT_TO_STRATUM (pkt_stratum rb);
          q = (if pleap = LEAP_NOTINSYNC \<or> uint pstratum < sys_floor (pe env) \<or> uint pstratum \<ge> sys_ceiling (pe env) then q\<lparr>flash := flash q OR TEST6\<rparr> else q)
      in if uint (pkt_rootdelay rb) + 2 * uint (pkt_rootdisp rb) \<ge> 32 * 65536 then q\<lparr>flash := flash q OR TEST7\<rparr> else q)"

definition process_packet :: "renv \<Rightarrow> rbuf \<Rightarrow> addr \<Rightarrow> daemon \<Rightarrow> daemon option" where
  "process_packet env rb p d = do {
     let d = d\<lparr>sys_processed := sys_processed d + 1\<rparr>;
     let q = getp p d;
     let q = q\<lparr>processed := processed q + 1, leap := PKT_LEAP (pkt_li_vn_mode rb), stratum := min (PKT_TO_STRATUM (pkt_stratum rb)) STRATUM_UNSPEC,
               pmode := PKT_MODE (pkt_li_vn_mode rb), precision := pkt_precision rb, refid := pkt_refid rb, reftime := pkt_reftime rb\<rparr>;
     q \<leftarrow> arm_burst env q;
     q \<leftarrow> poll_update (pe env) (hpoll q) q;
     let q = header_tests env rb q;
     if flash q AND PKT_TEST_MASK \<noteq> 0 then Some (setp p (q\<lparr>seldisptoolarge := seldisptoolarge q + 1\<rparr>) d)
     else
       let q = (if reach q = 0 then q\<lparr>timereachable := rnow env\<rparr> else q)
       in process_sample env rb p (setp p (q\<lparr>reach := reach q OR 1\<rparr>) d)
   }"

section \<open>Receiving\<close>

datatype auth = AUTH_NONE | AUTH_OK | AUTH_ERROR | AUTH_CRYPTO

definition AUTH :: "bool \<Rightarrow> auth \<Rightarrow> bool" where
  "AUTH x y = (if x then y = AUTH_OK else y = AUTH_OK \<or> y = AUTH_NONE)"

text \<open>
  The extension fields.  The length that is left is compared as \<^verbatim>\<open>size_t\<close>, so that a negative one is large.  The result is the offset and length of the
  authentication code and the key identifier, or \<open>None\<close> for a bad length.
\<close>

function parse_mac :: "rbuf \<Rightarrow> int \<Rightarrow> (int \<times> int \<times> keyid_t) option" where
  "parse_mac rb authlen =
     (let has_mac = recv_length rb - authlen
      in if has_mac = 0 then Some (authlen, 0, 0)
         else if has_mac mod 4 \<noteq> 0 \<or> (word_of_int has_mac :: u_int64) < MIN_MAC_LEN then None
         else if (word_of_int has_mac :: u_int64) \<le> MAX_MAC_LEN then Some (authlen, has_mac, be32_at rb (nat authlen))
         else let len = be32_at rb (nat authlen) AND 0xffff
              in if len mod 4 \<noteq> 0 \<or> len < 4 \<or> uint len + authlen > recv_length rb then None else parse_mac rb (authlen + uint len))"
  by pat_completeness auto
termination
  by (relation "measure (\<lambda>(rb, authlen). nat (recv_length rb - authlen))") (auto simp: word_less_def)

declare parse_mac.simps [simp del]

text \<open>The tests of the time stamps; the first component tells that the packet is dropped.\<close>

definition stamps_begin :: "peer \<Rightarrow> peer" where
  "stamps_begin q =
     (let q = q\<lparr>received := received q + 1, flash := flash q AND NOT PKT_TEST_MASK\<rparr>
      in if pflags q AND FLAG_XBOGUS \<noteq> 0 then q\<lparr>pflags := pflags q AND NOT FLAG_XBOGUS, flash := flash q OR TEST3\<rparr> else q)"

definition check_stamps :: "u_char \<Rightarrow> rbuf \<Rightarrow> peer \<Rightarrow> bool \<times> peer" where
  "check_stamps hismode rb q =
     (let p_org = pkt_org rb; p_rec = pkt_rec rb; p_xmt = pkt_xmt rb;
          q = stamps_begin q
      in if L_ISZERO p_xmt then (False, q\<lparr>flash := flash q OR TEST3\<rparr>)
         else if L_ISEQU (pxmt q) p_xmt then (True, q\<lparr>flash := flash q OR TEST1, oldpkt := oldpkt q + 1\<rparr>)
         else if hismode = MODE_BROADCAST
         then if \<not> L_ISZERO p_org \<and> pflags q AND FLAG_XB = 0 then (True, q\<lparr>pflags := pflags q OR FLAG_XB, aorg := p_xmt, borg := recv_time rb\<rparr>)
              else (False, q)
         else if flip q = 0
         then if \<not> L_ISEQU p_org (aorg q)
              then let q = q\<lparr>bogusorg := bogusorg q + 1, flash := flash q OR TEST2\<rparr>
                   in (False, if \<not> L_ISZERO (pdst q) \<and> L_ISEQU p_org (pdst q) then q\<lparr>flip := 1\<rparr> else q)
              else (False, q\<lparr>aorg := zero_lfp\<rparr>)
         else if L_ISZERO p_org \<or> L_ISZERO p_rec \<or> L_ISZERO (pdst q) then (False, q\<lparr>flash := flash q OR TEST3\<rparr>)
         else if \<not> L_ISZERO (pdst q) \<and> \<not> L_ISEQU p_org (pdst q)
         then (False, q\<lparr>bogusorg := bogusorg q + 1, pflags := pflags q OR FLAG_XBOGUS, flash := flash q OR TEST2\<rparr>)
         else (False, q))"

definition update_stamps :: "u_char \<Rightarrow> rbuf \<Rightarrow> peer \<Rightarrow> peer" where
  "update_stamps hismode rb q =
     (let q = (if flip q = 0 then (if hismode \<noteq> MODE_BROADCAST then q\<lparr>prec := pkt_xmt rb\<rparr> else q)\<lparr>pdst := recv_time rb\<rparr> else q)
      in q\<lparr>pxmt := pkt_xmt rb\<rparr>)"

definition unpeer_preempt :: "renv \<Rightarrow> addr \<Rightarrow> daemon \<Rightarrow> daemon option" where
  "unpeer_preempt env p d =
     (if pflags (getp p d) AND FLAG_PREEMPT \<noteq> 0 then map_option (\<lambda>s. put_peers env s d) (unpeer (pe env) p (peers d)) else Some d)"

definition is_kod :: "u_char \<Rightarrow> rbuf \<Rightarrow> bool" where
  "is_kod hismode rb \<longleftrightarrow> hismode = MODE_SERVER \<and> PKT_LEAP (pkt_li_vn_mode rb) = LEAP_NOTINSYNC \<and>
     PKT_TO_STRATUM (pkt_stratum rb) = STRATUM_UNSPEC \<and> pkt_refid rb = fourcc ''RATE''"

definition kiss :: "renv \<Rightarrow> rbuf \<Rightarrow> peer \<Rightarrow> peer option" where
  "kiss env rb q = do {
     let q = q\<lparr>selbroken := selbroken q + 1\<rparr>;
     let q = (if pkt_ppoll rb > minpoll q then q\<lparr>minpoll := ppoll q\<rparr> else q);
     let q = q\<lparr>burst := 0, retry := 0\<rparr>;
     sm \<leftarrow> shl1 (minpoll q);
     poll_update (pe env) (pkt_ppoll rb) (q\<lparr>throttle := s32 ((NTP_SHIFT + 1) * sm)\<rparr>)
   }"

text \<open>After an interleaved packet.\<close>

definition interleave_end :: "renv \<Rightarrow> rbuf \<Rightarrow> peer \<Rightarrow> peer option" where
  "interleave_end env rb q =
     (if flip q \<noteq> 0
      then let q = q\<lparr>prec := pkt_rec rb, pdst := recv_time rb\<rparr>;
               n = min (ppoll q) (hpoll q)
           in if n < 32
              then Some (q\<lparr>nextdate := (if nextdate q - rnow env < ucast ((push_bit (unat n) 1 :: u_int32) div 2) then nextdate q + 1 else nextdate q - 1)\<rparr>)
              else None
      else Some q)"

definition receive_peer :: "renv \<Rightarrow> rbuf \<Rightarrow> addr option \<Rightarrow> u_char \<Rightarrow> u_short \<Rightarrow> int \<Rightarrow> auth \<Rightarrow> addr \<Rightarrow> daemon \<Rightarrow> daemon option" where
  "receive_peer env rb dst hismode restrict_mask has_mac is_authentic p d =
     (let (dropped, q) = check_stamps hismode rb (getp p d)
      in if dropped then Some (setp p q d)
         else
           let q = update_stamps hismode rb q
           in if is_authentic = AUTH_CRYPTO
              then unpeer_preempt env p (setp p (q\<lparr>flash := flash q OR TEST5, badauth := badauth q + 1\<rparr>) d)
              else if \<not> AUTH (has_mac \<noteq> 0 \<or> restrict_mask AND RES_DONTTRUST \<noteq> 0) is_authentic
              then do {
                let d = setp p (q\<lparr>flash := flash q OR TEST5, badauth := badauth q + 1\<rparr>) d;
                d \<leftarrow> (if hismode = MODE_ACTIVE \<or> hismode = MODE_PASSIVE then map_option snd (fast_xmit env rb dst MODE_ACTIVE 0 restrict_mask d) else Some d);
                unpeer_preempt env p d
              }
              else
                let q = q\<lparr>ppoll := max (minpoll q) (pkt_ppoll rb)\<rparr>
                in if is_kod hismode rb then map_option (\<lambda>q. setp p q d) (kiss env rb q)
                   else do {
                     let q = q\<lparr>timereceived := rnow env,
                       pflags := (if is_authentic = AUTH_OK then pflags q OR FLAG_AUTHENTIC else pflags q AND NOT FLAG_AUTHENTIC)\<rparr>;
                     d \<leftarrow> process_packet env rb p (setp p q d);
                     map_option (\<lambda>q. setp p q d) (interleave_end env rb (getp p d))
                   })"

text \<open>The outcome of the authentication code: absent, a refusal, or checked with the key.\<close>

definition authenticate :: "renv \<Rightarrow> rbuf \<Rightarrow> int \<Rightarrow> int \<Rightarrow> keyid_t \<Rightarrow> daemon \<Rightarrow> (auth \<times> daemon) option" where
  "authenticate env rb authlen has_mac skeyid d =
     (if has_mac = 0 then Some (AUTH_NONE, d)
      else if has_mac = 4 then Some (AUTH_CRYPTO, d)
      else do {
        (ok, ks) \<leftarrow> authdecrypt (evp env) skeyid (recv_buf rb) (nat authlen) has_mac (keys d);
        Some (if ok then AUTH_OK else AUTH_ERROR, d\<lparr>keys := ks\<rparr>)
      })"

definition restricted :: "daemon \<Rightarrow> daemon" where "restricted d = d\<lparr>sys_restricted := sys_restricted d + 1\<rparr>"
definition declined :: "daemon \<Rightarrow> daemon" where "declined d = d\<lparr>sys_declined := sys_declined d + 1\<rparr>"
definition badlength :: "daemon \<Rightarrow> daemon" where "badlength d = d\<lparr>sys_badlength := sys_badlength d + 1\<rparr>"

text \<open>A stratum below the floor or not below the ceiling.\<close>

definition stratum_bad :: "renv \<Rightarrow> u_char \<Rightarrow> bool" where
  "stratum_bad env hisstratum \<longleftrightarrow> uint hisstratum < sys_floor (pe env) \<or> uint hisstratum \<ge> sys_ceiling (pe env)"

text \<open>A client without an association.\<close>

definition am_fxmit :: "renv \<Rightarrow> rbuf \<Rightarrow> u_short \<Rightarrow> keyid_t \<Rightarrow> auth \<Rightarrow> daemon \<Rightarrow> daemon option" where
  "am_fxmit env rb restrict_mask skeyid is_authentic d =
     (let ep = ifaces (peers d) (rdstadr rb);
          hisstratum = PKT_TO_STRATUM (pkt_stratum rb)
      in if if_flags ep AND INT_MCASTOPEN = 0
         then if AUTH (restrict_mask AND RES_DONTTRUST \<noteq> 0) is_authentic then answer env rb MODE_SERVER skeyid restrict_mask d
              else if is_authentic = AUTH_ERROR
              then map_option (\<lambda>d. d\<lparr>sys_badauth := sys_badauth d + 1\<rparr>) (answer env rb MODE_SERVER 0 restrict_mask d)
              else Some (restricted d)
         else if \<not> sys_manycastserver d then Some (restricted d)
         else if sys_leap d = LEAP_NOTINSYNC \<or> sys_stratum d \<ge> hisstratum \<or> \<not> sys_cohort d \<and> uint (sys_stratum d) = uint hisstratum + 1 \<or>
                 if_addr_refid ep = pkt_refid rb
         then Some (declined d)
         else if AUTH (restrict_mask AND RES_DONTTRUST \<noteq> 0) is_authentic then answer env rb MODE_SERVER skeyid restrict_mask d
         else Some d)"

text \<open>A server that answers a solicitation.\<close>

definition am_manycast :: "renv \<Rightarrow> rbuf \<Rightarrow> u_short \<Rightarrow> keyid_t \<Rightarrow> auth \<Rightarrow> daemon \<Rightarrow> daemon option" where
  "am_manycast env rb restrict_mask skeyid is_authentic d =
     (case findmanycastpeer rb (peers d) of
        None \<Rightarrow> Some (restricted d)
      | Some p2 \<Rightarrow>
          let peer2 = getp p2 d;
              hisstratum = PKT_TO_STRATUM (pkt_stratum rb)
          in if \<not> AUTH (cast_flags peer2 AND MDF_POOL = 0 \<and> sys_authenticate d \<or> restrict_mask AND (RES_NOPEER OR RES_DONTTRUST) \<noteq> 0) is_authentic
             then Some (restricted d)
             else if PKT_LEAP (pkt_li_vn_mode rb) = LEAP_NOTINSYNC \<or> stratum_bad env hisstratum then Some (declined d)
             else do {
               (r, s) \<leftarrow> newpeer (pe env) (recv_srcadr rb) None (Some (rdstadr rb)) MODE_CLIENT (PKT_VERSION (pkt_li_vn_mode rb)) (minpoll peer2) (maxpoll peer2)
                 (FLAG_PREEMPT OR (FLAG_IBURST AND pflags peer2)) (MDF_UCAST OR MDF_UCLNT) 0 skeyid (sys_ident d) (peers d);
               let d = put_peers env s d;
               if r = None then Some (declined d)
               else Some (if cast_flags peer2 AND MDF_POOL \<noteq> 0 then setp p2 ((getp p2 d)\<lparr>nextdate := rnow env + 1\<rparr>) d else d)
             })"

text \<open>
  The first packet of a broadcast server; the association is returned when the packet is processed further, which is when the delay is configured.
\<close>

definition am_newbcl :: "renv \<Rightarrow> rbuf \<Rightarrow> u_short \<Rightarrow> keyid_t \<Rightarrow> auth \<Rightarrow> daemon \<Rightarrow> (addr option \<times> daemon) option" where
  "am_newbcl env rb restrict_mask skeyid is_authentic d =
     (let hisstratum = PKT_TO_STRATUM (pkt_stratum rb);
          hisversion = PKT_VERSION (pkt_li_vn_mode rb)
      in if \<not> sys_bclient d then Some (None, restricted d)
         else if \<not> AUTH (sys_authenticate d \<or> restrict_mask AND (RES_NOPEER OR RES_DONTTRUST) \<noteq> 0) is_authentic then Some (None, restricted d)
         else if PKT_LEAP (pkt_li_vn_mode rb) = LEAP_NOTINSYNC \<or> stratum_bad env hisstratum then Some (None, declined d)
         else
           let match_ep = (if INT_MCASTOPEN AND if_flags (ifaces (peers d) (rdstadr rb)) = 0 then Some (rdstadr rb) else None)
           in if sys_bdelay d
              then do {
                (r, s) \<leftarrow> newpeer (pe env) (recv_srcadr rb) None match_ep MODE_BCLIENT hisversion (pkt_ppoll rb) (pkt_ppoll rb) FLAG_PREEMPT MDF_BCLNT 0 skeyid
                  (sys_ident d) (peers d);
                let d = put_peers env s d;
                Some (if r = None then (None, restricted d) else (r, d))
              }
              else do {
                (r, s) \<leftarrow> newpeer (pe env) (recv_srcadr rb) None match_ep MODE_CLIENT hisversion (pkt_ppoll rb) (pkt_ppoll rb)
                  (FLAG_BC_VOL OR FLAG_IBURST OR FLAG_PREEMPT) MDF_BCLNT 0 skeyid (sys_ident d) (peers d);
                let d = put_peers env s d;
                Some (None, if r = None then restricted d else d)
              })"

text \<open>
  The first packet of a symmetric active peer.  The source goes on when the authentication has failed, with the endpoint that \<^verbatim>\<open>fast_xmit\<close> has left in the
  buffer.
\<close>

definition am_newpass :: "renv \<Rightarrow> rbuf \<Rightarrow> u_short \<Rightarrow> keyid_t \<Rightarrow> auth \<Rightarrow> daemon \<Rightarrow> (addr option \<times> addr option \<times> daemon) option" where
  "am_newpass env rb restrict_mask skeyid is_authentic d =
     (let hisstratum = PKT_TO_STRATUM (pkt_stratum rb);
          dst = Some (rdstadr rb);
          allowed = AUTH (sys_authenticate d \<or> restrict_mask AND (RES_NOPEER OR RES_DONTTRUST) \<noteq> 0) is_authentic
      in if \<not> allowed \<and> AUTH (restrict_mask AND RES_DONTTRUST \<noteq> 0) is_authentic
         then map_option (\<lambda>(dst, d). (None, dst, d)) (fast_xmit env rb dst MODE_PASSIVE skeyid restrict_mask d)
         else do {
           (dst, d) \<leftarrow> (if \<not> allowed \<and> is_authentic = AUTH_ERROR
                       then map_option (\<lambda>(dst, d). (dst, restricted d)) (fast_xmit env rb dst MODE_ACTIVE 0 restrict_mask d) else Some (dst, d));
           if PKT_LEAP (pkt_li_vn_mode rb) \<noteq> LEAP_NOTINSYNC \<and> stratum_bad env hisstratum then Some (None, dst, declined d)
           else do {
             (r, s) \<leftarrow> newpeer (pe env) (recv_srcadr rb) None dst MODE_PASSIVE (PKT_VERSION (pkt_li_vn_mode rb)) (pkt_ppoll rb) NTP_MAXDPOLL 0
               MDF_UCAST 0 skeyid (sys_ident d) (peers d);
             let d = put_peers env s d;
             Some (if r = None then (None, dst, declined d) else (r, dst, d))
           }
         })"

text \<open>The packet has passed the restrictions and the monitor: find its association, check its code, and act as the table of modes says.\<close>

definition receive_match :: "renv \<Rightarrow> rbuf \<Rightarrow> u_char \<Rightarrow> u_short \<Rightarrow> int \<Rightarrow> int \<Rightarrow> keyid_t \<Rightarrow> daemon \<Rightarrow> daemon option" where
  "receive_match env rb hismode restrict_mask authlen has_mac skeyid d = do {
     (peer, retcode, s) \<leftarrow> findpeer rb hismode (peers d);
     let d = d\<lparr>peers := s\<rparr>;
     (is_authentic, d) \<leftarrow> authenticate env rb authlen has_mac skeyid d;
     let restrict_mask = restrict_mask AND NOT RES_MSSNTP;
     let continue = (\<lambda>(r, dst, d). case r of None \<Rightarrow> Some d | Some p \<Rightarrow> receive_peer env rb dst hismode restrict_mask has_mac is_authentic p d);
     case retcode of
       AM_FXMIT \<Rightarrow> am_fxmit env rb restrict_mask skeyid is_authentic d
     | AM_MANYCAST \<Rightarrow> am_manycast env rb restrict_mask skeyid is_authentic d
     | AM_NEWBCL \<Rightarrow> am_newbcl env rb restrict_mask skeyid is_authentic d \<bind> (\<lambda>(r, d). continue (r, Some (rdstadr rb), d))
     | AM_NEWPASS \<Rightarrow> am_newpass env rb restrict_mask skeyid is_authentic d \<bind> continue
     | AM_PROCPKT \<Rightarrow> (case peer of None \<Rightarrow> None | Some p \<Rightarrow> continue (Some p, Some (rdstadr rb), d))
     | AM_ERR \<Rightarrow> Some (declined d)
     | AM_NOMATCH \<Rightarrow> Some (declined d)
   }"

definition rpacket_of :: "rbuf \<Rightarrow> rpacket" where
  "rpacket_of rb = \<lparr>p_time = recv_time rb, p_srcadr = recv_srcadr rb, p_dstadr = rdstadr rb, p_fd = rfd rb, p_li_vn_mode = pkt_li_vn_mode rb\<rparr>"

text \<open>The monitor counts the packet, and drops it or answers with a kiss when its source sends too often.\<close>

definition receive_limit :: "renv \<Rightarrow> rbuf \<Rightarrow> u_char \<Rightarrow> u_short \<Rightarrow> int \<Rightarrow> int \<Rightarrow> keyid_t \<Rightarrow> daemon \<Rightarrow> daemon option" where
  "receive_limit env rb hismode restrict_mask authlen has_mac skeyid d = do {
     (restrict_mask, m) \<leftarrow> ntp_monitor (mon_cf (pe env)) (\<lambda>i. endpt.truncate (ifaces (peers d) i)) (mon_refuse env) (rpacket_of rb) restrict_mask (mon d);
     let d = d\<lparr>mon := m\<rparr>;
     if restrict_mask AND RES_LIMITED \<noteq> 0
     then let d = d\<lparr>sys_limitrejected := sys_limitrejected d + 1\<rparr>
          in if restrict_mask AND RES_KOD = 0 \<or> MODE_BROADCAST = hismode \<or> MODE_SERVER = hismode then Some d
             else answer env rb (if hismode = MODE_CLIENT then MODE_SERVER else MODE_ACTIVE) skeyid restrict_mask d
     else receive_match env rb hismode (restrict_mask AND NOT RES_KOD) authlen has_mac skeyid d
   }"

text \<open>The version, the mode and the extension fields.\<close>

definition receive_format :: "renv \<Rightarrow> rbuf \<Rightarrow> u_short \<Rightarrow> daemon \<Rightarrow> daemon option" where
  "receive_format env rb restrict_mask d =
     (let hisversion = PKT_VERSION (pkt_li_vn_mode rb);
          hismode = PKT_MODE (pkt_li_vn_mode rb)
      in if hisversion \<noteq> NTP_VERSION \<and> \<not> (restrict_mask AND RES_VERSION = 0 \<and> hisversion \<ge> NTP_OLDVERSION) then Some (badlength d)
         else
           let d = (if hisversion = NTP_VERSION then d\<lparr>sys_newversion := sys_newversion d + 1\<rparr> else d\<lparr>sys_oldversion := sys_oldversion d + 1\<rparr>)
           in if hismode = MODE_UNSPEC \<and> hisversion \<noteq> NTP_OLDVERSION then Some (badlength d)
              else
                let hismode = (if hismode = MODE_UNSPEC then MODE_CLIENT else hismode)
                in case parse_mac rb (int LEN_PKT_NOMAC) of
                     None \<Rightarrow> Some (badlength d)
                   | Some (authlen, has_mac, skeyid) \<Rightarrow>
                       if restrict_mask AND RES_DONTTRUST \<noteq> 0 \<and> has_mac = 0 then Some (restricted d)
                       else receive_limit env rb hismode restrict_mask authlen has_mac skeyid d)"

definition receive :: "renv \<Rightarrow> rbuf \<Rightarrow> daemon \<Rightarrow> daemon option" where
  "receive env rb d =
     (let d = d\<lparr>sys_received := sys_received d + 1\<rparr>
      in if SRCPORT (recv_srcadr rb) = 0 then Some (badlength d)
         else do {
           (restrict_mask, r) \<leftarrow> restrictions (rnow env) (recv_srcadr rb) (restricts (peers d));
           let d = put_peers env ((peers d)\<lparr>restricts := r\<rparr>) d;
           let hismode = PKT_MODE (pkt_li_vn_mode rb);
           if restrict_mask AND RES_IGNORE \<noteq> 0 then Some (restricted d)
           else if hismode = MODE_PRIVATE
           then Some (if \<not> ntp_mode7 d \<or> restrict_mask AND RES_NOQUERY \<noteq> 0 then restricted d
                      else d\<lparr>handed := handed d @ [To_private rb (restrict_mask AND RES_NOMODIFY = 0)]\<rparr>)
           else if hismode = MODE_CONTROL
           then Some (if restrict_mask AND RES_NOQUERY \<noteq> 0 then restricted d else d\<lparr>handed := handed d @ [To_control rb restrict_mask]\<rparr>)
           else if restrict_mask AND RES_DONTSERVE \<noteq> 0 then Some (restricted d)
           else if restrict_mask AND RES_FLAKE \<noteq> 0 \<and> flaked env then Some (restricted d)
           else receive_format env rb restrict_mask d
         })"


section \<open>Packets as bytes\<close>

lemma lfp_bytes_length [simp]: "length (htonl_bytes w) = 4" "length (lfp_bytes t) = 8" "length (pkt_bytes x) = 48" "length (xpkt_memory x) = 76"
  by (simp_all add: htonl_bytes_def lfp_bytes_def pkt_bytes_def xpkt_memory_def)

lemma byte_at_append: "recv_buf rb = pre @ bs @ post \<Longrightarrow> length pre \<le> i \<Longrightarrow> i < length pre + length bs \<Longrightarrow> byte_at rb i = bs ! (i - length pre)"
  by (auto simp: byte_at_def nth_append)

lemma be32_bytes: "push_bit 24 (ucast (ucast (drop_bit 24 x) :: u_char)) OR push_bit 16 (ucast (ucast (drop_bit 16 x) :: u_char)) OR
    push_bit 8 (ucast (ucast (drop_bit 8 x) :: u_char)) OR ucast (ucast x :: u_char) = (x :: u_int32)"
proof (rule bit_word_eqI)
  fix n assume n: "n < LENGTH(32)"
  have "n < 8 \<or> 8 \<le> n \<and> n < 16 \<or> 16 \<le> n \<and> n < 24 \<or> 24 \<le> n" by linarith
  then show "bit (push_bit 24 (ucast (ucast (drop_bit 24 x) :: u_char)) OR push_bit 16 (ucast (ucast (drop_bit 16 x) :: u_char)) OR
    push_bit 8 (ucast (ucast (drop_bit 8 x) :: u_char)) OR ucast (ucast x :: u_char) :: u_int32) n = bit x n"
    using n by (elim disjE) (auto simp: bit_or_iff bit_push_bit_iff bit_drop_bit_eq bit_ucast_iff)
qed

lemma be32_at_htonl:
  assumes "recv_buf rb = pre @ htonl_bytes x @ post" "length pre = i"
  shows "be32_at rb i = x"
proof -
  have "byte_at rb (i + k) = htonl_bytes x ! k" if "k < 4" for k
    using byte_at_append [OF assms(1), of "i + k"] assms(2) that by simp
  from this [of 0] this [of 1] this [of 2] this [of 3] show ?thesis
    unfolding be32_at_def by (simp add: be32_bytes htonl_bytes_def del: One_nat_def)
qed

lemma NTOHL_FP_bytes:
  assumes "recv_buf rb = pre @ lfp_bytes t @ post" "length pre = i"
  shows "NTOHL_FP rb i = t"
  using be32_at_htonl [of rb pre "l_ui t" "htonl_bytes (l_uf t) @ post" i] be32_at_htonl [of rb "pre @ htonl_bytes (l_ui t)" "l_uf t" post "i + 4"] assms
  by (simp add: NTOHL_FP_def lfp_bytes_def)

lemma pkt_decode:
  assumes "recv_buf rb = pkt_bytes x @ rest"
  shows "pkt_li_vn_mode rb = x_li_vn_mode x" "pkt_stratum rb = x_stratum x" "pkt_ppoll rb = x_ppoll x" "pkt_precision rb = sint (word_of_int (x_precision x) :: u_char)"
    "pkt_rootdelay rb = x_rootdelay x" "pkt_rootdisp rb = x_rootdisp x" "pkt_refid rb = x_refid x" "pkt_reftime rb = x_reftime x" "pkt_org rb = x_org x"
    "pkt_rec rb = x_rec x" "pkt_xmt rb = x_xmt x"
proof -
  define h where "h = [x_li_vn_mode x, x_stratum x, x_ppoll x, word_of_int (x_precision x)]"
  have l: "length h = 4" by (simp add: h_def)
  have e: "recv_buf rb = h @ htonl_bytes (x_rootdelay x) @ htonl_bytes (x_rootdisp x) @ htonl_bytes (x_refid x) @ lfp_bytes (x_reftime x) @ lfp_bytes (x_org x) @
     lfp_bytes (x_rec x) @ lfp_bytes (x_xmt x) @ rest" using assms by (simp add: pkt_bytes_def h_def)
  have b: "byte_at rb i = h ! i" if "i < 4" for i using that e l by (simp add: byte_at_def nth_append)
  show "pkt_li_vn_mode rb = x_li_vn_mode x" "pkt_stratum rb = x_stratum x" "pkt_ppoll rb = x_ppoll x" "pkt_precision rb = sint (word_of_int (x_precision x) :: u_char)"
    using b [of 0] b [of 1] b [of 2] b [of 3] by (simp_all add: pkt_li_vn_mode_def pkt_stratum_def pkt_ppoll_def pkt_precision_def h_def)
  show "pkt_rootdelay rb = x_rootdelay x" unfolding pkt_rootdelay_def by (rule be32_at_htonl [of _ h]) (use e l in simp_all)
  show "pkt_rootdisp rb = x_rootdisp x" unfolding pkt_rootdisp_def by (rule be32_at_htonl [of _ "h @ htonl_bytes (x_rootdelay x)"]) (use e l in simp_all)
  show "pkt_refid rb = x_refid x" unfolding pkt_refid_def
    by (rule be32_at_htonl [of _ "h @ htonl_bytes (x_rootdelay x) @ htonl_bytes (x_rootdisp x)"]) (use e l in simp_all)
  define h2 where "h2 = h @ htonl_bytes (x_rootdelay x) @ htonl_bytes (x_rootdisp x) @ htonl_bytes (x_refid x)"
  have l2: "length h2 = 16" and e2: "recv_buf rb = h2 @ lfp_bytes (x_reftime x) @ lfp_bytes (x_org x) @ lfp_bytes (x_rec x) @ lfp_bytes (x_xmt x) @ rest"
    using e l by (simp_all add: h2_def)
  show "pkt_reftime rb = x_reftime x" unfolding pkt_reftime_def by (rule NTOHL_FP_bytes [of _ h2]) (use e2 l2 in simp_all)
  show "pkt_org rb = x_org x" unfolding pkt_org_def by (rule NTOHL_FP_bytes [of _ "h2 @ lfp_bytes (x_reftime x)"]) (use e2 l2 in simp_all)
  show "pkt_rec rb = x_rec x" unfolding pkt_rec_def by (rule NTOHL_FP_bytes [of _ "h2 @ lfp_bytes (x_reftime x) @ lfp_bytes (x_org x)"]) (use e2 l2 in simp_all)
  show "pkt_xmt rb = x_xmt x" unfolding pkt_xmt_def
    by (rule NTOHL_FP_bytes [of _ "h2 @ lfp_bytes (x_reftime x) @ lfp_bytes (x_org x) @ lfp_bytes (x_rec x)"]) (use e2 l2 in simp_all)
qed

lemma u_char_eqI: "(\<And>n. n \<in> {0, 1, 2, 3, 4, 5, 6, 7} \<Longrightarrow> bit a n = bit b n) \<Longrightarrow> a = (b :: u_char)"
  by (rule bit_word_eqI) (auto simp: less_Suc_eq numeral_eq_Suc)

lemma mode_byte:
  "PKT_LEAP (PKT_LI_VN_MODE l v m) = l AND 3" "PKT_VERSION (PKT_LI_VN_MODE l v m) = v AND 7" "PKT_MODE (PKT_LI_VN_MODE l v m) = m AND 7"
  by (rule u_char_eqI; auto simp: PKT_LEAP_def PKT_VERSION_def PKT_MODE_def PKT_LI_VN_MODE_def VN_MODE_def bit_simps)+

lemma stratum_code: "s \<noteq> STRATUM_PKT_UNSPEC \<Longrightarrow> PKT_TO_STRATUM (STRATUM_TO_PKT s) = s" "STRATUM_TO_PKT STRATUM_UNSPEC = STRATUM_PKT_UNSPEC"
  by (auto simp: PKT_TO_STRATUM_def STRATUM_TO_PKT_def STRATUM_UNSPEC_def STRATUM_PKT_UNSPEC_def)

section \<open>Poll intervals\<close>

lemma getp_setp [simp]: "getp p (setp p q d) = q" "setp p q (setp p q' d) = setp p q d"
  by (simp_all add: getp_def setp_def upd_peer_def)

lemma setp_other: "r \<noteq> p \<Longrightarrow> getp r (setp p q d) = getp r d"
  by (simp add: getp_def setp_def upd_peer_def)

text \<open>The exponents of an association are in the range that the documentation gives.\<close>

definition poll_fit :: "peer \<Rightarrow> bool" where
  "poll_fit q \<longleftrightarrow> minpoll q \<le> hpoll q \<and> hpoll q \<le> NTP_MAXPOLL \<and> maxpoll q \<le> NTP_MAXPOLL \<and> ppoll q \<le> NTP_MAXPOLL"

lemma shl1_small [simp]: "n \<le> NTP_MAXPOLL \<Longrightarrow> shl1 n = Some (2 ^ unat n)"
  by (simp add: shl1_def NTP_MAXPOLL_def word_less_nat_alt word_le_nat_alt)

lemma poll_less_64: "n \<le> NTP_MAXPOLL \<Longrightarrow> n < (64 :: u_char)"
  by (simp add: NTP_MAXPOLL_def word_less_nat_alt word_le_nat_alt)

text \<open>The date alone.\<close>

definition poll_date :: "penv \<Rightarrow> int \<Rightarrow> peer \<Rightarrow> u_int64 option" where
  "poll_date env sm q =
     (if burst q > 0
      then Some (if nextdate q > current_time env then nextdate q
                 else if pflags q AND FLAG_REFCLOCK \<noteq> 0 then current_time env + 1 else headway env sm q)
      else map_option (\<lambda>iv. max (iv + outdate q) (headway env sm q) + (if throttle q > sm then word_of_int (ntp_minpkt (mon_cf env)) else 0))
        (poll_interval env (poll_exponent q) q))"

lemma poll_date_burst:
  "(if nextdate q > t then q else if B then q\<lparr>nextdate := a\<rparr> else q\<lparr>nextdate := b\<rparr>) = q\<lparr>nextdate := (if nextdate q > t then nextdate q else if B then a else b)\<rparr>"
  by simp

lemma poll_date_plain:
  "(let q = q\<lparr>nextdate := (if n > u then n else u)\<rparr> in if throttle q > sm then q\<lparr>nextdate := nextdate q + k\<rparr> else q) =
     q\<lparr>nextdate := max n u + (if throttle q > sm then k else 0)\<rparr>"
  by (simp add: Let_def max_def)

lemma poll_update_eq:
  "poll_update env mp q =
     (let r = q\<lparr>hpoll := max (min (maxpoll q) mp) (minpoll q)\<rparr>
      in shl1 (minpoll q) \<bind> (\<lambda>sm. map_option (\<lambda>n. r\<lparr>nextdate := n\<rparr>) (poll_date env sm r)))"
proof -
  define r where "r = q\<lparr>hpoll := max (min (maxpoll q) mp) (minpoll q)\<rparr>"
  have m: "minpoll r = minpoll q" by (simp add: r_def)
  show ?thesis
    unfolding poll_update_def Let_def r_def [symmetric] m
    by (cases "shl1 (minpoll q)"; cases "poll_interval env (poll_exponent r) r")
      (simp_all add: poll_date_def poll_date_burst poll_date_plain [unfolded Let_def])
qed

lemma poll_update_shape:
  assumes "poll_update env mp q = Some q'"
  shows "\<exists>n. q' = q\<lparr>hpoll := max (min (maxpoll q) mp) (minpoll q), nextdate := n\<rparr>"
  using assms by (auto simp: poll_update_eq Let_def bind_eq_Some_conv)

lemma poll_interval_returns: "e \<le> NTP_MAXPOLL \<Longrightarrow> \<exists>iv. poll_interval env e r = Some iv"
  by (auto simp: poll_interval_def poll_less_64)

lemma poll_update_range:
  assumes "minpoll q \<le> NTP_MAXPOLL" "maxpoll q \<le> NTP_MAXPOLL" "ppoll q \<le> NTP_MAXPOLL"
  shows "\<exists>q'. poll_update env mp q = Some q' \<and> poll_fit q'"
proof -
  define r where "r = q\<lparr>hpoll := max (min (maxpoll q) mp) (minpoll q)\<rparr>"
  have m: "hpoll r \<le> NTP_MAXPOLL" "ppoll r \<le> NTP_MAXPOLL" "minpoll r = minpoll q"
    using assms by (auto simp: r_def max_def min_def split: if_splits)
  then have "poll_exponent r \<le> NTP_MAXPOLL" using assms(1) by (auto simp: poll_exponent_def min_def)
  then obtain iv where "poll_interval env (poll_exponent r) r = Some iv" using poll_interval_returns by blast
  then have "\<exists>n. poll_date env sm r = Some n" for sm by (simp add: poll_date_def)
  then have "poll_update env mp q \<noteq> None" using assms(1) by (auto simp: poll_update_eq Let_def r_def [symmetric])
  then obtain q' where q': "poll_update env mp q = Some q'" by blast
  have "poll_fit q'" using poll_update_shape [OF q'] assms by (auto simp: poll_fit_def max_def min_def split: if_splits)
  then show ?thesis using q' by blast
qed

lemma poll_update_returns: "poll_fit q \<Longrightarrow> \<exists>q'. poll_update env mp q = Some q' \<and> poll_fit q'"
  by (rule poll_update_range) (auto simp: poll_fit_def)

lemma uint_add_int:
  assumes "0 \<le> x" "uint t + x < 2 ^ 64"
  shows "uint (t + word_of_int x :: u_int64) = uint t + x"
proof -
  have "x mod 2 ^ 64 = x" "(uint t + x) mod 2 ^ 64 = uint t + x" using assms by (simp_all add: mod_pos_pos_trivial add_strict_increasing2 order.strict_trans1 [of x "uint t + x"])
  then show ?thesis by (simp add: uint_word_ariths uint_word_of_int_eq take_bit_eq_mod)
qed

lemma headway_bound:
  assumes "0 \<le> ntp_minpkt (mon_cf env)" "in_s32 (ntp_minpkt (mon_cf env))" "uint (current_time env) < 2 ^ 63"
  shows "uint (current_time env) + ntp_minpkt (mon_cf env) \<le> uint (headway env sm q)" "uint (headway env sm q) < 2 ^ 63 + 2 ^ 31"
proof -
  define x where "x = max (s32 (throttle q - s32 ((NTP_SHIFT - 1) * sm))) (ntp_minpkt (mon_cf env))"
  have "in_s32 x" using assms(2) by (simp add: x_def max_def)
  then have x: "ntp_minpkt (mon_cf env) \<le> x" "0 \<le> x" "x < 2 ^ 31" using assms(1) by (auto simp: x_def in_s32_def)
  have "uint (headway env sm q) = uint (current_time env) + x"
    unfolding headway_def x_def [symmetric] using x assms(3) by (intro uint_add_int) auto
  then show "uint (current_time env) + ntp_minpkt (mon_cf env) \<le> uint (headway env sm q)" "uint (headway env sm q) < 2 ^ 63 + 2 ^ 31"
    using x assms(3) by linarith+
qed

lemma jitter_bounds: "0x1000 \<le> uint (0x1000 OR (r AND 0xff) :: u_int64)" "uint (0x1000 OR (r AND 0xff) :: u_int64) < 0x2000"
proof -
  have e: "uint (0x1000 OR (r AND 0xff) :: u_int64) = 0x1000 OR (uint r AND 0xff)" by (simp add: unsigned_or_eq unsigned_and_eq)
  have a: "0 \<le> uint r AND 0xff" "uint r AND 0xff \<le> 0xff" by (simp_all add: AND_upper2')
  show "0x1000 \<le> uint (0x1000 OR (r AND 0xff) :: u_int64)" unfolding e using or_greater_eq [OF a(1), of "0x1000"] by simp
  show "uint (0x1000 OR (r AND 0xff) :: u_int64) < 0x2000" unfolding e using OR_upper [of "0x1000" 13 "uint r AND 0xff"] a by simp
qed

lemma poll_interval_bounds:
  assumes "e \<le> NTP_MAXPOLL" "poll_interval env e r = Some iv"
  shows "2 ^ unat e \<le> uint iv" "uint iv < 2 ^ 18"
proof -
  have e: "unat e \<le> 17" using assms(1) by (simp add: NTP_MAXPOLL_def word_le_nat_alt)
  then have e2: "(2 :: int) ^ unat e \<le> 2 ^ 17" by (rule power_increasing) simp
  define w :: u_int64 where "w = 0x1000 OR (random_poll env AND 0xff)"
  have w: "0x1000 \<le> uint w" "uint w < 0x2000" using jitter_bounds by (simp_all add: w_def)
  have p: "0 < (2 :: int) ^ unat e" by simp
  have "2 ^ unat e \<le> uint iv \<and> uint iv < 2 ^ 18"
  proof (cases "pflags r AND FLAG_REFCLOCK = 0")
    case True
    then have iv: "iv = drop_bit 12 (push_bit (unat e) w)" using assms by (simp add: poll_interval_def poll_less_64 w_def)
    have l: "uint w * 2 ^ unat e < 0x2000 * 2 ^ 17" using w e2 p by (intro mult_less_le_imp_less) auto
    have m: "uint w * 2 ^ unat e mod 2 ^ 64 = uint w * 2 ^ unat e" using l w p by (intro mod_pos_pos_trivial) auto
    have "uint (push_bit (unat e) w) = uint w * 2 ^ unat e"
      by (simp only: unsigned_push_bit_eq push_bit_eq_mult [where 'a = int] take_bit_eq_mod) (use m in simp)
    then have i: "uint iv = uint w * 2 ^ unat e div 2 ^ 12"
      unfolding iv by (simp only: unsigned_drop_bit_eq drop_bit_eq_div [where 'a = int]) (use m in \<open>simp add: take_bit_eq_mod\<close>)
    have "2 ^ unat e * 2 ^ 12 \<le> uint w * 2 ^ unat e" using w(1) p by simp
    then have "2 ^ unat e \<le> uint w * 2 ^ unat e div 2 ^ 12" 
      using zdiv_mono1 [of "2 ^ unat e * 2 ^ 12" "uint w * 2 ^ unat e" "2 ^ 12"] by simp
    moreover have "uint w * 2 ^ unat e div 2 ^ 12 < 2 ^ 18" using l by (simp add: int_div_less_self)
    ultimately show ?thesis using i by simp
  next
    case False
    then have "iv = word_of_int (2 ^ unat e)" using assms by (simp add: poll_interval_def)
    moreover have "uint (word_of_int (2 ^ unat e) :: u_int64) = 2 ^ unat e mod 2 ^ 64" by (simp only: uint_word_of_int_eq take_bit_eq_mod) simp
    moreover have "(2 :: int) ^ unat e mod 2 ^ 64 = 2 ^ unat e" using e2 p by (intro mod_pos_pos_trivial) auto
    ultimately show ?thesis using e2 by simp
  qed
  then show "2 ^ unat e \<le> uint iv" "uint iv < 2 ^ 18" by simp_all
qed

lemma uint_add_word:
  assumes "uint a + uint b < 2 ^ 64"
  shows "uint (a + b :: u_int64) = uint a + uint b"
  using uint_add_int [of "uint b" a] assms by simp

text \<open>
  C20: The time of the next packet to an association whose exponents are at most 17.  Outside a burst it is not due before the minimum headway has passed, and not
  before the poll interval has passed since the last packet, whatever the exponent that is asked for.  In a burst a time that is still ahead is kept; otherwise the
  packet is due after one second when the association is a reference clock, and not before the minimum headway when it is not.  The exponent stays between the
  bounds of the association, and all exponents at most 17, so that the shifts stay defined.
\<close>

theorem poll_update_bounds:
  assumes "poll_fit q" "0 \<le> ntp_minpkt (mon_cf env)" "in_s32 (ntp_minpkt (mon_cf env))" "uint (current_time env) < 2 ^ 63" "outdate q \<le> current_time env"
  shows "\<exists>q'. poll_update env mp q = Some q' \<and> poll_fit q' \<and> minpoll q \<le> hpoll q' \<and> (minpoll q \<le> maxpoll q \<longrightarrow> hpoll q' \<le> maxpoll q) \<and>
    (burst q \<le> 0 \<longrightarrow> uint (current_time env) + ntp_minpkt (mon_cf env) \<le> uint (nextdate q') \<and>
       uint (outdate q) + 2 ^ unat (poll_exponent q') \<le> uint (nextdate q')) \<and>
    (burst q > 0 \<and> current_time env < nextdate q \<longrightarrow> nextdate q' = nextdate q) \<and>
    (burst q > 0 \<and> nextdate q \<le> current_time env \<and> pflags q AND FLAG_REFCLOCK \<noteq> 0 \<longrightarrow> nextdate q' = current_time env + RESP_DELAY) \<and>
    (burst q > 0 \<and> nextdate q \<le> current_time env \<and> pflags q AND FLAG_REFCLOCK = 0 \<longrightarrow>
      uint (current_time env) + ntp_minpkt (mon_cf env) \<le> uint (nextdate q'))"
proof -
  obtain q' where q': "poll_update env mp q = Some q'" and f: "poll_fit q'" using poll_update_returns [OF assms(1)] by blast
  define r where "r = q\<lparr>hpoll := max (min (maxpoll q) mp) (minpoll q)\<rparr>"
  obtain sm n where d: "poll_date env sm r = Some n" and nr: "q' = r\<lparr>nextdate := n\<rparr>"
    using q' unfolding poll_update_eq Let_def r_def [symmetric] by (auto simp: bind_eq_Some_conv)
  then have n: "q' = q\<lparr>hpoll := max (min (maxpoll q) mp) (minpoll q), nextdate := n\<rparr>" by (simp add: r_def)
  have r: "burst r = burst q" "nextdate r = nextdate q" "pflags r = pflags q" "outdate r = outdate q" "poll_exponent r = poll_exponent q'"
    by (simp_all add: r_def n poll_exponent_def)
  note hw = headway_bound [OF assms(2-4), of sm r]
  have "uint (current_time env) + ntp_minpkt (mon_cf env) \<le> uint n \<and> uint (outdate q) + 2 ^ unat (poll_exponent q') \<le> uint n" if b: "burst q \<le> 0"
  proof -
    obtain iv where iv: "poll_interval env (poll_exponent r) r = Some iv" "n = max (iv + outdate q) (headway env sm r) +
        (if throttle r > sm then word_of_int (ntp_minpkt (mon_cf env)) else 0)" using d b r by (auto simp: poll_date_def)
    have "poll_exponent r \<le> NTP_MAXPOLL" using f r(5) by (auto simp: poll_fit_def poll_exponent_def min_def)
    then have i: "2 ^ unat (poll_exponent q') \<le> uint iv" "uint iv < 2 ^ 18" using poll_interval_bounds iv(1) r(5) by metis+
    have o: "uint (outdate q) < 2 ^ 63" using assms(4,5) by (simp add: word_le_def)
    define u where "u = max (iv + outdate q) (headway env sm r)"
    have s: "uint (iv + outdate q) = uint iv + uint (outdate q)" using i o by (intro uint_add_word) simp
    have u: "uint (iv + outdate q) \<le> uint u" "uint (headway env sm r) \<le> uint u" by (simp_all add: u_def flip: word_le_def)
    have ul: "uint u < 2 ^ 63 + 2 ^ 32" using hw(2) s i o by (auto simp: u_def max_def)
    have m: "0 \<le> (if throttle r > sm then ntp_minpkt (mon_cf env) else 0)" "(if throttle r > sm then ntp_minpkt (mon_cf env) else 0) < 2 ^ 31"
      using assms(2,3) by (auto simp: in_s32_def)
    have "n = u + word_of_int (if throttle r > sm then ntp_minpkt (mon_cf env) else 0)" by (simp add: iv(2) u_def)
    then have "uint n = uint u + (if throttle r > sm then ntp_minpkt (mon_cf env) else 0)" using uint_add_int [OF m(1), of u] m ul by simp
    then show ?thesis using m(1) u s i hw(1) by linarith
  qed
  moreover have "uint (current_time env) + ntp_minpkt (mon_cf env) \<le> uint n" if "burst q > 0" "nextdate q \<le> current_time env" "pflags q AND FLAG_REFCLOCK = 0"
    using d that r hw(1) by (auto simp: poll_date_def)
  moreover have "n = nextdate q" if "burst q > 0" "current_time env < nextdate q" using d that r by (auto simp: poll_date_def)
  moreover have "n = current_time env + RESP_DELAY" if "burst q > 0" "nextdate q \<le> current_time env" "pflags q AND FLAG_REFCLOCK \<noteq> 0"
    using d that r by (auto simp: poll_date_def)
  moreover have "minpoll q \<le> hpoll q'" "minpoll q \<le> maxpoll q \<longrightarrow> hpoll q' \<le> maxpoll q" by (simp_all add: n)
  ultimately show ?thesis using q' f n by auto
qed

theorem poll_update_bounds_witness:
  "\<exists>q'. poll_update demo_env 8 (zero_peer\<lparr>minpoll := 6, hpoll := 6, maxpoll := 10, outdate := 90\<rparr>) = Some q' \<and> poll_fit q' \<and> hpoll q' \<le> 10 \<and>
     uint (current_time demo_env) + ntp_minpkt (mon_cf demo_env) \<le> uint (nextdate q') \<and> 90 + 2 ^ unat (poll_exponent q') \<le> uint (nextdate q')"
  using poll_update_bounds [of "zero_peer\<lparr>minpoll := 6, hpoll := 6, maxpoll := 10, outdate := 90\<rparr>" demo_env 8]
  by (auto simp: zero_peer_def poll_fit_def NTP_MAXPOLL_def demo_env_def small_cf_def in_s32_def)

section \<open>The length of packets\<close>

lemma uint_has_mac:
  assumes "in_s32 h"
  shows "uint (word_of_int h :: u_int64) = (if 0 \<le> h then h else 2 ^ 64 + h)"
proof -
  have "h mod 2 ^ 64 = (if 0 \<le> h then h else 2 ^ 64 + h)"
    using assms mod_add_self1 [of "2 ^ 64" h] by (auto simp: in_s32_def intro!: mod_pos_pos_trivial simp del: mod_add_self1)
  then show ?thesis by (simp only: uint_word_of_int_eq take_bit_eq_mod) simp
qed

lemma mac_length_less: "in_s32 h \<Longrightarrow> (word_of_int h :: u_int64) < 4 \<longleftrightarrow> 0 \<le> h \<and> h < 4"
  and mac_length_le: "in_s32 h \<Longrightarrow> (word_of_int h :: u_int64) \<le> 24 \<longleftrightarrow> 0 \<le> h \<and> h \<le> 24"
  by (auto simp: word_less_def word_le_def uint_has_mac in_s32_def)

lemma parse_mac_unfold:
  assumes "0 \<le> recv_length rb" "in_s32 (recv_length rb)" "0 \<le> authlen" "in_s32 authlen"
  shows "parse_mac rb authlen =
     (let has_mac = recv_length rb - authlen; len = be32_at rb (nat authlen) AND 0xffff
      in if has_mac = 0 then Some (authlen, 0, 0)
         else if has_mac mod 4 \<noteq> 0 \<or> has_mac < 0 then None
         else if has_mac \<le> 24 then Some (authlen, has_mac, be32_at rb (nat authlen))
         else if len mod 4 \<noteq> 0 \<or> len < 4 \<or> uint len + authlen > recv_length rb then None
         else parse_mac rb (authlen + uint len))"
proof -
  have h: "in_s32 (recv_length rb - authlen)" using assms by (auto simp: in_s32_def)
  have neg: "4 \<le> uint l \<Longrightarrow> recv_length rb - authlen < 0 \<Longrightarrow> uint l + authlen > recv_length rb" for l :: u_int32 by linarith
  have m4: "h mod 4 = 0 \<Longrightarrow> 0 < h \<Longrightarrow> h < 4 \<Longrightarrow> False" for h :: int by (simp add: mod_pos_pos_trivial)
  show ?thesis
    by (subst parse_mac.simps)
      (use mac_length_less [OF h] mac_length_le [OF h] m4 [of "recv_length rb - authlen"] neg in
        \<open>auto simp: Let_def word_less_def not_less\<close>)
qed

lemma parse_mac_spec:
  assumes "0 \<le> recv_length rb" "in_s32 (recv_length rb)" "0 \<le> authlen" "in_s32 authlen" "parse_mac rb authlen = Some (al, hm, k)"
  shows "authlen \<le> al \<and> al + hm = recv_length rb \<and> 0 \<le> hm \<and> hm \<le> 24 \<and> hm mod 4 = 0 \<and> (hm = 0 \<longrightarrow> k = 0) \<and> (hm \<noteq> 0 \<longrightarrow> k = be32_at rb (nat al))"
  using assms(3-5)
proof (induction "nat (recv_length rb - authlen)" arbitrary: authlen rule: less_induct)
  case less
  define len where "len = be32_at rb (nat authlen) AND 0xffff"
  note u = parse_mac_unfold [OF assms(1,2) less.prems(1,2), folded len_def]
  show ?case
  proof (cases "recv_length rb - authlen \<le> 24")
    case True
    then show ?thesis using less.prems(3) unfolding u by (auto simp: Let_def split: if_splits)
  next
    case False
    then have l: "4 \<le> len" "uint len + authlen \<le> recv_length rb" "parse_mac rb (authlen + uint len) = Some (al, hm, k)"
      using less.prems(3) unfolding u by (auto simp: Let_def len_def split: if_splits)
    have "4 \<le> uint len" using l(1) by (simp add: word_le_def)
    then show ?thesis
      using less.hyps [OF _ _ _ l(3)] less.prems(1,2) l(2) assms(2) False by (auto simp: in_s32_def)
  qed
qed

text \<open>
  C19: The extension fields of a packet are walked inside the packet: the authentication code that is found lies between the header and the end and has at most
  six words, a packet that is shorter than the header or not a multiple of four octets is refused, and a code of any number of words from one to six
  is accepted, also of two and four, which the comment calls runts.
\<close>

theorem parse_mac_inside:
  assumes "0 \<le> recv_length rb" "in_s32 (recv_length rb)"
  shows "(\<forall>al hm k. parse_mac rb 48 = Some (al, hm, k) \<longrightarrow> 48 \<le> al \<and> al + hm = recv_length rb \<and> 0 \<le> hm \<and> hm \<le> 24 \<and> hm mod 4 = 0) \<and>
    (recv_length rb < 48 \<longrightarrow> parse_mac rb 48 = None) \<and> (recv_length rb mod 4 \<noteq> 0 \<longrightarrow> parse_mac rb 48 = None) \<and>
    (recv_length rb = 48 \<longrightarrow> parse_mac rb 48 = Some (48, 0, 0)) \<and>
    (recv_length rb \<in> {52, 56, 60, 64, 68, 72} \<longrightarrow> parse_mac rb 48 = Some (48, recv_length rb - 48, be32_at rb 48))"
proof -
  have s: "in_s32 48" by (simp add: in_s32_def)
  have p: "parse_mac rb 48 = (if recv_length rb - 48 = 0 then Some (48, 0, 0) else if recv_length rb mod 4 \<noteq> 0 \<or> recv_length rb - 48 < 0 then None
         else if recv_length rb - 48 \<le> 24 then Some (48, recv_length rb - 48, be32_at rb 48) else parse_mac rb 48)"
  proof -
    have "(recv_length rb - 48) mod 4 = recv_length rb mod 4" by presburger
    then show ?thesis using parse_mac_unfold [OF assms _ s] by (simp add: Let_def)
  qed
  have "48 \<le> al \<and> al + hm = recv_length rb \<and> 0 \<le> hm \<and> hm \<le> 24 \<and> hm mod 4 = 0" if "parse_mac rb 48 = Some (al, hm, k)" for al hm k
    using parse_mac_spec [OF assms _ s that] by simp
  moreover have "parse_mac rb 48 = None" if "recv_length rb < 48" using that by (subst p) simp
  moreover have "parse_mac rb 48 = None" if "recv_length rb mod 4 \<noteq> 0" using that by (subst p) (cases "recv_length rb = 48"; simp)
  moreover have "parse_mac rb 48 = Some (48, 0, 0)" if "recv_length rb = 48" using that by (subst p) simp
  moreover have "parse_mac rb 48 = Some (48, recv_length rb - 48, be32_at rb 48)" if "recv_length rb \<in> {52, 56, 60, 64, 68, 72}"
    using that by (subst p) (elim insertE; simp)
  ultimately show ?thesis by blast
qed

theorem parse_mac_inside_witness:
  "parse_mac \<lparr>recv_srcadr = SA4 1 123, rdstadr = 0, rfd = 4, recv_time = zero_lfp, recv_length = 47, recv_buf = []\<rparr> 48 = None \<and>
   parse_mac \<lparr>recv_srcadr = SA4 1 123, rdstadr = 0, rfd = 4, recv_time = zero_lfp, recv_length = 56, recv_buf = replicate 56 1\<rparr> 48 = Some (48, 8, 0x01010101)"
  using parse_mac_inside [of "\<lparr>recv_srcadr = SA4 1 123, rdstadr = 0, rfd = 4, recv_time = zero_lfp, recv_length = 47, recv_buf = []\<rparr>"]
    parse_mac_inside [of "\<lparr>recv_srcadr = SA4 1 123, rdstadr = 0, rfd = 4, recv_time = zero_lfp, recv_length = 56, recv_buf = replicate 56 1\<rparr>"]
  by (simp add: in_s32_def be32_at_def byte_at_def)

section \<open>Packets that are refused\<close>

text \<open>Nothing but counters changes.\<close>

definition silent :: "daemon \<Rightarrow> daemon \<Rightarrow> bool" where
  "silent d d' \<longleftrightarrow> peers d' = peers d \<and> mon d' = mon d \<and> keys d' = keys d \<and> outbox d' = outbox d \<and> handed d' = handed d"



lemma silent_count [simp]:
  "silent d (restricted d') = silent d d'" "silent d (badlength d') = silent d d'" "silent d (d'\<lparr>sys_newversion := n\<rparr>) = silent d d'"
  "silent d (d'\<lparr>sys_oldversion := n\<rparr>) = silent d d'" "silent d (d'\<lparr>sys_received := n\<rparr>) = silent d d'"
  by (simp_all add: silent_def restricted_def badlength_def)

lemma refusals [simp]:
  "sys_restricted (restricted d) = sys_restricted d + 1" "sys_badlength (restricted d) = sys_badlength d" "sys_received (restricted d) = sys_received d"
  "sys_restricted (badlength d) = sys_restricted d" "sys_badlength (badlength d) = sys_badlength d + 1" "sys_received (badlength d) = sys_received d"
  by (simp_all add: restricted_def badlength_def)




lemma put_peers_sel [simp]:
  "peers (put_peers env s d) = s" "keys (put_peers env s d) = keys d" "outbox (put_peers env s d) = outbox d" "handed (put_peers env s d) = handed d"
  "sys_received (put_peers env s d) = sys_received d" "sys_restricted (put_peers env s d) = sys_restricted d"
  "sys_badlength (put_peers env s d) = sys_badlength d" "ntp_mode7 (put_peers env s d) = ntp_mode7 d" "sys_ttl (put_peers env s d) = sys_ttl d"
  by (simp_all add: put_peers_def Let_def)




text \<open>A daemon without associations and keys and with the monitor off, for examples.\<close>

definition demo_daemon :: daemon where
  "demo_daemon = \<lparr>peers = demo_peers, mon = init_mon mon_static, keys = auth_zero, outbox = [], handed = [], sys_leap = 0, sys_stratum = 2, sys_refid = 0x0a000009,
     sys_rootdelay = 0x100, sys_rootdisp = 0x200, sys_reftime = \<lparr>l_ui = 90, l_uf = 0\<rparr>, sys_peer = None, sys_poll = 6, sys_authdelay = zero_lfp, sys_bclient = True,
     sys_bdelay = True, sys_authenticate = True, sys_manycastserver = False, sys_cohort = False, ntp_mode7 = False, sys_ident = None, sys_survivors = 0,
     sys_minclock = 3, sys_maxclock = 10, sys_beacon = 3600, sys_orphan = 17, sys_orphwait = 300, orphwait = 300, sys_ttlmax = 7,
     sys_ttl = [0, 32, 64, 96, 128, 160, 192, 224], leapsec = 0, leap_tai = 0, sys_tai = 35, sys_stattime = 0, sys_received = 0, sys_processed = 0,
     sys_newversion = 0, sys_oldversion = 0, sys_restricted = 0, sys_badlength = 0, sys_badauth = 0, sys_declined = 0, sys_limitrejected = 0, sys_kodsent = 0\<rparr>"

definition demo_renv :: renv where
  "demo_renv = \<lparr>pe = demo_env, flaked = False, mon_refuse = (\<lambda>_. False), evp = (\<lambda>_ _. Some (replicate 16 7)), xmt_tx = \<lparr>l_ui = 100, l_uf = 5\<rparr>,
     xmt_ty = \<lparr>l_ui = 100, l_uf = 9\<rparr>, delay_invalid = (\<lambda>_ _. False), clock_filter = (\<lambda>_ _ d. Some d), refclock_transmit = (\<lambda>_ d. Some d)\<rparr>"

definition demo_rbuf :: "int \<Rightarrow> u_char list \<Rightarrow> rbuf" where
  "demo_rbuf n bs = \<lparr>recv_srcadr = SA4 0x0a000001 123, rdstadr = 0, rfd = 4, recv_time = \<lparr>l_ui = 100, l_uf = 0\<rparr>, recv_length = n, recv_buf = bs\<rparr>"



section \<open>Packets of an association\<close>

lemma test_masks:
  "x AND PKT_TEST_MASK \<noteq> 0 \<Longrightarrow> (x OR y) AND PKT_TEST_MASK \<noteq> 0"
  "(x OR TEST1) AND PKT_TEST_MASK \<noteq> 0" "(x OR TEST2) AND PKT_TEST_MASK \<noteq> 0" "(x OR TEST3) AND PKT_TEST_MASK \<noteq> 0" "(x OR TEST5) AND PKT_TEST_MASK \<noteq> 0"
  "(x OR TEST6) AND PKT_TEST_MASK \<noteq> 0" "(x OR TEST7) AND PKT_TEST_MASK \<noteq> 0"
proof -
  have m: "PKT_TEST_MASK = 0x1ff" by code_simp
  have b: "w \<noteq> 0" if "bit w n" for w :: u_int32 and n using that by auto
  have b2: "(x OR y) AND m \<noteq> 0" if "bit y n" "bit m n" for x y m :: u_int32 and n
    by (rule b [of _ n]) (use that in \<open>simp add: bit_simps\<close>)
  show "(x OR y) AND PKT_TEST_MASK \<noteq> 0" if nz: "x AND PKT_TEST_MASK \<noteq> 0"
  proof -
    obtain n where "bit (x AND PKT_TEST_MASK) n" using nz bit_eq_iff [of "x AND PKT_TEST_MASK" 0] by auto
    then show ?thesis by (intro b [of _ n]) (auto simp: bit_and_iff bit_or_iff)
  qed
  show "(x OR TEST1) AND PKT_TEST_MASK \<noteq> 0" by (rule b2 [of _ 0]) (simp_all add: m TEST1_def)
  show "(x OR TEST2) AND PKT_TEST_MASK \<noteq> 0" by (rule b2 [of _ 1]) (simp_all add: m TEST2_def)
  show "(x OR TEST3) AND PKT_TEST_MASK \<noteq> 0" by (rule b2 [of _ 2]) (simp_all add: m TEST3_def)
  show "(x OR TEST5) AND PKT_TEST_MASK \<noteq> 0" by (rule b2 [of _ 4]) (simp_all add: m TEST5_def)
  show "(x OR TEST6) AND PKT_TEST_MASK \<noteq> 0" by (rule b2 [of _ 5]) (simp_all add: m TEST6_def)
  show "(x OR TEST7) AND PKT_TEST_MASK \<noteq> 0" by (rule b2 [of _ 6]) (simp_all add: m TEST7_def)
qed

text \<open>The tests of time stamps that a packet fails: no transmit time, or one for which the association does not wait.\<close>

definition stamps_bad :: "u_char \<Rightarrow> rbuf \<Rightarrow> peer \<Rightarrow> bool" where
  "stamps_bad hismode rb q \<longleftrightarrow> L_ISZERO (pkt_xmt rb) \<or> L_ISEQU (pxmt q) (pkt_xmt rb) \<or>
     hismode \<noteq> MODE_BROADCAST \<and> (if flip q = 0 then \<not> L_ISEQU (pkt_org rb) (aorg q)
       else L_ISZERO (pkt_org rb) \<or> L_ISZERO (pkt_rec rb) \<or> L_ISZERO (pdst q) \<or> \<not> L_ISEQU (pkt_org rb) (pdst q))"

definition header_bad :: "renv \<Rightarrow> rbuf \<Rightarrow> bool" where
  "header_bad env rb \<longleftrightarrow> PKT_LEAP (pkt_li_vn_mode rb) = LEAP_NOTINSYNC \<or> stratum_bad env (PKT_TO_STRATUM (pkt_stratum rb)) \<or>
     uint (pkt_rootdelay rb) + 2 * uint (pkt_rootdisp rb) \<ge> 32 * 65536"

lemma stamps_begin_sel [simp]:
  "pxmt (stamps_begin q) = pxmt q" "flip (stamps_begin q) = flip q" "aorg (stamps_begin q) = aorg q" "pdst (stamps_begin q) = pdst q" "borg (stamps_begin q) = borg q"
  "peer_key (stamps_begin q) = peer_key q" "peer_fit (stamps_begin q) = peer_fit q" "poll_fit (stamps_begin q) = poll_fit q"
  by (simp_all add: stamps_begin_def Let_def peer_key_def peer_fit_def poll_fit_def)

lemma check_stamps_bad:
  assumes "stamps_bad m rb q" "check_stamps m rb q = (dropped, q')"
  shows "dropped \<or> flash q' AND PKT_TEST_MASK \<noteq> 0"
  using assms by (auto simp: stamps_bad_def check_stamps_def Let_def test_masks split: if_splits)

lemma update_stamps_flash [simp]: "flash (update_stamps m rb q) = flash q"
  by (simp add: update_stamps_def Let_def)

lemma header_tests_bad:
  "header_bad env rb \<or> flash q AND PKT_TEST_MASK \<noteq> 0 \<Longrightarrow> flash (header_tests env rb q) AND PKT_TEST_MASK \<noteq> 0"
  by (auto simp: header_tests_def header_bad_def stratum_bad_def Let_def test_masks)

lemma arm_burst_shape:
  assumes "arm_burst env q = Some q'"
  shows "\<exists>r b n. q' = q\<lparr>retry := r, burst := b, nextdate := n\<rparr>"
proof (cases "retry q > 0")
  case True
  then obtain b where b: "q' = (let q = q\<lparr>retry := 0, burst := b\<rparr> in if burst q > 0 then q\<lparr>nextdate := rnow env\<rparr> else q)"
    using assms by (auto simp: arm_burst_def)
  have "q' = q\<lparr>retry := 0, burst := b, nextdate := (if b > 0 then rnow env else nextdate q)\<rparr>" unfolding b Let_def by simp
  then show ?thesis by blast
next
  case False
  then have "q' = q\<lparr>retry := retry q, burst := burst q, nextdate := nextdate q\<rparr>" using assms by (simp add: arm_burst_def)
  then show ?thesis by blast
qed

lemma arm_burst_filter [simp]: "arm_burst (env\<lparr>clock_filter := f\<rparr>) q = arm_burst env q"
proof -
  have "rnow (env\<lparr>clock_filter := f\<rparr>) = rnow env" by simp
  then show ?thesis unfolding arm_burst_def by (simp only:)
qed

lemma header_tests_filter [simp]: "header_tests (env\<lparr>clock_filter := f\<rparr>) rb q = header_tests env rb q"
  by (simp add: header_tests_def)

lemma process_packet_flagged:
  assumes "header_bad env rb \<or> flash (getp p d) AND PKT_TEST_MASK \<noteq> 0"
  shows "process_packet (env\<lparr>clock_filter := f\<rparr>) rb p d = process_packet (env\<lparr>clock_filter := g\<rparr>) rb p d"
proof -
  define d1 where "d1 = d\<lparr>sys_processed := sys_processed d + 1\<rparr>"
  define q where "q = (getp p d1)\<lparr>processed := processed (getp p d1) + 1, leap := PKT_LEAP (pkt_li_vn_mode rb),
    stratum := min (PKT_TO_STRATUM (pkt_stratum rb)) STRATUM_UNSPEC,
    pmode := PKT_MODE (pkt_li_vn_mode rb), precision := pkt_precision rb, refid := pkt_refid rb, reftime := pkt_reftime rb\<rparr>"
  have fl: "flash q = flash (getp p d)" by (simp add: q_def d1_def getp_def)
  have t: "flash (header_tests env rb r') AND PKT_TEST_MASK \<noteq> 0" if "arm_burst env q = Some r" "poll_update (pe env) (hpoll r) r = Some r'" for r r'
    using header_tests_bad [of env rb r'] assms arm_burst_shape [OF that(1)] poll_update_shape [OF that(2)] fl by auto
  show ?thesis
    unfolding process_packet_def Let_def d1_def [symmetric] q_def [symmetric]
    by (cases "arm_burst env q"; cases "poll_update (pe env) (hpoll (the (arm_burst env q))) (the (arm_burst env q))") (simp_all add: t)
qed

lemma put_peers_filter [simp]: "put_peers (env\<lparr>clock_filter := f\<rparr>) = put_peers env"
  by (intro ext) (simp add: put_peers_def)

lemma fast_xmit_filter [simp]: "fast_xmit (env\<lparr>clock_filter := f\<rparr>) = fast_xmit env"
proof (intro ext)
  fix rb dst m k fl d
  have "pe (env\<lparr>clock_filter := f\<rparr>) = pe env" "evp (env\<lparr>clock_filter := f\<rparr>) = evp env" "xmt_tx (env\<lparr>clock_filter := f\<rparr>) = xmt_tx env"
    "xmt_ty (env\<lparr>clock_filter := f\<rparr>) = xmt_ty env" by simp_all
  then show "fast_xmit (env\<lparr>clock_filter := f\<rparr>) rb dst m k fl d = fast_xmit env rb dst m k fl d"
    unfolding fast_xmit_def kod_pkt_def sys_pkt_def answer_if_def by (simp only:)
qed

lemma unpeer_preempt_filter [simp]: "unpeer_preempt (env\<lparr>clock_filter := f\<rparr>) = unpeer_preempt env"
  by (intro ext) (simp add: unpeer_preempt_def)

lemma kiss_filter [simp]: "kiss (env\<lparr>clock_filter := f\<rparr>) = kiss env"
  by (intro ext) (simp add: kiss_def)

lemma interleave_end_filter [simp]: "interleave_end (env\<lparr>clock_filter := f\<rparr>) = interleave_end env"
proof (intro ext)
  fix rb q
  have "rnow (env\<lparr>clock_filter := f\<rparr>) = rnow env" by simp
  then show "interleave_end (env\<lparr>clock_filter := f\<rparr>) rb q = interleave_end env rb q" unfolding interleave_end_def by (simp only:)
qed

text \<open>
  C2: The clock filter sees only packets that pass the tests: when a packet repeats the transmit time of the last one, does not return the time stamp that
  the association has sent, is not authentic though it claims or has to be, or comes from a server that is not synchronised, out of range or too far
  from its source, the outcome of receiving it is the same whatever the clock filter does.
\<close>

theorem clock_filter_guarded:
  assumes "stamps_bad hismode rb (getp p d) \<or> header_bad env rb \<or> is_authentic = AUTH_CRYPTO \<or> is_authentic = AUTH_ERROR \<or>
    is_authentic = AUTH_NONE \<and> restrict_mask AND RES_DONTTRUST \<noteq> 0"
  shows "receive_peer (env\<lparr>clock_filter := f\<rparr>) rb dst hismode restrict_mask has_mac is_authentic p d =
    receive_peer (env\<lparr>clock_filter := g\<rparr>) rb dst hismode restrict_mask has_mac is_authentic p d"
proof -
  obtain dropped q where c: "check_stamps hismode rb (getp p d) = (dropped, q)" by (cases "check_stamps hismode rb (getp p d)")
  consider "dropped" | "is_authentic = AUTH_CRYPTO" | "\<not> AUTH (has_mac \<noteq> 0 \<or> restrict_mask AND RES_DONTTRUST \<noteq> 0) is_authentic" | "is_kod hismode rb"
    | "\<not> dropped" "AUTH (has_mac \<noteq> 0 \<or> restrict_mask AND RES_DONTTRUST \<noteq> 0) is_authentic" "header_bad env rb \<or> flash q AND PKT_TEST_MASK \<noteq> 0"
    using assms check_stamps_bad [OF _ c] by (cases is_authentic) (auto simp: AUTH_def)
  then show ?thesis
  proof cases
    case 5
    have "process_packet (env\<lparr>clock_filter := f\<rparr>) rb p (setp p q' d) = process_packet (env\<lparr>clock_filter := g\<rparr>) rb p (setp p q' d)" if "flash q' = flash q" for q'
      by (rule process_packet_flagged) (use that 5(3) in simp)
    then show ?thesis using 5 by (simp add: receive_peer_def c Let_def)
  qed (simp_all add: receive_peer_def c Let_def)
qed

theorem clock_filter_guarded_witness:
  "receive_peer (demo_renv\<lparr>clock_filter := (\<lambda>_ _ _. None)\<rparr>) (demo_rbuf 48 [0x24]) (Some 0) MODE_SERVER 0 0 AUTH_NONE 3 demo_daemon =
   receive_peer (demo_renv\<lparr>clock_filter := (\<lambda>_ _ d. Some d)\<rparr>) (demo_rbuf 48 [0x24]) (Some 0) MODE_SERVER 0 0 AUTH_NONE 3 demo_daemon"
  by (rule clock_filter_guarded)
    (simp add: stamps_bad_def pkt_xmt_def NTOHL_FP_def be32_at_def byte_at_def demo_rbuf_def L_ISZERO_def)

lemma L_ISEQU_eq [simp]: "L_ISEQU a b \<longleftrightarrow> a = b"
  by (cases a; cases b) (auto simp: L_ISEQU_def M_ISEQU_def)

lemma arm_burst_ok:
  assumes "poll_fit q"
  shows "\<exists>r b n. arm_burst env q = Some (q\<lparr>retry := r, burst := b, nextdate := n\<rparr>)"
proof -
  have "hpoll q - minpoll q \<le> NTP_MAXPOLL" using assms by (auto simp: poll_fit_def word_le_nat_alt unat_sub)
  then have "burst_count q \<noteq> None" using assms by (simp add: burst_count_def poll_fit_def)
  then have "\<exists>q'. arm_burst env q = Some q'" by (auto simp: arm_burst_def)
  then show ?thesis using arm_burst_shape by blast
qed

lemma header_tests_good: "\<not> header_bad env rb \<Longrightarrow> header_tests env rb q = q"
  by (simp add: header_bad_def stratum_bad_def header_tests_def Let_def)

text \<open>A packet without faults sets the reachability and goes to the clock filter.\<close>

lemma process_packet_good:
  assumes "\<not> header_bad env rb" "poll_fit (getp p d)" "flash (getp p d) AND PKT_TEST_MASK = 0"
  shows "\<exists>d2 q2. process_packet env rb p d = process_sample env rb p d2 \<and> getp p d2 = q2 \<and> bit (reach q2) 0 \<and> flash q2 = flash (getp p d) \<and>
    flip q2 = flip (getp p d) \<and> pmode q2 = PKT_MODE (pkt_li_vn_mode rb) \<and> pdst q2 = pdst (getp p d) \<and> outbox d2 = outbox d \<and> keys d2 = keys d \<and>
    leap q2 = PKT_LEAP (pkt_li_vn_mode rb) \<and> refid q2 = pkt_refid rb"
proof -
  define d1 where "d1 = d\<lparr>sys_processed := sys_processed d + 1\<rparr>"
  define q where "q = (getp p d1)\<lparr>processed := processed (getp p d1) + 1, leap := PKT_LEAP (pkt_li_vn_mode rb),
    stratum := min (PKT_TO_STRATUM (pkt_stratum rb)) STRATUM_UNSPEC,
    pmode := PKT_MODE (pkt_li_vn_mode rb), precision := pkt_precision rb, refid := pkt_refid rb, reftime := pkt_reftime rb\<rparr>"
  have g: "getp p d1 = getp p d" by (simp add: d1_def getp_def)
  have "poll_fit q" using assms(2) by (simp add: q_def g poll_fit_def)
  then obtain r b n where a: "arm_burst env q = Some (q\<lparr>retry := r, burst := b, nextdate := n\<rparr>)" using arm_burst_ok by blast
  define qa where "qa = q\<lparr>retry := r, burst := b, nextdate := n\<rparr>"
  have "poll_fit qa" using assms(2) by (simp add: qa_def q_def g poll_fit_def)
  then obtain qb where qb: "poll_update (pe env) (hpoll qa) qa = Some qb" using poll_update_returns by blast
  then obtain m where m: "qb = qa\<lparr>hpoll := max (min (maxpoll qa) (hpoll qa)) (minpoll qa), nextdate := m\<rparr>" using poll_update_shape by blast
  have fl: "flash qb = flash (getp p d)" by (simp add: m qa_def q_def g)
  define qc where "qc = (let q = (if reach qb = 0 then qb\<lparr>timereachable := rnow env\<rparr> else qb) in q\<lparr>reach := reach q OR 1\<rparr>)"
  have "process_packet env rb p d = process_sample env rb p (setp p qc d1)"
    unfolding process_packet_def Let_def d1_def [symmetric] q_def [symmetric] a qa_def [symmetric]
    using assms(3) by (simp add: a qa_def [symmetric] qb header_tests_good [OF assms(1)] fl qc_def Let_def)
  moreover have "bit (reach qc) 0" by (simp add: qc_def Let_def bit_or_iff)
  moreover have "flash qc = flash (getp p d)" "flip qc = flip (getp p d)" "pmode qc = PKT_MODE (pkt_li_vn_mode rb)" "pdst qc = pdst (getp p d)"
    "leap qc = PKT_LEAP (pkt_li_vn_mode rb)" "refid qc = pkt_refid rb" using fl
    by (simp_all add: qc_def Let_def) (simp_all add: m qa_def q_def g)
  moreover have "outbox (setp p qc d1) = outbox d" "keys (setp p qc d1) = keys d" by (simp_all add: setp_def d1_def)
  ultimately show ?thesis by (intro exI [of _ "setp p qc d1"] exI [of _ qc]) simp
qed

text \<open>The sample of a packet that answers the last one of an association.\<close>

lemma receive_peer_good:
  assumes "flip (getp p d) = 0" "pflags (getp p d) AND FLAG_XBOGUS = 0" "poll_fit (getp p d)" "pkt_ppoll rb \<le> NTP_MAXPOLL"
    and "\<not> L_ISZERO (pkt_xmt rb)" "pxmt (getp p d) \<noteq> pkt_xmt rb" "pkt_org rb = aorg (getp p d)" "hismode \<noteq> MODE_BROADCAST"
    and "PKT_MODE (pkt_li_vn_mode rb) \<noteq> MODE_BROADCAST" "\<not> header_bad env rb" "AUTH (has_mac \<noteq> 0 \<or> mk AND RES_DONTTRUST \<noteq> 0) is_authentic"
  shows "\<exists>d2. receive_peer env rb dst hismode mk has_mac is_authentic p d =
      process_filter env p (Basic (L_SUB (pkt_rec rb) (pkt_org rb)) (L_SUB (pkt_xmt rb) (recv_time rb))) d2 \<bind>
        (\<lambda>d. map_option (\<lambda>q. setp p q d) (interleave_end env rb (getp p d))) \<and>
    bit (reach (getp p d2)) 0 \<and> flash (getp p d2) AND PKT_TEST_MASK = 0 \<and> leap (getp p d2) = PKT_LEAP (pkt_li_vn_mode rb) \<and> refid (getp p d2) = pkt_refid rb \<and>
    outbox d2 = outbox d"
proof -
  define q where "q = (stamps_begin (getp p d))\<lparr>aorg := zero_lfp\<rparr>"
  have c: "check_stamps hismode rb (getp p d) = (False, q)" using assms by (simp add: check_stamps_def Let_def q_def)
  define q1 where "q1 = (update_stamps hismode rb q)\<lparr>ppoll := max (minpoll (update_stamps hismode rb q)) (pkt_ppoll rb), timereceived := rnow env,
    pflags := (if is_authentic = AUTH_OK then pflags (update_stamps hismode rb q) OR FLAG_AUTHENTIC else pflags (update_stamps hismode rb q) AND NOT FLAG_AUTHENTIC)\<rparr>"
  have nk: "\<not> is_kod hismode rb" using assms(10) by (auto simp: is_kod_def header_bad_def)
  have nc: "is_authentic \<noteq> AUTH_CRYPTO" using assms(11) by (auto simp: AUTH_def split: if_splits)
  have e: "receive_peer env rb dst hismode mk has_mac is_authentic p d =
      process_packet env rb p (setp p q1 d) \<bind> (\<lambda>d. map_option (\<lambda>q. setp p q d) (interleave_end env rb (getp p d)))"
    using assms(11) nk nc by (simp add: receive_peer_def c Let_def q1_def)
  have q: "flip q = 0" "flash q AND PKT_TEST_MASK = 0" "poll_fit q"
    using assms(1-3) by (simp_all add: q_def poll_fit_def stamps_begin_def Let_def and.assoc)
  have q1: "flip q1 = 0" "flash q1 AND PKT_TEST_MASK = 0" "poll_fit q1" "pdst q1 = recv_time rb"
    using q assms(4) by (auto simp: q1_def update_stamps_def Let_def poll_fit_def max_def)
  obtain d2 q2 where d2: "process_packet env rb p (setp p q1 d) = process_sample env rb p d2" "getp p d2 = q2" "bit (reach q2) 0" "flash q2 = flash q1"
    "flip q2 = flip q1" "pmode q2 = PKT_MODE (pkt_li_vn_mode rb)" "pdst q2 = pdst q1" "outbox d2 = outbox (setp p q1 d)"
    "leap q2 = PKT_LEAP (pkt_li_vn_mode rb)" "refid q2 = pkt_refid rb"
    using process_packet_good [OF assms(10), of p "setp p q1 d"] q1 by auto
  have "process_sample env rb p d2 = process_filter env p (Basic (L_SUB (pkt_rec rb) (pkt_org rb)) (L_SUB (pkt_xmt rb) (recv_time rb))) d2"
    using d2 q1 assms(9) by (simp add: process_sample_def Let_def)
  then show ?thesis using e d2 q1 by (intro exI [of _ d2]) (simp add: setp_def)
qed

section \<open>An exchange of packets\<close>

text \<open>The network carries the bytes of a packet into a receive buffer.\<close>

definition arrival :: "xmit \<Rightarrow> rbuf \<Rightarrow> rbuf" where
  "arrival m rb = rb\<lparr>recv_length := int (length (to_bytes m)), recv_buf := to_bytes m\<rparr>"

lemma take_header [simp]: "take 48 (xpkt_memory x) = pkt_bytes x"
  by (simp add: xpkt_memory_def)

lemma charge_ok: "minpoll q \<le> NTP_MAXPOLL \<Longrightarrow> \<exists>n. charge q = Some (q\<lparr>sent := sent q + 1, throttle := n\<rparr>)"
  by (auto simp: charge_def)

lemma peer_xmit_plain:
  assumes "dstadr (getp p d) = Some i" "pkeyid (getp p d) = 0" "flip (getp p d) = 0" "unat (ttl (getp p d)) < length (sys_ttl d)" "minpoll (getp p d) \<le> NTP_MAXPOLL"
  shows "\<exists>n m d1. peer_xmit env p d = Some d1 \<and> outbox d1 = outbox d @ [m] \<and> to_adr m = srcadr (getp p d) \<and> to_if m = Some i \<and>
    to_bytes m = pkt_bytes (sys_pkt env (version (getp p d)) (hmode (getp p d)) (hpoll (getp p d)) (prec (getp p d)) (pdst (getp p d)) (xmt_tx env) d) \<and>
    getp p d1 = (getp p d)\<lparr>aorg := xmt_tx env, sent := sent (getp p d) + 1, throttle := n\<rparr>"
proof -
  define q where "q = getp p d"
  obtain n where n: "charge (q\<lparr>aorg := xmt_tx env\<rparr>) = Some (q\<lparr>aorg := xmt_tx env, sent := sent q + 1, throttle := n\<rparr>)"
    using charge_ok [of "q\<lparr>aorg := xmt_tx env\<rparr>"] assms(5) by (auto simp: q_def)
  show ?thesis using assms n unfolding q_def [symmetric]
    by (simp add: peer_xmit_def q_def [symmetric] Let_def stamp_before_def stamp_after_def ttl_at_def sys_pkt_def sendpkt_def setp_def) (auto simp: getp_def)
qed

lemma answer_plain:
  assumes "recv_length rb = 48" "fl AND RES_KOD = 0"
  shows "\<exists>r. answer env rb m k fl d = Some (d\<lparr>outbox := outbox d @ [r]\<rparr>) \<and> to_adr r = recv_srcadr rb \<and>
    to_bytes r = pkt_bytes (sys_pkt env (PKT_VERSION (pkt_li_vn_mode rb)) m (max (pkt_ppoll rb) (ntp_minpoll (mon_cf (pe env)))) (pkt_xmt rb) (recv_time rb) (xmt_tx env) d)"
proof -
  define ep where "ep = answer_if env rb (rdstadr rb) d"
  define bs where "bs = pkt_bytes (sys_pkt env (PKT_VERSION (pkt_li_vn_mode rb)) m (max (pkt_ppoll rb) (ntp_minpoll (mon_cf (pe env)))) (pkt_xmt rb) (recv_time rb) (xmt_tx env) d)"
  have "answer env rb m k fl d = Some (d\<lparr>outbox := outbox d @ [\<lparr>to_adr = recv_srcadr rb, to_if = ep, to_ttl = 0, to_bytes = bs\<rparr>]\<rparr>)"
    using assms by (simp add: answer_def fast_xmit_def Let_def sendpkt_def ep_def bs_def)
  then show ?thesis unfolding bs_def [symmetric] by (metis xmit.select_convs(1,4))
qed

lemma leap_bits: "l < (3 :: u_char) \<Longrightarrow> l AND 3 = l"
proof -
  assume "l < 3"
  then have "unat l < 3" by (simp add: word_less_nat_alt)
  then have "unat l = unat (0 :: u_char) \<or> unat l = unat (1 :: u_char) \<or> unat l = unat (2 :: u_char)" by auto
  then have "l = 0 \<or> l = 1 \<or> l = 2" unfolding word_unat_eq_iff .
  then show ?thesis by auto
qed

text \<open>What a client reads from the answer of a synchronised server.\<close>

lemma answer_decoded:
  assumes "to_bytes r = pkt_bytes (sys_pkt senv v MODE_SERVER pp org rc (xmt_tx senv) s)" "sys_leap s < LEAP_NOTINSYNC" "sys_stratum s \<noteq> 0"
  shows "pkt_org (arrival r cl) = org" "pkt_rec (arrival r cl) = rc" "pkt_xmt (arrival r cl) = xmt_tx senv" "pkt_ppoll (arrival r cl) = pp"
    "pkt_refid (arrival r cl) = sys_refid s" "PKT_MODE (pkt_li_vn_mode (arrival r cl)) = MODE_SERVER" "PKT_LEAP (pkt_li_vn_mode (arrival r cl)) = sys_leap s"
    "recv_time (arrival r cl) = recv_time cl" "length (to_bytes r) = 48"
    "header_bad cenv (arrival r cl) \<longleftrightarrow> stratum_bad cenv (sys_stratum s) \<or> 32 * 65536 \<le> uint (sys_rootdelay s) + 2 * uint (sys_rootdisp s)"
proof -
  note pd = pkt_decode [of "arrival r cl" "sys_pkt senv v MODE_SERVER pp org rc (xmt_tx senv) s" "[]"]
  have da: "pkt_rootdelay (arrival r cl) = sys_rootdelay s" "pkt_rootdisp (arrival r cl) = sys_rootdisp s"
    "pkt_stratum (arrival r cl) = STRATUM_TO_PKT (sys_stratum s)" "pkt_li_vn_mode (arrival r cl) = PKT_LI_VN_MODE (sys_leap s) v MODE_SERVER"
    using pd assms(1) by (simp_all add: arrival_def sys_pkt_def)
  show "pkt_org (arrival r cl) = org" "pkt_rec (arrival r cl) = rc" "pkt_xmt (arrival r cl) = xmt_tx senv" "pkt_ppoll (arrival r cl) = pp"
    "pkt_refid (arrival r cl) = sys_refid s" "recv_time (arrival r cl) = recv_time cl" "length (to_bytes r) = 48"
    using pd assms(1) by (simp_all add: arrival_def sys_pkt_def)
  show ms: "PKT_MODE (pkt_li_vn_mode (arrival r cl)) = MODE_SERVER" "PKT_LEAP (pkt_li_vn_mode (arrival r cl)) = sys_leap s"
    unfolding da mode_byte using leap_bits assms(2) by (simp_all add: MODE_SERVER_def LEAP_NOTINSYNC_def)
  have "PKT_TO_STRATUM (STRATUM_TO_PKT (sys_stratum s)) = sys_stratum s" using assms(3) by (simp add: stratum_code STRATUM_PKT_UNSPEC_def)
  then show "header_bad cenv (arrival r cl) \<longleftrightarrow> stratum_bad cenv (sys_stratum s) \<or> 32 * 65536 \<le> uint (sys_rootdelay s) + 2 * uint (sys_rootdisp s)"
    unfolding header_bad_def ms da(1-3) using assms(2) by auto
qed

text \<open>
  C6: A client and a server without keys: the client polls, the server answers from its system variables, and the answer reaches the client's clock filter
  with the differences of the four time stamps of the exchange: receive minus transmit time on the way there, transmit minus receive time on
  the way back.  The two daemons are arbitrary; the server is synchronised and its stratum and distance are acceptable to the client.
\<close>

theorem exchange_measures:
  assumes client: "dstadr (getp p c) = Some i" "pkeyid (getp p c) = 0" "flip (getp p c) = 0" "unat (ttl (getp p c)) < length (sys_ttl c)" "poll_fit (getp p c)"
      "pflags (getp p c) AND FLAG_XBOGUS = 0" "hmode (getp p c) = MODE_CLIENT"
    and server: "if_flags (ifaces (peers s) (rdstadr srv)) AND INT_MCASTOPEN = 0" "smk AND RES_DONTTRUST = 0" "smk AND RES_KOD = 0"
      "ntp_minpoll (mon_cf (pe senv)) \<le> NTP_MAXPOLL" "sys_leap s < LEAP_NOTINSYNC" "sys_stratum s \<noteq> 0" "\<not> stratum_bad cenv (sys_stratum s)"
      "uint (sys_rootdelay s) + 2 * uint (sys_rootdisp s) < 32 * 65536"
    and stamps: "\<not> L_ISZERO (xmt_tx senv)" "xmt_tx senv \<noteq> pxmt (getp p c)" "cmk AND RES_DONTTRUST = 0"
  shows "\<exists>c1 m s1 r c2. peer_xmit env p c = Some c1 \<and> outbox c1 = outbox c @ [m] \<and> to_adr m = srcadr (getp p c) \<and>
    am_fxmit senv (arrival m srv) smk 0 AUTH_NONE s = Some s1 \<and> outbox s1 = outbox s @ [r] \<and> to_adr r = recv_srcadr srv \<and>
    length (to_bytes r) = length (to_bytes m) \<and>
    receive_peer cenv (arrival r cl) dst MODE_SERVER cmk 0 AUTH_NONE p c1 =
      process_filter cenv p (Basic (L_SUB (recv_time srv) (xmt_tx env)) (L_SUB (xmt_tx senv) (recv_time cl))) c2 \<bind>
        (\<lambda>d. map_option (\<lambda>q. setp p q d) (interleave_end cenv (arrival r cl) (getp p d))) \<and>
    bit (reach (getp p c2)) 0 \<and> refid (getp p c2) = sys_refid s \<and> leap (getp p c2) = sys_leap s"
proof -
  have mp: "minpoll (getp p c) \<le> NTP_MAXPOLL" using client(5) by (auto simp: poll_fit_def)
  obtain n m c1 where x: "peer_xmit env p c = Some c1" "outbox c1 = outbox c @ [m]" "to_adr m = srcadr (getp p c)"
    "to_bytes m = pkt_bytes (sys_pkt env (version (getp p c)) (hmode (getp p c)) (hpoll (getp p c)) (prec (getp p c)) (pdst (getp p c)) (xmt_tx env) c)"
    "getp p c1 = (getp p c)\<lparr>aorg := xmt_tx env, sent := sent (getp p c) + 1, throttle := n\<rparr>"
    using peer_xmit_plain [OF client(1-4) mp] by blast
  have l: "recv_length (arrival m srv) = 48" "recv_srcadr (arrival m srv) = recv_srcadr srv" "recv_time (arrival m srv) = recv_time srv"
    "rdstadr (arrival m srv) = rdstadr srv" by (simp_all add: arrival_def x(4))
  have dm: "pkt_xmt (arrival m srv) = xmt_tx env" "pkt_ppoll (arrival m srv) = hpoll (getp p c)"
    using pkt_decode [of "arrival m srv" _ "[]"] x(4) by (simp_all add: arrival_def sys_pkt_def)
  obtain r where r: "answer senv (arrival m srv) MODE_SERVER 0 smk s = Some (s\<lparr>outbox := outbox s @ [r]\<rparr>)" "to_adr r = recv_srcadr srv"
    "to_bytes r = pkt_bytes (sys_pkt senv (PKT_VERSION (pkt_li_vn_mode (arrival m srv))) MODE_SERVER
       (max (hpoll (getp p c)) (ntp_minpoll (mon_cf (pe senv)))) (xmt_tx env) (recv_time srv) (xmt_tx senv) s)"
    using answer_plain [OF l(1) server(3), of senv MODE_SERVER 0 s] unfolding l dm by blast
  have f: "am_fxmit senv (arrival m srv) smk 0 AUTH_NONE s = Some (s\<lparr>outbox := outbox s @ [r]\<rparr>)"
    using server(1,2) r(1) by (simp add: am_fxmit_def Let_def l AUTH_def)
  note an = answer_decoded(1-8) [OF r(3) server(5,6), of cl]
    and hb = answer_decoded(10) [OF r(3) server(5,6), of cenv cl] and len = answer_decoded(9) [OF r(3) server(5,6)]
  define a where "a = arrival r cl"
  have pp: "pkt_ppoll a \<le> NTP_MAXPOLL" using client(5) server(4) unfolding a_def an by (simp add: poll_fit_def)
  obtain c2 where c2: "receive_peer cenv a dst MODE_SERVER cmk 0 AUTH_NONE p c1 =
      process_filter cenv p (Basic (L_SUB (pkt_rec a) (pkt_org a)) (L_SUB (pkt_xmt a) (recv_time a))) c2 \<bind>
        (\<lambda>d. map_option (\<lambda>q. setp p q d) (interleave_end cenv a (getp p d)))"
    "bit (reach (getp p c2)) 0" "leap (getp p c2) = PKT_LEAP (pkt_li_vn_mode a)" "refid (getp p c2) = pkt_refid a"
    using receive_peer_good [of p c1 a MODE_SERVER cenv 0 cmk AUTH_NONE dst] client server stamps hb pp
    unfolding a_def an x(5) by (auto simp: poll_fit_def MODE_SERVER_def MODE_BROADCAST_def AUTH_def)
  show ?thesis
    using x(1-3) f r(2) len c2 unfolding a_def an by (auto simp: x(4))
qed

definition demo_client :: daemon where
  "demo_client = setp 3 (zero_peer\<lparr>srcadr := SA4 0x0a000002 123, dstadr := Some 0, version := 4, hmode := MODE_CLIENT, minpoll := 6, hpoll := 6, maxpoll := 10\<rparr>) demo_daemon"

lemma demo_client: "getp 3 demo_client =
    zero_peer\<lparr>srcadr := SA4 0x0a000002 123, dstadr := Some 0, version := 4, hmode := MODE_CLIENT, minpoll := 6, hpoll := 6, maxpoll := 10\<rparr>"
  "sys_ttl demo_client = [0, 32, 64, 96, 128, 160, 192, 224]"
  by (simp_all add: demo_client_def) (simp add: setp_def demo_daemon_def)

theorem exchange_measures_witness:
  "\<exists>c1 m s1 r c2. peer_xmit (demo_renv\<lparr>xmt_tx := \<lparr>l_ui = 90, l_uf = 0\<rparr>\<rparr>) 3 demo_client = Some c1 \<and> outbox c1 = outbox demo_client @ [m] \<and>
    am_fxmit demo_renv (arrival m (demo_rbuf 0 [])) 0 0 AUTH_NONE demo_daemon = Some s1 \<and> outbox s1 = [r] \<and>
    receive_peer demo_renv (arrival r (demo_rbuf 0 [])) (Some 0) MODE_SERVER 0 0 AUTH_NONE 3 c1 =
      process_filter demo_renv 3 (Basic \<lparr>l_ui = 10, l_uf = 0\<rparr> \<lparr>l_ui = 0, l_uf = 5\<rparr>) c2 \<bind>
        (\<lambda>d. map_option (\<lambda>q. setp 3 q d) (interleave_end demo_renv (arrival r (demo_rbuf 0 [])) (getp 3 d)))"
proof -
  have h: "if_flags (ifaces (peers demo_daemon) 0) AND INT_MCASTOPEN = 0"
    by (simp add: demo_daemon_def demo_peers_def init_peer_def peer_zero_def Let_def demo_if_def)
  have s: "L_SUB \<lparr>l_ui = 100, l_uf = 0\<rparr> \<lparr>l_ui = 90, l_uf = 0\<rparr> = \<lparr>l_ui = 10, l_uf = 0\<rparr>" "L_SUB \<lparr>l_ui = 100, l_uf = 5\<rparr> \<lparr>l_ui = 100, l_uf = 0\<rparr> = \<lparr>l_ui = 0, l_uf = 5\<rparr>"
    by code_simp+
  show ?thesis
    using exchange_measures [of 3 demo_client 0 demo_daemon "demo_rbuf 0 []" 0 demo_renv demo_renv 0 "demo_renv\<lparr>xmt_tx := \<lparr>l_ui = 90, l_uf = 0\<rparr>\<rparr>" "demo_rbuf 0 []" "Some 0"] h s
    by (auto simp: demo_client zero_peer_def poll_fit_def NTP_MAXPOLL_def demo_rbuf_def demo_renv_def demo_env_def small_cf_def demo_daemon_def LEAP_NOTINSYNC_def
      stratum_bad_def L_ISZERO_def zero_lfp_def)
qed

section \<open>Exits of the program\<close>

text \<open>
  \<open>a\<close> is \<open>b\<close>, unless the program ends in \<open>a\<close>.  Every operation is monotone in the clock filter and the driver of a reference clock: when these end the program in
  fewer cases, the outcome is the same or the program ends in fewer cases.
\<close>

definition le_exit :: "'a option \<Rightarrow> 'a option \<Rightarrow> bool" where
  "le_exit a b \<longleftrightarrow> a = None \<or> a = b"

definition exits_less :: "renv \<Rightarrow> (addr \<Rightarrow> sample \<Rightarrow> daemon \<Rightarrow> daemon option) \<Rightarrow> (addr \<Rightarrow> daemon \<Rightarrow> daemon option) \<Rightarrow> bool" where
  "exits_less env f g \<longleftrightarrow> (\<forall>p smp d. le_exit (clock_filter env p smp d) (f p smp d)) \<and> (\<forall>p d. le_exit (refclock_transmit env p d) (g p d))"

lemma le_exit_refl [simp, intro!]: "le_exit a a"
  by (simp add: le_exit_def)

lemma le_exit_bind: "le_exit a b \<Longrightarrow> (\<And>x. le_exit (h x) (k x)) \<Longrightarrow> le_exit (a \<bind> h) (b \<bind> k)"
  by (cases a) (simp_all add: le_exit_def, metis bind.bind_lunit)

lemma le_exit_if: "(c \<Longrightarrow> le_exit a b) \<Longrightarrow> (\<not> c \<Longrightarrow> le_exit a' b') \<Longrightarrow> le_exit (if c then a else a') (if c then b else b')"
  by simp

lemma le_exit_option: "(r = None \<Longrightarrow> le_exit a b) \<Longrightarrow> (\<And>x. r = Some x \<Longrightarrow> le_exit (h x) (k x)) \<Longrightarrow>
    le_exit (case r of None \<Rightarrow> a | Some x \<Rightarrow> h x) (case r of None \<Rightarrow> b | Some x \<Rightarrow> k x)"
  by (cases r) simp_all

lemma le_exit_prod: "(\<And>x y. le_exit (h x y) (k x y)) \<Longrightarrow> le_exit (case r of (x, y) \<Rightarrow> h x y) (case r of (x, y) \<Rightarrow> k x y)"
  by (cases r) simp

lemmas le_exit_rules = le_exit_refl le_exit_bind le_exit_if le_exit_option le_exit_prod

lemma refclock_part [simp]:
  "poll_peer (env\<lparr>refclock_transmit := g\<rparr>) = poll_peer env" "put_peers (env\<lparr>refclock_transmit := g\<rparr>) = put_peers env"
  "stratum_bad (env\<lparr>refclock_transmit := g\<rparr>) = stratum_bad env" "authenticate (env\<lparr>refclock_transmit := g\<rparr>) = authenticate env"
  "header_tests (env\<lparr>refclock_transmit := g\<rparr>) = header_tests env" "kiss (env\<lparr>refclock_transmit := g\<rparr>) = kiss env"
  by (intro ext; simp add: poll_peer_def put_peers_def stratum_bad_def authenticate_def header_tests_def kiss_def)+

lemma filter_part [simp]:
  "poll_peer (env\<lparr>clock_filter := f\<rparr>) = poll_peer env" 
  "stratum_bad (env\<lparr>clock_filter := f\<rparr>) = stratum_bad env" "authenticate (env\<lparr>clock_filter := f\<rparr>) = authenticate env"
  by (intro ext; simp add: poll_peer_def stratum_bad_def authenticate_def)+

lemma rnow_parts:
  "rnow (env\<lparr>clock_filter := f\<rparr>) = rnow env" "rnow (env\<lparr>refclock_transmit := g\<rparr>) = rnow env"
  by simp_all

lemma parts:
  "pe (env\<lparr>refclock_transmit := g\<rparr>) = pe env" "evp (env\<lparr>refclock_transmit := g\<rparr>) = evp env" "xmt_tx (env\<lparr>refclock_transmit := g\<rparr>) = xmt_tx env"
  "xmt_ty (env\<lparr>refclock_transmit := g\<rparr>) = xmt_ty env"
  "pe (env\<lparr>clock_filter := f\<rparr>) = pe env" "evp (env\<lparr>clock_filter := f\<rparr>) = evp env" "xmt_tx (env\<lparr>clock_filter := f\<rparr>) = xmt_tx env"
  "xmt_ty (env\<lparr>clock_filter := f\<rparr>) = xmt_ty env"
  by simp_all

lemma fast_xmit_refclock [simp]: "fast_xmit (env\<lparr>refclock_transmit := g\<rparr>) = fast_xmit env"
  by (intro ext) (simp only: fast_xmit_def kod_pkt_def sys_pkt_def answer_if_def parts)

lemma answer_parts [simp]: "answer (env\<lparr>refclock_transmit := g\<rparr>) = answer env" "answer (env\<lparr>clock_filter := f\<rparr>) = answer env"
  by (intro ext; simp only: answer_def fast_xmit_refclock fast_xmit_filter)+

lemma unpeer_preempt_refclock [simp]: "unpeer_preempt (env\<lparr>refclock_transmit := g\<rparr>) = unpeer_preempt env"
  by (intro ext) (simp only: unpeer_preempt_def parts refclock_part)

lemma small_refclock [simp]:
  "arm_burst (env\<lparr>refclock_transmit := g\<rparr>) = arm_burst env" "interleave_end (env\<lparr>refclock_transmit := g\<rparr>) = interleave_end env"
  by (intro ext; simp only: arm_burst_def interleave_end_def parts)+

lemma am_parts [simp]:
  "am_fxmit (env\<lparr>refclock_transmit := g\<rparr>) = am_fxmit env" "am_fxmit (env\<lparr>clock_filter := f\<rparr>) = am_fxmit env"
  "am_manycast (env\<lparr>refclock_transmit := g\<rparr>) = am_manycast env" "am_manycast (env\<lparr>clock_filter := f\<rparr>) = am_manycast env"
  "am_newbcl (env\<lparr>refclock_transmit := g\<rparr>) = am_newbcl env" "am_newbcl (env\<lparr>clock_filter := f\<rparr>) = am_newbcl env"
  "am_newpass (env\<lparr>refclock_transmit := g\<rparr>) = am_newpass env" "am_newpass (env\<lparr>clock_filter := f\<rparr>) = am_newpass env"
  by (intro ext; simp only: am_fxmit_def am_manycast_def am_newbcl_def am_newpass_def parts answer_parts refclock_part filter_part put_peers_filter
    fast_xmit_refclock fast_xmit_filter)+

lemma process_filter_mono:
  "exits_less env f g \<Longrightarrow> le_exit (process_filter env p smp d) (process_filter (env\<lparr>clock_filter := f, refclock_transmit := g\<rparr>) p smp d)"
  unfolding process_filter_def parts by (intro le_exit_bind) (simp_all add: exits_less_def)

lemma process_sample_mono:
  "exits_less env f g \<Longrightarrow> le_exit (process_sample env rb p d) (process_sample (env\<lparr>clock_filter := f, refclock_transmit := g\<rparr>) rb p d)"
  using process_filter_mono by (simp add: process_sample_def Let_def)

lemma process_packet_mono:
  assumes "exits_less env f g"
  shows "le_exit (process_packet env rb p d) (process_packet (env\<lparr>clock_filter := f, refclock_transmit := g\<rparr>) rb p d)"
  unfolding process_packet_def Let_def
  by (simp only: small_refclock arm_burst_filter header_tests_filter refclock_part parts)
    (intro le_exit_rules process_sample_mono [OF assms])

lemma receive_peer_mono:
  assumes "exits_less env f g"
  shows "le_exit (receive_peer env rb dst m mk has_mac au p d) (receive_peer (env\<lparr>clock_filter := f, refclock_transmit := g\<rparr>) rb dst m mk has_mac au p d)"
  unfolding receive_peer_def Let_def
  by (simp only: small_refclock interleave_end_filter refclock_part parts unpeer_preempt_refclock unpeer_preempt_filter fast_xmit_refclock fast_xmit_filter kiss_filter)
    (intro le_exit_rules process_packet_mono [OF assms])

lemma receive_match_mono:
  assumes "exits_less env f g"
  shows "le_exit (receive_match env rb m mk authlen has_mac key d) (receive_match (env\<lparr>clock_filter := f, refclock_transmit := g\<rparr>) rb m mk authlen has_mac key d)"
proof -
  note c = receive_peer_mono [OF assms]
  show ?thesis unfolding receive_match_def Let_def
    apply (simp only: refclock_part filter_part am_parts)
    apply (intro le_exit_rules)
    subgoal for x y r z by (cases z; simp only: am_action.case) (intro le_exit_rules c)+
    done
qed

lemma receive_limit_mono:
  assumes "exits_less env f g"
  shows "le_exit (receive_limit env rb m mk authlen has_mac key d) (receive_limit (env\<lparr>clock_filter := f, refclock_transmit := g\<rparr>) rb m mk authlen has_mac key d)"
proof -
  have mr: "mon_refuse (env\<lparr>clock_filter := f, refclock_transmit := g\<rparr>) = mon_refuse env" by simp
  show ?thesis unfolding receive_limit_def Let_def mr
    by (simp only: parts answer_parts) (intro le_exit_rules receive_match_mono [OF assms])
qed

lemma receive_format_mono:
  assumes "exits_less env f g"
  shows "le_exit (receive_format env rb mk d) (receive_format (env\<lparr>clock_filter := f, refclock_transmit := g\<rparr>) rb mk d)"
  unfolding receive_format_def Let_def by (intro le_exit_rules receive_limit_mono [OF assms])

lemma receive_mono:
  assumes "exits_less env f g"
  shows "le_exit (receive env rb d) (receive (env\<lparr>clock_filter := f, refclock_transmit := g\<rparr>) rb d)"
proof -
  have fl: "flaked (env\<lparr>clock_filter := f, refclock_transmit := g\<rparr>) = flaked env" by simp
  show ?thesis unfolding receive_def Let_def fl
    by (simp only: parts refclock_part put_peers_filter) (intro le_exit_rules receive_format_mono [OF assms])
qed

lemma sending_parts [simp]:
  "peer_xmit (env\<lparr>refclock_transmit := g\<rparr>) = peer_xmit env" "peer_xmit (env\<lparr>clock_filter := f\<rparr>) = peer_xmit env"
  "pool_xmit (env\<lparr>refclock_transmit := g\<rparr>) = pool_xmit env" "pool_xmit (env\<lparr>clock_filter := f\<rparr>) = pool_xmit env"
  by (intro ext; simp only: peer_xmit_def pool_xmit_def sys_pkt_def stamp_before_def stamp_after_def parts refclock_part put_peers_filter)+

lemma transmit_parts [simp]:
  "toss (env\<lparr>refclock_transmit := g\<rparr>) = toss env" "toss (env\<lparr>clock_filter := f\<rparr>) = toss env"
  "transmit_end (env\<lparr>refclock_transmit := g\<rparr>) = transmit_end env" "transmit_end (env\<lparr>clock_filter := f\<rparr>) = transmit_end env"
  "timer_orphan (env\<lparr>refclock_transmit := g\<rparr>) = timer_orphan env" "timer_orphan (env\<lparr>clock_filter := f\<rparr>) = timer_orphan env"
  by (intro ext; simp only: toss_def transmit_end_def timer_orphan_def parts refclock_part filter_part put_peers_filter sending_parts)+

lemma transmit_reach_mono:
  assumes "exits_less env f g"
  shows "le_exit (transmit_reach env p hp d) (transmit_reach (env\<lparr>clock_filter := f, refclock_transmit := g\<rparr>) p hp d)"
proof -
  have c: "le_exit (clock_filter env p smp e) (clock_filter (env\<lparr>clock_filter := f, refclock_transmit := g\<rparr>) p smp e)" for smp e
    using assms by (simp add: exits_less_def)
  show ?thesis unfolding transmit_reach_def Let_def by (simp only: parts) (intro le_exit_rules c)
qed

lemma transmit_mono:
  assumes "exits_less env f g"
  shows "le_exit (transmit env p d) (transmit (env\<lparr>clock_filter := f, refclock_transmit := g\<rparr>) p d)"
  unfolding transmit_def transmit_unicast_def Let_def
  by (simp only: parts refclock_part filter_part sending_parts transmit_parts) (intro le_exit_rules transmit_reach_mono [OF assms])

lemma timer_peers_mono:
  assumes "exits_less env f g"
  shows "le_exit (timer_peers env ps d) (timer_peers (env\<lparr>clock_filter := f, refclock_transmit := g\<rparr>) ps d)"
proof (induction ps arbitrary: d)
  case (Cons p ps)
  have r: "le_exit (refclock_transmit env p e) (refclock_transmit (env\<lparr>clock_filter := f, refclock_transmit := g\<rparr>) p e)" for e
    using assms by (simp add: exits_less_def)
  show ?case unfolding timer_peers.simps Let_def by (simp only: parts) (intro le_exit_rules r transmit_mono [OF assms] Cons.IH)
qed simp

lemma timer_second_mono:
  assumes "exits_less env f g"
  shows "le_exit (timer_second env d) (timer_second (env\<lparr>clock_filter := f, refclock_transmit := g\<rparr>) d)"
  unfolding timer_second_def Let_def by (simp only: parts transmit_parts) (intro le_exit_rules timer_peers_mono [OF assms])

section \<open>Faults\<close>

lemma preempt_bits [simp]:
  "(x OR FLAG_XB) AND FLAG_PREEMPT = x AND FLAG_PREEMPT" "(x OR FLAG_XBOGUS) AND FLAG_PREEMPT = x AND FLAG_PREEMPT" "(x AND NOT FLAG_XBOGUS) AND FLAG_PREEMPT = x AND FLAG_PREEMPT"
proof -
  have "FLAG_XB AND FLAG_PREEMPT = 0" "FLAG_XBOGUS AND FLAG_PREEMPT = 0" "NOT FLAG_XBOGUS AND FLAG_PREEMPT = FLAG_PREEMPT" by code_simp+
  then show "(x OR FLAG_XB) AND FLAG_PREEMPT = x AND FLAG_PREEMPT" "(x OR FLAG_XBOGUS) AND FLAG_PREEMPT = x AND FLAG_PREEMPT"
    "(x AND NOT FLAG_XBOGUS) AND FLAG_PREEMPT = x AND FLAG_PREEMPT" by (simp_all add: bit.conj_disj_distrib2 and.assoc)
qed

text \<open>What the checks of a packet leave alone in an association.\<close>

definition same_assoc :: "peer \<Rightarrow> peer \<Rightarrow> bool" where
  "same_assoc q q' \<longleftrightarrow> peer_key q' = peer_key q \<and> hmode q' = hmode q \<and> minpoll q' = minpoll q \<and> maxpoll q' = maxpoll q \<and> hpoll q' = hpoll q \<and> ppoll q' = ppoll q \<and>
     ttl q' = ttl q \<and> pkeyid q' = pkeyid q \<and> pflags q' AND FLAG_PREEMPT = pflags q AND FLAG_PREEMPT"

lemma stamps_begin_same: "same_assoc q (stamps_begin q)"
  by (simp add: same_assoc_def stamps_begin_def Let_def peer_key_def)

lemma check_stamps_keeps:
  assumes "check_stamps m rb q = (dropped, q')"
  shows "same_assoc q q' \<and> pxmt q' = pxmt q"
proof -
  have s: "same_assoc q r" if "same_assoc (stamps_begin q) r" for r using that stamps_begin_same [of q] by (simp add: same_assoc_def)
  define q0 where "q0 = stamps_begin q"
  have "same_assoc q0 q' \<and> pxmt q' = pxmt q0"
    using assms unfolding check_stamps_def Let_def q0_def [symmetric]
    by (auto simp: same_assoc_def peer_key_def split: if_splits)
  then show ?thesis using s by (simp add: q0_def)
qed

lemma update_stamps_keeps: "same_assoc q (update_stamps m rb q)" "pxmt (update_stamps m rb q) = pkt_xmt rb"
  by (simp_all add: update_stamps_def Let_def same_assoc_def peer_key_def)

lemma check_stamps_accepts: "hismode \<noteq> MODE_BROADCAST \<Longrightarrow> L_ISZERO (pkt_xmt rb) \<or> pxmt q \<noteq> pkt_xmt rb \<Longrightarrow> \<exists>q'. check_stamps hismode rb q = (False, q')"
  by (auto simp: check_stamps_def Let_def)

lemma kiss_None: "minpoll q < pkt_ppoll rb \<Longrightarrow> 31 \<le> ppoll q \<Longrightarrow> kiss env rb q = None"
  by (simp add: kiss_def Let_def shl1_def not_less [symmetric])

text \<open>
  C37: A kiss-o'-death packet is believed whatever its origin time stamp: it need not answer anything.  When its poll exponent is 31 or more, the shift
  \<^verbatim>\<open>1 << peer->minpoll\<close> that follows is undefined.  No authentication is needed for either.
\<close>

theorem kiss_undefined_shift:
  assumes "is_kod MODE_SERVER rb" "minpoll (getp p d) < 31" "pkt_ppoll rb \<ge> 31" "pxmt (getp p d) \<noteq> pkt_xmt rb" "mk AND RES_DONTTRUST = 0"
  shows "receive_peer env rb dst MODE_SERVER mk 0 AUTH_NONE p d = None"
proof -
  obtain q where q: "check_stamps MODE_SERVER rb (getp p d) = (False, q)"
    using check_stamps_accepts [of MODE_SERVER rb "getp p d"] assms(4) by (auto simp: MODE_SERVER_def MODE_BROADCAST_def)
  define u where "u = update_stamps MODE_SERVER rb q"
  have m: "minpoll u = minpoll (getp p d)" using check_stamps_keeps [OF q] update_stamps_keeps(1) by (auto simp: u_def same_assoc_def)
  have "kiss env rb (u\<lparr>ppoll := max (minpoll u) (pkt_ppoll rb)\<rparr>) = None"
    by (rule kiss_None) (use m assms(2,3) in \<open>auto simp: max_def\<close>)
  then show ?thesis using assms(1,5) by (simp add: receive_peer_def q Let_def AUTH_def u_def)
qed

lemma fast_xmit_nak:
  "\<exists>d' r. fast_xmit env rb (Some i) m 0 fl d = Some (answer_if env rb i d, d') \<and> peers d' = peers d \<and> outbox d' = outbox d @ [r] \<and>
     to_adr r = recv_srcadr rb \<and> length (to_bytes r) \<in> {48, 52}"
proof -
  define x where "x = (if fl AND RES_KOD \<noteq> 0 then (kod_pkt env rb m, d\<lparr>sys_kodsent := sys_kodsent d + 1\<rparr>)
    else (sys_pkt env (PKT_VERSION (pkt_li_vn_mode rb)) m (max (pkt_ppoll rb) (ntp_minpoll (mon_cf (pe env)))) (pkt_xmt rb) (recv_time rb) (xmt_tx env) d, d))"
  obtain y e where y: "x = (y, e)" by (cases x)
  have e: "peers e = peers d" "outbox e = outbox d" using y by (auto simp: x_def split: if_splits)
  have w: "write_at (xpkt_memory y) 48 (htonl_bytes 0) = Some (pkt_bytes y @ htonl_bytes 0 @ replicate 24 0)"
    by (simp add: write_at_def xpkt_memory_def)
  show ?thesis
  proof (cases "recv_length rb = 48")
    case True
    then show ?thesis using e unfolding fast_xmit_def x_def [symmetric] y Let_def by (simp add: sendpkt_def)
  next
    case False
    then show ?thesis using e w unfolding fast_xmit_def x_def [symmetric] y Let_def by (simp add: sendpkt_def authencrypt_def Let_def)
  qed
qed

lemma unpeer_preempt_keeps: "pflags (getp p d) AND FLAG_PREEMPT = 0 \<Longrightarrow> unpeer_preempt env p d = Some d"
  by (simp add: unpeer_preempt_def)

definition demo_kiss :: rbuf where
  "demo_kiss = demo_rbuf 48 ([0xe4, 0, 40, 0] @ replicate 8 0 @ [0x52, 0x41, 0x54, 0x45] @ replicate 24 0 @ [0, 0, 0, 9, 0, 0, 0, 0])"

theorem kiss_undefined_shift_witness:
  "is_kod MODE_SERVER demo_kiss \<and> pkt_org demo_kiss = zero_lfp \<and> receive_peer demo_renv demo_kiss (Some 0) MODE_SERVER 0 0 AUTH_NONE 3 demo_client = None"
proof -
  have k: "is_kod MODE_SERVER demo_kiss" "pkt_org demo_kiss = zero_lfp" "pkt_ppoll demo_kiss \<ge> 31" "zero_lfp \<noteq> pkt_xmt demo_kiss" by code_simp+
  with kiss_undefined_shift [OF k(1), of 3 demo_client 0 demo_renv] show ?thesis by (simp add: demo_client zero_peer_def)
qed

text \<open>A packet of a symmetric peer whose authentication fails changes only its association, which stays unless it is preemptible.\<close>

lemma receive_peer_unauthentic:
  assumes "is_authentic = AUTH_ERROR \<and> dst \<noteq> None \<or> is_authentic = AUTH_CRYPTO" "pflags (getp p d) AND FLAG_PREEMPT = 0" "L_ISZERO (pkt_xmt rb) \<or> pxmt (getp p d) \<noteq> pkt_xmt rb"
  shows "\<exists>d2. receive_peer env rb dst MODE_ACTIVE mk has_mac is_authentic p d = Some d2 \<and> peer_list (peers d2) = peer_list (peers d) \<and> same_assoc (getp p d) (getp p d2)"
proof -
  have na: "\<not> AUTH x is_authentic" for x using assms(1) by (auto simp: AUTH_def)
  obtain q where q: "check_stamps MODE_ACTIVE rb (getp p d) = (False, q)"
    using check_stamps_accepts [OF _ assms(3), of MODE_ACTIVE] by (auto simp: MODE_ACTIVE_def MODE_BROADCAST_def)
  define u where "u = (update_stamps MODE_ACTIVE rb q)\<lparr>flash := flash q OR TEST5, badauth := badauth (update_stamps MODE_ACTIVE rb q) + 1\<rparr>"
  have u: "same_assoc (getp p d) u"
    using check_stamps_keeps [OF q] update_stamps_keeps(1) [of q MODE_ACTIVE rb] by (auto simp: u_def same_assoc_def peer_key_def)
  obtain d2 where x: "is_authentic = AUTH_ERROR \<Longrightarrow> map_option snd (fast_xmit env rb dst MODE_ACTIVE 0 mk (setp p u d)) = Some d2" "peers d2 = peers (setp p u d)"
  proof (cases dst)
    case (Some i)
    obtain e ep where "fast_xmit env rb dst MODE_ACTIVE 0 mk (setp p u d) = Some (ep, e)" "peers e = peers (setp p u d)"
      using fast_xmit_nak [of env rb i MODE_ACTIVE mk "setp p u d"] Some by auto
    then show ?thesis by (intro that [of e]) simp_all
  qed (use assms(1) that [of "setp p u d"] in auto)
  have keep: "unpeer_preempt env p e = Some e" "peer_list (peers e) = peer_list (peers d)" "getp p e = u" if "peers e = peers (setp p u d)" for e
    using u assms(2) that by (simp_all add: unpeer_preempt_def getp_def setp_def same_assoc_def)
  have "receive_peer env rb dst MODE_ACTIVE mk has_mac is_authentic p d = Some (if is_authentic = AUTH_CRYPTO then setp p u d else d2)"
    using na x keep(1) [of "setp p u d"] keep(1) [of d2] assms(1) by (auto simp: receive_peer_def q Let_def u_def [symmetric])
  then show ?thesis using u keep(2,3) [of d2] keep(2,3) [of "setp p u d"] x(2) by auto
qed

text \<open>
  C33: A symmetric active packet with a wrong authentication code, or a crypto-NAK, mobilises a passive association: the branch that handles the failure does
  not return.  The association survives the rest of the processing of the packet, whatever the switches for authentication and the restrictions are.  The endpoint is the
  one that the answer to the wrong code has left in the buffer; on a multicast endpoint this needs an interface from which the source can be reached.
\<close>

theorem newpass_without_authentication:
  assumes "peer_ok [] (peers d)" "\<not> ISREFCLOCKADR (recv_srcadr rb)" "is_authentic = AUTH_ERROR \<or> is_authentic = AUTH_CRYPTO"
    and "dst = (if is_authentic = AUTH_ERROR then answer_if env rb (rdstadr rb) d else Some (rdstadr rb))" "dst \<noteq> None"
    and "newpeer_duplicate (pe env) (recv_srcadr rb) None dst MODE_PASSIVE MDF_UCAST (peers d) = None"
    and "PKT_LEAP (pkt_li_vn_mode rb) = LEAP_NOTINSYNC \<or> \<not> stratum_bad env (PKT_TO_STRATUM (pkt_stratum rb))"
  shows "\<exists>p d1 d2. am_newpass env rb mk key is_authentic d = Some (Some p, dst, d1) \<and> receive_peer env rb dst MODE_ACTIVE mk' has_mac is_authentic p d1 = Some d2 \<and>
    p \<notin> set (peer_list (peers d)) \<and> peer_list (peers d2) = p # peer_list (peers d) \<and> hmode (getp p d2) = MODE_PASSIVE \<and> srcadr (getp p d2) = recv_srcadr rb"
proof -
  have na: "\<not> AUTH x is_authentic" for x using assms(3) by (auto simp: AUTH_def)
  obtain d0 where d0: "(if is_authentic = AUTH_ERROR then map_option (\<lambda>(dst, d). (dst, restricted d)) (fast_xmit env rb (Some (rdstadr rb)) MODE_ACTIVE 0 mk d)
      else Some (Some (rdstadr rb), d)) = Some (dst, d0)" "peers d0 = peers d"
  proof -
    obtain e where "fast_xmit env rb (Some (rdstadr rb)) MODE_ACTIVE 0 mk d = Some (answer_if env rb (rdstadr rb) d, e)" "peers e = peers d"
      using fast_xmit_nak by blast
    then show ?thesis using assms(4) by (intro that [of "if is_authentic = AUTH_ERROR then restricted e else d"]) (simp_all add: restricted_def)
  qed
  obtain p s where p: "newpeer (pe env) (recv_srcadr rb) None dst MODE_PASSIVE (PKT_VERSION (pkt_li_vn_mode rb)) (pkt_ppoll rb) NTP_MAXDPOLL 0
      MDF_UCAST 0 key (sys_ident d0) (peers d) = Some (Some p, s)" "p \<notin> set (peer_list (peers d))" "peer_list s = p # peer_list (peers d)"
    "srcadr (peer_mem s p) = recv_srcadr rb" "hmode (peer_mem s p) = MODE_PASSIVE" "pflags (peer_mem s p) = 0" "pxmt (peer_mem s p) = zero_lfp"
    using newpeer_plain [OF assms(1,2), of MODE_PASSIVE None MDF_UCAST "pe env" dst] assms(6) by (fastforce simp: new_assoc_def MODE_PASSIVE_def)
  define d1 where "d1 = put_peers env s d0"
  have a: "am_newpass env rb mk key is_authentic d = Some (Some p, dst, d1)"
    using na d0 p(1) assms(7) by (auto simp: am_newpass_def Let_def d1_def split: if_splits)
  have g: "getp p d1 = peer_mem s p" by (simp add: getp_def d1_def)
  have "L_ISZERO (pkt_xmt rb) \<or> pxmt (getp p d1) \<noteq> pkt_xmt rb" by (cases "pkt_xmt rb") (auto simp: g p(7) zero_lfp_def L_ISZERO_def)
  then obtain d2 where d2: "receive_peer env rb dst MODE_ACTIVE mk' has_mac is_authentic p d1 = Some d2" "peer_list (peers d2) = peer_list (peers d1)"
    "same_assoc (getp p d1) (getp p d2)" using receive_peer_unauthentic [of is_authentic dst p d1 rb env mk' has_mac] assms(3,5) p(6) g by auto
  moreover have "hmode (getp p d2) = MODE_PASSIVE" "srcadr (getp p d2) = recv_srcadr rb" "peer_list (peers d2) = p # peer_list (peers d)"
    using d2(2,3) p(3-5) by (simp_all add: g same_assoc_def peer_key_def) (simp add: d1_def)
  ultimately show ?thesis using a p(2) by blast
qed

theorem newpass_without_authentication_witness:
  "\<exists>p d1 d2. am_newpass demo_renv (demo_rbuf 52 [0x21, 2]) 0 0 AUTH_CRYPTO demo_daemon = Some (Some p, Some 0, d1) \<and>
     receive_peer demo_renv (demo_rbuf 52 [0x21, 2]) (Some 0) MODE_ACTIVE 0 4 AUTH_CRYPTO p d1 = Some d2 \<and> peer_list (peers d2) = [p] \<and> hmode (getp p d2) = MODE_PASSIVE"
proof -
  have d: "peers demo_daemon = demo_peers" "recv_srcadr (demo_rbuf 52 [0x21, 2]) = SA4 0x0a000001 123" "pe demo_renv = demo_env"
    "rdstadr (demo_rbuf 52 [0x21, 2]) = 0"
    by (simp_all add: demo_daemon_def demo_rbuf_def demo_renv_def)
  have "\<not> ISREFCLOCKADR (SA4 0x0a000001 123)" by code_simp
  moreover have "\<not> stratum_bad demo_renv (PKT_TO_STRATUM (pkt_stratum (demo_rbuf 52 [0x21, 2])))" by code_simp
  ultimately show ?thesis
    using newpass_without_authentication [of demo_daemon "demo_rbuf 52 [0x21, 2]" AUTH_CRYPTO "Some 0" demo_renv 0 0 0 4] unfolding d
    by (auto simp: demo_ok demo_fresh demo_empty)
qed

lemma replay_dropped_once:
  assumes "pxmt (getp p d) = pkt_xmt rb" "\<not> L_ISZERO (pkt_xmt rb)"
  shows "\<exists>d'. receive_peer env rb dst hismode mk has_mac is_authentic p d = Some d' \<and> outbox d' = outbox d \<and> keys d' = keys d \<and> mon d' = mon d \<and>
    (\<exists>fl n. getp p d' = (getp p d)\<lparr>received := received (getp p d) + 1, oldpkt := oldpkt (getp p d) + 1, flash := n, pflags := fl\<rparr>) \<and>
    (\<forall>r. r \<noteq> p \<longrightarrow> getp r d' = getp r d)"
proof -
  define q where "q = (stamps_begin (getp p d))\<lparr>flash := flash (stamps_begin (getp p d)) OR TEST1, oldpkt := oldpkt (stamps_begin (getp p d)) + 1\<rparr>"
  have "check_stamps hismode rb (getp p d) = (True, q)" using assms by (simp add: check_stamps_def Let_def q_def)
  then have "receive_peer env rb dst hismode mk has_mac is_authentic p d = Some (setp p q d)" by (simp add: receive_peer_def)
  moreover have "\<exists>fl n. q = (getp p d)\<lparr>received := received (getp p d) + 1, oldpkt := oldpkt (getp p d) + 1, flash := n, pflags := fl\<rparr>"
    by (rule exI [of _ "pflags q"], rule exI [of _ "flash q"]) (simp add: q_def stamps_begin_def Let_def)
  moreover have "outbox (setp p q d) = outbox d" "keys (setp p q d) = keys d" "mon (setp p q d) = mon d" by (simp_all add: setp_def)
  ultimately show ?thesis using setp_other by auto
qed

text \<open>
  The clock filter leaves the last transmit time of an association alone, unless it steps the clock and clears the associations.  In \<open>no_clear env\<close> it
  does not return in that case, so that what returns there has not cleared the association, and is what returns in \<open>env\<close>.
\<close>

definition filter_keeps_xmt :: "renv \<Rightarrow> addr \<Rightarrow> bool" where
  "filter_keeps_xmt env p \<longleftrightarrow> (\<forall>smp d d'. clock_filter env p smp d = Some d' \<longrightarrow> pxmt (getp p d') = pxmt (getp p d))"

definition no_clear :: "renv \<Rightarrow> renv" where
  "no_clear env = env\<lparr>clock_filter := (\<lambda>p smp d. clock_filter env p smp d \<bind> (\<lambda>d'. if pxmt (getp p d') = pxmt (getp p d) then Some d' else None))\<rparr>"

lemma no_clear_keeps: "filter_keeps_xmt (no_clear env) p"
  by (auto simp: filter_keeps_xmt_def no_clear_def bind_eq_Some_conv split: if_splits)

lemma no_clear_returns:
  assumes "receive_peer (no_clear env) rb dst m mk has_mac au p d = Some d1"
  shows "receive_peer env rb dst m mk has_mac au p d = Some d1"
proof -
  have "exits_less (no_clear env) (clock_filter env) (refclock_transmit env)"
    by (auto simp: exits_less_def le_exit_def no_clear_def split: bind_split)
  moreover have "(no_clear env)\<lparr>clock_filter := clock_filter env, refclock_transmit := refclock_transmit env\<rparr> = env" by (simp add: no_clear_def)
  ultimately show ?thesis using receive_peer_mono [of "no_clear env" "clock_filter env" "refclock_transmit env" rb dst m mk has_mac au p d] assms by (simp add: le_exit_def)
qed

lemma peer_unfit_shape: "snd (peer_unfit env s q) = q\<lparr>flash := (flash q AND NOT PEER_TEST_MASK) OR fst (peer_unfit env s q)\<rparr>"
  by (simp add: peer_unfit_def Let_def)

lemma process_filter_xmt:
  assumes "filter_keeps_xmt env p" "process_filter env p smp d = Some d'"
  shows "pxmt (getp p d') = pxmt (getp p d)"
proof -
  obtain d1 where d1: "clock_filter env p smp d = Some d1" using assms(2) by (auto simp: process_filter_def bind_eq_Some_conv)
  then have "pxmt (getp p d1) = pxmt (getp p d)" using assms(1) by (auto simp: filter_keeps_xmt_def)
  moreover have "pxmt (getp p d') = pxmt (getp p d1)" using assms(2) d1
    by (auto simp: process_filter_def split_beta peer_unfit_shape Let_def)
  ultimately show ?thesis by simp
qed

lemma process_sample_xmt:
  assumes "filter_keeps_xmt env p" "process_sample env rb p d = Some d'"
  shows "pxmt (getp p d') = pxmt (getp p d)"
  using assms(2) by (auto simp: process_sample_def Let_def split: if_splits dest!: process_filter_xmt [OF assms(1)])

lemma process_packet_xmt:
  assumes "filter_keeps_xmt env p" "process_packet env rb p d = Some d'"
  shows "pxmt (getp p d') = pxmt (getp p d)"
proof -
  define d1 where "d1 = d\<lparr>sys_processed := sys_processed d + 1\<rparr>"
  define q where "q = (getp p d1)\<lparr>processed := processed (getp p d1) + 1, leap := PKT_LEAP (pkt_li_vn_mode rb),
    stratum := min (PKT_TO_STRATUM (pkt_stratum rb)) STRATUM_UNSPEC,
    pmode := PKT_MODE (pkt_li_vn_mode rb), precision := pkt_precision rb, refid := pkt_refid rb, reftime := pkt_reftime rb\<rparr>"
  have g: "pxmt q = pxmt (getp p d)" by (simp add: q_def d1_def getp_def)
  obtain r r' where r: "arm_burst env q = Some r" "poll_update (pe env) (hpoll r) r = Some r'"
    using assms(2) unfolding process_packet_def Let_def d1_def [symmetric] q_def [symmetric] by (auto simp: bind_eq_Some_conv)
  have "pxmt (header_tests env rb r') = pxmt q" using arm_burst_shape [OF r(1)] poll_update_shape [OF r(2)] by (auto simp: header_tests_def Let_def)
  then show ?thesis using assms(2) r g unfolding process_packet_def Let_def d1_def [symmetric] q_def [symmetric]
    by (auto split: if_splits dest!: process_sample_xmt [OF assms(1)])
qed

lemma receive_peer_xmt:
  assumes "receive_peer env rb dst hismode mk has_mac is_authentic p d = Some d1" "filter_keeps_xmt env p"
    and "hismode = MODE_BROADCAST \<Longrightarrow> L_ISZERO (pkt_org rb) \<or> pflags (getp p d) AND FLAG_XB \<noteq> 0"
    and "AUTH (has_mac \<noteq> 0 \<or> mk AND RES_DONTTRUST \<noteq> 0) is_authentic"
  shows "pxmt (getp p d1) = pkt_xmt rb"
proof -
  obtain dropped q where c: "check_stamps hismode rb (getp p d) = (dropped, q)" by (cases "check_stamps hismode rb (getp p d)")
  have nc: "is_authentic \<noteq> AUTH_CRYPTO" using assms(4) by (auto simp: AUTH_def split: if_splits)
  define u where "u = update_stamps hismode rb q"
  have u: "pxmt u = pkt_xmt rb" by (simp add: u_def update_stamps_keeps)
  show ?thesis
  proof (cases dropped)
    case True
    moreover have "FLAG_XB AND NOT FLAG_XBOGUS = FLAG_XB" by code_simp
    then have "pflags (stamps_begin r) AND FLAG_XB = pflags r AND FLAG_XB" for r by (simp add: stamps_begin_def Let_def and.assoc and.commute [of "NOT FLAG_XBOGUS"])
    ultimately have "pxmt q = pkt_xmt rb" using c assms(3) check_stamps_keeps [OF c] by (auto simp: check_stamps_def Let_def split: if_splits)
    then show ?thesis using assms(1) True by (auto simp: receive_peer_def c)
  next
    case False
    have k: "kiss env rb v = Some w \<Longrightarrow> pxmt w = pxmt v" for v w
      by (auto simp: kiss_def Let_def bind_eq_Some_conv dest!: poll_update_shape split: if_splits)
    have ie: "interleave_end env rb v = Some w \<Longrightarrow> pxmt w = pxmt v" for v w by (auto simp: interleave_end_def Let_def split: if_splits)
    show ?thesis using assms(1,4) nc False u
      by (auto simp: receive_peer_def c Let_def u_def [symmetric] bind_eq_Some_conv split: if_splits
        dest!: k ie process_packet_xmt [OF assms(2)])
  qed
qed

text \<open>
  C11: A packet is accepted once: after an authentic packet of an association has been processed, the same packet, or any other one with its transmit time, is
  counted and dropped.  Neither the time stamps nor the reachability nor the poll interval of the association change, and nothing is sent.  This needs that the first
  packet has not made the clock filter step the clock, which clears the association, and that it is not the first interleaved packet of a
  broadcast server, whose transmit time is not kept.
\<close>

theorem replay_dropped:
  assumes "receive_peer (no_clear env) rb dst hismode mk has_mac is_authentic p d = Some d1"
    and "hismode = MODE_BROADCAST \<longrightarrow> L_ISZERO (pkt_org rb) \<or> pflags (getp p d) AND FLAG_XB \<noteq> 0"
    and "AUTH (has_mac \<noteq> 0 \<or> mk AND RES_DONTTRUST \<noteq> 0) is_authentic" "pkt_xmt rb' = pkt_xmt rb" "\<not> L_ISZERO (pkt_xmt rb)"
  shows "receive_peer env rb dst hismode mk has_mac is_authentic p d = Some d1 \<and>
    (\<exists>d2. receive_peer env' rb' dst' hismode' mk' has_mac' is_authentic' p d1 = Some d2 \<and> outbox d2 = outbox d1 \<and> keys d2 = keys d1 \<and> mon d2 = mon d1 \<and>
    (\<exists>fl n. getp p d2 = (getp p d1)\<lparr>received := received (getp p d1) + 1, oldpkt := oldpkt (getp p d1) + 1, flash := n, pflags := fl\<rparr>) \<and>
    (\<forall>r. r \<noteq> p \<longrightarrow> getp r d2 = getp r d1))"
proof
  show "receive_peer env rb dst hismode mk has_mac is_authentic p d = Some d1" using no_clear_returns [OF assms(1)] .
  have "pxmt (getp p d1) = pkt_xmt rb" using assms(2) by (intro receive_peer_xmt [OF assms(1) no_clear_keeps _ assms(3)]) simp
  then show "\<exists>d2. receive_peer env' rb' dst' hismode' mk' has_mac' is_authentic' p d1 = Some d2 \<and> outbox d2 = outbox d1 \<and> keys d2 = keys d1 \<and> mon d2 = mon d1 \<and>
    (\<exists>fl n. getp p d2 = (getp p d1)\<lparr>received := received (getp p d1) + 1, oldpkt := oldpkt (getp p d1) + 1, flash := n, pflags := fl\<rparr>) \<and>
    (\<forall>r. r \<noteq> p \<longrightarrow> getp r d2 = getp r d1)"
    using assms(4,5) by (intro replay_dropped_once) simp_all
qed

theorem replay_dropped_witness:
  "\<exists>d1 d2. receive_peer demo_renv (demo_rbuf 48 ([0x24, 2, 6] @ replicate 41 0 @ [9])) (Some 0) MODE_SERVER 0 0 AUTH_NONE 3 demo_client = Some d1 \<and>
     receive_peer demo_renv (demo_rbuf 48 ([0x24, 2, 6] @ replicate 41 0 @ [9])) (Some 0) MODE_SERVER 0 0 AUTH_NONE 3 d1 = Some d2 \<and> outbox d2 = outbox d1"
proof -
  have "\<not> Option.is_none (receive_peer (no_clear demo_renv) (demo_rbuf 48 ([0x24, 2, 6] @ replicate 41 0 @ [9])) (Some 0) MODE_SERVER 0 0 AUTH_NONE 3 demo_client)"
    by code_simp
  then obtain d1 where d1: "receive_peer (no_clear demo_renv) (demo_rbuf 48 ([0x24, 2, 6] @ replicate 41 0 @ [9])) (Some 0) MODE_SERVER 0 0 AUTH_NONE 3 demo_client = Some d1"
    by (auto simp: Option.is_none_def)
  moreover have "\<not> L_ISZERO (pkt_xmt (demo_rbuf 48 ([0x24, 2, 6] @ replicate 41 0 @ [9])))" by code_simp
  ultimately show ?thesis
    using replay_dropped [OF d1, where env' = demo_renv and rb' = "demo_rbuf 48 ([0x24, 2, 6] @ replicate 41 0 @ [9])" and dst' = "Some 0" and hismode' = MODE_SERVER and mk' = 0
        and has_mac' = 0 and is_authentic' = AUTH_NONE] by (auto simp: AUTH_def MODE_SERVER_def MODE_BROADCAST_def)
qed

section \<open>The leap second\<close>

lemma timer_leap_count:
  assumes "0 < leapsec d" "k < unat (leapsec d)"
  shows "leapsec ((timer_leap ^^ k) d) = leapsec d - of_nat k \<and> handed ((timer_leap ^^ k) d) = handed d \<and> leap_tai ((timer_leap ^^ k) d) = leap_tai d \<and>
    (0 < k \<and> leapsec d - of_nat k < 86400 \<longrightarrow> sys_leap ((timer_leap ^^ k) d) = LEAP_ADDSECOND) \<and>
    (0 < k \<and> leap_tai d > 0 \<longrightarrow> sys_tai ((timer_leap ^^ k) d) = leap_tai d - 1)"
  using assms(2)
proof (induction k)
  case (Suc k)
  define e where "e = (timer_leap ^^ k) d"
  have i: "leapsec e = leapsec d - of_nat k" "handed e = handed d" "leap_tai e = leap_tai d" using Suc by (auto simp: e_def)
  have s: "(timer_leap ^^ Suc k) d = timer_leap e" by (simp add: e_def)
  have l: "k < 2 ^ 64" "Suc k < 2 ^ 64" using Suc.prems unsigned_less [of "leapsec d" , where 'a = nat] by simp_all
  then have o: "unat (of_nat k :: u_int64) = k" "unat (of_nat (Suc k) :: u_int64) = Suc k" by (simp_all only: unat_of_nat) simp_all
  have u: "unat (leapsec d - of_nat k) = unat (leapsec d) - k" "unat (leapsec d - of_nat (Suc k)) = unat (leapsec d) - Suc k"
    using Suc.prems o by (simp_all only: unat_sub_if') simp_all
  define w where "w = leapsec d - of_nat (Suc k)"
  have w: "leapsec e - 1 = w" "leapsec e > 0" "w \<noteq> 0"
    using u i(1) Suc.prems by (auto simp: w_def word_less_nat_alt unat_eq_zero simp del: of_nat_Suc) (simp add: algebra_simps)
  show ?case unfolding s w_def [symmetric] using w i by (auto simp: timer_leap_def Let_def)
qed simp

text \<open>
  A leap second that is \<open>n\<close> seconds ahead is announced during the last day, and the clock is stepped once, in the very second when the count ends; the
  offset of atomic time is advanced with the step and not before, and nothing happens afterwards.
\<close>

theorem leap_second_once:
  assumes "0 < leapsec d" "0 < leap_tai d"
  shows "(\<forall>k < unat (leapsec d). handed ((timer_leap ^^ k) d) = handed d \<and> leapsec ((timer_leap ^^ k) d) = leapsec d - of_nat k \<and>
      (0 < k \<longrightarrow> sys_tai ((timer_leap ^^ k) d) = leap_tai d - 1) \<and>
      (0 < k \<and> leapsec d - of_nat k < 86400 \<longrightarrow> sys_leap ((timer_leap ^^ k) d) = LEAP_ADDSECOND)) \<and>
    (\<forall>k \<ge> unat (leapsec d). handed ((timer_leap ^^ k) d) = handed d @ [Step_second] \<and> sys_leap ((timer_leap ^^ k) d) = LEAP_NOWARNING \<and>
      sys_tai ((timer_leap ^^ k) d) = leap_tai d \<and> leapsec ((timer_leap ^^ k) d) = 0)"
proof -
  obtain n where n: "unat (leapsec d) = Suc n" using assms(1) by (cases "unat (leapsec d)") (auto simp: unat_eq_zero)
  define e where "e = (timer_leap ^^ n) d"
  have e: "leapsec e = 1" "handed e = handed d" "leap_tai e = leap_tai d"
  proof -
    have "leapsec d = of_nat (Suc n)" by (simp flip: n)
    then show "leapsec e = 1" "handed e = handed d" "leap_tai e = leap_tai d" using timer_leap_count [OF assms(1), of n] n by (auto simp: e_def)
  qed
  define f where "f = timer_leap e"
  have f: "handed f = handed d @ [Step_second]" "sys_leap f = LEAP_NOWARNING" "sys_tai f = leap_tai d" "leapsec f = 0" using e by (simp_all add: f_def timer_leap_def Let_def)
  have "(timer_leap ^^ k) d = f" if "Suc n \<le> k" for k
    using that
  proof (induction rule: dec_induct)
    case base
    show ?case by (simp add: f_def e_def)
  next
    case (step k)
    then show ?case using f(4) by (simp add: timer_leap_def)
  qed
  then show ?thesis using timer_leap_count [OF assms(1)] assms(2) f n by auto
qed

theorem leap_second_once_witness:
  "sys_leap ((timer_leap ^^ 5) (demo_daemon\<lparr>leapsec := 9, leap_tai := 36\<rparr>)) = LEAP_ADDSECOND \<and>
   handed ((timer_leap ^^ 9) (demo_daemon\<lparr>leapsec := 9, leap_tai := 36\<rparr>)) = [Step_second] \<and> sys_tai ((timer_leap ^^ 20) (demo_daemon\<lparr>leapsec := 9, leap_tai := 36\<rparr>)) = 36"
proof -
  have l: "leapsec (demo_daemon\<lparr>leapsec := 9, leap_tai := 36\<rparr>) = 9" "leap_tai (demo_daemon\<lparr>leapsec := 9, leap_tai := 36\<rparr>) = 36"
    "handed (demo_daemon\<lparr>leapsec := 9, leap_tai := 36\<rparr>) = []" by (simp_all add: demo_daemon_def)
  have u: "unat (9 :: u_int64) = 9" by simp
  have "(9 :: u_int64) - of_nat 5 < 86400" by code_simp
  then show ?thesis
    using leap_second_once [of "demo_daemon\<lparr>leapsec := 9, leap_tai := 36\<rparr>"] unfolding l u by (auto simp del: funpow.simps)
qed

end
