(* ===== verification/NTP_Daemon.thy ===== *)
theory NTP_Daemon
  imports NTP_Proto
begin

text \<open>
  The daemon as a whole: the invariant that joins those of the associations, the restrictions, the monitor and the key store, and that packets and the
  timer keep it.  The parts that are arguments of the model are only assumed to keep the invariant when they return (the clock filter and the drivers of
  reference clocks) and to have at most 20 octets (the digests).  When they return, packets and the timer are processed to the end.
\<close>

unbundle bit_operations_syntax

section \<open>The parts\<close>

lemma bump_count_wf: "table_wf t \<Longrightarrow> table_wf (bump_count r t)"
proof -
  assume w: "table_wf t"
  have k: "res_key (rmem (bump_count r t) x) = res_key (rmem t x)" "expire (rmem (bump_count r t) x) = expire (rmem t x)"
    "raddr (rmem (bump_count r t) x) = raddr (rmem t x)" "rmask (rmem (bump_count r t) x) = rmask (rmem t x)" for x
    by (simp_all add: bump_count_def res_key_def)
  have l: "rlist (bump_count r t) = rlist t" "rfree (bump_count r t) = rfree t" "rfresh (bump_count r t) = rfresh t" by (simp_all add: bump_count_def)
  show ?thesis using w unfolding table_wf_def k l .
qed

lemma restrictions_ok:
  assumes "res_wf st"
  shows "\<exists>m st'. restrictions now a st = Some (m, st') \<and> res_wf st'"
proof (cases a)
  case (SA4 v port)
  obtain r t' sh' where "match_restrict_addr now v port (rlist (table4 st)) (table4 st) (shared st) = Some (Some r, t', sh')" "table_wf t'"
    using match_wf [of "table4 st" "rlist (table4 st)" now v port "shared st"] assms by (auto simp: res_wf_def table_wf_def)
  then show ?thesis using assms SA4 bump_count_wf by (auto simp: restrictions_def Let_def match_restrict4_addr_def count_found_def res_wf_def)
next
  case (SA6 v port sc)
  obtain r t' sh' where "match_restrict_addr now v port (rlist (table6 st)) (table6 st) (shared st) = Some (Some r, t', sh')" "table_wf t'"
    using match_wf [of "table6 st" "rlist (table6 st)" now v port "shared st"] assms by (auto simp: res_wf_def table_wf_def)
  then show ?thesis using assms SA6 bump_count_wf by (auto simp: restrictions_def Let_def match_restrict6_addr_def count_found_def res_wf_def)
next
  case SA_UNSPEC
  then show ?thesis using assms by (simp add: restrictions_def Let_def res_wf_def)
qed

text \<open>The key store keeps its invariant when a code is made or checked, and both end when the digests fit.\<close>

definition keys_ok :: "auth_state \<Rightarrow> bool" where
  "keys_ok s \<longleftrightarrow> auth_wf s \<and> cache_ok s"

definition digests_fit :: "(int \<Rightarrow> u_char list \<Rightarrow> u_char list option) \<Rightarrow> bool" where
  "digests_fit ev \<longleftrightarrow> (\<forall>ty bs dg. ev ty bs = Some dg \<longrightarrow> length dg \<le> 20)"

lemma havekey_ok:
  assumes "keys_ok s" "k \<noteq> 0"
  shows "\<exists>have s'. authhavekey k s = (have, s') \<and> keys_ok s' \<and>
    (have \<longrightarrow> (\<exists>bs. \<forall>pkt len. len \<le> length pkt \<longrightarrow> mac_data (cache_secret s') pkt len s' = Some (bs @ take len pkt)))"
proof (cases "\<forall>ty fl lt bs. key_view s k = Some (ty, fl, lt, bs) \<longrightarrow> ty = 0 \<or> KEY_TRUSTED AND fl = 0")
  case True
  then show ?thesis using havekey_unusable [of s k] assms by (auto simp: keys_ok_def)
next
  case False
  then obtain ty fl lt bs where "key_view s k = Some (ty, fl, lt, bs)" "ty \<noteq> 0" "KEY_TRUSTED AND fl \<noteq> 0" by auto
  then show ?thesis using havekey_usable [of s k ty fl lt bs] assms by (auto simp: keys_ok_def)
qed

lemma keys_ok_count: "keys_ok s \<Longrightarrow> keys_ok (s\<lparr>authencryptions := n\<rparr>)" "keys_ok s \<Longrightarrow> keys_ok (s\<lparr>authdecryptions := n\<rparr>)"
  by (simp_all add: keys_ok_def count_frame cache_ok_count)

lemma authencrypt_gen:
  assumes "keys_ok s" "digests_fit ev" "len mod 4 = 0" "len + 24 \<le> length pkt"
  shows "\<exists>n pkt' s'. authencrypt ev k pkt len s = Some (n, pkt', s') \<and> keys_ok s' \<and> 0 \<le> n \<and> n \<le> 24 \<and> length pkt' = length pkt \<and> take len pkt' = take len pkt \<and>
    ((\<forall>ty bs dg. ev ty bs = Some dg \<longrightarrow> length dg mod 4 = 0) \<longrightarrow> n mod 4 = 0)"
proof -
  define s1 where "s1 = s\<lparr>authencryptions := authencryptions s + 1\<rparr>"
  have s1: "keys_ok s1" using keys_ok_count assms(1) by (simp add: s1_def)
  define p1 where "p1 = take len pkt @ htonl_bytes k @ drop (len + 4) pkt"
  have "4 * (len div 4) = len" using assms(3) by presburger
  then have w: "write_at pkt (4 * (len div 4)) (htonl_bytes k) = Some p1" "length p1 = length pkt" "take len p1 = take len pkt"
    using assms(4) by (simp_all add: write_at_def p1_def)
  show ?thesis
  proof (cases "k = 0")
    case True
    then show ?thesis using w s1 by (simp add: authencrypt_def Let_def s1_def [symmetric])
  next
    case False
    then obtain have_key s2 where h: "authhavekey k s1 = (have_key, s2)" "keys_ok s2"
      "have_key \<longrightarrow> (\<exists>bs. \<forall>pkt len. len \<le> length pkt \<longrightarrow> mac_data (cache_secret s2) pkt len s2 = Some (bs @ take len pkt))" using havekey_ok [OF s1] by blast
    show ?thesis
    proof (cases have_key)
      case True
      then obtain bs where m: "mac_data (cache_secret s2) p1 len s2 = Some (bs @ take len p1)" using h(3) w(2) assms(4) by auto
      show ?thesis
      proof (cases "ev (cache_type s2) (bs @ take len p1)")
        case None
        then show ?thesis using False True h w m by (simp add: authencrypt_def Let_def s1_def [symmetric] MD5authencrypt_def)
      next
        case (Some dg)
        then have l: "length dg \<le> 20" using assms(2) by (auto simp: digests_fit_def)
        then have "write_at p1 (len + 4) dg = Some (take (len + 4) p1 @ dg @ drop (len + 4 + length dg) p1)" using w(2) assms(4) by (simp add: write_at_def)
        moreover define p2 where "p2 = take (len + 4) p1 @ dg @ drop (len + 4 + length dg) p1"
        ultimately have e: "authencrypt ev k pkt len s = Some (int (length dg) + 4, p2, s2)"
          using False True h w m Some by (simp add: authencrypt_def Let_def s1_def [symmetric] MD5authencrypt_def)
        have p2: "take len p2 = take len pkt" "length p2 = length pkt" using w(2,3) l assms(4) by (simp_all add: p2_def min_def)
        have "(int (length dg) + 4) mod 4 = 0" if "\<forall>ty bs dg. ev ty bs = Some dg \<longrightarrow> length dg mod 4 = 0"
        proof -
          have "length dg mod 4 = 0" using that Some by blast
          then show ?thesis by presburger
        qed
        then show ?thesis using h(2) l p2 by (simp add: e)
      qed
    next
      case nk: False
      then show ?thesis using False h w by (simp add: authencrypt_def Let_def s1_def [symmetric])
    qed
  qed
qed

lemma authencrypt_ok:
  assumes "keys_ok s" "digests_fit ev" "length pkt = 76"
  shows "\<exists>n pkt' s'. authencrypt ev k pkt 48 s = Some (n, pkt', s') \<and> keys_ok s' \<and> 0 \<le> n \<and> n \<le> 24 \<and> length pkt' = 76 \<and> take 48 pkt' = take 48 pkt"
  using authencrypt_gen [OF assms(1,2), of 48 pkt k] assms(3) by force


section \<open>The invariant\<close>

definition assoc_ok :: "peer \<Rightarrow> bool" where
  "assoc_ok q \<longleftrightarrow> peer_fit q \<and> poll_fit q \<and> unat (ttl q) < 8"

definition daemon_ok :: "daemon \<Rightarrow> bool" where
  "daemon_ok d \<longleftrightarrow> peer_ok [] (peers d) \<and> (\<forall>p \<in> set (peer_list (peers d)). assoc_ok (getp p d)) \<and> mon_wf (mon d) \<and> keys_ok (keys d) \<and>
     length (sys_ttl d) = 8 \<and> sys_ttlmax d = 7"

abbreviation listed :: "daemon \<Rightarrow> addr list" where "listed d \<equiv> peer_list (peers d)"


definition filter_total :: "renv \<Rightarrow> bool" where
  "filter_total env \<longleftrightarrow> (\<forall>p smp d. daemon_ok d \<and> p \<in> set (listed d) \<longrightarrow>
     (\<exists>d'. clock_filter env p smp d = Some d' \<and> daemon_ok d' \<and> listed d' = listed d \<and> outbox d' = outbox d))"

definition clocks_total :: "renv \<Rightarrow> bool" where
  "clocks_total env \<longleftrightarrow> (\<forall>p d. daemon_ok d \<and> p \<in> set (listed d) \<longrightarrow>
     (\<exists>d'. refclock_transmit env p d = Some d' \<and> daemon_ok d' \<and> set (listed d) - {p} \<subseteq> set (listed d')))"

definition env_total :: "renv \<Rightarrow> bool" where
  "env_total env \<longleftrightarrow> digests_fit (evp env) \<and> cfg_ok (mon_cf (pe env)) \<and> mru_incalloc (mon_cf (pe env)) \<noteq> 0 \<and> mru_mindepth (mon_cf (pe env)) \<noteq> 0 \<and>
     \<not> mode_ntpdate (pe env) \<and> filter_total env \<and> clocks_total env"

lemma daemon_ok_cong:
  assumes "peers d' = peers d" "mon d' = mon d" "keys d' = keys d" "sys_ttl d' = sys_ttl d" "sys_ttlmax d' = sys_ttlmax d"
  shows "daemon_ok d' = daemon_ok d"
  using assms by (simp add: daemon_ok_def getp_def)

lemma daemon_ok_counters [simp]:
  "daemon_ok (d\<lparr>outbox := o1\<rparr>) = daemon_ok d" "daemon_ok (d\<lparr>handed := h\<rparr>) = daemon_ok d" "daemon_ok (d\<lparr>sys_received := n\<rparr>) = daemon_ok d"
  "daemon_ok (restricted d) = daemon_ok d" "daemon_ok (badlength d) = daemon_ok d" "daemon_ok (declined d) = daemon_ok d"
  "daemon_ok (d\<lparr>sys_newversion := n\<rparr>) = daemon_ok d" "daemon_ok (d\<lparr>sys_oldversion := n\<rparr>) = daemon_ok d" "daemon_ok (d\<lparr>sys_processed := n\<rparr>) = daemon_ok d"
  "daemon_ok (d\<lparr>sys_limitrejected := n\<rparr>) = daemon_ok d" "daemon_ok (d\<lparr>sys_badauth := n\<rparr>) = daemon_ok d" "daemon_ok (d\<lparr>sys_kodsent := n\<rparr>) = daemon_ok d"
  "daemon_ok (d\<lparr>sys_authdelay := t\<rparr>) = daemon_ok d"
  by (rule daemon_ok_cong; simp add: restricted_def badlength_def declined_def)+

lemma outbox_counters [simp]: "outbox (restricted d) = outbox d" "outbox (badlength d) = outbox d" "outbox (declined d) = outbox d" "outbox (setp p q d) = outbox d"
  "peers (restricted d) = peers d" "peers (badlength d) = peers d" "peers (declined d) = peers d" "listed (setp p q d) = listed d"
  by (simp_all add: restricted_def badlength_def declined_def setp_def)





lemma assocD: "daemon_ok d \<Longrightarrow> p \<in> set (listed d) \<Longrightarrow> assoc_ok (getp p d)"
  by (simp add: daemon_ok_def)

lemma setp_ok:
  assumes "daemon_ok d" "p \<in> set (listed d)" "peer_key q = peer_key (getp p d)" "assoc_ok q"
  shows "daemon_ok (setp p q d)"
proof -
  have "peer_ok [] (upd_peer p (\<lambda>_. q) (peers d))" using assms by (intro upd_listed_ok) (auto simp: daemon_ok_def getp_def assoc_ok_def)
  moreover have "\<forall>r \<in> set (listed d). assoc_ok (getp r (setp p q d))"
  proof
    fix r assume "r \<in> set (listed d)"
    then show "assoc_ok (getp r (setp p q d))" using assms(1,4) by (cases "r = p") (simp_all add: setp_other daemon_ok_def)
  qed
  ultimately show ?thesis using assms(1) by (simp add: daemon_ok_def setp_def)
qed



lemma put_peers_ok:
  assumes "daemon_ok (d\<lparr>peers := s\<rparr>)" "env_total env"
  shows "daemon_ok (put_peers env s d)"
proof -
  have c: "cfg_ok (mon_cf (pe env))" using assms(2) by (simp add: env_total_def)
  have "mon_wf (fold (mon_follow (mon_cf (pe env))) cs m)" if "mon_wf m" for cs m
    using that
  proof (induction cs arbitrary: m)
    case (Cons k cs)
    then show ?case using mon_start_refines_step(1) [OF Cons.prems c] mon_stop_refines_step(1) [OF Cons.prems] by (cases k) (simp_all add: mon_follow_def)
  qed simp
  then show ?thesis using assms(1) by (simp add: daemon_ok_def put_peers_def Let_def getp_def)
qed

section \<open>Packets\<close>

lemma same_assoc_ok: "same_assoc q q' \<Longrightarrow> assoc_ok q' = assoc_ok q"
  by (simp add: same_assoc_def assoc_ok_def peer_fit_def poll_fit_def peer_key_def)

lemma same_assoc_trans: "same_assoc q r \<Longrightarrow> same_assoc r u \<Longrightarrow> same_assoc q u"
  by (simp add: same_assoc_def)









text \<open>
  What is assumed of a receive buffer: the length is that of data in it, the poll exponent is at most 17, the source is not the address of a reference clock, and
  there is an interface from which the source can be reached.
\<close>

definition rbuf_ok :: "renv \<Rightarrow> rbuf \<Rightarrow> bool" where
  "rbuf_ok env rb \<longleftrightarrow> 0 \<le> recv_length rb \<and> in_s32 (recv_length rb) \<and> recv_length rb \<le> int (length (recv_buf rb)) \<and> pkt_ppoll rb \<le> NTP_MAXPOLL \<and>
     \<not> ISREFCLOCKADR (recv_srcadr rb) \<and> findinterface (pe env) (recv_srcadr rb) \<noteq> None"




















definition returning :: "renv \<Rightarrow> renv" where
  "returning env = env\<lparr>
     clock_filter := (\<lambda>p smp d. case clock_filter env p smp d of None \<Rightarrow> Some d | Some d' \<Rightarrow> Some d'),
     refclock_transmit := (\<lambda>p d. case refclock_transmit env p d of None \<Rightarrow> Some d | Some d' \<Rightarrow> Some d')\<rparr>"


lemma returning_pe [simp]: "pe (returning env) = pe env" "rbuf_ok (returning env) rb = rbuf_ok env rb"
  by (simp_all add: returning_def rbuf_ok_def)









section \<open>The timer\<close>

lemma assoc_minpoll: "assoc_ok q \<Longrightarrow> minpoll q \<le> NTP_MAXPOLL"
  by (auto simp: assoc_ok_def poll_fit_def)

lemma set_fields_ok:
  assumes "daemon_ok d" "p \<in> set (listed d)" "same_assoc (getp p d) q"
  shows "daemon_ok (setp p q d)"
proof (rule setp_ok [OF assms(1,2)])
  show "peer_key q = peer_key (getp p d)" using assms(3) by (simp add: same_assoc_def)
  show "assoc_ok q" using same_assoc_ok [OF assms(3)] assocD [OF assms(1,2)] by simp
qed

lemma poll_peer_ok:
  assumes "daemon_ok d" "p \<in> set (listed d)"
  shows "\<exists>d'. poll_peer env p mp d = Some d' \<and> daemon_ok d' \<and> listed d' = listed d"
proof -
  have a: "assoc_ok (getp p d)" by (rule assocD [OF assms])
  then obtain q where q: "poll_update (pe env) mp (getp p d) = Some q" "poll_fit q" using poll_update_returns unfolding assoc_ok_def by blast
  obtain h n where "q = (getp p d)\<lparr>hpoll := h, nextdate := n\<rparr>" using poll_update_shape [OF q(1)] by blast
  then have "peer_key q = peer_key (getp p d)" "assoc_ok q" using a q(2) by (simp_all add: peer_key_def assoc_ok_def peer_fit_def)
  then show ?thesis using setp_ok [OF assms] q(1) by (simp add: poll_peer_def)
qed

lemma stamps_same: "same_assoc q (fst (stamp_before env q x))" "same_assoc q (stamp_after env q)"
  by (auto simp: stamp_before_def stamp_after_def Let_def same_assoc_def peer_key_def)

lemma charge_same: "minpoll q \<le> NTP_MAXPOLL \<Longrightarrow> \<exists>q'. charge q = Some q' \<and> same_assoc q q'"
  by (auto simp: charge_def same_assoc_def peer_key_def)

lemma sendpkt_simps [simp]: "daemon_ok (sendpkt a i t m n d) = daemon_ok d" "listed (sendpkt a i t m n d) = listed d" "getp p (sendpkt a i t m n d) = getp p d"
  "sys_ttl (sendpkt a i t m n d) = sys_ttl d"
  by (simp_all add: sendpkt_def getp_def)

lemma peer_xmit_ok:
  assumes "daemon_ok d" "p \<in> set (listed d)" "env_total env"
  shows "\<exists>d'. peer_xmit env p d = Some d' \<and> daemon_ok d' \<and> listed d' = listed d"
proof (cases "dstadr (getp p d)")
  case None
  then show ?thesis using assms(1) by (simp add: peer_xmit_def Let_def)
next
  case (Some i)
  have a: "assoc_ok (getp p d)" by (rule assocD [OF assms(1,2)])
  obtain q x where b: "stamp_before env (getp p d) (sys_pkt env (version (getp p d)) (hmode (getp p d)) (hpoll (getp p d)) (prec (getp p d)) (pdst (getp p d)) zero_lfp d) = (q, x)"
    by (cases "stamp_before env (getp p d) (sys_pkt env (version (getp p d)) (hmode (getp p d)) (hpoll (getp p d)) (prec (getp p d)) (pdst (getp p d)) zero_lfp d)")
  have q: "same_assoc (getp p d) q" using stamps_same(1) [of "getp p d" env] b by (metis fst_conv)
  have aq: "assoc_ok q" using a same_assoc_ok [OF q] by simp
  obtain q1 where q1: "charge q = Some q1" "same_assoc q q1" using charge_same [OF assoc_minpoll [OF aq]] by blast
  have s: "same_assoc (getp p d) (stamp_after env q1)" using same_assoc_trans [OF same_assoc_trans [OF q q1(2)] stamps_same(2)] .
  have t: "unat (ttl q) < length (sys_ttl d)" using aq assms(1) by (simp add: assoc_ok_def daemon_ok_def)
  have ks: "keys_ok (keys d)" "digests_fit (evp env)" using assms(1,3) by (auto simp: daemon_ok_def env_total_def)
  obtain n m ks' where e: "authencrypt (evp env) (pkeyid q) (xpkt_memory x) 48 (keys d) = Some (n, m, ks')" "keys_ok ks'" "0 \<le> n" "n \<le> 24" "length m = 76"
    using authencrypt_ok [OF ks, of "xpkt_memory x" "pkeyid q"] by auto
  define d1 where "d1 = d\<lparr>keys := ks'\<rparr>"
  have d1: "daemon_ok d1" "p \<in> set (listed d1)" "listed d1 = listed d" "getp p d1 = getp p d" "sys_ttl d1 = sys_ttl d"
    using assms(1,2) e(2) by (auto simp: d1_def daemon_ok_def getp_def)
  have f: "same_assoc (getp p d) (q\<lparr>flash := fl, badauth := k\<rparr>)" for fl k using q by (simp add: same_assoc_def peer_key_def)
  have "daemon_ok (setp p (stamp_after env q1) (sendpkt a i t m n d))" "daemon_ok (setp p (stamp_after env q1) (sendpkt a i t m n d1))"
    "daemon_ok (setp p (q\<lparr>flash := fl, badauth := k\<rparr>) d1)" for a i t m n fl k
    using assms(1,2) d1 s f by (auto intro!: set_fields_ok)
  then show ?thesis
    unfolding peer_xmit_def Let_def Some option.case b split
    using e q1(1) t d1 by (auto simp: ttl_at_def d1_def [symmetric] nat_le_iff)
qed

lemma peer_unfit_same: "same_assoc q (snd (peer_unfit env s q))"
  by (simp add: peer_unfit_def Let_def same_assoc_def peer_key_def)

lemma setp_fields_ok:
  assumes "daemon_ok d" "p \<in> set (listed d)"
  shows "daemon_ok (setp p ((getp p d)\<lparr>outdate := t\<rparr>) d)" "daemon_ok (setp p ((getp p d)\<lparr>unreach := u\<rparr>) d)"
    "daemon_ok (setp p ((getp p d)\<lparr>outdate := t, unreach := u, reach := r\<rparr>) d)" "daemon_ok (setp p ((getp p d)\<lparr>retry := n\<rparr>) d)"
    "daemon_ok (setp p ((getp p d)\<lparr>burst := n\<rparr>) d)" "daemon_ok (setp p ((getp p d)\<lparr>pool_ai := as\<rparr>) d)" "daemon_ok (setp p ((getp p d)\<lparr>throttle := n\<rparr>) d)"
  by (rule set_fields_ok [OF assms]; simp add: same_assoc_def peer_key_def)+

lemma setp_ttl_ok:
  assumes "daemon_ok d" "p \<in> set (listed d)" "unat x < 8"
  shows "daemon_ok (setp p ((getp p d)\<lparr>outdate := t, unreach := u, ttl := x\<rparr>) d)"
  using assocD [OF assms(1,2)] assms(3) by (intro setp_ok [OF assms(1,2)]) (simp_all add: peer_key_def assoc_ok_def peer_fit_def poll_fit_def)

lemma pool_xmit_ok:
  assumes "daemon_ok d" "p \<in> set (listed d)" "env_total env"
  shows "\<exists>d'. pool_xmit env p d = Some d' \<and> daemon_ok d' \<and> listed d' = listed d"
proof (cases "pool_ai (getp p d)")
  case Nil
  then show ?thesis using assms(1) by (simp add: pool_xmit_def)
next
  case (Cons a as)
  obtain adr found rest where pk: "pool_pick (\<lambda>r. findexistingpeer r None None (Some MODE_CLIENT) 0 (peers d) \<noteq> None) a as = (adr, found, rest)"
    using prod_cases3 by blast
  define d1 where "d1 = setp p ((getp p d)\<lparr>pool_ai := rest\<rparr>) d"
  have d1: "daemon_ok d1" "listed d1 = listed d" using setp_fields_ok(6) [OF assms(1,2)] by (simp_all add: d1_def)
  then have "res_wf (restricts (peers d1))" by (simp add: daemon_ok_def peer_ok_def)
  then obtain mk r where r: "restrictions (rnow env) adr (restricts (peers d1)) = Some (mk, r)" "res_wf r" using restrictions_ok by blast
  obtain r' where r': "(if RES_FLAGS AND mk \<noteq> 0 then restrict_source (rnow env) adr False (rnow env + POOL_SOLICIT_WINDOW + 1) r else Some r) = Some r'" "res_wf r'"
    using restrict_source_ok [OF r(2)] r(2) by (metis (full_types))
  define d2 where "d2 = put_peers env ((peers d1)\<lparr>restricts := r'\<rparr>) d1"
  have "daemon_ok (d1\<lparr>peers := (peers d1)\<lparr>restricts := r'\<rparr>\<rparr>)" using d1 peer_ok_restricts [OF _ r'(2)] by (simp add: daemon_ok_def getp_def)
  then have d2: "daemon_ok d2" "p \<in> set (listed d2)" "listed d2 = listed d" using d1 assms(2) put_peers_ok [OF _ assms(3)] by (simp_all add: d2_def)
  have a: "assoc_ok (getp p d2)" by (rule assocD [OF d2(1,2)])
  obtain q where q: "charge ((getp p d2)\<lparr>aorg := xmt_tx env\<rparr>) = Some q" "same_assoc (getp p d2) q"
    using charge_same [of "(getp p d2)\<lparr>aorg := xmt_tx env\<rparr>"] assoc_minpoll [OF a] by (auto simp: same_assoc_def peer_key_def)
  have t: "ttl_at ((getp p d2)\<lparr>aorg := xmt_tx env\<rparr>) d2 = Some (sys_ttl d2 ! unat (ttl (getp p d2)))" using a d2(1) by (simp add: ttl_at_def assoc_ok_def daemon_ok_def)
  define send where "send t = sendpkt adr (findinterface (pe env) adr) t (xpkt_memory (sys_pkt env (version (getp p d2)) MODE_CLIENT (hpoll (getp p d2)) zero_lfp zero_lfp (xmt_tx env) d2))
     LEN_PKT_NOMAC d2" for t
  have eq: "pool_xmit env p d = (if found then Some d1 else Some (setp p q (send (sys_ttl d2 ! unat (ttl (getp p d2))))))"
    unfolding pool_xmit_def Cons list.case pk Let_def split d1_def [symmetric] r(1) send_def
    by (simp only: bind.bind_lunit prod.case r'(1) d2_def [symmetric] t q(1))
  have "daemon_ok (setp p q (send u))" "listed (setp p q (send u)) = listed d" for u
    using d2 q(2) by (auto intro!: set_fields_ok simp: send_def)
  then show ?thesis using eq d1 by simp
qed

text \<open>What a poll may do to the list of associations: the one that is polled may go.\<close>

definition polled :: "addr \<Rightarrow> daemon \<Rightarrow> daemon \<Rightarrow> bool" where
  "polled p d d' \<longleftrightarrow> daemon_ok d' \<and> set (listed d) - {p} \<subseteq> set (listed d')"

lemma polled_same: "daemon_ok d' \<Longrightarrow> listed d' = listed d \<Longrightarrow> polled p d d'"
  by (auto simp: polled_def)

lemma toss_ok:
  assumes "daemon_ok d" "p \<in> set (listed d)" "env_total env"
  shows "\<exists>d'. toss env p d = Some d' \<and> polled p d d'"
proof -
  have a: "assoc_ok (getp p d)" by (rule assocD [OF assms(1,2)])
  then have "minpoll (getp p d) \<noteq> 0" by (simp add: assoc_ok_def peer_fit_def)
  from peer_clear_ok [OF this, of "pe env" "''TIME''" "peers d"] obtain q where
    q: "peer_clear (pe env) ''TIME'' (peers d) (getp p d) = Some q" "peer_key q = peer_key (getp p d)" "hmode q = hmode (getp p d)" "minpoll q = minpoll (getp p d)"
      "maxpoll q = maxpoll (getp p d)" "ttl q = ttl (getp p d)" "hpoll q = minpoll (getp p d)" "ppoll q = maxpoll (getp p d)" "pflags q = pflags (getp p d)" "pkeyid q = pkeyid (getp p d)" by blast
  have "assoc_ok q" using a assoc_minpoll [OF a] q by (simp add: assoc_ok_def peer_fit_def poll_fit_def peer_key_def)
  then have d1: "daemon_ok (setp p q d)" by (rule setp_ok [OF assms(1,2) q(2)])
  obtain s' where s': "unpeer (pe env) p (peers (setp p q d)) = Some s'" "peer_ok [] s'" "peer_list s' = remove1 p (listed d)" "\<forall>r. r \<noteq> p \<longrightarrow> peer_mem s' r = peer_mem (peers (setp p q d)) r"
    using unpeer_ok [of "peers (setp p q d)" p "pe env"] d1 assms(2) unfolding daemon_ok_def outbox_counters by blast
  have dist: "distinct (listed d)" using assms(1) by (auto simp: daemon_ok_def peer_ok_def peer_owned_def)
  then have "daemon_ok (d\<lparr>peers := s'\<rparr>)" using s' assms(1) by (simp add: daemon_ok_def getp_def setp_def upd_peer_def)
  then show ?thesis using q(1) s'(1,3) dist put_peers_ok [OF _ assms(3)] by (simp add: toss_def polled_def)
qed

lemma transmit_end_ok:
  assumes "daemon_ok d" "p \<in> set (listed d)" "env_total env"
  shows "\<exists>d'. transmit_end env p hp d = Some d' \<and> daemon_ok d' \<and> listed d' = listed d"
proof -
  define d1 where "d1 = (if retry (getp p d) > 0 then setp p ((getp p d)\<lparr>retry := retry (getp p d) - 1\<rparr>) d else d)"
  have d1: "daemon_ok d1" "listed d1 = listed d" using setp_fields_ok(4) [OF assms(1,2)] assms(1) by (simp_all add: d1_def)
  obtain d2 where d2: "(if hmode (getp p d1) \<noteq> MODE_BCLIENT then peer_xmit env p d1 else Some d1) = Some d2" "daemon_ok d2" "listed d2 = listed d"
    using peer_xmit_ok [OF d1(1) _ assms(3), of p] assms(2) d1 by (metis (full_types))
  have "transmit_end env p hp d = poll_peer env p hp d2"
    unfolding transmit_end_def Let_def d1_def [symmetric] d2(1) by (simp only: bind.bind_lunit)
  then show ?thesis using poll_peer_ok [OF d2(2), of p env hp] assms(2) d2(3) by simp
qed

lemma transmit_reach_ok:
  assumes "daemon_ok d" "p \<in> set (listed d)" "env_total env"
  shows "\<exists>h d'. transmit_reach env p hp d = Some (h, d') \<and> daemon_ok d' \<and> listed d' = listed d"
proof -
  define d1 where "d1 = setp p ((getp p d)\<lparr>outdate := rnow env, unreach := s32 (unreach (getp p d) + 1), reach := push_bit 1 (reach (getp p d))\<rparr>) d"
  have d1: "daemon_ok d1" "listed d1 = listed d" "p \<in> set (listed d1)" using setp_fields_ok(3) [OF assms(1,2)] assms(2) by (simp_all add: d1_def)
  show ?thesis
  proof (cases "reach (getp p d1) = 0")
    case True
    obtain d2 where d2: "clock_filter env p Lost d1 = Some d2" "daemon_ok d2" "listed d2 = listed d"
      using assms(3) d1 unfolding env_total_def filter_total_def by metis
    have p2: "p \<in> set (listed d2)" using d2(3) assms(2) by simp
    define d3 where "d3 = (if reach (getp p d) \<noteq> 0 then setp p (snd (peer_unfit (pe env) (peers d2) (getp p d2))) d2 else d2)"
    have d3: "daemon_ok d3" "listed d3 = listed d" using set_fields_ok [OF d2(2) p2 peer_unfit_same] d2 by (simp_all add: d3_def)
    then show ?thesis using setp_fields_ok(4) [OF d3(1), of p] assms(2) True
      unfolding transmit_reach_def Let_def d1_def [symmetric] d2(1) by (simp add: d3_def [symmetric])
  next
    case False
    have "same_assoc (getp p d1) (let q = getp p d1; q = (if pflags q AND FLAG_PREEMPT = 0 then q\<lparr>unreach := 0\<rparr> else q)
        in if pflags q AND FLAG_BURST \<noteq> 0 \<and> retry q = 0
           then let (unfit, q) = peer_unfit (pe env) (peers d1) q in if unfit = 0 then q\<lparr>retry := NTP_RETRY\<rparr> else q else q)"
      by (simp add: Let_def peer_unfit_def same_assoc_def peer_key_def)
    then show ?thesis using set_fields_ok [OF d1(1,3)] d1(2) False unfolding transmit_reach_def Let_def d1_def [symmetric] by simp
  qed
qed

lemma transmit_unicast_ok:
  assumes "daemon_ok d" "p \<in> set (listed d)" "env_total env"
  shows "\<exists>d'. transmit_unicast env p d = Some d' \<and> polled p d d'"
proof (cases "burst (getp p d) = 0")
  case True
  obtain h e where e: "transmit_reach env p (hpoll (getp p d)) d = Some (h, e)" "daemon_ok e" "listed e = listed d" using transmit_reach_ok [OF assms] by blast
  have p: "p \<in> set (listed e)" using e(3) assms(2) by simp
  have "\<exists>d'. transmit_end env p k e = Some d' \<and> polled p d d'" "\<exists>d'. toss env p e = Some d' \<and> polled p d d'" for k
    using transmit_end_ok [OF e(2) p assms(3)] toss_ok [OF e(2) p assms(3)] e(3) by (force intro: polled_same simp: polled_def)+
  then show ?thesis using True unfolding transmit_unicast_def Let_def e(1) by simp
next
  case False
  have "\<not> mode_ntpdate (pe env)" using assms(3) by (simp add: env_total_def)
  moreover have "\<exists>d'. transmit_end env p k (setp p ((getp p d)\<lparr>burst := n\<rparr>) d) = Some d' \<and> polled p d d'" for k n
    using transmit_end_ok [OF setp_fields_ok(5) [OF assms(1,2)] _ assms(3), of p] assms(2) by (force intro: polled_same)
  ultimately show ?thesis using False unfolding transmit_unicast_def Let_def by simp
qed

lemma transmit_ok:
  assumes "daemon_ok d" "p \<in> set (listed d)" "env_total env"
  shows "\<exists>d'. transmit env p d = Some d' \<and> polled p d d'"
proof -
  define q where "q = (getp p d)\<lparr>outdate := rnow env\<rparr>"
  have poll: "\<exists>d'. poll_peer env p h e = Some d' \<and> polled p d d'" if "daemon_ok e" "listed e = listed d" for h e
    using poll_peer_ok [OF that(1), of p env h] that assms(2) by (auto intro: polled_same)
  have xmit: "\<exists>e'. peer_xmit env p e = Some e' \<and> daemon_ok e' \<and> listed e' = listed d" if "daemon_ok e" "listed e = listed d" for e
    using peer_xmit_ok [OF that(1) _ assms(3), of p] that assms(2) by simp
  have d1: "daemon_ok (setp p q d)" "listed (setp p q d) = listed d" unfolding q_def using setp_fields_ok(1) [OF assms(1,2)] by simp_all
  show ?thesis
  proof (cases "cast_flags (getp p d) AND (MDF_BCAST OR MDF_MCAST) = 0")
    case False
    obtain e where e: "(if sys_leap (setp p q d) \<noteq> LEAP_NOTINSYNC then peer_xmit env p (setp p q d) else Some (setp p q d)) = Some e" "daemon_ok e" "listed e = listed d"
      using xmit [OF d1] d1 by (metis (full_types))
    have "transmit env p d = poll_peer env p (hpoll (getp p d)) e"
      unfolding transmit_def Let_def q_def [symmetric] e(1) using False by (simp only: if_True bind.bind_lunit not_False_eq_True)
    then show ?thesis using poll [OF e(2,3)] by simp
  next
    case nb: True
    consider "cast_flags (getp p d) AND MDF_ACAST \<noteq> 0" | "cast_flags (getp p d) AND MDF_ACAST = 0" "cast_flags (getp p d) AND MDF_POOL \<noteq> 0"
      | "cast_flags (getp p d) AND MDF_ACAST = 0" "cast_flags (getp p d) AND MDF_POOL = 0" by blast
    then show ?thesis
    proof cases
      case 1
      have a: "unat (ttl (getp p d)) < 8" "sys_ttlmax d = 7" using assocD [OF assms(1,2)] assms(1) by (simp_all add: assoc_ok_def daemon_ok_def)
      then have t: "unat (ttl (getp p d) + 1) < 8" if "ttl (getp p d) < 7" using that by (simp add: word_less_nat_alt unat_word_ariths)
      have s: "daemon_ok (setp p (q\<lparr>unreach := u, ttl := x\<rparr>) d)" if "unat x < 8" for u x
        using setp_ttl_ok [OF assms(1,2) that] by (simp add: q_def)
      have s1: "daemon_ok (setp p (q\<lparr>ttl := x\<rparr>) d)" if "unat x < 8" for x
        using s [OF that, of "unreach q"] by simp
      have "\<exists>e. (if unreach q > sys_beacon d then peer_xmit env p (setp p (q\<lparr>unreach := 0, ttl := 0\<rparr>) d)
                 else if sys_survivors d < sys_minclock d \<or> peer_associations (peers d) < sys_maxclock d
                 then peer_xmit env p (setp p (if ttl q < word_of_int (sys_ttlmax d) then q\<lparr>ttl := ttl q + 1\<rparr> else q) d)
                 else Some (setp p q d)) = Some e \<and> daemon_ok e \<and> listed e = listed d"
        using xmit [OF s [of 0 0]] xmit [OF s1 [of "ttl q + 1"]] xmit [OF d1] d1 t a(2) by (auto simp: q_def)
      then obtain e where e: "(if unreach q > sys_beacon d then peer_xmit env p (setp p (q\<lparr>unreach := 0, ttl := 0\<rparr>) d)
                 else if sys_survivors d < sys_minclock d \<or> peer_associations (peers d) < sys_maxclock d
                 then peer_xmit env p (setp p (if ttl q < word_of_int (sys_ttlmax d) then q\<lparr>ttl := ttl q + 1\<rparr> else q) d)
                 else Some (setp p q d)) = Some e" "daemon_ok e" "listed e = listed d" by blast
      have "transmit env p d = poll_peer env p (hpoll (getp p d)) (setp p ((getp p e)\<lparr>unreach := s32 (unreach (getp p e) + 1)\<rparr>) e)"
        unfolding transmit_def Let_def q_def [symmetric] e(1) using nb 1 by (simp only: if_True if_False simp_thms bind.bind_lunit)
      then show ?thesis using poll [OF setp_fields_ok(2) [OF e(2)]] e(3) assms(2) by simp
    next
      case 2
      obtain e where e: "(if peer_associations (peers (setp p q d)) \<le> s32 (2 * sys_maxclock (setp p q d)) \<and>
          (peer_associations (peers (setp p q d)) < sys_maxclock (setp p q d) \<or> sys_survivors (setp p q d) < sys_minclock (setp p q d))
          then pool_xmit env p (setp p q d) else Some (setp p q d)) = Some e" "daemon_ok e" "listed e = listed d"
        using pool_xmit_ok [OF d1(1), of p env] assms(2,3) d1 by (metis (full_types))
      have "transmit env p d = poll_peer env p (hpoll (getp p d)) e"
        unfolding transmit_def Let_def q_def [symmetric] e(1) using nb 2 by (simp only: if_True if_False simp_thms bind.bind_lunit)
      then show ?thesis using poll [OF e(2,3)] by simp
    next
      case 3
      then have "transmit env p d = transmit_unicast env p d" using nb by (simp add: transmit_def Let_def)
      then show ?thesis using transmit_unicast_ok [OF assms] by simp
    qed
  qed
qed

lemma timer_peers_ok:
  assumes "daemon_ok d" "set ps \<subseteq> set (listed d)" "distinct ps" "env_total env"
  shows "\<exists>d'. timer_peers env ps d = Some d' \<and> daemon_ok d'"
  using assms(1-3)
proof (induction ps arbitrary: d)
  case (Cons p ps)
  define e where "e = (if throttle (getp p d) > 0 then setp p ((getp p d)\<lparr>throttle := throttle (getp p d) - 1\<rparr>) d else d)"
  have e: "daemon_ok e" "listed e = listed d" "p \<in> set (listed e)" using setp_fields_ok(7) [OF Cons.prems(1)] Cons.prems by (auto simp: e_def)
  have "\<exists>f. refclock_transmit env p e = Some f \<and> polled p d f" using e assms(4) unfolding env_total_def clocks_total_def polled_def by metis
  moreover have "\<exists>f. transmit env p e = Some f \<and> polled p d f" using transmit_ok [OF e(1,3) assms(4)] e(2) by (simp add: polled_def)
  ultimately obtain f where f: "(if nextdate (getp p d) \<le> rnow env then if FLAG_REFCLOCK AND pflags (getp p d) \<noteq> 0 then refclock_transmit env p e else transmit env p e else Some e) = Some f"
    "polled p d f" using polled_same [OF e(1,2)] by (metis (full_types))
  have "timer_peers env (p # ps) d = timer_peers env ps f" unfolding timer_peers.simps Let_def e_def [symmetric] f(1) by (simp only: bind.bind_lunit)
  moreover have "daemon_ok f" "set ps \<subseteq> set (listed f)" "distinct ps" using f(2) Cons.prems(2,3) by (auto simp: polled_def)
  ultimately show ?case using Cons.IH by simp
qed simp

lemma timer_second_ok:
  assumes "daemon_ok d" "env_total env"
  shows "\<exists>d'. timer_second env d = Some d' \<and> daemon_ok d'"
proof -
  have "distinct (listed d)" using assms(1) by (auto simp: daemon_ok_def peer_ok_def peer_owned_def)
  then obtain e where e: "timer_peers env (listed d) d = Some e" "daemon_ok e" using timer_peers_ok [OF assms(1) _ _ assms(2)] by blast
  have "daemon_ok (timer_orphan env e) = daemon_ok e" by (rule daemon_ok_cong; simp add: timer_orphan_def Let_def)
  moreover have "daemon_ok (timer_leap f) = daemon_ok f" for f by (rule daemon_ok_cong; simp add: timer_leap_def Let_def)
  ultimately show ?thesis using e by (simp add: timer_second_def)
qed

lemma init_proto_ok:
  assumes "peer_ok [] (peers d)" "listed d = []" "mon_wf (mon d)" "keys_ok (keys d)"
  shows "daemon_ok (init_proto env d)"
  using assms by (simp add: daemon_ok_def init_proto_def proto_clr_stats_def Let_def)

end
