(* ===== verification/Ctl_Response.thy ===== *)
theory Ctl_Response
  imports NTP_Daemon Lfp_Strings
begin

text \<open>
  Responses to control messages: the part of \<^verbatim>\<open>ntpd/ntp_control.c\<close> that assembles the data of a response in the packet \<^verbatim>\<open>rpkt\<close>, sends it in fragments, and formats
  variables.  The state holds the packet with all the room behind its header, so that writing past its end is \<open>None\<close>; its 16-bit fields are in host order and
  converted where the packet is sent.  The negative time-to-live values of the calls of \<^verbatim>\<open>sendpkt\<close>, which only tell them apart in
  debug output, are 0.  Numbers of type \<^verbatim>\<open>double\<close> come as the text that \<^verbatim>\<open>snprintf\<close> makes of them.
\<close>

unbundle bit_operations_syntax

section \<open>Structures\<close>

abbreviation (input) "CTL_HEADER_LEN \<equiv> 12 :: nat"
abbreviation (input) "CTL_MAX_DATA_LEN \<equiv> 468 :: nat"
abbreviation (input) "CTL_RESPONSE \<equiv> 0x80 :: u_char"
abbreviation (input) "CTL_ERROR \<equiv> 0x40 :: u_char"
abbreviation (input) "CTL_MORE \<equiv> 0x20 :: u_char"
abbreviation (input) "CTL_OP_MASK \<equiv> 0x1f :: u_char"
abbreviation (input) "MAXDATALINELEN \<equiv> 72 :: u_int32"
abbreviation (input) "TRAP_INUSE \<equiv> 0x1 :: u_char"
abbreviation (input) "TRAP_NONPRIO \<equiv> 0x2 :: u_char"
abbreviation (input) "TRAP_CONFIGURED \<equiv> 0x4 :: u_char"

record ntp_control =
  c_li_vn_mode :: u_char
  c_r_m_e_op :: u_char
  c_sequence :: u_short
  c_status :: u_short
  c_associd :: u_short
  c_offset :: u_short
  c_count :: u_short
  c_data :: "u_char list"

definition htons_bytes :: "u_short \<Rightarrow> u_char list" where
  "htons_bytes x = [ucast (drop_bit 8 x), ucast x]"

text \<open>The packet in memory: the header, and 504 octets of data and authentication code.\<close>

definition ctl_memory :: "ntp_control \<Rightarrow> u_char list" where
  "ctl_memory p = [c_li_vn_mode p, c_r_m_e_op p] @ htons_bytes (c_sequence p) @ htons_bytes (c_status p) @ htons_bytes (c_associd p) @
     htons_bytes (c_offset p) @ htons_bytes (c_count p) @ c_data p"

record ctl_trap =
  tr_addr :: sockaddr_u
  tr_localaddr :: addr
  tr_settime :: u_int64
  tr_count :: u_int64
  tr_origtime :: u_int64
  tr_resets :: u_int64
  tr_sequence :: u_short
  tr_flags :: u_char
  tr_version :: u_char

record ctl_var =
  cv_code :: u_short
  cv_flags :: u_short
  cv_text :: "u_char list"

record ctl =
  dm :: daemon
  rpkt :: ntp_control
  res_version :: u_char
  res_opcode :: u_char
  res_associd :: u_short
  res_frags :: u_short
  res_offset :: int
  datapt :: nat
  datalinelen :: int
  datanotbinflag :: bool
  rmt_addr :: sockaddr_u
  lcl_inter :: addr
  res_authenticate :: bool
  res_authokay :: bool
  res_keyid :: keyid_t
  res_async :: bool
  reqpt :: "u_char list"
  ctl_auth_keyid :: keyid_t
  ctl_traps :: "ctl_trap list"
  num_ctl_traps :: int
  ctl_sys_last_event :: u_char
  ctl_sys_num_events :: u_char
  ext_sys_var :: "ctl_var list option"
  ctltimereset :: u_int64
  numctlreq :: u_int64
  numctlbadpkts :: u_int64
  numctlresponses :: u_int64
  numctlfrags :: u_int64
  numctlerrors :: u_int64
  numctltooshort :: u_int64
  numctlinputresp :: u_int64
  numctlinputfrag :: u_int64
  numctlinputerr :: u_int64
  numctlbadoffset :: u_int64
  numctlbadversion :: u_int64
  numctldatatooshort :: u_int64
  numctlbadop :: u_int64
  numasyncmsgs :: u_int64

section \<open>Sending\<close>

text \<open>Octets are written at \<^verbatim>\<open>datapt\<close>, which moves behind them.\<close>

definition poke :: "u_char list \<Rightarrow> ctl \<Rightarrow> ctl option" where
  "poke bs c = map_option (\<lambda>m. c\<lparr>rpkt := (rpkt c)\<lparr>c_data := m\<rparr>, datapt := datapt c + length bs\<rparr>) (write_at (c_data (rpkt c)) (datapt c) bs)"

definition ctl_send :: "nat \<Rightarrow> ctl \<Rightarrow> ctl" where
  "ctl_send len c = c\<lparr>dm := sendpkt (rmt_addr c) (Some (lcl_inter c)) 0 (ctl_memory (rpkt c)) len (dm c)\<rparr>"

text \<open>The code is written behind the first \<open>len\<close> octets of the packet and sent with them.\<close>

definition ctl_send_mac :: "(int \<Rightarrow> u_char list \<Rightarrow> u_char list option) \<Rightarrow> nat \<Rightarrow> ctl \<Rightarrow> ctl option" where
  "ctl_send_mac ev len c = do {
     (maclen, memory, ks) \<leftarrow> authencrypt ev (res_keyid c) (ctl_memory (rpkt c)) len (keys (dm c));
     let c = c\<lparr>rpkt := (rpkt c)\<lparr>c_data := drop CTL_HEADER_LEN memory\<rparr>, dm := (dm c)\<lparr>keys := ks\<rparr>\<rparr>;
     Some (ctl_send (len + nat maclen) c)
   }"

definition ctl_error :: "(int \<Rightarrow> u_char list \<Rightarrow> u_char list option) \<Rightarrow> u_char \<Rightarrow> ctl \<Rightarrow> ctl option" where
  "ctl_error ev errcode c =
     (let c = c\<lparr>numctlerrors := numctlerrors c + 1,
              rpkt := (rpkt c)\<lparr>c_r_m_e_op := CTL_RESPONSE OR CTL_ERROR OR (res_opcode c AND CTL_OP_MASK), c_status := push_bit 8 (ucast errcode), c_count := 0\<rparr>\<rparr>
      in if res_authenticate c \<and> sys_authenticate (dm c) then ctl_send_mac ev CTL_HEADER_LEN c else Some (ctl_send CTL_HEADER_LEN c))"

text \<open>An asynchronous message goes to every trap in use, with its version and sequence number.\<close>

fun flush_traps :: "u_char \<Rightarrow> nat \<Rightarrow> ctl_trap list \<Rightarrow> ctl \<Rightarrow> ctl_trap list \<times> ctl" where
  "flush_traps mre sendlen [] c = ([], c)"
| "flush_traps mre sendlen (t # ts) c =
     (if TRAP_INUSE AND tr_flags t \<noteq> 0
      then let p = (rpkt c)\<lparr>c_li_vn_mode := PKT_LI_VN_MODE (sys_leap (dm c)) (tr_version t) MODE_CONTROL, c_sequence := tr_sequence t\<rparr>;
               c = c\<lparr>rpkt := p, dm := sendpkt (tr_addr t) (Some (tr_localaddr t)) 0 (ctl_memory p) sendlen (dm c), numasyncmsgs := numasyncmsgs c + 1\<rparr>;
               t = (if mre = 0 then t\<lparr>tr_sequence := tr_sequence t + 1\<rparr> else t);
               (ts, c) = flush_traps mre sendlen ts c
           in (t # ts, c)
      else let (ts, c) = flush_traps mre sendlen ts c in (t # ts, c))"

definition pad_len :: "nat \<Rightarrow> nat \<Rightarrow> nat" where
  "pad_len k n = (k - n mod k) mod k"

definition flush_send :: "(int \<Rightarrow> u_char list \<Rightarrow> u_char list option) \<Rightarrow> u_char \<Rightarrow> ctl \<Rightarrow> ctl option" where
  "flush_send ev mre c =
     (let sendlen = datapt c + CTL_HEADER_LEN
      in if res_async c then let (ts, c) = flush_traps mre sendlen (ctl_traps c) c in Some (c\<lparr>ctl_traps := ts\<rparr>)
         else do {
           c \<leftarrow> (if res_authenticate c \<and> sys_authenticate (dm c)
                 then do {
                   c \<leftarrow> poke (replicate (pad_len 8 sendlen) 0) c;
                   m \<leftarrow> write_at (c_data (rpkt c)) (datapt c) (htonl_bytes (res_keyid c));
                   ctl_send_mac ev (datapt c + CTL_HEADER_LEN) (c\<lparr>rpkt := (rpkt c)\<lparr>c_data := m\<rparr>\<rparr>)
                 }
                 else Some (ctl_send sendlen c));
           Some (if mre \<noteq> 0 then c\<lparr>numctlfrags := numctlfrags c + 1\<rparr> else c\<lparr>numctlresponses := numctlresponses c + 1\<rparr>)
         })"

definition ctl_flushpkt :: "(int \<Rightarrow> u_char list \<Rightarrow> u_char list option) \<Rightarrow> u_char \<Rightarrow> ctl \<Rightarrow> ctl option" where
  "ctl_flushpkt ev mre c = do {
     c \<leftarrow> (if mre = 0 \<and> datanotbinflag c \<and> datapt c + 2 < CTL_MAX_DATA_LEN then poke [13, 10] c else Some c);
     let dlen = datapt c;
     c \<leftarrow> poke (replicate (pad_len 4 (dlen + CTL_HEADER_LEN)) 0) c;
     let c = c\<lparr>rpkt := (rpkt c)\<lparr>c_r_m_e_op := CTL_RESPONSE OR mre OR (res_opcode c AND CTL_OP_MASK), c_count := of_nat dlen, c_offset := word_of_int (res_offset c)\<rparr>\<rparr>;
     c \<leftarrow> flush_send ev mre c;
     Some (c\<lparr>res_frags := res_frags c + 1, res_offset := s32 (res_offset c + int dlen), datapt := 0\<rparr>)
   }"

section \<open>Data\<close>

definition ctl_putdata :: "(int \<Rightarrow> u_char list \<Rightarrow> u_char list option) \<Rightarrow> u_char list \<Rightarrow> bool \<Rightarrow> ctl \<Rightarrow> ctl option" where
  "ctl_putdata ev dp bin c = do {
     c \<leftarrow> (if bin then Some c
           else let c = c\<lparr>datanotbinflag := True\<rparr>
                in if datapt c \<noteq> 0
                   then if word_of_int (int (length dp) + (datalinelen c + 1) + 1) \<ge> MAXDATALINELEN
                        then map_option (\<lambda>c. c\<lparr>datalinelen := 0\<rparr>) (poke [44, 13, 10] c)
                        else map_option (\<lambda>c. c\<lparr>datalinelen := s32 (datalinelen c + 2)\<rparr>) (poke [44, 32] c)
                   else Some c);
     c \<leftarrow> (if length dp + (if bin then 0 else 3) + datapt c > CTL_MAX_DATA_LEN then ctl_flushpkt ev CTL_MORE c else Some c);
     c \<leftarrow> poke dp c;
     Some (c\<lparr>datalinelen := s32 (datalinelen c + int (length dp))\<rparr>)
   }"

text \<open>A tag and a value, assembled in a local buffer first.\<close>

definition ctl_putstr :: "(int \<Rightarrow> u_char list \<Rightarrow> u_char list option) \<Rightarrow> u_char list \<Rightarrow> u_char list \<Rightarrow> ctl \<Rightarrow> ctl option" where
  "ctl_putstr ev tag data c =
     (if length tag > 512 \<or> data \<noteq> [] \<and> length tag + 3 + length data > 512 then None
      else ctl_putdata ev (if data = [] then tag else tag @ [61, 34] @ data @ [34]) False c)"

definition ctl_putunqstr :: "(int \<Rightarrow> u_char list \<Rightarrow> u_char list option) \<Rightarrow> u_char list \<Rightarrow> u_char list \<Rightarrow> ctl \<Rightarrow> ctl option" where
  "ctl_putunqstr ev tag data c =
     (if length tag > 512 \<or> data \<noteq> [] \<and> length tag + 1 + length data > 512 then None
      else ctl_putdata ev (if data = [] then tag else tag @ [61] @ data) False c)"

definition put_tagged :: "(int \<Rightarrow> u_char list \<Rightarrow> u_char list option) \<Rightarrow> u_char list \<Rightarrow> u_char list \<Rightarrow> ctl \<Rightarrow> ctl option" where
  "put_tagged ev tag txt c =
     (let k = length tag + 1 in if k \<ge> 200 then None else ctl_putdata ev (tag @ [61] @ take (199 - k) txt) False c)"

definition bytes :: "string \<Rightarrow> u_char list" where
  "bytes cs = map of_char cs"

fun hex_nat :: "nat \<Rightarrow> string" where
  "hex_nat n = (if n < 16 then hex_text 1 n else hex_nat (n div 16) @ hex_text 1 n)"

declare hex_nat.simps [simp del]

definition ctl_putdblf :: "(int \<Rightarrow> u_char list \<Rightarrow> u_char list option) \<Rightarrow> u_char list \<Rightarrow> u_char list \<Rightarrow> ctl \<Rightarrow> ctl option" where
  "ctl_putdblf ev tag printed c = put_tagged ev tag printed c"

definition ctl_putuint :: "(int \<Rightarrow> u_char list \<Rightarrow> u_char list option) \<Rightarrow> u_char list \<Rightarrow> u_int64 \<Rightarrow> ctl \<Rightarrow> ctl option" where
  "ctl_putuint ev tag uval c = put_tagged ev tag (bytes (show_dec (unat uval))) c"

definition ctl_puthex :: "(int \<Rightarrow> u_char list \<Rightarrow> u_char list option) \<Rightarrow> u_char list \<Rightarrow> u_int64 \<Rightarrow> ctl \<Rightarrow> ctl option" where
  "ctl_puthex ev tag uval c = put_tagged ev tag (bytes (''0x'' @ hex_nat (unat uval))) c"

definition ctl_putint :: "(int \<Rightarrow> u_char list \<Rightarrow> u_char list option) \<Rightarrow> u_char list \<Rightarrow> int \<Rightarrow> ctl \<Rightarrow> ctl option" where
  "ctl_putint ev tag ival c = put_tagged ev tag (bytes ((if ival < 0 then ''-'' else []) @ show_dec (nat \<bar>ival\<bar>))) c"

definition ctl_putts :: "(int \<Rightarrow> u_char list \<Rightarrow> u_char list option) \<Rightarrow> u_char list \<Rightarrow> l_fp \<Rightarrow> ctl \<Rightarrow> ctl option" where
  "ctl_putts ev tag ts c = put_tagged ev tag (bytes (''0x'' @ hex_text 8 (unat (l_ui ts)) @ ''.'' @ hex_text 8 (unat (l_uf ts)))) c"

text \<open>White space, and text without the white space at its end.\<close>

abbreviation (input) isspace_b :: "u_char \<Rightarrow> bool" where
  "isspace_b b \<equiv> b = 32 \<or> 9 \<le> b \<and> b \<le> 13"

definition strip_end :: "u_char list \<Rightarrow> u_char list" where
  "strip_end bs = rev (dropWhile (\<lambda>b. isspace_b b) (rev bs))"

text \<open>The reference identifier as text: its four octets in memory up to a zero, in a buffer of 16 octets.\<close>

definition isprint :: "u_char \<Rightarrow> bool" where
  "isprint b \<longleftrightarrow> 32 \<le> b \<and> b < 127"

definition ctl_putrefid :: "(int \<Rightarrow> u_char list \<Rightarrow> u_char list option) \<Rightarrow> u_char list \<Rightarrow> u_int32 \<Rightarrow> ctl \<Rightarrow> ctl option" where
  "ctl_putrefid ev tag rid c =
     (if length tag + 1 \<ge> 16 then Some c
      else let txt = map (\<lambda>b. if isprint b then b else 46) (takeWhile (\<lambda>b. b \<noteq> 0) (htonl_bytes rid))
           in ctl_putdata ev (tag @ [61] @ take (16 - (length tag + 1)) txt) False c)"

section \<open>Writing\<close>

lemma ntohs_htons: "push_bit 8 (ucast (ucast (drop_bit 8 x) :: u_char)) OR ucast (ucast x :: u_char) = (x :: u_short)"
proof (rule bit_word_eqI)
  fix n
  assume "n < LENGTH(16)"
  then show "bit (push_bit 8 (ucast (ucast (drop_bit 8 x) :: u_char)) OR ucast (ucast x :: u_char) :: u_short) n = bit x n"
    by (auto simp: bit_simps)
qed

definition pending :: "ctl \<Rightarrow> u_char list" where
  "pending c = take (datapt c) (c_data (rpkt c))"

lemma write_at_Some: "n + length bs \<le> length m \<Longrightarrow> write_at m n bs = Some (take n m @ bs @ drop (n + length bs) m)"
  by (simp add: write_at_def)

lemma poke_Some:
  assumes "datapt c + length bs \<le> length (c_data (rpkt c))"
  shows "\<exists>m. poke bs c = Some (c\<lparr>rpkt := (rpkt c)\<lparr>c_data := m\<rparr>, datapt := datapt c + length bs\<rparr>) \<and> length m = length (c_data (rpkt c)) \<and>
    take (datapt c + length bs) m = pending c @ bs"
proof (intro exI conjI)
  show "poke bs c = Some (c\<lparr>rpkt := (rpkt c)\<lparr>c_data := take (datapt c) (c_data (rpkt c)) @ bs @ drop (datapt c + length bs) (c_data (rpkt c))\<rparr>, datapt := datapt c + length bs\<rparr>)"
    using assms by (simp add: poke_def write_at_Some)
  have m: "min (length (c_data (rpkt c))) (datapt c) = datapt c" using assms by simp
  show "length (take (datapt c) (c_data (rpkt c)) @ bs @ drop (datapt c + length bs) (c_data (rpkt c))) = length (c_data (rpkt c))" using assms by (simp add: m)
  show "take (datapt c + length bs) (take (datapt c) (c_data (rpkt c)) @ bs @ drop (datapt c + length bs) (c_data (rpkt c))) = pending c @ bs"
    by (simp add: pending_def m)
qed

lemma pad_len_less: "pad_len 4 n < 4" "pad_len 8 n < 8"
  by (simp_all add: pad_len_def)

lemma pad_len_mod: "(n + pad_len 4 n) mod 4 = 0" "(n + pad_len 8 n) mod 8 = 0"
proof -
  have "(n + (k - n mod k) mod k) mod k = 0" if "0 < k" for k
  proof -
    have "n + (k - n mod k) = k * (n div k + 1)" using mult_div_mod_eq [of k n] mod_less_divisor [OF that, of n] unfolding distrib_left by linarith
    then show ?thesis by (metis mod_add_right_eq mod_mult_self1_is_0)
  qed
  then show "(n + pad_len 4 n) mod 4 = 0" "(n + pad_len 8 n) mod 8 = 0" by (simp_all add: pad_len_def)
qed

text \<open>What the parts of a response have in common.\<close>

definition other_parts :: "daemon \<Rightarrow> daemon" where
  "other_parts d = d\<lparr>keys := auth_zero, outbox := []\<rparr>"

definition res_frame :: "ctl \<Rightarrow> ctl \<Rightarrow> bool" where
  "res_frame c c' \<longleftrightarrow> c_li_vn_mode (rpkt c') = c_li_vn_mode (rpkt c) \<and> c_sequence (rpkt c') = c_sequence (rpkt c) \<and> c_status (rpkt c') = c_status (rpkt c) \<and>
     c_associd (rpkt c') = c_associd (rpkt c) \<and> res_opcode c' = res_opcode c \<and> rmt_addr c' = rmt_addr c \<and> lcl_inter c' = lcl_inter c \<and>
     res_authenticate c' = res_authenticate c \<and> res_keyid c' = res_keyid c \<and> res_async c' = res_async c \<and> reqpt c' = reqpt c \<and>
     ext_sys_var c' = ext_sys_var c \<and> ctl_traps c' = ctl_traps c \<and> other_parts (dm c') = other_parts (dm c)"

lemma other_parts [simp]: "other_parts (d\<lparr>keys := ks\<rparr>) = other_parts d" "other_parts (d\<lparr>outbox := o1\<rparr>) = other_parts d"
  by (simp_all add: other_parts_def)

lemma other_parts_sel: "sys_authenticate (other_parts d) = sys_authenticate d" "peers (other_parts d) = peers d" "mon (other_parts d) = mon d" "sys_leap (other_parts d) = sys_leap d"
  by (simp_all add: other_parts_def)

lemma other_partsD: "other_parts d' = other_parts d \<Longrightarrow> sys_authenticate d' = sys_authenticate d \<and> peers d' = peers d \<and> mon d' = mon d \<and> sys_leap d' = sys_leap d"
  by (metis other_parts_sel)

lemma res_frame_refl [simp]: "res_frame c c"
  by (simp add: res_frame_def)

lemma res_frame_trans: "res_frame c d \<Longrightarrow> res_frame d e \<Longrightarrow> res_frame c e"
  by (simp add: res_frame_def)

definition ctl_ok :: "(int \<Rightarrow> u_char list \<Rightarrow> u_char list option) \<Rightarrow> ctl \<Rightarrow> bool" where
  "ctl_ok ev c \<longleftrightarrow> length (c_data (rpkt c)) = 504 \<and> \<not> res_async c \<and>
     (res_authenticate c \<and> sys_authenticate (dm c) \<longrightarrow> keys_ok (keys (dm c)) \<and> digests_fit ev \<and> (\<forall>ty bs dg. ev ty bs = Some dg \<longrightarrow> length dg mod 4 = 0))"

text \<open>A message that carries a fragment of the response: offset, data and whether more follows.\<close>

type_synonym fragment = "nat \<times> u_char list \<times> bool"

definition frag_header :: "ctl \<Rightarrow> fragment \<Rightarrow> u_char list" where
  "frag_header c f = (case f of (off, data, m) \<Rightarrow>
     [c_li_vn_mode (rpkt c), CTL_RESPONSE OR (if m then CTL_MORE else 0) OR (res_opcode c AND CTL_OP_MASK)] @ htons_bytes (c_sequence (rpkt c)) @
     htons_bytes (c_status (rpkt c)) @ htons_bytes (c_associd (rpkt c)) @ htons_bytes (of_nat off) @ htons_bytes (of_nat (length data)))"

definition is_frag :: "ctl \<Rightarrow> fragment \<Rightarrow> u_char list \<Rightarrow> bool" where
  "is_frag c f bs \<longleftrightarrow> 12 + length (fst (snd f)) \<le> length bs \<and> length bs \<le> 516 \<and> length bs mod 4 = 0 \<and> take 12 bs = frag_header c f \<and>
     take (length (fst (snd f))) (drop 12 bs) = fst (snd f)"

lemma frag_header_frame: "res_frame c c' \<Longrightarrow> frag_header c' f = frag_header c f"
  by (simp add: res_frame_def frag_header_def split: prod.split)

lemma is_frag_frame: "res_frame c c' \<Longrightarrow> is_frag c' f bs = is_frag c f bs"
  by (simp add: is_frag_def frag_header_frame)

lemma length_header [simp]: "length (frag_header c f) = 12"
  by (simp add: frag_header_def htons_bytes_def split: prod.split)

section \<open>Fragments\<close>

lemma ctl_send_mac_ok:
  assumes "keys_ok (keys (dm c))" "digests_fit ev" "\<forall>ty bs dg. ev ty bs = Some dg \<longrightarrow> length dg mod 4 = 0" "len mod 4 = 0" "12 \<le> len" "len + 24 \<le> 516" "length (c_data (rpkt c)) = 504"
  shows "\<exists>ks m x. ctl_send_mac ev len c = Some (c\<lparr>rpkt := (rpkt c)\<lparr>c_data := m\<rparr>, dm := (dm c)\<lparr>keys := ks, outbox := outbox (dm c) @ [x]\<rparr>\<rparr>) \<and> keys_ok ks \<and> length m = 504 \<and>
    to_adr x = rmt_addr c \<and> take len (to_bytes x) = take len (ctl_memory (rpkt c)) \<and> len \<le> length (to_bytes x) \<and> length (to_bytes x) \<le> len + 24 \<and> length (to_bytes x) mod 4 = 0"
proof -
  have l: "length (ctl_memory (rpkt c)) = 516" using assms(7) by (simp add: ctl_memory_def htons_bytes_def)
  obtain n p ks where a: "authencrypt ev (res_keyid c) (ctl_memory (rpkt c)) len (keys (dm c)) = Some (n, p, ks)" "keys_ok ks" "0 \<le> n" "n \<le> 24" "length p = 516"
    "take len p = take len (ctl_memory (rpkt c))" "n mod 4 = 0"
    using authencrypt_gen [OF assms(1,2,4), of "ctl_memory (rpkt c)" "res_keyid c"] assms(3,6) l by auto
  have "take 12 p = take 12 (ctl_memory (rpkt c))" using a(6) assms(5) by (metis min.absorb1 take_take)
  then have "ctl_memory ((rpkt c)\<lparr>c_data := drop 12 p\<rparr>) = p"
    by (simp add: ctl_memory_def htons_bytes_def) (metis append_Cons append_Nil append_take_drop_id)
  moreover have m: "(len + nat n) mod 4 = 0" using a(3,7) assms(4) by presburger
  moreover define x where "x = \<lparr>to_adr = rmt_addr c, to_if = Some (lcl_inter c), to_ttl = 0, to_bytes = take (len + nat n) p\<rparr>"
  ultimately have "ctl_send_mac ev len c = Some (c\<lparr>rpkt := (rpkt c)\<lparr>c_data := drop 12 p\<rparr>, dm := (dm c)\<lparr>keys := ks, outbox := outbox (dm c) @ [x]\<rparr>\<rparr>)"
    using a(1) by (simp add: ctl_send_mac_def ctl_send_def sendpkt_def Let_def)
  moreover have "length (drop 12 p) = 504" "to_adr x = rmt_addr c" "take len (to_bytes x) = take len (ctl_memory (rpkt c))" "len \<le> length (to_bytes x)"
    "length (to_bytes x) \<le> len + 24" "length (to_bytes x) mod 4 = 0"
    using a m assms(6) by (simp_all add: x_def)
  ultimately show ?thesis using a(2) by (intro exI [of _ ks] exI [of _ "drop 12 p"] exI [of _ x] conjI)
qed

lemma is_fragI:
  assumes "take k bs = take k (frag_header c (off, data, m) @ mem)" "12 + length data \<le> k" "k \<le> length bs" "length bs \<le> 516" "length bs mod 4 = 0" "take (length data) mem = data"
  shows "is_frag c (off, data, m) bs"
proof -
  have "take 12 bs = take 12 (take k bs)" "take (length data) (drop 12 bs) = take (length data) (drop 12 (take k bs))" using assms(2) by (simp_all add: drop_take)
  then have "take 12 bs = frag_header c (off, data, m)" "take (length data) (drop 12 bs) = data" using assms(2,6) unfolding assms(1) by (simp_all add: drop_take)
  then show ?thesis using assms(2-5) by (simp add: is_frag_def)
qed

lemma ctl_memory_header:
  "ctl_memory ((rpkt c)\<lparr>c_r_m_e_op := CTL_RESPONSE OR mre OR (res_opcode c AND CTL_OP_MASK), c_count := of_nat (length data), c_offset := of_nat off, c_data := mem\<rparr>) =
   frag_header c (off, data, mre \<noteq> 0) @ mem" if "mre = 0 \<or> mre = CTL_MORE"
  using that by (auto simp: ctl_memory_def frag_header_def)

lemma ctl_memory_split: "take (n + 12) (ctl_memory p) = take 12 (ctl_memory p) @ take n (c_data p)" "take 12 (ctl_memory (p\<lparr>c_data := m\<rparr>)) = take 12 (ctl_memory p)"
  "length (ctl_memory p) = 12 + length (c_data p)"
  by (simp_all add: ctl_memory_def htons_bytes_def numeral_eq_Suc)

lemma pad_len_8: "n mod 4 = 0 \<Longrightarrow> pad_len 8 n \<le> 4"
proof -
  assume "n mod 4 = 0"
  then have "n mod 8 mod 4 = 0" by (simp add: mod_mod_cancel)
  then have "n mod 8 = 0 \<or> n mod 8 \<ge> 4" by (metis mod_less not_le)
  then show ?thesis unfolding pad_len_def by auto
qed

lemma take_shorter: "take n xs = take n ys \<Longrightarrow> k \<le> n \<Longrightarrow> take k xs = take k ys"
  by (metis min.absorb1 take_take)

text \<open>The state after a packet was sent, up to the counters.\<close>

definition flushed :: "ctl \<Rightarrow> ctl \<Rightarrow> bool" where
  "flushed c c' \<longleftrightarrow> res_frame c c' \<and> datalinelen c' = datalinelen c \<and> datanotbinflag c' = datanotbinflag c \<and> res_offset c' = res_offset c \<and> datapt c' \<ge> datapt c"

lemma flush_send_ok:
  assumes "ctl_ok ev c" "datapt c \<le> 472" "(datapt c + 12) mod 4 = 0"
  shows "\<exists>c' x. flush_send ev mre c = Some c' \<and> outbox (dm c') = outbox (dm c) @ [x] \<and> to_adr x = rmt_addr c \<and> ctl_ok ev c' \<and> flushed c c' \<and>
    take (datapt c + 12) (to_bytes x) = take (datapt c + 12) (ctl_memory (rpkt c)) \<and> datapt c + 12 \<le> length (to_bytes x) \<and> length (to_bytes x) \<le> 516 \<and> length (to_bytes x) mod 4 = 0"
proof (cases "res_authenticate c \<and> sys_authenticate (dm c)")
  case False
  have l: "length (ctl_memory (rpkt c)) = 516" using assms(1) by (simp add: ctl_ok_def ctl_memory_def htons_bytes_def)
  define c1 where "c1 = ctl_send (datapt c + 12) c"
  define c' where "c' = (if mre \<noteq> 0 then c1\<lparr>numctlfrags := numctlfrags c1 + 1\<rparr> else c1\<lparr>numctlresponses := numctlresponses c1 + 1\<rparr>)"
  have a: "\<not> res_async c" using assms(1) by (simp add: ctl_ok_def)
  have "flush_send ev mre c = Some c'" unfolding flush_send_def Let_def if_not_P [OF a] if_not_P [OF False] c'_def c1_def by simp
  moreover have "outbox (dm c') = outbox (dm c) @ [\<lparr>to_adr = rmt_addr c, to_if = Some (lcl_inter c), to_ttl = 0, to_bytes = take (datapt c + 12) (ctl_memory (rpkt c))\<rparr>]"
    by (simp add: c'_def c1_def ctl_send_def sendpkt_def)
  moreover have "ctl_ok ev c'" "flushed c c'" using assms(1)
    by (simp_all add: c'_def c1_def ctl_send_def sendpkt_def ctl_ok_def flushed_def res_frame_def)
  ultimately show ?thesis using assms(2,3) l by simp
next
  case True
  then have k: "keys_ok (keys (dm c))" "digests_fit ev" "\<forall>ty bs dg. ev ty bs = Some dg \<longrightarrow> length dg mod 4 = 0" "length (c_data (rpkt c)) = 504" using assms(1) by (auto simp: ctl_ok_def)
  have p: "pad_len 8 (datapt c + 12) \<le> 4" using assms(3) by (rule pad_len_8)
  have m8: "(datapt c + 12 + pad_len 8 (datapt c + 12)) mod 8 = 0" using pad_len_mod by simp
  obtain m where m: "poke (replicate (pad_len 8 (datapt c + 12)) 0) c = Some (c\<lparr>rpkt := (rpkt c)\<lparr>c_data := m\<rparr>, datapt := datapt c + pad_len 8 (datapt c + 12)\<rparr>)" "length m = 504"
     "take (datapt c + pad_len 8 (datapt c + 12)) m = pending c @ replicate (pad_len 8 (datapt c + 12)) 0"
    using poke_Some [of c "replicate (pad_len 8 (datapt c + 12)) 0"] p assms(2) k(4) by auto
  define n where "n = datapt c + pad_len 8 (datapt c + 12)"
  have n12: "n + 12 = datapt c + 12 + pad_len 8 (datapt c + 12)" by (simp add: n_def)
  have n: "n \<le> 476" "(n + 12) mod 8 = 0" "datapt c \<le> n" using p assms(2) m8 unfolding n12 by (simp_all add: n_def)
  define m' where "m' = take n m @ htonl_bytes (res_keyid c) @ drop (n + length (htonl_bytes (res_keyid c))) m"
  have w: "write_at m n (htonl_bytes (res_keyid c)) = Some m'" "length m' = 504" "take n m' = take n m" using n(1) m(2) by (simp_all add: write_at_Some m'_def)
  define c1 where "c1 = c\<lparr>rpkt := (rpkt c)\<lparr>c_data := m'\<rparr>, datapt := n\<rparr>"
  have "(n + 12) mod 4 = 0" using n(2) by presburger
  then obtain ks d x where s: "ctl_send_mac ev (n + 12) c1 = Some (c1\<lparr>rpkt := (rpkt c1)\<lparr>c_data := d\<rparr>, dm := (dm c1)\<lparr>keys := ks, outbox := outbox (dm c1) @ [x]\<rparr>\<rparr>)" "keys_ok ks" "length d = 504"
    "to_adr x = rmt_addr c1" "take (n + 12) (to_bytes x) = take (n + 12) (ctl_memory (rpkt c1))" "n + 12 \<le> length (to_bytes x)" "length (to_bytes x) \<le> n + 12 + 24" "length (to_bytes x) mod 4 = 0"
    using ctl_send_mac_ok [of c1 ev "n + 12"] k(1-3) n(1) w(2) by (auto simp: c1_def)
  define c2 where "c2 = c1\<lparr>rpkt := (rpkt c1)\<lparr>c_data := d\<rparr>, dm := (dm c1)\<lparr>keys := ks, outbox := outbox (dm c1) @ [x]\<rparr>\<rparr>"
  define c' where "c' = (if mre \<noteq> 0 then c2\<lparr>numctlfrags := numctlfrags c2 + 1\<rparr> else c2\<lparr>numctlresponses := numctlresponses c2 + 1\<rparr>)"
  have "flush_send ev mre c = Some c'"
  proof -
    have a: "\<not> res_async c" using assms(1) by (simp add: ctl_ok_def)
    have c1: "c\<lparr>rpkt := (rpkt c)\<lparr>c_data := m\<rparr>, datapt := n\<rparr>\<lparr>rpkt := (rpkt c)\<lparr>c_data := m\<rparr>\<lparr>c_data := m'\<rparr>\<rparr> = c1" by (simp add: c1_def)
    show ?thesis unfolding flush_send_def Let_def if_not_P [OF a] if_P [OF True] m(1) bind.bind_lunit n_def [symmetric]
      using w(1) s(1) by (simp add: c1 [simplified] c2_def [symmetric] c'_def)
  qed
  moreover have "outbox (dm c') = outbox (dm c) @ [x]" "ctl_ok ev c'" "flushed c c'" "to_adr x = rmt_addr c"
    using assms(1) k s(2-4) n(3) by (simp_all add: c'_def c2_def c1_def ctl_ok_def flushed_def res_frame_def)
  moreover have "take (datapt c + 12) (to_bytes x) = take (datapt c + 12) (ctl_memory (rpkt c))"
  proof -
    have "take (datapt c) m' = take (datapt c) m" using take_shorter w(3) n(3) by blast
    moreover have "take (datapt c) m = pending c" 
    proof -
      have "length (pending c) = datapt c" using assms(2) k(4) by (simp add: pending_def)
      moreover have "take (datapt c) m = take (datapt c) (take n m)" using n(3) by simp
      ultimately show ?thesis using m(3) unfolding n_def [symmetric] by simp
    qed
    ultimately have "take (datapt c + 12) (ctl_memory (rpkt c1)) = take (datapt c + 12) (ctl_memory (rpkt c))" by (simp add: c1_def ctl_memory_split pending_def)
    moreover have "take (datapt c + 12) (to_bytes x) = take (datapt c + 12) (ctl_memory (rpkt c1))" using take_shorter s(5) n(3) by (metis add_le_cancel_right)
    ultimately show ?thesis by simp
  qed
  ultimately show ?thesis using s(6,7,8) n by (intro exI [of _ c'] exI [of _ x] conjI) simp_all
qed

definition trailer :: "ctl \<Rightarrow> u_char \<Rightarrow> u_char list" where
  "trailer c mre = (if mre = 0 \<and> datanotbinflag c \<and> datapt c + 2 < 468 then [13, 10] else [])"

lemma poke_state:
  assumes "length (c_data (rpkt c)) = 504" "datapt c + length bs \<le> 504"
  shows "\<exists>m. poke bs c = Some (c\<lparr>rpkt := (rpkt c)\<lparr>c_data := m\<rparr>, datapt := datapt c + length bs\<rparr>) \<and> length m = 504 \<and> take (datapt c + length bs) m = pending c @ bs \<and> take (datapt c) m = pending c"
proof -
  obtain m where m: "poke bs c = Some (c\<lparr>rpkt := (rpkt c)\<lparr>c_data := m\<rparr>, datapt := datapt c + length bs\<rparr>)" "length m = 504" "take (datapt c + length bs) m = pending c @ bs"
    using poke_Some [of c bs] assms by auto
  moreover have "take (datapt c) m = take (datapt c) (take (datapt c + length bs) m)" by simp
  moreover have "length (pending c) = datapt c" using assms by (simp add: pending_def)
  ultimately show ?thesis by (intro exI [of _ m]) simp
qed

lemma ctl_flush_ok:
  assumes "ctl_ok ev c" "mre = 0 \<or> mre = CTL_MORE" "datapt c \<le> 471" "0 \<le> res_offset c" "res_offset c < 2 ^ 31 - 504"
  defines "data \<equiv> pending c @ trailer c mre"
  shows "\<exists>c' x. ctl_flushpkt ev mre c = Some c' \<and> outbox (dm c') = outbox (dm c) @ [x] \<and> to_adr x = rmt_addr c \<and> is_frag c (nat (res_offset c), data, mre \<noteq> 0) (to_bytes x) \<and>
    ctl_ok ev c' \<and> res_frame c c' \<and> datapt c' = 0 \<and> res_offset c' = res_offset c + int (length data) \<and> datanotbinflag c' = datanotbinflag c \<and> datalinelen c' = datalinelen c"
proof -
  let ?n = "datapt c + length (trailer c mre)"
  let ?p = "pad_len 4 (?n + 12)"
  have l: "length (c_data (rpkt c)) = 504" using assms(1) by (simp add: ctl_ok_def)
  have n: "?n \<le> 471" "length data = ?n" using assms(3) l by (auto simp: trailer_def data_def pending_def)
  have p: "?n + ?p \<le> 472" "(?n + ?p + 12) mod 4 = 0"
  proof -
    have "?n + ?p + 12 = ?n + 12 + ?p" by linarith
    then have a: "(?n + ?p + 12) mod 4 = 0" using pad_len_mod(1) [of "?n + 12"] by (simp only:)
    have b: "?p < 4" by (rule pad_len_less)
    show "(?n + ?p + 12) mod 4 = 0" by (rule a)
    obtain q where "?n + ?p + 12 = 4 * q" using a by (metis dvd_def mod_0_imp_dvd)
    moreover from this have "q \<le> 121" using b n(1) by linarith
    ultimately show "?n + ?p \<le> 472" by linarith
  qed
  obtain m1 where m1: "poke (trailer c mre) c = Some (c\<lparr>rpkt := (rpkt c)\<lparr>c_data := m1\<rparr>, datapt := ?n\<rparr>)" "length m1 = 504" "take ?n m1 = data"
    using poke_state [OF l, of "trailer c mre"] n(1) by (auto simp: data_def)
  define c1 where "c1 = c\<lparr>rpkt := (rpkt c)\<lparr>c_data := m1\<rparr>, datapt := ?n\<rparr>"
  have c1: "datapt c1 = ?n" "length (c_data (rpkt c1)) = 504" "pending c1 = data" using m1 by (simp_all add: c1_def pending_def)
  obtain m2 where m2: "poke (replicate ?p 0) c1 = Some (c1\<lparr>rpkt := (rpkt c1)\<lparr>c_data := m2\<rparr>, datapt := ?n + ?p\<rparr>)" "length m2 = 504" "take ?n m2 = data"
    using poke_state [of c1 "replicate ?p 0"] c1 p(1) by auto
  define c2 where "c2 = c\<lparr>rpkt := (rpkt c)\<lparr>c_r_m_e_op := CTL_RESPONSE OR mre OR (res_opcode c AND CTL_OP_MASK), c_count := of_nat ?n, c_offset := word_of_int (res_offset c), c_data := m2\<rparr>, datapt := ?n + ?p\<rparr>"
  have "ctl_ok ev c2" using assms(1) m2(2) by (simp add: ctl_ok_def c2_def)
  then obtain c3 x where s: "flush_send ev mre c2 = Some c3" "outbox (dm c3) = outbox (dm c2) @ [x]" "to_adr x = rmt_addr c2" "ctl_ok ev c3" "flushed c2 c3"
    "take (datapt c2 + 12) (to_bytes x) = take (datapt c2 + 12) (ctl_memory (rpkt c2))" "datapt c2 + 12 \<le> length (to_bytes x)" "length (to_bytes x) \<le> 516" "length (to_bytes x) mod 4 = 0"
    using flush_send_ok [of ev c2 mre] p by (auto simp: c2_def)
  define c' where "c' = c3\<lparr>res_frags := res_frags c3 + 1, res_offset := s32 (res_offset c3 + int ?n), datapt := 0\<rparr>"
  have ro: "res_offset c3 = res_offset c" using s(5) by (simp add: flushed_def c2_def)
  have "ctl_flushpkt ev mre c = Some c'"
  proof -
    have t: "(if mre = 0 \<and> datanotbinflag c \<and> datapt c + 2 < CTL_MAX_DATA_LEN then poke [13, 10] c else Some c) = Some c1"
    proof (cases "mre = 0 \<and> datanotbinflag c \<and> datapt c + 2 < 468")
      case True
      then show ?thesis using m1(1) unfolding if_P [OF True] c1_def trailer_def by simp
    next
      case False
      have "poke [] c = Some c" using l assms(3) by (simp add: poke_def write_at_def)
      then show ?thesis using m1(1) unfolding if_not_P [OF False] c1_def trailer_def by simp
    qed
    have c2: "c1\<lparr>rpkt := (rpkt c1)\<lparr>c_data := m2\<rparr>, datapt := ?n + ?p, rpkt := (rpkt c1)\<lparr>c_data := m2, c_r_m_e_op := CTL_RESPONSE OR mre OR (res_opcode c1 AND CTL_OP_MASK), c_count := of_nat ?n, c_offset := word_of_int (res_offset c1)\<rparr>\<rparr> = c2"
      by (simp add: c1_def c2_def)
    show ?thesis unfolding ctl_flushpkt_def t Let_def bind.bind_lunit c1(1) m2(1)
      using s(1) c2 by (simp add: c'_def)
  qed
  moreover have "is_frag c (nat (res_offset c), data, mre \<noteq> 0) (to_bytes x)"
  proof -
    have "ctl_memory (rpkt c2) = frag_header c (nat (res_offset c), data, mre \<noteq> 0) @ m2"
      using ctl_memory_header [OF assms(2), where c = c and data = data and off = "nat (res_offset c)" and mem = m2] assms(4) n(2) by (simp add: c2_def)
    then have a: "take (datapt c2 + 12) (to_bytes x) = take (datapt c2 + 12) (frag_header c (nat (res_offset c), data, mre \<noteq> 0) @ m2)" using s(6) by (simp only:)
    have b: "take (length data) m2 = data" using m2(3) n(2) by (simp only:)
    have "12 + length data \<le> datapt c2 + 12" using n(2) by (simp add: c2_def)
    then show ?thesis by (rule is_fragI [OF a _ s(7-9) b])
  qed
  moreover have "res_offset c' = res_offset c + int (length data)" using assms(4,5) n ro by (simp add: c'_def s32_id in_s32_def)
  moreover have "outbox (dm c') = outbox (dm c) @ [x]" "to_adr x = rmt_addr c" "ctl_ok ev c'" "datapt c' = 0" using s(2,3,4) by (simp_all add: c'_def c2_def ctl_ok_def)
  moreover have "res_frame c c'" "datanotbinflag c' = datanotbinflag c" "datalinelen c' = datalinelen c" using s(5) by (simp_all add: c'_def c2_def flushed_def res_frame_def)
  ultimately show ?thesis by blast
qed

section \<open>Fragments of one response\<close>

text \<open>Fragments that lie one behind the other, and their text.\<close>

fun tiles :: "nat \<Rightarrow> fragment list \<Rightarrow> bool" where
  "tiles n [] \<longleftrightarrow> True"
| "tiles n ((off, data, m) # fs) \<longleftrightarrow> off = n \<and> tiles (n + length data) fs"

definition frag_text :: "fragment list \<Rightarrow> u_char list" where
  "frag_text fs = concat (map (fst \<circ> snd) fs)"

lemma frag_text_simps [simp]: "frag_text [] = []" "frag_text ((off, data, m) # fs) = data @ frag_text fs" "frag_text (fs @ gs) = frag_text fs @ frag_text gs"
  by (simp_all add: frag_text_def)

lemma tiles_append: "tiles n (fs @ gs) \<longleftrightarrow> tiles n fs \<and> tiles (n + length (frag_text fs)) gs"
  by (induction n fs rule: tiles.induct) (auto simp: add.assoc)

definition inner_frag :: "fragment \<Rightarrow> bool" where
  "inner_frag f \<longleftrightarrow> (case f of (off, data, m) \<Rightarrow> m \<and> data \<noteq> [] \<and> length data \<le> 471)"

definition sent_as :: "ctl \<Rightarrow> fragment list \<Rightarrow> xmit list \<Rightarrow> bool" where
  "sent_as c fs xs \<longleftrightarrow> list_all2 (\<lambda>f x. to_adr x = rmt_addr c \<and> is_frag c f (to_bytes x)) fs xs"

text \<open>The state while a response that began in \<open>c0\<close> is put together: \<open>fs\<close> is out, the rest is pending.\<close>

definition progress :: "(int \<Rightarrow> u_char list \<Rightarrow> u_char list option) \<Rightarrow> ctl \<Rightarrow> ctl \<Rightarrow> fragment list \<Rightarrow> bool" where
  "progress ev c0 c fs \<longleftrightarrow> res_frame c0 c \<and> ctl_ok ev c \<and> datapt c \<le> 468 \<and> tiles 0 fs \<and> list_all inner_frag fs \<and> res_offset c = int (length (frag_text fs)) \<and>
     (\<exists>xs. outbox (dm c) = outbox (dm c0) @ xs \<and> sent_as c0 fs xs)"

lemma length_pending: "ctl_ok ev c \<Longrightarrow> datapt c \<le> 504 \<Longrightarrow> length (pending c) = datapt c"
  by (simp add: ctl_ok_def pending_def)

lemma poke_ctl_ok:
  assumes "ctl_ok ev c" "datapt c + length bs \<le> 504"
  shows "\<exists>c' m. poke bs c = Some c' \<and> c' = c\<lparr>rpkt := (rpkt c)\<lparr>c_data := m\<rparr>, datapt := datapt c + length bs\<rparr> \<and> ctl_ok ev c' \<and> res_frame c c' \<and> pending c' = pending c @ bs"
proof -
  obtain m where m: "poke bs c = Some (c\<lparr>rpkt := (rpkt c)\<lparr>c_data := m\<rparr>, datapt := datapt c + length bs\<rparr>)" "length m = 504" "take (datapt c + length bs) m = pending c @ bs"
    using poke_state [of c bs] assms by (auto simp: ctl_ok_def)
  show ?thesis using m assms(1)
    by (intro exI [of _ "c\<lparr>rpkt := (rpkt c)\<lparr>c_data := m\<rparr>, datapt := datapt c + length bs\<rparr>"] exI [of _ m]) (simp add: ctl_ok_def res_frame_def pending_def)
qed

text \<open>What goes between the pending text and the next item.\<close>

definition sep_line :: "int \<Rightarrow> nat \<Rightarrow> bool" where
  "sep_line n len \<longleftrightarrow> 72 \<le> n + int len + 2"

definition separator :: "int \<Rightarrow> nat \<Rightarrow> u_char list" where
  "separator n len = (if sep_line n len then [44, 13, 10] else [44, 32])"

definition line_after :: "int \<Rightarrow> nat \<Rightarrow> int" where
  "line_after n len = (if sep_line n len then int len else n + 2 + int len)"

lemma sep_word: "0 \<le> n \<Longrightarrow> n \<le> 1000 \<Longrightarrow> len \<le> 1000 \<Longrightarrow> word_of_int (int len + (n + 1) + 1) \<ge> (72 :: u_int32) \<longleftrightarrow> sep_line n len"
  by (simp add: sep_line_def word_le_def uint_word_of_int take_bit_eq_mod del: of_int_add) linarith

definition put_sep :: "ctl \<Rightarrow> bool \<Rightarrow> nat \<Rightarrow> u_char list" where
  "put_sep c bin len = (if bin \<or> datapt c = 0 then [] else separator (datalinelen c) len)"

definition put_line :: "ctl \<Rightarrow> bool \<Rightarrow> nat \<Rightarrow> int" where
  "put_line c bin len = (if bin \<or> datapt c = 0 then datalinelen c + int len else line_after (datalinelen c) len)"

lemma put_sep_ok:
  assumes "ctl_ok ev c" "datapt c \<le> 468" "0 \<le> datalinelen c" "datalinelen c \<le> 1000" "len \<le> 468"
  shows "\<exists>c'. (if bin then Some c
           else let c = c\<lparr>datanotbinflag := True\<rparr>
                in if datapt c \<noteq> 0
                   then if word_of_int (int len + (datalinelen c + 1) + 1) \<ge> MAXDATALINELEN
                        then map_option (\<lambda>c. c\<lparr>datalinelen := 0\<rparr>) (poke [44, 13, 10] c)
                        else map_option (\<lambda>c. c\<lparr>datalinelen := s32 (datalinelen c + 2)\<rparr>) (poke [44, 32] c)
                   else Some c) = Some c' \<and>
    ctl_ok ev c' \<and> res_frame c c' \<and> pending c' = pending c @ put_sep c bin len \<and> datapt c' = datapt c + length (put_sep c bin len) \<and> res_offset c' = res_offset c \<and> dm c' = dm c \<and>
    datanotbinflag c' = (\<not> bin \<or> datanotbinflag c) \<and> datalinelen c' + int len = put_line c bin len"
proof (cases "bin \<or> datapt c = 0")
  case True
  then show ?thesis using assms(1) by (auto simp: put_sep_def put_line_def ctl_ok_def res_frame_def pending_def)
next
  case False
  let ?c = "c\<lparr>datanotbinflag := True\<rparr>"
  let ?s = "separator (datalinelen c) len"
  have "length ?s \<le> 3" by (simp add: separator_def)
  then have "datapt ?c + length ?s \<le> 504" using assms(2) by simp
  moreover have "ctl_ok ev ?c" using assms(1) by (simp add: ctl_ok_def)
  ultimately obtain d m where d: "poke ?s ?c = Some d" "d = ?c\<lparr>rpkt := (rpkt ?c)\<lparr>c_data := m\<rparr>, datapt := datapt ?c + length ?s\<rparr>" "ctl_ok ev d" "res_frame ?c d" "pending d = pending ?c @ ?s"
    using poke_ctl_ok by blast
  define n where "n = (if sep_line (datalinelen c) len then 0 else datalinelen c + 2)"
  define c' where "c' = d\<lparr>datalinelen := n\<rparr>"
  have "s32 (datalinelen c + 2) = datalinelen c + 2" using assms(3,4) by (simp add: s32_id in_s32_def)
  then have "(if bin then Some c
           else let c = c\<lparr>datanotbinflag := True\<rparr>
                in if datapt c \<noteq> 0
                   then if word_of_int (int len + (datalinelen c + 1) + 1) \<ge> MAXDATALINELEN
                        then map_option (\<lambda>c. c\<lparr>datalinelen := 0\<rparr>) (poke [44, 13, 10] c)
                        else map_option (\<lambda>c. c\<lparr>datalinelen := s32 (datalinelen c + 2)\<rparr>) (poke [44, 32] c)
                   else Some c) = Some c'"
    using False sep_word [OF assms(3,4), of len] assms(5) d(1,2) by (auto simp: c'_def n_def separator_def Let_def)
  moreover have "ctl_ok ev c'" "res_frame c c'" "pending c' = pending c @ put_sep c bin len" "datapt c' = datapt c + length (put_sep c bin len)" "res_offset c' = res_offset c" "dm c' = dm c"
    "datanotbinflag c' = (\<not> bin \<or> datanotbinflag c)" "datalinelen c' + int len = put_line c bin len"
    using False d(2-5) by (simp_all add: c'_def n_def put_sep_def put_line_def line_after_def ctl_ok_def res_frame_def pending_def)
  ultimately show ?thesis by blast
qed

lemma progress_flush:
  assumes "res_frame c0 c" "ctl_ok ev c" "datapt c \<le> 471" "0 < datapt c" "tiles 0 fs" "list_all inner_frag fs" "res_offset c = int (length (frag_text fs))" "outbox (dm c) = outbox (dm c0) @ xs" "sent_as c0 fs xs"
    "length (frag_text fs) < 2 ^ 31 - 504"
  shows "\<exists>c' fs'. ctl_flushpkt ev CTL_MORE c = Some c' \<and> progress ev c0 c' fs' \<and> frag_text fs' = frag_text fs @ pending c \<and> datapt c' = 0 \<and> datanotbinflag c' = datanotbinflag c \<and> datalinelen c' = datalinelen c"
proof -
  have t: "trailer c CTL_MORE = []" by (simp add: trailer_def)
  obtain c' x where f: "ctl_flushpkt ev CTL_MORE c = Some c'" "outbox (dm c') = outbox (dm c) @ [x]" "to_adr x = rmt_addr c" "is_frag c (length (frag_text fs), pending c, True) (to_bytes x)"
    "ctl_ok ev c'" "res_frame c c'" "datapt c' = 0" "res_offset c' = res_offset c + int (length (pending c))" "datanotbinflag c' = datanotbinflag c" "datalinelen c' = datalinelen c"
    using ctl_flush_ok [OF assms(2) _ assms(3), of CTL_MORE] assms(7,10) unfolding t by auto
  let ?f = "(length (frag_text fs), pending c, True)"
  have l: "length (pending c) = datapt c" using length_pending [OF assms(2)] assms(3) by simp
  have "progress ev c0 c' (fs @ [?f])" unfolding progress_def
  proof (intro conjI exI)
    show "res_frame c0 c'" using assms(1) f(6) by (rule res_frame_trans)
    show "tiles 0 (fs @ [?f])" using assms(5) by (simp add: tiles_append)
    show "list_all inner_frag (fs @ [?f])" using assms(3,4,6) l by (auto simp: inner_frag_def)
    show "outbox (dm c') = outbox (dm c0) @ xs @ [x]" using f(2) assms(8) by simp
    have "rmt_addr c = rmt_addr c0" using assms(1) by (simp add: res_frame_def)
    then show "sent_as c0 (fs @ [?f]) (xs @ [x])" using assms(9) f(3,4) is_frag_frame [OF assms(1)] by (simp add: sent_as_def list_all2_appendI)
  qed (use f assms(7) in simp_all)
  then show ?thesis using f by (intro exI [of _ c'] exI [of _ "fs @ [?f]"]) simp
qed

lemma ctl_putdata_ok:
  assumes "progress ev c0 c fs" "length dp + (if bin then 0 else 3) \<le> 468" "0 \<le> datalinelen c" "datalinelen c \<le> 1000" "length (frag_text fs) < 2 ^ 31 - 504"
  shows "\<exists>c' fs'. ctl_putdata ev dp bin c = Some c' \<and> progress ev c0 c' fs' \<and> frag_text fs' @ pending c' = frag_text fs @ pending c @ put_sep c bin (length dp) @ dp \<and>
    datanotbinflag c' = (\<not> bin \<or> datanotbinflag c) \<and> datalinelen c' = put_line c bin (length dp) \<and> length dp \<le> datapt c' \<and> (\<not> bin \<longrightarrow> datapt c' \<le> 465)"
proof -
  obtain xs where p: "res_frame c0 c" "ctl_ok ev c" "datapt c \<le> 468" "tiles 0 fs" "list_all inner_frag fs" "res_offset c = int (length (frag_text fs))" "outbox (dm c) = outbox (dm c0) @ xs" "sent_as c0 fs xs"
    using assms(1) by (auto simp: progress_def)
  have ld: "length dp \<le> 468" using assms(2) by simp
  obtain c1 where c1: "(if bin then Some c
           else let c = c\<lparr>datanotbinflag := True\<rparr>
                in if datapt c \<noteq> 0
                   then if word_of_int (int (length dp) + (datalinelen c + 1) + 1) \<ge> MAXDATALINELEN
                        then map_option (\<lambda>c. c\<lparr>datalinelen := 0\<rparr>) (poke [44, 13, 10] c)
                        else map_option (\<lambda>c. c\<lparr>datalinelen := s32 (datalinelen c + 2)\<rparr>) (poke [44, 32] c)
                   else Some c) = Some c1"
    "ctl_ok ev c1" "res_frame c c1" "pending c1 = pending c @ put_sep c bin (length dp)" "datapt c1 = datapt c + length (put_sep c bin (length dp))" "res_offset c1 = res_offset c" "dm c1 = dm c"
    "datanotbinflag c1 = (\<not> bin \<or> datanotbinflag c)" "datalinelen c1 + int (length dp) = put_line c bin (length dp)"
    using put_sep_ok [OF p(2,3) assms(3,4) ld, of bin] by blast
  have f1: "res_frame c0 c1" using p(1) c1(3) by (rule res_frame_trans)
  have "length (put_sep c bin (length dp)) \<le> 3" by (simp add: put_sep_def separator_def)
  then have d1: "datapt c1 \<le> 471" using c1(5) p(3) by simp
  let ?full = "length dp + (if bin then 0 else 3) + datapt c1 > 468"
  obtain c2 fs2 where c2: "(if ?full then ctl_flushpkt ev CTL_MORE c1 else Some c1) = Some c2" "progress ev c0 c2 fs2" "frag_text fs2 @ pending c2 = frag_text fs @ pending c1" 
    "length dp + (if bin then 0 else 3) + datapt c2 \<le> 468" "datanotbinflag c2 = datanotbinflag c1" "datalinelen c2 = datalinelen c1"
  proof (cases ?full)
    case True
    have "0 < datapt c1" using True assms(2) by linarith
    then obtain c2 fs2 where f: "ctl_flushpkt ev CTL_MORE c1 = Some c2" "progress ev c0 c2 fs2" "frag_text fs2 = frag_text fs @ pending c1" "datapt c2 = 0" "datanotbinflag c2 = datanotbinflag c1" "datalinelen c2 = datalinelen c1"
      using progress_flush [OF f1 c1(2) d1 _ p(4,5) _ _ p(8)] p(6,7) c1(6,7) assms(5) by auto
    have "pending c2 = []" using f(4) by (simp add: pending_def)
    then show thesis using that [of c2 fs2] f True assms(2) by simp
  next
    case False
    have "progress ev c0 c1 fs" using f1 c1(2,6,7) p(4-8) False unfolding progress_def by auto
    then show thesis using that [of c1 fs] False by simp
  qed
  obtain c3 m where c3: "poke dp c2 = Some c3" "c3 = c2\<lparr>rpkt := (rpkt c2)\<lparr>c_data := m\<rparr>, datapt := datapt c2 + length dp\<rparr>" "ctl_ok ev c3" "res_frame c2 c3" "pending c3 = pending c2 @ dp"
    using poke_ctl_ok [of ev c2 dp] c2(2,4) by (auto simp: progress_def)
  define c' where "c' = c3\<lparr>datalinelen := s32 (datalinelen c3 + int (length dp))\<rparr>"
  have ln: "datalinelen c' = put_line c bin (length dp)"
  proof -
    have "0 \<le> put_line c bin (length dp)" "put_line c bin (length dp) \<le> 2000" using assms(3,4) ld by (auto simp: put_line_def line_after_def sep_line_def)
    then show ?thesis using c1(9) c2(6) c3(2) by (simp add: c'_def s32_id in_s32_def)
  qed
  have "ctl_putdata ev dp bin c = Some c'"
    unfolding ctl_putdata_def c1(1) bind.bind_lunit c2(1) c3(1) c'_def ..
  moreover have "progress ev c0 c' fs2"
  proof -
    have "res_frame c0 c3" using res_frame_trans c2(2) c3(4) by (auto simp: progress_def)
    then have "res_frame c0 c'" by (simp add: c'_def res_frame_def)
    moreover have "ctl_ok ev c'" using c3(3) by (simp add: c'_def ctl_ok_def)
    moreover have "datapt c' \<le> 468" "res_offset c' = res_offset c2" "dm c' = dm c2" using c2(4) c3(2) by (simp_all add: c'_def)
    ultimately show ?thesis using c2(2) unfolding progress_def by simp
  qed
  moreover have "frag_text fs2 @ pending c' = frag_text fs @ pending c @ put_sep c bin (length dp) @ dp"
  proof -
    have "pending c' = pending c2 @ dp" using c3(5) by (simp add: c'_def pending_def)
    then have "frag_text fs2 @ pending c' = (frag_text fs2 @ pending c2) @ dp" by simp
    then show ?thesis unfolding c2(3) c1(4) by simp
  qed
  moreover have "datanotbinflag c' = (\<not> bin \<or> datanotbinflag c)" "length dp \<le> datapt c'" "\<not> bin \<longrightarrow> datapt c' \<le> 465" using c1(8) c2(4,5) c3(2) by (auto simp: c'_def)
  ultimately show ?thesis using ln by blast
qed

section \<open>Texts of items\<close>

text \<open>The items of a response as one text: a comma behind each but the last, and a new line where the next one would end behind column 72.\<close>

fun layout :: "int \<Rightarrow> u_char list list \<Rightarrow> u_char list" where
  "layout n [] = []"
| "layout n (x # xs) = separator n (length x) @ x @ layout (line_after n (length x)) xs"

fun text_of :: "u_char list list \<Rightarrow> u_char list" where
  "text_of [] = []"
| "text_of (x # xs) = x @ layout (int (length x)) xs"

fun put_items :: "(int \<Rightarrow> u_char list \<Rightarrow> u_char list option) \<Rightarrow> u_char list list \<Rightarrow> ctl \<Rightarrow> ctl option" where
  "put_items ev [] c = Some c"
| "put_items ev (x # xs) c = do { c \<leftarrow> ctl_putdata ev x False c; put_items ev xs c }"

definition item_ok :: "u_char list \<Rightarrow> bool" where
  "item_ok x \<longleftrightarrow> x \<noteq> [] \<and> length x \<le> 465"

definition whole :: "fragment list \<Rightarrow> bool" where
  "whole fs \<longleftrightarrow> fs \<noteq> [] \<and> tiles 0 fs \<and> list_all inner_frag (butlast fs) \<and> \<not> snd (snd (last fs)) \<and> length (fst (snd (last fs))) \<le> 471"

lemma put_layout:
  assumes "progress ev c0 c fs" "0 < datapt c" "datapt c \<le> 465" "0 \<le> datalinelen c" "datalinelen c \<le> 465" "list_all item_ok xs" "length (frag_text fs @ pending c @ layout (datalinelen c) xs) < 2 ^ 31 - 504" "datanotbinflag c"
  shows "\<exists>c' fs'. put_items ev xs c = Some c' \<and> progress ev c0 c' fs' \<and> frag_text fs' @ pending c' = frag_text fs @ pending c @ layout (datalinelen c) xs \<and> 0 < datapt c' \<and> datapt c' \<le> 465 \<and> datanotbinflag c'"
  using assms
proof (induction xs arbitrary: c fs)
  case Nil
  then show ?case by auto
next
  case (Cons x xs)
  have x: "length x \<le> 465" "x \<noteq> []" "list_all item_ok xs" using Cons.prems(6) by (simp_all add: item_ok_def [of x])
  obtain c1 fs1 where c1: "ctl_putdata ev x False c = Some c1" "progress ev c0 c1 fs1" "frag_text fs1 @ pending c1 = frag_text fs @ pending c @ separator (datalinelen c) (length x) @ x"
    "datanotbinflag c1" "datalinelen c1 = line_after (datalinelen c) (length x)" "length x \<le> datapt c1" "datapt c1 \<le> 465"
    using ctl_putdata_ok [OF Cons.prems(1), of x False] Cons.prems(2,4,5,7) x(1) by (auto simp: put_sep_def put_line_def)
  have ln: "0 \<le> datalinelen c1" "datalinelen c1 \<le> 465" using c1(5) Cons.prems(4) x(1) by (auto simp: line_after_def sep_line_def)
  have t: "frag_text fs1 @ pending c1 @ layout (datalinelen c1) xs = frag_text fs @ pending c @ layout (datalinelen c) (x # xs)"
    using arg_cong [OF c1(3), of "\<lambda>t. t @ layout (datalinelen c1) xs"] c1(5) by simp
  have "0 < datapt c1" using c1(6) x(2) by (cases x) auto
  from Cons.IH [OF c1(2) this c1(7) ln x(3) _ c1(4)] show ?case unfolding t using Cons.prems(7) c1(1) by simp
qed

lemma progress_start: "ctl_ok ev c \<Longrightarrow> datapt c = 0 \<Longrightarrow> res_offset c = 0 \<Longrightarrow> progress ev c c []"
  by (auto simp: progress_def sent_as_def)

lemma progress_finish:
  assumes "progress ev c0 c fs" "length (frag_text fs) < 2 ^ 31 - 504"
  shows "\<exists>c' gs xs. ctl_flushpkt ev 0 c = Some c' \<and> outbox (dm c') = outbox (dm c0) @ xs \<and> sent_as c0 gs xs \<and> whole gs \<and> frag_text gs = frag_text fs @ pending c @ trailer c 0 \<and>
    res_frame c0 c' \<and> ctl_ok ev c' \<and> datapt c' = 0"
proof -
  obtain xs where p: "res_frame c0 c" "ctl_ok ev c" "datapt c \<le> 468" "tiles 0 fs" "list_all inner_frag fs" "res_offset c = int (length (frag_text fs))" "outbox (dm c) = outbox (dm c0) @ xs" "sent_as c0 fs xs"
    using assms(1) by (auto simp: progress_def)
  let ?data = "pending c @ trailer c 0"
  let ?f = "(length (frag_text fs), ?data, False)"
  obtain c' x where f: "ctl_flushpkt ev 0 c = Some c'" "outbox (dm c') = outbox (dm c) @ [x]" "to_adr x = rmt_addr c" "is_frag c ?f (to_bytes x)" "ctl_ok ev c'" "res_frame c c'" "datapt c' = 0"
    using ctl_flush_ok [OF p(2), of 0] p(3,6) assms(2) by auto
  have "length ?data \<le> 471" using length_pending [OF p(2)] p(3) by (auto simp: trailer_def)
  then have "whole (fs @ [?f])" using p(4,5) by (simp add: whole_def tiles_append)
  moreover have "sent_as c0 (fs @ [?f]) (xs @ [x])" using p(1,8) f(3,4) is_frag_frame [OF p(1)] by (simp add: sent_as_def list_all2_appendI res_frame_def)
  moreover have "outbox (dm c') = outbox (dm c0) @ xs @ [x]" using f(2) p(7) by simp
  moreover have "frag_text (fs @ [?f]) = frag_text fs @ pending c @ trailer c 0" by simp
  moreover have "res_frame c0 c'" using p(1) f(6) by (rule res_frame_trans)
  ultimately show ?thesis using f(1,5,7) by blast
qed

definition full_text :: "u_char list list \<Rightarrow> u_char list" where
  "full_text xs = (if xs = [] then [] else text_of xs @ [13, 10])"

lemma put_items_ok:
  assumes "ctl_ok ev c" "datapt c = 0" "res_offset c = 0" "datalinelen c = 0" "\<not> datanotbinflag c" "list_all item_ok xs" "length (full_text xs) < 2 ^ 31 - 504"
  shows "\<exists>c1 c' gs ms. put_items ev xs c = Some c1 \<and> ctl_flushpkt ev 0 c1 = Some c' \<and> outbox (dm c') = outbox (dm c) @ ms \<and> sent_as c gs ms \<and> whole gs \<and> frag_text gs = full_text xs \<and>
    res_frame c c' \<and> ctl_ok ev c' \<and> datapt c' = 0"
proof (cases xs)
  case Nil
  then show ?thesis using progress_finish [OF progress_start [OF assms(1-3)]] assms(2,5) by (auto simp: pending_def trailer_def full_text_def)
next
  case (Cons y ys)
  have y: "length y \<le> 465" "y \<noteq> []" "list_all item_ok ys" using assms(6) Cons by (simp_all add: item_ok_def [of y])
  have e: "pending c = []" using assms(2) by (simp add: pending_def)
  obtain c1 fs1 where c1: "ctl_putdata ev y False c = Some c1" "progress ev c c1 fs1" "frag_text fs1 @ pending c1 = y" "datanotbinflag c1" "datalinelen c1 = int (length y)" "length y \<le> datapt c1" "datapt c1 \<le> 465"
    using ctl_putdata_ok [OF progress_start [OF assms(1-3)], of y False] y(1) assms(2,4) e by (auto simp: put_sep_def put_line_def)
  have "0 < datapt c1" using c1(6) y(2) by (cases y) auto
  moreover have t: "frag_text fs1 @ pending c1 @ layout (datalinelen c1) ys = text_of xs" using arg_cong [OF c1(3), of "\<lambda>t. t @ layout (datalinelen c1) ys"] c1(5) Cons by simp
  ultimately obtain c2 fs2 where c2: "put_items ev ys c1 = Some c2" "progress ev c c2 fs2" "frag_text fs2 @ pending c2 = text_of xs" "datapt c2 \<le> 465" "datanotbinflag c2"
    using put_layout [OF c1(2) _ c1(7) _ _ y(3) _ c1(4)] c1(5) y(1) assms(7) Cons by (auto simp: full_text_def)
  have "length (frag_text fs2) < 2 ^ 31 - 504" using arg_cong [OF c2(3), of length] assms(7) Cons by (simp add: full_text_def)
  from progress_finish [OF c2(2) this] obtain c' gs ms where "ctl_flushpkt ev 0 c2 = Some c'" "outbox (dm c') = outbox (dm c) @ ms" "sent_as c gs ms" "whole gs" "frag_text gs = frag_text fs2 @ pending c2 @ trailer c2 0"
    "res_frame c c'" "ctl_ok ev c'" "datapt c' = 0" by blast
  moreover have "frag_text fs2 @ pending c2 @ trailer c2 0 = full_text xs" using arg_cong [OF c2(3), of "\<lambda>t. t @ [13, 10]"] c2(4,5) Cons by (simp add: trailer_def full_text_def)
  moreover have "put_items ev xs c = Some c2" using Cons c1(1) c2(1) by simp
  ultimately show ?thesis by (intro exI [of _ c2] exI [of _ c'] exI [of _ gs] exI [of _ ms]) simp
qed

text \<open>An item that the packet has no room for writes over its end.\<close>

lemma put_sep_any:
  assumes "(if bin then Some c
           else let c = c\<lparr>datanotbinflag := True\<rparr>
                in if datapt c \<noteq> 0
                   then if b c then map_option (\<lambda>c. c\<lparr>datalinelen := 0\<rparr>) (poke [44, 13, 10] c)
                        else map_option (\<lambda>c. c\<lparr>datalinelen := s32 (datalinelen c + 2)\<rparr>) (poke [44, 32] c)
                   else Some c) = Some c1" "ctl_ok ev c" "datapt c \<le> 468"
  shows "ctl_ok ev c1 \<and> datapt c1 \<le> 471 \<and> res_offset c1 = res_offset c"
  using assms by (auto simp: poke_def write_at_def ctl_ok_def Let_def split: if_splits)

lemma ctl_putdata_overrun:
  assumes "ctl_ok ev c" "datapt c \<le> 468" "504 < length dp" "0 \<le> res_offset c" "res_offset c < 2 ^ 31 - 504"
  shows "ctl_putdata ev dp bin c = None"
proof (rule ccontr)
  assume "ctl_putdata ev dp bin c \<noteq> None"
  then obtain c1 c2 c3 where c: "(if bin then Some c
           else let c = c\<lparr>datanotbinflag := True\<rparr>
                in if datapt c \<noteq> 0
                   then if word_of_int (int (length dp) + (datalinelen c + 1) + 1) \<ge> MAXDATALINELEN
                        then map_option (\<lambda>c. c\<lparr>datalinelen := 0\<rparr>) (poke [44, 13, 10] c)
                        else map_option (\<lambda>c. c\<lparr>datalinelen := s32 (datalinelen c + 2)\<rparr>) (poke [44, 32] c)
                   else Some c) = Some c1" "(if length dp + (if bin then 0 else 3) + datapt c1 > CTL_MAX_DATA_LEN then ctl_flushpkt ev CTL_MORE c1 else Some c1) = Some c2" "poke dp c2 = Some c3"
    unfolding ctl_putdata_def by (auto simp: bind_eq_Some_conv simp del: not_None_eq simp flip: not_None_eq split: bind_splits)
  have c1: "ctl_ok ev c1" "datapt c1 \<le> 471" "res_offset c1 = res_offset c" using put_sep_any [OF c(1)] assms(1,2) by simp_all
  have "ctl_flushpkt ev CTL_MORE c1 = Some c2" using c(2) assms(3) by simp
  then have "length (c_data (rpkt c2)) = 504" using ctl_flush_ok [OF c1(1) _ c1(2), of CTL_MORE] c1(3) assms(4,5) by (auto simp: ctl_ok_def)
  then show False using c(3) assms(3) by (simp add: poke_def write_at_def)
qed

text \<open>C18: While a response is put together, an item of at most 465 octets is appended to what was put before, in the packet at hand or in the next one.  An item of more
  than 504 octets, such as a long variable of the configuration, is copied over the end of the packet: its length is compared with the room only to decide whether the packet at hand is sent first.\<close>

theorem response_item_bounds:
  assumes "progress ev c0 c fs" "0 \<le> datalinelen c" "datalinelen c \<le> 1000" "length (frag_text fs) < 2 ^ 31 - 504"
  shows "(length dp \<le> 465 \<longrightarrow> (\<exists>c' fs'. ctl_putdata ev dp False c = Some c' \<and> progress ev c0 c' fs' \<and>
      frag_text fs' @ pending c' = frag_text fs @ pending c @ put_sep c False (length dp) @ dp)) \<and>
    (504 < length dp \<longrightarrow> ctl_putdata ev dp False c = None)"
proof -
  have p: "ctl_ok ev c" "datapt c \<le> 468" "res_offset c = int (length (frag_text fs))" using assms(1) by (simp_all add: progress_def)
  have "ctl_putdata ev dp False c = None" if "504 < length dp" using ctl_putdata_overrun [OF p(1,2) that] p(3) assms(4) by simp
  moreover have "\<exists>c' fs'. ctl_putdata ev dp False c = Some c' \<and> progress ev c0 c' fs' \<and> frag_text fs' @ pending c' = frag_text fs @ pending c @ put_sep c False (length dp) @ dp" if "length dp \<le> 465"
    using ctl_putdata_ok [OF assms(1) _ assms(2-4), of dp False] that by auto
  ultimately show ?thesis by blast
qed

text \<open>A server without traps and variables, for examples.\<close>

definition idle_ctl :: ctl where
  "idle_ctl = \<lparr>dm = demo_daemon, rpkt = \<lparr>c_li_vn_mode = 0, c_r_m_e_op = 0, c_sequence = 0, c_status = 0, c_associd = 0, c_offset = 0, c_count = 0, c_data = replicate 504 0\<rparr>,
     res_version = 0, res_opcode = 0, res_associd = 0, res_frags = 0, res_offset = 0, datapt = 0, datalinelen = 0, datanotbinflag = False, rmt_addr = SA_UNSPEC, lcl_inter = 0,
     res_authenticate = False, res_authokay = False, res_keyid = 0, res_async = False, reqpt = [], ctl_auth_keyid = 0, ctl_traps = [], num_ctl_traps = 0, ctl_sys_last_event = 0,
     ctl_sys_num_events = 0, ext_sys_var = None, ctltimereset = 0, numctlreq = 0, numctlbadpkts = 0, numctlresponses = 0, numctlfrags = 0, numctlerrors = 0, numctltooshort = 0,
     numctlinputresp = 0, numctlinputfrag = 0, numctlinputerr = 0, numctlbadoffset = 0, numctlbadversion = 0, numctldatatooshort = 0, numctlbadop = 0, numasyncmsgs = 0\<rparr>"

theorem response_item_bounds_witness:
  "(\<exists>c'. ctl_putdata (\<lambda>_ _. None) (bytes ''a=1'') False idle_ctl = Some c' \<and> pending c' = bytes ''a=1'') \<and> ctl_putdata (\<lambda>_ _. None) (replicate 505 65) False idle_ctl = None"
proof -
  have "ctl_ok (\<lambda>_ _. None) idle_ctl" "datapt idle_ctl = 0" "res_offset idle_ctl = 0" by (simp_all add: ctl_ok_def idle_ctl_def)
  from progress_start [OF this] have p: "progress (\<lambda>_ _. None) idle_ctl idle_ctl []" .
  have l: "0 \<le> datalinelen idle_ctl" "datalinelen idle_ctl \<le> 1000" "length (frag_text []) < 2 ^ 31 - 504" by (simp_all add: idle_ctl_def)
  have s: "ctl_putdata (\<lambda>_ _. None) (replicate 505 65) False idle_ctl = None" using response_item_bounds [OF p l, of "replicate 505 65"] by simp
  have "map_option pending (ctl_putdata (\<lambda>_ _. None) (bytes ''a=1'') False idle_ctl) = Some (bytes ''a=1'')" by code_simp
  then show ?thesis using s by auto
qed

end
