(* ===== verification/Ctl_Vars.thy ===== *)
theory Ctl_Vars
  imports Ctl_Response
begin

text \<open>
  The variables of control messages in \<^verbatim>\<open>ntpd/ntp_control.c\<close>: the tables of their names, the status words, the reader of the items of a request and the
  list of variables that the configuration sets.  A list of variables ends where the code has an entry with \<^verbatim>\<open>EOV\<close>; text is without its
  terminating zero.  Every entry has a text, as every entry that the code makes.
\<close>

unbundle bit_operations_syntax

section \<open>Tables\<close>

abbreviation (input) "CAN_WRITE \<equiv> 0x02 :: u_short"
abbreviation (input) "DEF \<equiv> 0x20 :: u_short"
abbreviation (input) "PADDING \<equiv> 0x40 :: u_short"
abbreviation (input) "RO \<equiv> 0x01 :: u_short"
abbreviation (input) "RW \<equiv> 0x03 :: u_short"
abbreviation (input) "CS_MAXCODE \<equiv> 88 :: nat"
abbreviation (input) "CS_VARLIST \<equiv> 19 :: nat"
abbreviation (input) "CP_MAXCODE \<equiv> 50 :: nat"
abbreviation (input) "CC_MAXCODE \<equiv> 13 :: nat"
abbreviation (input) "CERR_UNSPEC \<equiv> 0 :: u_char"
abbreviation (input) "CERR_PERMISSION \<equiv> 1 :: u_char"
abbreviation (input) "CERR_BADFMT \<equiv> 2 :: u_char"
abbreviation (input) "CERR_BADOP \<equiv> 3 :: u_char"
abbreviation (input) "CERR_BADASSOC \<equiv> 4 :: u_char"
abbreviation (input) "CERR_UNKNOWNVAR \<equiv> 5 :: u_char"
abbreviation (input) "CERR_BADVALUE \<equiv> 6 :: u_char"
abbreviation (input) "CERR_NORESOURCE \<equiv> 1 :: u_char"

definition var_entry :: "u_short \<Rightarrow> u_short \<Rightarrow> string \<Rightarrow> ctl_var" where
  "var_entry code fl name = \<lparr>cv_code = code, cv_flags = fl, cv_text = bytes name\<rparr>"

definition sys_var :: "ctl_var list" where
  "sys_var = [
     var_entry 0 PADDING '''', var_entry 1 RW ''leap'', var_entry 2 RO ''stratum'', var_entry 3 RO ''precision'', var_entry 4 RO ''rootdelay'',
     var_entry 5 RO ''rootdisp'', var_entry 6 RO ''refid'', var_entry 7 RO ''reftime'', var_entry 8 RO ''tc'', var_entry 9 RO ''peer'', var_entry 10 RO ''offset'',
     var_entry 11 RO ''frequency'', var_entry 12 RO ''sys_jitter'', var_entry 13 RO ''clk_jitter'', var_entry 14 RO ''clock'', var_entry 15 RO ''processor'',
     var_entry 16 RO ''system'', var_entry 17 RO ''version'', var_entry 18 RO ''clk_wander'', var_entry 19 RO ''sys_var_list'', var_entry 20 RO ''tai'',
     var_entry 21 RO ''leapsec'', var_entry 22 RO ''expire'', var_entry 23 RO ''mintc'', var_entry 24 RO ''mru_enabled'', var_entry 25 RO ''mru_depth'',
     var_entry 26 RO ''mru_deepest'', var_entry 27 RO ''mru_mindepth'', var_entry 28 RO ''mru_maxage'', var_entry 29 RO ''mru_maxdepth'', var_entry 30 RO ''mru_mem'',
     var_entry 31 RO ''mru_maxmem'', var_entry 32 RO ''ss_uptime'', var_entry 33 RO ''ss_reset'', var_entry 34 RO ''ss_received'', var_entry 35 RO ''ss_thisver'',
     var_entry 36 RO ''ss_oldver'', var_entry 37 RO ''ss_badformat'', var_entry 38 RO ''ss_badauth'', var_entry 39 RO ''ss_declined'', var_entry 40 RO ''ss_restricted'',
     var_entry 41 RO ''ss_limited'', var_entry 42 RO ''ss_kodsent'', var_entry 43 RO ''ss_processed'', var_entry 44 RO ''peeradr'', var_entry 45 RO ''peermode'',
     var_entry 46 RO ''bcastdelay'', var_entry 47 RO ''authdelay'', var_entry 48 RO ''authkeys'', var_entry 49 RO ''authfreek'', var_entry 50 RO ''authklookups'',
     var_entry 51 RO ''authknotfound'', var_entry 52 RO ''authkuncached'', var_entry 53 RO ''authkexpired'', var_entry 54 RO ''authencrypts'',
     var_entry 55 RO ''authdecrypts'', var_entry 56 RO ''authreset'', var_entry 57 RO ''koffset'', var_entry 58 RO ''kfreq'', var_entry 59 RO ''kmaxerr'',
     var_entry 60 RO ''kesterr'', var_entry 61 RO ''kstflags'', var_entry 62 RO ''ktimeconst'', var_entry 63 RO ''kprecis'', var_entry 64 RO ''kfreqtol'',
     var_entry 65 RO ''kppsfreq'', var_entry 66 RO ''kppsstab'', var_entry 67 RO ''kppsjitter'', var_entry 68 RO ''kppscalibdur'', var_entry 69 RO ''kppscalibs'',
     var_entry 70 RO ''kppscaliberrs'', var_entry 71 RO ''kppsjitexc'', var_entry 72 RO ''kppsstbexc'', var_entry 73 RO ''iostats_reset'', var_entry 74 RO ''total_rbuf'',
     var_entry 75 RO ''free_rbuf'', var_entry 76 RO ''used_rbuf'', var_entry 77 RO ''rbuf_lowater'', var_entry 78 RO ''io_dropped'', var_entry 79 RO ''io_ignored'',
     var_entry 80 RO ''io_received'', var_entry 81 RO ''io_sent'', var_entry 82 RO ''io_sendfailed'', var_entry 83 RO ''io_wakeups'', var_entry 84 RO ''io_goodwakeups'',
     var_entry 85 RO ''timerstats_reset'', var_entry 86 RO ''timer_overruns'', var_entry 87 RO ''timer_xmts'', var_entry 88 RO ''fuzz'']"

definition peer_var :: "ctl_var list" where
  "peer_var = [
     var_entry 0 PADDING '''', var_entry 1 RO ''config'', var_entry 2 RO ''authenable'', var_entry 3 RO ''authentic'', var_entry 4 RO ''srcadr'',
     var_entry 5 RO ''srcport'', var_entry 6 RO ''dstadr'', var_entry 7 RO ''dstport'', var_entry 8 RO ''leap'', var_entry 9 RO ''hmode'', var_entry 10 RO ''stratum'',
     var_entry 11 RO ''ppoll'', var_entry 12 RO ''hpoll'', var_entry 13 RO ''precision'', var_entry 14 RO ''rootdelay'', var_entry 15 RO ''rootdisp'',
     var_entry 16 RO ''refid'', var_entry 17 RO ''reftime'', var_entry 18 RO ''org'', var_entry 19 RO ''rec'', var_entry 20 RO ''xleave'', var_entry 21 RO ''reach'',
     var_entry 22 RO ''unreach'', var_entry 23 RO ''timer'', var_entry 24 RO ''delay'', var_entry 25 RO ''offset'', var_entry 26 RO ''jitter'',
     var_entry 27 RO ''dispersion'', var_entry 28 RO ''keyid'', var_entry 29 RO ''filtdelay'', var_entry 30 RO ''filtoffset'', var_entry 31 RO ''pmode'',
     var_entry 32 RO ''received'', var_entry 33 RO ''sent'', var_entry 34 RO ''filtdisp'', var_entry 35 RO ''flash'', var_entry 36 RO ''ttl'',
     var_entry 37 RO ''peer_var_list'', var_entry 38 RO ''in'', var_entry 39 RO ''out'', var_entry 40 RO ''headway'', var_entry 41 RO ''bias'',
     var_entry 42 RO ''srchost'', var_entry 43 RO ''timerec'', var_entry 44 RO ''timereach'', var_entry 45 RO ''badauth'', var_entry 46 RO ''bogusorg'',
     var_entry 47 RO ''oldpkt'', var_entry 48 RO ''seldisp'', var_entry 49 RO ''selbroken'', var_entry 50 RO ''candidate'']"

definition clock_var :: "ctl_var list" where
  "clock_var = [
     var_entry 0 PADDING '''', var_entry 1 RO ''type'', var_entry 2 RO ''timecode'', var_entry 3 RO ''poll'', var_entry 4 RO ''noreply'', var_entry 5 RO ''badformat'',
     var_entry 6 RO ''baddata'', var_entry 7 RO ''fudgetime1'', var_entry 8 RO ''fudgetime2'', var_entry 9 RO ''stratum'', var_entry 10 RO ''refid'',
     var_entry 11 RO ''flags'', var_entry 12 RO ''device'', var_entry 13 RO ''clock_var_list'']"

definition def_sys_var :: "nat list" where
  "def_sys_var = [17, 15, 16, 1, 2, 3, 4, 5, 6, 7, 14, 9, 8, 23, 10, 11, 12, 13, 18, 20, 21, 22]"

definition def_peer_var :: "nat list" where
  "def_peer_var = [4, 5, 42, 6, 7, 39, 38, 8, 10, 13, 14, 15, 16, 17, 19, 21, 22, 9, 31, 12, 11, 40, 35, 28, 36, 25, 24, 27, 26, 20, 41, 29, 30, 34]"

definition def_clock_var :: "nat list" where
  "def_clock_var = [12, 1, 2, 3, 4, 5, 6, 7, 8, 9, 10, 11]"

definition clocktypes :: "u_char list" where
  "clocktypes = [6, 5, 4, 3, 2, 4, 4, 3, 2, 2, 4, 4, 4, 1, 2, 6, 4, 4, 9, 3, 4, 4, 1, 6, 6, 6, 4, 2, 4, 4, 4, 4, 2, 2, 2, 2, 3, 2, 4, 4, 2, 4, 4, 4, 4, 4]"

section \<open>Status words\<close>

definition CTL_SYS_STATUS :: "u_char \<Rightarrow> u_char \<Rightarrow> u_char \<Rightarrow> u_char \<Rightarrow> u_short" where
  "CTL_SYS_STATUS li source nevnt evnt =
     (push_bit 14 (ucast li) AND 0xc000) OR (push_bit 8 (ucast source) AND 0x3f00) OR (push_bit 4 (ucast nevnt) AND 0x00f0) OR (ucast evnt AND 0x000f)"

definition CTL_PEER_STATUS :: "u_short \<Rightarrow> u_char \<Rightarrow> u_char \<Rightarrow> u_short" where
  "CTL_PEER_STATUS st nevnt evnt = (push_bit 8 st AND 0xff00) OR (push_bit 4 (ucast nevnt) AND 0x00f0) OR (ucast evnt AND 0x000f)"

definition ctlpeerstatus :: "peer \<Rightarrow> u_short" where
  "ctlpeerstatus p =
     CTL_PEER_STATUS
       (ucast (status p) OR (if FLAG_CONFIG AND pflags p \<noteq> 0 then 0x80 else 0) OR (if pkeyid p \<noteq> 0 then 0x40 else 0) OR
        (if FLAG_AUTHENTIC AND pflags p \<noteq> 0 then 0x20 else 0) OR (if reach p \<noteq> 0 then 0x10 else 0) OR
        (if MDF_TXONLY_MASK AND cast_flags p \<noteq> 0 then 0x08 else 0))
       (num_events p) (last_event p)"

definition ctlclkstatus :: "u_char \<Rightarrow> u_char \<Rightarrow> u_short" where
  "ctlclkstatus lastevent currentstatus = CTL_PEER_STATUS 0 lastevent currentstatus"

definition ctlsysstatus :: "ctl \<Rightarrow> u_short" where
  "ctlsysstatus c =
     (let this_clock = (case sys_peer (dm c) of
                          None \<Rightarrow> 0
                        | Some p \<Rightarrow>
                            let q = peer_mem (peers (dm c)) p
                            in if sstclktype q \<noteq> 0 then sstclktype q
                               else if unat (refclktype q) < length clocktypes then clocktypes ! unat (refclktype q) else 0)
      in CTL_SYS_STATUS (sys_leap (dm c)) this_clock (ctl_sys_num_events c) (ctl_sys_last_event c))"

section \<open>Items of a request\<close>

text \<open>The comparison of a name: to its end, or to an equals sign.\<close>

fun match_name :: "u_char list \<Rightarrow> u_char list \<Rightarrow> u_char list option" where
  "match_name [] cp = Some cp"
| "match_name (p # ps) cp =
     (if p = 61 then Some cp
      else case cp of [] \<Rightarrow> None | b # r \<Rightarrow> if b = p then match_name ps r else None)"

datatype matched = No_match | Match "u_char list" "u_char list" | Too_long

definition c_string :: "u_char list \<Rightarrow> u_char list" where
  "c_string bs = takeWhile (\<lambda>b. b \<noteq> 0) bs"

definition match_var :: "u_char list \<Rightarrow> ctl_var \<Rightarrow> matched" where
  "match_var req v =
     (if PADDING AND cv_flags v \<noteq> 0 \<or> hd req \<noteq> hd (cv_text v @ [0]) then No_match
      else case match_name (cv_text v) req of
             None \<Rightarrow> No_match
           | Some cp \<Rightarrow>
               let cp = dropWhile (\<lambda>b. isspace_b b) cp
               in if cp = [] \<or> hd cp = 44 then Match [] (tl cp)
                  else if hd cp = 61
                  then let cp = dropWhile (\<lambda>b. isspace_b b) (tl cp); raw = takeWhile (\<lambda>b. b \<noteq> 44) cp; cp = drop (length raw) cp
                       in if length raw \<ge> 128 then Too_long else Match (c_string (strip_end raw)) (tl cp)
                  else No_match)"

datatype item_found = Item_none | Item_eov | Item ctl_var "u_char list"

fun match_list :: "u_char list \<Rightarrow> ctl_var list \<Rightarrow> (ctl_var \<times> matched) option" where
  "match_list req [] = None"
| "match_list req (v # vs) = (case match_var req v of No_match \<Rightarrow> match_list req vs | m \<Rightarrow> Some (v, m))"

definition ctl_getitem :: "(int \<Rightarrow> u_char list \<Rightarrow> u_char list option) \<Rightarrow> ctl_var list option \<Rightarrow> ctl \<Rightarrow> (item_found \<times> ctl) option" where
  "ctl_getitem ev var_list c =
     (let c = c\<lparr>reqpt := dropWhile (\<lambda>b. b = 44 \<or> isspace_b b) (reqpt c)\<rparr>
      in if reqpt c = [] then Some (Item_none, c)
         else case var_list of
                None \<Rightarrow> Some (Item_eov, c)
              | Some vs \<Rightarrow>
                  (case match_list (reqpt c) vs of
                     Some (v, Match data rest) \<Rightarrow> Some (Item v data, c\<lparr>reqpt := rest\<rparr>)
                   | Some (v, Too_long) \<Rightarrow> do { c \<leftarrow> ctl_error ev CERR_BADFMT c; Some (Item_none, c\<lparr>numctlbadpkts := numctlbadpkts c + 1\<rparr>) }
                   | _ \<Rightarrow> Some (Item_eov, c)))"

section \<open>Variables set by the configuration\<close>

definition ext_list :: "ctl_var list option \<Rightarrow> ctl_var list" where
  "ext_list kv = (case kv of None \<Rightarrow> [] | Some vs \<Rightarrow> vs)"

definition count_var :: "ctl_var list option \<Rightarrow> u_short option" where
  "count_var k = (case k of None \<Rightarrow> Some 0 | Some vs \<Rightarrow> if length vs \<le> 65535 then Some (of_nat (length vs)) else None)"

definition add_var :: "ctl_var list option \<Rightarrow> u_char list \<Rightarrow> u_short \<Rightarrow> ctl_var list option option" where
  "add_var kv text fl = do {
     n \<leftarrow> count_var kv;
     Some (Some (ext_list kv @ [\<lparr>cv_code = n, cv_flags = fl, cv_text = text\<rparr>]))
   }"

text \<open>Whether two texts, with their terminating zeros, name the same variable; \<open>None\<close> when the comparison runs on behind both.\<close>

fun same_var :: "u_char list \<Rightarrow> u_char list \<Rightarrow> bool option" where
  "same_var (s # ss) (t # ts) = (if t \<noteq> 61 \<and> s = t then same_var ss ts else Some (s = t \<and> (t = 61 \<or> t = 0)))"
| "same_var _ _ = None"

fun replace_var :: "u_char list \<Rightarrow> u_short \<Rightarrow> ctl_var list \<Rightarrow> ctl_var list option option" where
  "replace_var data fl [] = Some None"
| "replace_var data fl (k # ks) =
     (case same_var (data @ [0]) (cv_text k @ [0]) of
        None \<Rightarrow> None
      | Some True \<Rightarrow> Some (Some (k\<lparr>cv_text := data, cv_flags := fl\<rparr> # ks))
      | Some False \<Rightarrow> map_option (map_option ((#) k)) (replace_var data fl ks))"

definition set_var :: "ctl_var list option \<Rightarrow> u_char list \<Rightarrow> u_short \<Rightarrow> ctl_var list option option" where
  "set_var kv data fl =
     (case kv of
        None \<Rightarrow> add_var kv data fl
      | Some vs \<Rightarrow> (case replace_var data fl vs of None \<Rightarrow> None | Some (Some vs') \<Rightarrow> Some (Some vs') | Some None \<Rightarrow> add_var kv data fl))"

definition set_sys_var :: "u_char list \<Rightarrow> u_short \<Rightarrow> ctl \<Rightarrow> ctl option" where
  "set_sys_var data fl c = map_option (\<lambda>kv. c\<lparr>ext_sys_var := kv\<rparr>) (set_var (ext_sys_var c) data fl)"

text \<open>The value of a variable; the list itself must exist.\<close>

fun find_ext_var :: "u_char list \<Rightarrow> ctl_var list \<Rightarrow> u_char list option" where
  "find_ext_var tag [] = None"
| "find_ext_var tag (v # vs) =
     (if take (length tag) (cv_text v) = tag
      then case drop (length tag) (cv_text v) of
             [] \<Rightarrow> Some []
           | b # r \<Rightarrow> if b = 61 then Some r else find_ext_var tag vs
      else find_ext_var tag vs)"

definition get_ext_sys_var :: "u_char list \<Rightarrow> ctl \<Rightarrow> u_char list option option" where
  "get_ext_sys_var tag c = map_option (find_ext_var tag) (ext_sys_var c)"

section \<open>Progress through a request\<close>

lemma match_name_le: "match_name p cp = Some r \<Longrightarrow> length r \<le> length cp"
  by (induction p cp rule: match_name.induct) (force split: if_splits list.splits)+

lemma match_var_less: "match_var req v = Match d r \<Longrightarrow> req \<noteq> [] \<Longrightarrow> length r < length req"
proof -
  assume a: "match_var req v = Match d r" "req \<noteq> []"
  then obtain cp where m: "match_name (cv_text v) req = Some cp" by (auto simp: match_var_def split: if_splits option.splits)
  let ?c = "dropWhile (\<lambda>b. isspace_b b) cp"
  have l: "length ?c \<le> length req" using match_name_le [OF m] length_dropWhile_le [of _ cp] by (meson le_trans)
  have "r = tl ?c \<or> ?c \<noteq> [] \<and> (\<exists>n k. r = tl (drop n (drop k (tl ?c))))"
  proof -
    have "dropWhile P xs = drop (length (takeWhile P xs)) xs" for P and xs :: "u_char list" by (rule dropWhile_eq_drop)
    then show ?thesis using a(1) m by (auto simp: match_var_def Let_def split: if_splits)
  qed
  then have "length r \<le> length ?c - 1" by auto
  then show ?thesis using l a(2) by (cases req) auto
qed

lemma match_list_Match: "match_list req vs = Some (v, m) \<Longrightarrow> m \<noteq> No_match \<and> match_var req v = m \<and> v \<in> set vs"
  by (induction vs) (auto split: matched.splits)

text \<open>An item that was found was taken from the request; one that was not is still there.\<close>

lemma ctl_getitem_Item:
  assumes "ctl_getitem ev vl c = Some (Item v d, c')"
  shows "length (reqpt c') < length (reqpt c)" "c' = c\<lparr>reqpt := reqpt c'\<rparr>" "\<exists>vs. vl = Some vs \<and> v \<in> set vs" "length d < 128" "0 \<notin> set d"
proof -
  define r where "r = dropWhile (\<lambda>b. b = 44 \<or> isspace_b b) (reqpt c)"
  obtain vs rest where m: "r \<noteq> []" "vl = Some vs" "match_list r vs = Some (v, Match d rest)" "c' = c\<lparr>reqpt := rest\<rparr>"
    using assms by (auto simp: ctl_getitem_def Let_def r_def [symmetric] split: if_splits option.splits matched.splits prod.splits bind_splits)
  note ml = match_list_Match [OF m(3)]
  show "length (reqpt c') < length (reqpt c)" using match_var_less [of r v d rest] ml m(1,4) length_dropWhile_le [of "\<lambda>b. b = 44 \<or> isspace_b b" "reqpt c"] by (simp add: r_def)
  show "c' = c\<lparr>reqpt := reqpt c'\<rparr>" "\<exists>vs. vl = Some vs \<and> v \<in> set vs" using m(2,4) ml by auto
  have "d = [] \<or> (\<exists>raw. length raw < 128 \<and> d = c_string (strip_end raw))" using ml by (auto simp: match_var_def Let_def not_le split: if_splits option.splits)
  moreover have "length (c_string (strip_end raw)) \<le> length raw" for raw
    using length_takeWhile_le [of "\<lambda>b. b \<noteq> 0" "strip_end raw"] length_dropWhile_le [of "\<lambda>b. isspace_b b" "rev raw"] by (simp add: c_string_def strip_end_def)
  ultimately show "length d < 128" by (auto intro: le_less_trans)
  show "0 \<notin> set d" using \<open>d = [] \<or> _\<close> by (auto simp: c_string_def dest: set_takeWhileD)
qed

lemma ctl_getitem_eov:
  assumes "ctl_getitem ev vl c = Some (Item_eov, c')"
  shows "length (reqpt c') \<le> length (reqpt c)" "c' = c\<lparr>reqpt := reqpt c'\<rparr>" "reqpt c' \<noteq> []"
proof -
  define r where "r = dropWhile (\<lambda>b. b = 44 \<or> isspace_b b) (reqpt c)"
  have "r \<noteq> []" "c' = c\<lparr>reqpt := r\<rparr>"
    using assms by (auto simp: ctl_getitem_def Let_def r_def [symmetric] split: if_splits option.splits matched.splits prod.splits bind_splits)
  then show "length (reqpt c') \<le> length (reqpt c)" "c' = c\<lparr>reqpt := reqpt c'\<rparr>" "reqpt c' \<noteq> []"
    using length_dropWhile_le [of "\<lambda>b. b = 44 \<or> isspace_b b" "reqpt c"] by (simp_all add: r_def)
qed

section \<open>The list of variables as a map\<close>

text \<open>The name of a variable is its text up to the equals sign.  A text is well formed when it has one and a name, as every text that
  \<^verbatim>\<open>setvar\<close>, \<^verbatim>\<open>write_variables\<close> and \<^verbatim>\<open>save_config\<close> make.\<close>

definition text_ok :: "u_char list \<Rightarrow> bool" where
  "text_ok t \<longleftrightarrow> 61 \<in> set t \<and> 0 \<notin> set t"

definition vname :: "u_char list \<Rightarrow> u_char list" where
  "vname t = takeWhile (\<lambda>b. b \<noteq> 61) t"

definition vvalue :: "u_char list \<Rightarrow> u_char list" where
  "vvalue t = tl (dropWhile (\<lambda>b. b \<noteq> 61) t)"

definition vars_map :: "ctl_var list option \<Rightarrow> u_char list \<Rightarrow> u_char list option" where
  "vars_map kv n = map_option (\<lambda>v. vvalue (cv_text v)) (find (\<lambda>v. vname (cv_text v) = n) (ext_list kv))"

definition vars_ok :: "ctl_var list option \<Rightarrow> bool" where
  "vars_ok kv \<longleftrightarrow> (\<forall>v\<in>set (ext_list kv). text_ok (cv_text v)) \<and> length (ext_list kv) \<le> 65535 \<and>
     distinct (map (vname \<circ> cv_text) (ext_list kv)) \<and>
     (\<forall>i<length (ext_list kv). cv_code ((ext_list kv) ! i) = of_nat i)"

lemma same_var_names: "61 \<in> set s \<Longrightarrow> 61 \<in> set t \<Longrightarrow> 0 \<notin> set s \<Longrightarrow> 0 \<notin> set t \<Longrightarrow> same_var (s @ [0]) (t @ [0]) = Some (vname s = vname t)"
proof (induction s arbitrary: t)
  case (Cons a s)
  obtain b t' where t: "t = b # t'" using Cons.prems(2) by (cases t) auto
  show ?case
  proof (cases "b = 61")
    case True
    then show ?thesis using Cons.prems t by (auto simp: vname_def)
  next
    case b: False
    show ?thesis
    proof (cases "a = b")
      case True
      then show ?thesis using Cons.IH [of t'] Cons.prems b t by (auto simp: vname_def)
    next
      case False
      then show ?thesis using Cons.prems b t by (auto simp: vname_def)
    qed
  qed
qed simp

lemma replace_var_eq:
  assumes "text_ok d" "\<forall>v\<in>set vs. text_ok (cv_text v)"
  shows "replace_var d fl vs = Some (if vname d \<in> (vname \<circ> cv_text) ` set vs
    then Some (takeWhile (\<lambda>v. vname (cv_text v) \<noteq> vname d) vs @ (hd (dropWhile (\<lambda>v. vname (cv_text v) \<noteq> vname d) vs))\<lparr>cv_text := d, cv_flags := fl\<rparr> # tl (dropWhile (\<lambda>v. vname (cv_text v) \<noteq> vname d) vs)) else None)"
  using assms(2)
proof (induction vs)
  case (Cons v vs)
  have "same_var (d @ [0]) (cv_text v @ [0]) = Some (vname d = vname (cv_text v))" using same_var_names assms(1) Cons.prems by (auto simp: text_ok_def)
  then show ?case using Cons by auto
qed simp

text \<open>Setting a variable changes the value of its name and of no other, and keeps the list well formed: a name occurs once, and the code of a variable is its
  position.\<close>

lemma set_var_refines:
  assumes "vars_ok kv" "text_ok d" "length (ext_list kv) < 65535"
  shows "\<exists>kv'. set_var kv d fl = Some kv' \<and> vars_ok kv' \<and> vars_map kv' = (vars_map kv)(vname d \<mapsto> vvalue d)"
proof -
  define vs where "vs = ext_list kv"
  have ok: "\<forall>v\<in>set vs. text_ok (cv_text v)" "distinct (map (vname \<circ> cv_text) vs)" "\<forall>i<length vs. cv_code (vs ! i) = of_nat i" "length vs < 65535"
    using assms(1,3) by (simp_all add: vars_ok_def vs_def ext_list_def)
  show ?thesis
  proof (cases "vname d \<in> (vname \<circ> cv_text) ` set vs")
    case False
    let ?kv = "Some (vs @ [\<lparr>cv_code = of_nat (length vs), cv_flags = fl, cv_text = d\<rparr>])"
    have "set_var kv d fl = Some ?kv"
      using False replace_var_eq [OF assms(2) ok(1), of fl] ok(4) by (cases kv) (auto simp: set_var_def add_var_def count_var_def vs_def ext_list_def)
    moreover have "vars_ok ?kv" using ok False assms(2) by (auto simp: vars_ok_def ext_list_def nth_append less_Suc_eq)
    moreover have "find (\<lambda>v. vname (cv_text v) = n) (vs @ [w]) = (case find (\<lambda>v. vname (cv_text v) = n) vs of None \<Rightarrow> find (\<lambda>v. vname (cv_text v) = n) [w] | Some v \<Rightarrow> Some v)" for n w
      by (induction vs) auto
    moreover have "find (\<lambda>v. vname (cv_text v) = vname d) vs = None" using False by (force simp: find_None_iff)
    ultimately show ?thesis by (intro exI [of _ ?kv]) (auto simp: vars_map_def vs_def [symmetric] ext_list_def [of "Some _"] fun_eq_iff split: option.splits)
  next
    case True
    let ?P = "\<lambda>v. vname (cv_text v) \<noteq> vname d"
    obtain a w b where s: "vs = a @ w # b" "vname (cv_text w) = vname d" "\<forall>v\<in>set a. ?P v" using split_list_first_prop [of vs "\<lambda>v. \<not> ?P v"] True by fastforce
    have tw: "takeWhile ?P vs = a" "dropWhile ?P vs = w # b" using s by (simp_all add: takeWhile_append2 dropWhile_append2)
    let ?w = "w\<lparr>cv_text := d, cv_flags := fl\<rparr>"
    have "set_var kv d fl = Some (Some (a @ ?w # b))" using True replace_var_eq [OF assms(2) ok(1), of fl] unfolding tw by (cases kv) (auto simp: set_var_def vs_def ext_list_def)
    moreover have "vars_ok (Some (a @ ?w # b))"
    proof -
      have "cv_code ((a @ ?w # b) ! i) = cv_code (vs ! i)" for i by (simp add: s(1) nth_append nth_Cons split: nat.split)
      then show ?thesis using ok assms(2) s by (auto simp: vars_ok_def ext_list_def)
    qed
    moreover have "vars_map (Some (a @ ?w # b)) = (vars_map kv)(vname d \<mapsto> vvalue d)"
    proof -
      have "find (\<lambda>v. vname (cv_text v) = n) (a @ r) = (case find (\<lambda>v. vname (cv_text v) = n) a of None \<Rightarrow> find (\<lambda>v. vname (cv_text v) = n) r | Some v \<Rightarrow> Some v)" for n r
        by (induction a) auto
      moreover have "find (\<lambda>v. vname (cv_text v) = vname d) a = None" using s(3) by (auto simp: find_None_iff)
      ultimately show ?thesis using s(2) by (auto simp: vars_map_def vs_def [symmetric] ext_list_def [of "Some _"] s(1) fun_eq_iff split: option.splits)
    qed
    ultimately show ?thesis by blast
  qed
qed

lemma find_ext_var_eq:
  assumes "\<forall>v\<in>set vs. text_ok (cv_text v)" "61 \<notin> set tag"
  shows "find_ext_var tag vs = map_option (\<lambda>v. vvalue (cv_text v)) (find (\<lambda>v. vname (cv_text v) = tag) vs)"
  using assms(1)
proof (induction vs)
  case (Cons v vs)
  let ?t = "cv_text v"
  have t: "?t = vname ?t @ 61 # vvalue ?t" "61 \<notin> set (vname ?t)"
  proof -
    have "dropWhile (\<lambda>b. b \<noteq> 61) ?t \<noteq> []" using Cons.prems by (auto simp: text_ok_def)
    moreover from this have "hd (dropWhile (\<lambda>b. b \<noteq> 61) ?t) = 61" using hd_dropWhile by blast
    ultimately have "dropWhile (\<lambda>b. b \<noteq> 61) ?t = 61 # vvalue ?t" unfolding vvalue_def by (metis list.collapse)
    then show "?t = vname ?t @ 61 # vvalue ?t" unfolding vname_def by (metis takeWhile_dropWhile_id)
    show "61 \<notin> set (vname ?t)" by (auto simp: vname_def dest: set_takeWhileD)
  qed
  show ?case
  proof (cases "vname ?t = tag")
    case True
    then have "take (length tag) ?t = tag" "drop (length tag) ?t = 61 # vvalue ?t" using t(1) by (metis append_eq_conv_conj)+
    then show ?thesis using True by simp
  next
    case False
    have "take (length tag) ?t = tag \<Longrightarrow> drop (length tag) ?t \<noteq> [] \<and> hd (drop (length tag) ?t) \<noteq> 61"
    proof -
      assume a: "take (length tag) ?t = tag"
      then have e: "?t = tag @ drop (length tag) ?t" by (metis append_take_drop_id)
      have "drop (length tag) ?t \<noteq> []" using e assms(2) Cons.prems by (auto simp: text_ok_def)
      moreover have "hd (drop (length tag) ?t) \<noteq> 61"
      proof
        assume "hd (drop (length tag) ?t) = 61"
        then obtain r where "?t = tag @ 61 # r" using e calculation by (metis list.collapse)
        then have "vname ?t = tag" using assms(2) by (subst vname_def) (metis (mono_tags, lifting) takeWhile_append2 takeWhile.simps(2) append_Nil2)
        then show False using False by simp
      qed
      ultimately show ?thesis by simp
    qed
    then show ?thesis using False Cons by (auto split: list.splits)
  qed
qed simp

text \<open>C17: The list of variables is a map from names to values: setting a variable returns, a lookup of its name then gives its value and every other lookup what it gave before,
  each name is in the list once, and its code is its position.  Texts have an equals sign and the list is not full.\<close>

theorem setvar_then_lookup:
  assumes "vars_ok (ext_sys_var c)" "text_ok d" "length (ext_list (ext_sys_var c)) < 65535" "61 \<notin> set n"
  shows "\<exists>c'. set_sys_var d fl c = Some c' \<and> vars_ok (ext_sys_var c') \<and>
    get_ext_sys_var n c' = Some (if n = vname d then Some (vvalue d) else find_ext_var n (ext_list (ext_sys_var c)))"
proof -
  obtain kv where kv: "set_var (ext_sys_var c) d fl = Some kv" "vars_ok kv" "vars_map kv = (vars_map (ext_sys_var c))(vname d \<mapsto> vvalue d)"
    using set_var_refines [OF assms(1-3)] by blast
  have m: "find_ext_var n (ext_list k) = vars_map k n" if "vars_ok k" for k
    using find_ext_var_eq [of "ext_list k" n] that assms(4) by (auto simp: vars_ok_def vars_map_def)
  obtain vs where vs: "kv = Some vs"
  proof (cases kv)
    case None
    then have "vars_map kv (vname d) = None" by (simp add: vars_map_def ext_list_def)
    then show thesis using kv(3) by simp
  qed
  have "find_ext_var n vs = (if n = vname d then Some (vvalue d) else vars_map (ext_sys_var c) n)"
    using m [OF kv(2)] kv(3) by (simp add: vs ext_list_def)
  then show ?thesis using kv(1,2) m [OF assms(1)] by (simp add: set_sys_var_def get_ext_sys_var_def vs)
qed

theorem setvar_then_lookup_witness:
  "\<exists>c'. set_sys_var (bytes ''a=2'') 1 (idle_ctl\<lparr>ext_sys_var := Some [\<lparr>cv_code = 0, cv_flags = 1, cv_text = bytes ''a=1''\<rparr>]\<rparr>) = Some c' \<and> get_ext_sys_var (bytes ''a'') c' = Some (Some (bytes ''2''))"
proof -
  let ?c = "idle_ctl\<lparr>ext_sys_var := Some [\<lparr>cv_code = 0, cv_flags = 1, cv_text = bytes ''a=1''\<rparr>]\<rparr>"
  have "vars_ok (ext_sys_var ?c)" "text_ok (bytes ''a=2'')" "length (ext_list (ext_sys_var ?c)) < 65535" "61 \<notin> set (bytes ''a'')"
    by (simp_all add: vars_ok_def ext_list_def text_ok_def bytes_def)
  from setvar_then_lookup [OF this, of 1] show ?thesis by (auto simp: vname_def vvalue_def bytes_def)
qed

end
