(* ===== verification/NTP_Control.thy ===== *)
theory NTP_Control
  imports Ctl_Vars
begin

text \<open>
  Control messages in \<^verbatim>\<open>ntpd/ntp_control.c\<close>: traps and events, the handlers of the operations, and \<^verbatim>\<open>process_control\<close>, which checks a
  message, authenticates it and calls the handler.  What \<^verbatim>\<open>ctl_putsys\<close>, \<^verbatim>\<open>ctl_putpeer\<close> and \<^verbatim>\<open>ctl_putclock\<close> put for a variable, the parser of run
  time configuration, and the handlers of \<^verbatim>\<open>saveconfig\<close>, \<^verbatim>\<open>mrulist\<close> and \<^verbatim>\<open>ordlist\<close> are parts of the environment.  The log and
  \<^verbatim>\<open>protostats\<close> are left out.
\<close>

unbundle bit_operations_syntax

section \<open>Environment\<close>

abbreviation (input) "CTL_MAXTRAPS \<equiv> 3 :: nat"
abbreviation (input) "CTL_TRAPTIME \<equiv> 3600 :: u_int64"
abbreviation (input) "CTL_MAXEVENTS \<equiv> 15 :: u_char"
abbreviation (input) "CTL_OP_ASYNCMSG \<equiv> 7 :: u_char"
abbreviation (input) "PEER_EVENT \<equiv> 0x80 :: int"
abbreviation (input) "PEVNT_CLOCK \<equiv> 0x8b :: int"
abbreviation (input) "RES_NOTRAP \<equiv> 0x0100 :: u_short"
abbreviation (input) "RES_LPTRAP \<equiv> 0x0200 :: u_short"

record clock_stat =
  cs_lastevent :: u_char
  cs_currentstatus :: u_char
  cs_kv_list :: "ctl_var list option"

record cenv =
  ctl_evp :: "int \<Rightarrow> u_char list \<Rightarrow> u_char list option"
  ctl_now :: u_int64
  sys_items :: "nat \<Rightarrow> ctl \<Rightarrow> u_char list list"
  peer_items :: "nat \<Rightarrow> addr \<Rightarrow> ctl \<Rightarrow> u_char list list"
  clock_items :: "nat \<Rightarrow> bool \<Rightarrow> addr \<Rightarrow> ctl \<Rightarrow> u_char list list"
  refclock_stat :: "addr \<Rightarrow> ctl \<Rightarrow> clock_stat"
  config_remotely :: "sockaddr_u \<Rightarrow> u_char list \<Rightarrow> ctl \<Rightarrow> (int \<times> u_char list \<times> ctl) option"
  derive_nonce :: "sockaddr_u \<Rightarrow> u_int32 \<Rightarrow> u_int32 \<Rightarrow> u_int32"
  other_op :: "u_char \<Rightarrow> rbuf \<Rightarrow> u_short \<Rightarrow> ctl \<Rightarrow> ctl option"

fun put_each :: "('a \<Rightarrow> ctl \<Rightarrow> u_char list list) \<Rightarrow> (int \<Rightarrow> u_char list \<Rightarrow> u_char list option) \<Rightarrow> 'a list \<Rightarrow> ctl \<Rightarrow> ctl option" where
  "put_each f ev [] c = Some c"
| "put_each f ev (i # is) c = do { c \<leftarrow> put_items ev (f i c) c; put_each f ev is c }"

section \<open>Traps\<close>

datatype trap_type = TRAP_TYPE_CONFIG | TRAP_TYPE_PRIO | TRAP_TYPE_NONPRIO

definition ctlfindtrap :: "sockaddr_u \<Rightarrow> addr \<Rightarrow> ctl_trap list \<Rightarrow> nat option" where
  "ctlfindtrap ra linter ts =
     find (\<lambda>n. tr_flags (ts ! n) AND TRAP_INUSE \<noteq> 0 \<and> ADDR_PORT_EQ ra (tr_addr (ts ! n)) \<and> linter = tr_localaddr (ts ! n)) [0..<length ts]"

text \<open>Which structure a new trap takes: the candidate so far, against the one at hand.\<close>

definition trap_candidate :: "trap_type \<Rightarrow> ctl_trap list \<Rightarrow> nat \<Rightarrow> nat option \<Rightarrow> nat option" where
  "trap_candidate traptype ts n tptouse =
     (let tp = ts ! n
      in if TRAP_INUSE AND tr_flags tp = 0 then Some n
         else if TRAP_CONFIGURED AND tr_flags tp = 0
         then (case traptype of
                 TRAP_TYPE_CONFIG \<Rightarrow>
                   (case tptouse of
                      None \<Rightarrow> Some n
                    | Some u \<Rightarrow>
                        if TRAP_NONPRIO AND tr_flags (ts ! u) \<noteq> 0 \<and> TRAP_NONPRIO AND tr_flags tp = 0 then tptouse
                        else if TRAP_NONPRIO AND tr_flags (ts ! u) = 0 \<and> TRAP_NONPRIO AND tr_flags tp \<noteq> 0 then Some n
                        else if tr_origtime (ts ! u) < tr_origtime tp then Some n
                        else tptouse)
               | TRAP_TYPE_PRIO \<Rightarrow>
                   if TRAP_NONPRIO AND tr_flags tp \<noteq> 0
                   then (case tptouse of
                           None \<Rightarrow> Some n
                         | Some u \<Rightarrow> if TRAP_INUSE AND tr_flags (ts ! u) \<noteq> 0 \<and> tr_origtime (ts ! u) < tr_origtime tp then Some n else tptouse)
                   else tptouse
               | TRAP_TYPE_NONPRIO \<Rightarrow> tptouse)
         else tptouse)"

definition trap_cleared :: "u_int64 \<Rightarrow> ctl_trap \<Rightarrow> bool" where
  "trap_cleared now tp \<longleftrightarrow> TRAP_INUSE AND tr_flags tp \<noteq> 0 \<and> TRAP_CONFIGURED AND tr_flags tp = 0 \<and> tr_settime tp + CTL_TRAPTIME > now"

fun trap_scan :: "u_int64 \<Rightarrow> trap_type \<Rightarrow> nat list \<Rightarrow> nat option \<Rightarrow> ctl_trap list \<Rightarrow> int \<Rightarrow> nat option \<times> ctl_trap list \<times> int" where
  "trap_scan now traptype [] u ts nt = (u, ts, nt)"
| "trap_scan now traptype (n # ns) u ts nt =
     (let (ts, nt) = (if trap_cleared now (ts ! n) then (ts[n := (ts ! n)\<lparr>tr_flags := 0\<rparr>], s32 (nt - 1)) else (ts, nt))
      in trap_scan now traptype ns (trap_candidate traptype ts n u) ts nt)"

definition new_trap :: "u_int64 \<Rightarrow> sockaddr_u \<Rightarrow> addr \<Rightarrow> trap_type \<Rightarrow> u_char \<Rightarrow> ctl_trap" where
  "new_trap now ra linter traptype ver =
     \<lparr>tr_addr = ra, tr_localaddr = linter, tr_settime = now, tr_count = 0, tr_origtime = now, tr_resets = 0, tr_sequence = 1,
       tr_flags = (case traptype of TRAP_TYPE_CONFIG \<Rightarrow> TRAP_INUSE OR TRAP_CONFIGURED | TRAP_TYPE_PRIO \<Rightarrow> TRAP_INUSE | TRAP_TYPE_NONPRIO \<Rightarrow> TRAP_INUSE OR TRAP_NONPRIO),
       tr_version = ver\<rparr>"

definition ctlsettrap :: "u_int64 \<Rightarrow> sockaddr_u \<Rightarrow> addr \<Rightarrow> trap_type \<Rightarrow> u_char \<Rightarrow> ctl \<Rightarrow> bool \<times> ctl" where
  "ctlsettrap now ra linter traptype ver c =
     (case ctlfindtrap ra linter (ctl_traps c) of
        Some n \<Rightarrow>
          let tp = ctl_traps c ! n;
              set = (\<lambda>fl. (True, c\<lparr>ctl_traps := (ctl_traps c)[n := tp\<lparr>tr_flags := fl, tr_settime := now, tr_resets := tr_resets tp + 1\<rparr>]\<rparr>))
          in (case traptype of
                TRAP_TYPE_CONFIG \<Rightarrow> set (TRAP_INUSE OR TRAP_CONFIGURED)
              | TRAP_TYPE_PRIO \<Rightarrow> if tr_flags tp AND TRAP_CONFIGURED \<noteq> 0 then (True, c) else set TRAP_INUSE
              | TRAP_TYPE_NONPRIO \<Rightarrow> if tr_flags tp AND TRAP_CONFIGURED \<noteq> 0 then (True, c) else set (TRAP_INUSE OR TRAP_NONPRIO))
      | None \<Rightarrow>
          let (u, ts, nt) = trap_scan now traptype [0..<length (ctl_traps c)] None (ctl_traps c) (num_ctl_traps c);
              c = c\<lparr>ctl_traps := ts, num_ctl_traps := nt\<rparr>
          in (case u of
                None \<Rightarrow> (False, c)
              | Some n \<Rightarrow>
                  (True, c\<lparr>ctl_traps := ts[n := new_trap now ra linter traptype ver], num_ctl_traps := s32 (nt + 1)\<rparr>)))"

definition ctlclrtrap :: "sockaddr_u \<Rightarrow> addr \<Rightarrow> trap_type \<Rightarrow> ctl \<Rightarrow> bool \<times> ctl" where
  "ctlclrtrap ra linter traptype c =
     (case ctlfindtrap ra linter (ctl_traps c) of
        None \<Rightarrow> (False, c)
      | Some n \<Rightarrow>
          if tr_flags (ctl_traps c ! n) AND TRAP_CONFIGURED \<noteq> 0 \<and> traptype \<noteq> TRAP_TYPE_CONFIG then (False, c)
          else (True, c\<lparr>ctl_traps := (ctl_traps c)[n := (ctl_traps c ! n)\<lparr>tr_flags := 0\<rparr>], num_ctl_traps := s32 (num_ctl_traps c - 1)\<rparr>))"

definition request_trap_type :: "u_short \<Rightarrow> trap_type" where
  "request_trap_type restrict_mask = (if restrict_mask AND RES_LPTRAP \<noteq> 0 then TRAP_TYPE_NONPRIO else TRAP_TYPE_PRIO)"

definition set_trap :: "cenv \<Rightarrow> rbuf \<Rightarrow> u_short \<Rightarrow> ctl \<Rightarrow> ctl option" where
  "set_trap env rb restrict_mask c =
     (if restrict_mask AND RES_NOTRAP \<noteq> 0 then ctl_error (ctl_evp env) CERR_PERMISSION c
      else do {
        let (ok, c) = ctlsettrap (ctl_now env) (recv_srcadr rb) (rdstadr rb) (request_trap_type restrict_mask) (res_version c) c;
        c \<leftarrow> (if ok then Some c else ctl_error (ctl_evp env) CERR_NORESOURCE c);
        ctl_flushpkt (ctl_evp env) 0 c
      })"

definition unset_trap :: "cenv \<Rightarrow> rbuf \<Rightarrow> u_short \<Rightarrow> ctl \<Rightarrow> ctl option" where
  "unset_trap env rb restrict_mask c = do {
     let (ok, c) = ctlclrtrap (recv_srcadr rb) (rdstadr rb) (request_trap_type restrict_mask) c;
     c \<leftarrow> (if ok then Some c else ctl_error (ctl_evp env) CERR_BADASSOC c);
     ctl_flushpkt (ctl_evp env) 0 c
   }"

section \<open>Events\<close>

definition ctl_peer :: "addr \<Rightarrow> ctl \<Rightarrow> peer" where
  "ctl_peer p c = peer_mem (peers (dm c)) p"

definition on_peer :: "addr \<Rightarrow> (peer \<Rightarrow> peer) \<Rightarrow> ctl \<Rightarrow> ctl" where
  "on_peer p f c = c\<lparr>dm := (dm c)\<lparr>peers := upd_peer p f (peers (dm c))\<rparr>\<rparr>"

text \<open>The count of events, and whether this one is reported.\<close>

definition count_event :: "int \<Rightarrow> addr option \<Rightarrow> ctl \<Rightarrow> bool \<times> ctl" where
  "count_event err peer c =
     (case peer of
        None \<Rightarrow>
          let e = word_of_int err; c = (if ctl_sys_last_event c \<noteq> e then c\<lparr>ctl_sys_num_events := 0\<rparr> else c)
          in if ctl_sys_num_events c \<ge> CTL_MAXEVENTS then (False, c)
             else (True, c\<lparr>ctl_sys_last_event := e, ctl_sys_num_events := ctl_sys_num_events c + 1\<rparr>)
      | Some p \<Rightarrow>
          let e = word_of_int err AND NOT (word_of_int PEER_EVENT);
              c = (if last_event (ctl_peer p c) = e then on_peer p (\<lambda>q. q\<lparr>num_events := 0\<rparr>) c else c)
          in if num_events (ctl_peer p c) \<ge> CTL_MAXEVENTS then (False, c)
             else (True, on_peer p (\<lambda>q. q\<lparr>last_event := e, num_events := num_events q + 1\<rparr>) c))"

definition event_items :: "cenv \<Rightarrow> int \<Rightarrow> addr option \<Rightarrow> ctl \<Rightarrow> ctl option" where
  "event_items env err peer c =
     (if err AND PEER_EVENT = 0
      then put_each (sys_items env) (ctl_evp env) [1..<Suc CS_VARLIST] (c\<lparr>rpkt := (rpkt c)\<lparr>c_associd := 0, c_status := ctlsysstatus c\<rparr>\<rparr>)
      else case peer of
             None \<Rightarrow> None
           | Some p \<Rightarrow> do {
               let c = c\<lparr>rpkt := (rpkt c)\<lparr>c_associd := associd (ctl_peer p c), c_status := ctlpeerstatus (ctl_peer p c)\<rparr>\<rparr>;
               c \<leftarrow> put_each (\<lambda>i. peer_items env i p) (ctl_evp env) [1..<Suc CP_MAXCODE] c;
               if err = PEVNT_CLOCK
               then do {
                 let cs = refclock_stat env p c;
                 c \<leftarrow> ctl_puthex (ctl_evp env) (bytes ''refclockstatus'') (ucast (ctlclkstatus (cs_lastevent cs) (cs_currentstatus cs))) c;
                 c \<leftarrow> put_each (\<lambda>i. clock_items env i False p) (ctl_evp env) [1..<Suc CC_MAXCODE] c;
                 put_items (ctl_evp env) (map cv_text (filter (\<lambda>v. DEF AND cv_flags v \<noteq> 0) (ext_list (cs_kv_list cs)))) c
               }
               else Some c
             })"

definition report_event :: "cenv \<Rightarrow> int \<Rightarrow> addr option \<Rightarrow> ctl \<Rightarrow> ctl option" where
  "report_event env err peer c =
     (let (reported, c) = count_event err peer c
      in if \<not> reported \<or> num_ctl_traps c \<le> 0 then Some c
         else do {
           c \<leftarrow> event_items env err peer (c\<lparr>res_opcode := CTL_OP_ASYNCMSG, res_offset := 0, res_async := True, res_authenticate := False, datapt := 0\<rparr>);
           ctl_flushpkt (ctl_evp env) 0 c
         })"

section \<open>Reading and writing variables\<close>

definition lookup_peer :: "ctl \<Rightarrow> addr option \<times> ctl" where
  "lookup_peer c = (let (p, s) = findpeerbyassoc (res_associd c) (peers (dm c)) in (p, c\<lparr>dm := (dm c)\<lparr>peers := s\<rparr>\<rparr>))"

definition set_status :: "u_short \<Rightarrow> ctl \<Rightarrow> ctl" where
  "set_status st c = c\<lparr>rpkt := (rpkt c)\<lparr>c_status := st\<rparr>\<rparr>"

definition control_unspec :: "cenv \<Rightarrow> ctl \<Rightarrow> ctl option" where
  "control_unspec env c =
     (if res_associd c \<noteq> 0
      then case lookup_peer c of
             (None, c) \<Rightarrow> ctl_error (ctl_evp env) CERR_BADASSOC c
           | (Some p, c) \<Rightarrow> ctl_flushpkt (ctl_evp env) 0 (set_status (ctlpeerstatus (ctl_peer p c)) c)
      else ctl_flushpkt (ctl_evp env) 0 (set_status (ctlsysstatus c) c))"

text \<open>The status of all associations: as many as the data of a message has room for go at a time.\<close>

function put_assocs :: "(int \<Rightarrow> u_char list \<Rightarrow> u_char list option) \<Rightarrow> addr list \<Rightarrow> ctl \<Rightarrow> ctl option" where
  "put_assocs ev ps c =
     (if ps = [] then Some c
      else do {
        let n = CTL_MAX_DATA_LEN div 4;
        c \<leftarrow> ctl_putdata ev (concat (map (\<lambda>p. htons_bytes (associd (ctl_peer p c)) @ htons_bytes (ctlpeerstatus (ctl_peer p c))) (take n ps))) True c;
        put_assocs ev (drop n ps) c
      })"
  by auto
termination by (relation "measure (\<lambda>(ev, ps, c). length ps)") auto

declare put_assocs.simps [simp del]

definition put_peer_defaults :: "cenv \<Rightarrow> addr \<Rightarrow> ctl \<Rightarrow> ctl option" where
  "put_peer_defaults env p c = put_each (\<lambda>i. peer_items env i p) (ctl_evp env) def_peer_var c"

definition peer_found :: "addr \<Rightarrow> ctl \<Rightarrow> ctl" where
  "peer_found p c =
     (let c = set_status (ctlpeerstatus (ctl_peer p c)) c in if res_authokay c then on_peer p (\<lambda>q. q\<lparr>num_events := 0\<rparr>) c else c)"

definition read_status :: "cenv \<Rightarrow> ctl \<Rightarrow> ctl option" where
  "read_status env c =
     (if res_associd c \<noteq> 0
      then case lookup_peer c of
             (None, c) \<Rightarrow> ctl_error (ctl_evp env) CERR_BADASSOC c
           | (Some p, c) \<Rightarrow> do { c \<leftarrow> put_peer_defaults env p (peer_found p c); ctl_flushpkt (ctl_evp env) 0 c }
      else do {
        let c = set_status (ctlsysstatus c) c;
        c \<leftarrow> put_assocs (ctl_evp env) (peer_list (peers (dm c))) c;
        ctl_flushpkt (ctl_evp env) 0 c
      })"

definition set_want :: "nat \<Rightarrow> bool list \<Rightarrow> bool list option" where
  "set_want n w = (if n < length w then Some (w[n := True]) else None)"

function peer_wanted :: "(int \<Rightarrow> u_char list \<Rightarrow> u_char list option) \<Rightarrow> bool list \<Rightarrow> bool \<Rightarrow> ctl \<Rightarrow> ((bool list \<times> bool) option \<times> ctl) option" where
  "peer_wanted ev w gotvar c =
     (case ctl_getitem ev (Some peer_var) c of
        None \<Rightarrow> None
      | Some (Item_none, c) \<Rightarrow> Some (Some (w, gotvar), c)
      | Some (Item_eov, c) \<Rightarrow> map_option (Pair None) (ctl_error ev CERR_UNKNOWNVAR c)
      | Some (Item v d, c) \<Rightarrow> (case set_want (unat (cv_code v)) w of None \<Rightarrow> None | Some w \<Rightarrow> peer_wanted ev w True c))"
  by pat_completeness auto
termination by (relation "measure (\<lambda>(ev, w, g, c). length (reqpt c))") (auto dest: ctl_getitem_Item(1))

declare peer_wanted.simps [simp del]

definition read_peervars :: "cenv \<Rightarrow> ctl \<Rightarrow> ctl option" where
  "read_peervars env c =
     (case lookup_peer c of
        (None, c) \<Rightarrow> ctl_error (ctl_evp env) CERR_BADASSOC c
      | (Some p, c) \<Rightarrow> do {
          (w, c) \<leftarrow> peer_wanted (ctl_evp env) (replicate (CP_MAXCODE + 1) False) False (peer_found p c);
          case w of
            None \<Rightarrow> Some c
          | Some (w, gotvar) \<Rightarrow> do {
              c \<leftarrow> (if gotvar then put_each (\<lambda>i. peer_items env i p) (ctl_evp env) (filter (\<lambda>i. w ! i) [1..<CP_MAXCODE + 1]) c else put_peer_defaults env p c);
              ctl_flushpkt (ctl_evp env) 0 c
            }
        })"

text \<open>The variables that a request names, in a table or in a list of further variables; \<open>None\<close> for them when an error was sent.\<close>

function wanted ::
  "(int \<Rightarrow> u_char list \<Rightarrow> u_char list option) \<Rightarrow> ctl_var list \<Rightarrow> nat \<Rightarrow> ctl_var list option \<Rightarrow> bool list \<Rightarrow> bool \<Rightarrow> ctl \<Rightarrow> ((bool list \<times> bool) option \<times> ctl) option" where
  "wanted ev table maxcode ext w gotvar c =
     (case ctl_getitem ev (Some table) c of
        None \<Rightarrow> None
      | Some (Item_none, c) \<Rightarrow> Some (Some (w, gotvar), c)
      | Some (Item v d, c) \<Rightarrow> (case set_want (unat (cv_code v)) w of None \<Rightarrow> None | Some w \<Rightarrow> wanted ev table maxcode ext w True c)
      | Some (Item_eov, c) \<Rightarrow>
          (case ctl_getitem ev ext c of
             None \<Rightarrow> None
           | Some (Item_none, c) \<Rightarrow> None
           | Some (Item_eov, c) \<Rightarrow> map_option (Pair None) (ctl_error ev CERR_UNKNOWNVAR c)
           | Some (Item v d, c) \<Rightarrow> (case set_want (unat (cv_code v) + maxcode + 1) w of None \<Rightarrow> None | Some w \<Rightarrow> wanted ev table maxcode ext w True c)))"
  by pat_completeness auto
termination by (relation "measure (\<lambda>(ev, t, m, e, w, g, c). length (reqpt c))") (auto dest!: ctl_getitem_Item(1) ctl_getitem_eov(1))

declare wanted.simps [simp del]

definition read_sysvars :: "cenv \<Rightarrow> ctl \<Rightarrow> ctl option" where
  "read_sysvars env c = do {
     let c = set_status (ctlsysstatus c) c;
     let c = (if res_authokay c then c\<lparr>ctl_sys_num_events := 0\<rparr> else c);
     n \<leftarrow> count_var (ext_sys_var c);
     (w, c) \<leftarrow> wanted (ctl_evp env) sys_var CS_MAXCODE (ext_sys_var c) (replicate (CS_MAXCODE + 1 + unat n) False) False c;
     case w of
       None \<Rightarrow> Some c
     | Some (w, gotvar) \<Rightarrow> do {
         c \<leftarrow> (if gotvar
               then do {
                 c \<leftarrow> put_each (sys_items env) (ctl_evp env) (filter (\<lambda>i. w ! i) [1..<CS_MAXCODE + 1]) c;
                 put_items (ctl_evp env) (map (\<lambda>i. cv_text (ext_list (ext_sys_var c) ! i)) (filter (\<lambda>i. w ! (i + CS_MAXCODE + 1)) [0..<length w - (CS_MAXCODE + 1)])) c
               }
               else do {
                 c \<leftarrow> put_each (sys_items env) (ctl_evp env) def_sys_var c;
                 put_items (ctl_evp env) (map cv_text (filter (\<lambda>v. DEF AND cv_flags v \<noteq> 0) (ext_list (ext_sys_var c)))) c
               });
         ctl_flushpkt (ctl_evp env) 0 c
       }
   }"

definition read_variables :: "cenv \<Rightarrow> ctl \<Rightarrow> ctl option" where
  "read_variables env c = (if res_associd c \<noteq> 0 then read_peervars env c else read_sysvars env c)"

definition is_refclock :: "addr \<Rightarrow> ctl \<Rightarrow> bool" where
  "is_refclock p c \<longleftrightarrow> FLAG_REFCLOCK AND pflags (ctl_peer p c) \<noteq> 0"

definition find_clock :: "ctl \<Rightarrow> addr option \<times> ctl" where
  "find_clock c =
     (if res_associd c \<noteq> 0 then lookup_peer c
      else (case sys_peer (dm c) of
              Some p \<Rightarrow> if is_refclock p c then Some p else find (\<lambda>p. is_refclock p c) (peer_list (peers (dm c)))
            | None \<Rightarrow> find (\<lambda>p. is_refclock p c) (peer_list (peers (dm c))), c))"

definition read_clockstatus :: "cenv \<Rightarrow> ctl \<Rightarrow> ctl option" where
  "read_clockstatus env c =
     (case find_clock c of
        (None, c) \<Rightarrow> ctl_error (ctl_evp env) CERR_BADASSOC c
      | (Some p, c) \<Rightarrow>
          if \<not> is_refclock p c then ctl_error (ctl_evp env) CERR_BADASSOC c
          else do {
            let cs = refclock_stat env p c;
            let kv = cs_kv_list cs;
            n \<leftarrow> count_var kv;
            (w, c) \<leftarrow> wanted (ctl_evp env) clock_var CC_MAXCODE kv (replicate (CC_MAXCODE + 1 + unat n) False) False
                       (set_status (ctlclkstatus (cs_lastevent cs) (cs_currentstatus cs)) c);
            case w of
              None \<Rightarrow> Some c
            | Some (w, gotvar) \<Rightarrow> do {
                c \<leftarrow> put_each (\<lambda>i. clock_items env i gotvar p) (ctl_evp env) (if gotvar then filter (\<lambda>i. w ! i) [1..<CC_MAXCODE + 1] else def_clock_var) c;
                c \<leftarrow> put_items (ctl_evp env)
                       (if gotvar then map (\<lambda>i. cv_text (ext_list kv ! i)) (filter (\<lambda>i. w ! (i + CC_MAXCODE + 1)) [0..<length (ext_list kv)])
                        else map cv_text (filter (\<lambda>v. DEF AND cv_flags v \<noteq> 0) (ext_list kv))) c;
                ctl_flushpkt (ctl_evp env) 0 c
              }
          })"

text \<open>Writing: only variables of the configuration can be set.\<close>

definition leap_value :: "u_char list \<Rightarrow> u_char" where
  "leap_value d = (case atoint (map (\<lambda>b. char_of (unat b)) d) of None \<Rightarrow> CERR_BADFMT | Some val \<Rightarrow> if d = [] then CERR_BADFMT else if val AND NOT 3 \<noteq> 0 then CERR_BADVALUE else CERR_UNSPEC)"

definition name_of :: "u_char list \<Rightarrow> u_char list" where
  "name_of text = takeWhile (\<lambda>b. b \<noteq> 61) text"

function write_loop :: "(int \<Rightarrow> u_char list \<Rightarrow> u_char list option) \<Rightarrow> ctl \<Rightarrow> (bool \<times> ctl) option" where
  "write_loop ev c =
     (case ctl_getitem ev (Some sys_var) c of
        None \<Rightarrow> None
      | Some (Item_none, c) \<Rightarrow> Some (True, c)
      | Some (Item v d, c) \<Rightarrow> map_option (Pair False) (ctl_error ev (if cv_flags v AND CAN_WRITE = 0 then CERR_PERMISSION else leap_value d) c)
      | Some (Item_eov, c) \<Rightarrow>
          (case ctl_getitem ev (ext_sys_var c) c of
             None \<Rightarrow> None
           | Some (Item_none, c) \<Rightarrow> Some (True, c)
           | Some (Item_eov, c) \<Rightarrow> map_option (Pair False) (ctl_error ev CERR_UNKNOWNVAR c)
           | Some (Item v d, c) \<Rightarrow>
               if cv_flags v AND CAN_WRITE = 0 then map_option (Pair False) (ctl_error ev CERR_PERMISSION c)
               else (case set_sys_var (name_of (cv_text v) @ 61 # d) (cv_flags v) c of None \<Rightarrow> None | Some c \<Rightarrow> write_loop ev c)))"
  by pat_completeness auto
termination by (relation "measure (\<lambda>(ev, c). length (reqpt c))") (auto simp: set_sys_var_def dest!: ctl_getitem_Item(1) ctl_getitem_eov(1))

declare write_loop.simps [simp del]

definition write_variables :: "cenv \<Rightarrow> ctl \<Rightarrow> ctl option" where
  "write_variables env c =
     (if res_associd c \<noteq> 0 then ctl_error (ctl_evp env) CERR_PERMISSION c
      else do {
        (done, c) \<leftarrow> write_loop (ctl_evp env) (set_status (ctlsysstatus c) c);
        if done then ctl_flushpkt (ctl_evp env) 0 c else Some c
      })"

definition configure :: "cenv \<Rightarrow> rbuf \<Rightarrow> u_short \<Rightarrow> ctl \<Rightarrow> ctl option" where
  "configure env rb restrict_mask c =
     (if res_associd c \<noteq> 0 then ctl_error (ctl_evp env) CERR_BADVALUE c
      else if restrict_mask AND RES_NOMODIFY \<noteq> 0
      then do {
        c \<leftarrow> ctl_putdata (ctl_evp env) (bytes ''runtime configuration prohibited by restrict ... nomodify'') False c;
        c \<leftarrow> ctl_flushpkt (ctl_evp env) 0 c;
        Some (c\<lparr>dm := restricted (dm c)\<rparr>)
      }
      else do {
        let text = (if reqpt c \<noteq> [] \<and> last (reqpt c) \<noteq> 10 then reqpt c @ [10] else reqpt c);
        if length text \<ge> 1024 then None
        else do {
          (no_errors, err_msg, c) \<leftarrow> config_remotely env (recv_srcadr rb) text c;
          c \<leftarrow> ctl_putdata (ctl_evp env) (if no_errors = 0 then bytes ''Config Succeeded'' else err_msg) False c;
          ctl_flushpkt (ctl_evp env) 0 c
        }
      })"

definition generate_nonce :: "cenv \<Rightarrow> rbuf \<Rightarrow> u_char list" where
  "generate_nonce env rb =
     (let t = recv_time rb
      in bytes (hex_text 8 (unat (l_ui t)) @ hex_text 8 (unat (l_uf t)) @ hex_text 8 (unat (derive_nonce env (recv_srcadr rb) (l_ui t) (l_uf t)))))"

definition req_nonce :: "cenv \<Rightarrow> rbuf \<Rightarrow> ctl \<Rightarrow> ctl option" where
  "req_nonce env rb c = do {
     c \<leftarrow> ctl_putunqstr (ctl_evp env) (bytes ''nonce'') (generate_nonce env rb) c;
     ctl_flushpkt (ctl_evp env) 0 c
   }"

definition write_clockstatus :: "cenv \<Rightarrow> ctl \<Rightarrow> ctl option" where
  "write_clockstatus env c = ctl_error (ctl_evp env) CERR_PERMISSION c"

section \<open>Control messages\<close>

definition ctl_clr_stats :: "u_int64 \<Rightarrow> ctl \<Rightarrow> ctl" where
  "ctl_clr_stats now c =
     c\<lparr>ctltimereset := now, numctlreq := 0, numctlbadpkts := 0, numctlresponses := 0, numctlfrags := 0, numctlerrors := 0, numctltooshort := 0, numctlinputresp := 0,
       numctlinputfrag := 0, numctlinputerr := 0, numctlbadoffset := 0, numctlbadversion := 0, numctldatatooshort := 0, numctlbadop := 0, numasyncmsgs := 0\<rparr>"

definition init_control :: "u_int64 \<Rightarrow> ctl \<Rightarrow> ctl" where
  "init_control now c =
     (ctl_clr_stats now c)\<lparr>ctl_auth_keyid := 0, ctl_sys_last_event := 0, ctl_sys_num_events := 0, num_ctl_traps := 0, ctl_traps := map (\<lambda>t. t\<lparr>tr_flags := 0\<rparr>) (ctl_traps c)\<rparr>"

definition be16_at :: "rbuf \<Rightarrow> nat \<Rightarrow> u_short" where
  "be16_at rb i = push_bit 8 (ucast (byte_at rb i)) OR ucast (byte_at rb (i + 1))"

definition count_bad :: "rbuf \<Rightarrow> ctl \<Rightarrow> ctl" where
  "count_bad rb c =
     (let b = (\<lambda>p n. if p then n + 1 else n :: u_int64); op = byte_at rb 1
      in c\<lparr>numctltooshort := b (recv_length rb < 12) (numctltooshort c), numctlinputresp := b (CTL_RESPONSE AND op \<noteq> 0) (numctlinputresp c),
           numctlinputfrag := b (CTL_MORE AND op \<noteq> 0) (numctlinputfrag c), numctlinputerr := b (CTL_ERROR AND op \<noteq> 0) (numctlinputerr c),
           numctlbadoffset := b (be16_at rb 8 \<noteq> 0) (numctlbadoffset c)\<rparr>)"

definition start_response :: "rbuf \<Rightarrow> ctl \<Rightarrow> ctl" where
  "start_response rb c =
     (let v = PKT_VERSION (byte_at rb 0)
      in c\<lparr>res_version := v,
           rpkt := (rpkt c)\<lparr>c_li_vn_mode := PKT_LI_VN_MODE (sys_leap (dm c)) v MODE_CONTROL, c_sequence := be16_at rb 2, c_associd := be16_at rb 6, c_status := 0\<rparr>,
           res_opcode := byte_at rb 1, res_frags := 1, res_offset := 0, res_associd := be16_at rb 6, res_async := False, res_authenticate := False, res_keyid := 0,
           res_authokay := False, datanotbinflag := False, datalinelen := 0, datapt := 0\<rparr>)"

definition ctl_authenticate :: "cenv \<Rightarrow> rbuf \<Rightarrow> ctl \<Rightarrow> ctl option" where
  "ctl_authenticate env rb c =
     (let properlen = int ((unat (be16_at rb 10) + CTL_HEADER_LEN + 7) div 8 * 8);
          maclen = recv_length rb - properlen
      in if maclen \<ge> 4 \<and> maclen \<le> 24 \<and> sys_authenticate (dm c)
         then do {
           let k = be32_at rb (nat properlen);
           let (trusted, ks) = authistrusted k (keys (dm c));
           let c = c\<lparr>res_authenticate := True, res_keyid := k, dm := (dm c)\<lparr>keys := ks\<rparr>\<rparr>;
           if \<not> trusted then Some c
           else do {
             (ok, ks) \<leftarrow> authdecrypt (ctl_evp env) k (recv_buf rb) (nat properlen) maclen (keys (dm c));
             let c = c\<lparr>dm := (dm c)\<lparr>keys := ks\<rparr>\<rparr>;
             Some (if ok then c\<lparr>res_authokay := True\<rparr> else c\<lparr>res_keyid := 0\<rparr>)
           }
         }
         else Some c)"

definition ctl_handler :: "cenv \<Rightarrow> rbuf \<Rightarrow> u_short \<Rightarrow> ctl \<Rightarrow> ctl option" where
  "ctl_handler env rb restrict_mask c =
     (let op = res_opcode c
      in if op = 0 then control_unspec env c
         else if op = 1 then read_status env c
         else if op = 2 then read_variables env c
         else if op = 3 then write_variables env c
         else if op = 4 then read_clockstatus env c
         else if op = 5 then write_clockstatus env c
         else if op = 6 then set_trap env rb restrict_mask c
         else if op = 8 then configure env rb restrict_mask c
         else if op = 12 then req_nonce env rb c
         else if op = 31 then unset_trap env rb restrict_mask c
         else other_op env op rb restrict_mask c)"

definition control_codes :: "(u_char \<times> bool) list" where
  "control_codes = [(0, False), (1, False), (2, False), (3, True), (4, False), (5, False), (6, False), (8, True), (9, True), (10, False), (11, True), (12, False), (31, False)]"

definition process_control :: "cenv \<Rightarrow> rbuf \<Rightarrow> u_short \<Rightarrow> ctl \<Rightarrow> ctl option" where
  "process_control env rb restrict_mask c =
     (let c = c\<lparr>numctlreq := numctlreq c + 1, rmt_addr := recv_srcadr rb, lcl_inter := rdstadr rb\<rparr>; v = PKT_VERSION (byte_at rb 0)
      in if recv_length rb < 12 \<or> (CTL_RESPONSE OR CTL_MORE OR CTL_ERROR) AND byte_at rb 1 \<noteq> 0 \<or> be16_at rb 8 \<noteq> 0 then Some (count_bad rb c)
         else if v > NTP_VERSION \<or> v < NTP_OLDVERSION then Some (c\<lparr>res_version := v, numctlbadversion := numctlbadversion c + 1\<rparr>)
         else
           let c = start_response rb c; req_count = unat (be16_at rb 10)
           in if recv_length rb - 12 < int req_count \<or> recv_length rb mod 4 \<noteq> 0
              then map_option (\<lambda>c. c\<lparr>numctldatatooshort := numctldatatooshort c + 1\<rparr>) (ctl_error (ctl_evp env) CERR_BADFMT c)
              else do {
                c \<leftarrow> ctl_authenticate env rb c;
                let c = c\<lparr>reqpt := map (\<lambda>i. byte_at rb (CTL_HEADER_LEN + i)) [0..<req_count]\<rparr>;
                case map_of control_codes (res_opcode c) of
                  None \<Rightarrow> ctl_error (ctl_evp env) CERR_BADOP (c\<lparr>numctlbadop := numctlbadop c + 1\<rparr>)
                | Some auth \<Rightarrow>
                    if auth \<and> (\<not> res_authokay c \<or> res_keyid c \<noteq> ctl_auth_keyid c) then ctl_error (ctl_evp env) CERR_PERMISSION c
                    else ctl_handler env rb restrict_mask c
              })"

section \<open>Who may write\<close>

text \<open>
  What no part of a response changes: the variables of the configuration, the key that permits writing, and the invariant of the daemon.
\<close>

definition calm :: "ctl \<Rightarrow> ctl \<Rightarrow> bool" where
  "calm c c' \<longleftrightarrow> ext_sys_var c' = ext_sys_var c \<and> ctl_auth_keyid c' = ctl_auth_keyid c \<and> (daemon_ok (dm c) \<longrightarrow> daemon_ok (dm c'))"

lemma calm_refl [simp]: "calm c c"
  by (simp add: calm_def)

lemma calm_trans [trans]: "calm c d \<Longrightarrow> calm d e \<Longrightarrow> calm c e"
  by (simp add: calm_def)

lemma sendpkt_daemon [simp]: "daemon_ok (sendpkt a ep h m n d) = daemon_ok d"
  by (simp add: sendpkt_def)

lemma authencrypt_keys:
  assumes "keys_ok s" "authencrypt ev k pkt n s = Some (l, pkt', s')"
  shows "keys_ok s'"
proof -
  define s1 where "s1 = s\<lparr>authencryptions := authencryptions s + 1\<rparr>"
  have s1: "keys_ok s1" using keys_ok_count assms(1) by (simp add: s1_def)
  show ?thesis
  proof (cases "k = 0")
    case True
    then show ?thesis using assms(2) s1 by (auto simp: authencrypt_def Let_def s1_def [symmetric] split: option.splits)
  next
    case False
    then obtain b s2 where h: "authhavekey k s1 = (b, s2)" "keys_ok s2" using havekey_ok [OF s1] by blast
    then show ?thesis using assms(2) False by (auto simp: authencrypt_def Let_def s1_def [symmetric] split: option.splits if_splits prod.splits)
  qed
qed

lemma authdecrypt_keys:
  assumes "keys_ok s" "authdecrypt ev k pkt n l s = Some (b, s')"
  shows "keys_ok s'"
proof -
  define s1 where "s1 = s\<lparr>authdecryptions := authdecryptions s + 1\<rparr>"
  have s1: "keys_ok s1" using keys_ok_count assms(1) by (simp add: s1_def)
  show ?thesis
  proof (cases "k = 0")
    case True
    then show ?thesis using assms(2) s1 by (auto simp: authdecrypt_def Let_def s1_def [symmetric])
  next
    case False
    then obtain b s2 where h: "authhavekey k s1 = (b, s2)" "keys_ok s2" using havekey_ok [OF s1] by blast
    then show ?thesis using assms(2) False by (auto simp: authdecrypt_def Let_def s1_def [symmetric] split: option.splits if_splits prod.splits)
  qed
qed

lemma keys_daemon: "daemon_ok d \<Longrightarrow> keys_ok ks \<Longrightarrow> daemon_ok (d\<lparr>keys := ks\<rparr>)" "daemon_ok d \<Longrightarrow> keys_ok (keys d)"
  by (simp_all add: daemon_ok_def getp_def)

lemma events_daemon:
  assumes "daemon_ok d"
  shows "daemon_ok (d\<lparr>peers := upd_peer p (\<lambda>q. q\<lparr>num_events := 0\<rparr>) (peers d)\<rparr>)"
proof (cases "p \<in> set (listed d)")
  case True
  have "daemon_ok (setp p ((getp p d)\<lparr>num_events := 0\<rparr>) d)"
    using assocD [OF assms True] by (intro setp_ok [OF assms True]) (simp_all add: peer_key_def assoc_ok_def peer_fit_def poll_fit_def)
  moreover have "setp p ((getp p d)\<lparr>num_events := 0\<rparr>) d = d\<lparr>peers := upd_peer p (\<lambda>q. q\<lparr>num_events := 0\<rparr>) (peers d)\<rparr>" by (simp add: setp_def getp_def upd_peer_def)
  ultimately show ?thesis by simp
next
  case False
  have z: "zero_peer\<lparr>num_events := 0\<rparr> = zero_peer" by (simp add: zero_peer_def)
  have n: "q \<in> set (listed d) \<Longrightarrow> q \<noteq> p" for q using False by auto
  have "peer_ok [] (upd_peer p (\<lambda>q. q\<lparr>num_events := 0\<rparr>) (peers d))"
    by (rule peer_ok_cong [of "[]" "peers d"]) (use assms n z in \<open>auto simp: daemon_ok_def peer_ok_def peer_owned_def\<close>)
  moreover have "getp q (d\<lparr>peers := upd_peer p (\<lambda>q. q\<lparr>num_events := 0\<rparr>) (peers d)\<rparr>) = getp q d" if "q \<in> set (listed d)" for q
    using n [OF that] by (simp add: getp_def)
  ultimately show ?thesis using assms by (simp add: daemon_ok_def)
qed

lemma assocpeer_daemon: "daemon_ok d \<Longrightarrow> daemon_ok (d\<lparr>peers := (peers d)\<lparr>assocpeer_calls := n\<rparr>\<rparr>)"
  by (simp add: daemon_ok_def getp_def peer_ok_def peer_owned_def peer_tables_def peer_ifs_def)

lemma calm_poke: "poke bs c = Some c' \<Longrightarrow> calm c c'"
  by (auto simp: poke_def calm_def)

lemma calm_ctl_send [simp]: "calm c (ctl_send len c)"
  by (simp add: ctl_send_def calm_def)

lemma calm_ctl_send_mac:
  assumes "ctl_send_mac ev len c = Some c'"
  shows "calm c c'"
proof -
  obtain l m ks where a: "authencrypt ev (res_keyid c) (ctl_memory (rpkt c)) len (keys (dm c)) = Some (l, m, ks)"
    "c' = ctl_send (len + nat l) (c\<lparr>rpkt := (rpkt c)\<lparr>c_data := drop 12 m\<rparr>, dm := (dm c)\<lparr>keys := ks\<rparr>\<rparr>)"
    using assms by (auto simp: ctl_send_mac_def Let_def bind_eq_Some_conv)
  have "daemon_ok (dm c) \<longrightarrow> daemon_ok ((dm c)\<lparr>keys := ks\<rparr>)" using keys_daemon authencrypt_keys [OF _ a(1)] by blast
  then show ?thesis by (simp add: a(2) calm_def ctl_send_def)
qed

lemma calm_ctl_error: "ctl_error ev e c = Some c' \<Longrightarrow> calm c c'"
  unfolding ctl_error_def Let_def by (auto simp: calm_def ctl_send_def split: if_splits dest: calm_ctl_send_mac)

lemma calm_flush_traps: "flush_traps mre len ts c = (ts', c') \<Longrightarrow> calm c c'"
  by (induction mre len ts c arbitrary: ts' c' rule: flush_traps.induct) (auto simp: Let_def calm_def split: if_splits prod.splits)

lemma calm_flush_send: "flush_send ev mre c = Some c' \<Longrightarrow> calm c c'"
proof -
  assume a: "flush_send ev mre c = Some c'"
  show ?thesis
  proof (cases "res_async c")
    case True
    then show ?thesis using a calm_flush_traps by (fastforce simp: flush_send_def Let_def calm_def split: prod.splits)
  next
    case False
    let ?fin = "\<lambda>d. if mre \<noteq> 0 then d\<lparr>numctlfrags := numctlfrags d + 1\<rparr> else d\<lparr>numctlresponses := numctlresponses d + 1\<rparr>"
    have f: "calm c (?fin d)" if "calm c d" for d using that by (simp add: calm_def)
    show ?thesis
    proof (cases "res_authenticate c \<and> sys_authenticate (dm c)")
      case na: False
      have "c' = ?fin (ctl_send (datapt c + 12) c)" using a unfolding flush_send_def Let_def if_not_P [OF False] if_not_P [OF na] by simp
      then show ?thesis using f [OF calm_ctl_send] by blast
    next
      case au: True
      obtain c1 m c2 where s: "poke (replicate (pad_len 8 (datapt c + 12)) 0) c = Some c1" "ctl_send_mac ev (datapt c1 + 12) (c1\<lparr>rpkt := (rpkt c1)\<lparr>c_data := m\<rparr>\<rparr>) = Some c2" "c' = ?fin c2"
        using a unfolding flush_send_def Let_def if_not_P [OF False] if_P [OF au] by (auto simp: bind_eq_Some_conv)
      have "calm c c1" using s(1) by (rule calm_poke)
      then have "calm c (c1\<lparr>rpkt := (rpkt c1)\<lparr>c_data := m\<rparr>\<rparr>)" by (simp add: calm_def)
      also note calm_ctl_send_mac [OF s(2)]
      finally show ?thesis unfolding s(3) by (rule f)
    qed
  qed
qed

lemma calm_flush: "ctl_flushpkt ev mre c = Some c' \<Longrightarrow> calm c c'"
proof -
  assume a: "ctl_flushpkt ev mre c = Some c'"
  let ?h = "\<lambda>c1 c2. c2\<lparr>rpkt := (rpkt c2)\<lparr>c_r_m_e_op := CTL_RESPONSE OR mre OR (res_opcode c2 AND CTL_OP_MASK), c_count := of_nat (datapt c1), c_offset := word_of_int (res_offset c2)\<rparr>\<rparr>"
  obtain c1 c2 c3 where s: "(if mre = 0 \<and> datanotbinflag c \<and> datapt c + 2 < 468 then poke [13, 10] c else Some c) = Some c1" "poke (replicate (pad_len 4 (datapt c1 + 12)) 0) c1 = Some c2"
    "flush_send ev mre (?h c1 c2) = Some c3" "c' = c3\<lparr>res_frags := res_frags c3 + 1, res_offset := s32 (res_offset c3 + int (datapt c1)), datapt := 0\<rparr>"
    using a unfolding ctl_flushpkt_def Let_def by (auto simp: bind_eq_Some_conv)
  have "calm c c1" using s(1) by (auto split: if_splits dest: calm_poke)
  also have "calm c1 c2" using s(2) by (rule calm_poke)
  also have "calm c2 (?h c1 c2)" by (simp add: calm_def)
  also have "calm (?h c1 c2) c3" using s(3) by (rule calm_flush_send)
  also have "calm c3 c'" using s(4) by (simp add: calm_def)
  finally show ?thesis .
qed

lemma calm_putdata: "ctl_putdata ev dp bin c = Some c' \<Longrightarrow> calm c c'"
proof -
  assume a: "ctl_putdata ev dp bin c = Some c'"
  let ?o = "(if bin then 0 else 3) :: nat"
  obtain c1 c2 c3 where s: "(if bin then Some c
           else let c = c\<lparr>datanotbinflag := True\<rparr>
                in if datapt c \<noteq> 0
                   then if word_of_int (int (length dp) + (datalinelen c + 1) + 1) \<ge> MAXDATALINELEN
                        then map_option (\<lambda>c. c\<lparr>datalinelen := 0\<rparr>) (poke [44, 13, 10] c)
                        else map_option (\<lambda>c. c\<lparr>datalinelen := s32 (datalinelen c + 2)\<rparr>) (poke [44, 32] c)
                   else Some c) = Some c1" "(if length dp + ?o + datapt c1 > 468 then ctl_flushpkt ev CTL_MORE c1 else Some c1) = Some c2" "poke dp c2 = Some c3"
    "c' = c3\<lparr>datalinelen := s32 (datalinelen c3 + int (length dp))\<rparr>"
    using a unfolding ctl_putdata_def by (auto simp: bind_eq_Some_conv)
  have p: "poke bs (c\<lparr>datanotbinflag := True\<rparr>) = Some d \<Longrightarrow> calm c (d\<lparr>datalinelen := n\<rparr>)" for bs d n by (auto simp: poke_def calm_def)
  have "calm c c1" using s(1) p by (auto simp: Let_def calm_def split: if_splits)
  also have "calm c1 c2" using s(2) by (auto split: if_splits dest: calm_flush)
  also have "calm c2 c3" using s(3) by (rule calm_poke)
  also have "calm c3 c'" using s(4) by (simp add: calm_def)
  finally show ?thesis .
qed

lemma calm_put_items: "put_items ev xs c = Some c' \<Longrightarrow> calm c c'"
  by (induction xs arbitrary: c) (auto simp: bind_eq_Some_conv intro: calm_trans dest: calm_putdata)

lemma calm_put_each: "put_each f ev is c = Some c' \<Longrightarrow> calm c c'"
  by (induction "is" arbitrary: c) (auto simp: bind_eq_Some_conv intro: calm_trans dest: calm_put_items)

lemma calm_putunqstr: "ctl_putunqstr ev t d c = Some c' \<Longrightarrow> calm c c'"
  by (auto simp: ctl_putunqstr_def split: if_splits dest: calm_putdata)

lemma calm_getitem: "ctl_getitem ev vl c = Some (i, c') \<Longrightarrow> calm c c'"
  unfolding ctl_getitem_def Let_def
  by (auto simp: bind_eq_Some_conv calm_def split: if_splits option.splits matched.splits prod.splits dest!: calm_ctl_error)

lemma calm_peer_wanted: "peer_wanted ev w g c = Some (r, c') \<Longrightarrow> calm c c'"
proof (induction ev w g c rule: peer_wanted.induct)
  case (1 ev w g c)
  show ?case
  proof (cases "ctl_getitem ev (Some peer_var) c")
    case None
    then show ?thesis using 1(2) by (simp add: peer_wanted.simps [of ev w g c])
  next
    case (Some z)
    obtain i d where z: "z = (i, d)" by (cases z)
    have s: "calm c d" using calm_getitem Some z by blast
    show ?thesis
    proof (cases i)
      case Item_none
      then show ?thesis using 1(2) Some z s by (simp add: peer_wanted.simps [of ev w g c])
    next
      case Item_eov
      then show ?thesis using 1(2) Some z s by (auto simp: peer_wanted.simps [of ev w g c] dest!: calm_ctl_error intro: calm_trans)
    next
      case (Item v t)
      then obtain w' where w: "set_want (unat (cv_code v)) w = Some w'" "peer_wanted ev w' True d = Some (r, c')"
        using 1(2) Some z by (auto simp: peer_wanted.simps [of ev w g c] split: option.splits)
      have "calm d c'" using 1(1) [OF Some z [symmetric] Item w] .
      with s show ?thesis by (rule calm_trans)
    qed
  qed
qed

lemma calm_wanted: "wanted ev t m e w g c = Some (r, c') \<Longrightarrow> calm c c'"
proof (induction ev t m e w g c rule: wanted.induct)
  case (1 ev t m e w g c)
  show ?case
  proof (cases "ctl_getitem ev (Some t) c")
    case None
    then show ?thesis using 1(3) by (simp add: wanted.simps [of ev t m e w g c])
  next
    case (Some z)
    obtain i d where z: "z = (i, d)" by (cases z)
    have s: "calm c d" using calm_getitem Some z by blast
    show ?thesis
    proof (cases i)
      case Item_none
      then show ?thesis using 1(3) Some z s by (simp add: wanted.simps [of ev t m e w g c])
    next
      case (Item v x)
      then obtain w' where w: "set_want (unat (cv_code v)) w = Some w'" "wanted ev t m e w' True d = Some (r, c')"
        using 1(3) Some z by (auto simp: wanted.simps [of ev t m e w g c] split: option.splits)
      have "calm d c'" using 1(2) [OF Some z [symmetric] Item w] .
      with s show ?thesis by (rule calm_trans)
    next
      case Item_eov
      show ?thesis
      proof (cases "ctl_getitem ev e d")
        case None
        then show ?thesis using 1(3) Some z Item_eov by (simp add: wanted.simps [of ev t m e w g c])
      next
        case y: (Some y)
        obtain j f where f: "y = (j, f)" by (cases y)
        have s2: "calm c f" using calm_getitem y f s calm_trans by blast
        show ?thesis
        proof (cases j)
          case Item_none
          then show ?thesis using 1(3) Some z Item_eov y f by (simp add: wanted.simps [of ev t m e w g c])
        next
          case j: Item_eov
          then show ?thesis using 1(3) Some z Item_eov y f s2 by (auto simp: wanted.simps [of ev t m e w g c] dest!: calm_ctl_error intro: calm_trans)
        next
          case (Item v x)
          then obtain w' where w: "set_want (unat (cv_code v) + m + 1) w = Some w'" "wanted ev t m e w' True f = Some (r, c')"
            using 1(3) Some z Item_eov y f by (auto simp: wanted.simps [of ev t m e w g c] split: option.splits)
          have "calm f c'" using 1(1) [OF Some z [symmetric] Item_eov y f [symmetric] Item w] .
          with s2 show ?thesis by (rule calm_trans)
        qed
      qed
    qed
  qed
qed

lemma calm_put_assocs: "put_assocs ev ps c = Some c' \<Longrightarrow> calm c c'"
proof (induction ev ps c rule: put_assocs.induct)
  case (1 ev ps c)
  show ?case
  proof (cases "ps = []")
    case True
    then show ?thesis using 1(2) put_assocs.simps [of ev ps c] by simp
  next
    case False
    obtain d where d: "ctl_putdata ev (concat (map (\<lambda>p. htons_bytes (associd (ctl_peer p c)) @ htons_bytes (ctlpeerstatus (ctl_peer p c))) (take (468 div 4) ps))) True c = Some d"
      "put_assocs ev (drop (468 div 4) ps) d = Some c'"
      using 1(2) False unfolding put_assocs.simps [of ev ps c] Let_def by (auto simp: bind_eq_Some_conv)
    have "calm d c'" using 1(1) [OF False refl] d by simp
    then show ?thesis using calm_putdata [OF d(1)] calm_trans by blast
  qed
qed

lemma calm_simps [simp]:
  "calm c (set_status st c)" "calm c (on_peer p (\<lambda>q. q\<lparr>num_events := 0\<rparr>) c)" "calm c (peer_found p c)" "calm c (snd (lookup_peer c))" "calm c (snd (ctlsettrap n a l t v c))" "calm c (snd (ctlclrtrap a l t c))" "calm c (snd (find_clock c))"
  by (auto simp: calm_def set_status_def on_peer_def peer_found_def lookup_peer_def findpeerbyassoc_def ctlsettrap_def ctlclrtrap_def find_clock_def Let_def events_daemon assocpeer_daemon
    split: option.splits prod.splits trap_type.splits)

lemma calm_sndD: "lookup_peer c = (p, d) \<Longrightarrow> calm c d" "find_clock c = (p, d) \<Longrightarrow> calm c d" "ctlsettrap n a l t v c = (b, d) \<Longrightarrow> calm c d" "ctlclrtrap a l t c = (b, d) \<Longrightarrow> calm c d"
  using calm_simps(4-7) by (metis snd_conv)+

text \<open>The same for a computation that may fail, with rules that follow its structure.\<close>

named_theorems calm_rules

definition calmly :: "ctl \<Rightarrow> ctl option \<Rightarrow> bool" where
  "calmly c m \<longleftrightarrow> (\<forall>d. m = Some d \<longrightarrow> calm c d)"

lemma calmly_bind [calm_rules]: "calmly c m \<Longrightarrow> (\<And>d. calm c d \<Longrightarrow> calmly c (f d)) \<Longrightarrow> calmly c (m \<bind> f)"
  by (auto simp: calmly_def bind_eq_Some_conv)

lemma calmly_bind_count [calm_rules]: "(\<And>n. calmly c (f n)) \<Longrightarrow> calmly c ((m :: u_short option) \<bind> f)"
  by (auto simp: calmly_def bind_eq_Some_conv)

lemma calmly_bind_peer_wanted [calm_rules]:
  "calm c d \<Longrightarrow> (\<And>r e. calm c e \<Longrightarrow> calmly c (f r e)) \<Longrightarrow> calmly c (peer_wanted ev w g d \<bind> (\<lambda>(r, e). f r e))"
  by (auto simp: calmly_def bind_eq_Some_conv) (metis calm_peer_wanted calm_trans)

lemma calmly_bind_wanted [calm_rules]:
  "calm c d \<Longrightarrow> (\<And>r e. calm c e \<Longrightarrow> calmly c (f r e)) \<Longrightarrow> calmly c (wanted ev t m x w g d \<bind> (\<lambda>(r, e). f r e))"
  by (auto simp: calmly_def bind_eq_Some_conv) (metis calm_wanted calm_trans)

lemma calmly_option [calm_rules]: "(x = None \<Longrightarrow> calmly c f) \<Longrightarrow> (\<And>y. x = Some y \<Longrightarrow> calmly c (g y)) \<Longrightarrow> calmly c (case x of None \<Rightarrow> f | Some y \<Rightarrow> g y)"
  by (cases x) auto

lemma calmly_prod [calm_rules]: "(\<And>x y. p = (x, y) \<Longrightarrow> calmly c (f x y)) \<Longrightarrow> calmly c (case p of (x, y) \<Rightarrow> f x y)"
  by (cases p) auto

lemma calmly_if [calm_rules]: "(b \<Longrightarrow> calmly c x) \<Longrightarrow> (\<not> b \<Longrightarrow> calmly c y) \<Longrightarrow> calmly c (if b then x else y)"
  by simp

lemma calmly_ops [calm_rules]:
  "calm c d \<Longrightarrow> calmly c (Some d)" "calm c d \<Longrightarrow> calmly c (ctl_flushpkt ev m d)" "calm c d \<Longrightarrow> calmly c (ctl_error ev e d)" "calm c d \<Longrightarrow> calmly c (put_items ev xs d)"
  "calm c d \<Longrightarrow> calmly c (put_each pf ev js d)" "calm c d \<Longrightarrow> calmly c (put_assocs ev ps d)" "calm c d \<Longrightarrow> calmly c (ctl_putdata ev dp bin d)"
  "calm c d \<Longrightarrow> calmly c (ctl_putunqstr ev tg tx d)" "calmly c None"
  unfolding calmly_def by (auto intro: calm_trans dest: calm_flush calm_ctl_error calm_put_items calm_put_each calm_put_assocs calm_putdata calm_putunqstr)

lemma calm_set_status [calm_rules]: "calm c d \<Longrightarrow> calm c (set_status st d)"
  by (simp add: calm_def set_status_def)

lemma calm_peer_found [calm_rules]: "calm c d \<Longrightarrow> calm c (peer_found p d)"
  using calm_simps(3) calm_trans by blast

lemma calmly_lookup [calm_rules]:
  "(\<And>d. calm c d \<Longrightarrow> calmly c (f d)) \<Longrightarrow> (\<And>p d. calm c d \<Longrightarrow> calmly c (g p d)) \<Longrightarrow> calmly c (case lookup_peer c of (None, d) \<Rightarrow> f d | (Some p, d) \<Rightarrow> g p d)"
  "(\<And>d. calm c d \<Longrightarrow> calmly c (f d)) \<Longrightarrow> (\<And>p d. calm c d \<Longrightarrow> calmly c (g p d)) \<Longrightarrow> calmly c (case find_clock c of (None, d) \<Rightarrow> f d | (Some p, d) \<Rightarrow> g p d)"
  by (auto split: prod.split option.split dest: calm_sndD)

lemma calmly_reads:
  "calmly c (control_unspec env c)" "calmly c (read_status env c)" "calmly c (read_peervars env c)" "calmly c (read_clockstatus env c)"
  unfolding control_unspec_def read_status_def read_peervars_def read_clockstatus_def put_peer_defaults_def Let_def
  by (intro calm_rules; (rule calm_refl | assumption))+

lemma calmly_read_sysvars: "calmly c (read_sysvars env c)"
proof -
  define d where "d = (let c = set_status (ctlsysstatus c) c in if res_authokay c then c\<lparr>ctl_sys_num_events := 0\<rparr> else c)"
  have d: "calm c d" by (simp add: d_def calm_def set_status_def Let_def)
  show ?thesis unfolding read_sysvars_def Let_def d_def [unfolded Let_def, symmetric] by (intro calm_rules; (rule d | assumption))
qed

lemma calmly_traps: "calmly c (set_trap env rb mk c)" "calmly c (unset_trap env rb mk c)"
proof -
  have "calmly c (case p of (ok, d) \<Rightarrow> (if ok then Some d else ctl_error ev e d) \<bind> ctl_flushpkt ev 0)" if "calm c (snd p)" for p ev e
    using that by (cases p) (auto intro!: calmly_bind calmly_ops)
  then show "calmly c (set_trap env rb mk c)" "calmly c (unset_trap env rb mk c)"
    unfolding set_trap_def unset_trap_def Let_def by (auto intro!: calmly_if calmly_ops(3))
qed

lemma calmly_req_nonce: "calmly c (req_nonce env rb c)"
  unfolding req_nonce_def by (intro calm_rules; (rule calm_refl | assumption))

text \<open>The two parts of this: the variables and the key, and the invariant of the daemon.\<close>

definition steady :: "ctl \<Rightarrow> ctl \<Rightarrow> bool" where
  "steady c c' \<longleftrightarrow> ext_sys_var c' = ext_sys_var c \<and> ctl_auth_keyid c' = ctl_auth_keyid c"

definition keeps :: "ctl \<Rightarrow> ctl option \<Rightarrow> bool" where
  "keeps c m \<longleftrightarrow> (\<forall>d. m = Some d \<longrightarrow> steady c d)"

definition preserves :: "ctl \<Rightarrow> ctl option \<Rightarrow> bool" where
  "preserves c m \<longleftrightarrow> (\<forall>d. m = Some d \<and> daemon_ok (dm c) \<longrightarrow> daemon_ok (dm d))"

lemma steady_refl [simp]: "steady c c"
  by (simp add: steady_def)

lemma steady_trans: "steady c d \<Longrightarrow> steady d e \<Longrightarrow> steady c e"
  by (simp add: steady_def)

lemma calmly_keeps: "calmly c m \<Longrightarrow> keeps c m" "calmly c m \<Longrightarrow> preserves c m"
  by (auto simp: calmly_def keeps_def preserves_def calm_def steady_def)

lemma steady_ctl_error: "ctl_error ev e c = Some c' \<Longrightarrow> steady c c'"
  using calm_ctl_error by (auto simp: calm_def steady_def)

lemmas calmly_handlers = calmly_reads calmly_read_sysvars calmly_traps calmly_req_nonce calmly_ops(3) [OF calm_refl]

lemma keeps_handler:
  assumes "keeps c (other_op env 10 rb mk c)" "res_opcode c \<notin> {3, 8, 9, 11}" "map_of control_codes (res_opcode c) = Some auth"
  shows "keeps c (ctl_handler env rb mk c)"
  using assms calmly_handlers [THEN calmly_keeps(1)]
  by (auto simp: control_codes_def ctl_handler_def Let_def read_variables_def write_clockstatus_def split: if_splits)

lemma steady_start_response [simp]: "steady c (start_response rb c)"
  by (simp add: start_response_def steady_def Let_def)

text \<open>What a message must carry to be taken as authentic.\<close>

definition mac_at :: "rbuf \<Rightarrow> nat" where
  "mac_at rb = (unat (be16_at rb 10) + 12 + 7) div 8 * 8"

lemma ctl_authenticate_cases:
  assumes "ctl_authenticate env rb c = Some c'"
  shows "steady c c'" "res_opcode c' = res_opcode c" "res_authokay c' \<Longrightarrow> \<not> res_authokay c \<Longrightarrow>
    res_keyid c' = be32_at rb (mac_at rb) \<and> sys_authenticate (dm c) \<and>
    (\<exists>ks ks'. authistrusted (res_keyid c') (keys (dm c)) = (True, ks) \<and>
       authdecrypt (ctl_evp env) (res_keyid c') (recv_buf rb) (mac_at rb) (recv_length rb - int (mac_at rb)) ks = Some (True, ks'))"
  using assms unfolding ctl_authenticate_def Let_def mac_at_def [symmetric]
  by (auto simp: steady_def bind_eq_Some_conv split: if_splits prod.splits)

lemma authdecrypt_zero: "authdecrypt ev 0 p n m s \<noteq> Some (True, s')"
  by (simp add: authdecrypt_def Let_def)

text \<open>Whoever changes a variable of the configuration or the key for writing has sent a message with a valid code under that key.\<close>

lemma process_control_writes:
  assumes "process_control env rb mk c = Some c'" "ext_sys_var c' \<noteq> ext_sys_var c \<or> ctl_auth_keyid c' \<noteq> ctl_auth_keyid c"
    "\<And>d. keeps d (other_op env 10 rb mk d)"
  shows "ctl_auth_keyid c \<noteq> 0 \<and> be32_at rb (mac_at rb) = ctl_auth_keyid c \<and>
    (\<exists>ks ks'. authistrusted (ctl_auth_keyid c) (keys (dm c)) = (True, ks) \<and>
       authdecrypt (ctl_evp env) (ctl_auth_keyid c) (recv_buf rb) (mac_at rb) (recv_length rb - int (mac_at rb)) ks = Some (True, ks'))"
proof -
  let ?c0 = "c\<lparr>numctlreq := numctlreq c + 1, rmt_addr := recv_srcadr rb, lcl_inter := rdstadr rb\<rparr>"
  let ?c1 = "start_response rb ?c0"
  have ns: "\<not> steady c c'" using assms(2) by (auto simp: steady_def)
  have s1: "steady c ?c1" using steady_start_response [of ?c0 rb] by (simp add: steady_def)
  have e: "steady c d" if "ctl_error ev er f = Some d" "steady c f" for ev er f d using that steady_ctl_error steady_trans by blast
  let ?f = "recv_length rb < 12 \<or> (CTL_RESPONSE OR CTL_MORE OR CTL_ERROR) AND byte_at rb 1 \<noteq> 0 \<or> be16_at rb 8 \<noteq> 0"
  let ?v = "PKT_VERSION (byte_at rb 0) > NTP_VERSION \<or> PKT_VERSION (byte_at rb 0) < NTP_OLDVERSION"
  let ?l = "recv_length rb - 12 < int (unat (be16_at rb 10)) \<or> recv_length rb mod 4 \<noteq> 0"
  have f: "\<not> ?f"
  proof
    assume f: ?f
    then have "c' = count_bad rb ?c0" using assms(1) unfolding process_control_def Let_def if_P [OF f] by simp
    then show False using ns by (simp add: count_bad_def steady_def Let_def)
  qed
  have v: "\<not> ?v" using assms(1) ns unfolding process_control_def Let_def if_not_P [OF f] by (auto simp: steady_def)
  have l: "\<not> ?l"
  proof
    assume l: ?l
    then obtain d where "ctl_error (ctl_evp env) 2 ?c1 = Some d" "c' = d\<lparr>numctldatatooshort := numctldatatooshort d + 1\<rparr>"
      using assms(1) unfolding process_control_def Let_def if_not_P [OF f] if_not_P [OF v] if_P [OF l] by auto
    then show False using e [OF _ s1] ns by (auto simp: steady_def)
  qed
  obtain c2 where a: "ctl_authenticate env rb ?c1 = Some c2"
    and r: "(let c = c2\<lparr>reqpt := map (\<lambda>i. byte_at rb (12 + i)) [0..<unat (be16_at rb 10)]\<rparr> in
             case map_of control_codes (res_opcode c) of
               None \<Rightarrow> ctl_error (ctl_evp env) CERR_BADOP (c\<lparr>numctlbadop := numctlbadop c + 1\<rparr>)
             | Some auth \<Rightarrow> if auth \<and> (\<not> res_authokay c \<or> res_keyid c \<noteq> ctl_auth_keyid c) then ctl_error (ctl_evp env) CERR_PERMISSION c else ctl_handler env rb mk c) = Some c'"
    using assms(1) unfolding process_control_def Let_def if_not_P [OF f] if_not_P [OF v] if_not_P [OF l] by (auto simp: bind_eq_Some_conv)
  define c3 where "c3 = c2\<lparr>reqpt := map (\<lambda>i. byte_at rb (12 + i)) [0..<unat (be16_at rb 10)]\<rparr>"
  note r = r [unfolded Let_def c3_def [symmetric]]
  note ac = ctl_authenticate_cases [OF a]
  have s3: "steady c c3" using steady_trans [OF s1 ac(1)] by (simp add: c3_def steady_def)
  obtain auth where m: "map_of control_codes (res_opcode c3) = Some auth"
  proof (cases "map_of control_codes (res_opcode c3)")
    case None
    then have "ctl_error (ctl_evp env) CERR_BADOP (c3\<lparr>numctlbadop := numctlbadop c3 + 1\<rparr>) = Some c'" using r by simp
    then show thesis using e [of _ _ _ c'] s3 ns by (auto simp: steady_def)
  qed
  have ok: "\<not> (auth \<and> (\<not> res_authokay c3 \<or> res_keyid c3 \<noteq> ctl_auth_keyid c3))" using r m e [OF _ s3] ns by (auto split: if_splits)
  have h: "ctl_handler env rb mk c3 = Some c'" using r unfolding m option.case if_not_P [OF ok] .
  have "res_opcode c3 \<in> {3, 8, 9, 11}"
  proof (rule ccontr)
    assume "res_opcode c3 \<notin> {3, 8, 9, 11}"
    then have "keeps c3 (ctl_handler env rb mk c3)" using keeps_handler [OF assms(3) _ m] by blast
    then show False using h s3 ns steady_trans by (auto simp: keeps_def)
  qed
  then have auth using m by (auto simp: control_codes_def)
  then have k: "res_authokay c2" "res_keyid c2 = ctl_auth_keyid c" using ok s3 by (auto simp: c3_def steady_def)
  have "\<not> res_authokay ?c1" "keys (dm ?c1) = keys (dm c)" by (simp_all add: start_response_def Let_def)
  then obtain ks ks' where "be32_at rb (mac_at rb) = ctl_auth_keyid c" "authistrusted (ctl_auth_keyid c) (keys (dm c)) = (True, ks)"
    "authdecrypt (ctl_evp env) (ctl_auth_keyid c) (recv_buf rb) (mac_at rb) (recv_length rb - int (mac_at rb)) ks = Some (True, ks')"
    using ac(3) k by auto
  moreover from this(3) have "ctl_auth_keyid c \<noteq> 0" using authdecrypt_zero by metis
  ultimately show ?thesis by blast
qed

section \<open>Traps\<close>

definition in_use :: "ctl_trap \<Rightarrow> bool" where
  "in_use t \<longleftrightarrow> TRAP_INUSE AND tr_flags t \<noteq> 0"

definition configured :: "ctl_trap \<Rightarrow> bool" where
  "configured t \<longleftrightarrow> TRAP_CONFIGURED AND tr_flags t \<noteq> 0"

definition scanned :: "u_int64 \<Rightarrow> ctl_trap \<Rightarrow> ctl_trap" where
  "scanned now t = (if trap_cleared now t then t\<lparr>tr_flags := 0\<rparr> else t)"

definition used_count :: "ctl_trap list \<Rightarrow> nat" where
  "used_count ts = length (filter in_use ts)"

lemma in_use_cleared [simp]: "\<not> in_use (t\<lparr>tr_flags := 0\<rparr>)"
  by (simp add: in_use_def)

lemma scanned_scanned [simp]: "scanned now (scanned now t) = scanned now t"
  by (simp add: scanned_def trap_cleared_def)

lemma used_count_update: "n < length ts \<Longrightarrow> used_count (ts[n := t]) + (if in_use (ts ! n) then 1 else 0) = used_count ts + (if in_use t then 1 else 0)"
proof (induction ts arbitrary: n)
  case (Cons x xs)
  show ?case
  proof (cases n)
    case (Suc m)
    then show ?thesis using Cons.IH [of m] Cons.prems by (simp add: used_count_def split: if_splits)
  qed (simp add: used_count_def)
qed simp

lemma trap_candidate_range: "trap_candidate ty ts n u = Some m \<Longrightarrow> m = n \<or> u = Some m"
  by (auto simp: trap_candidate_def Let_def split: if_splits option.splits trap_type.splits)

lemma trap_candidate_configured: "trap_candidate ty ts n u = Some m \<Longrightarrow> m = n \<Longrightarrow> u \<noteq> Some m \<Longrightarrow> \<not> in_use (ts ! n) \<or> \<not> configured (ts ! n)"
  by (auto simp: trap_candidate_def in_use_def configured_def Let_def split: if_splits option.splits trap_type.splits)

text \<open>The scan clears what \<open>trap_cleared\<close> names and counts it.\<close>

lemma trap_scan_result:
  assumes "trap_scan now ty [k..<length ts] u ts nt = (u', ts', nt')" "k \<le> length ts" "in_s32 nt" "int (used_count ts) \<le> nt" "\<And>m. u = Some m \<Longrightarrow> m < k \<and> \<not> (in_use (ts ! m) \<and> configured (ts ! m))"
  shows "ts' = take k ts @ map (scanned now) (drop k ts) \<and> nt' - int (used_count ts') = nt - int (used_count ts) \<and> in_s32 nt' \<and> nt' \<le> nt \<and> (\<forall>m. u' = Some m \<longrightarrow> m < length ts \<and> \<not> (in_use (ts' ! m) \<and> configured (ts' ! m)))"
  using assms
proof (induction "length ts - k" arbitrary: k u ts nt)
  case 0
  then show ?case by auto
next
  case (Suc i)
  then have k: "k < length ts" by simp
  have upt: "[k..<length ts] = k # [Suc k..<length ts]" using k by (simp add: upt_rec)
  define ts1 where "ts1 = ts[k := scanned now (ts ! k)]"
  define nt1 where "nt1 = (if trap_cleared now (ts ! k) then s32 (nt - 1) else nt)"
  have scan: "trap_scan now ty [Suc k..<length ts1] (trap_candidate ty ts1 k u) ts1 nt1 = (u', ts', nt')"
    using Suc.prems(1) unfolding upt by (auto simp: ts1_def nt1_def scanned_def Let_def list_update_id split: if_splits)
  have cl: "trap_cleared now (ts ! k) \<Longrightarrow> in_use (ts ! k)" by (simp add: trap_cleared_def in_use_def)
  have u: "used_count ts1 = used_count ts - (if trap_cleared now (ts ! k) then 1 else 0)" "trap_cleared now (ts ! k) \<Longrightarrow> 0 < used_count ts"
    using used_count_update [OF k, of "scanned now (ts ! k)"] cl by (auto simp: ts1_def scanned_def split: if_splits)
  have n1: "nt1 = nt - (if trap_cleared now (ts ! k) then 1 else 0)" using Suc.prems(3,4) u(2) by (auto simp: nt1_def s32_id in_s32_def)
  have h: "i = length ts1 - Suc k" "Suc k \<le> length ts1" using Suc.hyps(2) k by (simp_all add: ts1_def)
  have "in_s32 nt1" "int (used_count ts1) \<le> nt1" "nt1 \<le> nt" using Suc.prems(3,4) n1 u by (auto simp: in_s32_def)
  moreover have "m < Suc k \<and> \<not> (in_use (ts1 ! m) \<and> configured (ts1 ! m))" if "trap_candidate ty ts1 k u = Some m" for m
  proof (cases "u = Some m")
    case True
    then show ?thesis using Suc.prems(5) [OF True] by (simp add: ts1_def)
  next
    case False
    then have "m = k" using trap_candidate_range [OF that] by blast
    then show ?thesis using trap_candidate_configured [OF that _ False] by auto
  qed
  ultimately have r: "ts' = take (Suc k) ts1 @ map (scanned now) (drop (Suc k) ts1) \<and> nt' - int (used_count ts') = nt1 - int (used_count ts1) \<and> in_s32 nt' \<and> nt' \<le> nt1 \<and> (\<forall>m. u' = Some m \<longrightarrow> m < length ts1 \<and> \<not> (in_use (ts' ! m) \<and> configured (ts' ! m)))"
    using Suc.hyps(1) [OF h(1) scan h(2)] by blast
  have t: "take (Suc k) ts1 @ map (scanned now) (drop (Suc k) ts1) = take k ts @ map (scanned now) (drop k ts)"
  proof -
    have "take (Suc k) ts1 = take k ts @ [scanned now (ts ! k)]" using k by (simp add: ts1_def take_Suc_conv_app_nth)
    moreover have "drop (Suc k) ts1 = drop (Suc k) ts" by (simp add: ts1_def)
    moreover have "drop k ts = ts ! k # drop (Suc k) ts" using k by (simp add: Cons_nth_drop_Suc)
    ultimately show ?thesis by simp
  qed
  have d: "nt1 - int (used_count ts1) = nt - int (used_count ts)" using n1 u by (auto simp: of_nat_diff)
  have "nt1 \<le> nt" using n1 by simp
  moreover have "length ts1 = length ts" by (simp add: ts1_def)
  ultimately show ?case using r t d by auto
qed

text \<open>Setting a trap for a new address ends every trap that was set by a message and has not expired, and keeps those that have.\<close>

lemma ctlsettrap_new:
  assumes "ctlfindtrap ra linter (ctl_traps c) = None" "in_s32 (num_ctl_traps c)" "int (used_count (ctl_traps c)) \<le> num_ctl_traps c"
  shows "\<exists>u. ctl_traps (snd (ctlsettrap now ra linter ty v c)) =
      (case u of None \<Rightarrow> map (scanned now) (ctl_traps c)
       | Some n \<Rightarrow> (map (scanned now) (ctl_traps c))[n := new_trap now ra linter ty v]) \<and>
    fst (ctlsettrap now ra linter ty v c) = (u \<noteq> None) \<and> (\<forall>n. u = Some n \<longrightarrow> n < length (ctl_traps c) \<and> \<not> (in_use (scanned now (ctl_traps c ! n)) \<and> configured (ctl_traps c ! n))) \<and>
    (num_ctl_traps c < 2 ^ 31 - 1 \<longrightarrow> int (used_count (ctl_traps (snd (ctlsettrap now ra linter ty v c)))) \<le> num_ctl_traps (snd (ctlsettrap now ra linter ty v c)))"
proof -
  obtain u ts nt where s: "trap_scan now ty [0..<length (ctl_traps c)] None (ctl_traps c) (num_ctl_traps c) = (u, ts, nt)" by (metis prod_cases3)
  have r: "ts = map (scanned now) (ctl_traps c)" "nt - int (used_count ts) = num_ctl_traps c - int (used_count (ctl_traps c))" "in_s32 nt" "nt \<le> num_ctl_traps c" "\<forall>n. u = Some n \<longrightarrow> n < length (ctl_traps c) \<and> \<not> (in_use (ts ! n) \<and> configured (ts ! n))"
    using trap_scan_result [OF s _ assms(2,3)] by auto
  show ?thesis
  proof (cases u)
    case None
    then show ?thesis using r(1-4) assms(3) by (intro exI [of _ None]) (simp add: ctlsettrap_def assms(1) s)
  next
    case (Some n)
    let ?t = "new_trap now ra linter ty v"
    have n: "n < length ts" using r(1,5) Some by simp
    have "used_count (ts[n := ?t]) \<le> used_count ts + 1" using used_count_update [OF n, of ?t] by (auto split: if_splits)
    moreover have "num_ctl_traps c < 2 ^ 31 - 1 \<longrightarrow> s32 (nt + 1) = nt + 1" using r(3,4) by (simp add: s32_id in_s32_def)
    moreover have "\<not> (in_use (scanned now (ctl_traps c ! n)) \<and> configured (ctl_traps c ! n))" using r(1,5) Some by (auto simp: scanned_def split: if_splits)
    ultimately show ?thesis using r(1,2,4,5) assms(3) Some by (intro exI [of _ u]) (auto simp: ctlsettrap_def assms(1) s Let_def)
  qed
qed

section \<open>Events\<close>

text \<open>Of the events of the system, those that repeat are dropped; of those of a peer, those that do not.\<close>

lemma count_event_system:
  "fst (count_event err None c) \<longleftrightarrow> ctl_sys_last_event c \<noteq> word_of_int err \<or> ctl_sys_num_events c < 15"
  by (auto simp: count_event_def Let_def not_le)

lemma ctl_peer_on_peer [simp]: "ctl_peer p (on_peer p f c) = f (ctl_peer p c)"
  by (simp add: ctl_peer_def on_peer_def upd_peer_def)

lemma count_event_peer:
  "fst (count_event err (Some p) c) \<longleftrightarrow> last_event (ctl_peer p c) = word_of_int err AND NOT 0x80 \<or> num_events (ctl_peer p c) < 15"
  by (auto simp: count_event_def Let_def not_le)

section \<open>Properties\<close>

fun event_run :: "int \<Rightarrow> addr option \<Rightarrow> nat \<Rightarrow> ctl \<Rightarrow> bool list" where
  "event_run err p 0 c = []"
| "event_run err p (Suc n) c = (let (r, d) = count_event err p c in r # event_run err p n d)"

lemma event_run_system:
  "ctl_sys_last_event c = word_of_int err \<Longrightarrow> unat (ctl_sys_num_events c) \<le> 15 \<Longrightarrow>
   event_run err None n c = replicate (min n (15 - unat (ctl_sys_num_events c))) True @ replicate (n - (15 - unat (ctl_sys_num_events c))) False"
proof (induction n arbitrary: c)
  case (Suc n)
  show ?case
  proof (cases "ctl_sys_num_events c < 15")
    case False
    then have "ctl_sys_num_events c = 15" using Suc.prems(2) by (simp add: word_less_nat_alt word_unat_eq_iff)
    then show ?thesis using Suc.IH [of c] Suc.prems by (simp add: count_event_def Let_def)
  next
    case True
    let ?d = "c\<lparr>ctl_sys_last_event := word_of_int err, ctl_sys_num_events := ctl_sys_num_events c + 1\<rparr>"
    have l: "unat (ctl_sys_num_events c) < 15" using True by (simp add: word_less_nat_alt)
    then have u: "unat (ctl_sys_num_events c + 1) = Suc (unat (ctl_sys_num_events c))" by (simp add: unat_word_ariths)
    have e: "count_event err None c = (True, ?d)" using True Suc.prems(1) by (simp add: count_event_def Let_def)
    have "15 - unat (ctl_sys_num_events c) = Suc (15 - unat (ctl_sys_num_events ?d))" using l u by simp
    then show ?thesis using Suc.IH [of ?d] u l by (simp add: e)
  qed
qed simp

lemma event_run_peer: "last_event (ctl_peer p c) = word_of_int err AND NOT 0x80 \<Longrightarrow> event_run err (Some p) n c = replicate n True"
proof (induction n arbitrary: c)
  case (Suc n)
  obtain d where d: "count_event err (Some p) c = (True, d)" "last_event (ctl_peer p d) = word_of_int err AND NOT 0x80"
    using Suc.prems by (auto simp: count_event_def Let_def)
  then show ?case using Suc.IH by simp
qed simp

lemma event_run_full:
  "num_events (ctl_peer p c) \<ge> 15 \<Longrightarrow> last_event (ctl_peer p c) \<noteq> word_of_int err AND NOT 0x80 \<Longrightarrow> event_run err (Some p) n c = replicate n False"
proof (induction n)
  case (Suc n)
  then have "count_event err (Some p) c = (False, c)" by (simp add: count_event_def Let_def)
  then show ?case using Suc by simp
qed simp

text \<open>C36: An event of the system that repeats is reported fifteen times and then dropped.  An event of a peer that repeats is reported every time when it is the peer's last event
  or fewer than fifteen events of the peer are counted, although the comment says that reports of the same type are limited: the count is reset when the event is the same
  as the last one, and not when it differs.  When fifteen are counted, an event other than the last one is dropped every time, as it is not remembered as the last one.\<close>

theorem repeated_events_reported:
  assumes "ctl_sys_last_event c \<noteq> word_of_int err"
  shows "event_run err None n c = replicate (min n 15) True @ replicate (n - 15) False \<and>
    event_run err (Some p) n c = replicate n (last_event (ctl_peer p c) = word_of_int err AND NOT 0x80 \<or> num_events (ctl_peer p c) < 15)"
proof (cases n)
  case (Suc m)
  let ?d = "c\<lparr>ctl_sys_last_event := word_of_int err, ctl_sys_num_events := 1\<rparr>"
  let ?r = "last_event (ctl_peer p c) = word_of_int err AND NOT 0x80 \<or> num_events (ctl_peer p c) < 15"
  have "count_event err None c = (True, ?d)" using assms(1) by (simp add: count_event_def Let_def)
  then have "event_run err None n c = replicate (min n 15) True @ replicate (n - 15) False"
    using event_run_system [of ?d err m] Suc by simp
  moreover have "event_run err (Some p) n c = replicate n ?r"
  proof (cases ?r)
    case True
    obtain e where "count_event err (Some p) c = (True, e)" "last_event (ctl_peer p e) = word_of_int err AND NOT 0x80"
      using True by (cases "last_event (ctl_peer p c) = word_of_int err AND NOT 0x80") (simp_all add: count_event_def Let_def not_le [symmetric])
    then show ?thesis using event_run_peer Suc True by simp
  next
    case False
    then show ?thesis using event_run_full [of p c err n] by (simp add: not_less)
  qed
  ultimately show ?thesis by simp
qed simp

theorem repeated_events_reported_witness:
  "event_run 3 None 20 idle_ctl = replicate 15 True @ replicate 5 False \<and> event_run 0x83 (Some 0) 20 idle_ctl = replicate 20 True"
proof -
  have p: "num_events (ctl_peer 0 idle_ctl) < 15" by (simp add: idle_ctl_def demo_daemon_def ctl_peer_def demo_peers_def init_peer_def peer_zero_def zero_peer_def Let_def)
  have "ctl_sys_last_event idle_ctl \<noteq> word_of_int 3" "ctl_sys_last_event idle_ctl \<noteq> word_of_int 0x83" by (simp_all add: idle_ctl_def)
  from repeated_events_reported [OF this(1), of 20 0] repeated_events_reported [OF this(2), of 20 0] p show ?thesis by simp
qed

text \<open>C35: Setting a trap for a new address leaves the configured traps alone.  Of the others it ends those set within the last hour, and keeps those that are older,
  unless the new one takes their place; the comment says that it clears the expired ones.  The count of traps never falls below the number in use.\<close>

theorem new_trap_ends_recent_traps:
  assumes "ctlfindtrap ra linter (ctl_traps c) = None" "in_s32 (num_ctl_traps c)" "num_ctl_traps c < 2 ^ 31 - 1" "int (used_count (ctl_traps c)) \<le> num_ctl_traps c"
    "n < length (ctl_traps c)" "in_use (ctl_traps c ! n)" "ctlsettrap now ra linter ty v c = (ok, c')"
  shows "(configured (ctl_traps c ! n) \<longrightarrow> ctl_traps c' ! n = ctl_traps c ! n) \<and>
    (\<not> configured (ctl_traps c ! n) \<and> now < tr_settime (ctl_traps c ! n) + 3600 \<longrightarrow> \<not> in_use (ctl_traps c' ! n) \<or> tr_addr (ctl_traps c' ! n) = ra \<and> tr_origtime (ctl_traps c' ! n) = now) \<and>
    (\<not> configured (ctl_traps c ! n) \<and> tr_settime (ctl_traps c ! n) + 3600 \<le> now \<longrightarrow>
       ctl_traps c' ! n = ctl_traps c ! n \<or> tr_addr (ctl_traps c' ! n) = ra \<and> tr_origtime (ctl_traps c' ! n) = now) \<and>
    int (used_count (ctl_traps c')) \<le> num_ctl_traps c'"
proof -
  let ?t = "ctl_traps c ! n"
  obtain u where u: "ctl_traps c' = (case u of None \<Rightarrow> map (scanned now) (ctl_traps c)
       | Some n \<Rightarrow> (map (scanned now) (ctl_traps c))[n := new_trap now ra linter ty v])"
    "\<forall>n. u = Some n \<longrightarrow> \<not> (in_use (scanned now (ctl_traps c ! n)) \<and> configured (ctl_traps c ! n))" "int (used_count (ctl_traps c')) \<le> num_ctl_traps c'"
    using ctlsettrap_new [OF assms(1,2,4), of now ty v] assms(3,7) by (metis snd_conv)
  have sc: "configured ?t \<Longrightarrow> scanned now ?t = ?t" "\<not> configured ?t \<Longrightarrow> now < tr_settime ?t + 3600 \<Longrightarrow> \<not> in_use (scanned now ?t)"
    "tr_settime ?t + 3600 \<le> now \<Longrightarrow> scanned now ?t = ?t"
    using assms(6) by (auto simp: scanned_def trap_cleared_def configured_def in_use_def)
  have r: "ctl_traps c' ! n = scanned now ?t \<or> u = Some n \<and> tr_addr (ctl_traps c' ! n) = ra \<and> tr_origtime (ctl_traps c' ! n) = now"
  proof (cases "u = Some n")
    case True
    then show ?thesis using u(1) assms(5) by (simp add: new_trap_def)
  next
    case False
    then show ?thesis using u(1) assms(5) by (cases u) simp_all
  qed
  have "configured ?t \<Longrightarrow> u \<noteq> Some n" using u(2) sc(1) assms(6) by auto
  then show ?thesis using r sc u(3) by auto
qed

definition demo_trap :: "u_int32 \<Rightarrow> u_int64 \<Rightarrow> u_char \<Rightarrow> ctl_trap" where
  "demo_trap a t fl = \<lparr>tr_addr = SA4 a 123, tr_localaddr = 0, tr_settime = t, tr_count = 0, tr_origtime = t, tr_resets = 0, tr_sequence = 1, tr_flags = fl, tr_version = 2\<rparr>"

theorem new_trap_ends_recent_traps_witness:
  "let c = idle_ctl\<lparr>ctl_traps := [demo_trap 1 9990 1, demo_trap 2 10 1, demo_trap 3 10 5], num_ctl_traps := 3\<rparr>; c' = snd (ctlsettrap 10000 (SA4 9 123) 0 TRAP_TYPE_PRIO 2 c)
   in (\<not> in_use (ctl_traps c' ! 0) \<or> tr_addr (ctl_traps c' ! 0) = SA4 9 123 \<and> tr_origtime (ctl_traps c' ! 0) = 10000) \<and> int (used_count (ctl_traps c')) \<le> num_ctl_traps c'"
proof -
  let ?c = "idle_ctl\<lparr>ctl_traps := [demo_trap 1 9990 1, demo_trap 2 10 1, demo_trap 3 10 5], num_ctl_traps := 3\<rparr>"
  obtain ok c' where s: "ctlsettrap 10000 (SA4 9 123) 0 TRAP_TYPE_PRIO 2 ?c = (ok, c')" by (cases "ctlsettrap 10000 (SA4 9 123) 0 TRAP_TYPE_PRIO 2 ?c")
  have f: "ctlfindtrap (SA4 9 123) 0 (ctl_traps ?c) = None" by (simp add: ctlfindtrap_def demo_trap_def ADDR_PORT_EQ_iff find_None_iff nth_Cons split: nat.split)
  have "int (used_count (ctl_traps ?c)) \<le> num_ctl_traps ?c" "in_use (ctl_traps ?c ! 0)" by (simp_all add: used_count_def in_use_def demo_trap_def)
  moreover have "0 < length (ctl_traps ?c)" "in_s32 (num_ctl_traps ?c)" "num_ctl_traps ?c < 2 ^ 31 - 1" by (simp_all add: in_s32_def)
  moreover have "\<not> configured (ctl_traps ?c ! 0)" "10000 < tr_settime (ctl_traps ?c ! 0) + 3600" by (simp_all add: configured_def demo_trap_def)
  ultimately have "(\<not> in_use (ctl_traps c' ! 0) \<or> tr_addr (ctl_traps c' ! 0) = SA4 9 123 \<and> tr_origtime (ctl_traps c' ! 0) = 10000) \<and> int (used_count (ctl_traps c')) \<le> num_ctl_traps c'"
    using new_trap_ends_recent_traps [OF f _ _ _ _ _ s, of 0] by blast
  then show ?thesis by (simp add: s Let_def)
qed

text \<open>C9: Variables of the configuration, and the key that permits writing, change only on a message whose code is valid under that key, a trusted one other than zero.
  Handlers outside the model are those of \<^verbatim>\<open>saveconfig\<close>, \<^verbatim>\<open>mrulist\<close> and \<^verbatim>\<open>ordlist\<close>; the second is reachable without a key and writes no variable.\<close>

theorem control_writes_authenticated:
  assumes "process_control env rb mk c = Some c'" "ext_sys_var c' \<noteq> ext_sys_var c \<or> ctl_auth_keyid c' \<noteq> ctl_auth_keyid c"
    "\<And>d. keeps d (other_op env 10 rb mk d)"
  shows "ctl_auth_keyid c \<noteq> 0 \<and> be32_at rb (mac_at rb) = ctl_auth_keyid c \<and>
    (\<exists>ks ks'. authistrusted (ctl_auth_keyid c) (keys (dm c)) = (True, ks) \<and>
       authdecrypt (ctl_evp env) (ctl_auth_keyid c) (recv_buf rb) (mac_at rb) (recv_length rb - int (mac_at rb)) ks = Some (True, ks'))"
  using process_control_writes [OF assms] .

text \<open>The environment of the examples: every digest is the same, and every variable has a short text.\<close>

definition demo_cenv :: cenv where
  "demo_cenv = \<lparr>ctl_evp = (\<lambda>_ _. Some (replicate 16 7)), ctl_now = 100, sys_items = (\<lambda>i _. [bytes ''x='' @ bytes (show_dec i)]), peer_items = (\<lambda>i _ _. [bytes ''y='' @ bytes (show_dec i)]),
     clock_items = (\<lambda>i _ _ _. []), refclock_stat = (\<lambda>_ _. \<lparr>cs_lastevent = 0, cs_currentstatus = 0, cs_kv_list = None\<rparr>), config_remotely = (\<lambda>_ _ c. Some (0, [], c)),
     derive_nonce = (\<lambda>_ _ _. 0), other_op = (\<lambda>_ _ _ c. Some c)\<rparr>"

definition demo_write :: "u_char list" where
  "demo_write = [0x16, 3, 0, 1, 0, 0, 0, 0, 0, 0, 0, 5] @ bytes ''foo=7'' @ replicate 7 0 @ [0, 0, 0, 1] @ replicate 16 7"

definition demo_server :: ctl where
  "demo_server = idle_ctl\<lparr>ext_sys_var := Some [\<lparr>cv_code = 0, cv_flags = 3, cv_text = bytes ''foo=1''\<rparr>], ctl_auth_keyid := 1,
     dm := demo_daemon\<lparr>keys := auth_zero\<lparr>cache_keyid := 1, cache_flags := 1, cache_type := 4, cache_secret := Some 0, cache_secretsize := 1, smem := [0 \<mapsto> [1]]\<rparr>\<rparr>\<rparr>"

lemma demo_write_done: "map_option (\<lambda>c. map_option (map cv_text) (ext_sys_var c)) (process_control demo_cenv (demo_rbuf 44 demo_write) 0 demo_server) = Some (Some [bytes ''foo=7''])"
  by code_simp

theorem control_writes_authenticated_witness:
  "be32_at (demo_rbuf 44 demo_write) (mac_at (demo_rbuf 44 demo_write)) = 1 \<and> (\<exists>ks ks'. authistrusted 1 (keys (dm demo_server)) = (True, ks) \<and>
     authdecrypt (ctl_evp demo_cenv) 1 demo_write (mac_at (demo_rbuf 44 demo_write)) (44 - int (mac_at (demo_rbuf 44 demo_write))) ks = Some (True, ks'))"
proof -
  obtain c' where c: "process_control demo_cenv (demo_rbuf 44 demo_write) 0 demo_server = Some c'" "map_option (map cv_text) (ext_sys_var c') = Some [bytes ''foo=7'']"
    using demo_write_done by auto
  have "map_option (map cv_text) (ext_sys_var demo_server) = Some [bytes ''foo=1'']" by (simp add: demo_server_def)
  then have "ext_sys_var c' \<noteq> ext_sys_var demo_server" using c(2) by (auto simp: bytes_def)
  moreover have "keeps d (other_op demo_cenv 10 (demo_rbuf 44 demo_write) 0 d)" for d by (simp add: demo_cenv_def keeps_def)
  moreover have "ctl_auth_keyid demo_server = 1" by (simp add: demo_server_def)
  ultimately show ?thesis using control_writes_authenticated [OF c(1)] by (simp add: demo_rbuf_def)
qed

lemma match_name_given: "61 \<notin> set name \<Longrightarrow> match_name (name @ 61 # old) (name @ r) = Some r"
  by (induction name) auto

lemma match_list_append: "match_list req us = None \<Longrightarrow> match_list req (us @ vs) = match_list req vs"
  by (induction us) (auto split: matched.splits)

lemma wanted_aborts:
  assumes "ctl_getitem ev (Some t) c = Some (Item_eov, c1)" "ctl_getitem ev e c1 = None \<or> (\<exists>c2. ctl_getitem ev e c1 = Some (Item_none, c2))"
  shows "wanted ev t m e w g c = None"
  using assms by (auto simp: wanted.simps [of ev t m e w g c])

lemma byte_at_list: "recv_buf rb = bs \<Longrightarrow> i < length bs \<Longrightarrow> byte_at rb i = bs ! i"
  by (simp add: byte_at_def)

text \<open>C34: When a variable of the configuration exists (\<^verbatim>\<open>getconfig\<close> always installs \<^verbatim>\<open>daemon_version\<close>), a request to read that variable which gives it a value of 128 octets
  or more, from anyone and without a key, ends the daemon: the reader of items sends an error and returns \<^verbatim>\<open>NULL\<close>, which the caller takes for impossible.  The name is one that
  matches neither a variable of the system nor one installed before it.\<close>

theorem long_value_ends_daemon:
  assumes "ext_sys_var c = Some (us @ v # vs)" "cv_text v = name @ 61 # old" "PADDING AND cv_flags v = 0"
    "recv_buf rb = [0x16, 2, s1, s2, 0, 0, 0, 0, 0, 0] @ htons_bytes (of_nat (length req)) @ req" "recv_length rb = int (length (recv_buf rb))"
    "req = name @ 61 # val" "128 \<le> length val" "length req \<le> 468" "length req mod 4 = 0" "\<forall>b\<in>set val. b \<noteq> 44 \<and> \<not> isspace_b b"
    "name \<noteq> []" "61 \<notin> set name" "hd name \<noteq> 44 \<and> \<not> isspace_b (hd name)" "match_list req sys_var = None" "match_list req us = None"
  shows "process_control env rb mk c = None"
proof -
  let ?n = "length req"
  have lb: "length (recv_buf rb) = 12 + ?n" unfolding assms(4) by (simp add: htons_bytes_def)
  have b: "byte_at rb 0 = 0x16" "byte_at rb 1 = 2" "byte_at rb 6 = 0" "byte_at rb 7 = 0" "byte_at rb 8 = 0" "byte_at rb 9 = 0" unfolding byte_at_def lb by (simp_all add: assms(4))
  have u: "be16_at rb 10 = of_nat ?n"
  proof -
    have "byte_at rb 10 = ucast (drop_bit 8 (of_nat ?n :: u_short))" "byte_at rb 11 = ucast (of_nat ?n :: u_short)" unfolding byte_at_def lb by (simp_all add: assms(4) htons_bytes_def)
    moreover have "be16_at rb 10 = push_bit 8 (ucast (byte_at rb 10)) OR ucast (byte_at rb 11)" by (simp add: be16_at_def)
    ultimately show ?thesis by (simp only: ntohs_htons)
  qed
  have un: "unat (be16_at rb 10) = ?n" unfolding u unat_of_nat using assms(8) by (simp add: take_bit_nat_eq_self)
  have req: "map (\<lambda>i. byte_at rb (12 + i)) [0..<?n] = req"
  proof (rule nth_equalityI)
    fix i
    assume "i < length (map (\<lambda>i. byte_at rb (12 + i)) [0..<?n])"
    then have i: "i < ?n" by simp
    have d: "recv_buf rb = ([0x16, 2, s1, s2, 0, 0, 0, 0, 0, 0] @ htons_bytes (of_nat ?n)) @ req" using assms(4) by simp
    have "length ([0x16, 2, s1, s2, 0, 0, 0, 0, 0, 0] @ htons_bytes (of_nat ?n)) = 12" by (simp add: htons_bytes_def)
    then have "recv_buf rb ! (12 + i) = req ! i" unfolding d by (metis nth_append_length_plus)
    then show "map (\<lambda>i. byte_at rb (12 + i)) [0..<?n] ! i = req ! i" using i lb by (simp add: byte_at_def del: upt_Suc)
  qed simp
  let ?c0 = "c\<lparr>numctlreq := numctlreq c + 1, rmt_addr := recv_srcadr rb, lcl_inter := rdstadr rb\<rparr>"
  define c1 where "c1 = start_response rb ?c0"
  have z: "be16_at rb 6 = 0" "be16_at rb 8 = 0" using b by (simp_all add: be16_at_def)
  have c1: "res_opcode c1 = 2" "res_associd c1 = 0" "ext_sys_var c1 = Some (us @ v # vs)" using b(2) z(1) assms(1) by (simp_all add: c1_def start_response_def Let_def)
  define c3 where "c3 = c1\<lparr>reqpt := req\<rparr>"
  have a: "ctl_authenticate env rb c1 = Some c1"
  proof -
    have "recv_length rb - int ((?n + 12 + 7) div 8 * 8) < 4" unfolding assms(5) lb by linarith
    then show ?thesis unfolding ctl_authenticate_def Let_def un by simp
  qed
  have rs: "read_sysvars env c3 = None"
  proof -
    define c4 where "c4 = (if res_authokay (set_status (ctlsysstatus c3) c3) then (set_status (ctlsysstatus c3) c3)\<lparr>ctl_sys_num_events := 0\<rparr> else set_status (ctlsysstatus c3) c3)"
    have c4: "reqpt c4 = req" "ext_sys_var c4 = Some (us @ v # vs)" using c1(3) by (simp_all add: c4_def c3_def set_status_def)
    obtain a r where ar: "req = a # r" "\<not> (a = 44 \<or> isspace_b a)" using assms(6,11,13) by (cases name) simp_all
    have dq: "dropWhile (\<lambda>b. b = 44 \<or> isspace_b b) (reqpt c4) = reqpt c4" "reqpt c4 \<noteq> []" unfolding c4(1) ar(1) dropWhile.simps(2) if_not_P [OF ar(2)] by simp_all
    have ns: "match_list (reqpt c4) sys_var = None" unfolding c4(1) by (rule assms(14))
    have g1: "ctl_getitem (ctl_evp env) (Some sys_var) c4 = Some (Item_eov, c4)" unfolding ctl_getitem_def Let_def dq(1) using dq(2) ns by simp
    have mv: "match_var (reqpt c4) v = Too_long"
    proof -
      have dw: "dropWhile (\<lambda>b. isspace_b b) val = val" "takeWhile (\<lambda>b. b \<noteq> 44) val = val" using assms(10) by (cases val; force simp: takeWhile_eq_all_conv)+
      have mn: "match_name (cv_text v) (reqpt c4) = Some (61 # val)" unfolding assms(2,6) c4(1) using assms(12) by (rule match_name_given)
      have hd: "hd (reqpt c4) = hd (cv_text v @ [0])" unfolding assms(2,6) c4(1) using assms(11) by (cases name) simp_all
      show ?thesis unfolding match_var_def mn hd by (simp add: assms(3,7) dw Let_def)
    qed
    have ml: "match_list (reqpt c4) (us @ v # vs) = Some (v, Too_long)" using mv match_list_append assms(15) by (simp add: c4(1))
    have g2: "ctl_getitem (ctl_evp env) (ext_sys_var c4) c4 = None \<or> (\<exists>c2. ctl_getitem (ctl_evp env) (ext_sys_var c4) c4 = Some (Item_none, c2))"
      unfolding ctl_getitem_def Let_def c4(2) dq(1) using ml dq(2) by (cases "ctl_error (ctl_evp env) 2 c4") auto
    show ?thesis unfolding read_sysvars_def Let_def c4_def [symmetric] wanted_aborts [OF g1 g2] by (cases "count_var (ext_sys_var c4)") simp_all
  qed
  have f: "\<not> (recv_length rb < 12 \<or> (CTL_RESPONSE OR CTL_MORE OR CTL_ERROR) AND byte_at rb 1 \<noteq> 0 \<or> be16_at rb 8 \<noteq> 0)" using b z assms(5) lb by simp
  have ve: "\<not> (PKT_VERSION (byte_at rb 0) > NTP_VERSION \<or> PKT_VERSION (byte_at rb 0) < NTP_OLDVERSION)" unfolding b by (simp add: PKT_VERSION_def)
  have l: "\<not> (recv_length rb - 12 < int (unat (be16_at rb 10)) \<or> recv_length rb mod 4 \<noteq> 0)" unfolding un assms(5) lb using assms(9) by presburger
  have "ctl_handler env rb mk c3 = None" using rs c1 by (simp add: ctl_handler_def Let_def read_variables_def c3_def)
  moreover have "map_of control_codes (res_opcode c3) = Some False" using c1(1) by (simp add: control_codes_def c3_def)
  ultimately show ?thesis unfolding process_control_def Let_def if_not_P [OF f] if_not_P [OF ve] c1_def [symmetric] if_not_P [OF l] a bind.bind_lunit
    unfolding un req c3_def [symmetric] by simp
qed

text \<open>The server as \<^verbatim>\<open>getconfig\<close> leaves it, and after \<^verbatim>\<open>saveconfig\<close>.\<close>

definition demo_vars :: "ctl_var list" where
  "demo_vars = [\<lparr>cv_code = 0, cv_flags = 1, cv_text = bytes ''daemon_version=x''\<rparr>, \<lparr>cv_code = 1, cv_flags = 1, cv_text = bytes ''savedconfig=a''\<rparr>]"

definition demo_long :: "u_char list \<Rightarrow> u_char list" where
  "demo_long req = [0x16, 2, 0, 1, 0, 0, 0, 0, 0, 0] @ htons_bytes (of_nat (length req)) @ req"

definition demo_value :: "string \<Rightarrow> nat \<Rightarrow> u_char list" where
  "demo_value name n = bytes name @ 61 # replicate n 65"

lemma demo_vars_set:
  "map_option ext_sys_var (set_sys_var (bytes ''daemon_version=x'') 1 idle_ctl) = Some (Some (take 1 demo_vars))"
  "map_option ext_sys_var (set_sys_var (bytes ''savedconfig=a'') 1 (idle_ctl\<lparr>ext_sys_var := Some (take 1 demo_vars)\<rparr>)) = Some (Some demo_vars)"
  by (simp_all add: set_sys_var_def set_var_def add_var_def count_var_def ext_list_def demo_vars_def idle_ctl_def bytes_def)

lemma no_system_match: "match_list (115 # 97 # r) sys_var = None" "match_list (100 # 97 # r) sys_var = None"
  by (simp_all add: sys_var_def var_entry_def bytes_def match_var_def)

lemma demo_value_facts:
  "length (demo_value ''daemon_version'' 129) = 144" "length (demo_value ''savedconfig'' 128) = 140"
  "match_list (demo_value ''daemon_version'' 129) sys_var = None" "match_list (demo_value ''savedconfig'' 128) sys_var = None"
  "match_list (demo_value ''savedconfig'' 128) (take 1 demo_vars) = None"
  by (simp_all add: demo_value_def bytes_def no_system_match) (simp add: demo_vars_def match_var_def bytes_def)

theorem long_value_ends_daemon_witness:
  "process_control demo_cenv (demo_rbuf 156 (demo_long (demo_value ''daemon_version'' 129))) 0 (idle_ctl\<lparr>ext_sys_var := Some (take 1 demo_vars)\<rparr>) = None \<and>
   process_control demo_cenv (demo_rbuf 152 (demo_long (demo_value ''savedconfig'' 128))) 0 (idle_ctl\<lparr>ext_sys_var := Some demo_vars\<rparr>) = None"
proof
  show "process_control demo_cenv (demo_rbuf 156 (demo_long (demo_value ''daemon_version'' 129))) 0 (idle_ctl\<lparr>ext_sys_var := Some (take 1 demo_vars)\<rparr>) = None"
    by (rule long_value_ends_daemon [where us = "[]" and v = "hd demo_vars" and vs = "[]" and name = "bytes ''daemon_version''" and old = "bytes ''x''"
          and val = "replicate 129 65" and req = "demo_value ''daemon_version'' 129" and ?s1.0 = 0 and ?s2.0 = 1])
      (simp_all add: demo_rbuf_def demo_long_def demo_value_facts, simp_all add: demo_vars_def demo_value_def htons_bytes_def bytes_def)
  show "process_control demo_cenv (demo_rbuf 152 (demo_long (demo_value ''savedconfig'' 128))) 0 (idle_ctl\<lparr>ext_sys_var := Some demo_vars\<rparr>) = None"
    by (rule long_value_ends_daemon [where us = "take 1 demo_vars" and v = "demo_vars ! 1" and vs = "[]" and name = "bytes ''savedconfig''" and old = "bytes ''a''"
          and val = "replicate 128 65" and req = "demo_value ''savedconfig'' 128" and ?s1.0 = 0 and ?s2.0 = 1])
      (simp_all add: demo_rbuf_def demo_long_def demo_value_facts del: take_Suc_Cons, simp_all add: demo_vars_def demo_value_def htons_bytes_def bytes_def match_var_def)
qed

end
