(* ===== verification/NTP_Main.thy ===== *)
theory NTP_Main
  imports NTP_Control
begin

text \<open>
  The main loop of \<^verbatim>\<open>ntpd/ntpd.c\<close>: the alarm and the receive buffers.  A buffer is passed to its receiver, which is \<^verbatim>\<open>receive\<close> or the input routine
  of the driver of a reference clock.  The control and private messages that \<^verbatim>\<open>receive\<close> permits are processed: the former by \<^verbatim>\<open>process_control\<close>, the latter by
  \<^verbatim>\<open>process_private\<close>, which is an argument, as are the input routines.  The state is that of the control protocol, which contains the daemon.
\<close>

unbundle bit_operations_syntax

section \<open>The loop\<close>








section \<open>Control messages and the invariant\<close>










section \<open>The loop and the invariant\<close>












lemma handed_daemon [simp]: "daemon_ok (d\<lparr>handed := hs\<rparr>) = daemon_ok d"
  by (simp add: daemon_ok_def getp_def)













end
