(* ===== verification/Ntpq_Response.thy ===== *)
theory Ntpq_Response
  imports Ctl_Response
begin

text \<open>
  The client side of control messages: the part of \<^verbatim>\<open>ntpq/ntpq.c\<close> that sends a request, puts the fragments of the response together
  and reads the variables in it.  A request and its response are a sequence of what \<^verbatim>\<open>select\<close> and \<^verbatim>\<open>recv\<close> deliver; what the operator
  types is an argument.  Debug output is left out.
\<close>

unbundle bit_operations_syntax

section \<open>Structures\<close>

abbreviation (input) "ERR_UNSPEC \<equiv> 256 :: int"
abbreviation (input) "ERR_INCOMPLETE \<equiv> 257 :: int"
abbreviation (input) "ERR_TIMEOUT \<equiv> 258 :: int"
abbreviation (input) "ERR_TOOMUCH \<equiv> 259 :: int"
abbreviation (input) "MAXFRAGS \<equiv> 32 :: nat"
abbreviation (input) "DATASIZE \<equiv> 15360 :: nat"
abbreviation (input) "MAXVARLEN \<equiv> 256 :: nat"
abbreviation (input) "MAXVALLEN \<equiv> 2048 :: nat"

record ntpq =
  sequence :: u_short
  pktversion :: u_char
  always_auth :: bool
  havehost :: bool
  info_auth_keyid :: u_int64
  info_auth_keytype :: int
  info_auth_hashlen :: nat
  qkeys :: auth_state
  pktdata :: "u_char list"

text \<open>What the operator enters, whether \<^verbatim>\<open>send\<close> works, and what is in memory where the packet will be.\<close>

record operator =
  ask_keyid :: u_int64
  ask_pass :: "u_char list"
  send_fails :: bool
  stack :: "u_char list"

datatype arrival = Received "u_char list" | Timed_out | Failed

text \<open>The fragments of the current response, in order: offset and count.\<close>

record collected =
  slots :: "(nat \<times> nat) list"
  seenlastfrag :: bool
  rstatus :: u_short
  buffer :: "u_char list"

datatype collecting = Again collected | Return int nat collected

section \<open>Requests\<close>

definition zeros_to :: "nat \<Rightarrow> nat \<Rightarrow> u_char list \<Rightarrow> u_char list option" where
  "zeros_to k n mem = write_at mem n (replicate (pad_len k n) 0)"

text \<open>A request, as it is in memory when \<^verbatim>\<open>sendpkt\<close> is called, and its length.\<close>

definition request_packet :: "int \<Rightarrow> u_short \<Rightarrow> u_char list \<Rightarrow> u_char list \<Rightarrow> ntpq \<Rightarrow> (u_char list \<times> nat) option" where
  "request_packet opcode assid qdata area q = do {
     let mem = ctl_memory \<lparr>c_li_vn_mode = PKT_LI_VN_MODE 0 (pktversion q) MODE_CONTROL, c_r_m_e_op = word_of_int opcode AND CTL_OP_MASK,
                 c_sequence = sequence q, c_status = 0, c_associd = assid, c_offset = 0, c_count = of_nat (length qdata), c_data = area\<rparr>;
     mem \<leftarrow> write_at mem CTL_HEADER_LEN qdata;
     let pktsize = CTL_HEADER_LEN + length qdata;
     mem \<leftarrow> zeros_to 4 pktsize mem;
     Some (mem, pktsize + pad_len 4 pktsize)
   }"

definition request_mac :: "(int \<Rightarrow> u_char list \<Rightarrow> u_char list option) \<Rightarrow> operator \<Rightarrow> u_char list \<Rightarrow> nat \<Rightarrow> ntpq \<Rightarrow> (int \<times> u_char list \<times> ntpq) option" where
  "request_mac ev op mem pktsize q = do {
     mem \<leftarrow> zeros_to 8 pktsize mem;
     let pktsize = pktsize + pad_len 8 pktsize;
     if info_auth_keyid q = 0 \<and> (ask_keyid op = 0 \<or> ask_keyid op > 0xffff) then Some (1, [], q)
     else do {
       let q = (if info_auth_keyid q = 0 then q\<lparr>info_auth_keyid := ask_keyid op\<rparr> else q);
       let k = (ucast (info_auth_keyid q) :: keyid_t);
       let (trusted, ks) = authistrusted k (qkeys q);
       let q = q\<lparr>qkeys := ks\<rparr>;
       if \<not> trusted \<and> ask_pass op = [] then Some (1, [], q)
       else do {
         q \<leftarrow> (if trusted then Some q
               else do {
                 ks \<leftarrow> MD5auth_setkey k (info_auth_keytype q) (ask_pass op) (int (length (ask_pass op))) (qkeys q);
                 ks \<leftarrow> authtrust 0 k 1 ks;
                 Some (q\<lparr>qkeys := ks\<rparr>)
               });
         (maclen, mem, ks) \<leftarrow> authencrypt ev k mem pktsize (qkeys q);
         let q = q\<lparr>qkeys := ks\<rparr>;
         if maclen = 0 \<or> maclen \<noteq> int (info_auth_hashlen q + 4) then Some (1, [], q)
         else Some (if send_fails op then - 1 else 0, take (pktsize + nat maclen) mem, q)
       }
     }
   }"

text \<open>The result of \<^verbatim>\<open>sendrequest\<close> and what went out.\<close>

definition sendrequest ::
  "(int \<Rightarrow> u_char list \<Rightarrow> u_char list option) \<Rightarrow> operator \<Rightarrow> int \<Rightarrow> u_short \<Rightarrow> bool \<Rightarrow> u_char list \<Rightarrow> ntpq \<Rightarrow> (int \<times> u_char list \<times> ntpq) option" where
  "sendrequest ev op opcode assid auth qdata q =
     (if length qdata > CTL_MAX_DATA_LEN then Some (1, [], q)
      else do {
        (mem, pktsize) \<leftarrow> request_packet opcode assid qdata (stack op) q;
        if \<not> auth \<and> \<not> always_auth q then Some (if send_fails op then - 1 else 0, take pktsize mem, q)
        else request_mac ev op mem pktsize q
      })"

section \<open>Responses\<close>

definition ntohs_at :: "u_char list \<Rightarrow> nat \<Rightarrow> u_short" where
  "ntohs_at bs i = push_bit 8 (ucast (bs ! i)) OR ucast (bs ! Suc i)"

fun contiguous :: "(nat \<times> nat) list \<Rightarrow> bool" where
  "contiguous ((o1, c1) # (o2, c2) # r) \<longleftrightarrow> o1 + c1 = o2 \<and> contiguous ((o2, c2) # r)"
| "contiguous _ \<longleftrightarrow> True"

text \<open>A fragment that passed the checks of the format is recorded, and its data copied.\<close>

definition record_frag :: "nat \<Rightarrow> nat \<Rightarrow> bool \<Rightarrow> u_short \<Rightarrow> u_char list \<Rightarrow> collected \<Rightarrow> collecting option" where
  "record_frag off cnt mre st data g =
     (let before = takeWhile (\<lambda>(o1, c1). o1 < off) (slots g);
          after = drop (length before) (slots g)
      in if after \<noteq> [] \<and> off = fst (hd after) then Some (Again g)
         else if before \<noteq> [] \<and> fst (last before) + snd (last before) > off then Some (Again g)
         else if after \<noteq> [] \<and> off + cnt > fst (hd after) then Some (Again g)
         else do {
           let g = g\<lparr>slots := before @ (off, cnt) # after\<rparr>;
           let g = (if mre then g else g\<lparr>seenlastfrag := True, rstatus := st\<rparr>);
           buf \<leftarrow> write_at (buffer g) off data;
           let g = g\<lparr>buffer := buf\<rparr>;
           Some (if seenlastfrag g \<and> fst (hd (slots g)) = 0 \<and> contiguous (slots g)
                 then Return 0 (fst (last (slots g)) + snd (last (slots g))) g
                 else Again g)
         })"

definition response_packet :: "int \<Rightarrow> u_short \<Rightarrow> u_char list \<Rightarrow> collected \<Rightarrow> collecting option" where
  "response_packet opcode seq bs g =
     (let n = length bs; op = bs ! 1; mre = (CTL_MORE AND op \<noteq> 0)
      in if n < CTL_HEADER_LEN \<or> PKT_VERSION (bs ! 0) > NTP_VERSION \<or> PKT_VERSION (bs ! 0) < NTP_OLDVERSION \<or> PKT_MODE (bs ! 0) \<noteq> MODE_CONTROL \<or>
            CTL_RESPONSE AND op = 0 \<or> ntohs_at bs 2 \<noteq> seq \<or> uint (CTL_OP_MASK AND op) \<noteq> opcode
         then Some (Again g)
         else if CTL_ERROR AND op \<noteq> 0
         then let errcode = uint (drop_bit 8 (ntohs_at bs 4)) in Some (Return (if errcode = 0 then ERR_UNSPEC else errcode) 0 g)
         else
           let off = unat (ntohs_at bs 8); cnt = unat (ntohs_at bs 10); shouldbesize = (CTL_HEADER_LEN + cnt + 3) div 4 * 4
           in if n mod 4 \<noteq> 0 then Some (Again g)
              else if n < shouldbesize then Some (Return ERR_INCOMPLETE 0 g)
              else if cnt > n - CTL_HEADER_LEN \<or> cnt = 0 \<and> mre then Some (Again g)
              else if off + cnt > DATASIZE then Some (Return ERR_TOOMUCH 0 g)
              else if seenlastfrag g \<and> \<not> mre then Some (Again g)
              else if length (slots g) > MAXFRAGS - 1 then Some (Return ERR_TOOMUCH 0 g)
              else record_frag off cnt mre (ntohs_at bs 4) (take cnt (drop CTL_HEADER_LEN bs)) g)"

text \<open>The loop; it ends without a result when nothing more arrives and \<^verbatim>\<open>select\<close> does not return.\<close>

fun collect :: "int \<Rightarrow> u_short \<Rightarrow> arrival list \<Rightarrow> collected \<Rightarrow> (int \<times> nat \<times> collected \<times> arrival list) option" where
  "collect opcode seq [] g = None"
| "collect opcode seq (Failed # es) g = Some (- 1, 0, g, es)"
| "collect opcode seq (Timed_out # es) g = Some (if slots g = [] then ERR_TIMEOUT else ERR_INCOMPLETE, 0, g, es)"
| "collect opcode seq (Received bs # es) g =
     (case response_packet opcode seq (take 516 bs) g of
        None \<Rightarrow> None
      | Some (Again g) \<Rightarrow> collect opcode seq es g
      | Some (Return rc rsize g) \<Rightarrow> Some (rc, rsize, g, es))"

definition getresponse :: "int \<Rightarrow> arrival list \<Rightarrow> ntpq \<Rightarrow> (int \<times> nat \<times> u_short \<times> ntpq \<times> arrival list) option" where
  "getresponse opcode es q =
     map_option (\<lambda>(rc, rsize, g, es). (rc, rsize, rstatus g, q\<lparr>pktdata := buffer g\<rparr>, es))
       (collect opcode (sequence q) es \<lparr>slots = [], seenlastfrag = False, rstatus = 0, buffer = pktdata q\<rparr>)"

text \<open>A request is repeated once.\<close>

definition ask :: "(int \<Rightarrow> u_char list \<Rightarrow> u_char list option) \<Rightarrow> operator \<Rightarrow> int \<Rightarrow> u_short \<Rightarrow> bool \<Rightarrow> u_char list \<Rightarrow> arrival list \<Rightarrow> ntpq \<Rightarrow>
    (int \<times> nat \<times> u_short \<times> u_char list list \<times> ntpq \<times> arrival list) option" where
  "ask ev op opcode assid auth qdata es q = do {
     (res, out, q) \<leftarrow> sendrequest ev op opcode assid auth qdata q;
     if res \<noteq> 0 then Some (res, 0, 0, [out], q, es)
     else map_option (\<lambda>(rc, rsize, st, q, es). (rc, rsize, st, [out], q, es)) (getresponse opcode es q)
   }"

definition doqueryex :: "(int \<Rightarrow> u_char list \<Rightarrow> u_char list option) \<Rightarrow> operator \<Rightarrow> int \<Rightarrow> u_short \<Rightarrow> bool \<Rightarrow> u_char list \<Rightarrow> arrival list \<Rightarrow> ntpq \<Rightarrow>
    (int \<times> nat \<times> u_short \<times> u_char list list \<times> ntpq \<times> arrival list) option" where
  "doqueryex ev op opcode assid auth qdata es q =
     (if \<not> havehost q then Some (- 1, 0, 0, [], q, es)
      else do {
        (res, rsize, st, out, q, es) \<leftarrow> ask ev op opcode assid auth qdata es (q\<lparr>sequence := sequence q + 1\<rparr>);
        if res = ERR_TIMEOUT \<or> res = ERR_INCOMPLETE
        then do {
          let q = (if res = ERR_INCOMPLETE then q\<lparr>sequence := sequence q + 1\<rparr> else q);
          (res, rsize, st, out2, q, es) \<leftarrow> ask ev op opcode assid auth qdata es q;
          Some (res, rsize, st, out @ out2, q, es)
        }
        else Some (res, rsize, st, out, q, es)
      })"

section \<open>Variables\<close>

datatype nextvar_result = No_var | Var "u_char list" "u_char list option" "u_char list"

text \<open>The value at the beginning of \<open>cp\<close>, and what follows it.\<close>

definition value_at :: "u_char list \<Rightarrow> u_char list \<times> u_char list" where
  "value_at cp =
     (case cp of
        [] \<Rightarrow> ([], [])
      | q # r \<Rightarrow>
          if q = 34
          then let body = takeWhile (\<lambda>b. b \<noteq> 34) r; np = drop (length body) r
               in (if np = [] then (q # body, []) else (q # body @ [34], tl np))
          else let body = takeWhile (\<lambda>b. b \<noteq> 44 \<and> b \<noteq> 13) cp in (body, drop (length body) cp))"

text \<open>The octet behind the data is looked at when the data ends with an equals sign.\<close>

definition nextvar :: "u_char option \<Rightarrow> u_char list \<Rightarrow> nextvar_result option" where
  "nextvar beyond data =
     (let cp = dropWhile (\<lambda>b. b = 44 \<or> isspace_b b) data
      in if cp = [] then Some No_var
         else
           let src = takeWhile (\<lambda>b. b \<notin> {44, 61, 13, 10, 0}) cp; name = strip_end src; cp = drop (length src) cp
           in if length name \<ge> MAXVARLEN then None
              else if cp = [] then Some (Var name None [])
              else if hd cp \<in> {44, 13, 10} then Some (Var name None (tl cp))
              else
                let cp = dropWhile (\<lambda>b. isspace_b b \<and> b \<noteq> 13 \<and> b \<noteq> 10) (tl cp); (val, np) = value_at cp
                in if cp = [] \<and> beyond = None then None
                   else if cp = [] \<and> beyond = Some 34 \<or> length val \<ge> MAXVALLEN \<or> np \<noteq> [] \<and> hd np \<notin> {44, 13} then Some No_var
                   else Some (Var name (Some (strip_end val)) (if np \<noteq> [] \<and> hd np = 44 then tl np else np)))"

section \<open>Reassembly\<close>

abbreviation slot :: "fragment \<Rightarrow> nat \<times> nat" where
  "slot f \<equiv> (fst f, length (fst (snd f)))"

lemma tiles_offsets: "tiles n fs \<Longrightarrow> f \<in> set fs \<Longrightarrow> n \<le> fst f \<and> fst f + length (fst (snd f)) \<le> n + length (frag_text fs)"
  by (induction n fs rule: tiles.induct) fastforce+

lemma tiles_split:
  assumes "tiles n (as @ f # bs)"
  shows "a \<in> set as \<Longrightarrow> fst a + length (fst (snd a)) \<le> fst f" "b \<in> set bs \<Longrightarrow> fst f + length (fst (snd f)) \<le> fst b"
proof -
  obtain off data m where f: "f = (off, data, m)" by (cases f)
  have t: "tiles n as" "off = n + length (frag_text as)" "tiles (off + length data) bs" using assms by (auto simp: tiles_append f)
  show "fst a + length (fst (snd a)) \<le> fst f" if "a \<in> set as" using tiles_offsets [OF t(1) that] t(2) f by simp
  show "fst f + length (fst (snd f)) \<le> fst b" if "b \<in> set bs" using tiles_offsets [OF t(3) that] f by simp
qed

lemma tiles_filter:
  assumes "tiles n fs" "tiles n (filter P fs)" "list_all inner_frag (butlast fs)" "fs \<noteq> []" "P (last fs)"
  shows "filter P fs = fs"
  using assms
proof (induction fs arbitrary: n)
  case Nil
  then show ?case by simp
next
  case (Cons x xs)
  obtain off data m where x: "x = (off, data, m)" by (cases x)
  show ?case
  proof (cases "xs = []")
    case True
    then show ?thesis using Cons.prems(5) by simp
  next
    case False
    have t: "tiles (n + length data) xs" "inner_frag x" "list_all inner_frag (butlast xs)" "P (last xs)" using Cons.prems False by (simp_all add: x)
    show ?thesis
    proof (cases "P x")
      case True
      then have "tiles (n + length data) (filter P xs)" using Cons.prems(2) by (simp add: x)
      then show ?thesis using Cons.IH [OF t(1) _ t(3) False t(4)] True by simp
    next
      case np: False
      have l: "last xs \<in> set (filter P xs)" using False t(4) by simp
      then obtain y ys where ys: "filter P xs = y # ys" by (cases "filter P xs") auto
      then have "y \<in> set (filter P xs)" by simp
      then have "y \<in> set xs" by simp
      then have "n + length data \<le> fst y" using tiles_offsets [OF t(1)] by blast
      moreover have "fst y = n" using Cons.prems(2) np ys by (cases y) simp
      moreover have "data \<noteq> []" using t(2) by (simp add: inner_frag_def x)
      ultimately show ?thesis by simp
    qed
  qed
qed

lemma contiguous_tiles: "contiguous (map slot (f # fs)) \<longleftrightarrow> tiles (fst f) (f # fs)"
proof (induction fs arbitrary: f)
  case Nil
  then show ?case by (cases f) simp
next
  case (Cons g gs)
  obtain o1 d1 m1 o2 d2 m2 where "f = (o1, d1, m1)" "g = (o2, d2, m2)" by (cases f; cases g)
  then show ?case using Cons [of g] by auto
qed

lemma whole_split:
  assumes "whole fs" "fs = as @ f # bs"
  shows "list_all inner_frag as" "bs \<noteq> [] \<Longrightarrow> inner_frag f" "snd (snd f) \<longleftrightarrow> bs \<noteq> []" "length (fst (snd f)) \<le> 471"
proof -
  have w: "list_all inner_frag (butlast fs)" "\<not> snd (snd (last fs))" "length (fst (snd (last fs))) \<le> 471" using assms(1) by (simp_all add: whole_def)
  show i: "inner_frag f" if "bs \<noteq> []" using w(1) that assms(2) by (simp add: butlast_append)
  show "list_all inner_frag as" using w(1) assms(2) by (auto simp: butlast_append split: if_splits)
  show "snd (snd f) \<longleftrightarrow> bs \<noteq> []" using i w(2) assms(2) by (cases "bs = []") (auto simp: inner_frag_def split: prod.splits)
  show "length (fst (snd f)) \<le> 471" using i w(3) assms(2) by (cases "bs = []") (auto simp: inner_frag_def split: prod.splits)
qed

text \<open>The offsets of a whole response increase.\<close>

lemma whole_less:
  assumes "whole fs" "fs = as @ f # bs"
  shows "a \<in> set as \<Longrightarrow> fst a < fst f" "b \<in> set bs \<Longrightarrow> fst f < fst b"
proof -
  have t: "tiles 0 (as @ f # bs)" using assms by (simp add: whole_def)
  show "fst a < fst f" if "a \<in> set as"
  proof -
    have "inner_frag a" using whole_split(1) [OF assms] that by (simp add: list_all_iff)
    then have "0 < length (fst (snd a))" by (auto simp: inner_frag_def)
    then show ?thesis using tiles_split(1) [OF t that] by linarith
  qed
  show "fst f < fst b" if "b \<in> set bs"
  proof -
    have "bs \<noteq> []" using that by auto
    then have "inner_frag f" using whole_split(2) [OF assms] by simp
    then have "0 < length (fst (snd f))" by (auto simp: inner_frag_def)
    then show ?thesis using tiles_split(2) [OF t that] by linarith
  qed
qed

text \<open>What has been collected: the fragments in \<open>S\<close>.\<close>

definition has_frag :: "u_char list \<Rightarrow> fragment \<Rightarrow> bool" where
  "has_frag mem f \<longleftrightarrow> take (length (fst (snd f))) (drop (fst f) mem) = fst (snd f)"

definition collected_of :: "fragment list \<Rightarrow> fragment set \<Rightarrow> u_short \<Rightarrow> collected \<Rightarrow> bool" where
  "collected_of fs S st g \<longleftrightarrow> slots g = map slot (filter (\<lambda>f. f \<in> S) fs) \<and> S \<subseteq> set fs \<and> (seenlastfrag g \<longleftrightarrow> last fs \<in> S) \<and> (last fs \<in> S \<longrightarrow> rstatus g = st) \<and>
     length (buffer g) = 15360 \<and> (\<forall>f\<in>S. has_frag (buffer g) f)"

lemma has_frag_text:
  assumes "tiles n fs" "\<forall>f\<in>set fs. has_frag mem f" "n + length (frag_text fs) \<le> length mem"
  shows "take (length (frag_text fs)) (drop n mem) = frag_text fs"
  using assms
proof (induction n fs rule: tiles.induct)
  case (2 n off data m fs)
  have "take (length data) (drop n mem) = data" using 2 by (auto simp: has_frag_def)
  moreover have "take (length (frag_text fs)) (drop (n + length data) mem) = frag_text fs" using 2 by simp
  ultimately show ?case by (simp add: take_add add.commute)
qed simp

lemma has_frag_write:
  assumes "length mem = N" "fst f + length (fst (snd f)) \<le> N" "mem' = take (fst f) mem @ fst (snd f) @ drop (fst f + length (fst (snd f))) mem"
  shows "has_frag mem' f" "length mem' = N" "has_frag mem g \<Longrightarrow> fst g + length (fst (snd g)) \<le> fst f \<or> fst f + length (fst (snd f)) \<le> fst g \<Longrightarrow> fst g + length (fst (snd g)) \<le> N \<Longrightarrow> has_frag mem' g"
proof -
  let ?n = "fst f" and ?k = "length (fst (snd f))"
  have m: "min (length mem) ?n = ?n" using assms(1,2) by simp
  show "has_frag mem' f" using m by (simp add: has_frag_def assms(3))
  show "length mem' = N" using assms(1,2) by (simp add: assms(3))
  show "has_frag mem' g" if "has_frag mem g" "fst g + length (fst (snd g)) \<le> fst f \<or> fst f + length (fst (snd f)) \<le> fst g" "fst g + length (fst (snd g)) \<le> N"
    using that(2)
  proof
    assume a: "fst g + length (fst (snd g)) \<le> ?n"
    then have "take (length (fst (snd g))) (drop (fst g) mem') = take (length (fst (snd g))) (drop (fst g) (take ?n mem))"
      using m by (simp add: assms(3))
    also have "\<dots> = take (length (fst (snd g))) (drop (fst g) mem)" using a by (simp add: drop_take min_def)
    finally show ?thesis using that(1) by (simp add: has_frag_def)
  next
    assume a: "?n + ?k \<le> fst g"
    then have "drop (fst g) mem' = drop (fst g) mem" using m by (simp add: assms(3))
    then show ?thesis using that(1) by (simp add: has_frag_def)
  qed
qed

lemma whole_start: "whole fs \<Longrightarrow> fst (hd fs) = 0"
  by (cases fs) (auto simp: whole_def)

lemma collected_complete:
  assumes "whole fs" "S \<subseteq> set fs"
  shows "last fs \<in> S \<and> fst (hd (map slot (filter (\<lambda>f. f \<in> S) fs))) = 0 \<and> contiguous (map slot (filter (\<lambda>f. f \<in> S) fs)) \<longleftrightarrow> S = set fs" (is "?L \<longleftrightarrow> _")
proof
  have w: "tiles 0 fs" "list_all inner_frag (butlast fs)" "fs \<noteq> []" using assms(1) by (simp_all add: whole_def)
  assume a: ?L
  then have "last fs \<in> set (filter (\<lambda>f. f \<in> S) fs)" using w(3) by simp
  then obtain y ys where ys: "filter (\<lambda>f. f \<in> S) fs = y # ys" by (cases "filter (\<lambda>f. f \<in> S) fs") auto
  have y0: "fst y = 0" using a ys by simp
  have "contiguous (map slot (y # ys))" using a unfolding ys by blast
  then have "tiles (fst y) (y # ys)" unfolding contiguous_tiles .
  then have "tiles 0 (filter (\<lambda>f. f \<in> S) fs)" unfolding ys y0 .
  then have "filter (\<lambda>f. f \<in> S) fs = fs" using tiles_filter [OF w(1) _ w(2,3)] a by blast
  then show "S = set fs" using assms(2) by (metis filter_id_conv subsetI subset_antisym)
next
  assume a: "S = set fs"
  then have f: "filter (\<lambda>f. f \<in> S) fs = fs" by simp
  obtain y ys where ys: "fs = y # ys" using assms(1) by (cases fs) (auto simp: whole_def)
  have "tiles (fst y) (y # ys)" using whole_start [OF assms(1)] assms(1) ys by (simp add: whole_def)
  then show ?L using a f ys whole_start [OF assms(1)] contiguous_tiles [of y ys] by simp
qed

lemma takeWhile_slots:
  assumes "whole fs" "fs = as @ f # bs"
  shows "takeWhile (\<lambda>(o1, c1). o1 < fst f) (map slot (filter P fs)) = map slot (filter P as)"
proof -
  have "takeWhile (\<lambda>(o1, c1). o1 < fst f) (map slot (filter P as) @ map slot (filter P (f # bs))) = map slot (filter P as)"
  proof -
    have a: "\<forall>x\<in>set (map slot (filter P as)). (case x of (o1, c1) \<Rightarrow> o1 < fst f)" using whole_less(1) [OF assms] by auto
    have b: "takeWhile (\<lambda>(o1, c1). o1 < fst f) (map slot (filter P (f # bs))) = []"
    proof (cases "filter P (f # bs)")
      case (Cons y ys)
      then have "y \<in> set (filter P (f # bs))" by simp
      then have "y = f \<or> y \<in> set bs" by (auto split: if_splits)
      then have "fst f \<le> fst y" using whole_less(2) [OF assms, of y] by auto
      then show ?thesis using Cons by simp
    qed simp
    have "takeWhile (\<lambda>(o1, c1). o1 < fst f) (map slot (filter P as) @ map slot (filter P (f # bs))) = map slot (filter P as) @ takeWhile (\<lambda>(o1, c1). o1 < fst f) (map slot (filter P (f # bs)))"
      using a by (intro takeWhile_append2) blast
    then show ?thesis unfolding b by (simp only: append_Nil2)
  qed
  then show ?thesis using assms(2) by simp
qed

text \<open>A fragment that is new goes between its neighbours, and the response is complete when it was the last one missing.\<close>

lemma record_frag_new:
  assumes "whole fs" "length (frag_text fs) \<le> 15360" "collected_of fs S st g" "f \<in> set fs" "f \<notin> S"
  shows "\<exists>g'. record_frag (fst f) (length (fst (snd f))) (snd (snd f)) st (fst (snd f)) g = Some (if insert f S = set fs then Return 0 (length (frag_text fs)) g' else Again g') \<and>
    collected_of fs (insert f S) st g'"
proof -
  obtain as bs where fs: "fs = as @ f # bs" using assms(4) by (meson split_list)
  let ?P = "\<lambda>x. x \<in> S"
  have t: "tiles 0 fs" "tiles 0 (as @ f # bs)" using assms(1) fs by (simp_all add: whole_def)
  have c: "slots g = map slot (filter ?P as) @ map slot (filter ?P bs)" "S \<subseteq> set fs" "seenlastfrag g \<longleftrightarrow> last fs \<in> S" "length (buffer g) = 15360" "\<forall>f\<in>S. has_frag (buffer g) f" "last fs \<in> S \<longrightarrow> rstatus g = st"
    using assms(3,5) by (simp_all add: collected_of_def fs)
  have tw: "takeWhile (\<lambda>(o1, c1). o1 < fst f) (slots g) = map slot (filter ?P as)"
    using takeWhile_slots [OF assms(1) fs, of ?P] assms(3) by (simp add: collected_of_def)
  have dr: "drop (length (map slot (filter ?P as))) (slots g) = map slot (filter ?P bs)" unfolding c(1) by simp
  have n1: "\<not> (map slot (filter ?P bs) \<noteq> [] \<and> fst f = fst (hd (map slot (filter ?P bs))))"
    and n3: "\<not> (map slot (filter ?P bs) \<noteq> [] \<and> fst f + length (fst (snd f)) > fst (hd (map slot (filter ?P bs))))"
  proof -
    have "fst f < fst y \<and> fst f + length (fst (snd f)) \<le> fst y" if "filter ?P bs = y # ys" for y ys
    proof -
      have "y \<in> set (filter ?P bs)" using that by simp
      then have "y \<in> set bs" by simp
      then show ?thesis using whole_less(2) [OF assms(1) fs] tiles_split(2) [OF t(2)] by blast
    qed
    then show "\<not> (map slot (filter ?P bs) \<noteq> [] \<and> fst f = fst (hd (map slot (filter ?P bs))))" "\<not> (map slot (filter ?P bs) \<noteq> [] \<and> fst f + length (fst (snd f)) > fst (hd (map slot (filter ?P bs))))"
      by (cases "filter ?P bs"; fastforce)+
  qed
  have n2: "\<not> (map slot (filter ?P as) \<noteq> [] \<and> fst (last (map slot (filter ?P as))) + snd (last (map slot (filter ?P as))) > fst f)"
  proof -
    have "fst (last (map slot (filter ?P as))) + snd (last (map slot (filter ?P as))) \<le> fst f" if "filter ?P as \<noteq> []"
    proof -
      have "last (filter ?P as) \<in> set (filter ?P as)" using that by (rule last_in_set)
      then have "last (filter ?P as) \<in> set as" by simp
      then show ?thesis using tiles_split(1) [OF t(2)] that by (simp add: last_map)
    qed
    then show ?thesis by auto
  qed
  have len: "fst f + length (fst (snd f)) \<le> length (frag_text fs)" using tiles_offsets [OF t(1) assms(4)] by simp
  define buf where "buf = take (fst f) (buffer g) @ fst (snd f) @ drop (fst f + length (fst (snd f))) (buffer g)"
  have w: "write_at (buffer g) (fst f) (fst (snd f)) = Some buf" using len assms(2) c(4) by (simp add: write_at_Some buf_def)
  have lb: "fst f + length (fst (snd f)) \<le> 15360" using len assms(2) by simp
  note hf = has_frag_write [OF c(4) lb buf_def]
  define g' where "g' = (if snd (snd f) then g else g\<lparr>seenlastfrag := True, rstatus := st\<rparr>)\<lparr>slots := map slot (filter (\<lambda>x. x \<in> insert f S) fs), buffer := buf\<rparr>"
  have nd: "f \<notin> set as" "f \<notin> set bs" using whole_less [OF assms(1) fs] by blast+
  have sl: "map slot (filter (\<lambda>x. x \<in> insert f S) fs) = map slot (filter ?P as) @ slot f # map slot (filter ?P bs)"
  proof -
    have "filter (\<lambda>x. x \<in> insert f S) as = filter ?P as" "filter (\<lambda>x. x \<in> insert f S) bs = filter ?P bs" using nd by (auto intro: filter_cong)
    then show ?thesis by (simp add: fs)
  qed
  have lastf: "(\<not> snd (snd f) \<or> last fs \<in> S) \<longleftrightarrow> last fs \<in> insert f S"
    using whole_split(3) [OF assms(1) fs] nd fs by (cases "bs = []") auto
  have co: "collected_of fs (insert f S) st g'" unfolding collected_of_def
  proof (intro conjI ballI)
    show "insert f S \<subseteq> set fs" using assms(4) c(2) by simp
    show "seenlastfrag g' \<longleftrightarrow> last fs \<in> insert f S" using c(3) lastf by (auto simp: g'_def)
    show "last fs \<in> insert f S \<longrightarrow> rstatus g' = st" using c(6) lastf by (auto simp: g'_def)
    show "has_frag (buffer g') x" if "x \<in> insert f S" for x
    proof (cases "x = f")
      case True
      then show ?thesis using hf(1) by (simp add: g'_def)
    next
      case False
      then have x: "x \<in> S" "x \<in> set as \<or> x \<in> set bs" using that c(2) fs by auto
      have "fst x + length (fst (snd x)) \<le> 15360" using tiles_offsets [OF t(1), of x] x(1) c(2) assms(2) by auto
      moreover have "fst x + length (fst (snd x)) \<le> fst f \<or> fst f + length (fst (snd f)) \<le> fst x" using tiles_split [OF t(2), of x] x(2) by auto
      ultimately show ?thesis using hf(3) [of x] x(1) c(5) by (simp add: g'_def)
    qed
  qed (simp_all add: g'_def hf(2))
  have comp: "(seenlastfrag g' \<and> fst (hd (slots g')) = 0 \<and> contiguous (slots g')) \<longleftrightarrow> insert f S = set fs"
  proof -
    have "insert f S \<subseteq> set fs" using assms(4) c(2) by simp
    from collected_complete [OF assms(1) this] show ?thesis using co by (simp add: collected_of_def)
  qed
  have size: "fst (last (slots g')) + snd (last (slots g')) = length (frag_text fs)" if "insert f S = set fs"
  proof -
    have "slots g' = map slot fs" using co that by (simp add: collected_of_def)
    moreover obtain gs l where l: "fs = gs @ [l]" using assms(1) by (metis whole_def rev_exhaust)
    moreover have "fst l = length (frag_text gs)" using t(1) l by (cases l) (simp add: tiles_append)
    ultimately show ?thesis by (cases l) simp
  qed
  have "record_frag (fst f) (length (fst (snd f))) (snd (snd f)) st (fst (snd f)) g = Some (if seenlastfrag g' \<and> fst (hd (slots g')) = 0 \<and> contiguous (slots g') then Return 0 (fst (last (slots g')) + snd (last (slots g'))) g' else Again g')"
  proof -
    have e: "(if snd (snd f) then g\<lparr>slots := map slot (filter ?P as) @ slot f # map slot (filter ?P bs)\<rparr> else g\<lparr>slots := map slot (filter ?P as) @ slot f # map slot (filter ?P bs), seenlastfrag := True, rstatus := st\<rparr>)\<lparr>buffer := buf\<rparr> = g'"
      unfolding g'_def sl by simp
    have b: "buffer (if snd (snd f) then g\<lparr>slots := map slot (filter ?P as) @ slot f # map slot (filter ?P bs)\<rparr> else g\<lparr>slots := map slot (filter ?P as) @ slot f # map slot (filter ?P bs), seenlastfrag := True, rstatus := st\<rparr>) = buffer g" by simp
    show ?thesis unfolding record_frag_def Let_def tw dr if_not_P [OF n1] if_not_P [OF n2] if_not_P [OF n3] b w bind.bind_lunit e ..
  qed
  then show ?thesis using comp size co by (intro exI [of _ g']) auto
qed

section \<open>The client collects what the server sent\<close>

lemma op_bits:
  fixes x :: u_char
  shows "CTL_RESPONSE AND (CTL_RESPONSE OR y OR (x AND CTL_OP_MASK)) \<noteq> 0" "y \<in> {0, CTL_MORE} \<Longrightarrow> CTL_ERROR AND (CTL_RESPONSE OR y OR (x AND CTL_OP_MASK)) = 0"
    "y \<in> {0, CTL_MORE} \<Longrightarrow> CTL_MORE AND (CTL_RESPONSE OR y OR (x AND CTL_OP_MASK)) = y" "y \<in> {0, CTL_MORE} \<Longrightarrow> CTL_OP_MASK AND (CTL_RESPONSE OR y OR (x AND CTL_OP_MASK)) = x AND CTL_OP_MASK"
proof -
  have "bit (CTL_RESPONSE AND (CTL_RESPONSE OR y OR (x AND CTL_OP_MASK))) 7" by (simp add: bit_simps)
  then show "CTL_RESPONSE AND (CTL_RESPONSE OR y OR (x AND CTL_OP_MASK)) \<noteq> 0" by force
  have "b AND (x AND d) = (b AND d) AND x" for b d :: u_char by (simp only: ac_simps)
  then have a: "CTL_ERROR AND (x AND CTL_OP_MASK) = 0" "CTL_MORE AND (x AND CTL_OP_MASK) = 0" "CTL_OP_MASK AND (x AND CTL_OP_MASK) = x AND CTL_OP_MASK"
    by (simp_all add: and.commute [of x])
  show "y \<in> {0, CTL_MORE} \<Longrightarrow> CTL_ERROR AND (CTL_RESPONSE OR y OR (x AND CTL_OP_MASK)) = 0"
    "y \<in> {0, CTL_MORE} \<Longrightarrow> CTL_MORE AND (CTL_RESPONSE OR y OR (x AND CTL_OP_MASK)) = y" "y \<in> {0, CTL_MORE} \<Longrightarrow> CTL_OP_MASK AND (CTL_RESPONSE OR y OR (x AND CTL_OP_MASK)) = x AND CTL_OP_MASK"
    using a by (auto simp: bit.conj_disj_distrib)
qed

lemma frag_fields:
  assumes "is_frag c (off, data, m) bs"
  shows "bs ! 0 = c_li_vn_mode (rpkt c)" "bs ! 1 = CTL_RESPONSE OR (if m then CTL_MORE else 0) OR (res_opcode c AND CTL_OP_MASK)" "ntohs_at bs 2 = c_sequence (rpkt c)"
    "ntohs_at bs 4 = c_status (rpkt c)" "ntohs_at bs 8 = of_nat off" "ntohs_at bs 10 = of_nat (length data)"
proof -
  have "bs ! i = frag_header c (off, data, m) ! i" if "i < 12" for i using assms that by (metis is_frag_def nth_take)
  then show "bs ! 0 = c_li_vn_mode (rpkt c)" "bs ! 1 = CTL_RESPONSE OR (if m then CTL_MORE else 0) OR (res_opcode c AND CTL_OP_MASK)" "ntohs_at bs 2 = c_sequence (rpkt c)"
    "ntohs_at bs 4 = c_status (rpkt c)" "ntohs_at bs 8 = of_nat off" "ntohs_at bs 10 = of_nat (length data)"
    unfolding ntohs_at_def by (simp_all add: frag_header_def htons_bytes_def ntohs_htons)
qed

lemma of_nat_short: "(of_nat a :: u_short) = of_nat b \<Longrightarrow> a < 65536 \<Longrightarrow> b < 65536 \<Longrightarrow> a = b"
  by (simp add: word_of_nat_eq_iff take_bit_nat_eq_self)

text \<open>The response is to the request that the client waits for.\<close>

definition replies_to :: "int \<Rightarrow> u_short \<Rightarrow> ctl \<Rightarrow> bool" where
  "replies_to opcode seq c \<longleftrightarrow> PKT_VERSION (c_li_vn_mode (rpkt c)) \<le> NTP_VERSION \<and> NTP_OLDVERSION \<le> PKT_VERSION (c_li_vn_mode (rpkt c)) \<and> PKT_MODE (c_li_vn_mode (rpkt c)) = MODE_CONTROL \<and>
     c_sequence (rpkt c) = seq \<and> uint (res_opcode c AND CTL_OP_MASK) = opcode"

text \<open>Another datagram is none of it: it is too short, or the head of a packet that does not answer the request.\<close>

definition foreign :: "int \<Rightarrow> u_short \<Rightarrow> u_char list \<Rightarrow> bool" where
  "foreign opcode seq bs \<longleftrightarrow> length bs < CTL_HEADER_LEN \<or> PKT_MODE (bs ! 0) \<noteq> MODE_CONTROL \<or> CTL_RESPONSE AND bs ! 1 = 0 \<or> ntohs_at bs 2 \<noteq> seq \<or> uint (CTL_OP_MASK AND bs ! 1) \<noteq> opcode"

lemma response_foreign: "foreign opcode seq bs \<Longrightarrow> response_packet opcode seq (take 516 bs) g = Some (Again g)"
proof -
  assume a: "foreign opcode seq bs"
  have "take 516 bs ! 0 = bs ! 0" "take 516 bs ! 1 = bs ! 1" "ntohs_at (take 516 bs) 2 = ntohs_at bs 2" by (simp_all add: ntohs_at_def)
  then show ?thesis using a unfolding response_packet_def Let_def foreign_def by auto
qed

lemma whole_unique: "whole fs \<Longrightarrow> f \<in> set fs \<Longrightarrow> f' \<in> set fs \<Longrightarrow> fst f = fst f' \<Longrightarrow> f = f'"
proof -
  assume a: "whole fs" "f \<in> set fs" "f' \<in> set fs" "fst f = fst f'"
  obtain as bs where fs: "fs = as @ f # bs" using a(2) by (meson split_list)
  then show ?thesis using whole_less [OF a(1) fs, of f'] a(3,4) by auto
qed

lemma response_frag:
  assumes "whole fs" "length (frag_text fs) \<le> 15360" "length fs \<le> 32" "collected_of fs S (c_status (rpkt c)) g" "f \<in> set fs" "is_frag c f bs" "S \<noteq> set fs" "replies_to opcode seq c"
  shows "response_packet opcode seq (take 516 bs) g =
    (if f \<in> S then Some (Again g) else record_frag (fst f) (length (fst (snd f))) (snd (snd f)) (c_status (rpkt c)) (fst (snd f)) g)"
proof -
  obtain off data m where f: "f = (off, data, m)" by (cases f)
  obtain as bs' where fs: "fs = as @ f # bs'" using assms(5) by (meson split_list)
  have fr: "12 + length data \<le> length bs" "length bs \<le> 516" "length bs mod 4 = 0" "take (length data) (drop 12 bs) = data" using assms(6) by (simp_all add: is_frag_def f)
  note h = frag_fields [OF assms(6) [unfolded f]]
  have t: "off + length data \<le> 15360" using tiles_offsets [of 0 fs f] assms(1,2,5) by (simp add: whole_def f)
  have u: "unat (ntohs_at bs 8) = off" "unat (ntohs_at bs 10) = length data" using t h(5,6) by (simp_all add: unat_of_nat)
  let ?y = "if m then CTL_MORE else 0"
  have y: "?y \<in> {0, CTL_MORE}" by simp
  have mo: "(CTL_MORE AND bs ! 1 \<noteq> 0) \<longleftrightarrow> m" unfolding h(2) op_bits(3) [OF y] by simp
  have g1: "\<not> (length bs < 12 \<or> PKT_VERSION (bs ! 0) > NTP_VERSION \<or> PKT_VERSION (bs ! 0) < NTP_OLDVERSION \<or> PKT_MODE (bs ! 0) \<noteq> MODE_CONTROL \<or>
            CTL_RESPONSE AND bs ! 1 = 0 \<or> ntohs_at bs 2 \<noteq> seq \<or> uint (CTL_OP_MASK AND bs ! 1) \<noteq> opcode)"
    using fr(1) assms(8) op_bits(1) [of ?y "res_opcode c"] op_bits(4) [OF y, of "res_opcode c"] unfolding h(1-3) replies_to_def by auto
  have g2: "\<not> (CTL_ERROR AND bs ! 1 \<noteq> 0)" unfolding h(2) op_bits(2) [OF y] by simp
  have g3: "\<not> (length bs mod 4 \<noteq> 0)" "\<not> (length bs < (12 + length data + 3) div 4 * 4)" using fr(1,3) by presburger+
  have i: "m \<Longrightarrow> data \<noteq> []" using whole_split(2,3) [OF assms(1) fs] by (auto simp: f inner_frag_def)
  have g4: "\<not> (length data > length bs - 12 \<or> length data = 0 \<and> m)" using fr(1) i by auto
  have g5: "\<not> (off + length data > 15360)" using t by simp
  have g6: "\<not> length (slots g) > 32 - 1"
  proof -
    have "\<exists>x\<in>set fs. x \<notin> S" using assms(4,7) by (auto simp: collected_of_def)
    then have "length (filter (\<lambda>x. x \<in> S) fs) < length fs" by (auto intro: length_filter_less)
    then show ?thesis using assms(3,4) by (simp add: collected_of_def)
  qed
  have e: "response_packet opcode seq bs g = (if seenlastfrag g \<and> \<not> m then Some (Again g) else record_frag off (length data) m (c_status (rpkt c)) data g)"
    unfolding response_packet_def Let_def mo u if_not_P [OF g1] if_not_P [OF g2] if_not_P [OF g3(1)] if_not_P [OF g3(2)] if_not_P [OF g4] if_not_P [OF g5] if_not_P [OF g6] h(4) fr(4) ..
  have bs: "take 516 bs = bs" using fr(2) by simp
  have lst: "seenlastfrag g \<and> \<not> m \<longrightarrow> f \<in> S"
    using whole_split(3) [OF assms(1) fs] assms(4) fs by (auto simp: f collected_of_def)
  show ?thesis
  proof (cases "f \<in> S")
    case False
    then show ?thesis unfolding bs e using lst by (auto simp: f)
  next
    case True
    show ?thesis
    proof (cases "seenlastfrag g \<and> \<not> m")
      case True
      then show ?thesis unfolding bs e using lst by simp
    next
      case ns: False
      have tw: "takeWhile (\<lambda>(o1, c1). o1 < off) (slots g) = map slot (filter (\<lambda>x. x \<in> S) as)"
        using takeWhile_slots [OF assms(1) fs, of "\<lambda>x. x \<in> S"] assms(4) by (simp add: collected_of_def f)
      have dr: "drop (length (map slot (filter (\<lambda>x. x \<in> S) as))) (slots g) = slot f # map slot (filter (\<lambda>x. x \<in> S) bs')" using assms(4) True by (simp add: collected_of_def fs)
      have "record_frag off (length data) m (c_status (rpkt c)) data g = Some (Again g)" unfolding record_frag_def Let_def tw dr by (simp add: f)
      then show ?thesis unfolding bs e if_not_P [OF ns] using True by simp
    qed
  qed
qed

lemma collect_response:
  assumes "whole fs" "length (frag_text fs) \<le> 15360" "length fs \<le> 32" "collected_of fs S (c_status (rpkt c)) g" "S \<noteq> set fs" "replies_to opcode seq c"
    "\<forall>e\<in>set es. (\<exists>bs. e = Received bs \<and> (foreign opcode seq bs \<or> (\<exists>f\<in>set fs. is_frag c f bs)))" "\<forall>f\<in>set fs. f \<notin> S \<longrightarrow> (\<exists>bs. Received bs \<in> set es \<and> is_frag c f bs)"
  shows "\<exists>g' rest. collect opcode seq es g = Some (0, length (frag_text fs), g', rest) \<and> collected_of fs (set fs) (c_status (rpkt c)) g'"
  using assms(4,5,7,8)
proof (induction es arbitrary: S g)
  case Nil
  then show ?case by (auto simp: collected_of_def)
next
  case (Cons e es)
  obtain bs where e: "e = Received bs" "foreign opcode seq bs \<or> (\<exists>f\<in>set fs. is_frag c f bs)" using Cons.prems(3) by auto
  show ?case
  proof (cases "\<exists>f\<in>set fs. is_frag c f bs")
    case False
    have "\<forall>f\<in>set fs. f \<notin> S \<longrightarrow> (\<exists>bs. Received bs \<in> set es \<and> is_frag c f bs)" using Cons.prems(4) False e(1) by auto
    then show ?thesis using Cons.IH [OF Cons.prems(1,2)] Cons.prems(3) e False response_foreign [of opcode seq bs g] by auto
  next
    case True
    then obtain f where f: "f \<in> set fs" "is_frag c f bs" by blast
    note r = response_frag [OF assms(1-3) Cons.prems(1) f Cons.prems(2) assms(6)]
    have u: "is_frag c f' bs \<Longrightarrow> f' \<in> set fs \<Longrightarrow> f' = f" for f'
    proof -
      assume a: "is_frag c f' bs" "f' \<in> set fs"
      obtain o1 d1 m1 o2 d2 m2 where ff: "f = (o1, d1, m1)" "f' = (o2, d2, m2)" by (cases f; cases f')
      have eq: "of_nat o1 = (of_nat o2 :: u_short)" using frag_fields(5) [OF f(2) [unfolded ff]] frag_fields(5) [OF a(1) [unfolded ff]] by simp
      have "o1 \<le> 15360" "o2 \<le> 15360" using tiles_offsets [of 0 fs f] tiles_offsets [of 0 fs f'] assms(1,2) f(1) a(2) by (simp_all add: whole_def ff)
      then have "o1 = o2" using of_nat_short [OF eq] by linarith
      then show ?thesis using whole_unique [OF assms(1) a(2) f(1)] by (simp add: ff)
    qed
    show ?thesis
    proof (cases "f \<in> S")
      case True
      have "\<forall>f\<in>set fs. f \<notin> S \<longrightarrow> (\<exists>bs. Received bs \<in> set es \<and> is_frag c f bs)" using Cons.prems(4) u True e(1) by fastforce
      then show ?thesis using Cons.IH [OF Cons.prems(1,2)] Cons.prems(3) e(1) r True by auto
    next
      case False
      obtain g' where g': "record_frag (fst f) (length (fst (snd f))) (snd (snd f)) (c_status (rpkt c)) (fst (snd f)) g = Some (if insert f S = set fs then Return 0 (length (frag_text fs)) g' else Again g')"
        "collected_of fs (insert f S) (c_status (rpkt c)) g'"
        using record_frag_new [OF assms(1,2) Cons.prems(1) f(1) False] by blast
      show ?thesis
      proof (cases "insert f S = set fs")
        case True
        then show ?thesis using g' r False e(1) by auto
      next
        case ne: False
        have "\<forall>f'\<in>set fs. f' \<notin> insert f S \<longrightarrow> (\<exists>bs. Received bs \<in> set es \<and> is_frag c f' bs)" using Cons.prems(4) u e(1) by fastforce
        then show ?thesis using Cons.IH [OF g'(2) ne] Cons.prems(3) e(1) r False g'(1) ne by auto
      qed
    qed
  qed
qed

lemma sent_as_sets: "sent_as c fs xs \<Longrightarrow> (\<forall>f\<in>set fs. \<exists>x\<in>set xs. is_frag c f (to_bytes x)) \<and> (\<forall>x\<in>set xs. \<exists>f\<in>set fs. is_frag c f (to_bytes x)) \<and> length xs = length fs"
  unfolding sent_as_def by (induction rule: list_all2_induct) auto

lemma getresponse_whole:
  assumes "whole fs" "sent_as c fs ms" "length (frag_text fs) \<le> 15360" "length ms \<le> 32" "replies_to opcode (sequence q) c" "length (pktdata q) = 15360"
    "\<forall>x\<in>set ms. Received (to_bytes x) \<in> set es" "\<forall>e\<in>set es. \<exists>bs. e = Received bs \<and> (foreign opcode (sequence q) bs \<or> bs \<in> to_bytes ` set ms)"
  shows "\<exists>q' rest. getresponse opcode es q = Some (0, length (frag_text fs), c_status (rpkt c), q', rest) \<and> take (length (frag_text fs)) (pktdata q') = frag_text fs \<and>
    length (pktdata q') = 15360 \<and> sequence q' = sequence q"
proof -
  let ?g = "\<lparr>slots = [], seenlastfrag = False, rstatus = 0, buffer = pktdata q\<rparr>"
  note s = sent_as_sets [OF assms(2)]
  have g: "collected_of fs {} (c_status (rpkt c)) ?g" using assms(6) by (simp add: collected_of_def)
  have ne: "{} \<noteq> set fs" using assms(1) by (auto simp: whole_def)
  have l: "length fs \<le> 32" using s assms(4) by simp
  have a: "\<forall>e\<in>set es. \<exists>bs. e = Received bs \<and> (foreign opcode (sequence q) bs \<or> (\<exists>f\<in>set fs. is_frag c f bs))" using assms(8) s by blast
  have b: "\<forall>f\<in>set fs. f \<notin> {} \<longrightarrow> (\<exists>bs. Received bs \<in> set es \<and> is_frag c f bs)" using assms(7) s by blast
  obtain g' rest where r: "collect opcode (sequence q) es ?g = Some (0, length (frag_text fs), g', rest)" "collected_of fs (set fs) (c_status (rpkt c)) g'"
    using collect_response [OF assms(1,3) l g ne assms(5) a b] by blast
  have "fs \<noteq> []" using assms(1) by (simp add: whole_def)
  then have "rstatus g' = c_status (rpkt c)" using r(2) by (simp add: collected_of_def)
  moreover have "take (length (frag_text fs)) (buffer g') = frag_text fs"
    using has_frag_text [of 0 fs "buffer g'"] assms(1,3) r(2) by (simp add: whole_def collected_of_def)
  moreover have "length (buffer g') = 15360" using r(2) by (simp add: collected_of_def)
  ultimately show ?thesis using r(1) by (simp add: getresponse_def)
qed

section \<open>Variables in a response\<close>

text \<open>The loop over the variables of a response; \<open>None\<close> when a name does not fit its buffer.\<close>

function all_vars :: "u_char option \<Rightarrow> u_char list \<Rightarrow> (u_char list \<times> u_char list option) list option" where
  "all_vars beyond data =
     (case nextvar beyond data of
        None \<Rightarrow> None
      | Some No_var \<Rightarrow> Some []
      | Some (Var name val rest) \<Rightarrow> if length rest < length data then map_option (\<lambda>r. (name, val) # r) (all_vars beyond rest) else None)"
  by auto
termination by (relation "measure (\<lambda>(b, d). length d)") auto

declare all_vars.simps [simp del]

abbreviation (input) junk :: "u_char \<Rightarrow> bool" where
  "junk b \<equiv> b = 44 \<or> isspace_b b"

definition clean :: "u_char list \<Rightarrow> bool" where
  "clean bs \<longleftrightarrow> bs = [] \<or> \<not> isspace_b (hd bs) \<and> \<not> isspace_b (last bs)"

definition tag_ok :: "u_char list \<Rightarrow> bool" where
  "tag_ok t \<longleftrightarrow> t \<noteq> [] \<and> clean t \<and> length t < 256 \<and> (\<forall>b\<in>set t. b \<notin> {44, 61, 13, 10, 0})"

text \<open>A value in quotes may hold commas and ends of lines, another one may not.\<close>

definition quoted :: "u_char list \<Rightarrow> bool" where
  "quoted v \<longleftrightarrow> length v \<ge> 2 \<and> hd v = 34 \<and> last v = 34 \<and> 34 \<notin> set (butlast (tl v))"

definition value_ok :: "u_char list \<Rightarrow> bool" where
  "value_ok v \<longleftrightarrow> length v < 2048 \<and> (quoted v \<or> clean v \<and> (\<forall>b\<in>set v. b \<noteq> 44 \<and> b \<noteq> 13) \<and> (v \<noteq> [] \<longrightarrow> hd v \<noteq> 34))"

fun item :: "u_char list \<times> u_char list option \<Rightarrow> u_char list" where
  "item (t, None) = t"
| "item (t, Some v) = t @ 61 # v"

fun var_ok :: "u_char list \<times> u_char list option \<Rightarrow> bool" where
  "var_ok (t, None) \<longleftrightarrow> tag_ok t"
| "var_ok (t, Some v) \<longleftrightarrow> tag_ok t \<and> value_ok v"

lemma strip_end_clean: "clean bs \<Longrightarrow> strip_end bs = bs"
proof -
  assume a: "clean bs"
  show ?thesis
  proof (cases "bs = []")
    case False
    then obtain ys y where bs: "bs = ys @ [y]" by (metis rev_exhaust)
    then have "\<not> isspace_b y" using a by (simp add: clean_def)
    then show ?thesis unfolding strip_end_def bs by auto
  qed (simp add: strip_end_def)
qed

lemma takeWhile_stop: "\<forall>x\<in>set xs. P x \<Longrightarrow> r = [] \<or> \<not> P (hd r) \<Longrightarrow> takeWhile P (xs @ r) = xs \<and> dropWhile P (xs @ r) = r"
  by (cases r) (auto simp: takeWhile_append2 dropWhile_append2)

lemma value_at_value:
  assumes "value_ok v" "r \<noteq> []" "hd r \<in> {44, 13}"
  shows "value_at (v @ r) = (v, r)"
proof (cases "quoted v")
  case True
  define b where "b = butlast (tl v)"
  have v: "v = 34 # b @ [34]" "34 \<notin> set b"
  proof -
    obtain x y w where x: "v = x # y # w" using True by (cases v; cases "tl v") (auto simp: quoted_def)
    then have "x = 34" "last (y # w) = 34" using True by (simp_all add: quoted_def)
    then show "v = 34 # b @ [34]" using append_butlast_last_id [of "y # w"] x by (simp add: b_def)
    show "34 \<notin> set b" using True by (simp add: quoted_def b_def)
  qed
  have "\<forall>x\<in>set b. x \<noteq> 34" using v(2) by auto
  then have "takeWhile (\<lambda>x. x \<noteq> 34) (b @ 34 # r) = b" using takeWhile_stop [of b "\<lambda>x. x \<noteq> 34" "34 # r"] by simp
  then show ?thesis unfolding v(1) by (simp add: value_at_def Let_def)
next
  case False
  then have v: "\<forall>b\<in>set v. b \<noteq> 44 \<and> b \<noteq> 13" "v \<noteq> [] \<longrightarrow> hd v \<noteq> 34" using assms(1) by (auto simp: value_ok_def)
  have "takeWhile (\<lambda>b. b \<noteq> 44 \<and> b \<noteq> 13) (v @ r) = v" using takeWhile_stop [OF v(1), of r] assms(3) by auto
  moreover obtain y ys where y: "v @ r = y # ys" "y \<noteq> 34" using assms(2,3) v(2) by (cases v; cases r) auto
  moreover have "drop (length v) (y # ys) = r" using y(1) by (metis append_eq_conv_conj)
  ultimately show ?thesis unfolding y(1) by (simp add: value_at_def Let_def)
qed

definition after :: "u_char list option \<Rightarrow> u_char list \<Rightarrow> u_char list" where
  "after v r = (if v = None \<or> hd r = 44 then tl r else r)"

lemma tag_start:
  assumes "tag_ok t"
  shows "\<not> junk (hd t)" "\<forall>b\<in>set t. b \<notin> {44, 61, 13, 10, 0}" "strip_end t = t" "length t < 256" "t \<noteq> []"
  using assms strip_end_clean [of t] by (auto simp: tag_ok_def clean_def)

lemma nextvar_item:
  assumes "var_ok (t, v)" "\<forall>b\<in>set js. junk b" "r \<noteq> []" "hd r \<in> {44, 13}"
  shows "nextvar beyond (js @ item (t, v) @ r) = Some (Var t v (after v r))"
proof -
  have t: "tag_ok t" using assms(1) by (cases v) auto
  note h = tag_start [OF t]
  have hd: "hd (item (t, v) @ r) = hd t" "item (t, v) @ r \<noteq> []" using h(5) by (cases v; simp)+
  have d: "dropWhile (\<lambda>b. junk b) (js @ item (t, v) @ r) = item (t, v) @ r" using takeWhile_stop [OF assms(2), of "item (t, v) @ r"] h(1) unfolding hd by blast
  show ?thesis
  proof (cases v)
    case None
    have s: "takeWhile (\<lambda>b. b \<notin> {44, 61, 13, 10, 0}) (t @ r) = t" using takeWhile_stop [OF h(2), of r] assms(4) by auto
    show ?thesis using d h(3-5) s assms(3,4) unfolding nextvar_def None by (auto simp: after_def Let_def)
  next
    case (Some w)
    have w: "value_ok w" using assms(1) Some by simp
    have s: "takeWhile (\<lambda>b. b \<notin> {44, 61, 13, 10, 0}) (t @ 61 # w @ r) = t" using takeWhile_stop [OF h(2), of "61 # w @ r"] by auto
    have wr: "w @ r \<noteq> []" using assms(3) by simp
    have "\<not> (isspace_b (hd (w @ r)) \<and> hd (w @ r) \<noteq> 13 \<and> hd (w @ r) \<noteq> 10)"
      using w assms(3,4) by (cases w) (auto simp: value_ok_def clean_def quoted_def)
    then have dw: "dropWhile (\<lambda>b. isspace_b b \<and> b \<noteq> 13 \<and> b \<noteq> 10) (w @ r) = w @ r" using takeWhile_stop [of "[]" "\<lambda>b. isspace_b b \<and> b \<noteq> 13 \<and> b \<noteq> 10" "w @ r"] by simp
    have lw: "\<not> length w \<ge> 2048" using w by (simp add: value_ok_def)
    have sw: "strip_end w = w"
    proof (rule strip_end_clean)
      have "quoted w \<Longrightarrow> clean w" by (auto simp: quoted_def clean_def)
      then show "clean w" using w by (auto simp: value_ok_def)
    qed
    have "nextvar beyond (js @ t @ 61 # w @ r) = Some (Var t (Some w) (if r \<noteq> [] \<and> hd r = 44 then tl r else r))"
    proof -
      have d': "dropWhile (\<lambda>b. junk b) (js @ t @ 61 # w @ r) = t @ 61 # w @ r" using d Some by simp
      show ?thesis unfolding nextvar_def d' Let_def s h(3) using h(4) assms(3,4) wr lw by (simp add: dw value_at_value [OF w assms(3,4)] sw)
    qed
    then show ?thesis using assms(3) by (simp add: Some after_def)
  qed
qed

lemma nextvar_end: "\<forall>b\<in>set js. junk b \<Longrightarrow> nextvar beyond js = Some No_var"
  using takeWhile_stop [of js "\<lambda>b. junk b" "[]"] by (simp add: nextvar_def Let_def)

lemma all_vars_layout:
  assumes "var_ok v" "list_all var_ok vs" "\<forall>b\<in>set js. junk b"
  shows "all_vars beyond (js @ item v @ layout n (map item vs) @ [13, 10]) = Some (v # vs)"
  using assms
proof (induction vs arbitrary: v js n)
  case Nil
  obtain t w where v: "v = (t, w)" by (cases v)
  have "all_vars beyond (after w [13, 10]) = Some []" unfolding all_vars.simps [of beyond "after w [13, 10]"] by (subst nextvar_end) (auto simp: after_def)
  moreover have "length (after w [13, 10]) < length (js @ item v @ [13, 10])" using Nil.prems(1) by (cases w) (auto simp: v after_def tag_ok_def)
  ultimately show ?case using nextvar_item [of t w js "[13, 10]" beyond] Nil.prems by (simp add: v all_vars.simps [of beyond "js @ item (t, w) @ [13, 10]"])
next
  case (Cons x xs)
  obtain t w where v: "v = (t, w)" by (cases v)
  let ?s = "separator n (length (item x))"
  let ?l = "layout (line_after n (length (item x))) (map item xs) @ [13, 10]"
  let ?r = "?s @ item x @ ?l"
  have x: "var_ok x" "list_all var_ok xs" using Cons.prems(2) by simp_all
  have s: "hd ?r = 44" "?r \<noteq> []" "after w ?r = tl ?s @ item x @ ?l" "\<forall>b\<in>set (tl ?s). junk b" by (auto simp: separator_def after_def)
  have "length (after w ?r) < length (js @ item v @ ?r)" unfolding s(3) by (auto simp: separator_def)
  moreover have "nextvar beyond (js @ item v @ ?r) = Some (Var t w (after w ?r))" using nextvar_item [of t w js ?r beyond] Cons.prems(1,3) s(1,2) by (simp add: v)
  moreover have "all_vars beyond (after w ?r) = Some (x # xs)" unfolding s(3) using Cons.IH [OF x s(4)] .
  ultimately have "all_vars beyond (js @ item v @ ?r) = Some (v # x # xs)" unfolding all_vars.simps [of beyond "js @ item v @ ?r"] by (simp add: v)
  then show ?case by simp
qed

lemma all_vars_text:
  assumes "list_all var_ok vs"
  shows "all_vars beyond (full_text (map item vs)) = Some vs"
proof (cases vs)
  case Nil
  then show ?thesis using nextvar_end [of "[]" beyond] by (simp add: full_text_def all_vars.simps)
next
  case (Cons v ws)
  then show ?thesis using all_vars_layout [of v ws "[]" beyond] assms by (simp add: full_text_def)
qed

end
