(* ===== verification/Ctl_Query.thy ===== *)
theory Ctl_Query
  imports NTP_Control Ntpq_Response
begin

text \<open>
  A query from end to end: the request that \<^verbatim>\<open>ntpq\<close> makes, what \<^verbatim>\<open>ntpd\<close> does with it, the messages it sends, and what \<^verbatim>\<open>ntpq\<close> makes of them in whatever order they
  arrive.
\<close>

unbundle bit_operations_syntax

section \<open>Variables that are put one after the other\<close>

lemma put_items_append: "put_items ev (xs @ ys) c = put_items ev xs c \<bind> put_items ev ys"
  by (induction xs arbitrary: c) (auto simp: Option.bind_assoc cong: bind_option_cong)

lemma put_each_append: "put_each f ev (is @ js) c = put_each f ev is c \<bind> put_each f ev js"
  by (induction "is" arbitrary: c) (auto simp: Option.bind_assoc cong: bind_option_cong)

lemma put_each_Nil: "m \<bind> put_each f ev [] = m"
  by (cases m) simp_all

lemma layout_length_append: "length (layout n xs) \<le> length (layout n (xs @ ys))"
  by (induction xs arbitrary: n) auto

lemma full_text_append: "length (full_text xs) \<le> length (full_text (xs @ ys))"
  using layout_length_append by (cases xs) (auto simp: full_text_def)

lemma put_items_frame:
  assumes "ctl_ok ev c" "datapt c = 0" "res_offset c = 0" "datalinelen c = 0" "list_all item_ok xs" "length (full_text xs) < 2 ^ 31 - 504"
  shows "\<exists>c1. put_items ev xs c = Some c1 \<and> res_frame c c1"
proof (cases xs)
  case (Cons y ys)
  have y: "length y \<le> 465" "y \<noteq> []" "list_all item_ok ys" using assms(5) Cons by (simp_all add: item_ok_def [of y])
  have e: "pending c = []" using assms(2) by (simp add: pending_def)
  obtain c1 fs1 where c1: "ctl_putdata ev y False c = Some c1" "progress ev c c1 fs1" "frag_text fs1 @ pending c1 = y" "datanotbinflag c1" "datalinelen c1 = int (length y)" "length y \<le> datapt c1" "datapt c1 \<le> 465"
    using ctl_putdata_ok [OF progress_start [OF assms(1-3)], of y False] y(1) assms(2,4) e by (auto simp: put_sep_def put_line_def)
  have "0 < datapt c1" using c1(6) y(2) by (cases y) auto
  moreover have "frag_text fs1 @ pending c1 @ layout (datalinelen c1) ys = text_of xs" using arg_cong [OF c1(3), of "\<lambda>t. t @ layout (datalinelen c1) ys"] c1(5) Cons by simp
  ultimately obtain c2 fs2 where "put_items ev ys c1 = Some c2" "progress ev c c2 fs2"
    using put_layout [OF c1(2) _ c1(7) _ _ y(3) _ c1(4)] c1(5) y(1) assms(6) Cons by (auto simp: full_text_def)
  then show ?thesis using Cons c1(1) by (auto simp: progress_def)
qed simp

lemma put_each_items:
  assumes "ctl_ok ev c" "datapt c = 0" "res_offset c = 0" "datalinelen c = 0" "\<And>i d. i \<in> set is \<Longrightarrow> other_parts (dm d) = other_parts (dm c) \<Longrightarrow> f i d = xs i"
    "list_all item_ok (concat (map xs is))" "length (full_text (concat (map xs is))) < 2 ^ 31 - 504"
  shows "put_each f ev is c = put_items ev (concat (map xs is)) c"
  using assms(5-7)
proof (induction "is" rule: rev_induct)
  case (snoc i js)
  let ?p = "concat (map xs js)"
  have p: "list_all item_ok ?p" "length (full_text ?p) < 2 ^ 31 - 504" using snoc.prems(2,3) full_text_append [of ?p "xs i"] by auto
  obtain d where d: "put_items ev ?p c = Some d" "res_frame c d" using put_items_frame [OF assms(1-4) p] by blast
  have "f i d = xs i" using snoc.prems(1) d(2) by (simp add: res_frame_def)
  moreover have "put_each f ev js c = Some d" using snoc.IH [OF _ p] snoc.prems(1) d(1) by auto
  ultimately show ?case using d(1) by (simp add: put_each_append put_items_append put_each_Nil)
qed simp

section \<open>Request and response\<close>

lemma request_bytes:
  assumes "sendrequest ev op 2 0 False [] q = Some (0, req, q1)" "\<not> always_auth q" "length (stack op) = 504"
  shows "req = [PKT_LI_VN_MODE 0 (pktversion q) MODE_CONTROL, 2] @ htons_bytes (sequence q) @ replicate 8 0" "q1 = q"
proof -
  have "pad_len 4 12 = 0" by (simp add: pad_len_def)
  then show "req = [PKT_LI_VN_MODE 0 (pktversion q) MODE_CONTROL, 2] @ htons_bytes (sequence q) @ replicate 8 0" "q1 = q"
    using assms by (auto simp: sendrequest_def request_packet_def zeros_to_def write_at_def ctl_memory_def htons_bytes_def numeral_eq_Suc split: if_splits)
qed

lemma plain_request:
  fixes c :: ctl
  assumes "recv_buf rb = [PKT_LI_VN_MODE 0 v MODE_CONTROL, 2] @ htons_bytes s @ replicate 8 0" "recv_length rb = 12" "1 \<le> v" "v \<le> 4"
  defines "c1 \<equiv> (start_response rb (c\<lparr>numctlreq := numctlreq c + 1, rmt_addr := recv_srcadr rb, lcl_inter := rdstadr rb\<rparr>))\<lparr>reqpt := []\<rparr>"
  shows "process_control env rb mk c = read_sysvars env c1" "c_sequence (rpkt c1) = s" "c_li_vn_mode (rpkt c1) = PKT_LI_VN_MODE (sys_leap (dm c)) v MODE_CONTROL" "res_opcode c1 = 2"
proof -
  let ?c0 = "c\<lparr>numctlreq := numctlreq c + 1, rmt_addr := recv_srcadr rb, lcl_inter := rdstadr rb\<rparr>"
  have v: "v = 1 \<or> v = 2 \<or> v = 3 \<or> v = 4"
  proof -
    have "unat v \<in> {1, 2, 3, 4}" using assms(3,4) by (auto simp: word_le_nat_alt)
    then show ?thesis by (auto simp: word_unat_eq_iff)
  qed
  then have v7: "v AND 7 = v" by auto
  have b: "byte_at rb 0 = PKT_LI_VN_MODE 0 v MODE_CONTROL" "byte_at rb 1 = 2" "be16_at rb 2 = s" "be16_at rb 6 = 0" "be16_at rb 8 = 0" "be16_at rb 10 = 0"
  proof -
    have x: "byte_at rb 2 = ucast (drop_bit 8 s)" "byte_at rb 3 = ucast s" "\<And>i. 4 \<le> i \<Longrightarrow> byte_at rb i = 0"
      unfolding byte_at_def assms(1) htons_bytes_def by (simp_all add: nth_Cons' nth_append)
    show "byte_at rb 0 = PKT_LI_VN_MODE 0 v MODE_CONTROL" "byte_at rb 1 = 2" unfolding byte_at_def assms(1) htons_bytes_def by simp_all
    show "be16_at rb 2 = s" using x(1,2) ntohs_htons [of s] by (simp add: be16_at_def)
    show "be16_at rb 6 = 0" "be16_at rb 8 = 0" "be16_at rb 10 = 0" using x(3) by (simp_all add: be16_at_def)
  qed
  have pv: "PKT_VERSION (byte_at rb 0) = v" unfolding b(1) using v7 mode_byte by simp
  have f: "\<not> (recv_length rb < 12 \<or> (CTL_RESPONSE OR CTL_MORE OR CTL_ERROR) AND byte_at rb 1 \<noteq> 0 \<or> be16_at rb 8 \<noteq> 0)" using b assms(2) by simp
  have ve: "\<not> (PKT_VERSION (byte_at rb 0) > NTP_VERSION \<or> PKT_VERSION (byte_at rb 0) < NTP_OLDVERSION)" unfolding pv using v by auto
  have l: "\<not> (recv_length rb - 12 < int (unat (be16_at rb 10)) \<or> recv_length rb mod 4 \<noteq> 0)" using assms(2) b(6) by simp
  have a: "ctl_authenticate env rb d = Some d" for d unfolding ctl_authenticate_def Let_def b(6) assms(2) by simp
  have h: "res_opcode c1 = 2" "res_associd c1 = 0" using b by (simp_all add: c1_def start_response_def Let_def)
  have "ctl_handler env rb mk c1 = read_sysvars env c1" using h by (simp add: ctl_handler_def Let_def read_variables_def)
  moreover have "map_of control_codes (res_opcode c1) = Some False" using h by (simp add: control_codes_def)
  ultimately show "process_control env rb mk c = read_sysvars env c1"
    unfolding process_control_def Let_def if_not_P [OF f] if_not_P [OF ve] if_not_P [OF l] a bind.bind_lunit
    unfolding b(6) by (simp add: c1_def)
  show "c_sequence (rpkt c1) = s" "c_li_vn_mode (rpkt c1) = PKT_LI_VN_MODE (sys_leap (dm c)) v MODE_CONTROL" "res_opcode c1 = 2"
    using b pv h by (simp_all add: c1_def start_response_def Let_def)
qed

lemma read_sysvars_default:
  assumes "reqpt c = []" "\<not> res_authokay c" "length (ext_list (ext_sys_var c)) \<le> 65535"
  shows "read_sysvars env c = do {
    d \<leftarrow> put_each (sys_items env) (ctl_evp env) def_sys_var (set_status (ctlsysstatus c) c);
    d \<leftarrow> put_items (ctl_evp env) (map cv_text (filter (\<lambda>v. DEF AND cv_flags v \<noteq> 0) (ext_list (ext_sys_var d)))) d;
    ctl_flushpkt (ctl_evp env) 0 d }"
proof -
  let ?c = "set_status (ctlsysstatus c) c"
  have r: "reqpt ?c = []" "\<not> res_authokay ?c" "ext_sys_var ?c = ext_sys_var c" "?c\<lparr>reqpt := []\<rparr> = ?c" using assms(1,2) by (simp_all add: set_status_def)
  have g: "ctl_getitem (ctl_evp env) (Some sys_var) ?c = Some (Item_none, ?c)" using r by (simp add: ctl_getitem_def Let_def)
  obtain n where n: "count_var (ext_sys_var ?c) = Some n" using assms(3) r(3) by (cases "ext_sys_var c") (auto simp: count_var_def ext_list_def)
  have w: "wanted (ctl_evp env) sys_var 88 (ext_sys_var ?c) ws False ?c = Some (Some (ws, False), ?c)" for ws using g by (simp add: wanted.simps)
  show ?thesis unfolding read_sysvars_def Let_def if_not_P [OF r(2)] n bind.bind_lunit w by simp
qed

text \<open>C3: A client asks for the default variables without authentication.  The server returns; it sends messages to the client only; and if these are at most 32, the client, from the
  messages in any order, repeated at will and mixed with others that do not answer the request, reads exactly the variables that the server put, with the system's
  status.  Names and values have the form that \<^verbatim>\<open>ntpq\<close> can read, and no item is longer than 465 octets.\<close>

theorem query_reads_what_server_put:
  assumes "sendrequest ev op 2 0 False [] q = Some (0, req, q1)" "\<not> always_auth q" "length (stack op) = 504" "1 \<le> pktversion q" "pktversion q \<le> 4" "length (pktdata q) = 15360"
    "recv_buf rb = req" "recv_length rb = 12"
    "length (c_data (rpkt c)) = 504" "length (ext_list (ext_sys_var c)) \<le> 65535"
    "\<And>i d. i \<in> set def_sys_var \<Longrightarrow> other_parts (dm d) = other_parts (dm c) \<Longrightarrow> sys_items env i d = map item (vars i)"
    "map cv_text (filter (\<lambda>v. DEF AND cv_flags v \<noteq> 0) (ext_list (ext_sys_var c))) = map item evs"
    "vs = concat (map vars def_sys_var) @ evs" "list_all var_ok vs" "list_all item_ok (map item vs)" "length (full_text (map item vs)) \<le> 15360"
  shows "\<exists>c' ms. process_control env rb mk c = Some c' \<and> outbox (dm c') = outbox (dm c) @ ms \<and> (\<forall>x\<in>set ms. to_adr x = recv_srcadr rb) \<and>
    (length ms \<le> 32 \<longrightarrow> (\<forall>es. (\<forall>x\<in>set ms. Received (to_bytes x) \<in> set es) \<and> (\<forall>e\<in>set es. \<exists>bs. e = Received bs \<and> (foreign 2 (sequence q) bs \<or> bs \<in> to_bytes ` set ms)) \<longrightarrow>
      (\<exists>q2 n rest. getresponse 2 es q1 = Some (0, n, ctlsysstatus c, q2, rest) \<and> all_vars beyond (take n (pktdata q2)) = Some vs)))"
proof -
  note rq = request_bytes [OF assms(1-3)]
  define c1 where "c1 = (start_response rb (c\<lparr>numctlreq := numctlreq c + 1, rmt_addr := recv_srcadr rb, lcl_inter := rdstadr rb\<rparr>))\<lparr>reqpt := []\<rparr>"
  note pl = plain_request [OF assms(7) [unfolded rq(1)] assms(8,4,5), where c = c, folded c1_def]
  define c2 where "c2 = set_status (ctlsysstatus c1) c1"
  have st: "ctlsysstatus c1 = ctlsysstatus c" by (cases "sys_peer (dm c)") (simp_all add: ctlsysstatus_def c1_def start_response_def Let_def)
  have c2: "ctl_ok (ctl_evp env) c2" "datapt c2 = 0" "res_offset c2 = 0" "datalinelen c2 = 0" "\<not> datanotbinflag c2" "dm c2 = dm c" "ext_sys_var c2 = ext_sys_var c"
    "c_status (rpkt c2) = ctlsysstatus c" "rmt_addr c2 = recv_srcadr rb" "c_sequence (rpkt c2) = sequence q" "c_li_vn_mode (rpkt c2) = PKT_LI_VN_MODE (sys_leap (dm c)) (pktversion q) MODE_CONTROL" "res_opcode c2 = 2"
    unfolding c2_def set_status_def st using assms(9) pl(2-4) by (simp_all add: c1_def start_response_def Let_def ctl_ok_def)
  let ?ds = "concat (map (\<lambda>i. map item (vars i)) def_sys_var)"
  have all: "map item vs = ?ds @ map item evs" by (simp add: assms(13) map_concat comp_def)
  have ok: "list_all item_ok ?ds" "length (full_text ?ds) < 2 ^ 31 - 504" using assms(15,16) full_text_append [of ?ds "map item evs"] unfolding all by auto
  have pe: "put_each (sys_items env) (ctl_evp env) def_sys_var c2 = put_items (ctl_evp env) ?ds c2"
    using put_each_items [OF c2(1-4) _ ok] assms(11) c2(6) by simp
  obtain d where d: "put_items (ctl_evp env) ?ds c2 = Some d" "res_frame c2 d" using put_items_frame [OF c2(1-4) ok] by blast
  have ed: "ext_sys_var d = ext_sys_var c" using d(2) c2(7) by (simp add: res_frame_def)
  have big: "length (full_text (map item vs)) < 2 ^ 31 - 504" using assms(16) by simp
  obtain d2 c' gs ms where r: "put_items (ctl_evp env) (map item vs) c2 = Some d2" "ctl_flushpkt (ctl_evp env) 0 d2 = Some c'" "outbox (dm c') = outbox (dm c2) @ ms" "sent_as c2 gs ms" "whole gs" "frag_text gs = full_text (map item vs)"
    using put_items_ok [OF c2(1-5) assms(15) big] by blast
  have "put_items (ctl_evp env) (map item evs) d = Some d2" using r(1) d(1) unfolding all put_items_append by simp
  then have pc: "process_control env rb mk c = Some c'"
    unfolding pl(1) using read_sysvars_default [of c1 env, folded c2_def] assms(10,12) pe d(1) ed r(2) by (simp add: c1_def start_response_def Let_def)
  have adr: "\<forall>x\<in>set ms. to_adr x = recv_srcadr rb"
    using r(4) c2(9) unfolding sent_as_def by (auto simp: list_all2_conv_all_nth in_set_conv_nth)
  have rp: "replies_to 2 (sequence q1) c2"
  proof -
    have "pktversion q AND 7 = pktversion q"
    proof -
      have "unat (pktversion q) \<in> {1, 2, 3, 4}" using assms(4,5) by (auto simp: word_le_nat_alt)
      then have "pktversion q \<in> {1, 2, 3, 4}" by (auto simp: word_unat_eq_iff)
      then show ?thesis by auto
    qed
    then show ?thesis using c2(10-12) assms(4,5) by (simp add: replies_to_def mode_byte MODE_CONTROL_def rq(2))
  qed
  have gr: "\<exists>q2 n rest. getresponse 2 es q1 = Some (0, n, ctlsysstatus c, q2, rest) \<and> all_vars beyond (take n (pktdata q2)) = Some vs"
    if "length ms \<le> 32" "\<forall>x\<in>set ms. Received (to_bytes x) \<in> set es" "\<forall>e\<in>set es. \<exists>bs. e = Received bs \<and> (foreign 2 (sequence q) bs \<or> bs \<in> to_bytes ` set ms)" for es
  proof -
    note t = that
    have fit: "length (frag_text gs) \<le> 15360" "length (pktdata q1) = 15360" using r(6) assms(6,16) rq(2) by simp_all
    obtain q2 rest where g: "getresponse 2 es q1 = Some (0, length (frag_text gs), c_status (rpkt c2), q2, rest)" "take (length (frag_text gs)) (pktdata q2) = frag_text gs"
      using getresponse_whole [OF r(5,4) fit(1) t(1) rp fit(2) t(2)] t(3) rq(2) by auto
    then show ?thesis using all_vars_text [OF assms(14), of beyond] c2(8) r(6) by auto
  qed
  show ?thesis using pc adr gr r(3) c2(6) by (intro exI [of _ c'] exI [of _ ms]) auto
qed

definition demo_client_state :: ntpq where
  "demo_client_state = \<lparr>sequence = 7, pktversion = 2, always_auth = False, havehost = True, info_auth_keyid = 0, info_auth_keytype = 4, info_auth_hashlen = 16, qkeys = auth_zero,
     pktdata = replicate 15360 0\<rparr>"

definition demo_operator :: operator where
  "demo_operator = \<lparr>ask_keyid = 0, ask_pass = [], send_fails = False, stack = replicate 504 0\<rparr>"

definition demo_vars :: "nat \<Rightarrow> (u_char list \<times> u_char list option) list" where
  "demo_vars i = (if i = 2 then [(bytes ''stratum'', Some (bytes ''3''))] else [])"

definition demo_sys :: cenv where
  "demo_sys = demo_cenv\<lparr>sys_items := (\<lambda>i _. map item (demo_vars i))\<rparr>"

lemma demo_query_sent:
  "map_option (\<lambda>c. length (outbox (dm c))) (process_control demo_sys (demo_rbuf 12 [0x16, 2, 0, 7, 0, 0, 0, 0, 0, 0, 0, 0]) 0 idle_ctl) = Some 1"
  by code_simp

theorem query_reads_what_server_put_witness:
  "\<exists>c' x q2 n rest. process_control demo_sys (demo_rbuf 12 [0x16, 2, 0, 7, 0, 0, 0, 0, 0, 0, 0, 0]) 0 idle_ctl = Some c' \<and> outbox (dm c') = [x] \<and>
     getresponse 2 [Received [], Received (to_bytes x)] demo_client_state = Some (0, n, ctlsysstatus idle_ctl, q2, rest) \<and>
     all_vars None (take n (pktdata q2)) = Some (concat (map demo_vars def_sys_var))"
proof -
  let ?rb = "demo_rbuf 12 [0x16, 2, 0, 7, 0, 0, 0, 0, 0, 0, 0, 0]"
  have s: "sendrequest (ctl_evp demo_sys) demo_operator 2 0 False [] demo_client_state = Some (0, [0x16, 2, 0, 7, 0, 0, 0, 0, 0, 0, 0, 0], demo_client_state)"
    by (simp add: sendrequest_def request_packet_def zeros_to_def write_at_def ctl_memory_def htons_bytes_def pad_len_def demo_client_state_def demo_operator_def PKT_LI_VN_MODE_def VN_MODE_def MODE_CONTROL_def)
  have i: "sys_items demo_sys i d = map item (demo_vars i)" for i d by (simp add: demo_sys_def)
  have t: "list_all var_ok (concat (map demo_vars def_sys_var) @ [])" "list_all item_ok (map item (concat (map demo_vars def_sys_var) @ []))" "length (full_text (map item (concat (map demo_vars def_sys_var) @ []))) \<le> 15360"
    by code_simp+
  have c: "length (c_data (rpkt idle_ctl)) = 504" "ext_list (ext_sys_var idle_ctl) = []" "outbox (dm idle_ctl) = []" by (simp_all add: idle_ctl_def ext_list_def demo_daemon_def)
  have q: "\<not> always_auth demo_client_state" "length (stack demo_operator) = 504" "1 \<le> pktversion demo_client_state" "pktversion demo_client_state \<le> 4" "length (pktdata demo_client_state) = 15360"
    by (simp_all add: demo_client_state_def demo_operator_def)
  obtain c' ms where r: "process_control demo_sys ?rb 0 idle_ctl = Some c'" "outbox (dm c') = outbox (dm idle_ctl) @ ms"
    "length ms \<le> 32 \<longrightarrow> (\<forall>es. (\<forall>x\<in>set ms. Received (to_bytes x) \<in> set es) \<and> (\<forall>e\<in>set es. \<exists>bs. e = Received bs \<and> (foreign 2 (sequence demo_client_state) bs \<or> bs \<in> to_bytes ` set ms)) \<longrightarrow>
      (\<exists>q2 n rest. getresponse 2 es demo_client_state = Some (0, n, ctlsysstatus idle_ctl, q2, rest) \<and> all_vars None (take n (pktdata q2)) = Some (concat (map demo_vars def_sys_var) @ [])))"
    using query_reads_what_server_put [OF s q, of ?rb idle_ctl demo_sys demo_vars "[]" _ 0 None] i t c by (auto simp: demo_rbuf_def)
  have "length (outbox (dm c')) = 1" using demo_query_sent r(1) by simp
  then obtain x where x: "ms = [x]" using r(2) c(3) by (cases ms) auto
  have "foreign 2 (sequence demo_client_state) []" by (simp add: foreign_def)
  then show ?thesis using r(1,2) r(3) [rule_format, of "[Received [], Received (to_bytes x)]"] x c(3) by auto
qed

end
