(* ===== verification/Spec2Isabelle.thy ===== *)
theory Spec2Isabelle
  imports
    NTP_Fp Calendar_Core Gregorian ISO_Calendar Calendar_Stamps Timespec_Ops Timeval_Ops
    NTP_Lists NTP_Dlist Recv_Buff Prio_Queue Auth_Keys Lfp_Strings Sock_Addr NTP_Restrict NTP_Monitor NTP_Peer NTP_Proto NTP_Daemon
    Ctl_Response Ctl_Vars NTP_Control NTP_Main Ntpq_Response Ctl_Query
begin

text \<open>
  A verification of the core of the NTP reference implementation: the time formats and the calendar of the
  library \<^verbatim>\<open>libntp\<close>, the intrusive lists of \<^verbatim>\<open>include/ntp_lists.h\<close>, and the parts of the library and
  of the daemon \<^verbatim>\<open>ntpd\<close> that are built on them: the pool of receive buffers, the priority queue of the
  simulator, the store of symmetric keys, the access restrictions, the monitor with its rate limits, the associations, the
  protocol machine that joins them, and the control protocol between the daemon and the query program \<^verbatim>\<open>ntpq\<close>.

  \<^bold>\<open>How the parts interact.\<close>  A packet is read into a buffer of the pool, its source address is looked up in the
  list of restrictions, the monitor counts it and decides whether its source sends too often, its authentication code is
  checked with a key of the store, the association of its source is found or mobilised, and its time stamps, in the
  64-bit fixed-point format \<^verbatim>\<open>l_fp\<close>, are checked and handed to the clock filter.  Once a second the timer polls the
  associations that are due; the main loop takes buffers and seconds in turn.  Control messages leave the protocol machine for
  \<^verbatim>\<open>process_control\<close>, which checks their code with the same keys and answers with the variables of the daemon in fragments that \<^verbatim>\<open>ntpq\<close> puts together.  Stamps wrap every 136 years and are
  unfolded around a pivot, turned into calendar dates and back (for reference clocks, log files and leap seconds),
  or converted to the operating system's \<^verbatim>\<open>timespec\<close> and \<^verbatim>\<open>timeval\<close>.  Buffers, keys and restrictions are all
  kept in intrusive lists, so that the list theories come before them.

  \<^bold>\<open>Conventions.\<close>  An unsigned C integer is a word of its width (\<^verbatim>\<open>u_char\<close> 8, \<^verbatim>\<open>u_short\<close> 16, \<^verbatim>\<open>u_int32\<close> 32 bits,
  \<^verbatim>\<open>unsigned long\<close> 64); a signed one is an \<open>int\<close> with the wrap \<open>s32\<close> or \<open>s64\<close> written where the code computes
  at that width; \<^verbatim>\<open>/\<close> and \<^verbatim>\<open>%\<close> of C truncate and are \<open>sdiv\<close> and \<open>smod\<close>.  A struct is a record.  Pointers
  are natural numbers, memory is a map from them, and \<open>None\<close> is the result of a failed assertion, of a
  dereferenced \<^verbatim>\<open>NULL\<close>, of an end of the program or of a loop that does not end; the theorems state when a result is returned.  Loops over
  linked memory are \<open>partial_function (option)\<close>, so that no bound or fuel is chosen anywhere.  The
  system clock, the pivot and the digest library are arguments.  Logging, locking and debug output are left out.

  \<^bold>\<open>Theories.\<close>
  \<^item> \<open>NTP_Prelude\<close>: C integer arithmetic, wraps, floor division, facts on lists and options, and sequences of operations with the
    locale \<open>refined_machine\<close>: a machine that implements an abstract one step by step does so on every sequence.
  \<^item> \<open>NTP_Fp\<close>: the macros of \<^verbatim>\<open>include/ntp_fp.h\<close>.  The two-word macros are 64-bit arithmetic, shifts and
    comparisons; the conversions to the 32-bit formats lose nothing within their range, and their saturation test
    misses part of the values out of range.
  \<^item> \<open>Calendar_Core\<close>: the first half of \<^verbatim>\<open>libntp/ntp_calendar.c\<close>: 64-bit times (\<^verbatim>\<open>vint64\<close>), periodic extension,
    unfolding of NTP stamps, splitting of days and times, with the variants for compilers without 64-bit integers,
    which are proved equal.
  \<^item> \<open>Gregorian\<close>: leap years, eras, days and months, dates, day-of-week searches: each conversion is right and has
    its inverse.  \<open>ISO_Calendar\<close>: the ISO 8601 weeks of the same file.
  \<^item> \<open>Calendar_Stamps\<close>: \<^verbatim>\<open>caljulian.c\<close>, \<^verbatim>\<open>caltontp.c\<close>, \<^verbatim>\<open>calyearstart.c\<close>, \<^verbatim>\<open>clocktime.c\<close>, \<^verbatim>\<open>ymd2yd.c\<close>.
  \<^item> \<open>Timespec_Ops\<close>, \<open>Timeval_Ops\<close>: \<^verbatim>\<open>include/timespecops.h\<close>, \<^verbatim>\<open>include/timevalops.h\<close>: the operations refine
    integer arithmetic on nanoseconds and microseconds, and the conversions from and to \<^verbatim>\<open>l_fp\<close> are inverse.
  \<^item> \<open>NTP_Lists\<close>, \<open>NTP_Dlist\<close>: the singly linked lists, FIFOs and doubly linked lists of \<^verbatim>\<open>include/ntp_lists.h\<close>,
    on an explicit heap.  The locale \<open>fifo_queue\<close> is the contract of a FIFO: a client of it never underflows.
  \<^item> \<open>Recv_Buff\<close>: \<^verbatim>\<open>libntp/recvbuff.c\<close>, with the reachable states of the pool and their invariant.
  \<^item> \<open>Prio_Queue\<close>: \<^verbatim>\<open>ntpd/ntp_prio_q.c\<close>, a second provider of the FIFO contract, and the event order of
    \<^verbatim>\<open>ntpd/ntpsim.c\<close>.
  \<^item> \<open>Auth_Keys\<close>: \<^verbatim>\<open>libntp/authkeys.c\<close> and \<^verbatim>\<open>libntp/a_md5encrypt.c\<close>: the key list, the hash chains, the cache and
    the secrets, as a refinement of a map from key identifiers; the authentication codes.
  \<^item> \<open>C_Strings\<close>: character classes, decimal texts, and the readers \<^verbatim>\<open>libntp/atouint.c\<close>, \<^verbatim>\<open>atoint.c\<close>, \<^verbatim>\<open>octtoint.c\<close>, \<^verbatim>\<open>hextoint.c\<close>, instances
    of the locale \<open>digit_reader\<close>: they accept exactly the numbers in range.
  \<^item> \<open>Lfp_Strings\<close>: \<^verbatim>\<open>libntp/atolfp.c\<close>, \<^verbatim>\<open>mstolfp.c\<close>, \<^verbatim>\<open>hextolfp.c\<close>, \<^verbatim>\<open>dolfptoa.c\<close>, \<^verbatim>\<open>dofptoa.c\<close>, \<^verbatim>\<open>timetoa.c\<close>: the accepted syntax, the values read, the digits
    printed, and the round trips between them.
  \<^item> \<open>Sock_Addr\<close>: the addresses of \<^verbatim>\<open>include/ntp_net.h\<close>, their comparison and hash (\<^verbatim>\<open>libntp/socktoa.c\<close>), \<^verbatim>\<open>netof.c\<close>, \<^verbatim>\<open>numtoa.c\<close>.
  \<^item> \<open>NTP_Monitor\<close>: \<^verbatim>\<open>ntpd/ntp_monitor.c\<close> and the \<^verbatim>\<open>mru\<close> and \<^verbatim>\<open>discard\<close> options of \<^verbatim>\<open>ntpd/ntp_config.c\<close>: an instance of \<open>refined_machine\<close> over the
    list of the most recent hosts, the bound on its memory, when it fails, and the rates it admits.  The counters are 32 bits wide and
    the theorems ask for depths and allocations (\<open>cfg_ok\<close>) whose sum fits.
  \<^item> \<open>NTP_Restrict\<close>: \<^verbatim>\<open>ntpd/ntp_restrict.c\<close>: sorted insertion, changes, removal and lookup, for both address
    families through the locale \<open>res_family\<close>.
  \<^item> \<open>NTP_Peer\<close>: \<^verbatim>\<open>ntpd/ntp_peer.c\<close> with \<^verbatim>\<open>peer_clear\<close> and \<^verbatim>\<open>peer_unfit\<close> of \<^verbatim>\<open>ntp_proto.c\<close> and \<^verbatim>\<open>refclock_newpeer\<close>: the list of associations, the two hash tables,
    the lists of the interfaces and the free list, in every state that the operations reach; the lookups are searches of the list.
  \<^item> \<open>NTP_Proto\<close>: \<^verbatim>\<open>ntpd/ntp_proto.c\<close> and the timer of \<^verbatim>\<open>ntpd/ntp_timer.c\<close>: reception (formats, restrictions, rate limits, authentication, the cases of the
    association table, the time stamp checks, the kiss-o'-death), the processing of packets up to the clock filter, polling and transmission.  The record
    \<open>daemon\<close> holds the other parts, the system variables, the packets sent and what is handed to other parts; \<open>renv\<close> holds the clock readings, random choices, the digest library
    and the clock filter and drivers as functions.
    The restrictions record their calls of \<^verbatim>\<open>mon_start\<close> and \<^verbatim>\<open>mon_stop\<close>; \<open>put_peers\<close> carries them out on the monitor.
  \<^item> \<open>NTP_Daemon\<close>: the invariant of the whole daemon.  Reception and the timer keep it, and return unless the clock filter or a driver ends the program: they return in
    \<open>returning env\<close>, where the clock filter and the drivers do nothing instead of ending it.
  \<^item> \<open>Ctl_Response\<close>: the assembly of responses to control messages in \<^verbatim>\<open>ntpd/ntp_control.c\<close>: an item goes into the packet \<^verbatim>\<open>rpkt\<close>, a full packet is sent as a fragment, with an
    authentication code on request; the fragments of a response follow each other without holes and their data are the items in order, separated as the code does it.
  \<^item> \<open>Ctl_Vars\<close>: the tables of variables and status words of \<^verbatim>\<open>ntp_control.c\<close>, the reader of the items of a request, and the variables of the configuration, which are a map from names to values.
  \<^item> \<open>NTP_Control\<close>: \<^verbatim>\<open>process_control\<close>, the handlers of the operations, traps and events.  The record \<open>ctl\<close> holds the variables of the file and the daemon; \<open>cenv\<close> holds the texts of the
    variables, the parser of configurations and the handlers that are not modelled, as functions.
  \<^item> \<open>NTP_Main\<close>: the main loop of \<^verbatim>\<open>ntpd/ntpd.c\<close>: seconds of the timer and buffers, each with its receiver; the control messages that \<^verbatim>\<open>receive\<close> permits go to \<^verbatim>\<open>process_control\<close>, which keeps the
    invariant of the daemon.  The processing of private messages and the input routines of the drivers are arguments, assumed to keep it when they return.
  \<^item> \<open>Ntpq_Response\<close>: \<^verbatim>\<open>sendrequest\<close>, \<^verbatim>\<open>getresponse\<close>, \<^verbatim>\<open>doqueryex\<close> and \<^verbatim>\<open>nextvar\<close> of \<^verbatim>\<open>ntpq/ntpq.c\<close>: fragments that arrive in any order are put together to the response.
  \<^item> \<open>Ctl_Query\<close>: client and server together: \<^verbatim>\<open>ntpq\<close> reads the variables that \<^verbatim>\<open>ntpd\<close> put.

  \<^bold>\<open>Not modelled.\<close>  The code is taken as built without Autokey and signd.  The clock filter, selection, loop filter and simulator compute with floating point.  Network
  input and output, name resolution, threads, signals, log and statistics files are system calls.  Autokey needs the
  OpenSSL library.  The configuration scanner runs on generated tables and its parser is generated.  Of the control protocol the texts that \<^verbatim>\<open>ctl_putsys\<close>, \<^verbatim>\<open>ctl_putpeer\<close> and \<^verbatim>\<open>ctl_putclock\<close> make of
  values, mostly floating point, and the handlers of \<^verbatim>\<open>saveconfig\<close>, \<^verbatim>\<open>mrulist\<close> and \<^verbatim>\<open>ordlist\<close> are arguments; the private mode protocol of \<^verbatim>\<open>ntpd/ntp_request.c\<close> is an argument of the main loop.  The ISC library, libevent, libopts and the replacement
  \<^verbatim>\<open>snprintf\<close> are third-party code.  The reference clock drivers are device input and output.
\<close>

end
